(* ===== verification/Prelude.thy ===== *)
theory Prelude
  imports Main "HOL-Library.Monad_Syntax" "HOL-Library.Sublist"
begin

text \<open>
  Shared vocabulary of the development.

  \<^item> Results: a source function that may throw is a function into \<open>'e + 'a\<close>; \<open>Inl\<close> is the
    thrown error. \<open>rbind\<close> sequences two such steps, \<open>rguard\<close> is \<open>if (!ok) throw e\<close>,
    \<open>rmap\<close> and \<open>rfold\<close> are a \<open>for\<close> loop that stops at the first throw.
  \<^item> Own-property lists: a JavaScript object (or a \<open>Map\<close>) is the list of its own entries in
    enumeration order. \<open>own_set\<close> and \<open>own_del\<close> keep that order the way the language
    does: an update keeps the position, a new array-index key goes among the index keys in
    ascending order, any other new key goes last.
  \<^item> Decimal rendering of array indices (\<open>String(n)\<close>) with its inverse.
  \<^item> \<open>indexOf\<close> on lists.
\<close>

named_theorems result_simps \<open>equations that take apart a sequence of fallible steps\<close>
named_theorems own_simps \<open>lookups after updates of an own-property list\<close>

section \<open>Fallible steps\<close>

definition rbind :: "'e + 'a \<Rightarrow> ('a \<Rightarrow> 'e + 'b) \<Rightarrow> 'e + 'b" where
  "rbind m f = (case m of Inl e \<Rightarrow> Inl e | Inr x \<Rightarrow> f x)"

definition rguard :: "bool \<Rightarrow> 'e \<Rightarrow> 'e + unit" where
  "rguard b e = (if b then Inr () else Inl e)"

fun rmap :: "('a \<Rightarrow> 'e + 'b) \<Rightarrow> 'a list \<Rightarrow> 'e + 'b list" where
  "rmap f [] = Inr []"
| "rmap f (x # xs) = rbind (f x) (\<lambda>y. rbind (rmap f xs) (\<lambda>ys. Inr (y # ys)))"

fun rfold :: "('s \<Rightarrow> 'a \<Rightarrow> 'e + 's) \<Rightarrow> 's \<Rightarrow> 'a list \<Rightarrow> 'e + 's" where
  "rfold f s [] = Inr s"
| "rfold f s (x # xs) = rbind (f s x) (\<lambda>s'. rfold f s' xs)"

definition is_ok :: "'e + 'a \<Rightarrow> bool" where
  "is_ok r = (case r of Inl _ \<Rightarrow> False | Inr _ \<Rightarrow> True)"

lemma rbind_Inl [simp]: "rbind (Inl e) f = Inl e"
  by (simp add: rbind_def)

lemma rbind_Inr [simp]: "rbind (Inr x) f = f x"
  by (simp add: rbind_def)

lemma rbind_cong [fundef_cong]:
  "m = m' \<Longrightarrow> (\<And>x. m' = Inr x \<Longrightarrow> f x = g x) \<Longrightarrow> rbind m f = rbind m' g"
  by (auto simp: rbind_def split: sum.splits)

lemma rbind_Inr_right [simp]: "rbind m Inr = m"
  by (cases m) (simp_all add: rbind_def)

lemma rbind_eq_Inr [result_simps]: "rbind m f = Inr y \<longleftrightarrow> (\<exists>x. m = Inr x \<and> f x = Inr y)"
  by (auto simp: rbind_def split: sum.splits)

lemma rbind_eq_Inl [result_simps]:
  "rbind m f = Inl e \<longleftrightarrow> m = Inl e \<or> (\<exists>x. m = Inr x \<and> f x = Inl e)"
  by (auto simp: rbind_def split: sum.splits)

lemma rbind_assoc: "rbind (rbind m f) g = rbind m (\<lambda>x. rbind (f x) g)"
  by (simp add: rbind_def split: sum.splits)

lemma rguard_True [simp]: "rguard True e = Inr ()"
  by (simp add: rguard_def)

lemma rguard_False [simp]: "rguard False e = Inl e"
  by (simp add: rguard_def)

lemma rguard_eq_Inr [result_simps]: "rguard b e = Inr u \<longleftrightarrow> b"
  by (simp add: rguard_def)

lemma rguard_eq_Inl [result_simps]: "rguard b e = Inl e' \<longleftrightarrow> \<not> b \<and> e' = e"
  by (auto simp: rguard_def)

lemma is_ok_simps [simp]: "is_ok (Inr x)" "\<not> is_ok (Inl e)"
  by (simp_all add: is_ok_def)

lemma is_ok_iff: "is_ok r \<longleftrightarrow> (\<exists>x. r = Inr x)"
  by (cases r) auto

lemma rfold_append: "rfold f s (xs @ ys) = rbind (rfold f s xs) (\<lambda>s'. rfold f s' ys)"
  by (induction xs arbitrary: s) (simp_all add: rbind_assoc)

lemma rfold_invariant:
  assumes "rfold f s xs = Inr s'" and "P s"
    and "\<And>s x s'. x \<in> set xs \<Longrightarrow> P s \<Longrightarrow> f s x = Inr s' \<Longrightarrow> P s'"
  shows "P s'"
  using assms
proof (induction xs arbitrary: s)
  case Nil
  then show ?case by simp
next
  case (Cons x xs)
  from Cons.prems(1) obtain t where t: "f s x = Inr t" "rfold f t xs = Inr s'"
    by (auto simp: result_simps)
  have "P t" using Cons.prems(2,3) t(1) by auto
  with t(2) show ?case using Cons.IH Cons.prems(3) by (meson list.set_intros(2))
qed

lemma rmap_append:
  "rmap f (xs @ ys) = rbind (rmap f xs) (\<lambda>as. rbind (rmap f ys) (\<lambda>bs. Inr (as @ bs)))"
proof (induction xs)
  case Nil
  show ?case by (cases "rmap f ys") auto
next
  case (Cons x xs)
  then show ?case by (simp add: rbind_assoc)
qed

lemma rmap_eq_Inr_list_all2: "rmap f xs = Inr ys \<longleftrightarrow> list_all2 (\<lambda>x y. f x = Inr y) xs ys"
  by (induction xs arbitrary: ys) (auto simp: result_simps list_all2_Cons1)

lemma rmap_cong [fundef_cong]:
  "xs = ys \<Longrightarrow> (\<And>x. x \<in> set ys \<Longrightarrow> f x = g x) \<Longrightarrow> rmap f xs = rmap g ys"
  by (induction ys arbitrary: xs) auto

lemma rmap_all_Inr: "(\<And>x. x \<in> set xs \<Longrightarrow> f x = Inr (g x)) \<Longrightarrow> rmap f xs = Inr (map g xs)"
  by (induction xs) auto

lemma rmap_length: "rmap f xs = Inr ys \<Longrightarrow> length ys = length xs"
  by (auto simp: rmap_eq_Inr_list_all2 list_all2_lengthD)

section \<open>Decimal rendering\<close>

definition digit_char :: "nat \<Rightarrow> char" where
  "digit_char d = char_of (48 + d)"

definition digit_val :: "char \<Rightarrow> nat" where
  "digit_val c = of_char c - 48"

fun show_nat :: "nat \<Rightarrow> string" where
  "show_nat n = (if n < 10 then [digit_char n] else show_nat (n div 10) @ [digit_char (n mod 10)])"

declare show_nat.simps [simp del]

fun read_nat :: "string \<Rightarrow> nat" where
  "read_nat s = foldl (\<lambda>n c. 10 * n + digit_val c) 0 s"

lemma digit_val_char [simp]: "d < 10 \<Longrightarrow> digit_val (digit_char d) = d"
  by (simp add: digit_val_def digit_char_def)

lemma show_nat_nonempty [simp]: "show_nat n \<noteq> []"
  by (subst show_nat.simps) simp

lemma read_show_nat [simp]: "read_nat (show_nat n) = n"
proof (induction n rule: show_nat.induct)
  case (1 n)
  show ?case
  proof (cases "n < 10")
    case True
    then show ?thesis by (subst show_nat.simps) simp
  next
    case False
    then have "read_nat (show_nat (n div 10)) = n div 10" using 1 by blast
    with False show ?thesis by (subst show_nat.simps) simp
  qed
qed

lemma show_nat_inj [simp]: "show_nat m = show_nat n \<longleftrightarrow> m = n"
  by (metis read_show_nat)

definition is_digit :: "char \<Rightarrow> bool" where
  "is_digit c \<longleftrightarrow> 48 \<le> (of_char c :: nat) \<and> (of_char c :: nat) \<le> 57"

lemma is_digit_digit_char [simp]: "d < 10 \<Longrightarrow> is_digit (digit_char d)"
  by (simp add: is_digit_def digit_char_def)

lemma show_nat_digits: "c \<in> set (show_nat n) \<Longrightarrow> is_digit c"
proof (induction n rule: show_nat.induct)
  case (1 n)
  show ?case
  proof (cases "n < 10")
    case True
    then show ?thesis using "1.prems" by (simp add: show_nat.simps [of n])
  next
    case False
    then show ?thesis using 1 by (auto simp: show_nat.simps [of n])
  qed
qed

text \<open>
  A key in canonical array-index form (\<open>"0"\<close>, \<open>"7"\<close>, \<open>"42"\<close>, never \<open>"07"\<close>),
  below the language's bound \<open>2^32 - 1\<close>: such keys are enumerated first, in numeric order.
\<close>

definition index_key :: "string \<Rightarrow> nat option" where
  "index_key k = (if k \<noteq> [] \<and> (\<forall>c \<in> set k. is_digit c) \<and> show_nat (read_nat k) = k \<and> read_nat k < 4294967295
     then Some (read_nat k) else None)"

section \<open>Own-property lists\<close>

type_synonym ('k, 'v) own = "('k \<times> 'v) list"

abbreviation own_get :: "('k, 'v) own \<Rightarrow> 'k \<Rightarrow> 'v option" where
  "own_get \<equiv> map_of"

definition own_has :: "('k, 'v) own \<Rightarrow> 'k \<Rightarrow> bool" where
  "own_has kvs k \<longleftrightarrow> k \<in> fst ` set kvs"

definition own_ok :: "('k, 'v) own \<Rightarrow> bool" where
  "own_ok kvs \<longleftrightarrow> distinct (map fst kvs)"

fun own_update :: "'k \<Rightarrow> 'v \<Rightarrow> ('k, 'v) own \<Rightarrow> ('k, 'v) own" where
  "own_update k v [] = []"
| "own_update k v ((k', v') # kvs) = (if k' = k then (k, v) # kvs else (k', v') # own_update k v kvs)"

definition own_before :: "('k \<Rightarrow> nat option) \<Rightarrow> 'k \<Rightarrow> 'k \<Rightarrow> bool" where
  "own_before idx k k' = (case idx k of
     None \<Rightarrow> False
   | Some n \<Rightarrow> (case idx k' of None \<Rightarrow> True | Some m \<Rightarrow> n < m))"

definition own_insert :: "('k \<Rightarrow> nat option) \<Rightarrow> 'k \<Rightarrow> 'v \<Rightarrow> ('k, 'v) own \<Rightarrow> ('k, 'v) own" where
  "own_insert idx k v kvs =
     takeWhile (\<lambda>kv. \<not> own_before idx k (fst kv)) kvs @ (k, v) #
     dropWhile (\<lambda>kv. \<not> own_before idx k (fst kv)) kvs"

definition own_set :: "('k \<Rightarrow> nat option) \<Rightarrow> 'k \<Rightarrow> 'v \<Rightarrow> ('k, 'v) own \<Rightarrow> ('k, 'v) own" where
  "own_set idx k v kvs = (if own_has kvs k then own_update k v kvs else own_insert idx k v kvs)"

definition own_del :: "'k \<Rightarrow> ('k, 'v) own \<Rightarrow> ('k, 'v) own" where
  "own_del k kvs = filter (\<lambda>kv. fst kv \<noteq> k) kvs"

lemma own_has_simps [simp]:
  "\<not> own_has [] k"
  "own_has (kv # kvs) k \<longleftrightarrow> fst kv = k \<or> own_has kvs k"
  by (auto simp: own_has_def)

lemma own_has_iff_get: "own_has kvs k \<longleftrightarrow> own_get kvs k \<noteq> None"
  by (simp add: own_has_def map_of_eq_None_iff)

lemma own_update_keys: "map fst (own_update k v kvs) = map fst kvs"
  by (induction kvs) auto

lemma own_update_get: "own_has kvs k \<Longrightarrow> own_get (own_update k v kvs) = (own_get kvs)(k \<mapsto> v)"
  by (induction kvs) (auto simp: fun_upd_twist)

lemma map_of_insert_mid:
  "k \<notin> fst ` set xs \<Longrightarrow> map_of (xs @ (k, v) # ys) = (map_of (xs @ ys))(k \<mapsto> v)"
  by (induction xs) (auto simp: fun_upd_twist)

lemma own_insert_get: "\<not> own_has kvs k \<Longrightarrow> own_get (own_insert idx k v kvs) = (own_get kvs)(k \<mapsto> v)"
proof -
  let ?P = "\<lambda>kv. \<not> own_before idx k (fst kv)"
  assume "\<not> own_has kvs k"
  then have "k \<notin> fst ` set (takeWhile ?P kvs)"
    by (auto simp: own_has_def dest: set_takeWhileD)
  then show ?thesis by (simp add: own_insert_def map_of_insert_mid del: map_of_append)
qed

lemma own_set_get [own_simps]: "own_get (own_set idx k v kvs) = (own_get kvs)(k \<mapsto> v)"
  by (simp add: own_set_def own_update_get own_insert_get)

lemma own_del_get [own_simps]: "own_get (own_del k kvs) = (own_get kvs)(k := None)"
  by (induction kvs) (auto simp: own_del_def)

lemma own_ok_Nil [simp]: "own_ok []"
  by (simp add: own_ok_def)

lemma own_insert_keys: "set (map fst (own_insert idx k v kvs)) = insert k (set (map fst kvs))"
  by (simp add: own_insert_def)
    (metis (no_types, lifting) image_Un set_append takeWhile_dropWhile_id)

lemma own_insert_ok: "own_ok kvs \<Longrightarrow> \<not> own_has kvs k \<Longrightarrow> own_ok (own_insert idx k v kvs)"
proof -
  let ?P = "\<lambda>kv. \<not> own_before idx k (fst kv)"
  assume "own_ok kvs" "\<not> own_has kvs k"
  moreover have "kvs = takeWhile ?P kvs @ dropWhile ?P kvs" by simp
  ultimately have "distinct (map fst (takeWhile ?P kvs) @ map fst (dropWhile ?P kvs))"
    and "k \<notin> fst ` set (takeWhile ?P kvs @ dropWhile ?P kvs)"
    by (simp_all add: own_ok_def own_has_def flip: map_append)
  then show ?thesis
    by (auto simp: own_insert_def own_ok_def simp del: takeWhile_dropWhile_id)
qed

lemma own_set_ok [own_simps, intro]: "own_ok kvs \<Longrightarrow> own_ok (own_set idx k v kvs)"
  by (simp add: own_set_def own_insert_ok) (simp add: own_ok_def own_update_keys)

lemma own_del_ok [own_simps, intro]: "own_ok kvs \<Longrightarrow> own_ok (own_del k kvs)"
  by (simp add: own_ok_def own_del_def distinct_map_filter)

lemma own_set_values: "set (own_set idx k v kvs) \<subseteq> insert (k, v) (set kvs)"
proof -
  have "set (own_update k v kvs) \<subseteq> insert (k, v) (set kvs)"
    by (induction kvs) (auto split: if_splits)
  moreover have "set (own_insert idx k v kvs) \<subseteq> insert (k, v) (set kvs)"
    by (auto simp: own_insert_def dest: set_takeWhileD set_dropWhileD)
  ultimately show ?thesis by (auto simp: own_set_def)
qed

lemma own_set_same: "own_ok kvs \<Longrightarrow> own_get kvs k = Some v \<Longrightarrow> own_set idx k v kvs = kvs"
proof -
  have "own_ok kvs \<Longrightarrow> own_get kvs k = Some v \<Longrightarrow> own_update k v kvs = kvs"
    by (induction kvs) (auto simp: own_ok_def split: if_splits)
  then show "own_ok kvs \<Longrightarrow> own_get kvs k = Some v \<Longrightarrow> own_set idx k v kvs = kvs"
    by (simp add: own_set_def own_has_iff_get)
qed

text \<open>The enumeration order of own properties: array-index keys first, in numeric order.\<close>

definition own_ordered :: "('k \<Rightarrow> nat option) \<Rightarrow> ('k, 'v) own \<Rightarrow> bool" where
  "own_ordered idx kvs \<longleftrightarrow> sorted_wrt (\<lambda>a b. \<not> own_before idx (fst b) (fst a)) kvs"

lemma own_ordered_Nil [simp]: "own_ordered idx []"
  by (simp add: own_ordered_def)

lemma own_ordered_filter: "own_ordered idx kvs \<Longrightarrow> own_ordered idx (filter P kvs)"
  by (simp add: own_ordered_def sorted_wrt_filter)

lemma own_set_last:
  assumes "own_ok (kvs @ (k, v) # rest)" and "own_ordered idx (kvs @ (k, v) # rest)"
  shows "own_set idx k v kvs = kvs @ [(k, v)]"
proof -
  have "\<not> own_has kvs k" using assms(1) by (auto simp: own_has_def own_ok_def)
  moreover have "\<forall>kv \<in> set kvs. \<not> own_before idx k (fst kv)"
    using assms(2) by (auto simp: own_ordered_def sorted_wrt_append)
  ultimately show ?thesis by (simp add: own_set_def own_insert_def takeWhile_eq_all_conv [THEN iffD2])
qed

lemma own_before_trans: "own_before idx a b \<Longrightarrow> \<not> own_before idx c b \<Longrightarrow> own_before idx a c"
  by (auto simp: own_before_def split: option.splits)

lemma own_before_asym: "own_before idx a b \<Longrightarrow> \<not> own_before idx b a"
  by (auto simp: own_before_def split: option.splits)

lemma own_insert_ordered: "own_ordered idx kvs \<Longrightarrow> own_ordered idx (own_insert idx k v kvs)"
proof (induction kvs)
  case (Cons kv kvs)
  show ?case
  proof (cases "own_before idx k (fst kv)")
    case True
    then show ?thesis using Cons.prems
      by (auto simp: own_insert_def own_ordered_def dest: own_before_asym own_before_trans)
  next
    case False
    have keys: "set (own_insert idx k v kvs) = insert (k, v) (set kvs)"
      by (simp add: own_insert_def) (metis set_append takeWhile_dropWhile_id)
    have "own_ordered idx (own_insert idx k v kvs)" using Cons by (simp add: own_ordered_def)
    moreover have "own_insert idx k v (kv # kvs) = kv # own_insert idx k v kvs"
      using False by (simp add: own_insert_def)
    ultimately show ?thesis using False Cons.prems keys
      by (simp add: own_ordered_def)
  qed
qed (simp add: own_insert_def own_ordered_def)

lemma own_update_ordered: "own_ordered idx kvs \<Longrightarrow> own_ordered idx (own_update k v kvs)"
proof -
  have "own_ordered idx kvs \<longleftrightarrow> sorted_wrt (\<lambda>a b. \<not> own_before idx b a) (map fst kvs)" for kvs :: "('a \<times> 'b) list"
    by (simp add: own_ordered_def sorted_wrt_map)
  then show "own_ordered idx kvs \<Longrightarrow> own_ordered idx (own_update k v kvs)"
    by (simp add: own_update_keys)
qed

lemma own_set_ordered [own_simps, intro]: "own_ordered idx kvs \<Longrightarrow> own_ordered idx (own_set idx k v kvs)"
  by (simp add: own_set_def own_insert_ordered own_update_ordered)

section \<open>Searching a list\<close>

text \<open>
  \<open>s.indexOf(sub, from)\<close>: the least position at or after \<open>from\<close> where \<open>sub\<close> occurs,
  \<open>None\<close> for \<open>-1\<close>.
\<close>

fun index_of :: "'a list \<Rightarrow> 'a list \<Rightarrow> nat option" where
  "index_of s sub = (if prefix sub s then Some 0
     else (case s of [] \<Rightarrow> None | _ # s' \<Rightarrow> map_option Suc (index_of s' sub)))"

declare index_of.simps [simp del]

definition index_of_from :: "'a list \<Rightarrow> 'a list \<Rightarrow> nat \<Rightarrow> nat option" where
  "index_of_from s sub from = (if from \<le> length s
     then map_option (\<lambda>i. from + i) (index_of (drop from s) sub) else None)"

lemma index_of_Some: "index_of s sub = Some i \<Longrightarrow> i \<le> length s \<and> prefix sub (drop i s)"
proof (induction s arbitrary: i)
  case Nil
  then show ?case by (subst (asm) index_of.simps) (auto split: if_splits)
next
  case (Cons c s)
  then show ?case by (subst (asm) (2) index_of.simps) (auto split: if_splits)
qed

lemma index_of_from_Some:
  "index_of_from s sub from = Some i \<Longrightarrow> from \<le> i \<and> i \<le> length s \<and> prefix sub (drop i s)"
  by (auto simp: index_of_from_def add.commute split: if_splits dest!: index_of_Some)

end
