(* ===== verification/Json.thy ===== *)
theory Json
  imports Prelude Complex_Main
begin

text \<open>
  JSON values as \<open>packages/chord\<close> handles them (\<open>JsonValue\<close> of \<open>chord/src/types.ts\<close>).
  A number is a rational: every finite double is one, and the code modelled over this type only
  compares numbers and tests them for being a non-negative integer. A string is the list of its
  code units. An object is its own-property list (theory \<open>Prelude\<close>), an array a list without
  holes. Values are trees: sharing between them is not modelled.
\<close>

datatype json =
    JNull
  | JBool bool
  | JNum rat
  | JStr string
  | JArr "json list"
  | JObj "(string \<times> json) list"

fun is_obj :: "json \<Rightarrow> bool" where
  "is_obj (JArr _) = True"
| "is_obj (JObj _) = True"
| "is_obj _ = False"

fun is_array :: "json \<Rightarrow> bool" where
  "is_array (JArr _) = True"
| "is_array _ = False"

text \<open>Every object of the value has distinct keys: the shape of a real JavaScript value.\<close>

fun wf_json :: "json \<Rightarrow> bool" where
  "wf_json (JArr xs) = list_all wf_json xs"
| "wf_json (JObj kvs) = (own_ok kvs \<and> list_all (\<lambda>kv. wf_json (snd kv)) kvs)"
| "wf_json _ = True"

lemma wf_json_get: "wf_json (JObj kvs) \<Longrightarrow> own_get kvs k = Some v \<Longrightarrow> wf_json v"
  by (auto simp: list_all_iff dest!: map_of_SomeD)

section \<open>Structural equality up to key order\<close>

text \<open>\<open>jsonEqual\<close> of \<open>chord/src/delta/index.ts\<close>, its two loops as recursive functions.\<close>

fun json_equal :: "json \<Rightarrow> json \<Rightarrow> bool"
  and json_equal_items :: "json list \<Rightarrow> json list \<Rightarrow> bool"
  and json_equal_keys :: "(string \<times> json) list \<Rightarrow> (string \<times> json) list \<Rightarrow> bool" where
  "json_equal JNull r = (r = JNull)"
| "json_equal (JBool b) r = (r = JBool b)"
| "json_equal (JNum n) r = (r = JNum n)"
| "json_equal (JStr s) r = (r = JStr s)"
| "json_equal (JArr xs) r = (case r of
     JArr ys \<Rightarrow> length xs = length ys \<and> json_equal_items xs ys | _ \<Rightarrow> False)"
| "json_equal (JObj kvs) r = (case r of
     JObj kws \<Rightarrow> length kvs = length kws \<and> json_equal_keys kvs kws | _ \<Rightarrow> False)"
| "json_equal_items [] ys = True"
| "json_equal_items (x # xs) ys = (case ys of
     [] \<Rightarrow> False | y # ys' \<Rightarrow> json_equal x y \<and> json_equal_items xs ys')"
| "json_equal_keys [] kws = True"
| "json_equal_keys ((k, v) # kvs) kws = (case own_get kws k of
     None \<Rightarrow> False | Some w \<Rightarrow> json_equal v w \<and> json_equal_keys kvs kws)"

lemma json_equal_items_iff:
  "length xs = length ys \<Longrightarrow> json_equal_items xs ys \<longleftrightarrow> list_all2 json_equal xs ys"
  by (induction xs ys rule: list_induct2) auto

lemma json_equal_keys_iff:
  "json_equal_keys kvs kws \<longleftrightarrow>
     (\<forall>(k, v) \<in> set kvs. \<exists>w. own_get kws k = Some w \<and> json_equal v w)"
  by (induction kvs) (auto split: option.splits)

lemma json_equal_arr:
  "json_equal (JArr xs) (JArr ys) \<longleftrightarrow> list_all2 json_equal xs ys"
proof (cases "length xs = length ys")
  case True
  then show ?thesis by (simp add: json_equal_items_iff)
next
  case False
  then show ?thesis by (auto dest: list_all2_lengthD)
qed

lemma own_card: "own_ok kvs \<Longrightarrow> card (dom (own_get kvs)) = length kvs"
  by (simp add: own_ok_def dom_map_of_conv_image_fst flip: set_map)
    (metis distinct_card length_map)

lemma json_equal_obj:
  assumes "own_ok kvs" and "own_ok kws"
  shows "json_equal (JObj kvs) (JObj kws) \<longleftrightarrow>
    (\<forall>k. rel_option json_equal (own_get kvs k) (own_get kws k))"
proof -
  let ?sub = "\<forall>k v. own_get kvs k = Some v \<longrightarrow> (\<exists>w. own_get kws k = Some w \<and> json_equal v w)"
  have keys: "json_equal_keys kvs kws \<longleftrightarrow> ?sub"
    using assms(1) by (auto simp: json_equal_keys_iff own_ok_def)
  have "?sub \<and> length kvs = length kws \<longleftrightarrow>
      (\<forall>k. rel_option json_equal (own_get kvs k) (own_get kws k))"
  proof
    assume l: "?sub \<and> length kvs = length kws"
    then have "dom (own_get kvs) \<subseteq> dom (own_get kws)" by (auto simp: dom_def)
    moreover have "card (dom (own_get kvs)) = card (dom (own_get kws))"
      using l assms by (simp add: own_card)
    ultimately have dom: "dom (own_get kvs) = dom (own_get kws)"
      by (simp add: card_subset_eq finite_dom_map_of)
    show "\<forall>k. rel_option json_equal (own_get kvs k) (own_get kws k)"
    proof
      fix k
      show "rel_option json_equal (own_get kvs k) (own_get kws k)"
      proof (cases "own_get kvs k")
        case None
        then have "own_get kws k = None" using dom by blast
        with None show ?thesis by simp
      next
        case (Some v)
        with l obtain w where "own_get kws k = Some w" "json_equal v w" by blast
        with Some show ?thesis by simp
      qed
    qed
  next
    assume r: "\<forall>k. rel_option json_equal (own_get kvs k) (own_get kws k)"
    then have "own_get kvs k = None \<longleftrightarrow> own_get kws k = None" for k
      by (simp add: option.rel_sel)
    then have "dom (own_get kvs) = dom (own_get kws)" by (auto simp: dom_def)
    then have "length kvs = length kws" using assms own_card by metis
    then show "?sub \<and> length kvs = length kws" using r by (metis option_rel_Some1)
  qed
  then show ?thesis using keys by auto
qed

lemmas json_equal_iffs = json_equal_arr json_equal_obj

declare json_equal.simps(5,6) [simp del]

lemma json_equal_shape [simp]:
  "json_equal v JNull \<longleftrightarrow> v = JNull"
  "json_equal v (JBool b) \<longleftrightarrow> v = JBool b"
  "json_equal v (JNum n) \<longleftrightarrow> v = JNum n"
  "json_equal v (JStr s) \<longleftrightarrow> v = JStr s"
  "\<not> json_equal (JArr xs) (JObj kvs)"
  "\<not> json_equal (JObj kvs) (JArr xs)"
  by (cases v; auto simp: json_equal.simps(5,6))+

lemma json_equal_is_obj: "json_equal v w \<Longrightarrow> is_obj v = is_obj w \<and> is_array v = is_array w"
  by (cases v; cases w; simp add: json_equal.simps(5,6))

lemma json_equal_refl: "wf_json v \<Longrightarrow> json_equal v v"
proof (induction v)
  case (JArr xs)
  then show ?case by (auto simp: json_equal_arr list_all_iff intro!: list.rel_refl_strong)
next
  case (JObj kvs)
  have "rel_option json_equal (own_get kvs k) (own_get kvs k)" for k
  proof (cases "own_get kvs k")
    case (Some v)
    then have "(k, v) \<in> set kvs" by (rule map_of_SomeD)
    then have "json_equal v v" using JObj by (fastforce simp: list_all_iff)
    with Some show ?thesis by simp
  qed simp
  then show ?case using JObj by (simp add: json_equal_obj)
qed auto

lemma json_equal_sym: "wf_json v \<Longrightarrow> wf_json w \<Longrightarrow> json_equal v w \<Longrightarrow> json_equal w v"
proof (induction v arbitrary: w)
  case (JArr xs)
  then obtain ys where w: "w = JArr ys" and l: "list_all2 json_equal xs ys"
    by (cases w) (auto simp: json_equal_arr)
  from l have "list_all2 json_equal ys xs"
    using JArr.IH JArr.prems w
    by (auto simp: list_all2_conv_all_nth list_all_iff)
  then show ?case by (simp add: w json_equal_arr)
next
  case (JObj kvs)
  then obtain kws where w: "w = JObj kws" by (cases w) auto
  have ok: "own_ok kvs" "own_ok kws" using JObj.prems w by auto
  then have rel: "rel_option json_equal (own_get kvs k) (own_get kws k)" for k
    using JObj.prems(3) w by (simp add: json_equal_obj)
  have "rel_option json_equal (own_get kws k) (own_get kvs k)" for k
  proof (cases "own_get kvs k")
    case None
    with rel[of k] show ?thesis by simp
  next
    case (Some v)
    with rel[of k] obtain u where u: "own_get kws k = Some u" "json_equal v u"
      by (auto simp: option_rel_Some1)
    have "wf_json v" "wf_json u"
      using JObj.prems Some u w by (blast intro: wf_json_get)+
    moreover have "(k, v) \<in> set kvs" using Some by (rule map_of_SomeD)
    ultimately have "json_equal u v" using JObj.IH u(2) by fastforce
    with Some u show ?thesis by simp
  qed
  then show ?case using ok w by (simp add: json_equal_obj)
qed auto

lemma json_equal_trans:
  "wf_json u \<Longrightarrow> wf_json v \<Longrightarrow> wf_json w \<Longrightarrow> json_equal u v \<Longrightarrow> json_equal v w \<Longrightarrow> json_equal u w"
proof (induction u arbitrary: v w)
  case (JArr xs)
  from JArr.prems(4) obtain ys where v: "v = JArr ys" and xy: "list_all2 json_equal xs ys"
    by (cases v) (auto simp: json_equal_arr)
  from JArr.prems(5) v obtain zs where w: "w = JArr zs" and yz: "list_all2 json_equal ys zs"
    by (cases w) (auto simp: json_equal_arr)
  have "list_all2 json_equal xs zs"
  proof (rule list_all2_all_nthI)
    show "length xs = length zs" using list_all2_lengthD[OF xy] list_all2_lengthD[OF yz] by simp
    fix i
    assume i: "i < length xs"
    then have ys: "i < length ys" and zs: "i < length zs"
      using list_all2_lengthD[OF xy] list_all2_lengthD[OF yz] by simp_all
    have "wf_json (xs ! i)" "wf_json (ys ! i)" "wf_json (zs ! i)"
      using JArr.prems(1,2,3) v w i ys zs by (simp_all add: list_all_length)
    moreover have "json_equal (xs ! i) (ys ! i)" "json_equal (ys ! i) (zs ! i)"
      using xy yz i ys by (simp_all add: list_all2_nthD)
    ultimately show "json_equal (xs ! i) (zs ! i)" using JArr.IH i by (meson nth_mem)
  qed
  then show ?case by (simp add: w json_equal_arr)
next
  case (JObj kvs)
  from JObj.prems(4) obtain kws where v: "v = JObj kws" by (cases v) auto
  from JObj.prems(5) v obtain kzs where w: "w = JObj kzs" by (cases w) auto
  have ok: "own_ok kvs" "own_ok kws" "own_ok kzs" using JObj.prems v w by auto
  have rel: "rel_option json_equal (own_get kvs k) (own_get kws k)"
    "rel_option json_equal (own_get kws k) (own_get kzs k)" for k
    using JObj.prems v w ok by (simp_all add: json_equal_obj)
  have "rel_option json_equal (own_get kvs k) (own_get kzs k)" for k
  proof (cases "own_get kvs k")
    case None
    with rel[of k] show ?thesis by simp
  next
    case (Some a)
    with rel(1)[of k] obtain b where b: "own_get kws k = Some b" "json_equal a b"
      by (auto simp: option_rel_Some1)
    with rel(2)[of k] obtain c where c: "own_get kzs k = Some c" "json_equal b c"
      by (auto simp: option_rel_Some1)
    have "wf_json a" by (rule wf_json_get [OF JObj.prems(1) Some])
    moreover have "wf_json b" by (rule wf_json_get [OF JObj.prems(2)[unfolded v] b(1)])
    moreover have "wf_json c" by (rule wf_json_get [OF JObj.prems(3)[unfolded w] c(1)])
    moreover have "(k, a) \<in> set kvs" using Some by (rule map_of_SomeD)
    ultimately have "json_equal a c"
      using b(2) c(2) by (intro JObj.IH [of "(k, a)" a b c]) simp_all
    with Some c show ?thesis by simp
  qed
  then show ?case using ok w by (simp add: json_equal_obj)
qed auto

section \<open>Numbers that are array indices\<close>

text \<open>\<open>Number.isInteger(n) && n >= 0\<close>, returning the integer.\<close>

definition rat_nat :: "rat \<Rightarrow> nat option" where
  "rat_nat q = (if of_int \<lfloor>q\<rfloor> = q \<and> 0 \<le> q then Some (nat \<lfloor>q\<rfloor>) else None)"

lemma rat_nat_of_nat [simp]: "rat_nat (of_nat n) = Some n"
  by (simp add: rat_nat_def)

lemma rat_nat_Some: "rat_nat q = Some n \<longleftrightarrow> q = of_nat n"
  by (auto simp: rat_nat_def split: if_splits)
    (metis of_int_of_nat_eq of_nat_0_le_iff zero_le_floor of_int_floor_cancel int_nat_eq)

fun json_nat :: "json \<Rightarrow> nat option" where
  "json_nat (JNum q) = rat_nat q"
| "json_nat _ = None"

lemma json_nat_Some: "json_nat v = Some n \<longleftrightarrow> v = JNum (of_nat n)"
  by (cases v) (auto simp: rat_nat_Some)

end
