(* ===== verification/DeltaOp.thy ===== *)
theory DeltaOp
  imports Json
begin

text \<open>
  The operation vocabulary of \<open>packages/chord/src/delta/index.ts\<close>: path segments, decoded
  operations (\<open>Op\<close>), the errors the module throws, and the two validators an untrusted operation
  meets. \<open>assert_valid_op\<close> is \<open>assertValidOp\<close> on an arbitrary JSON value; where the source
  narrows the type of its argument, the model returns the narrowed operation.
\<close>

text \<open>
  \<open>Seg = string | number\<close>. The numbers a typed segment holds are the ones \<open>assertSafePath\<close>
  lets through; a segment that is not validated yet is a JSON value.
\<close>

datatype seg = Key string | Idx nat

type_synonym path = "seg list"

datatype op =
    OpR json
  | OpS path json
  | OpD path
  | OpA path string
  | OpT path nat
  | OpP path nat nat "json list"

datatype delta_error =
    TypeErr string
  | UnsafePathError json
  | PathError path
  | PathIdError nat

fun seg_json :: "seg \<Rightarrow> json" where
  "seg_json (Key k) = JStr k"
| "seg_json (Idx i) = JNum (of_nat i)"

fun op_json :: "op \<Rightarrow> json" where
  "op_json (OpR v) = JArr [JStr ''r'', v]"
| "op_json (OpS p v) = JArr [JStr ''s'', JArr (map seg_json p), v]"
| "op_json (OpD p) = JArr [JStr ''d'', JArr (map seg_json p)]"
| "op_json (OpA p s) = JArr [JStr ''a'', JArr (map seg_json p), JStr s]"
| "op_json (OpT p n) = JArr [JStr ''t'', JArr (map seg_json p), JNum (of_nat n)]"
| "op_json (OpP p i r xs) =
     JArr [JStr ''p'', JArr (map seg_json p), JNum (of_nat i), JNum (of_nat r), JArr xs]"

fun is_replace :: "op \<Rightarrow> bool" where
  "is_replace (OpR _) = True"
| "is_replace _ = False"

definition is_base :: "op list \<Rightarrow> bool" where
  "is_base ops \<longleftrightarrow> ops \<noteq> [] \<and> is_replace (hd ops)"

section \<open>Path safety\<close>

definition reserved_segments :: "string list" where
  "reserved_segments = [''__proto__'', ''constructor'', ''prototype'']"

definition is_reserved :: "string \<Rightarrow> bool" where
  "is_reserved k \<longleftrightarrow> k \<in> set reserved_segments"

text \<open>One turn of the loop of \<open>assertSafePath\<close>.\<close>

fun safe_seg :: "json \<Rightarrow> delta_error + seg" where
  "safe_seg (JStr k) = (if is_reserved k then Inl (UnsafePathError (JStr k)) else Inr (Key k))"
| "safe_seg v = (case json_nat v of None \<Rightarrow> Inl (UnsafePathError v) | Some i \<Rightarrow> Inr (Idx i))"

definition assert_safe_path :: "json list \<Rightarrow> delta_error + path" where
  "assert_safe_path segs = rmap safe_seg segs"

definition assert_path_arg :: "json \<Rightarrow> bool \<Rightarrow> delta_error + path" where
  "assert_path_arg p non_empty = (case p of
     JArr segs \<Rightarrow> rbind (rguard (\<not> (non_empty \<and> segs = [])) (TypeErr ''path is empty''))
       (\<lambda>_. assert_safe_path segs)
   | _ \<Rightarrow> Inl (TypeErr ''path is not an array''))"

text \<open>\<open>Number.isInteger(v) && v >= 0\<close>, else the given \<open>TypeError\<close>.\<close>

definition assert_count :: "json \<Rightarrow> string \<Rightarrow> delta_error + nat" where
  "assert_count v msg = (case json_nat v of None \<Rightarrow> Inl (TypeErr msg) | Some n \<Rightarrow> Inr n)"

text \<open>The verb cases of \<open>assertValidOp\<close>, on the elements after the verb.\<close>

definition valid_op_args :: "string \<Rightarrow> json list \<Rightarrow> delta_error + op" where
  "valid_op_args verb args =
    (if verb = ''r'' then
       (case args of [v] \<Rightarrow> Inr (OpR v) | _ \<Rightarrow> Inl (TypeErr ''r arity''))
     else if verb = ''s'' then
       (case args of [p, v] \<Rightarrow> rbind (assert_path_arg p True) (\<lambda>path. Inr (OpS path v))
        | _ \<Rightarrow> Inl (TypeErr ''s arity''))
     else if verb = ''d'' then
       (case args of [p] \<Rightarrow> rbind (assert_path_arg p True) (\<lambda>path. Inr (OpD path))
        | _ \<Rightarrow> Inl (TypeErr ''d arity''))
     else if verb = ''a'' then
       (case args of [p, JStr s] \<Rightarrow> rbind (assert_path_arg p True) (\<lambda>path. Inr (OpA path s))
        | _ \<Rightarrow> Inl (TypeErr ''a shape''))
     else if verb = ''t'' then
       (case args of [p, n] \<Rightarrow> rbind (assert_count n ''t shape'')
            (\<lambda>k. rbind (assert_path_arg p True) (\<lambda>path. Inr (OpT path k)))
        | _ \<Rightarrow> Inl (TypeErr ''t shape''))
     else if verb = ''p'' then
       (case args of [p, i, r, xs] \<Rightarrow>
            rbind (assert_path_arg p False) (\<lambda>path.
            rbind (assert_count i ''p index'') (\<lambda>index.
            rbind (assert_count r ''p remove'') (\<lambda>remove.
            (case xs of JArr items \<Rightarrow> Inr (OpP path index remove items)
             | _ \<Rightarrow> Inl (TypeErr ''p items'')))))
        | _ \<Rightarrow> Inl (TypeErr ''p arity''))
     else Inl (TypeErr ''unknown op verb''))"

definition assert_valid_op :: "json \<Rightarrow> delta_error + op" where
  "assert_valid_op v = (case v of
     JArr (JStr verb # args) \<Rightarrow> valid_op_args verb args
   | JArr (_ # args) \<Rightarrow> Inl (TypeErr ''unknown op verb'')
   | _ \<Rightarrow> Inl (TypeErr ''op is not a tuple''))"

section \<open>What is left to check on a typed operation\<close>

definition seg_ok :: "seg \<Rightarrow> bool" where
  "seg_ok s = (case s of Key k \<Rightarrow> \<not> is_reserved k | Idx _ \<Rightarrow> True)"

definition path_ok :: "path \<Rightarrow> bool" where
  "path_ok p = list_all seg_ok p"

fun op_path :: "op \<Rightarrow> path" where
  "op_path (OpR _) = []"
| "op_path (OpS p _) = p"
| "op_path (OpD p) = p"
| "op_path (OpA p _) = p"
| "op_path (OpT p _) = p"
| "op_path (OpP p _ _ _) = p"

fun needs_parent :: "op \<Rightarrow> bool" where
  "needs_parent (OpR _) = False"
| "needs_parent (OpP _ _ _ _) = False"
| "needs_parent _ = True"

definition op_ok :: "op \<Rightarrow> bool" where
  "op_ok op \<longleftrightarrow> path_ok (op_path op) \<and> (needs_parent op \<longrightarrow> op_path op \<noteq> [])"

lemma seg_ok_simps [simp]: "seg_ok (Key k) \<longleftrightarrow> \<not> is_reserved k" "seg_ok (Idx i)"
  by (simp_all add: seg_ok_def)

lemma path_ok_simps [simp]:
  "path_ok []" "path_ok (s # p) \<longleftrightarrow> seg_ok s \<and> path_ok p" "path_ok (p @ q) \<longleftrightarrow> path_ok p \<and> path_ok q"
  by (simp_all add: path_ok_def)

lemma safe_seg_Inr: "safe_seg v = Inr s \<longleftrightarrow> v = seg_json s \<and> seg_ok s"
  by (cases v; cases s) (auto simp: rat_nat_Some split: option.splits)

lemma safe_seg_json: "seg_ok s \<Longrightarrow> safe_seg (seg_json s) = Inr s"
  by (simp add: safe_seg_Inr)

lemma assert_safe_path_Inr: "assert_safe_path segs = Inr p \<longleftrightarrow> segs = map seg_json p \<and> path_ok p"
proof -
  have "list_all2 (\<lambda>v s. v = seg_json s \<and> seg_ok s) segs p \<longleftrightarrow>
      segs = map seg_json p \<and> list_all seg_ok p"
    by (induction p arbitrary: segs) (auto simp: list_all2_Cons2)
  then show ?thesis
    by (simp add: assert_safe_path_def path_ok_def rmap_eq_Inr_list_all2 safe_seg_Inr)
qed

lemma assert_path_arg_Inr:
  "assert_path_arg v ne = Inr p \<longleftrightarrow> v = JArr (map seg_json p) \<and> path_ok p \<and> (ne \<longrightarrow> p \<noteq> [])"
  by (cases v) (auto simp: assert_path_arg_def result_simps assert_safe_path_Inr)

lemma assert_count_Inr: "assert_count v msg = Inr n \<longleftrightarrow> v = JNum (of_nat n)"
  by (auto simp: assert_count_def json_nat_Some split: option.splits)

lemma case_arr_Inr [result_simps]:
  "(case v of JArr xs \<Rightarrow> f xs | _ \<Rightarrow> Inl e) = Inr y \<longleftrightarrow> (\<exists>xs. v = JArr xs \<and> f xs = Inr y)"
  by (cases v) auto

lemma valid_op_args_ok:
  "valid_op_args verb args = Inr op \<Longrightarrow> op_ok op \<and> op_json op = JArr (JStr verb # args)"
  by (auto simp: valid_op_args_def op_ok_def result_simps assert_path_arg_Inr assert_count_Inr
      split: if_splits list.splits json.splits)

lemma op_json_valid: "op_ok op \<Longrightarrow> assert_valid_op (op_json op) = Inr op"
  by (cases op)
    (auto simp: op_ok_def assert_valid_op_def valid_op_args_def result_simps
      assert_path_arg_Inr assert_count_Inr)

text \<open>
  \<open>assertValidOp\<close> accepts exactly the tuples of the \<open>Op\<close> type whose path is safe (no
  \<open>__proto__\<close>, \<open>constructor\<close> or \<open>prototype\<close> segment, indices non-negative integers) and, but
  for \<open>r\<close> and \<open>p\<close>, not the root; and the tuple it accepts is the one it was given.
\<close>

theorem assert_valid_op_exact:
  "assert_valid_op v = Inr op \<longleftrightarrow> v = op_json op \<and> op_ok op"
proof
  assume r: "assert_valid_op v = Inr op"
  then obtain verb args where "v = JArr (JStr verb # args)" "valid_op_args verb args = Inr op"
    by (auto simp: assert_valid_op_def split: json.splits list.splits)
  then show "v = op_json op \<and> op_ok op" using valid_op_args_ok by metis
next
  assume "v = op_json op \<and> op_ok op"
  then show "assert_valid_op v = Inr op" using op_json_valid by simp
qed

end
