(* ===== verification/DeltaApply.thy ===== *)
theory DeltaApply
  imports DeltaOp
begin

text \<open>
  The applier of \<open>chord/src/delta/index.ts\<close>: \<open>apply\<close> mutates a plain value in place, the
  model returns the new value. \<open>resolve_value\<close> walks a path, \<open>put_at\<close> is the effect that a
  mutation of the value found there has on the root. \<open>apply_ops\<close> is \<open>applyOps\<close>;
  \<open>apply_immutable\<close> is \<open>applyImmutable\<close> with its \<open>copyContainers\<close> pass.
  The lens laws of \<open>resolve_value\<close> and \<open>put_at\<close> are the interface the differ's proof uses.
\<close>

section \<open>Own properties of a container\<close>

fun seg_key :: "seg \<Rightarrow> string" where
  "seg_key (Key k) = k"
| "seg_key (Idx i) = show_nat i"

text \<open>
  \<open>Object.hasOwn(value, segment)\<close> and the property read. An array also owns \<open>length\<close>
  and answers to the string form of an index.
\<close>

fun own_value :: "json \<Rightarrow> seg \<Rightarrow> json option" where
  "own_value (JArr xs) (Idx i) = (if i < length xs then Some (xs ! i) else None)"
| "own_value (JArr xs) (Key k) = (if k = ''length'' then Some (JNum (of_nat (length xs)))
     else (case index_key k of None \<Rightarrow> None
           | Some i \<Rightarrow> if i < length xs then Some (xs ! i) else None))"
| "own_value (JObj kvs) s = own_get kvs (seg_key s)"
| "own_value _ _ = None"

text \<open>
  \<open>Object.defineProperty(parent, key, { value, ... })\<close>, for an index at most the array's length.
\<close>

fun write_value :: "json \<Rightarrow> seg \<Rightarrow> json \<Rightarrow> json" where
  "write_value (JArr xs) (Idx i) v = (if i < length xs then JArr (xs[i := v]) else JArr (xs @ [v]))"
| "write_value (JObj kvs) s v = JObj (own_set index_key (seg_key s) v kvs)"
| "write_value w _ _ = w"

fun is_idx :: "seg \<Rightarrow> bool" where
  "is_idx (Idx _) = True"
| "is_idx (Key _) = False"

section \<open>Paths\<close>

text \<open>\<open>resolveValue(root, path)\<close>; \<open>full\<close> is the path the error reports.\<close>

fun resolve_from :: "path \<Rightarrow> json \<Rightarrow> path \<Rightarrow> delta_error + json" where
  "resolve_from full node [] = Inr node"
| "resolve_from full node (s # p) =
    (if \<not> is_obj node then Inl (PathError full)
     else if is_array node \<and> \<not> is_idx s then Inl (UnsafePathError (seg_json s))
     else (case own_value node s of
         None \<Rightarrow> Inl (PathError full)
       | Some child \<Rightarrow> resolve_from full child p))"

definition resolve_value :: "json \<Rightarrow> path \<Rightarrow> delta_error + json" where
  "resolve_value rt p = resolve_from p rt p"

definition resolve :: "json \<Rightarrow> path \<Rightarrow> delta_error + json" where
  "resolve rt p = rbind (resolve_value rt p)
     (\<lambda>node. rbind (rguard (is_obj node) (PathError p)) (\<lambda>_. Inr node))"

text \<open>The root after the value at a resolvable path became \<open>v\<close>.\<close>

fun put_at :: "json \<Rightarrow> path \<Rightarrow> json \<Rightarrow> json" where
  "put_at rt [] v = v"
| "put_at rt (s # p) v = (case own_value rt s of
     None \<Rightarrow> rt
   | Some child \<Rightarrow> write_value rt s (put_at child p v))"

section \<open>The applier\<close>

text \<open>\<open>Array.prototype.splice\<close>: both arguments are clamped to the array.\<close>

definition array_splice :: "'a list \<Rightarrow> nat \<Rightarrow> nat \<Rightarrow> 'a list \<Rightarrow> 'a list" where
  "array_splice xs start remove items = take start xs @ items @ drop (start + remove) xs"

definition chunk_size :: nat where
  "chunk_size = 10000"

text \<open>The loop that inserts \<open>items\<close> at most \<open>chunkSize\<close> at a time.\<close>

function insert_chunks :: "'a list \<Rightarrow> nat \<Rightarrow> 'a list \<Rightarrow> 'a list" where
  "insert_chunks xs pos items = (if items = [] then xs
     else insert_chunks (array_splice xs pos 0 (take chunk_size items)) (pos + chunk_size)
            (drop chunk_size items))"
  by pat_completeness auto
termination
  by (relation "measure (\<lambda>(xs, pos, items). length items)") (auto simp: chunk_size_def)

declare insert_chunks.simps [simp del]

definition splice_chunked :: "'a list \<Rightarrow> nat \<Rightarrow> nat \<Rightarrow> 'a list \<Rightarrow> 'a list" where
  "splice_chunked xs index remove items = insert_chunks (array_splice xs index remove []) index items"

text \<open>The reads and writes of \<open>s\<close>, \<open>d\<close>, \<open>a\<close> and \<open>t\<close> on the parent they resolved.\<close>

definition check_key :: "json \<Rightarrow> seg \<Rightarrow> delta_error + unit" where
  "check_key parent key = (case parent of
     JArr xs \<Rightarrow> (case key of
         Key k \<Rightarrow> Inl (UnsafePathError (JStr k))
       | Idx i \<Rightarrow> rguard (i \<le> length xs) (UnsafePathError (JNum (of_nat i))))
   | _ \<Rightarrow> Inr ())"

definition read_string :: "path \<Rightarrow> json \<Rightarrow> seg \<Rightarrow> delta_error + string" where
  "read_string p parent key = (case own_value parent key of
     Some (JStr s) \<Rightarrow> Inr s
   | _ \<Rightarrow> Inl (PathError p))"

definition delete_value :: "path \<Rightarrow> json \<Rightarrow> seg \<Rightarrow> delta_error + json" where
  "delete_value p parent key = (case parent of
     JArr xs \<Rightarrow> (case key of
         Idx i \<Rightarrow> if i < length xs then Inr (JArr (array_splice xs i 1 [])) else Inl (PathError p)
       | Key _ \<Rightarrow> Inl (PathError p))
   | JObj kvs \<Rightarrow> Inr (JObj (own_del (seg_key key) kvs))
   | v \<Rightarrow> Inr v)"

definition at_parent :: "json \<Rightarrow> path \<Rightarrow> (json \<Rightarrow> seg \<Rightarrow> delta_error + json) \<Rightarrow> delta_error + json" where
  "at_parent rt p edit =
     rbind (resolve rt (butlast p)) (\<lambda>parent.
     rbind (check_key parent (last p)) (\<lambda>_.
     rbind (edit parent (last p)) (\<lambda>parent'.
     Inr (put_at rt (butlast p) parent'))))"

fun apply_valid :: "json \<Rightarrow> op \<Rightarrow> delta_error + json" where
  "apply_valid rt (OpR v) = Inr v"
| "apply_valid rt (OpP p index remove items) =
     rbind (if p = [] then Inr rt else resolve rt p) (\<lambda>target.
     (case target of
        JArr xs \<Rightarrow> Inr (put_at rt p (JArr (splice_chunked xs index remove items)))
      | _ \<Rightarrow> Inl (PathError p)))"
| "apply_valid rt (OpS p v) = at_parent rt p (\<lambda>parent key. Inr (write_value parent key v))"
| "apply_valid rt (OpD p) = at_parent rt p (delete_value p)"
| "apply_valid rt (OpA p s) = at_parent rt p (\<lambda>parent key.
     rbind (read_string p parent key) (\<lambda>cur. Inr (write_value parent key (JStr (cur @ s)))))"
| "apply_valid rt (OpT p n) = at_parent rt p (\<lambda>parent key.
     rbind (read_string p parent key) (\<lambda>cur. Inr (write_value parent key (JStr (drop n cur)))))"

definition apply_op :: "json \<Rightarrow> op \<Rightarrow> delta_error + json" where
  "apply_op rt op = rbind (assert_valid_op (op_json op)) (apply_valid rt)"

definition apply_ops :: "json \<Rightarrow> op list \<Rightarrow> delta_error + json" where
  "apply_ops rt ops = rfold apply_op rt ops"

text \<open>The same loop over operations that arrived as untrusted JSON.\<close>

definition apply_untrusted :: "json \<Rightarrow> json list \<Rightarrow> delta_error + json" where
  "apply_untrusted rt raw = rfold (\<lambda>r v. rbind (assert_valid_op v) (apply_valid r)) rt raw"

section \<open>The immutable applier\<close>

text \<open>
  \<open>copyContainers(root, path)\<close>: a shallow copy of every container on the path. As values the
  copies equal the originals, so what is left of the pass is where it throws.
\<close>

fun copy_path :: "path \<Rightarrow> json \<Rightarrow> path \<Rightarrow> delta_error + json" where
  "copy_path full node [] = rbind (rguard (is_obj node) (PathError full)) (\<lambda>_. Inr node)"
| "copy_path full node (s # p) =
    rbind (rguard (is_obj node) (PathError full)) (\<lambda>_.
    (case own_value node s of
       None \<Rightarrow> Inl (PathError full)
     | Some child \<Rightarrow>
         if is_array node \<and> \<not> is_idx s then Inl (UnsafePathError (seg_json s))
         else rbind (copy_path full child p) (\<lambda>child'. Inr (write_value node s child'))))"

definition copy_containers :: "json \<Rightarrow> path \<Rightarrow> delta_error + json" where
  "copy_containers rt p = copy_path p rt p"

fun apply_op_immutable :: "json \<Rightarrow> op \<Rightarrow> delta_error + json" where
  "apply_op_immutable rt (OpR v) = Inr v"
| "apply_op_immutable rt (OpP p i r xs) =
     rbind (copy_containers rt p) (\<lambda>rt'. apply_op rt' (OpP p i r xs))"
| "apply_op_immutable rt op =
     rbind (copy_containers rt (butlast (op_path op))) (\<lambda>rt'. apply_op rt' op)"

definition apply_immutable :: "json \<Rightarrow> op list \<Rightarrow> delta_error + json" where
  "apply_immutable rt ops = rfold apply_op_immutable rt ops"

section \<open>Chunked insertion is one splice\<close>

lemma insert_chunks_eq: "insert_chunks xs pos items = array_splice xs pos 0 items"
proof (induction xs pos items rule: insert_chunks.induct)
  case (1 xs pos items)
  let ?c = chunk_size and ?ys = "array_splice xs pos 0 (take chunk_size items)"
  consider "items = []" | "items \<noteq> []" "length items \<le> ?c" | "?c < length items" by linarith
  then show ?case
  proof cases
    case 1
    then show ?thesis by (subst insert_chunks.simps) (simp add: array_splice_def)
  next
    case 2
    then show ?thesis
      by (simp add: insert_chunks.simps [of xs pos items] insert_chunks.simps [of _ _ "[]"])
  next
    case 3
    then have head: "take (pos + ?c) ?ys = take pos xs @ take ?c items"
      and rest: "drop (pos + ?c) ?ys = drop pos xs"
      by (cases "pos \<le> length xs"; simp add: array_splice_def)+
    have "insert_chunks xs pos items = insert_chunks ?ys (pos + ?c) (drop ?c items)"
      using 3 by (subst insert_chunks.simps) auto
    also have "\<dots> = take (pos + ?c) ?ys @ drop ?c items @ drop (pos + ?c) ?ys"
      using 1 3 by (force simp: array_splice_def)
    also have "\<dots> = take pos xs @ (take ?c items @ drop ?c items) @ drop pos xs"
      unfolding head rest by simp
    finally show ?thesis by (simp add: array_splice_def)
  qed
qed

lemma splice_chunked_eq: "splice_chunked xs index remove items = array_splice xs index remove items"
proof (cases "index \<le> length xs")
  case True
  then show ?thesis by (simp add: splice_chunked_def insert_chunks_eq array_splice_def)
next
  case False
  then show ?thesis by (simp add: splice_chunked_def insert_chunks_eq array_splice_def)
qed

text \<open>
  Inserting the items of a \<open>p\<close> operation ten thousand at a time, each chunk with its own
  \<open>splice\<close>, gives the array that one \<open>splice(index, remove, ...items)\<close> would give, for
  every index, also past the end.
\<close>

theorem splice_chunked_eq_splice: "splice_chunked xs index remove items = array_splice xs index remove items"
  by (rule splice_chunked_eq)

section \<open>Paths as lenses\<close>

text \<open>The step a path makes through one container, and the value at the end of a path.\<close>

definition child :: "json \<Rightarrow> seg \<Rightarrow> json option" where
  "child v s = (if is_array v \<and> \<not> is_idx s then None else own_value v s)"

fun look :: "json \<Rightarrow> path \<Rightarrow> json option" where
  "look rt [] = Some rt"
| "look rt (s # p) = Option.bind (child rt s) (\<lambda>c. look c p)"

lemma own_value_obj: "own_value v s = Some c \<Longrightarrow> is_obj v"
  by (cases v) auto

lemma child_own: "child v s = Some c \<Longrightarrow> own_value v s = Some c"
  by (simp add: child_def split: if_splits)

lemma child_obj: "child v s = Some c \<Longrightarrow> is_obj v"
  by (auto dest: child_own own_value_obj)

lemma resolve_from_iff: "resolve_from full rt p = Inr v \<longleftrightarrow> look rt p = Some v"
proof (induction p arbitrary: rt)
  case (Cons s p)
  show ?case
  proof (cases "own_value rt s")
    case None
    then show ?thesis by (simp add: child_def)
  next
    case (Some c)
    then show ?thesis using own_value_obj [OF Some] Cons.IH by (simp add: child_def)
  qed
qed simp

lemma resolve_value_iff: "resolve_value rt p = Inr v \<longleftrightarrow> look rt p = Some v"
  by (simp add: resolve_value_def resolve_from_iff)

lemma resolve_iff: "resolve rt p = Inr v \<longleftrightarrow> look rt p = Some v \<and> is_obj v"
  by (auto simp: resolve_def result_simps resolve_value_iff)

lemma own_update_twice: "own_update k b (own_update k a kvs) = own_update k b kvs"
  by (induction kvs) auto

lemma own_update_has: "own_has (own_update k a kvs) = own_has kvs"
  by (simp add: fun_eq_iff own_has_def flip: set_map own_update_keys [of k a kvs])

lemma write_child: "child n s = Some c \<Longrightarrow> child (write_value n s v) s = Some v"
  by (cases n; cases s) (auto simp: child_def own_set_get split: if_splits)

lemma write_twice: "child n s = Some c \<Longrightarrow> write_value (write_value n s a) s b = write_value n s b"
  by (cases n; cases s)
    (auto simp: child_def own_set_def own_has_iff_get own_update_get own_update_twice
      split: if_splits)

lemma write_same: "wf_json n \<Longrightarrow> child n s = Some c \<Longrightarrow> write_value n s c = n"
  by (cases n; cases s) (auto simp: child_def own_set_same split: if_splits)

lemma put_at_Cons: "child n s = Some c \<Longrightarrow> put_at n (s # p) v = write_value n s (put_at c p v)"
  by (simp add: child_own)

declare put_at.simps(2) [simp del]

lemma look_append: "look rt (p @ q) = Option.bind (look rt p) (\<lambda>v. look v q)"
  by (induction p arbitrary: rt) (simp_all add: Option.bind_assoc)

lemma put_at_append: "look rt p = Some n \<Longrightarrow> put_at rt (p @ q) v = put_at rt p (put_at n q v)"
  by (induction p arbitrary: rt) (auto simp: put_at_Cons bind_eq_Some_conv)

lemma look_put: "look rt p = Some n \<Longrightarrow> look (put_at rt p v) p = Some v"
proof (induction p arbitrary: rt)
  case (Cons s p)
  then obtain c where c: "child rt s = Some c" "look c p = Some n"
    by (auto simp: bind_eq_Some_conv)
  then show ?case using Cons.IH by (simp add: put_at_Cons write_child)
qed simp

lemma put_put: "look rt p = Some n \<Longrightarrow> put_at (put_at rt p v) p w = put_at rt p w"
proof (induction p arbitrary: rt)
  case (Cons s p)
  then obtain c where c: "child rt s = Some c" "look c p = Some n"
    by (auto simp: bind_eq_Some_conv)
  then show ?case
    using Cons.IH [OF c(2)] by (simp add: put_at_Cons [OF write_child] put_at_Cons write_twice)
qed simp

lemma put_look: "wf_json rt \<Longrightarrow> look rt p = Some n \<Longrightarrow> put_at rt p n = rt"
proof (induction p arbitrary: rt)
  case (Cons s p)
  then obtain c where c: "child rt s = Some c" "look c p = Some n"
    by (auto simp: bind_eq_Some_conv)
  moreover have "wf_json c"
    using Cons.prems(1) c(1)
    by (cases rt; cases s) (auto simp: child_def list_all_iff split: if_splits dest!: map_of_SomeD)
  ultimately show ?case using Cons.IH Cons.prems(1) by (simp add: put_at_Cons write_same)
qed simp

text \<open>
  The contract of a value addressed by paths: reading and writing compose along a path, and a
  write is what later reads of the path see.
\<close>

locale path_lens =
  fixes get :: "'s \<Rightarrow> 'p list \<Rightarrow> 's option"
    and put :: "'s \<Rightarrow> 'p list \<Rightarrow> 's \<Rightarrow> 's"
  assumes get_root: "get s [] = Some s"
    and put_root: "put s [] v = v"
    and get_through: "get s (p @ q) = Option.bind (get s p) (\<lambda>t. get t q)"
    and put_through: "get s p = Some t \<Longrightarrow> put s (p @ q) v = put s p (put t q v)"
    and get_put: "get s p = Some t \<Longrightarrow> get (put s p v) p = Some v"
    and put_again: "get s p = Some t \<Longrightarrow> put (put s p v) p w = put s p w"
begin

lemma get_put_below: "get s p = Some t \<Longrightarrow> get (put s p v) (p @ q) = get v q"
  by (simp add: get_through get_put)

lemma put_put_below: "get s p = Some t \<Longrightarrow> put (put s p v) (p @ q) w = put s p (put v q w)"
  by (simp add: put_through [OF get_put] put_again)

lemma put_above: "get s p = Some t \<Longrightarrow> get t q = Some u \<Longrightarrow>
    put (put s (p @ q) v) p w = put s p w"
  by (simp add: put_through put_again)

end

interpretation json_lens: path_lens look put_at
  by unfold_locales
    (simp_all add: look_append put_at_append look_put put_put)

section \<open>One operation below a resolved path\<close>

text \<open>
  What the differ's proof needs of the applier: an operation whose path goes through a resolvable
  prefix acts on the value found there, and the root gets that value's new form put back.
\<close>

lemma apply_op_ok: "op_ok op \<Longrightarrow> apply_op rt op = apply_valid rt op"
  by (simp add: apply_op_def op_json_valid)

lemma at_parent_below:
  assumes "look rt p = Some n" and "is_obj n" and "check_key n s = Inr ()" and "edit n s = Inr n'"
  shows "at_parent rt (p @ [s]) edit = Inr (put_at rt p n')"
  using assms by (simp add: at_parent_def resolve_iff [THEN iffD2])

lemma check_key_child: "child n s = Some c \<Longrightarrow> check_key n s = Inr ()"
  by (cases n; cases s) (auto simp: check_key_def child_def split: if_splits)

lemma apply_set:
  assumes "look rt (p @ [s]) = Some c" and "path_ok (p @ [s])"
  shows "apply_op rt (OpS (p @ [s]) v) = Inr (put_at rt (p @ [s]) v)"
proof -
  from assms(1) obtain n where n: "look rt p = Some n" "child n s = Some c"
    by (auto simp: json_lens.get_through bind_eq_Some_conv)
  have "at_parent rt (p @ [s]) (\<lambda>parent key. Inr (write_value parent key v)) =
      Inr (put_at rt p (write_value n s v))"
    using n by (intro at_parent_below) (auto intro: check_key_child child_obj)
  then show ?thesis
    using assms(2) n by (simp add: apply_op_ok op_ok_def json_lens.put_through put_at_Cons)
qed

lemma apply_set_new:
  assumes "look rt p = Some (JObj kvs)" and "path_ok (p @ [Key k])"
  shows "apply_op rt (OpS (p @ [Key k]) v) = Inr (put_at rt p (JObj (own_set index_key k v kvs)))"
proof -
  have "at_parent rt (p @ [Key k]) (\<lambda>parent key. Inr (write_value parent key v)) =
      Inr (put_at rt p (JObj (own_set index_key k v kvs)))"
    using assms by (intro at_parent_below) (auto simp: check_key_def)
  then show ?thesis using assms(2) by (simp add: apply_op_ok op_ok_def)
qed

lemma apply_delete_key:
  assumes "look rt p = Some (JObj kvs)" and "path_ok (p @ [Key k])"
  shows "apply_op rt (OpD (p @ [Key k])) = Inr (put_at rt p (JObj (own_del k kvs)))"
proof -
  have "at_parent rt (p @ [Key k]) (delete_value (p @ [Key k])) =
      Inr (put_at rt p (JObj (own_del k kvs)))"
    using assms by (intro at_parent_below) (auto simp: check_key_def delete_value_def)
  then show ?thesis using assms(2) by (simp add: apply_op_ok op_ok_def)
qed

lemma at_parent_string:
  assumes "look rt (p @ [s]) = Some (JStr cur)"
  shows "at_parent rt (p @ [s]) (\<lambda>parent key.
      rbind (read_string q parent key) (\<lambda>cur. Inr (write_value parent key (JStr (f cur))))) =
    Inr (put_at rt (p @ [s]) (JStr (f cur)))"
proof -
  from assms obtain n where n: "look rt p = Some n" "child n s = Some (JStr cur)"
    by (auto simp: json_lens.get_through bind_eq_Some_conv)
  have "at_parent rt (p @ [s]) (\<lambda>parent key.
      rbind (read_string q parent key) (\<lambda>cur. Inr (write_value parent key (JStr (f cur))))) =
      Inr (put_at rt p (write_value n s (JStr (f cur))))"
    using n by (intro at_parent_below)
      (auto intro: check_key_child child_obj simp: read_string_def child_own)
  then show ?thesis using n by (simp add: json_lens.put_through put_at_Cons)
qed

lemma apply_append:
  assumes "look rt (p @ [s]) = Some (JStr cur)" and "path_ok (p @ [s])"
  shows "apply_op rt (OpA (p @ [s]) t) = Inr (put_at rt (p @ [s]) (JStr (cur @ t)))"
  using at_parent_string [OF assms(1), of _ "\<lambda>cur. cur @ t"] assms(2)
  by (simp add: apply_op_ok op_ok_def)

lemma apply_trim:
  assumes "look rt (p @ [s]) = Some (JStr cur)" and "path_ok (p @ [s])"
  shows "apply_op rt (OpT (p @ [s]) n) = Inr (put_at rt (p @ [s]) (JStr (drop n cur)))"
  using at_parent_string [OF assms(1), of _ "drop n"] assms(2)
  by (simp add: apply_op_ok op_ok_def)

lemma apply_splice:
  assumes "look rt p = Some (JArr xs)" and "path_ok p"
  shows "apply_op rt (OpP p i r items) = Inr (put_at rt p (JArr (array_splice xs i r items)))"
proof -
  have "resolve rt p = Inr (JArr xs)" using assms(1) by (simp add: resolve_iff)
  then show ?thesis
    using assms by (auto simp: apply_op_ok op_ok_def splice_chunked_eq)
qed

lemma apply_ops_Nil [simp]: "apply_ops rt [] = Inr rt"
  by (simp add: apply_ops_def)

lemma apply_ops_Cons: "apply_ops rt (op # ops) = rbind (apply_op rt op) (\<lambda>rt'. apply_ops rt' ops)"
  by (simp add: apply_ops_def)

lemma apply_ops_append: "apply_ops rt (xs @ ys) = rbind (apply_ops rt xs) (\<lambda>rt'. apply_ops rt' ys)"
  by (simp add: apply_ops_def rfold_append)

end
