(* ===== verification/DeltaDiff.thy ===== *)
theory DeltaDiff
  imports DeltaApply
begin

text \<open>
  The differ of \<open>chord/src/delta/index.ts\<close>: \<open>overlap\<close>, \<open>diffString\<close>, \<open>diffValue\<close>,
  \<open>diffObject\<close> and \<open>diffArray\<close>. The source pushes onto an output array, the model returns the
  operations in the order they are pushed; \<open>MISSING\<close> is \<open>None\<close>. Two containers are taken to be
  distinct references, so the shortcut \<open>before === after\<close> applies to primitives only.
\<close>

section \<open>Overlap of two strings\<close>

definition default_probe :: nat where
  "default_probe = 64"

definition default_max_candidates :: nat where
  "default_max_candidates = 8"

text \<open>
  The candidate loop for one probe: \<open>left\<close> counts the candidates that may still be tried,
  \<open>from\<close> is where the next \<open>indexOf\<close> starts.
\<close>

fun overlap_probe :: "nat \<Rightarrow> 'a list \<Rightarrow> 'a list \<Rightarrow> 'a list \<Rightarrow> nat \<Rightarrow> nat option" where
  "overlap_probe 0 tail b head from = None"
| "overlap_probe (Suc left) tail b head from = (case index_of_from tail head from of
     None \<Rightarrow> None
   | Some k \<Rightarrow> (let n = length tail - k in
       if n \<le> length b \<and> drop k tail = take n b then Some n
       else overlap_probe left tail b head (k + 1)))"

definition overlap :: "'a list \<Rightarrow> 'a list \<Rightarrow> nat \<Rightarrow> nat \<Rightarrow> nat \<Rightarrow> nat" where
  "overlap a b scan probe max_candidates =
    (if a = [] \<or> b = [] \<or> scan = 0 then 0 else
     let tail = (if length a > scan then drop (length a - scan) a else a);
         h = min probe (length b)
     in case overlap_probe max_candidates tail b (take h b) 0 of
          Some n \<Rightarrow> n
        | None \<Rightarrow> (if h = 1 then 0
            else (case overlap_probe max_candidates tail b (take 1 b) 0 of
                    Some n \<Rightarrow> n
                  | None \<Rightarrow> 0)))"

lemma overlap_probe_Some:
  "overlap_probe c tail b head from = Some n \<Longrightarrow>
     n \<le> length tail \<and> n \<le> length b \<and> drop (length tail - n) tail = take n b"
proof (induction c arbitrary: "from")
  case (Suc c)
  then obtain k where k: "index_of_from tail head from = Some k"
    by (auto split: option.splits)
  then have "k \<le> length tail" by (auto dest: index_of_from_Some)
  with Suc k show ?case by (auto simp: Let_def split: if_splits)
qed simp

lemma overlap_match:
  "overlap a b scan probe m \<le> length a \<and> overlap a b scan probe m \<le> length b \<and>
   drop (length a - overlap a b scan probe m) a = take (overlap a b scan probe m) b"
proof -
  let ?tail = "if length a > scan then drop (length a - scan) a else a"
  have probed: "n \<le> length a \<and> n \<le> length b \<and> drop (length a - n) a = take n b"
    if "overlap_probe m ?tail b head 0 = Some n" for head n
  proof -
    from that have n: "n \<le> length ?tail \<and> n \<le> length b \<and> drop (length ?tail - n) ?tail = take n b"
      by (rule overlap_probe_Some)
    show ?thesis
    proof (cases "scan < length a")
      case True
      with n have "drop (scan - n) (drop (length a - scan) a) = take n b" "n \<le> scan" by auto
      with True n show ?thesis by simp
    next
      case False
      with n show ?thesis by simp
    qed
  qed
  have "(\<exists>head. overlap_probe m ?tail b head 0 = Some (overlap a b scan probe m)) \<or>
      overlap a b scan probe m = 0"
    unfolding overlap_def Let_def by (simp split: option.split) blast
  then show ?thesis using probed by fastforce
qed

text \<open>
  \<open>overlap(a, b, ...)\<close> is always correct: the \<open>n\<close> it returns, whatever the scan window,
  probe length and candidate limit, is the length of a suffix of \<open>a\<close> that is a prefix of \<open>b\<close>.
\<close>

theorem overlap_sound:
  "overlap a b scan probe m \<le> length a \<and> overlap a b scan probe m \<le> length b \<and>
   drop (length a - overlap a b scan probe m) a = take (overlap a b scan probe m) b"
  by (rule overlap_match)

section \<open>Emission\<close>

definition emit_set :: "path \<Rightarrow> json \<Rightarrow> op list" where
  "emit_set p v = (if p = [] then [OpR v] else [OpS p v])"

definition emit_delete :: "path \<Rightarrow> delta_error + op list" where
  "emit_delete p = (if p = [] then Inl (TypeErr ''the tracked root cannot be deleted'')
     else Inr [OpD p])"

definition diff_string :: "nat \<Rightarrow> path \<Rightarrow> string \<Rightarrow> string \<Rightarrow> op list" where
  "diff_string scan p before after =
    (if before = after then []
     else if p = [] then emit_set p (JStr after)
     else if length after > length before \<and> take (length before) after = before
       then [OpA p (drop (length before) after)]
     else let shared = overlap before after scan default_probe default_max_candidates in
       if shared = 0 then [OpS p (JStr after)]
       else OpT p (length before - shared) #
         (if length after > shared then [OpA p (drop shared after)] else []))"

section \<open>The recursive differ\<close>

definition has_reserved_key :: "(string \<times> json) list \<Rightarrow> bool" where
  "has_reserved_key kvs \<longleftrightarrow> list_ex is_reserved (map fst kvs)"

text \<open>The two counting loops of \<open>diffArray\<close>.\<close>

fun common_prefix :: "json list \<Rightarrow> json list \<Rightarrow> nat" where
  "common_prefix (x # xs) (y # ys) = (if json_equal x y then Suc (common_prefix xs ys) else 0)"
| "common_prefix _ _ = 0"

definition common_suffix :: "json list \<Rightarrow> json list \<Rightarrow> nat \<Rightarrow> nat" where
  "common_suffix before after pre =
     common_prefix (rev (drop pre before)) (rev (drop pre after))"

text \<open>The tail of \<open>diffArray\<close>, after the retained indices were compared.\<close>

definition diff_array_tail :: "path \<Rightarrow> json list \<Rightarrow> json list \<Rightarrow> op list" where
  "diff_array_tail p before after =
    (if length after > length before then [OpP p (length before) 0 (drop (length before) after)]
     else if length before > length after then
       (if after = [] then emit_set p (JArr after)
        else [OpP p (length after) (length before - length after) []])
     else [])"

text \<open>The key loop of \<open>diffObject\<close> that emits deletions.\<close>

fun delete_keys :: "path \<Rightarrow> (string \<times> json) list \<Rightarrow> (string \<times> json) list \<Rightarrow> delta_error + op list" where
  "delete_keys p after [] = Inr []"
| "delete_keys p after ((k, _) # before) =
     rbind (if own_has after k then Inr [] else emit_delete (p @ [Key k])) (\<lambda>o1.
     rbind (delete_keys p after before) (\<lambda>o2. Inr (o1 @ o2)))"

function (sequential) diff_value :: "nat \<Rightarrow> path \<Rightarrow> json option \<Rightarrow> json option \<Rightarrow> delta_error + op list"
  and diff_object :: "nat \<Rightarrow> path \<Rightarrow> (string \<times> json) list \<Rightarrow> (string \<times> json) list \<Rightarrow> delta_error + op list"
  and diff_keys :: "nat \<Rightarrow> path \<Rightarrow> (string \<times> json) list \<Rightarrow> (string \<times> json) list \<Rightarrow> delta_error + op list"
  and diff_array :: "nat \<Rightarrow> path \<Rightarrow> json list \<Rightarrow> json list \<Rightarrow> delta_error + op list"
  and diff_items :: "nat \<Rightarrow> path \<Rightarrow> nat \<Rightarrow> json list \<Rightarrow> json list \<Rightarrow> delta_error + op list" where
  "diff_value scan p None None = Inr []"
| "diff_value scan p None (Some after) = Inr (emit_set p after)"
| "diff_value scan p (Some before) None = emit_delete p"
| "diff_value scan p (Some before) (Some after) =
    (if \<not> is_obj before \<and> before = after then Inr []
     else (case (before, after) of
       (JStr s, JStr t) \<Rightarrow> Inr (diff_string scan p s t)
     | (JArr xs, JArr ys) \<Rightarrow> diff_array scan p xs ys
     | (JObj kvs, JObj kws) \<Rightarrow> diff_object scan p kvs kws
     | _ \<Rightarrow> Inr (emit_set p after)))"
| "diff_object scan p before after =
    (if has_reserved_key before \<or> has_reserved_key after then Inr (emit_set p (JObj after))
     else rbind (diff_keys scan p before after) (\<lambda>o1.
          rbind (delete_keys p after before) (\<lambda>o2. Inr (o1 @ o2))))"
| "diff_keys scan p before [] = Inr []"
| "diff_keys scan p before ((k, v) # after) =
    rbind (diff_value scan (p @ [Key k]) (own_get before k) (Some v)) (\<lambda>o1.
    rbind (diff_keys scan p before after) (\<lambda>o2. Inr (o1 @ o2)))"
| "diff_array scan p before after =
    (if length before = length after then diff_items scan p 0 before after
     else let pre = common_prefix before after;
              suf = common_suffix before after pre;
              shorter = min (length before) (length after)
          in if pre + suf = shorter then
               let remove = length before - pre - suf;
                   items = drop pre (take (length after - suf) after)
               in Inr (if pre = 0 \<and> remove = length before then emit_set p (JArr after)
                       else [OpP p pre remove items])
             else rbind (diff_items scan p 0 before after) (\<lambda>o1.
                  Inr (o1 @ diff_array_tail p before after)))"
| "diff_items scan p i (x # before) (y # after) =
    rbind (diff_value scan (p @ [Idx i]) (Some x) (Some y)) (\<lambda>o1.
    rbind (diff_items scan p (Suc i) before after) (\<lambda>o2. Inr (o1 @ o2)))"
| "diff_items scan p i _ _ = Inr []"

  by pat_completeness auto
termination
  by (relation "measure (case_sum
      (case_sum (\<lambda>(_, _, _, a). case a of None \<Rightarrow> 0 | Some v \<Rightarrow> 3 * size v)
                (\<lambda>(_, _, _, kws). 3 * size (JObj kws) - 1))
      (case_sum (\<lambda>(_, _, _, kws). 3 * size (JObj kws) - 2)
        (case_sum (\<lambda>(_, _, _, ys). 3 * size (JArr ys) - 1)
                  (\<lambda>(_, _, _, _, ys). 3 * size (JArr ys) - 2))))")
    auto

definition diff :: "nat \<Rightarrow> json \<Rightarrow> json \<Rightarrow> delta_error + op list" where
  "diff scan before after = diff_value scan [] (Some before) (Some after)"

end
