(* ===== verification/DeltaSound.thy ===== *)
theory DeltaSound
  imports DeltaDiff
begin

text \<open>
  The differ and the applier agree: the operations \<open>diffValue\<close> emits for a path, applied to any
  value that holds \<open>before\<close> there, leave a value that holds \<open>after\<close> there, up to the order of
  object keys, and touch nothing else (theorem \<open>diff_apply\<close> at the root).
\<close>

section \<open>Well-formed results\<close>

lemma wf_obj_iff: "wf_json (JObj kvs) \<longleftrightarrow> own_ok kvs \<and> (\<forall>k v. own_get kvs k = Some v \<longrightarrow> wf_json v)"
proof -
  have "own_ok kvs \<Longrightarrow> (\<forall>k v. own_get kvs k = Some v \<longrightarrow> wf_json v) \<Longrightarrow> kv \<in> set kvs \<Longrightarrow> wf_json (snd kv)" for kv
    by (cases kv) (auto simp: own_ok_def map_of_is_SomeI)
  then show ?thesis by (auto simp: list_all_iff dest: wf_json_get) (metis map_of_SomeD snd_conv)
qed

lemma wf_obj_set: "wf_json (JObj kvs) \<Longrightarrow> wf_json v \<Longrightarrow> wf_json (JObj (own_set idx k v kvs))"
  by (auto simp: wf_obj_iff own_simps simp del: wf_json.simps)

lemma wf_obj_del: "wf_json (JObj kvs) \<Longrightarrow> wf_json (JObj (own_del k kvs))"
  by (auto simp: wf_obj_iff own_simps simp del: wf_json.simps split: if_splits)

lemma wf_arr_nth: "wf_json (JArr xs) \<Longrightarrow> i < length xs \<Longrightarrow> wf_json (xs ! i)"
  by (simp add: list_all_length)

lemma wf_arr_update: "wf_json (JArr xs) \<Longrightarrow> wf_json v \<Longrightarrow> wf_json (JArr (xs[i := v]))"
  by (auto simp: list_all_iff dest: subsetD [OF set_update_subset_insert])

lemma wf_arr_append [simp]: "wf_json (JArr (xs @ ys)) \<longleftrightarrow> wf_json (JArr xs) \<and> wf_json (JArr ys)"
  by simp

lemma wf_arr_take: "wf_json (JArr xs) \<Longrightarrow> wf_json (JArr (take n xs))"
  by (auto simp: list_all_iff dest: in_set_takeD)

lemma wf_arr_drop: "wf_json (JArr xs) \<Longrightarrow> wf_json (JArr (drop n xs))"
  by (auto simp: list_all_iff dest: in_set_dropD)

lemma wf_write: "wf_json n \<Longrightarrow> wf_json v \<Longrightarrow> wf_json (write_value n s v)"
proof (cases n)
  case (JArr xs)
  then show "wf_json n \<Longrightarrow> wf_json v \<Longrightarrow> ?thesis"
    by (cases s) (auto simp: wf_arr_update simp del: wf_json.simps(1), simp)
next
  case (JObj kvs)
  then show "wf_json n \<Longrightarrow> wf_json v \<Longrightarrow> ?thesis" by (simp add: wf_obj_set del: wf_json.simps)
qed auto

lemma wf_child: "wf_json n \<Longrightarrow> child n s = Some c \<Longrightarrow> wf_json c"
proof (cases n)
  case (JObj kvs)
  then show "wf_json n \<Longrightarrow> child n s = Some c \<Longrightarrow> ?thesis"
    by (cases s) (auto simp: child_def simp del: wf_json.simps dest: wf_json_get)
qed (cases s; auto simp: child_def list_all_length split: if_splits)+

lemma wf_look: "wf_json rt \<Longrightarrow> look rt p = Some v \<Longrightarrow> wf_json v"
  by (induction p arbitrary: rt) (auto simp: bind_eq_Some_conv dest: wf_child)

lemma wf_put: "wf_json rt \<Longrightarrow> look rt p = Some n \<Longrightarrow> wf_json v \<Longrightarrow> wf_json (put_at rt p v)"
proof (induction p arbitrary: rt)
  case (Cons s p)
  then obtain c where c: "child rt s = Some c" "look c p = Some n"
    by (auto simp: bind_eq_Some_conv)
  then show ?case using Cons by (auto simp: put_at_Cons intro!: wf_write dest: wf_child)
qed simp

lemmas wf_intros = wf_obj_set wf_obj_del wf_arr_update wf_arr_take wf_arr_drop wf_write wf_put

section \<open>What a batch does at a path\<close>

definition turns :: "path \<Rightarrow> op list \<Rightarrow> json \<Rightarrow> json \<Rightarrow> bool" where
  "turns p ops before v \<longleftrightarrow> (\<forall>rt. wf_json rt \<longrightarrow> look rt p = Some before \<longrightarrow>
     apply_ops rt ops = Inr (put_at rt p v))"

lemma turns_Nil: "turns p [] v v"
  by (simp add: turns_def put_look)

lemma turns_append:
  assumes "turns p xs u v" and "turns p ys v w" and "wf_json v"
  shows "turns p (xs @ ys) u w"
  using assms by (auto simp: turns_def apply_ops_append json_lens.get_put json_lens.put_again wf_put)

lemma turns_one:
  "(\<And>rt. look rt p = Some u \<Longrightarrow> apply_op rt op = Inr (put_at rt p v)) \<Longrightarrow> turns p [op] u v"
  by (auto simp: turns_def apply_ops_Cons)

lemma turns_child:
  assumes "turns (p @ [s]) ops c c'" and "child n s = Some c"
  shows "turns p ops n (write_value n s c')"
  unfolding turns_def
proof (intro allI impI)
  fix rt
  assume "wf_json rt" and n: "look rt p = Some n"
  moreover from n assms(2) have "look rt (p @ [s]) = Some c"
    by (simp add: json_lens.get_through)
  ultimately have "apply_ops rt ops = Inr (put_at rt (p @ [s]) c')"
    using assms(1) by (simp add: turns_def)
  then show "apply_ops rt ops = Inr (put_at rt p (write_value n s c'))"
    using assms(2) n by (simp add: json_lens.put_through put_at_Cons)
qed

lemma turns_emit_set: "path_ok p \<Longrightarrow> turns p (emit_set p v) u v"
proof (cases p rule: rev_cases)
  case Nil
  then show ?thesis
    by (auto simp: emit_set_def apply_op_ok op_ok_def intro!: turns_one)
next
  case (snoc q s)
  then show "path_ok p \<Longrightarrow> ?thesis" by (auto simp: emit_set_def intro!: turns_one apply_set)
qed

lemma turns_set_new:
  "path_ok (p @ [Key k]) \<Longrightarrow>
   turns p (emit_set (p @ [Key k]) v) (JObj kvs) (JObj (own_set index_key k v kvs))"
  by (auto simp: emit_set_def intro!: turns_one apply_set_new)

lemma turns_delete:
  "path_ok (p @ [Key k]) \<Longrightarrow> turns p [OpD (p @ [Key k])] (JObj kvs) (JObj (own_del k kvs))"
  by (auto intro!: turns_one apply_delete_key)

lemma turns_splice:
  "path_ok p \<Longrightarrow> turns p [OpP p i r items] (JArr xs) (JArr (array_splice xs i r items))"
  by (auto intro!: turns_one apply_splice)

section \<open>Strings\<close>

lemma turns_diff_string:
  assumes "path_ok p"
  shows "turns p (diff_string scan p s t) (JStr s) (JStr t)"
proof (cases p rule: rev_cases)
  case Nil
  then show ?thesis using turns_Nil turns_emit_set [of "[]"] by (auto simp: diff_string_def)
next
  case (snoc q k)
  have ok: "path_ok (q @ [k])" using assms snoc by simp
  let ?n = "overlap s t scan default_probe default_max_candidates"
  have set: "turns p [OpS p (JStr t)] (JStr s) (JStr t)"
    using turns_emit_set [OF assms, of "JStr t" "JStr s"] snoc by (simp add: emit_set_def)
  have append: "turns p [OpA p u] (JStr s') (JStr (s' @ u))" for s' u
    unfolding snoc using ok by (intro turns_one apply_append)
  have trim: "turns p [OpT p n] (JStr s) (JStr (drop n s))" for n
    unfolding snoc using ok by (intro turns_one apply_trim)
  have shared: "turns p (OpT p (length s - ?n) #
      (if length t > ?n then [OpA p (drop ?n t)] else [])) (JStr s) (JStr t)"
  proof -
    have n: "?n \<le> length t" "drop (length s - ?n) s = take ?n t"
      using overlap_match [of s t scan default_probe default_max_candidates] by auto
    show ?thesis
    proof (cases "length t > ?n")
      case True
      have "turns p ([OpT p (length s - ?n)] @ [OpA p (drop ?n t)]) (JStr s)
          (JStr (take ?n t @ drop ?n t))"
        using trim [of "length s - ?n"] append [of "drop ?n t" "take ?n t"] n(2)
        by (intro turns_append [where v = "JStr (take ?n t)"]) simp_all
      with True show ?thesis by simp
    next
      case False
      then show ?thesis using trim [of "length s - ?n"] n by simp
    qed
  qed
  have grow: "turns p [OpA p (drop (length s) t)] (JStr s) (JStr t)" if "take (length s) t = s"
    using append [of "drop (length s) t" s] that by (metis append_take_drop_id)
  have "p \<noteq> []" using snoc by simp
  then show ?thesis
    using turns_Nil set shared grow by (simp add: diff_string_def Let_def)
qed

section \<open>Arrays\<close>

lemma common_prefix_bounds:
  "common_prefix xs ys \<le> length xs \<and> common_prefix xs ys \<le> length ys"
  by (induction xs ys rule: common_prefix.induct) auto

lemma common_prefix_equal:
  "list_all2 json_equal (take (common_prefix xs ys) xs) (take (common_prefix xs ys) ys)"
  by (induction xs ys rule: common_prefix.induct) auto

lemma common_suffix_bounds:
  "common_suffix xs ys n \<le> length xs - n \<and> common_suffix xs ys n \<le> length ys - n"
  using common_prefix_bounds [of "rev (drop n xs)" "rev (drop n ys)"]
  by (simp add: common_suffix_def)

lemma common_suffix_equal:
  assumes "n \<le> length xs" and "n \<le> length ys"
  shows "list_all2 json_equal (drop (length xs - common_suffix xs ys n) xs)
    (drop (length ys - common_suffix xs ys n) ys)"
proof -
  let ?k = "common_suffix xs ys n"
  have "list_all2 json_equal (take ?k (rev (drop n xs))) (take ?k (rev (drop n ys)))"
    unfolding common_suffix_def by (rule common_prefix_equal)
  then have "list_all2 json_equal (drop (length xs - n - ?k) (drop n xs)) (drop (length ys - n - ?k) (drop n ys))"
    by (simp add: take_rev)
  moreover have "length xs - n - ?k + n = length xs - ?k" "length ys - n - ?k + n = length ys - ?k"
    using common_suffix_bounds [of xs ys n] assms by linarith+
  ultimately show ?thesis by simp
qed

text \<open>Replacing the middle part between an equal prefix and an equal suffix.\<close>

lemma splice_middle_equal:
  assumes "list_all2 json_equal (take n xs) (take n ys)"
    and "list_all2 json_equal (drop (length xs - m) xs) (drop (length ys - m) ys)"
    and "n + m \<le> length xs" and "n + m \<le> length ys" and "wf_json (JArr ys)"
  shows "list_all2 json_equal
    (array_splice xs n (length xs - n - m) (drop n (take (length ys - m) ys))) ys"
proof -
  have "list_all2 json_equal (drop n (take (length ys - m) ys)) (drop n (take (length ys - m) ys))"
    using assms(5) by (auto intro!: list.rel_refl_strong json_equal_refl simp: list_all_iff
        dest: in_set_takeD in_set_dropD)
  moreover have "n + (length xs - n - m) = length xs - m" using assms(3) by linarith
  ultimately have "list_all2 json_equal
      (array_splice xs n (length xs - n - m) (drop n (take (length ys - m) ys)))
      (take n ys @ drop n (take (length ys - m) ys) @ drop (length ys - m) ys)"
    unfolding array_splice_def using assms(1,2) by (intro list_all2_appendI) simp_all
  moreover have "take n ys @ drop n (take (length ys - m) ys) @ drop (length ys - m) ys = ys"
  proof -
    have "take n ys = take n (take (length ys - m) ys)" using assms(4) by (simp add: min_def)
    then show ?thesis by (metis append.assoc append_take_drop_id)
  qed
  ultimately show ?thesis by simp
qed

lemma splice_wf: "wf_json (JArr xs) \<Longrightarrow> wf_json (JArr items) \<Longrightarrow> wf_json (JArr (array_splice xs i r items))"
  using wf_arr_take [of xs i] wf_arr_drop [of xs "i + r"] by (simp add: array_splice_def)

section \<open>The differ is sound\<close>

definition reaches :: "path \<Rightarrow> delta_error + op list \<Rightarrow> json \<Rightarrow> json \<Rightarrow> bool" where
  "reaches p d before after \<longleftrightarrow>
    (\<exists>ops v. d = Inr ops \<and> turns p ops before v \<and> json_equal v after \<and> wf_json v)"

lemma reaches_emit_set: "path_ok p \<Longrightarrow> wf_json v \<Longrightarrow> reaches p (Inr (emit_set p v)) u v"
  unfolding reaches_def using turns_emit_set json_equal_refl by blast

text \<open>
  The state of the key loop: \<open>cur\<close> still has the \<open>before\<close> value of every key to come, and ends
  with the \<open>after\<close> value of each of them and everything else unchanged.
\<close>

definition keys_turn :: "path \<Rightarrow> delta_error + op list \<Rightarrow> (string \<times> json) list \<Rightarrow> (string \<times> json) list \<Rightarrow> bool" where
  "keys_turn p d before after \<longleftrightarrow> (\<forall>cur. wf_json (JObj cur) \<longrightarrow>
     (\<forall>k. own_has after k \<longrightarrow> own_get cur k = own_get before k) \<longrightarrow>
     (\<exists>ops cur'. d = Inr ops \<and> turns p ops (JObj cur) (JObj cur') \<and> wf_json (JObj cur') \<and>
       (\<forall>k. case own_get after k of
           None \<Rightarrow> own_get cur' k = own_get cur k
         | Some v \<Rightarrow> \<exists>w. own_get cur' k = Some w \<and> json_equal w v)))"

text \<open>The same for the index loop, from index \<open>i\<close> on.\<close>

definition items_turn :: "path \<Rightarrow> delta_error + op list \<Rightarrow> nat \<Rightarrow> json list \<Rightarrow> json list \<Rightarrow> bool" where
  "items_turn p d i before after \<longleftrightarrow> (\<forall>cur. wf_json (JArr cur) \<longrightarrow>
     i + length before \<le> length cur \<longrightarrow> take (length before) (drop i cur) = before \<longrightarrow>
     (\<exists>ops cur'. d = Inr ops \<and> turns p ops (JArr cur) (JArr cur') \<and> wf_json (JArr cur') \<and>
       length cur' = length cur \<and> take i cur' = take i cur \<and>
       list_all2 json_equal (take (min (length before) (length after)) (drop i cur'))
         (take (min (length before) (length after)) after)))"

lemma keys_turn_Nil: "keys_turn p (Inr []) before []"
  unfolding keys_turn_def using turns_Nil by fastforce

lemma keys_turn_Cons:
  assumes distinct: "\<not> own_has after k" and ok: "path_ok (p @ [Key k])"
    and wf: "wf_json (JObj before)" "wf_json v"
    and old: "\<And>u. own_get before k = Some u \<Longrightarrow> reaches (p @ [Key k]) d1 u v"
    and new: "own_get before k = None \<Longrightarrow> d1 = Inr (emit_set (p @ [Key k]) v)"
    and rest: "keys_turn p d2 before after"
  shows "keys_turn p (rbind d1 (\<lambda>o1. rbind d2 (\<lambda>o2. Inr (o1 @ o2)))) before ((k, v) # after)"
  unfolding keys_turn_def
proof (intro allI impI)
  fix cur
  assume cur: "wf_json (JObj cur)"
    and get: "\<forall>k'. own_has ((k, v) # after) k' \<longrightarrow> own_get cur k' = own_get before k'"
  have "\<exists>o1 w. d1 = Inr o1 \<and> json_equal w v \<and> wf_json w \<and>
      turns p o1 (JObj cur) (JObj (own_set index_key k w cur))"
  proof (cases "own_get before k")
    case None
    then show ?thesis
      using new wf(2) turns_set_new [OF ok] json_equal_refl by blast
  next
    case (Some u)
    from old [OF this] obtain o1 w where w: "d1 = Inr o1" "turns (p @ [Key k]) o1 u w"
      "json_equal w v" "wf_json w" by (auto simp: reaches_def)
    have "child (JObj cur) (Key k) = Some u" using Some get by (simp add: child_def)
    from turns_child [OF w(2) this] w show ?thesis by auto
  qed
  then obtain o1 w where w: "d1 = Inr o1" "json_equal w v" "wf_json w"
    "turns p o1 (JObj cur) (JObj (own_set index_key k w cur))" by blast
  let ?cur = "own_set index_key k w cur"
  have wf1: "wf_json (JObj ?cur)" using cur w(3) by (rule wf_obj_set)
  moreover have "\<forall>k'. own_has after k' \<longrightarrow> own_get ?cur k' = own_get before k'"
    using get distinct by (auto simp: own_set_get)
  ultimately obtain o2 cur' where c: "d2 = Inr o2" "turns p o2 (JObj ?cur) (JObj cur')"
    "wf_json (JObj cur')"
    "\<forall>k'. case own_get after k' of None \<Rightarrow> own_get cur' k' = own_get ?cur k'
       | Some v \<Rightarrow> \<exists>w. own_get cur' k' = Some w \<and> json_equal w v"
    using rest unfolding keys_turn_def by meson
  have "turns p (o1 @ o2) (JObj cur) (JObj cur')" by (rule turns_append [OF w(4) c(2) wf1])
  moreover have "case own_get ((k, v) # after) k' of None \<Rightarrow> own_get cur' k' = own_get cur k'
       | Some v \<Rightarrow> \<exists>w. own_get cur' k' = Some w \<and> json_equal w v" for k'
    using c(4)[rule_format, of k'] w(2) distinct
    by (cases "k' = k") (auto simp: own_set_get own_has_iff_get split: option.splits)
  ultimately show "\<exists>ops cur'. rbind d1 (\<lambda>o1. rbind d2 (\<lambda>o2. Inr (o1 @ o2))) = Inr ops \<and>
      turns p ops (JObj cur) (JObj cur') \<and> wf_json (JObj cur') \<and>
      (\<forall>k'. case own_get ((k, v) # after) k' of None \<Rightarrow> own_get cur' k' = own_get cur k'
         | Some v \<Rightarrow> \<exists>w. own_get cur' k' = Some w \<and> json_equal w v)"
    using w(1) c(1,3)
    by (intro exI [of _ "o1 @ o2"] exI [of _ cur'] conjI allI) (simp_all only: rbind_Inr)
qed

text \<open>The deletion loop removes exactly the keys that \<open>after\<close> lacks.\<close>

lemma delete_keys_turn:
  assumes "\<And>k. own_has before k \<Longrightarrow> path_ok (p @ [Key k])" and "wf_json (JObj cur)"
  shows "\<exists>ops cur'. delete_keys p after before = Inr ops \<and> turns p ops (JObj cur) (JObj cur') \<and>
    wf_json (JObj cur') \<and>
    (\<forall>k. own_get cur' k = (if own_has before k \<and> \<not> own_has after k then None else own_get cur k))"
  using assms
proof (induction before arbitrary: cur)
  case Nil
  then show ?case using turns_Nil by fastforce
next
  case (Cons kv before)
  obtain k u where kv: "kv = (k, u)" by (cases kv)
  show ?case
  proof (cases "own_has after k")
    case True
    from Cons.IH [OF _ Cons.prems(2)] Cons.prems(1) obtain ops cur' where
      "delete_keys p after before = Inr ops" "turns p ops (JObj cur) (JObj cur')" "wf_json (JObj cur')"
      "\<forall>k. own_get cur' k = (if own_has before k \<and> \<not> own_has after k then None else own_get cur k)"
      by auto
    with True kv show ?thesis by auto
  next
    case False
    let ?cur = "own_del k cur"
    have "turns p [OpD (p @ [Key k])] (JObj cur) (JObj ?cur)"
      using Cons.prems(1) [of k] kv by (intro turns_delete) simp
    moreover have wf1: "wf_json (JObj ?cur)" using Cons.prems(2) by (rule wf_obj_del)
    moreover from Cons.IH [OF _ wf1] Cons.prems(1) obtain ops cur' where
      c: "delete_keys p after before = Inr ops" "turns p ops (JObj ?cur) (JObj cur')" "wf_json (JObj cur')"
      "\<forall>k. own_get cur' k = (if own_has before k \<and> \<not> own_has after k then None else own_get ?cur k)"
      by auto
    ultimately have "turns p ([OpD (p @ [Key k])] @ ops) (JObj cur) (JObj cur')"
      by (blast intro: turns_append)
    with False kv c show ?thesis by (auto simp: emit_delete_def own_del_get)
  qed
qed

lemma items_turn_stop:
  "before = [] \<or> after = [] \<Longrightarrow> items_turn p (Inr []) i before after"
  unfolding items_turn_def using turns_Nil by fastforce

lemma take_Suc_update: "i < length xs \<Longrightarrow> take (Suc i) (xs[i := v]) = take i xs @ [v]"
  by (simp add: take_Suc_conv_app_nth)

lemma items_turn_Cons:
  assumes "wf_json v" and step: "reaches (p @ [Idx i]) d1 u v"
    and rest: "items_turn p d2 (Suc i) before after"
  shows "items_turn p (rbind d1 (\<lambda>o1. rbind d2 (\<lambda>o2. Inr (o1 @ o2)))) i (u # before) (v # after)"
  unfolding items_turn_def
proof (intro allI impI)
  fix cur
  assume cur: "wf_json (JArr cur)" and len: "i + length (u # before) \<le> length cur"
    and got: "take (length (u # before)) (drop i cur) = u # before"
  from step obtain o1 w where w: "d1 = Inr o1" "turns (p @ [Idx i]) o1 u w"
    "json_equal w v" "wf_json w" by (auto simp: reaches_def)
  have i: "i < length cur" using len by simp
  then have "drop i cur = cur ! i # drop (Suc i) cur" by (simp add: Cons_nth_drop_Suc)
  then have u: "cur ! i = u" and tl: "take (length before) (drop (Suc i) cur) = before"
    using got by auto
  have "child (JArr cur) (Idx i) = Some u" using i u by (simp add: child_def)
  from turns_child [OF w(2) this] i have t1: "turns p o1 (JArr cur) (JArr (cur[i := w]))" by simp
  have wf1: "wf_json (JArr (cur[i := w]))" using cur w(4) by (rule wf_arr_update)
  moreover have "Suc i + length before \<le> length (cur[i := w])" using len by simp
  moreover have "take (length before) (drop (Suc i) (cur[i := w])) = before" using tl by simp
  ultimately obtain o2 cur' where c: "d2 = Inr o2" "turns p o2 (JArr (cur[i := w])) (JArr cur')"
    "wf_json (JArr cur')" "length cur' = length cur" "take (Suc i) cur' = take (Suc i) (cur[i := w])"
    "list_all2 json_equal (take (min (length before) (length after)) (drop (Suc i) cur'))
       (take (min (length before) (length after)) after)"
    using rest unfolding items_turn_def by (metis length_list_update)
  have "turns p (o1 @ o2) (JArr cur) (JArr cur')" by (rule turns_append [OF t1 c(2) wf1])
  moreover have cur'_i: "take i cur' = take i cur \<and> cur' ! i = w"
  proof -
    have "take i cur' @ [cur' ! i] = take i cur @ [w]"
      using c(4,5) i by (simp add: take_Suc_update) (simp add: take_Suc_conv_app_nth)
    then show ?thesis by simp
  qed
  moreover have "drop i cur' = w # drop (Suc i) cur'"
    using c(4) i cur'_i by (metis Cons_nth_drop_Suc)
  ultimately show "\<exists>ops cur'. rbind d1 (\<lambda>o1. rbind d2 (\<lambda>o2. Inr (o1 @ o2))) = Inr ops \<and>
      turns p ops (JArr cur) (JArr cur') \<and> wf_json (JArr cur') \<and> length cur' = length cur \<and>
      take i cur' = take i cur \<and>
      list_all2 json_equal (take (min (length (u # before)) (length (v # after))) (drop i cur'))
        (take (min (length (u # before)) (length (v # after))) (v # after))"
    using w(1,3) c by auto
qed

section \<open>Objects\<close>

lemma reaches_object:
  assumes ok: "path_ok p" and wf: "wf_json (JObj before)" "wf_json (JObj after)"
    and safe: "\<not> has_reserved_key before"
    and keys: "keys_turn p d1 before after"
  shows "reaches p (rbind d1 (\<lambda>o1. rbind (delete_keys p after before) (\<lambda>o2. Inr (o1 @ o2))))
    (JObj before) (JObj after)"
proof -
  obtain o1 mid where m: "d1 = Inr o1" "turns p o1 (JObj before) (JObj mid)" "wf_json (JObj mid)"
    "\<And>k. case own_get after k of None \<Rightarrow> own_get mid k = own_get before k
       | Some v \<Rightarrow> \<exists>w. own_get mid k = Some w \<and> json_equal w v"
    using keys [unfolded keys_turn_def, rule_format, OF wf(1) refl] by blast
  have "path_ok (p @ [Key k])" if "own_has before k" for k
    using ok safe that by (auto simp: has_reserved_key_def list_ex_iff own_has_def)
  from delete_keys_turn [where before = before and after = after, OF this m(3)] obtain o2 cur where
    c: "delete_keys p after before = Inr o2" "turns p o2 (JObj mid) (JObj cur)" "wf_json (JObj cur)"
    "\<And>k. own_get cur k = (if own_has before k \<and> \<not> own_has after k then None else own_get mid k)"
    by blast
  have "turns p (o1 @ o2) (JObj before) (JObj cur)" by (rule turns_append [OF m(2) c(2) m(3)])
  moreover have "rel_option json_equal (own_get cur k) (own_get after k)" for k
    using m(4) [of k] c(4) [of k]
    by (cases "own_get after k") (auto simp: own_has_iff_get split: if_splits)
  then have "json_equal (JObj cur) (JObj after)"
    using c(3) wf(2) by (simp add: json_equal_obj)
  ultimately show ?thesis using m(1) c(1,3) by (auto simp: reaches_def)
qed

section \<open>Arrays of different lengths\<close>

lemma reaches_items:
  assumes "items_turn p d 0 xs ys" and "wf_json (JArr xs)"
  obtains ops cur where "d = Inr ops" and "turns p ops (JArr xs) (JArr cur)" and "wf_json (JArr cur)"
    and "length cur = length xs"
    and "list_all2 json_equal (take (min (length xs) (length ys)) cur) (take (min (length xs) (length ys)) ys)"
  using assms unfolding items_turn_def by fastforce

lemma turns_array_tail:
  assumes ok: "path_ok p" and wf: "wf_json (JArr cur)" "wf_json (JArr ys)"
    and len: "length cur = length xs"
    and eq: "list_all2 json_equal (take (min (length xs) (length ys)) cur) (take (min (length xs) (length ys)) ys)"
  shows "\<exists>v. turns p (diff_array_tail p xs ys) (JArr cur) v \<and> json_equal v (JArr ys) \<and> wf_json v"
proof (rule linorder_cases [of "length xs" "length ys"])
  assume l: "length xs < length ys"
  let ?v = "JArr (array_splice cur (length xs) 0 (drop (length xs) ys))"
  have "list_all2 json_equal (drop (length xs) ys) (drop (length xs) ys)"
    using wf(2) by (auto intro!: list.rel_refl_strong json_equal_refl simp: list_all_iff dest: in_set_dropD)
  then have "list_all2 json_equal (take (length xs) cur @ drop (length xs) ys)
      (take (length xs) ys @ drop (length xs) ys)"
    using eq l len by (intro list_all2_appendI) (simp_all add: min_def)
  then have "json_equal ?v (JArr ys)" using l len by (simp add: json_equal_arr array_splice_def)
  moreover have "wf_json ?v" using wf by (intro splice_wf wf_arr_drop)
  moreover have "turns p (diff_array_tail p xs ys) (JArr cur) ?v"
    using l turns_splice [OF ok] by (simp add: diff_array_tail_def)
  ultimately show ?thesis by blast
next
  assume l: "length xs = length ys"
  then show ?thesis
    using turns_Nil [of p "JArr cur"] eq len wf(1) by (auto simp: diff_array_tail_def json_equal_arr)
next
  assume l: "length ys < length xs"
  show ?thesis
  proof (cases "ys = []")
    case True
    then show ?thesis
      using l turns_emit_set [OF ok, of "JArr []" "JArr cur"]
      by (intro exI [of _ "JArr []"]) (auto simp: diff_array_tail_def json_equal_arr)
  next
    case False
    let ?v = "JArr (array_splice cur (length ys) (length xs - length ys) [])"
    have "json_equal ?v (JArr ys)" using l len eq by (simp add: json_equal_arr array_splice_def min_def)
    moreover have "wf_json ?v" using wf by (intro splice_wf) simp_all
    moreover have "turns p (diff_array_tail p xs ys) (JArr cur) ?v"
      using l False turns_splice [OF ok] by (simp add: diff_array_tail_def)
    ultimately show ?thesis by blast
  qed
qed

lemma reaches_array_uneven:
  assumes ok: "path_ok p" and wf: "wf_json (JArr xs)" "wf_json (JArr ys)"
    and items: "items_turn p d 0 xs ys"
  shows "reaches p (rbind d (\<lambda>o1. Inr (o1 @ diff_array_tail p xs ys))) (JArr xs) (JArr ys)"
proof -
  obtain ops cur where c: "d = Inr ops" "turns p ops (JArr xs) (JArr cur)" "wf_json (JArr cur)"
    "length cur = length xs"
    "list_all2 json_equal (take (min (length xs) (length ys)) cur) (take (min (length xs) (length ys)) ys)"
    by (rule reaches_items [OF items wf(1)])
  from turns_array_tail [OF ok c(3) wf(2) c(4,5)] obtain v where
    v: "turns p (diff_array_tail p xs ys) (JArr cur) v" "json_equal v (JArr ys)" "wf_json v" by blast
  then show ?thesis
    using c(1) turns_append [OF c(2) v(1) c(3)] by (auto simp: reaches_def)
qed

lemma reaches_array_even:
  assumes "wf_json (JArr xs)" and "length xs = length ys" and "items_turn p d 0 xs ys"
  shows "reaches p d (JArr xs) (JArr ys)"
proof -
  obtain ops cur where "d = Inr ops" "turns p ops (JArr xs) (JArr cur)" "wf_json (JArr cur)"
    "length cur = length xs"
    "list_all2 json_equal (take (min (length xs) (length ys)) cur) (take (min (length xs) (length ys)) ys)"
    by (rule reaches_items [OF assms(3,1)])
  then show ?thesis using assms(2) by (auto simp: reaches_def json_equal_arr)
qed

lemma reaches_array_middle:
  assumes ok: "path_ok p" and wf: "wf_json (JArr xs)" "wf_json (JArr ys)"
    and n: "n = common_prefix xs ys" and m: "m = common_suffix xs ys n"
  shows "reaches p (Inr (if n = 0 \<and> length xs - n - m = length xs then emit_set p (JArr ys)
      else [OpP p n (length xs - n - m) (drop n (take (length ys - m) ys))])) (JArr xs) (JArr ys)"
proof -
  let ?v = "JArr (array_splice xs n (length xs - n - m) (drop n (take (length ys - m) ys)))"
  have bounds: "n + m \<le> length xs" "n + m \<le> length ys"
    using common_prefix_bounds [of xs ys] common_suffix_bounds [of xs ys n] n m by linarith+
  have "json_equal ?v (JArr ys)"
    unfolding json_equal_arr using bounds wf(2) n m common_prefix_equal [of xs ys]
      common_suffix_equal [of n xs ys] by (intro splice_middle_equal) simp_all
  moreover have "wf_json ?v" using wf by (intro splice_wf wf_arr_take wf_arr_drop)
  ultimately have "reaches p (Inr [OpP p n (length xs - n - m) (drop n (take (length ys - m) ys))])
      (JArr xs) (JArr ys)"
    unfolding reaches_def using turns_splice [OF ok] by blast
  moreover have "reaches p (Inr (emit_set p (JArr ys))) (JArr xs) (JArr ys)"
    using ok wf(2) by (rule reaches_emit_set)
  ultimately show ?thesis by simp
qed

section \<open>The whole differ\<close>

lemma reaches_refl: "wf_json v \<Longrightarrow> reaches p (Inr []) v v"
  unfolding reaches_def using turns_Nil json_equal_refl by blast

lemma reaches_string: "path_ok p \<Longrightarrow> reaches p (Inr (diff_string scan p s t)) (JStr s) (JStr t)"
  unfolding reaches_def using turns_diff_string by fastforce

lemma diff_sound:
  "path_ok p \<Longrightarrow> ob = Some b \<Longrightarrow> oa = Some a \<Longrightarrow> wf_json b \<Longrightarrow> wf_json a \<Longrightarrow>
     reaches p (diff_value scan p ob oa) b a"
  "path_ok p \<Longrightarrow> wf_json (JObj kvs) \<Longrightarrow> wf_json (JObj kws) \<Longrightarrow>
     reaches p (diff_object scan p kvs kws) (JObj kvs) (JObj kws)"
  "path_ok p \<Longrightarrow> \<not> has_reserved_key kws \<Longrightarrow> wf_json (JObj kvs) \<Longrightarrow> wf_json (JObj kws) \<Longrightarrow>
     keys_turn p (diff_keys scan p kvs kws) kvs kws"
  "path_ok p \<Longrightarrow> wf_json (JArr xs) \<Longrightarrow> wf_json (JArr ys) \<Longrightarrow>
     reaches p (diff_array scan p xs ys) (JArr xs) (JArr ys)"
  "path_ok p \<Longrightarrow> wf_json (JArr xs) \<Longrightarrow> wf_json (JArr ys) \<Longrightarrow>
     items_turn p (diff_items scan p i xs ys) i xs ys"
proof (induction scan p ob oa and scan p kvs kws and scan p kvs kws and scan p xs ys and scan p i xs ys
    arbitrary: b a rule: diff_value_diff_object_diff_keys_diff_array_diff_items.induct)
  case (4 scan p before after)
  then show ?case
    by (auto simp: reaches_refl reaches_emit_set reaches_string split: json.split)
next
  case (5 scan p before after)
  then show ?case
    using reaches_emit_set [OF "5.prems"(1,3)] reaches_object [OF "5.prems"] by auto
next
  case (7 scan p before k v after)
  show ?case
    unfolding diff_keys.simps
  proof (rule keys_turn_Cons)
    show "\<not> own_has after k" using "7.prems"(4) by (auto simp: own_ok_def own_has_def)
    show ok: "path_ok (p @ [Key k])" using "7.prems" by (auto simp: has_reserved_key_def)
    show wfv: "wf_json v" using "7.prems"(4) by simp
    show "wf_json (JObj before)" by (rule "7.prems")
    show "reaches (p @ [Key k]) (diff_value scan (p @ [Key k]) (own_get before k) (Some v)) u v"
      if "own_get before k = Some u" for u
      using "7.IH"(1) [OF ok that refl wf_json_get [OF "7.prems"(3) that] wfv] .
    then have "\<exists>o1. diff_value scan (p @ [Key k]) (own_get before k) (Some v) = Inr o1"
      by (cases "own_get before k") (auto simp: reaches_def)
    then show "keys_turn p (diff_keys scan p before after) before after"
      using "7.prems" by (auto simp: has_reserved_key_def own_ok_def intro: "7.IH"(2))
    show "diff_value scan (p @ [Key k]) (own_get before k) (Some v) = Inr (emit_set (p @ [Key k]) v)"
      if "own_get before k = None" using that by simp
  qed
next
  case (8 scan p before after)
  let ?n = "common_prefix before after"
  consider "length before = length after"
    | "length before \<noteq> length after" "?n + common_suffix before after ?n = min (length before) (length after)"
    | "length before \<noteq> length after" "?n + common_suffix before after ?n \<noteq> min (length before) (length after)"
    by blast
  then show ?case
  proof cases
    case 1
    then show ?thesis using reaches_array_even [OF "8.prems"(2) 1] "8.IH"(1) "8.prems" by simp
  next
    case 2
    then have "diff_array scan p before after = Inr (if ?n = 0 \<and>
          length before - ?n - common_suffix before after ?n = length before
        then emit_set p (JArr after)
        else [OpP p ?n (length before - ?n - common_suffix before after ?n)
          (drop ?n (take (length after - common_suffix before after ?n) after))])"
      by (simp only: diff_array.simps Let_def if_True if_False refl)
    then show ?thesis using reaches_array_middle [OF "8.prems" refl refl] by presburger
  next
    case 3
    then show ?thesis
      using reaches_array_uneven [OF "8.prems" "8.IH"(2) [OF 3(1) refl refl refl 3(2) "8.prems"]]
      by (simp add: Let_def)
  qed
next
  case (9 scan p i x before y after)
  show ?case
    unfolding diff_items.simps
  proof (rule items_turn_Cons)
    show wfy: "wf_json y" using "9.prems" by simp
    show step: "reaches (p @ [Idx i]) (diff_value scan (p @ [Idx i]) (Some x) (Some y)) x y"
      using "9.prems" by (intro "9.IH"(1) [OF _ refl refl]) simp_all
    then obtain o1 where o1: "diff_value scan (p @ [Idx i]) (Some x) (Some y) = Inr o1"
      unfolding reaches_def by blast
    show "items_turn p (diff_items scan p (Suc i) before after) (Suc i) before after"
      using "9.prems" by (intro "9.IH"(2) [OF o1]) simp_all
  qed
qed (auto intro: keys_turn_Nil items_turn_stop)

text \<open>
  C3. The differ never fails on two well-formed values, and its operations applied to the old
  value succeed and give the new one, up to the order of object keys: a replica that applies what
  \<open>diffValue\<close> emits catches up.
\<close>

theorem diff_apply:
  assumes "wf_json before" and "wf_json after"
  shows "\<exists>ops v. diff scan before after = Inr ops \<and> apply_ops before ops = Inr v \<and>
    json_equal v after \<and> wf_json v"
proof -
  from diff_sound(1) [of "[]" "Some before" before "Some after" after scan] assms
  obtain ops v where "diff scan before after = Inr ops" "turns [] ops before v"
    "json_equal v after" "wf_json v" by (auto simp: reaches_def diff_def)
  then show ?thesis using assms(1) by (auto simp: turns_def)
qed

theorem diff_apply_witness:
  "\<exists>ops v. diff 64 (JObj [(''a'', JStr ''xy'')]) (JObj [(''a'', JStr ''xyz''), (''b'', JArr [])]) = Inr ops
     \<and> apply_ops (JObj [(''a'', JStr ''xy'')]) ops = Inr v
     \<and> json_equal v (JObj [(''a'', JStr ''xyz''), (''b'', JArr [])]) \<and> wf_json v"
  by (rule diff_apply) (simp_all add: own_ok_def)

end
