(* ===== verification/DeltaCodec.thy ===== *)
theory DeltaCodec
  imports DeltaOp
begin

text \<open>
  The wire codec of \<open>chord/src/delta/index.ts\<close>: \<open>WireOp\<close>, its validator, \<open>encoder()\<close> and
  \<open>decoder()\<close>. The encoder's closure is the record \<open>enc\<close>, the decoder's the map \<open>paths\<close>; the
  local \<open>previous\<close> of a batch is an argument of the loops. A decoder that throws in the middle of a
  batch keeps the definitions it has seen, so \<open>decode\<close> returns its state beside the result.
\<close>

section \<open>Wire operations\<close>

datatype path_ref = Inline path | PathId nat

text \<open>A short form of the source omits the path reference: \<open>None\<close> here.\<close>

datatype wire_op =
    WireR json
  | WireS "path_ref option" json
  | WireD "path_ref option"
  | WireA "path_ref option" string
  | WireT "path_ref option" nat
  | WireP "path_ref option" nat nat "json list"
  | WireDef nat path

fun wire_replace :: "wire_op \<Rightarrow> bool" where
  "wire_replace (WireR _) = True"
| "wire_replace _ = False"

definition wire_base :: "wire_op list \<Rightarrow> bool" where
  "wire_base ws \<longleftrightarrow> ws \<noteq> [] \<and> wire_replace (hd ws)"

definition path_json :: "path \<Rightarrow> json" where
  "path_json p = JArr (map seg_json p)"

fun ref_json :: "path_ref \<Rightarrow> json" where
  "ref_json (Inline p) = path_json p"
| "ref_json (PathId i) = JNum (of_nat i)"

definition ref_args :: "path_ref option \<Rightarrow> json list" where
  "ref_args r = (case r of None \<Rightarrow> [] | Some r \<Rightarrow> [ref_json r])"

fun wire_json :: "wire_op \<Rightarrow> json" where
  "wire_json (WireR v) = JArr [JStr ''r'', v]"
| "wire_json (WireS r v) = JArr (JStr ''s'' # ref_args r @ [v])"
| "wire_json (WireD r) = JArr (JStr ''d'' # ref_args r)"
| "wire_json (WireA r s) = JArr (JStr ''a'' # ref_args r @ [JStr s])"
| "wire_json (WireT r n) = JArr (JStr ''t'' # ref_args r @ [JNum (of_nat n)])"
| "wire_json (WireP r i n xs) =
     JArr (JStr ''p'' # ref_args r @ [JNum (of_nat i), JNum (of_nat n), JArr xs])"
| "wire_json (WireDef i p) = JArr [JStr ''#'', JNum (of_nat i), path_json p]"

section \<open>The validator\<close>

definition ok_ref :: "json \<Rightarrow> delta_error + path_ref" where
  "ok_ref r = (case r of
     JNum _ \<Rightarrow> rbind (assert_count r ''bad path id'') (\<lambda>i. Inr (PathId i))
   | JArr segs \<Rightarrow> rbind (assert_safe_path segs) (\<lambda>p. Inr (Inline p))
   | _ \<Rightarrow> Inl (TypeErr ''path is not an array''))"

definition assert_string :: "json \<Rightarrow> string \<Rightarrow> delta_error + string" where
  "assert_string v msg = (case v of JStr s \<Rightarrow> Inr s | _ \<Rightarrow> Inl (TypeErr msg))"

text \<open>The tail of the \<open>p\<close> case: index, remove count and items, after the reference.\<close>

definition splice_args :: "path_ref option \<Rightarrow> json \<Rightarrow> json \<Rightarrow> json \<Rightarrow> delta_error + wire_op" where
  "splice_args ref i r items =
     rbind (assert_count i ''p index'') (\<lambda>index.
     rbind (assert_count r ''p remove'') (\<lambda>remove.
     (case items of JArr xs \<Rightarrow> Inr (WireP ref index remove xs)
      | _ \<Rightarrow> Inl (TypeErr ''p items''))))"

definition valid_wire_args :: "string \<Rightarrow> json list \<Rightarrow> delta_error + wire_op" where
  "valid_wire_args verb args =
    (if verb = ''r'' then
       (case args of [v] \<Rightarrow> Inr (WireR v) | _ \<Rightarrow> Inl (TypeErr ''r arity''))
     else if verb = ''s'' then
       (case args of [r, v] \<Rightarrow> rbind (ok_ref r) (\<lambda>ref. Inr (WireS (Some ref) v))
        | [v] \<Rightarrow> Inr (WireS None v)
        | _ \<Rightarrow> Inl (TypeErr ''s arity''))
     else if verb = ''d'' then
       (case args of [r] \<Rightarrow> rbind (ok_ref r) (\<lambda>ref. Inr (WireD (Some ref)))
        | [] \<Rightarrow> Inr (WireD None)
        | _ \<Rightarrow> Inl (TypeErr ''d arity''))
     else if verb = ''a'' then
       (case args of
          [r, v] \<Rightarrow> rbind (ok_ref r) (\<lambda>ref. rbind (assert_string v ''a value'')
            (\<lambda>s. Inr (WireA (Some ref) s)))
        | [v] \<Rightarrow> rbind (assert_string v ''a value'') (\<lambda>s. Inr (WireA None s))
        | _ \<Rightarrow> Inl (TypeErr ''a arity''))
     else if verb = ''t'' then
       (case args of
          [r, v] \<Rightarrow> rbind (ok_ref r) (\<lambda>ref. rbind (assert_count v ''t count'')
            (\<lambda>n. Inr (WireT (Some ref) n)))
        | [v] \<Rightarrow> rbind (assert_count v ''t count'') (\<lambda>n. Inr (WireT None n))
        | _ \<Rightarrow> Inl (TypeErr ''t arity''))
     else if verb = ''p'' then
       (case args of
          [r, i, n, xs] \<Rightarrow> rbind (ok_ref r) (\<lambda>ref. splice_args (Some ref) i n xs)
        | [i, n, xs] \<Rightarrow> splice_args None i n xs
        | _ \<Rightarrow> Inl (TypeErr ''p arity''))
     else if verb = ''#'' then
       (case args of
          [i, JArr segs] \<Rightarrow> rbind (assert_count i ''# shape'')
            (\<lambda>k. rbind (assert_safe_path segs) (\<lambda>p. Inr (WireDef k p)))
        | _ \<Rightarrow> Inl (TypeErr ''# shape''))
     else Inl (TypeErr ''unknown op verb''))"

definition assert_valid_wire_op :: "json \<Rightarrow> delta_error + wire_op" where
  "assert_valid_wire_op v = (case v of
     JArr (JStr verb # args) \<Rightarrow> valid_wire_args verb args
   | JArr (_ # args) \<Rightarrow> Inl (TypeErr ''unknown op verb'')
   | _ \<Rightarrow> Inl (TypeErr ''op is not a tuple''))"

text \<open>What the wire grammar still asks of a typed wire operation.\<close>

fun ref_ok :: "path_ref \<Rightarrow> bool" where
  "ref_ok (Inline p) = path_ok p"
| "ref_ok (PathId _) = True"

fun wire_ok :: "wire_op \<Rightarrow> bool" where
  "wire_ok (WireS (Some r) _) = ref_ok r"
| "wire_ok (WireD (Some r)) = ref_ok r"
| "wire_ok (WireA (Some r) _) = ref_ok r"
| "wire_ok (WireT (Some r) _) = ref_ok r"
| "wire_ok (WireP (Some r) _ _ _) = ref_ok r"
| "wire_ok (WireDef _ p) = path_ok p"
| "wire_ok _ = True"

lemma ok_ref_Inr: "ok_ref v = Inr r \<longleftrightarrow> v = ref_json r \<and> ref_ok r"
  by (cases v; cases r)
    (auto simp: ok_ref_def path_json_def result_simps assert_count_Inr assert_safe_path_Inr)

lemma assert_string_Inr: "assert_string v msg = Inr s \<longleftrightarrow> v = JStr s"
  by (cases v) (auto simp: assert_string_def)

lemma splice_args_Inr:
  "splice_args ref i r items = Inr w \<longleftrightarrow> (\<exists>index remove xs. w = WireP ref index remove xs \<and>
     i = JNum (of_nat index) \<and> r = JNum (of_nat remove) \<and> items = JArr xs)"
  by (auto simp: splice_args_def result_simps assert_count_Inr)

lemma wire_json_verb: "\<exists>verb args. wire_json w = JArr (JStr verb # args)"
  by (cases w) auto

lemma not_Cons_iff: "(\<forall>a b. xs \<noteq> a # b) \<longleftrightarrow> xs = []"
  by (cases xs) auto

lemma valid_wire_args_sound:
  "valid_wire_args verb args = Inr w \<Longrightarrow> wire_json w = JArr (JStr verb # args) \<and> wire_ok w"
  by (auto simp: valid_wire_args_def result_simps ok_ref_Inr assert_string_Inr splice_args_Inr
      assert_count_Inr assert_safe_path_Inr ref_args_def path_json_def
      not_Cons_iff split: if_splits list.splits json.splits)

lemma valid_wire_args_complete: "wire_ok w \<Longrightarrow> assert_valid_wire_op (wire_json w) = Inr w"
  by (cases w rule: wire_ok.cases)
    (auto simp: assert_valid_wire_op_def valid_wire_args_def ref_args_def path_json_def result_simps
      ok_ref_Inr [THEN iffD2] assert_string_Inr splice_args_Inr assert_count_Inr assert_safe_path_Inr)

text \<open>
  \<open>assertValidWireOp\<close> accepts exactly the tuples of the wire grammar, with and without the path
  reference, whose inline paths are safe: the tuple has one reading, and that is the one the decoder
  goes on with.
\<close>

theorem assert_valid_wire_op_exact:
  "assert_valid_wire_op v = Inr w \<longleftrightarrow> v = wire_json w \<and> wire_ok w"
proof
  assume r: "assert_valid_wire_op v = Inr w"
  then obtain verb args where "v = JArr (JStr verb # args)" "valid_wire_args verb args = Inr w"
    by (auto simp: assert_valid_wire_op_def split: json.splits list.splits)
  then show "v = wire_json w \<and> wire_ok w" using valid_wire_args_sound by metis
qed (use valid_wire_args_complete in simp)

section \<open>Path keys\<close>

text \<open>
  \<open>pathKey(path) = JSON.stringify(path)\<close>: the escapes of a JSON string, and the decimal numerals
  of indices.
\<close>

definition hex_digit :: "nat \<Rightarrow> char" where
  "hex_digit n = (if n < 10 then digit_char n else char_of (87 + n))"

definition json_escape :: "char \<Rightarrow> string" where
  "json_escape c =
    (if c = CHR 0x22 then [CHR 0x5C, CHR 0x22]
     else if c = CHR 0x5C then [CHR 0x5C, CHR 0x5C]
     else if c = CHR 0x08 then [CHR 0x5C, CHR ''b'']
     else if c = CHR 0x0C then [CHR 0x5C, CHR ''f'']
     else if c = CHR 0x0A then [CHR 0x5C, CHR ''n'']
     else if c = CHR 0x0D then [CHR 0x5C, CHR ''r'']
     else if c = CHR 0x09 then [CHR 0x5C, CHR ''t'']
     else if of_char c < (32::nat) then
       [CHR 0x5C, CHR ''u'', CHR ''0'', CHR ''0'',
        hex_digit (of_char c div 16), hex_digit (of_char c mod 16)]
     else [c])"

definition json_quote :: "string \<Rightarrow> string" where
  "json_quote s = CHR 0x22 # concat (map json_escape s) @ [CHR 0x22]"

fun seg_text :: "seg \<Rightarrow> string" where
  "seg_text (Key k) = json_quote k"
| "seg_text (Idx i) = show_nat i"

fun join_segs :: "path \<Rightarrow> string" where
  "join_segs [] = '']''"
| "join_segs [s] = seg_text s @ '']''"
| "join_segs (s # t # p) = seg_text s @ '','' @ join_segs (t # p)"

definition path_key :: "path \<Rightarrow> string" where
  "path_key p = ''['' @ join_segs p"

section \<open>The encoder\<close>

record enc =
  seen :: "string set"
  ids :: "string \<Rightarrow> nat option"
  next_id :: nat

definition new_encoder :: enc where
  "new_encoder = \<lparr>seen = {}, ids = (\<lambda>_. None), next_id = 0\<rparr>"

text \<open>The tuple for an operation with the reference it goes out with; \<open>None\<close> is the short form.\<close>

fun wire_of :: "op \<Rightarrow> path_ref option \<Rightarrow> wire_op" where
  "wire_of (OpR v) _ = WireR v"
| "wire_of (OpS _ v) r = WireS r v"
| "wire_of (OpD _) r = WireD r"
| "wire_of (OpA _ s) r = WireA r s"
| "wire_of (OpT _ n) r = WireT r n"
| "wire_of (OpP _ i n xs) r = WireP r i n xs"

text \<open>
  The reference for a path that is not the previous one: an id it already has, an id defined here
  because the path was seen before, or the path itself the first time.
\<close>

definition intern_path :: "enc \<Rightarrow> path \<Rightarrow> enc \<times> wire_op list \<times> path_ref" where
  "intern_path e p =
    (let key = path_key p in
     case ids e key of
       Some i \<Rightarrow> (e, [], PathId i)
     | None \<Rightarrow>
         if key \<in> seen e then
           let i = next_id e in
           (e\<lparr>next_id := Suc i, ids := (ids e)(key \<mapsto> i)\<rparr>, [WireDef i p], PathId i)
         else (e\<lparr>seen := insert key (seen e)\<rparr>, [], Inline p))"

definition encode_op :: "enc \<Rightarrow> string option \<Rightarrow> op \<Rightarrow> enc \<times> string option \<times> wire_op list" where
  "encode_op e previous op =
    (if is_replace op then (new_encoder, None, [wire_of op None])
     else let p = op_path op; key = path_key p in
       if previous = Some key then (e, previous, [wire_of op None])
       else (case intern_path e p of
           (e', defs, ref) \<Rightarrow> (e', Some key, defs @ [wire_of op (Some ref)])))"

fun encode_loop :: "enc \<Rightarrow> string option \<Rightarrow> op list \<Rightarrow> enc \<times> wire_op list" where
  "encode_loop e previous [] = (e, [])"
| "encode_loop e previous (op # ops) =
    (case encode_op e previous op of
       (e', previous', ws) \<Rightarrow>
         (case encode_loop e' previous' ops of (e'', rest) \<Rightarrow> (e'', ws @ rest)))"

definition encode :: "enc \<Rightarrow> op list \<Rightarrow> enc \<times> wire_op list" where
  "encode e ops = encode_loop e None ops"

section \<open>The decoder\<close>

type_synonym dec = "nat \<Rightarrow> path option"

definition new_decoder :: dec where
  "new_decoder = (\<lambda>_. None)"

text \<open>The path of a wire operation: the previous one, a defined id, or the path itself.\<close>

fun deref :: "dec \<Rightarrow> path option \<Rightarrow> path_ref option \<Rightarrow> delta_error + path" where
  "deref d previous None = (case previous of None \<Rightarrow> Inl (PathError []) | Some p \<Rightarrow> Inr p)"
| "deref d previous (Some (PathId i)) = (case d i of None \<Rightarrow> Inl (PathIdError i) | Some p \<Rightarrow> Inr p)"
| "deref d previous (Some (Inline p)) = Inr p"

definition nonempty :: "path \<Rightarrow> delta_error + unit" where
  "nonempty p = rguard (p \<noteq> []) (PathError p)"

fun decode_op ::
    "dec \<Rightarrow> path option \<Rightarrow> wire_op \<Rightarrow> delta_error + dec \<times> path option \<times> op list" where
  "decode_op d previous (WireDef i p) = Inr (d(i \<mapsto> p), previous, [])"
| "decode_op d previous (WireR v) = Inr (new_decoder, None, [OpR v])"
| "decode_op d previous (WireS r v) = rbind (deref d previous r)
     (\<lambda>p. rbind (nonempty p) (\<lambda>_. Inr (d, Some p, [OpS p v])))"
| "decode_op d previous (WireD r) = rbind (deref d previous r)
     (\<lambda>p. rbind (nonempty p) (\<lambda>_. Inr (d, Some p, [OpD p])))"
| "decode_op d previous (WireA r s) = rbind (deref d previous r)
     (\<lambda>p. rbind (nonempty p) (\<lambda>_. Inr (d, Some p, [OpA p s])))"
| "decode_op d previous (WireT r n) = rbind (deref d previous r)
     (\<lambda>p. rbind (nonempty p) (\<lambda>_. Inr (d, Some p, [OpT p n])))"
| "decode_op d previous (WireP r i n xs) = rbind (deref d previous r)
     (\<lambda>p. Inr (d, Some p, [OpP p i n xs]))"

text \<open>The loop over what arrived: every element is validated before it is read.\<close>

fun decode_loop :: "dec \<Rightarrow> path option \<Rightarrow> json list \<Rightarrow> dec \<times> (delta_error + op list)" where
  "decode_loop d previous [] = (d, Inr [])"
| "decode_loop d previous (v # wire) =
    (case rbind (assert_valid_wire_op v) (decode_op d previous) of
       Inl e \<Rightarrow> (d, Inl e)
     | Inr (d', previous', ops) \<Rightarrow>
         (case decode_loop d' previous' wire of
            (d'', r) \<Rightarrow> (d'', rbind r (\<lambda>rest. Inr (ops @ rest)))))"

definition decode :: "dec \<Rightarrow> json list \<Rightarrow> dec \<times> (delta_error + op list)" where
  "decode d wire = decode_loop d None wire"

text \<open>A stream of batches through one encoder, and through one decoder.\<close>

fun encode_batches :: "enc \<Rightarrow> op list list \<Rightarrow> wire_op list list" where
  "encode_batches e [] = []"
| "encode_batches e (b # bs) = (case encode e b of (e', ws) \<Rightarrow> ws # encode_batches e' bs)"

fun decode_batches :: "dec \<Rightarrow> json list list \<Rightarrow> delta_error + op list list" where
  "decode_batches d [] = Inr []"
| "decode_batches d (w # ws) = (case decode d w of
     (d', r) \<Rightarrow> rbind r (\<lambda>b. rbind (decode_batches d' ws) (\<lambda>bs. Inr (b # bs))))"

section \<open>Path keys are injective\<close>

text \<open>Reading one escaped character back shows that escapes are a prefix code.\<close>

definition hex_val :: "char \<Rightarrow> nat" where
  "hex_val c = (if of_char c < (87::nat) then digit_val c else of_char c - 87)"

definition unescape :: "string \<Rightarrow> char \<times> string" where
  "unescape s = (case s of
     b # c # r \<Rightarrow>
       if b \<noteq> CHR 0x5C then (b, c # r)
       else if c = CHR ''b'' then (CHR 0x08, r)
       else if c = CHR ''f'' then (CHR 0x0C, r)
       else if c = CHR ''n'' then (CHR 0x0A, r)
       else if c = CHR ''r'' then (CHR 0x0D, r)
       else if c = CHR ''t'' then (CHR 0x09, r)
       else if c = CHR ''u'' then (char_of (16 * hex_val (r ! 2) + hex_val (r ! 3)), drop 4 r)
       else (c, r)
   | _ \<Rightarrow> (hd s, tl s))"

lemma hex_val_digit: "n < 16 \<Longrightarrow> hex_val (hex_digit n) = n"
  by (auto simp: hex_val_def hex_digit_def digit_char_def digit_val_def)

lemma unescape_escape: "unescape (json_escape c @ x) = (c, x)"
proof -
  have "16 * hex_val (hex_digit (of_char c div 16)) + hex_val (hex_digit (of_char c mod 16)) = of_char c"
    if "of_char c < (32::nat)" using that by (simp add: hex_val_digit)
  then show ?thesis unfolding json_escape_def unescape_def
    by (cases x) auto
qed

lemma json_escape_head: "json_escape c @ x \<noteq> CHR 0x22 # y"
  by (simp add: json_escape_def)

lemma json_escape_inj: "json_escape c @ x = json_escape d @ y \<Longrightarrow> c = d \<and> x = y"
  by (metis unescape_escape prod.inject)


lemma json_chars_inj:
  "concat (map json_escape s) @ CHR 0x22 # x = concat (map json_escape t) @ CHR 0x22 # y
   \<Longrightarrow> s = t \<and> x = y"
proof (induction s arbitrary: t)
  case Nil
  then show ?case by (cases t) (auto simp: json_escape_head [symmetric])
next
  case (Cons c s)
  show ?case
  proof (cases t)
    case Nil
    then show ?thesis using Cons.prems by (simp add: json_escape_head)
  next
    case (Cons d t')
    then have "json_escape c @ concat (map json_escape s) @ CHR 0x22 # x =
        json_escape d @ concat (map json_escape t') @ CHR 0x22 # y"
      using Cons.prems by simp
    then show ?thesis using json_escape_inj Cons.IH Cons by blast
  qed
qed

lemma json_quote_inj: "json_quote s @ x = json_quote t @ y \<Longrightarrow> s = t \<and> x = y"
  by (auto simp: json_quote_def dest: json_chars_inj)

text \<open>The text of a segment ends where a character follows that no numeral contains.\<close>

definition stops :: "string \<Rightarrow> bool" where
  "stops x \<longleftrightarrow> x \<noteq> [] \<and> \<not> is_digit (hd x)"

lemma show_nat_stops:
  assumes "show_nat i @ x = show_nat j @ y" and "stops x" and "stops y"
  shows "i = j \<and> x = y"
proof -
  have t: "takeWhile is_digit (show_nat n @ z) = show_nat n" if "stops z" for n z
    using that show_nat_digits [of _ n] by (cases z) (auto simp: stops_def takeWhile_append)
  have "show_nat i = show_nat j" using assms by (metis t)
  then show ?thesis using assms(1) by simp
qed

lemma show_nat_quote: "show_nat i @ x \<noteq> json_quote k @ y"
proof
  assume a: "show_nat i @ x = json_quote k @ y"
  have "hd (show_nat i @ x) = hd (show_nat i)" by (simp add: hd_append)
  then have "is_digit (hd (show_nat i @ x))" using show_nat_digits [of "hd (show_nat i)" i] by simp
  then show False unfolding a by (simp add: json_quote_def is_digit_def)
qed

lemma seg_text_inj:
  "seg_text s @ x = seg_text t @ y \<Longrightarrow> stops x \<Longrightarrow> stops y \<Longrightarrow> s = t \<and> x = y"
  by (cases s; cases t)
    (auto simp: show_nat_quote show_nat_quote [symmetric] simp del: append_assoc
      dest: json_quote_inj show_nat_stops)

lemma join_segs_Cons:
  "\<exists>x. join_segs (s # p) = seg_text s @ x \<and> stops x \<and>
     (p = [] \<longrightarrow> x = '']'') \<and> (p \<noteq> [] \<longrightarrow> x = '','' @ join_segs p)"
  by (cases p) (auto simp: stops_def is_digit_def)

lemma join_segs_not_end: "join_segs (s # p) \<noteq> '']''"
proof 
  assume "join_segs (s # p) = '']''"
  moreover have "hd (seg_text s) \<noteq> CHR '']'' \<and> seg_text s \<noteq> []"
  proof (cases s)
    case (Idx i)
    then have "is_digit (hd (seg_text s))" using show_nat_digits [of _ i] by simp
    then show ?thesis using Idx by (auto simp: is_digit_def)
  qed (simp add: json_quote_def)
  ultimately show False using join_segs_Cons [of s p] by (metis hd_append list.sel(1))
qed

lemma join_segs_inj: "join_segs p = join_segs q \<Longrightarrow> p = q"
proof (induction p arbitrary: q)
  case Nil
  then show ?case using join_segs_not_end by (cases q) (auto dest: sym)
next
  case (Cons s p)
  then obtain t q' where q: "q = t # q'" using join_segs_not_end by (cases q) auto
  from join_segs_Cons [of s p] obtain x where x: "join_segs (s # p) = seg_text s @ x" "stops x"
    "p = [] \<longrightarrow> x = '']''" "p \<noteq> [] \<longrightarrow> x = '','' @ join_segs p" by blast
  from join_segs_Cons [of t q'] obtain y where y: "join_segs (t # q') = seg_text t @ y" "stops y"
    "q' = [] \<longrightarrow> y = '']''" "q' \<noteq> [] \<longrightarrow> y = '','' @ join_segs q'" by blast
  have "s = t \<and> x = y" using Cons.prems x y q seg_text_inj by metis
  then show ?case using x(3,4) y(3,4) q Cons.IH [of q'] join_segs.simps(1)
    by (cases "p = []"; cases "q' = []") simp_all
qed

lemma path_key_inj [simp]: "path_key p = path_key q \<longleftrightarrow> p = q"
  by (auto simp: path_key_def dest: join_segs_inj)

section \<open>Encoder and decoder in step\<close>

definition in_step :: "enc \<Rightarrow> dec \<Rightarrow> bool" where
  "in_step e d \<longleftrightarrow> (\<forall>key i. ids e key = Some i \<longrightarrow> i < next_id e \<and> (\<exists>p. path_key p = key \<and> d i = Some p))"

lemma in_step_new: "in_step new_encoder d"
  by (simp add: in_step_def new_encoder_def)

lemma deref_interned:
  assumes "intern_path e p = (e', defs, ref)" and "in_step e d" and "path_ok p"
  shows "\<exists>d'. in_step e' d' \<and> deref d' q (Some ref) = Inr p \<and> ref_ok ref \<and>
    (\<forall>rest pd. decode_loop d pd (map wire_json defs @ rest) = decode_loop d' pd rest)"
proof -
  consider i where "ids e (path_key p) = Some i"
    | "ids e (path_key p) = None" "path_key p \<in> seen e"
    | "ids e (path_key p) = None" "path_key p \<notin> seen e" by fastforce
  then show ?thesis
  proof cases
    case 1
    moreover from 1 have "d i = Some p" using assms(2) by (fastforce simp: in_step_def)
    ultimately show ?thesis using assms by (auto simp: intern_path_def intro!: exI [of _ d])
  next
    case 2
    then have e: "e' = e\<lparr>next_id := Suc (next_id e), ids := (ids e)(path_key p \<mapsto> next_id e)\<rparr>"
      "defs = [WireDef (next_id e) p]" "ref = PathId (next_id e)"
      using assms(1) by (auto simp: intern_path_def Let_def)
    have "assert_valid_wire_op (wire_json (WireDef (next_id e) p)) = Inr (WireDef (next_id e) p)"
      by (rule valid_wire_args_complete) (simp add: assms(3))
    moreover have "in_step e' (d(next_id e \<mapsto> p))"
      using assms(2) by (fastforce simp: e(1) in_step_def)
    ultimately show ?thesis unfolding e
      by (intro exI [of _ "d(next_id e \<mapsto> p)"]) (auto split: prod.splits sum.splits)
  next
    case 3
    then show ?thesis using assms by (auto simp: intern_path_def in_step_def intro!: exI [of _ d])
  qed
qed

lemma decode_wire_of:
  assumes "op_ok op" and "\<not> is_replace op" and "deref d pd r = Inr (op_path op)"
  shows "decode_op d pd (wire_of op r) = Inr (d, Some (op_path op), [op])"
  using assms by (cases op) (auto simp: nonempty_def op_ok_def rguard_def)

lemma wire_of_ok: "op_ok op \<Longrightarrow> (\<And>ref. r = Some ref \<Longrightarrow> ref_ok ref) \<Longrightarrow> wire_ok (wire_of op r)"
  by (cases op; cases r) auto

lemma decode_encode_op:
  assumes "op_ok op" and "in_step e d" and "encode_op e (map_option path_key pd) op = (e', pe', ws)"
  shows "\<exists>d' pd'. in_step e' d' \<and> pe' = map_option path_key pd' \<and>
    (\<forall>rest. decode_loop d pd (map wire_json ws @ rest) =
      (case decode_loop d' pd' rest of (d'', r) \<Rightarrow> (d'', rbind r (\<lambda>ops. Inr (op # ops)))))"
proof -
  consider v where "op = OpR v"
    | "\<not> is_replace op" "map_option path_key pd = Some (path_key (op_path op))"
    | "\<not> is_replace op" "map_option path_key pd \<noteq> Some (path_key (op_path op))"
    by (cases op) auto
  then show ?thesis
  proof cases
    case 1
    then have ws: "e' = new_encoder" "pe' = None" "ws = [WireR v]"
      using assms(3) by (auto simp: encode_op_def)
    have "assert_valid_wire_op (wire_json (WireR v)) = Inr (WireR v)"
      by (rule valid_wire_args_complete) simp
    then show ?thesis using 1 unfolding ws
      by (intro exI [of _ new_decoder] exI [of _ None]) (auto simp: in_step_new split: prod.splits)
  next
    case 2
    then have ws: "e' = e" "pe' = map_option path_key pd" "ws = [wire_of op None]"
      "pd = Some (op_path op)"
      using assms(3) by (auto simp: encode_op_def Let_def)
    have "assert_valid_wire_op (wire_json (wire_of op None)) = Inr (wire_of op None)"
      by (intro valid_wire_args_complete wire_of_ok assms(1)) simp
    moreover have "decode_op d pd (wire_of op None) = Inr (d, Some (op_path op), [op])"
      by (intro decode_wire_of assms(1) 2(1)) (simp add: ws)
    ultimately show ?thesis using assms(2) unfolding ws
      by (intro exI [of _ d] exI [of _ "Some (op_path op)"]) (auto split: prod.splits)
  next
    case 3
    obtain defs ref where i: "intern_path e (op_path op) = (e', defs, ref)"
      and ws: "pe' = Some (path_key (op_path op))" "ws = defs @ [wire_of op (Some ref)]"
      using assms(3) 3 by (auto simp: encode_op_def Let_def split: prod.splits)
    obtain d' where d': "in_step e' d'" "deref d' pd (Some ref) = Inr (op_path op)" "ref_ok ref"
      "\<And>rest pd. decode_loop d pd (map wire_json defs @ rest) = decode_loop d' pd rest"
      using deref_interned [OF i assms(2), of pd] assms(1) unfolding op_ok_def by blast
    have "assert_valid_wire_op (wire_json (wire_of op (Some ref))) = Inr (wire_of op (Some ref))"
      by (intro valid_wire_args_complete wire_of_ok assms(1)) (simp add: d'(3))
    moreover have "decode_op d' pd (wire_of op (Some ref)) = Inr (d', Some (op_path op), [op])"
      by (intro decode_wire_of assms(1) 3(1) d'(2))
    ultimately show ?thesis using d'(1,4) unfolding ws
      by (intro exI [of _ d'] exI [of _ "Some (op_path op)"]) (auto split: prod.splits)
  qed
qed

lemma decode_encode_loop:
  assumes "list_all op_ok ops" and "in_step e d" and "encode_loop e (map_option path_key pd) ops = (e', ws)"
  shows "\<exists>d'. in_step e' d' \<and> decode_loop d pd (map wire_json ws) = (d', Inr ops)"
  using assms
proof (induction ops arbitrary: e d pd ws)
  case (Cons op ops)
  obtain e1 pe1 ws1 rest where s: "encode_op e (map_option path_key pd) op = (e1, pe1, ws1)"
    "encode_loop e1 pe1 ops = (e', rest)" "ws = ws1 @ rest"
    using Cons.prems(3) by (auto split: prod.splits)
  obtain d1 pd1 where d1: "in_step e1 d1" "pe1 = map_option path_key pd1"
    "\<And>r. decode_loop d pd (map wire_json ws1 @ r) =
      (case decode_loop d1 pd1 r of (d'', r) \<Rightarrow> (d'', rbind r (\<lambda>ops. Inr (op # ops))))"
    using decode_encode_op [OF _ Cons.prems(2) s(1)] Cons.prems(1) by auto
  obtain d' where "in_step e' d'" "decode_loop d1 pd1 (map wire_json rest) = (d', Inr ops)"
    using Cons.IH [OF _ d1(1), of pd1 rest] Cons.prems(1) s(2) d1(2) by auto
  then show ?case using d1(3) s(3) by simp
qed simp

lemma decode_encode_batches:
  "list_all (list_all op_ok) bs \<Longrightarrow> in_step e d \<Longrightarrow>
    decode_batches d (map (map wire_json) (encode_batches e bs)) = Inr bs"
proof (induction bs arbitrary: e d)
  case (Cons b bs)
  obtain e' ws where e: "encode_loop e None b = (e', ws)" by fastforce
  then obtain d' where "in_step e' d'" "decode_loop d None (map wire_json ws) = (d', Inr b)"
    using decode_encode_loop [of b e d None] Cons.prems by auto
  then show ?case using Cons e by (simp add: encode_def decode_def)
qed simp

text \<open>
  C4. A decoder that sees every batch its encoder produced gives back the batches, operation by
  operation: path ids, the omitted paths and the dictionary that spans batches lose nothing, for every
  stream of operations the validator accepts.
\<close>

theorem codec_roundtrip:
  assumes "list_all (list_all op_ok) batches"
  shows "decode_batches new_decoder (map (map wire_json) (encode_batches new_encoder batches)) =
    Inr batches"
  using decode_encode_batches [OF assms in_step_new] .

theorem codec_roundtrip_witness:
  "decode_batches new_decoder (map (map wire_json) (encode_batches new_encoder
     [[OpR (JObj []), OpS [Key ''a''] (JStr ''x''), OpP [] 0 1 []], [OpA [Key ''a''] ''y'', OpT [Key ''a''] 1]])) =
   Inr [[OpR (JObj []), OpS [Key ''a''] (JStr ''x''), OpP [] 0 1 []], [OpA [Key ''a''] ''y'', OpT [Key ''a''] 1]]"
  by (rule codec_roundtrip) (simp add: op_ok_def is_reserved_def reserved_segments_def)

lemma encode_base:
  "encode e (OpR v # ops) = (case encode_loop new_encoder None ops of (e', ws) \<Rightarrow> (e', WireR v # ws))"
  by (simp add: encode_def encode_op_def)

lemma encode_batches_base:
  assumes "is_base b"
  shows "encode_batches e (b # bs) = encode_batches new_encoder (b # bs)"
proof -
  obtain v ops where "b = OpR v # ops"
    using assms by (cases b; cases "hd b") (auto simp: is_base_def)
  then show ?thesis by (simp add: encode_base)
qed

lemma encode_batches_append:
  "\<exists>e'. encode_batches e (pre @ post) = encode_batches e pre @ encode_batches e' post \<and>
     length (encode_batches e pre) = length pre"
proof (induction pre arbitrary: e)
  case (Cons b pre)
  then show ?case by (cases "encode e b") auto
qed auto

text \<open>
  A base batch is a recovery point: whatever was encoded before, a fresh decoder that starts at
  a batch beginning with \<open>r\<close> decodes it and everything after it, without the definitions that went
  out earlier.
\<close>

theorem base_batch_recovers:
  assumes "is_base base" and "list_all (list_all op_ok) (base # after)"
  shows "decode_batches new_decoder
    (map (map wire_json) (drop (length earlier) (encode_batches new_encoder (earlier @ base # after)))) =
    Inr (base # after)"
proof -
  obtain e where "drop (length earlier) (encode_batches new_encoder (earlier @ base # after)) =
      encode_batches e (base # after)"
    using encode_batches_append [of new_encoder earlier "base # after"] by auto
  then show ?thesis
    using encode_batches_base [OF assms(1), of e] decode_encode_batches [OF assms(2) in_step_new]
    by presburger
qed

theorem base_batch_recovers_witness:
  "decode_batches new_decoder (map (map wire_json) (drop (length [[OpD [Key ''a'']], [OpD [Key ''a'']]])
     (encode_batches new_encoder ([[OpD [Key ''a'']], [OpD [Key ''a'']]] @
        [OpR JNull] # [[OpD [Key ''a'']], [OpD [Key ''a'']]])))) =
   Inr ([OpR JNull] # [[OpD [Key ''a'']], [OpD [Key ''a'']]])"
  by (rule base_batch_recovers)
    (simp_all add: is_base_def op_ok_def is_reserved_def reserved_segments_def)

lemma wire_of_replace: "\<not> is_replace op \<Longrightarrow> \<not> wire_replace (wire_of op r)"
  by (cases op) auto

lemma encode_op_head:
  "encode_op e previous op = (e', p', ws) \<Longrightarrow> ws \<noteq> [] \<and> (wire_replace (hd ws) \<longleftrightarrow> is_replace op)"
  by (cases op) (auto simp: encode_op_def intern_path_def Let_def split: if_splits option.splits prod.splits)

text \<open>
  \<open>isBase\<close> says the same of a batch and of its encoding, so a reader can look for the last
  recovery point without decoding.
\<close>

theorem encode_is_base: "wire_base (snd (encode e ops)) \<longleftrightarrow> is_base ops"
proof (cases ops)
  case Nil
  then show ?thesis by (simp add: encode_def wire_base_def is_base_def)
next
  case (Cons op ops')
  obtain e' p' ws where "encode_op e None op = (e', p', ws)" by (cases "encode_op e None op") auto
  then show ?thesis using Cons encode_op_head [of e None op e' p' ws]
    by (auto simp: encode_def wire_base_def is_base_def hd_append split: prod.splits)
qed

end
