(* ===== verification/Utf.thy ===== *)
theory Utf
  imports Prelude "HOL-Library.Word"
begin

text \<open>
  JavaScript strings as lists of 16-bit code units, bytes, and the two text codecs of the language's
  library: \<open>TextEncoder\<close> (UTF-8, an unpaired surrogate becomes U+FFFD) and \<open>TextDecoder\<close> with
  \<open>fatal: true, ignoreBOM: true\<close>, which rejects every byte sequence that is not UTF-8.
\<close>

type_synonym byte = "8 word"
type_synonym text16 = "16 word list"

section \<open>Code units and code points\<close>

definition is_high :: "16 word \<Rightarrow> bool" where
  "is_high u \<longleftrightarrow> 0xD800 \<le> u \<and> u \<le> 0xDBFF"

definition is_low :: "16 word \<Rightarrow> bool" where
  "is_low u \<longleftrightarrow> 0xDC00 \<le> u \<and> u \<le> 0xDFFF"

definition pair_point :: "16 word \<Rightarrow> 16 word \<Rightarrow> nat" where
  "pair_point h l = 0x10000 + (unat h - 0xD800) * 1024 + (unat l - 0xDC00)"

definition unit_point :: "16 word \<Rightarrow> nat" where
  "unit_point u = (if is_high u \<or> is_low u then 0xFFFD else unat u)"

fun scalars :: "text16 \<Rightarrow> nat list" where
  "scalars [] = []"
| "scalars [u] = [unit_point u]"
| "scalars (u # v # s) =
     (if is_high u \<and> is_low v then pair_point u v # scalars s else unit_point u # scalars (v # s))"

text \<open>Every surrogate is half of a pair.\<close>

fun well_formed :: "text16 \<Rightarrow> bool" where
  "well_formed [] = True"
| "well_formed [u] = (\<not> is_high u \<and> \<not> is_low u)"
| "well_formed (u # v # s) =
     (if is_high u \<and> is_low v then well_formed s
      else \<not> is_high u \<and> \<not> is_low u \<and> well_formed (v # s))"

definition is_scalar :: "nat \<Rightarrow> bool" where
  "is_scalar c \<longleftrightarrow> c < 0xD800 \<or> 0xE000 \<le> c \<and> c < 0x110000"

definition units :: "nat \<Rightarrow> text16" where
  "units c = (if c < 0x10000 then [of_nat c]
     else [of_nat (0xD800 + (c - 0x10000) div 1024), of_nat (0xDC00 + (c - 0x10000) mod 1024)])"

section \<open>UTF-8\<close>

definition utf8_char :: "nat \<Rightarrow> byte list" where
  "utf8_char c =
    (if c < 0x80 then [of_nat c]
     else if c < 0x800 then [of_nat (0xC0 + c div 64), of_nat (0x80 + c mod 64)]
     else if c < 0x10000 then
       [of_nat (0xE0 + c div 4096), of_nat (0x80 + c div 64 mod 64), of_nat (0x80 + c mod 64)]
     else [of_nat (0xF0 + c div 262144), of_nat (0x80 + c div 4096 mod 64),
           of_nat (0x80 + c div 64 mod 64), of_nat (0x80 + c mod 64)])"

definition utf8_encode :: "text16 \<Rightarrow> byte list" where
  "utf8_encode s = concat (map utf8_char (scalars s))"

definition is_cont :: "byte \<Rightarrow> bool" where
  "is_cont b \<longleftrightarrow> 0x80 \<le> unat b \<and> unat b < 0xC0"

definition cont_val :: "byte \<Rightarrow> nat" where
  "cont_val b = unat b - 0x80"

text \<open>One code point off the front: shortest form only, no surrogates, at most U+10FFFF.\<close>

fun utf8_next :: "byte list \<Rightarrow> (nat \<times> byte list) option" where
  "utf8_next [] = None"
| "utf8_next (b # bs) =
    (let n = unat b in
     if n < 0x80 then Some (n, bs)
     else if 0xC2 \<le> n \<and> n < 0xE0 then
       (case bs of c # r \<Rightarrow>
          if is_cont c then Some ((n - 0xC0) * 64 + cont_val c, r) else None
        | _ \<Rightarrow> None)
     else if 0xE0 \<le> n \<and> n < 0xF0 then
       (case bs of c # d # r \<Rightarrow>
          let cp = (n - 0xE0) * 4096 + cont_val c * 64 + cont_val d in
          if is_cont c \<and> is_cont d \<and> 0x800 \<le> cp \<and> is_scalar cp then Some (cp, r) else None
        | _ \<Rightarrow> None)
     else if 0xF0 \<le> n \<and> n < 0xF5 then
       (case bs of c # d # e # r \<Rightarrow>
          let cp = (n - 0xF0) * 262144 + cont_val c * 4096 + cont_val d * 64 + cont_val e in
          if is_cont c \<and> is_cont d \<and> is_cont e \<and> 0x10000 \<le> cp \<and> is_scalar cp then Some (cp, r)
          else None
        | _ \<Rightarrow> None)
     else None)"

lemma utf8_next_shorter: "utf8_next bs = Some (c, r) \<Longrightarrow> length r < length bs"
  by (cases bs) (auto simp: Let_def split: if_splits list.splits)

function utf8_decode :: "byte list \<Rightarrow> text16 option" where
  "utf8_decode bs = (if bs = [] then Some [] else
     (case utf8_next bs of None \<Rightarrow> None
      | Some (c, r) \<Rightarrow> map_option (\<lambda>s. units c @ s) (utf8_decode r)))"
  by pat_completeness auto
termination
  by (relation "measure length") (auto dest: utf8_next_shorter)

declare utf8_decode.simps [simp del]

section \<open>The two codecs are inverse on well-formed text\<close>

lemma unat_of_nat_byte: "n < 256 \<Longrightarrow> unat (of_nat n :: byte) = n"
  by (simp add: unat_of_nat)

lemma unat_of_nat_unit: "n < 65536 \<Longrightarrow> unat (of_nat n :: 16 word) = n"
  by (simp add: unat_of_nat)

lemma is_high_unat: "is_high u \<longleftrightarrow> 0xD800 \<le> unat u \<and> unat u \<le> 0xDBFF"
  by (simp add: is_high_def word_le_nat_alt)

lemma is_low_unat: "is_low u \<longleftrightarrow> 0xDC00 \<le> unat u \<and> unat u \<le> 0xDFFF"
  by (simp add: is_low_def word_le_nat_alt)

lemma unat_byte: "unat (b :: byte) < 256"
  using unsigned_less [of b] by simp

lemma unat_unit: "unat (u :: 16 word) < 65536"
  using unsigned_less [of u] by simp

lemma cont_byte [simp]:
  "k < 64 \<Longrightarrow> is_cont (of_nat (0x80 + k))" "k < 64 \<Longrightarrow> cont_val (of_nat (0x80 + k)) = k"
  using unat_of_nat_byte [of "0x80 + k"] by (simp_all add: is_cont_def cont_val_def del: of_nat_add)

lemma cont_byte_sum [simp]:
  "k < 64 \<Longrightarrow> is_cont (0x80 + of_nat k)" "k < 64 \<Longrightarrow> cont_val (0x80 + of_nat k) = k"
  using cont_byte [of k] by simp_all

lemma base64_digits:
  fixes c :: nat
  shows "c div 4096 * 4096 + c div 64 mod 64 * 64 + c mod 64 = c"
    and "c div 262144 * 262144 + c div 4096 mod 64 * 4096 + c div 64 mod 64 * 64 + c mod 64 = c"
proof -
  have "c div 4096 = c div 64 div 64" "c div 262144 = c div 4096 div 64"
    by (simp_all flip: div_mult2_eq)
  then show "c div 4096 * 4096 + c div 64 mod 64 * 64 + c mod 64 = c"
    and "c div 262144 * 262144 + c div 4096 mod 64 * 4096 + c div 64 mod 64 * 64 + c mod 64 = c"
    using div_mult_mod_eq [of c 64] div_mult_mod_eq [of "c div 64" 64]
      div_mult_mod_eq [of "c div 4096" 64] by linarith+
qed

lemma div4096: "(c::nat) div 4096 = c div 64 div 64" and div262144: "c div 262144 = c div 4096 div 64"
  by (simp_all flip: div_mult2_eq)

lemma divmod64: "b < 64 \<Longrightarrow> (a * 64 + b) div 64 = a \<and> (a * 64 + b) mod 64 = (b :: nat)"
  by simp

lemma cont_split: "is_cont b \<Longrightarrow> \<exists>k < 64. b = of_nat (0x80 + k)"
proof -
  assume "is_cont b"
  then have "unat b - 0x80 < 64" and "0x80 + (unat b - 0x80) = unat b"
    by (auto simp: is_cont_def)
  then have "unat b - 0x80 < 64 \<and> b = of_nat (0x80 + (unat b - 0x80))" by simp
  then show ?thesis by blast
qed

lemma utf8_next_char:
  assumes "is_scalar c"
  shows "utf8_next (utf8_char c @ r) = Some (c, r)"
proof -
  consider "c < 0x80" | "0x80 \<le> c" "c < 0x800" | "0x800 \<le> c" "c < 0x10000"
    | "0x10000 \<le> c" "c < 0x110000"
    using assms by (force simp: is_scalar_def)
  then show ?thesis
  proof cases
    case 1
    then show ?thesis by (simp add: utf8_char_def unat_of_nat_byte)
  next
    case 2
    have "unat (of_nat (0xC0 + c div 64) :: byte) = 0xC0 + c div 64"
      using 2 by (intro unat_of_nat_byte) simp
    moreover have "2 \<le> c div 64" using div_le_mono [OF 2(1), of 64] by simp
    moreover have "c div 64 < 32" using 2(2) by simp
    ultimately show ?thesis using 2
      by (simp add: utf8_char_def Let_def del: of_nat_add)
  next
    case 3
    have "unat (of_nat (0xE0 + c div 4096) :: byte) = 0xE0 + c div 4096"
      using 3 by (intro unat_of_nat_byte) simp
    moreover have "c div 4096 < 16" using 3(2) by simp
    ultimately show ?thesis using 3 assms
      by (simp add: utf8_char_def Let_def base64_digits del: of_nat_add)
  next
    case 4
    have "unat (of_nat (0xF0 + c div 262144) :: byte) = 0xF0 + c div 262144"
      using 4 by (intro unat_of_nat_byte) simp
    moreover have "c div 262144 < 5" using 4 by simp
    ultimately show ?thesis using 4 assms
      by (simp add: utf8_char_def Let_def base64_digits del: of_nat_add)
  qed
qed

lemma utf8_next_sound:
  assumes "utf8_next bs = Some (c, r)"
  shows "is_scalar c \<and> bs = utf8_char c @ r"
proof -
  from assms obtain b s where bs: "bs = b # s" by (cases bs) auto
  let ?n = "unat b"
  have b: "of_nat ?n = b" by simp
  consider "?n < 0x80" | "0xC2 \<le> ?n" "?n < 0xE0" | "0xE0 \<le> ?n" "?n < 0xF0" | "0xF0 \<le> ?n" "?n < 0xF5"
    using assms bs by (auto simp: Let_def split: if_splits)
  then show ?thesis
  proof cases
    case 1
    then show ?thesis using assms bs by (auto simp: utf8_char_def is_scalar_def Let_def)
  next
    case 2
    then obtain d where d: "s = d # r" "is_cont d" "c = (?n - 0xC0) * 64 + cont_val d"
      using assms bs by (auto simp: Let_def split: if_splits list.splits)
    obtain k where k: "k < 64" "d = of_nat (0x80 + k)" using cont_split [OF d(2)] by blast
    have n: "0xC0 + (?n - 0xC0) = ?n" "?n - 0xC0 < 32" "2 \<le> ?n - 0xC0" using 2 by simp_all
    have c: "c = (?n - 0xC0) * 64 + k" using d(3) k by simp
    then have "c div 64 = ?n - 0xC0" "c mod 64 = k" "0x80 \<le> c" "c < 0x800" using k(1) n by simp_all
    then show ?thesis using bs d(1) k(2) n b
      by (simp add: utf8_char_def is_scalar_def del: of_nat_add)
  next
    case 3
    then obtain d e where d: "s = d # e # r" "is_cont d" "is_cont e"
      "c = (?n - 0xE0) * 4096 + cont_val d * 64 + cont_val e" "0x800 \<le> c" "is_scalar c"
      using assms bs by (auto simp: Let_def split: if_splits list.splits)
    obtain k where k: "k < 64" "d = of_nat (0x80 + k)" using cont_split [OF d(2)] by blast
    obtain l where l: "l < 64" "e = of_nat (0x80 + l)" using cont_split [OF d(3)] by blast
    have n: "0xE0 + (?n - 0xE0) = ?n" "?n - 0xE0 < 16" using 3 by simp_all
    have c: "c = (?n - 0xE0) * 4096 + k * 64 + l" using d(4) k l by simp
    have "c = ((?n - 0xE0) * 64 + k) * 64 + l" using c by (simp add: add_mult_distrib)
    then have c64: "c div 64 = (?n - 0xE0) * 64 + k" "c mod 64 = l" using divmod64 [OF l(1)] by metis+
    moreover have "c div 4096 = ?n - 0xE0" using c64(1) divmod64 [OF k(1)] div4096 by metis
    moreover have "c div 64 mod 64 = k" using c64(1) divmod64 [OF k(1)] by metis
    moreover have "c < 0x10000" using c n(2) k(1) l(1) by simp
    ultimately show ?thesis using bs d(1,5,6) k(2) l(2) n b
      by (simp add: utf8_char_def del: of_nat_add)
  next
    case 4
    then obtain d e f where d: "s = d # e # f # r" "is_cont d" "is_cont e" "is_cont f"
      "c = (?n - 0xF0) * 262144 + cont_val d * 4096 + cont_val e * 64 + cont_val f"
      "0x10000 \<le> c" "is_scalar c"
      using assms bs by (auto simp: Let_def split: if_splits list.splits)
    obtain k where k: "k < 64" "d = of_nat (0x80 + k)" using cont_split [OF d(2)] by blast
    obtain l where l: "l < 64" "e = of_nat (0x80 + l)" using cont_split [OF d(3)] by blast
    obtain m where m: "m < 64" "f = of_nat (0x80 + m)" using cont_split [OF d(4)] by blast
    have n: "0xF0 + (?n - 0xF0) = ?n" using 4 by simp
    have c: "c = (?n - 0xF0) * 262144 + k * 4096 + l * 64 + m" using d(5) k l m by simp
    then have "c = (((?n - 0xF0) * 64 + k) * 64 + l) * 64 + m" by (simp add: add_mult_distrib)
    then have c64: "c div 64 = ((?n - 0xF0) * 64 + k) * 64 + l" "c mod 64 = m"
      using divmod64 [OF m(1)] by metis+
    moreover have c4096: "c div 4096 = (?n - 0xF0) * 64 + k"
      using c64(1) divmod64 [OF l(1)] div4096 by metis
    moreover have "c div 262144 = ?n - 0xF0"
      using c4096 divmod64 [OF k(1)] div262144 by metis
    moreover from c64 have "c div 64 mod 64 = l" using divmod64 [OF l(1)] by metis
    moreover from c4096 have "c div 4096 mod 64 = k" using divmod64 [OF k(1)] by metis
    ultimately show ?thesis using bs d(1,6,7) k(2) l(2) m(2) n b
      by (simp add: utf8_char_def del: of_nat_add)
  qed
qed

text \<open>Code units and code points.\<close>

fun replace_unpaired :: "text16 \<Rightarrow> text16" where
  "replace_unpaired s = concat (map units (scalars s))"

lemma surrogate_high: "k < 1024 \<Longrightarrow> is_high (of_nat (0xD800 + k))"
  and surrogate_low: "k < 1024 \<Longrightarrow> is_low (of_nat (0xDC00 + k))"
  using unat_of_nat_unit [of "0xD800 + k"] unat_of_nat_unit [of "0xDC00 + k"]
  by (simp_all add: is_high_unat is_low_unat del: of_nat_add)

lemma high_not_low: "is_high u \<Longrightarrow> \<not> is_low u"
  by (simp add: is_high_unat is_low_unat)

lemma pair_point_range: "is_high h \<Longrightarrow> is_low l \<Longrightarrow> 0x10000 \<le> pair_point h l \<and> pair_point h l < 0x110000"
  unfolding is_high_unat is_low_unat pair_point_def by linarith

lemma unit_point_scalar: "is_scalar (unit_point u)"
  using unat_unit [of u] by (auto simp: unit_point_def is_scalar_def is_high_unat is_low_unat)

lemma scalars_scalar: "c \<in> set (scalars s) \<Longrightarrow> is_scalar c"
proof (induction s rule: scalars.induct)
  case (3 u v s)
  then show ?case using pair_point_range [of u v]
    by (auto simp: unit_point_scalar split: if_splits) (simp add: is_scalar_def)
qed (simp_all add: unit_point_scalar)

lemma units_pair: "is_high h \<Longrightarrow> is_low l \<Longrightarrow> units (pair_point h l) = [h, l]"
proof -
  assume a: "is_high h" "is_low l"
  let ?x = "unat h - 0xD800" and ?y = "unat l - 0xDC00"
  have "?y < 1024" using a(2) unfolding is_low_unat by linarith
  then have "pair_point h l - 0x10000 = ?x * 1024 + ?y" "(?x * 1024 + ?y) div 1024 = ?x"
    "(?x * 1024 + ?y) mod 1024 = ?y" by (simp_all add: pair_point_def)
  moreover have "0xD800 + ?x = unat h" "0xDC00 + ?y = unat l"
    using a by (simp_all add: is_high_unat is_low_unat)
  ultimately show ?thesis using pair_point_range [OF a]
    by (simp add: units_def del: of_nat_add)
qed

lemma units_unit: "\<not> is_high u \<Longrightarrow> \<not> is_low u \<Longrightarrow> units (unit_point u) = [u]"
  using unat_unit [of u] by (simp add: units_def unit_point_def)

lemma replace_well_formed: "well_formed s \<Longrightarrow> replace_unpaired s = s"
  by (induction s rule: well_formed.induct) (auto simp: units_pair units_unit high_not_low split: if_splits)

lemma units_scalars:
  assumes "is_scalar c"
  shows "scalars (units c @ s) = c # scalars s \<and> (well_formed (units c @ s) \<longleftrightarrow> well_formed s)"
proof (cases "c < 0x10000")
  case True
  then have u: "unat (of_nat c :: 16 word) = c" using unat_of_nat_unit by simp
  then have "\<not> is_high (of_nat c)" "\<not> is_low (of_nat c)"
    using assms by (auto simp: is_high_unat is_low_unat is_scalar_def)
  then show ?thesis using True u by (cases s) (simp_all add: units_def unit_point_def)
next
  case False
  let ?x = "(c - 0x10000) div 1024" and ?y = "(c - 0x10000) mod 1024"
  have r: "?x < 1024" "?y < 1024" using assms False by (auto simp: is_scalar_def)
  then have "unat (of_nat (0xD800 + ?x) :: 16 word) = 0xD800 + ?x"
    "unat (of_nat (0xDC00 + ?y) :: 16 word) = 0xDC00 + ?y"
    by (simp_all add: unat_of_nat_unit del: of_nat_add)
  moreover have "0x10000 + ?x * 1024 + ?y = c" using False by simp
  ultimately have "pair_point (of_nat (0xD800 + ?x)) (of_nat (0xDC00 + ?y)) = c"
    by (simp add: pair_point_def del: of_nat_add)
  then show ?thesis using False surrogate_high [OF r(1)] surrogate_low [OF r(2)]
    by (simp add: units_def del: of_nat_add)
qed

lemma utf8_char_nonempty [simp]: "utf8_char c \<noteq> []"
  by (simp add: utf8_char_def)

lemma utf8_decode_chars:
  "(\<forall>c \<in> set cs. is_scalar c) \<Longrightarrow> utf8_decode (concat (map utf8_char cs)) = Some (concat (map units cs))"
proof (induction cs)
  case Nil
  then show ?case by (simp add: utf8_decode.simps)
next
  case (Cons c cs)
  then show ?case by (subst utf8_decode.simps) (simp add: utf8_next_char)
qed

lemma utf8_decode_sound:
  "utf8_decode bs = Some s \<Longrightarrow> well_formed s \<and> utf8_encode s = bs"
proof (induction bs arbitrary: s rule: utf8_decode.induct)
  case (1 bs)
  show ?case
  proof (cases "bs = []")
    case True
    then show ?thesis using "1.prems" by (simp add: utf8_decode.simps utf8_encode_def)
  next
    case False
    then obtain c r t where n: "utf8_next bs = Some (c, r)" "utf8_decode r = Some t" "s = units c @ t"
      using "1.prems" by (auto simp: utf8_decode.simps [of bs] split: option.splits)
    then have "well_formed t \<and> utf8_encode t = r" using "1.IH" [OF False] by simp
    then show ?thesis using utf8_next_sound [OF n(1)] n(3)
      by (simp add: units_scalars utf8_encode_def)
  qed
qed

lemma utf8_decode_encode: "utf8_decode (utf8_encode s) = Some (replace_unpaired s)"
  by (simp add: utf8_encode_def utf8_decode_chars scalars_scalar)

lemma utf8_decode_eq: "utf8_decode bs = Some s \<longleftrightarrow> well_formed s \<and> bs = utf8_encode s"
proof
  assume "well_formed s \<and> bs = utf8_encode s"
  then show "utf8_decode bs = Some s" using utf8_decode_encode replace_well_formed by simp
qed (use utf8_decode_sound in auto)

text \<open>
  The pair \<open>TextEncoder\<close> and fatal \<open>TextDecoder\<close>: a byte sequence decodes to a string exactly if
  that string is well-formed Unicode and the bytes are its encoding. So no two byte sequences decode to
  the same string, and a string survives the round trip exactly if it has no unpaired surrogate.
\<close>

theorem utf8_decode_iff: "utf8_decode bs = Some s \<longleftrightarrow> well_formed s \<and> bs = utf8_encode s"
  by (rule utf8_decode_eq)

end
