(* ===== verification/Cbor.thy ===== *)
theory Cbor
  imports Utf
begin

text \<open>
  The strict CBOR codec of \<open>packages/protocol/src/cbor\<close>: \<open>options.ts\<close>, \<open>encoder.ts\<close> and
  \<open>decoder.ts\<close>. The writer keeps the growing buffer of \<open>CborWriter\<close>; the reader's state is the list
  of bytes from its offset on. A number is its integer value, or the bits of a double that has none.
  Values are trees, so the encoder's \<open>ancestors\<close> set has nothing to find and is left out.
\<close>

section \<open>Options and errors\<close>

datatype cbor_error =
    CborError string
  | RangeError string
  | Diverges

datatype num = NInt int | NFloat "64 word"

definition max_uint32 :: nat where
  "max_uint32 = 4294967295"

definition uint32_base :: nat where
  "uint32_base = 4294967296"

definition max_safe :: int where
  "max_safe = 9007199254740991"

definition safe_int :: "int \<Rightarrow> bool" where
  "safe_int i \<longleftrightarrow> - max_safe \<le> i \<and> i \<le> max_safe"

record cbor_options =
  opt_bytes :: "num option"
  opt_items :: "num option"
  opt_depth :: "num option"

record limits =
  max_bytes :: nat
  max_items :: nat
  max_depth :: nat

definition resolve_limit :: "string \<Rightarrow> num \<Rightarrow> nat \<Rightarrow> cbor_error + nat" where
  "resolve_limit name value maximum = (case value of
     NInt i \<Rightarrow> (if safe_int i \<and> 0 \<le> i \<and> i \<le> int maximum then Inr (nat i) else Inl (RangeError name))
   | NFloat _ \<Rightarrow> Inl (RangeError name))"

definition or_default :: "num option \<Rightarrow> nat \<Rightarrow> num" where
  "or_default v d = (case v of None \<Rightarrow> NInt (int d) | Some n \<Rightarrow> n)"

definition resolve_options :: "cbor_options \<Rightarrow> cbor_error + limits" where
  "resolve_options opts =
     rbind (resolve_limit ''maxByteLength'' (or_default (opt_bytes opts) 16777216) max_uint32) (\<lambda>b.
     rbind (resolve_limit ''maxContainerLength'' (or_default (opt_items opts) 1000000) max_uint32) (\<lambda>n.
     rbind (resolve_limit ''maxDepth'' (or_default (opt_depth opts) 64) 512) (\<lambda>d.
     Inr \<lparr>max_bytes = b, max_items = n, max_depth = d\<rparr>)))"

section \<open>Doubles by their bits\<close>

definition float_neg :: "64 word \<Rightarrow> bool" where
  "float_neg b \<longleftrightarrow> 2 ^ 63 \<le> unat b"

definition float_exp :: "64 word \<Rightarrow> nat" where
  "float_exp b = unat b div 2 ^ 52 mod 2048"

definition float_mant :: "64 word \<Rightarrow> nat" where
  "float_mant b = unat b mod 2 ^ 52"

definition float_finite :: "64 word \<Rightarrow> bool" where
  "float_finite b \<longleftrightarrow> float_exp b \<noteq> 2047"

text \<open>The integer a finite double is, but for \<open>-0\<close>, which JavaScript tells from \<open>0\<close>.\<close>

definition float_int :: "64 word \<Rightarrow> int option" where
  "float_int b =
    (let e = float_exp b; m = float_mant b;
         n = (if e = 0 then m else m + 2 ^ 52);
         shift = max e 1 in
     if \<not> float_finite b then None
     else if n = 0 then (if float_neg b then None else Some 0)
     else let sgn = (if float_neg b then - 1 else 1) in
       if 1075 \<le> shift then Some (sgn * int (n * 2 ^ (shift - 1075)))
       else if n mod 2 ^ (1075 - shift) = 0 then Some (sgn * int (n div 2 ^ (1075 - shift)))
       else None)"

fun num_ok :: "num \<Rightarrow> bool" where
  "num_ok (NInt i) = True"
| "num_ok (NFloat b) = (float_int b = None)"

section \<open>Big-endian numbers\<close>

fun be :: "nat \<Rightarrow> nat \<Rightarrow> byte list" where
  "be 0 v = []"
| "be (Suc n) v = of_nat (v div 256 ^ n) # be n v"

definition of_be :: "byte list \<Rightarrow> nat" where
  "of_be bs = foldl (\<lambda>n b. n * 256 + unat b) 0 bs"

section \<open>The writer\<close>

record writer =
  wbuf :: "byte list"
  woff :: nat
  wmax :: nat

definition new_writer :: "nat \<Rightarrow> writer" where
  "new_writer m = \<lparr>wbuf = replicate (min 256 m) 0, woff = 0, wmax = m\<rparr>"

text \<open>The loop of \<open>ensureCapacity\<close>; it would not end if the limit were below what is required.\<close>

partial_function (option) grow :: "nat \<Rightarrow> nat \<Rightarrow> nat \<Rightarrow> nat option" where
  "grow limit required capacity =
    (if capacity < required then grow limit required (min limit (max required (capacity * 2)))
     else Some capacity)"

text \<open>\<open>buffer.set(bytes, offset)\<close>.\<close>

definition set_at :: "nat \<Rightarrow> byte list \<Rightarrow> byte list \<Rightarrow> byte list" where
  "set_at off bs buf = take off buf @ bs @ drop (off + length bs) buf"

definition ensure_capacity :: "writer \<Rightarrow> nat \<Rightarrow> cbor_error + writer" where
  "ensure_capacity w additional =
    (let required = woff w + additional in
     if wmax w < required then Inl (CborError ''CBOR byte length exceeds configured limit'')
     else if required \<le> length (wbuf w) then Inr w
     else (case grow (wmax w) required (max 1 (length (wbuf w))) of
         None \<Rightarrow> Inl Diverges
       | Some capacity \<Rightarrow> Inr (w\<lparr>wbuf := set_at 0 (wbuf w) (replicate capacity 0)\<rparr>)))"

definition write_bytes :: "writer \<Rightarrow> byte list \<Rightarrow> cbor_error + writer" where
  "write_bytes w bs = rbind (ensure_capacity w (length bs))
     (\<lambda>w. Inr (w\<lparr>wbuf := set_at (woff w) bs (wbuf w), woff := woff w + length bs\<rparr>))"

definition write_byte :: "writer \<Rightarrow> nat \<Rightarrow> cbor_error + writer" where
  "write_byte w v = write_bytes w [of_nat v]"

definition write_uint16 :: "writer \<Rightarrow> nat \<Rightarrow> cbor_error + writer" where
  "write_uint16 w v = write_bytes w [of_nat (v div 2 ^ 8), of_nat v]"

definition write_uint32 :: "writer \<Rightarrow> nat \<Rightarrow> cbor_error + writer" where
  "write_uint32 w v =
     write_bytes w [of_nat (v div 2 ^ 24), of_nat (v div 2 ^ 16), of_nat (v div 2 ^ 8), of_nat v]"

definition write_uint64 :: "writer \<Rightarrow> nat \<Rightarrow> cbor_error + writer" where
  "write_uint64 w v =
    (let high = v div uint32_base; low = v - high * uint32_base in
     rbind (write_uint32 w high) (\<lambda>w. write_uint32 w low))"

definition write_float64 :: "writer \<Rightarrow> 64 word \<Rightarrow> cbor_error + writer" where
  "write_float64 w b = write_bytes w (0xFB # be 8 (unat b))"

definition finish :: "writer \<Rightarrow> byte list" where
  "finish w = take (woff w) (wbuf w)"

section \<open>The encoder\<close>

text \<open>
  What the encoder may be given. \<open>CUndef\<close> is \<open>undefined\<close> or the hole of a sparse array, \<open>COther\<close> any
  value of an unsupported type; the flag of an object says that it has an enumerable symbol key.
\<close>

datatype cbor =
    CNull
  | CUndef
  | CBool bool
  | CNum num
  | CText text16
  | CBytes "byte list"
  | CArr "cbor list"
  | CObj bool "(text16 \<times> cbor) list"
  | COther

definition write_argument :: "writer \<Rightarrow> nat \<Rightarrow> nat \<Rightarrow> cbor_error + writer" where
  "write_argument w major v =
    (let pre = major * 32 in
     if v < 24 then write_byte w (pre + v)
     else if v \<le> 0xFF then rbind (write_byte w (pre + 24)) (\<lambda>w. write_byte w v)
     else if v \<le> 0xFFFF then rbind (write_byte w (pre + 25)) (\<lambda>w. write_uint16 w v)
     else if v \<le> max_uint32 then rbind (write_byte w (pre + 26)) (\<lambda>w. write_uint32 w v)
     else rbind (write_byte w (pre + 27)) (\<lambda>w. write_uint64 w v))"

definition encode_text :: "limits \<Rightarrow> text16 \<Rightarrow> writer \<Rightarrow> cbor_error + writer" where
  "encode_text lim s w =
    (let bs = utf8_encode s in
     if max_bytes lim < length bs then Inl (CborError ''CBOR text string length exceeds configured limit'')
     else if utf8_decode bs \<noteq> Some s
       then Inl (CborError ''CBOR text strings must contain valid Unicode scalar values'')
     else rbind (write_argument w 3 (length bs)) (\<lambda>w. write_bytes w bs))"

definition encode_number :: "num \<Rightarrow> writer \<Rightarrow> cbor_error + writer" where
  "encode_number n w = (case n of
     NInt i \<Rightarrow>
       if \<not> safe_int i then Inl (CborError ''CBOR integers must be safe JavaScript integers'')
       else if 0 \<le> i then write_argument w 0 (nat i) else write_argument w 1 (nat (- 1 - i))
   | NFloat b \<Rightarrow>
       if \<not> float_finite b then Inl (CborError ''CBOR numbers must be finite'') else write_float64 w b)"

definition present :: "(text16 \<times> cbor) list \<Rightarrow> (text16 \<times> cbor) list" where
  "present kvs = filter (\<lambda>kv. snd kv \<noteq> CUndef) kvs"

fun encode_value :: "limits \<Rightarrow> nat \<Rightarrow> cbor \<Rightarrow> writer \<Rightarrow> cbor_error + writer"
  and encode_items :: "limits \<Rightarrow> nat \<Rightarrow> cbor list \<Rightarrow> writer \<Rightarrow> cbor_error + writer"
  and encode_entries :: "limits \<Rightarrow> nat \<Rightarrow> (text16 \<times> cbor) list \<Rightarrow> writer \<Rightarrow> cbor_error + writer" where
  "encode_value lim depth v w =
    (if max_depth lim < depth then Inl (CborError ''CBOR nesting depth exceeds configured limit'')
     else (case v of
       CNull \<Rightarrow> write_byte w 0xF6
     | CBool b \<Rightarrow> write_byte w (if b then 0xF5 else 0xF4)
     | CNum n \<Rightarrow> encode_number n w
     | CText s \<Rightarrow> encode_text lim s w
     | CBytes bs \<Rightarrow>
         if max_bytes lim < length bs
           then Inl (CborError ''CBOR byte string length exceeds configured limit'')
         else rbind (write_argument w 2 (length bs)) (\<lambda>w. write_bytes w bs)
     | CArr xs \<Rightarrow>
         if max_items lim < length xs
           then Inl (CborError ''CBOR array length exceeds configured limit'')
         else rbind (write_argument w 4 (length xs)) (\<lambda>w. encode_items lim depth xs w)
     | CObj symbols kvs \<Rightarrow>
         if symbols then Inl (CborError ''CBOR map keys must be strings'')
         else if max_items lim < length (present kvs)
           then Inl (CborError ''CBOR map length exceeds configured limit'')
         else rbind (write_argument w 5 (length (present kvs))) (\<lambda>w. encode_entries lim depth kvs w)
     | _ \<Rightarrow> Inl (CborError ''Unsupported CBOR value type'')))"
| "encode_items lim depth [] w = Inr w"
| "encode_items lim depth (x # xs) w =
    (if x = CUndef then Inl (CborError ''CBOR arrays must not contain holes or undefined values'')
     else rbind (encode_value lim (Suc depth) x w) (\<lambda>w. encode_items lim depth xs w))"
| "encode_entries lim depth [] w = Inr w"
| "encode_entries lim depth ((k, v) # kvs) w =
    (if v = CUndef then encode_entries lim depth kvs w
     else rbind (encode_text lim k w) (\<lambda>w.
          rbind (encode_value lim (Suc depth) v w) (\<lambda>w. encode_entries lim depth kvs w)))"

definition encode_cbor :: "cbor_options \<Rightarrow> cbor \<Rightarrow> cbor_error + byte list" where
  "encode_cbor opts v = rbind (resolve_options opts) (\<lambda>lim.
     rbind (encode_value lim 0 v (new_writer (max_bytes lim))) (\<lambda>w. Inr (finish w)))"

section \<open>The decoder\<close>

type_synonym 'a reading = "cbor_error + 'a \<times> byte list"

fun read_byte :: "byte list \<Rightarrow> nat reading" where
  "read_byte [] = Inl (CborError ''Truncated CBOR payload'')"
| "read_byte (b # bs) = Inr (unat b, bs)"

definition read_bytes :: "nat \<Rightarrow> byte list \<Rightarrow> (byte list) reading" where
  "read_bytes n bs = (if length bs < n then Inl (CborError ''Truncated CBOR payload'')
     else Inr (take n bs, drop n bs))"

definition read_be :: "nat \<Rightarrow> byte list \<Rightarrow> nat reading" where
  "read_be n bs = rbind (read_bytes n bs) (\<lambda>(num, r). Inr (of_be num, r))"

definition read_argument :: "nat \<Rightarrow> byte list \<Rightarrow> nat reading" where
  "read_argument info bs =
    (if info < 24 then Inr (info, bs)
     else if info = 24 then read_byte bs
     else if info = 25 then read_be 2 bs
     else if info = 26 then read_be 4 bs
     else if info = 27 then
       rbind (read_be 4 bs) (\<lambda>(high, r). rbind (read_be 4 r) (\<lambda>(low, r).
         if 0x1FFFFF < high
         then Inl (CborError ''Decoded CBOR integer or length is outside the safe range'')
         else Inr (high * uint32_base + low, r)))
     else if info = 31 then Inl (CborError ''Indefinite-length CBOR items are not supported'')
     else Inl (CborError ''Malformed CBOR additional information''))"

definition read_length :: "nat \<Rightarrow> nat \<Rightarrow> byte list \<Rightarrow> nat reading" where
  "read_length info limit bs =
    (if info = 31 then Inl (CborError ''Indefinite-length CBOR items are not supported'')
     else rbind (read_argument info bs) (\<lambda>(n, r).
       if limit < n then Inl (CborError ''CBOR length exceeds configured limit'') else Inr (n, r)))"

definition read_float :: "byte list \<Rightarrow> cbor reading" where
  "read_float bs = rbind (read_bytes 8 bs) (\<lambda>(raw, r).
     let b = of_nat (of_be raw) in
     if \<not> float_finite b then Inl (CborError ''Decoded CBOR number must be finite'')
     else (case float_int b of
         None \<Rightarrow> Inr (CNum (NFloat b), r)
       | Some i \<Rightarrow>
           if safe_int i then Inr (CNum (NInt i), r)
           else Inl (CborError ''Decoded CBOR integer is outside the safe range'')))"

definition read_simple :: "nat \<Rightarrow> byte list \<Rightarrow> cbor reading" where
  "read_simple info bs =
    (if info = 20 then Inr (CBool False, bs)
     else if info = 21 then Inr (CBool True, bs)
     else if info = 22 then Inr (CNull, bs)
     else if info = 27 then read_float bs
     else if info = 31 then Inl (CborError ''CBOR break marker is not supported'')
     else Inl (CborError ''Unsupported CBOR simple value or floating-point width''))"

definition text_index :: "text16 \<Rightarrow> nat option" where
  "text_index k = (if list_all (\<lambda>u. unat u < 256) k then index_key (map (\<lambda>u. char_of (unat u)) k) else None)"

function (sequential) read_item :: "limits \<Rightarrow> nat \<Rightarrow> byte list \<Rightarrow> cbor reading"
  and read_items :: "limits \<Rightarrow> nat \<Rightarrow> nat \<Rightarrow> byte list \<Rightarrow> (cbor list) reading"
  and read_entries :: "limits \<Rightarrow> nat \<Rightarrow> nat \<Rightarrow> (text16 \<times> cbor) list \<Rightarrow> byte list \<Rightarrow> ((text16 \<times> cbor) list) reading" where
  "read_item lim depth bs =
    (if max_depth lim < depth then Inl (CborError ''CBOR nesting depth exceeds configured limit'')
     else rbind (read_byte bs) (\<lambda>(initial, r).
       let major = initial div 32; info = initial mod 32 in
       if major = 0 then rbind (read_argument info r) (\<lambda>(n, r). Inr (CNum (NInt (int n)), r))
       else if major = 1 then rbind (read_argument info r) (\<lambda>(n, r).
         if safe_int (- 1 - int n) then Inr (CNum (NInt (- 1 - int n)), r)
         else Inl (CborError ''Decoded CBOR integer is outside the safe range''))
       else if major = 2 then rbind (read_length info (max_bytes lim) r) (\<lambda>(n, r).
         rbind (read_bytes n r) (\<lambda>(bs, r). Inr (CBytes bs, r)))
       else if major = 3 then rbind (read_length info (max_bytes lim) r) (\<lambda>(n, r).
         rbind (read_bytes n r) (\<lambda>(bs, r). case utf8_decode bs of
             None \<Rightarrow> Inl (CborError ''CBOR text string contains invalid UTF-8'')
           | Some s \<Rightarrow> Inr (CText s, r)))
       else if major = 4 then rbind (read_length info (max_items lim) r) (\<lambda>(n, r).
         rbind (read_items lim (Suc depth) n r) (\<lambda>(xs, r). Inr (CArr xs, r)))
       else if major = 5 then rbind (read_length info (max_items lim) r) (\<lambda>(n, r).
         rbind (read_entries lim (Suc depth) n [] r) (\<lambda>(kvs, r). Inr (CObj False kvs, r)))
       else if major = 6 then Inl (CborError ''CBOR tags are not supported'')
       else read_simple info r))"
| "read_items lim depth 0 bs = Inr ([], bs)"
| "read_items lim depth (Suc n) bs = rbind (read_item lim depth bs) (\<lambda>(x, r).
     rbind (read_items lim depth n r) (\<lambda>(xs, r). Inr (x # xs, r)))"
| "read_entries lim depth 0 acc bs = Inr (acc, bs)"
| "read_entries lim depth (Suc n) acc bs = rbind (read_item lim depth bs) (\<lambda>(k, r).
     case k of
       CText key \<Rightarrow>
         if own_has acc key then Inl (CborError ''CBOR map contains a duplicate key'')
         else rbind (read_item lim depth r) (\<lambda>(v, r).
           read_entries lim depth n (own_set text_index key v acc) r)
     | _ \<Rightarrow> Inl (CborError ''CBOR map keys must be strings''))"
  by pat_completeness auto
termination
  by (relation "measures [case_sum (\<lambda>(lim, d, _). Suc (max_depth lim) - d)
        (case_sum (\<lambda>(lim, d, _). Suc (max_depth lim) - d) (\<lambda>(lim, d, _). Suc (max_depth lim) - d)),
      case_sum (\<lambda>_. 0) (case_sum (\<lambda>(_, _, n, _). Suc n) (\<lambda>(_, _, n, _). Suc n))]") auto

declare read_item.simps [simp del]

definition decode_cbor :: "cbor_options \<Rightarrow> byte list \<Rightarrow> cbor_error + cbor" where
  "decode_cbor opts bs = rbind (resolve_options opts) (\<lambda>lim.
     if max_bytes lim < length bs then Inl (CborError ''CBOR byte length exceeds configured limit'')
     else rbind (read_item lim 0 bs) (\<lambda>(v, r).
       if r \<noteq> [] then Inl (CborError ''CBOR payload contains trailing data'') else Inr v))"

end
