(* ===== verification/CborSound.thy ===== *)
theory CborSound
  imports Cbor
begin

text \<open>
  What the CBOR codec promises. \<open>encodable\<close> and \<open>cbor_bytes\<close> are its specification: which values
  the encoder takes under given limits, and the bytes it gives. The interface \<open>byte_sink\<close> states what
  the encoder needs of a writer; \<open>CborWriter\<close>'s growing buffer is its interpretation.
\<close>

section \<open>The writer as a byte sink\<close>

locale byte_sink =
  fixes put_bytes :: "'w \<Rightarrow> byte list \<Rightarrow> 'e + 'w"
    and contents :: "'w \<Rightarrow> byte list"
    and limit :: "'w \<Rightarrow> nat"
    and inv :: "'w \<Rightarrow> bool"
    and reported :: "'e \<Rightarrow> bool"
  assumes room: "inv w \<Longrightarrow> length (contents w) \<le> limit w"
    and fits: "inv w \<Longrightarrow> length (contents w) + length bs \<le> limit w \<Longrightarrow>
      \<exists>w'. put_bytes w bs = Inr w' \<and> inv w' \<and> contents w' = contents w @ bs \<and> limit w' = limit w"
    and full: "inv w \<Longrightarrow> limit w < length (contents w) + length bs \<Longrightarrow>
      \<exists>e. put_bytes w bs = Inl e \<and> reported e"
begin

definition emits :: "('w \<Rightarrow> 'e + 'w) \<Rightarrow> byte list \<Rightarrow> bool" where
  "emits f bs \<longleftrightarrow> (\<forall>w. inv w \<longrightarrow>
     (if length (contents w) + length bs \<le> limit w
      then \<exists>w'. f w = Inr w' \<and> inv w' \<and> contents w' = contents w @ bs \<and> limit w' = limit w
      else \<exists>e. f w = Inl e \<and> reported e))"

definition rejects :: "('w \<Rightarrow> 'e + 'w) \<Rightarrow> bool" where
  "rejects f \<longleftrightarrow> (\<forall>w. inv w \<longrightarrow> (\<exists>e. f w = Inl e \<and> reported e))"

lemma emits_write: "emits (\<lambda>w. put_bytes w bs) bs"
  by (simp add: emits_def fits full)

lemma emits_nothing: "emits Inr []"
  by (auto simp: emits_def dest: room)

lemma emits_seq:
  assumes "emits f as" and "emits g bs"
  shows "emits (\<lambda>w. rbind (f w) g) (as @ bs)"
  unfolding emits_def
proof (intro allI impI)
  fix w assume w: "inv w"
  show "if length (contents w) + length (as @ bs) \<le> limit w
      then \<exists>w'. rbind (f w) g = Inr w' \<and> inv w' \<and> contents w' = contents w @ (as @ bs) \<and> limit w' = limit w
      else \<exists>e. rbind (f w) g = Inl e \<and> reported e"
  proof (cases "length (contents w) + length as \<le> limit w")
    case True
    then obtain w1 where w1: "f w = Inr w1" "inv w1" "contents w1 = contents w @ as" "limit w1 = limit w"
      using assms(1) w unfolding emits_def by metis
    then show ?thesis using assms(2) unfolding emits_def by (fastforce simp: add.assoc)
  next
    case False
    then obtain e where "f w = Inl e" "reported e" using assms(1) w unfolding emits_def by metis
    then show ?thesis using False by simp
  qed
qed

lemma rejects_seq:
  assumes "emits f as" and "rejects g"
  shows "rejects (\<lambda>w. rbind (f w) g)"
  unfolding rejects_def
proof (intro allI impI)
  fix w assume w: "inv w"
  show "\<exists>e. rbind (f w) g = Inl e \<and> reported e"
  proof (cases "length (contents w) + length as \<le> limit w")
    case True
    then obtain w1 where "f w = Inr w1" "inv w1"
      using assms(1) w unfolding emits_def by metis
    then show ?thesis using assms(2) by (simp add: rejects_def)
  next
    case False
    then obtain e where "f w = Inl e" "reported e" using assms(1) w unfolding emits_def by metis
    then show ?thesis by simp
  qed
qed

lemma rejects_first: "rejects f \<Longrightarrow> rejects (\<lambda>w. rbind (f w) g)"
  by (fastforce simp: rejects_def)

lemma rejects_error: "reported e \<Longrightarrow> rejects (\<lambda>w. Inl e)"
  by (simp add: rejects_def)

lemma emits_exact:
  assumes "emits f bs" and "inv w" and "contents w = []"
  shows "(\<exists>w'. f w = Inr w' \<and> contents w' = out) \<longleftrightarrow> out = bs \<and> length bs \<le> limit w"
proof -
  have "if length bs \<le> limit w then \<exists>w'. f w = Inr w' \<and> contents w' = bs
      else \<exists>e. f w = Inl e \<and> reported e"
    using assms unfolding emits_def by (metis add_0 append_Nil list.size(3))
  then show ?thesis by (cases "length bs \<le> limit w") auto
qed

end

section \<open>The growing buffer\<close>

definition writer_ok :: "writer \<Rightarrow> bool" where
  "writer_ok w \<longleftrightarrow> woff w \<le> length (wbuf w) \<and> length (wbuf w) \<le> wmax w"

fun is_cbor_error :: "cbor_error \<Rightarrow> bool" where
  "is_cbor_error (CborError _) = True"
| "is_cbor_error _ = False"

lemma grow_enough:
  assumes "required \<le> limit"
  shows "\<exists>c. grow limit required capacity = Some c \<and> required \<le> c \<and> c \<le> max capacity limit"
proof (cases "capacity < required")
  case True
  let ?c = "min limit (max required (capacity * 2))"
  have "grow limit required capacity = grow limit required ?c" using True by (subst grow.simps) simp
  also have "\<dots> = Some ?c"
    by (subst grow.simps) (rule if_not_P, use assms in simp)
  finally show ?thesis using assms by simp
qed (subst grow.simps, simp)

lemma set_at_length: "off + length bs \<le> length buf \<Longrightarrow> length (set_at off bs buf) = length buf"
  by (simp add: set_at_def)

lemma set_at_take: "off \<le> length buf \<Longrightarrow> take (off + length bs) (set_at off bs buf) = take off buf @ bs"
  by (simp add: set_at_def)

lemma ensure_capacity_fits:
  assumes "writer_ok w" and "woff w + n \<le> wmax w"
  shows "\<exists>w'. ensure_capacity w n = Inr w' \<and> writer_ok w' \<and> finish w' = finish w \<and> wmax w' = wmax w \<and>
    woff w' = woff w \<and> woff w + n \<le> length (wbuf w')"
proof (cases "woff w + n \<le> length (wbuf w)")
  case True
  then show ?thesis using assms by (simp add: ensure_capacity_def Let_def)
next
  case False
  let ?cap = "max 1 (length (wbuf w))"
  obtain c where c: "grow (wmax w) (woff w + n) ?cap = Some c" "woff w + n \<le> c" "c \<le> max ?cap (wmax w)"
    using grow_enough [OF assms(2)] by blast
  define b where "b = set_at 0 (wbuf w) (replicate c 0)"
  have len: "length (wbuf w) < c" "c \<le> wmax w" using False assms c by auto
  then have b: "length b = c" by (simp add: b_def set_at_length)
  have pre: "take (woff w) b = take (woff w) (wbuf w)"
    using assms(1) by (simp add: b_def set_at_def writer_ok_def)
  have "ensure_capacity w n = Inr (w\<lparr>wbuf := b\<rparr>)"
    using False assms(2) c(1) by (simp add: ensure_capacity_def Let_def b_def)
  then show ?thesis using assms(1) c(2) len b pre by (auto simp: writer_ok_def finish_def)
qed

lemma finish_length: "writer_ok w \<Longrightarrow> length (finish w) = woff w"
  by (simp add: writer_ok_def finish_def)

interpretation cbor_sink: byte_sink write_bytes finish wmax writer_ok is_cbor_error
proof unfold_locales
  fix w :: writer and bs :: "byte list"
  assume w: "writer_ok w"
  then show "length (finish w) \<le> wmax w" using finish_length [OF w] by (simp add: writer_ok_def)
  show "\<exists>w'. write_bytes w bs = Inr w' \<and> writer_ok w' \<and> finish w' = finish w @ bs \<and> wmax w' = wmax w"
    if "length (finish w) + length bs \<le> wmax w"
  proof -
    have "woff w + length bs \<le> wmax w" using that finish_length [OF w] by simp
    then obtain w1 where w1: "ensure_capacity w (length bs) = Inr w1" "writer_ok w1" "finish w1 = finish w"
      "wmax w1 = wmax w" "woff w1 = woff w" "woff w + length bs \<le> length (wbuf w1)"
      using ensure_capacity_fits [OF w] by blast
    then show ?thesis
      by (auto simp: write_bytes_def writer_ok_def finish_def set_at_take set_at_length)
  qed
  show "\<exists>e. write_bytes w bs = Inl e \<and> is_cbor_error e" if "wmax w < length (finish w) + length bs"
    using that finish_length [OF w] by (simp add: write_bytes_def ensure_capacity_def)
qed

lemma new_writer_ok: "writer_ok (new_writer m)" "finish (new_writer m) = []" "wmax (new_writer m) = m"
  by (simp_all add: new_writer_def writer_ok_def finish_def)

section \<open>The specification of the encoder\<close>

definition arg_bytes :: "nat \<Rightarrow> nat \<Rightarrow> byte list" where
  "arg_bytes major n =
    (if n < 24 then [of_nat (major * 32 + n)]
     else if n \<le> 0xFF then of_nat (major * 32 + 24) # be 1 n
     else if n \<le> 0xFFFF then of_nat (major * 32 + 25) # be 2 n
     else if n \<le> max_uint32 then of_nat (major * 32 + 26) # be 4 n
     else of_nat (major * 32 + 27) # be 4 (n div uint32_base) @ be 4 (n mod uint32_base))"

definition text_bytes :: "text16 \<Rightarrow> byte list" where
  "text_bytes s = arg_bytes 3 (length (utf8_encode s)) @ utf8_encode s"

fun num_bytes :: "num \<Rightarrow> byte list" where
  "num_bytes (NInt i) = (if 0 \<le> i then arg_bytes 0 (nat i) else arg_bytes 1 (nat (- 1 - i)))"
| "num_bytes (NFloat b) = 0xFB # be 8 (unat b)"

fun cbor_bytes :: "cbor \<Rightarrow> byte list"
  and items_bytes :: "cbor list \<Rightarrow> byte list"
  and entries_bytes :: "(text16 \<times> cbor) list \<Rightarrow> byte list" where
  "cbor_bytes CNull = [0xF6]"
| "cbor_bytes CUndef = []"
| "cbor_bytes (CBool b) = [if b then 0xF5 else 0xF4]"
| "cbor_bytes (CNum n) = num_bytes n"
| "cbor_bytes (CText s) = text_bytes s"
| "cbor_bytes (CBytes bs) = arg_bytes 2 (length bs) @ bs"
| "cbor_bytes (CArr xs) = arg_bytes 4 (length xs) @ items_bytes xs"
| "cbor_bytes (CObj f kvs) = arg_bytes 5 (length (present kvs)) @ entries_bytes kvs"
| "cbor_bytes COther = []"
| "items_bytes [] = []"
| "items_bytes (x # xs) = cbor_bytes x @ items_bytes xs"
| "entries_bytes [] = []"
| "entries_bytes ((k, v) # kvs) =
     (if v = CUndef then [] else text_bytes k @ cbor_bytes v) @ entries_bytes kvs"

definition text_fits :: "limits \<Rightarrow> text16 \<Rightarrow> bool" where
  "text_fits lim s \<longleftrightarrow> well_formed s \<and> length (utf8_encode s) \<le> max_bytes lim"

fun num_fits :: "num \<Rightarrow> bool" where
  "num_fits (NInt i) = safe_int i"
| "num_fits (NFloat b) = float_finite b"

text \<open>The values the encoder takes at a nesting depth, but for the limit on the whole output.\<close>

fun encodable :: "limits \<Rightarrow> nat \<Rightarrow> cbor \<Rightarrow> bool"
  and items_encodable :: "limits \<Rightarrow> nat \<Rightarrow> cbor list \<Rightarrow> bool"
  and entries_encodable :: "limits \<Rightarrow> nat \<Rightarrow> (text16 \<times> cbor) list \<Rightarrow> bool" where
  "encodable lim depth v \<longleftrightarrow> depth \<le> max_depth lim \<and> (case v of
     CNull \<Rightarrow> True | CBool b \<Rightarrow> True | CNum n \<Rightarrow> num_fits n | CText s \<Rightarrow> text_fits lim s
   | CBytes bs \<Rightarrow> length bs \<le> max_bytes lim
   | CArr xs \<Rightarrow> length xs \<le> max_items lim \<and> items_encodable lim depth xs
   | CObj f kvs \<Rightarrow> \<not> f \<and> length (present kvs) \<le> max_items lim \<and> entries_encodable lim depth kvs
   | _ \<Rightarrow> False)"
| "items_encodable lim depth [] \<longleftrightarrow> True"
| "items_encodable lim depth (x # xs) \<longleftrightarrow> encodable lim (Suc depth) x \<and> items_encodable lim depth xs"
| "entries_encodable lim depth [] \<longleftrightarrow> True"
| "entries_encodable lim depth ((k, v) # kvs) \<longleftrightarrow>
     (v \<noteq> CUndef \<longrightarrow> text_fits lim k \<and> encodable lim (Suc depth) v) \<and> entries_encodable lim depth kvs"

declare encodable.simps [simp del] encode_value.simps [simp del]

abbreviation emits where "emits \<equiv> cbor_sink.emits"
abbreviation rejects where "rejects \<equiv> cbor_sink.rejects"

lemma emits_byte: "emits (\<lambda>w. write_byte w v) [of_nat v]"
  by (simp add: write_byte_def cbor_sink.emits_write)

lemma be_small:
  "be 1 v = [of_nat v]" "be 2 v = [of_nat (v div 2 ^ 8), of_nat v]"
  "be 4 v = [of_nat (v div 2 ^ 24), of_nat (v div 2 ^ 16), of_nat (v div 2 ^ 8), of_nat v]"
proof -
  have "be 1 v = be (Suc 0) v" "be 2 v = be (Suc (Suc 0)) v" "be 4 v = be (Suc (Suc (Suc (Suc 0)))) v"
    by (rule arg_cong [where f = "\<lambda>k. be k v"], simp)+
  then show "be 1 v = [of_nat v]" "be 2 v = [of_nat (v div 2 ^ 8), of_nat v]"
    "be 4 v = [of_nat (v div 2 ^ 24), of_nat (v div 2 ^ 16), of_nat (v div 2 ^ 8), of_nat v]"
    by simp_all
qed

lemma emits_uint16: "emits (\<lambda>w. write_uint16 w v) (be 2 v)"
  unfolding write_uint16_def be_small by (rule cbor_sink.emits_write)

lemma emits_uint32: "emits (\<lambda>w. write_uint32 w v) (be 4 v)"
  unfolding write_uint32_def be_small by (rule cbor_sink.emits_write)

lemma emits_uint64: "emits (\<lambda>w. write_uint64 w v) (be 4 (v div uint32_base) @ be 4 (v mod uint32_base))"
  unfolding write_uint64_def Let_def modulo_nat_def [symmetric]
  by (intro cbor_sink.emits_seq emits_uint32)

lemmas byte_then =
  cbor_sink.emits_seq [OF emits_byte emits_byte, simplified]
  cbor_sink.emits_seq [OF emits_byte emits_uint16, simplified]
  cbor_sink.emits_seq [OF emits_byte emits_uint32, simplified]
  cbor_sink.emits_seq [OF emits_byte emits_uint64, simplified]

lemma emits_argument: "emits (\<lambda>w. write_argument w major n) (arg_bytes major n)"
proof -
  consider "n < 24" | "24 \<le> n" "n \<le> 0xFF" | "0xFF < n" "n \<le> 0xFFFF"
    | "0xFFFF < n" "n \<le> max_uint32" | "0xFFFF < n" "max_uint32 < n" by linarith
  then show ?thesis
    unfolding write_argument_def arg_bytes_def Let_def
    by cases (simp_all add: byte_then emits_byte be_small(1) del: of_nat_add of_nat_mult)
qed

lemma emits_sized: "emits (\<lambda>w. rbind (write_argument w major (length bs)) (\<lambda>w. write_bytes w bs))
    (arg_bytes major (length bs) @ bs)"
  by (rule cbor_sink.emits_seq [OF emits_argument cbor_sink.emits_write])

lemma emits_text: "text_fits lim s \<Longrightarrow> emits (encode_text lim s) (text_bytes s)"
  using emits_sized [of 3 "utf8_encode s"]
  by (simp add: encode_text_def [abs_def] text_bytes_def text_fits_def utf8_decode_eq Let_def)

lemma rejects_text: "\<not> text_fits lim s \<Longrightarrow> rejects (encode_text lim s)"
  by (simp add: encode_text_def [abs_def] text_fits_def utf8_decode_eq Let_def cbor_sink.rejects_def)
    (meson not_le)

lemma emits_number: "num_fits n \<Longrightarrow> emits (encode_number n) (num_bytes n)"
  by (cases n) (simp_all add: encode_number_def [abs_def] emits_argument write_float64_def
      cbor_sink.emits_write)

lemma rejects_number: "\<not> num_fits n \<Longrightarrow> rejects (encode_number n)"
  by (cases n) (simp_all add: encode_number_def [abs_def] cbor_sink.rejects_def)

lemma encode_value_deep: "max_depth lim < depth \<Longrightarrow>
    rejects (encode_value lim depth v) \<and> \<not> encodable lim depth v"
  by (simp add: encode_value.simps [abs_def] encodable.simps cbor_sink.rejects_error)

lemmas value_simps = encode_value.simps [abs_def] encodable.simps cbor_sink.rejects_error

definition exact :: "bool \<Rightarrow> (writer \<Rightarrow> cbor_error + writer) \<Rightarrow> byte list \<Rightarrow> bool" where
  "exact ok f bs \<longleftrightarrow> (ok \<longrightarrow> emits f bs) \<and> (\<not> ok \<longrightarrow> rejects f)"

lemma exact_seq: "emits f as \<Longrightarrow> exact ok g bs \<Longrightarrow> exact ok (\<lambda>w. rbind (f w) g) (as @ bs)"
  by (auto simp: exact_def cbor_sink.emits_seq cbor_sink.rejects_seq)

lemma exact_and:
  "exact p f as \<Longrightarrow> exact q g bs \<Longrightarrow> exact (p \<and> q) (\<lambda>w. rbind (f w) g) (as @ bs)"
  by (auto simp: exact_def cbor_sink.emits_seq cbor_sink.rejects_seq cbor_sink.rejects_first)

lemma exact_error: "is_cbor_error e \<Longrightarrow> exact False (\<lambda>w. Inl e) bs"
  by (simp add: exact_def cbor_sink.rejects_error)

lemma exact_nothing: "exact True Inr []"
  by (simp add: exact_def cbor_sink.emits_nothing)

lemma exact_emits: "emits f bs \<Longrightarrow> exact True f bs"
  by (simp add: exact_def)

lemma exact_depth:
  assumes "depth \<le> max_depth lim \<Longrightarrow> exact (encodable lim depth v) (encode_value lim depth v) bs"
  shows "exact (encodable lim depth v) (encode_value lim depth v) bs"
  using assms encode_value_deep by (cases "depth \<le> max_depth lim") (auto simp: exact_def)

lemma encode_value_exact:
  "exact (encodable lim depth v) (encode_value lim depth v) (cbor_bytes v)"
  "exact (items_encodable lim depth xs) (encode_items lim depth xs) (items_bytes xs)"
  "exact (entries_encodable lim depth kvs) (encode_entries lim depth kvs) (entries_bytes kvs)"
proof (induction v and xs and kvs arbitrary: depth and depth and depth
    rule: cbor_bytes_items_bytes_entries_bytes.induct)
  case 1
  show ?case by (rule exact_depth) (use emits_byte [of 246] in \<open>simp add: value_simps exact_emits\<close>)
next
  case 2
  show ?case by (rule exact_depth) (simp add: value_simps exact_error)
next
  case (3 b)
  show ?case by (rule exact_depth)
    (use emits_byte [of 245] emits_byte [of 244] in \<open>simp add: value_simps exact_emits\<close>)
next
  case (4 n)
  show ?case by (rule exact_depth)
    (simp add: value_simps exact_def emits_number rejects_number)
next
  case (5 s)
  show ?case by (rule exact_depth)
    (simp add: value_simps exact_def emits_text rejects_text)
next
  case (6 bs)
  show ?case by (rule exact_depth)
    (simp add: value_simps exact_def emits_sized not_le)
next
  case (7 xs)
  show ?case
  proof (rule exact_depth)
    assume d: "depth \<le> max_depth lim"
    show "exact (encodable lim depth (CArr xs)) (encode_value lim depth (CArr xs)) (cbor_bytes (CArr xs))"
      using exact_seq [OF emits_argument [of 4 "length xs"] "7.IH" [of depth]] d
      by (cases "length xs \<le> max_items lim") (simp_all add: value_simps exact_error)
  qed
next
  case (8 f kvs)
  show ?case
  proof (rule exact_depth)
    assume d: "depth \<le> max_depth lim"
    show "exact (encodable lim depth (CObj f kvs)) (encode_value lim depth (CObj f kvs)) (cbor_bytes (CObj f kvs))"
      using exact_seq [OF emits_argument [of 5 "length (present kvs)"] "8.IH" [of depth]] d
      by (cases "length (present kvs) \<le> max_items lim"; cases f) (simp_all add: value_simps exact_error)
  qed
next
  case 9
  show ?case by (rule exact_depth) (simp add: value_simps exact_error)
next
  case 10
  show ?case by (simp add: exact_nothing)
next
  case (11 x xs)
  have undef: "\<not> encodable lim (Suc depth) CUndef" by (simp add: encodable.simps)
  show ?case using exact_and [OF "11.IH"(1) [of "Suc depth"] "11.IH"(2) [of depth]]
    by (cases "x = CUndef") (simp_all add: exact_error undef)
next
  case 12
  then show ?case by (simp add: exact_nothing)
next
  case (13 k v kvs)
  show ?case
  proof (cases "v = CUndef")
    case True
    then show ?thesis using "13.IH"(2) by simp
  next
    case False
    have "exact (text_fits lim k) (encode_text lim k) (text_bytes k)"
      by (simp add: exact_def emits_text rejects_text)
    from exact_and [OF this exact_and [OF "13.IH"(1) [OF False, of "Suc depth"] "13.IH"(2) [of depth]]]
    show ?thesis using False by simp
  qed
qed

lemma encode_cbor_eq:
  "encode_cbor opts v = Inr bs \<longleftrightarrow> (\<exists>lim. resolve_options opts = Inr lim \<and> encodable lim 0 v \<and>
     bs = cbor_bytes v \<and> length bs \<le> max_bytes lim)"
proof (cases "resolve_options opts")
  case (Inr lim)
  let ?w = "new_writer (max_bytes lim)"
  have "(\<exists>w. encode_value lim 0 v ?w = Inr w \<and> finish w = bs) \<longleftrightarrow>
      encodable lim 0 v \<and> bs = cbor_bytes v \<and> length bs \<le> max_bytes lim"
  proof (cases "encodable lim 0 v")
    case True
    then have "emits (encode_value lim 0 v) (cbor_bytes v)"
      using encode_value_exact(1) [of lim 0 v] by (simp add: exact_def)
    from cbor_sink.emits_exact [OF this, of ?w bs] True show ?thesis by (auto simp: new_writer_ok)
  next
    case False
    then have "rejects (encode_value lim 0 v)"
      using encode_value_exact(1) [of lim 0 v] by (simp add: exact_def)
    then obtain e where "encode_value lim 0 v ?w = Inl e"
      using new_writer_ok(1) unfolding cbor_sink.rejects_def by blast
    then show ?thesis using False by simp
  qed
  then show ?thesis using Inr by (auto simp: encode_cbor_def result_simps)
qed (simp add: encode_cbor_def)

text \<open>
  C37. The encoder meets its specification on every input: it returns exactly if the options are
  valid, the value is one the format has (no hole, no symbol key, only finite numbers and safe
  integers, only well-formed text) within the nesting and container limits, and the encoding fits the
  byte limit; then it returns that encoding, although it was written piecewise into a buffer that grew.
\<close>

theorem encode_cbor_exact:
  "encode_cbor opts v = Inr bs \<longleftrightarrow> (\<exists>lim. resolve_options opts = Inr lim \<and> encodable lim 0 v \<and>
     bs = cbor_bytes v \<and> length bs \<le> max_bytes lim)"
  by (rule encode_cbor_eq)

text \<open>
  The encoder always returns: the loop that doubles the buffer ends for every value and every
  limit, so no input makes it spin.
\<close>

theorem encode_cbor_returns: "encode_cbor opts v \<noteq> Inl Diverges"
proof (cases "resolve_options opts")
  case (Inr lim)
  let ?w = "new_writer (max_bytes lim)"
  have "(\<exists>w. encode_value lim 0 v ?w = Inr w) \<or> (\<exists>e. encode_value lim 0 v ?w = Inl e \<and> is_cbor_error e)"
    using encode_value_exact(1) [of lim 0 v] new_writer_ok(1) [of "max_bytes lim"]
    unfolding exact_def cbor_sink.emits_def cbor_sink.rejects_def by metis
  then show ?thesis using Inr by (auto simp: encode_cbor_def)
qed (auto simp: encode_cbor_def resolve_options_def resolve_limit_def result_simps rbind_eq_Inl
    split: num.splits if_splits)

end
