(* ===== verification/CborRoundtrip.thy ===== *)
theory CborRoundtrip
  imports CborSound
begin

text \<open>
  The CBOR decoder against the encoder: what was encoded decodes to the value itself, with the
  \<open>undefined\<close> entries of objects left out; and what the decoder accepts at all, the encoder can
  encode, in no more bytes.
\<close>

section \<open>Headers\<close>

lemma of_be_foldl: "foldl (\<lambda>n b. n * 256 + unat b) a bs = a * 256 ^ length bs + of_be bs"
proof (induction bs arbitrary: a)
  case (Cons b bs)
  show ?case using Cons [of "a * 256 + unat b"] Cons [of "unat b"]
    by (simp add: of_be_def add_mult_distrib)
qed (simp add: of_be_def)

lemma of_be_Cons: "of_be (b # bs) = unat b * 256 ^ length bs + of_be bs"
  using of_be_foldl [of "unat b" bs] by (simp add: of_be_def)

lemma of_be_Nil [simp]: "of_be [] = 0"
  by (simp add: of_be_def)

lemma be_length [simp]: "length (be k v) = k"
  by (induction k) simp_all

lemma of_be_be [simp]: "of_be (be k v) = v mod 256 ^ k"
proof (induction k)
  case (Suc k)
  have "unat (of_nat (v div 256 ^ k) :: byte) = v div 256 ^ k mod 256"
    by (simp add: unat_of_nat)
  then have "of_be (be (Suc k) v) = v div 256 ^ k mod 256 * 256 ^ k + v mod 256 ^ k"
    by (simp add: of_be_Cons Suc)
  also have "\<dots> = v mod 256 ^ Suc k"
    using mod_mult2_eq [of v "256 ^ k" 256] by (simp add: mult.commute)
  finally show ?case .
qed simp

lemma of_be_bound: "of_be bs < 256 ^ length bs"
proof (induction bs)
  case (Cons b bs)
  have "unat b * 256 ^ length bs \<le> 255 * 256 ^ length bs"
    using unat_byte [of b] by (intro mult_right_mono) simp_all
  from add_le_less_mono [OF this Cons] show ?case by (simp add: of_be_Cons)
qed simp

lemma read_be_be: "v < 256 ^ k \<Longrightarrow> read_be k (be k v @ r) = Inr (v, r)"
  by (simp add: read_be_def read_bytes_def)

definition max_argument :: nat where
  "max_argument = 9007199254740991"

lemma header:
  assumes "major < 8" and "n \<le> max_argument"
  shows "\<exists>b s. arg_bytes major n @ r = b # s \<and> unat b div 32 = major \<and> unat b mod 32 \<noteq> 31 \<and>
    read_argument (unat b mod 32) s = Inr (n, r)"
proof -
  have b: "unat (of_nat (major * 32 + i) :: byte) = major * 32 + i" if "i < 32" for i
    using that assms(1) by (intro unat_of_nat_byte) simp
  consider "n < 24" | "24 \<le> n" "n \<le> 0xFF" | "0xFF < n" "n \<le> 0xFFFF"
    | "0xFFFF < n" "n \<le> max_uint32" | "0xFFFF < n" "max_uint32 < n" by linarith
  then show ?thesis
  proof cases
    case 1
    then show ?thesis using b [of n] by (simp add: arg_bytes_def read_argument_def del: of_nat_add)
  next
    case 2
    then show ?thesis using b [of 24] be_small(1) [of n] unat_of_nat_byte [of n]
      by (simp add: arg_bytes_def read_argument_def del: of_nat_add)
  next
    case 3
    then show ?thesis using b [of 25] read_be_be [of n 2 r]
      by (simp add: arg_bytes_def read_argument_def del: of_nat_add)
  next
    case 4
    then show ?thesis using b [of 26] read_be_be [of n 4 r]
      by (simp add: arg_bytes_def read_argument_def max_uint32_def del: of_nat_add)
  next
    case 5
    have hi: "n div uint32_base \<le> 0x1FFFFF" and lo: "n mod uint32_base < 256 ^ 4"
      using assms(2) by (simp_all add: max_argument_def uint32_base_def div_le_mono)
    then have "read_be 4 (be 4 (n div uint32_base) @ be 4 (n mod uint32_base) @ r) =
        Inr (n div uint32_base, be 4 (n mod uint32_base) @ r)"
      by (intro read_be_be) simp
    then show ?thesis using 5 b [of 27] read_be_be [OF lo, of r] hi
      by (simp add: arg_bytes_def read_argument_def del: of_nat_add)
  qed
qed

section \<open>What was encoded decodes\<close>

text \<open>A JavaScript value: canonical numbers, objects with distinct keys in enumeration order.\<close>

fun js_value :: "cbor \<Rightarrow> bool" where
  "js_value (CNum n) = num_ok n"
| "js_value (CArr xs) = list_all js_value xs"
| "js_value (CObj f kvs) = (own_ok kvs \<and> own_ordered text_index kvs \<and> list_all (\<lambda>kv. js_value (snd kv)) kvs)"
| "js_value _ = True"

text \<open>The value without the entries of objects that hold \<open>undefined\<close>.\<close>

fun defined :: "cbor \<Rightarrow> cbor" where
  "defined (CArr xs) = CArr (map defined xs)"
| "defined (CObj f kvs) =
     CObj f (map (\<lambda>kv. (fst kv, defined (snd kv))) (filter (\<lambda>kv. snd kv \<noteq> CUndef) kvs))"
| "defined v = v"

definition limits_ok :: "limits \<Rightarrow> bool" where
  "limits_ok lim \<longleftrightarrow> max_bytes lim \<le> max_uint32 \<and> max_items lim \<le> max_uint32 \<and> max_depth lim \<le> 512"

lemma resolved_limits: "resolve_options opts = Inr lim \<Longrightarrow> limits_ok lim"
  by (auto simp: resolve_options_def resolve_limit_def limits_ok_def result_simps split: num.splits if_splits)

lemma read_length_header:
  assumes "major < 8" and "n \<le> limit" and "limit \<le> max_uint32"
  shows "\<exists>b s. arg_bytes major n @ r = b # s \<and> unat b div 32 = major \<and>
    read_length (unat b mod 32) limit s = Inr (n, r)"
proof -
  have "n \<le> max_argument" using assms by (simp add: max_uint32_def max_argument_def)
  from header [OF assms(1) this, of r] show ?thesis using assms(2) by (auto simp: read_length_def)
qed

lemma read_sized:
  assumes "depth \<le> max_depth lim" and "limits_ok lim"
  shows "length bs \<le> max_bytes lim \<Longrightarrow>
      read_item lim depth (arg_bytes 2 (length bs) @ bs @ r) = Inr (CBytes bs, r)"
    and "text_fits lim s \<Longrightarrow> read_item lim depth (text_bytes s @ r) = Inr (CText s, r)"
    and "n \<le> max_items lim \<Longrightarrow> read_item lim depth (arg_bytes 4 n @ r) =
      rbind (read_items lim (Suc depth) n r) (\<lambda>(xs, r). Inr (CArr xs, r))"
    and "n \<le> max_items lim \<Longrightarrow> read_item lim depth (arg_bytes 5 n @ r) =
      rbind (read_entries lim (Suc depth) n [] r) (\<lambda>(kvs, r). Inr (CObj False kvs, r))"
proof -
  note lim = assms(2) [unfolded limits_ok_def]
  show "read_item lim depth (arg_bytes 2 (length bs) @ bs @ r) = Inr (CBytes bs, r)"
    if "length bs \<le> max_bytes lim"
    using read_length_header [of 2 "length bs" "max_bytes lim" "bs @ r"] that lim assms(1)
    by (auto simp: read_item.simps read_bytes_def)
  show "read_item lim depth (text_bytes s @ r) = Inr (CText s, r)" if "text_fits lim s"
    using read_length_header [of 3 "length (utf8_encode s)" "max_bytes lim" "utf8_encode s @ r"]
      that lim assms(1)
    by (auto simp: read_item.simps read_bytes_def text_fits_def text_bytes_def utf8_decode_eq [THEN iffD2])
  show "read_item lim depth (arg_bytes 4 n @ r) =
      rbind (read_items lim (Suc depth) n r) (\<lambda>(xs, r). Inr (CArr xs, r))"
    if "n \<le> max_items lim"
    using read_length_header [of 4 n "max_items lim" r] that lim assms(1)
    by (auto simp: read_item.simps)
  show "read_item lim depth (arg_bytes 5 n @ r) =
      rbind (read_entries lim (Suc depth) n [] r) (\<lambda>(kvs, r). Inr (CObj False kvs, r))"
    if "n \<le> max_items lim"
    using read_length_header [of 5 n "max_items lim" r] that lim assms(1)
    by (auto simp: read_item.simps)
qed

lemma read_number:
  assumes "depth \<le> max_depth lim" and "num_fits n" and "num_ok n"
  shows "read_item lim depth (num_bytes n @ r) = Inr (CNum n, r)"
proof (cases n)
  case (NInt i)
  show ?thesis
  proof (cases "0 \<le> i")
    case True
    then have "nat i \<le> max_argument"
      using assms(2) NInt by (simp add: safe_int_def max_safe_def max_argument_def)
    from header [of 0, OF _ this, of r] show ?thesis
      using True NInt assms(1) by (auto simp: read_item.simps)
  next
    case False
    then have "nat (- 1 - i) \<le> max_argument"
      using assms(2) NInt by (simp add: safe_int_def max_safe_def max_argument_def)
    from header [of 1, OF _ this, of r] show ?thesis
      using False NInt assms(1,2) by (auto simp: read_item.simps)
  qed
next
  case (NFloat b)
  have "unat b < 256 ^ 8" using unsigned_less [of b] by simp
  then have b: "read_bytes 8 (be 8 (unat b) @ r) = Inr (be 8 (unat b), r)"
    "of_be (be 8 (unat b)) = unat b" by (simp_all add: read_bytes_def)
  then have "read_float (be 8 (unat b) @ r) = Inr (CNum (NFloat b), r)"
    using assms(2,3) NFloat by (simp add: read_float_def del: of_be_be)
  then show ?thesis using NFloat assms(1) by (simp add: read_item.simps read_simple_def)
qed

lemma present_simps: "present ((k, v) # kvs) = (if v = CUndef then [] else [(k, v)]) @ present kvs"
  "present [] = []"
  by (simp_all add: present_def)

lemma encodable_depth: "encodable lim depth v \<Longrightarrow> depth \<le> max_depth lim"
  by (simp add: encodable.simps)

abbreviation defined_entries where
  "defined_entries kvs \<equiv> map (\<lambda>kv. (fst kv, defined (snd kv))) (present kvs)"

lemma decode_encoded:
  assumes "limits_ok lim"
  shows "encodable lim depth v \<Longrightarrow> js_value v \<Longrightarrow>
      read_item lim depth (cbor_bytes v @ r) = Inr (defined v, r)"
    and "items_encodable lim depth xs \<Longrightarrow> list_all js_value xs \<Longrightarrow>
      read_items lim (Suc depth) (length xs) (items_bytes xs @ r) = Inr (map defined xs, r)"
    and "entries_encodable lim depth kvs \<Longrightarrow> list_all (\<lambda>kv. js_value (snd kv)) kvs \<Longrightarrow>
      own_ok (acc @ kvs) \<Longrightarrow> own_ordered text_index (acc @ kvs) \<Longrightarrow>
      read_entries lim (Suc depth) (length (present kvs)) acc (entries_bytes kvs @ r) =
        Inr (acc @ defined_entries kvs, r)"
proof (induction v and xs and kvs arbitrary: depth r and depth r and depth r acc
    rule: cbor_bytes_items_bytes_entries_bytes.induct)
  case (7 xs)
  then show ?case using read_sized(3) [OF _ assms, of depth "length xs" "items_bytes xs @ r"]
    by (simp add: encodable.simps)
next
  case (8 f kvs)
  then show ?case using read_sized(4) [OF _ assms, of depth "length (present kvs)" "entries_bytes kvs @ r"]
    by (simp add: encodable.simps present_def)
next
  case (13 k v kvs)
  show ?case
  proof (cases "v = CUndef")
    case True
    have "own_ok (acc @ kvs)" "own_ordered text_index (acc @ kvs)"
      using "13.prems"(3,4) by (auto simp: own_ok_def own_ordered_def sorted_wrt_append)
    then show ?thesis using "13.IH"(2) "13.prems" True by (simp add: present_simps)
  next
    case False
    let ?acc = "acc @ [(k, defined v)]"
    have v: "text_fits lim k" "encodable lim (Suc depth) v" "Suc depth \<le> max_depth lim"
      using "13.prems"(1) False encodable_depth by auto
    have keys: "own_ok (acc @ (k, defined v) # kvs)" "own_ordered text_index (acc @ (k, defined v) # kvs)"
      using "13.prems"(3,4) by (auto simp: own_ok_def own_ordered_def sorted_wrt_append)
    have new: "\<not> own_has acc k" using keys(1) by (auto simp: own_ok_def own_has_def)
    have "read_entries lim (Suc depth) (length (present kvs)) ?acc (entries_bytes kvs @ r) =
        Inr (?acc @ defined_entries kvs, r)"
      using "13.prems"(1,2) keys by (intro "13.IH"(2)) simp_all
    moreover have "read_item lim (Suc depth) (cbor_bytes v @ entries_bytes kvs @ r) =
        Inr (defined v, entries_bytes kvs @ r)"
      using "13.prems"(2) by (intro "13.IH"(1) False v(2)) simp
    ultimately show ?thesis
      using False new own_set_last [OF keys] read_sized(2) [OF v(3) assms v(1)]
      by (simp add: present_simps)
  qed
qed (use read_sized(1,2) [OF _ assms] read_number in \<open>auto simp: encodable.simps read_item.simps read_simple_def present_simps\<close>)

lemma decode_encode_cbor:
  assumes "js_value v" and "encode_cbor opts v = Inr bs"
  shows "decode_cbor opts bs = Inr (defined v)"
proof -
  obtain lim where lim: "resolve_options opts = Inr lim" "encodable lim 0 v"
    "bs = cbor_bytes v" "length bs \<le> max_bytes lim"
    using assms(2) by (auto simp: encode_cbor_eq)
  have "read_item lim 0 (cbor_bytes v @ []) = Inr (defined v, [])"
    using decode_encoded(1) [OF resolved_limits [OF lim(1)] lim(2) assms(1), of "[]"] .
  then show ?thesis using lim by (simp add: decode_cbor_def)
qed

text \<open>
  C36. Round trip: what \<open>encodeCbor\<close> returns for a JavaScript value, \<open>decodeCbor\<close> with the same
  options turns back into that value, without the object entries that hold \<open>undefined\<close>: numbers,
  strings, byte strings, key order and nesting survive.
\<close>

theorem cbor_roundtrip:
  assumes "js_value v" and "encode_cbor opts v = Inr bs"
  shows "decode_cbor opts bs = Inr (defined v)"
  using assms by (rule decode_encode_cbor)

definition no_options :: cbor_options where
  "no_options = \<lparr>opt_bytes = None, opt_items = None, opt_depth = None\<rparr>"

theorem cbor_roundtrip_witness:
  "decode_cbor no_options [0xA1, 0x61, 0x61, 0x82, 0x01, 0xF6] =
    Inr (defined (CObj False [([0x61], CArr [CNum (NInt 1), CNull]), ([0x62], CUndef)]))"
proof (rule cbor_roundtrip)
  let ?v = "CObj False [([0x61], CArr [CNum (NInt 1), CNull]), ([0x62], CUndef)]"
  show "js_value ?v"
    by (simp add: own_ok_def own_ordered_def own_before_def text_index_def index_key_def is_digit_def)
  have "resolve_options no_options = Inr \<lparr>max_bytes = 16777216, max_items = 1000000, max_depth = 64\<rparr>"
    by (simp add: resolve_options_def no_options_def resolve_limit_def or_default_def safe_int_def
        max_safe_def max_uint32_def)
  moreover have "encodable \<lparr>max_bytes = 16777216, max_items = 1000000, max_depth = 64\<rparr> 0 ?v"
    by (simp add: encodable.simps present_def text_fits_def safe_int_def max_safe_def is_high_def
        is_low_def utf8_encode_def unit_point_def utf8_char_def)
  moreover have "cbor_bytes ?v = [0xA1, 0x61, 0x61, 0x82, 0x01, 0xF6]"
    by (simp add: present_def text_bytes_def arg_bytes_def is_high_def is_low_def utf8_encode_def
        unit_point_def utf8_char_def)
  ultimately show "encode_cbor no_options ?v = Inr [0xA1, 0x61, 0x61, 0x82, 0x01, 0xF6]"
    by (simp add: encode_cbor_eq del: encodable.simps)
qed

section \<open>What the decoder accepts\<close>

lemma arg_bytes_length:
  "length (arg_bytes major n) = (if n < 24 then 1 else if n \<le> 0xFF then 2 else if n \<le> 0xFFFF then 3
     else if n \<le> max_uint32 then 5 else 9)"
  by (simp add: arg_bytes_def)

lemma read_be_Inr: "read_be k bs = Inr (n, r) \<Longrightarrow> n < 256 ^ k \<and> length bs = k + length r"
  using of_be_bound [of "take k bs"]
  by (auto simp: read_be_def read_bytes_def result_simps split: if_splits)

lemma read_byte_Inr: "read_byte bs = Inr (n, r) \<longleftrightarrow> (\<exists>b. bs = b # r \<and> n = unat b)"
  by (cases bs) auto

lemma read_argument_Inr:
  assumes "read_argument info bs = Inr (n, r)" and "info < 32"
  shows "n \<le> max_argument \<and> length (arg_bytes major n) + length r \<le> Suc (length bs)"
proof -
  consider "info < 24" | "info = 24" | "info = 25" | "info = 26" | "info = 27"
    using assms by (auto simp: read_argument_def split: if_splits)
  then show ?thesis
  proof cases
    case 1
    then show ?thesis using assms by (auto simp: read_argument_def arg_bytes_length max_argument_def)
  next
    case 2
    then obtain b where "bs = b # r" "n = unat b"
      using assms by (auto simp: read_argument_def read_byte_Inr)
    then show ?thesis using unat_byte [of b] by (simp add: arg_bytes_length max_argument_def)
  next
    case 3
    then have "read_be 2 bs = Inr (n, r)" using assms by (simp add: read_argument_def)
    from read_be_Inr [OF this] show ?thesis by (simp add: arg_bytes_length max_argument_def)
  next
    case 4
    then have "read_be 4 bs = Inr (n, r)" using assms by (simp add: read_argument_def)
    from read_be_Inr [OF this] show ?thesis
      by (simp add: arg_bytes_length max_argument_def max_uint32_def)
  next
    case 5
    then obtain hi m lo where h: "read_be 4 bs = Inr (hi, m)" "read_be 4 m = Inr (lo, r)" "hi \<le> 0x1FFFFF"
      "n = hi * uint32_base + lo"
      using assms by (auto simp: read_argument_def result_simps split: if_splits)
    have "length bs = 8 + length r" "lo < 4294967296"
      using read_be_Inr [OF h(1)] read_be_Inr [OF h(2)] by simp_all
    moreover have "hi * uint32_base \<le> 0x1FFFFF * uint32_base" using h(3) by simp
    ultimately show ?thesis using h(4)
      by (simp add: arg_bytes_length max_argument_def uint32_base_def)
  qed
qed

lemma read_length_Inr:
  assumes "read_length info limit bs = Inr (n, r)" and "info < 32"
  shows "n \<le> limit \<and> length (arg_bytes major n) + length r \<le> Suc (length bs)"
  using assms read_argument_Inr [of info bs n r major]
  by (auto simp: read_length_def result_simps split: if_splits)

lemma read_bytes_Inr: "read_bytes n bs = Inr (a, r) \<longleftrightarrow> bs = a @ r \<and> length a = n"
  by (auto simp: read_bytes_def split: if_splits)

text \<open>The decoder's result, of a given size at most, is a value the encoder takes.\<close>

definition accepted :: "limits \<Rightarrow> nat \<Rightarrow> cbor \<Rightarrow> bool" where
  "accepted lim depth v \<longleftrightarrow> encodable lim depth v \<and> js_value v \<and> defined v = v"

lemma accepted_defined: "accepted lim depth v \<Longrightarrow> v \<noteq> CUndef"
  by (auto simp: accepted_def encodable.simps)

lemma read_float_Inr:
  assumes "read_float bs = Inr (v, r)"
  shows "\<exists>n. v = CNum n \<and> num_fits n \<and> num_ok n \<and> length (num_bytes n) + length r \<le> Suc (length bs)"
proof -
  from assms obtain raw where r: "bs = raw @ r" "length raw = 8" "float_finite (of_nat (of_be raw))"
    "(case float_int (of_nat (of_be raw)) of None \<Rightarrow> v = CNum (NFloat (of_nat (of_be raw)))
      | Some i \<Rightarrow> safe_int i \<and> v = CNum (NInt i))"
    by (auto simp: read_float_def read_bytes_Inr result_simps Let_def split: if_splits option.splits)
  show ?thesis
  proof (cases "float_int (of_nat (of_be raw))")
    case None
    then show ?thesis using r by simp
  next
    case (Some i)
    then show ?thesis using r by (simp add: arg_bytes_length)
  qed
qed

lemma read_simple_Inr:
  assumes "read_simple info bs = Inr (v, r)" and "depth \<le> max_depth lim"
  shows "accepted lim depth v \<and> length (cbor_bytes v) + length r \<le> Suc (length bs)"
proof (cases "info = 27")
  case True
  then obtain n where "v = CNum n" "num_fits n" "num_ok n" "length (num_bytes n) + length r \<le> Suc (length bs)"
    using assms(1) read_float_Inr [of bs v r] by (auto simp: read_simple_def)
  then show ?thesis using assms(2) by (simp add: accepted_def encodable.simps)
next
  case False
  then have "r = bs \<and> (v = CBool False \<or> v = CBool True \<or> v = CNull)"
    using assms(1) by (auto simp: read_simple_def split: if_splits)
  then show ?thesis using assms(2) by (auto simp: accepted_def encodable.simps)
qed

lemma read_integer_Inr:
  assumes "read_argument info bs = Inr (n, r)" and "info < 32" and "depth \<le> max_depth lim"
  shows "accepted lim depth (CNum (NInt (int n))) \<and>
      length (cbor_bytes (CNum (NInt (int n)))) + length r \<le> Suc (length bs)"
    and "safe_int (- 1 - int n) \<Longrightarrow> accepted lim depth (CNum (NInt (- 1 - int n))) \<and>
      length (cbor_bytes (CNum (NInt (- 1 - int n)))) + length r \<le> Suc (length bs)"
proof -
  show "accepted lim depth (CNum (NInt (int n))) \<and>
      length (cbor_bytes (CNum (NInt (int n)))) + length r \<le> Suc (length bs)"
    using read_argument_Inr [OF assms(1,2), of 0] assms(3)
    by (auto simp: accepted_def encodable.simps safe_int_def max_safe_def max_argument_def)
  show "accepted lim depth (CNum (NInt (- 1 - int n))) \<and>
      length (cbor_bytes (CNum (NInt (- 1 - int n)))) + length r \<le> Suc (length bs)"
    if "safe_int (- 1 - int n)"
    using read_argument_Inr [OF assms(1,2), of 1] assms(3) that
    by (auto simp: accepted_def encodable.simps)
qed

lemma entries_size: "length (entries_bytes kvs) =
    sum_list (map (\<lambda>kv. if snd kv = CUndef then 0 else length (text_bytes (fst kv)) + length (cbor_bytes (snd kv))) kvs)"
  by (induction kvs) auto

lemma own_insert_size: "sum_list (map f (own_insert idx k v kvs)) = f (k, v) + (sum_list (map f kvs) :: nat)"
proof -
  let ?P = "\<lambda>kv. \<not> own_before idx k (fst kv)"
  have "sum_list (map f kvs) = sum_list (map f (takeWhile ?P kvs @ dropWhile ?P kvs))" by simp
  then show ?thesis unfolding own_insert_def map_append sum_list_append by simp
qed

lemma own_insert_length: "length (own_insert idx k v kvs) = Suc (length kvs)"
  using own_insert_size [of "\<lambda>_. 1" idx k v kvs] by (simp add: sum_list_triv)

definition entry_ok :: "limits \<Rightarrow> nat \<Rightarrow> text16 \<times> cbor \<Rightarrow> bool" where
  "entry_ok lim depth kv \<longleftrightarrow> text_fits lim (fst kv) \<and> accepted lim depth (snd kv)"

definition entries_ok :: "limits \<Rightarrow> nat \<Rightarrow> (text16 \<times> cbor) list \<Rightarrow> bool" where
  "entries_ok lim depth kvs \<longleftrightarrow> own_ok kvs \<and> own_ordered text_index kvs \<and> list_all (entry_ok lim depth) kvs"

lemma entries_ok_set:
  assumes "entries_ok lim depth kvs" and "entry_ok lim depth (k, v)" and "\<not> own_has kvs k"
  shows "entries_ok lim depth (own_set text_index k v kvs) \<and>
    length (own_set text_index k v kvs) = Suc (length kvs) \<and>
    length (entries_bytes (own_set text_index k v kvs)) =
      length (text_bytes k) + length (cbor_bytes v) + length (entries_bytes kvs)"
  using assms own_set_values [of text_index k v kvs]
  by (auto simp: entries_ok_def list_all_iff own_set_def own_insert_length own_insert_ok own_insert_ordered
      entries_size own_insert_size entry_ok_def dest: accepted_defined)

lemma items_accepted:
  "list_all (accepted lim (Suc depth)) xs \<Longrightarrow>
    items_encodable lim depth xs \<and> list_all js_value xs \<and> map defined xs = xs"
  by (induction xs) (auto simp: accepted_def)

lemma entries_accepted:
  "list_all (entry_ok lim (Suc depth)) kvs \<Longrightarrow>
    entries_encodable lim depth kvs \<and> list_all (\<lambda>kv. js_value (snd kv)) kvs \<and>
    defined_entries kvs = kvs \<and> present kvs = kvs"
  by (induction kvs) (auto simp: entry_ok_def accepted_def present_simps encodable.simps)

lemma read_accepts:
  "read_item lim depth bs = Inr (v, r) \<Longrightarrow>
    accepted lim depth v \<and> length (cbor_bytes v) + length r \<le> length bs"
  "read_items lim depth n bs = Inr (xs, r) \<Longrightarrow>
    list_all (accepted lim depth) xs \<and> length xs = n \<and> length (items_bytes xs) + length r \<le> length bs"
  "read_entries lim depth n acc bs = Inr (kvs, r) \<Longrightarrow> entries_ok lim depth acc \<Longrightarrow>
    entries_ok lim depth kvs \<and> length kvs = length acc + n \<and>
    length (entries_bytes kvs) + length r \<le> length (entries_bytes acc) + length bs"
proof (induction lim depth bs and lim depth n bs and lim depth n acc bs
    arbitrary: v r and xs r and kvs r rule: read_item_read_items_read_entries.induct)
  case (1 lim depth bs)
  have d: "depth \<le> max_depth lim" using "1.prems" by (simp add: read_item.simps split: if_splits)
  then have nd: "\<not> max_depth lim < depth" by simp
  obtain b s where b: "bs = b # s" using "1.prems" d by (cases bs) (simp_all add: read_item.simps)
  then have rb: "read_byte bs = Inr (unat b, s)" by simp
  let ?major = "unat b div 32" and ?info = "unat b mod 32"
  have info: "?info < 32" by simp
  note prems = "1.prems" [simplified read_item.simps [of lim depth bs] rb, simplified nd if_False
      rbind_Inr prod.case Let_def]
  have "?major < 8" using unat_byte [of b] by simp
  then consider "?major = 0" | "?major = 1" | "?major = 2" | "?major = 3" | "?major = 4" | "?major = 5"
    | "?major = 6" | "?major = 7" by linarith
  then show ?case
  proof cases
    case 1
    then obtain n where "read_argument ?info s = Inr (n, r)" "v = CNum (NInt (int n))"
      using prems by (auto simp: result_simps)
    then show ?thesis using read_integer_Inr(1) [OF _ info d] b by simp
  next
    case 2
    then obtain n where "read_argument ?info s = Inr (n, r)" "v = CNum (NInt (- 1 - int n))" "safe_int (- 1 - int n)"
      using prems by (auto simp: result_simps split: if_splits)
    then show ?thesis using read_integer_Inr(2) [OF _ info d] b by simp
  next
    case 3
    then obtain n m bs' where "read_length ?info (max_bytes lim) s = Inr (n, m)" "m = bs' @ r"
      "length bs' = n" "v = CBytes bs'"
      using prems by (auto simp: result_simps read_bytes_Inr)
    then show ?thesis using read_length_Inr [of ?info "max_bytes lim" s n m 2] b d
      by (simp add: accepted_def encodable.simps)
  next
    case 4
    then obtain n m raw t where "read_length ?info (max_bytes lim) s = Inr (n, m)" "m = raw @ r"
      "length raw = n" "utf8_decode raw = Some t" "v = CText t"
      using prems by (auto simp: result_simps read_bytes_Inr split: option.splits)
    then show ?thesis using read_length_Inr [of ?info "max_bytes lim" s n m 3] b d
      by (simp add: accepted_def encodable.simps text_bytes_def text_fits_def utf8_decode_eq)
  next
    case 5
    then obtain n m xs where x: "read_length ?info (max_items lim) s = Inr (n, m)"
      "read_items lim (Suc depth) n m = Inr (xs, r)" "v = CArr xs"
      using prems by (auto simp: result_simps)
    have "list_all (accepted lim (Suc depth)) xs \<and> length xs = n \<and>
        length (items_bytes xs) + length r \<le> length m"
      using 5 x(2) by (intro "1.IH"(1) [OF nd rb refl refl refl _ _ _ _ _ x(1) refl]) simp_all
    then show ?thesis using read_length_Inr [OF x(1) info, of 4] x(3) b d items_accepted [of lim depth xs]
      by (simp add: accepted_def encodable.simps)
  next
    case 6
    then obtain n m kvs where x: "read_length ?info (max_items lim) s = Inr (n, m)"
      "read_entries lim (Suc depth) n [] m = Inr (kvs, r)" "v = CObj False kvs"
      using prems by (auto simp: result_simps)
    have ok: "entries_ok lim (Suc depth) kvs \<and> length kvs = length ([] :: (text16 \<times> cbor) list) + n \<and>
        length (entries_bytes kvs) + length r \<le> length (entries_bytes []) + length m"
      using 6 x(2) by (intro "1.IH"(2) [OF nd rb refl refl refl _ _ _ _ _ _ x(1) refl])
        (simp_all add: entries_ok_def)
    then have e: "entries_encodable lim depth kvs" "list_all (\<lambda>kv. js_value (snd kv)) kvs"
      "defined_entries kvs = kvs" "present kvs = kvs"
      using entries_accepted [of lim depth kvs] unfolding entries_ok_def by blast+
    have "defined (CObj False kvs) = CObj False kvs" using e(3) by (simp add: present_def)
    then show ?thesis using read_length_Inr [OF x(1) info, of 5] x(3) b d ok e(1,2,4)
      by (simp add: accepted_def encodable.simps entries_ok_def)
  next
    case 7
    then show ?thesis using prems by simp
  next
    case 8
    then have "read_simple ?info s = Inr (v, r)" using prems by simp
    from read_simple_Inr [OF this d] show ?thesis using b by simp
  qed
next
  case (2 lim depth bs)
  then show ?case by simp
next
  case (3 lim depth n bs)
  from "3.prems" obtain x m ys where x: "read_item lim depth bs = Inr (x, m)"
    "read_items lim depth n m = Inr (ys, r)" "xs = x # ys" by (auto simp: result_simps)
  show ?case using "3.IH"(1) [OF x(1)] "3.IH"(2) [OF x(1) refl x(2)] x(3) by simp
next
  case (4 lim depth acc bs)
  then show ?case by simp
next
  case (5 lim depth n acc bs)
  obtain key m where key: "read_item lim depth bs = Inr (key, m)"
    using "5.prems"(1) by (auto simp: result_simps)
  then obtain k v m' where x: "read_item lim depth bs = Inr (CText k, m)" "\<not> own_has acc k"
    "read_item lim depth m = Inr (v, m')" "read_entries lim depth n (own_set text_index k v acc) m' = Inr (kvs, r)"
    using "5.prems"(1) by (cases key) (auto simp: result_simps split: if_splits)
  have k: "text_fits lim k" "length (text_bytes k) + length m \<le> length bs"
    using "5.IH"(1) [OF x(1)] by (simp_all add: accepted_def encodable.simps)
  have v: "accepted lim depth v" "length (cbor_bytes v) + length m' \<le> length m"
    using "5.IH"(2) [OF x(1) refl refl x(2,3)] by simp_all
  have acc: "entries_ok lim depth (own_set text_index k v acc)"
    "length (own_set text_index k v acc) = Suc (length acc)"
    "length (entries_bytes (own_set text_index k v acc)) =
      length (text_bytes k) + length (cbor_bytes v) + length (entries_bytes acc)"
    using entries_ok_set [OF "5.prems"(2) _ x(2), of v] k(1) v(1) by (simp_all add: entry_ok_def)
  show ?case using "5.IH"(3) [OF x(1) refl refl x(2,3) refl x(4) acc(1)] acc k v by simp
qed

text \<open>
  C40. Whatever bytes the decoder accepts, the value it gives is one the encoder takes under the same
  options, in no more bytes than were read, and that encoding decodes to the same value. In particular
  an accepted value keeps the nesting, container and byte limits, has no duplicate keys, and holds only
  finite numbers, safe integers and well-formed text.
\<close>

theorem decoded_reencodes:
  assumes "decode_cbor opts bs = Inr v"
  shows "\<exists>out. encode_cbor opts v = Inr out \<and> length out \<le> length bs \<and> decode_cbor opts out = Inr v"
proof -
  obtain lim where lim: "resolve_options opts = Inr lim" "length bs \<le> max_bytes lim"
    "read_item lim 0 bs = Inr (v, [])"
    using assms by (auto simp: decode_cbor_def result_simps split: if_splits)
  from read_accepts(1) [OF lim(3)] have v: "encodable lim 0 v" "js_value v" "defined v = v"
    "length (cbor_bytes v) \<le> length bs" by (simp_all add: accepted_def)
  then have "encode_cbor opts v = Inr (cbor_bytes v)" using lim by (simp add: encode_cbor_eq)
  moreover from this have "decode_cbor opts (cbor_bytes v) = Inr v"
    using decode_encode_cbor v by metis
  ultimately show ?thesis using v(4) by blast
qed

theorem decoded_reencodes_witness:
  "\<exists>out. encode_cbor no_options (CNum (NInt 1)) = Inr out \<and> length out \<le> length [0x18, 0x01 :: byte] \<and>
    decode_cbor no_options out = Inr (CNum (NInt 1))"
proof (rule decoded_reencodes)
  have "resolve_options no_options = Inr \<lparr>max_bytes = 16777216, max_items = 1000000, max_depth = 64\<rparr>"
    by (simp add: resolve_options_def no_options_def resolve_limit_def or_default_def safe_int_def
        max_safe_def max_uint32_def)
  then show "decode_cbor no_options [0x18, 0x01] = Inr (CNum (NInt 1))"
    by (simp add: decode_cbor_def read_item.simps read_argument_def)
qed

end
