(* ===== verification/Framing.thy ===== *)
theory Framing
  imports CborRoundtrip
begin

text \<open>
  Length-prefixed frames, \<open>packages/protocol/src/framing.ts\<close>: \<open>encodeFrame\<close> and the incremental
  \<open>FrameDecoder\<close> with its four-byte header buffer and its list of payload blocks. The last block is
  \<open>currentPayloadBlock\<close>, which the source reaches through a second reference. The two loops of
  \<open>push\<close> may in principle spin, so they are partial functions, and that they return is proved.
\<close>

section \<open>Definitions\<close>

datatype frame_error = FrameError string | FrameRange string

definition frame_header_length :: nat where
  "frame_header_length = 4"

definition payload_block_size :: nat where
  "payload_block_size = 65536"

definition default_max_frame_length :: nat where
  "default_max_frame_length = 16777216"

datatype decoder_state = DOpen | DEnded | DFailed

record frame_decoder =
  header :: "byte list"
  header_len :: nat
  max_frame :: nat
  blocks :: "byte list list"
  block_len :: nat
  expected :: "nat option"
  payload_len :: nat
  dstate :: decoder_state

definition resolve_max_frame_length :: "num option \<Rightarrow> frame_error + nat" where
  "resolve_max_frame_length opt = (case or_default opt default_max_frame_length of
     NInt i \<Rightarrow> if safe_int i \<and> 0 \<le> i \<and> i \<le> int max_uint32 then Inr (nat i)
               else Inl (FrameRange ''maxFrameLength'')
   | NFloat _ \<Rightarrow> Inl (FrameRange ''maxFrameLength''))"

definition encode_frame :: "byte list \<Rightarrow> frame_error + byte list" where
  "encode_frame payload =
    (if max_uint32 < length payload
     then Inl (FrameRange ''Frame payload exceeds the unsigned 32-bit length limit'')
     else let n = length payload in
       Inr ([of_nat (n div 2 ^ 24), of_nat (n div 2 ^ 16), of_nat (n div 2 ^ 8), of_nat n] @ payload))"

definition new_frame_decoder :: "nat \<Rightarrow> frame_decoder" where
  "new_frame_decoder limit = \<lparr>header = replicate 4 0, header_len = 0, max_frame = limit, blocks = [],
     block_len = 0, expected = None, payload_len = 0, dstate = DOpen\<rparr>"

text \<open>\<open>fail(message)\<close>, but for the throw itself.\<close>

definition fail :: "frame_decoder \<Rightarrow> frame_decoder" where
  "fail d = d\<lparr>dstate := DFailed, header_len := 0, blocks := [], block_len := 0, expected := None,
     payload_len := 0\<rparr>"

text \<open>The inner loop of \<open>push\<close>: copy chunk bytes into blocks until the payload or the chunk ends.\<close>

definition with_block :: "frame_decoder \<Rightarrow> nat \<Rightarrow> frame_decoder" where
  "with_block d e =
    (if blocks d = [] \<or> block_len d = length (last (blocks d))
     then d\<lparr>blocks := blocks d @ [replicate (min payload_block_size (e - payload_len d)) 0], block_len := 0\<rparr>
     else d)"

partial_function (option) fill :: "frame_decoder \<Rightarrow> nat \<Rightarrow> byte list \<Rightarrow> (frame_decoder \<times> byte list) option" where
  "fill d e chunk =
    (if chunk = [] \<or> \<not> payload_len d < e then Some (d, chunk)
     else let d1 = with_block d e; block = last (blocks d1);
              n = min (length block - block_len d1) (length chunk)
          in fill (d1\<lparr>blocks := butlast (blocks d1) @ [set_at (block_len d1) (take n chunk) block],
                     block_len := block_len d1 + n, payload_len := payload_len d1 + n\<rparr>) e (drop n chunk))"

text \<open>A completed payload is handed out: a single block as it is, several copied together.\<close>

definition assemble :: "nat \<Rightarrow> byte list list \<Rightarrow> byte list" where
  "assemble e bs = (case bs of [b] \<Rightarrow> b
     | _ \<Rightarrow> snd (foldl (\<lambda>(off, out) b. (off + length b, set_at off b out)) (0, replicate e 0) bs))"

definition take_payload ::
    "frame_decoder \<Rightarrow> nat \<Rightarrow> byte list \<Rightarrow> byte list list \<Rightarrow> (frame_decoder \<times> byte list \<times> byte list list) option" where
  "take_payload d e chunk frames = (case fill d e chunk of
     None \<Rightarrow> None
   | Some (d1, rest) \<Rightarrow>
       if payload_len d1 = e
       then Some (d1\<lparr>blocks := [], block_len := 0, expected := None, payload_len := 0\<rparr>, rest,
                  frames @ [assemble e (blocks d1)])
       else Some (d1, rest, frames))"

text \<open>The outer loop of \<open>push\<close>; \<open>frames\<close> are those completed so far.\<close>

partial_function (option) push_loop ::
    "frame_decoder \<Rightarrow> byte list \<Rightarrow> byte list list \<Rightarrow> (frame_decoder \<times> (frame_error + byte list list)) option" where
  "push_loop d chunk frames =
    (if chunk = [] then Some (d, Inr frames)
     else (case expected d of
       None \<Rightarrow>
         let hb = min (4 - header_len d) (length chunk);
             d1 = d\<lparr>header := set_at (header_len d) (take hb chunk) (header d), header_len := header_len d + hb\<rparr>;
             rest = drop hb chunk in
         if header_len d1 < 4 then push_loop d1 rest frames
         else let n = of_be (header d1); d2 = d1\<lparr>header_len := 0\<rparr> in
           if max_frame d < n then Some (fail d2, Inl (FrameError ''Frame length exceeds configured limit''))
           else if n = 0 then push_loop d2 rest (frames @ [[]])
           else Option.bind
             (take_payload (d2\<lparr>expected := Some n, blocks := [], block_len := 0, payload_len := 0\<rparr>) n rest frames)
             (\<lambda>(d3, rest, frames). push_loop d3 rest frames)
     | Some e \<Rightarrow> Option.bind (take_payload d e chunk frames)
         (\<lambda>(d1, rest, frames). push_loop d1 rest frames)))"

definition push :: "frame_decoder \<Rightarrow> byte list \<Rightarrow> (frame_decoder \<times> (frame_error + byte list list)) option" where
  "push d chunk = (case dstate d of
     DEnded \<Rightarrow> Some (d, Inl (FrameError ''Frame decoder has ended''))
   | DFailed \<Rightarrow> Some (d, Inl (FrameError ''Frame decoder has failed''))
   | DOpen \<Rightarrow> push_loop d chunk [])"

definition end_frames :: "frame_decoder \<Rightarrow> frame_decoder \<times> (frame_error + unit)" where
  "end_frames d = (case dstate d of
     DEnded \<Rightarrow> (d, Inl (FrameError ''Frame decoder has ended''))
   | DFailed \<Rightarrow> (d, Inl (FrameError ''Frame decoder has failed''))
   | DOpen \<Rightarrow>
       if header_len d \<noteq> 0 \<or> expected d \<noteq> None
       then (fail d, Inl (FrameError ''Truncated frame at end of stream''))
       else (d\<lparr>dstate := DEnded\<rparr>, Inr ()))"

section \<open>The stream the decoder stands for\<close>

text \<open>The frames at the front of a byte stream, and what is left; \<open>None\<close> for an oversized frame.\<close>

function parse_frames :: "nat \<Rightarrow> byte list \<Rightarrow> (byte list list \<times> byte list) option" where
  "parse_frames limit bs =
    (if length bs < 4 then Some ([], bs)
     else let n = of_be (take 4 bs) in
       if limit < n then None
       else if length bs < 4 + n then Some ([], bs)
       else map_option (\<lambda>(fs, r). (take n (drop 4 bs) # fs, r)) (parse_frames limit (drop (4 + n) bs)))"
  by pat_completeness auto
termination by (relation "measure (\<lambda>(_, bs). length bs)") auto

declare parse_frames.simps [simp del]

text \<open>The payload bytes received of the current frame.\<close>

definition received :: "frame_decoder \<Rightarrow> byte list" where
  "received d = (if blocks d = [] then [] else concat (butlast (blocks d)) @ take (block_len d) (last (blocks d)))"

definition pending :: "frame_decoder \<Rightarrow> byte list" where
  "pending d = (case expected d of None \<Rightarrow> take (header_len d) (header d) | Some e \<Rightarrow> be 4 e @ received d)"

definition blocks_ok :: "frame_decoder \<Rightarrow> nat \<Rightarrow> bool" where
  "blocks_ok d e \<longleftrightarrow> payload_len d = length (received d) \<and> payload_len d \<le> e \<and> length (concat (blocks d)) \<le> e \<and>
     (blocks d \<noteq> [] \<longrightarrow> block_len d \<le> length (last (blocks d)))"

definition frames_ok :: "frame_decoder \<Rightarrow> bool" where
  "frames_ok d \<longleftrightarrow> length (header d) = 4 \<and> max_frame d \<le> max_uint32 \<and> (case expected d of
     None \<Rightarrow> header_len d < 4
   | Some e \<Rightarrow> 0 < e \<and> e \<le> max_frame d \<and> header_len d = 0 \<and> blocks_ok d e \<and> payload_len d < e)"

section \<open>Filling the blocks\<close>

definition same_frame :: "frame_decoder \<Rightarrow> frame_decoder \<Rightarrow> bool" where
  "same_frame d d' \<longleftrightarrow> header d' = header d \<and> header_len d' = header_len d \<and> max_frame d' = max_frame d \<and>
     expected d' = expected d \<and> dstate d' = dstate d"

lemma concat_last: "bs \<noteq> [] \<Longrightarrow> concat bs = concat (butlast bs) @ last bs"
  by (metis append_butlast_last_id concat_append concat.simps(1) concat.simps(2) append_Nil2)

lemma received_prefix:
  "blocks d \<noteq> [] \<Longrightarrow> concat (blocks d) = received d @ drop (block_len d) (last (blocks d))"
  by (simp add: received_def concat_last)

lemma with_block_room:
  assumes "blocks_ok d e" and "payload_len d < e"
  shows "blocks_ok (with_block d e) e \<and> received (with_block d e) = received d \<and>
    blocks (with_block d e) \<noteq> [] \<and> block_len (with_block d e) < length (last (blocks (with_block d e))) \<and>
    same_frame d (with_block d e)"
proof (cases "blocks d = [] \<or> block_len d = length (last (blocks d))")
  case True
  then have "received d = concat (blocks d)"
    using received_prefix [of d] by (cases "blocks d = []") (simp_all add: received_def)
  then show ?thesis using True assms
    by (auto simp: with_block_def blocks_ok_def received_def same_frame_def payload_block_size_def)
next
  case False
  then show ?thesis using assms by (auto simp: with_block_def blocks_ok_def same_frame_def)
qed

lemma fill_step:
  fixes chunk
  assumes "blocks_ok d e" and "blocks d \<noteq> []" and "block_len d < length (last (blocks d))"
  defines "n \<equiv> min (length (last (blocks d)) - block_len d) (length chunk)"
  defines "d' \<equiv> d\<lparr>blocks := butlast (blocks d) @ [set_at (block_len d) (take n chunk) (last (blocks d))],
      block_len := block_len d + n, payload_len := payload_len d + n\<rparr>"
  shows "blocks_ok d' e \<and> received d' = received d @ take n chunk \<and> same_frame d d'"
proof -
  let ?b = "last (blocks d)"
  have n: "n \<le> length chunk" "block_len d + n \<le> length ?b" using assms(3) by (simp_all add: n_def)
  have b: "length (set_at (block_len d) (take n chunk) ?b) = length ?b"
    "take (block_len d + n) (set_at (block_len d) (take n chunk) ?b) = take (block_len d) ?b @ take n chunk"
    using set_at_length [of "block_len d" "take n chunk" ?b] set_at_take [of "block_len d" ?b "take n chunk"] n
    by simp_all
  have r: "received d' = received d @ take n chunk"
    using assms(2) b(2) by (simp add: d'_def received_def)
  have "length (concat (blocks d')) = length (concat (blocks d))"
    using b(1) concat_last [OF assms(2)] by (simp add: d'_def)
  moreover have "length (received d') \<le> length (concat (blocks d'))"
    using received_prefix [of d'] by (simp add: d'_def)
  ultimately show ?thesis using r assms(1) n b(1)
    by (simp add: blocks_ok_def same_frame_def d'_def)
qed

lemma same_frame_trans: "same_frame a b \<Longrightarrow> same_frame b c \<Longrightarrow> same_frame a c"
  by (simp add: same_frame_def)

lemma fill_takes:
  "blocks_ok d e \<Longrightarrow> \<exists>d'. fill d e chunk = Some (d', drop (e - payload_len d) chunk) \<and>
    blocks_ok d' e \<and> received d' = received d @ take (e - payload_len d) chunk \<and> same_frame d d'"
proof (induction "length chunk" arbitrary: d chunk rule: less_induct)
  case less
  show ?case
  proof (cases "chunk = [] \<or> \<not> payload_len d < e")
    case True
    then show ?thesis using less.prems by (subst fill.simps) (auto simp: same_frame_def)
  next
    case False
    define d1 where "d1 = with_block d e"
    define n where "n = min (length (last (blocks d1)) - block_len d1) (length chunk)"
    define d2 where "d2 = d1\<lparr>blocks := butlast (blocks d1) @ [set_at (block_len d1) (take n chunk) (last (blocks d1))],
      block_len := block_len d1 + n, payload_len := payload_len d1 + n\<rparr>"
    have d1: "blocks_ok d1 e" "received d1 = received d" "blocks d1 \<noteq> []"
      "block_len d1 < length (last (blocks d1))" "same_frame d d1"
      using with_block_room [OF less.prems] False by (simp_all add: d1_def)
    have d2: "blocks_ok d2 e" "received d2 = received d1 @ take n chunk" "same_frame d1 d2"
      using fill_step [OF d1(1,3,4), of chunk] unfolding d2_def n_def by blast+
    have n: "0 < n" "n \<le> length chunk" using d1(4) False by (auto simp: n_def)
    have fill: "fill d e chunk = fill d2 e (drop n chunk)"
      using False by (subst fill.simps) (simp add: Let_def d1_def d2_def n_def)
    have len: "payload_len d2 = payload_len d + n" "payload_len d2 \<le> e"
      using d1(1,2) d2(1,2) less.prems n(2) by (simp_all add: blocks_ok_def)
    have shorter: "length (drop n chunk) < length chunk" using n by simp
    obtain d' where d': "fill d2 e (drop n chunk) = Some (d', drop (e - payload_len d2) (drop n chunk))"
      "blocks_ok d' e" "received d' = received d2 @ take (e - payload_len d2) (drop n chunk)" "same_frame d2 d'"
      using less.hyps [OF shorter d2(1)] by blast
    have "e - payload_len d = n + (e - payload_len d2)" using len by simp
    then have "drop (e - payload_len d) chunk = drop (e - payload_len d2) (drop n chunk)"
      "take (e - payload_len d) chunk = take n chunk @ take (e - payload_len d2) (drop n chunk)"
      by (simp_all add: take_add add.commute)
    moreover have "same_frame d d'" using same_frame_trans d1(5) d2(3) d'(4) by blast
    ultimately show ?thesis using d'(1-3) fill d1(2) d2(2) by simp
  qed
qed

lemma assemble_concat: "length (concat bs) = e \<Longrightarrow> assemble e bs = concat bs"
proof -
  have step: "off + length (concat bs) \<le> length out \<Longrightarrow>
      snd (foldl (\<lambda>(off, out) b. (off + length b, set_at off b out)) (off, out) bs) =
      take off out @ concat bs @ drop (off + length (concat bs)) out" for off and out :: "byte list" and bs
  proof (induction bs arbitrary: off out)
    case (Cons b bs)
    have "off + length b + length (concat bs) \<le> length (set_at off b out)"
      using Cons.prems by (simp add: set_at_length)
    then show ?case using Cons.IH [of "off + length b" "set_at off b out"] Cons.prems
      by (simp add: set_at_take) (simp add: set_at_def ac_simps)
  qed simp
  assume e: "length (concat bs) = e"
  show ?thesis
  proof (cases "\<exists>b. bs = [b]")
    case False
    then have "assemble e bs =
        snd (foldl (\<lambda>(off, out) b. (off + length b, set_at off b out)) (0, replicate e 0) bs)"
      by (auto simp: assemble_def split: list.splits)
    then show ?thesis using step [of 0 bs "replicate e 0"] e by simp
  qed (auto simp: assemble_def)
qed

section \<open>Pushing chunks\<close>

lemma of_be_inj: "length bs = length cs \<Longrightarrow> of_be bs = of_be cs \<Longrightarrow> bs = cs"
proof (induction bs cs rule: list_induct2)
  case (Cons b bs c cs)
  let ?m = "256 ^ length bs :: nat"
  have e: "unat b * ?m + of_be bs = unat c * ?m + of_be cs"
    using Cons.prems Cons.hyps by (simp add: of_be_Cons)
  have lt: "of_be bs < ?m" "of_be cs < ?m" using of_be_bound [of bs] of_be_bound [of cs] Cons.hyps by simp_all
  have "unat b = (unat b * ?m + of_be bs) div ?m" "of_be bs = (unat b * ?m + of_be bs) mod ?m"
    using lt by simp_all
  moreover have "unat c = (unat c * ?m + of_be cs) div ?m" "of_be cs = (unat c * ?m + of_be cs) mod ?m"
    using lt by simp_all
  ultimately have "unat b = unat c" "of_be bs = of_be cs" using e by metis+
  then show ?case using Cons.IH by (simp add: word_unat_eq_iff)
qed simp

lemma be_of_be: "length bs = k \<Longrightarrow> be k (of_be bs) = bs"
  using of_be_bound [of bs] by (intro of_be_inj) simp_all

lemma parse_short: "length bs < 4 \<Longrightarrow> parse_frames limit bs = Some ([], bs)"
  by (subst parse_frames.simps) simp

lemma parse_oversized: "n < 256 ^ 4 \<Longrightarrow> limit < n \<Longrightarrow> parse_frames limit (be 4 n @ x) = None"
  by (subst parse_frames.simps) simp

lemma parse_partial: "n < 256 ^ 4 \<Longrightarrow> n \<le> limit \<Longrightarrow> length x < n \<Longrightarrow>
    parse_frames limit (be 4 n @ x) = Some ([], be 4 n @ x)"
  by (subst parse_frames.simps) simp

lemma parse_frame: "length p < 256 ^ 4 \<Longrightarrow> length p \<le> limit \<Longrightarrow>
    parse_frames limit (be 4 (length p) @ p @ x) = map_option (\<lambda>(fs, r). (p # fs, r)) (parse_frames limit x)"
  by (subst parse_frames.simps) simp

lemma parse_pending: "frames_ok d \<Longrightarrow> parse_frames (max_frame d) (pending d) = Some ([], pending d)"
  by (auto simp: frames_ok_def pending_def parse_short blocks_ok_def max_uint32_def
      intro: parse_partial split: option.splits)

lemma take_payload_spec:
  assumes "expected d = Some e" and "frames_ok d"
  defines "k \<equiv> e - payload_len d"
  shows "\<exists>d'. frames_ok d' \<and> max_frame d' = max_frame d \<and> dstate d' = dstate d \<and>
    (if length chunk < k
     then take_payload d e chunk frames = Some (d', [], frames) \<and> pending d' = pending d @ chunk
     else take_payload d e chunk frames = Some (d', drop k chunk, frames @ [received d @ take k chunk]) \<and>
       pending d' = [])"
proof -
  have d: "blocks_ok d e" "0 < e" "e \<le> max_frame d" "header_len d = 0" "payload_len d < e"
    "length (header d) = 4" "max_frame d \<le> max_uint32"
    using assms(1,2) by (simp_all add: frames_ok_def)
  obtain d1 where d1: "fill d e chunk = Some (d1, drop k chunk)" "blocks_ok d1 e"
    "received d1 = received d @ take k chunk" "same_frame d d1"
    using fill_takes [OF d(1), of chunk] by (auto simp: k_def)
  have len: "payload_len d1 = payload_len d + min (length chunk) k"
    using d1(2,3) d(1) by (simp add: blocks_ok_def min.commute)
  show ?thesis
  proof (cases "length chunk < k")
    case True
    then have "payload_len d1 \<noteq> e" "payload_len d1 < e" using len d(5) by (auto simp: k_def)
    then have "take_payload d e chunk frames = Some (d1, [], frames)"
      using d1(1) True by (simp add: take_payload_def)
    moreover have "frames_ok d1" "pending d1 = pending d @ chunk"
      using d d1 \<open>payload_len d1 < e\<close> assms(1) True by (simp_all add: frames_ok_def same_frame_def pending_def)
    ultimately show ?thesis using True d1(4) by (auto simp: same_frame_def)
  next
    case False
    let ?d' = "d1\<lparr>blocks := [], block_len := 0, expected := None, payload_len := 0\<rparr>"
    have e: "payload_len d1 = e" using len False d(5) by (simp add: k_def)
    then have ne: "blocks d1 \<noteq> []" using d1(2) d(2) by (auto simp: blocks_ok_def received_def)
    have "length (concat (blocks d1)) = e" and all: "concat (blocks d1) = received d1"
      using received_prefix [OF ne] d1(2) e by (auto simp: blocks_ok_def)
    then have "assemble e (blocks d1) = received d @ take k chunk" using assemble_concat d1(3) by metis
    then have "take_payload d e chunk frames = Some (?d', drop k chunk, frames @ [received d @ take k chunk])"
      using d1(1) e by (simp add: take_payload_def)
    moreover have "frames_ok ?d'" "pending ?d' = []"
      using d d1(4) by (simp_all add: frames_ok_def pending_def same_frame_def)
    ultimately show ?thesis using False d1(4) by (auto simp: same_frame_def intro!: exI [of _ ?d'])
  qed
qed

definition push_spec ::
    "frame_decoder \<Rightarrow> byte list list \<Rightarrow> (byte list list \<times> byte list) option \<Rightarrow>
      (frame_decoder \<times> (frame_error + byte list list)) option \<Rightarrow> bool" where
  "push_spec d frames parsed r \<longleftrightarrow> (case parsed of
     None \<Rightarrow> \<exists>d' e. r = Some (d', Inl e) \<and> dstate d' = DFailed
   | Some (fs, rest) \<Rightarrow> \<exists>d'. r = Some (d', Inr (frames @ fs)) \<and> frames_ok d' \<and> pending d' = rest \<and>
       max_frame d' = max_frame d \<and> dstate d' = dstate d)"

lemma push_spec_same: "push_spec d' frames parsed r \<Longrightarrow> max_frame d' = max_frame d \<Longrightarrow>
    dstate d' = dstate d \<Longrightarrow> push_spec d frames parsed r"
  by (cases parsed) (auto simp: push_spec_def)

lemma push_spec_emit:
  assumes "push_spec d' (frames @ [p]) (parse_frames (max_frame d') x) r"
    and "length p \<le> max_frame d" and "max_frame d \<le> max_uint32"
    and "max_frame d' = max_frame d" and "dstate d' = dstate d"
  shows "push_spec d frames (parse_frames (max_frame d) (be 4 (length p) @ p @ x)) r"
proof -
  have "length p < 256 ^ 4" using assms(2,3) by (simp add: max_uint32_def)
  then show ?thesis using assms
    by (cases "parse_frames (max_frame d) x") (auto simp: push_spec_def parse_frame)
qed

lemma push_loop_payload:
  assumes "expected d = Some e" and "frames_ok d"
    and IH: "\<And>d' frames chunk'. frames_ok d' \<Longrightarrow> length chunk' < length chunk \<or> length chunk' = 0 \<Longrightarrow>
      push_spec d' frames (parse_frames (max_frame d') (pending d' @ chunk')) (push_loop d' chunk' frames)"
  shows "push_spec d frames (parse_frames (max_frame d) (pending d @ chunk))
    (Option.bind (take_payload d e chunk frames) (\<lambda>(d1, rest, frames). push_loop d1 rest frames))"
proof -
  let ?k = "e - payload_len d"
  have d: "e \<le> max_frame d" "max_frame d \<le> max_uint32" "payload_len d < e" "payload_len d = length (received d)"
    using assms(1,2) by (simp_all add: frames_ok_def blocks_ok_def)
  obtain d' where d': "frames_ok d'" "max_frame d' = max_frame d" "dstate d' = dstate d"
    "if length chunk < ?k
     then take_payload d e chunk frames = Some (d', [], frames) \<and> pending d' = pending d @ chunk
     else take_payload d e chunk frames = Some (d', drop ?k chunk, frames @ [received d @ take ?k chunk]) \<and>
       pending d' = []"
    using take_payload_spec [OF assms(1,2), of chunk frames] by blast
  show ?thesis
  proof (cases "length chunk < ?k")
    case True
    then have "push_spec d' frames (parse_frames (max_frame d) (pending d @ chunk)) (push_loop d' [] frames)"
      using d' IH [OF d'(1), of "[]" frames] by simp
    then show ?thesis using push_spec_same d' True by simp
  next
    case False
    let ?p = "received d @ take ?k chunk"
    have len: "length ?p = e" using False d(3,4) by simp
    have "push_spec d' (frames @ [?p]) (parse_frames (max_frame d') (pending d' @ drop ?k chunk))
        (push_loop d' (drop ?k chunk) (frames @ [?p]))"
      using d(3) by (intro IH d'(1)) auto
    then have "push_spec d frames (parse_frames (max_frame d) (be 4 (length ?p) @ ?p @ drop ?k chunk))
        (push_loop d' (drop ?k chunk) (frames @ [?p]))"
      using False d d' len by (intro push_spec_emit [of d']) simp_all
    moreover have "pending d @ chunk = be 4 (length ?p) @ ?p @ drop ?k chunk"
      using assms(1) len by (simp add: pending_def)
    ultimately show ?thesis using False d' by simp
  qed
qed

lemma push_loop_spec:
  "frames_ok d \<Longrightarrow>
    push_spec d frames (parse_frames (max_frame d) (pending d @ chunk)) (push_loop d chunk frames)"
proof (induction "length chunk" arbitrary: d frames chunk rule: less_induct)
  case less
  have stop: "push_spec d' frames' (parse_frames (max_frame d') (pending d' @ [])) (push_loop d' [] frames')"
    if "frames_ok d'" for d' frames'
    using that by (subst push_loop.simps) (simp add: push_spec_def parse_pending)
  have IH: "push_spec d' frames' (parse_frames (max_frame d') (pending d' @ chunk')) (push_loop d' chunk' frames')"
    if "frames_ok d'" "length chunk' < length chunk \<or> length chunk' = 0" for d' frames' chunk'
    using that stop less.hyps by (cases "chunk' = []") auto
  show ?case
  proof (cases "chunk = []")
    case True
    then show ?thesis using stop less.prems by simp
  next
    case ne: False
    show ?thesis
    proof (cases "expected d")
      case (Some e)
      then show ?thesis
        using push_loop_payload [OF Some less.prems, of chunk frames] IH ne by (subst push_loop.simps) simp
    next
      case None
      have d: "header_len d < 4" "length (header d) = 4" "max_frame d \<le> max_uint32"
        using less.prems None by (simp_all add: frames_ok_def)
      define hb where "hb = min (4 - header_len d) (length chunk)"
      define d1 where "d1 = d\<lparr>header := set_at (header_len d) (take hb chunk) (header d), header_len := header_len d + hb\<rparr>"
      have hb: "0 < hb" "hb \<le> length chunk" "header_len d + hb \<le> 4" using d(1) ne by (auto simp: hb_def)
      have h1: "length (header d1) = 4" "take (header_len d1) (header d1) = pending d @ take hb chunk"
        using d hb set_at_length [of "header_len d" "take hb chunk" "header d"]
          set_at_take [of "header_len d" "header d" "take hb chunk"] None
        by (simp_all add: d1_def pending_def)
      have shorter: "length (drop hb chunk) < length chunk" using hb by simp
      have split: "pending d @ chunk = (pending d @ take hb chunk) @ drop hb chunk" by simp
      have turn: "push_loop d chunk frames =
        (if header_len d1 < 4 then push_loop d1 (drop hb chunk) frames
         else let n = of_be (header d1); d2 = d1\<lparr>header_len := 0\<rparr> in
           if max_frame d < n then Some (fail d2, Inl (FrameError ''Frame length exceeds configured limit''))
           else if n = 0 then push_loop d2 (drop hb chunk) (frames @ [[]])
           else Option.bind
             (take_payload (d2\<lparr>expected := Some n, blocks := [], block_len := 0, payload_len := 0\<rparr>) n (drop hb chunk) frames)
             (\<lambda>(d3, rest, frames). push_loop d3 rest frames))"
        unfolding d1_def hb_def
        by (subst push_loop.simps) (simp only: None ne option.case if_False Let_def)
      show ?thesis
      proof (cases "header_len d1 < 4")
        case True
        have ok: "frames_ok d1" "pending d1 = pending d @ take hb chunk"
          using True d h1 None by (simp_all add: frames_ok_def pending_def d1_def)
        have "push_loop d chunk frames = push_loop d1 (drop hb chunk) frames"
          unfolding turn using True by (rule if_P)
        then show ?thesis using push_spec_same [OF less.hyps [OF shorter ok(1), of frames], of d] ok(2)
          by (simp add: d1_def)
      next
        case False
        then have h4: "header_len d1 = 4" "header d1 = pending d @ take hb chunk"
          using hb h1 by (simp_all add: d1_def)
        define n where "n = of_be (header d1)"
        have n: "be 4 n = pending d @ take hb chunk" "n < 256 ^ 4"
          using be_of_be [OF h1(1)] of_be_bound [of "header d1"] h1(1) h4(2) by (simp_all add: n_def)
        define d2 where "d2 = d1\<lparr>header_len := 0\<rparr>"
        define d3 where "d3 = d2\<lparr>expected := Some n, blocks := [], block_len := 0, payload_len := 0\<rparr>"
        have loop: "push_loop d chunk frames =
          (if max_frame d < n then Some (fail d2, Inl (FrameError ''Frame length exceeds configured limit''))
           else if n = 0 then push_loop d2 (drop hb chunk) (frames @ [[]])
           else Option.bind (take_payload d3 n (drop hb chunk) frames) (\<lambda>(d3, rest, frames). push_loop d3 rest frames))"
          unfolding turn if_not_P [OF False] d3_def d2_def n_def Let_def ..
        have p: "pending d @ chunk = be 4 n @ drop hb chunk" using n(1) by simp
        consider "max_frame d < n" | "n \<le> max_frame d" "n = 0" | "n \<le> max_frame d" "0 < n" by linarith
        then show ?thesis
        proof cases
          case 1
          then show ?thesis using loop n(2) by (simp add: p parse_oversized push_spec_def fail_def)
        next
          case 2
          have ok: "frames_ok d2" "pending d2 = []"
            using d h1(1) None by (simp_all add: frames_ok_def pending_def d2_def d1_def)
          have "push_spec d frames (parse_frames (max_frame d) (be 4 (length ([] :: byte list)) @ [] @ drop hb chunk))
              (push_loop d2 (drop hb chunk) (frames @ [[]]))"
            using less.hyps [OF shorter ok(1), of "frames @ [[]]"] ok(2) d(3)
            by (intro push_spec_emit [of d2]) (simp_all add: d2_def d1_def)
          then show ?thesis using 2 loop p by simp
        next
          case 3
          have ok: "frames_ok d3" "pending d3 = be 4 n" "expected d3 = Some n"
            using d h1(1) 3 by (simp_all add: frames_ok_def pending_def d3_def d2_def d1_def blocks_ok_def received_def)
          have "push_spec d3 frames (parse_frames (max_frame d3) (pending d3 @ drop hb chunk))
              (Option.bind (take_payload d3 n (drop hb chunk) frames) (\<lambda>(d3, rest, frames). push_loop d3 rest frames))"
            using shorter by (intro push_loop_payload [OF ok(3,1)] IH) auto
          then have "push_spec d frames (parse_frames (max_frame d) (pending d @ chunk)) (push_loop d chunk frames)"
            using 3 loop p ok(2) push_spec_same by (simp add: d3_def d2_def d1_def)
          then show ?thesis .
        qed
      qed
    qed
  qed
qed

section \<open>Streams of chunks\<close>

text \<open>A consumer's use of an incremental decoder: push chunk after chunk, stop at the first error.\<close>

fun push_chunks :: "('d \<Rightarrow> 'b list \<Rightarrow> ('d \<times> ('e + 'f list)) option) \<Rightarrow> 'd \<Rightarrow> 'b list list \<Rightarrow>
    ('d \<times> ('e + 'f list)) option" where
  "push_chunks feed d [] = Some (d, Inr [])"
| "push_chunks feed d (c # cs) = (case feed d c of
     None \<Rightarrow> None
   | Some (d', Inl e) \<Rightarrow> Some (d', Inl e)
   | Some (d', Inr fs) \<Rightarrow>
       map_option (\<lambda>(d'', r). (d'', rbind r (\<lambda>gs. Inr (fs @ gs)))) (push_chunks feed d' cs))"

text \<open>The contract of an incremental decoder: one push parses what was pending and the chunk.\<close>

locale incremental =
  fixes feed :: "'d \<Rightarrow> 'b list \<Rightarrow> ('d \<times> ('e + 'f list)) option"
    and held :: "'d \<Rightarrow> 'b list"
    and live :: "'d \<Rightarrow> bool"
    and parse :: "'b list \<Rightarrow> ('f list \<times> 'b list) option"
  assumes feed_parses: "live d \<Longrightarrow> parse (held d @ c) = Some (fs, rest) \<Longrightarrow>
      \<exists>d'. feed d c = Some (d', Inr fs) \<and> live d' \<and> held d' = rest"
    and feed_fails: "live d \<Longrightarrow> parse (held d @ c) = None \<Longrightarrow> \<exists>d' e. feed d c = Some (d', Inl e)"
    and parse_held: "live d \<Longrightarrow> parse (held d) = Some ([], held d)"
    and parse_more: "parse bs = Some (fs, rest) \<Longrightarrow>
      parse (bs @ cs) = map_option (\<lambda>(gs, r). (fs @ gs, r)) (parse (rest @ cs))"
    and parse_stops: "parse bs = None \<Longrightarrow> parse (bs @ cs) = None"
begin

lemma chunks_parse: "live d \<Longrightarrow> parse (held d @ concat cs) = Some (fs, rest) \<Longrightarrow>
    \<exists>d'. push_chunks feed d cs = Some (d', Inr fs) \<and> live d' \<and> held d' = rest"
proof (induction cs arbitrary: d fs)
  case Nil
  then show ?case using parse_held by simp
next
  case (Cons c cs)
  from Cons.prems(2) obtain gs r where g: "parse (held d @ c) = Some (gs, r)"
    using parse_stops [of "held d @ c" "concat cs"] by (cases "parse (held d @ c)") auto
  then obtain hs where h: "parse (r @ concat cs) = Some (hs, rest)" "fs = gs @ hs"
    using Cons.prems(2) parse_more [OF g, of "concat cs"] by (cases "parse (r @ concat cs)") auto
  from feed_parses [OF Cons.prems(1) g] obtain d1 where d1: "feed d c = Some (d1, Inr gs)" "live d1" "held d1 = r"
    by blast
  from Cons.IH [OF d1(2), of hs] h d1 obtain d' where
    "push_chunks feed d1 cs = Some (d', Inr hs)" "live d'" "held d' = rest" by auto
  then show ?case using d1(1) h(2) by simp
qed

lemma chunks_fail: "live d \<Longrightarrow> parse (held d @ concat cs) = None \<Longrightarrow>
    \<exists>d' e. push_chunks feed d cs = Some (d', Inl e)"
proof (induction cs arbitrary: d)
  case Nil
  then show ?case using parse_held by simp
next
  case (Cons c cs)
  show ?case
  proof (cases "parse (held d @ c)")
    case None
    then show ?thesis using feed_fails [OF Cons.prems(1) None] by auto
  next
    case (Some p)
    obtain gs r where p: "p = (gs, r)" by fastforce
    then have "parse (r @ concat cs) = None"
      using Cons.prems(2) Some parse_more [of "held d @ c" gs r "concat cs"] by auto
    moreover obtain d1 where d1: "feed d c = Some (d1, Inr gs)" "live d1" "held d1 = r"
      using feed_parses [OF Cons.prems(1)] Some p by blast
    ultimately obtain d' e where "push_chunks feed d1 cs = Some (d', Inl e)" using Cons.IH [of d1] by auto
    then show ?thesis using d1(1) by simp
  qed
qed

end

lemma parse_frames_more: "parse_frames limit bs = Some (fs, rest) \<Longrightarrow>
    parse_frames limit (bs @ cs) = map_option (\<lambda>(gs, r). (fs @ gs, r)) (parse_frames limit (rest @ cs))"
proof (induction limit bs arbitrary: fs rule: parse_frames.induct)
  case (1 limit bs)
  let ?n = "of_be (take 4 bs)"
  consider "length bs < 4" | "4 \<le> length bs" "limit < ?n" | "4 \<le> length bs" "\<not> limit < ?n" "length bs < 4 + ?n"
    | "4 \<le> length bs" "\<not> limit < ?n" "4 + ?n \<le> length bs" by linarith
  then show ?case
  proof cases
    case 4
    then obtain gs where g: "parse_frames limit (drop (4 + ?n) bs) = Some (gs, rest)"
      "fs = take ?n (drop 4 bs) # gs"
      using "1.prems" by (auto simp: parse_frames.simps [of limit bs] Let_def)
    have "parse_frames limit (drop (4 + ?n) bs @ cs) =
        map_option (\<lambda>(hs, r). (gs @ hs, r)) (parse_frames limit (rest @ cs))"
      using 4 by (intro "1.IH" [OF _ refl] g(1)) simp_all
    then show ?thesis using 4 g(2)
      by (subst parse_frames.simps) (simp add: Let_def option.map_comp comp_def case_prod_unfold)
  qed (use "1.prems" in \<open>auto simp: parse_frames.simps [of limit bs] Let_def option.map_ident case_prod_unfold\<close>)
qed

lemma parse_frames_stops: "parse_frames limit bs = None \<Longrightarrow> parse_frames limit (bs @ cs) = None"
proof (induction limit bs rule: parse_frames.induct)
  case (1 limit bs)
  let ?n = "of_be (take 4 bs)"
  have l: "4 \<le> length bs" using "1.prems" by (auto simp: parse_frames.simps [of limit bs] split: if_splits)
  show ?case
  proof (cases "limit < ?n")
    case True
    then show ?thesis using l by (subst parse_frames.simps) (simp add: Let_def)
  next
    case False
    then have "4 + ?n \<le> length bs" "parse_frames limit (drop (4 + ?n) bs) = None"
      using l "1.prems" by (auto simp: parse_frames.simps [of limit bs] Let_def split: if_splits)
    then have "parse_frames limit (drop (4 + ?n) bs @ cs) = None"
      using l False by (intro "1.IH" [OF _ refl]) simp_all
    then show ?thesis using l False \<open>4 + ?n \<le> length bs\<close>
      by (subst parse_frames.simps) (simp add: Let_def)
  qed
qed

definition frame_live :: "nat \<Rightarrow> frame_decoder \<Rightarrow> bool" where
  "frame_live limit d \<longleftrightarrow> frames_ok d \<and> dstate d = DOpen \<and> max_frame d = limit"

lemma push_frames: "frame_live limit d \<Longrightarrow>
    push_spec d [] (parse_frames limit (pending d @ c)) (push d c)"
  using push_loop_spec [of d "[]" c] by (simp add: frame_live_def push_def)

interpretation frames: incremental push pending "frame_live limit" "parse_frames limit" for limit
proof unfold_locales
  show "\<exists>d'. push d c = Some (d', Inr fs) \<and> frame_live limit d' \<and> pending d' = rest"
    if "frame_live limit d" "parse_frames limit (pending d @ c) = Some (fs, rest)" for d c fs rest
    using push_frames [OF that(1), of c] that by (auto simp: push_spec_def frame_live_def)
  show "\<exists>d' e. push d c = Some (d', Inl e)"
    if "frame_live limit d" "parse_frames limit (pending d @ c) = None" for d c
    using push_frames [OF that(1), of c] that by (auto simp: push_spec_def)
  show "parse_frames limit (pending d) = Some ([], pending d)" if "frame_live limit d" for d
    using parse_pending [of d] that by (auto simp: frame_live_def)
qed (simp_all add: parse_frames_more parse_frames_stops)

lemma new_frame_live: "limit \<le> max_uint32 \<Longrightarrow> frame_live limit (new_frame_decoder limit)"
  "pending (new_frame_decoder limit) = []"
  by (simp_all add: frame_live_def frames_ok_def new_frame_decoder_def pending_def)

text \<open>
  C30. The decoder finds the frames of the byte stream, however it is cut into chunks: pushing chunk
  after chunk gives exactly the frames that the specification \<open>parse_frames\<close> finds in the whole,
  and fails exactly if some header in it announces more than the limit. It always returns.
\<close>

theorem frames_of_stream:
  assumes "limit \<le> max_uint32"
  shows "case parse_frames limit (concat chunks) of
      None \<Rightarrow> \<exists>d e. push_chunks push (new_frame_decoder limit) chunks = Some (d, Inl e)
    | Some (fs, rest) \<Rightarrow> \<exists>d. push_chunks push (new_frame_decoder limit) chunks = Some (d, Inr fs) \<and> pending d = rest"
proof (cases "parse_frames limit (concat chunks)")
  case None
  then show ?thesis
    using frames.chunks_fail [OF new_frame_live(1) [OF assms], of chunks] by (simp add: new_frame_live(2))
next
  case (Some p)
  obtain fs rest where p: "p = (fs, rest)" by fastforce
  show ?thesis
    using frames.chunks_parse [OF new_frame_live(1) [OF assms], of chunks fs rest] Some p
    by (auto simp: new_frame_live(2))
qed

theorem frames_of_stream_witness:
  "case parse_frames 16 (concat [[0, 0], [0, 1, 7, 0]]) of
      None \<Rightarrow> \<exists>d e. push_chunks push (new_frame_decoder 16) [[0, 0], [0, 1, 7, 0]] = Some (d, Inl e)
    | Some (fs, rest) \<Rightarrow> \<exists>d. push_chunks push (new_frame_decoder 16) [[0, 0], [0, 1, 7, 0]] = Some (d, Inr fs) \<and>
        pending d = rest"
  by (rule frames_of_stream) (simp add: max_uint32_def)

lemma encode_frame_Inr: "encode_frame p = Inr f \<longleftrightarrow> length p \<le> max_uint32 \<and> f = be 4 (length p) @ p"
  by (auto simp: encode_frame_def be_small Let_def)

lemma parse_encoded:
  assumes "list_all2 (\<lambda>p f. encode_frame p = Inr f) ps fs" and "list_all (\<lambda>p. length p \<le> limit) ps"
    and "limit \<le> max_uint32"
  shows "parse_frames limit (concat fs @ x) = map_option (\<lambda>(gs, r). (ps @ gs, r)) (parse_frames limit x)"
  using assms
proof (induction ps fs rule: list_all2_induct)
  case (Cons p ps f fs)
  then have f: "f = be 4 (length p) @ p" by (simp add: encode_frame_Inr)
  show ?case using Cons f
    by (simp add: parse_frame max_uint32_def option.map_comp comp_def case_prod_unfold)
qed (simp add: option.map_ident case_prod_unfold)

lemma end_frames_ok:
  assumes "frame_live limit d"
  shows "snd (end_frames d) = Inr () \<longleftrightarrow> pending d = []"
proof (cases "expected d")
  case None
  then show ?thesis using assms by (auto simp: end_frames_def frame_live_def frames_ok_def pending_def)
next
  case (Some e)
  then have "length (pending d) \<noteq> 0" by (simp add: pending_def)
  then show ?thesis using assms Some by (auto simp: end_frames_def frame_live_def)
qed

text \<open>
  Round trip over a transport that cuts the bytes anywhere: the frames that were encoded come out
  of the decoder, in order, and the end of the stream is accepted; a stream that ends inside a frame
  is reported instead.
\<close>

theorem frame_roundtrip:
  assumes "list_all2 (\<lambda>p f. encode_frame p = Inr f) payloads wire"
    and "list_all (\<lambda>p. length p \<le> limit) payloads" and "limit \<le> max_uint32"
    and "concat chunks = concat wire @ partial" and "parse_frames limit partial = Some ([], partial)"
  shows "\<exists>d. push_chunks push (new_frame_decoder limit) chunks = Some (d, Inr payloads) \<and>
    (snd (end_frames d) = Inr () \<longleftrightarrow> partial = [])"
proof -
  have "parse_frames limit (pending (new_frame_decoder limit) @ concat chunks) = Some (payloads, partial)"
    using parse_encoded [OF assms(1-3), of partial] assms(4,5) by (simp add: new_frame_live(2))
  from frames.chunks_parse [OF new_frame_live(1) [OF assms(3)] this] show ?thesis
    using end_frames_ok by blast
qed

theorem frame_roundtrip_witness:
  "\<exists>d. push_chunks push (new_frame_decoder 16) [[0, 0, 0], [2, 7], [8, 0, 0]] = Some (d, Inr [[7, 8]]) \<and>
    (snd (end_frames d) = Inr () \<longleftrightarrow> [0, 0] = ([] :: byte list))"
  by (rule frame_roundtrip [of _ "[[0, 0, 0, 2, 7, 8]]"])
    (simp_all add: encode_frame_def max_uint32_def parse_short)

text \<open>
  A decoder that has failed or ended stays so: every later \<open>push\<close> and \<open>end\<close> is an error and
  changes nothing, and no frame comes out of it any more.
\<close>

theorem frame_decoder_absorbing:
  "dstate d \<noteq> DOpen \<Longrightarrow>
    (\<exists>e. push d chunk = Some (d, Inl e)) \<and> (\<exists>e. end_frames d = (d, Inl e))"
  by (cases "dstate d") (auto simp: push_def end_frames_def)

theorem frame_decoder_absorbing_witness:
  "(\<exists>e. push (fail (new_frame_decoder 1)) [0] = Some (fail (new_frame_decoder 1), Inl e)) \<and>
   (\<exists>e. end_frames (fail (new_frame_decoder 1)) = (fail (new_frame_decoder 1), Inl e))"
  by (rule frame_decoder_absorbing) (simp add: fail_def)

end
