(* ===== verification/Protocol.thy ===== *)
theory Protocol
  imports Framing
begin

text \<open>
  \<open>packages/protocol/src/codec.ts\<close>: messages are validated, encoded as CBOR and framed on the way
  out; \<open>ValidatedMessageDecoder\<close> undoes it on arbitrary chunks. The schema check of the
  \<open>typebox\<close> package is the argument \<open>check\<close>; \<open>isJsonValue\<close> of \<open>chord/src/json.ts\<close> is modelled.
\<close>

section \<open>Definitions\<close>

datatype protocol_error = ProtocolValidationError string | ProtocolRangeError string

text \<open>
  \<open>check(value, ancestors, depth)\<close> of \<open>chord/src/json.ts\<close>. A hole of an array has no property
  descriptor, \<open>undefined\<close> fails the last test; a tree has no cycle for \<open>ancestors\<close> to find.
\<close>

fun is_json :: "nat \<Rightarrow> cbor \<Rightarrow> bool" where
  "is_json depth (CArr xs) = (depth \<le> 512 \<and> list_all (is_json (Suc depth)) xs)"
| "is_json depth (CObj symbols kvs) =
     (depth \<le> 512 \<and> \<not> symbols \<and> list_all (\<lambda>kv. is_json (Suc depth) (snd kv)) kvs)"
| "is_json depth (CNum n) = (depth \<le> 512 \<and> (case n of NInt _ \<Rightarrow> True | NFloat b \<Rightarrow> float_finite b))"
| "is_json depth v = (depth \<le> 512 \<and> v \<noteq> CUndef \<and> v \<noteq> COther \<and> (\<forall>bs. v \<noteq> CBytes bs))"

definition is_json_value :: "cbor \<Rightarrow> bool" where
  "is_json_value v = is_json 0 v"

definition bounded_error_message :: "string \<Rightarrow> string" where
  "bounded_error_message msg = (if length msg \<le> 500 then msg else take 497 msg @ ''...'')"

fun cbor_message :: "cbor_error \<Rightarrow> string" where
  "cbor_message (CborError m) = m"
| "cbor_message (RangeError m) = m"
| "cbor_message Diverges = []"

fun frame_message :: "frame_error \<Rightarrow> string" where
  "frame_message (FrameError m) = m"
| "frame_message (FrameRange m) = m"

text \<open>\<open>parseClientMessage\<close> and \<open>parseServerMessage\<close> differ in the schema only.\<close>

definition parse_message :: "(cbor \<Rightarrow> bool) \<Rightarrow> cbor \<Rightarrow> protocol_error + cbor" where
  "parse_message check v = (if check v \<and> is_json_value v then Inr v
     else Inl (ProtocolValidationError ''Invalid protocol message''))"

definition byte_options :: "num option \<Rightarrow> cbor_options" where
  "byte_options opt = \<lparr>opt_bytes = Some (or_default opt default_max_frame_length), opt_items = None,
     opt_depth = None\<rparr>"

definition encode_protocol_message :: "(cbor \<Rightarrow> bool) \<Rightarrow> num option \<Rightarrow> cbor \<Rightarrow> protocol_error + byte list" where
  "encode_protocol_message check opt v = rbind (parse_message check v) (\<lambda>validated.
     case encode_cbor (byte_options opt) validated of
       Inl e \<Rightarrow> Inl (ProtocolValidationError (bounded_error_message (cbor_message e)))
     | Inr payload \<Rightarrow> (case encode_frame payload of
           Inl e \<Rightarrow> Inl (ProtocolValidationError (bounded_error_message (frame_message e)))
         | Inr bs \<Rightarrow> Inr bs))"

record message_decoder =
  mfailed :: bool
  mframes :: frame_decoder
  mlimit :: "num option"

definition new_message_decoder :: "num option \<Rightarrow> protocol_error + message_decoder" where
  "new_message_decoder opt = (case resolve_max_frame_length opt of
     Inl e \<Rightarrow> Inl (ProtocolRangeError (frame_message e))
   | Inr limit \<Rightarrow> Inr \<lparr>mfailed = False, mframes = new_frame_decoder limit, mlimit = opt\<rparr>)"

text \<open>One turn of the loop over frames: decode the payload, validate the value.\<close>

definition decode_message :: "(cbor \<Rightarrow> bool) \<Rightarrow> num option \<Rightarrow> byte list \<Rightarrow> protocol_error + cbor" where
  "decode_message check opt payload = (case decode_cbor (byte_options opt) payload of
     Inl e \<Rightarrow> Inl (ProtocolValidationError (bounded_error_message (cbor_message e)))
   | Inr v \<Rightarrow> parse_message check v)"

definition push_message ::
    "(cbor \<Rightarrow> bool) \<Rightarrow> message_decoder \<Rightarrow> byte list \<Rightarrow> (message_decoder \<times> (protocol_error + cbor list)) option" where
  "push_message check d chunk =
    (if mfailed d then Some (d, Inl (ProtocolValidationError ''message decoder has failed''))
     else (case push (mframes d) chunk of
       None \<Rightarrow> None
     | Some (f, Inl e) \<Rightarrow> Some (d\<lparr>mframes := f, mfailed := True\<rparr>,
         Inl (ProtocolValidationError (bounded_error_message (frame_message e))))
     | Some (f, Inr payloads) \<Rightarrow> (case rmap (decode_message check (mlimit d)) payloads of
           Inl e \<Rightarrow> Some (d\<lparr>mframes := f, mfailed := True\<rparr>, Inl e)
         | Inr msgs \<Rightarrow> Some (d\<lparr>mframes := f\<rparr>, Inr msgs))))"

definition end_messages :: "message_decoder \<Rightarrow> message_decoder \<times> (protocol_error + unit)" where
  "end_messages d =
    (if mfailed d then (d, Inl (ProtocolValidationError ''message decoder has failed''))
     else (case end_frames (mframes d) of
       (f, Inl e) \<Rightarrow> (d\<lparr>mframes := f, mfailed := True\<rparr>,
         Inl (ProtocolValidationError (bounded_error_message (frame_message e))))
     | (f, Inr _) \<Rightarrow> (d\<lparr>mframes := f\<rparr>, Inr ())))"

definition protocol_version :: int where
  "protocol_version = 8"

definition is_supported_protocol_version :: "num \<Rightarrow> bool" where
  "is_supported_protocol_version v = (v = NInt protocol_version)"

section \<open>The message decoder as an incremental decoder\<close>

definition parse_messages ::
    "(cbor \<Rightarrow> bool) \<Rightarrow> num option \<Rightarrow> nat \<Rightarrow> byte list \<Rightarrow> (cbor list \<times> byte list) option" where
  "parse_messages check opt limit bs = (case parse_frames limit bs of
     None \<Rightarrow> None
   | Some (payloads, rest) \<Rightarrow> (case rmap (decode_message check opt) payloads of
       Inl _ \<Rightarrow> None | Inr msgs \<Rightarrow> Some (msgs, rest)))"

definition message_live :: "num option \<Rightarrow> nat \<Rightarrow> message_decoder \<Rightarrow> bool" where
  "message_live opt limit d \<longleftrightarrow> \<not> mfailed d \<and> mlimit d = opt \<and> frame_live limit (mframes d)"

interpretation messages: incremental "push_message check" "\<lambda>d. pending (mframes d)"
  "message_live opt limit" "parse_messages check opt limit" for check opt limit
proof unfold_locales
  show "\<exists>d'. push_message check d c = Some (d', Inr ms) \<and> message_live opt limit d' \<and> pending (mframes d') = rest"
    if live: "message_live opt limit d"
      and parse: "parse_messages check opt limit (pending (mframes d) @ c) = Some (ms, rest)"
    for d c ms rest
  proof -
    obtain fs where fs: "parse_frames limit (pending (mframes d) @ c) = Some (fs, rest)"
      "rmap (decode_message check opt) fs = Inr ms"
      using parse by (auto simp: parse_messages_def split: option.splits sum.splits)
    have f: "frame_live limit (mframes d)" using live by (simp add: message_live_def)
    obtain f' where "push (mframes d) c = Some (f', Inr fs)" "frame_live limit f'" "pending f' = rest"
      using frames.feed_parses [OF f fs(1)] by blast
    then show ?thesis using live fs(2) by (simp add: push_message_def message_live_def)
  qed
  show "\<exists>d' e. push_message check d c = Some (d', Inl e)"
    if live: "message_live opt limit d"
      and parse: "parse_messages check opt limit (pending (mframes d) @ c) = None" for d c
  proof -
    have f: "frame_live limit (mframes d)" using live by (simp add: message_live_def)
    show ?thesis
    proof (cases "parse_frames limit (pending (mframes d) @ c)")
      case None
      then show ?thesis using frames.feed_fails [OF f None] live
        by (auto simp: push_message_def message_live_def)
    next
      case (Some p)
      then obtain fs rest e where "parse_frames limit (pending (mframes d) @ c) = Some (fs, rest)"
        "rmap (decode_message check opt) fs = Inl e"
        using parse by (cases p) (auto simp: parse_messages_def split: sum.splits)
      then show ?thesis using frames.feed_parses [OF f] live
        by (fastforce simp: push_message_def message_live_def)
    qed
  qed
  show "parse_messages check opt limit (pending (mframes d)) = Some ([], pending (mframes d))"
    if "message_live opt limit d" for d
    using that frames.parse_held by (simp add: message_live_def parse_messages_def)
  show "parse_messages check opt limit (bs @ cs) =
      map_option (\<lambda>(gs, r). (ms @ gs, r)) (parse_messages check opt limit (rest @ cs))"
    if p: "parse_messages check opt limit bs = Some (ms, rest)" for bs ms rest cs
  proof -
    obtain fs where fs: "parse_frames limit bs = Some (fs, rest)" "rmap (decode_message check opt) fs = Inr ms"
      using p by (auto simp: parse_messages_def split: option.splits sum.splits)
    show ?thesis using parse_frames_more [OF fs(1), of cs] fs(2)
      by (auto simp: parse_messages_def rmap_append split: option.splits sum.splits)
  qed
  show "parse_messages check opt limit (bs @ cs) = None" if p: "parse_messages check opt limit bs = None" for bs cs
  proof (cases "parse_frames limit bs")
    case None
    then show ?thesis by (simp add: parse_messages_def parse_frames_stops)
  next
    case (Some pr)
    then obtain fs rest e where f: "parse_frames limit bs = Some (fs, rest)"
      "rmap (decode_message check opt) fs = Inl e"
      using p by (cases pr) (auto simp: parse_messages_def split: sum.splits)
    show ?thesis using parse_frames_more [OF f(1), of cs] f(2)
      by (auto simp: parse_messages_def rmap_append split: option.splits sum.splits)
  qed
qed

section \<open>Messages over a transport\<close>

lemma is_json_defined: "is_json depth v \<Longrightarrow> defined v = v \<and> v \<noteq> CUndef"
proof (induction depth v rule: is_json.induct)
  case (1 depth xs)
  then have "map defined xs = xs" by (intro map_idI) (auto simp: list_all_iff)
  then show ?case by simp
next
  case (2 depth symbols kvs)
  have each: "defined (snd kv) = snd kv \<and> snd kv \<noteq> CUndef" if "kv \<in> set kvs" for kv
    using "2.IH" that "2.prems" by (auto simp: list_all_iff)
  then have "filter (\<lambda>kv. snd kv \<noteq> CUndef) kvs = kvs" by (simp add: filter_id_conv)
  moreover have "map (\<lambda>kv. (fst kv, defined (snd kv))) kvs = kvs"
    using each by (intro map_idI) simp
  ultimately show ?case by simp
qed auto

lemma new_message_live:
  assumes "new_message_decoder opt = Inr d"
  shows "message_live opt (max_frame (mframes d)) d \<and> pending (mframes d) = [] \<and>
    resolve_max_frame_length opt = Inr (max_frame (mframes d))"
proof -
  obtain limit where l: "resolve_max_frame_length opt = Inr limit"
    "d = \<lparr>mfailed = False, mframes = new_frame_decoder limit, mlimit = opt\<rparr>"
    using assms by (auto simp: new_message_decoder_def split: sum.splits)
  have "limit \<le> max_uint32"
    using l(1) by (auto simp: resolve_max_frame_length_def split: num.splits if_splits)
  then show ?thesis using l new_frame_live by (simp add: message_live_def new_frame_decoder_def)
qed

lemma byte_options_limit:
  assumes "resolve_max_frame_length opt = Inr limit" and "resolve_options (byte_options opt) = Inr lim"
  shows "max_bytes lim = limit"
  using assms by (auto simp: resolve_max_frame_length_def byte_options_def resolve_options_def or_default_def
      resolve_limit_def result_simps split: num.splits if_splits option.splits)

lemma encoded_message:
  assumes "encode_protocol_message check opt v = Inr frame" and "js_value v"
    and "resolve_max_frame_length opt = Inr limit"
  shows "\<exists>payload. encode_frame payload = Inr frame \<and> length payload \<le> limit \<and>
    decode_message check opt payload = Inr v"
proof -
  obtain payload where p: "check v" "is_json_value v" "encode_cbor (byte_options opt) v = Inr payload"
    "encode_frame payload = Inr frame"
    using assms(1) by (auto simp: encode_protocol_message_def parse_message_def split: sum.splits if_splits)
  have "decode_cbor (byte_options opt) payload = Inr v"
    using decode_encode_cbor [OF assms(2) p(3)] is_json_defined p(2) by (simp add: is_json_value_def)
  then have "decode_message check opt payload = Inr v"
    using p(1,2) by (simp add: decode_message_def parse_message_def)
  moreover have "length payload \<le> limit"
    using p(3) byte_options_limit [OF assms(3)] by (auto simp: encode_cbor_eq)
  ultimately show ?thesis using p(4) by blast
qed

text \<open>
  C31. End to end: messages that \<open>encodeClientMessage\<close> or \<open>encodeServerMessage\<close> accepted, sent over
  a transport that cuts the bytes into any chunks, come out of the peer's decoder with the same
  options, equal and in order, and the end of the stream is accepted. For every schema check.
\<close>

theorem messages_roundtrip:
  assumes "new_message_decoder opt = Inr d"
    and "list_all2 (\<lambda>m frame. js_value m \<and> encode_protocol_message check opt m = Inr frame) msgs wire"
    and "concat chunks = concat wire"
  shows "\<exists>d'. push_chunks (push_message check) d chunks = Some (d', Inr msgs) \<and> snd (end_messages d') = Inr ()"
proof -
  let ?limit = "max_frame (mframes d)"
  have live: "message_live opt ?limit d" "pending (mframes d) = []" "resolve_max_frame_length opt = Inr ?limit"
    using new_message_live [OF assms(1)] by simp_all
  have lim: "?limit \<le> max_uint32"
    using live(3) by (auto simp: resolve_max_frame_length_def split: num.splits if_splits)
  have "\<exists>ps. list_all2 (\<lambda>p f. encode_frame p = Inr f) ps wire \<and> list_all (\<lambda>p. length p \<le> ?limit) ps \<and>
      rmap (decode_message check opt) ps = Inr msgs"
    using assms(2)
  proof (induction msgs wire rule: list_all2_induct)
    case (Cons m msgs f wire)
    then obtain ps where ps: "list_all2 (\<lambda>p f. encode_frame p = Inr f) ps wire"
      "list_all (\<lambda>p. length p \<le> ?limit) ps" "rmap (decode_message check opt) ps = Inr msgs" by blast
    obtain p where "encode_frame p = Inr f" "length p \<le> ?limit" "decode_message check opt p = Inr m"
      using encoded_message [OF _ _ live(3)] Cons.hyps by blast
    then show ?case using ps by (intro exI [of _ "p # ps"]) simp
  qed simp
  then obtain ps where ps: "list_all2 (\<lambda>p f. encode_frame p = Inr f) ps wire"
    "list_all (\<lambda>p. length p \<le> ?limit) ps" "rmap (decode_message check opt) ps = Inr msgs" by blast
  have "parse_messages check opt ?limit (pending (mframes d) @ concat chunks) = Some (msgs, [])"
    using parse_encoded [OF ps(1,2) lim, of "[]"] ps(3) assms(3) live(2)
    by (simp add: parse_messages_def parse_short)
  from messages.chunks_parse [OF live(1) this] obtain d' where
    d': "push_chunks (push_message check) d chunks = Some (d', Inr msgs)" "message_live opt ?limit d'"
    "pending (mframes d') = []" by blast
  then have "snd (end_frames (mframes d')) = Inr ()" using end_frames_ok [of ?limit "mframes d'"] by (simp add: message_live_def)
  then have "snd (end_messages d') = Inr ()"
    using d'(2) by (cases "end_frames (mframes d')") (simp add: end_messages_def message_live_def)
  then show ?thesis using d'(1) by blast
qed

theorem messages_roundtrip_witness:
  "\<exists>d'. push_chunks (push_message (\<lambda>v. v = CNull)) \<lparr>mfailed = False, mframes = new_frame_decoder 64, mlimit = Some (NInt 64)\<rparr>
      [[0, 0], [0, 1, 0xF6, 0], [0, 0, 1, 0xF6]] = Some (d', Inr [CNull, CNull]) \<and> snd (end_messages d') = Inr ()"
proof (rule messages_roundtrip [of "Some (NInt 64)" _ _ _ "[[0, 0, 0, 1, 0xF6], [0, 0, 0, 1, 0xF6]]"])
  have "encode_cbor (byte_options (Some (NInt 64))) CNull = Inr [0xF6]"
    by (simp add: encode_cbor_eq resolve_options_def byte_options_def or_default_def resolve_limit_def
        safe_int_def max_safe_def max_uint32_def encodable.simps)
  then have "encode_protocol_message (\<lambda>v. v = CNull) (Some (NInt 64)) CNull = Inr [0, 0, 0, 1, 0xF6]"
    by (simp add: encode_protocol_message_def parse_message_def is_json_value_def encode_frame_def max_uint32_def)
  then show "list_all2 (\<lambda>m frame. js_value m \<and>
      encode_protocol_message (\<lambda>v. v = CNull) (Some (NInt 64)) m = Inr frame) [CNull, CNull]
      [[0, 0, 0, 1, 0xF6], [0, 0, 0, 1, 0xF6]]" by simp
qed (simp_all add: new_message_decoder_def resolve_max_frame_length_def or_default_def safe_int_def
    max_safe_def max_uint32_def)

lemma decode_message_valid: "decode_message check opt p = Inr v \<Longrightarrow> check v \<and> is_json_value v"
  by (auto simp: decode_message_def parse_message_def split: sum.splits if_splits)

text \<open>
  Whatever arrives, a message the decoder hands out has passed the schema check and is plain
  JSON: no byte string, no \<open>undefined\<close>, only finite numbers.
\<close>

theorem messages_valid:
  assumes "push_message check d chunk = Some (d', Inr msgs)"
  shows "list_all (\<lambda>m. check m \<and> is_json_value m) msgs"
proof -
  obtain ps where "rmap (decode_message check (mlimit d)) ps = Inr msgs"
    using assms by (auto simp: push_message_def split: if_splits option.splits sum.splits)
  then have "list_all2 (\<lambda>p m. decode_message check (mlimit d) p = Inr m) ps msgs"
    by (simp add: rmap_eq_Inr_list_all2)
  then show ?thesis by (induction rule: list_all2_induct) (auto dest: decode_message_valid)
qed

theorem messages_valid_witness:
  "list_all (\<lambda>m. (\<lambda>_. True) m \<and> is_json_value m) ([] :: cbor list)"
  by (rule messages_valid [of "\<lambda>_. True"
      "\<lparr>mfailed = False, mframes = new_frame_decoder 64, mlimit = None\<rparr>" "[]"
      "\<lparr>mfailed = False, mframes = new_frame_decoder 64, mlimit = None\<rparr>"])
    (simp add: push_message_def push_def new_frame_decoder_def push_loop.simps)

text \<open>
  An error is final: after a push or an end that failed, every further push and end of the
  message decoder fails and leaves it unchanged.
\<close>

theorem message_decoder_absorbing:
  assumes "push_message check d chunk = Some (d', Inl e)"
  shows "(\<exists>e. push_message check d' chunk' = Some (d', Inl e)) \<and> (\<exists>e. end_messages d' = (d', Inl e))"
proof -
  have "mfailed d'"
    using assms by (auto simp: push_message_def split: if_splits option.splits sum.splits)
  then show ?thesis by (simp add: push_message_def end_messages_def)
qed

theorem message_decoder_absorbing_witness:
  "(\<exists>e. push_message (\<lambda>_. True) \<lparr>mfailed = True, mframes = new_frame_decoder 64, mlimit = None\<rparr> [1] =
      Some (\<lparr>mfailed = True, mframes = new_frame_decoder 64, mlimit = None\<rparr>, Inl e)) \<and>
   (\<exists>e. end_messages \<lparr>mfailed = True, mframes = new_frame_decoder 64, mlimit = None\<rparr> =
      (\<lparr>mfailed = True, mframes = new_frame_decoder 64, mlimit = None\<rparr>, Inl e))"
  by (rule message_decoder_absorbing [of _
      "\<lparr>mfailed = True, mframes = new_frame_decoder 64, mlimit = None\<rparr>" "[0]" _
      "ProtocolValidationError ''message decoder has failed''"]) (simp add: push_message_def)

end
