(* ===== verification/SessionTypes.thy ===== *)
theory SessionTypes
  imports Json "HOL-Library.Sublist"
begin

text \<open>
  The data of a session, \<open>packages/agent/src/harness/session\<close>: stored addresses and writes
  (\<open>values.ts\<close>), entries, usage rows and statistics (\<open>types.ts\<close>, \<open>utils/usage.ts\<close>), committed
  writes and their validation (\<open>commit.ts\<close>). Stored payloads are JSON values. The token and cost
  numbers of usage are of any type with a zero and an addition, so nothing is assumed about rounding.
\<close>

section \<open>Stored addresses\<close>

datatype storage_error =
    BadAddress string
  | BadListLimit
  | NonMonotonicSeq int
  | DuplicateId string
  | MissingParent string
  | UnknownBranchStart string
  | CorruptBranch
  | UnknownSourceBranch string
  | CorruptSourceBranch json
  | ForkEntryNotOnBranch json
  | UnknownReservedNamespace string
  | NotALane string
  | BadHighWaterMark

record address =
  namespace :: string
  akey :: string

definition nul :: char where
  "nul = CHR 0x00"

definition validate_address :: "string \<Rightarrow> string \<Rightarrow> storage_error + unit" where
  "validate_address ns k =
    (if ns = [] then Inl (BadAddress ''Value namespace must not be empty'')
     else if nul \<in> set ns then Inl (BadAddress ''Value namespace must not contain NUL'')
     else if nul \<in> set k then Inl (BadAddress ''Value key must not contain NUL'')
     else Inr ())"

text \<open>\<open>value(namespace, key)\<close> and \<open>list(namespace, key)\<close>; the kind is kept by where they are used.\<close>

definition stored_address :: "string \<Rightarrow> string \<Rightarrow> storage_error + address" where
  "stored_address ns k = rbind (validate_address ns k) (\<lambda>_. Inr \<lparr>namespace = ns, akey = k\<rparr>)"

definition branch_tip :: "string \<Rightarrow> address" where
  "branch_tip b = \<lparr>namespace = ''pi.branch.tip'', akey = b\<rparr>"

definition lane_config :: "string \<Rightarrow> address" where
  "lane_config b = \<lparr>namespace = ''pi.lane.config'', akey = b\<rparr>"

definition lane_state :: "string \<Rightarrow> address" where
  "lane_state b = \<lparr>namespace = ''pi.lane.state'', akey = b\<rparr>"

definition entry_label :: "string \<Rightarrow> address" where
  "entry_label i = \<lparr>namespace = ''pi.entry.label'', akey = i\<rparr>"

definition session_name :: address where
  "session_name = \<lparr>namespace = ''pi.session.name'', akey = []\<rparr>"

record stored_value =
  saddress :: address
  svalue :: json
  sseq :: int

record list_element =
  lseq :: int
  lvalue :: json

datatype scan_order = Asc | Desc

record list_read_options =
  lcursor :: "int option"
  lorder :: "scan_order option"
  llimit :: "rat option"

definition resolve_list_read_options ::
    "list_read_options \<Rightarrow> storage_error + int option \<times> scan_order \<times> nat" where
  "resolve_list_read_options opts =
    (let requested = (case llimit opts of None \<Rightarrow> 1000 | Some r \<Rightarrow> r) in
     case rat_nat requested of
       None \<Rightarrow> Inl BadListLimit
     | Some n \<Rightarrow>
         if n = 0 \<or> 9007199254740991 < n then Inl BadListLimit
         else Inr (lcursor opts, case lorder opts of None \<Rightarrow> Asc | Some ord \<Rightarrow> ord, min n 10000))"

section \<open>Usage\<close>

record 'n cost =
  cinput :: 'n
  coutput :: 'n
  ccache_read :: 'n
  ccache_write :: 'n
  ctotal :: 'n

record 'n usage =
  uinput :: 'n
  uoutput :: 'n
  cache_read :: 'n
  cache_write :: 'n
  cache_write_1h :: "'n option"
  reasoning :: "'n option"
  total_tokens :: 'n
  cost_of :: "'n cost"

definition empty_usage :: "'n::zero usage" where
  "empty_usage = \<lparr>uinput = 0, uoutput = 0, cache_read = 0, cache_write = 0, cache_write_1h = None,
     reasoning = None, total_tokens = 0,
     cost_of = \<lparr>cinput = 0, coutput = 0, ccache_read = 0, ccache_write = 0, ctotal = 0\<rparr>\<rparr>"

text \<open>A field that is only reported by some providers stays absent while neither side has it.\<close>

definition add_optional :: "'n::{zero,plus} option \<Rightarrow> 'n option \<Rightarrow> 'n option" where
  "add_optional a b = (if a = None \<and> b = None then None
     else Some ((case a of None \<Rightarrow> 0 | Some x \<Rightarrow> x) + (case b of None \<Rightarrow> 0 | Some y \<Rightarrow> y)))"

definition add_usage :: "'n::{zero,plus} usage \<Rightarrow> 'n usage \<Rightarrow> 'n usage" where
  "add_usage l r = \<lparr>uinput = uinput l + uinput r, uoutput = uoutput l + uoutput r,
     cache_read = cache_read l + cache_read r, cache_write = cache_write l + cache_write r,
     cache_write_1h = add_optional (cache_write_1h l) (cache_write_1h r),
     reasoning = add_optional (reasoning l) (reasoning r),
     total_tokens = total_tokens l + total_tokens r,
     cost_of = \<lparr>cinput = cinput (cost_of l) + cinput (cost_of r),
       coutput = coutput (cost_of l) + coutput (cost_of r),
       ccache_read = ccache_read (cost_of l) + ccache_read (cost_of r),
       ccache_write = ccache_write (cost_of l) + ccache_write (cost_of r),
       ctotal = ctotal (cost_of l) + ctotal (cost_of r)\<rparr>\<rparr>"

section \<open>Entries and usage rows\<close>

datatype stop_reason = SPending | SStop | SLength | SToolUse | SError | SAborted | SDeferred

text \<open>A message: its role, the stop reason an assistant message has, and everything else.\<close>

record agent_message =
  role :: string
  stop :: "stop_reason option"
  content :: json

datatype 'n body =
    Message agent_message bool
  | Compaction string "agent_message list" 'n "json option" "'n usage option" bool
  | BranchSummary "string option" string "json option" "'n usage option" bool
  | Custom "json option"

datatype entry_type = TMessage | TCompaction | TBranchSummary | TCustom

fun body_type :: "'n body \<Rightarrow> entry_type" where
  "body_type (Message _ _) = TMessage"
| "body_type (Compaction _ _ _ _ _ _) = TCompaction"
| "body_type (BranchSummary _ _ _ _ _) = TBranchSummary"
| "body_type (Custom _) = TCustom"

text \<open>\<open>NewEntry\<close> and, with the fields storage assigns, \<open>Entry\<close>.\<close>

record 'n new_entry =
  eid :: string
  parent_id :: "string option"
  custom_type :: "string option"
  body :: "'n body"

record 'n entry = "'n new_entry" +
  seq :: int
  timestamp :: int

abbreviation etype :: "('n, 'z) new_entry_scheme \<Rightarrow> entry_type" where
  "etype e \<equiv> body_type (body e)"

record 'n new_usage =
  uid :: string
  row_usage :: "'n usage"
  uentry :: "string option"
  adjustment :: bool
  udetails :: "json option"

record 'n usage_row = "'n new_usage" +
  useq :: int

record 'n session_stats =
  message_count :: nat
  stats_usage :: "'n usage"

section \<open>Writes\<close>

datatype 'n new_write =
    WEntry "'n new_entry"
  | WUsage "'n new_usage"
  | WValueSet string string json
  | WValueDelete string string
  | WListAppend string string json
  | WListDelete string string

datatype 'n committed =
    CEntry "'n entry"
  | CUsage "'n usage_row"
  | CValueSet int string string json
  | CValueDelete int string string
  | CListAppend int string string json
  | CListDelete int string string

fun committed_seq :: "'n committed \<Rightarrow> int" where
  "committed_seq (CEntry e) = seq e"
| "committed_seq (CUsage u) = useq u"
| "committed_seq (CValueSet s _ _ _) = s"
| "committed_seq (CValueDelete s _ _) = s"
| "committed_seq (CListAppend s _ _ _) = s"
| "committed_seq (CListDelete s _ _) = s"

definition set_value :: "address \<Rightarrow> json \<Rightarrow> 'n new_write" where
  "set_value a v = WValueSet (namespace a) (akey a) v"

definition delete_value :: "address \<Rightarrow> 'n new_write" where
  "delete_value a = WValueDelete (namespace a) (akey a)"

definition append_list :: "address \<Rightarrow> json \<Rightarrow> 'n new_write" where
  "append_list a v = WListAppend (namespace a) (akey a) v"

definition delete_list :: "address \<Rightarrow> 'n new_write" where
  "delete_list a = WListDelete (namespace a) (akey a)"

text \<open>\<open>materializeCommittedEntry\<close>, the same spread \<open>commitWrite\<close> makes of an entry.\<close>

definition materialize :: "'n new_entry \<Rightarrow> int \<Rightarrow> int \<Rightarrow> 'n entry" where
  "materialize e s ts = new_entry.extend e (entry.fields s ts)"

fun commit_write :: "'n new_write \<Rightarrow> int \<Rightarrow> int \<Rightarrow> 'n committed" where
  "commit_write (WEntry e) s ts = CEntry (materialize e s ts)"
| "commit_write (WUsage r) s ts = CUsage (new_usage.extend r (usage_row.fields s))"
| "commit_write (WValueSet ns k v) s ts = CValueSet s ns k v"
| "commit_write (WValueDelete ns k) s ts = CValueDelete s ns k"
| "commit_write (WListAppend ns k v) s ts = CListAppend s ns k v"
| "commit_write (WListDelete ns k) s ts = CListDelete s ns k"

fun commit_writes :: "'n new_write list \<Rightarrow> int \<Rightarrow> int \<Rightarrow> 'n committed list" where
  "commit_writes [] s ts = []"
| "commit_writes (w # ws) s ts = commit_write w s ts # commit_writes ws (s + 1) ts"

record 'n prepared_commit =
  pwrites :: "'n committed list"
  first_seq :: int
  seqs :: "int list"
  ptimestamp :: int

definition prepare_storage_commit :: "'n new_write list \<Rightarrow> int \<Rightarrow> int \<Rightarrow> 'n prepared_commit" where
  "prepare_storage_commit ws first ts = (let cs = commit_writes ws first ts in
     \<lparr>pwrites = cs, first_seq = first, seqs = map committed_seq cs, ptimestamp = ts\<rparr>)"

text \<open>
  The loop of \<open>validateCommittedWrites\<close>: \<open>ids\<close> and \<open>entry_ids\<close> are the ids this transaction has
  inserted so far, \<open>has_id\<close> and \<open>has_entry\<close> what the state already holds.
\<close>

definition parent_missing :: "(string \<Rightarrow> bool) \<Rightarrow> string set \<Rightarrow> 'n entry \<Rightarrow> bool" where
  "parent_missing has_entry entry_ids e = (case parent_id e of
     None \<Rightarrow> False | Some p \<Rightarrow> \<not> has_entry p \<and> p \<notin> entry_ids)"

fun validate_writes ::
    "(string \<Rightarrow> bool) \<Rightarrow> (string \<Rightarrow> bool) \<Rightarrow> int \<Rightarrow> string set \<Rightarrow> string set \<Rightarrow> 'n committed list \<Rightarrow> storage_error + unit" where
  "validate_writes has_id has_entry previous ids entry_ids [] = Inr ()"
| "validate_writes has_id has_entry previous ids entry_ids (w # ws) =
    (if committed_seq w \<le> previous then Inl (NonMonotonicSeq (committed_seq w))
     else (case w of
       CEntry e \<Rightarrow>
         if has_id (eid e) \<or> eid e \<in> ids then Inl (DuplicateId (eid e))
         else if parent_missing has_entry entry_ids e then Inl (MissingParent (the (parent_id e)))
         else validate_writes has_id has_entry (seq e) (insert (eid e) ids) (insert (eid e) entry_ids) ws
     | CUsage u \<Rightarrow>
         if has_id (uid u) \<or> uid u \<in> ids then Inl (DuplicateId (uid u))
         else validate_writes has_id has_entry (useq u) (insert (uid u) ids) entry_ids ws
     | _ \<Rightarrow> validate_writes has_id has_entry (committed_seq w) ids entry_ids ws))"

definition validate_committed_writes ::
    "'n committed list \<Rightarrow> int \<Rightarrow> (string \<Rightarrow> bool) \<Rightarrow> (string \<Rightarrow> bool) \<Rightarrow> storage_error + unit" where
  "validate_committed_writes ws first has_id has_entry =
     validate_writes has_id has_entry (first - 1) {} {} ws"

lemma materialize_simps [simp]:
  "eid (materialize e s ts) = eid e" "parent_id (materialize e s ts) = parent_id e"
  "custom_type (materialize e s ts) = custom_type e" "body (materialize e s ts) = body e"
  "seq (materialize e s ts) = s" "timestamp (materialize e s ts) = ts"
  by (simp_all add: materialize_def new_entry.defs entry.defs)

lemma commit_write_seq [simp]: "committed_seq (commit_write w s ts) = s"
  by (cases w) (simp_all add: new_usage.defs usage_row.defs)

lemma commit_writes_seqs: "map committed_seq (commit_writes ws s ts) = map (\<lambda>i. s + int i) [0..<length ws]"
proof (induction ws arbitrary: s)
  case (Cons w ws)
  have "map (\<lambda>i. s + 1 + int i) [0..<length ws] = map (\<lambda>i. s + int (Suc i)) [0..<length ws]"
    by (simp add: ac_simps)
  then show ?case using Cons [of "s + 1"]
    by (simp add: upt_conv_Cons map_Suc_upt [symmetric] del: upt_Suc)
qed simp

end
