(* ===== verification/SessionState.thy ===== *)
theory SessionState
  imports SessionTypes "HOL-Library.Multiset"
begin

text \<open>
  \<open>InMemoryStorageState\<close> of \<open>session/in-memory-storage-state.ts\<close>: the materialized state of a
  session and its commit and query operations. A JavaScript \<open>Map\<close> is an own-property list kept in
  insertion order. \<open>storage_ok\<close> is the invariant of the state, which every accepted commit keeps.
\<close>

section \<open>Maps in insertion order and sorting\<close>

definition map_set :: "'k \<Rightarrow> 'v \<Rightarrow> ('k, 'v) own \<Rightarrow> ('k, 'v) own" where
  "map_set k v m = own_set (\<lambda>_. None) k v m"

lemma map_set_get [own_simps]: "own_get (map_set k v m) = (own_get m)(k \<mapsto> v)"
  by (simp add: map_set_def own_set_get)

lemma map_set_ok [own_simps, intro]: "own_ok m \<Longrightarrow> own_ok (map_set k v m)"
  by (simp add: map_set_def own_set_ok)

lemma map_set_new: "\<not> own_has m k \<Longrightarrow> map_set k v m = m @ [(k, v)]"
  by (simp add: map_set_def own_set_def own_insert_def own_before_def takeWhile_eq_all_conv [THEN iffD2])

text \<open>A stable sort by a comparator that returns a number, as \<open>Array.prototype.sort\<close>.\<close>

fun insert_by :: "('a \<Rightarrow> 'a \<Rightarrow> int) \<Rightarrow> 'a \<Rightarrow> 'a list \<Rightarrow> 'a list" where
  "insert_by cmp x [] = [x]"
| "insert_by cmp x (y # ys) = (if cmp x y \<le> 0 then x # y # ys else y # insert_by cmp x ys)"

definition sort_by :: "('a \<Rightarrow> 'a \<Rightarrow> int) \<Rightarrow> 'a list \<Rightarrow> 'a list" where
  "sort_by cmp xs = foldr (insert_by cmp) xs []"

lemma insert_by_mset [simp]: "mset (insert_by cmp x xs) = add_mset x (mset xs)"
  by (induction xs) auto

lemma insert_by_set [simp]: "set (insert_by cmp x xs) = insert x (set xs)"
  by (induction xs) auto

lemma sort_by_mset: "mset (sort_by cmp xs) = mset xs"
  by (induction xs) (simp_all add: sort_by_def)

lemma sort_by_sorted:
  assumes "\<And>x y. cmp x y \<le> 0 \<or> cmp y x \<le> 0" and "\<And>x y z. cmp x y \<le> 0 \<Longrightarrow> cmp y z \<le> 0 \<Longrightarrow> cmp x z \<le> 0"
  shows "sorted_wrt (\<lambda>x y. cmp x y \<le> 0) (sort_by cmp xs)"
proof -
  have ins: "sorted_wrt (\<lambda>x y. cmp x y \<le> 0) ys \<Longrightarrow> sorted_wrt (\<lambda>x y. cmp x y \<le> 0) (insert_by cmp x ys)" for x ys
  proof (induction ys)
    case (Cons y ys)
    show ?case
    proof (cases "cmp x y \<le> 0")
      case True
      then show ?thesis using Cons.prems assms(2) by auto
    next
      case False
      then have "cmp y x \<le> 0" using assms(1) by blast
      then show ?thesis using Cons False by simp
    qed
  qed simp
  from ins show ?thesis by (induction xs) (simp_all add: sort_by_def)
qed

section \<open>State\<close>

record 'n storage_state =
  entries :: "(string, 'n entry) own"
  entries_by_seq :: "'n entry list"
  scalar_values :: "(string, stored_value) own"
  list_values :: "(string, address \<times> list_element list) own"
  usage_rows :: "(string, 'n usage_row) own"
  stats :: "'n session_stats"
  next_seq :: int

definition empty_stats :: "'n::zero session_stats" where
  "empty_stats = \<lparr>message_count = 0, stats_usage = empty_usage\<rparr>"

definition new_storage_state :: "'n::zero storage_state" where
  "new_storage_state = \<lparr>entries = [], entries_by_seq = [], scalar_values = [], list_values = [],
     usage_rows = [], stats = empty_stats, next_seq = 1\<rparr>"

definition physical_key :: "string \<Rightarrow> string \<Rightarrow> string" where
  "physical_key ns k = ns @ nul # k"

text \<open>\<open>compareKeys\<close>: by code points, then by length.\<close>

fun compare_keys :: "string \<Rightarrow> string \<Rightarrow> int" where
  "compare_keys (a # as) (b # bs) =
    (let difference = int (of_char a) - int (of_char b) in
     if difference \<noteq> 0 then difference else compare_keys as bs)"
| "compare_keys as bs = int (length as) - int (length bs)"

section \<open>Commits\<close>

definition validate_committed :: "'n storage_state \<Rightarrow> 'n committed list \<Rightarrow> storage_error + unit" where
  "validate_committed st ws = validate_committed_writes ws (next_seq st)
     (\<lambda>i. own_has (entries st) i \<or> own_has (usage_rows st) i) (\<lambda>i. own_has (entries st) i)"

definition prepare_commit :: "'n storage_state \<Rightarrow> 'n new_write list \<Rightarrow> int \<Rightarrow> storage_error + 'n prepared_commit" where
  "prepare_commit st ws ts = (let prepared = prepare_storage_commit ws (next_seq st) ts in
     rbind (validate_committed st (pwrites prepared)) (\<lambda>_. Inr prepared))"

definition apply_value_set ::
    "'n storage_state \<Rightarrow> int \<Rightarrow> string \<Rightarrow> string \<Rightarrow> json \<Rightarrow> storage_error + 'n storage_state" where
  "apply_value_set st s ns k v = rbind (stored_address ns k) (\<lambda>a.
     Inr (st\<lparr>scalar_values := map_set (physical_key ns k) \<lparr>saddress = a, svalue = v, sseq = s\<rparr> (scalar_values st)\<rparr>))"

definition apply_list_append ::
    "'n storage_state \<Rightarrow> int \<Rightarrow> string \<Rightarrow> string \<Rightarrow> json \<Rightarrow> storage_error + 'n storage_state" where
  "apply_list_append st s ns k v =
    (let key = physical_key ns k; element = \<lparr>lseq = s, lvalue = v\<rparr> in
     case own_get (list_values st) key of
       None \<Rightarrow> rbind (stored_address ns k) (\<lambda>a. Inr (st\<lparr>list_values := map_set key (a, [element]) (list_values st)\<rparr>))
     | Some (a, elements) \<Rightarrow> Inr (st\<lparr>list_values := map_set key (a, elements @ [element]) (list_values st)\<rparr>))"

text \<open>The switch of \<open>applyValidated\<close>.\<close>

fun apply_write :: "'n::{zero,plus} storage_state \<Rightarrow> 'n committed \<Rightarrow> storage_error + 'n storage_state" where
  "apply_write st (CEntry e) = Inr (st\<lparr>entries := map_set (eid e) e (entries st),
     entries_by_seq := entries_by_seq st @ [e],
     stats := (if etype e = TMessage
       then (stats st)\<lparr>message_count := message_count (stats st) + 1\<rparr> else stats st)\<rparr>)"
| "apply_write st (CUsage u) = Inr (st\<lparr>usage_rows := map_set (uid u) u (usage_rows st),
     stats := (stats st)\<lparr>stats_usage := add_usage (stats_usage (stats st)) (row_usage u)\<rparr>\<rparr>)"
| "apply_write st (CValueSet s ns k v) = apply_value_set st s ns k v"
| "apply_write st (CValueDelete s ns k) =
     Inr (st\<lparr>scalar_values := own_del (physical_key ns k) (scalar_values st)\<rparr>)"
| "apply_write st (CListAppend s ns k v) = apply_list_append st s ns k v"
| "apply_write st (CListDelete s ns k) =
     Inr (st\<lparr>list_values := own_del (physical_key ns k) (list_values st)\<rparr>)"

text \<open>
  The loop of \<open>applyValidated\<close>: a write that throws leaves the ones before it applied, so the state
  comes back beside the result.
\<close>

fun apply_validated ::
    "'n::{zero,plus} storage_state \<Rightarrow> 'n committed list \<Rightarrow> 'n storage_state \<times> (storage_error + 'n session_stats)" where
  "apply_validated st [] = (st, Inr (stats st))"
| "apply_validated st (w # ws) = (case apply_write st w of
     Inl e \<Rightarrow> (st, Inl e)
   | Inr st' \<Rightarrow> apply_validated (st'\<lparr>next_seq := committed_seq w + 1\<rparr>) ws)"

text \<open>The body of a storage's commit: prepare, validate, apply.\<close>

definition commit_storage :: "'n::{zero,plus} storage_state \<Rightarrow> 'n new_write list \<Rightarrow> int \<Rightarrow>
    'n storage_state \<times> (storage_error + 'n prepared_commit \<times> 'n session_stats)" where
  "commit_storage st ws ts = (case prepare_commit st ws ts of
     Inl e \<Rightarrow> (st, Inl e)
   | Inr prepared \<Rightarrow> (case apply_validated st (pwrites prepared) of
       (st', r) \<Rightarrow> (st', rbind r (\<lambda>totals. Inr (prepared, totals)))))"

text \<open>\<open>replayCommitted\<close> of the JSONL storage: writes read back from a transaction line.\<close>

definition replay_committed :: "'n::{zero,plus} storage_state \<Rightarrow> 'n committed list \<Rightarrow> storage_error + 'n storage_state" where
  "replay_committed st ws = rbind (validate_committed st ws) (\<lambda>_. case apply_validated st ws of
     (st', Inl e) \<Rightarrow> Inl e | (st', Inr _) \<Rightarrow> Inr st')"

definition advance_next_seq :: "'n storage_state \<Rightarrow> int \<Rightarrow> storage_error + 'n storage_state" where
  "advance_next_seq st n = (if n < 1 \<or> 9007199254740991 < n then Inl BadHighWaterMark
     else Inr (st\<lparr>next_seq := max (next_seq st) n\<rparr>))"

section \<open>Queries\<close>

definition get_entries :: "'n storage_state \<Rightarrow> string list \<Rightarrow> (string, 'n entry) own" where
  "get_entries st is = foldl (\<lambda>found i. case own_get (entries st) i of
     None \<Rightarrow> found | Some e \<Rightarrow> map_set i e found) [] is"

definition get_value :: "'n storage_state \<Rightarrow> address \<Rightarrow> stored_value option" where
  "get_value st a = own_get (scalar_values st) (physical_key (namespace a) (akey a))"

definition scan_values :: "'n storage_state \<Rightarrow> address \<Rightarrow> stored_value list" where
  "scan_values st pre = sort_by (\<lambda>l r. compare_keys (akey (saddress l)) (akey (saddress r)))
     (filter (\<lambda>v. namespace (saddress v) = namespace pre \<and> prefix (akey pre) (akey (saddress v)))
       (map snd (scalar_values st)))"

definition read_list :: "'n storage_state \<Rightarrow> address \<Rightarrow> list_read_options \<Rightarrow> storage_error + list_element list" where
  "read_list st a opts = rbind (resolve_list_read_options opts) (\<lambda>(cursor, ord, limit).
     let elements = (case own_get (list_values st) (physical_key (namespace a) (akey a)) of
           None \<Rightarrow> [] | Some (_, els) \<Rightarrow> els);
         filtered = filter (\<lambda>x. case cursor of None \<Rightarrow> True
           | Some c \<Rightarrow> if ord = Asc then lseq x > c else lseq x < c) elements
     in Inr (take limit (if ord = Asc then filtered else rev filtered)))"

datatype branch_order = NewestFirst | OldestFirst

record branch_scan =
  start :: string
  stop_at_type :: "entry_type option"
  stop_at_id :: "string option"
  btype :: "entry_type option"
  bcustom :: "string option"
  border :: branch_order
  blimit :: "int option"
  bcursor :: "int option"

text \<open>The loop of \<open>scanBranch\<close> from an entry to the root; on a parent cycle it would not end.\<close>

partial_function (option) walk ::
    "(string \<Rightarrow> 'n entry option) \<Rightarrow> 'n entry \<Rightarrow> (storage_error + 'n entry list) option" where
  "walk get e = (case parent_id e of
     None \<Rightarrow> Some (Inr [e])
   | Some p \<Rightarrow> (case get p of
       None \<Rightarrow> Some (Inl CorruptBranch)
     | Some e' \<Rightarrow> Option.bind (walk get e') (\<lambda>r. Some (rbind r (\<lambda>es. Inr (e # es))))))"

fun until_stop :: "('a \<Rightarrow> bool) \<Rightarrow> 'a list \<Rightarrow> 'a list" where
  "until_stop P [] = []"
| "until_stop P (x # xs) = (if P x then [x] else x # until_stop P xs)"

definition matches :: "'a option \<Rightarrow> 'a \<Rightarrow> bool" where
  "matches q x \<longleftrightarrow> (case q of None \<Rightarrow> True | Some y \<Rightarrow> x = y)"

definition limited :: "int option \<Rightarrow> 'a list \<Rightarrow> 'a list" where
  "limited l xs = (case l of None \<Rightarrow> xs | Some n \<Rightarrow> take (nat n) xs)"

definition scan_branch :: "'n storage_state \<Rightarrow> branch_scan \<Rightarrow> (storage_error + 'n entry list) option" where
  "scan_branch st q = (case own_get (entries st) (start q) of
     None \<Rightarrow> Some (Inl (UnknownBranchStart (start q)))
   | Some e \<Rightarrow> Option.bind (walk (own_get (entries st)) e) (\<lambda>r. Some (rbind r (\<lambda>path.
       let ordered = (if border q = OldestFirst then rev path else path);
           stopped = until_stop (\<lambda>c. stop_at_id q = Some (eid c) \<or> stop_at_type q = Some (etype c)) ordered;
           filtered = filter (\<lambda>c. matches (btype q) (etype c) \<and>
               (case bcustom q of None \<Rightarrow> True | Some t \<Rightarrow> custom_type c = Some t) \<and>
               (case bcursor q of None \<Rightarrow> True
                | Some s \<Rightarrow> if border q = OldestFirst then seq c > s else seq c < s)) stopped
       in Inr (limited (blimit q) filtered)))))"

record 'n entry_structure =
  xid :: string
  xparent :: "string option"
  xseq :: int
  xtimestamp :: int
  xtype :: entry_type
  xcustom :: "string option"

definition scan_branch_structure ::
    "'n storage_state \<Rightarrow> branch_scan \<Rightarrow> (storage_error + 'n entry_structure list) option" where
  "scan_branch_structure st q = Option.bind (scan_branch st q) (\<lambda>r. Some (rbind r (\<lambda>es.
     Inr (map (\<lambda>e. \<lparr>xid = eid e, xparent = parent_id e, xseq = seq e, xtimestamp = timestamp e,
       xtype = etype e, xcustom = custom_type e\<rparr>) es))))"

record entry_scan =
  qtype :: "entry_type option"
  qcustom :: "string option"
  from_seq :: "int option"
  to_seq :: "int option"
  qorder :: scan_order
  qlimit :: "int option"

definition in_range :: "int option \<Rightarrow> int option \<Rightarrow> int \<Rightarrow> bool" where
  "in_range lo hi s \<longleftrightarrow> (case lo of None \<Rightarrow> True | Some a \<Rightarrow> a \<le> s) \<and> (case hi of None \<Rightarrow> True | Some b \<Rightarrow> s \<le> b)"

text \<open>The indexed loop of \<open>scanEntries\<close>: it stops as soon as \<open>limit\<close> entries are collected.\<close>

fun collect :: "('a \<Rightarrow> bool) \<Rightarrow> nat option \<Rightarrow> 'a list \<Rightarrow> 'a list" where
  "collect P limit [] = []"
| "collect P limit (x # xs) =
    (if limit = Some 0 then []
     else if P x then x # collect P (map_option (\<lambda>n. n - 1) limit) xs
     else collect P limit xs)"

definition scan_entries :: "'n storage_state \<Rightarrow> entry_scan \<Rightarrow> 'n entry list" where
  "scan_entries st q = collect (\<lambda>e. matches (qtype q) (etype e) \<and>
       (case qcustom q of None \<Rightarrow> True | Some t \<Rightarrow> custom_type e = Some t) \<and>
       in_range (from_seq q) (to_seq q) (seq e))
     (map_option nat (qlimit q))
     (if qorder q = Desc then rev (entries_by_seq st) else entries_by_seq st)"

record usage_scan =
  ufrom :: "int option"
  uto :: "int option"
  uorder :: scan_order
  ulimit :: "int option"

definition scan_usage :: "'n storage_state \<Rightarrow> usage_scan \<Rightarrow> 'n usage_row list" where
  "scan_usage st q = limited (ulimit q)
     (sort_by (\<lambda>l r. if uorder q = Desc then useq r - useq l else useq l - useq r)
       (filter (\<lambda>u. in_range (ufrom q) (uto q) (useq u)) (map snd (usage_rows st))))"

end
