(* ===== verification/SessionInvariant.thy ===== *)
theory SessionInvariant
  imports SessionState
begin

text \<open>
  What every session state keeps: \<open>storage_ok\<close>. The interface \<open>committed_log\<close> is the contract that
  \<open>validateCommittedWrites\<close> relies on, whatever backend answers its queries; the in-memory state
  interprets it.
\<close>

section \<open>The contract of a log that validated writes are applied to\<close>

fun new_ids :: "'n committed \<Rightarrow> string set" where
  "new_ids (CEntry e) = {eid e}"
| "new_ids (CUsage u) = {uid u}"
| "new_ids _ = {}"

fun new_entry_ids :: "'n committed \<Rightarrow> string set" where
  "new_entry_ids (CEntry e) = {eid e}"
| "new_entry_ids _ = {}"

fun parent_of :: "'n committed \<Rightarrow> string option" where
  "parent_of (CEntry e) = parent_id e"
| "parent_of _ = None"

locale committed_log =
  fixes has_id :: "'s \<Rightarrow> string \<Rightarrow> bool"
    and has_entry :: "'s \<Rightarrow> string \<Rightarrow> bool"
    and upcoming :: "'s \<Rightarrow> int"
    and step :: "'s \<Rightarrow> 'n committed \<Rightarrow> storage_error + 's"
    and inv :: "'s \<Rightarrow> bool"
  assumes step_keeps: "inv s \<Longrightarrow> upcoming s \<le> committed_seq w \<Longrightarrow> (\<forall>i \<in> new_ids w. \<not> has_id s i) \<Longrightarrow>
      (\<forall>p. parent_of w = Some p \<longrightarrow> has_entry s p) \<Longrightarrow> step s w = Inr s' \<Longrightarrow> inv s'"
    and step_seq: "step s w = Inr s' \<Longrightarrow> upcoming s' = committed_seq w + 1"
    and step_id: "inv s \<Longrightarrow> step s w = Inr s' \<Longrightarrow> has_id s' i \<longleftrightarrow> has_id s i \<or> i \<in> new_ids w"
    and step_entry: "inv s \<Longrightarrow> step s w = Inr s' \<Longrightarrow> has_entry s' i \<longleftrightarrow> has_entry s i \<or> i \<in> new_entry_ids w"
begin

fun run :: "'s \<Rightarrow> 'n committed list \<Rightarrow> 's \<times> (storage_error + unit)" where
  "run s [] = (s, Inr ())"
| "run s (w # ws) = (case step s w of Inl e \<Rightarrow> (s, Inl e) | Inr s' \<Rightarrow> run s' ws)"

lemma run_keeps:
  assumes "validate_writes idp entryp previous ids eids ws = Inr ()"
    and "inv s" and "upcoming s \<le> previous + 1"
    and "\<And>i. has_id s i \<longleftrightarrow> idp i \<or> i \<in> ids" and "\<And>i. has_entry s i \<longleftrightarrow> entryp i \<or> i \<in> eids"
  shows "inv (fst (run s ws))"
  using assms
proof (induction ws arbitrary: s previous ids eids)
  case (Cons w ws)
  show ?case
  proof (cases "step s w")
    case (Inr s')
    have v: "validate_writes idp entryp (committed_seq w) (new_ids w \<union> ids) (new_entry_ids w \<union> eids) ws = Inr ()"
      "previous < committed_seq w" "\<forall>i \<in> new_ids w. \<not> has_id s i" "\<forall>p. parent_of w = Some p \<longrightarrow> has_entry s p"
      using Cons.prems(1,4,5) by (cases w; auto simp: parent_missing_def split: if_splits option.splits)+
    have "inv s'" using step_keeps [OF Cons.prems(2) _ v(3,4) Inr] v(2) Cons.prems(3) by simp
    moreover have "has_id s' i \<longleftrightarrow> idp i \<or> i \<in> new_ids w \<union> ids" for i
      using step_id [OF Cons.prems(2) Inr] Cons.prems(4) by auto
    moreover have "has_entry s' i \<longleftrightarrow> entryp i \<or> i \<in> new_entry_ids w \<union> eids" for i
      using step_entry [OF Cons.prems(2) Inr] Cons.prems(5) by auto
    ultimately show ?thesis using Cons.IH [OF v(1)] step_seq [OF Inr] Inr by simp
  qed (simp add: Cons.prems)
qed simp

lemma validated_keeps:
  assumes "validate_committed_writes ws (upcoming s) (has_id s) (has_entry s) = Inr ()" and "inv s"
  shows "inv (fst (run s ws))"
  using run_keeps [of "has_id s" "has_entry s" "upcoming s - 1" "{}" "{}" ws s] assms
  by (simp add: validate_committed_writes_def)

end

section \<open>The invariant of the state\<close>

fun parents_ok :: "string set \<Rightarrow> 'n entry list \<Rightarrow> bool" where
  "parents_ok before [] = True"
| "parents_ok before (e # es) =
     ((\<forall>p. parent_id e = Some p \<longrightarrow> p \<in> before) \<and> parents_ok (insert (eid e) before) es)"

definition address_ok :: "address \<Rightarrow> bool" where
  "address_ok a \<longleftrightarrow> validate_address (namespace a) (akey a) = Inr ()"

definition values_ok :: "int \<Rightarrow> (string, stored_value) own \<Rightarrow> bool" where
  "values_ok bound kvs \<longleftrightarrow> own_ok kvs \<and> (\<forall>(k, v) \<in> set kvs. address_ok (saddress v) \<and> sseq v < bound \<and>
     k = physical_key (namespace (saddress v)) (akey (saddress v)))"

definition lists_ok :: "int \<Rightarrow> (string, address \<times> list_element list) own \<Rightarrow> bool" where
  "lists_ok bound kvs \<longleftrightarrow> own_ok kvs \<and> (\<forall>(k, a, els) \<in> set kvs. address_ok a \<and>
     k = physical_key (namespace a) (akey a) \<and> els \<noteq> [] \<and>
     sorted_wrt (\<lambda>x y. lseq x < lseq y) els \<and> (\<forall>x \<in> set els. lseq x < bound))"

definition entries_ok_st :: "'n storage_state \<Rightarrow> bool" where
  "entries_ok_st st \<longleftrightarrow> entries st = map (\<lambda>e. (eid e, e)) (entries_by_seq st) \<and>
     usage_rows st = map (\<lambda>u. (uid u, u)) (map snd (usage_rows st)) \<and>
     distinct (map eid (entries_by_seq st) @ map fst (usage_rows st)) \<and>
     sorted_wrt (\<lambda>a b. seq a < seq b) (entries_by_seq st) \<and> (\<forall>e \<in> set (entries_by_seq st). 1 \<le> seq e \<and> seq e < next_seq st) \<and>
     sorted_wrt (\<lambda>a b. useq a < useq b) (map snd (usage_rows st)) \<and>
     (\<forall>u \<in> snd ` set (usage_rows st). useq u < next_seq st) \<and> parents_ok {} (entries_by_seq st)"

definition totals :: "'n::{zero,plus} storage_state \<Rightarrow> 'n session_stats" where
  "totals st = \<lparr>message_count = length (filter (\<lambda>e. etype e = TMessage) (entries_by_seq st)),
     stats_usage = foldl add_usage empty_usage (map row_usage (map snd (usage_rows st)))\<rparr>"

definition storage_ok :: "'n::{zero,plus} storage_state \<Rightarrow> bool" where
  "storage_ok st \<longleftrightarrow> 1 \<le> next_seq st \<and> entries_ok_st st \<and> values_ok (next_seq st) (scalar_values st) \<and>
     lists_ok (next_seq st) (list_values st) \<and> stats st = totals st"

lemma new_storage_ok: "storage_ok new_storage_state"
  by (simp add: storage_ok_def new_storage_state_def entries_ok_st_def values_ok_def lists_ok_def
      totals_def empty_stats_def)

lemma parents_ok_append:
  "parents_ok before (es @ fs) \<longleftrightarrow> parents_ok before es \<and> parents_ok (before \<union> eid ` set es) fs"
  by (induction es arbitrary: before) auto

lemma entry_keys: "entries_ok_st st \<Longrightarrow> own_has (entries st) i \<longleftrightarrow> i \<in> eid ` set (entries_by_seq st)"
  by (simp add: entries_ok_st_def own_has_def image_image)

lemma physical_key_inj:
  assumes "nul \<notin> set ns" and "nul \<notin> set ns'" and "physical_key ns k = physical_key ns' k'"
  shows "ns = ns' \<and> k = k'"
proof -
  have "takeWhile (\<lambda>c. c \<noteq> nul) (physical_key m j) = m" if "nul \<notin> set m" for m j
    using that unfolding physical_key_def by (induction m) auto
  then have "ns = ns'" using assms by metis
  then show ?thesis using assms(3) by (simp add: physical_key_def)
qed

definition with_seq :: "'n::{zero,plus} storage_state \<Rightarrow> 'n committed \<Rightarrow> storage_error + 'n storage_state" where
  "with_seq st w = rbind (apply_write st w) (\<lambda>st'. Inr (st'\<lparr>next_seq := committed_seq w + 1\<rparr>))"

lemma map_set_entries: "\<not> own_has m k \<Longrightarrow> map_set k v m = m @ [(k, v)]"
  by (rule map_set_new)

lemma with_seq_entry:
  assumes "storage_ok st" and "next_seq st \<le> seq e" and "\<not> own_has (entries st) (eid e)"
    and "\<not> own_has (usage_rows st) (eid e)" and "\<And>p. parent_id e = Some p \<Longrightarrow> own_has (entries st) p"
    and "with_seq st (CEntry e) = Inr st'"
  shows "storage_ok st'"
proof -
  have st': "st' = st\<lparr>entries := entries st @ [(eid e, e)], entries_by_seq := entries_by_seq st @ [e],
     stats := (if etype e = TMessage
       then (stats st)\<lparr>message_count := message_count (stats st) + 1\<rparr> else stats st), next_seq := seq e + 1\<rparr>"
    using assms(3,6) by (simp add: with_seq_def map_set_entries)
  have st: "entries_ok_st st" "values_ok (next_seq st) (scalar_values st)" "lists_ok (next_seq st) (list_values st)"
    "stats st = totals st" "1 \<le> next_seq st"
    using assms(1) by (simp_all add: storage_ok_def)
  have new: "eid e \<notin> eid ` set (entries_by_seq st)" "eid e \<notin> fst ` set (usage_rows st)"
    and par: "\<And>p. parent_id e = Some p \<Longrightarrow> p \<in> eid ` set (entries_by_seq st)"
    using assms(3-5) entry_keys [OF st(1)] by (auto simp: own_has_def)
  have "entries_ok_st st'"
    using st(1,5) new par assms(2)
    by (auto simp: st' entries_ok_st_def sorted_wrt_append parents_ok_append)
  moreover have "values_ok (next_seq st') (scalar_values st')" "lists_ok (next_seq st') (list_values st')"
    using st(2,3) assms(2) by (fastforce simp: st' values_ok_def lists_ok_def)+
  moreover have "stats st' = totals st'" using st(4) by (simp add: st' totals_def)
  ultimately show ?thesis using st(5) assms(2) by (simp add: storage_ok_def st')
qed

lemma with_seq_usage:
  assumes "storage_ok st" and "next_seq st \<le> useq u" and "\<not> own_has (entries st) (uid u)"
    and "\<not> own_has (usage_rows st) (uid u)" and "with_seq st (CUsage u) = Inr st'"
  shows "storage_ok st'"
proof -
  have st': "st' = st\<lparr>usage_rows := usage_rows st @ [(uid u, u)],
     stats := (stats st)\<lparr>stats_usage := add_usage (stats_usage (stats st)) (row_usage u)\<rparr>, next_seq := useq u + 1\<rparr>"
    using assms(4,5) by (simp add: with_seq_def map_set_entries)
  have st: "entries_ok_st st" "values_ok (next_seq st) (scalar_values st)" "lists_ok (next_seq st) (list_values st)"
    "stats st = totals st" "1 \<le> next_seq st"
    using assms(1) by (simp_all add: storage_ok_def)
  have new: "uid u \<notin> eid ` set (entries_by_seq st)" "uid u \<notin> fst ` set (usage_rows st)"
    using assms(3,4) entry_keys [OF st(1)] by (auto simp: own_has_def)
  have "entries_ok_st st'"
    using st(1) new assms(2) by (auto simp: st' entries_ok_st_def sorted_wrt_append)
  moreover have "values_ok (next_seq st') (scalar_values st')" "lists_ok (next_seq st') (list_values st')"
    using st(2,3) assms(2) by (fastforce simp: st' values_ok_def lists_ok_def)+
  moreover have "stats st' = totals st'" using st(4) by (simp add: st' totals_def)
  ultimately show ?thesis using st(5) assms(2) by (simp add: storage_ok_def st')
qed

lemma map_set_values: "set (map_set k v m) \<subseteq> insert (k, v) {kv \<in> set m. fst kv \<noteq> k \<or> \<not> own_ok m}"
proof (cases "own_has m k")
  case True
  have "own_ok m \<Longrightarrow> kv \<in> set (own_update k v m) \<Longrightarrow> kv = (k, v) \<or> kv \<in> set m \<and> fst kv \<noteq> k" for kv
    by (induction m) (auto simp: own_ok_def split: if_splits)
  then have "own_ok m \<Longrightarrow> set (own_update k v m) \<subseteq> insert (k, v) {kv \<in> set m. fst kv \<noteq> k}" by blast
  then show ?thesis using True own_set_values [of "\<lambda>_. None" k v m]
    by (auto simp: map_set_def own_set_def)
next
  case False
  then show ?thesis by (auto simp: map_set_new own_has_def)
qed

lemma values_ok_set:
  assumes "values_ok b m" and "b \<le> s" and "address_ok a"
  shows "values_ok (s + 1) (map_set (physical_key (namespace a) (akey a)) \<lparr>saddress = a, svalue = v, sseq = s\<rparr> m)"
  using assms map_set_values [of "physical_key (namespace a) (akey a)" "\<lparr>saddress = a, svalue = v, sseq = s\<rparr>" m]
  by (fastforce simp: values_ok_def intro: map_set_ok)

lemma lists_ok_set:
  assumes "lists_ok b m" and "b \<le> s" and "address_ok a" and "els \<noteq> []"
    and "sorted_wrt (\<lambda>x y. lseq x < lseq y) els" and "\<forall>x \<in> set els. lseq x < s + 1"
  shows "lists_ok (s + 1) (map_set (physical_key (namespace a) (akey a)) (a, els) m)"
  using assms map_set_values [of "physical_key (namespace a) (akey a)" "(a, els)" m]
  by (fastforce simp: lists_ok_def intro: map_set_ok)

lemma values_ok_mono: "values_ok b m \<Longrightarrow> b \<le> c \<Longrightarrow> values_ok c m"
  by (fastforce simp: values_ok_def)

lemma lists_ok_mono: "lists_ok b m \<Longrightarrow> b \<le> c \<Longrightarrow> lists_ok c m"
  by (fastforce simp: lists_ok_def)

lemma values_ok_del: "values_ok b m \<Longrightarrow> values_ok b (own_del k m)"
  by (auto simp: values_ok_def own_del_def own_ok_def distinct_map_filter)

lemma lists_ok_del: "lists_ok b m \<Longrightarrow> lists_ok b (own_del k m)"
  by (auto simp: lists_ok_def own_del_def own_ok_def distinct_map_filter)

text \<open>The four kinds of writes that only touch values and lists.\<close>

lemma with_seq_data:
  assumes "storage_ok st" and "next_seq st \<le> committed_seq w" and "with_seq st w = Inr st'"
    and "new_ids w = {}"
  shows "storage_ok st' \<and> entries st' = entries st \<and> usage_rows st' = usage_rows st"
proof -
  obtain st1 where st1: "apply_write st w = Inr st1" "st' = st1\<lparr>next_seq := committed_seq w + 1\<rparr>"
    using assms(3) by (auto simp: with_seq_def result_simps)
  have st: "entries_ok_st st" "values_ok (next_seq st) (scalar_values st)" "lists_ok (next_seq st) (list_values st)"
    "stats st = totals st" "1 \<le> next_seq st"
    using assms(1) by (simp_all add: storage_ok_def)
  have up: "next_seq st \<le> committed_seq w + 1" using assms(2) by simp
  have same: "entries st1 = entries st \<and> entries_by_seq st1 = entries_by_seq st \<and> usage_rows st1 = usage_rows st \<and>
      stats st1 = stats st"
    using st1(1) assms(4) by (cases w)
      (auto simp: apply_value_set_def apply_list_append_def Let_def result_simps split: option.splits)
  have addr: "address_ok a \<and> namespace a = ns \<and> akey a = k" if "stored_address ns k = Inr a" for ns k a
    using that by (auto simp: stored_address_def address_ok_def result_simps)
  have "values_ok (committed_seq w + 1) (scalar_values st1) \<and> lists_ok (committed_seq w + 1) (list_values st1)"
  proof (cases w)
    case (CValueSet s ns k v)
    then obtain a where a: "stored_address ns k = Inr a"
      "st1 = st\<lparr>scalar_values := map_set (physical_key ns k) \<lparr>saddress = a, svalue = v, sseq = s\<rparr> (scalar_values st)\<rparr>"
      using st1(1) by (auto simp: apply_value_set_def result_simps)
    show ?thesis using values_ok_set [OF st(2), of s a v] addr [OF a(1)] a(2) CValueSet assms(2)
        lists_ok_mono [OF st(3) up] by auto
  next
    case (CListAppend s ns k v)
    let ?key = "physical_key ns k" and ?x = "\<lparr>lseq = s, lvalue = v\<rparr>"
    have s: "next_seq st \<le> s" using assms(2) CListAppend by simp
    show ?thesis
    proof (cases "own_get (list_values st) ?key")
      case None
      then obtain a where a: "stored_address ns k = Inr a"
        "st1 = st\<lparr>list_values := map_set ?key (a, [?x]) (list_values st)\<rparr>"
        using st1(1) CListAppend by (auto simp: apply_list_append_def Let_def result_simps)
      show ?thesis using lists_ok_set [OF st(3) s, of a "[?x]"] addr [OF a(1)] a(2) CListAppend
          values_ok_mono [OF st(2) up] by auto
    next
      case (Some p)
      obtain a els where p: "p = (a, els)" by fastforce
      then have m: "(?key, a, els) \<in> set (list_values st)" using Some by (auto dest: map_of_SomeD)
      then have l: "address_ok a" "?key = physical_key (namespace a) (akey a)" "els \<noteq> []"
        "sorted_wrt (\<lambda>x y. lseq x < lseq y) els" "\<forall>x \<in> set els. lseq x < next_seq st"
        using st(3) by (auto simp: lists_ok_def)
      have "lists_ok (s + 1) (map_set (physical_key (namespace a) (akey a)) (a, els @ [?x]) (list_values st))"
        using l s by (intro lists_ok_set [OF st(3) s]) (auto simp: sorted_wrt_append)
      then show ?thesis using st1(1) CListAppend Some p l(2) values_ok_mono [OF st(2) up]
        by (auto simp: apply_list_append_def Let_def)
    qed
  qed (use st1(1) assms(4) st(2,3) up values_ok_mono lists_ok_mono values_ok_del lists_ok_del in auto)
  moreover have "entries_ok_st st'"
    using st(1) same st1(2) up by (auto simp: entries_ok_st_def)
  moreover have "stats st' = totals st'" using st(4) same st1(2) by (simp add: totals_def)
  ultimately show ?thesis using same st1(2) st(5) up by (simp add: storage_ok_def)
qed

section \<open>The in-memory state keeps the contract\<close>

abbreviation id_known :: "'n storage_state \<Rightarrow> string \<Rightarrow> bool" where
  "id_known st i \<equiv> own_has (entries st) i \<or> own_has (usage_rows st) i"

lemma own_has_append [simp]: "own_has (xs @ ys) k \<longleftrightarrow> own_has xs k \<or> own_has ys k"
  by (auto simp: own_has_def)

lemma own_has_map_set: "own_has (map_set k v m) i \<longleftrightarrow> own_has m i \<or> i = k"
  by (simp add: own_has_iff_get map_set_get)

lemma with_seq_ids:
  assumes "with_seq st w = Inr st'"
  shows "id_known st' i \<longleftrightarrow> id_known st i \<or> i \<in> new_ids w"
    and "own_has (entries st') i \<longleftrightarrow> own_has (entries st) i \<or> i \<in> new_entry_ids w"
    and "next_seq st' = committed_seq w + 1"
  using assms by (cases w; auto simp: with_seq_def apply_value_set_def apply_list_append_def Let_def
      result_simps own_has_map_set split: option.splits)+

lemma with_seq_keeps:
  assumes "storage_ok st" and "next_seq st \<le> committed_seq w" and "\<forall>i \<in> new_ids w. \<not> id_known st i"
    and "\<forall>p. parent_of w = Some p \<longrightarrow> own_has (entries st) p" and "with_seq st w = Inr st'"
  shows "storage_ok st'"
proof (cases w)
  case (CEntry e)
  then show ?thesis using with_seq_entry [of st e st'] assms by simp
next
  case (CUsage u)
  then show ?thesis using with_seq_usage [of st u st'] assms by simp
qed (use with_seq_data [OF assms(1,2,5)] in simp_all)

interpretation memory_log: committed_log id_known "\<lambda>st. own_has (entries st)" next_seq with_seq storage_ok
proof unfold_locales
  fix st st' :: "'n::{zero,plus} storage_state" and w
  assume "storage_ok st" "next_seq st \<le> committed_seq w" "\<forall>i \<in> new_ids w. \<not> id_known st i"
    "\<forall>p. parent_of w = Some p \<longrightarrow> own_has (entries st) p" "with_seq st w = Inr st'"
  then show "storage_ok st'"
    by (rule with_seq_keeps)
qed (use with_seq_ids in blast)+

lemma apply_validated_run:
  "apply_validated st ws = (case memory_log.run st ws of
     (st', r) \<Rightarrow> (st', rbind r (\<lambda>_. Inr (stats st'))))"
proof (induction ws arbitrary: st)
  case (Cons w ws)
  show ?case
  proof (cases "apply_write st w")
    case (Inl e)
    then have "with_seq st w = Inl e" by (simp add: with_seq_def)
    then show ?thesis using Inl by simp
  next
    case (Inr st1)
    then have "with_seq st w = Inr (st1\<lparr>next_seq := committed_seq w + 1\<rparr>)" by (simp add: with_seq_def)
    then show ?thesis using Inr Cons by simp
  qed
qed simp

lemma commit_keeps_storage_any: "storage_ok st \<Longrightarrow> storage_ok (fst (commit_storage st ws ts))"
proof (cases "prepare_commit st ws ts")
  case (Inr p)
  assume ok: "storage_ok st"
  have "validate_committed st (pwrites p) = Inr ()"
    using Inr by (auto simp: prepare_commit_def Let_def result_simps)
  then have "storage_ok (fst (memory_log.run st (pwrites p)))"
    using memory_log.validated_keeps ok by (simp add: validate_committed_def)
  then show ?thesis using Inr
    by (cases "memory_log.run st (pwrites p)") (simp add: commit_storage_def apply_validated_run)
qed (simp add: commit_storage_def)

text \<open>
  C34. Whatever transaction is given to it, a session state keeps its invariant: entry ids and usage
  ids are unique together, every parent is an earlier entry, entries, usage rows and list elements are
  in strictly increasing sequence order below the next sequence number, values and lists are stored
  under the key of their address, and the totals are those of the stored rows. This holds for accepted
  transactions, for rejected ones, and for one that fails halfway.
\<close>

theorem commit_keeps_storage: "storage_ok st \<Longrightarrow> storage_ok (fst (commit_storage st ws ts))"
  by (rule commit_keeps_storage_any)

theorem commit_keeps_storage_witness:
  "storage_ok (fst (commit_storage (new_storage_state :: int storage_state)
     [WEntry \<lparr>eid = ''e1'', parent_id = None, custom_type = None, body = Custom None\<rparr>,
      WListAppend ''app'' ''log'' JNull] 7))"
  by (rule commit_keeps_storage) (rule new_storage_ok)

text \<open>The writes of the typed interface: \<open>setValue\<close> and \<open>appendList\<close> of a validated address.\<close>

fun addressed :: "'n new_write \<Rightarrow> bool" where
  "addressed (WValueSet ns k _) = (validate_address ns k = Inr ())"
| "addressed (WListAppend ns k _) = (validate_address ns k = Inr ())"
| "addressed _ = True"

lemma addressed_applies:
  "addressed w \<Longrightarrow> \<exists>st'. with_seq st (commit_write w s ts) = Inr st'"
  by (cases w) (auto simp: with_seq_def apply_value_set_def apply_list_append_def stored_address_def Let_def
      split: option.splits)

lemma addressed_run:
  "list_all addressed ws \<Longrightarrow> \<exists>st'. memory_log.run st (commit_writes ws s ts) = (st', Inr ()) \<and>
    next_seq st' = (if ws = [] then next_seq st else s + int (length ws)) \<and>
    entries_by_seq st' = entries_by_seq st @ concat (map (\<lambda>c. case c of CEntry e \<Rightarrow> [e] | _ \<Rightarrow> []) (commit_writes ws s ts))"
proof (induction ws arbitrary: st s)
  case (Cons w ws)
  then obtain st1 where st1: "with_seq st (commit_write w s ts) = Inr st1"
    using addressed_applies by fastforce
  have "next_seq st1 = s + 1" using with_seq_ids(3) [OF st1] by simp
  moreover have "entries_by_seq st1 = entries_by_seq st @ (case commit_write w s ts of CEntry e \<Rightarrow> [e] | _ \<Rightarrow> [])"
    using st1 by (cases w) (auto simp: with_seq_def apply_value_set_def apply_list_append_def Let_def result_simps
        split: option.splits)
  moreover obtain st' where "memory_log.run st1 (commit_writes ws (s + 1) ts) = (st', Inr ())"
    "next_seq st' = (if ws = [] then next_seq st1 else s + 1 + int (length ws))"
    "entries_by_seq st' = entries_by_seq st1 @
       concat (map (\<lambda>c. case c of CEntry e \<Rightarrow> [e] | _ \<Rightarrow> []) (commit_writes ws (s + 1) ts))"
    using Cons by force
  ultimately show ?case using st1 by auto
qed simp

text \<open>
  A transaction whose addresses are valid is atomic: either it is rejected and the state is
  unchanged, or all of it is applied, the sequence numbers it reports are consecutive from the next
  one on, the next sequence number moves past them, its entries are appended in order, and the totals
  it returns are those of the new state.
\<close>

theorem commit_atomic:
  assumes "list_all addressed ws"
  shows "(\<exists>e. commit_storage st ws ts = (st, Inl e)) \<or>
    (\<exists>st' p. commit_storage st ws ts = (st', Inr (p, stats st')) \<and>
      seqs p = map (\<lambda>i. next_seq st + int i) [0..<length ws] \<and> next_seq st' = next_seq st + int (length ws) \<and>
      entries_by_seq st' = entries_by_seq st @ concat (map (\<lambda>c. case c of CEntry e \<Rightarrow> [e] | _ \<Rightarrow> []) (pwrites p)))"
proof (cases "prepare_commit st ws ts")
  case (Inl e)
  then show ?thesis by (simp add: commit_storage_def)
next
  case (Inr p)
  then have p: "p = prepare_storage_commit ws (next_seq st) ts"
    by (auto simp: prepare_commit_def Let_def result_simps)
  then have pw: "pwrites p = commit_writes ws (next_seq st) ts"
    "seqs p = map (\<lambda>i. next_seq st + int i) [0..<length ws]"
    by (simp_all add: prepare_storage_commit_def commit_writes_seqs)
  obtain st' where "memory_log.run st (pwrites p) = (st', Inr ())"
    "next_seq st' = next_seq st + int (length ws)"
    "entries_by_seq st' = entries_by_seq st @ concat (map (\<lambda>c. case c of CEntry e \<Rightarrow> [e] | _ \<Rightarrow> []) (pwrites p))"
    using addressed_run [OF assms, of st "next_seq st" ts] pw(1) by (auto split: if_splits)
  then have "commit_storage st ws ts = (st', Inr (p, stats st'))"
    using Inr by (simp add: commit_storage_def apply_validated_run)
  then show ?thesis using pw(2) \<open>next_seq st' = _\<close> \<open>entries_by_seq st' = _\<close> by blast
qed

theorem commit_atomic_witness:
  "\<exists>st' p. commit_storage (new_storage_state :: int storage_state) [set_value (branch_tip ''main'') JNull] 7 =
      (st', Inr (p, stats st')) \<and> seqs p = [1] \<and> next_seq st' = 2 \<and> entries_by_seq st' = []"
  using commit_atomic [of "[set_value (branch_tip ''main'') JNull]" "new_storage_state :: int storage_state" 7]
  by (auto simp: set_value_def branch_tip_def validate_address_def nul_def new_storage_state_def
      commit_storage_def prepare_commit_def prepare_storage_commit_def validate_committed_def
      validate_committed_writes_def apply_value_set_def stored_address_def Let_def)

text \<open>Without validated addresses it is not: the check comes while the writes are being applied.\<close>

lemma commit_torn_by_address:
  "commit_storage (new_storage_state :: int storage_state) [WValueSet ''app'' ''k'' JNull, WValueSet [] ''k'' JNull] 7 =
    (new_storage_state\<lparr>scalar_values := [(physical_key ''app'' ''k'',
        \<lparr>saddress = \<lparr>namespace = ''app'', akey = ''k''\<rparr>, svalue = JNull, sseq = 1\<rparr>)], next_seq := 2\<rparr>,
     Inl (BadAddress ''Value namespace must not be empty''))"
  by (simp add: commit_storage_def prepare_commit_def prepare_storage_commit_def new_storage_state_def
      validate_committed_def validate_committed_writes_def apply_value_set_def stored_address_def
      validate_address_def nul_def map_set_new Let_def)

section \<open>Replaying a history\<close>

text \<open>
  The transactions a storage accepted, as \<open>JsonlStorage\<close> appends them: a transaction without writes
  leaves no line.
\<close>

fun history :: "'n::{zero,plus} storage_state \<Rightarrow> ('n new_write list \<times> int) list \<Rightarrow>
    ('n committed list list \<times> 'n storage_state) option" where
  "history st [] = Some ([], st)"
| "history st ((ws, ts) # txs) = (case commit_storage st ws ts of
     (st', Inl e) \<Rightarrow> (if st' = st then history st txs else None)
   | (st', Inr (p, _)) \<Rightarrow>
       map_option (\<lambda>(ls, st''). ((if pwrites p = [] then ls else pwrites p # ls), st'')) (history st' txs))"

lemma commit_replays:
  assumes "commit_storage st ws ts = (st', Inr (p, t))"
  shows "replay_committed st (pwrites p) = Inr st'"
  using assms by (auto simp: commit_storage_def replay_committed_def prepare_commit_def Let_def result_simps
      split: sum.splits prod.splits)

lemma commit_nothing:
  assumes "commit_storage st ws ts = (st', Inr (p, t))" and "pwrites p = []"
  shows "st' = st"
  using assms by (auto simp: commit_storage_def result_simps split: sum.splits prod.splits)

text \<open>
  A session reopened from its log is the session that was closed: replaying the recorded
  transactions into an empty state passes every validation again and rebuilds exactly the state that
  the commits had reached, statistics and next sequence number included.
\<close>

theorem replay_restores:
  assumes "history st txs = Some (lines, st')"
  shows "rfold replay_committed st lines = Inr st'"
  using assms
proof (induction txs arbitrary: st lines)
  case (Cons tx txs)
  obtain ws ts where tx: "tx = (ws, ts)" by fastforce
  obtain st1 r where c: "commit_storage st ws ts = (st1, r)" by fastforce
  show ?case
  proof (cases r)
    case (Inl e)
    then show ?thesis using Cons tx c by (auto split: if_splits)
  next
    case (Inr pt)
    obtain p t where p: "pt = (p, t)" by fastforce
    obtain ls where ls: "history st1 txs = Some (ls, st')" "lines = (if pwrites p = [] then ls else pwrites p # ls)"
      using Cons.prems tx c Inr p by auto
    show ?thesis
      using Cons.IH [OF ls(1)] ls(2) commit_replays [of st ws ts st1 p t] commit_nothing [of st ws ts st1 p t] c Inr p
      by auto
  qed
qed simp

theorem replay_restores_witness:
  "rfold replay_committed (new_storage_state :: int storage_state)
     [[CValueSet 1 ''app'' ''k'' JNull], [CValueDelete 2 ''app'' ''k'']] =
   Inr (new_storage_state\<lparr>next_seq := 3\<rparr>)"
  by (rule replay_restores [of _ "[([WValueSet ''app'' ''k'' JNull], 7), ([WValueDelete ''app'' ''k''], 8)]"])
    (simp add: commit_storage_def prepare_commit_def prepare_storage_commit_def new_storage_state_def
      validate_committed_def validate_committed_writes_def apply_value_set_def stored_address_def
      validate_address_def nul_def map_set_new own_del_def Let_def)

end
