(* ===== verification/SessionPath.thy ===== *)
theory SessionPath
  imports SessionInvariant
begin

text \<open>
  Branches: the walk of \<open>scanBranch\<close> from an entry to the root ends on every state that keeps
  \<open>storage_ok\<close>, never meets a missing parent, and visits the ancestors with decreasing sequence numbers.
\<close>

section \<open>Ancestor paths\<close>

text \<open>A path: every entry is followed by its parent, and the last one has none.\<close>

fun is_path :: "(string \<Rightarrow> 'n entry option) \<Rightarrow> 'n entry list \<Rightarrow> bool" where
  "is_path get [] = False"
| "is_path get [e] = (parent_id e = None)"
| "is_path get (e # p # es) = (parent_id e = Some (eid p) \<and> get (eid p) = Some p \<and> is_path get (p # es))"

declare walk.simps [code]

lemma is_path_walk: "is_path get path \<Longrightarrow> walk get (hd path) = Some (Inr path)"
proof (induction get path rule: is_path.induct)
  case (2 get e)
  then show ?case by (subst walk.simps) simp
next
  case (3 get e p es)
  then show ?case by (subst walk.simps) simp
qed simp

lemma is_path_tl: "is_path get (e # es) \<Longrightarrow> es \<noteq> [] \<Longrightarrow> is_path get es"
  by (cases es) auto

lemma is_path_known: "is_path get (e # es) \<Longrightarrow> x \<in> set es \<Longrightarrow> get (eid x) = Some x"
proof (induction es arbitrary: e)
  case (Cons p ps)
  then show ?case by (cases ps) auto
qed simp

lemma is_path_suffix: "is_path get (xs @ ys) \<Longrightarrow> ys \<noteq> [] \<Longrightarrow> is_path get ys"
proof (induction xs)
  case (Cons x xs)
  then show ?case using is_path_tl [of get x "xs @ ys"] by simp
qed simp

definition entry_of :: "'n storage_state \<Rightarrow> string \<Rightarrow> 'n entry option" where
  "entry_of st = own_get (entries st)"

lemma entry_of_iff:
  assumes "entries_ok_st st"
  shows "entry_of st i = Some e \<longleftrightarrow> e \<in> set (entries_by_seq st) \<and> eid e = i"
proof -
  have d: "distinct (map fst (map (\<lambda>e. (eid e, e)) (entries_by_seq st)))"
    using assms by (simp add: entries_ok_st_def comp_def)
  have "entry_of st i = map_of (map (\<lambda>e. (eid e, e)) (entries_by_seq st)) i"
    using assms by (simp add: entry_of_def entries_ok_st_def)
  then show ?thesis using map_of_eq_Some_iff [OF d, of i e] by auto
qed

text \<open>Every stored entry heads a path, whose entries have decreasing sequence numbers.\<close>

lemma parents_path:
  assumes "\<And>e. e \<in> set es \<Longrightarrow> get (eid e) = Some e" and "parents_ok {} es" and "sorted_wrt (\<lambda>a b. seq a < seq b) es"
    and "e \<in> set es"
  shows "\<exists>path. is_path get path \<and> hd path = e \<and> set path \<subseteq> set es \<and> sorted_wrt (\<lambda>a b. seq a > seq b) path"
  using assms
proof (induction es arbitrary: e rule: rev_induct)
  case (snoc x es)
  have ok: "parents_ok {} es" "sorted_wrt (\<lambda>a b. seq a < seq b) es" "\<forall>y \<in> set es. seq y < seq x"
    and px: "\<And>p. parent_id x = Some p \<Longrightarrow> p \<in> eid ` set es"
    using snoc.prems by (auto simp: parents_ok_append sorted_wrt_append)
  have IH: "\<exists>path. is_path get path \<and> hd path = y \<and> set path \<subseteq> set es \<and> sorted_wrt (\<lambda>a b. seq a > seq b) path"
    if "y \<in> set es" for y
    using snoc.IH [OF _ ok(1,2) that] snoc.prems(1) by simp
  show ?case
  proof (cases "e \<in> set es")
    case True
    then show ?thesis using IH by fastforce
  next
    case False
    then have e: "e = x" using snoc.prems(4) by simp
    show ?thesis
    proof (cases "parent_id x")
      case None
      then show ?thesis using e by (intro exI [of _ "[x]"]) simp
    next
      case (Some p)
      then obtain y where y: "y \<in> set es" "p = eid y" using px by auto
      obtain path where path: "is_path get path" "hd path = y" "set path \<subseteq> set es"
        "sorted_wrt (\<lambda>a b. seq a > seq b) path"
        using IH [OF y(1)] by auto
      obtain ys where ys: "path = y # ys" using path(1,2) by (cases path) auto
      have "get (eid y) = Some y" using snoc.prems(1) y(1) by simp
      then have "is_path get (x # path)" using path(1) ys Some y(2) by simp
      moreover have "sorted_wrt (\<lambda>a b. seq a > seq b) (x # path)" using path(3,4) ok(3) by auto
      ultimately show ?thesis using e path(3) by (intro exI [of _ "x # path"]) auto
    qed
  qed
qed simp

lemma entry_path:
  assumes "entries_ok_st st" and "entry_of st i = Some e"
  obtains path where "is_path (entry_of st) path" and "hd path = e" and "set path \<subseteq> set (entries_by_seq st)"
    and "sorted_wrt (\<lambda>a b. seq a > seq b) path" and "walk (entry_of st) e = Some (Inr path)"
proof -
  have "e \<in> set (entries_by_seq st)" using assms entry_of_iff by blast
  then obtain path where "is_path (entry_of st) path" "hd path = e" "set path \<subseteq> set (entries_by_seq st)"
    "sorted_wrt (\<lambda>a b. seq a > seq b) path"
    using parents_path [of "entries_by_seq st" "entry_of st" e] assms(1) entry_of_iff [OF assms(1)]
    by (auto simp: entries_ok_st_def)
  then show thesis using that is_path_walk by metis
qed

fun entry_ref :: "string option \<Rightarrow> json" where
  "entry_ref None = JNull"
| "entry_ref (Some i) = JStr i"

definition head_ref :: "'n entry list \<Rightarrow> string option" where
  "head_ref path = (if path = [] then None else Some (eid (hd path)))"

lemma is_path_parent: "is_path get (e # es) \<Longrightarrow> parent_id e = head_ref es"
  by (cases es) (auto simp: head_ref_def)

definition known_path :: "'n storage_state \<Rightarrow> 'n entry list \<Rightarrow> bool" where
  "known_path st path \<longleftrightarrow> path = [] \<or> is_path (entry_of st) path \<and> entry_of st (eid (hd path)) = Some (hd path)"

lemma is_path_other:
  "is_path get path \<Longrightarrow> (\<And>e. e \<in> set path \<Longrightarrow> get' (eid e) = Some e) \<Longrightarrow> is_path get' path"
  by (induction get path rule: is_path.induct) auto

section \<open>Branch scans\<close>

definition whole_branch :: "string \<Rightarrow> branch_order \<Rightarrow> branch_scan" where
  "whole_branch i ord = \<lparr>start = i, stop_at_type = None, stop_at_id = None, btype = None, bcustom = None,
     border = ord, blimit = None, bcursor = None\<rparr>"

lemma until_stop_False [simp]: "until_stop (\<lambda>_. False) xs = xs"
  by (induction xs) auto

lemma scan_whole_branch:
  assumes "is_path (entry_of st) path" and "entry_of st i = Some (hd path)"
  shows "scan_branch st (whole_branch i ord) = Some (Inr (if ord = OldestFirst then rev path else path))"
  using is_path_walk [OF assms(1)] assms(2)
  by (simp add: scan_branch_def whole_branch_def entry_of_def Let_def limited_def matches_def)

lemma map_result_Inr:
  "map_option (map_sum id f) m = Some (Inr y) \<Longrightarrow> \<exists>x. m = Some (Inr x) \<and> f x = y"
  by (cases m; cases "the m") auto

text \<open>A session with two entries on a configured lane, for concrete instances.\<close>

definition demo_session :: "int storage_state" where
  "demo_session = fst (commit_storage new_storage_state
     [WEntry \<lparr>eid = ''e1'', parent_id = None, custom_type = None, body = Custom None\<rparr>,
      WEntry \<lparr>eid = ''e2'', parent_id = Some ''e1'', custom_type = None, body = Custom None\<rparr>,
      set_value (branch_tip ''main'') (JStr ''e2''), set_value (lane_config ''main'') JNull,
      set_value (lane_state ''main'') JNull] 7)"

lemma demo_session_ok: "storage_ok demo_session"
  unfolding demo_session_def by (rule commit_keeps_storage_any) (rule new_storage_ok)

text \<open>
  A branch scan of a session state ends and never reports a corrupt branch: from every stored
  entry it returns the ancestors, each entry followed by its parent down to an entry without one, in
  decreasing sequence order, and the oldest-first scan is its reverse. From an unknown id it fails.
\<close>

theorem scan_branch_ancestors:
  assumes "storage_ok st"
  shows "(entry_of st i = None \<and> scan_branch st (whole_branch i ord) = Some (Inl (UnknownBranchStart i))) \<or>
    (\<exists>path. entry_of st i = Some (hd path) \<and> is_path (entry_of st) path \<and>
      sorted_wrt (\<lambda>a b. seq a > seq b) path \<and>
      scan_branch st (whole_branch i NewestFirst) = Some (Inr path) \<and>
      scan_branch st (whole_branch i OldestFirst) = Some (Inr (rev path)))"
proof (cases "entry_of st i")
  case None
  then show ?thesis by (simp add: scan_branch_def whole_branch_def entry_of_def)
next
  case (Some e)
  have "entries_ok_st st" using assms by (simp add: storage_ok_def)
  then obtain path where "is_path (entry_of st) path" "hd path = e" "sorted_wrt (\<lambda>a b. seq a > seq b) path"
    using entry_path [OF _ Some] by metis
  then show ?thesis using Some scan_whole_branch [of st path i] by auto
qed

theorem scan_branch_ancestors_witness:
  "\<exists>path. is_path (entry_of demo_session) path \<and> eid (hd path) = ''e2'' \<and>
    scan_branch demo_session (whole_branch ''e2'' OldestFirst) = Some (Inr (rev path))"
proof -
  have e: "map_option eid (entry_of demo_session ''e2'') = Some ''e2''" by code_simp
  show ?thesis using scan_branch_ancestors [OF demo_session_ok, of "''e2''" NewestFirst] e by auto
qed

lemma subseq_until_stop [simp]: "subseq (until_stop P xs) xs"
  by (induction xs) auto

lemma subseq_limited [simp]: "subseq (limited l xs) xs"
  by (cases l) (auto simp: limited_def intro: prefix_imp_subseq take_is_prefix)

text \<open>
  Every branch scan returns a subsequence of the ancestors of its start, in its order, no longer
  than its limit, and all of the requested type and custom type.
\<close>

theorem scan_branch_within:
  assumes "storage_ok st" and "scan_branch st q = Some (Inr found)"
  shows "\<exists>path. is_path (entry_of st) path \<and> entry_of st (start q) = Some (hd path) \<and>
    subseq found (if border q = OldestFirst then rev path else path) \<and>
    (\<forall>n. blimit q = Some n \<longrightarrow> length found \<le> nat n) \<and>
    (\<forall>e \<in> set found. matches (btype q) (etype e) \<and> (\<forall>t. bcustom q = Some t \<longrightarrow> custom_type e = Some t))"
proof -
  have ok: "entries_ok_st st" using assms(1) by (simp add: storage_ok_def)
  obtain e where e: "entry_of st (start q) = Some e"
    using assms(2) by (auto simp: scan_branch_def entry_of_def split: option.splits)
  obtain path where path: "is_path (entry_of st) path" "hd path = e" "walk (entry_of st) e = Some (Inr path)"
    using entry_path [OF ok e] by metis
  let ?ord = "if border q = OldestFirst then rev path else path"
  obtain P Q where found: "found = limited (blimit q) (filter Q (until_stop P ?ord))"
    "\<And>c. Q c \<Longrightarrow> matches (btype q) (etype c) \<and> (\<forall>t. bcustom q = Some t \<longrightarrow> custom_type c = Some t)"
  proof
    show "found = limited (blimit q) (filter (\<lambda>c. matches (btype q) (etype c) \<and>
        (case bcustom q of None \<Rightarrow> True | Some t \<Rightarrow> custom_type c = Some t) \<and>
        (case bcursor q of None \<Rightarrow> True | Some s \<Rightarrow> if border q = OldestFirst then seq c > s else seq c < s))
      (until_stop (\<lambda>c. stop_at_id q = Some (eid c) \<or> stop_at_type q = Some (etype c)) ?ord))"
      using assms(2) e path(3) by (simp add: scan_branch_def entry_of_def Let_def)
  qed (auto split: option.splits)
  have sub: "subseq found (filter Q (until_stop P ?ord))" using found(1) by simp
  have "subseq found ?ord"
    by (rule subseq_order.trans [OF subseq_order.trans [OF sub subseq_filter_left] subseq_until_stop])
  moreover have "\<forall>e \<in> set found. Q e" using list_emb_set [OF sub] by auto
  moreover have "\<forall>n. blimit q = Some n \<longrightarrow> length found \<le> nat n" using found(1) by (auto simp: limited_def)
  ultimately show ?thesis using path e found(2) by auto
qed

theorem scan_branch_within_witness:
  "\<exists>path. is_path (entry_of demo_session) path \<and> entry_of demo_session ''e2'' = Some (hd path) \<and>
    (\<forall>found. scan_branch demo_session ((whole_branch ''e2'' NewestFirst)\<lparr>blimit := Some 1\<rparr>) = Some (Inr found) \<longrightarrow>
      length found \<le> 1)"
proof -
  let ?q = "(whole_branch ''e2'' NewestFirst)\<lparr>blimit := Some 1\<rparr>"
  have "map_option (map_sum id (map eid)) (scan_branch demo_session ?q) = Some (Inr [''e2''])" by code_simp
  then obtain found where f: "scan_branch demo_session ?q = Some (Inr found)"
    by (cases "scan_branch demo_session ?q"; cases "the (scan_branch demo_session ?q)") auto
  have "start ?q = ''e2''" "blimit ?q = Some 1" by (simp_all add: whole_branch_def)
  then show ?thesis using scan_branch_within [OF demo_session_ok f] f by auto
qed

end
