(* ===== verification/SessionFork.thy ===== *)
theory SessionFork
  imports SessionPath
begin

text \<open>
  Forking a session: the policy of \<open>session/fork-policy.ts\<close> and the in-memory \<open>createFork\<close> of
  \<open>session/in-memory-storage-state.ts\<close>. The walk from a branch tip to the root is a loop over parent
  pointers that need not end on arbitrary data; on every state that keeps \<open>storage_ok\<close> it does.
\<close>

section \<open>The fork policy\<close>

datatype fork_position = Before | At

datatype fork_options =
    ForkBranch string "string option" "fork_position option"
  | ForkTree

datatype fork_plan =
    BranchPlan string "string option"
  | TreePlan

text \<open>
  The loop of \<open>selectBranchFork\<close>: \<open>get\<close> is \<open>getParent\<close>, the last three arguments are \<open>found\<close>,
  \<open>destinationTip\<close> and the ids given to \<open>selectEntry\<close> so far. A stored tip that is neither a string
  nor null has no parent.
\<close>

partial_function (option) fork_loop :: "(string \<Rightarrow> string option option) \<Rightarrow> json \<Rightarrow> bool \<Rightarrow> json \<Rightarrow>
    bool \<Rightarrow> string option \<Rightarrow> string list \<Rightarrow> (storage_error + bool \<times> string option \<times> string list) option" where
  "fork_loop get requested before cur found dest sel = (case cur of
     JNull \<Rightarrow> Some (Inr (found, dest, sel))
   | JStr i \<Rightarrow> (case get i of
       None \<Rightarrow> Some (Inl (CorruptSourceBranch cur))
     | Some p \<Rightarrow>
         if cur = requested
         then fork_loop get requested before (entry_ref p) True
                (if before then p else Some i) (if before then sel else sel @ [i])
         else fork_loop get requested before (entry_ref p) found dest (if found then sel @ [i] else sel))
   | _ \<Rightarrow> Some (Inl (CorruptSourceBranch cur)))"

declare fork_loop.simps [code]

definition select_branch_fork :: "string \<Rightarrow> string option \<Rightarrow> fork_position option \<Rightarrow> json option \<Rightarrow>
    (string \<Rightarrow> string option option) \<Rightarrow> (storage_error + fork_plan \<times> string list) option" where
  "select_branch_fork branch entry position tip get = (case tip of
     None \<Rightarrow> Some (Inl (UnknownSourceBranch branch))
   | Some t \<Rightarrow>
       (let requested = (case entry of None \<Rightarrow> t | Some i \<Rightarrow> JStr i) in
        Option.bind (fork_loop get requested (position = Some Before) t (requested = JNull) None [])
          (\<lambda>r. Some (rbind r (\<lambda>(found, dest, sel).
             if \<not> found then Inl (ForkEntryNotOnBranch requested)
             else Inr (BranchPlan branch dest, sel))))))"

definition idle_lane :: json where
  "idle_lane = JObj [(''currentOperationId'', JNull), (''lastOperationId'', JNull), (''inbox'', JArr [])]"

text \<open>What \<open>projectForkCurrentStateWrite\<close> makes of the value of a row: \<open>None\<close> drops the row.\<close>

definition project_value ::
    "fork_plan \<Rightarrow> (string \<Rightarrow> bool) \<Rightarrow> string \<Rightarrow> string \<Rightarrow> json \<Rightarrow> storage_error + json option" where
  "project_value plan copied ns k v =
    (if ns = ''pi.session.name'' then Inr (Some v)
     else if ns = ''pi.entry.label'' then Inr (if copied k then Some v else None)
     else if ns = ''pi.branch.tip'' then (case plan of
         TreePlan \<Rightarrow> Inr (Some v)
       | BranchPlan b dest \<Rightarrow> Inr (if k = b then Some (entry_ref dest) else None))
     else if ns = ''pi.lane.config'' then (case plan of
         TreePlan \<Rightarrow> Inr (Some v) | BranchPlan b _ \<Rightarrow> Inr (if k = b then Some v else None))
     else if ns = ''pi.lane.state'' then (case plan of
         TreePlan \<Rightarrow> Inr (Some idle_lane) | BranchPlan b _ \<Rightarrow> Inr (if k = b then Some idle_lane else None))
     else if ns = ''pi.result'' then Inr None
     else if prefix ''pi.op.'' ns \<or> prefix ''pi.pending.'' ns then Inr None
     else if ns = ''pi'' \<or> prefix ''pi.'' ns then Inl (UnknownReservedNamespace ns)
     else Inr (case plan of TreePlan \<Rightarrow> Some v | BranchPlan _ _ \<Rightarrow> None))"

fun project_fork_write ::
    "'n committed \<Rightarrow> fork_plan \<Rightarrow> (string \<Rightarrow> bool) \<Rightarrow> storage_error + 'n committed option" where
  "project_fork_write (CValueSet s ns k v) plan copied =
     rbind (project_value plan copied ns k v) (\<lambda>r. Inr (map_option (\<lambda>v'. CValueSet s ns k v') r))"
| "project_fork_write (CListAppend s ns k v) plan copied =
     rbind (project_value plan copied ns k v) (\<lambda>r. Inr (map_option (\<lambda>v'. CListAppend s ns k v') r))"
| "project_fork_write _ plan copied = Inr None"

section \<open>The fork of an in-memory state\<close>

definition select_fork_plan ::
    "'n storage_state \<Rightarrow> fork_options \<Rightarrow> (storage_error + fork_plan \<times> string list) option" where
  "select_fork_plan st opts = (case opts of
     ForkTree \<Rightarrow> Some (Inr (TreePlan, []))
   | ForkBranch b entry position \<Rightarrow>
       Option.bind (select_branch_fork b entry position (map_option svalue (get_value st (branch_tip b)))
           (\<lambda>i. map_option parent_id (own_get (entries st) i)))
         (\<lambda>r. Some (rbind r (\<lambda>plan.
            if get_value st (lane_config b) = None \<or> get_value st (lane_state b) = None then Inl (NotALane b)
            else Inr plan))))"

definition is_copied :: "fork_plan \<Rightarrow> string list \<Rightarrow> string \<Rightarrow> bool" where
  "is_copied plan sel i \<longleftrightarrow> (case plan of TreePlan \<Rightarrow> True | BranchPlan _ _ \<Rightarrow> i \<in> set sel)"

fun set_or_append :: "'n storage_state \<Rightarrow> 'n committed \<Rightarrow> storage_error + 'n storage_state" where
  "set_or_append st (CValueSet s ns k v) = apply_value_set st s ns k v"
| "set_or_append st (CListAppend s ns k v) = apply_list_append st s ns k v"
| "set_or_append st _ = Inr st"

definition copy_entry :: "'n storage_state \<Rightarrow> 'n entry \<Rightarrow> 'n storage_state" where
  "copy_entry st e = st\<lparr>entries := map_set (eid e) e (entries st), entries_by_seq := entries_by_seq st @ [e]\<rparr>"

definition copy_write ::
    "fork_plan \<Rightarrow> (string \<Rightarrow> bool) \<Rightarrow> 'n storage_state \<Rightarrow> 'n committed \<Rightarrow> storage_error + 'n storage_state" where
  "copy_write plan copied dst w = rbind (project_fork_write w plan copied) (\<lambda>r.
     case r of None \<Rightarrow> Inr dst | Some w' \<Rightarrow> set_or_append dst w')"

definition scalar_write :: "stored_value \<Rightarrow> 'n committed" where
  "scalar_write sv = CValueSet (sseq sv) (namespace (saddress sv)) (akey (saddress sv)) (svalue sv)"

definition list_writes :: "address \<times> list_element list \<Rightarrow> 'n committed list" where
  "list_writes al = map (\<lambda>x. CListAppend (lseq x) (namespace (fst al)) (akey (fst al)) (lvalue x)) (snd al)"

definition create_fork ::
    "'n::{zero,plus} storage_state \<Rightarrow> fork_options \<Rightarrow> (storage_error + 'n storage_state) option" where
  "create_fork st opts = Option.bind (select_fork_plan st opts) (\<lambda>r. Some (rbind r (\<lambda>(plan, sel).
     let copied = is_copied plan sel;
         kept = filter (\<lambda>e. copied (eid e)) (entries_by_seq st);
         dst = foldl copy_entry new_storage_state kept;
         dst1 = dst\<lparr>stats := (stats dst)\<lparr>message_count := length (filter (\<lambda>e. etype e = TMessage) kept)\<rparr>\<rparr> in
     rbind (rfold (copy_write plan copied) dst1 (map scalar_write (map snd (scalar_values st)))) (\<lambda>dst2.
     rbind (rfold (copy_write plan copied) dst2 (concat (map list_writes (map snd (list_values st))))) (\<lambda>dst3.
       Inr (dst3\<lparr>next_seq := next_seq st\<rparr>))))))"

section \<open>The walk of the policy\<close>

abbreviation parent_in :: "'n storage_state \<Rightarrow> string \<Rightarrow> string option option" where
  "parent_in st i \<equiv> map_option parent_id (entry_of st i)"

lemma fork_loop_end [simp]: "fork_loop get requested before JNull found dest sel = Some (Inr (found, dest, sel))"
  by (subst fork_loop.simps) simp

lemma fork_loop_step:
  "get i = Some p \<Longrightarrow> fork_loop get requested before (JStr i) found dest sel =
     (if JStr i = requested
      then fork_loop get requested before (entry_ref p) True (if before then p else Some i)
        (if before then sel else sel @ [i])
      else fork_loop get requested before (entry_ref p) found dest (if found then sel @ [i] else sel))"
  by (subst fork_loop.simps) simp

lemma known_path_Cons:
  "known_path st (e # es) \<Longrightarrow> parent_in st (eid e) = Some (head_ref es) \<and> known_path st es"
  by (cases es) (auto simp: known_path_def head_ref_def)

lemma fork_loop_rest:
  assumes "known_path st path" and "requested \<notin> (\<lambda>e. JStr (eid e)) ` set path"
  shows "fork_loop (parent_in st) requested before (entry_ref (head_ref path)) True dest sel =
    Some (Inr (True, dest, sel @ map eid path))"
  using assms
proof (induction path arbitrary: sel)
  case (Cons e es)
  have "entry_ref (head_ref (e # es)) = JStr (eid e)" by (simp add: head_ref_def)
  then show ?case
    using Cons known_path_Cons [OF Cons.prems(1)] fork_loop_step [of "parent_in st" "eid e" "head_ref es" requested]
    by auto
qed (simp add: head_ref_def)

lemma fork_loop_missing:
  assumes "known_path st path" and "requested \<notin> (\<lambda>e. JStr (eid e)) ` set path"
  shows "fork_loop (parent_in st) requested before (entry_ref (head_ref path)) False dest sel =
    Some (Inr (False, dest, sel))"
  using assms
proof (induction path)
  case (Cons e es)
  have "entry_ref (head_ref (e # es)) = JStr (eid e)" by (simp add: head_ref_def)
  then show ?case
    using Cons known_path_Cons [OF Cons.prems(1)] fork_loop_step [of "parent_in st" "eid e" "head_ref es" requested]
    by auto
qed (simp add: head_ref_def)

lemma fork_loop_found:
  assumes "known_path st (xs @ e # ys)" and "distinct (map eid (xs @ e # ys))"
  shows "fork_loop (parent_in st) (JStr (eid e)) before (entry_ref (head_ref (xs @ e # ys))) False dest sel =
    Some (Inr (True, head_ref (if before then ys else e # ys), sel @ map eid (if before then ys else e # ys)))"
  using assms
proof (induction xs)
  case Nil
  have "entry_ref (head_ref (e # ys)) = JStr (eid e)" by (simp add: head_ref_def)
  moreover have "JStr (eid e) \<notin> (\<lambda>e. JStr (eid e)) ` set ys" using Nil.prems(2) by auto
  ultimately show ?case
    using Nil known_path_Cons [of st e ys] fork_loop_step [of "parent_in st" "eid e" "head_ref ys" "JStr (eid e)"]
      fork_loop_rest [of st ys "JStr (eid e)"] by (auto simp: head_ref_def)
next
  case (Cons x xs)
  have "entry_ref (head_ref (x # xs @ e # ys)) = JStr (eid x)" by (simp add: head_ref_def)
  then show ?case
    using Cons known_path_Cons [of st x "xs @ e # ys"]
      fork_loop_step [of "parent_in st" "eid x" "head_ref (xs @ e # ys)" "JStr (eid e)"] by auto
qed

text \<open>What a branch fork selects: a path from an entry on the ancestry of the tip to the root.\<close>

lemma tip_cases:
  assumes "entries_ok_st st"
  shows "(\<exists>path. known_path st path \<and> t = entry_ref (head_ref path) \<and> set path \<subseteq> set (entries_by_seq st) \<and>
      sorted_wrt (\<lambda>a b. seq a > seq b) path) \<or>
    (\<forall>requested before found dest sel.
      fork_loop (parent_in st) requested before t found dest sel = Some (Inl (CorruptSourceBranch t)))"
proof (cases t)
  case JNull
  then show ?thesis by (intro disjI1 exI [of _ "[]"]) (simp add: known_path_def head_ref_def)
next
  case (JStr i)
  show ?thesis
  proof (cases "entry_of st i")
    case None
    then show ?thesis using JStr by (subst fork_loop.simps) simp
  next
    case (Some e)
    then obtain path where "is_path (entry_of st) path" "hd path = e" "set path \<subseteq> set (entries_by_seq st)"
      "sorted_wrt (\<lambda>a b. seq a > seq b) path"
      using entry_path [OF assms Some] by metis
    moreover from this have "path \<noteq> []" by auto
    moreover have "eid e = i" using Some entry_of_iff [OF assms] by blast
    ultimately show ?thesis using Some JStr
      by (intro disjI1 exI [of _ path]) (simp add: known_path_def head_ref_def)
  qed
qed (simp_all add: fork_loop.simps)

lemma path_distinct:
  assumes "entries_ok_st st" and "set path \<subseteq> set (entries_by_seq st)" and "sorted_wrt (\<lambda>a b. seq a > seq b) path"
  shows "distinct (map eid path)"
proof -
  have "inj_on eid (set (entries_by_seq st))" using assms(1) by (simp add: entries_ok_st_def distinct_map)
  moreover have "distinct path" using assms(3) by (induction path) auto
  ultimately show ?thesis using assms(2) by (simp add: distinct_map inj_on_subset)
qed

definition fork_path :: "fork_position option \<Rightarrow> 'n entry list \<Rightarrow> 'n entry list" where
  "fork_path position sub = (if position = Some Before then tl sub else sub)"

lemma fork_path_suffix: "suffix (fork_path position sub) sub"
  by (simp add: fork_path_def suffix_tl)

lemma select_branch_cases:
  assumes "entries_ok_st st"
  obtains (fails) err where "select_branch_fork b entry position tip (parent_in st) = Some (Inl err)"
  | (selects) xs sub where
      "select_branch_fork b entry position tip (parent_in st) =
         Some (Inr (BranchPlan b (head_ref (fork_path position sub)), map eid (fork_path position sub)))"
      "known_path st (xs @ sub)" "tip = Some (entry_ref (head_ref (xs @ sub)))"
      "set (xs @ sub) \<subseteq> set (entries_by_seq st)" "sorted_wrt (\<lambda>a b. seq a > seq b) (xs @ sub)"
      "entry = None \<and> xs = [] \<or> sub \<noteq> [] \<and> entry = head_ref sub"
proof (cases tip)
  case None
  then show thesis using fails by (simp add: select_branch_fork_def)
next
  case (Some t)
  define before where "before = (position = Some Before)"
  define req where "req = (case entry of None \<Rightarrow> t | Some i \<Rightarrow> JStr i)"
  have sel: "select_branch_fork b entry position tip (parent_in st) =
      Option.bind (fork_loop (parent_in st) req before t (req = JNull) None [])
        (\<lambda>r. Some (rbind r (\<lambda>(found, dest, sel).
           if \<not> found then Inl (ForkEntryNotOnBranch req) else Inr (BranchPlan b dest, sel))))"
    unfolding select_branch_fork_def Let_def before_def req_def Some by simp
  consider (corrupt) "\<forall>requested before found dest sel.
      fork_loop (parent_in st) requested before t found dest sel = Some (Inl (CorruptSourceBranch t))"
    | (path) p where "known_path st p" "t = entry_ref (head_ref p)" "set p \<subseteq> set (entries_by_seq st)"
      "sorted_wrt (\<lambda>a b. seq a > seq b) p"
    using tip_cases [OF assms, of t] by auto
  then show thesis
  proof cases
    case corrupt
    then show thesis using fails sel by simp
  next
    case (path p)
    note dis = path_distinct [OF assms path(3,4)]
    consider (null) "req = JNull" | (missing) "req \<noteq> JNull" "req \<notin> (\<lambda>e. JStr (eid e)) ` set p"
      | (found) xs e ys where "p = xs @ e # ys" "req = JStr (eid e)"
      by (metis (no_types, lifting) image_iff split_list)
    then show thesis
    proof cases
      case null
      then have "entry = None" "t = JNull" by (auto simp: req_def split: option.splits)
      moreover from this have "p = []" using path(2) by (auto simp: head_ref_def split: if_splits)
      ultimately show thesis using selects [of "[]" "[]"] sel null Some
        by (simp add: known_path_def head_ref_def fork_path_def)
    next
      case missing
      then show thesis using fork_loop_missing [OF path(1) missing(2), of before None "[]"] fails sel path(2) by simp
    next
      case (found xs e ys)
      have "select_branch_fork b entry position tip (parent_in st) = Some (Inr (BranchPlan b
          (head_ref (fork_path position (e # ys))), map eid (fork_path position (e # ys))))"
        using fork_loop_found [of st xs e ys before None "[]"] path(1,2) dis found sel
        by (simp add: fork_path_def before_def)
      moreover have "xs = []" if "entry = None"
      proof (rule ccontr)
        assume "xs \<noteq> []"
        moreover from this have "eid e = eid (hd xs)"
          using that found path(2) by (simp add: head_ref_def req_def)
        ultimately show False using dis found(1) by (cases xs) auto
      qed
      moreover have "entry = Some (eid e)" if "entry \<noteq> None" using found(2) that by (auto simp: req_def)
      ultimately show thesis using selects [of "e # ys" xs] Some found(1) path
        by (cases entry) (auto simp: head_ref_def)
    qed
  qed
qed

section \<open>The forked state\<close>

definition forked_scalar ::
    "fork_plan \<Rightarrow> (string \<Rightarrow> bool) \<Rightarrow> string \<times> stored_value \<Rightarrow> (string \<times> stored_value) option" where
  "forked_scalar plan copied = (\<lambda>(k, sv).
     case project_value plan copied (namespace (saddress sv)) (akey (saddress sv)) (svalue sv) of
       Inr (Some v) \<Rightarrow> Some (k, \<lparr>saddress = saddress sv, svalue = v, sseq = sseq sv\<rparr>) | _ \<Rightarrow> None)"

definition forked_element :: "fork_plan \<Rightarrow> (string \<Rightarrow> bool) \<Rightarrow> address \<Rightarrow> list_element \<Rightarrow> list_element option" where
  "forked_element plan copied a x = (case project_value plan copied (namespace a) (akey a) (lvalue x) of
     Inr (Some v) \<Rightarrow> Some \<lparr>lseq = lseq x, lvalue = v\<rparr> | _ \<Rightarrow> None)"

definition forked_list :: "fork_plan \<Rightarrow> (string \<Rightarrow> bool) \<Rightarrow>
    string \<times> address \<times> list_element list \<Rightarrow> (string \<times> address \<times> list_element list) option" where
  "forked_list plan copied = (\<lambda>(k, a, els). let els' = List.map_filter (forked_element plan copied a) els in
     if els' = [] then None else Some (k, a, els'))"

lemma map_filter_keys:
  assumes "\<And>x y. f x = Some y \<Longrightarrow> fst y = fst x"
  shows "set (map fst (List.map_filter f xs)) \<subseteq> set (map fst xs)"
    and "own_ok xs \<Longrightarrow> own_ok (List.map_filter f xs)"
proof -
  show sub: "set (map fst (List.map_filter f xs)) \<subseteq> set (map fst xs)" for xs
  proof (induction xs)
    case (Cons x xs)
    then show ?case using assms [of x] by (cases "f x") (auto simp: List.map_filter_simps)
  qed (simp add: List.map_filter_simps)
  show "own_ok xs \<Longrightarrow> own_ok (List.map_filter f xs)"
  proof (induction xs)
    case (Cons x xs)
    then show ?case using assms [of x] sub [of xs]
      by (cases "f x") (auto simp: List.map_filter_simps own_ok_def)
  qed (simp add: List.map_filter_simps)
qed

lemma copy_entries:
  assumes "distinct (map eid es)" and "entries dst = map (\<lambda>e. (eid e, e)) (entries_by_seq dst)"
    and "eid ` set es \<inter> eid ` set (entries_by_seq dst) = {}"
  shows "foldl copy_entry dst es = dst\<lparr>entries := map (\<lambda>e. (eid e, e)) (entries_by_seq dst @ es),
    entries_by_seq := entries_by_seq dst @ es\<rparr>"
  using assms
proof (induction es arbitrary: dst)
  case (Cons e es)
  have "\<not> own_has (entries dst) (eid e)" using Cons.prems by (auto simp: own_has_def)
  then have c: "copy_entry dst e = dst\<lparr>entries := entries dst @ [(eid e, e)],
      entries_by_seq := entries_by_seq dst @ [e]\<rparr>"
    by (simp add: copy_entry_def map_set_new)
  show ?case using Cons.IH [of "copy_entry dst e"] Cons.prems by (auto simp: c)
qed simp

lemma copy_scalars:
  assumes "rfold (copy_write plan copied) dst (map scalar_write (map snd kvs)) = Inr dst'"
    and "values_ok n kvs" and "\<And>k. own_has kvs k \<Longrightarrow> \<not> own_has (scalar_values dst) k"
  shows "dst' = dst\<lparr>scalar_values := scalar_values dst @ List.map_filter (forked_scalar plan copied) kvs\<rparr>"
  using assms
proof (induction kvs arbitrary: dst)
  case (Cons kv kvs)
  obtain k sv where kv: "kv = (k, sv)" by fastforce
  let ?a = "saddress sv"
  have ok: "address_ok ?a" "k = physical_key (namespace ?a) (akey ?a)" "values_ok n kvs" "\<not> own_has kvs k"
    using Cons.prems(2) by (auto simp: kv values_ok_def own_ok_def own_has_def)
  have new: "\<not> own_has (scalar_values dst) k" using Cons.prems(3) [of k] by (simp add: kv)
  have addr: "stored_address (namespace ?a) (akey ?a) = Inr ?a"
    using ok(1) by (simp add: stored_address_def address_ok_def)
  obtain dst1 where d1: "copy_write plan copied dst (scalar_write sv) = Inr dst1"
    "rfold (copy_write plan copied) dst1 (map scalar_write (map snd kvs)) = Inr dst'"
    using Cons.prems(1) by (auto simp: kv result_simps)
  have dst1: "dst1 = dst\<lparr>scalar_values := scalar_values dst @
      (case forked_scalar plan copied kv of None \<Rightarrow> [] | Some x \<Rightarrow> [x])\<rparr>"
    using d1(1) addr new ok(2)
    by (auto simp: kv copy_write_def scalar_write_def forked_scalar_def apply_value_set_def map_set_new result_simps
        split: option.splits)
  have "\<not> own_has (scalar_values dst1) i" if "own_has kvs i" for i
    using Cons.prems(3) [of i] ok(4) that
    by (auto simp: dst1 kv own_has_def forked_scalar_def split: sum.splits option.splits)
  then show ?case using Cons.IH [OF d1(2) ok(3)]
    by (simp add: dst1 List.map_filter_simps split: option.splits)
qed (simp add: List.map_filter_simps)

definition put_list :: "'n storage_state \<Rightarrow> string \<Rightarrow> address \<Rightarrow> list_element list \<Rightarrow> 'n storage_state" where
  "put_list dst k a els = (if els = [] then dst else dst\<lparr>list_values := list_values dst @ [(k, a, els)]\<rparr>)"

lemma map_set_last: "\<not> own_has m k \<Longrightarrow> map_set k v (m @ [(k, w)]) = m @ [(k, v)]"
  by (simp add: map_set_def own_set_def) (induction m; auto simp: own_has_def)

lemma own_get_last: "\<not> own_has m k \<Longrightarrow> own_get (m @ [(k, w)]) k = Some w"
  by (simp add: map_add_def own_has_iff_get)

lemma put_list_append:
  assumes "stored_address (namespace a) (akey a) = Inr a" and "k = physical_key (namespace a) (akey a)"
    and "\<not> own_has (list_values dst) k"
  shows "apply_list_append (put_list dst k a els) s (namespace a) (akey a) v =
    Inr (put_list dst k a (els @ [\<lparr>lseq = s, lvalue = v\<rparr>]))"
proof -
  have "own_get (list_values dst) k = None"
    using assms(3) own_has_iff_get [of "list_values dst" k] by blast
  then show ?thesis using assms own_get_last [OF assms(3)]
    by (cases "els = []") (simp_all add: put_list_def apply_list_append_def map_set_new map_set_last)
qed

lemma copy_list:
  assumes "rfold (copy_write plan copied) (put_list dst k a done) (list_writes (a, els)) = Inr dst'"
    and "address_ok a" and "k = physical_key (namespace a) (akey a)" and "\<not> own_has (list_values dst) k"
  shows "dst' = put_list dst k a (done @ List.map_filter (forked_element plan copied a) els)"
  using assms(1)
proof (induction els arbitrary: "done")
  case (Cons x els)
  have addr: "stored_address (namespace a) (akey a) = Inr a"
    using assms(2) by (simp add: stored_address_def address_ok_def)
  obtain dst1 where d1: "copy_write plan copied (put_list dst k a done)
        (CListAppend (lseq x) (namespace a) (akey a) (lvalue x)) = Inr dst1"
    "rfold (copy_write plan copied) dst1 (list_writes (a, els)) = Inr dst'"
    using Cons.prems by (auto simp: list_writes_def result_simps)
  have "dst1 = put_list dst k a (done @ (case forked_element plan copied a x of None \<Rightarrow> [] | Some y \<Rightarrow> [y]))"
    using d1(1) put_list_append [OF addr assms(3,4)]
    by (auto simp: copy_write_def forked_element_def result_simps split: option.splits)
  then show ?case using Cons.IH [of "done @ (case forked_element plan copied a x of None \<Rightarrow> [] | Some y \<Rightarrow> [y])"] d1(2)
    by (simp add: List.map_filter_simps split: option.splits)
qed (simp add: list_writes_def List.map_filter_simps)

lemma copy_lists:
  assumes "rfold (copy_write plan copied) dst (concat (map list_writes (map snd kvs))) = Inr dst'"
    and "lists_ok n kvs" and "\<And>k. own_has kvs k \<Longrightarrow> \<not> own_has (list_values dst) k"
  shows "dst' = dst\<lparr>list_values := list_values dst @ List.map_filter (forked_list plan copied) kvs\<rparr>"
  using assms
proof (induction kvs arbitrary: dst)
  case (Cons kv kvs)
  obtain k a els where kv: "kv = (k, a, els)" by (cases kv) auto
  have ok: "address_ok a" "k = physical_key (namespace a) (akey a)" "lists_ok n kvs" "\<not> own_has kvs k"
    using Cons.prems(2) by (auto simp: kv lists_ok_def own_ok_def own_has_def)
  have new: "\<not> own_has (list_values dst) k" using Cons.prems(3) [of k] by (simp add: kv)
  obtain dst1 where d1: "rfold (copy_write plan copied) dst (list_writes (a, els)) = Inr dst1"
    "rfold (copy_write plan copied) dst1 (concat (map list_writes (map snd kvs))) = Inr dst'"
    using Cons.prems(1) by (auto simp: kv rfold_append result_simps)
  have dst1: "dst1 = put_list dst k a (List.map_filter (forked_element plan copied a) els)"
    using copy_list [of plan copied dst k a "[]" els dst1] d1(1) ok(1,2) new by (simp add: put_list_def)
  have "\<not> own_has (list_values dst1) i" if "own_has kvs i" for i
    using Cons.prems(3) [of i] ok(4) that by (auto simp: dst1 kv put_list_def own_has_def)
  then show ?case using Cons.IH [OF d1(2) ok(3)]
    by (auto simp: dst1 kv put_list_def forked_list_def Let_def List.map_filter_simps split: option.splits)
qed (simp add: List.map_filter_simps)

definition fork_state :: "'n::{zero,plus} storage_state \<Rightarrow> fork_plan \<Rightarrow> string list \<Rightarrow> 'n storage_state" where
  "fork_state st plan sel = (let copied = is_copied plan sel; kept = filter (\<lambda>e. copied (eid e)) (entries_by_seq st) in
     \<lparr>entries = map (\<lambda>e. (eid e, e)) kept, entries_by_seq = kept,
      scalar_values = List.map_filter (forked_scalar plan copied) (scalar_values st),
      list_values = List.map_filter (forked_list plan copied) (list_values st), usage_rows = [],
      stats = \<lparr>message_count = length (filter (\<lambda>e. etype e = TMessage) kept), stats_usage = empty_usage\<rparr>,
      next_seq = next_seq st\<rparr>)"

lemma create_fork_state:
  assumes "storage_ok st" and "create_fork st opts = Some (Inr st')"
  obtains plan sel where "select_fork_plan st opts = Some (Inr (plan, sel))" and "st' = fork_state st plan sel"
proof -
  obtain plan sel where sel: "select_fork_plan st opts = Some (Inr (plan, sel))"
    using assms(2) by (cases "select_fork_plan st opts"; cases "the (select_fork_plan st opts)")
      (auto simp: create_fork_def)
  let ?copied = "is_copied plan sel"
  let ?kept = "filter (\<lambda>e. ?copied (eid e)) (entries_by_seq st)"
  let ?dst = "\<lparr>entries = map (\<lambda>e. (eid e, e)) ?kept, entries_by_seq = ?kept, scalar_values = [], list_values = [],
     usage_rows = [], stats = \<lparr>message_count = length (filter (\<lambda>e. etype e = TMessage) ?kept),
     stats_usage = empty_usage\<rparr>, next_seq = 1\<rparr> :: 'a storage_state"
  have ok: "entries_ok_st st" "values_ok (next_seq st) (scalar_values st)" "lists_ok (next_seq st) (list_values st)"
    using assms(1) by (simp_all add: storage_ok_def)
  have "foldl copy_entry (new_storage_state :: 'a storage_state) ?kept =
      new_storage_state\<lparr>entries := map (\<lambda>e. (eid e, e)) ?kept, entries_by_seq := ?kept\<rparr>"
    using ok(1) copy_entries [of ?kept "new_storage_state :: 'a storage_state"]
    by (simp add: new_storage_state_def entries_ok_st_def distinct_map_filter)
  then obtain dst2 dst3 where d:
    "rfold (copy_write plan ?copied) ?dst (map scalar_write (map snd (scalar_values st))) = Inr dst2"
    "rfold (copy_write plan ?copied) dst2 (concat (map list_writes (map snd (list_values st)))) = Inr dst3"
    "st' = dst3\<lparr>next_seq := next_seq st\<rparr>"
    using assms(2) sel
    by (auto simp: create_fork_def Let_def new_storage_state_def empty_stats_def result_simps)
  have "dst2 = ?dst\<lparr>scalar_values := List.map_filter (forked_scalar plan ?copied) (scalar_values st)\<rparr>"
    using copy_scalars [OF d(1) ok(2)] by simp
  moreover from this have "dst3 = dst2\<lparr>list_values := List.map_filter (forked_list plan ?copied) (list_values st)\<rparr>"
    using copy_lists [OF d(2) ok(3)] by simp
  ultimately have "st' = fork_state st plan sel" using d(3) by (simp add: fork_state_def Let_def)
  then show thesis using sel that by blast
qed

lemma map_filter_set: "y \<in> set (List.map_filter f xs) \<longleftrightarrow> (\<exists>x \<in> set xs. f x = Some y)"
  by (force simp: List.map_filter_def)

lemma forked_elements_ok:
  assumes "sorted_wrt (\<lambda>x y. lseq x < lseq y) els" and "\<forall>x \<in> set els. lseq x < n"
  shows "sorted_wrt (\<lambda>x y. lseq x < lseq y) (List.map_filter (forked_element plan copied a) els) \<and>
    (\<forall>x \<in> set (List.map_filter (forked_element plan copied a) els). \<exists>y \<in> set els. lseq x = lseq y)"
  using assms
proof (induction els)
  case (Cons x els)
  let ?rest = "List.map_filter (forked_element plan copied a) els"
  have IH: "sorted_wrt (\<lambda>x y. lseq x < lseq y) ?rest" "\<forall>z \<in> set ?rest. \<exists>y \<in> set els. lseq z = lseq y"
    using Cons by auto
  show ?case
  proof (cases "forked_element plan copied a x")
    case None
    then show ?thesis using IH by (auto simp: List.map_filter_simps)
  next
    case (Some y)
    then have y: "lseq y = lseq x" by (auto simp: forked_element_def split: sum.splits option.splits)
    have "\<forall>z \<in> set ?rest. lseq y < lseq z" using IH(2) Cons.prems(1) y by fastforce
    then show ?thesis using IH Some y by (auto simp: List.map_filter_simps)
  qed
qed (simp add: List.map_filter_simps)

lemma parents_ok_filter:
  assumes "parents_ok B es" and "\<And>e p. e \<in> set es \<Longrightarrow> P (eid e) \<Longrightarrow> parent_id e = Some p \<Longrightarrow> P p"
  shows "parents_ok {i \<in> B. P i} (filter (\<lambda>e. P (eid e)) es)"
  using assms
proof (induction es arbitrary: B)
  case (Cons e es)
  have IH: "parents_ok {i \<in> insert (eid e) B. P i} (filter (\<lambda>e. P (eid e)) es)"
    using Cons.prems by (intro Cons.IH) auto
  show ?case
  proof (cases "P (eid e)")
    case True
    then have "{i \<in> insert (eid e) B. P i} = insert (eid e) {i \<in> B. P i}" by auto
    then have "parents_ok (insert (eid e) {i \<in> B. P i}) (filter (\<lambda>e. P (eid e)) es)" using IH by simp
    moreover have "p \<in> {i \<in> B. P i}" if "parent_id e = Some p" for p
      using Cons.prems(1) Cons.prems(2) [of e p] that True by simp
    ultimately show ?thesis using True by simp
  next
    case False
    then have "{i \<in> insert (eid e) B. P i} = {i \<in> B. P i}" by auto
    then have "parents_ok {i \<in> B. P i} (filter (\<lambda>e. P (eid e)) es)" using IH by simp
    then show ?thesis using False by simp
  qed
qed simp

lemma select_branch_selected:
  assumes "entries_ok_st st" and "select_branch_fork b entry position tip (parent_in st) = Some (Inr (plan, sel))"
  obtains xs sub where "plan = BranchPlan b (head_ref (fork_path position sub))"
    "sel = map eid (fork_path position sub)" "known_path st (xs @ sub)" "tip = Some (entry_ref (head_ref (xs @ sub)))"
    "set (xs @ sub) \<subseteq> set (entries_by_seq st)" "sorted_wrt (\<lambda>a b. seq a > seq b) (xs @ sub)"
    "entry = None \<and> xs = [] \<or> sub \<noteq> [] \<and> entry = head_ref sub"
proof (rule select_branch_cases [OF assms(1), of b entry position tip])
  fix err
  assume "select_branch_fork b entry position tip (parent_in st) = Some (Inl err)"
  then show thesis using assms(2) by simp
next
  fix xs sub
  assume a: "select_branch_fork b entry position tip (parent_in st) =
      Some (Inr (BranchPlan b (head_ref (fork_path position sub)), map eid (fork_path position sub)))"
    and rest: "known_path st (xs @ sub)" "tip = Some (entry_ref (head_ref (xs @ sub)))"
    "set (xs @ sub) \<subseteq> set (entries_by_seq st)" "sorted_wrt (\<lambda>a b. seq a > seq b) (xs @ sub)"
    "entry = None \<and> xs = [] \<or> sub \<noteq> [] \<and> entry = head_ref sub"
  have "plan = BranchPlan b (head_ref (fork_path position sub))" "sel = map eid (fork_path position sub)"
    using a assms(2) by auto
  then show thesis using that rest by blast
qed

lemma select_branch_returns:
  "entries_ok_st st \<Longrightarrow> \<exists>r. select_branch_fork b entry position tip (parent_in st) = Some r"
  by (rule select_branch_cases [of st b entry position tip]) blast+

lemma select_branch_plan:
  assumes "select_fork_plan st (ForkBranch b entry position) = Some (Inr (plan, sel))"
  shows "\<exists>tip. tip = map_option svalue (get_value st (branch_tip b)) \<and>
      select_branch_fork b entry position tip (parent_in st) = Some (Inr (plan, sel)) \<and>
      get_value st (lane_config b) \<noteq> None \<and> get_value st (lane_state b) \<noteq> None"
proof -
  let ?s = "select_branch_fork b entry position (map_option svalue (get_value st (branch_tip b))) (parent_in st)"
  have "(\<lambda>i. map_option parent_id (own_get (entries st) i)) = parent_in st" by (simp add: entry_of_def fun_eq_iff)
  then show ?thesis using assms
    by (cases ?s; cases "the ?s") (auto simp: select_fork_plan_def split: if_splits)
qed

lemma selected_parents:
  assumes "entries_ok_st st" and "select_fork_plan st opts = Some (Inr (plan, sel))"
    and "e \<in> set (entries_by_seq st)" and "is_copied plan sel (eid e)" and "parent_id e = Some p"
  shows "is_copied plan sel p"
proof (cases opts)
  case (ForkBranch b entry position)
  obtain tip where s: "select_branch_fork b entry position tip (parent_in st) = Some (Inr (plan, sel))"
    using select_branch_plan assms(2) ForkBranch by blast
  obtain xs sub where x: "plan = BranchPlan b (head_ref (fork_path position sub))"
    "sel = map eid (fork_path position sub)" "known_path st (xs @ sub)" "set (xs @ sub) \<subseteq> set (entries_by_seq st)"
    using select_branch_selected [OF assms(1) s] by metis
  obtain zs where zs: "xs @ sub = zs @ fork_path position sub"
    using fork_path_suffix [of position sub] by (metis append_assoc suffixE)
  obtain f where f: "f \<in> set (fork_path position sub)" "eid f = eid e" using assms(4) x(1,2) by (auto simp: is_copied_def)
  have "f \<in> set (entries_by_seq st)" using f(1) zs x(4) by (metis Un_iff set_append subsetD)
  then have "f = e" using f(2) assms(1,3) by (auto simp: entries_ok_st_def distinct_map inj_on_def)
  then obtain us vs where uv: "fork_path position sub = us @ e # vs" using f(1) by (metis split_list)
  have "known_path st (e # vs)"
  proof -
    have p: "is_path (entry_of st) ((zs @ us) @ e # vs)" using x(3) zs uv by (auto simp: known_path_def)
    have "entry_of st (eid e) = Some e" using assms(1,3) entry_of_iff by blast
    then show ?thesis using is_path_suffix [OF p] by (simp add: known_path_def)
  qed
  then have "head_ref vs = Some p"
    using known_path_Cons [of st e vs] assms(1,3,5) entry_of_iff [OF assms(1), of "eid e" e] by auto
  then have "p \<in> eid ` set vs" by (cases vs) (auto simp: head_ref_def)
  then show ?thesis using x(1,2) uv by (auto simp: is_copied_def)
qed (use assms(2) in \<open>simp add: select_fork_plan_def is_copied_def\<close>)

lemma fork_state_ok:
  assumes "storage_ok st" and "select_fork_plan st opts = Some (Inr (plan, sel))"
  shows "storage_ok (fork_state st plan sel)"
proof -
  let ?copied = "is_copied plan sel" and ?n = "next_seq st"
  have ok: "1 \<le> ?n" "entries_ok_st st" "values_ok ?n (scalar_values st)" "lists_ok ?n (list_values st)"
    using assms(1) by (simp_all add: storage_ok_def)
  let ?kept = "filter (\<lambda>e. ?copied (eid e)) (entries_by_seq st)"
  have "parents_ok {} ?kept"
    using parents_ok_filter [of "{}" "entries_by_seq st" ?copied] selected_parents [OF ok(2) assms(2)] ok(2)
    by (simp add: entries_ok_st_def)
  then have e: "entries_ok_st (fork_state st plan sel)"
    using ok(2) by (auto simp: entries_ok_st_def fork_state_def Let_def distinct_map_filter intro: sorted_wrt_filter)
  have "own_ok (List.map_filter (forked_scalar plan ?copied) (scalar_values st))"
    using ok(3) by (intro map_filter_keys(2))
      (auto simp: forked_scalar_def values_ok_def split: sum.splits option.splits)
  then have v: "values_ok ?n (List.map_filter (forked_scalar plan ?copied) (scalar_values st))"
    using ok(3) by (fastforce simp: values_ok_def map_filter_set forked_scalar_def split: sum.splits option.splits)
  have "own_ok (List.map_filter (forked_list plan ?copied) (list_values st))"
    using ok(4) by (intro map_filter_keys(2)) (auto simp: forked_list_def Let_def lists_ok_def split: if_splits)
  moreover have "address_ok a \<and> k = physical_key (namespace a) (akey a) \<and> els' \<noteq> [] \<and>
      sorted_wrt (\<lambda>x y. lseq x < lseq y) els' \<and> (\<forall>x \<in> set els'. lseq x < ?n)"
    if m: "(k, a, els') \<in> set (List.map_filter (forked_list plan ?copied) (list_values st))" for k a els'
  proof -
    obtain els where els: "(k, a, els) \<in> set (list_values st)" "els' = List.map_filter (forked_element plan ?copied a) els"
      "els' \<noteq> []"
    proof -
      obtain kv where kv: "kv \<in> set (list_values st)" "forked_list plan ?copied kv = Some (k, a, els')"
        using m map_filter_set by metis
      obtain k' a' els where "kv = (k', a', els)" by (cases kv) auto
      then show thesis using kv by (intro that [of els]) (auto simp: forked_list_def Let_def split: if_splits)
    qed
    have "address_ok a" "k = physical_key (namespace a) (akey a)" "sorted_wrt (\<lambda>x y. lseq x < lseq y) els"
      "\<forall>x \<in> set els. lseq x < ?n"
      using ok(4) els(1) by (auto simp: lists_ok_def)
    then show ?thesis using forked_elements_ok [of els ?n plan ?copied a] els(2,3) by auto
  qed
  ultimately have l: "lists_ok ?n (List.map_filter (forked_list plan ?copied) (list_values st))"
    by (auto simp: lists_ok_def)
  show ?thesis using ok(1) e v l by (simp add: storage_ok_def) (simp add: fork_state_def Let_def totals_def)
qed

lemma select_fork_returns: "entries_ok_st st \<Longrightarrow> select_fork_plan st opts \<noteq> None"
proof (cases opts)
  case (ForkBranch b entry position)
  assume ok: "entries_ok_st st"
  have "(\<lambda>i. map_option parent_id (own_get (entries st) i)) = parent_in st" by (simp add: entry_of_def fun_eq_iff)
  then show ?thesis
    using select_branch_returns [OF ok, of b entry position "map_option svalue (get_value st (branch_tip b))"] ForkBranch
    by (auto simp: select_fork_plan_def simp del: not_None_eq)
qed (simp add: select_fork_plan_def)

lemma create_fork_returns: "storage_ok st \<Longrightarrow> \<exists>r. create_fork st opts = Some r"
  using select_fork_returns [of st opts] by (auto simp: storage_ok_def create_fork_def)

text \<open>
  C39. Forking ends on every session state, and the forked session keeps the invariant of its source,
  whatever is forked: ids stay unique, every copied entry's parent is copied, order and totals are those
  of what was copied.
\<close>

theorem fork_keeps_storage:
  assumes "storage_ok st"
  shows "\<exists>r. create_fork st opts = Some r \<and> (\<forall>st'. r = Inr st' \<longrightarrow> storage_ok st')"
proof -
  obtain r where r: "create_fork st opts = Some r" using create_fork_returns [OF assms] by blast
  have "storage_ok st'" if "r = Inr st'" for st'
    using create_fork_state [OF assms, of opts st'] fork_state_ok [OF assms] r that by metis
  then show ?thesis using r by blast
qed

theorem fork_keeps_storage_witness:
  "\<exists>st'. create_fork demo_session (ForkBranch ''main'' None (Some Before)) = Some (Inr st') \<and> storage_ok st'"
proof -
  have "map_option (map_sum id next_seq) (create_fork demo_session (ForkBranch ''main'' None (Some Before))) =
      Some (Inr (next_seq demo_session))" by code_simp
  from map_result_Inr [OF this] obtain st' where
    "create_fork demo_session (ForkBranch ''main'' None (Some Before)) = Some (Inr st')" by blast
  then show ?thesis using fork_keeps_storage [OF demo_session_ok, of "ForkBranch ''main'' None (Some Before)"] by simp
qed

section \<open>What a fork copies\<close>

lemma sorted_wrt_same:
  assumes "sorted_wrt R xs" and "sorted_wrt R ys" and "set xs = set ys" and "\<And>a b. R a b \<Longrightarrow> \<not> R b a"
  shows "xs = ys"
  using assms(1-3)
proof (induction xs arbitrary: ys)
  case (Cons x xs)
  then obtain y ys' where ys: "ys = y # ys'" by (cases ys) auto
  have irr: "\<not> R a a" for a using assms(4) by blast
  have xy: "x = y"
  proof (rule ccontr)
    assume "x \<noteq> y"
    then have "R x y" "R y x" using Cons.prems ys by auto
    then show False using assms(4) by blast
  qed
  have "x \<notin> set xs" "y \<notin> set ys'" using Cons.prems ys irr by auto
  then have "set xs = set ys'" using Cons.prems(3) ys xy insert_ident [of x "set xs" "set ys'"] by simp
  then show ?case using Cons ys xy by simp
qed simp

lemma stored_address_of:
  assumes "values_ok n kvs" and "own_get kvs (physical_key (namespace a) (akey a)) = Some v" and "nul \<notin> set (namespace a)"
  shows "namespace (saddress v) = namespace a \<and> akey (saddress v) = akey a"
proof -
  have "address_ok (saddress v) \<and>
      physical_key (namespace a) (akey a) = physical_key (namespace (saddress v)) (akey (saddress v))"
    using assms(1) map_of_SomeD [OF assms(2)] by (auto simp: values_ok_def)
  moreover from this have "nul \<notin> set (namespace (saddress v))"
    by (auto simp: address_ok_def validate_address_def split: if_splits)
  ultimately show ?thesis using physical_key_inj assms(3) by metis
qed

lemma own_get_map_filter:
  assumes "\<And>x y. f x = Some y \<Longrightarrow> fst y = fst x" and "own_ok kvs"
  shows "own_get (List.map_filter f kvs) k = Option.bind (own_get kvs k) (\<lambda>v. map_option snd (f (k, v)))"
  using assms(2)
proof (induction kvs)
  case (Cons kv kvs)
  obtain k' v where kv: "kv = (k', v)" by fastforce
  have ok: "own_ok kvs" and new: "k = k' \<Longrightarrow> own_get kvs k = None"
    using Cons.prems by (auto simp: kv own_ok_def map_of_eq_None_iff)
  show ?case
  proof (cases "f kv")
    case (Some y)
    then have "fst y = k'" using assms(1) kv by fastforce
    then show ?thesis using Cons.IH [OF ok] new Some kv by (cases y) (simp add: List.map_filter_simps)
  qed (use Cons.IH [OF ok] new kv in \<open>simp add: List.map_filter_simps\<close>)
qed (simp add: List.map_filter_simps)

lemma fork_state_value:
  assumes "storage_ok st" and "nul \<notin> set (namespace a)"
  shows "get_value (fork_state st plan sel) a = Option.bind (get_value st a) (\<lambda>u.
    case project_value plan (is_copied plan sel) (namespace a) (akey a) (svalue u) of
      Inr (Some v) \<Rightarrow> Some \<lparr>saddress = saddress u, svalue = v, sseq = sseq u\<rparr> | _ \<Rightarrow> None)"
proof -
  have ok: "values_ok (next_seq st) (scalar_values st)" using assms(1) by (simp add: storage_ok_def)
  have "get_value (fork_state st plan sel) a = Option.bind (get_value st a) (\<lambda>u. map_option snd
      (forked_scalar plan (is_copied plan sel) (physical_key (namespace a) (akey a), u)))"
    unfolding get_value_def fork_state_def Let_def using ok
    by (simp, intro own_get_map_filter) (auto simp: forked_scalar_def values_ok_def split: sum.splits option.splits)
  then show ?thesis using stored_address_of [OF ok _ assms(2)]
    by (cases "get_value st a") (auto simp: get_value_def forked_scalar_def split: sum.splits option.splits)
qed

lemma branch_tip_parts: "namespace (branch_tip b) = ''pi.branch.tip''" "akey (branch_tip b) = b"
  by (simp_all add: branch_tip_def)

text \<open>
  C35. A branch fork copies exactly one path. The requested entry (the source tip when none is given)
  lies on the ancestry of the source tip; the entries of the destination are the path from it to the
  root, without it when the fork stops before it; and the tip of the branch in the destination is the
  head of that path, so that it is a branch of the destination again.
\<close>

theorem branch_fork_exact:
  assumes "storage_ok st" and "create_fork st (ForkBranch b entry position) = Some (Inr st')"
  shows "\<exists>xs sub. known_path st (xs @ sub) \<and>
    map_option svalue (get_value st (branch_tip b)) = Some (entry_ref (head_ref (xs @ sub))) \<and>
    (entry = None \<and> xs = [] \<or> sub \<noteq> [] \<and> entry = head_ref sub) \<and>
    entries_by_seq st' = rev (fork_path position sub) \<and> known_path st' (fork_path position sub) \<and>
    map_option svalue (get_value st' (branch_tip b)) = Some (entry_ref (head_ref (fork_path position sub)))"
proof -
  have ok: "entries_ok_st st" using assms(1) by (simp add: storage_ok_def)
  obtain plan sel where p: "select_fork_plan st (ForkBranch b entry position) = Some (Inr (plan, sel))"
    "st' = fork_state st plan sel"
    using create_fork_state [OF assms] by blast
  obtain xs sub where x: "plan = BranchPlan b (head_ref (fork_path position sub))"
    "sel = map eid (fork_path position sub)" "known_path st (xs @ sub)"
    "map_option svalue (get_value st (branch_tip b)) = Some (entry_ref (head_ref (xs @ sub)))"
    "set (xs @ sub) \<subseteq> set (entries_by_seq st)" "sorted_wrt (\<lambda>a b. seq a > seq b) (xs @ sub)"
    "entry = None \<and> xs = [] \<or> sub \<noteq> [] \<and> entry = head_ref sub"
    using select_branch_plan [OF p(1)] select_branch_selected [OF ok] by metis
  let ?path = "fork_path position sub"
  obtain zs where zs: "xs @ sub = zs @ ?path"
    using fork_path_suffix [of position sub] by (metis append_assoc suffixE)
  have sub: "set ?path \<subseteq> set (entries_by_seq st)" "sorted_wrt (\<lambda>a b. seq a > seq b) ?path"
    using x(5,6) by (simp_all add: zs sorted_wrt_append)
  have "inj_on eid (set (entries_by_seq st))" using ok by (simp add: entries_ok_st_def distinct_map)
  then have "set (entries_by_seq st') = set ?path"
    using sub(1) x(1,2) p(2) by (auto simp: fork_state_def Let_def is_copied_def inj_on_def)
  moreover have "sorted_wrt (\<lambda>a b. seq a < seq b) (entries_by_seq st')"
    using ok p(2) by (auto simp: fork_state_def Let_def entries_ok_st_def intro: sorted_wrt_filter)
  moreover have "sorted_wrt (\<lambda>a b. seq a < seq b) (rev ?path)" using sub(2) by (simp add: sorted_wrt_rev)
  ultimately have ents: "entries_by_seq st' = rev ?path"
    by (intro sorted_wrt_same [of "\<lambda>a b. seq a < seq b"]) auto
  have "entries_ok_st st'" using fork_state_ok [OF assms(1) p(1)] p(2) by (simp add: storage_ok_def)
  then have known: "entry_of st' (eid e) = Some e" if "e \<in> set ?path" for e
    using entry_of_iff ents that by (metis set_rev)
  have "known_path st' ?path"
  proof (cases "?path = []")
    case False
    have "is_path (entry_of st) ?path" using x(3) zs False is_path_suffix [of "entry_of st" zs ?path]
      by (auto simp: known_path_def)
    then have "is_path (entry_of st') ?path" using known by (rule is_path_other)
    then show ?thesis using known [of "hd ?path"] False by (simp add: known_path_def)
  qed (simp add: known_path_def)
  moreover have "map_option svalue (get_value st' (branch_tip b)) = Some (entry_ref (head_ref ?path))"
    using x(1,4) p(2) fork_state_value [OF assms(1), of "branch_tip b" plan sel]
    by (auto simp: project_value_def branch_tip_parts nul_def)
  ultimately show ?thesis using x(3,4,7) ents by blast
qed

lemma demo_fork:
  obtains st' where "create_fork demo_session (ForkBranch ''main'' None (Some Before)) = Some (Inr st')"
    and "map eid (entries_by_seq st') = [''e1'']"
proof -
  have "map_option (map_sum id (\<lambda>st'. map eid (entries_by_seq st')))
      (create_fork demo_session (ForkBranch ''main'' None (Some Before))) = Some (Inr [''e1''])" by code_simp
  from map_result_Inr [OF this] obtain st' where
    "create_fork demo_session (ForkBranch ''main'' None (Some Before)) = Some (Inr st')"
    "map eid (entries_by_seq st') = [''e1'']" by auto
  then show thesis by (rule that)
qed

theorem branch_fork_exact_witness:
  "\<exists>xs sub st'. create_fork demo_session (ForkBranch ''main'' None (Some Before)) = Some (Inr st') \<and>
    known_path demo_session (xs @ sub) \<and> map eid (rev (fork_path (Some Before) sub)) = [''e1''] \<and>
    map_option svalue (get_value st' (branch_tip ''main'')) = Some (entry_ref (head_ref (fork_path (Some Before) sub)))"
proof (rule demo_fork)
  fix st'
  assume f: "create_fork demo_session (ForkBranch ''main'' None (Some Before)) = Some (Inr st')"
    "map eid (entries_by_seq st') = [''e1'']"
  obtain xs sub where x: "known_path demo_session (xs @ sub)" "entries_by_seq st' = rev (fork_path (Some Before) sub)"
    "map_option svalue (get_value st' (branch_tip ''main'')) = Some (entry_ref (head_ref (fork_path (Some Before) sub)))"
    using branch_fork_exact [OF demo_session_ok f(1)] by blast
  have "map eid (rev (fork_path (Some Before) sub)) = [''e1'']" using f(2) x(2) by simp
  then show ?thesis using x(1,3) f(1) by (intro exI conjI)
qed

text \<open>
  A fork is isolated from the work its source has in flight. Nothing of an operation, a pending
  queue or a result is copied, and no usage row; a lane arrives idle; the application's own values
  are copied by a tree fork only; a branch fork holds the tip, configuration and state of its branch
  alone and the labels of copied entries alone. What is copied otherwise keeps its value and its
  sequence number.
\<close>

theorem fork_isolates:
  assumes "storage_ok st" and "create_fork st opts = Some (Inr st')" and "nul \<notin> set (namespace a)"
    and "get_value st' a = Some v"
  shows "usage_rows st' = [] \<and>
    \<not> prefix ''pi.op.'' (namespace a) \<and> \<not> prefix ''pi.pending.'' (namespace a) \<and> namespace a \<noteq> ''pi.result'' \<and>
    (\<exists>u. get_value st a = Some u \<and> sseq v = sseq u \<and>
      (namespace a = ''pi.lane.state'' \<longrightarrow> svalue v = idle_lane) \<and>
      (namespace a \<notin> {''pi.lane.state'', ''pi.branch.tip''} \<longrightarrow> svalue v = svalue u)) \<and>
    (\<forall>b entry position. opts = ForkBranch b entry position \<longrightarrow>
      namespace a \<in> {''pi.session.name'', ''pi.entry.label'', ''pi.branch.tip'', ''pi.lane.config'', ''pi.lane.state''} \<and>
      (namespace a \<in> {''pi.branch.tip'', ''pi.lane.config'', ''pi.lane.state''} \<longrightarrow> akey a = b) \<and>
      (namespace a = ''pi.entry.label'' \<longrightarrow> akey a \<in> eid ` set (entries_by_seq st')))"
proof -
  obtain plan sel where p: "select_fork_plan st opts = Some (Inr (plan, sel))" "st' = fork_state st plan sel"
    using create_fork_state [OF assms(1,2)] by blast
  obtain u w where u: "get_value st a = Some u"
    "project_value plan (is_copied plan sel) (namespace a) (akey a) (svalue u) = Inr (Some w)"
    "svalue v = w" "sseq v = sseq u"
    using assms(4) fork_state_value [OF assms(1,3), of plan sel] p(2)
    by (cases "get_value st a") (auto split: sum.splits option.splits)
  have none: "usage_rows st' = []" by (simp add: p(2) fork_state_def Let_def)
  have all: "\<not> prefix ''pi.op.'' (namespace a) \<and> \<not> prefix ''pi.pending.'' (namespace a) \<and>
      namespace a \<noteq> ''pi.result'' \<and> (namespace a = ''pi.lane.state'' \<longrightarrow> w = idle_lane) \<and>
      (namespace a \<notin> {''pi.lane.state'', ''pi.branch.tip''} \<longrightarrow> w = svalue u)"
    using u(2) by (auto simp: project_value_def split: if_splits fork_plan.splits)
  have branch: "namespace a \<in> {''pi.session.name'', ''pi.entry.label'', ''pi.branch.tip'', ''pi.lane.config'', ''pi.lane.state''} \<and>
      (namespace a \<in> {''pi.branch.tip'', ''pi.lane.config'', ''pi.lane.state''} \<longrightarrow> akey a = b) \<and>
      (namespace a = ''pi.entry.label'' \<longrightarrow> akey a \<in> eid ` set (entries_by_seq st'))"
    if opts: "opts = ForkBranch b entry position" for b entry position
  proof -
    have ok: "entries_ok_st st" using assms(1) by (simp add: storage_ok_def)
    obtain xs sub where x: "plan = BranchPlan b (head_ref (fork_path position sub))"
      "sel = map eid (fork_path position sub)" "set (xs @ sub) \<subseteq> set (entries_by_seq st)"
      using p(1) select_branch_plan select_branch_selected [OF ok] unfolding opts by metis
    have "set (fork_path position sub) \<subseteq> set (entries_by_seq st)"
      using x(3) set_mono_suffix [OF fork_path_suffix [of position sub]] by auto
    then have "set sel \<subseteq> eid ` set (entries_by_seq st')"
      using x(1,2) by (auto simp: p(2) fork_state_def Let_def is_copied_def)
    then show ?thesis using u(2) x(1)
      by (auto simp: project_value_def is_copied_def split: if_splits)
  qed
  show ?thesis
  proof (intro conjI allI impI)
    fix b entry position
    assume opts: "opts = ForkBranch b entry position"
    show "namespace a \<in> {''pi.session.name'', ''pi.entry.label'', ''pi.branch.tip'', ''pi.lane.config'', ''pi.lane.state''}"
      using branch [OF opts] by blast
    show "akey a = b" if "namespace a \<in> {''pi.branch.tip'', ''pi.lane.config'', ''pi.lane.state''}"
      using branch [OF opts] that by blast
    show "akey a \<in> eid ` set (entries_by_seq st')" if "namespace a = ''pi.entry.label''"
      using branch [OF opts] that by blast
  qed (use none all u in simp_all)
qed

theorem fork_isolates_witness:
  "\<exists>st' v. create_fork demo_session (ForkBranch ''main'' None (Some Before)) = Some (Inr st') \<and>
    get_value st' (lane_state ''main'') = Some v \<and> svalue v = idle_lane \<and> usage_rows st' = []"
proof (rule demo_fork)
  fix st'
  assume f: "create_fork demo_session (ForkBranch ''main'' None (Some Before)) = Some (Inr st')"
  have "map_option (map_sum id (\<lambda>st'. get_value st' (lane_state ''main'') \<noteq> None))
      (create_fork demo_session (ForkBranch ''main'' None (Some Before))) = Some (Inr True)" by code_simp
  then obtain v where v: "get_value st' (lane_state ''main'') = Some v" using f by auto
  have a: "nul \<notin> set (namespace (lane_state ''main''))" "namespace (lane_state ''main'') = ''pi.lane.state''"
    by (simp_all add: lane_state_def nul_def)
  show ?thesis using fork_isolates [OF demo_session_ok f a(1) v] f v a(2) by blast
qed

end
