(* ===== verification/SessionBranch.thy ===== *)
theory SessionBranch
  imports SessionPath
begin

text \<open>
  The typed session over a storage, \<open>session/session.ts\<close>: branches, the single commit of a mutation,
  the read-modify-write jobs, entry queries with cursors; and the context a branch gives a model call,
  \<open>session/context.ts\<close>. A job is what a mutation callback does: it reads the storage it was granted
  and names the writes of its one commit.
\<close>

section \<open>Mutations\<close>

datatype session_error =
    SessionClosed
  | SessionInvariant string
  | InvalidBranch string string
  | BranchExists string
  | PendingMessage
  | UnknownTarget string
  | TipNotEntry json
  | MutatorInactive
  | CommitAttempted
  | StorageFailed storage_error

fun is_pending_message :: "agent_message \<Rightarrow> bool" where
  "is_pending_message m \<longleftrightarrow> role m = ''assistant'' \<and> stop m = Some SPending"

fun writes_pending :: "'n new_write \<Rightarrow> bool" where
  "writes_pending (WEntry e) = (case body e of Message m _ \<Rightarrow> is_pending_message m | _ \<Rightarrow> False)"
| "writes_pending _ = False"

record mutation =
  active :: bool
  attempted :: bool

definition new_mutation :: mutation where
  "new_mutation = \<lparr>active = True, attempted = False\<rparr>"

text \<open>\<open>StorageBackedSessionMutation.commit\<close>: one attempt, whether it succeeds or not.\<close>

definition mutation_commit :: "mutation \<Rightarrow> 'n::{zero,plus} storage_state \<Rightarrow> 'n new_write list \<Rightarrow> int \<Rightarrow>
    mutation \<times> 'n storage_state \<times> (session_error + 'n prepared_commit \<times> 'n session_stats)" where
  "mutation_commit m st ws ts =
    (if \<not> active m then (m, st, Inl MutatorInactive)
     else if attempted m then (m, st, Inl CommitAttempted)
     else if list_ex writes_pending ws then (m\<lparr>attempted := True\<rparr>, st, Inl PendingMessage)
     else (case commit_storage st ws ts of
         (st', Inl e) \<Rightarrow> (m\<lparr>attempted := True\<rparr>, st', Inl (StorageFailed e))
       | (st', Inr r) \<Rightarrow> (m\<lparr>attempted := True\<rparr>, st', Inr r)))"

definition end_mutation :: "mutation \<Rightarrow> mutation" where
  "end_mutation m = m\<lparr>active := False\<rparr>"

type_synonym 'n job = "'n storage_state \<Rightarrow> session_error + 'n new_write list"

text \<open>\<open>mutate\<close> with the callbacks of this file: read, commit once, end.\<close>

definition run_job :: "'n job \<Rightarrow> int \<Rightarrow> 'n::{zero,plus} storage_state \<Rightarrow> 'n storage_state \<times> (session_error + unit)" where
  "run_job job ts st = (case job st of
     Inl e \<Rightarrow> (st, Inl e)
   | Inr ws \<Rightarrow> (case mutation_commit new_mutation st ws ts of (_, st', r) \<Rightarrow> (st', rbind r (\<lambda>_. Inr ()))))"

section \<open>Jobs\<close>

definition assert_valid_branch_name :: "string \<Rightarrow> session_error + unit" where
  "assert_valid_branch_name name =
    (if name = [] then Inl (InvalidBranch name ''branch name must not be empty'')
     else if nul \<in> set name then Inl (InvalidBranch name ''branch name must not contain NUL'')
     else Inr ())"

definition create_branch :: "string \<Rightarrow> string option \<Rightarrow> 'n job" where
  "create_branch name target st = rbind (assert_valid_branch_name name) (\<lambda>_.
     if get_value st (branch_tip name) \<noteq> None then Inl (BranchExists name)
     else if target \<noteq> None \<and> \<not> own_has (get_entries st [the target]) (the target) then Inl (UnknownTarget (the target))
     else Inr [set_value (branch_tip name) (case target of None \<Rightarrow> JNull | Some i \<Rightarrow> JStr i)])"

datatype append_entry = AppendMessage agent_message | AppendCustom string "json option"

fun appended :: "string \<Rightarrow> string option \<Rightarrow> append_entry \<Rightarrow> 'n new_entry" where
  "appended i p (AppendMessage m) = \<lparr>eid = i, parent_id = p, custom_type = None, body = Message m False\<rparr>"
| "appended i p (AppendCustom t d) = \<lparr>eid = i, parent_id = p, custom_type = Some t, body = Custom d\<rparr>"

lemma appended_simps [simp]: "eid (appended i p e) = i" "parent_id (appended i p e) = p"
  by (cases e; simp)+

text \<open>A stored tip that is neither null nor a string names no entry, so the commit would refuse it.\<close>

fun tip_entry :: "json \<Rightarrow> session_error + string option" where
  "tip_entry JNull = Inr None"
| "tip_entry (JStr i) = Inr (Some i)"
| "tip_entry v = Inl (TipNotEntry v)"

definition append_to_branch :: "string \<Rightarrow> append_entry \<Rightarrow> string \<Rightarrow> 'n job" where
  "append_to_branch name e i st =
    (if (case e of AppendMessage m \<Rightarrow> is_pending_message m | _ \<Rightarrow> False) then Inl PendingMessage
     else (case get_value st (branch_tip name) of
         None \<Rightarrow> Inl (SessionInvariant name)
       | Some tip \<Rightarrow> rbind (tip_entry (svalue tip)) (\<lambda>p.
           Inr [WEntry (appended i p e), set_value (branch_tip name) (JStr i)])))"

definition set_value_job :: "address \<Rightarrow> json \<Rightarrow> 'n job" where
  "set_value_job a v st = Inr [set_value a v]"

definition delete_value_job :: "address \<Rightarrow> 'n job" where
  "delete_value_job a st = Inr [delete_value a]"

definition append_list_job :: "address \<Rightarrow> json \<Rightarrow> 'n job" where
  "append_list_job a v st = Inr [append_list a v]"

definition delete_list_job :: "address \<Rightarrow> 'n job" where
  "delete_list_job a st = Inr [delete_list a]"

definition set_name :: "string option \<Rightarrow> 'n job" where
  "set_name n = (case n of None \<Rightarrow> delete_value_job session_name | Some s \<Rightarrow> set_value_job session_name (JStr s))"

definition set_label :: "string \<Rightarrow> string option \<Rightarrow> 'n job" where
  "set_label i l = (case l of None \<Rightarrow> delete_value_job (entry_label i) | Some s \<Rightarrow> set_value_job (entry_label i) (JStr s))"

section \<open>Queries\<close>

definition get_branch_tip :: "'n storage_state \<Rightarrow> string \<Rightarrow> session_error + json" where
  "get_branch_tip st name = (case get_value st (branch_tip name) of
     None \<Rightarrow> Inl (SessionInvariant name) | Some v \<Rightarrow> Inr (svalue v))"

record entry_query =
  eqtype :: "entry_type option"
  eqcustom :: "string option"
  eqorder :: scan_order
  eqlimit :: "int option"
  eqcursor :: "int option"

definition max_safe_seq :: int where
  "max_safe_seq = 9007199254740991"

text \<open>\<open>StorageBackedSession.findEntries\<close>; a query without an order is descending.\<close>

definition find_entries :: "'n storage_state \<Rightarrow> entry_query \<Rightarrow> 'n entry list" where
  "find_entries st q =
    (case eqcursor q of
       Some c \<Rightarrow> if eqorder q = Asc \<and> c = max_safe_seq \<or> eqorder q = Desc \<and> c \<le> 1 then []
         else scan_entries st \<lparr>qtype = eqtype q, qcustom = eqcustom q,
           from_seq = (if eqorder q = Asc then Some (c + 1) else None),
           to_seq = (if eqorder q = Asc then None else Some (c - 1)), qorder = eqorder q, qlimit = eqlimit q\<rparr>
     | None \<Rightarrow> scan_entries st \<lparr>qtype = eqtype q, qcustom = eqcustom q, from_seq = None, to_seq = None,
         qorder = eqorder q, qlimit = eqlimit q\<rparr>)"

definition first_limit :: "int option \<Rightarrow> int option" where
  "first_limit l = (case l of None \<Rightarrow> Some 1 | Some n \<Rightarrow> Some (min n 1))"

definition find_entry :: "'n storage_state \<Rightarrow> entry_query \<Rightarrow> 'n entry option" where
  "find_entry st q = (case find_entries st (q\<lparr>eqlimit := first_limit (eqlimit q)\<rparr>) of [] \<Rightarrow> None | e # _ \<Rightarrow> Some e)"

text \<open>
  \<open>StorageBackedBranch.findEntries\<close>: from the tip unless a start is given; a branch at the root is
  empty. A tip that is no string is no entry id.
\<close>

definition branch_find_entries ::
    "'n storage_state \<Rightarrow> string \<Rightarrow> string option \<Rightarrow> branch_scan \<Rightarrow> (session_error + 'n entry list) option" where
  "branch_find_entries st name from q = (case from of
     Some i \<Rightarrow> map_option (\<lambda>r. case r of Inl e \<Rightarrow> Inl (StorageFailed e) | Inr es \<Rightarrow> Inr es) (scan_branch st (q\<lparr>start := i\<rparr>))
   | None \<Rightarrow> (case rbind (get_branch_tip st name) tip_entry of
       Inl e \<Rightarrow> Some (Inl e)
     | Inr None \<Rightarrow> Some (Inr [])
     | Inr (Some i) \<Rightarrow>
         map_option (\<lambda>r. case r of Inl e \<Rightarrow> Inl (StorageFailed e) | Inr es \<Rightarrow> Inr es) (scan_branch st (q\<lparr>start := i\<rparr>))))"

definition branch_find_entry ::
    "'n storage_state \<Rightarrow> string \<Rightarrow> string option \<Rightarrow> branch_scan \<Rightarrow> (session_error + 'n entry option) option" where
  "branch_find_entry st name from q =
     map_option (\<lambda>r. rbind r (\<lambda>es. Inr (case es of [] \<Rightarrow> None | e # _ \<Rightarrow> Some e)))
       (branch_find_entries st name from (q\<lparr>blimit := first_limit (blimit q)\<rparr>))"

section \<open>Context of a model call\<close>

text \<open>The entries from the last compaction on, the compaction first.\<close>

definition build_context_entries :: "'n entry list \<Rightarrow> 'n entry list" where
  "build_context_entries path =
    (case dropWhile (\<lambda>e. etype e \<noteq> TCompaction) (rev path) of
       [] \<Rightarrow> path
     | c # before \<Rightarrow> c # drop (Suc (length before)) path)"

definition is_context_message :: "agent_message \<Rightarrow> bool" where
  "is_context_message m \<longleftrightarrow> role m \<noteq> ''assistant'' \<or> stop m \<notin> {Some SError, Some SAborted, Some SDeferred}"

datatype 'n context_message =
    Plain agent_message
  | CompactionSummary string 'n int
  | BranchSummaryMessage string "string option" int

definition session_entry_to_context_messages :: "'n entry \<Rightarrow> 'n context_message list" where
  "session_entry_to_context_messages e = (case body e of
     Message m _ \<Rightarrow> (if is_context_message m then [Plain m] else [])
   | Compaction summary tail tokens _ _ _ \<Rightarrow>
       CompactionSummary summary tokens (timestamp e) # map Plain (filter is_context_message tail)
   | BranchSummary from summary _ _ _ \<Rightarrow>
       (if summary \<noteq> [] then [BranchSummaryMessage summary from (timestamp e)] else [])
   | Custom _ \<Rightarrow> [])"

text \<open>Projectors turn custom entries into messages; one that returns nothing gives none.\<close>

definition build_session_context ::
    "'n entry list \<Rightarrow> (string \<Rightarrow> ('n entry \<Rightarrow> 'n context_message list option) option) \<Rightarrow> 'n context_message list" where
  "build_session_context path projectors = concat (map (\<lambda>e.
     if etype e \<noteq> TCustom then session_entry_to_context_messages e
     else (case Option.bind (custom_type e) projectors of
         None \<Rightarrow> []
       | Some project \<Rightarrow> (case project e of None \<Rightarrow> [] | Some ms \<Rightarrow> ms))) (build_context_entries path))"

section \<open>A mutation commits once\<close>

text \<open>
  A mutation's capability is good for one commit attempt while it is active: after any attempt,
  successful or not, and after its end, every further commit is refused and leaves the storage as it is.
\<close>

theorem mutation_commits_once:
  assumes "mutation_commit m st ws ts = (m', st', r)"
  shows "mutation_commit m' st' ws' ts' = (m', st', Inl (if active m then CommitAttempted else MutatorInactive)) \<and>
    mutation_commit (end_mutation m) st ws ts = (end_mutation m, st, Inl MutatorInactive)"
  using assms by (auto simp: mutation_commit_def end_mutation_def split: if_splits prod.splits sum.splits)

theorem mutation_commits_once_witness:
  "mutation_commit \<lparr>active = True, attempted = True\<rparr> (new_storage_state :: int storage_state) [] 8 =
    (\<lparr>active = True, attempted = True\<rparr>, new_storage_state, Inl CommitAttempted)"
proof -
  have "mutation_commit \<lparr>active = True, attempted = True\<rparr> (new_storage_state :: int storage_state) [] 8 =
      (\<lparr>active = True, attempted = True\<rparr>, new_storage_state, Inl CommitAttempted)"
    by (simp add: mutation_commit_def)
  from mutation_commits_once [OF this, of "[]" 8] show ?thesis by simp
qed

lemma commit_storage_Inr:
  assumes "commit_storage st ws ts = (st', Inr r)"
  shows "validate_committed st (commit_writes ws (next_seq st) ts) = Inr ()"
    and "apply_validated st (commit_writes ws (next_seq st) ts) = (st', Inr (snd r))"
  using assms by (auto simp: commit_storage_def prepare_commit_def prepare_storage_commit_def Let_def result_simps
      split: sum.splits prod.splits)

lemma run_job_Inr:
  assumes "run_job job ts st = (st', Inr u)"
  obtains ws r where "job st = Inr ws" and "commit_storage st ws ts = (st', Inr r)"
  using assms by (auto simp: run_job_def mutation_commit_def new_mutation_def result_simps
      split: sum.splits prod.splits if_splits)

lemma run_job_keeps: "storage_ok st \<Longrightarrow> storage_ok (fst (run_job job ts st))"
  using commit_keeps_storage_any [of st]
  by (auto simp: run_job_def mutation_commit_def new_mutation_def split: sum.splits prod.splits if_splits)
     (metis fst_conv)+

section \<open>Branches stay branches\<close>

definition tip_ok :: "'n storage_state \<Rightarrow> json \<Rightarrow> bool" where
  "tip_ok st v \<longleftrightarrow> v = JNull \<or> (\<exists>i. v = JStr i \<and> entry_of st i \<noteq> None)"

definition tips_ok :: "'n storage_state \<Rightarrow> bool" where
  "tips_ok st \<longleftrightarrow> (\<forall>b v. get_value st (branch_tip b) = Some v \<longrightarrow> tip_ok st (svalue v))"

lemma stored_tip_name:
  assumes "storage_ok st" and "get_value st a = Some v" and "nul \<notin> set (namespace a)"
  shows "address_ok a"
proof -
  have v: "values_ok (next_seq st) (scalar_values st)" using assms(1) by (simp add: storage_ok_def)
  have "own_get (scalar_values st) (physical_key (namespace a) (akey a)) = Some v"
    using assms(2) by (simp add: get_value_def)
  from map_of_SomeD [OF this] v have "address_ok (saddress v)"
    "physical_key (namespace a) (akey a) = physical_key (namespace (saddress v)) (akey (saddress v))"
    by (auto simp: values_ok_def)
  moreover from this have "nul \<notin> set (namespace (saddress v))"
    by (auto simp: address_ok_def validate_address_def split: if_splits)
  ultimately show ?thesis using assms(3) physical_key_inj by (metis address_ok_def)
qed

lemma get_value_set:
  fixes a b :: address
  assumes "nul \<notin> set (namespace a)" and "nul \<notin> set (namespace b)"
  shows "own_get (map_set (physical_key (namespace a) (akey a)) v m) (physical_key (namespace b) (akey b)) =
    (if b = a then Some v else own_get m (physical_key (namespace b) (akey b)))"
  using physical_key_inj [OF assms, of "akey a" "akey b"] by (auto simp: map_set_get intro: address.equality)

lemma branch_tip_address: "namespace (branch_tip b) = ''pi.branch.tip''" "akey (branch_tip b) = b"
  "nul \<notin> set (namespace (branch_tip b))"
  by (simp_all add: branch_tip_def nul_def)

lemma branch_tip_inj [simp]: "branch_tip a = branch_tip b \<longleftrightarrow> a = b"
  by (simp add: branch_tip_def)

lemma get_tip_set: "own_get (map_set (physical_key ''pi.branch.tip'' a) v m) (physical_key ''pi.branch.tip'' b) =
    (if b = a then Some v else own_get m (physical_key ''pi.branch.tip'' b))"
  using get_value_set [OF branch_tip_address(3) branch_tip_address(3), of a v m b]
  by (simp only: branch_tip_address(1,2) branch_tip_inj)

lemma append_run:
  fixes st :: "'n::{zero,plus} storage_state"
  assumes "storage_ok st" and "run_job (append_to_branch name e i) ts st = (st', Inr ())"
  obtains tip p where "get_value st (branch_tip name) = Some tip" and "tip_entry (svalue tip) = Inr p"
    and "entry_of st i = None" and "\<And>q. p = Some q \<Longrightarrow> entry_of st q \<noteq> None"
    and "entries_by_seq st' = entries_by_seq st @ [materialize (appended i p e) (next_seq st) ts]"
    and "\<And>b. get_value st' (branch_tip b) = (if b = name
      then Some \<lparr>saddress = branch_tip name, svalue = JStr i, sseq = next_seq st + 1\<rparr> else get_value st (branch_tip b))"
proof -
  obtain ws r where job: "append_to_branch name e i st = Inr ws" "commit_storage st ws ts = (st', Inr r)"
    using run_job_Inr [OF assms(2)] by blast
  obtain tip p where tip: "get_value st (branch_tip name) = Some tip" "tip_entry (svalue tip) = Inr p"
    "ws = [WEntry (appended i p e), set_value (branch_tip name) (JStr i)]"
    using job(1) by (auto simp: append_to_branch_def result_simps split: if_splits option.splits)
  let ?x = "materialize (appended i p e) (next_seq st) ts :: 'n entry"
  have x: "eid ?x = i" "parent_id ?x = p" by simp_all
  have addr: "address_ok (branch_tip name)" using stored_tip_name [OF assms(1) tip(1) branch_tip_address(3)] .
  have pre: "validate_committed st [CEntry ?x, CValueSet (next_seq st + 1) ''pi.branch.tip'' name (JStr i)] = Inr ()"
    and app: "apply_validated st [CEntry ?x, CValueSet (next_seq st + 1) ''pi.branch.tip'' name (JStr i)] = (st', Inr (snd r))"
    using commit_storage_Inr [OF job(2)] tip(3) by (simp_all add: set_value_def branch_tip_address)
  have new: "\<not> own_has (entries st) i" and par: "parent_missing (\<lambda>i. own_has (entries st) i) {} ?x = False"
    using pre x(1) by (auto simp: validate_committed_def validate_committed_writes_def split: if_splits)
  have "entry_of st q \<noteq> None" if "p = Some q" for q
    using par x(2) that by (auto simp: parent_missing_def entry_of_def own_has_iff_get)
  moreover have "entry_of st i = None" using new by (simp add: entry_of_def own_has_iff_get)
  moreover have "entries_by_seq st' = entries_by_seq st @ [?x]"
    and "scalar_values st' = map_set (physical_key ''pi.branch.tip'' name)
      \<lparr>saddress = branch_tip name, svalue = JStr i, sseq = next_seq st + 1\<rparr> (scalar_values st)"
    using app addr by (auto simp: apply_value_set_def stored_address_def address_ok_def branch_tip_def)
  moreover from this have "get_value st' (branch_tip b) = (if b = name
      then Some \<lparr>saddress = branch_tip name, svalue = JStr i, sseq = next_seq st + 1\<rparr> else get_value st (branch_tip b))" for b
    by (simp add: get_value_def branch_tip_address(1,2) get_tip_set)
  ultimately show thesis using that tip(1,2) by blast
qed

lemma known_path_of_tip:
  assumes "entries_ok_st st" and "\<And>q. p = Some q \<Longrightarrow> entry_of st q \<noteq> None"
  obtains path where "known_path st path" and "p = head_ref path"
proof (cases p)
  case None
  then show thesis using that [of "[]"] by (simp add: known_path_def head_ref_def)
next
  case (Some q)
  then obtain x where x: "entry_of st q = Some x" using assms(2) by blast
  then obtain path where path: "is_path (entry_of st) path" "hd path = x" using entry_path [OF assms(1) x] by metis
  moreover have "eid x = q" using x entry_of_iff [OF assms(1)] by blast
  moreover have "path \<noteq> []" using path(1) by auto
  ultimately show thesis using that [of path] x Some by (simp add: known_path_def head_ref_def)
qed

text \<open>
  Appending extends the branch by one entry: the new entry is a child of the entry the tip named,
  the tip names the new entry, the branch read oldest first is what it was with the new entry at its end,
  and the tips of all other branches are untouched.
\<close>

theorem append_extends_branch:
  fixes st :: "'n::{zero,plus} storage_state"
  assumes "storage_ok st" and "run_job (append_to_branch name e i) ts st = (st', Inr ())"
  shows "\<exists>path x. known_path st path \<and>
    map_option svalue (get_value st (branch_tip name)) = Some (entry_ref (head_ref path)) \<and>
    eid x = i \<and> body x = body (appended i (head_ref path) e) \<and> timestamp x = ts \<and> known_path st' (x # path) \<and>
    scan_branch st' (whole_branch i OldestFirst) = Some (Inr (rev path @ [x])) \<and>
    map_option svalue (get_value st' (branch_tip name)) = Some (JStr i) \<and>
    (\<forall>b. b \<noteq> name \<longrightarrow> get_value st' (branch_tip b) = get_value st (branch_tip b))"
proof -
  obtain tip p where t: "get_value st (branch_tip name) = Some tip" "tip_entry (svalue tip) = Inr p"
    "entry_of st i = None" "\<And>q. p = Some q \<Longrightarrow> entry_of st q \<noteq> None"
    "entries_by_seq st' = entries_by_seq st @ [materialize (appended i p e) (next_seq st) ts]"
    "\<And>b. get_value st' (branch_tip b) = (if b = name
      then Some \<lparr>saddress = branch_tip name, svalue = JStr i, sseq = next_seq st + 1\<rparr> else get_value st (branch_tip b))"
    using append_run [OF assms] by metis
  let ?x = "materialize (appended i p e) (next_seq st) ts :: 'n entry"
  have x: "eid ?x = i" "parent_id ?x = p" by simp_all
  have ok: "entries_ok_st st" "entries_ok_st st'"
    using assms run_job_keeps [OF assms(1), of "append_to_branch name e i" ts] by (auto simp: storage_ok_def)
  obtain path where path: "known_path st path" "p = head_ref path"
    using known_path_of_tip [OF ok(1) t(4)] by blast
  have grow: "entry_of st' j = Some y" if "entry_of st j = Some y" for j y
    using that t(5) entry_of_iff [OF ok(1)] entry_of_iff [OF ok(2)] by auto
  have self: "entry_of st' i = Some ?x" using t(5) x(1) entry_of_iff [OF ok(2)] by auto
  have "is_path (entry_of st') (?x # path)"
  proof (cases path)
    case Nil
    then show ?thesis using x(2) path(2) by (simp add: head_ref_def)
  next
    case (Cons y ys)
    then have k: "is_path (entry_of st) path" "entry_of st (eid y) = Some y" using path(1) by (auto simp: known_path_def)
    have "entry_of st' (eid z) = Some z" if "z \<in> set path" for z
      using is_path_known [of "entry_of st" y ys z] k Cons that grow by auto
    then have "is_path (entry_of st') path" using is_path_other [OF k(1)] by blast
    then show ?thesis using Cons x(2) path(2) k(2) grow by (simp add: head_ref_def)
  qed
  moreover have "svalue tip = entry_ref p" using t(2) by (cases "svalue tip") auto
  ultimately show ?thesis
    using path t(1,6) x self scan_whole_branch [of st' "?x # path" i OldestFirst]
    by (intro exI [of _ path] exI [of _ ?x]) (simp add: known_path_def)
qed

theorem append_extends_branch_witness:
  "\<exists>st' path x. run_job (append_to_branch ''main'' (AppendCustom ''note'' None) ''e3'') 8 demo_session = (st', Inr ()) \<and>
    known_path demo_session path \<and> eid x = ''e3'' \<and>
    scan_branch st' (whole_branch ''e3'' OldestFirst) = Some (Inr (rev path @ [x]))"
proof -
  obtain st' where r: "run_job (append_to_branch ''main'' (AppendCustom ''note'' None) ''e3'') 8 demo_session = (st', Inr ())"
  proof -
    have "snd (run_job (append_to_branch ''main'' (AppendCustom ''note'' None) ''e3'') 8 demo_session) = Inr ()"
      by code_simp
    then show thesis using that by (metis prod.collapse)
  qed
  show ?thesis using append_extends_branch [OF demo_session_ok r] r by blast
qed

text \<open>
  Writes that keep the tips: a tip is only set to null or to an entry that is stored (\<open>known\<close>) or
  created earlier in the same transaction.
\<close>

fun keeps_tips :: "(string \<Rightarrow> bool) \<Rightarrow> 'n new_write list \<Rightarrow> bool" where
  "keeps_tips known [] = True"
| "keeps_tips known (WEntry e # ws) = keeps_tips (\<lambda>i. known i \<or> i = eid e) ws"
| "keeps_tips known (WValueSet ns k v # ws) =
     ((ns = ''pi.branch.tip'' \<longrightarrow> v = JNull \<or> (\<exists>i. v = JStr i \<and> known i)) \<and> keeps_tips known ws)"
| "keeps_tips known (w # ws) = keeps_tips known ws"

lemma tips_ok_same:
  assumes "tips_ok st" and "\<And>b v. get_value st' (branch_tip b) = Some v \<Longrightarrow> get_value st (branch_tip b) = Some v"
    and "\<And>i. entry_of st i \<noteq> None \<Longrightarrow> entry_of st' i \<noteq> None"
  shows "tips_ok st'"
  using assms unfolding tips_ok_def tip_ok_def by blast

lemma value_set_tips:
  assumes "tips_ok st" and "apply_value_set st s ns k v = Inr st'" and "ns = ''pi.branch.tip'' \<Longrightarrow> tip_ok st v"
  shows "tips_ok st' \<and> entries st' = entries st"
proof -
  have ns: "nul \<notin> set ns" and st': "st' = st\<lparr>scalar_values := map_set (physical_key ns k)
      \<lparr>saddress = \<lparr>namespace = ns, akey = k\<rparr>, svalue = v, sseq = s\<rparr> (scalar_values st)\<rparr>"
    using assms(2) by (auto simp: apply_value_set_def stored_address_def validate_address_def result_simps split: if_splits)
  have "get_value st' (branch_tip b) = (if ns = ''pi.branch.tip'' \<and> k = b
      then Some \<lparr>saddress = \<lparr>namespace = ns, akey = k\<rparr>, svalue = v, sseq = s\<rparr> else get_value st (branch_tip b))" for b
    using physical_key_inj [OF ns branch_tip_address(3), of k b b]
    by (auto simp: get_value_def st' map_set_get branch_tip_address(1,2))
  then show ?thesis using assms(1,3) by (auto simp: tips_ok_def tip_ok_def entry_of_def st' split: if_splits)
qed

lemma apply_keeps_tips:
  assumes "apply_validated st (commit_writes ws s ts) = (st', r)" and "keeps_tips known ws" and "tips_ok st"
    and "\<And>i. known i \<Longrightarrow> entry_of st i \<noteq> None"
  shows "tips_ok st'"
  using assms
proof (induction ws arbitrary: st s known)
  case (Cons w ws)
  show ?case
  proof (cases "apply_write st (commit_write w s ts)")
    case (Inl e)
    then show ?thesis using Cons.prems by simp
  next
    case (Inr st1)
    let ?st1 = "st1\<lparr>next_seq := s + 1\<rparr>" and ?known = "case w of WEntry e \<Rightarrow> (\<lambda>i. known i \<or> i = eid e) | _ \<Rightarrow> known"
    have run: "apply_validated ?st1 (commit_writes ws (s + 1) ts) = (st', r)" using Cons.prems(1) Inr by simp
    have safe: "keeps_tips ?known ws" using Cons.prems(2) by (cases w) auto
    have "tips_ok st1 \<and> (\<forall>i. ?known i \<longrightarrow> entry_of st1 i \<noteq> None)"
    proof (cases w)
      case (WEntry e)
      then have st1: "entries st1 = map_set (eid e) (materialize e s ts) (entries st)"
        "scalar_values st1 = scalar_values st" using Inr by auto
      then have "tips_ok st1"
        by (intro tips_ok_same [OF Cons.prems(3)]) (simp_all add: get_value_def entry_of_def map_set_get)
      then show ?thesis using WEntry st1(1) Cons.prems(4) by (auto simp: entry_of_def map_set_get)
    next
      case (WValueSet ns k v)
      then have "tip_ok st v" if "ns = ''pi.branch.tip''"
        using Cons.prems(2,4) that by (auto simp: tip_ok_def)
      then show ?thesis using value_set_tips [OF Cons.prems(3), of s ns k v st1] Inr WValueSet Cons.prems(4)
        by (simp add: entry_of_def)
    next
      case (WValueDelete ns k)
      then have "tips_ok st1" using Inr
        by (intro tips_ok_same [OF Cons.prems(3)])
          (auto simp: get_value_def entry_of_def own_del_get split: if_splits)
      then show ?thesis using WValueDelete Inr Cons.prems(4) by (auto simp: entry_of_def)
    next
      case (WUsage u)
      then have "tips_ok st1" using Inr
        by (intro tips_ok_same [OF Cons.prems(3)]) (auto simp: get_value_def entry_of_def)
      then show ?thesis using WUsage Inr Cons.prems(4) by (auto simp: entry_of_def)
    next
      case (WListAppend ns k v)
      then have same: "entries st1 = entries st" "scalar_values st1 = scalar_values st"
        using Inr by (auto simp: apply_list_append_def Let_def result_simps split: option.splits)
      then have "tips_ok st1"
        by (intro tips_ok_same [OF Cons.prems(3)]) (auto simp: get_value_def entry_of_def)
      then show ?thesis using WListAppend same Cons.prems(4) by (auto simp: entry_of_def)
    next
      case (WListDelete ns k)
      then have "tips_ok st1" using Inr
        by (intro tips_ok_same [OF Cons.prems(3)]) (auto simp: get_value_def entry_of_def)
      then show ?thesis using WListDelete Inr Cons.prems(4) by (auto simp: entry_of_def)
    qed
    then have "tips_ok ?st1" "\<And>i. ?known i \<Longrightarrow> entry_of ?st1 i \<noteq> None"
      by (auto simp: tips_ok_def tip_ok_def get_value_def entry_of_def)
    then show ?thesis by (rule Cons.IH [OF run safe])
  qed
qed simp

lemma run_job_tips:
  assumes "tips_ok st" and "\<And>ws. job st = Inr ws \<Longrightarrow> keeps_tips (\<lambda>i. entry_of st i \<noteq> None) ws"
  shows "tips_ok (fst (run_job job ts st))"
proof (cases "job st")
  case (Inr ws)
  have "tips_ok (fst (commit_storage st ws ts))"
  proof (cases "prepare_commit st ws ts")
    case p: (Inr p)
    then have "pwrites p = commit_writes ws (next_seq st) ts"
      by (auto simp: prepare_commit_def prepare_storage_commit_def Let_def result_simps)
    moreover obtain st' r where a: "apply_validated st (commit_writes ws (next_seq st) ts) = (st', r)" by fastforce
    ultimately show ?thesis using apply_keeps_tips [OF a assms(2) [OF Inr] assms(1)] p
      by (simp add: commit_storage_def)
  qed (simp add: commit_storage_def assms(1))
  then show ?thesis using Inr assms(1)
    by (auto simp: run_job_def mutation_commit_def new_mutation_def split: prod.splits sum.splits)
qed (simp add: run_job_def assms(1))

datatype session_call =
    CreateBranch string "string option"
  | Append string append_entry string
  | SetName "string option"
  | SetLabel string "string option"
  | SetValue address json
  | DeleteValue address
  | AppendList address json
  | DeleteList address

fun call_job :: "session_call \<Rightarrow> 'n job" where
  "call_job (CreateBranch name target) = create_branch name target"
| "call_job (Append name e i) = append_to_branch name e i"
| "call_job (SetName n) = set_name n"
| "call_job (SetLabel i l) = set_label i l"
| "call_job (SetValue a v) = set_value_job a v"
| "call_job (DeleteValue a) = delete_value_job a"
| "call_job (AppendList a v) = append_list_job a v"
| "call_job (DeleteList a) = delete_list_job a"

fun leaves_tips :: "session_call \<Rightarrow> bool" where
  "leaves_tips (SetValue a v) \<longleftrightarrow> namespace a \<noteq> ''pi.branch.tip''"
| "leaves_tips _ = True"

lemma call_keeps_tips:
  assumes "call_job c st = Inr ws" and "leaves_tips c"
  shows "keeps_tips (\<lambda>i. entry_of st i \<noteq> None) ws"
proof (cases c)
  case (CreateBranch name target)
  then show ?thesis using assms(1)
    by (auto simp: create_branch_def set_value_def branch_tip_def get_entries_def entry_of_def map_set_def
        result_simps own_set_def own_insert_def split: if_splits option.splits)
next
  case (Append name e i)
  then show ?thesis using assms(1)
    by (auto simp: append_to_branch_def set_value_def branch_tip_def result_simps split: if_splits option.splits)
next
  case (SetName n)
  then show ?thesis using assms(1)
    by (auto simp: set_name_def set_value_job_def delete_value_job_def set_value_def delete_value_def session_name_def
        split: option.splits)
next
  case (SetLabel i l)
  then show ?thesis using assms(1)
    by (auto simp: set_label_def set_value_job_def delete_value_job_def set_value_def delete_value_def entry_label_def
        split: option.splits)
qed (use assms in \<open>auto simp: set_value_job_def delete_value_job_def append_list_job_def delete_list_job_def
    set_value_def delete_value_def append_list_def delete_list_def\<close>)

fun run_calls :: "(session_call \<times> int) list \<Rightarrow> 'n::{zero,plus} storage_state \<Rightarrow> 'n storage_state" where
  "run_calls [] st = st"
| "run_calls ((c, ts) # cs) st = run_calls cs (fst (run_job (call_job c) ts st))"

lemma run_calls_keep:
  "storage_ok st \<Longrightarrow> tips_ok st \<Longrightarrow> list_all leaves_tips (map fst cs) \<Longrightarrow>
    storage_ok (run_calls cs st) \<and> tips_ok (run_calls cs st)"
proof (induction cs arbitrary: st)
  case (Cons c cs)
  obtain k ts where c: "c = (k, ts)" by fastforce
  have "tips_ok (fst (run_job (call_job k) ts st))"
  proof (rule run_job_tips [OF Cons.prems(2)])
    fix ws
    assume "call_job k st = Inr ws"
    moreover have "leaves_tips k" using Cons.prems(3) c by simp
    ultimately show "keeps_tips (\<lambda>i. entry_of st i \<noteq> None) ws" by (rule call_keeps_tips)
  qed
  then show ?case using Cons c run_job_keeps [of st "call_job k" ts] by simp
qed simp

lemma tip_entry_ref: "tip_entry (entry_ref p) = Inr p"
  by (cases p) simp_all

text \<open>
  C33. Branches stay readable. After any sequence of session calls from an empty session, succeeding or
  failing, that does not overwrite a tip through the raw value interface, every branch that exists is
  read from its tip without an error: the tip is null, or a stored entry whose path to the root is
  returned.
\<close>

theorem branches_readable:
  assumes "list_all leaves_tips (map fst cs)" and "st = run_calls cs new_storage_state"
    and "get_value st (branch_tip b) = Some v"
  shows "\<exists>path. known_path st path \<and> svalue v = entry_ref (head_ref path) \<and>
    branch_find_entries st b None (whole_branch [] NewestFirst) = Some (Inr path) \<and>
    branch_find_entries st b None (whole_branch [] OldestFirst) = Some (Inr (rev path))"
proof -
  have "tips_ok new_storage_state" by (simp add: tips_ok_def get_value_def new_storage_state_def)
  then have ok: "storage_ok st" "tips_ok st" using run_calls_keep [OF new_storage_ok _ assms(1)] assms(2) by auto
  obtain p where p: "svalue v = entry_ref p" "\<And>q. p = Some q \<Longrightarrow> entry_of st q \<noteq> None"
  proof -
    have "tip_ok st (svalue v)" using ok(2) assms(3) by (auto simp: tips_ok_def)
    then show thesis using that [of None] that [of "Some i" for i] by (auto simp: tip_ok_def)
  qed
  obtain path where path: "known_path st path" "p = head_ref path"
    using known_path_of_tip [OF _ p(2)] ok(1) by (auto simp: storage_ok_def)
  have tip: "rbind (get_branch_tip st b) tip_entry = Inr (head_ref path)"
    using p(1) path(2) assms(3) by (simp add: get_branch_tip_def tip_entry_ref)
  have w: "(whole_branch [] ord)\<lparr>start := i\<rparr> = whole_branch i ord" for i ord by (simp add: whole_branch_def)
  have "branch_find_entries st b None (whole_branch [] ord) =
      Some (Inr (if ord = OldestFirst then rev path else path))" for ord
  proof (cases path)
    case Nil
    then show ?thesis using tip by (simp add: branch_find_entries_def head_ref_def)
  next
    case (Cons x xs)
    then have "scan_branch st (whole_branch (eid x) ord) = Some (Inr (if ord = OldestFirst then rev path else path))"
      using path(1) by (intro scan_whole_branch) (auto simp: known_path_def)
    then show ?thesis using tip Cons by (simp add: branch_find_entries_def head_ref_def w)
  qed
  then show ?thesis using path p(1) by (intro exI [of _ path]) simp
qed

theorem branches_readable_witness:
  "\<exists>path. branch_find_entries (run_calls [(CreateBranch ''main'' None, 1),
        (Append ''main'' (AppendCustom ''note'' None) ''e1'', 2)] (new_storage_state :: int storage_state))
      ''main'' None (whole_branch [] OldestFirst) = Some (Inr (rev path)) \<and> path \<noteq> []"
proof -
  let ?cs = "[(CreateBranch ''main'' None, 1), (Append ''main'' (AppendCustom ''note'' None) ''e1'', 2)]"
  let ?st = "run_calls ?cs (new_storage_state :: int storage_state)"
  have l: "list_all leaves_tips (map fst ?cs)" by simp
  have "map_option svalue (get_value ?st (branch_tip ''main'')) = Some (JStr ''e1'')" by code_simp
  then obtain v where v: "get_value ?st (branch_tip ''main'') = Some v" "svalue v = JStr ''e1''" by auto
  from branches_readable [OF l refl v(1)] v(2) show ?thesis by (auto simp: head_ref_def split: if_splits)
qed

section \<open>Pages of entries\<close>

lemma collect_None [simp]: "collect P None xs = filter P xs"
  by (induction xs) auto

lemma collect_Some: "collect P (Some n) xs = take n (filter P xs)"
proof (induction xs arbitrary: n)
  case (Cons x xs)
  then show ?case by (cases n) auto
qed simp

text \<open>A listing sorted by a key is cut by the key of any of its elements.\<close>

lemma filter_after:
  assumes "sorted_wrt (\<lambda>a b. f a < (f b :: int)) (xs @ x # ys)"
  shows "filter (\<lambda>y. f x < f y) (xs @ x # ys) = ys"
proof -
  have "\<forall>y \<in> set xs. \<not> f x < f y" "\<forall>y \<in> set ys. f x < f y" using assms by (auto simp: sorted_wrt_append)
  then show ?thesis by simp
qed

lemma filter_before:
  assumes "sorted_wrt (\<lambda>a b. f b < (f a :: int)) (xs @ x # ys)"
  shows "filter (\<lambda>y. f y < f x) (xs @ x # ys) = ys"
proof -
  have "\<forall>y \<in> set xs. \<not> f y < f x" "\<forall>y \<in> set ys. f y < f x" using assms by (auto simp: sorted_wrt_append)
  then show ?thesis by simp
qed

definition entry_matches :: "entry_query \<Rightarrow> 'n entry \<Rightarrow> bool" where
  "entry_matches q e \<longleftrightarrow> matches (eqtype q) (etype e) \<and>
     (case eqcustom q of None \<Rightarrow> True | Some t \<Rightarrow> custom_type e = Some t)"

definition in_order :: "scan_order \<Rightarrow> 'n storage_state \<Rightarrow> 'n entry list" where
  "in_order ord st = (if ord = Desc then rev (entries_by_seq st) else entries_by_seq st)"

lemma find_entries_all:
  "eqlimit q = None \<Longrightarrow> eqcursor q = None \<Longrightarrow>
    find_entries st q = filter (entry_matches q) (in_order (eqorder q) st)"
  by (simp add: find_entries_def scan_entries_def in_range_def in_order_def entry_matches_def [abs_def])

lemma find_entries_limit:
  "eqlimit q = Some n \<Longrightarrow> eqcursor q = None \<Longrightarrow>
    find_entries st q = take (nat n) (filter (entry_matches q) (in_order (eqorder q) st))"
  by (simp add: find_entries_def scan_entries_def in_range_def in_order_def entry_matches_def [abs_def] collect_Some)

lemma find_entries_after:
  assumes "entries_ok_st st" and "next_seq st \<le> max_safe_seq + 1" and "eqlimit q = None" and "eqcursor q = Some c"
  shows "find_entries st q = filter (\<lambda>e. entry_matches q e \<and> (if eqorder q = Asc then c < seq e else seq e < c))
    (in_order (eqorder q) st)"
proof -
  have b: "\<forall>e \<in> set (entries_by_seq st). 1 \<le> seq e \<and> seq e \<le> max_safe_seq"
    using assms(1,2) by (force simp: entries_ok_st_def)
  show ?thesis
  proof (cases "eqorder q = Asc \<and> c = max_safe_seq \<or> eqorder q = Desc \<and> c \<le> 1")
    case True
    then have "filter (\<lambda>e. entry_matches q e \<and> (if eqorder q = Asc then c < seq e else seq e < c))
        (in_order (eqorder q) st) = []"
      using b by (auto simp: filter_empty_conv in_order_def)
    then show ?thesis using True assms(4) by (simp add: find_entries_def)
  next
    case False
    then show ?thesis using assms(3,4) by (cases "eqorder q")
      (auto simp: find_entries_def scan_entries_def in_range_def in_order_def entry_matches_def intro!: filter_cong)
  qed
qed

lemma in_order_sorted:
  assumes "entries_ok_st st"
  shows "eqorder q = Asc \<Longrightarrow> sorted_wrt (\<lambda>a b. seq a < seq b) (filter P (in_order (eqorder q) st))"
    and "eqorder q = Desc \<Longrightarrow> sorted_wrt (\<lambda>a b. seq b < seq a) (filter P (in_order (eqorder q) st))"
  using assms by (auto simp: entries_ok_st_def in_order_def sorted_wrt_rev intro!: sorted_wrt_filter)

text \<open>
  Paging loses and repeats nothing: after any page of a listing, in either order and under any
  type filters, asking again with the sequence number of its last entry as the cursor returns exactly
  the rest of the listing.
\<close>

theorem find_entries_pages:
  fixes st :: "'n::{zero,plus} storage_state"
  assumes "storage_ok st" and "next_seq st \<le> max_safe_seq + 1" and "eqcursor q = None" and "eqlimit q = Some n"
    and "find_entries st q = page" and "page \<noteq> []"
  shows "find_entries st (q\<lparr>eqlimit := None\<rparr>) =
    page @ find_entries st (q\<lparr>eqlimit := None, eqcursor := Some (seq (last page))\<rparr>)"
proof -
  have ok: "entries_ok_st st" using assms(1) by (simp add: storage_ok_def)
  let ?all = "filter (entry_matches q) (in_order (eqorder q) st) :: 'n entry list"
  have m: "entry_matches (q\<lparr>eqlimit := l, eqcursor := c\<rparr>) = entry_matches q" for l c
    by (simp add: entry_matches_def fun_eq_iff)
  have m1: "entry_matches (q\<lparr>eqlimit := l\<rparr>) = entry_matches q" for l
    by (simp add: entry_matches_def fun_eq_iff)
  have page: "page = take (nat n) ?all" 
    by (rule trans [OF assms(5) [symmetric] find_entries_limit [OF assms(4,3)]])
  obtain xs x where x: "page = xs @ [x]" using assms(6) by (cases page rule: rev_cases) auto
  define ys where "ys = drop (nat n) ?all"
  have all: "?all = xs @ x # ys" 
  proof -
    have "?all = take (nat n) ?all @ ys" by (simp add: ys_def)
    then show ?thesis unfolding page [symmetric] x by simp
  qed
  have "find_entries st (q\<lparr>eqlimit := None, eqcursor := Some (seq x)\<rparr>) =
      filter (\<lambda>e. if eqorder q = Asc then seq x < seq e else seq e < seq x) ?all"
    using find_entries_after [OF ok assms(2), of "q\<lparr>eqlimit := None, eqcursor := Some (seq x)\<rparr>" "seq x"]
    by (simp add: m conj_commute)
  also have "\<dots> = ys"
    using in_order_sorted [OF ok, of q "entry_matches q"] filter_after [of seq xs x ys] filter_before [of seq xs x ys] all
    by (cases "eqorder q") simp_all
  finally show ?thesis
    using find_entries_all [of "q\<lparr>eqlimit := None\<rparr>" st] assms(3) all x by (simp add: m1)
qed

definition all_entries :: entry_query where
  "all_entries = \<lparr>eqtype = None, eqcustom = None, eqorder = Desc, eqlimit = None, eqcursor = None\<rparr>"

theorem find_entries_pages_witness:
  "map eid (find_entries demo_session (all_entries\<lparr>eqcursor := Some 2\<rparr>)) = [''e1'']"
proof -
  let ?q = "all_entries\<lparr>eqlimit := Some 1\<rparr>"
  obtain x where x: "find_entries demo_session ?q = [x]" "eid x = ''e2''" "seq x = 2"
  proof -
    have "map (\<lambda>e. (eid e, seq e)) (find_entries demo_session ?q) = [(''e2'', 2)]" by code_simp
    then show thesis using that by auto
  qed
  have "next_seq demo_session = 6" by code_simp
  then have n: "next_seq demo_session \<le> max_safe_seq + 1" by (simp add: max_safe_seq_def)
  have q: "?q\<lparr>eqlimit := None\<rparr> = all_entries"
    "?q\<lparr>eqlimit := None, eqcursor := Some 2\<rparr> = all_entries\<lparr>eqcursor := Some 2\<rparr>"
    "eqcursor ?q = None" "eqlimit ?q = Some 1"
    by (simp_all add: all_entries_def)
  have "find_entries demo_session all_entries = [x] @ find_entries demo_session (all_entries\<lparr>eqcursor := Some 2\<rparr>)"
    using find_entries_pages [OF demo_session_ok n q(3,4) x(1)] q(1,2) x(3) by simp
  moreover have "map eid (find_entries demo_session all_entries) = [''e2'', ''e1'']" by code_simp
  ultimately show ?thesis by simp
qed

section \<open>The context of a branch\<close>

lemma build_context_split:
  assumes "\<forall>e \<in> set tail. etype e \<noteq> TCompaction" and "etype c = TCompaction"
  shows "build_context_entries (before @ c # tail) = c # tail"
proof -
  have "dropWhile (\<lambda>e. etype e \<noteq> TCompaction) (rev tail @ c # rev before) = c # rev before"
    using assms by (subst dropWhile_append2) auto
  then show ?thesis by (simp add: build_context_entries_def)
qed

lemma build_context_plain: "\<forall>e \<in> set path. etype e \<noteq> TCompaction \<Longrightarrow> build_context_entries path = path"
proof -
  assume "\<forall>e \<in> set path. etype e \<noteq> TCompaction"
  then have "dropWhile (\<lambda>e. etype e \<noteq> TCompaction) (rev path) = []" by simp
  then show ?thesis by (simp only: build_context_entries_def list.case)
qed

lemma split_last_compaction:
  "(\<forall>e \<in> set path. etype e \<noteq> TCompaction) \<or>
    (\<exists>before c tail. path = before @ c # tail \<and> etype c = TCompaction \<and> (\<forall>e \<in> set tail. etype e \<noteq> TCompaction))"
  using split_list_last_prop [of path "\<lambda>e. etype e = TCompaction"] by blast

text \<open>
  The context of a model call holds what the last compaction left. Only entries from the last
  compaction of the path on contribute, what lies before it is irrelevant; and, custom projectors aside,
  no assistant message that ended in an error, was aborted or was deferred gets into it, not even through
  the tail a compaction retained.
\<close>

theorem context_after_compaction:
  fixes path :: "'n entry list"
  shows "(\<forall>before' c before tail. path = before @ c # tail \<and> etype c = TCompaction \<and>
      (\<forall>e \<in> set tail. etype e \<noteq> TCompaction) \<longrightarrow>
      build_session_context path projectors = build_session_context (before' @ c # tail) projectors \<and>
      (\<exists>rest. build_session_context path projectors = session_entry_to_context_messages c @ rest)) \<and>
   (\<forall>m. Plain m \<in> set (build_session_context path (\<lambda>_. None)) \<longrightarrow> is_context_message m)"
proof (intro conjI allI impI)
  fix before' c before tail
  assume a: "path = before @ c # tail \<and> etype c = TCompaction \<and> (\<forall>e \<in> set tail. etype e \<noteq> TCompaction)"
  have b: "build_context_entries path = c # tail" "build_context_entries (before' @ c # tail) = c # tail"
    using a build_context_split by blast+
  show "build_session_context path projectors = build_session_context (before' @ c # tail) projectors"
    using b by (simp add: build_session_context_def)
  show "\<exists>rest. build_session_context path projectors = session_entry_to_context_messages c @ rest"
    using a b by (simp add: build_session_context_def)
next
  fix m
  assume "Plain m \<in> set (build_session_context path (\<lambda>_. None))"
  then obtain e :: "'n entry" where "Plain m \<in> set (session_entry_to_context_messages e)"
    by (auto simp: build_session_context_def split: if_splits option.splits)
  then show "is_context_message m"
    by (auto simp: session_entry_to_context_messages_def split: body.splits if_splits)
qed

definition compacted :: "int entry" where
  "compacted = \<lparr>eid = ''e1'', parent_id = None, custom_type = None,
     body = Compaction ''s'' [\<lparr>role = ''assistant'', stop = Some SError, content = JNull\<rparr>] 0 None None False,
     seq = 1, timestamp = 7\<rparr>"

theorem context_after_compaction_witness:
  "Plain \<lparr>role = ''assistant'', stop = Some SError, content = JNull\<rparr> \<notin>
    set (build_session_context [compacted] (\<lambda>_. None))"
proof
  assume a: "Plain \<lparr>role = ''assistant'', stop = Some SError, content = JNull\<rparr> \<in>
    set (build_session_context [compacted] (\<lambda>_. None))"
  have "is_context_message \<lparr>role = ''assistant'', stop = Some SError, content = JNull\<rparr>"
    using conjunct2 [OF context_after_compaction [of "[compacted]" "\<lambda>_. None"]] a by blast
  then show False by (simp add: is_context_message_def)
qed

end
