(* ===== verification/SessionLine.thy ===== *)
theory SessionLine
  imports SessionBranch
begin

text \<open>
  How concurrent writers of one session are ordered: \<open>MutationLine\<close> of \<open>session/mutation-line.ts\<close>
  with \<open>beginMutation\<close>, \<open>mutate\<close> and \<open>close\<close> of \<open>session/session.ts\<close>. A ticket stands for one call of
  \<open>mutate\<close>; \<open>jobs\<close> gives its callback. The promise chain is the queue of tickets, and every point where
  the code awaits is a step, so that a ticket's read and its commit are different steps between which
  others may act. The serialization theorem says that nothing of that shows.
\<close>

section \<open>The line as a step relation\<close>

datatype 'n phase = Granted | Committing "'n new_write list" | Releasing

record 'n line =
  lstore :: "'n storage_state"
  waiting :: "nat list"
  holder :: "(nat \<times> 'n phase) option"
  sealed :: bool
  admitted :: "nat list"
  finished :: "nat list"
  outcome :: "nat \<Rightarrow> (session_error + unit) option"
  effects :: "(nat \<times> int) list"

definition new_line :: "'n storage_state \<Rightarrow> 'n line" where
  "new_line st = \<lparr>lstore = st, waiting = [], holder = None, sealed = False, admitted = [], finished = [],
     outcome = (\<lambda>_. None), effects = []\<rparr>"

definition settle :: "nat \<Rightarrow> session_error + unit \<Rightarrow> 'n line \<Rightarrow> 'n line" where
  "settle t r s = s\<lparr>outcome := (outcome s)(t := Some r)\<rparr>"

inductive line_step :: "(nat \<Rightarrow> 'n::{zero,plus} job) \<Rightarrow> 'n line \<Rightarrow> 'n line \<Rightarrow> bool" for jobs where
  admit: "\<not> sealed s \<Longrightarrow> t \<notin> set (admitted s) \<Longrightarrow> outcome s t = None \<Longrightarrow>
    line_step jobs s (s\<lparr>waiting := waiting s @ [t], admitted := admitted s @ [t]\<rparr>)"
| turn_away: "sealed s \<Longrightarrow> t \<notin> set (admitted s) \<Longrightarrow> line_step jobs s (settle t (Inl SessionClosed) s)"
| grant: "\<not> sealed s \<Longrightarrow> holder s = None \<Longrightarrow> waiting s = t # ts \<Longrightarrow>
    line_step jobs s (s\<lparr>waiting := ts, holder := Some (t, Granted)\<rparr>)"
| refuse: "sealed s \<Longrightarrow> holder s = None \<Longrightarrow> waiting s = t # ts \<Longrightarrow>
    line_step jobs s (settle t (Inl SessionClosed) (s\<lparr>waiting := ts, finished := finished s @ [t]\<rparr>))"
| read: "holder s = Some (t, Granted) \<Longrightarrow> jobs t (lstore s) = Inr ws \<Longrightarrow>
    line_step jobs s (s\<lparr>holder := Some (t, Committing ws)\<rparr>)"
| read_fails: "holder s = Some (t, Granted) \<Longrightarrow> jobs t (lstore s) = Inl e \<Longrightarrow>
    line_step jobs s (settle t (Inl e) (s\<lparr>holder := Some (t, Releasing), effects := effects s @ [(t, now)]\<rparr>))"
| commit: "holder s = Some (t, Committing ws) \<Longrightarrow> mutation_commit new_mutation (lstore s) ws now = (m, st, r) \<Longrightarrow>
    line_step jobs s (settle t (rbind r (\<lambda>_. Inr ()))
      (s\<lparr>lstore := st, holder := Some (t, Releasing), effects := effects s @ [(t, now)]\<rparr>))"
| release: "holder s = Some (t, Releasing) \<Longrightarrow>
    line_step jobs s (s\<lparr>holder := None, finished := finished s @ [t]\<rparr>)"
| seal: "line_step jobs s (s\<lparr>sealed := True\<rparr>)"

inductive line_run :: "(nat \<Rightarrow> 'n::{zero,plus} job) \<Rightarrow> 'n line \<Rightarrow> 'n line \<Rightarrow> bool" for jobs where
  line_refl: "line_run jobs s s"
| line_more: "line_run jobs s s' \<Longrightarrow> line_step jobs s' s'' \<Longrightarrow> line_run jobs s s''"

inductive_cases line_stepE: "line_step jobs s s'"

section \<open>Serialization\<close>

fun serially :: "(nat \<Rightarrow> 'n::{zero,plus} job) \<Rightarrow> (nat \<times> int) list \<Rightarrow> 'n storage_state \<Rightarrow> 'n storage_state" where
  "serially jobs [] st = st"
| "serially jobs ((t, now) # es) st = serially jobs es (fst (run_job (jobs t) now st))"

lemma serially_append: "serially jobs (es @ fs) st = serially jobs fs (serially jobs es st)"
  by (induction es arbitrary: st) auto

definition holding :: "'n line \<Rightarrow> nat list" where
  "holding s = (case holder s of None \<Rightarrow> [] | Some (t, _) \<Rightarrow> [t])"

text \<open>The tickets whose job has had its effect or has been given up.\<close>

definition decided :: "'n line \<Rightarrow> nat list" where
  "decided s = finished s @ (case holder s of Some (t, Releasing) \<Rightarrow> [t] | _ \<Rightarrow> [])"

definition line_ok :: "(nat \<Rightarrow> 'n::{zero,plus} job) \<Rightarrow> 'n storage_state \<Rightarrow> 'n line \<Rightarrow> bool" where
  "line_ok jobs st s \<longleftrightarrow> lstore s = serially jobs (effects s) st \<and>
     admitted s = finished s @ holding s @ waiting s \<and> distinct (admitted s) \<and>
     subseq (map fst (effects s)) (decided s) \<and>
     (\<forall>t ws. holder s = Some (t, Committing ws) \<longrightarrow> jobs t (lstore s) = Inr ws) \<and>
     (\<forall>pre t now post. effects s = pre @ (t, now) # post \<longrightarrow>
       outcome s t = Some (snd (run_job (jobs t) now (serially jobs pre st)))) \<and>
     (\<forall>t \<in> set (decided s). outcome s t \<noteq> None)"

lemma new_line_ok: "line_ok jobs st (new_line st)"
  by (simp add: line_ok_def new_line_def holding_def decided_def)

lemma effect_ok:
  assumes "line_ok jobs st s" and "holder s = Some (t, ph)" and "ph \<noteq> Releasing"
    and "run_job (jobs t) now (lstore s) = (st', r)"
  shows "line_ok jobs st (settle t r (s\<lparr>lstore := st', holder := Some (t, Releasing), effects := effects s @ [(t, now)]\<rparr>))"
proof -
  have dec: "decided s = finished s" using assms(2,3) by (cases ph) (simp_all add: decided_def)
  have ok: "lstore s = serially jobs (effects s) st" "admitted s = finished s @ holding s @ waiting s"
    "distinct (admitted s)" "subseq (map fst (effects s)) (finished s)"
    "\<And>pre t now post. effects s = pre @ (t, now) # post \<Longrightarrow>
       outcome s t = Some (snd (run_job (jobs t) now (serially jobs pre st)))"
    "\<And>i. i \<in> set (finished s) \<Longrightarrow> outcome s i \<noteq> None"
    using assms(1) unfolding line_ok_def dec by blast+
  have fresh: "t \<notin> set (finished s)" using ok(2,3) assms(2) by (auto simp: holding_def)
  have "outcome (settle t r (s\<lparr>lstore := st', holder := Some (t, Releasing), effects := effects s @ [(t, now)]\<rparr>)) t' =
      Some (snd (run_job (jobs t') now' (serially jobs pre st)))"
    if e: "effects s @ [(t, now)] = pre @ (t', now') # post" for pre t' now' post
  proof (cases post rule: rev_cases)
    case Nil
    then show ?thesis using e assms(4) ok(1) by (simp add: settle_def)
  next
    case (snoc post' x)
    then have eff: "effects s = pre @ (t', now') # post'" using e by simp
    then have "t' \<in> set (finished s)" 
      using list_emb_set [OF ok(4), of t'] by auto
    then show ?thesis using ok(5) [OF eff] fresh by (auto simp: settle_def)
  qed
  moreover have "serially jobs (effects s @ [(t, now)]) st = st'"
    using ok(1) assms(4) by (simp add: serially_append)
  moreover have "subseq (map fst (effects s @ [(t, now)])) (finished s @ [t])"
    using ok(4) by (simp add: list_emb_append_mono)
  ultimately show ?thesis
    using ok(2,3,6) fresh assms(2) by (simp add: line_ok_def settle_def holding_def decided_def)
qed

lemma line_ok_tickets:
  assumes "line_ok jobs st s" and "t \<in> fst ` set (effects s)"
  shows "t \<in> set (decided s) \<and> t \<in> set (admitted s)"
proof -
  have "t \<in> set (decided s)" using assms list_emb_set [of "(=)" "map fst (effects s)" "decided s" t]
    by (auto simp: line_ok_def)
  moreover have "set (decided s) \<subseteq> set (admitted s)" using assms(1)
    by (auto simp: line_ok_def decided_def holding_def split: option.splits phase.splits)
  ultimately show ?thesis by blast
qed

text \<open>Settling a ticket without an effect changes nothing the effects depend on.\<close>

lemma settle_outcomes:
  assumes "line_ok jobs st s" and "t \<notin> fst ` set (effects s)" and "effects s = pre @ (i, now) # post"
  shows "outcome (settle t r s) i = Some (snd (run_job (jobs i) now (serially jobs pre st)))"
proof -
  have "i \<noteq> t" using assms(2,3) by auto
  then show ?thesis using assms(1,3) by (simp add: line_ok_def settle_def)
qed

lemma line_step_ok:
  assumes "line_step jobs s s'" and "line_ok jobs st s"
  shows "line_ok jobs st s'"
  using assms
proof (induction rule: line_step.induct)
  case (read_fails s t e now)
  then show ?case using effect_ok [of jobs st s t Granted now "lstore s" "Inl e"] by (simp add: run_job_def)
next
  case (commit s t ws now m st1 r)
  have "jobs t (lstore s) = Inr ws" using commit(1,3) unfolding line_ok_def by blast
  then have "run_job (jobs t) now (lstore s) = (st1, rbind r (\<lambda>_. Inr ()))"
    using commit(2) unfolding run_job_def by simp
  then show ?case using effect_ok [of jobs st s t "Committing ws" now st1] commit by simp
next
  case (refuse s t ts)
  let ?s = "settle t (Inl SessionClosed) (s\<lparr>waiting := ts, finished := finished s @ [t]\<rparr>)"
  have dec: "decided s = finished s" "holding s = []" using refuse(2) by (simp_all add: decided_def holding_def)
  have "t \<notin> set (finished s)" using refuse(3,4) dec by (auto simp: line_ok_def)
  then have new: "t \<notin> fst ` set (effects s)" using line_ok_tickets [OF refuse(4), of t] dec(1) by auto
  have "outcome ?s i = Some (snd (run_job (jobs i) now (serially jobs pre st)))"
    if "effects ?s = pre @ (i, now) # post" for pre i now post
    using settle_outcomes [OF refuse(4) new, of pre i now post] that by (simp add: settle_def)
  moreover have "subseq (map fst (effects s)) (finished s @ [t])"
    using refuse(4) dec(1) subseq_order.trans [OF _ prefix_imp_subseq [of "finished s" "finished s @ [t]"]]
    by (simp add: line_ok_def)
  ultimately show ?case using refuse dec by (auto simp: line_ok_def settle_def holding_def decided_def)
next
  case (turn_away s t)
  have new: "t \<notin> fst ` set (effects s)" using line_ok_tickets [OF turn_away(3), of t] turn_away(2) by blast
  let ?s = "settle t (Inl SessionClosed) s"
  have same: "lstore ?s = lstore s" "effects ?s = effects s" "admitted ?s = admitted s" "finished ?s = finished s"
    "waiting ?s = waiting s" "holder ?s = holder s" "holding ?s = holding s" "decided ?s = decided s"
    by (simp_all add: settle_def holding_def decided_def)
  have "\<forall>pre i now post. effects s = pre @ (i, now) # post \<longrightarrow>
      outcome ?s i = Some (snd (run_job (jobs i) now (serially jobs pre st)))"
    using settle_outcomes [OF turn_away(3) new] by blast
  moreover have "\<forall>i \<in> set (decided s). outcome ?s i \<noteq> None"
    using turn_away(3) by (simp add: line_ok_def settle_def)
  ultimately show ?case using turn_away(3) unfolding line_ok_def same by blast
next
  case (admit s t)
  let ?s = "s\<lparr>waiting := waiting s @ [t], admitted := admitted s @ [t]\<rparr>"
  have "holding ?s = holding s" "decided ?s = decided s" by (simp_all add: holding_def decided_def)
  then show ?case using admit by (auto simp: line_ok_def)
next
  case (grant s t ts)
  then show ?case by (auto simp: line_ok_def holding_def decided_def)
next
  case (read s t ws)
  then show ?case by (auto simp: line_ok_def holding_def decided_def)
next
  case (release s t)
  then show ?case by (auto simp: line_ok_def holding_def decided_def)
next
  case (seal s)
  have "holding (s\<lparr>sealed := True\<rparr>) = holding s" "decided (s\<lparr>sealed := True\<rparr>) = decided s"
    by (simp_all add: holding_def decided_def)
  then show ?case using seal by (auto simp: line_ok_def)
qed

lemma line_run_ok: "line_run jobs s s' \<Longrightarrow> line_ok jobs st s \<Longrightarrow> line_ok jobs st s'"
proof (induction rule: line_run.induct)
  case (line_more s s' s'')
  then show ?case using line_step_ok by blast
qed

text \<open>
  C32. Concurrent writers are serialized. However the steps of any number of mutations interleave, the
  storage is what running the mutations that took effect one after another gives, in the order they were
  admitted; each of them saw the state its predecessors left, although its read and its commit are
  different steps, and its caller gets the outcome of that serial run.
\<close>

theorem line_serializes:
  assumes "line_run jobs (new_line st) s"
  shows "lstore s = serially jobs (effects s) st \<and> subseq (map fst (effects s)) (admitted s) \<and>
    distinct (admitted s) \<and> (\<forall>pre t now post. effects s = pre @ (t, now) # post \<longrightarrow>
      outcome s t = Some (snd (run_job (jobs t) now (serially jobs pre st))))"
proof -
  have ok: "line_ok jobs st s" using line_run_ok [OF assms new_line_ok] .
  have "prefix (decided s) (admitted s)" using ok
    by (auto simp: line_ok_def decided_def holding_def split: option.splits phase.splits)
  then have "subseq (map fst (effects s)) (admitted s)"
    using ok subseq_order.trans [OF _ prefix_imp_subseq] by (auto simp: line_ok_def)
  then show ?thesis using ok unfolding line_ok_def by blast
qed

text \<open>Two appends whose reads come before either commit would lose an entry without the line.\<close>

definition demo_jobs :: "nat \<Rightarrow> int job" where
  "demo_jobs t = append_to_branch ''main'' (AppendCustom ''note'' None) (''n'' @ show_nat t)"

lemma demo_line: "\<exists>s. line_run demo_jobs (new_line demo_session) s \<and> map fst (effects s) = [1] \<and> waiting s = [2]"
proof -
  let ?s1 = "(new_line demo_session)\<lparr>waiting := [1], admitted := [1]\<rparr>"
  let ?s2 = "?s1\<lparr>waiting := [1, 2], admitted := [1, 2]\<rparr>"
  let ?s3 = "?s2\<lparr>waiting := [2], holder := Some (1, Granted)\<rparr>"
  have "line_step demo_jobs (new_line demo_session) ?s1"
    using line_step.admit [of "new_line demo_session" 1 demo_jobs] by (simp add: new_line_def)
  moreover have "line_step demo_jobs ?s1 ?s2"
    using line_step.admit [of ?s1 2 demo_jobs] by (simp add: new_line_def)
  moreover have "line_step demo_jobs ?s2 ?s3"
    using line_step.grant [of ?s2 1 "[2]" demo_jobs] by (simp add: new_line_def)
  ultimately have run: "line_run demo_jobs (new_line demo_session) ?s3"
    by (meson line_run.line_refl line_run.line_more)
  have "(case demo_jobs 1 demo_session of Inr ws \<Rightarrow> True | _ \<Rightarrow> False)" by code_simp
  then obtain ws where ws: "demo_jobs 1 demo_session = Inr ws" by (auto split: sum.splits)
  let ?s4 = "?s3\<lparr>holder := Some (1, Committing ws)\<rparr>"
  obtain m st r where c: "mutation_commit new_mutation demo_session ws 9 = (m, st, r)" by (metis prod_cases3)
  have s34: "line_step demo_jobs ?s3 ?s4" using line_step.read [of ?s3 1 demo_jobs ws] ws by (simp add: new_line_def)
  define s5 where "s5 = settle 1 (rbind r (\<lambda>_. Inr ()))
      (?s4\<lparr>lstore := st, holder := Some (1, Releasing), effects := [(1, 9)]\<rparr>)"
  have s45: "line_step demo_jobs ?s4 s5"
    using line_step.commit [of ?s4 1 ws 9 m st r demo_jobs] c by (simp add: new_line_def s5_def)
  have "line_run demo_jobs (new_line demo_session) s5" by (rule line_run.line_more [OF line_run.line_more [OF run s34] s45])
  moreover have "map fst (effects s5) = [1]" "waiting s5 = [2]" by (simp_all add: s5_def settle_def)
  ultimately show ?thesis by (intro exI [of _ s5] conjI)
qed

theorem line_serializes_witness:
  "\<exists>s now. line_run demo_jobs (new_line demo_session) s \<and> waiting s = [2] \<and>
    lstore s = fst (run_job (demo_jobs 1) now demo_session)"
proof -
  obtain s where s: "line_run demo_jobs (new_line demo_session) s" "map fst (effects s) = [1]" "waiting s = [2]"
    using demo_line by (elim exE conjE) (rule that)
  then obtain now where now: "effects s = [(1, now)]" by (cases "effects s") auto
  have "lstore s = serially demo_jobs (effects s) demo_session" using line_serializes [OF s(1)] by (rule conjunct1)
  then have "lstore s = fst (run_job (demo_jobs 1) now demo_session)" by (simp only: now serially.simps)
  then show ?thesis using s(1,3) by (intro exI [of _ s] exI [of _ now] conjI)
qed

section \<open>Every admitted mutation ends\<close>

definition work :: "'n line \<Rightarrow> nat" where
  "work s = 4 * length (waiting s) + (case holder s of None \<Rightarrow> 0 | Some (_, Granted) \<Rightarrow> 3
     | Some (_, Committing _) \<Rightarrow> 2 | Some (_, Releasing) \<Rightarrow> 1)"

lemma line_progress:
  assumes "work s \<noteq> 0"
  shows "\<exists>s'. line_step jobs s s' \<and> work s' < work s \<and> admitted s' = admitted s"
proof (cases "holder s")
  case None
  then obtain t ts where w: "waiting s = t # ts" using assms by (cases "waiting s") (auto simp: work_def)
  show ?thesis
  proof (cases "sealed s")
    case True
    show ?thesis by (rule exI, rule conjI, rule line_step.refuse [OF True None w])
        (use None w in \<open>simp add: work_def settle_def\<close>)
  next
    case False
    show ?thesis by (rule exI, rule conjI, rule line_step.grant [OF False None w])
        (use None w in \<open>simp add: work_def\<close>)
  qed
next
  case (Some p)
  obtain t ph where p: "holder s = Some (t, ph)" using Some by (cases p) auto
  show ?thesis
  proof (cases ph)
    case Granted
    have h: "holder s = Some (t, Granted)" using p Granted by simp
    show ?thesis
    proof (cases "jobs t (lstore s)")
      case (Inl e)
      show ?thesis by (rule exI, rule conjI, rule line_step.read_fails [where jobs = jobs and s = s and t = t and e = e and now = 0, OF h Inl])
          (use h in \<open>simp add: work_def settle_def\<close>)
    next
      case (Inr ws)
      show ?thesis by (rule exI, rule conjI, rule line_step.read [where jobs = jobs and s = s and t = t and ws = ws, OF h Inr]) (use h in \<open>simp add: work_def\<close>)
    qed
  next
    case (Committing ws)
    obtain m st r where c: "mutation_commit new_mutation (lstore s) ws 0 = (m, st, r)" by (metis prod_cases3)
    have h: "holder s = Some (t, Committing ws)" using p Committing by simp
    show ?thesis by (rule exI, rule conjI, rule line_step.commit [OF h c])
        (use h in \<open>simp add: work_def settle_def\<close>)
  next
    case Releasing
    have h: "holder s = Some (t, Releasing)" using p Releasing by simp
    show ?thesis by (rule exI, rule conjI, rule line_step.release [OF h]) (use h in \<open>simp add: work_def\<close>)
  qed
qed

lemma line_drain: "\<exists>s'. line_run jobs s s' \<and> work s' = 0 \<and> admitted s' = admitted s"
proof (induction "work s" arbitrary: s rule: less_induct)
  case less
  show ?case
  proof (cases "work s = 0")
    case False
    then obtain s1 where s1: "line_step jobs s s1" "work s1 < work s" "admitted s1 = admitted s"
      using line_progress by blast
    then obtain s' where s': "line_run jobs s1 s'" "work s' = 0" "admitted s' = admitted s"
      using less by metis
    have "line_run jobs s s'" using s'(1) s1(1)
    proof (induction rule: line_run.induct)
      case (line_refl a)
      then show ?case using line_run.line_more [OF line_run.line_refl] by blast
    next
      case (line_more a b c)
      then show ?case using line_run.line_more by blast
    qed
    then show ?thesis using s' by blast
  qed (use line_run.line_refl in blast)
qed

text \<open>
  A step of the line itself moves its queue or its holder; the other steps are those of its callers. A run counts
  the line's own steps.
\<close>

definition own_step :: "(nat \<Rightarrow> 'n::{zero,plus} job) \<Rightarrow> 'n line \<Rightarrow> 'n line \<Rightarrow> bool" where
  "own_step jobs s s' \<longleftrightarrow> line_step jobs s s' \<and> admitted s' = admitted s \<and> (waiting s', holder s') \<noteq> (waiting s, holder s)"

inductive counted_run :: "(nat \<Rightarrow> 'n::{zero,plus} job) \<Rightarrow> nat \<Rightarrow> 'n line \<Rightarrow> 'n line \<Rightarrow> bool" for jobs where
  counted_refl: "counted_run jobs 0 s s"
| counted_own: "counted_run jobs n s s' \<Longrightarrow> own_step jobs s' s'' \<Longrightarrow> counted_run jobs (Suc n) s s''"
| counted_other: "counted_run jobs n s s' \<Longrightarrow> line_step jobs s' s'' \<Longrightarrow> \<not> own_step jobs s' s'' \<Longrightarrow> counted_run jobs n s s''"

lemma counted_line_run: "counted_run jobs n s s' \<Longrightarrow> line_run jobs s s'"
  by (induction rule: counted_run.induct) (auto simp: own_step_def intro: line_run.intros)

definition progress :: "'n line \<Rightarrow> nat" where
  "progress s = 4 * length (finished s) + (case holder s of None \<Rightarrow> 0 | Some (_, Granted) \<Rightarrow> 1
     | Some (_, Committing _) \<Rightarrow> 2 | Some (_, Releasing) \<Rightarrow> 3)"

lemma progress_work: "line_ok jobs st s \<Longrightarrow> progress s + work s = 4 * length (admitted s)"
  by (auto simp: progress_def work_def line_ok_def holding_def split: option.split phase.split)

lemma step_progress:
  assumes "line_step jobs s s'"
  shows "progress s \<le> progress s'" and "own_step jobs s s' \<Longrightarrow> progress s < progress s'" and "prefix (admitted s) (admitted s')"
  using assms by (cases rule: line_step.cases; auto simp: progress_def own_step_def settle_def)+

lemma counted_progress:
  "counted_run jobs n s s' \<Longrightarrow> progress s + n \<le> progress s' \<and> prefix (admitted s) (admitted s')"
proof (induction rule: counted_run.induct)
  case (counted_own n s s' s'')
  then show ?case using step_progress(2,3) [of jobs s' s''] prefix_order.trans by (fastforce simp: own_step_def)
next
  case (counted_other n s s' s'')
  then show ?case using step_progress(1,3) [of jobs s' s''] prefix_order.trans by fastforce
qed simp

lemma stuck_line: "\<not> (\<exists>s'. own_step jobs s s') \<Longrightarrow> work s = 0"
  using line_progress [of s jobs] by (fastforce simp: own_step_def work_def)

lemma idle_line: "work s = 0 \<Longrightarrow> holder s = None \<and> waiting s = []"
  by (auto simp: work_def split: option.splits phase.splits)

lemma idle_outcomes:
  assumes "line_ok jobs st s" and "work s = 0" and "t \<in> set (admitted s)"
  shows "outcome s t \<noteq> None"
  using assms idle_line [OF assms(2)] by (simp add: line_ok_def holding_def decided_def)

text \<open>
  C38. Every admitted mutation ends, however the line is scheduled and whatever calls arrive in between, also
  after it was sealed: from every state the line can reach, the mutations admitted so far all have an outcome
  once the line has made \<open>work s\<close> steps of its own; the line has no step of its own left only when nothing runs
  or waits and every admitted mutation has an outcome; and such a state can always be reached.
\<close>

theorem line_settles:
  assumes "line_run jobs (new_line st) s"
  shows "(\<forall>n s'. counted_run jobs n s s' \<longrightarrow> work s \<le> n \<longrightarrow> (\<forall>t \<in> set (admitted s). outcome s' t \<noteq> None)) \<and>
    (\<forall>n s'. counted_run jobs n s s' \<longrightarrow> \<not> (\<exists>s''. own_step jobs s' s'') \<longrightarrow>
      holder s' = None \<and> waiting s' = [] \<and> (\<forall>t \<in> set (admitted s'). outcome s' t \<noteq> None)) \<and>
    (\<exists>s'. line_run jobs s s' \<and> holder s' = None \<and> waiting s' = [] \<and> (\<forall>t \<in> set (admitted s). outcome s' t \<noteq> None))"
proof (intro conjI allI impI)
  have ok: "line_ok jobs st s" using line_run_ok [OF assms new_line_ok] .
  have ok': "line_ok jobs st s'" if "counted_run jobs n s s'" for n s'
    using line_run_ok [OF counted_line_run [OF that] ok] .
  show "\<forall>t \<in> set (admitted s). outcome s' t \<noteq> None" if run: "counted_run jobs n s s'" and n: "work s \<le> n" for n s'
  proof -
    have "4 * length (admitted s) \<le> progress s'" and pre: "prefix (admitted s) (admitted s')"
      using counted_progress [OF run] progress_work [OF ok] n by simp_all
    then have "length (admitted s) \<le> length (finished s')" by (auto simp: progress_def split: option.splits phase.splits)
    moreover have "prefix (finished s') (admitted s')" using ok' [OF run] by (simp add: line_ok_def)
    ultimately have "prefix (admitted s) (finished s')" using pre by (meson prefix_length_prefix)
    from set_mono_prefix [OF this] have "set (admitted s) \<subseteq> set (decided s')" by (auto simp: decided_def)
    moreover have "\<forall>t \<in> set (decided s'). outcome s' t \<noteq> None" using ok' [OF run] unfolding line_ok_def by blast
    ultimately show ?thesis by blast
  qed
  show "holder s' = None" "waiting s' = []" "\<forall>t \<in> set (admitted s'). outcome s' t \<noteq> None"
    if "counted_run jobs n s s'" "\<not> (\<exists>s''. own_step jobs s' s'')" for n s'
    using idle_line [OF stuck_line [OF that(2)]] idle_outcomes [OF ok' [OF that(1)] stuck_line [OF that(2)]] by simp_all
  obtain s' where s': "line_run jobs s s'" "work s' = 0" "admitted s' = admitted s" using line_drain by blast
  then show "\<exists>s'. line_run jobs s s' \<and> holder s' = None \<and> waiting s' = [] \<and> (\<forall>t \<in> set (admitted s). outcome s' t \<noteq> None)"
    using idle_line idle_outcomes [OF line_run_ok [OF s'(1) ok] s'(2)] by (intro exI [of _ s']) simp
qed

theorem line_settles_witness:
  "\<exists>s. line_run demo_jobs (new_line demo_session) s \<and> waiting s = [2] \<and>
     (\<forall>n s'. counted_run demo_jobs n s s' \<longrightarrow> work s \<le> n \<longrightarrow> (\<forall>t \<in> set (admitted s). outcome s' t \<noteq> None))"
proof -
  obtain s where s: "line_run demo_jobs (new_line demo_session) s" "waiting s = [2]"
    using demo_line by (elim exE conjE) (rule that)
  then show ?thesis using line_settles [OF s(1), THEN conjunct1] by (intro exI [of _ s] conjI)
qed

lemma sealed_run:
  assumes "line_run jobs s s'" and "sealed s"
  shows "sealed s' \<and> set (holding s') \<subseteq> set (holding s) \<and>
    (\<exists>extra. effects s' = effects s @ extra \<and> fst ` set extra \<subseteq> set (holding s))"
  using assms
proof (induction rule: line_run.induct)
  case (line_more s s' s'')
  then obtain extra where e: "sealed s'" "set (holding s') \<subseteq> set (holding s)"
    "effects s' = effects s @ extra" "fst ` set extra \<subseteq> set (holding s)" by blast
  show ?case using line_more.hyps(2)
  proof (cases rule: line_step.cases)
    case (read_fails t err now)
    then have "t \<in> set (holding s)" using e(2) by (auto simp: holding_def)
    then show ?thesis using e read_fails by (auto simp: settle_def holding_def)
  next
    case (commit t ws now m st r)
    then have "t \<in> set (holding s)" using e(2) by (auto simp: holding_def)
    then show ?thesis using e commit by (auto simp: settle_def holding_def)
  qed (use e in \<open>auto simp: settle_def holding_def\<close>)
qed auto

text \<open>
  Closing a session is final: once its line is sealed, the only mutation that may still take effect
  is the one that holds the line, and a mutation that waits is refused.
\<close>

theorem line_sealed:
  assumes "line_run jobs (new_line st) s" and "sealed s" and "line_run jobs s s'" and "t \<in> set (waiting s)"
  shows "t \<notin> fst ` set (effects s') \<and> (t \<in> set (finished s') \<longrightarrow> outcome s' t \<noteq> None)"
proof -
  have ok: "line_ok jobs st s" "line_ok jobs st s'"
    using line_run_ok [OF assms(1) new_line_ok] line_run_ok [OF assms(3)] by blast+
  have "t \<notin> set (holding s)" "t \<notin> set (decided s)" using ok(1) assms(4)
    by (auto simp: line_ok_def holding_def decided_def split: option.splits phase.splits)
  moreover from this have "t \<notin> fst ` set (effects s)" using line_ok_tickets [OF ok(1), of t] by blast
  moreover obtain extra where "effects s' = effects s @ extra" "fst ` set extra \<subseteq> set (holding s)"
    using sealed_run [OF assms(3,2)] by blast
  ultimately have "t \<notin> fst ` set (effects s')" by (simp add: image_Un) blast
  then show ?thesis using ok(2) by (auto simp: line_ok_def decided_def)
qed

theorem line_sealed_witness:
  "\<exists>s s'. sealed s \<and> waiting s = [2] \<and> line_run demo_jobs s s' \<and> holder s' = None \<and> 2 \<notin> fst ` set (effects s')"
proof -
  obtain s where s: "line_run demo_jobs (new_line demo_session) s" "map fst (effects s) = [1]" "waiting s = [2]"
    using demo_line by (elim exE conjE) (rule that)
  let ?s = "s\<lparr>sealed := True\<rparr>"
  have run: "line_run demo_jobs (new_line demo_session) ?s"
    by (rule line_run.line_more [OF s(1) line_step.seal])
  have sw: "sealed ?s" "waiting ?s = [2]" "2 \<in> set (waiting ?s)" using s(3) by simp_all
  obtain s' where s': "line_run demo_jobs ?s s'" "work s' = 0" using line_drain by blast
  have "holder s' = None" using s'(2) by (auto simp: work_def split: option.splits phase.splits)
  moreover have "2 \<notin> fst ` set (effects s')" using line_sealed [OF run sw(1) s'(1) sw(3)] by (rule conjunct1)
  ultimately show ?thesis using s'(1) sw(1,2) by (intro exI [of _ ?s] exI [of _ s'] conjI)
qed

end
