(* ===== verification/Truncate.thy ===== *)
theory Truncate
  imports Utf "HOL-Library.Sublist"
begin

text \<open>
  Truncation of tool output, \<open>packages/agent/src/harness/utils/truncate.ts\<close>: the byte length of a
  string, keeping the first or the last lines within a line and a byte limit, and cutting a string from
  its end at a character boundary. Strings are lists of UTF-16 code units; the limits are integers.
\<close>

section \<open>Byte length\<close>

definition default_max_lines :: int where
  "default_max_lines = 2000"

definition default_max_bytes :: int where
  "default_max_bytes = 50 * 1024"

definition grep_max_line_length :: nat where
  "grep_max_line_length = 500"

fun byte_count :: "text16 \<Rightarrow> nat" where
  "byte_count [] = 0"
| "byte_count [c] = (if c \<le> 0x7F then 1 else if c \<le> 0x7FF then 2 else 3)"
| "byte_count (c # d # s) =
    (if c \<le> 0x7F then 1 + byte_count (d # s)
     else if c \<le> 0x7FF then 2 + byte_count (d # s)
     else if is_high c then (if is_low d then 4 + byte_count s else 3 + byte_count (d # s))
     else 3 + byte_count (d # s))"

text \<open>
  The branch for a runtime without \<open>Buffer\<close>. Where there is one the code calls its \<open>byteLength\<close>, by its
  documentation the length of the encoding, which is what \<open>utf8_byte_length_encode\<close> proves of this branch.
\<close>

definition utf8_byte_length :: "text16 \<Rightarrow> nat" where
  "utf8_byte_length s = (let first = length (takeWhile (\<lambda>c. c \<le> 0x7F) s) in
     if first = length s then length s else first + byte_count (drop first s))"

section \<open>Lines\<close>

definition newline :: "16 word" where
  "newline = 0x0A"

text \<open>\<open>content.split(separator)\<close> and \<open>lines.join(separator)\<close> for a separator of one unit.\<close>

fun split_on :: "'a \<Rightarrow> 'a list \<Rightarrow> 'a list list" where
  "split_on c [] = [[]]"
| "split_on c (x # xs) = (if x = c then [] # split_on c xs
     else (case split_on c xs of [] \<Rightarrow> [[x]] | l # ls \<Rightarrow> (x # l) # ls))"

fun join_on :: "'a \<Rightarrow> 'a list list \<Rightarrow> 'a list" where
  "join_on c [] = []"
| "join_on c [l] = l"
| "join_on c (l # ls) = l @ c # join_on c ls"

definition split_lines :: "text16 \<Rightarrow> text16 list" where
  "split_lines s = (if s = [] then []
     else (let ls = split_on newline s in if last s = newline then butlast ls else ls))"

section \<open>Cutting a string from its end\<close>

fun replace_loop :: "text16 \<Rightarrow> text16" where
  "replace_loop [] = []"
| "replace_loop [c] = (if is_high c \<or> is_low c then [0xFFFD] else [c])"
| "replace_loop (c # d # s) =
    (if is_high c then (if is_low d then c # d # replace_loop s else 0xFFFD # replace_loop (d # s))
     else if is_low c then 0xFFFD # replace_loop (d # s)
     else c # replace_loop (d # s))"

text \<open>
  The loop of \<open>truncateStringToBytesFromEnd\<close> on the reversed string: what is kept so far, its bytes,
  and whether an unpaired surrogate is among it.
\<close>

fun end_loop :: "int \<Rightarrow> int \<Rightarrow> text16 \<Rightarrow> bool \<Rightarrow> text16 \<Rightarrow> text16 \<times> bool" where
  "end_loop limit count kept needs [] = (kept, needs)"
| "end_loop limit count kept needs [c] =
    (let size = (if is_high c \<or> is_low c then 3 else if c \<le> 0x7F then 1 else if c \<le> 0x7FF then 2 else 3);
         unpaired = is_high c \<or> is_low c in
     if count + size > limit then (kept, needs) else (c # kept, needs \<or> unpaired))"
| "end_loop limit count kept needs (c # d # r) =
    (if is_low c \<and> is_high d then
       if count + 4 > limit then (kept, needs) else end_loop limit (count + 4) (d # c # kept) needs r
     else
       (let size = (if is_high c \<or> is_low c then 3 else if c \<le> 0x7F then 1 else if c \<le> 0x7FF then 2 else 3);
            unpaired = is_high c \<or> is_low c in
        if count + size > limit then (kept, needs)
        else end_loop limit (count + size) (c # kept) (needs \<or> unpaired) (d # r)))"

definition truncate_from_end :: "text16 \<Rightarrow> int \<Rightarrow> text16" where
  "truncate_from_end s limit = (if limit \<le> 0 then []
     else (case end_loop limit 0 [] False (rev s) of (kept, needs) \<Rightarrow> if needs then replace_loop kept else kept))"

section \<open>Keeping the head or the tail\<close>

datatype limit_kind = Lines | Bytes

record truncation =
  shown :: text16
  truncated :: bool
  truncated_by :: "limit_kind option"
  total_lines :: nat
  total_bytes :: nat
  output_lines :: nat
  output_bytes :: nat
  last_line_partial :: bool
  first_line_exceeds :: bool
  max_lines_used :: int
  max_bytes_used :: int

definition untruncated :: "text16 \<Rightarrow> nat \<Rightarrow> nat \<Rightarrow> int \<Rightarrow> int \<Rightarrow> truncation" where
  "untruncated s nlines nbytes max_lines max_bytes = \<lparr>shown = s, truncated = False, truncated_by = None,
     total_lines = nlines, total_bytes = nbytes, output_lines = nlines, output_bytes = nbytes,
     last_line_partial = False, first_line_exceeds = False, max_lines_used = max_lines, max_bytes_used = max_bytes\<rparr>"

fun head_loop :: "int \<Rightarrow> int \<Rightarrow> nat \<Rightarrow> int \<Rightarrow> text16 list \<Rightarrow> text16 list \<times> int \<times> limit_kind" where
  "head_loop max_lines max_bytes i count [] = ([], count, Lines)"
| "head_loop max_lines max_bytes i count (l # ls) =
    (if \<not> int i < max_lines then ([], count, Lines)
     else (let size = int (utf8_byte_length l) + (if i > 0 then 1 else 0) in
       if count + size > max_bytes then ([], count, Bytes)
       else (case head_loop max_lines max_bytes (Suc i) (count + size) ls of
           (kept, count', by_limit) \<Rightarrow> (l # kept, count', by_limit))))"

text \<open>
  \<open>None\<close>: with a negative limit an empty content gets past the first test, and the byte length of a
  missing first line throws.
\<close>

definition truncate_head :: "text16 \<Rightarrow> int option \<Rightarrow> int option \<Rightarrow> truncation option" where
  "truncate_head s lines_opt bytes_opt =
    (let max_lines = (case lines_opt of None \<Rightarrow> default_max_lines | Some n \<Rightarrow> n);
         max_bytes = (case bytes_opt of None \<Rightarrow> default_max_bytes | Some n \<Rightarrow> n);
         nbytes = utf8_byte_length s;
         ls = split_lines s;
         nlines = length ls in
     if int nlines \<le> max_lines \<and> int nbytes \<le> max_bytes
     then Some (untruncated s nlines nbytes max_lines max_bytes)
     else (case ls of
         [] \<Rightarrow> None
       | l # _ \<Rightarrow>
         if int (utf8_byte_length l) > max_bytes
         then Some \<lparr>shown = [], truncated = True, truncated_by = Some Bytes, total_lines = nlines,
           total_bytes = nbytes, output_lines = 0, output_bytes = 0, last_line_partial = False,
           first_line_exceeds = True, max_lines_used = max_lines, max_bytes_used = max_bytes\<rparr>
         else (case head_loop max_lines max_bytes 0 0 ls of (kept, count, by_limit) \<Rightarrow>
           let by' = (if int (length kept) \<ge> max_lines \<and> count \<le> max_bytes then Lines else by_limit);
               out = join_on newline kept in
           Some \<lparr>shown = out, truncated = True, truncated_by = Some by', total_lines = nlines,
             total_bytes = nbytes, output_lines = length kept, output_bytes = utf8_byte_length out,
             last_line_partial = False, first_line_exceeds = False,
             max_lines_used = max_lines, max_bytes_used = max_bytes\<rparr>)))"

text \<open>The backward loop of \<open>truncateTail\<close>, on the reversed lines.\<close>

fun tail_loop :: "int \<Rightarrow> int \<Rightarrow> text16 list \<Rightarrow> int \<Rightarrow> text16 list \<Rightarrow> text16 list \<times> int \<times> limit_kind \<times> bool" where
  "tail_loop max_lines max_bytes kept count [] = (kept, count, Lines, False)"
| "tail_loop max_lines max_bytes kept count (l # ls) =
    (if \<not> int (length kept) < max_lines then (kept, count, Lines, False)
     else (let size = int (utf8_byte_length l) + (if kept \<noteq> [] then 1 else 0) in
       if count + size > max_bytes then
         if kept = [] then
           (let cut = truncate_from_end l max_bytes in ([cut], int (utf8_byte_length cut), Bytes, True))
         else (kept, count, Bytes, False)
       else tail_loop max_lines max_bytes (l # kept) (count + size) ls))"

definition truncate_tail :: "text16 \<Rightarrow> int option \<Rightarrow> int option \<Rightarrow> truncation" where
  "truncate_tail s lines_opt bytes_opt =
    (let max_lines = (case lines_opt of None \<Rightarrow> default_max_lines | Some n \<Rightarrow> n);
         max_bytes = (case bytes_opt of None \<Rightarrow> default_max_bytes | Some n \<Rightarrow> n);
         nbytes = utf8_byte_length s;
         ls = split_lines s;
         nlines = length ls in
     if int nlines \<le> max_lines \<and> int nbytes \<le> max_bytes
     then untruncated s nlines nbytes max_lines max_bytes
     else (case tail_loop max_lines max_bytes [] 0 (rev ls) of (kept, count, by_limit, partial) \<Rightarrow>
         let by' = (if int (length kept) \<ge> max_lines \<and> count \<le> max_bytes then Lines else by_limit);
             out = join_on newline kept in
         \<lparr>shown = out, truncated = True, truncated_by = Some by', total_lines = nlines,
           total_bytes = nbytes, output_lines = length kept, output_bytes = utf8_byte_length out,
           last_line_partial = partial, first_line_exceeds = False,
           max_lines_used = max_lines, max_bytes_used = max_bytes\<rparr>))"

definition truncate_line :: "text16 \<Rightarrow> nat option \<Rightarrow> text16 \<times> bool" where
  "truncate_line l max_chars = (let n = (case max_chars of None \<Rightarrow> grep_max_line_length | Some k \<Rightarrow> k) in
     if length l \<le> n then (l, False)
     else (take n l @ map (\<lambda>c. of_nat (of_char c)) ''... [truncated]'', True))"

section \<open>Byte length is the length of the encoding\<close>

lemma utf8_char_lengths:
  "length (utf8_char c) = (if c < 0x80 then 1 else if c < 0x800 then 2 else if c < 0x10000 then 3 else 4)"
  by (simp add: utf8_char_def)

lemma unit_length:
  "length (utf8_char (unit_point c)) = (if is_high c \<or> is_low c then 3 else if c \<le> 0x7F then 1 else if c \<le> 0x7FF then 2 else 3)"
  using unat_unit [of c] by (auto simp: utf8_char_lengths unit_point_def word_le_nat_alt)

lemma pair_length: "is_high c \<Longrightarrow> is_low d \<Longrightarrow> length (utf8_char (pair_point c d)) = 4"
  using pair_point_range [of c d] by (simp add: utf8_char_lengths)

lemma small_not_surrogate: "c \<le> 0x7FF \<Longrightarrow> \<not> is_high c \<and> \<not> is_low c"
  by (auto simp: is_high_unat is_low_unat word_le_nat_alt)

lemma small_units: "c \<le> (0x7F :: 16 word) \<Longrightarrow> c \<le> 0x7FF"
  by (simp add: word_le_nat_alt)

lemma byte_count_encode: "byte_count s = length (utf8_encode s)"
proof (induction s rule: byte_count.induct)
  case (2 c)
  then show ?case using small_not_surrogate [of c] small_units [of c]
    by (auto simp: utf8_encode_def unit_length)
next
  case (3 c d s)
  show ?case
  proof (cases "is_high c \<and> is_low d")
    case True
    then have "\<not> c \<le> 0x7FF" "\<not> c \<le> 0x7F" using small_not_surrogate [of c] small_units [of c] by auto
    then show ?thesis using 3 True by (simp add: utf8_encode_def pair_length)
  next
    case False
    then have "utf8_encode (c # d # s) = utf8_char (unit_point c) @ utf8_encode (d # s)"
      by (auto simp: utf8_encode_def)
    then show ?thesis using 3 False small_not_surrogate [of c] small_units [of c] unit_length [of c] by auto
  qed
qed (simp add: utf8_encode_def)

lemma byte_count_ascii: "(\<And>c. c \<in> set xs \<Longrightarrow> c \<le> 0x7F) \<Longrightarrow> byte_count (xs @ t) = length xs + byte_count t"
proof (induction xs)
  case (Cons c xs)
  have "byte_count (c # u) = 1 + byte_count u" for u using Cons.prems by (cases u) auto
  then show ?case using Cons by simp
qed simp

lemma utf8_byte_length_eq: "utf8_byte_length s = length (utf8_encode s)"
proof -
  let ?pre = "takeWhile (\<lambda>c. c \<le> (0x7F :: 16 word)) s"
  have "byte_count (?pre @ drop (length ?pre) s) = length ?pre + byte_count (drop (length ?pre) s)"
    by (rule byte_count_ascii) (auto dest: set_takeWhileD)
  moreover have "?pre @ drop (length ?pre) s = s" by (simp add: dropWhile_eq_drop [symmetric])
  ultimately have "byte_count s = length ?pre + byte_count (drop (length ?pre) s)" by simp
  then show ?thesis by (simp add: utf8_byte_length_def byte_count_encode [symmetric] Let_def)
qed

text \<open>
  \<open>utf8ByteLength\<close> is the length of the UTF-8 encoding for every string, also where surrogates
  are unpaired: the loop that counts agrees with encoding the string and measuring it.
\<close>

theorem utf8_byte_length_encode: "utf8_byte_length s = length (utf8_encode s)"
  by (rule utf8_byte_length_eq)

section \<open>Cutting at a character boundary\<close>

abbreviation nbytes :: "text16 \<Rightarrow> nat" where
  "nbytes s \<equiv> length (utf8_encode s)"

text \<open>Cutting between \<open>xs\<close> and \<open>ys\<close> would cut a surrogate pair in two.\<close>

definition splits_pair :: "text16 \<Rightarrow> text16 \<Rightarrow> bool" where
  "splits_pair xs ys \<longleftrightarrow> xs \<noteq> [] \<and> ys \<noteq> [] \<and> is_high (last xs) \<and> is_low (hd ys)"

lemma scalars_append: "\<not> splits_pair xs ys \<Longrightarrow> scalars (xs @ ys) = scalars xs @ scalars ys"
proof (induction xs rule: scalars.induct)
  case (2 u)
  then show ?case by (cases ys) (auto simp: splits_pair_def)
next
  case (3 u v s)
  show ?case
  proof (cases "is_high u \<and> is_low v")
    case True
    then have "\<not> splits_pair s ys" using 3(3) high_not_low [of v]
      by (cases s) (auto simp: splits_pair_def)
    then show ?thesis using 3(1) True by simp
  next
    case False
    have "\<not> splits_pair (v # s) ys" using 3(3) by (auto simp: splits_pair_def)
    then show ?thesis using 3(2) False by auto
  qed
qed simp

lemma unpaired_Cons:
  assumes "\<not> splits_pair [c] s"
  shows "scalars (c # s) = unit_point c # scalars s"
    and "well_formed (c # s) \<longleftrightarrow> \<not> is_high c \<and> \<not> is_low c \<and> well_formed s"
  using assms by (cases s; auto simp: splits_pair_def)+

lemma nbytes_append: "\<not> splits_pair xs ys \<Longrightarrow> nbytes (xs @ ys) = nbytes xs + nbytes ys"
  by (simp add: utf8_encode_def scalars_append)

lemma end_loop_spec:
  assumes "\<not> splits_pair (rev r) kept" and "count = int (nbytes kept)" and "count \<le> limit"
    and "needs \<longleftrightarrow> \<not> well_formed kept" and "end_loop limit count kept needs r = (k, n)"
  shows "\<exists>pre. rev r @ kept = pre @ k \<and> scalars (rev r @ kept) = scalars pre @ scalars k \<and>
    int (nbytes k) \<le> limit \<and> (n \<longleftrightarrow> \<not> well_formed k) \<and>
    (pre = [] \<or> limit < int (nbytes k + length (utf8_char (last (scalars pre)))))"
  using assms
proof (induction limit count kept needs r rule: end_loop.induct)
  case (1 limit count kept needs)
  then show ?case by auto
next
  case (2 limit count kept needs c)
  have ns: "\<not> splits_pair [c] kept" using "2.prems"(1) by simp
  have size: "nbytes (c # kept) = length (utf8_char (unit_point c)) + nbytes kept"
    using unpaired_Cons(1) [OF ns] by (simp add: utf8_encode_def)
  show ?case
  proof (cases "count + int (length (utf8_char (unit_point c))) > limit")
    case True
    then have "k = kept" "n = needs" using "2.prems"(5) by (auto simp: unit_length Let_def split: if_splits)
    then show ?thesis using "2.prems" True unpaired_Cons(1) [OF ns] by (intro exI [of _ "[c]"]) simp
  next
    case False
    then have "k = c # kept" "n = (needs \<or> is_high c \<or> is_low c)"
      using "2.prems"(5) by (auto simp: unit_length Let_def split: if_splits)
    then show ?thesis using "2.prems" False size unpaired_Cons [OF ns] by (intro exI [of _ "[]"]) auto
  qed
next
  case (3 limit count kept needs c d r)
  show ?case
  proof (cases "is_low c \<and> is_high d")
    case True
    then have pair: "scalars (rev r @ [d, c]) = scalars (rev r) @ [pair_point d c]" "length (utf8_char (pair_point d c)) = 4"
      "\<not> splits_pair (rev r) (d # c # kept)" "scalars (d # c # kept) = pair_point d c # scalars kept"
      "well_formed (d # c # kept) = well_formed kept"
      using scalars_append [of "rev r" "[d, c]"] pair_length [of d c] high_not_low [of d]
      by (auto simp: splits_pair_def)
    show ?thesis
    proof (cases "count + 4 > limit")
      case stop: True
      then have "k = kept" "n = needs" using "3.prems"(5) True by auto
      moreover have "scalars (rev (c # d # r) @ kept) = scalars (rev (c # d # r)) @ scalars kept"
        using scalars_append "3.prems"(1) by blast
      ultimately show ?thesis using "3.prems"(2-4) stop pair(1,2) by (intro exI [of _ "rev (c # d # r)"]) simp
    next
      case False
      have "int (nbytes (d # c # kept)) = count + 4" using "3.prems"(2) pair(2,4) by (simp add: utf8_encode_def)
      then show ?thesis using "3.IH"(1) [OF True False] pair(3,5) "3.prems"(4,5) True False by simp
    qed
  next
    case False
    have ns: "\<not> splits_pair [c] kept" "\<not> splits_pair (rev (d # r)) (c # kept)"
      using "3.prems"(1) False by (auto simp: splits_pair_def)
    have size: "nbytes (c # kept) = length (utf8_char (unit_point c)) + nbytes kept"
      using unpaired_Cons(1) [OF ns(1)] by (simp add: utf8_encode_def)
    have last: "last (scalars (rev (c # d # r))) = unit_point c"
      using scalars_append [of "rev (d # r)" "[c]"] False by (auto simp: splits_pair_def)
    show ?thesis
    proof (cases "count + int (length (utf8_char (unit_point c))) > limit")
      case stop: True
      then have "k = kept" "n = needs" using "3.prems"(5) False by (auto simp: unit_length Let_def split: if_splits)
      moreover have "scalars (rev (c # d # r) @ kept) = scalars (rev (c # d # r)) @ scalars kept"
        using scalars_append "3.prems"(1) by blast
      ultimately show ?thesis using "3.prems"(2-4) stop last by (intro exI [of _ "rev (c # d # r)"]) auto
    next
      case more: False
      have "end_loop limit (count + int (length (utf8_char (unit_point c)))) (c # kept)
          (needs \<or> is_high c \<or> is_low c) (d # r) = (k, n)"
        using "3.prems"(5) False more by (auto simp: unit_length Let_def split: if_splits)
      then show ?thesis
        using "3.IH"(2) [OF False refl refl, of] more ns(2) size unpaired_Cons [OF ns(1)] "3.prems"(2,4)
        by (auto simp: unit_length Let_def split: if_splits)
    qed
  qed
qed

lemma replace_loop_eq: "replace_loop s = replace_unpaired s"
proof (induction s rule: replace_loop.induct)
  case (2 c)
  then show ?case using unat_unit [of c] by (auto simp: unit_point_def units_def)
next
  case (3 c d s)
  have "is_high c \<or> is_low c \<Longrightarrow> units (unit_point c) = [0xFFFD]" by (auto simp: unit_point_def units_def)
  then show ?case using 3 units_pair [of c d] units_unit [of c] high_not_low [of c] by auto
qed simp

lemma replace_scalars: "scalars (replace_unpaired s) = scalars s \<and> well_formed (replace_unpaired s)"
proof -
  have "(\<forall>c \<in> set cs. is_scalar c) \<Longrightarrow> scalars (concat (map units cs)) = cs \<and> well_formed (concat (map units cs))" for cs
    by (induction cs) (auto simp: units_scalars)
  then show ?thesis using scalars_scalar by simp
qed

lemma truncate_from_end_spec:
  "\<exists>pre. scalars s = pre @ scalars (truncate_from_end s limit) \<and> well_formed (truncate_from_end s limit) \<and>
    int (nbytes (truncate_from_end s limit)) \<le> max 0 limit \<and>
    (pre = [] \<or> limit < int (nbytes (truncate_from_end s limit) + length (utf8_char (last pre))))"
proof (cases "limit \<le> 0")
  case True
  have "limit < int (length (utf8_char (last (scalars s))))" using True by (simp add: utf8_char_lengths)
  then show ?thesis using True
    by (intro exI [of _ "scalars s"]) (simp add: truncate_from_end_def utf8_encode_def)
next
  case False
  obtain k n where k: "end_loop limit 0 [] False (rev s) = (k, n)" by fastforce
  have "nbytes [] = 0" "\<not> splits_pair (rev (rev s)) []" by (simp_all add: utf8_encode_def splits_pair_def)
  then obtain pre where pre: "s = pre @ k" "scalars s = scalars pre @ scalars k" "int (nbytes k) \<le> limit"
    "n \<longleftrightarrow> \<not> well_formed k" "pre = [] \<or> limit < int (nbytes k + length (utf8_char (last (scalars pre))))"
    using end_loop_spec [of "rev s" "[]" 0 limit False k n] k False by auto
  let ?out = "truncate_from_end s limit"
  have "?out = (if n then replace_unpaired k else k)"
    using False k by (simp add: truncate_from_end_def replace_loop_eq del: replace_unpaired.simps)
  then have out: "scalars ?out = scalars k" "well_formed ?out" using pre(4) replace_scalars [of k] by auto
  then have "nbytes ?out = nbytes k" by (simp add: utf8_encode_def)
  then show ?thesis using pre out False
    by (intro exI [of _ "scalars pre"]) auto
qed

text \<open>
  Cutting a string from its end keeps whole characters: the result is well-formed, its characters
  are the last ones of the string (an unpaired surrogate counts as U+FFFD), they fit the limit in UTF-8,
  and no further character would have fitted.
\<close>

theorem truncate_from_end_chars:
  "\<exists>pre. scalars s = pre @ scalars (truncate_from_end s limit) \<and> well_formed (truncate_from_end s limit) \<and>
    int (length (utf8_encode (truncate_from_end s limit))) \<le> max 0 limit \<and>
    (pre = [] \<or> limit < int (length (utf8_encode (truncate_from_end s limit)) + length (utf8_char (last pre))))"
  by (rule truncate_from_end_spec)

section \<open>Lines\<close>

lemma split_on_nonempty [simp]: "split_on c xs \<noteq> []"
  by (induction xs) (auto split: list.splits)

lemma join_on_Cons: "ls \<noteq> [] \<Longrightarrow> join_on c (l # ls) = l @ c # join_on c ls"
  by (cases ls) auto

lemma join_split: "join_on c (split_on c xs) = xs"
proof (induction xs)
  case (Cons x xs)
  show ?case
  proof (cases "x = c")
    case True
    then show ?thesis using Cons join_on_Cons [of "split_on c xs" c "[]"] by simp
  next
    case False
    obtain l ls where ls: "split_on c xs = l # ls" by (cases "split_on c xs") auto
    then show ?thesis using Cons False by (cases ls) auto
  qed
qed simp

lemma split_on_snoc: "split_on c (xs @ [c]) = split_on c xs @ [[]]"
  by (induction xs) (auto split: list.splits)

text \<open>The content without the newline that ends its last line.\<close>

definition trimmed :: "text16 \<Rightarrow> text16" where
  "trimmed s = (if s \<noteq> [] \<and> last s = newline then butlast s else s)"

lemma split_lines_trimmed: "s \<noteq> [] \<Longrightarrow> split_lines s = split_on newline (trimmed s)"
proof (cases "last s = newline")
  case True
  assume "s \<noteq> []"
  then have "s = butlast s @ [newline]" using True by (metis append_butlast_last_id)
  then show ?thesis using True split_on_snoc [of newline "butlast s"] \<open>s \<noteq> []\<close>
    by (simp add: split_lines_def trimmed_def)
qed (simp add: split_lines_def trimmed_def)

lemma join_split_lines: "join_on newline (split_lines s) = trimmed s"
proof (cases "s = []")
  case True
  then show ?thesis by (simp add: split_lines_def trimmed_def)
next
  case False
  then show ?thesis by (simp add: split_lines_trimmed join_split)
qed

lemma newline_plain: "\<not> is_high newline" "\<not> is_low newline" "length (utf8_char (unit_point newline)) = 1"
  by (simp_all add: newline_def is_high_def is_low_def unit_point_def utf8_char_lengths)

lemma nbytes_newline: "nbytes (l @ newline # t) = nbytes l + 1 + nbytes t"
proof -
  have "\<not> splits_pair l (newline # t)" "\<not> splits_pair [newline] t" using newline_plain by (auto simp: splits_pair_def)
  then show ?thesis using nbytes_append [of l "newline # t"] unpaired_Cons(1) [of newline t] newline_plain(3)
    by (simp add: utf8_encode_def)
qed

text \<open>What the lines cost when the first of them is at position \<open>i\<close> of the output.\<close>

fun cost :: "nat \<Rightarrow> text16 list \<Rightarrow> nat" where
  "cost i [] = 0"
| "cost i (l # ls) = nbytes l + (if i > 0 then 1 else 0) + cost (Suc i) ls"

lemma cost_Suc: "cost (Suc i) ls = length ls + sum_list (map nbytes ls)"
  by (induction ls arbitrary: i) auto

lemma nbytes_join: "nbytes (join_on newline ls) = cost 0 ls"
proof (induction ls)
  case (Cons l ls)
  then show ?case
    by (cases ls) (simp_all add: join_on_Cons nbytes_newline cost_Suc)
qed (simp add: utf8_encode_def)

lemma head_loop_spec:
  assumes "head_loop max_lines max_bytes i count ls = (kept, count', by_limit)" and "count \<le> max_bytes"
  shows "kept = take (length kept) ls \<and> count' = count + int (cost i kept) \<and> count' \<le> max_bytes \<and>
    (kept \<noteq> [] \<longrightarrow> int (i + length kept) \<le> max_lines) \<and>
    (length kept < length ls \<longrightarrow> int (i + length kept) < max_lines \<longrightarrow>
       max_bytes < count + int (cost i (take (Suc (length kept)) ls))) \<and>
    (by_limit = Bytes \<longrightarrow> length kept < length ls \<and> max_bytes < count + int (cost i (take (Suc (length kept)) ls)))"
  using assms
proof (induction max_lines max_bytes i count ls arbitrary: kept count' by_limit rule: head_loop.induct)
  case (2 max_lines max_bytes i count l ls)
  let ?size = "int (utf8_byte_length l) + (if i > 0 then 1 else 0)"
  show ?case
  proof (cases "int i < max_lines \<and> count + ?size \<le> max_bytes")
    case True
    obtain k c b where rec: "head_loop max_lines max_bytes (Suc i) (count + ?size) ls = (k, c, b)"
      by (metis prod_cases3)
    then have r: "kept = l # k" "count' = c" "by_limit = b" using "2.prems"(1) True by (auto simp: Let_def)
    from "2.IH" [OF _ refl _ rec] True show ?thesis using rec
      by (auto simp: r utf8_byte_length_eq)
  next
    case False
    then show ?thesis using "2.prems" by (auto simp: Let_def utf8_byte_length_eq split: if_splits)
  qed
qed simp

lemma truncate_head_spec:
  assumes "truncate_head s lines_opt bytes_opt = Some r" and "truncated r"
  shows "shown r = join_on newline (take (output_lines r) (split_lines s)) \<and> output_bytes r = nbytes (shown r) \<and>
    int (output_lines r) \<le> max 0 (max_lines_used r) \<and> int (output_bytes r) \<le> max 0 (max_bytes_used r) \<and>
    output_lines r \<le> length (split_lines s) \<and>
    (output_lines r < length (split_lines s) \<and> int (output_lines r) < max_lines_used r \<longrightarrow>
      max_bytes_used r < int (nbytes (join_on newline (take (Suc (output_lines r)) (split_lines s)))))"
proof -
  define ml where "ml = (case lines_opt of None \<Rightarrow> default_max_lines | Some n \<Rightarrow> n)"
  define mb where "mb = (case bytes_opt of None \<Rightarrow> default_max_bytes | Some n \<Rightarrow> n)"
  let ?ls = "split_lines s"
  have big: "\<not> (int (length ?ls) \<le> ml \<and> int (utf8_byte_length s) \<le> mb)"
    using assms by (auto simp: truncate_head_def Let_def ml_def [symmetric] mb_def [symmetric] untruncated_def)
  obtain l ls where ls: "?ls = l # ls"
    using assms(1) big by (cases ?ls) (auto simp: truncate_head_def Let_def ml_def [symmetric] mb_def [symmetric])
  show ?thesis
  proof (cases "int (utf8_byte_length l) > mb")
    case True
    then have "r = \<lparr>shown = [], truncated = True, truncated_by = Some Bytes, total_lines = length ?ls,
        total_bytes = utf8_byte_length s, output_lines = 0, output_bytes = 0, last_line_partial = False,
        first_line_exceeds = True, max_lines_used = ml, max_bytes_used = mb\<rparr>"
      using assms(1) big ls by (auto simp: truncate_head_def Let_def ml_def [symmetric] mb_def [symmetric])
    then show ?thesis using True ls by (simp add: utf8_byte_length_eq utf8_encode_def)
  next
    case False
    obtain kept count b where h: "head_loop ml mb 0 0 ?ls = (kept, count, b)" by (metis prod_cases3)
    have r: "shown r = join_on newline kept" "output_lines r = length kept" "max_lines_used r = ml"
      "max_bytes_used r = mb" "output_bytes r = utf8_byte_length (join_on newline kept)"
      using assms(1) big ls False h
      by (auto simp: truncate_head_def Let_def ml_def [symmetric] mb_def [symmetric])
    have "0 \<le> mb" using False by linarith
    note spec = head_loop_spec [OF h this]
    have "length kept \<le> length ?ls" using arg_cong [OF conjunct1 [OF spec], of length] by simp
    then show ?thesis using spec
      by (auto simp: r utf8_byte_length_eq nbytes_join take_all_iff not_less)
  qed
qed

text \<open>
  \<open>truncateHead\<close> shows whole lines from the start: as many as both limits allow and not one fewer,
  with the byte count it reports, which is that of what it shows. Content within both limits is shown
  as it is.
\<close>

theorem truncate_head_lines:
  assumes "truncate_head s lines_opt bytes_opt = Some r"
  shows "if truncated r
    then shown r = join_on newline (take (output_lines r) (split_lines s)) \<and> output_lines r \<le> length (split_lines s) \<and>
      output_bytes r = length (utf8_encode (shown r)) \<and>
      int (output_lines r) \<le> max 0 (max_lines_used r) \<and> int (output_bytes r) \<le> max 0 (max_bytes_used r) \<and>
      (output_lines r < length (split_lines s) \<and> int (output_lines r) < max_lines_used r \<longrightarrow>
        max_bytes_used r < int (length (utf8_encode (join_on newline (take (Suc (output_lines r)) (split_lines s))))))
    else shown r = s \<and> int (length (split_lines s)) \<le> max_lines_used r \<and>
      int (length (utf8_encode s)) \<le> max_bytes_used r"
proof (cases "truncated r")
  case True
  show ?thesis unfolding if_P [OF True] using truncate_head_spec [OF assms True] by blast
next
  case False
  then show ?thesis using assms
    by (auto simp: truncate_head_def Let_def untruncated_def utf8_byte_length_eq split: if_splits list.splits prod.splits)
qed

theorem truncate_head_lines_witness:
  "\<exists>r. truncate_head [0x61, newline, 0x62] (Some 1) None = Some r \<and> truncated r \<and> output_bytes r = length (utf8_encode (shown r))"
proof -
  obtain r where r: "truncate_head [0x61, newline, 0x62] (Some 1) None = Some r" "truncated r"
    by (simp add: truncate_head_def split_lines_def newline_def utf8_byte_length_def default_max_bytes_def Let_def)
  then show ?thesis using truncate_head_lines [OF r(1)] by simp
qed

lemma tail_loop_spec:
  assumes "tail_loop max_lines max_bytes kept count rest = (kept', count', by_limit, partial)"
    and "count = int (cost 0 kept)" and "count \<le> max_bytes" and "int (length kept) \<le> max 0 max_lines"
  shows "(\<not> partial \<longrightarrow> (\<exists>more. kept' = rev more @ kept \<and> more = take (length more) rest \<and> count' = int (cost 0 kept') \<and>
      count' \<le> max_bytes \<and> int (length kept') \<le> max 0 max_lines \<and>
      (length more < length rest \<longrightarrow> int (length kept') < max_lines \<longrightarrow>
        max_bytes < int (cost 0 (rest ! length more # kept'))))) \<and>
    (partial \<longrightarrow> kept = [] \<and> (\<exists>l ls. rest = l # ls \<and> max_bytes < int (nbytes l) \<and>
      kept' = [truncate_from_end l max_bytes] \<and> by_limit = Bytes \<and> 0 < max_lines))"
  using assms
proof (induction max_lines max_bytes kept count rest rule: tail_loop.induct)
  case (1 max_lines max_bytes kept count)
  then show ?case by auto
next
  case (2 max_lines max_bytes kept count l ls)
  let ?size = "int (utf8_byte_length l) + (if kept \<noteq> [] then 1 else 0)"
  have cost: "count + ?size = int (cost 0 (l # kept))"
    using "2.prems"(2) by (cases kept) (simp_all add: utf8_byte_length_eq cost_Suc)
  show ?case
  proof (cases "int (length kept) < max_lines \<and> count + ?size \<le> max_bytes")
    case True
    have rec: "tail_loop max_lines max_bytes (l # kept) (count + ?size) ls = (kept', count', by_limit, partial)"
      using "2.prems"(1) True by (simp add: Let_def)
    have len: "int (length (l # kept)) \<le> max 0 max_lines" using True by simp
    from "2.IH" [OF _ refl _ rec cost _ len] True
    have IH: "(\<not> partial \<longrightarrow> (\<exists>more. kept' = rev more @ (l # kept) \<and> more = take (length more) ls \<and>
        count' = int (cost 0 kept') \<and> count' \<le> max_bytes \<and> int (length kept') \<le> max 0 max_lines \<and>
        (length more < length ls \<longrightarrow> int (length kept') < max_lines \<longrightarrow>
          max_bytes < int (cost 0 (ls ! length more # kept'))))) \<and> \<not> partial"
      by auto
    then obtain more where m: "kept' = rev more @ (l # kept)" "more = take (length more) ls"
        "count' = int (cost 0 kept')" "count' \<le> max_bytes" "int (length kept') \<le> max 0 max_lines"
        "length more < length ls \<longrightarrow> int (length kept') < max_lines \<longrightarrow>
          max_bytes < int (cost 0 (ls ! length more # kept'))" by blast
    have "kept' = rev (l # more) @ kept" "l # more = take (length (l # more)) (l # ls)" using m(1,2) by simp_all
    then show ?thesis using IH m(3-6) by (intro conjI impI exI [of _ "l # more"]) simp_all
  next
    case False
    show ?thesis
    proof (cases "int (length kept) < max_lines")
      case room: True
      then have over: "count + ?size > max_bytes" using False by simp
      show ?thesis
      proof (cases "kept = []")
        case True
        then have "kept' = [truncate_from_end l max_bytes]" "by_limit = Bytes" "partial"
          using "2.prems"(1) room over by (auto simp: Let_def)
        then show ?thesis using True room over "2.prems"(2) by (simp add: utf8_byte_length_eq)
      next
        case kept: False
        then have "kept' = kept" "count' = count" "\<not> partial" using "2.prems"(1) room over by (auto simp: Let_def)
        then show ?thesis using "2.prems"(2-4) over cost by (intro conjI impI exI [of _ "[]"]) auto
      qed
    next
      case full: False
      then have "kept' = kept" "count' = count" "\<not> partial" using "2.prems"(1) by auto
      then show ?thesis using "2.prems"(2-4) full by (intro conjI impI exI [of _ "[]"]) auto
    qed
  qed
qed

text \<open>
  \<open>truncateTail\<close> shows whole lines up to the end, as many as both limits allow, with the byte
  count of what it shows; only if the last line alone exceeds the byte limit does it show a part, which
  is the end of that line at a character boundary. What it shows never exceeds either limit.
\<close>

theorem truncate_tail_lines:
  assumes "truncate_tail s lines_opt bytes_opt = r" and "truncated r" and "0 \<le> max_bytes_used r"
  shows "output_bytes r = length (utf8_encode (shown r)) \<and> int (output_bytes r) \<le> max_bytes_used r \<and>
    int (output_lines r) \<le> max 0 (max_lines_used r) \<and>
    (if last_line_partial r
     then split_lines s \<noteq> [] \<and> max_bytes_used r < int (length (utf8_encode (last (split_lines s)))) \<and>
       shown r = truncate_from_end (last (split_lines s)) (max_bytes_used r)
     else output_lines r \<le> length (split_lines s) \<and>
       shown r = join_on newline (drop (length (split_lines s) - output_lines r) (split_lines s)) \<and>
       (output_lines r < length (split_lines s) \<and> int (output_lines r) < max_lines_used r \<longrightarrow>
         max_bytes_used r < int (length (utf8_encode
           (join_on newline (drop (length (split_lines s) - Suc (output_lines r)) (split_lines s)))))))"
proof -
  define ml where "ml = (case lines_opt of None \<Rightarrow> default_max_lines | Some n \<Rightarrow> n)"
  define mb where "mb = (case bytes_opt of None \<Rightarrow> default_max_bytes | Some n \<Rightarrow> n)"
  let ?ls = "split_lines s"
  have big: "\<not> (int (length ?ls) \<le> ml \<and> int (utf8_byte_length s) \<le> mb)"
    using assms(1,2) by (auto simp: truncate_tail_def Let_def ml_def [symmetric] mb_def [symmetric] untruncated_def)
  obtain kept count b partial where t: "tail_loop ml mb [] 0 (rev ?ls) = (kept, count, b, partial)"
    by (metis prod_cases4)
  have r: "shown r = join_on newline kept" "output_lines r = length kept" "max_lines_used r = ml"
    "max_bytes_used r = mb" "output_bytes r = utf8_byte_length (join_on newline kept)" "last_line_partial r = partial"
    using assms(1) big t by (auto simp: truncate_tail_def Let_def ml_def [symmetric] mb_def [symmetric])
  have "0 \<le> mb" using assms(3) r(4) by simp
  note spec = tail_loop_spec [OF t, simplified, OF this]
  show ?thesis
  proof (cases partial)
    case True
    then obtain l ls where l: "rev ?ls = l # ls" "mb < int (nbytes l)" "kept = [truncate_from_end l mb]" "0 < ml"
      using spec by auto
    then have ne: "?ls \<noteq> []" "last ?ls = l" by auto
    have "int (nbytes (truncate_from_end l mb)) \<le> mb"
      using truncate_from_end_spec [of l mb] \<open>0 \<le> mb\<close> by auto
    then show ?thesis using True l ne by (simp add: r utf8_byte_length_eq)
  next
    case False
    then obtain more where m: "kept = rev more" "more = take (length more) (rev ?ls)" "count = int (cost 0 kept)"
      "count \<le> mb" "int (length kept) \<le> max 0 ml"
      "length more < length ?ls \<longrightarrow> int (length kept) < ml \<longrightarrow> mb < int (cost 0 (rev ?ls ! length more # kept))"
      using spec by auto
    have le: "length more \<le> length ?ls" using arg_cong [OF m(2), of length] by simp
    have kept: "kept = drop (length ?ls - length kept) ?ls"
    proof -
      have "rev more = rev (take (length more) (rev ?ls))" using m(2) by simp
      then show ?thesis using m(1) by (simp add: rev_take)
    qed
    have "mb < int (nbytes (join_on newline (drop (length ?ls - Suc (length kept)) ?ls)))"
      if "length kept < length ?ls" "int (length kept) < ml"
    proof -
      have "rev ?ls ! length more # kept = drop (length ?ls - Suc (length kept)) ?ls"
        using that(1) m(1) kept
        by (simp add: rev_nth) (metis Suc_diff_Suc Cons_nth_drop_Suc diff_Suc_less length_greater_0_conv list.size(3) not_less_zero)
      then show ?thesis using m(1,6) that by (simp add: nbytes_join)
    qed
    then show ?thesis using False m(3-5) kept le m(1)
      by (simp add: r utf8_byte_length_eq nbytes_join)
  qed
qed

theorem truncate_tail_lines_witness:
  "int (output_bytes (truncate_tail [0x61, newline, 0x62] (Some 1) (Some 5))) \<le> 5"
proof -
  let ?r = "truncate_tail [0x61, newline, 0x62] (Some 1) (Some 5)"
  have "truncated ?r" "max_bytes_used ?r = 5"
    by (simp_all add: truncate_tail_def split_lines_def newline_def utf8_byte_length_def untruncated_def Let_def)
  then show ?thesis using truncate_tail_lines [OF refl, of "[0x61, newline, 0x62]" "Some 1" "Some 5"] by simp
qed

text \<open>
  \<open>truncatedBy\<close> names the limit that was hit, but not always: a last newline that does not fit makes
  the content too long by bytes, yet every line fits and \<open>lines\<close> is reported.
\<close>

lemma truncated_by_wrong_limit:
  "truncate_head [0x61, newline] None (Some 1) = Some \<lparr>shown = [0x61], truncated = True, truncated_by = Some Lines,
     total_lines = 1, total_bytes = 2, output_lines = 1, output_bytes = 1, last_line_partial = False,
     first_line_exceeds = False, max_lines_used = 2000, max_bytes_used = 1\<rparr>"
  by (simp add: truncate_head_def split_lines_def newline_def utf8_byte_length_def default_max_lines_def Let_def)

end
