(* ===== verification/RuntimeTypes.thy ===== *)
theory RuntimeTypes
  imports SessionTypes
begin

text \<open>
  The durable data of the agent runtime: lane configuration, operations and the thirteen leaves of the
  operation state (\<open>packages/agent/src/harness/session/types.ts\<close>), and the lane state the runtime keeps
  (\<open>runtime/types.ts\<close>). Settings of a model provider (stream options, handles of deferred responses)
  are JSON values.
\<close>

section \<open>Configuration, intent and result of an operation\<close>

record lane_configuration =
  provider :: string
  model_id :: string
  thinking_level :: string
  active_tools :: "string list"

datatype op_kind = KRun | KCompaction | KNavigation

datatype intent =
    IRun "string list"
  | ICompaction "string option"
  | INavigation "string option" bool "string option" "string option"

fun intent_kind :: "intent \<Rightarrow> op_kind" where
  "intent_kind (IRun _) = KRun"
| "intent_kind (ICompaction _) = KCompaction"
| "intent_kind (INavigation _ _ _ _) = KNavigation"

record operation_meta =
  operation_id :: string
  meta_lane :: string
  source_tip :: "string option"
  started_at :: int
  intent :: intent

datatype control = Running | CancelRequested int

record operation_error =
  error_code :: string
  error_message :: string
  error_details :: "json option"

datatype terminal_status = Completed | Declined | Aborted | Failed

record operation_result =
  res_operation :: string
  res_kind :: op_kind
  res_status :: terminal_status
  res_error :: "operation_error option"
  res_from :: "string option"
  res_tip :: "string option"
  res_started :: int
  res_ended :: int

section \<open>What an operation state carries\<close>

datatype continuation = NeedAssistant bool | MayFinish bool

record checkpoint_data =
  continuation :: continuation
  trigger_entry :: string

datatype inbox_kind = Steer | FollowUp | NextRun | WriteItem

record inbox_item =
  item_entry :: string
  item_kind :: inbox_kind

record retry_policy =
  max_attempts :: nat
  base_delay :: nat
  max_agent_delay :: nat

record generation_context =
  step_id :: string
  gen_trigger :: string
  gen_configuration :: lane_configuration
  gen_stream :: json
  gen_retry :: retry_policy
  overflow_used :: bool

datatype call_status = Planned | EffectPending bool | OutcomeReady bool | CallCompleted bool

record tool_call =
  source_index :: nat
  result_entry :: string
  call_status :: call_status

record tool_batch =
  assistant_entry :: string
  batch_configuration :: lane_configuration
  turn_id :: string
  calls :: "tool_call list"

record summary_context =
  sum_entry :: string
  sum_configuration :: lane_configuration
  sum_stream :: json
  sum_retry :: retry_policy

datatype queue_mode = QAll | QOne

record run_settings =
  compaction_settings :: json
  steering_mode :: queue_mode
  follow_up_mode :: queue_mode
  parallel_tools :: bool

record operation_scope =
  control :: control
  settings :: run_settings
  latest_assistant :: "string option"

record retry_wait =
  next_attempt :: nat
  not_before :: int
  wait_error :: string

datatype result_boundary =
    ResumeCheckpoint checkpoint_data
  | FinishBoundary
  | CommitNavigation string "string option"

datatype compaction_reason = Manual | Threshold | Overflow

record summary_task =
  task_id :: string
  reason :: "compaction_reason option"
  instructions :: "string option"
  boundary :: result_boundary

record deferred_scope =
  def_step :: string
  def_source :: string
  poll :: nat
  def_configuration :: lane_configuration
  def_stream :: json

section \<open>The operation state\<close>

text \<open>
  One constructor per value of \<open>at\<close>. The first argument is the scope every leaf carries; an attempt that
  is running carries its number and the ids its commit will use.
\<close>

datatype operation_state =
    Starting operation_scope
  | Checkpoint operation_scope checkpoint_data
  | AssistantReady operation_scope generation_context nat
  | AssistantEffectPending operation_scope generation_context nat string string nat nat
  | AssistantRetryWait operation_scope generation_context retry_wait
  | Tools operation_scope tool_batch
  | DeferredSuspended operation_scope deferred_scope
  | DeferredEffectPending operation_scope deferred_scope string string
  | SummaryDeciding operation_scope summary_task
  | SummaryReady operation_scope summary_task summary_context nat
  | SummaryEffectPending operation_scope summary_task summary_context nat "(nat \<times> string) option" "string list"
  | SummaryRetryWait operation_scope summary_task summary_context retry_wait
  | NavigationReadyToCommit operation_scope "string option" "string option"

fun operation_scope_of :: "operation_state \<Rightarrow> operation_scope" where
  "operation_scope_of (Starting s) = s"
| "operation_scope_of (Checkpoint s _) = s"
| "operation_scope_of (AssistantReady s _ _) = s"
| "operation_scope_of (AssistantEffectPending s _ _ _ _ _ _) = s"
| "operation_scope_of (AssistantRetryWait s _ _) = s"
| "operation_scope_of (Tools s _) = s"
| "operation_scope_of (DeferredSuspended s _) = s"
| "operation_scope_of (DeferredEffectPending s _ _ _) = s"
| "operation_scope_of (SummaryDeciding s _) = s"
| "operation_scope_of (SummaryReady s _ _ _) = s"
| "operation_scope_of (SummaryEffectPending s _ _ _ _ _) = s"
| "operation_scope_of (SummaryRetryWait s _ _ _) = s"
| "operation_scope_of (NavigationReadyToCommit s _ _) = s"

record operation =
  op_meta :: operation_meta
  op_state :: operation_state

text \<open>The stored lane state, and the state the runtime restores from it.\<close>

record durable_lane_state =
  current_operation :: "string option"
  last_operation :: "string option"
  stored_inbox :: "inbox_item list"

record lane_projection =
  tip :: "string option"
  configuration :: lane_configuration
  inbox :: "inbox_item list"
  last_done :: "string option"
  operation :: "operation option"

datatype pending_entry =
    PendingMessage agent_message
  | PendingCustom string "json option"

end
