(* ===== verification/LaneRestore.thy ===== *)
theory LaneRestore
  imports RuntimeTypes
begin

text \<open>
  Restoring lanes from a session, \<open>packages/agent/src/harness/runtime/restore.ts\<close>. The values a session
  holds at the addresses of branch tips, lane configurations, lane states and operations are given with their
  types, as the typed addresses of \<open>session/values.ts\<close> read them; what \<open>scanValues\<close> returns is listed in
  its order. All reads happen in one mutation, so they see one state.
\<close>

section \<open>Stored values\<close>

record lane_store =
  tips :: "(string, string option) own"
  configs :: "(string, lane_configuration) own"
  lane_states :: "(string, durable_lane_state) own"
  op_metas :: "(string, operation_meta) own"
  op_states :: "(string, operation_state) own"

datatype restore_error =
    MissingTip string
  | MissingConfig string
  | MissingLaneState string
  | MissingMeta string
  | MissingState string
  | WrongOperation string string
  | WrongLane string string
  | IntentMismatch string

section \<open>Intent and state\<close>

fun summary_task_of :: "operation_state \<Rightarrow> summary_task option" where
  "summary_task_of (SummaryDeciding _ t) = Some t"
| "summary_task_of (SummaryReady _ t _ _) = Some t"
| "summary_task_of (SummaryEffectPending _ t _ _ _ _) = Some t"
| "summary_task_of (SummaryRetryWait _ t _ _) = Some t"
| "summary_task_of _ = None"

definition is_summary_state :: "operation_state \<Rightarrow> bool" where
  "is_summary_state st \<longleftrightarrow> summary_task_of st \<noteq> None"

text \<open>A resumed run continues at a checkpoint; a summary that navigates needs the target of the intent.\<close>

fun is_resume :: "result_boundary \<Rightarrow> bool" where
  "is_resume (ResumeCheckpoint _) = True"
| "is_resume _ = False"

fun state_matches_intent :: "intent \<Rightarrow> operation_state \<Rightarrow> bool" where
  "state_matches_intent (ICompaction _) st = (case summary_task_of st of
     None \<Rightarrow> False | Some t \<Rightarrow> boundary t = FinishBoundary)"
| "state_matches_intent (INavigation target summarize label custom) st = (case st of
     NavigationReadyToCommit _ target' label' \<Rightarrow> \<not> summarize \<and> target' = target \<and> label' = label
   | _ \<Rightarrow> summarize \<and> (case summary_task_of st of
       None \<Rightarrow> False
     | Some t \<Rightarrow> (case boundary t of
         CommitNavigation target' label' \<Rightarrow> Some target' = target \<and> label' = label \<and> instructions t = custom
       | _ \<Rightarrow> False)))"
| "state_matches_intent (IRun _) st = (case st of
     NavigationReadyToCommit _ _ _ \<Rightarrow> False
   | _ \<Rightarrow> (case summary_task_of st of None \<Rightarrow> True | Some t \<Rightarrow> is_resume (boundary t)))"

section \<open>Classifying what is stored for a lane\<close>

datatype classified =
    Absent
  | BranchOnly "string option"
  | ConfiguredLane "string option" lane_configuration durable_lane_state

fun classify_lane_storage ::
    "string \<Rightarrow> string option option \<Rightarrow> lane_configuration option \<Rightarrow> durable_lane_state option \<Rightarrow> restore_error + classified" where
  "classify_lane_storage l None None None = Inr Absent"
| "classify_lane_storage l (Some t) None None = Inr (BranchOnly t)"
| "classify_lane_storage l None _ _ = Inl (MissingTip l)"
| "classify_lane_storage l (Some _) None _ = Inl (MissingConfig l)"
| "classify_lane_storage l (Some _) (Some _) None = Inl (MissingLaneState l)"
| "classify_lane_storage l (Some t) (Some c) (Some st) = Inr (ConfiguredLane t c st)"

definition read_lane_storage :: "lane_store \<Rightarrow> string \<Rightarrow> restore_error + classified" where
  "read_lane_storage r l =
     classify_lane_storage l (own_get (tips r) l) (own_get (configs r) l) (own_get (lane_states r) l)"

section \<open>Restoring\<close>

definition restore_operation :: "lane_store \<Rightarrow> string \<Rightarrow> string \<Rightarrow> restore_error + operation" where
  "restore_operation r l i = (case own_get (op_metas r) i of
     None \<Rightarrow> Inl (MissingMeta i)
   | Some m \<Rightarrow> (case own_get (op_states r) i of
       None \<Rightarrow> Inl (MissingState i)
     | Some st \<Rightarrow>
         if operation_id m \<noteq> i then Inl (WrongOperation i (operation_id m))
         else if meta_lane m \<noteq> l then Inl (WrongLane i (meta_lane m))
         else if \<not> state_matches_intent (intent m) st then Inl (IntentMismatch i)
         else Inr \<lparr>op_meta = m, op_state = st\<rparr>))"

definition restore_lane_state ::
    "lane_store \<Rightarrow> string \<Rightarrow> string option \<Rightarrow> lane_configuration \<Rightarrow> durable_lane_state \<Rightarrow> restore_error + lane_projection" where
  "restore_lane_state r l t c st =
    (let result = (\<lambda>oper. \<lparr>tip = t, configuration = c, inbox = stored_inbox st,
         last_done = last_operation st, operation = oper\<rparr>) in
     case current_operation st of
       None \<Rightarrow> Inr (result None)
     | Some i \<Rightarrow> rbind (restore_operation r l i) (\<lambda>oper. Inr (result (Some oper))))"

definition restore_lane :: "lane_store \<Rightarrow> string \<Rightarrow> restore_error + lane_projection" where
  "restore_lane r l = rbind (read_lane_storage r l) (\<lambda>stored. case stored of
     Absent \<Rightarrow> Inl (MissingTip l)
   | BranchOnly _ \<Rightarrow> Inl (MissingConfig l)
   | ConfiguredLane t c st \<Rightarrow> restore_lane_state r l t c st)"

text \<open>
  \<open>new Map(pairs)\<close> keeps the first position and the last value of a key; the keys of the three maps, in
  order and without repetition, are the names.
\<close>

definition lane_names :: "lane_store \<Rightarrow> string list" where
  "lane_names r = rev (remdups (rev (map fst (tips r) @ map fst (configs r) @ map fst (lane_states r))))"

definition restore_step ::
    "lane_store \<Rightarrow> (string, lane_projection) own \<Rightarrow> string \<Rightarrow> restore_error + (string, lane_projection) own" where
  "restore_step r acc l = rbind (read_lane_storage r l) (\<lambda>stored. case stored of
     ConfiguredLane t c st \<Rightarrow> rbind (restore_lane_state r l t c st) (\<lambda>p. Inr (acc @ [(l, p)]))
   | _ \<Rightarrow> Inr acc)"

definition restore_session :: "lane_store \<Rightarrow> restore_error + (string, lane_projection) own" where
  "restore_session r = rfold (restore_step r) [] (lane_names r)"

section \<open>Restoring a session restores its lanes\<close>

lemma lane_names_set: "l \<in> set (lane_names r) \<longleftrightarrow> own_has (tips r) l \<or> own_has (configs r) l \<or> own_has (lane_states r) l"
  by (auto simp: lane_names_def own_has_def)

lemma lane_names_distinct: "distinct (lane_names r)"
  by (simp add: lane_names_def)

lemma unnamed_absent: "l \<notin> set (lane_names r) \<Longrightarrow> read_lane_storage r l = Inr Absent"
proof -
  assume "l \<notin> set (lane_names r)"
  then have "own_get (tips r) l = None" "own_get (configs r) l = None" "own_get (lane_states r) l = None"
    by (simp_all add: lane_names_set own_has_iff_get)
  then show ?thesis by (simp add: read_lane_storage_def)
qed

text \<open>A lane whose stored values are complete, or that is not configured.\<close>

definition lane_intact :: "lane_store \<Rightarrow> string \<Rightarrow> bool" where
  "lane_intact r l \<longleftrightarrow> (case read_lane_storage r l of
     Inr Absent \<Rightarrow> True | Inr (BranchOnly _) \<Rightarrow> True | _ \<Rightarrow> is_ok (restore_lane r l))"

lemma restore_step_cases:
  "restore_step r acc l = (if lane_intact r l
     then (case restore_lane r l of Inr p \<Rightarrow> Inr (acc @ [(l, p)]) | Inl _ \<Rightarrow> Inr acc)
     else map_sum id (\<lambda>_. acc) (restore_lane r l))"
proof (cases "read_lane_storage r l")
  case (Inr c)
  then show ?thesis
  proof (cases c)
    case (ConfiguredLane t cfg st)
    then show ?thesis using Inr
      by (cases "restore_lane_state r l t cfg st") (simp_all add: restore_step_def restore_lane_def lane_intact_def)
  qed (simp_all add: restore_step_def restore_lane_def lane_intact_def)
qed (simp add: restore_step_def restore_lane_def lane_intact_def)

lemma not_intact: "\<not> lane_intact r l \<Longrightarrow> \<exists>e. restore_lane r l = Inl e"
  by (auto simp: lane_intact_def is_ok_def restore_lane_def split: sum.splits classified.splits)

lemma restore_fold:
  assumes "distinct ls" and "\<And>l. l \<in> set ls \<Longrightarrow> \<not> own_has acc l"
  shows "if \<forall>l \<in> set ls. lane_intact r l
    then \<exists>m. rfold (restore_step r) acc ls = Inr m \<and> (\<forall>l. own_get m l = (if l \<in> set ls
      then (case restore_lane r l of Inr p \<Rightarrow> Some p | Inl _ \<Rightarrow> None) else own_get acc l))
    else \<exists>l e. rfold (restore_step r) acc ls = Inl e \<and> restore_lane r l = Inl e"
  using assms
proof (induction ls arbitrary: acc)
  case (Cons l ls)
  show ?case
  proof (cases "lane_intact r l")
    case True
    define acc' where "acc' = (case restore_lane r l of Inr p \<Rightarrow> acc @ [(l, p)] | Inl _ \<Rightarrow> acc)"
    have step: "restore_step r acc l = Inr acc'"
      using True by (simp add: restore_step_cases acc'_def split: sum.split)
    have fresh: "\<not> own_has acc l" using Cons.prems by simp
    have get: "own_get acc' k = (if k = l then (case restore_lane r l of Inr p \<Rightarrow> Some p | Inl _ \<Rightarrow> None) else own_get acc k)" for k
      using fresh by (auto simp: acc'_def own_has_iff_get map_add_def split: sum.split option.split)
    have "\<not> own_has acc' k" if "k \<in> set ls" for k
      using that Cons.prems get [of k] by (auto simp: own_has_iff_get)
    then have IH: "if \<forall>l \<in> set ls. lane_intact r l
      then \<exists>m. rfold (restore_step r) acc' ls = Inr m \<and> (\<forall>l. own_get m l = (if l \<in> set ls
        then (case restore_lane r l of Inr p \<Rightarrow> Some p | Inl _ \<Rightarrow> None) else own_get acc' l))
      else \<exists>l e. rfold (restore_step r) acc' ls = Inl e \<and> restore_lane r l = Inl e"
      using Cons.IH [of acc'] Cons.prems(1) by simp
    have "l \<notin> set ls" using Cons.prems(1) by simp
    then show ?thesis using IH True step get by (auto split: if_splits)
  next
    case False
    then obtain e where "restore_lane r l = Inl e" using not_intact by blast
    then show ?thesis using False by (auto simp: restore_step_cases)
  qed
qed simp

lemma restore_session_cases:
  "case restore_session r of
     Inr m \<Rightarrow> (\<forall>l. lane_intact r l) \<and> (\<forall>l p. own_get m l = Some p \<longleftrightarrow> restore_lane r l = Inr p)
   | Inl e \<Rightarrow> \<exists>l. restore_lane r l = Inl e \<and> \<not> (\<forall>l. lane_intact r l)"
proof (cases "\<forall>l \<in> set (lane_names r). lane_intact r l")
  case True
  then obtain m where m: "restore_session r = Inr m" "\<And>l. own_get m l = (if l \<in> set (lane_names r)
      then (case restore_lane r l of Inr p \<Rightarrow> Some p | Inl _ \<Rightarrow> None) else None)"
    using restore_fold [of "lane_names r" "[]" r] lane_names_distinct by (auto simp: restore_session_def)
  have "own_get m l = Some p \<longleftrightarrow> restore_lane r l = Inr p" for l p
    using m(2) [of l] unnamed_absent [of l r] by (auto simp: restore_lane_def split: sum.splits)
  moreover have "lane_intact r l" for l
    using True unnamed_absent [of l r] by (cases "l \<in> set (lane_names r)") (auto simp: lane_intact_def)
  ultimately show ?thesis using m(1) by auto
next
  case False
  have "\<not> own_has [] l" for l :: string by simp
  then obtain l e where e: "rfold (restore_step r) [] (lane_names r) = Inl e" "restore_lane r l = Inl e"
    using restore_fold [of "lane_names r" "[]" r] lane_names_distinct [of r] False by auto
  then show ?thesis using False unfolding restore_session_def by auto
qed

text \<open>
  Restoring a session restores exactly its configured lanes, each to what restoring it alone gives; it
  fails exactly when the values of some lane or of its operation are incomplete or contradict each other, with
  the error restoring that lane alone gives.
\<close>

theorem restore_session_lanes:
  "case restore_session r of
     Inr m \<Rightarrow> (\<forall>l. lane_intact r l) \<and> (\<forall>l p. own_get m l = Some p \<longleftrightarrow> restore_lane r l = Inr p)
   | Inl e \<Rightarrow> \<exists>l. restore_lane r l = Inl e \<and> \<not> (\<forall>l. lane_intact r l)"
  by (rule restore_session_cases)

end
