(* ===== verification/LaneSnapshot.thy ===== *)
theory LaneSnapshot
  imports RuntimeTypes
begin

text \<open>
  The snapshot of a lane that observers keep up to date from harness events:
  \<open>reduceLaneSnapshot\<close> of \<open>packages/agent/src/harness/runtime/reducer.ts\<close> over the events and snapshots of
  \<open>harness/agent-harness.ts\<close>. A property that may be absent is an option, \<open>delete\<close> sets it to \<open>None\<close>.
\<close>

section \<open>Snapshots and events\<close>

datatype op_status = StRunning | StOpen | StAborting

datatype snapshot_tool =
    ToolRunning (tool_id: string) (tool_name: string) (tool_args: json) "json option"
  | ToolSettled (tool_id: string) (tool_name: string) (tool_args: json) json bool

record retry_info =
  attempt :: nat
  max_attempt :: nat
  next_attempt_at :: int

record operation_snapshot =
  os_id :: string
  os_kind :: op_kind
  os_started :: int
  os_from :: "string option"
  os_status :: op_status
  os_retry :: "retry_info option"
  os_deferred :: "(json \<times> nat) option"
  streaming :: "agent_message option"
  running_tools :: "snapshot_tool list"

datatype queued_item =
    QueuedMessage string inbox_kind agent_message
  | QueuedCustom string string "json option"

record 'n lane_snapshot =
  lane_name :: string
  transcript :: "'n entry list"
  tip_id :: "string option"
  last_result :: "operation_result option"
  snap_config :: lane_configuration
  stats :: "'n session_stats"
  snap_op :: "operation_snapshot option"
  queues :: "queued_item list"
  faulted :: bool

datatype run_status = RunCompleted | RunAborted | RunFailed operation_error

datatype compaction_status = CompCompleted string | CompDeclined | CompAborted | CompFailed operation_error

datatype navigation_status = NavCompleted | NavDeclined | NavAborted | NavFailed operation_error

datatype config_property =
    PModel string string
  | PThinking string
  | PActiveTools "string list"
  | POther string

text \<open>
  The payloads with the fields of \<open>HarnessEventPayload\<close> that hold data of the session; stack traces, stream
  events and previous values, which no consumer of a snapshot reads, are left out.
\<close>

datatype 'n event_payload =
    RunStart string int
  | RunResume string
  | RunSuspend string json nat
  | OperationAbort string "agent_message list" "agent_message list"
  | RunEnd string "string option" "string option" int run_status
  | Fault string string
  | HandlerError string
  | TurnStart string string
  | TurnEnd string string agent_message "agent_message list"
  | RetryScheduled string string nat nat nat int string
  | RetryStart string string nat
  | RetryEnd string string nat bool "string option"
  | MessageStart "string option" agent_message
  | MessageUpdate string agent_message
  | MessageEnd "string option" agent_message "string option"
  | ToolStart string string string string json
  | ToolUpdate string string string string json
  | ToolEnd string string string string json bool bool
  | EntryAdded "'n entry"
  | QueueUpdate "queued_item list"
  | ValueUpdate string
  | ConfigUpdate config_property
  | CompactionStart string compaction_reason int
  | CompactionEnd string compaction_reason int compaction_status
  | NavigationStart string "string option" int
  | NavigationEnd string "string option" "string option" int navigation_status
  | LaneCreated "string option"
  | UsageEvent "'n usage_row" "'n usage"

record 'n harness_event =
  ev_lane :: "string option"
  payload :: "'n event_payload"

section \<open>The reducer\<close>

fun find_tool :: "string \<Rightarrow> snapshot_tool list \<Rightarrow> nat option" where
  "find_tool i [] = None"
| "find_tool i (t # ts) = (if tool_id t = i then Some 0 else map_option Suc (find_tool i ts))"

definition upsert_tool :: "operation_snapshot \<Rightarrow> snapshot_tool \<Rightarrow> operation_snapshot" where
  "upsert_tool oper t = (case find_tool (tool_id t) (running_tools oper) of
     None \<Rightarrow> oper\<lparr>running_tools := running_tools oper @ [t]\<rparr>
   | Some i \<Rightarrow> oper\<lparr>running_tools := (running_tools oper)[i := t]\<rparr>)"

definition matching_operation :: "'n lane_snapshot \<Rightarrow> string \<Rightarrow> operation_snapshot option" where
  "matching_operation s i = (case snap_op s of
     None \<Rightarrow> None | Some oper \<Rightarrow> if os_id oper = i then Some oper else None)"

text \<open>An update of the operation an event names, if it is the current one.\<close>

definition on_operation ::
    "'n lane_snapshot \<Rightarrow> string \<Rightarrow> (operation_snapshot \<Rightarrow> operation_snapshot) \<Rightarrow> 'n lane_snapshot" where
  "on_operation s i f = (case matching_operation s i of
     None \<Rightarrow> s | Some oper \<Rightarrow> s\<lparr>snap_op := Some (f oper)\<rparr>)"

definition opened :: "'n lane_snapshot \<Rightarrow> string \<Rightarrow> op_kind \<Rightarrow> int \<Rightarrow> 'n lane_snapshot" where
  "opened s i kind start = s\<lparr>snap_op := Some \<lparr>os_id = i, os_kind = kind, os_started = start,
     os_from = tip_id s, os_status = StOpen, os_retry = None, os_deferred = None, streaming = None,
     running_tools = []\<rparr>\<rparr>"

definition tool_progress :: "operation_snapshot \<Rightarrow> string \<Rightarrow> json \<Rightarrow> operation_snapshot" where
  "tool_progress oper i r = (case find_tool i (running_tools oper) of
     None \<Rightarrow> oper
   | Some n \<Rightarrow> (case running_tools oper ! n of
       ToolRunning ti nm args _ \<Rightarrow> oper\<lparr>running_tools := (running_tools oper)[n := ToolRunning ti nm args (Some r)]\<rparr>
     | ToolSettled _ _ _ _ _ \<Rightarrow> oper))"

definition tool_settled :: "operation_snapshot \<Rightarrow> string \<Rightarrow> string \<Rightarrow> json \<Rightarrow> bool \<Rightarrow> operation_snapshot" where
  "tool_settled oper i nm r err = (case find_tool i (running_tools oper) of
     None \<Rightarrow> oper
   | Some n \<Rightarrow> oper\<lparr>running_tools :=
       (running_tools oper)[n := ToolSettled i nm (tool_args (running_tools oper ! n)) r err]\<rparr>)"

definition tool_done :: "operation_snapshot \<Rightarrow> string \<Rightarrow> operation_snapshot" where
  "tool_done oper i = (case find_tool i (running_tools oper) of
     None \<Rightarrow> oper
   | Some n \<Rightarrow> oper\<lparr>running_tools := take n (running_tools oper) @ drop (Suc n) (running_tools oper)\<rparr>)"

text \<open>The tool call id of a tool result message, one of its own properties.\<close>

definition tool_call_id :: "agent_message \<Rightarrow> string option" where
  "tool_call_id m = (case content m of
     JObj kvs \<Rightarrow> (case own_get kvs ''toolCallId'' of Some (JStr i) \<Rightarrow> Some i | _ \<Rightarrow> None)
   | _ \<Rightarrow> None)"

definition entry_tool_result :: "'n entry \<Rightarrow> string option" where
  "entry_tool_result e = (case body e of
     Message m _ \<Rightarrow> if role m = ''toolResult'' then tool_call_id m else None
   | _ \<Rightarrow> None)"

definition entry_added :: "'n lane_snapshot \<Rightarrow> 'n entry \<Rightarrow> 'n lane_snapshot" where
  "entry_added s e =
    (let s1 = (case entry_tool_result e of
           None \<Rightarrow> s
         | Some i \<Rightarrow> (case snap_op s of None \<Rightarrow> s | Some oper \<Rightarrow> s\<lparr>snap_op := Some (tool_done oper i)\<rparr>));
         s2 = s1\<lparr>transcript := (if etype e = TCompaction then [e] else transcript s1 @ [e]), tip_id := Some (eid e)\<rparr>
     in if etype e = TMessage
        then s2\<lparr>stats := (stats s2)\<lparr>message_count := message_count (stats s2) + 1\<rparr>\<rparr> else s2)"

fun run_result_status :: "run_status \<Rightarrow> terminal_status \<times> operation_error option" where
  "run_result_status RunCompleted = (Completed, None)"
| "run_result_status RunAborted = (Aborted, None)"
| "run_result_status (RunFailed e) = (Failed, Some e)"

fun compaction_result_status :: "compaction_status \<Rightarrow> terminal_status \<times> operation_error option" where
  "compaction_result_status (CompCompleted _) = (Completed, None)"
| "compaction_result_status CompDeclined = (Declined, None)"
| "compaction_result_status CompAborted = (Aborted, None)"
| "compaction_result_status (CompFailed e) = (Failed, Some e)"

definition run_end :: "'n lane_snapshot \<Rightarrow> string \<Rightarrow> string option \<Rightarrow> string option \<Rightarrow> int \<Rightarrow> run_status \<Rightarrow> 'n lane_snapshot" where
  "run_end s i from new_tip ended st = (case matching_operation s i of
     None \<Rightarrow> s
   | Some oper \<Rightarrow> if os_kind oper \<noteq> KRun then s
       else s\<lparr>last_result := Some \<lparr>res_operation = i, res_kind = KRun, res_status = fst (run_result_status st),
           res_error = snd (run_result_status st), res_from = from, res_tip = new_tip,
           res_started = os_started oper, res_ended = ended\<rparr>, snap_op := None, tip_id := new_tip\<rparr>)"

definition compaction_end :: "'n lane_snapshot \<Rightarrow> string \<Rightarrow> int \<Rightarrow> compaction_status \<Rightarrow> 'n lane_snapshot" where
  "compaction_end s i ended st = (case matching_operation s i of
     None \<Rightarrow> s
   | Some oper \<Rightarrow> if os_kind oper \<noteq> KCompaction then s
       else s\<lparr>last_result := Some \<lparr>res_operation = i, res_kind = KCompaction,
           res_status = fst (compaction_result_status st), res_error = snd (compaction_result_status st),
           res_from = os_from oper, res_tip = tip_id s, res_started = os_started oper, res_ended = ended\<rparr>,
         snap_op := None\<rparr>)"

fun config_update :: "lane_configuration \<Rightarrow> config_property \<Rightarrow> lane_configuration" where
  "config_update c (PModel p m) = c\<lparr>provider := p, model_id := m\<rparr>"
| "config_update c (PThinking t) = c\<lparr>thinking_level := t\<rparr>"
| "config_update c (PActiveTools ts) = c\<lparr>active_tools := ts\<rparr>"
| "config_update c (POther _) = c"

text \<open>The \<open>switch\<close> of \<open>reduceLaneSnapshot\<close>: the new snapshot, and whether a fresh one is asked for.\<close>

fun reduce_payload :: "'n lane_snapshot \<Rightarrow> string option \<Rightarrow> 'n event_payload \<Rightarrow> 'n lane_snapshot \<times> bool" where
  "reduce_payload s l (RunStart i t) = (opened s i KRun t, False)"
| "reduce_payload s l (CompactionStart i _ t) = (if snap_op s \<noteq> None then s else opened s i KCompaction t, False)"
| "reduce_payload s l (NavigationStart i _ t) = (opened s i KNavigation t, False)"
| "reduce_payload s l (OperationAbort i _ _) = (on_operation s i (\<lambda>oper. oper\<lparr>os_status := StAborting\<rparr>), False)"
| "reduce_payload s l (RunResume i) = (on_operation s i (\<lambda>oper. oper\<lparr>os_deferred := None\<rparr>), False)"
| "reduce_payload s l (RunSuspend i h n) =
    (on_operation s i (\<lambda>oper. oper\<lparr>os_deferred := Some (h, n), streaming := None\<rparr>), False)"
| "reduce_payload s l (RetryScheduled i _ a m _ t _) =
    (on_operation s i (\<lambda>oper. oper\<lparr>os_retry := Some \<lparr>attempt = a, max_attempt = m, next_attempt_at = t\<rparr>\<rparr>), False)"
| "reduce_payload s l (RetryStart i _ _) = (on_operation s i (\<lambda>oper. oper\<lparr>os_retry := None\<rparr>), False)"
| "reduce_payload s l (RetryEnd i _ _ _ _) = (on_operation s i (\<lambda>oper. oper\<lparr>os_retry := None\<rparr>), False)"
| "reduce_payload s l (MessageStart r m) = (case r of
     None \<Rightarrow> (s, False)
   | Some i \<Rightarrow> if role m \<noteq> ''assistant'' \<or> stop m \<noteq> Some SPending then (s, False)
       else (on_operation s i (\<lambda>oper. oper\<lparr>streaming := Some m\<rparr>), False))"
| "reduce_payload s l (MessageUpdate i m) = (if role m \<noteq> ''assistant'' then (s, False)
     else (on_operation s i (\<lambda>oper. oper\<lparr>streaming := Some m\<rparr>), False))"
| "reduce_payload s l (MessageEnd r m _) = (case r of
     None \<Rightarrow> (s, False)
   | Some i \<Rightarrow> (on_operation s i (\<lambda>oper. oper\<lparr>streaming := None\<rparr>), False))"
| "reduce_payload s l (ToolStart i _ t nm args) =
    (on_operation s i (\<lambda>oper. upsert_tool oper (ToolRunning t nm args None)), False)"
| "reduce_payload s l (ToolUpdate i _ t _ r) = (on_operation s i (\<lambda>oper. tool_progress oper t r), False)"
| "reduce_payload s l (ToolEnd i _ t nm r err _) = (on_operation s i (\<lambda>oper. tool_settled oper t nm r err), False)"
| "reduce_payload s l (EntryAdded e) = (entry_added s e, False)"
| "reduce_payload s l (QueueUpdate qs) = (s\<lparr>queues := qs\<rparr>, False)"
| "reduce_payload s l (UsageEvent _ t) = (s\<lparr>stats := (stats s)\<lparr>stats_usage := t\<rparr>\<rparr>, False)"
| "reduce_payload s l (ConfigUpdate p) = (if l \<noteq> Some (lane_name s) then (s, False)
     else (s\<lparr>snap_config := config_update (snap_config s) p\<rparr>, False))"
| "reduce_payload s l (RunEnd i from new_tip t st) = (run_end s i from new_tip t st, False)"
| "reduce_payload s l (CompactionEnd i _ t st) = (compaction_end s i t st, False)"
| "reduce_payload s l (NavigationEnd _ _ _ _ _) = (s, True)"
| "reduce_payload s l (Fault _ _) = (s\<lparr>faulted := True\<rparr>, False)"
| "reduce_payload s l (HandlerError _) = (s, False)"
| "reduce_payload s l (TurnStart _ _) = (s, False)"
| "reduce_payload s l (TurnEnd _ _ _ _) = (s, False)"
| "reduce_payload s l (ValueUpdate _) = (s, False)"
| "reduce_payload s l (LaneCreated _) = (s, False)"

fun is_usage :: "'n event_payload \<Rightarrow> bool" where
  "is_usage (UsageEvent _ _) = True"
| "is_usage _ = False"

definition reduce_lane_snapshot :: "'n lane_snapshot \<Rightarrow> 'n harness_event \<Rightarrow> 'n lane_snapshot \<times> bool" where
  "reduce_lane_snapshot s ev =
    (if ev_lane ev \<noteq> None \<and> ev_lane ev \<noteq> Some (lane_name s) \<and> \<not> is_usage (payload ev) then (s, False)
     else reduce_payload s (ev_lane ev) (payload ev))"

text \<open>An observer applies every event until it is told to take a fresh snapshot.\<close>

fun observe :: "'n lane_snapshot \<Rightarrow> 'n harness_event list \<Rightarrow> 'n lane_snapshot \<times> bool" where
  "observe s [] = (s, False)"
| "observe s (ev # evs) = (case reduce_lane_snapshot s ev of
     (s', rebase) \<Rightarrow> if rebase then (s', True) else observe s' evs)"

section \<open>A tool call is shown at most once\<close>

definition tools_ok :: "'n lane_snapshot \<Rightarrow> bool" where
  "tools_ok s \<longleftrightarrow> (case snap_op s of None \<Rightarrow> True | Some oper \<Rightarrow> distinct (map tool_id (running_tools oper)))"

lemma find_tool_Some: "find_tool i ts = Some n \<Longrightarrow> n < length ts \<and> tool_id (ts ! n) = i"
  by (induction ts arbitrary: n) (auto split: if_splits)

lemma find_tool_None: "find_tool i ts = None \<longleftrightarrow> i \<notin> tool_id ` set ts"
  by (induction ts) auto

lemma map_update_same: "n < length xs \<Longrightarrow> f x = f (xs ! n) \<Longrightarrow> map f (xs[n := x]) = map f xs"
  by (metis list_update_id map_update)

lemma upsert_tool_distinct:
  assumes "distinct (map tool_id (running_tools oper))"
  shows "distinct (map tool_id (running_tools (upsert_tool oper t)))"
proof (cases "find_tool (tool_id t) (running_tools oper)")
  case None
  then show ?thesis using assms find_tool_None [of "tool_id t" "running_tools oper"] by (auto simp: upsert_tool_def)
next
  case (Some n)
  then show ?thesis using assms find_tool_Some [OF Some] by (simp add: upsert_tool_def map_update_same)
qed

lemma tool_progress_ids [simp]: "map tool_id (running_tools (tool_progress oper i r)) = map tool_id (running_tools oper)"
proof (cases "find_tool i (running_tools oper)")
  case (Some n)
  then show ?thesis using find_tool_Some [OF Some]
    by (cases "running_tools oper ! n") (simp_all add: tool_progress_def map_update_same)
qed (simp add: tool_progress_def)

lemma tool_settled_ids [simp]:
  "map tool_id (running_tools (tool_settled oper i nm r err)) = map tool_id (running_tools oper)"
  by (auto simp: tool_settled_def map_update_same split: option.split dest: find_tool_Some)

lemma distinct_remove_nth: "distinct xs \<Longrightarrow> distinct (take n xs @ drop (Suc n) xs)"
  using set_take_disj_set_drop_if_distinct [of xs n "Suc n"] by simp

lemma tool_done_ids:
  "\<exists>n. map tool_id (running_tools (tool_done oper i)) = map tool_id (running_tools oper) \<or>
    map tool_id (running_tools (tool_done oper i)) =
      take n (map tool_id (running_tools oper)) @ drop (Suc n) (map tool_id (running_tools oper))"
  by (cases "find_tool i (running_tools oper)") (auto simp: tool_done_def take_map drop_map)

lemma tool_done_distinct:
  "distinct (map tool_id (running_tools oper)) \<Longrightarrow> distinct (map tool_id (running_tools (tool_done oper i)))"
  using tool_done_ids [of oper i] distinct_remove_nth [of "map tool_id (running_tools oper)"] by metis

lemma on_operation_tools:
  "tools_ok s \<Longrightarrow> (\<And>oper. distinct (map tool_id (running_tools oper)) \<Longrightarrow> distinct (map tool_id (running_tools (f oper))))
    \<Longrightarrow> tools_ok (on_operation s i f)"
  by (auto simp: tools_ok_def on_operation_def matching_operation_def split: option.splits)

lemma tools_ok_frame [simp]:
  "tools_ok (s\<lparr>queues := q\<rparr>) = tools_ok s" "tools_ok (s\<lparr>faulted := b\<rparr>) = tools_ok s"
  "tools_ok (s\<lparr>stats := st\<rparr>) = tools_ok s" "tools_ok (s\<lparr>snap_config := c\<rparr>) = tools_ok s"
  by (simp_all add: tools_ok_def)

lemma entry_added_tools: "tools_ok s \<Longrightarrow> tools_ok (entry_added s e)"
  by (auto simp: tools_ok_def entry_added_def Let_def tool_done_distinct split: option.splits)

lemma reduce_payload_tools: "tools_ok s \<Longrightarrow> tools_ok (fst (reduce_payload s l p))"
proof (cases p)
  case (EntryAdded e)
  then show "tools_ok s \<Longrightarrow> ?thesis" by (simp add: entry_added_tools)
next
  case (RunEnd i src new_tip t st)
  then show "tools_ok s \<Longrightarrow> ?thesis" by (auto simp: run_end_def tools_ok_def split: option.splits)
next
  case (CompactionEnd i r t st)
  then show "tools_ok s \<Longrightarrow> ?thesis" by (auto simp: compaction_end_def tools_ok_def split: option.splits)
next
  case (CompactionStart i r t)
  then show "tools_ok s \<Longrightarrow> ?thesis" by (auto simp: opened_def tools_ok_def)
next
  case (RunStart i t)
  then show ?thesis by (simp add: opened_def tools_ok_def)
next
  case (NavigationStart i g t)
  then show ?thesis by (simp add: opened_def tools_ok_def)
qed (auto intro!: on_operation_tools simp: upsert_tool_distinct split: option.split)

lemma reduce_tools: "tools_ok s \<Longrightarrow> tools_ok (fst (reduce_lane_snapshot s ev))"
  by (simp add: reduce_lane_snapshot_def reduce_payload_tools)

text \<open>
  Whatever events arrive, in whatever order, no tool call is shown twice: the tools of the current
  operation keep distinct call ids.
\<close>

theorem tools_shown_once: "tools_ok s \<Longrightarrow> tools_ok (fst (observe s evs))"
proof (induction evs arbitrary: s)
  case (Cons ev evs)
  then show ?case using reduce_tools [OF Cons.prems, of ev] by (auto split: prod.splits)
qed simp

theorem tools_shown_once_witness:
  "\<exists>s :: nat lane_snapshot. snap_op s \<noteq> None \<and> tools_ok (fst (observe s [\<lparr>ev_lane = None, payload = Fault [] []\<rparr>]))"
proof -
  let ?s = "opened \<lparr>lane_name = ''main'', transcript = [], tip_id = None, last_result = None,
    snap_config = \<lparr>provider = [], model_id = [], thinking_level = [], active_tools = []\<rparr>,
    stats = \<lparr>message_count = 0, stats_usage = (empty_usage :: nat usage)\<rparr>, snap_op = None, queues = [],
    faulted = False\<rparr> ''r'' KRun 5"
  have "tools_ok ?s" by (simp add: tools_ok_def opened_def)
  then have "tools_ok (fst (observe ?s [\<lparr>ev_lane = None, payload = Fault [] []\<rparr>]))" by (rule tools_shown_once)
  moreover have "snap_op ?s \<noteq> None" by (simp add: opened_def)
  ultimately show ?thesis by blast
qed

section \<open>Events of other lanes\<close>

definition relevant :: "string \<Rightarrow> 'n harness_event \<Rightarrow> bool" where
  "relevant l ev \<longleftrightarrow> ev_lane ev = None \<or> ev_lane ev = Some l \<or> is_usage (payload ev)"

lemma lane_name_frame [simp]:
  "lane_name (on_operation s i f) = lane_name s" "lane_name (opened s i k t) = lane_name s"
  "lane_name (entry_added s e) = lane_name s" "lane_name (run_end s i src g t st) = lane_name s"
  "lane_name (compaction_end s i t cst) = lane_name s"
  by (auto simp: on_operation_def opened_def entry_added_def run_end_def compaction_end_def Let_def split: option.splits)

lemma reduce_payload_lane [simp]: "lane_name (fst (reduce_payload s l p)) = lane_name s"
  by (cases p) (auto split: option.split)

lemma reduce_lane [simp]: "lane_name (fst (reduce_lane_snapshot s ev)) = lane_name s"
  by (simp add: reduce_lane_snapshot_def)

lemma reduce_irrelevant: "\<not> relevant (lane_name s) ev \<Longrightarrow> reduce_lane_snapshot s ev = (s, False)"
  by (auto simp: relevant_def reduce_lane_snapshot_def)

text \<open>
  A lane's snapshot depends only on the events of its own lane, on those without a lane and on usage:
  however events of other lanes are interleaved with these, the snapshot is the same, and so is the point at
  which a fresh one is asked for.
\<close>

theorem observe_own_events: "observe s evs = observe s (filter (relevant (lane_name s)) evs)"
proof (induction evs arbitrary: s)
  case (Cons ev evs)
  show ?case
  proof (cases "relevant (lane_name s) ev")
    case True
    have "lane_name (fst (reduce_lane_snapshot s ev)) = lane_name s" by simp
    then show ?thesis using True Cons [of "fst (reduce_lane_snapshot s ev)"] by (auto split: prod.split)
  next
    case False
    then show ?thesis using Cons reduce_irrelevant [OF False] by simp
  qed
qed simp

section \<open>The transcript\<close>

fun added_entry :: "'n event_payload \<Rightarrow> 'n entry option" where
  "added_entry (EntryAdded e) = Some e"
| "added_entry _ = None"

definition added_entries :: "string \<Rightarrow> 'n harness_event list \<Rightarrow> 'n entry list" where
  "added_entries l evs = List.map_filter (\<lambda>ev. added_entry (payload ev)) (filter (relevant l) evs)"

text \<open>A transcript followed by entries: a compaction replaces what comes before it.\<close>

definition extend_transcript :: "'n entry list \<Rightarrow> 'n entry list \<Rightarrow> 'n entry list" where
  "extend_transcript t es = (case dropWhile (\<lambda>e. etype e \<noteq> TCompaction) (rev es) of
     [] \<Rightarrow> t @ es
   | c # _ \<Rightarrow> c # rev (takeWhile (\<lambda>e. etype e \<noteq> TCompaction) (rev es)))"

lemma added_entries_simps [simp]:
  "added_entries l [] = []"
  "added_entries l (ev # evs) = (if relevant l ev then (case added_entry (payload ev) of
      None \<Rightarrow> added_entries l evs | Some e \<Rightarrow> e # added_entries l evs) else added_entries l evs)"
  by (auto simp: added_entries_def map_filter_def split: option.split)

lemma extend_transcript_Cons:
  "extend_transcript t (e # es) = extend_transcript (if etype e = TCompaction then [e] else t @ [e]) es"
proof (cases "\<exists>c \<in> set es. etype c = TCompaction")
  case True
  let ?P = "\<lambda>e. etype e \<noteq> TCompaction"
  obtain c where c: "c \<in> set (rev es)" "\<not> ?P c" using True by auto
  obtain d ds where d: "dropWhile ?P (rev es) = d # ds"
    using c by (cases "dropWhile ?P (rev es)") (auto simp: dropWhile_eq_Nil_conv)
  show ?thesis using dropWhile_append1 [of c "rev es" ?P "[e]"] takeWhile_append1 [of c "rev es" ?P "[e]"] c d
    by (simp add: extend_transcript_def)
next
  case False
  then have none: "\<And>x. x \<in> set (rev es) \<Longrightarrow> etype x \<noteq> TCompaction" by auto
  let ?P = "\<lambda>e. etype e \<noteq> TCompaction"
  have d: "dropWhile ?P (rev es) = []" and tk: "takeWhile ?P (rev es) = rev es" using none by auto
  have d2: "dropWhile ?P (rev es @ [e]) = dropWhile ?P [e]" using none by (rule dropWhile_append2)
  have t2: "takeWhile ?P (rev es @ [e]) = rev es @ takeWhile ?P [e]" using none by (rule takeWhile_append2)
  show ?thesis by (simp add: extend_transcript_def d tk d2 t2 del: dropWhile_eq_Nil_conv)
qed

lemma transcript_frame [simp]:
  "transcript (on_operation s i f) = transcript s" "transcript (opened s i k t) = transcript s"
  "transcript (run_end s i src g t st) = transcript s" "transcript (compaction_end s i t cst) = transcript s"
  "stats (on_operation s i f) = stats s" "stats (opened s i k t) = stats s"
  "stats (run_end s i src g t st) = stats s" "stats (compaction_end s i t cst) = stats s"
  by (auto simp: on_operation_def opened_def run_end_def compaction_end_def split: option.splits)

lemma entry_added_transcript:
  "transcript (entry_added s e) = (if etype e = TCompaction then [e] else transcript s @ [e])"
  "message_count (stats (entry_added s e)) = message_count (stats s) + (if etype e = TMessage then 1 else 0)"
  by (auto simp: entry_added_def Let_def split: option.split)

lemma reduce_payload_transcript:
  "transcript (fst (reduce_payload s l p)) = (case added_entry p of
     None \<Rightarrow> transcript s | Some e \<Rightarrow> if etype e = TCompaction then [e] else transcript s @ [e])"
  "message_count (stats (fst (reduce_payload s l p))) = message_count (stats s) + (case added_entry p of
     None \<Rightarrow> 0 | Some e \<Rightarrow> if etype e = TMessage then 1 else 0)"
  by (cases p; auto simp: entry_added_transcript split: option.split)+

text \<open>
  While no fresh snapshot is asked for, the transcript is the one observed first followed by the entries
  added to the lane, from the last compaction among them on, and the message count grows by the messages added.
\<close>

theorem observe_transcript:
  assumes "snd (observe s evs) = False"
  shows "transcript (fst (observe s evs)) = extend_transcript (transcript s) (added_entries (lane_name s) evs) \<and>
    message_count (stats (fst (observe s evs))) = message_count (stats s) +
      length (filter (\<lambda>e. etype e = TMessage) (added_entries (lane_name s) evs))"
using assms
proof (induction evs arbitrary: s)
  case (Cons ev evs)
  obtain s' where s': "reduce_lane_snapshot s ev = (s', False)"
    using Cons.prems by (cases "reduce_lane_snapshot s ev") (auto split: if_splits)
  then have "lane_name s' = lane_name s" using reduce_lane [of s ev] by simp
  then have IH: "transcript (fst (observe s' evs)) = extend_transcript (transcript s') (added_entries (lane_name s) evs) \<and>
      message_count (stats (fst (observe s' evs))) = message_count (stats s') +
        length (filter (\<lambda>e. etype e = TMessage) (added_entries (lane_name s) evs))"
    using Cons.IH [of s'] Cons.prems s' by simp
  show ?case
  proof (cases "relevant (lane_name s) ev")
    case True
    then have "s' = fst (reduce_payload s (ev_lane ev) (payload ev))"
      using s' by (auto simp: reduce_lane_snapshot_def relevant_def split: if_splits)
    then show ?thesis using IH s' True
      by (simp add: reduce_payload_transcript extend_transcript_Cons split: option.split)
  next
    case False
    then show ?thesis using IH s' reduce_irrelevant [OF False] by simp
  qed
qed (simp add: extend_transcript_def)

theorem observe_transcript_witness:
  "\<exists>s :: nat lane_snapshot. transcript (fst (observe s [\<lparr>ev_lane = None, payload = Fault [] []\<rparr>])) = []"
proof -
  let ?s = "\<lparr>lane_name = ''main'', transcript = [], tip_id = None, last_result = None,
    snap_config = \<lparr>provider = [], model_id = [], thinking_level = [], active_tools = []\<rparr>,
    stats = \<lparr>message_count = 0, stats_usage = (empty_usage :: nat usage)\<rparr>, snap_op = None, queues = [],
    faulted = False\<rparr>"
  have "\<not> snd (observe ?s [\<lparr>ev_lane = None, payload = Fault [] []\<rparr>])" by (simp add: reduce_lane_snapshot_def)
  then have "transcript (fst (observe ?s [\<lparr>ev_lane = None, payload = Fault [] []\<rparr>])) = extend_transcript [] []"
    using observe_transcript [of ?s "[\<lparr>ev_lane = None, payload = Fault [] []\<rparr>]"] by simp
  then show ?thesis by (auto simp: extend_transcript_def)
qed

section \<open>The result of a run\<close>

text \<open>The events after which the run that has started is no longer the current operation.\<close>

fun ends_run :: "string \<Rightarrow> 'n event_payload \<Rightarrow> bool" where
  "ends_run i (RunStart _ _) = True"
| "ends_run i (NavigationStart _ _ _) = True"
| "ends_run i (RunEnd j _ _ _ _) = (i = j)"
| "ends_run i _ = False"

definition run_open :: "'n lane_snapshot \<Rightarrow> string \<Rightarrow> int \<Rightarrow> bool" where
  "run_open s i t \<longleftrightarrow> (\<exists>oper. snap_op s = Some oper \<and> os_id oper = i \<and> os_kind oper = KRun \<and> os_started oper = t)"

lemma tool_updates_keep [simp]:
  "os_id (upsert_tool oper snap) = os_id oper" "os_kind (upsert_tool oper snap) = os_kind oper"
  "os_started (upsert_tool oper snap) = os_started oper"
  "os_id (tool_settled oper j nm r err) = os_id oper" "os_kind (tool_settled oper j nm r err) = os_kind oper"
  "os_started (tool_settled oper j nm r err) = os_started oper"
  "os_id (tool_done oper j) = os_id oper" "os_kind (tool_done oper j) = os_kind oper"
  "os_started (tool_done oper j) = os_started oper"
  by (simp_all add: upsert_tool_def tool_settled_def tool_done_def split: option.split)

lemma tool_progress_keeps [simp]:
  "os_id (tool_progress oper j r) = os_id oper" "os_kind (tool_progress oper j r) = os_kind oper"
  "os_started (tool_progress oper j r) = os_started oper"
  by (simp_all add: tool_progress_def split: option.split snapshot_tool.split)

lemma on_operation_run_open:
  assumes "run_open s i t"
    and "\<And>oper. os_id (f oper) = os_id oper \<and> os_kind (f oper) = os_kind oper \<and> os_started (f oper) = os_started oper"
  shows "run_open (on_operation s j f) i t"
  using assms by (auto simp: run_open_def on_operation_def matching_operation_def split: option.split)

lemma run_open_frame [simp]:
  "run_open (s\<lparr>queues := q\<rparr>) i t = run_open s i t" "run_open (s\<lparr>faulted := b\<rparr>) i t = run_open s i t"
  "run_open (s\<lparr>stats := st\<rparr>) i t = run_open s i t" "run_open (s\<lparr>snap_config := c\<rparr>) i t = run_open s i t"
  by (simp_all add: run_open_def)

lemma entry_added_run_open: "run_open s i t \<Longrightarrow> run_open (entry_added s e) i t"
  by (auto simp: run_open_def entry_added_def Let_def split: option.split)

lemma ends_keep_run:
  "run_open s i t \<Longrightarrow> j \<noteq> i \<Longrightarrow> run_open (run_end s j src g u st) i t"
  "run_open s i t \<Longrightarrow> run_open (compaction_end s j u cst) i t"
  by (auto simp: run_open_def run_end_def compaction_end_def matching_operation_def)

lemma reduce_payload_run_open: "run_open s i t \<Longrightarrow> \<not> ends_run i p \<Longrightarrow> run_open (fst (reduce_payload s l p)) i t"
proof (cases p)
  case (CompactionStart j r u)
  then show "run_open s i t \<Longrightarrow> ?thesis" by (simp add: run_open_def) auto
qed (auto intro!: on_operation_run_open simp: entry_added_run_open ends_keep_run split: option.split)

lemma observe_lane [simp]: "lane_name (fst (observe s evs)) = lane_name s"
proof (induction evs arbitrary: s)
  case (Cons ev evs)
  obtain s' b where s': "reduce_lane_snapshot s ev = (s', b)" by (cases "reduce_lane_snapshot s ev")
  then have "lane_name s' = lane_name s" using reduce_lane [of s ev] by simp
  then show ?case using s' Cons.IH [of s'] by simp
qed simp

lemma observe_run_open:
  assumes "run_open s i t" and "\<And>ev. ev \<in> set evs \<Longrightarrow> relevant (lane_name s) ev \<Longrightarrow> \<not> ends_run i (payload ev)"
  shows "run_open (fst (observe s evs)) i t"
  using assms
proof (induction evs arbitrary: s)
  case (Cons ev evs)
  obtain s' b where s': "reduce_lane_snapshot s ev = (s', b)" by (cases "reduce_lane_snapshot s ev")
  have name: "lane_name s' = lane_name s" using reduce_lane [of s ev] s' by simp
  have "run_open s' i t"
  proof (cases "relevant (lane_name s) ev")
    case True
    then have "s' = fst (reduce_payload s (ev_lane ev) (payload ev))"
      using s' by (auto simp: reduce_lane_snapshot_def relevant_def split: if_splits)
    then show ?thesis using Cons.prems True by (simp add: reduce_payload_run_open)
  next
    case False
    then show ?thesis using Cons.prems(1) s' reduce_irrelevant [OF False] by simp
  qed
  then show ?case using Cons.IH [of s'] Cons.prems(2) name s' by auto
qed simp

text \<open>
  The result of a run is recorded with the run's own start: if a run starts and no other run or navigation
  starts before it ends, then whatever else is observed in between, other lanes' runs and compactions within
  the run included, its end records its id, its start, its status and its tips and leaves no operation open.
\<close>

theorem run_result_recorded:
  assumes "ev_lane ev = Some (lane_name s)" and "payload ev = RunStart i t"
    and "\<And>e. e \<in> set evs \<Longrightarrow> relevant (lane_name s) e \<Longrightarrow> \<not> ends_run i (payload e)"
    and "s' = fst (observe s (ev # evs))" and "ev_lane fin = Some (lane_name s)" and "payload fin = RunEnd i src g u st"
  shows "reduce_lane_snapshot s' fin = (s'\<lparr>last_result := Some \<lparr>res_operation = i, res_kind = KRun,
      res_status = fst (run_result_status st), res_error = snd (run_result_status st), res_from = src, res_tip = g,
      res_started = t, res_ended = u\<rparr>, snap_op := None, tip_id := g\<rparr>, False)"
proof -
  let ?s = "opened s i KRun t"
  have red: "reduce_lane_snapshot s ev = (?s, False)" using assms(1,2) by (simp add: reduce_lane_snapshot_def)
  have "run_open ?s i t" by (simp add: run_open_def opened_def)
  then have "run_open s' i t" using observe_run_open [of ?s i t evs] assms(3,4) red by simp
  moreover have "lane_name s' = lane_name s" unfolding assms(4) by (rule observe_lane)
  ultimately show ?thesis using assms(5,6)
    by (auto simp: reduce_lane_snapshot_def run_open_def run_end_def matching_operation_def)
qed

theorem run_result_recorded_witness:
  "\<exists>s :: nat lane_snapshot. last_result (fst (reduce_lane_snapshot s \<lparr>ev_lane = Some ''main'',
     payload = RunEnd ''r'' None (Some ''e'') 9 RunCompleted\<rparr>)) \<noteq> None"
proof -
  let ?s = "\<lparr>lane_name = ''main'', transcript = [], tip_id = None, last_result = None,
    snap_config = \<lparr>provider = [], model_id = [], thinking_level = [], active_tools = []\<rparr>,
    stats = \<lparr>message_count = 0, stats_usage = (empty_usage :: nat usage)\<rparr>, snap_op = None, queues = [],
    faulted = False\<rparr>"
  let ?ev = "\<lparr>ev_lane = Some ''main'', payload = RunStart ''r'' 5\<rparr>"
  let ?evs = "[\<lparr>ev_lane = Some ''main'', payload = CompactionStart ''c'' Threshold 6\<rparr>]"
  let ?fin = "\<lparr>ev_lane = Some ''main'', payload = RunEnd ''r'' None (Some ''e'') 9 RunCompleted\<rparr>"
  have "last_result (fst (reduce_lane_snapshot (fst (observe ?s (?ev # ?evs))) ?fin)) \<noteq> None"
    by (subst run_result_recorded [of ?ev ?s "''r''" 5 ?evs _ ?fin None "Some ''e''" 9 RunCompleted, OF _ _ _ refl])
      simp_all
  then show ?thesis by blast
qed

end
