(* ===== verification/LaneStore.thy ===== *)
theory LaneStore
  imports LaneRestore LaneSnapshot
begin

text \<open>
  The session as the runtime's lane commands see it: the committed entries and the values at the typed
  addresses of \<open>session/values.ts\<close>, the writes of a transaction, and the transcript helpers of
  \<open>runtime/transcript.ts\<close>. A transaction is validated as a whole before it is applied.
\<close>

section \<open>The store\<close>

text \<open>
  Values that belong to an operation and are only created and removed as a whole, at their string keys:
  \<open>pi.op.tool_args\<close>, \<open>pi.op.tool_memo\<close>, \<open>pi.op.preparation\<close>, \<open>pi.pending.tool_output\<close> and the list
  \<open>pi.pending.assistant_frame\<close>, which is kept as an array.
\<close>

datatype owned_space = ToolArgs | ToolMemo | Preparation | ToolOutput | AssistantFrames

record 'n store = lane_store +
  committed :: "'n new_entry list"
  usage_rows :: "'n new_usage list"
  pendings :: "(string, pending_entry) own"
  results :: "(string, operation_result) own"
  labels :: "(string, string) own"
  owned_values :: "(owned_space \<times> string, json) own"

datatype 'n lane_write =
    InsertEntry "'n new_entry"
  | InsertUsage "'n new_usage"
  | SetTip string "string option"
  | SetConfig string lane_configuration
  | SetLaneState string durable_lane_state
  | SetMeta string operation_meta
  | DeleteMeta string
  | SetOpState string operation_state
  | DeleteOpState string
  | SetResult string operation_result
  | SetLabel string string
  | SetPending string pending_entry
  | DeletePending string
  | SetOwned owned_space string json
  | DeleteOwned owned_space string
  | AppendOwned owned_space string json

abbreviation put :: "'k \<Rightarrow> 'v \<Rightarrow> ('k, 'v) own \<Rightarrow> ('k, 'v) own" where
  "put \<equiv> own_set (\<lambda>_. None)"

definition list_value :: "json option \<Rightarrow> json list" where
  "list_value v = (case v of Some (JArr xs) \<Rightarrow> xs | _ \<Rightarrow> [])"

fun apply_value :: "'n lane_write \<Rightarrow> 'n store \<Rightarrow> 'n store" where
  "apply_value (InsertEntry e) s = s\<lparr>committed := committed s @ [e]\<rparr>"
| "apply_value (InsertUsage u) s = s\<lparr>usage_rows := usage_rows s @ [u]\<rparr>"
| "apply_value (SetTip l t) s = s\<lparr>tips := put l t (tips s)\<rparr>"
| "apply_value (SetConfig l c) s = s\<lparr>configs := put l c (configs s)\<rparr>"
| "apply_value (SetLaneState l st) s = s\<lparr>lane_states := put l st (lane_states s)\<rparr>"
| "apply_value (SetMeta i m) s = s\<lparr>op_metas := put i m (op_metas s)\<rparr>"
| "apply_value (DeleteMeta i) s = s\<lparr>op_metas := own_del i (op_metas s)\<rparr>"
| "apply_value (SetOpState i st) s = s\<lparr>op_states := put i st (op_states s)\<rparr>"
| "apply_value (DeleteOpState i) s = s\<lparr>op_states := own_del i (op_states s)\<rparr>"
| "apply_value (SetResult i r) s = s\<lparr>results := put i r (results s)\<rparr>"
| "apply_value (SetLabel i t) s = s\<lparr>labels := put i t (labels s)\<rparr>"
| "apply_value (SetPending i p) s = s\<lparr>pendings := put i p (pendings s)\<rparr>"
| "apply_value (DeletePending i) s = s\<lparr>pendings := own_del i (pendings s)\<rparr>"
| "apply_value (SetOwned sp k v) s = s\<lparr>owned_values := put (sp, k) v (owned_values s)\<rparr>"
| "apply_value (DeleteOwned sp k) s = s\<lparr>owned_values := own_del (sp, k) (owned_values s)\<rparr>"
| "apply_value (AppendOwned sp k v) s =
    s\<lparr>owned_values := put (sp, k) (JArr (list_value (own_get (owned_values s) (sp, k)) @ [v])) (owned_values s)\<rparr>"

datatype lane_fault =
    PendingAssistant
  | DuplicateEntry string
  | UnknownParent string
  | RestoreFault restore_error
  | MissingPayload string
  | NotMessage string
  | PendingPayload string
  | Invariant string

definition pending_assistant :: "agent_message \<Rightarrow> bool" where
  "pending_assistant m \<longleftrightarrow> role m = ''assistant'' \<and> stop m = Some SPending"

fun check_write :: "'n lane_write \<Rightarrow> 'n store \<Rightarrow> lane_fault + 'n store" where
  "check_write (InsertEntry e) s =
    (if (case body e of Message m _ \<Rightarrow> pending_assistant m | _ \<Rightarrow> False) then Inl PendingAssistant
     else if eid e \<in> eid ` set (committed s) \<or> eid e \<in> uid ` set (usage_rows s) then Inl (DuplicateEntry (eid e))
     else (case parent_id e of
         None \<Rightarrow> Inr (apply_value (InsertEntry e) s)
       | Some p \<Rightarrow> if p \<in> eid ` set (committed s) then Inr (apply_value (InsertEntry e) s) else Inl (UnknownParent p)))"
| "check_write (InsertUsage u) s =
    (if uid u \<in> eid ` set (committed s) \<or> uid u \<in> uid ` set (usage_rows s) then Inl (DuplicateEntry (uid u))
     else Inr (apply_value (InsertUsage u) s))"
| "check_write w s = Inr (apply_value w s)"

text \<open>A transaction: \<open>Inl\<close> means that nothing of it was applied.\<close>

definition commit_store :: "'n store \<Rightarrow> 'n lane_write list \<Rightarrow> lane_fault + 'n store" where
  "commit_store s ws = rfold (\<lambda>s w. check_write w s) s ws"

section \<open>Entries along a branch\<close>

text \<open>
  The path from an entry to the root, newest first. A committed entry's parent was committed before it, so
  one pass from the newest entry on finds them all.
\<close>

fun path_newest :: "'n new_entry list \<Rightarrow> string option \<Rightarrow> 'n new_entry list" where
  "path_newest [] t = []"
| "path_newest (e # es) t = (if Some (eid e) = t then e # path_newest es (parent_id e) else path_newest es t)"

fun until_compaction :: "'n new_entry list \<Rightarrow> 'n new_entry list" where
  "until_compaction [] = []"
| "until_compaction (e # es) = (if etype e = TCompaction then [e] else e # until_compaction es)"

text \<open>\<open>scanBranch({ start, stopAtType: "compaction", order: "newestFirst" })\<close>, oldest first.\<close>

definition bounded_path :: "'n store \<Rightarrow> string option \<Rightarrow> 'n new_entry list" where
  "bounded_path s t = rev (until_compaction (path_newest (rev (committed s)) t))"

section \<open>Transcript helpers\<close>

text \<open>\<open>chainEntries\<close>: each entry becomes the child of the one before it.\<close>

fun chain_entries :: "string option \<Rightarrow> 'n new_entry list \<Rightarrow> 'n new_entry list" where
  "chain_entries p [] = []"
| "chain_entries p (e # es) = e\<lparr>parent_id := p\<rparr> # chain_entries (Some (eid e)) es"

definition pending_entry_write :: "string \<Rightarrow> pending_entry \<Rightarrow> 'n new_entry" where
  "pending_entry_write i p = (case p of
     PendingMessage m \<Rightarrow> \<lparr>eid = i, parent_id = None, custom_type = None, body = Message m False\<rparr>
   | PendingCustom t v \<Rightarrow> \<lparr>eid = i, parent_id = None, custom_type = Some t, body = Custom v\<rparr>)"

definition lane_event :: "string \<Rightarrow> 'n event_payload \<Rightarrow> 'n harness_event" where
  "lane_event l p = \<lparr>ev_lane = Some l, payload = p\<rparr>"

definition entry_lifecycle_events :: "'n entry \<Rightarrow> string \<Rightarrow> string option \<Rightarrow> 'n harness_event list" where
  "entry_lifecycle_events e l run = (case body e of
     Message m _ \<Rightarrow> [lane_event l (MessageStart run m), lane_event l (MessageEnd run m (Some (eid e))),
       lane_event l (EntryAdded e)]
   | _ \<Rightarrow> [lane_event l (EntryAdded e)])"

record 'n commit_info =
  info_seqs :: "int list"
  info_timestamp :: int
  info_usage :: "'n usage"

definition committed_entry_events ::
    "'n new_entry list \<Rightarrow> 'n commit_info \<Rightarrow> string \<Rightarrow> string option \<Rightarrow> nat \<Rightarrow> 'n harness_event list" where
  "committed_entry_events es c l run first =
     concat (map (\<lambda>(i, e). entry_lifecycle_events (materialize e (info_seqs c ! (first + i)) (info_timestamp c)) l run)
       (enumerate 0 es))"

definition queued_of :: "inbox_item \<Rightarrow> pending_entry option \<Rightarrow> lane_fault + queued_item" where
  "queued_of item stored = (case stored of
     None \<Rightarrow> Inl (MissingPayload (item_entry item))
   | Some (PendingMessage m) \<Rightarrow> Inr (QueuedMessage (item_entry item) (item_kind item) m)
   | Some (PendingCustom t v) \<Rightarrow> if item_kind item \<noteq> WriteItem then Inl (NotMessage (item_entry item))
       else Inr (QueuedCustom (item_entry item) t v))"

definition read_lane_queues :: "'n store \<Rightarrow> inbox_item list \<Rightarrow> lane_fault + queued_item list" where
  "read_lane_queues s items = rmap (\<lambda>item. queued_of item (own_get (pendings s) (item_entry item))) items"

end
