(* ===== verification/LaneCommand.thy ===== *)
theory LaneCommand
  imports LaneStore
begin

text \<open>
  Lanes of a harness, \<open>packages/agent/src/harness/runtime/lane.ts\<close> and the lane part of \<open>harness.ts\<close>. A
  command runs on the session's mutation line, so commands are steps: a planner looks at the lane's state and
  the store and decides on one transaction, a result without one, or an error; a planner that throws, or a
  transaction that is refused, faults the harness. Ids and the clock are arguments. The harness's
  configuration is a record; the texts of skills and prompt templates and the preparation of a compaction are
  functions of it.
\<close>

section \<open>Configuration\<close>

record 'n runtime_config =
  cfg_compaction :: json
  cfg_steering :: queue_mode
  cfg_follow_up :: queue_mode
  cfg_parallel :: bool
  cfg_stream :: json
  retry_enabled :: bool
  retry_max :: nat
  retry_base :: nat
  retry_max_delay :: "nat option"
  cfg_projects :: "string \<Rightarrow> bool"
  skill_text :: "string \<Rightarrow> string option \<Rightarrow> string option"
  template_text :: "string \<Rightarrow> string list option \<Rightarrow> string option"
  prepare_compaction :: "'n new_entry list \<Rightarrow> json \<Rightarrow> string + json option"
  prepare_branch :: "'n new_entry list \<Rightarrow> json"
  cfg_number :: "rat \<Rightarrow> 'n"
  cfg_model :: "string \<Rightarrow> string \<Rightarrow> (nat \<times> nat) option"
  cfg_tool :: "string \<Rightarrow> bool"
  overflow_text :: "string \<Rightarrow> bool"
  non_overflow_text :: "string \<Rightarrow> bool"
  limit_text :: "string \<Rightarrow> bool"
  retryable_text :: "string \<Rightarrow> bool"
  reduce_frames :: "json list \<Rightarrow> agent_message option"

definition captured_settings :: "'n runtime_config \<Rightarrow> run_settings" where
  "captured_settings c = \<lparr>compaction_settings = cfg_compaction c, steering_mode = cfg_steering c,
     follow_up_mode = cfg_follow_up c, parallel_tools = cfg_parallel c\<rparr>"

section \<open>Commands\<close>

datatype lane_error =
    LaneBusy string op_kind
  | InvalidMessage string
  | InvalidNavigation string
  | UnknownTarget string
  | UnknownSkill string
  | UnknownTemplate string
  | NothingToCompact
  | NothingToResume
  | NoActiveOperation
  | OperationMismatch string "string option" "string option"

datatype ('n, 'r) decision =
    Commit "'n lane_write list" lane_projection 'r "'n commit_info \<Rightarrow> 'n harness_event list"
  | Return 'r
  | Reject string

type_synonym ('n, 'r) planner = "lane_projection \<Rightarrow> 'n store \<Rightarrow> lane_fault + ('n, 'r) decision"

datatype closing = ClosedByHost | ClosedByFault lane_fault

record 'n harness =
  hstore :: "'n store"
  hseq :: int
  hlanes :: "(string, lane_projection) own"
  hclosed :: "closing option"
  idle_owners :: "string list"
  emitted :: "'n harness_event list"

datatype 'r outcome = Returned 'r | Rejected string | Refused closing | IdleBlocked

text \<open>\<open>fault\<close>: the first fault closes every lane and is announced once.\<close>

definition fault :: "lane_fault \<Rightarrow> 'n harness \<Rightarrow> 'n harness" where
  "fault f h = (case hclosed h of
     Some _ \<Rightarrow> h
   | None \<Rightarrow> h\<lparr>hclosed := Some (ClosedByFault f),
       emitted := emitted h @ [\<lparr>ev_lane = None, payload = Fault ''harness_fault'' []\<rparr>]\<rparr>)"

definition close :: "'n harness \<Rightarrow> 'n harness" where
  "close h = (case hclosed h of Some _ \<Rightarrow> h | None \<Rightarrow> h\<lparr>hclosed := Some ClosedByHost\<rparr>)"

definition usage_totals :: "'n::{zero,plus} store \<Rightarrow> 'n usage" where
  "usage_totals s = foldl add_usage empty_usage (map row_usage (usage_rows s))"

definition commit_info_of :: "'n::{zero,plus} store \<Rightarrow> int \<Rightarrow> int \<Rightarrow> nat \<Rightarrow> 'n commit_info" where
  "commit_info_of s first now n = \<lparr>info_seqs = map (\<lambda>i. first + int i) [0..<n], info_timestamp = now,
     info_usage = usage_totals s\<rparr>"

definition run_command ::
    "string \<Rightarrow> ('n::{zero,plus}, 'r) planner \<Rightarrow> int \<Rightarrow> 'n harness \<Rightarrow> 'n harness \<times> 'r outcome" where
  "run_command l plan now h = (case hclosed h of
     Some c \<Rightarrow> (h, Refused c)
   | None \<Rightarrow> if l \<in> set (idle_owners h) then (h, IdleBlocked)
     else (case own_get (hlanes h) l of
       None \<Rightarrow> (h, Rejected ''no such lane'')
     | Some p \<Rightarrow> (case plan p (hstore h) of
         Inl f \<Rightarrow> (fault f h, Refused (ClosedByFault f))
       | Inr (Return r) \<Rightarrow> (h, Returned r)
       | Inr (Reject e) \<Rightarrow> (h, Rejected e)
       | Inr (Commit ws next r evs) \<Rightarrow> (case commit_store (hstore h) ws of
           Inl f \<Rightarrow> (fault f h, Refused (ClosedByFault f))
         | Inr s' \<Rightarrow>
             (h\<lparr>hstore := s', hseq := hseq h + int (length ws), hlanes := put l next (hlanes h),
                emitted := emitted h @ evs (commit_info_of s' (hseq h + 1) now (length ws))\<rparr>,
              Returned r)))))"

section \<open>Commands on the current operation\<close>

record lane_patch =
  patch_tip :: "string option option"
  patch_config :: "lane_configuration option"
  patch_inbox :: "inbox_item list option"

definition no_patch :: lane_patch where
  "no_patch = \<lparr>patch_tip = None, patch_config = None, patch_inbox = None\<rparr>"

definition patched :: "lane_projection \<Rightarrow> lane_patch \<Rightarrow> lane_projection" where
  "patched p q = p\<lparr>tip := (case patch_tip q of None \<Rightarrow> tip p | Some t \<Rightarrow> t),
     configuration := (case patch_config q of None \<Rightarrow> configuration p | Some c \<Rightarrow> c),
     inbox := (case patch_inbox q of None \<Rightarrow> inbox p | Some i \<Rightarrow> i)\<rparr>"

datatype ('n, 'r) op_decision =
    OpCommit "'n lane_write list" operation_state lane_patch 'r "'n commit_info \<Rightarrow> 'n harness_event list"
  | OpFinish "'n lane_write list" operation_result lane_patch 'r "'n commit_info \<Rightarrow> 'n harness_event list"
  | OpReturn 'r

type_synonym ('n, 'r) op_planner =
  "lane_projection \<Rightarrow> operation_state \<Rightarrow> operation_meta \<Rightarrow> 'n store \<Rightarrow> lane_fault + ('n, 'r) op_decision"

definition durable_lane_state :: "string option \<Rightarrow> inbox_item list \<Rightarrow> string option \<Rightarrow> durable_lane_state" where
  "durable_lane_state cur items done = \<lparr>current_operation = cur, last_operation = done, stored_inbox = items\<rparr>"

text \<open>The planner \<open>settleOperation\<close> passes to \<open>command\<close>.\<close>

definition settle_operation :: "string \<Rightarrow> ('n, 'r) op_planner \<Rightarrow> ('n, 'r) planner" where
  "settle_operation l plan p s = (case operation p of
     None \<Rightarrow> Inl (Invariant ''no operation'')
   | Some oper \<Rightarrow> rbind (plan p (op_state oper) (op_meta oper) s) (\<lambda>d.
       let i = operation_id (op_meta oper) in
       case d of
         OpReturn r \<Rightarrow> Inr (Return r)
       | OpCommit ws st q r evs \<Rightarrow>
           Inr (Commit
             (ws @ SetOpState i st # (case patch_inbox q of None \<Rightarrow> []
                | Some items \<Rightarrow> [SetLaneState l (durable_lane_state (Some i) items (last_done p))]))
             ((patched p q)\<lparr>operation := Some \<lparr>op_meta = op_meta oper, op_state = st\<rparr>\<rparr>) r evs)
       | OpFinish ws rec q r evs \<Rightarrow>
           (let items = (case patch_inbox q of None \<Rightarrow> inbox p | Some items \<Rightarrow> items) in
            Inr (Commit
              (ws @ [SetResult i rec, SetLaneState l (durable_lane_state None items (Some i))])
              ((patched p q)\<lparr>inbox := items, last_done := Some i, operation := None\<rparr>) r evs))))"

datatype 'r continued = CancelRequest | Continued 'r

definition map_op_decision :: "('r \<Rightarrow> 'q) \<Rightarrow> ('n, 'r) op_decision \<Rightarrow> ('n, 'q) op_decision" where
  "map_op_decision f d = (case d of
     OpCommit ws st q r evs \<Rightarrow> OpCommit ws st q (f r) evs
   | OpFinish ws rec q r evs \<Rightarrow> OpFinish ws rec q (f r) evs
   | OpReturn r \<Rightarrow> OpReturn (f r))"

definition continue_plan :: "('n, 'r) op_planner \<Rightarrow> ('n, 'r continued) op_planner" where
  "continue_plan plan p st meta s = (case control (operation_scope_of st) of
     CancelRequested _ \<Rightarrow> Inr (OpReturn CancelRequest)
   | Running \<Rightarrow> rbind (plan p st meta s) (\<lambda>d. Inr (map_op_decision Continued d)))"

definition continue_operation :: "string \<Rightarrow> ('n, 'r) op_planner \<Rightarrow> ('n, 'r continued) planner" where
  "continue_operation l plan = settle_operation l (continue_plan plan)"

section \<open>Accepting a run\<close>

definition text_block :: "string \<Rightarrow> json" where
  "text_block t = JObj [(''type'', JStr ''text''), (''text'', JStr t)]"

definition user_message :: "json list \<Rightarrow> int \<Rightarrow> agent_message" where
  "user_message blocks at_time = \<lparr>role = ''user'', stop = None,
     content = JObj [(''content'', JArr blocks), (''timestamp'', JNum (of_int at_time))]\<rparr>"

datatype run_request =
    PromptText string "json list"
  | PromptMessages "agent_message list"
  | SkillRequest string "string option"
  | TemplateRequest string "string list option"

fun request_messages :: "'n runtime_config \<Rightarrow> int \<Rightarrow> run_request \<Rightarrow> lane_error + agent_message list" where
  "request_messages c at_time (PromptText t images) =
    Inr (if t = [] \<and> images = [] then []
      else [user_message ((if t = [] then [] else [text_block t]) @ images) at_time])"
| "request_messages c at_time (PromptMessages ms) = Inr ms"
| "request_messages c at_time (SkillRequest n extra) = (case skill_text c n extra of
     None \<Rightarrow> Inl (UnknownSkill n)
   | Some t \<Rightarrow> Inr [user_message [text_block t] at_time])"
| "request_messages c at_time (TemplateRequest n args) = (case template_text c n args of
     None \<Rightarrow> Inl (UnknownTemplate n)
   | Some t \<Rightarrow> Inr (if t = [] then [] else [user_message [text_block t] at_time]))"

fun select_accepted :: "queue_mode \<Rightarrow> queue_mode \<Rightarrow> bool \<Rightarrow> bool \<Rightarrow> inbox_item list \<Rightarrow> inbox_item list \<times> inbox_item list" where
  "select_accepted sm fm st ft [] = ([], [])"
| "select_accepted sm fm st ft (x # xs) =
    (let ok = (item_kind x = WriteItem \<or> item_kind x = NextRun \<or>
           (item_kind x = Steer \<and> (sm = QAll \<or> \<not> st)) \<or> (item_kind x = FollowUp \<and> (fm = QAll \<or> \<not> ft)))
     in if ok then (case select_accepted sm fm (st \<or> item_kind x = Steer) (ft \<or> item_kind x = FollowUp) xs of
            (sel, rem) \<Rightarrow> (x # sel, rem))
        else (case select_accepted sm fm st ft xs of (sel, rem) \<Rightarrow> (sel, x # rem)))"

definition captured_pending :: "'n store \<Rightarrow> inbox_item \<Rightarrow> lane_fault + pending_entry" where
  "captured_pending s item = (case own_get (pendings s) (item_entry item) of
     None \<Rightarrow> Inl (MissingPayload (item_entry item))
   | Some (PendingCustom t v) \<Rightarrow> if item_kind item \<noteq> WriteItem then Inl (NotMessage (item_entry item))
       else Inr (PendingCustom t v)
   | Some (PendingMessage m) \<Rightarrow> if pending_assistant m then Inl (PendingPayload (item_entry item))
       else Inr (PendingMessage m))"

definition message_entry :: "string \<Rightarrow> agent_message \<Rightarrow> 'n new_entry" where
  "message_entry i m = \<lparr>eid = i, parent_id = None, custom_type = None, body = Message m False\<rparr>"

record admission =
  adm_operation :: string
  adm_kind :: op_kind
  adm_started :: int

definition lane_busy :: "operation \<Rightarrow> lane_error" where
  "lane_busy oper = LaneBusy (operation_id (op_meta oper)) (intent_kind (intent (op_meta oper)))"

definition running_scope :: "run_settings \<Rightarrow> operation_scope" where
  "running_scope st = \<lparr>control = Running, settings = st, latest_assistant = None\<rparr>"

definition plan_accept_run ::
    "'n runtime_config \<Rightarrow> string \<Rightarrow> string \<Rightarrow> int \<Rightarrow> (string \<times> agent_message) list \<Rightarrow> ('n, lane_error + admission) planner" where
  "plan_accept_run c l oid start prompt p s = (case operation p of
     Some oper \<Rightarrow> Inr (Return (Inl (lane_busy oper)))
   | None \<Rightarrow> (case select_accepted (cfg_steering c) (cfg_follow_up c) False False (inbox p) of (sel, rem) \<Rightarrow>
       rbind (rmap (captured_pending s) sel) (\<lambda>captured.
       if prompt = [] \<and> \<not> (\<exists>x \<in> set sel. item_kind x \<noteq> WriteItem)
       then Inr (Return (Inl (InvalidMessage ''empty'')))
       else
         (let new = chain_entries (tip p)
                (map (\<lambda>(x, v). pending_entry_write (item_entry x) v) (zip sel captured) @
                 map (\<lambda>(i, m). message_entry i m) prompt);
              top = eid (last new);
              meta = \<lparr>operation_id = oid, meta_lane = l, source_tip = tip p, started_at = start,
                intent = IRun (map fst prompt)\<rparr>;
              st = Starting (running_scope (captured_settings c)) in
          rbind (read_lane_queues s rem) (\<lambda>qs.
          Inr (Commit
            (map InsertEntry new @ map (\<lambda>x. DeletePending (item_entry x)) sel @
             [SetTip l (Some top), SetMeta oid meta, SetOpState oid st,
              SetLaneState l (durable_lane_state (Some oid) rem (last_done p))])
            (p\<lparr>tip := Some top, inbox := rem, operation := Some \<lparr>op_meta = meta, op_state = st\<rparr>\<rparr>)
            (Inr \<lparr>adm_operation = oid, adm_kind = KRun, adm_started = start\<rparr>)
            (\<lambda>info. lane_event l (RunStart oid start) # committed_entry_events new info l (Some oid) 0 @
               (if sel = [] then [] else [lane_event l (QueueUpdate qs)]))))))))"

definition accept_run ::
    "'n::{zero,plus} runtime_config \<Rightarrow> string \<Rightarrow> string \<Rightarrow> (nat \<Rightarrow> string) \<Rightarrow> run_request \<Rightarrow> int \<Rightarrow> 'n harness \<Rightarrow>
      'n harness \<times> (lane_error + admission) outcome" where
  "accept_run c l oid ids req now h = (case hclosed h of
     Some r \<Rightarrow> (h, Refused r)
   | None \<Rightarrow> (case request_messages c now req of
       Inl e \<Rightarrow> (h, Returned (Inl e))
     | Inr ms \<Rightarrow> if \<exists>m \<in> set ms. pending_assistant m then (h, Returned (Inl (InvalidMessage ''pending_assistant'')))
         else run_command l (plan_accept_run c l oid now (map (\<lambda>(i, m). (ids i, m)) (enumerate 0 ms))) now h))"

section \<open>Accepting a compaction or a navigation\<close>

definition accept_started ::
    "string \<Rightarrow> operation_meta \<Rightarrow> operation_state \<Rightarrow> 'n lane_write list \<Rightarrow> 'n event_payload \<Rightarrow> lane_projection \<Rightarrow>
      ('n, lane_error + admission) decision" where
  "accept_started l meta st ws ev p = Commit
     (ws @ [SetMeta (operation_id meta) meta, SetOpState (operation_id meta) st,
       SetLaneState l (durable_lane_state (Some (operation_id meta)) (inbox p) (last_done p))])
     (p\<lparr>operation := Some \<lparr>op_meta = meta, op_state = st\<rparr>\<rparr>)
     (Inr \<lparr>adm_operation = operation_id meta, adm_kind = intent_kind (intent meta), adm_started = started_at meta\<rparr>)
     (\<lambda>_. [lane_event l ev])"

definition preparation_key :: "string \<Rightarrow> string \<Rightarrow> string" where
  "preparation_key oid task = oid @ '':'' @ task"

definition plan_accept_compaction ::
    "'n runtime_config \<Rightarrow> string \<Rightarrow> string \<Rightarrow> string \<Rightarrow> int \<Rightarrow> string option \<Rightarrow> ('n, lane_error + admission) planner" where
  "plan_accept_compaction c l oid task start custom p s = (case operation p of
     Some oper \<Rightarrow> Inr (Return (Inl (lane_busy oper)))
   | None \<Rightarrow> (case prepare_compaction c (if tip p = None then [] else bounded_path s (tip p)) (cfg_compaction c) of
       Inl e \<Rightarrow> Inl (Invariant e)
     | Inr None \<Rightarrow> Inr (Return (Inl NothingToCompact))
     | Inr (Some prep) \<Rightarrow> Inr (accept_started l
         \<lparr>operation_id = oid, meta_lane = l, source_tip = tip p, started_at = start, intent = ICompaction custom\<rparr>
         (SummaryDeciding (running_scope (captured_settings c))
           \<lparr>task_id = task, reason = Some Manual, instructions = custom, boundary = FinishBoundary\<rparr>)
         [SetOwned Preparation (preparation_key oid task) prep]
         (CompactionStart oid Manual start) p)))"

record navigate_options =
  summarize :: bool
  nav_label :: "string option"
  nav_instructions :: "string option"

text \<open>The entries of the old path above the common ancestor, oldest first.\<close>

definition navigation_preparation ::
    "'n runtime_config \<Rightarrow> string option \<Rightarrow> string option \<Rightarrow> bool \<Rightarrow> 'n store \<Rightarrow> json option" where
  "navigation_preparation c from target summ s =
    (if summ \<and> from \<noteq> None \<and> target \<noteq> None \<and> the target \<in> eid ` set (committed s) then
       (let old = path_newest (rev (committed s)) from;
            targ = path_newest (rev (committed s)) target in
        Some (prepare_branch c (rev (case find (\<lambda>e. eid e \<in> eid ` set old) targ of
            None \<Rightarrow> old
          | Some a \<Rightarrow> takeWhile (\<lambda>e. eid e \<noteq> eid a) old))))
     else None)"

text \<open>
  One attempt of the loop of \<open>acceptNavigation\<close>: what was read before the command ran (the tip observed and
  the preparation made from it) is given; \<open>None\<close> as a result means that the tip has moved and another
  attempt is made.
\<close>

definition plan_accept_navigation ::
    "'n runtime_config \<Rightarrow> string \<Rightarrow> string \<Rightarrow> string \<Rightarrow> int \<Rightarrow> string option \<Rightarrow> navigate_options \<Rightarrow>
      string option \<Rightarrow> json option \<Rightarrow> ('n, (lane_error + admission) option) planner" where
  "plan_accept_navigation c l oid task start target opts observed prep p s =
    (let map_return = (\<lambda>e. Inr (Return (Some (Inl e)))) in
     case operation p of
       Some oper \<Rightarrow> map_return (lane_busy oper)
     | None \<Rightarrow>
       if tip p \<noteq> observed then Inr (Return None)
       else if target = tip p then map_return (InvalidNavigation ''current_tip'')
       else if target = None \<and> nav_label opts \<noteq> None then map_return (InvalidNavigation ''root_label'')
       else if summarize opts \<and> (tip p = None \<or> target = None)
       then map_return (InvalidNavigation (if tip p = None then ''source_root'' else ''target_root''))
       else if target \<noteq> None \<and> the target \<notin> eid ` set (committed s) then map_return (UnknownTarget (the target))
       else
         (let meta = \<lparr>operation_id = oid, meta_lane = l, source_tip = tip p, started_at = start,
                intent = INavigation target (summarize opts) (nav_label opts) (nav_instructions opts)\<rparr>;
              scope = running_scope (captured_settings c);
              started = (\<lambda>st ws. case accept_started l meta st ws (NavigationStart oid target start) p of
                  Commit ws' next r evs \<Rightarrow> Inr (Commit ws' next (Some r) evs)) in
          if summarize opts then
            (case prep of
               None \<Rightarrow> Inl (Invariant ''missing preparation'')
             | Some v \<Rightarrow> started
                 (SummaryDeciding scope \<lparr>task_id = task, reason = None, instructions = nav_instructions opts,
                    boundary = CommitNavigation (the target) (nav_label opts)\<rparr>)
                 [SetOwned Preparation (preparation_key oid task) v])
          else started (NavigationReadyToCommit scope target (nav_label opts)) []))"

section \<open>Requesting an abort\<close>

fun with_control :: "control \<Rightarrow> operation_state \<Rightarrow> operation_state" where
  "with_control k (Starting s) = Starting (s\<lparr>control := k\<rparr>)"
| "with_control k (Checkpoint s d) = Checkpoint (s\<lparr>control := k\<rparr>) d"
| "with_control k (AssistantReady s g n) = AssistantReady (s\<lparr>control := k\<rparr>) g n"
| "with_control k (AssistantEffectPending s g a r u n w) = AssistantEffectPending (s\<lparr>control := k\<rparr>) g a r u n w"
| "with_control k (AssistantRetryWait s g w) = AssistantRetryWait (s\<lparr>control := k\<rparr>) g w"
| "with_control k (Tools s b) = Tools (s\<lparr>control := k\<rparr>) b"
| "with_control k (DeferredSuspended s d) = DeferredSuspended (s\<lparr>control := k\<rparr>) d"
| "with_control k (DeferredEffectPending s d r u) = DeferredEffectPending (s\<lparr>control := k\<rparr>) d r u"
| "with_control k (SummaryDeciding s t) = SummaryDeciding (s\<lparr>control := k\<rparr>) t"
| "with_control k (SummaryReady s t c n) = SummaryReady (s\<lparr>control := k\<rparr>) t c n"
| "with_control k (SummaryEffectPending s t c a r u) = SummaryEffectPending (s\<lparr>control := k\<rparr>) t c a r u"
| "with_control k (SummaryRetryWait s t c w) = SummaryRetryWait (s\<lparr>control := k\<rparr>) t c w"
| "with_control k (NavigationReadyToCommit s g lb) = NavigationReadyToCommit (s\<lparr>control := k\<rparr>) g lb"

record abort_result =
  abort_operation :: string
  newly_requested :: bool
  abort_steer :: "agent_message list"
  abort_follow_up :: "agent_message list"

definition message_payload :: "'n store \<Rightarrow> inbox_item \<Rightarrow> lane_fault + inbox_item \<times> agent_message" where
  "message_payload s item = (case own_get (pendings s) (item_entry item) of
     Some (PendingMessage m) \<Rightarrow> Inr (item, m)
   | _ \<Rightarrow> Inl (MissingPayload (item_entry item)))"

definition mismatch :: "string \<Rightarrow> lane_projection \<Rightarrow> lane_error" where
  "mismatch expected p =
     OperationMismatch expected (map_option (\<lambda>oper. operation_id (op_meta oper)) (operation p)) (last_done p)"

definition plan_request_abort :: "string \<Rightarrow> string \<Rightarrow> int \<Rightarrow> ('n, lane_error + abort_result) planner" where
  "plan_request_abort l oid now p s = (case operation p of
     None \<Rightarrow> Inr (Return (Inl (mismatch oid p)))
   | Some oper \<Rightarrow>
       if operation_id (op_meta oper) \<noteq> oid then Inr (Return (Inl (mismatch oid p)))
       else if control (operation_scope_of (op_state oper)) \<noteq> Running
       then Inr (Return (Inr \<lparr>abort_operation = oid, newly_requested = False, abort_steer = [], abort_follow_up = []\<rparr>))
       else
         (let removed = filter (\<lambda>x. item_kind x = Steer \<or> item_kind x = FollowUp) (inbox p);
              items = filter (\<lambda>x. item_entry x \<notin> item_entry ` set removed) (inbox p);
              st = with_control (CancelRequested now) (op_state oper) in
          rbind (rmap (message_payload s) removed) (\<lambda>loads.
          rbind (read_lane_queues s items) (\<lambda>qs.
          let steer = map snd (filter (\<lambda>x. item_kind (fst x) = Steer) loads);
              follow = map snd (filter (\<lambda>x. item_kind (fst x) = FollowUp) loads) in
          Inr (Commit
            (map (\<lambda>x. DeletePending (item_entry x)) removed @
             [SetOpState oid st, SetLaneState l (durable_lane_state (Some oid) items (last_done p))])
            (p\<lparr>inbox := items, operation := Some \<lparr>op_meta = op_meta oper, op_state = st\<rparr>\<rparr>)
            (Inr \<lparr>abort_operation = oid, newly_requested = True, abort_steer = steer, abort_follow_up = follow\<rparr>)
            (\<lambda>_. lane_event l (OperationAbort oid steer follow) #
               (if removed = [] then [] else [lane_event l (QueueUpdate qs)])))))))"

section \<open>Queued input\<close>

definition current_id :: "lane_projection \<Rightarrow> string option" where
  "current_id p = map_option (\<lambda>oper. operation_id (op_meta oper)) (operation p)"

datatype queue_input = InputText string | InputMessage agent_message

text \<open>The content blocks of a message: a string counts as one text block.\<close>

definition content_blocks :: "agent_message \<Rightarrow> json list" where
  "content_blocks m = (case content m of
     JObj kvs \<Rightarrow> (case own_get kvs ''content'' of
         Some (JStr t) \<Rightarrow> if t = [] then [] else [text_block t]
       | Some (JArr bs) \<Rightarrow> bs
       | _ \<Rightarrow> [])
   | _ \<Rightarrow> [])"

definition with_images :: "agent_message \<Rightarrow> json list \<Rightarrow> agent_message" where
  "with_images m images = m\<lparr>content := (case content m of
     JObj kvs \<Rightarrow> JObj (own_set index_key ''content'' (JArr (content_blocks m @ images)) kvs)
   | v \<Rightarrow> v)\<rparr>"

definition queued_message :: "queue_input \<Rightarrow> json list \<Rightarrow> int \<Rightarrow> lane_error + agent_message" where
  "queued_message input images at_time = (case input of
     InputText t \<Rightarrow> if t = [] \<and> images = [] then Inl (InvalidMessage ''empty'')
       else Inr (user_message ((if t = [] then [] else [text_block t]) @ images) at_time)
   | InputMessage m \<Rightarrow>
       if pending_assistant m then Inl (InvalidMessage ''pending_assistant'')
       else if images \<noteq> [] \<and> role m \<noteq> ''user'' then Inl (InvalidMessage ''images_with_non_user'')
       else Inr (if images = [] \<or> role m \<noteq> ''user'' then m else with_images m images))"

definition plan_enqueue :: "string \<Rightarrow> inbox_kind \<Rightarrow> string \<Rightarrow> agent_message \<Rightarrow> ('n, lane_error + string) planner" where
  "plan_enqueue l kind i m p s =
    (let items = inbox p @ [\<lparr>item_entry = i, item_kind = kind\<rparr>] in
     rbind (read_lane_queues s (inbox p)) (\<lambda>qs.
     Inr (Commit
       [SetPending i (PendingMessage m), SetLaneState l (durable_lane_state (current_id p) items (last_done p))]
       (p\<lparr>inbox := items\<rparr>) (Inr i) (\<lambda>_. [lane_event l (QueueUpdate (qs @ [QueuedMessage i kind m]))]))))"

definition enqueue ::
    "string \<Rightarrow> inbox_kind \<Rightarrow> string \<Rightarrow> queue_input \<Rightarrow> json list \<Rightarrow> int \<Rightarrow> 'n::{zero,plus} harness \<Rightarrow>
      'n harness \<times> (lane_error + string) outcome" where
  "enqueue l kind i input images now h = (case hclosed h of
     Some r \<Rightarrow> (h, Refused r)
   | None \<Rightarrow> (case queued_message input images now of
       Inl e \<Rightarrow> (h, Returned (Inl e))
     | Inr m \<Rightarrow> run_command l (plan_enqueue l kind i m) now h))"

datatype cancelled = Cancelled | AlreadyConsumed | NotFound

definition plan_cancel_queued :: "string \<Rightarrow> string \<Rightarrow> ('n, cancelled) planner" where
  "plan_cancel_queued l i p s = (case find (\<lambda>x. item_entry x = i) (inbox p) of
     None \<Rightarrow> Inr (Return (if i \<in> eid ` set (committed s) then AlreadyConsumed else NotFound))
   | Some _ \<Rightarrow>
       if own_get (pendings s) i = None then Inl (MissingPayload i)
       else (let items = filter (\<lambda>x. item_entry x \<noteq> i) (inbox p) in
         rbind (read_lane_queues s items) (\<lambda>qs.
         Inr (Commit [DeletePending i, SetLaneState l (durable_lane_state (current_id p) items (last_done p))]
           (p\<lparr>inbox := items\<rparr>) Cancelled (\<lambda>_. [lane_event l (QueueUpdate qs)])))))"

section \<open>Usage, configuration and entries\<close>

definition plan_record_usage :: "string \<Rightarrow> 'n new_usage \<Rightarrow> ('n, string) planner" where
  "plan_record_usage l u p s = Inr (Commit [InsertUsage u] p (uid u)
     (\<lambda>info. [lane_event l (UsageEvent (new_usage.extend u (usage_row.fields (info_seqs info ! 0))) (info_usage info))]))"

definition plan_set_configuration ::
    "string \<Rightarrow> (lane_configuration \<Rightarrow> lane_configuration) \<Rightarrow> (lane_configuration \<Rightarrow> config_property) \<Rightarrow> ('n, unit) planner" where
  "plan_set_configuration l upd ev p s = (let c = upd (configuration p) in
     Inr (Commit [SetConfig l c] (p\<lparr>configuration := c\<rparr>) () (\<lambda>_. [lane_event l (ConfigUpdate (ev c))])))"

definition plan_set_model :: "string \<Rightarrow> string \<Rightarrow> string \<Rightarrow> ('n, unit) planner" where
  "plan_set_model l pr m = plan_set_configuration l (\<lambda>c. c\<lparr>provider := pr, model_id := m\<rparr>)
     (\<lambda>c. PModel (provider c) (model_id c))"

definition plan_set_thinking :: "string \<Rightarrow> string \<Rightarrow> ('n, unit) planner" where
  "plan_set_thinking l t = plan_set_configuration l (\<lambda>c. c\<lparr>thinking_level := t\<rparr>) (\<lambda>c. PThinking (thinking_level c))"

definition plan_set_active_tools :: "string \<Rightarrow> string list \<Rightarrow> ('n, unit) planner" where
  "plan_set_active_tools l ts = plan_set_configuration l (\<lambda>c. c\<lparr>active_tools := ts\<rparr>) (\<lambda>c. PActiveTools (active_tools c))"

definition stored_payload :: "'n store \<Rightarrow> inbox_item \<Rightarrow> lane_fault + 'n new_entry" where
  "stored_payload s item = (case own_get (pendings s) (item_entry item) of
     None \<Rightarrow> Inl (MissingPayload (item_entry item))
   | Some v \<Rightarrow> Inr (pending_entry_write (item_entry item) v))"

definition queued_pending :: "string \<Rightarrow> pending_entry \<Rightarrow> queued_item" where
  "queued_pending i v = (case v of
     PendingMessage m \<Rightarrow> QueuedMessage i WriteItem m | PendingCustom t d \<Rightarrow> QueuedCustom i t d)"

definition plan_append :: "string \<Rightarrow> string \<Rightarrow> pending_entry \<Rightarrow> ('n, string) planner" where
  "plan_append l i v p s = (case operation p of
     None \<Rightarrow>
       (let queued = filter (\<lambda>x. item_kind x = WriteItem) (inbox p);
            items = filter (\<lambda>x. item_entry x \<notin> item_entry ` set queued) (inbox p) in
        rbind (rmap (stored_payload s) queued) (\<lambda>captured.
        rbind (if queued = [] then Inr None else map_sum id Some (read_lane_queues s items)) (\<lambda>qs.
        let new = chain_entries (tip p) (captured @ [pending_entry_write i v]) in
        Inr (Commit
          (map InsertEntry new @ map (\<lambda>x. DeletePending (item_entry x)) queued @
           [SetTip l (Some i), SetLaneState l (durable_lane_state None items (last_done p))])
          (p\<lparr>tip := Some i, inbox := items\<rparr>) i
          (\<lambda>info. committed_entry_events new info l None 0 @
             (case qs of None \<Rightarrow> [] | Some q \<Rightarrow> [lane_event l (QueueUpdate q)]))))))
   | Some oper \<Rightarrow>
       (let items = inbox p @ [\<lparr>item_entry = i, item_kind = WriteItem\<rparr>] in
        rbind (read_lane_queues s (inbox p)) (\<lambda>qs.
        Inr (Commit
          [SetPending i v, SetLaneState l (durable_lane_state (Some (operation_id (op_meta oper))) items (last_done p))]
          (p\<lparr>inbox := items\<rparr>) i (\<lambda>_. [lane_event l (QueueUpdate (qs @ [queued_pending i v]))])))))"

section \<open>Lanes of a harness\<close>

text \<open>
  \<open>Harness.lane\<close>: an existing lane, a configured one that is restored, or a new one on a new or existing
  branch.
\<close>

datatype lane_result = LaneReady | LaneUnknownTarget string | LaneRefused closing | InvalidLaneName

definition initial_lane :: "string option \<Rightarrow> lane_configuration \<Rightarrow> lane_projection" where
  "initial_lane t c = \<lparr>tip = t, configuration = c, inbox = [], last_done = None, operation = None\<rparr>"

definition acquire_lane ::
    "lane_configuration \<Rightarrow> string \<Rightarrow> string option \<Rightarrow> 'n harness \<Rightarrow> 'n harness \<times> lane_result" where
  "acquire_lane seed l create_at h = (case hclosed h of
     Some r \<Rightarrow> (h, LaneRefused r)
   | None \<Rightarrow> if l = [] \<or> nul \<in> set l then (h, InvalidLaneName)
     else if own_get (hlanes h) l \<noteq> None then (h, LaneReady)
     else (case read_lane_storage (lane_store.truncate (hstore h)) l of
       Inl e \<Rightarrow> (fault (RestoreFault e) h, LaneRefused (ClosedByFault (RestoreFault e)))
     | Inr (ConfiguredLane t c st) \<Rightarrow> (case restore_lane_state (lane_store.truncate (hstore h)) l t c st of
         Inl e \<Rightarrow> (fault (RestoreFault e) h, LaneRefused (ClosedByFault (RestoreFault e)))
       | Inr p \<Rightarrow> (h\<lparr>hlanes := put l p (hlanes h)\<rparr>, LaneReady))
     | Inr stored \<Rightarrow>
         (let t = (case stored of BranchOnly t \<Rightarrow> t | _ \<Rightarrow> create_at);
              fresh = (stored = Absent);
              ws = (if fresh then [SetTip l t] else []) @ [SetConfig l seed, SetLaneState l (durable_lane_state None [] None)] in
          if fresh \<and> t \<noteq> None \<and> the t \<notin> eid ` set (committed (hstore h)) then (h, LaneUnknownTarget (the t))
          else (case commit_store (hstore h) ws of
              Inl f \<Rightarrow> (fault f h, LaneRefused (ClosedByFault f))
            | Inr s' \<Rightarrow> (h\<lparr>hstore := s', hseq := hseq h + int (length ws),
                 hlanes := put l (initial_lane t seed) (hlanes h),
                 emitted := emitted h @ [lane_event l (LaneCreated t)]\<rparr>, LaneReady)))))"

text \<open>\<open>createAgentHarness\<close>: every configured lane is restored, or the harness does not start.\<close>

definition create_harness :: "'n store \<Rightarrow> int \<Rightarrow> restore_error + 'n harness" where
  "create_harness s sq = rbind (restore_session (lane_store.truncate s)) (\<lambda>m.
     Inr \<lparr>hstore = s, hseq = sq, hlanes = m, hclosed = None, idle_owners = [], emitted = []\<rparr>)"

end
