(* ===== verification/LaneSync.thy ===== *)
theory LaneSync
  imports LaneCommand
begin

text \<open>
  The lanes a harness holds in memory are what restoring its session would give. \<open>stored_lane\<close> says what the
  store holds for a lane; the locale \<open>lane_planner\<close> is the contract of a command's planner under which running
  it keeps every lane stored, and the planners of the lane's methods satisfy it.
\<close>

section \<open>What is stored for a lane\<close>

definition op_stored :: "'z lane_store_scheme \<Rightarrow> string \<Rightarrow> operation \<Rightarrow> bool" where
  "op_stored s l oper \<longleftrightarrow> own_get (op_metas s) (operation_id (op_meta oper)) = Some (op_meta oper) \<and>
     own_get (op_states s) (operation_id (op_meta oper)) = Some (op_state oper) \<and>
     meta_lane (op_meta oper) = l \<and> state_matches_intent (intent (op_meta oper)) (op_state oper)"

definition stored_lane :: "'z lane_store_scheme \<Rightarrow> string \<Rightarrow> lane_projection \<Rightarrow> bool" where
  "stored_lane s l p \<longleftrightarrow> own_get (tips s) l = Some (tip p) \<and> own_get (configs s) l = Some (configuration p) \<and>
     own_get (lane_states s) l = Some (durable_lane_state (current_id p) (inbox p) (last_done p)) \<and>
     (case operation p of None \<Rightarrow> True | Some oper \<Rightarrow> op_stored s l oper)"

definition unconfigured :: "'z lane_store_scheme \<Rightarrow> string \<Rightarrow> bool" where
  "unconfigured s l \<longleftrightarrow> own_get (configs s) l = None \<and> own_get (lane_states s) l = None"

lemma truncate_sel [simp]:
  "tips (lane_store.truncate s) = tips s" "configs (lane_store.truncate s) = configs s"
  "lane_states (lane_store.truncate s) = lane_states s" "op_metas (lane_store.truncate s) = op_metas s"
  "op_states (lane_store.truncate s) = op_states s"
  by (simp_all add: lane_store.truncate_def)

lemma restore_operation_Some:
  assumes "own_get (op_metas r) i = Some m" and "own_get (op_states r) i = Some st"
  shows "restore_operation r l i = Inr oper \<longleftrightarrow>
    oper = \<lparr>op_meta = m, op_state = st\<rparr> \<and> operation_id m = i \<and> meta_lane m = l \<and> state_matches_intent (intent m) st"
  using assms by (simp add: restore_operation_def) blast

lemma restore_operation_iff:
  "restore_operation r l i = Inr oper \<longleftrightarrow> op_stored r l oper \<and> operation_id (op_meta oper) = i"
proof (cases "\<exists>m st. own_get (op_metas r) i = Some m \<and> own_get (op_states r) i = Some st")
  case True
  then obtain m st where s: "own_get (op_metas r) i = Some m" "own_get (op_states r) i = Some st" by blast
  obtain m' st' where o: "oper = \<lparr>op_meta = m', op_state = st'\<rparr>" by (cases oper)
  show ?thesis unfolding restore_operation_Some [OF s] o op_stored_def using s by auto
next
  case False
  then have "\<not> (\<exists>oper. restore_operation r l i = Inr oper)"
    by (auto simp: restore_operation_def split: option.splits)
  then show ?thesis using False by (auto simp: op_stored_def)
qed

lemma restore_lane_iff: "restore_lane r l = Inr p \<longleftrightarrow> stored_lane r l p"
proof -
  have "restore_lane r l = Inr p \<longleftrightarrow> (\<exists>t c st. own_get (tips r) l = Some t \<and> own_get (configs r) l = Some c \<and>
      own_get (lane_states r) l = Some st \<and> restore_lane_state r l t c st = Inr p)"
    by (cases "own_get (tips r) l"; cases "own_get (configs r) l"; cases "own_get (lane_states r) l")
      (simp_all add: restore_lane_def read_lane_storage_def)
  also have "\<dots> \<longleftrightarrow> stored_lane r l p"
  proof -
    have "restore_lane_state r l t c st = Inr p \<longleftrightarrow> t = tip p \<and> c = configuration p \<and>
        st = durable_lane_state (current_id p) (inbox p) (last_done p) \<and>
        (case operation p of None \<Rightarrow> True | Some oper \<Rightarrow> op_stored r l oper)" for t c st
      by (cases p; cases st; cases "current_operation st"; cases "operation p")
        (auto simp: restore_lane_state_def result_simps durable_lane_state_def current_id_def restore_operation_iff)
    then show ?thesis by (auto simp: stored_lane_def)
  qed
  finally show ?thesis .
qed

lemma restore_truncate: "restore_lane (lane_store.truncate s) l = Inr p \<longleftrightarrow> stored_lane s l p"
  by (simp add: restore_lane_iff stored_lane_def op_stored_def split: option.split)

definition in_sync :: "'n harness \<Rightarrow> bool" where
  "in_sync h \<longleftrightarrow> (\<forall>l p. own_get (hlanes h) l = Some p \<longrightarrow> stored_lane (hstore h) l p) \<and>
     (\<forall>l. own_get (hlanes h) l = None \<longrightarrow> unconfigured (hstore h) l)"

lemma in_syncD:
  "in_sync h \<Longrightarrow> own_get (hlanes h) l = Some p \<Longrightarrow> stored_lane (hstore h) l p"
  "in_sync h \<Longrightarrow> own_get (hlanes h) l = None \<Longrightarrow> unconfigured (hstore h) l"
  by (simp_all add: in_sync_def)

text \<open>Two lanes never work on one operation: its stored meta data names one of them.\<close>

lemma current_ids_distinct:
  assumes "in_sync h" and "own_get (hlanes h) l = Some p" and "own_get (hlanes h) l' = Some p'" and "l \<noteq> l'"
    and "current_id p = Some i"
  shows "current_id p' \<noteq> Some i"
proof
  assume i': "current_id p' = Some i"
  have "\<exists>m. own_get (op_metas (hstore h)) i = Some m \<and> meta_lane m = k"
    if "stored_lane (hstore h) k q" "current_id q = Some i" for k q
    using that by (cases "operation q") (auto simp: stored_lane_def op_stored_def current_id_def)
  then show False using in_syncD(1) [OF assms(1,2)] in_syncD(1) [OF assms(1,3)] assms(4,5) i'
    by (metis option.inject)
qed

section \<open>What writes change\<close>

fun quiet :: "'n lane_write \<Rightarrow> bool" where
  "quiet (SetTip _ _) = False"
| "quiet (SetConfig _ _) = False"
| "quiet (SetLaneState _ _) = False"
| "quiet (SetMeta _ _) = False"
| "quiet (DeleteMeta _) = False"
| "quiet (SetOpState _ _) = False"
| "quiet (DeleteOpState _) = False"
| "quiet _ = True"

fun lane_write_of :: "string \<Rightarrow> string set \<Rightarrow> 'n lane_write \<Rightarrow> bool" where
  "lane_write_of l ids (SetTip k _) = (k = l)"
| "lane_write_of l ids (SetConfig k _) = (k = l)"
| "lane_write_of l ids (SetLaneState k _) = (k = l)"
| "lane_write_of l ids (SetMeta i _) = (i \<in> ids)"
| "lane_write_of l ids (DeleteMeta i) = (i \<in> ids)"
| "lane_write_of l ids (SetOpState i _) = (i \<in> ids)"
| "lane_write_of l ids (DeleteOpState i) = (i \<in> ids)"
| "lane_write_of l ids _ = True"

lemma quiet_lane_write [simp]: "quiet w \<Longrightarrow> lane_write_of l ids w"
  by (cases w) auto

lemma check_write_apply: "check_write w s = Inr s' \<Longrightarrow> s' = apply_value w s"
  by (cases w) (auto split: if_splits option.splits body.splits)

lemma commit_store_apply: "commit_store s ws = Inr s' \<Longrightarrow> s' = fold apply_value ws s"
proof (induction ws arbitrary: s)
  case (Cons w ws)
  then obtain t where t: "check_write w s = Inr t" "commit_store t ws = Inr s'"
    by (auto simp: commit_store_def result_simps)
  then show ?case using Cons.IH [OF t(2)] check_write_apply [OF t(1)] by simp
qed (simp add: commit_store_def)

text \<open>The part of the store that restoring reads.\<close>

definition same_lanes :: "'y lane_store_scheme \<Rightarrow> 'z lane_store_scheme \<Rightarrow> bool" where
  "same_lanes s s' \<longleftrightarrow> tips s' = tips s \<and> configs s' = configs s \<and> lane_states s' = lane_states s \<and>
     op_metas s' = op_metas s \<and> op_states s' = op_states s"

lemma quiet_same: "\<forall>w \<in> set ws. quiet w \<Longrightarrow> same_lanes s (fold apply_value ws s)"
proof (induction ws arbitrary: s)
  case (Cons w ws)
  then have "same_lanes s (apply_value w s)" by (cases w) (auto simp: same_lanes_def)
  then show ?case using Cons.IH [of "apply_value w s"] Cons.prems by (auto simp: same_lanes_def)
qed (simp add: same_lanes_def)

lemma quiet_sel [simp]:
  assumes "\<forall>w \<in> set ws. quiet w"
  shows "tips (fold apply_value ws s) = tips s" "configs (fold apply_value ws s) = configs s"
    "lane_states (fold apply_value ws s) = lane_states s" "op_metas (fold apply_value ws s) = op_metas s"
    "op_states (fold apply_value ws s) = op_states s"
  using quiet_same [OF assms, of s] by (auto simp: same_lanes_def)

lemma apply_other_lane:
  assumes "lane_write_of l ids w" and "l' \<noteq> l"
  shows "own_get (tips (apply_value w s)) l' = own_get (tips s) l'"
    and "own_get (configs (apply_value w s)) l' = own_get (configs s) l'"
    and "own_get (lane_states (apply_value w s)) l' = own_get (lane_states s) l'"
    and "i \<notin> ids \<Longrightarrow> own_get (op_metas (apply_value w s)) i = own_get (op_metas s) i"
    and "i \<notin> ids \<Longrightarrow> own_get (op_states (apply_value w s)) i = own_get (op_states s) i"
  using assms by (cases w; auto simp: own_simps)+

lemma writes_other_lane:
  assumes "\<forall>w \<in> set ws. lane_write_of l ids w" and "l' \<noteq> l"
  shows "own_get (tips (fold apply_value ws s)) l' = own_get (tips s) l' \<and>
    own_get (configs (fold apply_value ws s)) l' = own_get (configs s) l' \<and>
    own_get (lane_states (fold apply_value ws s)) l' = own_get (lane_states s) l' \<and>
    (i \<notin> ids \<longrightarrow> own_get (op_metas (fold apply_value ws s)) i = own_get (op_metas s) i \<and>
      own_get (op_states (fold apply_value ws s)) i = own_get (op_states s) i)"
  using assms(1)
proof (induction ws arbitrary: s)
  case (Cons w ws)
  then show ?case using Cons.IH [of "apply_value w s"] apply_other_lane [of l ids w l' , OF _ assms(2)] by simp
qed simp

lemma stored_other_lane:
  assumes "\<forall>w \<in> set ws. lane_write_of l ids w" and "l' \<noteq> l" and "stored_lane s l' p"
    and "\<And>i. current_id p = Some i \<Longrightarrow> i \<notin> ids"
  shows "stored_lane (fold apply_value ws s) l' p"
proof -
  note w = writes_other_lane [OF assms(1,2), of s]
  show ?thesis
  proof (cases "operation p")
    case None
    then show ?thesis using assms(3) w by (simp add: stored_lane_def)
  next
    case (Some oper)
    then have "operation_id (op_meta oper) \<notin> ids" using assms(4) by (simp add: current_id_def)
    then show ?thesis using assms(3) w [of "operation_id (op_meta oper)"] Some
      by (simp add: stored_lane_def op_stored_def)
  qed
qed

lemma unconfigured_other_lane:
  "\<forall>w \<in> set ws. lane_write_of l ids w \<Longrightarrow> l' \<noteq> l \<Longrightarrow> unconfigured s l' \<Longrightarrow> unconfigured (fold apply_value ws s) l'"
  using writes_other_lane [of ws l ids l' s] by (simp add: unconfigured_def)

section \<open>The contract of a planner\<close>

text \<open>No other lane of the harness works on one of these operations.\<close>

definition ids_free :: "'n harness \<Rightarrow> string \<Rightarrow> string set \<Rightarrow> bool" where
  "ids_free h l ids \<longleftrightarrow> (\<forall>l' p. l' \<noteq> l \<longrightarrow> own_get (hlanes h) l' = Some p \<longrightarrow> (\<forall>i. current_id p = Some i \<longrightarrow> i \<notin> ids))"

lemma fault_frame [simp]: "hstore (fault f h) = hstore h" "hlanes (fault f h) = hlanes h"
  by (simp_all add: fault_def split: option.split)

lemma run_command_effect:
  assumes "h' = fst (run_command l plan now h)"
  shows "(hstore h' = hstore h \<and> hlanes h' = hlanes h) \<or>
    (\<exists>p ws nxt r evs. own_get (hlanes h) l = Some p \<and> plan p (hstore h) = Inr (Commit ws nxt r evs) \<and>
      commit_store (hstore h) ws = Inr (hstore h') \<and> hlanes h' = put l nxt (hlanes h))"
proof (cases "hclosed h = None \<and> l \<notin> set (idle_owners h)")
  case open_lane: True
  show ?thesis
  proof (cases "own_get (hlanes h) l")
    case None
    then show ?thesis using open_lane assms by (simp add: run_command_def)
  next
    case lane: (Some p)
    show ?thesis
    proof (cases "plan p (hstore h)")
      case (Inl f)
      then show ?thesis using open_lane lane assms by (simp add: run_command_def)
    next
      case (Inr d)
      then show ?thesis using open_lane lane assms
        by (cases d) (auto simp: run_command_def split: sum.splits)
    qed
  qed
next
  case False
  then show ?thesis using assms by (cases "hclosed h") (auto simp: run_command_def)
qed

locale lane_planner =
  fixes l :: string
    and plan :: "('n::{zero,plus}, 'r) planner"
    and ids :: "lane_projection \<Rightarrow> string set"
  assumes plan_writes: "stored_lane s l p \<Longrightarrow> plan p s = Inr (Commit ws nxt r evs) \<Longrightarrow> w \<in> set ws \<Longrightarrow>
      lane_write_of l (ids p) w"
    and plan_stored: "stored_lane s l p \<Longrightarrow> plan p s = Inr (Commit ws nxt r evs) \<Longrightarrow>
      stored_lane (fold apply_value ws s) l nxt"
begin

lemma keeps_sync:
  assumes "in_sync h" and "\<And>p. own_get (hlanes h) l = Some p \<Longrightarrow> ids_free h l (ids p)"
  shows "in_sync (fst (run_command l plan now h))"
proof -
  let ?h = "fst (run_command l plan now h)"
  consider "hstore ?h = hstore h" "hlanes ?h = hlanes h"
    | p ws nxt r evs where "own_get (hlanes h) l = Some p" "plan p (hstore h) = Inr (Commit ws nxt r evs)"
      "commit_store (hstore h) ws = Inr (hstore ?h)" "hlanes ?h = put l nxt (hlanes h)"
    using run_command_effect [OF refl, of l plan now h] by blast
  then show ?thesis
  proof cases
    case 1
    then show ?thesis using assms(1) by (simp add: in_sync_def)
  next
    case 2
    have stored: "stored_lane (hstore h) l p" using assms(1) 2(1) by (rule in_syncD)
    have h': "hstore ?h = fold apply_value ws (hstore h)" using 2(3) by (rule commit_store_apply)
    have w: "\<forall>w \<in> set ws. lane_write_of l (ids p) w" using plan_writes [OF stored 2(2)] by blast
    have "stored_lane (hstore ?h) k q" if "own_get (hlanes ?h) k = Some q" for k q
    proof (cases "k = l")
      case True
      then show ?thesis using that plan_stored [OF stored 2(2)] h' 2(4) by (simp add: own_simps)
    next
      case False
      then have k: "own_get (hlanes h) k = Some q" using that 2(4) by (simp add: own_simps)
      show ?thesis unfolding h'
        using assms(2) [OF 2(1)] False k in_syncD(1) [OF assms(1) k]
        by (intro stored_other_lane [OF w False]) (auto simp: ids_free_def)
    qed
    moreover have "unconfigured (hstore ?h) k" if "own_get (hlanes ?h) k = None" for k
    proof -
      have "k \<noteq> l" "own_get (hlanes h) k = None" using that 2(4) by (auto simp: own_simps split: if_splits)
      then show ?thesis unfolding h' using unconfigured_other_lane [OF w] in_syncD(2) [OF assms(1)] by blast
    qed
    ultimately show ?thesis by (simp add: in_sync_def)
  qed
qed

end

section \<open>The planners of the lane's methods\<close>

lemmas stored_simps = stored_lane_def op_stored_def durable_lane_state_def current_id_def own_simps

interpretation accept_run: lane_planner l "plan_accept_run c l oid start prompt" "\<lambda>_. {oid}"
  by unfold_locales
    (auto simp: plan_accept_run_def Let_def result_simps stored_simps split: option.splits prod.splits if_splits)

text \<open>Compactions and navigations start with the same three writes after the ones of their own.\<close>

lemma accept_started_contract:
  assumes "accept_started l meta st ws ev p = Commit ws' nxt r evs" and "stored_lane s l p"
    and "meta_lane meta = l" and "state_matches_intent (intent meta) st" and "\<forall>w \<in> set ws. quiet w"
  shows "\<forall>w \<in> set ws'. lane_write_of l {operation_id meta} w" and "stored_lane (fold apply_value ws' s) l nxt"
  using assms by (auto simp: accept_started_def stored_simps)

lemma plan_accept_compaction_commit:
  assumes "plan_accept_compaction c l oid task start custom p s = Inr (Commit ws' nxt r evs)"
  shows "\<exists>meta st ws ev. accept_started l meta st ws ev p = Commit ws' nxt r evs \<and> operation_id meta = oid \<and>
    meta_lane meta = l \<and> state_matches_intent (intent meta) st \<and> (\<forall>w \<in> set ws. quiet w)"
proof -
  let ?meta = "\<lparr>operation_id = oid, meta_lane = l, source_tip = tip p, started_at = start, intent = ICompaction custom\<rparr>"
  let ?st = "SummaryDeciding (running_scope (captured_settings c))
    \<lparr>task_id = task, reason = Some Manual, instructions = custom, boundary = FinishBoundary\<rparr>"
  obtain prep where "accept_started l ?meta ?st [SetOwned Preparation (preparation_key oid task) prep]
      (CompactionStart oid Manual start) p = Commit ws' nxt r evs"
    using assms by (auto simp: plan_accept_compaction_def split: option.splits sum.splits)
  then show ?thesis by (rule_tac exI [of _ ?meta], rule_tac exI [of _ ?st]) auto
qed

interpretation accept_compaction: lane_planner l "plan_accept_compaction c l oid task start custom" "\<lambda>_. {oid}"
proof
  fix s :: "'a store" and p ws nxt r evs w
  assume s: "stored_lane s l p" and plan: "plan_accept_compaction c l oid task start custom p s = Inr (Commit ws nxt r evs)"
  obtain meta st ws0 ev where c: "accept_started l meta st ws0 ev p = Commit ws nxt r evs" "operation_id meta = oid"
    "meta_lane meta = l" "state_matches_intent (intent meta) st" "\<forall>w \<in> set ws0. quiet w"
    using plan_accept_compaction_commit [OF plan] by blast
  note contract = accept_started_contract [OF c(1) s c(3-5)]
  show "stored_lane (fold apply_value ws s) l nxt" by (rule contract)
  show "lane_write_of l {oid} w" if "w \<in> set ws" using contract(1) that c(2) by blast
qed

lemma plan_accept_navigation_commit:
  assumes "plan_accept_navigation c l oid task start target opts observed prep p s = Inr (Commit ws' nxt r evs)"
  shows "\<exists>meta st ws ev r'. accept_started l meta st ws ev p = Commit ws' nxt r' evs \<and> operation_id meta = oid \<and>
    meta_lane meta = l \<and> state_matches_intent (intent meta) st \<and> (\<forall>w \<in> set ws. quiet w)"
proof -
  let ?meta = "\<lparr>operation_id = oid, meta_lane = l, source_tip = tip p, started_at = start,
    intent = INavigation target (summarize opts) (nav_label opts) (nav_instructions opts)\<rparr>"
  let ?scope = "running_scope (captured_settings c)"
  let ?st = "if summarize opts
    then SummaryDeciding ?scope \<lparr>task_id = task, reason = None, instructions = nav_instructions opts,
      boundary = CommitNavigation (the target) (nav_label opts)\<rparr>
    else NavigationReadyToCommit ?scope target (nav_label opts)"
  let ?ws = "if summarize opts then [SetOwned Preparation (preparation_key oid task) (the prep)] else []"
  have fits: "state_matches_intent (intent ?meta) ?st" "\<exists>r'. accept_started l ?meta ?st ?ws (NavigationStart oid target start) p
      = Commit ws' nxt r' evs"
    using assms
    by (auto simp: plan_accept_navigation_def accept_started_def Let_def split: option.splits if_splits)
  then show ?thesis by (rule_tac exI [of _ ?meta], rule_tac exI [of _ ?st], rule_tac exI [of _ ?ws],
      rule_tac exI [of _ "NavigationStart oid target start"]) auto
qed

interpretation accept_navigation:
  lane_planner l "plan_accept_navigation c l oid task start target opts observed prep" "\<lambda>_. {oid}"
proof
  fix s :: "'a store" and p ws nxt r evs w
  assume s: "stored_lane s l p"
    and plan: "plan_accept_navigation c l oid task start target opts observed prep p s = Inr (Commit ws nxt r evs)"
  obtain meta st ws0 ev r' where c: "accept_started l meta st ws0 ev p = Commit ws nxt r' evs" "operation_id meta = oid"
    "meta_lane meta = l" "state_matches_intent (intent meta) st" "\<forall>w \<in> set ws0. quiet w"
    using plan_accept_navigation_commit [OF plan] by blast
  note contract = accept_started_contract [OF c(1) s c(3-5)]
  show "stored_lane (fold apply_value ws s) l nxt" by (rule contract)
  show "lane_write_of l {oid} w" if "w \<in> set ws" using contract(1) that c(2) by blast
qed

definition own_ids :: "lane_projection \<Rightarrow> string set" where
  "own_ids p = set_option (current_id p)"

lemma with_control_matches [simp]: "state_matches_intent i (with_control k st) = state_matches_intent i st"
  by (cases i; cases st) auto

interpretation request_abort: lane_planner l "plan_request_abort l oid now" own_ids
  by unfold_locales
    (auto simp: plan_request_abort_def own_ids_def Let_def result_simps stored_simps split: option.splits if_splits)

interpretation enqueue: lane_planner l "plan_enqueue l kind i m" own_ids
  by unfold_locales
    (auto simp: plan_enqueue_def Let_def result_simps stored_simps split: option.splits)

interpretation cancel_queued: lane_planner l "plan_cancel_queued l i" own_ids
  by unfold_locales
    (auto simp: plan_cancel_queued_def Let_def result_simps stored_simps split: option.splits if_splits)

interpretation record_usage: lane_planner l "plan_record_usage l u" own_ids
  by unfold_locales (auto simp: plan_record_usage_def stored_simps split: option.splits)

interpretation set_configuration: lane_planner l "plan_set_configuration l upd ev" own_ids
  by unfold_locales (auto simp: plan_set_configuration_def Let_def stored_simps split: option.splits)

lemma plan_append_commit:
  assumes "plan_append l i v p s = Inr (Commit ws nxt r evs)"
  shows "\<exists>ws0 items. (\<forall>w \<in> set ws0. quiet w) \<and>
    (if operation p = None then ws = ws0 @ [SetTip l (Some i), SetLaneState l (durable_lane_state None items (last_done p))] \<and>
       nxt = p\<lparr>tip := Some i, inbox := items\<rparr>
     else ws = ws0 @ [SetLaneState l (durable_lane_state (current_id p) items (last_done p))] \<and> nxt = p\<lparr>inbox := items\<rparr>)"
proof (cases "operation p")
  case None
  let ?queued = "filter (\<lambda>x. item_kind x = WriteItem) (inbox p)"
  let ?items = "filter (\<lambda>x. item_entry x \<notin> item_entry ` set ?queued) (inbox p)"
  let ?ws = "\<lambda>captured. map InsertEntry (chain_entries (tip p) (captured @ [pending_entry_write i v])) @
    map (\<lambda>x. DeletePending (item_entry x)) ?queued"
  obtain captured where ws: "ws = ?ws captured @ [SetTip l (Some i), SetLaneState l (durable_lane_state None ?items (last_done p))]"
      "nxt = p\<lparr>tip := Some i, inbox := ?items\<rparr>"
    using assms None by (auto simp: plan_append_def Let_def result_simps)
  show ?thesis using None ws by (rule_tac exI [of _ "?ws captured"], rule_tac exI [of _ ?items]) auto
next
  case (Some oper)
  then show ?thesis using assms
    by (auto simp: plan_append_def Let_def result_simps current_id_def intro!: exI [of _ "[SetPending i v]"])
qed

interpretation append: lane_planner l "plan_append l i v" own_ids
proof
  fix s :: "'a store" and p ws nxt r evs w
  assume s: "stored_lane s l p" and plan: "plan_append l i v p s = Inr (Commit ws nxt r evs)"
  note c = plan_append_commit [OF plan]
  show "lane_write_of l (own_ids p) w" if "w \<in> set ws" using c that by (auto split: if_splits)
  show "stored_lane (fold apply_value ws s) l nxt"
    using c s by (cases "operation p") (auto simp: stored_simps)
qed

section \<open>Planners of an operation\<close>

text \<open>
  What the planner of an operation step may write: the branch tip, values restoring does not read, and, when
  it finishes the operation, the removal of its own meta data and state.
\<close>

fun op_write :: "string \<Rightarrow> 'n lane_write \<Rightarrow> bool" where
  "op_write l (SetTip k _) = (k = l)"
| "op_write l w = quiet w"

fun finish_write :: "string \<Rightarrow> string \<Rightarrow> 'n lane_write \<Rightarrow> bool" where
  "finish_write l i (DeleteMeta j) = (j = i)"
| "finish_write l i (DeleteOpState j) = (j = i)"
| "finish_write l i w = op_write l w"

lemma op_write_frame:
  "\<forall>w \<in> set ws. op_write l w \<Longrightarrow> configs (fold apply_value ws s) = configs s \<and>
    lane_states (fold apply_value ws s) = lane_states s \<and> op_metas (fold apply_value ws s) = op_metas s \<and>
    op_states (fold apply_value ws s) = op_states s"
proof (induction ws arbitrary: s)
  case (Cons w ws)
  then show ?case using Cons.IH [of "apply_value w s"] by (cases w) auto
qed simp

lemma finish_write_frame:
  "\<forall>w \<in> set ws. finish_write l i w \<Longrightarrow> configs (fold apply_value ws s) = configs s \<and>
    lane_states (fold apply_value ws s) = lane_states s"
proof (induction ws arbitrary: s)
  case (Cons w ws)
  then show ?case using Cons.IH [of "apply_value w s"] by (cases w) auto
qed simp

lemma op_write_of_lane: "op_write l w \<Longrightarrow> lane_write_of l ids w"
  by (cases w) auto

lemma finish_write_of_lane: "finish_write l i w \<Longrightarrow> i \<in> ids \<Longrightarrow> lane_write_of l ids w"
  by (cases w) auto

text \<open>A step that also changes the lane's configuration writes that too.\<close>

fun step_write :: "string \<Rightarrow> 'n lane_write \<Rightarrow> bool" where
  "step_write l (SetTip k _) = (k = l)"
| "step_write l (SetConfig k _) = (k = l)"
| "step_write l w = quiet w"

lemma step_write_frame:
  "\<forall>w \<in> set ws. step_write l w \<Longrightarrow> lane_states (fold apply_value ws s) = lane_states s \<and>
    op_metas (fold apply_value ws s) = op_metas s \<and> op_states (fold apply_value ws s) = op_states s"
proof (induction ws arbitrary: s)
  case (Cons w ws)
  then show ?case using Cons.IH [of "apply_value w s"] by (cases w) auto
qed simp

lemma step_write_of_lane: "step_write l w \<Longrightarrow> lane_write_of l ids w"
  by (cases w) auto

lemma op_write_step: "op_write l w \<Longrightarrow> step_write l w"
  by (cases w) auto

locale op_planner =
  fixes l :: string
    and plan :: "('n::{zero,plus}, 'r) op_planner"
  assumes op_commit: "plan p st meta s = Inr (OpCommit ws st' q r evs) \<Longrightarrow> own_get (tips s) l = Some (tip p) \<Longrightarrow>
      own_get (configs s) l = Some (configuration p) \<Longrightarrow> state_matches_intent (intent meta) st \<Longrightarrow>
      (\<forall>w \<in> set ws. step_write l w) \<and> own_get (tips (fold apply_value ws s)) l = Some (tip (patched p q)) \<and>
      own_get (configs (fold apply_value ws s)) l = Some (configuration (patched p q)) \<and>
      state_matches_intent (intent meta) st'"
    and op_finish: "plan p st meta s = Inr (OpFinish ws rec q r evs) \<Longrightarrow> own_get (tips s) l = Some (tip p) \<Longrightarrow>
      state_matches_intent (intent meta) st \<Longrightarrow>
      (\<forall>w \<in> set ws. finish_write l (operation_id meta) w) \<and>
      own_get (tips (fold apply_value ws s)) l = Some (tip (patched p q)) \<and> patch_config q = None"
begin

lemma settled_stored:
  assumes s: "stored_lane s l p" and plan: "settle_operation l plan p s = Inr (Commit ws nxt r evs)"
  shows "(\<forall>w \<in> set ws. lane_write_of l (own_ids p) w) \<and> stored_lane (fold apply_value ws s) l nxt"
proof -
  obtain oper d where oper: "operation p = Some oper" and d: "plan p (op_state oper) (op_meta oper) s = Inr d"
    using plan by (auto simp: settle_operation_def result_simps split: option.splits)
  let ?i = "operation_id (op_meta oper)"
  have st: "own_get (tips s) l = Some (tip p)" "own_get (configs s) l = Some (configuration p)"
    "own_get (lane_states s) l = Some (durable_lane_state (Some ?i) (inbox p) (last_done p))" "op_stored s l oper"
    using s oper by (simp_all add: stored_lane_def current_id_def)
  have m: "state_matches_intent (intent (op_meta oper)) (op_state oper)" using st(4) by (simp add: op_stored_def)
  have own: "?i \<in> own_ids p" using oper by (simp add: own_ids_def current_id_def)
  show ?thesis
  proof (cases d)
    case (OpCommit ws0 st' q r0 evs0)
    note c = op_commit [OF d [unfolded OpCommit] st(1,2) m]
    have ws: "ws = ws0 @ SetOpState ?i st' # (case patch_inbox q of None \<Rightarrow> []
        | Some items \<Rightarrow> [SetLaneState l (durable_lane_state (Some ?i) items (last_done p))])"
      "nxt = (patched p q)\<lparr>operation := Some \<lparr>op_meta = op_meta oper, op_state = st'\<rparr>\<rparr>"
      using plan oper d OpCommit by (simp_all add: settle_operation_def Let_def)
    have "lane_write_of l (own_ids p) w" if "w \<in> set ws" for w
      using that c own step_write_of_lane [of l w "own_ids p"] by (auto simp: ws(1) split: option.splits)
    moreover have "stored_lane (fold apply_value ws s) l nxt"
      using c st step_write_frame [of ws0 l s]
      by (cases "patch_inbox q") (auto simp: ws stored_simps patched_def)
    ultimately show ?thesis by blast
  next
    case (OpFinish ws0 rec q r0 evs0)
    note c = op_finish [OF d [unfolded OpFinish] st(1) m]
    define items where "items = (case patch_inbox q of None \<Rightarrow> inbox p | Some items \<Rightarrow> items)"
    have ws: "ws = ws0 @ [SetResult ?i rec, SetLaneState l (durable_lane_state None items (Some ?i))]"
      "nxt = (patched p q)\<lparr>inbox := items, last_done := Some ?i, operation := None\<rparr>"
      using plan oper d OpFinish by (simp_all add: settle_operation_def Let_def items_def)
    have "lane_write_of l (own_ids p) w" if "w \<in> set ws" for w
      using that c own finish_write_of_lane [of l ?i w "own_ids p"] by (auto simp: ws(1))
    moreover have "stored_lane (fold apply_value ws s) l nxt"
      using c st finish_write_frame [of ws0 l ?i s] by (auto simp: ws stored_simps patched_def)
    ultimately show ?thesis by blast
  next
    case (OpReturn r0)
    then show ?thesis using plan oper d by (simp add: settle_operation_def)
  qed
qed

lemma continues: "op_planner l (continue_plan plan)"
proof
  fix p st meta s ws st' q r evs
  assume c: "continue_plan plan p st meta s = Inr (OpCommit ws st' q r evs)" and t: "own_get (tips s) l = Some (tip p)"
    and k: "own_get (configs s) l = Some (configuration p)" and m: "state_matches_intent (intent meta) st"
  obtain d where d: "plan p st meta s = Inr d" "map_op_decision Continued d = OpCommit ws st' q r evs"
    using c by (auto simp: continue_plan_def result_simps split: control.splits)
  then obtain r0 where "plan p st meta s = Inr (OpCommit ws st' q r0 evs)" by (cases d) (auto simp: map_op_decision_def)
  then show "(\<forall>w \<in> set ws. step_write l w) \<and> own_get (tips (fold apply_value ws s)) l = Some (tip (patched p q)) \<and>
      own_get (configs (fold apply_value ws s)) l = Some (configuration (patched p q)) \<and>
      state_matches_intent (intent meta) st'" using t k m by (rule op_commit)
next
  fix p st meta s ws rec q r evs
  assume c: "continue_plan plan p st meta s = Inr (OpFinish ws rec q r evs)" and t: "own_get (tips s) l = Some (tip p)"
    and m: "state_matches_intent (intent meta) st"
  obtain d where d: "plan p st meta s = Inr d" "map_op_decision Continued d = OpFinish ws rec q r evs"
    using c by (auto simp: continue_plan_def result_simps split: control.splits)
  then obtain r0 where "plan p st meta s = Inr (OpFinish ws rec q r0 evs)" by (cases d) (auto simp: map_op_decision_def)
  then show "(\<forall>w \<in> set ws. finish_write l (operation_id meta) w) \<and>
      own_get (tips (fold apply_value ws s)) l = Some (tip (patched p q)) \<and> patch_config q = None"
    using t m by (rule op_finish)
qed

end

text \<open>Most steps leave the configuration alone.\<close>

locale plain_op_planner =
  fixes l :: string
    and plan :: "('n::{zero,plus}, 'r) op_planner"
  assumes plain_commit: "plan p st meta s = Inr (OpCommit ws st' q r evs) \<Longrightarrow> own_get (tips s) l = Some (tip p) \<Longrightarrow>
      state_matches_intent (intent meta) st \<Longrightarrow>
      (\<forall>w \<in> set ws. op_write l w) \<and> own_get (tips (fold apply_value ws s)) l = Some (tip (patched p q)) \<and>
      patch_config q = None \<and> state_matches_intent (intent meta) st'"
    and plain_finish: "plan p st meta s = Inr (OpFinish ws rec q r evs) \<Longrightarrow> own_get (tips s) l = Some (tip p) \<Longrightarrow>
      state_matches_intent (intent meta) st \<Longrightarrow>
      (\<forall>w \<in> set ws. finish_write l (operation_id meta) w) \<and>
      own_get (tips (fold apply_value ws s)) l = Some (tip (patched p q)) \<and> patch_config q = None"

sublocale plain_op_planner \<subseteq> op_planner
proof
  fix p st meta s ws st' q r evs
  assume "plan p st meta s = Inr (OpCommit ws st' q r evs)" and "own_get (tips s) l = Some (tip p)"
    and k: "own_get (configs s) l = Some (configuration p)" and "state_matches_intent (intent meta) st"
  note c = plain_commit [OF this(1,2,4)]
  have "configuration (patched p q) = configuration p" using c by (simp add: patched_def)
  then show "(\<forall>w \<in> set ws. step_write l w) \<and> own_get (tips (fold apply_value ws s)) l = Some (tip (patched p q)) \<and>
      own_get (configs (fold apply_value ws s)) l = Some (configuration (patched p q)) \<and>
      state_matches_intent (intent meta) st'"
    using c k op_write_frame [of ws l s] op_write_step by auto
qed (rule plain_finish)

sublocale op_planner \<subseteq> settle: lane_planner l "settle_operation l plan" own_ids
  by unfold_locales (use settled_stored in blast)+

end
