(* ===== verification/DriveSteps.thy ===== *)
theory DriveSteps
  imports LaneSync
begin

text \<open>
  Steps of an operation, \<open>packages/agent/src/harness/runtime/drive\<close>: the start of a run and its checkpoints
  (\<open>checkpoint.ts\<close>), the boundary where queued input is taken in and a run may finish (\<open>boundary.ts\<close>), the
  terminal transaction (\<open>terminal.ts\<close>), its aborted form (\<open>reconcile.ts\<close>) and the commit of a navigation
  (\<open>structural.ts\<close>). What hooks and the preparation of a compaction return is an argument. A planner given a
  leaf that its capability excludes is a fault here; the types of the code exclude that.
\<close>

section \<open>The terminal transaction\<close>

definition owned_prefix :: "string \<Rightarrow> string" where
  "owned_prefix oid = oid @ '':''"

text \<open>The keys \<open>scanValues\<close> finds in one of the namespaces of operation-owned values.\<close>

definition owned_keys :: "'n store \<Rightarrow> owned_space \<Rightarrow> string \<Rightarrow> string list" where
  "owned_keys s sp oid =
     map snd (filter (\<lambda>k. fst k = sp \<and> take (length (owned_prefix oid)) (snd k) = owned_prefix oid) (map fst (owned_values s)))"

fun outcome_ids :: "operation_state \<Rightarrow> string list" where
  "outcome_ids (Tools _ b) = remdups (map result_entry
     (filter (\<lambda>c. case call_status c of OutcomeReady _ \<Rightarrow> True | _ \<Rightarrow> False) (calls b)))"
| "outcome_ids _ = []"

fun frame_list :: "operation_state \<Rightarrow> string option" where
  "frame_list (AssistantEffectPending _ _ _ i _ _ _) = Some i"
| "frame_list (DeferredEffectPending _ _ i _) = Some i"
| "frame_list _ = None"

definition operation_cleanup_writes :: "'n store \<Rightarrow> string \<Rightarrow> operation_state \<Rightarrow> 'n lane_write list" where
  "operation_cleanup_writes s oid st =
     DeleteMeta oid # DeleteOpState oid #
     map (DeleteOwned ToolArgs) (owned_keys s ToolArgs oid) @
     map (DeleteOwned ToolMemo) (owned_keys s ToolMemo oid) @
     map (DeleteOwned Preparation) (owned_keys s Preparation oid) @
     map (DeleteOwned ToolOutput) (owned_keys s ToolOutput oid) @
     (case frame_list st of None \<Rightarrow> [] | Some i \<Rightarrow> [DeleteOwned AssistantFrames (owned_prefix oid @ i)]) @
     map DeletePending (outcome_ids st)"

definition operation_result_record ::
    "operation_meta \<Rightarrow> terminal_status \<Rightarrow> string option \<Rightarrow> operation_error option \<Rightarrow> int \<Rightarrow> lane_fault + operation_result" where
  "operation_result_record meta status t err ended =
    (if (status = Failed) \<noteq> (err \<noteq> None) then Inl (Invariant ''Only a failed operation result may carry an error'')
     else Inr \<lparr>res_operation = operation_id meta, res_kind = intent_kind (intent meta), res_status = status,
       res_error = err, res_from = source_tip meta, res_tip = t, res_started = started_at meta, res_ended = ended\<rparr>)"

section \<open>The boundary of a run\<close>

definition default_max_retry_delay :: nat where
  "default_max_retry_delay = 60000"

definition normalized_retry_policy :: "'n runtime_config \<Rightarrow> retry_policy" where
  "normalized_retry_policy c = \<lparr>max_attempts = (if retry_enabled c then retry_max c + 1 else 1),
     base_delay = retry_base c,
     max_agent_delay = (case retry_max_delay c of None \<Rightarrow> default_max_retry_delay | Some d \<Rightarrow> d)\<rparr>"

definition assistant_ready_at_boundary ::
    "'n runtime_config \<Rightarrow> string \<Rightarrow> lane_projection \<Rightarrow> operation_scope \<Rightarrow> string \<Rightarrow> bool \<Rightarrow> operation_state" where
  "assistant_ready_at_boundary c step p scope trigger used = AssistantReady scope
     \<lparr>step_id = step, gen_trigger = trigger, gen_configuration = configuration p, gen_stream = cfg_stream c,
       gen_retry = normalized_retry_policy c, overflow_used = used\<rparr> 1"

record 'n placement =
  pl_entries :: "'n new_entry list"
  pl_writes :: "'n lane_write list"
  pl_tip :: "string option"
  pl_inbox :: "inbox_item list"
  pl_trigger :: "string option"
  pl_queues :: "queued_item list option"

definition boundary_pending :: "'n store \<Rightarrow> inbox_item \<Rightarrow> lane_fault + pending_entry" where
  "boundary_pending s item = (case own_get (pendings s) (item_entry item) of
     None \<Rightarrow> Inl (MissingPayload (item_entry item))
   | Some (PendingCustom t v) \<Rightarrow> if item_kind item \<noteq> WriteItem then Inl (NotMessage (item_entry item))
       else Inr (PendingCustom t v)
   | Some v \<Rightarrow> Inr v)"

fun projects :: "'n runtime_config \<Rightarrow> pending_entry \<Rightarrow> bool" where
  "projects c (PendingMessage _) = True"
| "projects c (PendingCustom t _) = cfg_projects c t"

definition take_mode :: "queue_mode \<Rightarrow> 'a list \<Rightarrow> 'a list" where
  "take_mode m xs = (case m of QAll \<Rightarrow> xs | QOne \<Rightarrow> take 1 xs)"

text \<open>Items are taken with their position in the inbox, by which the selection is put in order.\<close>

definition select_steering :: "operation_scope \<Rightarrow> inbox_item list \<Rightarrow> (nat \<times> inbox_item) list" where
  "select_steering scope items =
    (let steer = take_mode (steering_mode (settings scope)) (filter (\<lambda>x. item_kind x = Steer) items) in
     filter (\<lambda>(i, x). item_kind x = WriteItem \<or> item_entry x \<in> item_entry ` set steer) (enumerate 0 items))"

definition select_follow_ups :: "operation_scope \<Rightarrow> inbox_item list \<Rightarrow> (nat \<times> inbox_item) list" where
  "select_follow_ups scope items =
     take_mode (follow_up_mode (settings scope)) (filter (\<lambda>(i, x). item_kind x = FollowUp) (enumerate 0 items))"

definition select_boundary ::
    "'n runtime_config \<Rightarrow> operation_scope \<Rightarrow> 'n store \<Rightarrow> bool \<Rightarrow> inbox_item list \<Rightarrow> lane_fault + inbox_item list" where
  "select_boundary c scope s follow items =
    (let sel = select_steering scope items in
     rbind (rmap (\<lambda>(i, x). boundary_pending s x) sel) (\<lambda>vs.
       if follow \<and> \<not> (\<exists>v \<in> set vs. projects c v)
       then Inr (map snd (sort_key fst (sel @ select_follow_ups scope items)))
       else Inr (map snd sel)))"

definition plan_boundary_inbox ::
    "'n runtime_config \<Rightarrow> string \<Rightarrow> lane_projection \<Rightarrow> operation_scope \<Rightarrow> 'n store \<Rightarrow> string option \<Rightarrow> bool \<Rightarrow>
      lane_fault + 'n placement" where
  "plan_boundary_inbox c l p scope s t follow =
     rbind (select_boundary c scope s follow (inbox p)) (\<lambda>sel.
     rbind (rmap (boundary_pending s) sel) (\<lambda>vs.
     let pairs = zip sel vs;
         new = chain_entries t (map (\<lambda>(x, v). pending_entry_write (item_entry x) v) pairs);
         top = (if new = [] then t else Some (eid (last new)));
         rest = filter (\<lambda>x. item_entry x \<notin> item_entry ` set sel) (inbox p) in
     rbind (if sel = [] then Inr None else map_sum id Some (read_lane_queues s rest)) (\<lambda>qs.
     Inr \<lparr>pl_entries = new,
       pl_writes = map InsertEntry new @ map (\<lambda>x. DeletePending (item_entry x)) sel @ (if new = [] then [] else [SetTip l top]),
       pl_tip = top, pl_inbox = rest,
       pl_trigger = map_option (\<lambda>(x, v). item_entry x) (find (\<lambda>(x, v). projects c v) (rev pairs)),
       pl_queues = qs\<rparr>)))"

definition boundary_events :: "'n placement \<Rightarrow> 'n commit_info \<Rightarrow> nat \<Rightarrow> string \<Rightarrow> string \<Rightarrow> 'n harness_event list" where
  "boundary_events pl info first l run = committed_entry_events (pl_entries pl) info l (Some run) first @
     (case pl_queues pl of None \<Rightarrow> [] | Some q \<Rightarrow> [lane_event l (QueueUpdate q)])"

definition tip_inbox_patch :: "string option \<Rightarrow> inbox_item list \<Rightarrow> lane_patch" where
  "tip_inbox_patch t items = no_patch\<lparr>patch_tip := Some t, patch_inbox := Some items\<rparr>"

definition placement_patch :: "'n placement \<Rightarrow> lane_patch" where
  "placement_patch pl = tip_inbox_patch (pl_tip pl) (pl_inbox pl)"

section \<open>The steps of a run\<close>

datatype procedure_result =
    Continue
  | Settled operation_result
  | FinishPending "string list"

text \<open>The second command of \<open>startRun\<close>: the messages of the \<open>before_run\<close> hook, with their reserved ids.\<close>

definition plan_start_run :: "string \<Rightarrow> (string \<times> agent_message) list \<Rightarrow> ('n, procedure_result) op_planner" where
  "plan_start_run l reserved p st meta s = (case st of
     Starting scope \<Rightarrow>
       (let new = chain_entries (tip p) (map (\<lambda>(i, m). message_entry i m) reserved);
            trigger = (if new = [] then tip p else Some (eid (last new))) in
        case trigger of
          None \<Rightarrow> Inl (Invariant ''Run start has no trigger entry'')
        | Some t \<Rightarrow> Inr (OpCommit
            (map InsertEntry new @ (if new = [] then [] else [SetTip l (Some t)]))
            (Checkpoint scope \<lparr>continuation = NeedAssistant False, trigger_entry = t\<rparr>)
            (no_patch\<lparr>patch_tip := Some (Some t)\<rparr>) Continue
            (\<lambda>info. committed_entry_events new info l (Some (operation_id meta)) 0)))
   | _ \<Rightarrow> Inl (Invariant ''capability''))"

text \<open>The command of \<open>runCheckpoint\<close>; \<open>threshold\<close> is the task of a compaction that has become due.\<close>

definition plan_checkpoint ::
    "'n runtime_config \<Rightarrow> string \<Rightarrow> string \<Rightarrow> (string \<times> json) option \<Rightarrow> ('n, procedure_result) op_planner" where
  "plan_checkpoint c l step threshold p st meta s = (case st of
     Checkpoint scope d \<Rightarrow>
       rbind (plan_boundary_inbox c l p scope s (tip p)
           (threshold = None \<and> (\<exists>b. continuation d = MayFinish b))) (\<lambda>pl.
       let oid = operation_id meta;
           evs = (\<lambda>info. boundary_events pl info 0 l oid) in
       case pl_trigger pl of
         Some trigger \<Rightarrow> Inr (OpCommit (pl_writes pl) (assistant_ready_at_boundary c step p scope trigger False)
             (placement_patch pl) Continue evs)
       | None \<Rightarrow> (case threshold of
           Some (task, prep) \<Rightarrow> Inr (OpCommit
               (pl_writes pl @ [SetOwned Preparation (preparation_key oid task) prep])
               (SummaryDeciding scope \<lparr>task_id = task, reason = Some Threshold, instructions = None,
                  boundary = ResumeCheckpoint d\<rparr>)
               (placement_patch pl) Continue
               (\<lambda>info. evs info @ [lane_event l (CompactionStart oid Threshold (info_timestamp info))]))
         | None \<Rightarrow> (case continuation d of
             NeedAssistant used \<Rightarrow> Inr (OpCommit (pl_writes pl)
                 (assistant_ready_at_boundary c step p scope (trigger_entry d) used) (placement_patch pl) Continue evs)
           | MayFinish _ \<Rightarrow> Inr (OpReturn (FinishPending (map eid (pl_entries pl)))))))
   | _ \<Rightarrow> Inl (Invariant ''capability''))"

text \<open>The leaves at which a run may finish: its checkpoints, and summaries made on its behalf.\<close>

definition finish_leaf :: "operation_state \<Rightarrow> bool" where
  "finish_leaf st = (case st of
     Checkpoint _ _ \<Rightarrow> True
   | SummaryRetryWait _ _ _ _ \<Rightarrow> False
   | _ \<Rightarrow> (case summary_task_of st of None \<Rightarrow> False | Some t \<Rightarrow> is_resume (boundary t)))"

text \<open>
  The command of \<open>finishRunBoundary\<close>: \<open>planned\<close> are the entries placed when the \<open>before_run_end\<close> hook ran,
  \<open>follow\<close> is the message it returned, with its id.
\<close>

definition plan_finish_run ::
    "'n runtime_config \<Rightarrow> string \<Rightarrow> string \<Rightarrow> bool \<Rightarrow> string list \<Rightarrow> (string \<times> agent_message) option \<Rightarrow>
      (string \<Rightarrow> 'n harness_event list) \<Rightarrow> int \<Rightarrow> ('n, procedure_result) op_planner" where
  "plan_finish_run c l step include_final planned follow pending now p st meta s =
    (if \<not> finish_leaf st then Inl (Invariant ''capability'')
     else (let scope = operation_scope_of st; oid = operation_id meta in
       rbind (plan_boundary_inbox c l p scope s (tip p) True) (\<lambda>pl.
       let evs = (\<lambda>info. pending oid @ boundary_events pl info 0 l oid) in
       case pl_trigger pl of
         Some trigger \<Rightarrow> Inr (OpCommit (pl_writes pl) (assistant_ready_at_boundary c step p scope trigger False)
             (placement_patch pl) Continue evs)
       | None \<Rightarrow>
         (case (if map eid (pl_entries pl) = planned then follow else None) of
            Some (i, m) \<Rightarrow>
              (let e = \<lparr>eid = i, parent_id = pl_tip pl, custom_type = None, body = Message m False\<rparr> in
               Inr (OpCommit (pl_writes pl @ [InsertEntry e, SetTip l (Some i)])
                 (assistant_ready_at_boundary c step p scope i False) (tip_inbox_patch (Some i) (pl_inbox pl)) Continue
                 (\<lambda>info. evs info @ entry_lifecycle_events
                    (materialize e (info_seqs info ! length (pl_writes pl)) (info_timestamp info)) l (Some oid))))
          | None \<Rightarrow>
              if pl_tip pl = None then Inl (Invariant ''Completed run has no tip'')
              else if include_final \<and> latest_assistant scope = None
              then Inl (Invariant ''Completed run is missing its final assistant'')
              else rbind (operation_result_record meta Completed (pl_tip pl) None now) (\<lambda>rec.
                Inr (OpFinish (pl_writes pl @ operation_cleanup_writes s oid st) rec (placement_patch pl) (Settled rec)
                  (\<lambda>info. evs info @ [lane_event l (RunEnd oid (source_tip meta) (pl_tip pl) now RunCompleted)])))))))"

section \<open>Cancellation and navigation\<close>

text \<open>The events an aborted operation ends with.\<close>

definition aborted_events :: "string \<Rightarrow> operation_meta \<Rightarrow> operation_state \<Rightarrow> string option \<Rightarrow> int \<Rightarrow>
    lane_fault + 'n harness_event list" where
  "aborted_events l meta st t now = (let oid = operation_id meta in
     case intent meta of
       IRun _ \<Rightarrow> rbind (case summary_task_of st of
           None \<Rightarrow> Inr []
         | Some task \<Rightarrow> (case (is_resume (boundary task), reason task) of
             (True, Some r) \<Rightarrow> Inr [lane_event l (CompactionEnd oid r now CompAborted)]
           | _ \<Rightarrow> Inl (Invariant ''Cancelled run summary has an invalid result boundary'')))
         (\<lambda>evs. Inr (evs @ [lane_event l (RunEnd oid (source_tip meta) t now RunAborted)]))
     | ICompaction _ \<Rightarrow> Inr [lane_event l (CompactionEnd oid Manual now CompAborted)]
     | INavigation _ _ _ _ \<Rightarrow> Inr [lane_event l (NavigationEnd oid (source_tip meta) t now NavAborted)])"

definition plan_aborted_terminal :: "string \<Rightarrow> int \<Rightarrow> ('n, procedure_result) op_planner" where
  "plan_aborted_terminal l now p st meta s =
    (if control (operation_scope_of st) = Running
     then Inl (Invariant ''Cancellation reconciliation requires cancelled durable control'')
     else rbind (operation_result_record meta Aborted (tip p) None now) (\<lambda>rec.
       rbind (aborted_events l meta st (tip p) now) (\<lambda>evs.
       Inr (OpFinish (operation_cleanup_writes s (operation_id meta) st) rec no_patch (Settled rec) (\<lambda>_. evs)))))"

definition plan_commit_navigation :: "string \<Rightarrow> int \<Rightarrow> ('n, procedure_result) op_planner" where
  "plan_commit_navigation l now p st meta s = (case st of
     NavigationReadyToCommit scope target label \<Rightarrow>
       if target \<noteq> None \<and> the target \<notin> eid ` set (committed s) then Inl (Invariant ''Navigation target is missing'')
       else if target = source_tip meta then Inl (Invariant ''Navigation target must differ from its source tip'')
       else if target = None \<and> label \<noteq> None then Inl (Invariant ''Root navigation cannot set a label'')
       else rbind (operation_result_record meta Completed target None now) (\<lambda>rec.
         Inr (OpFinish
           (SetTip l target # (case (label, target) of (Some t, Some i) \<Rightarrow> [SetLabel i t] | _ \<Rightarrow> []) @
            operation_cleanup_writes s (operation_id meta) st)
           rec (no_patch\<lparr>patch_tip := Some target\<rparr>) (Settled rec)
           (\<lambda>_. [lane_event l (NavigationEnd (operation_id meta) (source_tip meta) target now NavCompleted)])))
   | _ \<Rightarrow> Inl (Invariant ''capability''))"

section \<open>The steps keep the contract of an operation's planner\<close>

lemma placement_writes:
  assumes "plan_boundary_inbox c l p scope s t follow = Inr pl"
  shows "\<forall>w \<in> set (pl_writes pl). op_write l w"
    and "own_get (tips s') l = Some t \<Longrightarrow> own_get (tips (fold apply_value (pl_writes pl) s')) l = Some (pl_tip pl)"
proof -
  obtain sel where "select_boundary c scope s follow (inbox p) = Inr sel"
    using assms by (auto simp: plan_boundary_inbox_def result_simps)
  then have ws: "pl_writes pl = map InsertEntry (pl_entries pl) @ map (\<lambda>x. DeletePending (item_entry x)) sel @
      (if pl_entries pl = [] then [] else [SetTip l (pl_tip pl)])" and tip: "pl_entries pl = [] \<longrightarrow> pl_tip pl = t"
    using assms by (auto simp: plan_boundary_inbox_def result_simps Let_def)
  show "\<forall>w \<in> set (pl_writes pl). op_write l w" by (auto simp: ws)
  show "own_get (tips s') l = Some t \<Longrightarrow> own_get (tips (fold apply_value (pl_writes pl) s')) l = Some (pl_tip pl)"
    using tip by (cases "pl_entries pl = []") (simp_all add: ws own_simps)
qed

lemma cleanup_writes:
  "\<forall>w \<in> set (operation_cleanup_writes s oid st). finish_write l oid w"
  "tips (fold apply_value (operation_cleanup_writes s oid st) s') = tips s'"
  by (auto simp: operation_cleanup_writes_def split: option.split)

lemma op_finish_write: "op_write l w \<Longrightarrow> finish_write l i w"
  by (cases w) auto

lemma patched_tip [simp]:
  "tip (patched p (placement_patch pl)) = pl_tip pl" "tip (patched p (tip_inbox_patch t items)) = t"
  "tip (patched p (no_patch\<lparr>patch_tip := Some t\<rparr>)) = t" "tip (patched p no_patch) = tip p"
  "patch_config (placement_patch pl) = None" "patch_config (tip_inbox_patch t items) = None"
  "patch_config no_patch = None"
  by (simp_all add: patched_def placement_patch_def tip_inbox_patch_def no_patch_def)

lemma run_leaves:
  "state_matches_intent i (Starting sc) \<Longrightarrow> \<exists>ids. i = IRun ids"
  "state_matches_intent i (Checkpoint sc d) \<Longrightarrow> \<exists>ids. i = IRun ids"
  "state_matches_intent i st \<Longrightarrow> finish_leaf st \<Longrightarrow> \<exists>ids. i = IRun ids"
  by (cases i; cases st; auto simp: finish_leaf_def split: result_boundary.splits)+

interpretation start_run: plain_op_planner l "plan_start_run l reserved"
  by unfold_locales
    (auto simp: plan_start_run_def Let_def own_simps dest!: run_leaves(1) split: operation_state.splits option.splits if_splits)

interpretation checkpoint: plain_op_planner l "plan_checkpoint c l step threshold"
proof
  fix p st meta s ws st' q r evs
  assume plan: "plan_checkpoint c l step threshold p st meta s = Inr (OpCommit ws st' q r evs)"
    and t: "own_get (tips s) l = Some (tip p)" and m: "state_matches_intent (intent meta) st"
  obtain scope d pl where st: "st = Checkpoint scope d"
    and pl: "plan_boundary_inbox c l p scope s (tip p) (threshold = None \<and> (\<exists>b. continuation d = MayFinish b)) = Inr pl"
    using plan by (auto simp: plan_checkpoint_def result_simps split: operation_state.splits)
  obtain ids where i: "intent meta = IRun ids" using run_leaves(2) m st by blast
  have "(ws = pl_writes pl \<or> (\<exists>k v. ws = pl_writes pl @ [SetOwned Preparation k v])) \<and> q = placement_patch pl \<and>
      state_matches_intent (intent meta) st'"
    using plan pl st i by (auto simp: plan_checkpoint_def Let_def assistant_ready_at_boundary_def split: option.splits continuation.splits)
  then show "(\<forall>w \<in> set ws. op_write l w) \<and> own_get (tips (fold apply_value ws s)) l = Some (tip (patched p q)) \<and>
      patch_config q = None \<and> state_matches_intent (intent meta) st'"
    using placement_writes [OF pl] t by auto
next
  fix p st meta s ws rec q r evs
  assume "plan_checkpoint c l step threshold p st meta s = Inr (OpFinish ws rec q r evs)"
  then have False
    by (auto simp: plan_checkpoint_def Let_def result_simps split: operation_state.splits option.splits continuation.splits)
  then show "(\<forall>w \<in> set ws. finish_write l (operation_id meta) w) \<and>
      own_get (tips (fold apply_value ws s)) l = Some (tip (patched p q)) \<and> patch_config q = None" ..
qed

interpretation finish_run: plain_op_planner l "plan_finish_run c l step include_final planned follow pending now"
proof
  fix p st meta s ws st' q r evs
  assume plan: "plan_finish_run c l step include_final planned follow pending now p st meta s = Inr (OpCommit ws st' q r evs)"
    and t: "own_get (tips s) l = Some (tip p)" and m: "state_matches_intent (intent meta) st"
  obtain pl where leaf: "finish_leaf st"
    and pl: "plan_boundary_inbox c l p (operation_scope_of st) s (tip p) True = Inr pl"
    using plan by (auto simp: plan_finish_run_def result_simps Let_def split: if_splits)
  obtain ids where i: "intent meta = IRun ids" using run_leaves(3) m leaf by blast
  have "(ws = pl_writes pl \<and> q = placement_patch pl \<or> (\<exists>e j. ws = pl_writes pl @ [InsertEntry e, SetTip l (Some j)] \<and>
      q = tip_inbox_patch (Some j) (pl_inbox pl))) \<and> state_matches_intent (intent meta) st'"
    using plan pl leaf i
    by (auto simp: plan_finish_run_def Let_def result_simps assistant_ready_at_boundary_def split: option.splits if_splits)
  then show "(\<forall>w \<in> set ws. op_write l w) \<and> own_get (tips (fold apply_value ws s)) l = Some (tip (patched p q)) \<and>
      patch_config q = None \<and> state_matches_intent (intent meta) st'"
    using placement_writes [OF pl] t by (auto simp: own_simps)
next
  fix p st meta s ws rec q r evs
  assume plan: "plan_finish_run c l step include_final planned follow pending now p st meta s = Inr (OpFinish ws rec q r evs)"
    and t: "own_get (tips s) l = Some (tip p)" and m: "state_matches_intent (intent meta) st"
  obtain pl where pl: "plan_boundary_inbox c l p (operation_scope_of st) s (tip p) True = Inr pl"
    and ws: "ws = pl_writes pl @ operation_cleanup_writes s (operation_id meta) st" "q = placement_patch pl"
    using plan by (auto simp: plan_finish_run_def Let_def result_simps split: option.splits if_splits)
  show "(\<forall>w \<in> set ws. finish_write l (operation_id meta) w) \<and>
      own_get (tips (fold apply_value ws s)) l = Some (tip (patched p q)) \<and> patch_config q = None"
    using placement_writes [OF pl] cleanup_writes(1) [of s "operation_id meta" st l] t
    by (auto simp: ws op_finish_write cleanup_writes(2))
qed

interpretation aborted_terminal: plain_op_planner l "plan_aborted_terminal l now"
  by unfold_locales (auto simp: plan_aborted_terminal_def result_simps cleanup_writes split: if_splits)

interpretation commit_navigation: plain_op_planner l "plan_commit_navigation l now"
  by unfold_locales
    (auto simp: plan_commit_navigation_def result_simps cleanup_writes own_simps
      split: operation_state.splits option.splits if_splits)

end
