(* ===== verification/DriveResponse.thy ===== *)
theory DriveResponse
  imports DriveSteps
begin

text \<open>
  The assistant steps of a run, \<open>packages/agent/src/harness/runtime/drive\<close>: a generation is announced before
  its request is sent (\<open>generation.ts\<close>), its response is classified and settled in one transaction
  (\<open>response.ts\<close>), retries wait (\<open>retry.ts\<close>), an interrupted request is settled from its committed frames
  (\<open>recovery.ts\<close>), and a deferred response is polled (\<open>deferred.ts\<close>). What a provider returns is an argument.
  The tests of error texts against the regular expressions of \<open>packages/ai\<close> are functions of the
  configuration.
\<close>

section \<open>Fields of messages\<close>

definition or_else :: "'a option \<Rightarrow> 'a \<Rightarrow> 'a" where
  "or_else v d = (case v of None \<Rightarrow> d | Some x \<Rightarrow> x)"

definition message_field :: "agent_message \<Rightarrow> string \<Rightarrow> json option" where
  "message_field m k = (case content m of JObj kvs \<Rightarrow> own_get kvs k | _ \<Rightarrow> None)"

definition set_field :: "string \<Rightarrow> json \<Rightarrow> agent_message \<Rightarrow> agent_message" where
  "set_field k v m = m\<lparr>content := (case content m of JObj kvs \<Rightarrow> JObj (own_set index_key k v kvs) | x \<Rightarrow> x)\<rparr>"

definition string_field :: "agent_message \<Rightarrow> string \<Rightarrow> string option" where
  "string_field m k = (case message_field m k of Some (JStr t) \<Rightarrow> Some t | _ \<Rightarrow> None)"

definition array_field :: "agent_message \<Rightarrow> string \<Rightarrow> json list" where
  "array_field m k = (case message_field m k of Some (JArr xs) \<Rightarrow> xs | _ \<Rightarrow> [])"

definition json_field :: "json \<Rightarrow> string \<Rightarrow> json option" where
  "json_field v k = (case v of JObj kvs \<Rightarrow> own_get kvs k | _ \<Rightarrow> None)"

definition error_message_of :: "agent_message \<Rightarrow> string option" where
  "error_message_of m = string_field m ''errorMessage''"

text \<open>The usage of a message, read at the type of counts and costs.\<close>

definition number_field :: "'n::{zero,plus} runtime_config \<Rightarrow> json \<Rightarrow> string \<Rightarrow> 'n" where
  "number_field c v k = (case json_field v k of Some (JNum q) \<Rightarrow> cfg_number c q | _ \<Rightarrow> 0)"

definition optional_number :: "'n::{zero,plus} runtime_config \<Rightarrow> json \<Rightarrow> string \<Rightarrow> 'n option" where
  "optional_number c v k = (case json_field v k of Some (JNum q) \<Rightarrow> Some (cfg_number c q) | _ \<Rightarrow> None)"

definition usage_value :: "'n::{zero,plus} runtime_config \<Rightarrow> json \<Rightarrow> 'n usage" where
  "usage_value c v = (let k = (case json_field v ''cost'' of Some x \<Rightarrow> x | None \<Rightarrow> JNull) in
     \<lparr>uinput = number_field c v ''input'', uoutput = number_field c v ''output'',
      cache_read = number_field c v ''cacheRead'', cache_write = number_field c v ''cacheWrite'',
      cache_write_1h = optional_number c v ''cacheWrite1h'', reasoning = optional_number c v ''reasoning'',
      total_tokens = number_field c v ''totalTokens'',
      cost_of = \<lparr>cinput = number_field c k ''input'', coutput = number_field c k ''output'',
        ccache_read = number_field c k ''cacheRead'', ccache_write = number_field c k ''cacheWrite'',
        ctotal = number_field c k ''total''\<rparr>\<rparr>)"

definition message_usage :: "'n::{zero,plus} runtime_config \<Rightarrow> agent_message \<Rightarrow> 'n usage" where
  "message_usage c m = usage_value c (case message_field m ''usage'' of Some v \<Rightarrow> v | None \<Rightarrow> JNull)"

definition usage_number :: "agent_message \<Rightarrow> string \<Rightarrow> rat option" where
  "usage_number m k = (case message_field m ''usage'' of
     Some v \<Rightarrow> (case json_field v k of Some (JNum q) \<Rightarrow> Some q | _ \<Rightarrow> None)
   | None \<Rightarrow> None)"

section \<open>Classifying a response\<close>

text \<open>
  \<open>isContextOverflow\<close>, \<open>isRecoverableLength\<close> and \<open>isRetryableAssistantError\<close> of \<open>packages/ai/src/utils\<close>. A
  comparison with a number that is missing is false, as it is with \<open>NaN\<close>.
\<close>

definition input_tokens :: "agent_message \<Rightarrow> rat option" where
  "input_tokens m = (case (usage_number m ''input'', usage_number m ''cacheRead'') of
     (Some a, Some b) \<Rightarrow> Some (a + b) | _ \<Rightarrow> None)"

definition error_overflow :: "'n runtime_config \<Rightarrow> agent_message \<Rightarrow> bool" where
  "error_overflow c m \<longleftrightarrow> stop m = Some SError \<and> (case error_message_of m of
     None \<Rightarrow> False
   | Some t \<Rightarrow> t \<noteq> [] \<and> \<not> non_overflow_text c t \<and> overflow_text c t)"

definition is_context_overflow :: "'n runtime_config \<Rightarrow> agent_message \<Rightarrow> nat \<Rightarrow> bool" where
  "is_context_overflow c m window \<longleftrightarrow> error_overflow c m \<or>
     (window \<noteq> 0 \<and> stop m = Some SStop \<and> (case input_tokens m of None \<Rightarrow> False | Some n \<Rightarrow> n > of_nat window)) \<or>
     (window \<noteq> 0 \<and> stop m = Some SLength \<and> usage_number m ''output'' = Some 0 \<and>
       (case input_tokens m of None \<Rightarrow> False | Some n \<Rightarrow> n \<ge> of_nat window * 99 / 100))"

definition is_recoverable_length :: "agent_message \<Rightarrow> nat \<Rightarrow> bool" where
  "is_recoverable_length m limit \<longleftrightarrow> stop m = Some SLength \<and> 0 < limit \<and>
     (case usage_number m ''output'' of None \<Rightarrow> False | Some n \<Rightarrow> n < of_nat limit)"

definition is_retryable_error :: "'n runtime_config \<Rightarrow> agent_message \<Rightarrow> bool" where
  "is_retryable_error c m \<longleftrightarrow> stop m = Some SError \<and> (case error_message_of m of
     None \<Rightarrow> False
   | Some t \<Rightarrow> t \<noteq> [] \<and> \<not> limit_text c t \<and> retryable_text c t)"

section \<open>Waiting before a retry\<close>

definition max_safe_integer :: nat where
  "max_safe_integer = 9007199254740991"

definition retry_delay_ms :: "retry_policy \<Rightarrow> nat \<Rightarrow> nat" where
  "retry_delay_ms r n = (let delay = base_delay r * 2 ^ (n - 1) in
     min (if delay \<le> max_safe_integer then delay else max_safe_integer) (max_agent_delay r))"

definition retry_not_before :: "retry_policy \<Rightarrow> nat \<Rightarrow> int \<Rightarrow> int" where
  "retry_not_before r n now = (let t = now + int (retry_delay_ms r n) in
     if \<bar>t\<bar> \<le> int max_safe_integer then t else int max_safe_integer)"

section \<open>Announcing a generation\<close>

definition configuration_error :: "string \<Rightarrow> json \<Rightarrow> operation_error" where
  "configuration_error code details = \<lparr>error_code = code,
     error_message = (if code = ''model_unavailable'' then ''The configured model is unavailable in this process''
       else ''One or more configured tools are unavailable in this process''),
     error_details = Some details\<rparr>"

definition model_identity :: "lane_configuration \<Rightarrow> json" where
  "model_identity k = JObj [(''provider'', JStr (provider k)), (''modelId'', JStr (model_id k))]"

text \<open>The checks of \<open>prepareGeneration\<close>; the result is the model's output limit and context window.\<close>

definition prepare_generation :: "'n runtime_config \<Rightarrow> generation_context \<Rightarrow> operation_error + nat \<times> nat" where
  "prepare_generation c g = (let k = gen_configuration g in
     case cfg_model c (provider k) (model_id k) of
       None \<Rightarrow> Inl (configuration_error ''model_unavailable'' (model_identity k))
     | Some m \<Rightarrow>
         let missing = filter (\<lambda>t. \<not> cfg_tool c t) (active_tools k) in
         if missing \<noteq> []
         then Inl (configuration_error ''configured_tools_unavailable'' (JObj [(''tools'', JArr (map JStr missing))]))
         else Inr m)"

definition plan_generation_intent ::
    "string \<Rightarrow> string \<Rightarrow> string \<Rightarrow> nat \<times> nat \<Rightarrow> ('n, unit) op_planner" where
  "plan_generation_intent l r u limits p st meta s = (case st of
     AssistantReady scope g n \<Rightarrow> Inr (OpCommit []
       (AssistantEffectPending scope g n r u (fst limits) (snd limits)) no_patch ()
       (\<lambda>_. if n = 1 then [lane_event l (TurnStart (operation_id meta) (step_id g))] else []))
   | _ \<Rightarrow> Inl (Invariant ''capability''))"

definition plan_retry_ready :: "string \<Rightarrow> ('n, procedure_result) op_planner" where
  "plan_retry_ready l p st meta s = (case st of
     AssistantRetryWait scope g w \<Rightarrow> Inr (OpCommit [] (AssistantReady scope g (next_attempt w)) no_patch Continue
       (\<lambda>_. [lane_event l (RetryStart (operation_id meta) (step_id g) (next_attempt w))]))
   | _ \<Rightarrow> Inl (Invariant ''capability''))"

text \<open>The leaves at which a request may turn out not to be configured.\<close>

fun request_leaf :: "operation_state \<Rightarrow> bool" where
  "request_leaf (AssistantReady _ _ _) = True"
| "request_leaf (AssistantRetryWait _ _ _) = True"
| "request_leaf (DeferredSuspended _ _) = True"
| "request_leaf (DeferredEffectPending _ _ _ _) = True"
| "request_leaf _ = False"

definition run_failed_event :: "string \<Rightarrow> operation_meta \<Rightarrow> string option \<Rightarrow> int \<Rightarrow> operation_error \<Rightarrow> 'n harness_event" where
  "run_failed_event l meta t now err = lane_event l (RunEnd (operation_id meta) (source_tip meta) t now (RunFailed err))"

definition plan_configuration_failure :: "string \<Rightarrow> operation_error \<Rightarrow> int \<Rightarrow> ('n, procedure_result) op_planner" where
  "plan_configuration_failure l err now p st meta s =
    (if \<not> request_leaf st then Inl (Invariant ''capability'')
     else if tip p = None then Inl (Invariant ''Failed run has no Branch tip'')
     else rbind (operation_result_record meta Failed (tip p) (Some err) now) (\<lambda>rec.
       Inr (OpFinish (operation_cleanup_writes s (operation_id meta) st) rec no_patch (Settled rec)
         (\<lambda>_. [run_failed_event l meta (tip p) now err]))))"

section \<open>Settling a response\<close>

datatype response_source = FromAssistant | FromDeferred

fun source_text :: "response_source \<Rightarrow> string" where
  "source_text FromAssistant = ''Assistant''"
| "source_text FromDeferred = ''Deferred''"

fun stop_text :: "stop_reason \<Rightarrow> string" where
  "stop_text SPending = ''pending''"
| "stop_text SStop = ''stop''"
| "stop_text SLength = ''length''"
| "stop_text SToolUse = ''toolUse''"
| "stop_text SError = ''error''"
| "stop_text SAborted = ''aborted''"
| "stop_text SDeferred = ''deferred''"

definition ended_with :: "agent_message \<Rightarrow> string" where
  "ended_with m = '' request ended with '' @ (case stop m of Some r \<Rightarrow> stop_text r | None \<Rightarrow> ''undefined'')"

definition provider_error :: "response_source \<Rightarrow> agent_message \<Rightarrow> operation_error" where
  "provider_error src m = \<lparr>error_code = ''assistant_error'',
     error_message = (case error_message_of m of Some t \<Rightarrow> t | None \<Rightarrow> source_text src @ ended_with m),
     error_details = None\<rparr>"

definition normalize_error :: "agent_message \<Rightarrow> string \<Rightarrow> agent_message" where
  "normalize_error m t = set_field ''errorMessage'' (JStr t) (m\<lparr>stop := Some SError\<rparr>)"

definition normalize_aborted :: "response_source \<Rightarrow> agent_message \<Rightarrow> agent_message" where
  "normalize_aborted src m = set_field ''errorMessage''
     (JStr (case error_message_of m of Some t \<Rightarrow> t | None \<Rightarrow> source_text src @ '' request was cancelled''))
     (m\<lparr>stop := Some SAborted\<rparr>)"

definition handle_matches :: "agent_message \<Rightarrow> lane_configuration \<Rightarrow> bool" where
  "handle_matches m k = (case message_field m ''deferred'' of
     None \<Rightarrow> False
   | Some v \<Rightarrow> (\<exists>i. json_field v ''id'' = Some (JStr i) \<and> i \<noteq> []) \<and>
       json_field v ''provider'' = Some (JStr (provider k)) \<and> json_field v ''modelId'' = Some (JStr (model_id k)) \<and>
       json_field v ''api'' = message_field m ''api'')"

definition deferred_handle_is_valid :: "agent_message \<Rightarrow> generation_context \<Rightarrow> bool" where
  "deferred_handle_is_valid m g \<longleftrightarrow> stop m = Some SDeferred \<and> handle_matches m (gen_configuration g)"

definition is_tool_call :: "json \<Rightarrow> bool" where
  "is_tool_call v \<longleftrightarrow> json_field v ''type'' = Some (JStr ''toolCall'')"

text \<open>The calls of a response, planned in the order of its content.\<close>

definition tool_indices :: "agent_message \<Rightarrow> nat list" where
  "tool_indices m = map fst (filter (\<lambda>(i, v). is_tool_call v) (enumerate 0 (array_field m ''content'')))"

definition planned_calls :: "agent_message \<Rightarrow> (nat \<Rightarrow> string) \<Rightarrow> tool_call list" where
  "planned_calls m ids = map (\<lambda>(k, i). \<lparr>source_index = i, result_entry = ids k, call_status = Planned\<rparr>)
     (enumerate 0 (tool_indices m))"

text \<open>\<open>uuidV7Timestamp\<close> fails when \<open>parseInt\<close> finds no hexadecimal digit; twelve digits are a safe integer.\<close>

definition is_hex :: "char \<Rightarrow> bool" where
  "is_hex ch \<longleftrightarrow> ch \<in> set ''0123456789abcdefABCDEF''"

definition uuid_timestamp_ok :: "string \<Rightarrow> bool" where
  "uuid_timestamp_ok i = (case take 8 i @ take 4 (drop 9 i) of [] \<Rightarrow> False | ch # _ \<Rightarrow> is_hex ch)"

fun response_leaf :: "operation_state \<Rightarrow> bool" where
  "response_leaf (AssistantEffectPending _ _ _ _ _ _ _) = True"
| "response_leaf (DeferredEffectPending _ _ _ _) = True"
| "response_leaf _ = False"

fun response_source_of :: "operation_state \<Rightarrow> response_source" where
  "response_source_of (AssistantEffectPending _ _ _ _ _ _ _) = FromAssistant"
| "response_source_of _ = FromDeferred"

fun response_ids :: "operation_state \<Rightarrow> string \<times> string" where
  "response_ids (AssistantEffectPending _ _ _ r u _ _) = (r, u)"
| "response_ids (DeferredEffectPending _ _ r u) = (r, u)"
| "response_ids _ = ([], [])"

definition poll_turn :: "deferred_scope \<Rightarrow> string" where
  "poll_turn d = def_step d @ '':poll:'' @ show_nat (poll d)"

fun response_turn :: "operation_state \<Rightarrow> string" where
  "response_turn (AssistantEffectPending _ g _ _ _ _ _) = step_id g"
| "response_turn (DeferredEffectPending _ d _ _) = poll_turn d"
| "response_turn _ = []"

fun response_configuration :: "operation_state \<Rightarrow> lane_configuration option" where
  "response_configuration (AssistantEffectPending _ g _ _ _ _ _) = Some (gen_configuration g)"
| "response_configuration (DeferredEffectPending _ d _ _) = Some (def_configuration d)"
| "response_configuration _ = None"

fun response_overflow :: "'n runtime_config \<Rightarrow> agent_message \<Rightarrow> operation_state \<Rightarrow> bool" where
  "response_overflow c m (AssistantEffectPending _ _ _ _ _ limit window) =
     (is_context_overflow c m window \<or> is_recoverable_length m limit)"
| "response_overflow c m _ = False"

datatype disposition = NextState operation_state | FailRun operation_error

definition may_finish :: "operation_scope \<Rightarrow> string \<Rightarrow> operation_state" where
  "may_finish scope r = Checkpoint scope \<lparr>continuation = MayFinish True, trigger_entry = r\<rparr>"

text \<open>The overflow branch: compact once, then try again, or fail the run.\<close>

definition settle_overflow ::
    "operation_scope \<Rightarrow> generation_context \<Rightarrow> agent_message \<Rightarrow> string option \<Rightarrow> agent_message \<times> disposition" where
  "settle_overflow scope g m task =
    (let m' = normalize_error m (case error_message_of m of Some t \<Rightarrow> t
           | None \<Rightarrow> ''Assistant request exceeded the context window'') in
     case task of
       Some t \<Rightarrow> if overflow_used g then (m', FailRun (provider_error FromAssistant m'))
         else (m', NextState (SummaryDeciding scope \<lparr>task_id = t, reason = Some Overflow, instructions = None,
           boundary = ResumeCheckpoint \<lparr>continuation = NeedAssistant True, trigger_entry = gen_trigger g\<rparr>\<rparr>))
     | None \<Rightarrow> (m', FailRun (provider_error FromAssistant m')))"

definition settle_deferred ::
    "operation_scope \<Rightarrow> string \<Rightarrow> operation_state \<Rightarrow> agent_message \<Rightarrow> agent_message \<times> disposition" where
  "settle_deferred scope r st m = (case st of
     AssistantEffectPending _ g _ _ _ _ _ \<Rightarrow>
       if deferred_handle_is_valid m g
       then (m, NextState (DeferredSuspended scope \<lparr>def_step = step_id g, def_source = r, poll = 0,
         def_configuration = gen_configuration g, def_stream = gen_stream g\<rparr>))
       else (let m' = normalize_error m ''Provider returned an invalid deferred handle'' in
         (m', FailRun (provider_error FromAssistant m')))
   | DeferredEffectPending _ d _ _ \<Rightarrow> (m, NextState (DeferredSuspended scope (d\<lparr>def_source := r\<rparr>)))
   | _ \<Rightarrow> (m, FailRun (provider_error FromDeferred m)))"

definition settle_error ::
    "'n runtime_config \<Rightarrow> bool \<Rightarrow> int \<Rightarrow> operation_scope \<Rightarrow> operation_state \<Rightarrow> agent_message \<Rightarrow> disposition" where
  "settle_error c recovery now scope st m = (case st of
     AssistantEffectPending _ g n _ _ _ _ \<Rightarrow>
       if (recovery \<or> is_retryable_error c m) \<and> n < max_attempts (gen_retry g)
       then NextState (AssistantRetryWait scope g \<lparr>next_attempt = n + 1,
         not_before = retry_not_before (gen_retry g) n now,
         wait_error = (case error_message_of m of Some t \<Rightarrow> t | None \<Rightarrow> ''Assistant request failed'')\<rparr>)
       else FailRun (provider_error FromAssistant m)
   | _ \<Rightarrow> FailRun (provider_error FromDeferred m))"

definition settle_calls ::
    "operation_scope \<Rightarrow> string \<Rightarrow> operation_state \<Rightarrow> (nat \<Rightarrow> string) \<Rightarrow> agent_message \<Rightarrow> lane_fault + agent_message \<times> disposition" where
  "settle_calls scope r st ids m =
    (if tool_indices m \<noteq> [] then
       (if \<not> uuid_timestamp_ok r then Inl (Invariant ''Invalid reserved UUIDv7'')
        else case response_configuration st of
          None \<Rightarrow> Inl (Invariant ''capability'')
        | Some k \<Rightarrow> Inr (m, NextState (Tools scope \<lparr>assistant_entry = r, batch_configuration = k,
            turn_id = response_turn st, calls = planned_calls m ids\<rparr>)))
     else if stop m = Some SToolUse then
       (let m' = normalize_error m ''Provider reported tool use without any tool calls'' in
        Inr (m', FailRun (provider_error (response_source_of st) m')))
     else Inr (m, NextState (may_finish scope r)))"

definition settle_response ::
    "'n runtime_config \<Rightarrow> bool \<Rightarrow> agent_message \<Rightarrow> string option \<Rightarrow> (nat \<Rightarrow> string) \<Rightarrow> int \<Rightarrow> operation_state \<Rightarrow>
      lane_fault + agent_message \<times> disposition" where
  "settle_response c recovery m task ids now st =
    (let r = fst (response_ids st);
         scope = (operation_scope_of st)\<lparr>latest_assistant := Some r\<rparr> in
     if control (operation_scope_of st) \<noteq> Running
     then Inr (normalize_aborted (response_source_of st) m, NextState (may_finish scope r))
     else if stop m = Some SAborted
     then Inl (Invariant ''response is aborted while durable control is running'')
     else case st of
       AssistantEffectPending _ g _ _ _ _ _ \<Rightarrow>
         if response_overflow c m st then Inr (settle_overflow scope g m task)
         else if stop m = Some SDeferred then Inr (settle_deferred scope r st m)
         else if stop m = Some SError then Inr (m, settle_error c recovery now scope st m)
         else settle_calls scope r st ids m
     | _ \<Rightarrow>
         if stop m = Some SDeferred then Inr (settle_deferred scope r st m)
         else if stop m = Some SError then Inr (m, settle_error c recovery now scope st m)
         else settle_calls scope r st ids m)"

section \<open>Publishing a response\<close>

fun next_state :: "disposition \<Rightarrow> operation_state option" where
  "next_state (NextState st) = Some st"
| "next_state (FailRun _) = None"

fun is_retry_wait :: "operation_state option \<Rightarrow> bool" where
  "is_retry_wait (Some (AssistantRetryWait _ _ _)) = True"
| "is_retry_wait _ = False"

fun is_tools :: "operation_state option \<Rightarrow> bool" where
  "is_tools (Some (Tools _ _)) = True"
| "is_tools _ = False"

definition response_entry :: "string \<Rightarrow> string option \<Rightarrow> agent_message \<Rightarrow> 'n new_entry" where
  "response_entry r t m = \<lparr>eid = r, parent_id = t, custom_type = None, body = Message m False\<rparr>"

definition usage_row_of :: "string \<Rightarrow> 'n usage \<Rightarrow> string option \<Rightarrow> 'n new_usage" where
  "usage_row_of u v e = \<lparr>uid = u, row_usage = v, uentry = e, adjustment = False, udetails = None\<rparr>"

definition usage_event :: "string \<Rightarrow> 'n new_usage \<Rightarrow> nat \<Rightarrow> 'n commit_info \<Rightarrow> 'n harness_event" where
  "usage_event l row i info =
     lane_event l (UsageEvent (new_usage.extend row (usage_row.fields (info_seqs info ! i))) (info_usage info))"

definition retry_events ::
    "string \<Rightarrow> string \<Rightarrow> string \<Rightarrow> generation_context \<Rightarrow> nat \<Rightarrow> agent_message \<Rightarrow> operation_state option \<Rightarrow> 'n harness_event list" where
  "retry_events l oid turn g n m nxt =
    (if 1 < n \<and> \<not> is_retry_wait nxt then
       (let ok = stop m \<noteq> Some SError \<and> stop m \<noteq> Some SAborted in
        [lane_event l (RetryEnd oid turn n ok (if ok then None
           else Some (case error_message_of m of Some t \<Rightarrow> t | None \<Rightarrow> ''Assistant'' @ ended_with m)))])
     else []) @
    (case nxt of
       Some (AssistantRetryWait _ g' w) \<Rightarrow> [lane_event l (RetryScheduled oid turn (next_attempt w)
         (max_attempts (gen_retry g')) (retry_delay_ms (gen_retry g) n) (not_before w) (wait_error w))]
     | _ \<Rightarrow> [])"

definition response_events ::
    "string \<Rightarrow> bool \<Rightarrow> operation_state \<Rightarrow> operation_meta \<Rightarrow> int \<Rightarrow> 'n new_entry \<Rightarrow> 'n new_usage \<Rightarrow> agent_message \<Rightarrow>
      disposition \<Rightarrow> 'n commit_info \<Rightarrow> 'n harness_event list" where
  "response_events l recovery st meta now e row m d info =
    (let oid = operation_id meta; turn = response_turn st; nxt = next_state d;
         turn_end = lane_event l (TurnEnd oid turn m []) in
     [lane_event l (EntryAdded (materialize e (info_seqs info ! 0) (info_timestamp info))), usage_event l row 1 info] @
     (case st of
        AssistantEffectPending _ g n _ _ _ _ \<Rightarrow>
          (if recovery then [] else retry_events l oid turn g n m nxt) @
          (if \<not> recovery \<and> \<not> is_tools nxt \<and> \<not> is_retry_wait nxt then [turn_end] else []) @
          (case nxt of
             Some (SummaryDeciding _ _) \<Rightarrow> [lane_event l (CompactionStart oid Overflow (info_timestamp info))]
           | _ \<Rightarrow> [])
      | _ \<Rightarrow> if is_tools nxt then [] else [turn_end]) @
     (case (nxt, message_field m ''deferred'') of
        (Some (DeferredSuspended _ ds), Some handle) \<Rightarrow>
          if response_source_of st = FromDeferred \<or> \<not> recovery
          then [lane_event l (RunSuspend oid handle (poll ds))] else []
      | _ \<Rightarrow> []) @
     (case d of FailRun err \<Rightarrow> [run_failed_event l meta (Some (eid e)) now err] | NextState _ \<Rightarrow> []))"

text \<open>
  The command of \<open>publishResponse\<close>: \<open>prep\<close> is the prepared overflow compaction with its task id, \<open>ids\<close> are the
  reserved ids of tool results.
\<close>

definition plan_publish_response ::
    "'n::{zero,plus} runtime_config \<Rightarrow> string \<Rightarrow> bool \<Rightarrow> agent_message \<Rightarrow> (string \<times> json) option \<Rightarrow> (nat \<Rightarrow> string) \<Rightarrow> int \<Rightarrow>
      ('n, procedure_result) op_planner" where
  "plan_publish_response c l recovery m prep ids now p st meta s =
    (if \<not> response_leaf st then Inl (Invariant ''capability'')
     else rbind (settle_response c recovery m (map_option fst prep) ids now st) (\<lambda>(m', d).
       let r = fst (response_ids st);
           e = response_entry r (tip p) m';
           row = usage_row_of (snd (response_ids st)) (message_usage c m') (Some r);
           ws = [InsertEntry e, InsertUsage row, SetTip l (Some r)];
           patch = no_patch\<lparr>patch_tip := Some (Some r)\<rparr>;
           evs = response_events l recovery st meta now e row m' d in
       case d of
         FailRun err \<Rightarrow> rbind (operation_result_record meta Failed (Some r) (Some err) now) (\<lambda>rec.
           Inr (OpFinish (ws @ operation_cleanup_writes s (operation_id meta) st) rec patch (Settled rec) evs))
       | NextState nxt \<Rightarrow> Inr (OpCommit
           (ws @ [DeleteOwned AssistantFrames (owned_prefix (operation_id meta) @ r)] @
            (case (nxt, prep) of
               (SummaryDeciding _ _, Some (task, v)) \<Rightarrow> [SetOwned Preparation (preparation_key (operation_id meta) task) v]
             | _ \<Rightarrow> []))
           nxt patch Continue evs)))"

section \<open>Recovering an interrupted request\<close>

text \<open>The frames a running request has committed, and the writer of one more.\<close>

definition frames_key :: "string \<Rightarrow> string \<Rightarrow> string" where
  "frames_key oid r = owned_prefix oid @ r"

definition read_assistant_frames :: "'n store \<Rightarrow> string \<Rightarrow> string \<Rightarrow> json list" where
  "read_assistant_frames s oid r = list_value (own_get (owned_values s) (AssistantFrames, frames_key oid r))"

definition plan_frame_progress :: "string \<Rightarrow> string \<Rightarrow> json \<Rightarrow> ('n, unit) planner" where
  "plan_frame_progress oid r frame p s = (case operation p of
     None \<Rightarrow> Inr (Return ())
   | Some oper \<Rightarrow> if response_leaf (op_state oper) \<and> fst (response_ids (op_state oper)) = r
       then Inr (Commit [AppendOwned AssistantFrames (frames_key oid r) frame] p () (\<lambda>_. []))
       else Inr (Return ()))"

definition interruption_warning :: string where
  "interruption_warning = ''Assistant request was interrupted. The preceding content is the latest committed partial; newer live output may be missing and the external outcome is unknown.''"

definition zero_usage :: json where
  "zero_usage = JObj [(''input'', JNum 0), (''output'', JNum 0), (''cacheRead'', JNum 0), (''cacheWrite'', JNum 0),
     (''totalTokens'', JNum 0), (''cost'', JObj [(''input'', JNum 0), (''output'', JNum 0), (''cacheRead'', JNum 0),
       (''cacheWrite'', JNum 0), (''total'', JNum 0)])]"

definition interrupted_message :: "lane_configuration \<Rightarrow> agent_message option \<Rightarrow> int \<Rightarrow> agent_message" where
  "interrupted_message k partial now = (case partial of
     None \<Rightarrow> \<lparr>role = ''assistant'', stop = Some SError, content = JObj
       [(''content'', JArr []), (''api'', JStr ''unknown''), (''provider'', JStr (provider k)), (''model'', JStr (model_id k)),
        (''usage'', zero_usage), (''errorMessage'', JStr interruption_warning), (''timestamp'', JNum (of_int now))]\<rparr>
   | Some m \<Rightarrow> set_field ''errorMessage'' (JStr interruption_warning) (set_field ''usage'' zero_usage (m\<lparr>stop := Some SError\<rparr>)))"

definition before_events :: "'n harness_event list \<Rightarrow> ('n, 'r) op_decision \<Rightarrow> ('n, 'r) op_decision" where
  "before_events first d = (case d of
     OpCommit ws st q r evs \<Rightarrow> OpCommit ws st q r (\<lambda>info. first @ evs info)
   | OpFinish ws rec q r evs \<Rightarrow> OpFinish ws rec q r (\<lambda>info. first @ evs info)
   | OpReturn r \<Rightarrow> OpReturn r)"

text \<open>
  \<open>recoverAssistantGeneration\<close> and \<open>recoverCancelledAssistantEffect\<close>: the frames are read, and the message they
  make is announced and published as the response. Nothing else writes to the operation between the two commands.
\<close>

definition plan_recover_response ::
    "'n::{zero,plus} runtime_config \<Rightarrow> string \<Rightarrow> (string \<times> json) option \<Rightarrow> (nat \<Rightarrow> string) \<Rightarrow> int \<Rightarrow> ('n, procedure_result) op_planner" where
  "plan_recover_response c l prep ids now p st meta s = (case response_configuration st of
     None \<Rightarrow> Inl (Invariant ''capability'')
   | Some k \<Rightarrow>
       let oid = operation_id meta; r = fst (response_ids st);
           m = interrupted_message k (reduce_frames c (read_assistant_frames s oid r)) now in
       rbind (plan_publish_response c l True m prep ids now p st meta s) (\<lambda>d. Inr (before_events
         [lane_event l (MessageStart (Some oid) m), lane_event l (MessageEnd (Some oid) m (Some r))] d)))"

section \<open>Polling a deferred response\<close>

fun deferred_scope_of :: "operation_state \<Rightarrow> deferred_scope option" where
  "deferred_scope_of (DeferredSuspended _ d) = Some d"
| "deferred_scope_of (DeferredEffectPending _ d _ _) = Some d"
| "deferred_scope_of _ = None"

definition read_deferred_source_handle :: "'n store \<Rightarrow> deferred_scope \<Rightarrow> lane_fault + json" where
  "read_deferred_source_handle s d = (case find (\<lambda>e. eid e = def_source d) (committed s) of
     None \<Rightarrow> Inl (Invariant ''Deferred source is missing its assistant handle'')
   | Some e \<Rightarrow> (case body e of
       Message m _ \<Rightarrow>
         (case message_field m ''deferred'' of
            None \<Rightarrow> Inl (Invariant ''Deferred source is missing its assistant handle'')
          | Some v \<Rightarrow>
              if role m \<noteq> ''assistant'' \<or> stop m \<noteq> Some SDeferred
              then Inl (Invariant ''Deferred source is missing its assistant handle'')
              else if handle_matches m (def_configuration d) then Inr v
              else Inl (Invariant ''Deferred source has an invalid handle''))
     | _ \<Rightarrow> Inl (Invariant ''Deferred source is missing its assistant handle'')))"

definition plan_read_source_handle :: "('n, json) op_planner" where
  "plan_read_source_handle p st meta s = (case deferred_scope_of st of
     None \<Rightarrow> Inl (Invariant ''capability'')
   | Some d \<Rightarrow> rbind (read_deferred_source_handle s d) (\<lambda>v. Inr (OpReturn v)))"

definition plan_poll_intent :: "string \<Rightarrow> string \<Rightarrow> string \<Rightarrow> ('n, unit) op_planner" where
  "plan_poll_intent l r u p st meta s =
    (let announce = (\<lambda>d. \<lambda>_. [lane_event l (RunResume (operation_id meta)), lane_event l (TurnStart (operation_id meta) (poll_turn d))]) in
     case st of
       DeferredSuspended scope d \<Rightarrow> (let d' = d\<lparr>poll := poll d + 1\<rparr> in
         Inr (OpCommit [] (DeferredEffectPending scope d' r u) no_patch () (announce d')))
     | DeferredEffectPending scope d r' u' \<Rightarrow>
         Inr (OpCommit [DeleteOwned AssistantFrames (frames_key (operation_id meta) r')]
           (DeferredEffectPending scope d r u) no_patch () (announce d))
     | _ \<Rightarrow> Inl (Invariant ''capability''))"

section \<open>The steps keep the contract of an operation's planner\<close>

fun owned_write :: "'n lane_write \<Rightarrow> bool" where
  "owned_write (SetOwned _ _ _) = True"
| "owned_write (DeleteOwned _ _) = True"
| "owned_write (AppendOwned _ _ _) = True"
| "owned_write _ = False"

lemma owned_write_quiet [simp]: "owned_write w \<Longrightarrow> quiet w" "owned_write w \<Longrightarrow> op_write l w" "owned_write w \<Longrightarrow> finish_write l i w"
  by (cases w; simp)+

text \<open>Commands that only write values owned by an operation leave the lane as it is.\<close>

lemma owned_planner:
  assumes "\<And>p s ws nxt r evs. plan p s = Inr (Commit ws nxt r evs) \<Longrightarrow> nxt = p \<and> list_all owned_write ws"
  shows "lane_planner l plan own_ids"
proof
  fix s p ws nxt r evs w
  assume s: "stored_lane s l p" and "plan p s = Inr (Commit ws nxt r evs)"
  note c = assms [OF this(2)]
  have quiet: "\<forall>w \<in> set ws. quiet w" using c by (simp add: list_all_iff)
  then show "lane_write_of l (own_ids p) w" if "w \<in> set ws" using that by simp
  show "stored_lane (fold apply_value ws s) l nxt"
    using s c quiet by (simp add: stored_lane_def op_stored_def split: option.splits)
qed

interpretation frame_progress: lane_planner l "plan_frame_progress oid r frame" own_ids
  by (rule owned_planner) (auto simp: plan_frame_progress_def split: option.splits if_splits)

lemma run_leaf_intents:
  "state_matches_intent i st \<Longrightarrow> request_leaf st \<or> response_leaf st \<Longrightarrow> \<exists>ids. i = IRun ids"
  by (cases i; cases st; simp)

interpretation generation_intent: plain_op_planner l "plan_generation_intent l r u limits"
  by unfold_locales
    (auto simp: plan_generation_intent_def dest!: run_leaf_intents split: operation_state.splits)

interpretation retry_ready: plain_op_planner l "plan_retry_ready l"
  by unfold_locales (auto simp: plan_retry_ready_def dest!: run_leaf_intents split: operation_state.splits)

interpretation configuration_failure: plain_op_planner l "plan_configuration_failure l err now"
  by unfold_locales (auto simp: plan_configuration_failure_def result_simps cleanup_writes split: if_splits)

interpretation poll_intent: plain_op_planner l "plan_poll_intent l r u"
  by unfold_locales (auto simp: plan_poll_intent_def Let_def dest!: run_leaf_intents split: operation_state.splits)

interpretation source_handle: plain_op_planner l plan_read_source_handle
  by unfold_locales (auto simp: plan_read_source_handle_def result_simps split: option.splits)

lemma settle_response_run:
  assumes "settle_response c recovery m task ids now st = Inr (m', NextState nxt)" and "response_leaf st"
  shows "state_matches_intent (IRun js) nxt"
proof -
  have calls: "settle_calls scope r st ids m = Inr (m', NextState nxt) \<Longrightarrow> state_matches_intent (IRun js) nxt" for scope r
    by (auto simp: settle_calls_def may_finish_def Let_def split: if_splits option.splits)
  have err: "settle_error c recovery now scope st m = NextState nxt \<Longrightarrow> state_matches_intent (IRun js) nxt" for scope
    by (auto simp: settle_error_def split: operation_state.splits if_splits)
  have def: "settle_deferred scope r st m = (m', NextState nxt) \<Longrightarrow> state_matches_intent (IRun js) nxt" for scope r
    by (auto simp: settle_deferred_def Let_def split: operation_state.splits if_splits)
  have over: "settle_overflow scope g m task = (m', NextState nxt) \<Longrightarrow> state_matches_intent (IRun js) nxt" for scope g
    by (auto simp: settle_overflow_def Let_def split: option.splits if_splits)
  show ?thesis using assms calls err def over
    by (cases st) (auto simp: settle_response_def may_finish_def Let_def split: if_splits)
qed

text \<open>The three writes every settled response begins with.\<close>

definition settle_writes ::
    "'n::{zero,plus} runtime_config \<Rightarrow> string \<Rightarrow> lane_projection \<Rightarrow> operation_state \<Rightarrow> agent_message \<Rightarrow> 'n lane_write list" where
  "settle_writes c l p st m = (let r = fst (response_ids st) in
     [InsertEntry (response_entry r (tip p) m),
      InsertUsage (usage_row_of (snd (response_ids st)) (message_usage c m) (Some r)), SetTip l (Some r)])"

lemma published_commit:
  assumes "plan_publish_response c l recovery m prep ids now p st meta s = Inr (OpCommit ws st' q x evs)"
  shows "response_leaf st \<and> q = no_patch\<lparr>patch_tip := Some (Some (fst (response_ids st)))\<rparr> \<and>
    (\<exists>m' ws'. settle_response c recovery m (map_option fst prep) ids now st = Inr (m', NextState st') \<and>
      ws = settle_writes c l p st m' @ ws' \<and> list_all owned_write ws')"
proof -
  have leaf: "response_leaf st" using assms by (auto simp: plan_publish_response_def split: if_splits)
  obtain m' d where set: "settle_response c recovery m (map_option fst prep) ids now st = Inr (m', d)"
    using assms leaf by (auto simp: plan_publish_response_def result_simps)
  show ?thesis
  proof (cases d)
    case (NextState nxt)
    let ?extra = "\<lambda>nxt. case (nxt, prep) of
        (SummaryDeciding _ _, Some (task, v)) \<Rightarrow> [SetOwned Preparation (preparation_key (operation_id meta) task) v] | _ \<Rightarrow> []"
    have "st' = nxt" "q = no_patch\<lparr>patch_tip := Some (Some (fst (response_ids st)))\<rparr>"
      "ws = settle_writes c l p st m' @ DeleteOwned AssistantFrames (owned_prefix (operation_id meta) @ fst (response_ids st)) # ?extra nxt"
      using assms leaf set NextState by (auto simp: plan_publish_response_def settle_writes_def Let_def)
    moreover have "list_all owned_write (?extra nxt)" by (simp split: operation_state.split option.split)
    ultimately show ?thesis using leaf set NextState by simp
  next
    case (FailRun err)
    then show ?thesis using assms leaf set by (auto simp: plan_publish_response_def Let_def result_simps)
  qed
qed

lemma published_finish:
  assumes "plan_publish_response c l recovery m prep ids now p st meta s = Inr (OpFinish ws rec q x evs)"
  shows "response_leaf st \<and> q = no_patch\<lparr>patch_tip := Some (Some (fst (response_ids st)))\<rparr> \<and>
    (\<exists>m'. ws = settle_writes c l p st m' @ operation_cleanup_writes s (operation_id meta) st)"
proof -
  have leaf: "response_leaf st" using assms by (auto simp: plan_publish_response_def split: if_splits)
  obtain m' d where set: "settle_response c recovery m (map_option fst prep) ids now st = Inr (m', d)"
    using assms leaf by (auto simp: plan_publish_response_def result_simps)
  show ?thesis using assms leaf set
    by (cases d) (auto simp: plan_publish_response_def settle_writes_def Let_def result_simps)
qed

interpretation publish_response: plain_op_planner l "plan_publish_response c l recovery m prep ids now"
proof
  fix p st meta s ws st' q x evs
  assume plan: "plan_publish_response c l recovery m prep ids now p st meta s = Inr (OpCommit ws st' q x evs)"
    and m: "state_matches_intent (intent meta) st"
  obtain m' ws' where leaf: "response_leaf st" and q: "q = no_patch\<lparr>patch_tip := Some (Some (fst (response_ids st)))\<rparr>"
    and set: "settle_response c recovery m (map_option fst prep) ids now st = Inr (m', NextState st')"
    and ws: "ws = settle_writes c l p st m' @ ws'" "list_all owned_write ws'"
    using published_commit [OF plan] by blast
  obtain js where i: "intent meta = IRun js" using run_leaf_intents [OF m] leaf by blast
  have q': "\<forall>w \<in> set ws'. quiet w" using ws(2) by (auto simp: list_all_iff)
  have "tip (patched p q) = Some (fst (response_ids st))" "patch_config q = None" by (simp_all add: q no_patch_def patched_def)
  moreover have "own_get (tips (fold apply_value ws s)) l = Some (Some (fst (response_ids st)))"
    by (simp add: ws(1) settle_writes_def Let_def q' own_simps)
  moreover have "\<forall>w \<in> set ws. op_write l w" using ws(2) by (auto simp: ws(1) settle_writes_def Let_def list_all_iff)
  ultimately show "(\<forall>w \<in> set ws. op_write l w) \<and> own_get (tips (fold apply_value ws s)) l = Some (tip (patched p q)) \<and>
      patch_config q = None \<and> state_matches_intent (intent meta) st'"
    using settle_response_run [OF set leaf, of js] i by (simp del: state_matches_intent.simps)
next
  fix p st meta s ws rec q x evs
  assume plan: "plan_publish_response c l recovery m prep ids now p st meta s = Inr (OpFinish ws rec q x evs)"
  then obtain m' where ws: "ws = settle_writes c l p st m' @ operation_cleanup_writes s (operation_id meta) st"
    and q: "q = no_patch\<lparr>patch_tip := Some (Some (fst (response_ids st)))\<rparr>" using published_finish by blast
  have "tip (patched p q) = Some (fst (response_ids st))" "patch_config q = None" by (simp_all add: q no_patch_def patched_def)
  then show "(\<forall>w \<in> set ws. finish_write l (operation_id meta) w) \<and>
      own_get (tips (fold apply_value ws s)) l = Some (tip (patched p q)) \<and> patch_config q = None"
    using cleanup_writes(1) [of s "operation_id meta" st l]
    by (auto simp: ws settle_writes_def Let_def own_simps cleanup_writes(2))
qed

text \<open>Events do not matter to the contract.\<close>

lemma before_events_cases:
  "before_events first d = OpCommit ws st q r evs \<Longrightarrow> \<exists>evs'. d = OpCommit ws st q r evs'"
  "before_events first d = OpFinish ws rec q r evs \<Longrightarrow> \<exists>evs'. d = OpFinish ws rec q r evs'"
  by (cases d; simp add: before_events_def)+

lemma recovered_commit:
  "plan_recover_response c l prep ids now p st meta s = Inr (OpCommit ws st' q x evs) \<Longrightarrow>
    \<exists>m evs'. plan_publish_response c l True m prep ids now p st meta s = Inr (OpCommit ws st' q x evs')"
  "plan_recover_response c l prep ids now p st meta s = Inr (OpFinish ws rec q x evs) \<Longrightarrow>
    \<exists>m evs'. plan_publish_response c l True m prep ids now p st meta s = Inr (OpFinish ws rec q x evs')"
  by (auto simp: plan_recover_response_def result_simps Let_def dest!: before_events_cases split: option.splits)

interpretation recover_response: plain_op_planner l "plan_recover_response c l prep ids now"
proof
  fix p st meta s ws st' q x evs
  assume "plan_recover_response c l prep ids now p st meta s = Inr (OpCommit ws st' q x evs)"
  then obtain m evs' where "plan_publish_response c l True m prep ids now p st meta s = Inr (OpCommit ws st' q x evs')"
    using recovered_commit(1) by blast
  moreover assume "own_get (tips s) l = Some (tip p)" and "state_matches_intent (intent meta) st"
  ultimately show "(\<forall>w \<in> set ws. op_write l w) \<and> own_get (tips (fold apply_value ws s)) l = Some (tip (patched p q)) \<and>
      patch_config q = None \<and> state_matches_intent (intent meta) st'"
    by (rule publish_response.plain_commit)
next
  fix p st meta s ws rec q x evs
  assume "plan_recover_response c l prep ids now p st meta s = Inr (OpFinish ws rec q x evs)"
  then obtain m evs' where "plan_publish_response c l True m prep ids now p st meta s = Inr (OpFinish ws rec q x evs')"
    using recovered_commit(2) by blast
  moreover assume "own_get (tips s) l = Some (tip p)" and "state_matches_intent (intent meta) st"
  ultimately show "(\<forall>w \<in> set ws. finish_write l (operation_id meta) w) \<and>
      own_get (tips (fold apply_value ws s)) l = Some (tip (patched p q)) \<and> patch_config q = None"
    by (rule publish_response.plain_finish)
qed

end
