(* ===== verification/DriveTools.thy ===== *)
theory DriveTools
  imports DriveResponse
begin

text \<open>
  The tool batch of a run, \<open>packages/agent/src/harness/runtime/drive/tools.ts\<close> and \<open>tool-placement.ts\<close>. A call
  is planned, its effect is announced before it is performed, its outcome is staged, and staged outcomes are
  placed in the transcript in the order of the calls. Tools, hooks and the order in which calls finish are the
  environment: every command is a planner of its own.
\<close>

section \<open>Calls of an assistant message\<close>

record tool_ref =
  ref_id :: string
  ref_name :: string
  ref_args :: json

definition tool_ref_of :: "json \<Rightarrow> tool_ref" where
  "tool_ref_of v = \<lparr>ref_id = (case json_field v ''id'' of Some (JStr t) \<Rightarrow> t | _ \<Rightarrow> []),
     ref_name = (case json_field v ''name'' of Some (JStr t) \<Rightarrow> t | _ \<Rightarrow> []),
     ref_args = (case json_field v ''arguments'' of Some a \<Rightarrow> a | None \<Rightarrow> JNull)\<rparr>"

type_synonym batch_source = "agent_message \<times> (nat \<times> tool_ref) list"

definition source_call :: "agent_message \<Rightarrow> tool_call \<Rightarrow> lane_fault + nat \<times> tool_ref" where
  "source_call m x = (let bs = array_field m ''content''; i = source_index x in
     if i < length bs \<and> is_tool_call (bs ! i) then Inr (i, tool_ref_of (bs ! i))
     else Inl (Invariant ''Tool call source index does not name a tool-call block''))"

definition read_batch_source :: "'n store \<Rightarrow> tool_batch \<Rightarrow> lane_fault + batch_source" where
  "read_batch_source s b = (case find (\<lambda>e. eid e = assistant_entry b) (committed s) of
     None \<Rightarrow> Inl (Invariant ''Tool batch assistant entry is invalid'')
   | Some e \<Rightarrow> (case body e of
       Message m _ \<Rightarrow> if role m \<noteq> ''assistant'' then Inl (Invariant ''Tool batch assistant entry is invalid'')
         else rbind (rmap (source_call m) (calls b)) (\<lambda>cs. Inr (m, cs))
     | _ \<Rightarrow> Inl (Invariant ''Tool batch assistant entry is invalid'')))"

definition tool_call_for :: "batch_source \<Rightarrow> tool_call \<Rightarrow> lane_fault + tool_ref" where
  "tool_call_for src x = (case map_of (snd src) (source_index x) of
     None \<Rightarrow> Inl (Invariant ''Tool call source index is invalid'') | Some t \<Rightarrow> Inr t)"

section \<open>Statuses of a batch\<close>

fun is_completed :: "tool_call \<Rightarrow> bool" where
  "is_completed x = (case call_status x of CallCompleted _ \<Rightarrow> True | _ \<Rightarrow> False)"

fun is_ready :: "tool_call \<Rightarrow> bool" where
  "is_ready x = (case call_status x of OutcomeReady _ \<Rightarrow> True | _ \<Rightarrow> False)"

fun is_planned :: "tool_call \<Rightarrow> bool" where
  "is_planned x = (call_status x = Planned)"

fun is_pending :: "tool_call \<Rightarrow> bool" where
  "is_pending x = (case call_status x of EffectPending _ \<Rightarrow> True | _ \<Rightarrow> False)"

fun terminates :: "tool_call \<Rightarrow> bool" where
  "terminates x = (case call_status x of OutcomeReady t \<Rightarrow> t | CallCompleted t \<Rightarrow> t | _ \<Rightarrow> False)"

definition same_call :: "tool_call \<Rightarrow> tool_call \<Rightarrow> bool" where
  "same_call x y \<longleftrightarrow> source_index x = source_index y \<and> result_entry x = result_entry y"

definition find_call :: "tool_batch \<Rightarrow> nat \<Rightarrow> string \<Rightarrow> tool_call option" where
  "find_call b i r = find (\<lambda>x. source_index x = i \<and> result_entry x = r) (calls b)"

definition replace_call :: "tool_call \<Rightarrow> tool_batch \<Rightarrow> tool_batch" where
  "replace_call y b = b\<lparr>calls := map (\<lambda>x. if same_call x y then y else x) (calls b)\<rparr>"

definition current_batch :: "lane_projection \<Rightarrow> tool_batch option" where
  "current_batch p = (case operation p of
     None \<Rightarrow> None
   | Some oper \<Rightarrow> (case op_state oper of Tools _ b \<Rightarrow> Some b | _ \<Rightarrow> None))"

section \<open>Keys of the values of a call\<close>

definition args_prefix :: "string \<Rightarrow> string \<Rightarrow> string" where
  "args_prefix oid turn = oid @ '':'' @ turn @ '':''"

definition args_key :: "string \<Rightarrow> string \<Rightarrow> nat \<Rightarrow> string" where
  "args_key oid turn i = args_prefix oid turn @ show_nat i"

definition memo_prefix :: "string \<Rightarrow> string \<Rightarrow> string" where
  "memo_prefix oid r = oid @ '':'' @ r @ '':''"

definition output_key :: "string \<Rightarrow> string \<Rightarrow> string" where
  "output_key oid r = oid @ '':'' @ r"

definition keys_under :: "'n store \<Rightarrow> owned_space \<Rightarrow> string \<Rightarrow> string list" where
  "keys_under s sp pre = map snd (filter (\<lambda>k. fst k = sp \<and> take (length pre) (snd k) = pre) (map fst (owned_values s)))"

section \<open>Tool results\<close>

definition optional :: "string \<Rightarrow> json option \<Rightarrow> (string \<times> json) list" where
  "optional k v = (case v of None \<Rightarrow> [] | Some x \<Rightarrow> [(k, x)])"

definition tool_result_message ::
    "tool_ref \<Rightarrow> json list \<Rightarrow> json option \<Rightarrow> json option \<Rightarrow> json list \<Rightarrow> bool \<Rightarrow> int \<Rightarrow> agent_message" where
  "tool_result_message t blocks details usage added err now = \<lparr>role = ''toolResult'', stop = None, content = JObj
     ([(''toolCallId'', JStr (ref_id t)), (''toolName'', JStr (ref_name t)), (''content'', JArr blocks)] @
      optional ''details'' details @ optional ''usage'' usage @
      optional ''addedToolNames'' (if added = [] then None else Some (JArr added)) @
      [(''isError'', JBool err), (''timestamp'', JNum (of_int now))])\<rparr>"

definition synthetic_message :: "tool_ref \<Rightarrow> json list \<Rightarrow> json option \<Rightarrow> json option \<Rightarrow> int \<Rightarrow> agent_message" where
  "synthetic_message t blocks details usage now = tool_result_message t blocks details usage [] True now"

record tool_outcome =
  out_call :: tool_ref
  out_message :: agent_message
  out_terminate :: bool

definition aborted_outcome :: "tool_ref \<Rightarrow> int \<Rightarrow> tool_outcome" where
  "aborted_outcome t now = \<lparr>out_call = t,
     out_message = synthetic_message t [text_block ''Tool execution was cancelled before completion.''] None None now,
     out_terminate = False\<rparr>"

definition interruption_marker :: string where
  "interruption_marker = ''[Tool execution was interrupted. The preceding output is the latest durable progress snapshot; newer live output may be missing, and the external outcome is unknown.]''"

definition interrupted_outcome :: "tool_ref \<Rightarrow> json option \<Rightarrow> int \<Rightarrow> tool_outcome" where
  "interrupted_outcome t checkpoint now = \<lparr>out_call = t,
     out_message = (case checkpoint of
       None \<Rightarrow> synthetic_message t [text_block interruption_marker] None None now
     | Some v \<Rightarrow> synthetic_message t
         ((case json_field v ''content'' of Some (JArr bs) \<Rightarrow> bs | _ \<Rightarrow> []) @ [text_block interruption_marker])
         (json_field v ''details'') (json_field v ''usage'') now),
     out_terminate = False\<rparr>"

definition truncated_outcome :: "tool_ref \<Rightarrow> (string \<Rightarrow> string) \<Rightarrow> int \<Rightarrow> tool_outcome" where
  "truncated_outcome t quoted now = \<lparr>out_call = t,
     out_message = synthetic_message t [text_block (''Tool call '' @ quoted (ref_name t) @ '' was not executed because the assistant response hit the output token limit, so its arguments may be truncated. Re-issue the tool call with complete arguments.'')] None None now,
     out_terminate = False\<rparr>"

text \<open>The output of an executed tool, and \<open>finalizeToolCall\<close>, \<open>createToolResultMessage\<close> of \<open>execution/tools.ts\<close>.\<close>

record tool_result =
  tr_content :: "json list"
  tr_details :: "json option"
  tr_usage :: "json option"
  tr_added :: "json list"
  tr_terminate :: bool

record tool_patch =
  tp_content :: "json list option"
  tp_details :: "json option"
  tp_error :: "bool option"
  tp_usage :: "json option"
  tp_terminate :: "bool option"

definition finalize_tool_call :: "tool_ref \<Rightarrow> tool_result \<Rightarrow> bool \<Rightarrow> tool_patch option \<Rightarrow> int \<Rightarrow> tool_outcome" where
  "finalize_tool_call t r err patch now =
    (let r' = (case patch of
           None \<Rightarrow> r
         | Some q \<Rightarrow> r\<lparr>tr_content := or_else (tp_content q) (tr_content r),
             tr_details := (case tp_details q of None \<Rightarrow> tr_details r | d \<Rightarrow> d),
             tr_usage := (case tp_usage q of None \<Rightarrow> tr_usage r | d \<Rightarrow> d),
             tr_terminate := or_else (tp_terminate q) (tr_terminate r)\<rparr>);
         err' = (case patch of None \<Rightarrow> err | Some q \<Rightarrow> or_else (tp_error q) err) in
     \<lparr>out_call = t,
      out_message = tool_result_message t (tr_content r') (tr_details r') (tr_usage r') (tr_added r') err' now,
      out_terminate = tr_terminate r'\<rparr>)"

definition tool_result_value :: "agent_message \<Rightarrow> bool \<Rightarrow> json" where
  "tool_result_value m term = JObj (optional ''content'' (message_field m ''content'') @ optional ''details'' (message_field m ''details'') @
     optional ''usage'' (message_field m ''usage'') @ optional ''addedToolNames'' (message_field m ''addedToolNames'') @
     (if term then [(''terminate'', JBool True)] else []))"

section \<open>Preparing a call\<close>

text \<open>
  \<open>prepareToolInvocation\<close>: a call is answered at once when its message was cut off, when its tool is not active
  or does not take its arguments, or when the \<open>before_tool\<close> hook blocks it; otherwise it is cleared with the
  arguments to use. \<open>prepare\<close> is the tool's own preparation and validation of arguments, \<open>hook\<close> the decision,
  whose arguments are validated again.
\<close>

datatype 'a cleared = Answered tool_outcome | Cleared 'a

record hook_decision =
  hd_args :: "json option"
  hd_block :: "(string \<times> bool) option"

definition immediate_error :: "tool_ref \<Rightarrow> string \<Rightarrow> bool \<Rightarrow> int \<Rightarrow> tool_outcome" where
  "immediate_error t text term now = \<lparr>out_call = t,
     out_message = tool_result_message t [text_block text] None None [] True now, out_terminate = term\<rparr>"

definition prepare_tool_call ::
    "(string \<Rightarrow> bool) \<Rightarrow> (string \<Rightarrow> json \<Rightarrow> string + json) \<Rightarrow> (string \<Rightarrow> string) \<Rightarrow> tool_ref \<Rightarrow> int \<Rightarrow> json cleared" where
  "prepare_tool_call active prepare quoted t now =
    (if \<not> active (ref_name t)
     then Answered (immediate_error t (''Tool '' @ quoted (ref_name t) @ '' is unavailable'') False now)
     else case prepare (ref_name t) (ref_args t) of
       Inl e \<Rightarrow> Answered (immediate_error t e False now)
     | Inr args \<Rightarrow> Cleared args)"

definition apply_before_tool ::
    "(string \<Rightarrow> json \<Rightarrow> string + json) \<Rightarrow> tool_ref \<Rightarrow> json \<Rightarrow> hook_decision option \<Rightarrow> int \<Rightarrow> json cleared" where
  "apply_before_tool validate t args d now = (case d of
     None \<Rightarrow> Cleared args
   | Some h \<Rightarrow> (case hd_block h of
       Some (why, term) \<Rightarrow> Answered (immediate_error t why term now)
     | None \<Rightarrow> (case hd_args h of
         None \<Rightarrow> Cleared args
       | Some a \<Rightarrow> (case validate (ref_name t) a of
           Inl e \<Rightarrow> Answered (immediate_error t e False now)
         | Inr a' \<Rightarrow> Cleared a'))))"

definition prepare_tool_invocation ::
    "(string \<Rightarrow> bool) \<Rightarrow> (string \<Rightarrow> json \<Rightarrow> string + json) \<Rightarrow> (string \<Rightarrow> json \<Rightarrow> string + json) \<Rightarrow> (string \<Rightarrow> string) \<Rightarrow>
      agent_message \<Rightarrow> tool_ref \<Rightarrow> hook_decision option option \<Rightarrow> int \<Rightarrow> json cleared" where
  "prepare_tool_invocation active prepare validate quoted assistant t hook now =
    (if stop assistant = Some SLength then Answered (truncated_outcome t quoted now)
     else case prepare_tool_call active prepare quoted t now of
       Answered out \<Rightarrow> Answered out
     | Cleared args \<Rightarrow> (case hook of
         None \<Rightarrow> Answered (aborted_outcome t now)
       | Some d \<Rightarrow> apply_before_tool validate t args d now))"

section \<open>Announcing, staging and replaying a call\<close>

definition with_status :: "tool_call \<Rightarrow> call_status \<Rightarrow> tool_call" where
  "with_status x k = \<lparr>source_index = source_index x, result_entry = result_entry x, call_status = k\<rparr>"

text \<open>\<open>publishToolIntent\<close>, and the removal of a checkpoint before a call is replayed.\<close>

definition plan_tool_intent ::
    "string \<Rightarrow> tool_call \<Rightarrow> tool_ref \<Rightarrow> json \<Rightarrow> bool \<Rightarrow> ('n, tool_call) op_planner" where
  "plan_tool_intent l x t args safe p st meta s = (case st of
     Tools scope b \<Rightarrow> (let y = with_status x (EffectPending safe) in
       Inr (OpCommit [SetOwned ToolArgs (args_key (operation_id meta) (turn_id b) (source_index x)) args]
         (Tools scope (replace_call y b)) no_patch y
         (\<lambda>_. [lane_event l (ToolStart (operation_id meta) (turn_id b) (ref_id t) (ref_name t) args)])))
   | _ \<Rightarrow> Inl (Invariant ''capability''))"

definition plan_clear_replay ::
    "string \<Rightarrow> string \<Rightarrow> string \<Rightarrow> tool_call \<Rightarrow> tool_ref \<Rightarrow> ('n, json) planner" where
  "plan_clear_replay l oid turn x t p s = (case own_get (owned_values s) (ToolArgs, args_key oid turn (source_index x)) of
     None \<Rightarrow> Inl (Invariant ''Tool call is missing persisted arguments'')
   | Some args \<Rightarrow> Inr (Commit [DeleteOwned ToolOutput (output_key oid (result_entry x))] p args
       (\<lambda>_. [lane_event l (ToolStart oid turn (ref_id t) (ref_name t) args)])))"

definition read_checkpoint :: "'n store \<Rightarrow> string \<Rightarrow> tool_call \<Rightarrow> json option" where
  "read_checkpoint s oid x = own_get (owned_values s) (ToolOutput, output_key oid (result_entry x))"

text \<open>\<open>publishToolOutcome\<close>: the result is staged as a pending entry; what the call owned is removed.\<close>

definition plan_tool_outcome :: "string \<Rightarrow> tool_call \<Rightarrow> tool_outcome \<Rightarrow> ('n, unit) op_planner" where
  "plan_tool_outcome l x out p st meta s = (case st of
     Tools scope b \<Rightarrow>
       (let oid = operation_id meta; t = out_call out; m = out_message out;
            term = (control scope = Running \<and> out_terminate out) in
        Inr (OpCommit
          (SetPending (result_entry x) (PendingMessage m) # DeleteOwned ToolOutput (output_key oid (result_entry x)) #
           map (DeleteOwned ToolMemo) (keys_under s ToolMemo (memo_prefix oid (result_entry x))))
          (Tools scope (replace_call (with_status x (OutcomeReady term)) b)) no_patch ()
          (\<lambda>_. (if is_planned x then [lane_event l (ToolStart oid (turn_id b) (ref_id t) (ref_name t) (ref_args t))] else []) @
            [lane_event l (ToolEnd oid (turn_id b) (ref_id t) (ref_name t) (tool_result_value m term)
               (message_field m ''isError'' = Some (JBool True)) term)])))
   | _ \<Rightarrow> Inl (Invariant ''capability''))"

section \<open>What a running tool may do\<close>

definition owns_effect :: "lane_projection \<Rightarrow> tool_call \<Rightarrow> bool" where
  "owns_effect p x = (case current_batch p of
     None \<Rightarrow> False
   | Some b \<Rightarrow> (case find_call b (source_index x) (result_entry x) of None \<Rightarrow> False | Some y \<Rightarrow> is_pending y))"

definition memo_name_ok :: "string \<Rightarrow> bool" where
  "memo_name_ok n \<longleftrightarrow> n \<noteq> [] \<and> CHR '':'' \<notin> set n"

definition plan_get_memo :: "string \<Rightarrow> tool_call \<Rightarrow> string \<Rightarrow> ('n, json option) planner" where
  "plan_get_memo oid x n p s =
    (if \<not> memo_name_ok n then Inr (Reject ''Tool invocation memo name'')
     else if \<not> owns_effect p x then Inr (Reject ''Tool invocation no longer owns its durable effect'')
     else Inr (Return (own_get (owned_values s) (ToolMemo, memo_prefix oid (result_entry x) @ n))))"

definition plan_set_memo :: "string \<Rightarrow> tool_call \<Rightarrow> string \<Rightarrow> json option \<Rightarrow> ('n, unit) planner" where
  "plan_set_memo oid x n v p s =
    (if \<not> memo_name_ok n then Inr (Reject ''Tool invocation memo name'')
     else if \<not> owns_effect p x then Inr (Reject ''Tool invocation no longer owns its durable effect'')
     else (let k = memo_prefix oid (result_entry x) @ n in
       Inr (Commit [case v of None \<Rightarrow> DeleteOwned ToolMemo k | Some j \<Rightarrow> SetOwned ToolMemo k j] p () (\<lambda>_. []))))"

text \<open>\<open>openToolProgress\<close>: a checkpoint is written while the call is running.\<close>

definition plan_tool_progress :: "string \<Rightarrow> string \<Rightarrow> tool_call \<Rightarrow> json \<Rightarrow> ('n, unit) planner" where
  "plan_tool_progress oid turn x v p s = (case current_batch p of
     None \<Rightarrow> Inr (Return ())
   | Some b \<Rightarrow>
       if turn_id b = turn \<and> (\<exists>y \<in> set (calls b). same_call y x \<and> is_pending y)
       then Inr (Commit [SetOwned ToolOutput (output_key oid (result_entry x)) v] p () (\<lambda>_. []))
       else Inr (Return ()))"

section \<open>Placing staged results\<close>

text \<open>The staged outcomes after the completed calls, up to the first call that is not done.\<close>

definition ready_calls :: "tool_call list \<Rightarrow> tool_call list" where
  "ready_calls xs = takeWhile is_ready (dropWhile is_completed xs)"

definition all_reachable :: "tool_call list \<Rightarrow> bool" where
  "all_reachable xs = (dropWhile is_ready (dropWhile is_completed xs) = [])"

definition is_tool_result :: "agent_message \<Rightarrow> bool" where
  "is_tool_result m \<longleftrightarrow> role m = ''toolResult''"

definition staged_result :: "'n store \<Rightarrow> batch_source \<Rightarrow> tool_call \<Rightarrow> lane_fault + tool_call \<times> agent_message" where
  "staged_result s src x = (case own_get (pendings s) (result_entry x) of
     Some (PendingMessage m) \<Rightarrow>
       if \<not> is_tool_result m then Inl (Invariant ''Tool call is missing its staged result'')
       else rbind (tool_call_for src x) (\<lambda>t.
         if string_field m ''toolCallId'' \<noteq> Some (ref_id t) \<or> string_field m ''toolName'' \<noteq> Some (ref_name t)
         then Inl (Invariant ''Tool call has a mismatched staged result'') else Inr (x, m))
   | _ \<Rightarrow> Inl (Invariant ''Tool call is missing its staged result''))"

definition entry_result :: "'n store \<Rightarrow> string \<Rightarrow> agent_message option" where
  "entry_result s i = (case find (\<lambda>e. eid e = i) (committed s) of
     None \<Rightarrow> None
   | Some e \<Rightarrow> (case body e of Message m _ \<Rightarrow> if is_tool_result m then Some m else None | _ \<Rightarrow> None))"

definition turn_result :: "'n store \<Rightarrow> (tool_call \<times> agent_message) list \<Rightarrow> tool_call \<Rightarrow> lane_fault + agent_message" where
  "turn_result s items x = (case find (\<lambda>(y, m). result_entry y = result_entry x) (rev items) of
     Some (y, m) \<Rightarrow> Inr m
   | None \<Rightarrow> (case entry_result s (result_entry x) of
       Some m \<Rightarrow> Inr m
     | None \<Rightarrow> Inl (Invariant ''Completed tool call is missing its result entry'')))"

record placement_read =
  pr_items :: "(tool_call \<times> agent_message) list"
  pr_turn :: "agent_message list option"

definition read_placement :: "batch_source \<Rightarrow> ('n, placement_read option) planner" where
  "read_placement src p s = (case current_batch p of
     None \<Rightarrow> Inr (Return None)
   | Some b \<Rightarrow>
       if ready_calls (calls b) = [] then Inr (Return None)
       else rbind (rmap (staged_result s src) (ready_calls (calls b))) (\<lambda>items.
         rbind (if all_reachable (calls b) then map_sum id Some (rmap (turn_result s items) (calls b)) else Inr None)
           (\<lambda>turn. Inr (Return (Some \<lparr>pr_items = items, pr_turn = turn\<rparr>)))))"

definition result_new_entry :: "string option \<Rightarrow> tool_call \<times> agent_message \<Rightarrow> 'n new_entry" where
  "result_new_entry t item = \<lparr>eid = result_entry (fst item), parent_id = t, custom_type = None,
     body = Message (snd item) (terminates (fst item))\<rparr>"

text \<open>The writes for the placed results, each the child of the one before; \<open>uids k\<close> is the usage id of item \<open>k\<close>.\<close>

fun placement_entry_writes ::
    "'n::{zero,plus} runtime_config \<Rightarrow> (nat \<Rightarrow> string) \<Rightarrow> nat \<Rightarrow> string option \<Rightarrow> (tool_call \<times> agent_message) list \<Rightarrow>
      'n lane_write list" where
  "placement_entry_writes c uids k t [] = []"
| "placement_entry_writes c uids k t (item # items) =
    [InsertEntry (result_new_entry t item), DeletePending (result_entry (fst item))] @
    (if message_field (snd item) ''usage'' = None then []
     else [InsertUsage (usage_row_of (uids k) (message_usage c (snd item)) (Some (result_entry (fst item))))]) @
    placement_entry_writes c uids (Suc k) (Some (result_entry (fst item))) items"

definition placed_tip :: "string option \<Rightarrow> (tool_call \<times> agent_message) list \<Rightarrow> string option" where
  "placed_tip t items = (if items = [] then t else Some (result_entry (fst (last items))))"

definition complete_calls :: "(tool_call \<times> agent_message) list \<Rightarrow> tool_call list \<Rightarrow> tool_call list" where
  "complete_calls items xs = map (\<lambda>x. case find (\<lambda>(y, m). same_call y x) items of
     None \<Rightarrow> x | Some (y, m) \<Rightarrow> with_status x (CallCompleted (terminates y))) xs"

definition tool_names :: "agent_message \<Rightarrow> string list" where
  "tool_names m = concat (map (\<lambda>v. case v of JStr t \<Rightarrow> [t] | _ \<Rightarrow> []) (array_field m ''addedToolNames''))"

definition added_names :: "string list \<Rightarrow> (tool_call \<times> agent_message) list \<Rightarrow> string list" where
  "added_names active items = foldl (\<lambda>acc t. if t \<notin> set active \<and> t \<notin> set acc then acc @ [t] else acc) []
     (concat (map (\<lambda>(x, m). tool_names m) items))"

fun placement_entry_events ::
    "'n::{zero,plus} runtime_config \<Rightarrow> string \<Rightarrow> (nat \<Rightarrow> string) \<Rightarrow> nat \<Rightarrow> nat \<Rightarrow> string option \<Rightarrow> (tool_call \<times> agent_message) list \<Rightarrow>
      'n commit_info \<Rightarrow> 'n harness_event list" where
  "placement_entry_events c l uids k i t [] info = []"
| "placement_entry_events c l uids k i t (item # items) info =
    (let e = result_new_entry t item; has = message_field (snd item) ''usage'' \<noteq> None;
         row = usage_row_of (uids k) (message_usage c (snd item)) (Some (result_entry (fst item))) in
     lane_event l (EntryAdded (materialize e (info_seqs info ! i) (info_timestamp info))) #
     (if has then [usage_event l row (i + 2) info] else []) @
     placement_entry_events c l uids (Suc k) (i + (if has then 3 else 2)) (Some (result_entry (fst item))) items info)"

definition after_tools :: "operation_scope \<Rightarrow> tool_call list \<Rightarrow> string option \<Rightarrow> operation_state" where
  "after_tools scope xs t = Checkpoint scope
     \<lparr>continuation = (if list_all (\<lambda>x. is_completed x \<and> terminates x) xs then MayFinish False else NeedAssistant False),
      trigger_entry = the t\<rparr>"

text \<open>\<open>commitPlacement\<close>; \<open>turn\<close> is the turn of the batch the procedure was given.\<close>

definition plan_commit_placement ::
    "'n::{zero,plus} runtime_config \<Rightarrow> string \<Rightarrow> (tool_call \<times> agent_message) list \<Rightarrow> (nat \<Rightarrow> string) \<Rightarrow> string \<Rightarrow> ('n, bool) op_planner" where
  "plan_commit_placement c l items uids turn p st meta s = (case st of
     Tools scope b \<Rightarrow>
       (let t = placed_tip (tip p) items;
            done = complete_calls items (calls b);
            whole = list_all is_completed done;
            added = added_names (active_tools (configuration p)) items;
            conf = (configuration p)\<lparr>active_tools := active_tools (configuration p) @ added\<rparr>;
            ws = placement_entry_writes c uids 0 (tip p) items @
              (if added = [] then [] else [SetConfig l conf]) @ [SetTip l t];
            evs = (\<lambda>info. placement_entry_events c l uids 0 0 (tip p) items info @
              (if added = [] then [] else [lane_event l (ConfigUpdate (PActiveTools (active_tools conf)))]));
            patch = no_patch\<lparr>patch_tip := Some t, patch_config := Some conf\<rparr> in
        if whole
        then Inr (OpCommit
          (ws @ map (DeleteOwned ToolArgs) (keys_under s ToolArgs (args_prefix (operation_id meta) turn)))
          (after_tools scope done t) patch True evs)
        else Inr (OpCommit ws (Tools scope (b\<lparr>calls := done\<rparr>)) patch False evs))
   | _ \<Rightarrow> Inl (Invariant ''capability''))"

text \<open>\<open>materializeReady\<close>: read, announce, commit, and announce the end of the turn when the batch is complete.\<close>

definition announce :: "'n harness_event list \<Rightarrow> 'n harness \<Rightarrow> 'n harness" where
  "announce evs h = h\<lparr>emitted := emitted h @ evs\<rparr>"

definition placement_messages :: "string \<Rightarrow> string \<Rightarrow> (tool_call \<times> agent_message) list \<Rightarrow> 'n harness_event list" where
  "placement_messages l oid items = concat (map (\<lambda>(x, m).
     [lane_event l (MessageStart (Some oid) m), lane_event l (MessageEnd (Some oid) m (Some (result_entry x)))]) items)"

definition finish_turn ::
    "string \<Rightarrow> string \<Rightarrow> string \<Rightarrow> batch_source \<Rightarrow> placement_read \<Rightarrow> 'n harness \<times> bool outcome \<Rightarrow> 'n harness \<times> unit outcome" where
  "finish_turn l oid turn src rd res = (case res of
     (h, Returned whole) \<Rightarrow> (case pr_turn rd of
         Some ms \<Rightarrow> if whole then (announce [lane_event l (TurnEnd oid turn (fst src) ms)] h, Returned ()) else (h, Returned ())
       | None \<Rightarrow> (h, Returned ()))
   | (h, Rejected e) \<Rightarrow> (h, Rejected e)
   | (h, Refused r) \<Rightarrow> (h, Refused r)
   | (h, IdleBlocked) \<Rightarrow> (h, IdleBlocked))"

definition materialize_ready ::
    "'n::{zero,plus} runtime_config \<Rightarrow> string \<Rightarrow> string \<Rightarrow> string \<Rightarrow> batch_source \<Rightarrow> (nat \<Rightarrow> string) \<Rightarrow> int \<Rightarrow> 'n harness \<Rightarrow>
      'n harness \<times> unit outcome" where
  "materialize_ready c l oid turn src uids now h = (case run_command l (read_placement src) now h of
     (h1, Returned None) \<Rightarrow> (h1, Returned ())
   | (h1, Returned (Some rd)) \<Rightarrow> finish_turn l oid turn src rd (run_command l
       (settle_operation l (plan_commit_placement c l (pr_items rd) uids turn)) now
       (announce (placement_messages l oid (pr_items rd)) h1))
   | (h1, Rejected e) \<Rightarrow> (h1, Rejected e)
   | (h1, Refused r) \<Rightarrow> (h1, Refused r)
   | (h1, IdleBlocked) \<Rightarrow> (h1, IdleBlocked))"

section \<open>The steps keep the contract of an operation's planner\<close>

lemma tools_intent: "state_matches_intent i (Tools scope b) \<longleftrightarrow> (\<exists>ids. i = IRun ids)"
  by (cases i) auto

interpretation tool_intent: plain_op_planner l "plan_tool_intent l x t args safe"
  by unfold_locales
    (auto simp: plan_tool_intent_def Let_def tools_intent simp del: state_matches_intent.simps split: operation_state.splits)

interpretation tool_outcome: plain_op_planner l "plan_tool_outcome l x out"
  by unfold_locales
    (auto simp: plan_tool_outcome_def Let_def tools_intent simp del: state_matches_intent.simps split: operation_state.splits)

fun placement_write :: "'n lane_write \<Rightarrow> bool" where
  "placement_write (InsertEntry _) = True"
| "placement_write (InsertUsage _) = True"
| "placement_write (DeletePending _) = True"
| "placement_write _ = False"

lemma placement_write_quiet: "placement_write w \<Longrightarrow> quiet w" "quiet w \<Longrightarrow> step_write l w"
  by (cases w; simp)+

lemma placement_entry_writes_only: "\<forall>w \<in> set (placement_entry_writes c uids k t items). placement_write w"
  by (induction items arbitrary: k t) auto

lemma placed_commit:
  assumes "plan_commit_placement c l items uids turn p st meta s = Inr (OpCommit ws st' q x evs)"
  obtains scope b t conf cfg args where "st = Tools scope b" "t = placed_tip (tip p) items"
    "ws = placement_entry_writes c uids 0 (tip p) items @ cfg @ [SetTip l t] @ args"
    "cfg = [] \<and> conf = configuration p \<or> cfg = [SetConfig l conf]"
    "q = no_patch\<lparr>patch_tip := Some t, patch_config := Some conf\<rparr>" "list_all owned_write args"
    "st' = (if x then after_tools scope (complete_calls items (calls b)) t
      else Tools scope (b\<lparr>calls := complete_calls items (calls b)\<rparr>))"
    "x = list_all is_completed (complete_calls items (calls b))"
proof -
  obtain scope b where st: "st = Tools scope b" using assms by (cases st) (simp_all add: plan_commit_placement_def)
  define added where "added = added_names (active_tools (configuration p)) items"
  define conf where "conf = (configuration p)\<lparr>active_tools := active_tools (configuration p) @ added\<rparr>"
  define args :: "'a lane_write list" where "args = (if x then map (DeleteOwned ToolArgs) (keys_under s ToolArgs (args_prefix (operation_id meta) turn)) else [])"
  define cfg :: "'a lane_write list" where "cfg = (if added = [] then [] else [SetConfig l conf])"
  show thesis
  proof (rule that [of scope b "placed_tip (tip p) items" cfg args conf])
    show "ws = placement_entry_writes c uids 0 (tip p) items @ cfg @ [SetTip l (placed_tip (tip p) items)] @ args"
      "q = no_patch\<lparr>patch_tip := Some (placed_tip (tip p) items), patch_config := Some conf\<rparr>"
      "st' = (if x then after_tools scope (complete_calls items (calls b)) (placed_tip (tip p) items)
        else Tools scope (b\<lparr>calls := complete_calls items (calls b)\<rparr>))"
      "x = list_all is_completed (complete_calls items (calls b))"
      using assms unfolding st args_def cfg_def conf_def added_def
      by (auto simp: plan_commit_placement_def Let_def split: if_splits)
    show "cfg = [] \<and> conf = configuration p \<or> cfg = [SetConfig l conf]" by (auto simp: cfg_def conf_def)
    show "list_all owned_write args" by (auto simp: args_def list_all_iff)
  qed (simp_all add: st)
qed

interpretation commit_placement: op_planner l "plan_commit_placement c l items uids turn"
proof
  fix p st meta s ws st' q x evs
  assume plan: "plan_commit_placement c l items uids turn p st meta s = Inr (OpCommit ws st' q x evs)"
    and k: "own_get (configs s) l = Some (configuration p)" and m: "state_matches_intent (intent meta) st"
  from plan show "(\<forall>w \<in> set ws. step_write l w) \<and> own_get (tips (fold apply_value ws s)) l = Some (tip (patched p q)) \<and>
      own_get (configs (fold apply_value ws s)) l = Some (configuration (patched p q)) \<and>
      state_matches_intent (intent meta) st'"
  proof (rule placed_commit)
    fix scope b t conf cfg args
    assume st: "st = Tools scope b"
      and ws: "ws = placement_entry_writes c uids 0 (tip p) items @ cfg @ [SetTip l t] @ args"
      and cfg: "cfg = [] \<and> conf = configuration p \<or> cfg = [SetConfig l conf]"
      and q: "q = no_patch\<lparr>patch_tip := Some t, patch_config := Some conf\<rparr>" and args: "list_all owned_write args"
      and st': "st' = (if x then after_tools scope (complete_calls items (calls b)) t
        else Tools scope (b\<lparr>calls := complete_calls items (calls b)\<rparr>))"
    have quiet: "\<forall>w \<in> set (placement_entry_writes c uids 0 (tip p) items). quiet w" "\<forall>w \<in> set args. quiet w"
      using placement_entry_writes_only [of c uids 0 "tip p" items] args placement_write_quiet(1) by (auto simp: list_all_iff)
    obtain js where i: "intent meta = IRun js" using m by (auto simp: st tools_intent simp del: state_matches_intent.simps)
    have "\<forall>w \<in> set ws. step_write l w" using quiet cfg placement_write_quiet(2) by (auto simp: ws)
    moreover have "own_get (tips (fold apply_value ws s)) l = Some t" using quiet by (simp add: ws own_simps)
    moreover have "own_get (configs (fold apply_value ws s)) l = Some conf"
      using cfg quiet k by (auto simp: ws own_simps)
    ultimately show ?thesis using st' i by (simp add: q no_patch_def patched_def after_tools_def)
  qed
qed (auto simp: plan_commit_placement_def Let_def split: operation_state.splits if_splits)

interpretation clear_replay: lane_planner l "plan_clear_replay l oid turn x t" own_ids
  by (rule owned_planner) (auto simp: plan_clear_replay_def split: option.splits)

interpretation set_memo: lane_planner l "plan_set_memo oid x n v" own_ids
  by (rule owned_planner) (auto simp: plan_set_memo_def Let_def split: option.splits if_splits)

interpretation tool_progress: lane_planner l "plan_tool_progress oid turn x v" own_ids
  by (rule owned_planner) (auto simp: plan_tool_progress_def split: option.splits if_splits)

end
