(* ===== verification/DriveSummary.thy ===== *)
theory DriveSummary
  imports DriveResponse
begin

text \<open>
  Structural summaries, \<open>packages/agent/src/harness/runtime/drive/structural.ts\<close>: the compaction of a lane and
  the summary of a branch that is navigated away from. A prepared task is decided (a hook may decline it or give
  the result), attempted with provider requests whose usage is recorded one by one, retried, and published in
  one transaction that either resumes the run, ends the compaction or moves the lane. Hooks and provider
  requests are arguments.
\<close>

section \<open>Preparations\<close>

datatype summary_kind = CompactionSummary | NavigationSummary

fun kind_text :: "summary_kind \<Rightarrow> string" where
  "kind_text CompactionSummary = ''compaction''"
| "kind_text NavigationSummary = ''branch_summary''"

definition summary_kind_of :: "summary_task \<Rightarrow> summary_kind" where
  "summary_kind_of t = (case boundary t of CommitNavigation _ _ \<Rightarrow> NavigationSummary | _ \<Rightarrow> CompactionSummary)"

definition compaction_reason_of :: "summary_task \<Rightarrow> lane_fault + compaction_reason" where
  "compaction_reason_of t = (case reason t of
     Some r \<Rightarrow> Inr r
   | None \<Rightarrow> if boundary t = FinishBoundary then Inr Manual
       else Inl (Invariant ''In-run compaction task is missing its reason''))"

definition stored_preparation :: "'n store \<Rightarrow> string \<Rightarrow> summary_task \<Rightarrow> lane_fault + json" where
  "stored_preparation s oid t = (case own_get (owned_values s) (Preparation, preparation_key oid (task_id t)) of
     None \<Rightarrow> Inl (Invariant ''Structural task is missing its preparation'')
   | Some v \<Rightarrow> if json_field v ''kind'' = Some (JStr (kind_text (summary_kind_of t))) then Inr v
       else Inl (Invariant ''Structural task is missing its preparation''))"

text \<open>\<open>readStructuralPreparation\<close> and \<open>readAttemptPreparation\<close>.\<close>

definition plan_read_preparation :: "('n, json) op_planner" where
  "plan_read_preparation p st meta s = (case st of
     SummaryDeciding _ t \<Rightarrow> rbind (stored_preparation s (operation_id meta) t) (\<lambda>v. (case boundary t of
         CommitNavigation target _ \<Rightarrow> if target \<in> eid ` set (committed s) then Inr (OpReturn v)
           else Inl (Invariant ''Navigation target is missing'')
       | _ \<Rightarrow> Inr (OpReturn v)))
   | SummaryReady _ t _ _ \<Rightarrow> rbind (stored_preparation s (operation_id meta) t) (\<lambda>v. Inr (OpReturn v))
   | _ \<Rightarrow> Inl (Invariant ''capability''))"

text \<open>
  \<open>prepareCompactionThreshold\<close>: nothing is prepared when a newer compaction already guards the trigger or the
  context is small enough.
\<close>

fun index_where :: "('a \<Rightarrow> bool) \<Rightarrow> 'a list \<Rightarrow> nat option" where
  "index_where P [] = None"
| "index_where P (x # xs) = (if P x then Some 0 else map_option Suc (index_where P xs))"

definition last_index_where :: "('a \<Rightarrow> bool) \<Rightarrow> 'a list \<Rightarrow> nat option" where
  "last_index_where P xs = map_option (\<lambda>i. length xs - 1 - i) (index_where P (rev xs))"

definition should_compact :: "json \<Rightarrow> json \<Rightarrow> nat \<Rightarrow> bool" where
  "should_compact prep st window = (json_field st ''enabled'' = Some (JBool True) \<and>
     (case (json_field prep ''tokensBefore'', json_field st ''reserveTokens'') of
        (Some (JNum n), Some (JNum r)) \<Rightarrow> n > of_nat window - r | _ \<Rightarrow> False))"

definition prepare_compaction_threshold ::
    "'n runtime_config \<Rightarrow> lane_projection \<Rightarrow> run_settings \<Rightarrow> checkpoint_data \<Rightarrow> string \<Rightarrow> 'n store \<Rightarrow> lane_fault + (string \<times> json) option" where
  "prepare_compaction_threshold c p st d task s =
    (let conf = compaction_settings st in
     case cfg_model c (provider (configuration p)) (model_id (configuration p)) of
       None \<Rightarrow> Inr None
     | Some (limit, window) \<Rightarrow>
         if json_field conf ''enabled'' \<noteq> Some (JBool True) then Inr None
         else (let path = bounded_path s (tip p);
                   trig = index_where (\<lambda>e. eid e = trigger_entry d) path;
                   newest = last_index_where (\<lambda>e. etype e = TCompaction) path in
           case (newest, trig) of
             (Some n, None) \<Rightarrow> Inr None
           | (None, None) \<Rightarrow> Inl (Invariant ''Checkpoint trigger is missing from its Branch'')
           | (Some n, Some i) \<Rightarrow> if n \<ge> i then Inr None
               else (case prepare_compaction c path conf of
                   Inl e \<Rightarrow> Inl (Invariant e)
                 | Inr None \<Rightarrow> Inr None
                 | Inr (Some v) \<Rightarrow> Inr (if should_compact v conf window then Some (task, v) else None))
           | (None, Some i) \<Rightarrow> (case prepare_compaction c path conf of
                   Inl e \<Rightarrow> Inl (Invariant e)
                 | Inr None \<Rightarrow> Inr None
                 | Inr (Some v) \<Rightarrow> Inr (if should_compact v conf window then Some (task, v) else None))))"

definition prepare_overflow_compaction ::
    "'n runtime_config \<Rightarrow> lane_projection \<Rightarrow> operation_state \<Rightarrow> string \<Rightarrow> 'n store \<Rightarrow> lane_fault + (string \<times> json) option" where
  "prepare_overflow_compaction c p st task s = (case st of
     AssistantEffectPending scope g _ _ _ _ _ \<Rightarrow>
       if overflow_used g \<or> control scope \<noteq> Running then Inr None
       else (case prepare_compaction c (bounded_path s (tip p)) (compaction_settings (settings scope)) of
           Inl e \<Rightarrow> Inl (Invariant e)
         | Inr v \<Rightarrow> Inr (map_option (\<lambda>x. (task, x)) v))
   | _ \<Rightarrow> Inr None)"

section \<open>Attempts\<close>

definition without_deferred :: "json \<Rightarrow> json" where
  "without_deferred v = (case v of JObj kvs \<Rightarrow> JObj (own_set index_key ''deferred'' (JBool False) kvs) | _ \<Rightarrow> v)"

definition summary_context_of :: "'n runtime_config \<Rightarrow> string \<Rightarrow> lane_configuration \<Rightarrow> summary_context" where
  "summary_context_of c r k = \<lparr>sum_entry = r, sum_configuration = k, sum_stream = without_deferred (cfg_stream c),
     sum_retry = normalized_retry_policy c\<rparr>"

definition plan_structural_ready :: "'n runtime_config \<Rightarrow> string \<Rightarrow> ('n, procedure_result) op_planner" where
  "plan_structural_ready c r p st meta s = (case st of
     SummaryDeciding scope t \<Rightarrow>
       Inr (OpCommit [] (SummaryReady scope t (summary_context_of c r (configuration p)) 1) no_patch Continue (\<lambda>_. []))
   | _ \<Rightarrow> Inl (Invariant ''capability''))"

definition plan_attempt_intent :: "('n, unit) op_planner" where
  "plan_attempt_intent p st meta s = (case st of
     SummaryReady scope t k n \<Rightarrow> Inr (OpCommit [] (SummaryEffectPending scope t k n None []) no_patch () (\<lambda>_. []))
   | _ \<Rightarrow> Inl (Invariant ''capability''))"

definition plan_request_intent :: "nat \<Rightarrow> string \<Rightarrow> ('n, unit) op_planner" where
  "plan_request_intent i u p st meta s = (case st of
     SummaryEffectPending scope t k n _ us \<Rightarrow>
       Inr (OpCommit [] (SummaryEffectPending scope t k n (Some (i, u)) us) no_patch () (\<lambda>_. []))
   | _ \<Rightarrow> Inl (Invariant ''capability''))"

text \<open>The usage of a request counts even when the attempt fails or is cancelled.\<close>

definition plan_request_outcome :: "'n::{zero,plus} runtime_config \<Rightarrow> string \<Rightarrow> string \<Rightarrow> agent_message \<Rightarrow> ('n, unit) op_planner" where
  "plan_request_outcome c l u m p st meta s = (case st of
     SummaryEffectPending scope t k n _ us \<Rightarrow>
       (let row = usage_row_of u (message_usage c m) None in
        Inr (OpCommit [InsertUsage row] (SummaryEffectPending scope t k n None (us @ [u])) no_patch ()
          (\<lambda>info. [usage_event l row 0 info])))
   | _ \<Rightarrow> Inl (Invariant ''capability''))"

definition plan_structural_retry_ready :: "string \<Rightarrow> ('n, procedure_result) op_planner" where
  "plan_structural_retry_ready l p st meta s = (case st of
     SummaryRetryWait scope t k w \<Rightarrow> Inr (OpCommit [] (SummaryReady scope t k (next_attempt w)) no_patch Continue
       (\<lambda>_. [lane_event l (RetryStart (operation_id meta) (task_id t) (next_attempt w))]))
   | _ \<Rightarrow> Inl (Invariant ''capability''))"

section \<open>Publishing the outcome of a task\<close>

record 'n compact_result =
  cr_summary :: string
  cr_tail :: "agent_message list"
  cr_tokens :: 'n
  cr_details :: "json option"
  cr_usage :: "'n usage option"

record 'n branch_result =
  br_summary :: string
  br_read :: "string list"
  br_modified :: "string list"
  br_usage :: "'n usage option"

datatype 'n structural_outcome =
    CompactionDone string "'n compact_result" bool
  | BranchDone string "'n branch_result" bool
  | OutcomeDeclined
  | OutcomeFailed operation_error

definition declined_error :: operation_error where
  "declined_error = \<lparr>error_code = ''compaction_declined'', error_message = ''Overflow compaction was declined'', error_details = None\<rparr>"

text \<open>The usage a hook reports with its result; \<open>u\<close> is the id reserved for it.\<close>

definition hook_usage :: "string \<Rightarrow> 'n structural_outcome \<Rightarrow> 'n new_usage option" where
  "hook_usage u out = (case out of
     CompactionDone _ r hook \<Rightarrow> if hook then map_option (\<lambda>v. usage_row_of u v None) (cr_usage r) else None
   | BranchDone _ r hook \<Rightarrow> if hook then map_option (\<lambda>v. usage_row_of u v None) (br_usage r) else None
   | _ \<Rightarrow> None)"

definition compaction_entry :: "string \<Rightarrow> string option \<Rightarrow> 'n compact_result \<Rightarrow> bool \<Rightarrow> 'n new_entry" where
  "compaction_entry i t r hook = \<lparr>eid = i, parent_id = t, custom_type = None,
     body = Compaction (cr_summary r) (cr_tail r) (cr_tokens r) (cr_details r) (cr_usage r) hook\<rparr>"

definition branch_entry :: "string \<Rightarrow> string \<Rightarrow> string option \<Rightarrow> 'n branch_result \<Rightarrow> bool \<Rightarrow> 'n new_entry" where
  "branch_entry i target from r hook = \<lparr>eid = i, parent_id = Some target, custom_type = None,
     body = BranchSummary from (br_summary r)
       (Some (JObj [(''readFiles'', JArr (map JStr (br_read r))), (''modifiedFiles'', JArr (map JStr (br_modified r)))]))
       (br_usage r) hook\<rparr>"

definition structural_attempt :: "operation_state \<Rightarrow> nat option" where
  "structural_attempt st = (case st of
     SummaryReady _ _ _ n \<Rightarrow> Some n | SummaryEffectPending _ _ _ n _ _ \<Rightarrow> Some n | _ \<Rightarrow> None)"

fun publishing_leaf :: "operation_state \<Rightarrow> bool" where
  "publishing_leaf (SummaryDeciding _ _) = True"
| "publishing_leaf (SummaryReady _ _ _ _) = True"
| "publishing_leaf (SummaryEffectPending _ _ _ _ _ _) = True"
| "publishing_leaf _ = False"

fun outcome_done :: "'n structural_outcome \<Rightarrow> bool" where
  "outcome_done (CompactionDone _ _ _) = True"
| "outcome_done (BranchDone _ _ _) = True"
| "outcome_done _ = False"

fun outcome_fits :: "'n structural_outcome \<Rightarrow> summary_kind \<Rightarrow> bool" where
  "outcome_fits (CompactionDone _ _ _) k = (k = CompactionSummary)"
| "outcome_fits (BranchDone _ _ _) k = (k = NavigationSummary)"
| "outcome_fits _ k = True"

text \<open>The writes of the result itself, the entry with the index of its write, and the tip it leads to.\<close>

definition outcome_writes ::
    "string \<Rightarrow> string \<Rightarrow> lane_projection \<Rightarrow> operation_meta \<Rightarrow> summary_task \<Rightarrow> 'n structural_outcome \<Rightarrow>
      'n lane_write list \<times> ('n new_entry \<times> nat) option \<times> string option" where
  "outcome_writes l u p meta t out =
    (let use = (case hook_usage u out of None \<Rightarrow> [] | Some row \<Rightarrow> [InsertUsage row]) in
     case out of
       CompactionDone i r hook \<Rightarrow>
         (let e = compaction_entry i (tip p) r hook in
          (use @ [InsertEntry e, SetTip l (Some i)], Some (e, length use), Some i))
     | BranchDone i r hook \<Rightarrow> (case boundary t of
         CommitNavigation target label \<Rightarrow>
           (let e = branch_entry i target (source_tip meta) r hook in
            (use @ [SetTip l (Some target), InsertEntry e, SetTip l (Some i)] @
               (case label of None \<Rightarrow> [] | Some x \<Rightarrow> [SetLabel target x]),
             Some (e, length use + 1), Some i))
       | _ \<Rightarrow> ([], None, tip p))
     | _ \<Rightarrow> (use, None, tip p))"

definition retry_end_event :: "string \<Rightarrow> string \<Rightarrow> summary_task \<Rightarrow> operation_state \<Rightarrow> 'n structural_outcome \<Rightarrow> 'n harness_event list" where
  "retry_end_event l oid t st out = (case structural_attempt st of
     None \<Rightarrow> []
   | Some n \<Rightarrow> if 1 < n then [lane_event l (RetryEnd oid (task_id t) n (outcome_done out)
         (case out of OutcomeFailed e \<Rightarrow> Some (error_message e) | _ \<Rightarrow> None))] else [])"

text \<open>The events common to all boundaries; \<open>ended\<close> is the end of the operation when it ends here.\<close>

definition outcome_events ::
    "string \<Rightarrow> string \<Rightarrow> string \<Rightarrow> summary_task \<Rightarrow> operation_state \<Rightarrow> ('n new_entry \<times> nat) option \<Rightarrow> 'n structural_outcome \<Rightarrow>
      compaction_reason \<Rightarrow> int option \<Rightarrow> 'n commit_info \<Rightarrow> 'n harness_event list" where
  "outcome_events l oid u t st entry out why ended info =
    (case hook_usage u out of None \<Rightarrow> [] | Some row \<Rightarrow> [usage_event l row 0 info]) @
    (case entry of None \<Rightarrow> [] | Some (e, i) \<Rightarrow> committed_entry_events [e] info l (Some oid) i) @
    retry_end_event l oid t st out @
    (case out of
       CompactionDone i _ _ \<Rightarrow> [lane_event l (CompactionEnd oid why (or_else ended (info_timestamp info)) (CompCompleted i))]
     | _ \<Rightarrow> [])"

definition ended_status :: "'n structural_outcome \<Rightarrow> terminal_status \<times> operation_error option" where
  "ended_status out = (case out of OutcomeDeclined \<Rightarrow> (Declined, None) | OutcomeFailed e \<Rightarrow> (Failed, Some e) | _ \<Rightarrow> (Completed, None))"

definition ended_compaction :: "'n structural_outcome \<Rightarrow> compaction_status" where
  "ended_compaction out = (case out of OutcomeFailed e \<Rightarrow> CompFailed e | CompactionDone i _ _ \<Rightarrow> CompCompleted i | _ \<Rightarrow> CompDeclined)"

definition ended_navigation :: "'n structural_outcome \<Rightarrow> navigation_status" where
  "ended_navigation out = (case out of OutcomeFailed e \<Rightarrow> NavFailed e | BranchDone _ _ _ \<Rightarrow> NavCompleted | _ \<Rightarrow> NavDeclined)"

text \<open>The boundary of a compaction made on behalf of a run: the run goes on, or fails with its compaction.\<close>

definition resume_run ::
    "'n runtime_config \<Rightarrow> string \<Rightarrow> string \<Rightarrow> checkpoint_data \<Rightarrow> operation_scope \<Rightarrow> lane_projection \<Rightarrow> operation_meta \<Rightarrow> 'n store \<Rightarrow>
      'n lane_write list \<Rightarrow> string \<Rightarrow> bool \<Rightarrow> ('n commit_info \<Rightarrow> 'n harness_event list) \<Rightarrow>
      lane_fault + ('n, procedure_result) op_decision" where
  "resume_run c l step d scope p meta s ws t declined evs =
    rbind (plan_boundary_inbox c l p scope s (Some t) (declined \<and> (\<exists>b. continuation d = MayFinish b))) (\<lambda>pl.
      case (pl_trigger pl, continuation d) of
        (None, MayFinish _) \<Rightarrow>
          if declined then Inr (OpReturn (FinishPending (map eid (pl_entries pl))))
          else Inr (OpCommit (ws @ pl_writes pl) (Checkpoint scope d) (placement_patch pl) Continue
            (\<lambda>info. evs info @ boundary_events pl info (length ws) l (operation_id meta)))
      | (trigger, cont) \<Rightarrow>
          Inr (OpCommit (ws @ pl_writes pl)
            (assistant_ready_at_boundary c step p scope (or_else trigger (trigger_entry d))
              (case (trigger, cont) of (None, NeedAssistant used) \<Rightarrow> used | _ \<Rightarrow> False))
            (placement_patch pl) Continue
            (\<lambda>info. evs info @ boundary_events pl info (length ws) l (operation_id meta))))"

definition fail_run ::
    "string \<Rightarrow> summary_task \<Rightarrow> lane_projection \<Rightarrow> operation_meta \<Rightarrow> 'n lane_write list \<Rightarrow> operation_error \<Rightarrow> compaction_status \<Rightarrow>
      ('n commit_info \<Rightarrow> 'n harness_event list) \<Rightarrow> int \<Rightarrow> lane_fault + ('n, procedure_result) op_decision" where
  "fail_run l t p meta ws err status evs now =
    (if tip p = None then Inl (Invariant ''Failed run has no Branch tip'')
     else rbind (compaction_reason_of t) (\<lambda>why.
       rbind (operation_result_record meta Failed (tip p) (Some err) now) (\<lambda>rec.
       Inr (OpFinish ws rec no_patch (Settled rec)
         (\<lambda>info. evs info @ [lane_event l (CompactionEnd (operation_id meta) why now status),
            run_failed_event l meta (tip p) now err])))))"

definition publish_resume ::
    "'n runtime_config \<Rightarrow> string \<Rightarrow> string \<Rightarrow> checkpoint_data \<Rightarrow> summary_task \<Rightarrow> 'n structural_outcome \<Rightarrow> int \<Rightarrow>
      lane_projection \<Rightarrow> operation_state \<Rightarrow> operation_meta \<Rightarrow> 'n store \<Rightarrow> 'n lane_write list \<Rightarrow>
      ('n commit_info \<Rightarrow> 'n harness_event list) \<Rightarrow> lane_fault + ('n, procedure_result) op_decision" where
  "publish_resume c l step d t out now p st meta s ws evs =
    (let scope = operation_scope_of st; cleanup = operation_cleanup_writes s (operation_id meta) st in
     case out of
       CompactionDone i r hook \<Rightarrow> resume_run c l step d scope p meta s ws i False evs
     | OutcomeDeclined \<Rightarrow>
         if reason t = Some Threshold
         then (case tip p of
             None \<Rightarrow> Inl (Invariant ''Run compaction has no Branch tip'')
           | Some i \<Rightarrow> resume_run c l step d scope p meta s [] i True
               (\<lambda>info. [lane_event l (CompactionEnd (operation_id meta) Threshold (info_timestamp info) CompDeclined)]))
         else fail_run l t p meta (ws @ cleanup) declined_error CompDeclined evs now
     | OutcomeFailed e \<Rightarrow> fail_run l t p meta (ws @ cleanup) e (CompFailed e) evs now
     | BranchDone _ _ _ \<Rightarrow> Inl (Invariant ''Run compaction boundary received a branch summary''))"

text \<open>The boundaries that end an operation; the lane moves only if the task has a result.\<close>

definition publish_end ::
    "operation_meta \<Rightarrow> 'n structural_outcome \<Rightarrow> int \<Rightarrow> 'n lane_write list \<Rightarrow> bool \<Rightarrow> string option \<Rightarrow>
      ('n commit_info \<Rightarrow> 'n harness_event list) \<Rightarrow> lane_fault + ('n, procedure_result) op_decision" where
  "publish_end meta out now ws moved final evs =
    rbind (operation_result_record meta (fst (ended_status out)) final (snd (ended_status out)) now) (\<lambda>rec.
      Inr (OpFinish ws rec (if moved then no_patch\<lparr>patch_tip := Some final\<rparr> else no_patch) (Settled rec) evs))"

text \<open>The command of \<open>publishStructuralOutcome\<close>: \<open>u\<close> is the id for the usage a hook reports.\<close>

definition plan_publish_structural ::
    "'n runtime_config \<Rightarrow> string \<Rightarrow> string \<Rightarrow> string \<Rightarrow> 'n structural_outcome \<Rightarrow> int \<Rightarrow> ('n, procedure_result) op_planner" where
  "plan_publish_structural c l step u out now p st meta s =
    (case summary_task_of st of
       None \<Rightarrow> Inl (Invariant ''capability'')
     | Some t \<Rightarrow>
       if \<not> publishing_leaf st then Inl (Invariant ''capability'')
       else if \<not> outcome_fits out (summary_kind_of t) then Inl (Invariant ''Structural result does not match its task'')
       else (let oid = operation_id meta; cleanup = operation_cleanup_writes s oid st in
         case outcome_writes l u p meta t out of (ws, entry, final) \<Rightarrow>
         rbind (if \<exists>i r hook. out = CompactionDone i r hook then compaction_reason_of t else Inr Manual) (\<lambda>why.
         let evs = (\<lambda>ended. outcome_events l oid u t st entry out why ended) in
         case boundary t of
           ResumeCheckpoint d \<Rightarrow> publish_resume c l step d t out now p st meta s ws (evs None)
         | FinishBoundary \<Rightarrow>
             if entry = None \<and> tip p = None then Inl (Invariant ''Standalone compaction has no Branch tip'')
             else publish_end meta out now (ws @ cleanup) (entry \<noteq> None) final
               (\<lambda>info. evs (Some now) info @
                 (if entry = None then [lane_event l (CompactionEnd oid Manual now (ended_compaction out))] else []))
         | CommitNavigation _ _ \<Rightarrow> publish_end meta out now (ws @ cleanup) (entry \<noteq> None) final
             (\<lambda>info. evs None info @ [lane_event l (NavigationEnd oid (source_tip meta) final now (ended_navigation out))]))))"

text \<open>
  A failed attempt waits for its retry while attempts are left; \<open>recoverStructuralGeneration\<close> does the same for
  an attempt whose outcome is unknown.
\<close>

definition plan_structural_retry :: "string \<Rightarrow> string \<Rightarrow> int \<Rightarrow> ('n, procedure_result) op_planner" where
  "plan_structural_retry l text now p st meta s = (case st of
     SummaryEffectPending scope t k n _ _ \<Rightarrow>
       (let w = \<lparr>next_attempt = n + 1, not_before = retry_not_before (sum_retry k) n now, wait_error = text\<rparr> in
        Inr (OpCommit [] (SummaryRetryWait scope t k w) no_patch Continue
          (\<lambda>_. [lane_event l (RetryScheduled (operation_id meta) (task_id t) (n + 1) (max_attempts (sum_retry k))
             (retry_delay_ms (sum_retry k) n) (not_before w) text)])))
   | _ \<Rightarrow> Inl (Invariant ''capability''))"

datatype 'n attempt_result =
    AttemptDone "'n structural_outcome"
  | AttemptError operation_error bool

definition plan_attempt_result ::
    "'n runtime_config \<Rightarrow> string \<Rightarrow> string \<Rightarrow> string \<Rightarrow> 'n attempt_result \<Rightarrow> int \<Rightarrow> ('n, procedure_result) op_planner" where
  "plan_attempt_result c l step u res now p st meta s = (case st of
     SummaryEffectPending _ t k n _ _ \<Rightarrow> (case res of
       AttemptDone out \<Rightarrow> plan_publish_structural c l step u out now p st meta s
     | AttemptError e retryable \<Rightarrow>
         if error_code e = ''aborted'' then Inl (Invariant ''Structural provider response is aborted while durable control is running'')
         else if retryable \<and> n < max_attempts (sum_retry k) then plan_structural_retry l (error_message e) now p st meta s
         else plan_publish_structural c l step u (OutcomeFailed e) now p st meta s)
   | _ \<Rightarrow> Inl (Invariant ''capability''))"

definition interrupted_error :: operation_error where
  "interrupted_error = \<lparr>error_code = ''structural_interrupted'',
     error_message = ''Structural summary attempt was interrupted and its external outcome is unknown'', error_details = None\<rparr>"

definition plan_recover_structural :: "'n runtime_config \<Rightarrow> string \<Rightarrow> string \<Rightarrow> string \<Rightarrow> int \<Rightarrow> ('n, procedure_result) op_planner" where
  "plan_recover_structural c l step u now p st meta s = (case st of
     SummaryEffectPending _ t k n _ _ \<Rightarrow>
       if max_attempts (sum_retry k) \<le> n then plan_publish_structural c l step u (OutcomeFailed interrupted_error) now p st meta s
       else plan_structural_retry l (error_message interrupted_error) now p st meta s
   | _ \<Rightarrow> Inl (Invariant ''capability''))"

text \<open>The decision of \<open>runStructuralDecision\<close>: what the hook returned, and the outcome published for it.\<close>

datatype 'n structural_hook = HookNothing | HookDecline | HookCompaction "'n compact_result" | HookSummary "'n branch_result"

definition plan_structural_decision ::
    "'n runtime_config \<Rightarrow> string \<Rightarrow> string \<Rightarrow> string \<Rightarrow> string \<Rightarrow> 'n structural_hook \<Rightarrow> int \<Rightarrow> ('n, procedure_result) op_planner" where
  "plan_structural_decision c l step u r hook now p st meta s = (case st of
     SummaryDeciding _ t \<Rightarrow> (case (hook, summary_kind_of t) of
       (HookDecline, _) \<Rightarrow> plan_publish_structural c l step u OutcomeDeclined now p st meta s
     | (HookCompaction v, CompactionSummary) \<Rightarrow> plan_publish_structural c l step u (CompactionDone r v True) now p st meta s
     | (HookSummary v, NavigationSummary) \<Rightarrow> plan_publish_structural c l step u (BranchDone r v True) now p st meta s
     | _ \<Rightarrow> plan_structural_ready c r p st meta s)
   | _ \<Rightarrow> Inl (Invariant ''capability''))"

section \<open>The steps keep the contract of an operation's planner\<close>

lemma outcome_writes_ok:
  assumes "outcome_writes l u p meta t out = (ws, entry, final)"
  shows "\<forall>w \<in> set ws. op_write l w" and "entry = None \<Longrightarrow> final = tip p"
    and "own_get (tips s) l = Some (tip p) \<Longrightarrow> own_get (tips (fold apply_value ws s)) l = Some final"
  using assms
  by (auto simp: outcome_writes_def Let_def own_simps split: structural_outcome.splits option.splits result_boundary.splits)

lemma resume_boundary:
  "state_matches_intent i st \<Longrightarrow> summary_task_of st = Some t \<Longrightarrow> boundary t = ResumeCheckpoint d \<Longrightarrow> \<exists>ids. i = IRun ids"
  by (cases i; cases st) auto

lemma resumed_commit:
  assumes "resume_run c l step d scope p meta s ws t declined evs = Inr (OpCommit ws' st' q x evs')"
  shows "\<exists>pl follow. plan_boundary_inbox c l p scope s (Some t) follow = Inr pl \<and> ws' = ws @ pl_writes pl \<and> q = placement_patch pl \<and>
    (st' = Checkpoint scope d \<or> (\<exists>g n. st' = AssistantReady scope g n))"
proof -
  let ?follow = "declined \<and> (\<exists>b. continuation d = MayFinish b)"
  obtain pl where pl: "plan_boundary_inbox c l p scope s (Some t) ?follow = Inr pl"
    using assms by (auto simp: resume_run_def result_simps)
  have "ws' = ws @ pl_writes pl \<and> q = placement_patch pl \<and> (st' = Checkpoint scope d \<or> (\<exists>g n. st' = AssistantReady scope g n))"
    using assms pl
    by (cases "pl_trigger pl"; cases "continuation d")
      (auto simp: resume_run_def assistant_ready_at_boundary_def split: if_splits)
  then show ?thesis using pl by blast
qed

lemma resumed_no_finish: "resume_run c l step d scope p meta s ws t declined evs \<noteq> Inr (OpFinish ws' rec q x evs')"
  by (auto simp: resume_run_def result_simps split: option.splits continuation.splits if_splits)

lemma fail_run_finish:
  "fail_run l t p meta ws err status evs now = Inr d \<Longrightarrow> \<exists>rec evs'. d = OpFinish ws rec no_patch (Settled rec) evs'"
  by (auto simp: fail_run_def result_simps split: if_splits)

lemma publish_end_finish:
  "publish_end meta out now ws moved final evs = Inr d \<Longrightarrow>
    \<exists>rec evs'. d = OpFinish ws rec (if moved then no_patch\<lparr>patch_tip := Some final\<rparr> else no_patch) (Settled rec) evs'"
  by (auto simp: publish_end_def result_simps)

lemma structural_published:
  assumes "plan_publish_structural c l step u out now p st meta s = Inr d"
  obtains t ws entry final evs where "summary_task_of st = Some t" "publishing_leaf st" "outcome_fits out (summary_kind_of t)"
    "outcome_writes l u p meta t out = (ws, entry, final)"
    "(\<exists>k. boundary t = ResumeCheckpoint k \<and> publish_resume c l step k t out now p st meta s ws evs = Inr d) \<or>
     (\<not> is_resume (boundary t) \<and>
      publish_end meta out now (ws @ operation_cleanup_writes s (operation_id meta) st) (entry \<noteq> None) final evs = Inr d)"
proof -
  obtain t where t: "summary_task_of st = Some t" "publishing_leaf st" "outcome_fits out (summary_kind_of t)"
    using assms by (auto simp: plan_publish_structural_def split: option.splits if_splits)
  obtain ws entry final where ow: "outcome_writes l u p meta t out = (ws, entry, final)" by (cases "outcome_writes l u p meta t out")
  show thesis
  proof (cases "boundary t")
    case (ResumeCheckpoint k)
    then show ?thesis using assms t ow
      by (auto simp: plan_publish_structural_def result_simps Let_def intro: that [OF t ow])
  next
    case FinishBoundary
    then show ?thesis using assms t ow
      by (auto simp: plan_publish_structural_def result_simps Let_def split: if_splits intro: that [OF t ow])
  next
    case (CommitNavigation g lb)
    then show ?thesis using assms t ow
      by (auto simp: plan_publish_structural_def result_simps Let_def intro: that [OF t ow])
  qed
qed

lemma published_structural_commit:
  assumes "plan_publish_structural c l step u out now p st meta s = Inr (OpCommit ws st' q x evs)"
  shows "\<exists>t d ws0 i declined evs0 entry. summary_task_of st = Some t \<and> boundary t = ResumeCheckpoint d \<and>
    resume_run c l step d (operation_scope_of st) p meta s ws0 i declined evs0 = Inr (OpCommit ws st' q x evs) \<and>
    ((\<exists>r hook. out = CompactionDone i r hook \<and> outcome_writes l u p meta t out = (ws0, entry, Some i)) \<or>
      (ws0 = [] \<and> tip p = Some i))"
  using assms
proof (rule structural_published)
  fix t ws0 entry final evs0
  assume t: "summary_task_of st = Some t" and ow: "outcome_writes l u p meta t out = (ws0, entry, final)"
    and pub: "(\<exists>k. boundary t = ResumeCheckpoint k \<and>
        publish_resume c l step k t out now p st meta s ws0 evs0 = Inr (OpCommit ws st' q x evs)) \<or>
      (\<not> is_resume (boundary t) \<and> publish_end meta out now (ws0 @ operation_cleanup_writes s (operation_id meta) st)
        (entry \<noteq> None) final evs0 = Inr (OpCommit ws st' q x evs))"
  then obtain k where k: "boundary t = ResumeCheckpoint k"
      "publish_resume c l step k t out now p st meta s ws0 evs0 = Inr (OpCommit ws st' q x evs)"
    by (auto dest!: publish_end_finish)
  show ?thesis
  proof (cases out)
    case (CompactionDone i r hook)
    then have "final = Some i" using ow by (auto simp: outcome_writes_def Let_def)
    then have "resume_run c l step k (operation_scope_of st) p meta s ws0 i False evs0 = Inr (OpCommit ws st' q x evs)"
      "outcome_writes l u p meta t out = (ws0, entry, Some i)"
      using k ow CompactionDone by (simp_all add: publish_resume_def)
    then show ?thesis using t k(1) CompactionDone by blast
  next
    case OutcomeDeclined
    then show ?thesis using t k
      by (auto simp: publish_resume_def Let_def dest!: fail_run_finish split: if_splits option.splits)
  qed (use k in \<open>auto simp: publish_resume_def Let_def dest!: fail_run_finish\<close>)
qed

lemma published_structural_finish:
  assumes "plan_publish_structural c l step u out now p st meta s = Inr (OpFinish ws rec q x evs)"
  shows "\<exists>t ws0 entry final. summary_task_of st = Some t \<and> outcome_writes l u p meta t out = (ws0, entry, final) \<and>
    ws = ws0 @ operation_cleanup_writes s (operation_id meta) st \<and>
    q = (if entry = None then no_patch else no_patch\<lparr>patch_tip := Some final\<rparr>)"
  using assms
proof (rule structural_published)
  fix t ws0 entry final evs0
  assume t: "summary_task_of st = Some t" and ow: "outcome_writes l u p meta t out = (ws0, entry, final)"
    and pub: "(\<exists>k. boundary t = ResumeCheckpoint k \<and>
        publish_resume c l step k t out now p st meta s ws0 evs0 = Inr (OpFinish ws rec q x evs)) \<or>
      (\<not> is_resume (boundary t) \<and> publish_end meta out now (ws0 @ operation_cleanup_writes s (operation_id meta) st)
        (entry \<noteq> None) final evs0 = Inr (OpFinish ws rec q x evs))"
  have none: "entry = None" if "out = OutcomeDeclined \<or> (\<exists>e. out = OutcomeFailed e)"
    using ow that by (auto simp: outcome_writes_def Let_def)
  have "ws = ws0 @ operation_cleanup_writes s (operation_id meta) st \<and>
      q = (if entry = None then no_patch else no_patch\<lparr>patch_tip := Some final\<rparr>)"
    using pub
  proof (elim disjE exE conjE)
    fix k assume "publish_resume c l step k t out now p st meta s ws0 evs0 = Inr (OpFinish ws rec q x evs)"
    then show ?thesis using none
      by (cases out) (auto simp: publish_resume_def Let_def resumed_no_finish dest!: fail_run_finish split: if_splits option.splits)
  qed (auto dest!: publish_end_finish)
  then show ?thesis using t ow by blast
qed

interpretation publish_structural: plain_op_planner l "plan_publish_structural c l step u out now"
proof
  fix p st meta s ws st' q x evs
  assume plan: "plan_publish_structural c l step u out now p st meta s = Inr (OpCommit ws st' q x evs)"
    and tip: "own_get (tips s) l = Some (tip p)" and m: "state_matches_intent (intent meta) st"
  obtain t d ws0 i declined evs0 entry where t: "summary_task_of st = Some t" "boundary t = ResumeCheckpoint d"
    and res: "resume_run c l step d (operation_scope_of st) p meta s ws0 i declined evs0 = Inr (OpCommit ws st' q x evs)"
    and ow: "(\<exists>r hook. out = CompactionDone i r hook \<and> outcome_writes l u p meta t out = (ws0, entry, Some i)) \<or>
      (ws0 = [] \<and> tip p = Some i)"
    using published_structural_commit [OF plan] by blast
  obtain pl follow where pl: "plan_boundary_inbox c l p (operation_scope_of st) s (Some i) follow = Inr pl"
    and ws: "ws = ws0 @ pl_writes pl" and q: "q = placement_patch pl"
    and st': "st' = Checkpoint (operation_scope_of st) d \<or> (\<exists>g n. st' = AssistantReady (operation_scope_of st) g n)"
    using resumed_commit [OF res] by blast
  have "\<forall>w \<in> set ws0. op_write l w" "own_get (tips (fold apply_value ws0 s)) l = Some (Some i)"
    using ow outcome_writes_ok [of l u p meta t out ws0 entry] tip by auto
  moreover obtain js where "intent meta = IRun js" using resume_boundary [OF m t] by blast
  ultimately show "(\<forall>w \<in> set ws. op_write l w) \<and> own_get (tips (fold apply_value ws s)) l = Some (tip (patched p q)) \<and>
      patch_config q = None \<and> state_matches_intent (intent meta) st'"
    using placement_writes [OF pl] st' by (auto simp: ws q)
next
  fix p st meta s ws rec q x evs
  assume plan: "plan_publish_structural c l step u out now p st meta s = Inr (OpFinish ws rec q x evs)"
    and tip: "own_get (tips s) l = Some (tip p)"
  obtain t ws0 entry final where ow: "outcome_writes l u p meta t out = (ws0, entry, final)"
    and ws: "ws = ws0 @ operation_cleanup_writes s (operation_id meta) st"
    and q: "q = (if entry = None then no_patch else no_patch\<lparr>patch_tip := Some final\<rparr>)"
    using published_structural_finish [OF plan] by blast
  show "(\<forall>w \<in> set ws. finish_write l (operation_id meta) w) \<and>
      own_get (tips (fold apply_value ws s)) l = Some (tip (patched p q)) \<and> patch_config q = None"
    using outcome_writes_ok [OF ow] cleanup_writes(1) [of s "operation_id meta" st l] tip
    by (auto simp: ws q cleanup_writes(2) no_patch_def patched_def intro: op_finish_write)
qed

lemmas summary_leaf_simps = plan_structural_ready_def plan_attempt_intent_def plan_request_intent_def plan_request_outcome_def
  plan_structural_retry_ready_def plan_structural_retry_def Let_def

lemma same_task_intent:
  assumes "summary_task_of st = Some t" and "summary_task_of st' = Some t"
  shows "state_matches_intent i st' = state_matches_intent i st"
  using assms by (cases i; cases st; cases st') auto

text \<open>Most steps of a summary keep its task and write at most a usage row.\<close>

lemma task_planner:
  assumes "\<And>p st meta s ws st' q r evs. plan p st meta s = Inr (OpCommit ws st' q r evs) \<Longrightarrow>
      (\<forall>w \<in> set ws. \<exists>u. w = InsertUsage u) \<and> q = no_patch \<and>
      (\<exists>t. summary_task_of st = Some t \<and> summary_task_of st' = Some t)"
    and "\<And>p st meta s ws rec q r evs. plan p st meta s \<noteq> Inr (OpFinish ws rec q r evs)"
  shows "plain_op_planner l plan"
proof
  fix p st meta s ws st' q r evs
  assume "plan p st meta s = Inr (OpCommit ws st' q r evs)" and t: "own_get (tips s) l = Some (tip p)"
    and m: "state_matches_intent (intent meta) st"
  note c = assms(1) [OF this(1)]
  have "\<forall>w \<in> set ws. quiet w \<and> op_write l w" using c by auto
  moreover have "state_matches_intent (intent meta) st'" using same_task_intent m c by blast
  ultimately show "(\<forall>w \<in> set ws. op_write l w) \<and> own_get (tips (fold apply_value ws s)) l = Some (tip (patched p q)) \<and>
      patch_config q = None \<and> state_matches_intent (intent meta) st'"
    using c t by (auto simp: no_patch_def patched_def)
qed (use assms(2) in blast)

interpretation structural_ready: plain_op_planner l "plan_structural_ready c r"
  by (rule task_planner) (auto simp: summary_leaf_simps split: operation_state.splits)

interpretation attempt_intent: plain_op_planner l plan_attempt_intent
  by (rule task_planner) (auto simp: summary_leaf_simps split: operation_state.splits)

interpretation request_intent: plain_op_planner l "plan_request_intent i u"
  by (rule task_planner) (auto simp: summary_leaf_simps split: operation_state.splits)

interpretation request_outcome: plain_op_planner l "plan_request_outcome c l u m"
  by (rule task_planner) (auto simp: summary_leaf_simps split: operation_state.splits)

interpretation structural_retry_ready: plain_op_planner l "plan_structural_retry_ready l"
  by (rule task_planner) (auto simp: summary_leaf_simps split: operation_state.splits)

interpretation structural_retry: plain_op_planner l "plan_structural_retry l text now"
  by (rule task_planner) (auto simp: summary_leaf_simps split: operation_state.splits)

text \<open>The remaining steps pass their decision on to one of these.\<close>

lemma delegating_planner:
  assumes "\<And>p st meta s d. plan p st meta s = Inr d \<Longrightarrow> \<exists>f. plain_op_planner l f \<and> f p st meta s = Inr d"
  shows "plain_op_planner l plan"
proof
  fix p st meta s ws st' q r evs
  assume d: "plan p st meta s = Inr (OpCommit ws st' q r evs)"
    and *: "own_get (tips s) l = Some (tip p)" "state_matches_intent (intent meta) st"
  obtain f where f: "plain_op_planner l f" "f p st meta s = Inr (OpCommit ws st' q r evs)" using assms [OF d] by blast
  show "(\<forall>w \<in> set ws. op_write l w) \<and> own_get (tips (fold apply_value ws s)) l = Some (tip (patched p q)) \<and>
      patch_config q = None \<and> state_matches_intent (intent meta) st'"
    by (rule plain_op_planner.plain_commit [OF f *])
next
  fix p st meta s ws rec q r evs
  assume d: "plan p st meta s = Inr (OpFinish ws rec q r evs)"
    and *: "own_get (tips s) l = Some (tip p)" "state_matches_intent (intent meta) st"
  obtain f where f: "plain_op_planner l f" "f p st meta s = Inr (OpFinish ws rec q r evs)" using assms [OF d] by blast
  show "(\<forall>w \<in> set ws. finish_write l (operation_id meta) w) \<and>
      own_get (tips (fold apply_value ws s)) l = Some (tip (patched p q)) \<and> patch_config q = None"
    by (rule plain_op_planner.plain_finish [OF f *])
qed

interpretation attempt_result: plain_op_planner l "plan_attempt_result c l step u res now"
proof (rule delegating_planner)
  fix p st meta s d
  assume "plan_attempt_result c l step u res now p st meta s = Inr d"
  then consider out where "plan_publish_structural c l step u out now p st meta s = Inr d"
    | why where "plan_structural_retry l why now p st meta s = Inr d"
    by (auto simp: plan_attempt_result_def split: operation_state.splits attempt_result.splits if_splits)
  then show "\<exists>f. plain_op_planner l f \<and> f p st meta s = Inr d"
    using publish_structural.plain_op_planner_axioms structural_retry.plain_op_planner_axioms by cases blast+
qed

interpretation recover_structural: plain_op_planner l "plan_recover_structural c l step u now"
proof (rule delegating_planner)
  fix p st meta s d
  assume "plan_recover_structural c l step u now p st meta s = Inr d"
  then consider out where "plan_publish_structural c l step u out now p st meta s = Inr d"
    | why where "plan_structural_retry l why now p st meta s = Inr d"
    by (auto simp: plan_recover_structural_def split: operation_state.splits if_splits)
  then show "\<exists>f. plain_op_planner l f \<and> f p st meta s = Inr d"
    using publish_structural.plain_op_planner_axioms structural_retry.plain_op_planner_axioms by cases blast+
qed

interpretation structural_decision: plain_op_planner l "plan_structural_decision c l step u r hook now"
proof (rule delegating_planner)
  fix p st meta s d
  assume "plan_structural_decision c l step u r hook now p st meta s = Inr d"
  then consider out where "plan_publish_structural c l step u out now p st meta s = Inr d"
    | "plan_structural_ready c r p st meta s = Inr d"
    by (auto simp: plan_structural_decision_def split: operation_state.splits structural_hook.splits summary_kind.splits)
  then show "\<exists>f. plain_op_planner l f \<and> f p st meta s = Inr d"
    using publish_structural.plain_op_planner_axioms structural_ready.plain_op_planner_axioms by cases blast+
qed

lemma preparation_read: "plan_read_preparation p st meta s = Inr d \<Longrightarrow> \<exists>v. d = OpReturn v"
proof (cases st)
  case (SummaryDeciding scope t)
  moreover assume "plan_read_preparation p st meta s = Inr d"
  ultimately show ?thesis
    by (cases "boundary t") (auto simp: plan_read_preparation_def result_simps split: if_splits)
qed (auto simp: plan_read_preparation_def result_simps)

interpretation read_preparation: plain_op_planner l plan_read_preparation
  by unfold_locales (auto dest!: preparation_read)

end
