(* ===== verification/LaneRestart.thy ===== *)
theory LaneRestart
  imports DriveTools DriveSummary
begin

text \<open>
  What the lane commands and operation steps guarantee together: whole histories of calls, and restarting a
  harness from its session.
\<close>

section \<open>Calls\<close>

datatype 'n call =
    AcceptRun string "nat \<Rightarrow> string" run_request
  | AcceptCompaction string string "string option"
  | AcceptNavigation string string "string option" navigate_options "string option" "json option"
  | RequestAbort string
  | Enqueue inbox_kind string queue_input "json list"
  | CancelQueued string
  | RecordUsage "'n new_usage"
  | SetModel string string
  | SetThinking string
  | SetActiveTools "string list"
  | Append string pending_entry
  | Acquire lane_configuration "string option"
  | StartRun "(string \<times> agent_message) list"
  | CheckpointStep string "(string \<times> json) option"
  | FinishRun string bool "string list" "(string \<times> agent_message) option" "string \<Rightarrow> 'n harness_event list"
  | AbortedTerminal
  | CommitNavigationStep
  | GenerationIntent string string "nat \<times> nat"
  | RetryReady
  | ConfigurationFailure operation_error
  | PublishResponse bool agent_message "(string \<times> json) option" "nat \<Rightarrow> string"
  | RecoverResponse "(string \<times> json) option" "nat \<Rightarrow> string"
  | PollIntent string string
  | FrameProgress string string json
  | ToolIntent tool_call tool_ref json bool
  | ClearReplay string string tool_call tool_ref
  | SetMemo string tool_call string "json option"
  | ToolProgress string string tool_call json
  | ToolOutcomeStep tool_call tool_outcome
  | CommitPlacement "(tool_call \<times> agent_message) list" "nat \<Rightarrow> string" string
  | StructuralDecision string string string "'n structural_hook"
  | AttemptIntent
  | RequestIntent nat string
  | RequestOutcome string agent_message
  | AttemptResult string string "'n attempt_result"
  | RecoverStructural string string
  | StructuralRetryReady

fun run_call :: "'n::{zero,plus} runtime_config \<Rightarrow> string \<Rightarrow> 'n call \<Rightarrow> int \<Rightarrow> 'n harness \<Rightarrow> 'n harness" where
  "run_call c l (AcceptRun oid ids req) now h = fst (accept_run c l oid ids req now h)"
| "run_call c l (AcceptCompaction oid task custom) now h =
    fst (run_command l (plan_accept_compaction c l oid task now custom) now h)"
| "run_call c l (AcceptNavigation oid task target opts observed prep) now h =
    fst (run_command l (plan_accept_navigation c l oid task now target opts observed prep) now h)"
| "run_call c l (RequestAbort oid) now h = fst (run_command l (plan_request_abort l oid now) now h)"
| "run_call c l (Enqueue kind i input images) now h = fst (enqueue l kind i input images now h)"
| "run_call c l (CancelQueued i) now h = fst (run_command l (plan_cancel_queued l i) now h)"
| "run_call c l (RecordUsage u) now h = fst (run_command l (plan_record_usage l u) now h)"
| "run_call c l (SetModel pr m) now h = fst (run_command l (plan_set_model l pr m) now h)"
| "run_call c l (SetThinking t) now h = fst (run_command l (plan_set_thinking l t) now h)"
| "run_call c l (SetActiveTools ts) now h = fst (run_command l (plan_set_active_tools l ts) now h)"
| "run_call c l (Append i v) now h = fst (run_command l (plan_append l i v) now h)"
| "run_call c l (Acquire seed create_at) now h = fst (acquire_lane seed l create_at h)"
| "run_call c l (StartRun reserved) now h = fst (run_command l (continue_operation l (plan_start_run l reserved)) now h)"
| "run_call c l (CheckpointStep step threshold) now h =
    fst (run_command l (continue_operation l (plan_checkpoint c l step threshold)) now h)"
| "run_call c l (FinishRun step fin planned follow pending) now h =
    fst (run_command l (continue_operation l (plan_finish_run c l step fin planned follow pending now)) now h)"
| "run_call c l AbortedTerminal now h = fst (run_command l (settle_operation l (plan_aborted_terminal l now)) now h)"
| "run_call c l CommitNavigationStep now h =
    fst (run_command l (continue_operation l (plan_commit_navigation l now)) now h)"
| "run_call c l (GenerationIntent r u limits) now h =
    fst (run_command l (continue_operation l (plan_generation_intent l r u limits)) now h)"
| "run_call c l RetryReady now h = fst (run_command l (continue_operation l (plan_retry_ready l)) now h)"
| "run_call c l (ConfigurationFailure err) now h =
    fst (run_command l (continue_operation l (plan_configuration_failure l err now)) now h)"
| "run_call c l (PublishResponse recovery m prep ids) now h =
    fst (run_command l (settle_operation l (plan_publish_response c l recovery m prep ids now)) now h)"
| "run_call c l (RecoverResponse prep ids) now h =
    fst (run_command l (settle_operation l (plan_recover_response c l prep ids now)) now h)"
| "run_call c l (PollIntent r u) now h = fst (run_command l (continue_operation l (plan_poll_intent l r u)) now h)"
| "run_call c l (FrameProgress oid r frame) now h = fst (run_command l (plan_frame_progress oid r frame) now h)"
| "run_call c l (ToolIntent x t args safe) now h =
    fst (run_command l (continue_operation l (plan_tool_intent l x t args safe)) now h)"
| "run_call c l (ClearReplay oid turn x t) now h = fst (run_command l (plan_clear_replay l oid turn x t) now h)"
| "run_call c l (SetMemo oid x n v) now h = fst (run_command l (plan_set_memo oid x n v) now h)"
| "run_call c l (ToolProgress oid turn x v) now h = fst (run_command l (plan_tool_progress oid turn x v) now h)"
| "run_call c l (ToolOutcomeStep x out) now h =
    fst (run_command l (settle_operation l (plan_tool_outcome l x out)) now h)"
| "run_call c l (CommitPlacement items uids turn) now h =
    fst (run_command l (settle_operation l (plan_commit_placement c l items uids turn)) now h)"
| "run_call c l (StructuralDecision step u r hook) now h =
    fst (run_command l (continue_operation l (plan_structural_decision c l step u r hook now)) now h)"
| "run_call c l AttemptIntent now h = fst (run_command l (continue_operation l plan_attempt_intent) now h)"
| "run_call c l (RequestIntent i u) now h = fst (run_command l (continue_operation l (plan_request_intent i u)) now h)"
| "run_call c l (RequestOutcome u m) now h =
    fst (run_command l (settle_operation l (plan_request_outcome c l u m)) now h)"
| "run_call c l (AttemptResult step u res) now h =
    fst (run_command l (continue_operation l (plan_attempt_result c l step u res now)) now h)"
| "run_call c l (RecoverStructural step u) now h =
    fst (run_command l (continue_operation l (plan_recover_structural c l step u now)) now h)"
| "run_call c l StructuralRetryReady now h =
    fst (run_command l (continue_operation l (plan_structural_retry_ready l)) now h)"

text \<open>An operation id given to an accepting call is not one that another lane is working on.\<close>

fun call_ids :: "'n call \<Rightarrow> string set" where
  "call_ids (AcceptRun oid _ _) = {oid}"
| "call_ids (AcceptCompaction oid _ _) = {oid}"
| "call_ids (AcceptNavigation oid _ _ _ _ _) = {oid}"
| "call_ids _ = {}"

fun run_calls :: "'n::{zero,plus} runtime_config \<Rightarrow> (string \<times> 'n call \<times> int) list \<Rightarrow> 'n harness \<Rightarrow> 'n harness" where
  "run_calls c [] h = h"
| "run_calls c ((l, call, now) # cs) h = run_calls c cs (run_call c l call now h)"

fun ids_fresh :: "'n::{zero,plus} runtime_config \<Rightarrow> (string \<times> 'n call \<times> int) list \<Rightarrow> 'n harness \<Rightarrow> bool" where
  "ids_fresh c [] h = True"
| "ids_fresh c ((l, call, now) # cs) h = (ids_free h l (call_ids call) \<and> ids_fresh c cs (run_call c l call now h))"

section \<open>Every call keeps the lanes stored\<close>

lemma own_ids_free: "in_sync h \<Longrightarrow> own_get (hlanes h) l = Some p \<Longrightarrow> ids_free h l (own_ids p)"
  using current_ids_distinct [of h l p] by (auto simp: ids_free_def own_ids_def)

lemma own_planner_sync: "lane_planner l plan own_ids \<Longrightarrow> in_sync h \<Longrightarrow> in_sync (fst (run_command l plan now h))"
  using lane_planner.keeps_sync own_ids_free by blast

lemma settled_planner:
  assumes "op_planner l plan"
  shows "lane_planner l (settle_operation l plan) own_ids"
  by (rule lane_planner.intro) (use op_planner.settled_stored [OF assms] in blast)+

lemma continued_planner: "op_planner l plan \<Longrightarrow> lane_planner l (continue_operation l plan) own_ids"
  unfolding continue_operation_def by (rule settled_planner [OF op_planner.continues])

lemmas own_planners =
  request_abort.lane_planner_axioms enqueue.lane_planner_axioms cancel_queued.lane_planner_axioms
  record_usage.lane_planner_axioms set_configuration.lane_planner_axioms append.lane_planner_axioms
  continued_planner [OF start_run.op_planner_axioms] continued_planner [OF checkpoint.op_planner_axioms]
  continued_planner [OF finish_run.op_planner_axioms] continued_planner [OF commit_navigation.op_planner_axioms]
  settled_planner [OF aborted_terminal.op_planner_axioms]
  continued_planner [OF generation_intent.op_planner_axioms] continued_planner [OF retry_ready.op_planner_axioms]
  continued_planner [OF configuration_failure.op_planner_axioms] settled_planner [OF publish_response.op_planner_axioms]
  settled_planner [OF recover_response.op_planner_axioms] continued_planner [OF poll_intent.op_planner_axioms]
  frame_progress.lane_planner_axioms continued_planner [OF tool_intent.op_planner_axioms]
  clear_replay.lane_planner_axioms set_memo.lane_planner_axioms tool_progress.lane_planner_axioms
  settled_planner [OF tool_outcome.op_planner_axioms] settled_planner [OF commit_placement.op_planner_axioms]
  continued_planner [OF structural_decision.op_planner_axioms] continued_planner [OF attempt_intent.op_planner_axioms]
  continued_planner [OF request_intent.op_planner_axioms] settled_planner [OF request_outcome.op_planner_axioms]
  continued_planner [OF attempt_result.op_planner_axioms] continued_planner [OF recover_structural.op_planner_axioms]
  continued_planner [OF structural_retry_ready.op_planner_axioms]

lemma acquire_lane_sync:
  fixes h :: "'n harness"
  assumes "in_sync h"
  shows "in_sync (fst (acquire_lane seed l create_at h))"
proof (cases "hclosed h = None \<and> l \<noteq> [] \<and> nul \<notin> set l \<and> own_get (hlanes h) l = None")
  case False
  then show ?thesis using assms by (cases "hclosed h") (auto simp: acquire_lane_def)
next
  case True
  let ?r = "lane_store.truncate (hstore h)"
  have un: "unconfigured (hstore h) l" using assms True by (simp add: in_sync_def)
  then have nocfg: "own_get (configs ?r) l = None" "own_get (lane_states ?r) l = None" by (simp_all add: unconfigured_def)
  define stored where "stored = (case own_get (tips ?r) l of None \<Rightarrow> Absent | Some t \<Rightarrow> BranchOnly t)"
  have read: "read_lane_storage ?r l = Inr stored"
    using nocfg by (cases "own_get (tips ?r) l") (simp_all add: read_lane_storage_def stored_def)
  define t where "t = (case stored of BranchOnly t \<Rightarrow> t | _ \<Rightarrow> create_at)"
  define ws :: "'n lane_write list" where "ws = (if stored = Absent then [SetTip l t] else []) @
    [SetConfig l seed, SetLaneState l (durable_lane_state None [] None)]"
  have acquire: "acquire_lane seed l create_at h =
      (if stored = Absent \<and> t \<noteq> None \<and> the t \<notin> eid ` set (committed (hstore h)) then (h, LaneUnknownTarget (the t))
       else (case commit_store (hstore h) ws of
           Inl f \<Rightarrow> (fault f h, LaneRefused (ClosedByFault f))
         | Inr s' \<Rightarrow> (h\<lparr>hstore := s', hseq := hseq h + int (length ws), hlanes := put l (initial_lane t seed) (hlanes h),
             emitted := emitted h @ [lane_event l (LaneCreated t)]\<rparr>, LaneReady)))"
    using True read by (cases stored) (auto simp: acquire_lane_def t_def ws_def Let_def stored_def split: option.splits sum.split)
  show ?thesis
  proof (cases "commit_store (hstore h) ws")
    case (Inl f)
    then show ?thesis using assms acquire by (auto simp: in_sync_def)
  next
    case (Inr s')
    have s': "s' = fold apply_value ws (hstore h)" using Inr by (rule commit_store_apply)
    have w: "\<forall>w \<in> set ws. lane_write_of l {} w" by (auto simp: ws_def)
    have new: "stored_lane s' l (initial_lane t seed)"
      using stored_def t_def by (cases "own_get (tips (hstore h)) l") (auto simp: s' ws_def initial_lane_def stored_simps)
    have "stored_lane s' k q" if "own_get (put l (initial_lane t seed) (hlanes h)) k = Some q" for k q
    proof (cases "k = l")
      case True
      then show ?thesis using that new by (simp add: own_simps)
    next
      case False
      then have "stored_lane (hstore h) k q" using that assms by (simp add: own_simps in_sync_def)
      then show ?thesis unfolding s' using stored_other_lane [OF w False] by blast
    qed
    moreover have "unconfigured s' k" if "own_get (put l (initial_lane t seed) (hlanes h)) k = None" for k
    proof -
      have "k \<noteq> l" "own_get (hlanes h) k = None" using that by (auto simp: own_simps split: if_splits)
      then show ?thesis unfolding s' using unconfigured_other_lane [OF w] in_syncD(2) [OF assms] by blast
    qed
    ultimately show ?thesis using assms acquire Inr by (auto simp: in_sync_def)
  qed
qed

lemma run_call_sync:
  assumes "in_sync h" and "ids_free h l (call_ids call)"
  shows "in_sync (run_call c l call now h)"
proof (cases call)
  case (AcceptRun oid ids req)
  then show ?thesis using assms accept_run.keeps_sync [of h l oid]
    by (auto simp: accept_run_def split: option.splits sum.splits)
next
  case (AcceptCompaction oid task custom)
  then show ?thesis using assms accept_compaction.keeps_sync [of h l oid] by simp
next
  case (AcceptNavigation oid task target opts observed prep)
  then show ?thesis using assms accept_navigation.keeps_sync [of h l oid] by simp
next
  case (Enqueue kind i input images)
  have "in_sync (fst (run_command l (plan_enqueue l kind i m) now h))" for m
    using own_planners(2) assms(1) by (rule own_planner_sync)
  then show ?thesis using assms Enqueue by (auto simp: enqueue_def split: option.split sum.split)
next
  case (Acquire seed create_at)
  then show ?thesis using assms acquire_lane_sync by simp
qed (use assms(1) own_planners in \<open>auto simp: plan_set_model_def plan_set_thinking_def plan_set_active_tools_def
    intro!: own_planner_sync\<close>)

lemma run_calls_sync: "in_sync h \<Longrightarrow> ids_fresh c cs h \<Longrightarrow> in_sync (run_calls c cs h)"
  by (induction c cs h rule: run_calls.induct) (simp_all add: run_call_sync)

section \<open>Restarting\<close>

lemma created_in_sync:
  assumes "create_harness s sq = Inr h"
  shows "in_sync h \<and> hstore h = s"
proof -
  obtain m where m: "restore_session (lane_store.truncate s) = Inr m"
    and h: "h = \<lparr>hstore = s, hseq = sq, hlanes = m, hclosed = None, idle_owners = [], emitted = []\<rparr>"
    using assms by (auto simp: create_harness_def result_simps)
  have c: "lane_intact (lane_store.truncate s) l" "own_get m l = Some p \<longleftrightarrow> stored_lane s l p" for l p
    using restore_session_cases [of "lane_store.truncate s"] m restore_truncate [of s] by auto
  have "unconfigured s l" if "own_get m l = None" for l
  proof -
    have "\<not> is_ok (restore_lane (lane_store.truncate s) l)"
      using c(2) [of l] that restore_truncate [of s l] by (auto simp: is_ok_iff)
    then show ?thesis using c(1) [of l]
      by (cases "own_get (tips s) l"; cases "own_get (configs s) l"; cases "own_get (lane_states s) l")
        (auto simp: lane_intact_def read_lane_storage_def unconfigured_def)
  qed
  then show ?thesis using c(2) h by (simp add: in_sync_def)
qed

lemma in_sync_restores:
  assumes "in_sync h"
  shows "\<exists>h'. create_harness (hstore h) sq = Inr h' \<and> own_get (hlanes h') = own_get (hlanes h)"
proof -
  let ?r = "lane_store.truncate (hstore h)"
  have none: "read_lane_storage ?r l = Inr Absent \<or> (\<exists>t. read_lane_storage ?r l = Inr (BranchOnly t))"
    if "own_get (hlanes h) l = None" for l
    using in_syncD(2) [OF assms that]
    by (cases "own_get (tips (hstore h)) l") (auto simp: unconfigured_def read_lane_storage_def)
  have some: "restore_lane ?r l = Inr p" if "own_get (hlanes h) l = Some p" for l p
    using in_syncD(1) [OF assms that] by (simp add: restore_truncate)
  have intact: "lane_intact ?r l" for l
    using none [of l] some [of l] by (cases "own_get (hlanes h) l") (auto simp: lane_intact_def split: sum.split classified.split)
  then obtain m where m: "restore_session ?r = Inr m" "\<And>l p. own_get m l = Some p \<longleftrightarrow> restore_lane ?r l = Inr p"
    using restore_session_cases [of ?r] by (auto split: sum.splits)
  have "own_get m l = own_get (hlanes h) l" for l
  proof (cases "own_get (hlanes h) l")
    case None
    then have "restore_lane ?r l \<noteq> Inr p" for p using none [of l] by (auto simp: restore_lane_def)
    then show ?thesis using m(2) [of l] None by (metis not_None_eq)
  next
    case (Some p)
    then show ?thesis using m(2) [of l p] some by simp
  qed
  then show ?thesis using m(1) by (auto simp: create_harness_def)
qed

text \<open>
  C5. What a lane holds in memory is what its session holds: take a harness created on a session and any
  sequence of calls on its lanes in which no operation id a caller gives is in use by another lane (runs,
  compactions and navigations accepted, queued and cancelled input, aborts, configuration, entries, new lanes,
  and the steps of an operation: starting, generations and their responses, retries and recovery, polls, tool
  calls and their progress, placement of results, summaries, checkpoints, finishing and cancellation); a harness
  created again from the session as it is then starts, and has exactly the same lanes in the same states.
\<close>

theorem restart_restores_lanes:
  assumes "create_harness s sq = Inr h" and "ids_fresh c cs h"
  shows "\<exists>h'. create_harness (hstore (run_calls c cs h)) sq' = Inr h' \<and>
    own_get (hlanes h') = own_get (hlanes (run_calls c cs h))"
  using assms created_in_sync run_calls_sync in_sync_restores by blast

section \<open>A small session\<close>

definition demo_lane_config :: lane_configuration where
  "demo_lane_config = \<lparr>provider = ''p'', model_id = ''m'', thinking_level = ''off'', active_tools = []\<rparr>"

definition demo_lanes :: "nat store" where
  "demo_lanes = \<lparr>tips = [(''a'', Some ''e''), (''b'', Some ''e'')],
     configs = [(''a'', demo_lane_config), (''b'', demo_lane_config)],
     lane_states = [(''a'', durable_lane_state None [] None), (''b'', durable_lane_state (Some ''x'') [] None)],
     op_metas = [(''x'', \<lparr>operation_id = ''x'', meta_lane = ''b'', source_tip = Some ''e'', started_at = 1, intent = ICompaction None\<rparr>)],
     op_states = [(''x'', SummaryDeciding
       \<lparr>control = CancelRequested 2, settings = \<lparr>compaction_settings = JNull, steering_mode = QAll, follow_up_mode = QAll,
          parallel_tools = False\<rparr>, latest_assistant = None\<rparr>
       \<lparr>task_id = ''t'', reason = Some Manual, instructions = None, boundary = FinishBoundary\<rparr>)],
     committed = [\<lparr>eid = ''e'', parent_id = None, custom_type = Some ''c'', body = Custom None\<rparr>],
     usage_rows = [], pendings = [], results = [], labels = [],
     owned_values = [((Preparation, ''x:t''), JNull), ((Preparation, ''y:t''), JNull)]\<rparr>"

definition demo_runtime :: "nat runtime_config" where
  "demo_runtime = \<lparr>cfg_compaction = JNull, cfg_steering = QAll, cfg_follow_up = QAll, cfg_parallel = False, cfg_stream = JNull,
     retry_enabled = False, retry_max = 0, retry_base = 0, retry_max_delay = None, cfg_projects = (\<lambda>_. False),
     skill_text = (\<lambda>_ _. None), template_text = (\<lambda>_ _. None), prepare_compaction = (\<lambda>_ _. Inr None),
     prepare_branch = (\<lambda>_. JNull), cfg_number = (\<lambda>q. nat \<lfloor>q\<rfloor>), cfg_model = (\<lambda>_ _. Some (100, 1000)),
     cfg_tool = (\<lambda>_. True), overflow_text = (\<lambda>_. False), non_overflow_text = (\<lambda>_. False), limit_text = (\<lambda>_. False),
     retryable_text = (\<lambda>_. False), reduce_frames = (\<lambda>_. None)\<rparr>"

definition demo_harness :: "nat harness" where
  "demo_harness = \<lparr>hstore = demo_lanes, hseq = 0,
     hlanes = [(''a'', initial_lane (Some ''e'') demo_lane_config),
       (''b'', \<lparr>tip = Some ''e'', configuration = demo_lane_config, inbox = [], last_done = None,
          operation = Some \<lparr>op_meta = snd (hd (op_metas demo_lanes)), op_state = snd (hd (op_states demo_lanes))\<rparr>\<rparr>)],
     hclosed = None, idle_owners = [], emitted = []\<rparr>"

lemma demo_created: "create_harness demo_lanes 0 = Inr demo_harness"
  by (simp add: create_harness_def demo_harness_def demo_lanes_def restore_session_def lane_names_def restore_step_def
      read_lane_storage_def restore_lane_state_def restore_operation_def initial_lane_def durable_lane_state_def
      lane_store.truncate_def)

theorem restart_restores_lanes_witness:
  "\<exists>h'. create_harness (hstore (run_calls demo_runtime
       [(''a'', AcceptRun ''op'' (\<lambda>_. ''e2'') (PromptText ''hi'' []), 5), (''b'', AbortedTerminal, 6)] demo_harness)) 9 = Inr h'"
proof -
  let ?cs = "[(''a'', AcceptRun ''op'' (\<lambda>_. ''e2'') (PromptText ''hi'' []), 5), (''b'', AbortedTerminal, 6)] :: (string \<times> nat call \<times> int) list"
  have "ids_fresh demo_runtime ?cs demo_harness"
    by (auto simp: ids_free_def demo_harness_def demo_lanes_def current_id_def split: if_splits)
  then show ?thesis using restart_restores_lanes [OF demo_created, of demo_runtime ?cs 9] by blast
qed

text \<open>
  An operation id of the caller's that another lane is working on is accepted. The other lane's operation is
  overwritten, and the session can no longer be restored.
\<close>

lemma reused_operation_id:
  "create_harness (hstore (run_call demo_runtime ''a'' (AcceptRun ''x'' (\<lambda>_. ''e2'') (PromptText ''hi'' [])) 5 demo_harness)) 9
    = Inl (WrongLane ''x'' ''a'')"
  by (simp add: accept_run_def run_command_def plan_accept_run_def demo_harness_def demo_lanes_def demo_runtime_def
      initial_lane_def user_message_def pending_assistant_def enumerate_eq_zip message_entry_def commit_store_def
      read_lane_queues_def Let_def own_set_def own_insert_def own_before_def durable_lane_state_def
      create_harness_def restore_session_def lane_names_def restore_step_def read_lane_storage_def
      restore_lane_state_def restore_operation_def lane_store.truncate_def)

end
