(* ===== verification/ToolBatch.thy ===== *)
theory ToolBatch
  imports LaneRestart
begin

text \<open>
  What holds of the tool batch of a lane at every moment: the completed calls are the first ones, and their results
  are the entries from the lane's tip back to the message that made the calls, newest first. Every planner of the
  lane's commands and of the operation's steps keeps it.
\<close>

section \<open>Entries of a store\<close>

definition entry_of_id :: "'n store \<Rightarrow> string \<Rightarrow> 'n new_entry option" where
  "entry_of_id s i = find (\<lambda>e. eid e = i) (committed s)"

text \<open>From \<open>t\<close> on, the parents lead through these entries to \<open>base\<close>.\<close>

fun reads_back :: "'n store \<Rightarrow> string option \<Rightarrow> string list \<Rightarrow> string option \<Rightarrow> bool" where
  "reads_back s t [] base = (t = base)"
| "reads_back s t (i # is) base = (t = Some i \<and> (case entry_of_id s i of
     None \<Rightarrow> False | Some e \<Rightarrow> reads_back s (parent_id e) is base))"

text \<open>Message \<open>r\<close> is the result of the call at index \<open>i\<close> of message \<open>m\<close>.\<close>

definition answers :: "agent_message \<Rightarrow> nat \<Rightarrow> agent_message \<Rightarrow> bool" where
  "answers m i r \<longleftrightarrow> i < length (array_field m ''content'') \<and> is_tool_call (array_field m ''content'' ! i) \<and>
     is_tool_result r \<and> string_field r ''toolCallId'' = Some (ref_id (tool_ref_of (array_field m ''content'' ! i)))"

definition answered :: "'n store \<Rightarrow> agent_message \<Rightarrow> tool_call \<Rightarrow> bool" where
  "answered s m x \<longleftrightarrow> (case entry_of_id s (result_entry x) of
     None \<Rightarrow> False | Some e \<Rightarrow> (case body e of Message r _ \<Rightarrow> answers m (source_index x) r | _ \<Rightarrow> False))"

definition assistant_of :: "'n store \<Rightarrow> string \<Rightarrow> agent_message option" where
  "assistant_of s i = (case entry_of_id s i of
     None \<Rightarrow> None | Some e \<Rightarrow> (case body e of Message m _ \<Rightarrow> if role m = ''assistant'' then Some m else None | _ \<Rightarrow> None))"

text \<open>Commits only add entries.\<close>

definition grows :: "'n store \<Rightarrow> 'n store \<Rightarrow> bool" where
  "grows s s' \<longleftrightarrow> (\<exists>es. committed s' = committed s @ es)"

lemma grows_refl [simp]: "grows s s"
  by (simp add: grows_def)

lemma grows_trans: "grows s t \<Longrightarrow> grows t u \<Longrightarrow> grows s u"
  by (auto simp: grows_def)

lemma grows_fold: "grows s (fold apply_value ws s)"
proof (induction ws arbitrary: s)
  case (Cons w ws)
  have "grows s (apply_value w s)" by (cases w) (auto simp: grows_def)
  then show ?case using Cons.IH [of "apply_value w s"] by (auto intro: grows_trans)
qed simp

lemma grows_commit: "commit_store s ws = Inr s' \<Longrightarrow> grows s s'"
  using commit_store_apply grows_fold by blast

lemma find_append: "find P (xs @ ys) = (case find P xs of None \<Rightarrow> find P ys | Some x \<Rightarrow> Some x)"
  by (induction xs) auto

lemma entry_grows: "grows s s' \<Longrightarrow> entry_of_id s i = Some e \<Longrightarrow> entry_of_id s' i = Some e"
  by (auto simp: grows_def entry_of_id_def find_append)

lemma reads_back_grows: "grows s s' \<Longrightarrow> reads_back s t is base \<Longrightarrow> reads_back s' t is base"
  by (induction "is" arbitrary: t) (auto dest: entry_grows split: option.splits)

lemma answered_grows: "grows s s' \<Longrightarrow> answered s m x \<Longrightarrow> answered s' m x"
  by (auto simp: answered_def dest: entry_grows split: option.splits)

lemma assistant_grows: "grows s s' \<Longrightarrow> assistant_of s i = Some m \<Longrightarrow> assistant_of s' i = Some m"
  by (auto simp: assistant_of_def dest: entry_grows split: option.splits)

text \<open>A transaction that goes through has given its entries ids that were free.\<close>

lemma inserted_found:
  "commit_store s ws = Inr s' \<Longrightarrow> InsertEntry e \<in> set ws \<Longrightarrow> entry_of_id s' (eid e) = Some e"
proof (induction ws arbitrary: s)
  case (Cons w ws)
  then obtain t where t: "check_write w s = Inr t" "commit_store t ws = Inr s'"
    by (auto simp: commit_store_def result_simps)
  show ?case
  proof (cases "w = InsertEntry e")
    case True
    have "t = apply_value w s" using t(1) by (rule check_write_apply)
    moreover have "eid e \<notin> eid ` set (committed s)" using t(1) True by (auto split: if_splits)
    moreover from this have "find (\<lambda>y. eid y = eid e) (committed s) = None"
      by (metis (mono_tags, lifting) find_None_iff image_eqI)
    ultimately have "entry_of_id t (eid e) = Some e" using True by (simp add: entry_of_id_def find_append)
    then show ?thesis using grows_commit [OF t(2)] entry_grows by blast
  next
    case False
    then show ?thesis using Cons t by auto
  qed
qed simp

section \<open>What holds of a batch\<close>

definition completed_calls :: "tool_batch \<Rightarrow> tool_call list" where
  "completed_calls b = takeWhile is_completed (calls b)"

definition open_calls :: "tool_batch \<Rightarrow> tool_call list" where
  "open_calls b = dropWhile is_completed (calls b)"

definition names_call :: "agent_message \<Rightarrow> tool_call \<Rightarrow> bool" where
  "names_call m x \<longleftrightarrow> source_index x < length (array_field m ''content'') \<and>
     is_tool_call (array_field m ''content'' ! source_index x)"

definition batch_ok :: "'n store \<Rightarrow> string option \<Rightarrow> tool_batch \<Rightarrow> bool" where
  "batch_ok s t b \<longleftrightarrow> (case assistant_of s (assistant_entry b) of
     None \<Rightarrow> False
   | Some m \<Rightarrow> list_all (names_call m) (calls b) \<and> distinct (map result_entry (calls b)) \<and>
       list_all (\<lambda>x. \<not> is_completed x) (open_calls b) \<and> list_all (answered s m) (completed_calls b) \<and>
       reads_back s t (rev (map result_entry (completed_calls b))) (Some (assistant_entry b)))"

text \<open>Results that have been read and not yet placed are the next ones, and they fit their calls.\<close>

definition items_ok :: "'n store \<Rightarrow> tool_batch \<Rightarrow> (tool_call \<times> agent_message) list \<Rightarrow> bool" where
  "items_ok s b items \<longleftrightarrow> (case assistant_of s (assistant_entry b) of
     None \<Rightarrow> False
   | Some m \<Rightarrow> take (length items) (open_calls b) = map fst items \<and>
       list_all (\<lambda>(x, r). is_ready x \<and> answers m (source_index x) r) items)"

text \<open>A lane with the results its drive pass has read from it, if any.\<close>

type_synonym reading = "(tool_call \<times> agent_message) list option"

definition lane_fine :: "'n store \<Rightarrow> lane_projection \<Rightarrow> reading \<Rightarrow> bool" where
  "lane_fine s p rd \<longleftrightarrow> (case current_batch p of
     None \<Rightarrow> rd = None
   | Some b \<Rightarrow> batch_ok s (tip p) b \<and> (case rd of None \<Rightarrow> True | Some items \<Rightarrow> items_ok s b items))"

lemma batch_ok_grows: "grows s s' \<Longrightarrow> batch_ok s t b \<Longrightarrow> batch_ok s' t b"
  by (auto simp: batch_ok_def list_all_iff assistant_grows answered_grows reads_back_grows split: option.splits)

lemma items_ok_grows: "grows s s' \<Longrightarrow> items_ok s b items \<Longrightarrow> items_ok s' b items"
  by (auto simp: items_ok_def assistant_grows split: option.splits)

lemma lane_fine_grows: "grows s s' \<Longrightarrow> lane_fine s p rd \<Longrightarrow> lane_fine s' p rd"
  by (auto simp: lane_fine_def batch_ok_grows items_ok_grows split: option.splits)

lemma lane_fine_forget: "lane_fine s p rd \<Longrightarrow> lane_fine s p None"
  by (auto simp: lane_fine_def split: option.splits)

section \<open>Planners that keep it\<close>

definition fine :: "'n harness \<Rightarrow> (string \<Rightarrow> reading) \<Rightarrow> bool" where
  "fine h rd \<longleftrightarrow> (\<forall>l. case own_get (hlanes h) l of None \<Rightarrow> rd l = None | Some p \<Rightarrow> lane_fine (hstore h) p (rd l))"

lemma fineD:
  "fine h rd \<Longrightarrow> own_get (hlanes h) k = None \<Longrightarrow> rd k = None"
  "fine h rd \<Longrightarrow> own_get (hlanes h) k = Some q \<Longrightarrow> lane_fine (hstore h) q (rd k)"
  by (auto simp: fine_def split: option.splits dest: spec [of _ k])

lemma fineI:
  "(\<And>k. own_get (hlanes h) k = None \<Longrightarrow> rd k = None) \<Longrightarrow>
    (\<And>k q. own_get (hlanes h) k = Some q \<Longrightarrow> lane_fine (hstore h) q (rd k)) \<Longrightarrow> fine h rd"
  by (simp add: fine_def split: option.split)

text \<open>The contract: under \<open>ok\<close> a commit of the planner keeps its lane fine, with what is left of the reading.\<close>

locale batch_planner =
  fixes plan :: "('n::{zero,plus}, 'r) planner"
    and ok :: "'n store \<Rightarrow> lane_projection \<Rightarrow> reading \<Rightarrow> bool"
    and left :: "reading \<Rightarrow> reading"
  assumes left_reading: "left rd = rd \<or> left rd = None"
    and keeps_lane: "lane_fine s p rd \<Longrightarrow> ok s p rd \<Longrightarrow> plan p s = Inr (Commit ws nxt r evs) \<Longrightarrow>
      commit_store s ws = Inr s' \<Longrightarrow> lane_fine s' nxt (left rd)"
begin

lemma keeps_fine:
  assumes "fine h rd" and "\<And>p. own_get (hlanes h) l = Some p \<Longrightarrow> ok (hstore h) p (rd l)"
  shows "fine (fst (run_command l plan now h)) (rd(l := left (rd l)))"
proof -
  let ?h = "fst (run_command l plan now h)"
  note old = fineD [OF assms(1)]
  have left: "left (rd l) = rd l \<or> left (rd l) = None" by (rule left_reading)
  consider "hstore ?h = hstore h" "hlanes ?h = hlanes h"
    | p ws nxt r evs where "own_get (hlanes h) l = Some p" "plan p (hstore h) = Inr (Commit ws nxt r evs)"
      "commit_store (hstore h) ws = Inr (hstore ?h)" "hlanes ?h = put l nxt (hlanes h)"
    using run_command_effect [OF refl, of l plan now h] by blast
  then show ?thesis
  proof cases
    case 1
    moreover have "lane_fine (hstore h) p (left (rd l))" if "own_get (hlanes h) l = Some p" for p
      using old(2) [OF that] left lane_fine_forget by auto
    ultimately show ?thesis using old left by (auto simp: fine_def split: option.split)
  next
    case 2
    have "lane_fine (hstore ?h) nxt (left (rd l))"
      using keeps_lane [OF old(2) [OF 2(1)] assms(2) [OF 2(1)] 2(2,3)] .
    then show ?thesis using old 2(4) lane_fine_grows [OF grows_commit [OF 2(3)]]
      by (auto simp: fine_def own_simps split: option.split)
  qed
qed

end

text \<open>Most commands leave the batch and, while there is one, the tip alone.\<close>

locale batch_keeper =
  fixes plan :: "('n::{zero,plus}, 'r) planner"
  assumes kept: "plan p s = Inr (Commit ws nxt r evs) \<Longrightarrow>
      current_batch nxt = current_batch p \<and> (current_batch p \<noteq> None \<longrightarrow> tip nxt = tip p)"

sublocale batch_keeper \<subseteq> batch_planner plan "\<lambda>_ _ _. True" id
proof
  fix s p rd ws nxt r evs s'
  assume fine: "lane_fine s p rd" and plan: "plan p s = Inr (Commit ws nxt r evs)" and c: "commit_store s ws = Inr s'"
  show "lane_fine s' nxt (id rd)"
    using lane_fine_grows [OF grows_commit [OF c] fine] kept [OF plan] by (auto simp: lane_fine_def split: option.splits)
qed simp

context batch_keeper
begin

lemma keeps: "fine h rd \<Longrightarrow> fine (fst (run_command l plan now h)) rd"
  using keeps_fine [of h rd l now] by simp

end

fun batch_of :: "operation_state \<Rightarrow> tool_batch option" where
  "batch_of (Tools _ b) = Some b"
| "batch_of _ = None"

lemma current_batch_of: "current_batch p = (case operation p of None \<Rightarrow> None | Some oper \<Rightarrow> batch_of (op_state oper))"
  by (auto simp: current_batch_def split: option.split operation_state.split)

lemma continued_decision:
  "continue_plan plan p st meta s = Inr (OpCommit ws st' q r evs) \<Longrightarrow>
    \<exists>r0. plan p st meta s = Inr (OpCommit ws st' q r0 evs)"
  "continue_plan plan p st meta s = Inr (OpFinish ws rec q r evs) \<Longrightarrow>
    \<exists>r0. plan p st meta s = Inr (OpFinish ws rec q r0 evs)"
  by (cases "plan p st meta s"; cases "projr (plan p st meta s)";
      simp add: continue_plan_def map_op_decision_def split: control.splits)+

text \<open>Steps of an operation that is not at a batch, and does not start one.\<close>

locale batchless_step =
  fixes plan :: "('n::{zero,plus}, 'r) op_planner"
  assumes batchless_commit: "plan p st meta s = Inr (OpCommit ws st' q r evs) \<Longrightarrow> batch_of st = None \<and> batch_of st' = None"
    and batchless_finish: "plan p st meta s = Inr (OpFinish ws rec q r evs) \<Longrightarrow> batch_of st = None"
begin

lemma settles: "batch_keeper (settle_operation l plan)"
proof
  fix p s ws nxt r evs
  assume plan: "settle_operation l plan p s = Inr (Commit ws nxt r evs)"
  obtain oper d where oper: "operation p = Some oper" and d: "plan p (op_state oper) (op_meta oper) s = Inr d"
    using plan by (auto simp: settle_operation_def result_simps split: option.splits)
  have "batch_of (op_state oper) = None \<and> current_batch nxt = None"
    using plan oper d batchless_commit batchless_finish
    by (cases d) (auto simp: settle_operation_def Let_def current_batch_of)
  then show "current_batch nxt = current_batch p \<and> (current_batch p \<noteq> None \<longrightarrow> tip nxt = tip p)"
    using oper by (simp add: current_batch_of)
qed

lemma continues: "batch_keeper (continue_operation l plan)"
proof -
  have "batchless_step (continue_plan plan)"
    by unfold_locales (use batchless_commit batchless_finish in \<open>blast dest: continued_decision\<close>)+
  then show ?thesis unfolding continue_operation_def by (rule batchless_step.settles)
qed

end

section \<open>The lane's methods\<close>

interpretation batch_accept_run: batch_keeper "plan_accept_run c l oid start prompt"
  by unfold_locales
    (auto simp: plan_accept_run_def Let_def result_simps current_batch_of split: option.splits prod.splits if_splits)

interpretation batch_accept_compaction: batch_keeper "plan_accept_compaction c l oid task start custom"
  by unfold_locales
    (auto simp: plan_accept_compaction_def accept_started_def current_batch_of split: option.splits sum.splits)

interpretation batch_accept_navigation: batch_keeper "plan_accept_navigation c l oid task start target opts observed prep"
  by unfold_locales
    (auto simp: plan_accept_navigation_def accept_started_def Let_def current_batch_of split: option.splits if_splits)

lemma batch_of_control [simp]: "batch_of (with_control k st) = batch_of st"
  by (cases st) auto

interpretation batch_request_abort: batch_keeper "plan_request_abort l oid now"
  by unfold_locales
    (auto simp: plan_request_abort_def Let_def result_simps current_batch_of split: option.splits if_splits)

interpretation batch_enqueue: batch_keeper "plan_enqueue l kind i m"
  by unfold_locales (auto simp: plan_enqueue_def Let_def result_simps current_batch_of split: option.splits)

interpretation batch_cancel_queued: batch_keeper "plan_cancel_queued l i"
  by unfold_locales
    (auto simp: plan_cancel_queued_def Let_def result_simps current_batch_of split: option.splits if_splits)

interpretation batch_record_usage: batch_keeper "plan_record_usage l u"
  by unfold_locales (auto simp: plan_record_usage_def current_batch_of split: option.splits)

interpretation batch_set_configuration: batch_keeper "plan_set_configuration l upd ev"
  by unfold_locales (auto simp: plan_set_configuration_def Let_def current_batch_of split: option.splits)

interpretation batch_append: batch_keeper "plan_append l i v"
proof
  fix p s ws nxt r evs
  assume plan: "plan_append l i v p s = Inr (Commit ws nxt r evs)"
  show "current_batch nxt = current_batch p \<and> (current_batch p \<noteq> None \<longrightarrow> tip nxt = tip p)"
    using plan_append_commit [OF plan] by (cases "operation p") (auto simp: current_batch_of)
qed

lemma unchanged_lane:
  assumes "\<And>p s ws nxt r evs. plan p s = Inr (Commit ws nxt r evs) \<Longrightarrow> nxt = p"
  shows "batch_keeper plan"
  by unfold_locales (use assms in blast)+

interpretation batch_frame_progress: batch_keeper "plan_frame_progress oid r frame"
  by (rule unchanged_lane) (auto simp: plan_frame_progress_def split: option.splits if_splits)

interpretation batch_clear_replay: batch_keeper "plan_clear_replay l oid turn x t"
  by (rule unchanged_lane) (auto simp: plan_clear_replay_def split: option.splits)

interpretation batch_set_memo: batch_keeper "plan_set_memo oid x n v"
  by (rule unchanged_lane) (auto simp: plan_set_memo_def Let_def split: option.splits if_splits)

interpretation batch_tool_progress: batch_keeper "plan_tool_progress oid turn x v"
  by (rule unchanged_lane) (auto simp: plan_tool_progress_def split: option.splits if_splits)

section \<open>Steps away from a batch\<close>

lemma leaf_no_batch:
  "request_leaf st \<Longrightarrow> batch_of st = None" "response_leaf st \<Longrightarrow> batch_of st = None" "finish_leaf st \<Longrightarrow> batch_of st = None"
  by (cases st; simp add: finish_leaf_def)+

lemma ready_no_batch [simp]: "batch_of (assistant_ready_at_boundary c step p scope t used) = None"
  by (simp add: assistant_ready_at_boundary_def)

interpretation batch_start_run: batchless_step "plan_start_run l reserved"
  by unfold_locales (auto simp: plan_start_run_def Let_def result_simps split: operation_state.splits option.splits if_splits)

interpretation batch_checkpoint: batchless_step "plan_checkpoint c l step threshold"
  by unfold_locales (auto simp: plan_checkpoint_def Let_def result_simps split: operation_state.splits option.splits if_splits continuation.splits)

interpretation batch_finish_run: batchless_step "plan_finish_run c l step fin planned follow pending now"
  by unfold_locales (auto simp: plan_finish_run_def Let_def result_simps leaf_no_batch split: option.splits if_splits continuation.splits)

interpretation batch_commit_navigation: batchless_step "plan_commit_navigation l now"
  by unfold_locales (auto simp: plan_commit_navigation_def Let_def result_simps split: operation_state.splits option.splits if_splits)

interpretation batch_generation_intent: batchless_step "plan_generation_intent l r u limits"
  by unfold_locales (auto simp: plan_generation_intent_def split: operation_state.splits)

interpretation batch_retry_ready: batchless_step "plan_retry_ready l"
  by unfold_locales (auto simp: plan_retry_ready_def split: operation_state.splits)

interpretation batch_configuration_failure: batchless_step "plan_configuration_failure l err now"
  by unfold_locales (auto simp: plan_configuration_failure_def result_simps leaf_no_batch split: if_splits)

interpretation batch_poll_intent: batchless_step "plan_poll_intent l r u"
  by unfold_locales (auto simp: plan_poll_intent_def Let_def split: operation_state.splits)

lemma task_no_batch: "summary_task_of st = Some t \<Longrightarrow> batch_of st = None"
  by (cases st) auto

interpretation batch_structural_ready: batchless_step "plan_structural_ready c r"
  by unfold_locales (auto simp: summary_leaf_simps split: operation_state.splits)

interpretation batch_attempt_intent: batchless_step plan_attempt_intent
  by unfold_locales (auto simp: summary_leaf_simps split: operation_state.splits)

interpretation batch_request_intent: batchless_step "plan_request_intent i u"
  by unfold_locales (auto simp: summary_leaf_simps split: operation_state.splits)

interpretation batch_request_outcome: batchless_step "plan_request_outcome c l u m"
  by unfold_locales (auto simp: summary_leaf_simps split: operation_state.splits)

interpretation batch_structural_retry_ready: batchless_step "plan_structural_retry_ready l"
  by unfold_locales (auto simp: summary_leaf_simps split: operation_state.splits)

interpretation batch_structural_retry: batchless_step "plan_structural_retry l text now"
  by unfold_locales (auto simp: summary_leaf_simps split: operation_state.splits)

interpretation batch_publish_structural: batchless_step "plan_publish_structural c l step u out now"
  by unfold_locales (auto dest!: published_structural_commit published_structural_finish resumed_commit intro: task_no_batch)

interpretation batch_attempt_result: batchless_step "plan_attempt_result c l step u res now"
  by unfold_locales (auto simp: plan_attempt_result_def
    dest: batch_publish_structural.batchless_commit batch_publish_structural.batchless_finish
      batch_structural_retry.batchless_commit batch_structural_retry.batchless_finish
    split: operation_state.splits attempt_result.splits if_splits)

interpretation batch_recover_structural: batchless_step "plan_recover_structural c l step u now"
  by unfold_locales (auto simp: plan_recover_structural_def
    dest: batch_publish_structural.batchless_commit batch_publish_structural.batchless_finish
      batch_structural_retry.batchless_commit batch_structural_retry.batchless_finish
    split: operation_state.splits if_splits)

interpretation batch_structural_decision: batchless_step "plan_structural_decision c l step u r hook now"
  by unfold_locales (auto simp: plan_structural_decision_def
    dest: batch_publish_structural.batchless_commit batch_publish_structural.batchless_finish
      batch_structural_ready.batchless_commit batch_structural_ready.batchless_finish
    split: operation_state.splits structural_hook.splits summary_kind.splits)

end
