(* ===== verification/ToolOrder.thy ===== *)
theory ToolOrder
  imports ToolBatch
begin

text \<open>
  The order of tool results. Calls of a batch run side by side, their outcomes are staged as they come, and the
  harness may crash and be created again at any point; still the transcript of a lane always shows the results
  of a prefix of the calls, in the order of the calls, right after the message that made them.
\<close>

section \<open>Changing the status of an open call\<close>

lemma replace_split:
  assumes "\<forall>z \<in> set xs. same_call z y \<longrightarrow> \<not> is_completed z" and "\<not> is_completed y"
  defines "f \<equiv> \<lambda>z. if same_call z y then y else z"
  shows "takeWhile is_completed (map f xs) = takeWhile is_completed xs \<and>
    dropWhile is_completed (map f xs) = map f (dropWhile is_completed xs)"
  using assms(1)
proof (induction xs)
  case (Cons z xs)
  then show ?case using assms(2) by (simp add: f_def)
qed simp

lemma same_call_distinct:
  assumes "distinct (map result_entry xs)" and "x \<in> set xs" and "z \<in> set xs" and "same_call z (with_status x k)"
  shows "z = x"
  using assms by (auto simp: same_call_def with_status_def distinct_map inj_on_def)

lemma with_status_sel [simp]:
  "source_index (with_status x k) = source_index x" "result_entry (with_status x k) = result_entry x"
  "call_status (with_status x k) = k"
  by (simp_all add: with_status_def)

definition open_call :: "tool_call \<Rightarrow> bool" where
  "open_call x \<longleftrightarrow> is_planned x \<or> is_pending x"

lemma open_callD: "open_call x \<Longrightarrow> \<not> is_completed x \<and> \<not> is_ready x"
  by (cases "call_status x") (auto simp: open_call_def)

lemma replaced_fine:
  assumes fine: "lane_fine s p rd" and b: "current_batch p = Some b" and x: "x \<in> set (calls b)" "open_call x"
    and k: "\<not> is_completed (with_status x k)" and g: "grows s s'"
    and n: "current_batch nxt = Some (replace_call (with_status x k) b)" "tip nxt = tip p"
  shows "lane_fine s' nxt rd"
proof -
  let ?f = "\<lambda>z. if same_call z (with_status x k) then with_status x k else z"
  let ?b = "replace_call (with_status x k) b"
  obtain m where m: "assistant_of s (assistant_entry b) = Some m"
    and ok: "list_all (names_call m) (calls b)" "distinct (map result_entry (calls b))"
      "list_all (\<lambda>x. \<not> is_completed x) (open_calls b)" "list_all (answered s m) (completed_calls b)"
      "reads_back s (tip p) (rev (map result_entry (completed_calls b))) (Some (assistant_entry b))"
    using fine b by (auto simp: lane_fine_def batch_ok_def split: option.splits)
  have only: "z = x" if "z \<in> set (calls b)" "same_call z (with_status x k)" for z
    using same_call_distinct [OF ok(2) x(1) that] .
  have parts: "completed_calls ?b = completed_calls b" "open_calls ?b = map ?f (open_calls b)"
    using replace_split [of "calls b" "with_status x k"] only open_callD [OF x(2)] k
    by (auto simp: completed_calls_def open_calls_def replace_call_def)
  have "map result_entry (calls ?b) = map result_entry (calls b)" by (auto simp: replace_call_def same_call_def)
  moreover have "list_all (names_call m) (calls ?b)"
    using ok(1) x(1) by (auto simp: replace_call_def list_all_iff names_call_def)
  moreover have "assistant_entry ?b = assistant_entry b" by (simp add: replace_call_def)
  moreover have "list_all (\<lambda>x. \<not> is_completed x) (open_calls ?b)"
    using ok(3) k by (auto simp: parts list_all_iff)
  ultimately have "batch_ok s (tip p) ?b" using m ok by (simp add: batch_ok_def parts)
  moreover have "items_ok s ?b items" if "rd = Some items" for items
  proof -
    have i: "take (length items) (open_calls b) = map fst items" "list_all (\<lambda>(x, r). is_ready x \<and> answers m (source_index x) r) items"
      using fine b m that by (auto simp: lane_fine_def items_ok_def split: option.splits)
    have "?f z = z" if "z \<in> set (map fst items)" for z
    proof -
      have "z \<in> set (calls b)" using that i(1) by (metis in_set_takeD open_calls_def set_dropWhileD)
      moreover have "is_ready z" using that i(2) by (auto simp: list_all_iff)
      ultimately show ?thesis using only open_callD [OF x(2)] by auto
    qed
    then have "take (length items) (open_calls ?b) = map fst items"
      by (simp only: parts take_map i(1) map_idI)
    then show ?thesis using m i(2) by (simp add: items_ok_def replace_call_def)
  qed
  ultimately show ?thesis using n batch_ok_grows [OF g] items_ok_grows [OF g]
    by (auto simp: lane_fine_def split: option.split)
qed

lemma settled_commit:
  assumes "settle_operation l plan p s = Inr (Commit ws nxt r evs)"
  obtains oper ws0 st' q evs0 where "operation p = Some oper"
      "plan p (op_state oper) (op_meta oper) s = Inr (OpCommit ws0 st' q r evs0)" "set ws0 \<subseteq> set ws"
      "nxt = (patched p q)\<lparr>operation := Some \<lparr>op_meta = op_meta oper, op_state = st'\<rparr>\<rparr>"
  | oper ws0 rec q evs0 where "operation p = Some oper" "operation nxt = None"
      "plan p (op_state oper) (op_meta oper) s = Inr (OpFinish ws0 rec q r evs0)"
proof -
  obtain oper d where oper: "operation p = Some oper" and d: "plan p (op_state oper) (op_meta oper) s = Inr d"
    using assms by (auto simp: settle_operation_def result_simps split: option.splits)
  show thesis
    using assms oper d by (cases d) (auto simp: settle_operation_def Let_def intro: that(1) [OF oper] that(2) [OF oper])
qed

text \<open>Steps that give an open call of the batch another status.\<close>

locale call_update =
  fixes plan :: "('n::{zero,plus}, 'r) op_planner" and x :: tool_call
  assumes update_commit: "plan p st meta s = Inr (OpCommit ws st' q r evs) \<Longrightarrow>
      \<exists>scope b k. st = Tools scope b \<and> st' = Tools scope (replace_call (with_status x k) b) \<and> q = no_patch \<and>
        \<not> is_completed (with_status x k)"
    and no_finish: "plan p st meta s \<noteq> Inr (OpFinish ws rec q r evs)"
begin

lemma settles: "batch_planner (settle_operation l plan)
    (\<lambda>s p rd. \<forall>b. current_batch p = Some b \<longrightarrow> x \<in> set (calls b) \<and> open_call x) id"
proof
  fix s p rd ws nxt r evs s'
  assume fine: "lane_fine s p rd" and ok: "\<forall>b. current_batch p = Some b \<longrightarrow> x \<in> set (calls b) \<and> open_call x"
    and c: "commit_store s ws = Inr s'" and plan: "settle_operation l plan p s = Inr (Commit ws nxt r evs)"
  from plan show "lane_fine s' nxt (id rd)"
  proof (rule settled_commit)
    fix oper ws0 st' q evs0
    assume oper: "operation p = Some oper" and d: "plan p (op_state oper) (op_meta oper) s = Inr (OpCommit ws0 st' q r evs0)"
      and nxt: "nxt = (patched p q)\<lparr>operation := Some \<lparr>op_meta = op_meta oper, op_state = st'\<rparr>\<rparr>"
    obtain scope b k where b: "op_state oper = Tools scope b" "st' = Tools scope (replace_call (with_status x k) b)" "q = no_patch"
      "\<not> is_completed (with_status x k)" using update_commit [OF d] by blast
    have p: "current_batch p = Some b" using oper b by (simp add: current_batch_of)
    moreover have "x \<in> set (calls b)" "open_call x" using ok p by auto
    moreover have "current_batch nxt = Some (replace_call (with_status x k) b)" "tip nxt = tip p"
      using b by (simp_all add: nxt current_batch_of no_patch_def patched_def)
    ultimately show ?thesis using replaced_fine [OF fine _ _ _ b(4) grows_commit [OF c]] by simp
  qed (use no_finish in blast)
qed simp

lemma continues: "call_update (continue_plan plan) x"
  by unfold_locales (use update_commit no_finish in \<open>blast dest: continued_decision\<close>)+

end

interpretation update_intent: call_update "plan_tool_intent l x t args safe" x
  by unfold_locales
    (auto simp: plan_tool_intent_def Let_def split: operation_state.splits intro!: exI [of _ "EffectPending safe"])

interpretation update_outcome: call_update "plan_tool_outcome l x out" x
proof
  fix p st meta s ws st' q r evs
  assume plan: "plan_tool_outcome l x out p st meta s = Inr (OpCommit ws st' q r evs)"
  then obtain scope b where b: "st = Tools scope b" by (cases st) (simp_all add: plan_tool_outcome_def)
  let ?k = "OutcomeReady (control scope = Running \<and> out_terminate out)"
  have "st' = Tools scope (replace_call (with_status x ?k) b) \<and> q = no_patch"
    using plan by (simp add: b plan_tool_outcome_def Let_def)
  moreover have "\<not> is_completed (with_status x ?k)" by simp
  ultimately show "\<exists>scope b k. st = Tools scope b \<and> st' = Tools scope (replace_call (with_status x k) b) \<and> q = no_patch \<and>
      \<not> is_completed (with_status x k)" using b by blast
qed (simp add: plan_tool_outcome_def Let_def split: operation_state.split)

section \<open>Placing results\<close>

definition placed_call :: "tool_call \<times> agent_message \<Rightarrow> tool_call" where
  "placed_call it = with_status (fst it) (CallCompleted (terminates (fst it)))"

lemma placed_call_sel [simp]:
  "result_entry (placed_call it) = result_entry (fst it)" "source_index (placed_call it) = source_index (fst it)"
  "is_completed (placed_call it)"
  by (simp_all add: placed_call_def)

lemma complete_split:
  assumes "distinct (map result_entry (dn @ map fst items @ rest))"
  shows "complete_calls items (dn @ map fst items @ rest) =
    dn @ map placed_call items @ rest"
proof -
  have other: "complete_calls items xs = xs" if "result_entry ` set xs \<inter> result_entry ` fst ` set items = {}" for xs
    unfolding complete_calls_def
  proof (rule map_idI)
    fix x assume "x \<in> set xs"
    then have "\<not> same_call y x" if "(y, m) \<in> set items" for y m
      using that \<open>_ \<inter> _ = {}\<close> by (force simp: same_call_def)
    then have "find (\<lambda>(y, m). same_call y x) items = None" by (force simp: find_None_iff)
    then show "(case find (\<lambda>(y, m). same_call y x) items of None \<Rightarrow> x | Some (y, m) \<Rightarrow> with_status x (CallCompleted (terminates y))) = x"
      by simp
  qed
  have own: "find (\<lambda>(y, m). same_call y (fst it)) items = Some it"
    if "it \<in> set items" "distinct (map result_entry (map fst items))" for it
    using that
  proof (induction items)
    case (Cons a items)
    then show ?case by (cases a; cases it) (force simp: same_call_def)
  qed simp
  have "complete_calls items (map fst items) = map placed_call items"
    unfolding complete_calls_def map_map
  proof (rule map_cong [OF refl])
    fix it assume "it \<in> set items"
    moreover have "distinct (map result_entry (map fst items))" using assms by simp
    ultimately have "find (\<lambda>(y, m). same_call y (fst it)) items = Some it" by (rule own)
    then show "((\<lambda>x. case find (\<lambda>(y, m). same_call y x) items of None \<Rightarrow> x
        | Some (y, m) \<Rightarrow> with_status x (CallCompleted (terminates y))) \<circ> fst) it = placed_call it"
      by (cases it) (simp add: placed_call_def del: terminates.simps)
  qed
  moreover have "complete_calls items dn = dn" "complete_calls items rest = rest"
    by (rule other, use assms in \<open>simp add: image_image, blast\<close>)+
  ultimately show ?thesis by (simp add: complete_calls_def)
qed

lemma placed_reads_back:
  assumes "\<forall>e. InsertEntry e \<in> set (placement_entry_writes c uids k t items) \<longrightarrow> entry_of_id s (eid e) = Some e"
    and "reads_back s t is base"
  shows "reads_back s (placed_tip t items) (rev (map (\<lambda>x. result_entry (fst x)) items) @ is) base \<and>
    (\<forall>(x, r) \<in> set items. \<exists>t'. entry_of_id s (result_entry x) = Some (result_new_entry t' (x, r)))"
  using assms
proof (induction items arbitrary: k t "is")
  case Nil
  then show ?case by (simp add: placed_tip_def)
next
  case (Cons item items)
  have e: "entry_of_id s (result_entry (fst item)) = Some (result_new_entry t item)"
    using Cons.prems(1) by (auto simp: result_new_entry_def dest: spec [of _ "result_new_entry t item"])
  have old: "reads_back s (Some (result_entry (fst item))) (result_entry (fst item) # is) base"
    using e Cons.prems(2) by (simp add: result_new_entry_def)
  have found: "\<forall>e. InsertEntry e \<in> set (placement_entry_writes c uids (Suc k) (Some (result_entry (fst item))) items) \<longrightarrow>
      entry_of_id s (eid e) = Some e" using Cons.prems(1) by auto
  have "placed_tip t (item # items) = placed_tip (Some (result_entry (fst item))) items"
    by (simp add: placed_tip_def)
  then have "reads_back s (placed_tip t (item # items))
      (rev (map (\<lambda>x. result_entry (fst x)) items) @ result_entry (fst item) # is) base \<and>
    (\<forall>(x, r) \<in> set items. \<exists>t'. entry_of_id s (result_entry x) = Some (result_new_entry t' (x, r)))"
    using Cons.IH [OF found old] by simp
  then show ?case using e by (cases item) auto
qed

lemma placed_batch_ok:
  assumes ok: "batch_ok s t b" and items: "items_ok s b items" and g: "grows s s'"
    and found: "\<forall>e. InsertEntry e \<in> set (placement_entry_writes c uids k t items) \<longrightarrow> entry_of_id s' (eid e) = Some e"
  shows "batch_ok s' (placed_tip t items) (b\<lparr>calls := complete_calls items (calls b)\<rparr>)"
proof -
  obtain m where m: "assistant_of s (assistant_entry b) = Some m"
    and b: "list_all (names_call m) (calls b)" "distinct (map result_entry (calls b))"
      "list_all (\<lambda>x. \<not> is_completed x) (open_calls b)" "list_all (answered s m) (completed_calls b)"
      "reads_back s t (rev (map result_entry (completed_calls b))) (Some (assistant_entry b))"
    using ok by (auto simp: batch_ok_def split: option.splits)
  have i: "take (length items) (open_calls b) = map fst items" "list_all (\<lambda>(x, r). is_ready x \<and> answers m (source_index x) r) items"
    using items m by (auto simp: items_ok_def)
  define dn rest where "dn = completed_calls b" and "rest = drop (length items) (open_calls b)"
  have xs: "calls b = dn @ map fst items @ rest"
  proof -
    have "calls b = dn @ open_calls b" by (simp add: dn_def completed_calls_def open_calls_def)
    moreover have "open_calls b = map fst items @ rest" unfolding rest_def i(1) [symmetric] by simp
    ultimately show ?thesis by simp
  qed
  let ?new = "map placed_call items"
  let ?b = "b\<lparr>calls := complete_calls items (calls b)\<rparr>"
  have calls: "calls ?b = dn @ ?new @ rest" using complete_split [of "dn" items rest] b(2) xs by simp
  have "\<not> is_completed x" if "x \<in> set rest" for x using b(3) that by (auto simp: rest_def list_all_iff dest: in_set_dropD)
  then have none: "takeWhile is_completed rest = []" "dropWhile is_completed rest = rest" "list_all (\<lambda>x. \<not> is_completed x) rest"
    by (cases rest; auto simp: list_all_iff)+
  have all: "\<forall>x \<in> set (dn @ ?new). is_completed x"
    by (auto simp: dn_def completed_calls_def simp del: is_completed.simps dest: set_takeWhileD)
  have parts: "completed_calls ?b = dn @ ?new" "open_calls ?b = rest"
    unfolding completed_calls_def open_calls_def calls append_assoc [symmetric]
    using all none by (simp_all only: takeWhile_append2 dropWhile_append2 append_Nil2)
  have old: "reads_back s' t (rev (map result_entry dn)) (Some (assistant_entry b))"
    using reads_back_grows [OF g b(5)] by (simp add: dn_def)
  note placed = placed_reads_back [OF found old]
  have "map result_entry (dn @ ?new) = map result_entry dn @ map (\<lambda>x. result_entry (fst x)) items" by simp
  then have "reads_back s' (placed_tip t items) (rev (map result_entry (completed_calls ?b))) (Some (assistant_entry b))"
    using placed by (simp add: parts comp_def)
  moreover have "answered s' m x" if "x \<in> set ?new" for x
    using that placed i(2) by (fastforce simp: answered_def result_new_entry_def list_all_iff)
  then have "list_all (answered s' m) (completed_calls ?b)"
    using b(4) answered_grows [OF g] by (auto simp: parts dn_def list_all_iff)
  moreover have "map result_entry (calls ?b) = map result_entry (calls b)" unfolding calls unfolding xs by simp
  moreover have "list_all (names_call m) (calls ?b)"
    using b(1) unfolding calls unfolding xs by (simp add: list_all_iff ball_Un names_call_def)
  ultimately show ?thesis using assistant_grows [OF g m] b(2) none(3) by (simp add: batch_ok_def parts)
qed

lemma placed_lane:
  assumes fine: "lane_fine s p (Some items)" and c: "commit_store s ws = Inr s'"
    and plan: "settle_operation l (plan_commit_placement c l items uids turn) p s = Inr (Commit ws nxt whole evs)"
  obtains scope b where "current_batch p = Some b"
    "batch_ok s' (tip nxt) (b\<lparr>calls := complete_calls items (calls b)\<rparr>)"
    "whole \<Longrightarrow> list_all is_completed (complete_calls items (calls b)) \<and>
      (\<exists>oper. operation nxt = Some oper \<and> op_state oper = after_tools scope (complete_calls items (calls b)) (tip nxt))"
    "\<not> whole \<Longrightarrow> current_batch nxt = Some (b\<lparr>calls := complete_calls items (calls b)\<rparr>)"
  using plan
proof (rule settled_commit)
  fix oper ws0 st' q evs0
  assume oper: "operation p = Some oper" and ws: "set ws0 \<subseteq> set ws"
    and d: "plan_commit_placement c l items uids turn p (op_state oper) (op_meta oper) s = Inr (OpCommit ws0 st' q whole evs0)"
    and nxt: "nxt = (patched p q)\<lparr>operation := Some \<lparr>op_meta = op_meta oper, op_state = st'\<rparr>\<rparr>"
  from d show thesis
  proof (rule placed_commit)
    fix scope b t conf cfg args
    assume st: "op_state oper = Tools scope b" and t: "t = placed_tip (tip p) items"
      and ws0: "ws0 = placement_entry_writes c uids 0 (tip p) items @ cfg @ [SetTip l t] @ args"
      and q: "q = no_patch\<lparr>patch_tip := Some t, patch_config := Some conf\<rparr>"
      and st': "st' = (if whole then after_tools scope (complete_calls items (calls b)) t
        else Tools scope (b\<lparr>calls := complete_calls items (calls b)\<rparr>))"
      and whole: "whole = list_all is_completed (complete_calls items (calls b))"
    have b: "current_batch p = Some b" using oper st by (simp add: current_batch_of)
    have tip: "tip nxt = t" by (simp add: nxt q no_patch_def patched_def)
    have "\<forall>e. InsertEntry e \<in> set (placement_entry_writes c uids 0 (tip p) items) \<longrightarrow> entry_of_id s' (eid e) = Some e"
      using inserted_found [OF c] ws by (auto simp: ws0)
    then have "batch_ok s' (tip nxt) (b\<lparr>calls := complete_calls items (calls b)\<rparr>)"
      using placed_batch_ok [of s "tip p" b items s' c uids 0] fine b grows_commit [OF c]
      by (simp add: lane_fine_def tip t)
    then show thesis using b st' whole tip by (intro that [of b scope]) (auto simp: nxt current_batch_of)
  qed
qed (auto simp: plan_commit_placement_def Let_def split: operation_state.splits if_splits)

interpretation batch_commit_placement: batch_planner "settle_operation l (plan_commit_placement c l items uids turn)"
  "\<lambda>s p rd. rd = Some items" "\<lambda>_. None"
proof
  fix s p rd ws nxt whole evs s'
  assume fine: "lane_fine s p rd" and rd: "rd = Some items" and c: "commit_store s ws = Inr s'"
    and plan: "settle_operation l (plan_commit_placement c l items uids turn) p s = Inr (Commit ws nxt whole evs)"
  from fine [unfolded rd] c plan show "lane_fine s' nxt None"
    by (rule placed_lane) (cases whole; auto simp: lane_fine_def current_batch_of after_tools_def)
qed simp

section \<open>A new batch\<close>

lemma settled_tools:
  assumes "settle_response c recovery m task ids now st = Inr (m', NextState (Tools scope b))" and "response_leaf st"
  shows "m' = m \<and> assistant_entry b = fst (response_ids st) \<and> calls b = planned_calls m ids"
proof -
  have calls: "settle_calls scope0 r st ids m = Inr (m', NextState (Tools scope b)) \<Longrightarrow>
      m' = m \<and> assistant_entry b = r \<and> calls b = planned_calls m ids" for scope0 r
    by (auto simp: settle_calls_def may_finish_def Let_def split: if_splits option.splits)
  have err: "settle_error c recovery now scope0 st m \<noteq> NextState (Tools scope b)" for scope0
    by (auto simp: settle_error_def split: operation_state.splits if_splits)
  have def: "settle_deferred scope0 r st m \<noteq> (m', NextState (Tools scope b))" for scope0 r
    by (auto simp: settle_deferred_def Let_def split: operation_state.splits if_splits)
  have over: "settle_overflow scope0 g m task \<noteq> (m', NextState (Tools scope b))" for scope0 g
    by (auto simp: settle_overflow_def Let_def split: option.splits if_splits)
  show ?thesis using assms calls err def over
    by (cases st) (auto simp: settle_response_def may_finish_def Let_def split: if_splits)
qed

lemma planned_batch:
  assumes "inj ids"
  shows "list_all (names_call m) (planned_calls m ids)" and "distinct (map result_entry (planned_calls m ids))"
    and "list_all is_planned (planned_calls m ids)"
proof -
  have "i < length (array_field m ''content'') \<and> is_tool_call (array_field m ''content'' ! i)" if "i \<in> set (tool_indices m)" for i
    using that by (auto simp: tool_indices_def enumerate_eq_zip set_zip)
  then show "list_all (names_call m) (planned_calls m ids)"
    by (auto simp: planned_calls_def names_call_def list_all_iff enumerate_eq_zip dest!: set_zip_rightD)
  have "map result_entry (planned_calls m ids) = map ids [0..<length (tool_indices m)]"
    by (rule nth_equalityI) (simp_all add: planned_calls_def enumerate_eq_zip)
  then show "distinct (map result_entry (planned_calls m ids))" using inj_on_subset [OF assms subset_UNIV]
    by (simp add: distinct_map)
  show "list_all is_planned (planned_calls m ids)" by (auto simp: planned_calls_def list_all_iff)
qed

lemma new_batch_ok:
  assumes "assistant_of s (assistant_entry b) = Some m" and "calls b = planned_calls m ids" and "inj ids"
  shows "batch_ok s (Some (assistant_entry b)) b"
proof -
  have "\<forall>x \<in> set (calls b). \<not> is_completed x" using planned_batch(3) [OF assms(3), of m] assms(2) by (auto simp: list_all_iff)
  then have "completed_calls b = []" "list_all (\<lambda>x. \<not> is_completed x) (open_calls b)"
    by (auto simp: completed_calls_def open_calls_def takeWhile_eq_Nil_iff list_all_iff simp del: is_completed.simps
        dest!: set_dropWhileD)
  then show ?thesis using assms planned_batch [OF assms(3), of m] by (simp add: batch_ok_def)
qed

text \<open>Steps that may start a batch: the message that makes the calls is inserted as the lane's new tip.\<close>

locale batch_starter =
  fixes plan :: "('n::{zero,plus}, 'r) op_planner" and ok :: bool
  assumes start_commit: "ok \<Longrightarrow> plan p st meta s = Inr (OpCommit ws st' q r evs) \<Longrightarrow> batch_of st = None \<and>
      (\<forall>b. batch_of st' = Some b \<longrightarrow> (\<exists>t m f ids. role m = ''assistant'' \<and> inj ids \<and> calls b = planned_calls m ids \<and>
        InsertEntry \<lparr>eid = assistant_entry b, parent_id = t, custom_type = None, body = Message m f\<rparr> \<in> set ws \<and>
        patch_tip q = Some (Some (assistant_entry b))))"
    and start_finish: "ok \<Longrightarrow> plan p st meta s = Inr (OpFinish ws rec q r evs) \<Longrightarrow> batch_of st = None"
begin

lemma settles: "batch_planner (settle_operation l plan) (\<lambda>_ _ _. ok) id"
proof
  fix s p rd ws nxt r evs s'
  assume fine: "lane_fine s p rd" and ok: ok and c: "commit_store s ws = Inr s'"
    and plan: "settle_operation l plan p s = Inr (Commit ws nxt r evs)"
  from plan show "lane_fine s' nxt (id rd)"
  proof (rule settled_commit)
    fix oper ws0 st' q evs0
    assume oper: "operation p = Some oper" and ws: "set ws0 \<subseteq> set ws"
      and d: "plan p (op_state oper) (op_meta oper) s = Inr (OpCommit ws0 st' q r evs0)"
      and nxt: "nxt = (patched p q)\<lparr>operation := Some \<lparr>op_meta = op_meta oper, op_state = st'\<rparr>\<rparr>"
    have rd: "rd = None" using start_commit [OF ok d] fine oper by (simp add: lane_fine_def current_batch_of)
    show ?thesis
    proof (cases "batch_of st'")
      case None
      then show ?thesis using rd by (simp add: lane_fine_def nxt current_batch_of)
    next
      case (Some b)
      then obtain t m f ids where m: "role m = ''assistant''" "inj ids" "calls b = planned_calls m ids"
        "InsertEntry \<lparr>eid = assistant_entry b, parent_id = t, custom_type = None, body = Message m f\<rparr> \<in> set ws0"
        "patch_tip q = Some (Some (assistant_entry b))" using start_commit [OF ok d] by blast
      have "assistant_of s' (assistant_entry b) = Some m"
        using inserted_found [OF c subsetD [OF ws m(4)]] m(1) by (simp add: assistant_of_def)
      then have "batch_ok s' (Some (assistant_entry b)) b" using m(3,2) by (rule new_batch_ok)
      then show ?thesis using rd Some m(5) by (simp add: lane_fine_def nxt current_batch_of patched_def)
    qed
  next
    fix oper ws0 rec q evs0
    assume oper: "operation p = Some oper" "operation nxt = None"
      and d: "plan p (op_state oper) (op_meta oper) s = Inr (OpFinish ws0 rec q r evs0)"
    show ?thesis using start_finish [OF ok d] oper fine by (simp add: lane_fine_def current_batch_of)
  qed
qed simp

end

interpretation publish_starts: batch_starter "plan_publish_response c l recovery m prep ids now" "role m = ''assistant'' \<and> inj ids"
proof
  fix p st meta s ws st' q r evs
  assume ok: "role m = ''assistant'' \<and> inj ids"
    and plan: "plan_publish_response c l recovery m prep ids now p st meta s = Inr (OpCommit ws st' q r evs)"
  obtain m' ws' where leaf: "response_leaf st" and q: "q = no_patch\<lparr>patch_tip := Some (Some (fst (response_ids st)))\<rparr>"
    and set: "settle_response c recovery m (map_option fst prep) ids now st = Inr (m', NextState st')"
    and ws: "ws = settle_writes c l p st m' @ ws'" using published_commit [OF plan] by blast
  have "\<exists>t m f ids. role m = ''assistant'' \<and> inj ids \<and> calls b = planned_calls m ids \<and>
        InsertEntry \<lparr>eid = assistant_entry b, parent_id = t, custom_type = None, body = Message m f\<rparr> \<in> set ws \<and>
        patch_tip q = Some (Some (assistant_entry b))" if new: "batch_of st' = Some b" for b
  proof -
    obtain scope where "st' = Tools scope b" using new by (cases st') simp_all
    then have b: "m' = m" "assistant_entry b = fst (response_ids st)" "calls b = planned_calls m ids"
      using settled_tools [OF set [unfolded \<open>st' = _\<close>] leaf] by auto
    then have "InsertEntry \<lparr>eid = assistant_entry b, parent_id = tip p, custom_type = None, body = Message m False\<rparr> \<in> set ws"
      by (simp add: ws settle_writes_def Let_def response_entry_def)
    then show ?thesis using ok b(2,3) by (auto simp: q no_patch_def)
  qed
  then show "batch_of st = None \<and> (\<forall>b. batch_of st' = Some b \<longrightarrow> (\<exists>t m f ids. role m = ''assistant'' \<and> inj ids \<and>
      calls b = planned_calls m ids \<and>
      InsertEntry \<lparr>eid = assistant_entry b, parent_id = t, custom_type = None, body = Message m f\<rparr> \<in> set ws \<and>
      patch_tip q = Some (Some (assistant_entry b))))" using leaf leaf_no_batch(2) by blast
qed (use published_finish leaf_no_batch(2) in blast)

text \<open>An interrupted request is published as the message its frames make.\<close>

definition frames_assistant :: "'n runtime_config \<Rightarrow> bool" where
  "frames_assistant c \<longleftrightarrow> (\<forall>fs m. reduce_frames c fs = Some m \<longrightarrow> role m = ''assistant'')"

lemma recovered_message:
  assumes "frames_assistant c"
  shows "plan_recover_response c l prep ids now p st meta s = Inr (OpCommit ws st' q x evs) \<Longrightarrow>
      \<exists>m evs'. role m = ''assistant'' \<and> plan_publish_response c l True m prep ids now p st meta s = Inr (OpCommit ws st' q x evs')"
proof -
  have "role (interrupted_message k (reduce_frames c fs) now) = ''assistant''" for k fs
    using assms by (auto simp: interrupted_message_def frames_assistant_def set_field_def split: option.split)
  then show "plan_recover_response c l prep ids now p st meta s = Inr (OpCommit ws st' q x evs) \<Longrightarrow>
      \<exists>m evs'. role m = ''assistant'' \<and> plan_publish_response c l True m prep ids now p st meta s = Inr (OpCommit ws st' q x evs')"
    by (fastforce simp: plan_recover_response_def result_simps Let_def dest!: before_events_cases split: option.splits)
qed

interpretation recover_starts: batch_starter "plan_recover_response c l prep ids now" "frames_assistant c \<and> inj ids"
proof
  fix p st meta s ws st' q r evs
  assume "frames_assistant c \<and> inj ids"
    and "plan_recover_response c l prep ids now p st meta s = Inr (OpCommit ws st' q r evs)"
  then obtain m evs' where "role m = ''assistant'' \<and> inj ids"
    "plan_publish_response c l True m prep ids now p st meta s = Inr (OpCommit ws st' q r evs')"
    using recovered_message by blast
  then show "batch_of st = None \<and> (\<forall>b. batch_of st' = Some b \<longrightarrow> (\<exists>t m f ids. role m = ''assistant'' \<and> inj ids \<and>
      calls b = planned_calls m ids \<and>
      InsertEntry \<lparr>eid = assistant_entry b, parent_id = t, custom_type = None, body = Message m f\<rparr> \<in> set ws \<and>
      patch_tip q = Some (Some (assistant_entry b))))" by (rule publish_starts.start_commit)
next
  fix p st meta s ws rec q r evs
  assume "plan_recover_response c l prep ids now p st meta s = Inr (OpFinish ws rec q r evs)"
  then obtain m evs' where "plan_publish_response c l True m prep ids now p st meta s = Inr (OpFinish ws rec q r evs')"
    using recovered_commit(2) by blast
  then show "batch_of st = None" using published_finish leaf_no_batch(2) by blast
qed

text \<open>The terminal transaction of a cancelled operation ends its batch.\<close>

lemma lane_fine_idle: "operation nxt = None \<Longrightarrow> lane_fine s nxt None"
  by (simp add: lane_fine_def current_batch_of)

interpretation batch_aborted: batch_planner "settle_operation l (plan_aborted_terminal l now)" "\<lambda>s p rd. rd = None" id
proof
  fix s p ws nxt r evs s' and rd :: reading
  assume rd: "rd = None" and plan: "settle_operation l (plan_aborted_terminal l now) p s = Inr (Commit ws nxt r evs)"
  from plan show "lane_fine s' nxt (id rd)"
  proof (rule settled_commit)
    fix oper ws0 st' q evs0
    assume "plan_aborted_terminal l now p (op_state oper) (op_meta oper) s = Inr (OpCommit ws0 st' q r evs0)"
    then show ?thesis by (auto simp: plan_aborted_terminal_def Let_def result_simps split: if_splits)
  qed (simp add: rd lane_fine_idle)
qed simp

end
