(* ===== verification/ToolRun.thy ===== *)
theory ToolRun
  imports ToolOrder
begin

text \<open>
  Runs of a harness with its crashes, and what they show of tool results: at every moment a lane's transcript holds
  the results of the first calls of its batch, in the order of the calls, and when a batch ends all are answered.
\<close>

section \<open>Steps\<close>

text \<open>
  What the control flow of a drive pass guarantees of the arguments of its commands: an announced call is planned,
  an outcome is published for a call that is still open, what is placed has been read before, the terminal
  transaction does not overtake a placement, and responses are assistant messages with distinct reserved ids.
\<close>

definition batch_call :: "'n harness \<Rightarrow> string \<Rightarrow> tool_call \<Rightarrow> bool" where
  "batch_call h l x \<longleftrightarrow> (case own_get (hlanes h) l of
     None \<Rightarrow> False | Some p \<Rightarrow> (case current_batch p of None \<Rightarrow> False | Some b \<Rightarrow> x \<in> set (calls b)))"

fun call_allowed :: "'n runtime_config \<Rightarrow> 'n harness \<Rightarrow> (string \<Rightarrow> reading) \<Rightarrow> string \<Rightarrow> 'n call \<Rightarrow> bool" where
  "call_allowed c h rd l (ToolIntent x t args safe) = (batch_call h l x \<and> is_planned x)"
| "call_allowed c h rd l (ToolOutcomeStep x out) = (batch_call h l x \<and> open_call x)"
| "call_allowed c h rd l (CommitPlacement items uids turn) = (rd l = Some items)"
| "call_allowed c h rd l AbortedTerminal = (rd l = None)"
| "call_allowed c h rd l (PublishResponse recovery m prep ids) = (role m = ''assistant'' \<and> inj ids)"
| "call_allowed c h rd l (RecoverResponse prep ids) = (frames_assistant c \<and> inj ids)"
| "call_allowed c h rd l _ = True"

fun is_placement :: "'n call \<Rightarrow> bool" where
  "is_placement (CommitPlacement _ _ _) = True"
| "is_placement _ = False"

text \<open>
  A step is one command of some lane, the reading of staged results, or a crash: the harness is gone and another
  one is created on the session as it is.
\<close>

inductive harness_step ::
    "'n::{zero,plus} runtime_config \<Rightarrow> 'n harness \<times> (string \<Rightarrow> reading) \<Rightarrow> 'n harness \<times> (string \<Rightarrow> reading) \<Rightarrow> bool" for c where
  perform: "ids_free h l (call_ids call) \<Longrightarrow> call_allowed c h rd l call \<Longrightarrow>
    harness_step c (h, rd) (run_call c l call now h, if is_placement call then rd(l := None) else rd)"
| read: "own_get (hlanes h) l = Some p \<Longrightarrow> current_batch p = Some b \<Longrightarrow> read_batch_source (hstore h) b = Inr src \<Longrightarrow>
    read_placement src p (hstore h) = Inr (Return (Some r)) \<Longrightarrow>
    harness_step c (h, rd) (h, rd(l := Some (pr_items r)))"
| crash: "create_harness (hstore h) sq = Inr h' \<Longrightarrow> harness_step c (h, rd) (h', \<lambda>_. None)"

inductive_cases harness_stepE: "harness_step c (h, rd) (h', rd')"

inductive harness_run ::
    "'n::{zero,plus} runtime_config \<Rightarrow> 'n harness \<times> (string \<Rightarrow> reading) \<Rightarrow> 'n harness \<times> (string \<Rightarrow> reading) \<Rightarrow> bool" for c where
  run_start: "harness_run c s s"
| run_step: "harness_run c s t \<Longrightarrow> harness_step c t u \<Longrightarrow> harness_run c s u"

section \<open>Every step keeps the batches\<close>

lemmas batch_keepers =
  batch_accept_run.batch_keeper_axioms batch_accept_compaction.batch_keeper_axioms batch_accept_navigation.batch_keeper_axioms
  batch_request_abort.batch_keeper_axioms batch_enqueue.batch_keeper_axioms batch_cancel_queued.batch_keeper_axioms
  batch_record_usage.batch_keeper_axioms batch_set_configuration.batch_keeper_axioms batch_append.batch_keeper_axioms
  batch_frame_progress.batch_keeper_axioms batch_clear_replay.batch_keeper_axioms batch_set_memo.batch_keeper_axioms
  batch_tool_progress.batch_keeper_axioms batch_start_run.continues batch_checkpoint.continues batch_finish_run.continues
  batch_commit_navigation.continues batch_generation_intent.continues batch_retry_ready.continues
  batch_configuration_failure.continues batch_poll_intent.continues batch_attempt_intent.continues
  batch_request_intent.continues batch_request_outcome.settles batch_structural_retry_ready.continues
  batch_attempt_result.continues batch_recover_structural.continues batch_structural_decision.continues

lemma acquired_lane:
  assumes "in_sync h" and h'_def: "h' = fst (acquire_lane seed l create_at h)"
  shows "hstore h' = hstore h \<and> hlanes h' = hlanes h \<or> (\<exists>t ws. own_get (hlanes h) l = None \<and>
    commit_store (hstore h) ws = Inr (hstore h') \<and> hlanes h' = put l (initial_lane t seed) (hlanes h))"
proof (cases "hclosed h = None \<and> l \<noteq> [] \<and> nul \<notin> set l \<and> own_get (hlanes h) l = None")
  case False
  then show ?thesis by (cases "hclosed h") (auto simp: h'_def acquire_lane_def)
next
  case True
  have "unconfigured (hstore h) l" using assms(1) True by (simp add: in_sync_def)
  then have "\<not> (\<exists>t k st. read_lane_storage (lane_store.truncate (hstore h)) l = Inr (ConfiguredLane t k st))"
    by (cases "own_get (tips (hstore h)) l") (auto simp: unconfigured_def read_lane_storage_def)
  then show ?thesis using True unfolding h'_def acquire_lane_def
    by (cases "read_lane_storage (lane_store.truncate (hstore h)) l"; cases "projr (read_lane_storage (lane_store.truncate (hstore h)) l)")
      (auto simp: Let_def split: sum.splits if_splits)
qed

lemma acquire_fine:
  assumes "in_sync h" and "fine h rd"
  shows "fine (fst (acquire_lane seed l create_at h)) rd"
proof -
  let ?h = "fst (acquire_lane seed l create_at h)"
  note old = fineD [OF assms(2)]
  consider "hstore ?h = hstore h" "hlanes ?h = hlanes h"
    | ws t where "own_get (hlanes h) l = None" "commit_store (hstore h) ws = Inr (hstore ?h)"
      "hlanes ?h = put l (initial_lane t seed) (hlanes h)"
    using acquired_lane [OF assms(1) refl, of seed l create_at] by blast
  then show ?thesis
  proof cases
    case 1
    then show ?thesis using assms(2) unfolding fine_def 1 by simp
  next
    case 2
    have "lane_fine (hstore ?h) (initial_lane t seed) (rd l)"
      using old(1) [OF 2(1)] by (simp add: lane_fine_idle initial_lane_def)
    then show ?thesis using old 2(3) lane_fine_grows [OF grows_commit [OF 2(2)]]
      by (auto simp: fine_def own_simps split: option.split)
  qed
qed

lemma run_call_fine:
  assumes "in_sync h" and "fine h rd" and "call_allowed c h rd l call"
  shows "fine (run_call c l call now h) (if is_placement call then rd(l := None) else rd)"
proof (cases call)
  case (AcceptRun oid ids req)
  then show ?thesis using assms batch_accept_run.keeps
    by (auto simp: accept_run_def split: option.splits sum.splits)
next
  case (Enqueue kind i input images)
  then show ?thesis using assms batch_enqueue.keeps by (auto simp: enqueue_def split: option.split sum.split)
next
  case (Acquire seed create_at)
  then show ?thesis using assms acquire_fine by simp
next
  case (ToolIntent x t args safe)
  have "\<forall>b. current_batch p = Some b \<longrightarrow> x \<in> set (calls b) \<and> open_call x" if "own_get (hlanes h) l = Some p" for p
    using that assms(3) ToolIntent by (auto simp: batch_call_def open_call_def)
  then show ?thesis using ToolIntent assms(2)
      batch_planner.keeps_fine [OF call_update.settles [OF update_intent.continues], of h rd l x l]
    by (simp add: continue_operation_def)
next
  case (ToolOutcomeStep x out)
  have "\<forall>b. current_batch p = Some b \<longrightarrow> x \<in> set (calls b) \<and> open_call x" if "own_get (hlanes h) l = Some p" for p
    using that assms(3) ToolOutcomeStep by (auto simp: batch_call_def)
  then show ?thesis using ToolOutcomeStep assms(2) batch_planner.keeps_fine [OF update_outcome.settles, of h rd l x l] by simp
next
  case (CommitPlacement items uids turn)
  then show ?thesis using assms batch_commit_placement.keeps_fine [of h rd l] by simp
next
  case AbortedTerminal
  then show ?thesis using assms batch_aborted.keeps_fine [of h rd l] by (simp add: fun_upd_idem)
next
  case (PublishResponse recovery m prep ids)
  then show ?thesis using assms batch_planner.keeps_fine [OF publish_starts.settles, of h rd l] by simp
next
  case (RecoverResponse prep ids)
  then show ?thesis using assms batch_planner.keeps_fine [OF recover_starts.settles, of h rd l] by simp
qed (use assms(2) batch_keepers [THEN batch_keeper.keeps] in \<open>auto simp: plan_set_model_def plan_set_thinking_def
    plan_set_active_tools_def\<close>)

lemma rmap_nth: "rmap f xs = Inr ys \<Longrightarrow> i < length xs \<Longrightarrow> f (xs ! i) = Inr (ys ! i)"
  using list_all2_nthD [of "\<lambda>x y. f x = Inr y" xs ys i] by (simp add: rmap_eq_Inr_list_all2)

lemma rmap_member: "rmap f xs = Inr ys \<Longrightarrow> y \<in> set ys \<Longrightarrow> \<exists>x \<in> set xs. f x = Inr y"
  by (metis in_set_conv_nth nth_mem rmap_length rmap_nth)

lemma staged_answers:
  assumes "read_batch_source s b = Inr src" and "staged_result s src x = Inr it" and "x \<in> set (calls b)"
  shows "\<exists>m. assistant_of s (assistant_entry b) = Some m \<and> fst it = x \<and> answers m (source_index x) (snd it)"
proof -
  obtain e m f cs where e: "entry_of_id s (assistant_entry b) = Some e" "body e = Message m f" "role m = ''assistant''"
    and cs: "rmap (source_call m) (calls b) = Inr cs" "src = (m, cs)"
    using assms(1) by (auto simp: read_batch_source_def entry_of_id_def result_simps split: option.splits body.splits if_splits)
  obtain r t where r: "it = (x, r)" "is_tool_result r" "map_of cs (source_index x) = Some t"
      "string_field r ''toolCallId'' = Some (ref_id t)"
    using assms(2) cs(2)
    by (auto simp: staged_result_def tool_call_for_def result_simps split: option.splits pending_entry.splits if_splits)
  have "(source_index x, t) \<in> set cs" using r(3) by (rule map_of_SomeD)
  then obtain y where "source_call m y = Inr (source_index x, t)" using rmap_member [OF cs(1)] by blast
  then have "source_index x < length (array_field m ''content'')" "is_tool_call (array_field m ''content'' ! source_index x)"
    "t = tool_ref_of (array_field m ''content'' ! source_index x)"
    by (auto simp: source_call_def Let_def split: if_splits)
  then show ?thesis using e r by (simp add: answers_def assistant_of_def)
qed

lemma read_items_ok:
  assumes "current_batch p = Some b" and "read_batch_source s b = Inr src" and "read_placement src p s = Inr (Return (Some r))"
    and "batch_ok s (tip p) b"
  shows "items_ok s b (pr_items r)"
proof -
  have items: "rmap (staged_result s src) (ready_calls (calls b)) = Inr (pr_items r)"
    using assms(1,3) by (auto simp: read_placement_def result_simps split: if_splits)
  obtain m where m: "assistant_of s (assistant_entry b) = Some m" using assms(4) by (auto simp: batch_ok_def split: option.splits)
  have sub: "x \<in> set (calls b) \<and> is_ready x" if "x \<in> set (ready_calls (calls b))" for x
    using that by (auto simp: ready_calls_def dest!: set_takeWhileD set_dropWhileD)
  have len: "length (pr_items r) = length (ready_calls (calls b))" using items by (rule rmap_length)
  have nth: "staged_result s src (ready_calls (calls b) ! i) = Inr (pr_items r ! i)" if "i < length (pr_items r)" for i
    using rmap_nth [OF items] that len by simp
  have ans: "fst (pr_items r ! i) = ready_calls (calls b) ! i \<and> is_ready (fst (pr_items r ! i)) \<and>
      answers m (source_index (fst (pr_items r ! i))) (snd (pr_items r ! i))" if "i < length (pr_items r)" for i
    using staged_answers [OF assms(2) nth [OF that]] sub [of "ready_calls (calls b) ! i"] m that len by auto
  have "map fst (pr_items r) = ready_calls (calls b)" using ans len by (intro nth_equalityI) auto
  moreover have "take (length (ready_calls (calls b))) (open_calls b) = ready_calls (calls b)"
    unfolding ready_calls_def open_calls_def by (rule takeWhile_eq_take [symmetric])
  moreover have "list_all (\<lambda>(x, q). is_ready x \<and> answers m (source_index x) q) (pr_items r)"
    using ans unfolding list_all_length case_prod_beta by blast
  ultimately show ?thesis using m len by (simp add: items_ok_def)
qed

lemma read_fine:
  assumes fine: "fine h rd" and p: "own_get (hlanes h) l = Some p" and b: "current_batch p = Some b"
    and "read_batch_source (hstore h) b = Inr src" and "read_placement src p (hstore h) = Inr (Return (Some r))"
  shows "fine h (rd(l := Some (pr_items r)))"
proof -
  have ok: "batch_ok (hstore h) (tip p) b"
    using fineD(2) [OF fine p] b by (auto simp: lane_fine_def)
  then have "items_ok (hstore h) b (pr_items r)" using read_items_ok [OF b assms(4,5)] by simp
  then have "lane_fine (hstore h) p (Some (pr_items r))" using b ok by (simp add: lane_fine_def)
  then show ?thesis using fineD [OF fine] p by (intro fineI) (auto split: if_splits)
qed

lemma crash_fine:
  assumes "in_sync h" and "fine h rd" and "create_harness (hstore h) sq = Inr h'"
  shows "in_sync h' \<and> fine h' (\<lambda>_. None)"
proof -
  have h': "in_sync h'" "hstore h' = hstore h" using created_in_sync [OF assms(3)] by auto
  obtain g where "create_harness (hstore h) sq = Inr g" "own_get (hlanes g) = own_get (hlanes h)"
    using in_sync_restores [OF assms(1)] by blast
  then have "own_get (hlanes h') = own_get (hlanes h)" using assms(3) by simp
  then show ?thesis using h' fineD(2) [OF assms(2)] lane_fine_forget by (force intro!: fineI)
qed

lemma harness_step_fine:
  assumes "harness_step c (h, rd) (h', rd')" and "in_sync h" and "fine h rd"
  shows "in_sync h' \<and> fine h' rd'"
  using assms(1)
proof (rule harness_stepE)
  fix l call now
  assume "h' = run_call c l call now h" "rd' = (if is_placement call then rd(l := None) else rd)"
    and "ids_free h l (call_ids call)" "call_allowed c h rd l call"
  then show ?thesis using run_call_sync run_call_fine assms(2,3) by blast
next
  fix l p b src r
  assume "h = h'" "rd' = rd(l := Some (pr_items r))" "own_get (hlanes h') l = Some p" "current_batch p = Some b"
    "read_batch_source (hstore h') b = Inr src" "read_placement src p (hstore h') = Inr (Return (Some r))"
  then show ?thesis using read_fine assms(2,3) by blast
next
  fix sq
  assume "rd' = (\<lambda>_. None)" "create_harness (hstore h) sq = Inr h'"
  then show ?thesis using crash_fine assms(2,3) by blast
qed

lemma harness_run_fine:
  assumes "harness_run c s t" and "in_sync (fst s)" and "fine (fst s) (snd s)"
  shows "in_sync (fst t) \<and> fine (fst t) (snd t)"
  using assms
proof (induction rule: harness_run.induct)
  case (run_step s t u)
  then show ?case using harness_step_fine [of c "fst t" "snd t" "fst u" "snd u"] by simp
qed simp

section \<open>Results in the order of the calls\<close>

lemma placement_commits:
  "settle_operation l (plan_commit_placement c l items uids turn) p s = Inr d \<Longrightarrow> \<exists>ws nxt r evs. d = Commit ws nxt r evs"
  by (auto simp: settle_operation_def plan_commit_placement_def Let_def result_simps
      split: option.splits operation_state.splits if_splits)

lemma completed_same:
  "map result_entry (complete_calls items xs) = map result_entry xs"
  "list_all (answered s m) (complete_calls items xs) = list_all (answered s m) xs"
proof -
  show "map result_entry (complete_calls items xs) = map result_entry xs"
    by (auto simp: complete_calls_def split: option.splits)
  have "answered s m (with_status x k) = answered s m x" for x k
    by (simp only: answered_def with_status_sel)
  then have "answered s m (case find (\<lambda>(y, r). same_call y x) items of
      None \<Rightarrow> x | Some (y, r) \<Rightarrow> with_status x (CallCompleted (terminates y))) = answered s m x" for x
    by (simp split: option.split)
  then show "list_all (answered s m) (complete_calls items xs) = list_all (answered s m) xs"
    by (simp only: complete_calls_def list.pred_map comp_def)
qed

section \<open>A small batch\<close>

definition demo_asks :: agent_message where
  "demo_asks = \<lparr>role = ''assistant'', stop = Some SToolUse, content = JObj [(''content'', JArr
     [JObj [(''type'', JStr ''toolCall''), (''id'', JStr ''c0''), (''name'', JStr ''t''), (''arguments'', JNull)]])]\<rparr>"

definition demo_result :: agent_message where
  "demo_result = \<lparr>role = ''toolResult'', stop = None, content = JObj [(''toolCallId'', JStr ''c0''), (''toolName'', JStr ''t'')]\<rparr>"

definition demo_call :: tool_call where
  "demo_call = \<lparr>source_index = 0, result_entry = ''r0'', call_status = OutcomeReady False\<rparr>"

definition demo_batch :: tool_batch where
  "demo_batch = \<lparr>assistant_entry = ''m'', batch_configuration = demo_lane_config, turn_id = ''u'', calls = [demo_call]\<rparr>"

definition demo_scope :: operation_scope where
  "demo_scope = \<lparr>control = Running, settings = \<lparr>compaction_settings = JNull, steering_mode = QAll, follow_up_mode = QAll,
     parallel_tools = True\<rparr>, latest_assistant = Some ''m''\<rparr>"

definition demo_meta :: operation_meta where
  "demo_meta = \<lparr>operation_id = ''x'', meta_lane = ''a'', source_tip = None, started_at = 1, intent = IRun []\<rparr>"

definition demo_tools :: "nat store" where
  "demo_tools = \<lparr>tips = [(''a'', Some ''m'')], configs = [(''a'', demo_lane_config)],
     lane_states = [(''a'', durable_lane_state (Some ''x'') [] None)], op_metas = [(''x'', demo_meta)],
     op_states = [(''x'', Tools demo_scope demo_batch)],
     committed = [\<lparr>eid = ''m'', parent_id = None, custom_type = None, body = Message demo_asks False\<rparr>],
     usage_rows = [], pendings = [(''r0'', PendingMessage demo_result)], results = [], labels = [], owned_values = []\<rparr>"

definition demo_lane :: lane_projection where
  "demo_lane = \<lparr>tip = Some ''m'', configuration = demo_lane_config, inbox = [], last_done = None,
     operation = Some \<lparr>op_meta = demo_meta, op_state = Tools demo_scope demo_batch\<rparr>\<rparr>"

definition demo_running :: "nat harness" where
  "demo_running = \<lparr>hstore = demo_tools, hseq = 0, hlanes = [(''a'', demo_lane)], hclosed = None, idle_owners = [], emitted = []\<rparr>"

definition demo_items :: "(tool_call \<times> agent_message) list" where
  "demo_items = [(demo_call, demo_result)]"

lemma demo_running_created: "create_harness demo_tools 0 = Inr demo_running"
  by (simp add: create_harness_def demo_running_def demo_tools_def demo_lane_def restore_session_def lane_names_def
      restore_step_def read_lane_storage_def restore_lane_state_def restore_operation_def durable_lane_state_def demo_meta_def
      lane_store.truncate_def)

lemma demo_running_sel [simp]:
  "hstore demo_running = demo_tools" "own_get (hlanes demo_running) l = (if l = ''a'' then Some demo_lane else None)"
  "current_batch demo_lane = Some demo_batch" "tip demo_lane = Some ''m''"
  "operation demo_lane = Some \<lparr>op_meta = demo_meta, op_state = Tools demo_scope demo_batch\<rparr>" "operation_id demo_meta = ''x''"
  by (simp_all add: demo_running_def demo_lane_def demo_meta_def current_batch_of)

lemmas message_simps = array_field_def string_field_def message_field_def json_field_def is_tool_call_def is_tool_result_def
  tool_ref_of_def demo_asks_def demo_result_def

lemma demo_fine: "fine demo_running (\<lambda>_. None)"
proof -
  have "batch_ok demo_tools (Some ''m'') demo_batch"
    by (simp add: batch_ok_def assistant_of_def entry_of_id_def demo_tools_def demo_batch_def demo_call_def
        completed_calls_def open_calls_def names_call_def message_simps)
  then show ?thesis by (intro fineI) (auto simp: lane_fine_def split: if_splits)
qed

lemma demo_read: "harness_step demo_runtime (demo_running, \<lambda>_. None) (demo_running, (\<lambda>_. None)(''a'' := Some demo_items))"
proof -
  let ?src = "(demo_asks, [(0, \<lparr>ref_id = ''c0'', ref_name = ''t'', ref_args = JNull\<rparr>)])"
  have src: "read_batch_source demo_tools demo_batch = Inr ?src"
    by (simp add: read_batch_source_def demo_tools_def demo_batch_def demo_call_def source_call_def message_simps)
  have "read_placement ?src demo_lane demo_tools = Inr (Return (Some \<lparr>pr_items = demo_items, pr_turn = Some [demo_result]\<rparr>))"
    by (simp add: read_placement_def demo_batch_def demo_call_def ready_calls_def all_reachable_def staged_result_def
        tool_call_for_def turn_result_def demo_tools_def demo_items_def message_simps)
  then show ?thesis using harness_step.read [of demo_running "''a''" demo_lane demo_batch ?src _ demo_runtime "\<lambda>_. None"] src by simp
qed

text \<open>
  C1. Take any run of a harness: commands of its lanes in any order and interleaving, staged results read and
  placed, crashes and restarts. If it was created on a session whose open batches were in order, then every lane
  with an open batch is in order at every moment: the message that made the calls is in the session, every call
  names one of its tool-call blocks, the completed calls are the first ones, each is answered by a tool result
  that carries its call's id, and these results, newest first, are exactly the entries from the lane's tip back
  to the message. However the tools finish, no result is placed out of order, twice or without its call.
\<close>

theorem tool_results_in_call_order:
  assumes "create_harness s sq = Inr h" and "fine h (\<lambda>_. None)" and "harness_run c (h, \<lambda>_. None) (h', rd)"
    and "own_get (hlanes h') l = Some p" and "current_batch p = Some b"
  shows "batch_ok (hstore h') (tip p) b"
proof -
  have "fine h' rd" using harness_run_fine [OF assms(3)] created_in_sync [OF assms(1)] assms(2) by simp
  then show ?thesis using fineD(2) [OF _ assms(4)] assms(5) by (auto simp: lane_fine_def)
qed

theorem tool_results_in_call_order_witness: "batch_ok demo_tools (Some ''m'') demo_batch"
  using tool_results_in_call_order [OF demo_running_created demo_fine run_step [OF run_start demo_read], of "''a''" demo_lane demo_batch]
  by simp

text \<open>
  C2. When placing results ends a batch, in any run as above, all its calls are answered: from the new tip back to
  the message that made them lie the results of all calls of the batch, in the order of the calls, each with its
  call's id, and the run continues at a checkpoint whose trigger is the last of them.
\<close>

theorem finished_batch_answered:
  assumes "create_harness s sq = Inr h" and "fine h (\<lambda>_. None)" and "harness_run c (h, \<lambda>_. None) (h1, rd)"
    and "rd l = Some items"
    and "run_command l (settle_operation l (plan_commit_placement c l items uids turn)) now h1 = (h2, Returned True)"
  shows "\<exists>p b m p' oper k. own_get (hlanes h1) l = Some p \<and> current_batch p = Some b \<and>
    assistant_of (hstore h2) (assistant_entry b) = Some m \<and> list_all (answered (hstore h2) m) (calls b) \<and>
    own_get (hlanes h2) l = Some p' \<and>
    reads_back (hstore h2) (tip p') (rev (map result_entry (calls b))) (Some (assistant_entry b)) \<and>
    operation p' = Some oper \<and> op_state oper = Checkpoint (operation_scope_of (op_state oper)) k \<and>
    trigger_entry k = the (tip p')"
proof -
  have fine: "fine h1 rd" using harness_run_fine [OF assms(3)] created_in_sync [OF assms(1)] assms(2) by simp
  obtain p d where p: "own_get (hlanes h1) l = Some p"
    and d: "settle_operation l (plan_commit_placement c l items uids turn) p (hstore h1) = Inr d"
    using assms(5) by (auto simp: run_command_def split: option.splits if_splits sum.splits)
  then obtain ws nxt r evs where commit: "d = Commit ws nxt r evs" using placement_commits by blast
  then have r: r and c: "commit_store (hstore h1) ws = Inr (hstore h2)" "hlanes h2 = put l nxt (hlanes h1)"
    using assms(5) p d by (auto simp: run_command_def split: option.splits if_splits sum.splits)
  have lane: "lane_fine (hstore h1) p (Some items)" using fineD(2) [OF fine p] assms(4) by simp
  show ?thesis using lane c(1) d [unfolded commit]
  proof (rule placed_lane)
    fix scope b
    assume b: "current_batch p = Some b" and ok: "batch_ok (hstore h2) (tip nxt) (b\<lparr>calls := complete_calls items (calls b)\<rparr>)"
      and "r \<Longrightarrow> list_all is_completed (complete_calls items (calls b)) \<and>
        (\<exists>oper. operation nxt = Some oper \<and> op_state oper = after_tools scope (complete_calls items (calls b)) (tip nxt))"
    then obtain oper where whole: "list_all is_completed (complete_calls items (calls b))"
      and oper: "operation nxt = Some oper" "op_state oper = after_tools scope (complete_calls items (calls b)) (tip nxt)"
      using r by blast
    have "completed_calls (b\<lparr>calls := complete_calls items (calls b)\<rparr>) = complete_calls items (calls b)"
      using whole by (simp add: completed_calls_def takeWhile_eq_all_conv list_all_iff)
    then obtain m where "assistant_of (hstore h2) (assistant_entry b) = Some m" "list_all (answered (hstore h2) m) (calls b)"
      "reads_back (hstore h2) (tip nxt) (rev (map result_entry (calls b))) (Some (assistant_entry b))"
      using ok by (auto simp: batch_ok_def completed_same split: option.splits)
    moreover have "own_get (hlanes h2) l = Some nxt" using c(2) by (simp add: own_simps)
    moreover have "\<exists>k. op_state oper = Checkpoint (operation_scope_of (op_state oper)) k \<and> trigger_entry k = the (tip nxt)"
      using oper(2) by (simp add: after_tools_def)
    ultimately show ?thesis using p b oper(1) by blast
  qed
qed

lemma demo_placement:
  "\<exists>st q evs. plan_commit_placement demo_runtime ''a'' demo_items (\<lambda>_. ''u0'') ''u'' demo_lane (Tools demo_scope demo_batch)
     demo_meta demo_tools = Inr (OpCommit [InsertEntry (result_new_entry (Some ''m'') (demo_call, demo_result)),
       DeletePending ''r0'', SetTip ''a'' (Some ''r0'')] st q True evs)"
proof -
  have "message_field demo_result ''usage'' = None" by (simp add: message_simps)
  moreover have "added_names xs demo_items = []" for xs by (simp add: added_names_def tool_names_def demo_items_def message_simps)
  moreover have "complete_calls demo_items (calls demo_batch) = [with_status demo_call (CallCompleted False)]"
    by (simp add: complete_calls_def demo_items_def demo_batch_def same_call_def demo_call_def)
  moreover have "placed_tip t demo_items = Some ''r0''" for t by (simp add: placed_tip_def demo_items_def demo_call_def)
  moreover have "keys_under demo_tools sp pre = []" for sp pre by (simp add: keys_under_def demo_tools_def)
  ultimately show ?thesis
    by (simp add: plan_commit_placement_def Let_def demo_items_def demo_call_def)
qed

theorem finished_batch_answered_witness:
  "\<exists>h :: nat harness. reads_back (hstore h) (Some ''r0'') [''r0''] (Some ''m'')"
proof -
  let ?plan = "plan_commit_placement demo_runtime ''a'' demo_items (\<lambda>_. ''u0'') ''u''"
  obtain st q evs where plan: "?plan demo_lane (Tools demo_scope demo_batch) demo_meta demo_tools = Inr (OpCommit
      [InsertEntry (result_new_entry (Some ''m'') (demo_call, demo_result)), DeletePending ''r0'', SetTip ''a'' (Some ''r0'')]
      st q True evs)" using demo_placement by blast
  obtain ws nxt where step: "settle_operation ''a'' ?plan demo_lane demo_tools = Inr (Commit ws nxt True evs)"
    and ws: "ws = [InsertEntry (result_new_entry (Some ''m'') (demo_call, demo_result)), DeletePending ''r0'',
        SetTip ''a'' (Some ''r0''), SetOpState ''x'' st] @ (case patch_inbox q of None \<Rightarrow> [] | Some items \<Rightarrow>
        [SetLaneState ''a'' (durable_lane_state (Some ''x'') items (last_done demo_lane))])"
    using plan by (simp add: settle_operation_def Let_def)
  obtain s' where "commit_store demo_tools ws = Inr s'"
    by (cases "patch_inbox q") (simp_all add: ws commit_store_def result_new_entry_def demo_call_def demo_tools_def
        demo_result_def pending_assistant_def)
  then obtain h where h: "run_command ''a'' (settle_operation ''a'' ?plan) 5 demo_running = (h, Returned True)"
    using step by (simp add: run_command_def) (simp add: demo_running_def)
  show ?thesis
    using finished_batch_answered [OF demo_running_created demo_fine run_step [OF run_start demo_read] _ h]
    by (auto simp: demo_batch_def demo_call_def)
qed

end
