(* ===== verification/LaneAbort.thy ===== *)
theory LaneAbort
  imports LaneRestart
begin

text \<open>
  Cancellation. After an accepted abort no ordinary step of the operation commits anything, whatever calls are
  made in between, and the operation can end only as aborted; its terminal transaction goes through, and leaves
  nothing of it but its result. The locale \<open>cancelled_planner\<close> is the contract of the steps that still run on
  a cancelled operation, \<open>abort_kept\<close> the contract of a lane's command.
\<close>

section \<open>The contract of a step on a cancelled operation\<close>

abbreviation op_cancelled :: "operation_state \<Rightarrow> bool" where
  "op_cancelled st \<equiv> control (operation_scope_of st) \<noteq> Running"

locale cancelled_planner =
  fixes plan :: "('n::{zero,plus}, 'r) op_planner"
  assumes cancelled_commit: "op_cancelled st \<Longrightarrow> plan p st meta s = Inr (OpCommit ws st' q r evs) \<Longrightarrow> op_cancelled st'"
    and cancelled_finish: "op_cancelled st \<Longrightarrow> plan p st meta s = Inr (OpFinish ws rec q r evs) \<Longrightarrow> res_status rec = Aborted"

text \<open>An ordinary step commits nothing on a cancelled operation, whatever it plans.\<close>

lemma ordinary_cancelled: "cancelled_planner (continue_plan plan)"
  by unfold_locales (auto simp: continue_plan_def split: control.splits)

interpretation cancelled_terminal: cancelled_planner "plan_aborted_terminal l now"
  by unfold_locales
    (auto simp: plan_aborted_terminal_def operation_result_record_def result_simps split: if_splits)

lemma settle_response_cancelled:
  assumes "op_cancelled st" and "settle_response c recovery m task ids now st = Inr (m', d)"
  shows "\<exists>r. d = NextState (may_finish ((operation_scope_of st)\<lparr>latest_assistant := Some r\<rparr>) r)"
  using assms by (auto simp: settle_response_def Let_def)

lemma publish_response_cancelled:
  assumes "op_cancelled st" and "plan_publish_response c l recovery m prep ids now p st meta s = Inr d"
  shows "\<exists>ws st' q r evs. d = OpCommit ws st' q r evs \<and> op_cancelled st'"
proof -
  obtain m' d' where "settle_response c recovery m (map_option fst prep) ids now st = Inr (m', d')"
    using assms(2) by (auto simp: plan_publish_response_def result_simps split: if_splits)
  moreover from settle_response_cancelled [OF assms(1) this]
  obtain r where "d' = NextState (may_finish ((operation_scope_of st)\<lparr>latest_assistant := Some r\<rparr>) r)" by blast
  ultimately show ?thesis
    using assms by (auto simp: plan_publish_response_def may_finish_def Let_def split: if_splits)
qed

interpretation cancelled_response: cancelled_planner "plan_publish_response c l recovery m prep ids now"
  by unfold_locales (blast dest: publish_response_cancelled, blast dest: publish_response_cancelled)

interpretation cancelled_recovery: cancelled_planner "plan_recover_response c l prep ids now"
proof
  fix st p meta s ws st' q evs and r :: procedure_result
  assume st: "op_cancelled st" and "plan_recover_response c l prep ids now p st meta s = Inr (OpCommit ws st' q r evs)"
  then obtain m evs' where "plan_publish_response c l True m prep ids now p st meta s = Inr (OpCommit ws st' q r evs')"
    using recovered_commit(1) by blast
  with st show "op_cancelled st'" by (rule cancelled_response.cancelled_commit)
next
  fix st p meta s ws rec q evs and r :: procedure_result
  assume st: "op_cancelled st" and "plan_recover_response c l prep ids now p st meta s = Inr (OpFinish ws rec q r evs)"
  then obtain m evs' where "plan_publish_response c l True m prep ids now p st meta s = Inr (OpFinish ws rec q r evs')"
    using recovered_commit(2) by blast
  with st show "res_status rec = Aborted" by (rule cancelled_response.cancelled_finish)
qed

interpretation cancelled_outcome: cancelled_planner "plan_tool_outcome l x out"
  by unfold_locales (auto simp: plan_tool_outcome_def Let_def split: operation_state.splits)

interpretation cancelled_placement: cancelled_planner "plan_commit_placement c l items uids turn"
  by unfold_locales
    (auto simp: plan_commit_placement_def after_tools_def Let_def split: operation_state.splits if_splits)

interpretation cancelled_request: cancelled_planner "plan_request_outcome c l u m"
  by unfold_locales (auto simp: plan_request_outcome_def Let_def split: operation_state.splits)

section \<open>The contract of a command\<close>

text \<open>What a lane holds of an operation whose abort was accepted.\<close>

definition holds_cancelled :: "string \<Rightarrow> lane_projection \<Rightarrow> bool" where
  "holds_cancelled oid p = (case operation p of
     None \<Rightarrow> False
   | Some oper \<Rightarrow> operation_id (op_meta oper) = oid \<and> op_cancelled (op_state oper))"

definition ended_aborted :: "string \<Rightarrow> 'n store \<Rightarrow> bool" where
  "ended_aborted oid s = (case own_get (results s) oid of None \<Rightarrow> False | Some rec \<Rightarrow> res_status rec = Aborted)"

lemma current_cancelled: "holds_cancelled oid p \<Longrightarrow> current_id p = Some oid"
  by (auto simp: holds_cancelled_def current_id_def split: option.splits)

lemma ended_aborted_iff: "ended_aborted oid s \<longleftrightarrow> (\<exists>rec. own_get (results s) oid = Some rec \<and> res_status rec = Aborted)"
  by (auto simp: ended_aborted_def split: option.splits)

locale abort_kept =
  fixes oid :: string
    and plan :: "('n::{zero,plus}, 'r) planner"
  assumes other_stays: "plan p s = Inr (Commit ws nxt r evs) \<Longrightarrow> current_id p \<noteq> Some oid \<Longrightarrow> current_id nxt \<noteq> Some oid"
    and cancelled_stays: "plan p s = Inr (Commit ws nxt r evs) \<Longrightarrow> holds_cancelled oid p \<Longrightarrow>
      holds_cancelled oid nxt \<or> current_id nxt \<noteq> Some oid \<and> ended_aborted oid (fold apply_value ws s)"
begin

lemma keeps_abort:
  assumes "own_get (hlanes h) l = Some p" and "current_id p = Some oid \<Longrightarrow> holds_cancelled oid p"
  shows "\<exists>p'. own_get (hlanes (fst (run_command l plan now h))) l = Some p' \<and>
    (current_id p' = Some oid \<longrightarrow> holds_cancelled oid p') \<and>
    (current_id p = Some oid \<longrightarrow> current_id p' \<noteq> Some oid \<longrightarrow> ended_aborted oid (hstore (fst (run_command l plan now h))))"
proof -
  let ?h = "fst (run_command l plan now h)"
  consider "hstore ?h = hstore h" "hlanes ?h = hlanes h"
    | q ws nxt r evs where "own_get (hlanes h) l = Some q" "plan q (hstore h) = Inr (Commit ws nxt r evs)"
      "commit_store (hstore h) ws = Inr (hstore ?h)" "hlanes ?h = put l nxt (hlanes h)"
    using run_command_effect [OF refl, of l plan now h] by blast
  then show ?thesis
  proof cases
    case 1
    then show ?thesis using assms by simp
  next
    case 2
    have "hstore ?h = fold apply_value ws (hstore h)" using 2(3) by (rule commit_store_apply)
    then show ?thesis
      using assms 2(1,4) other_stays [OF 2(2)] cancelled_stays [OF 2(2)] by (auto simp: own_simps dest: current_cancelled)
  qed
qed

end

lemma settled_abort:
  assumes "cancelled_planner plan"
  shows "abort_kept oid (settle_operation l plan)"
proof
  fix p s ws nxt r evs
  assume c: "settle_operation l plan p s = Inr (Commit ws nxt r evs)"
  then obtain oper d where o: "operation p = Some oper" "plan p (op_state oper) (op_meta oper) s = Inr d"
    by (auto simp: settle_operation_def result_simps split: option.splits)
  show "current_id nxt \<noteq> Some oid" if "current_id p \<noteq> Some oid"
    using that c o by (cases d) (auto simp: settle_operation_def Let_def current_id_def)
  show "holds_cancelled oid nxt \<or> current_id nxt \<noteq> Some oid \<and> ended_aborted oid (fold apply_value ws s)"
    if "holds_cancelled oid p"
  proof -
    have i: "operation_id (op_meta oper) = oid" "op_cancelled (op_state oper)"
      using that o(1) by (simp_all add: holds_cancelled_def)
    show ?thesis
    proof (cases d)
      case (OpCommit ws' st' q r' evs')
      then have "op_cancelled st'" using cancelled_planner.cancelled_commit [OF assms i(2)] o(2) by simp
      then show ?thesis using c o OpCommit i(1) by (auto simp: settle_operation_def Let_def holds_cancelled_def)
    next
      case (OpFinish ws' rec q r' evs')
      then have "res_status rec = Aborted" using cancelled_planner.cancelled_finish [OF assms i(2)] o(2) by simp
      then show ?thesis using c o OpFinish i(1)
        by (auto simp: settle_operation_def Let_def current_id_def ended_aborted_def own_simps)
    next
      case (OpReturn r')
      then show ?thesis using c o by (simp add: settle_operation_def)
    qed
  qed
qed

lemma ordinary_abort: "abort_kept oid (continue_operation l plan)"
  unfolding continue_operation_def by (rule settled_abort [OF ordinary_cancelled])

text \<open>A command that leaves the operation as it is, or starts one only on an idle lane.\<close>

lemma same_operation_abort:
  assumes "\<And>p s ws nxt r evs. plan p s = Inr (Commit ws nxt r evs) \<Longrightarrow> operation nxt = operation p"
  shows "abort_kept oid plan"
  by unfold_locales (auto simp: current_id_def holds_cancelled_def dest: assms)

lemma starting_abort:
  assumes "\<And>p s ws nxt r evs. plan p s = Inr (Commit ws nxt r evs) \<Longrightarrow> operation p = None \<and> current_id nxt \<noteq> Some oid"
  shows "abort_kept oid plan"
  by unfold_locales (use assms in \<open>force simp: current_id_def holds_cancelled_def\<close>)+

interpretation repeated_abort: abort_kept oid "plan_request_abort l i now"
proof
  fix p s ws nxt r evs
  assume c: "plan_request_abort l i now p s = Inr (Commit ws nxt r evs)"
  then obtain oper where o: "operation p = Some oper" "current_id nxt = current_id p" "\<not> holds_cancelled oid p"
    by (auto simp: plan_request_abort_def result_simps Let_def current_id_def holds_cancelled_def
        split: option.splits if_splits)
  show "current_id nxt \<noteq> Some oid" if "current_id p \<noteq> Some oid" using that o by simp
  show "holds_cancelled oid nxt \<or> current_id nxt \<noteq> Some oid \<and> ended_aborted oid (fold apply_value ws s)"
    if "holds_cancelled oid p" using that o by simp
qed

lemma accepted_run_abort: "i \<noteq> oid \<Longrightarrow> abort_kept oid (plan_accept_run c l i start prompt)"
  by (rule starting_abort)
    (auto simp: plan_accept_run_def result_simps Let_def current_id_def split: option.splits prod.splits if_splits)

lemma accepted_compaction_abort: "i \<noteq> oid \<Longrightarrow> abort_kept oid (plan_accept_compaction c l i task start custom)"
  by (rule starting_abort)
    (auto simp: plan_accept_compaction_def accept_started_def current_id_def split: option.splits sum.splits)

lemma accepted_navigation_abort:
  "i \<noteq> oid \<Longrightarrow> abort_kept oid (plan_accept_navigation c l i task start target opts observed prep)"
  by (rule starting_abort)
    (auto simp: plan_accept_navigation_def accept_started_def Let_def current_id_def split: option.splits if_splits)

lemma plain_commands_abort:
  "abort_kept oid (plan_enqueue l kind i m)" "abort_kept oid (plan_cancel_queued l i)" "abort_kept oid (plan_record_usage l u)"
  "abort_kept oid (plan_set_configuration l upd ev)" "abort_kept oid (plan_append l i v)"
  "abort_kept oid (plan_frame_progress i r frame)" "abort_kept oid (plan_clear_replay l i turn x t)"
  "abort_kept oid (plan_set_memo i x n jv)" "abort_kept oid (plan_tool_progress i turn x jw)"
  by (rule same_operation_abort;
    auto simp: plan_enqueue_def plan_cancel_queued_def plan_record_usage_def plan_set_configuration_def plan_append_def
      plan_frame_progress_def plan_clear_replay_def plan_set_memo_def plan_tool_progress_def result_simps Let_def
      split: option.splits if_splits)+

lemmas abort_contracts = plain_commands_abort ordinary_abort settled_abort [OF cancelled_terminal.cancelled_planner_axioms]
  settled_abort [OF cancelled_response.cancelled_planner_axioms] settled_abort [OF cancelled_recovery.cancelled_planner_axioms]
  settled_abort [OF cancelled_outcome.cancelled_planner_axioms] settled_abort [OF cancelled_placement.cancelled_planner_axioms]
  settled_abort [OF cancelled_request.cancelled_planner_axioms] repeated_abort.abort_kept_axioms

section \<open>Every call keeps an accepted abort\<close>

text \<open>The lane is there, and if it works on the operation, the operation is cancelled.\<close>

definition abort_holds :: "string \<Rightarrow> string \<Rightarrow> 'n harness \<Rightarrow> bool" where
  "abort_holds l oid h \<longleftrightarrow> (\<exists>p. own_get (hlanes h) l = Some p \<and> (current_id p = Some oid \<longrightarrow> holds_cancelled oid p))"

definition ends_aborted :: "string \<Rightarrow> string \<Rightarrow> 'n harness \<Rightarrow> 'n harness \<Rightarrow> bool" where
  "ends_aborted l oid h h' \<longleftrightarrow> (\<forall>p p'. own_get (hlanes h) l = Some p \<longrightarrow> own_get (hlanes h') l = Some p' \<longrightarrow>
     current_id p = Some oid \<longrightarrow> current_id p' \<noteq> Some oid \<longrightarrow> ended_aborted oid (hstore h'))"

lemma command_abort:
  assumes "abort_kept oid plan" and "abort_holds l oid h"
  shows "abort_holds l oid (fst (run_command l plan now h)) \<and> ends_aborted l oid h (fst (run_command l plan now h))"
  using assms(2) abort_kept.keeps_abort [OF assms(1), of h l _ now] by (fastforce simp: abort_holds_def ends_aborted_def)

lemma same_abort: "abort_holds l oid h \<Longrightarrow> hlanes h' = hlanes h \<Longrightarrow> abort_holds l oid h' \<and> ends_aborted l oid h h'"
  by (auto simp: abort_holds_def ends_aborted_def)

lemma command_other_lane: "k \<noteq> l \<Longrightarrow> own_get (hlanes (fst (run_command k plan now h))) l = own_get (hlanes h) l"
  using run_command_effect [OF refl, of k plan now h] by (auto simp: own_simps)

lemma acquire_lanes:
  "own_get (hlanes h) k \<noteq> None \<Longrightarrow> hlanes (fst (acquire_lane seed k create_at h)) = hlanes h"
  "k \<noteq> l \<Longrightarrow> own_get (hlanes (fst (acquire_lane seed k create_at h))) l = own_get (hlanes h) l"
  by (cases "hclosed h"; simp add: acquire_lane_def)
    (cases "hclosed h"; cases "read_lane_storage (lane_store.truncate (hstore h)) k";
      simp add: acquire_lane_def Let_def own_simps split: classified.split sum.split)

lemma call_other_lane: "k \<noteq> l \<Longrightarrow> own_get (hlanes (run_call c k call now h)) l = own_get (hlanes h) l"
  by (cases call) (auto simp: command_other_lane acquire_lanes accept_run_def enqueue_def
      split: option.splits sum.splits)

lemma run_call_abort:
  assumes "abort_holds l oid h" and "k = l \<Longrightarrow> oid \<notin> call_ids call"
  shows "abort_holds l oid (run_call c k call now h) \<and> ends_aborted l oid h (run_call c k call now h)"
proof (cases "k = l")
  case False
  then show ?thesis using assms(1) call_other_lane [OF False, of c call now h] by (auto simp: abort_holds_def ends_aborted_def)
next
  case True
  note own = command_abort [OF _ assms(1)]
  show ?thesis
  proof (cases call)
    case (AcceptRun i ids req)
    then show ?thesis using True assms own [OF accepted_run_abort, of i c l] same_abort [OF assms(1) refl]
      by (auto simp: accept_run_def split: option.splits sum.splits)
  next
    case (AcceptCompaction i task custom)
    then show ?thesis using True assms own [OF accepted_compaction_abort, of i c l] by auto
  next
    case (AcceptNavigation i task target opts observed prep)
    then show ?thesis using True assms own [OF accepted_navigation_abort, of i c l] by auto
  next
    case (Enqueue kind i input images)
    then show ?thesis using True own [OF plain_commands_abort(1)] same_abort [OF assms(1) refl]
      by (auto simp: enqueue_def split: option.split sum.split)
  next
    case (Acquire seed create_at)
    have "own_get (hlanes h) l \<noteq> None" using assms(1) by (auto simp: abort_holds_def)
    from same_abort [OF assms(1) acquire_lanes(1) [OF this]] show ?thesis using True Acquire by simp
  qed (use True in \<open>auto simp: plan_set_model_def plan_set_thinking_def plan_set_active_tools_def
      intro!: own abort_contracts\<close>)
qed

lemma run_calls_abort:
  "abort_holds l oid h \<Longrightarrow> \<forall>(k, call, now) \<in> set cs. k = l \<longrightarrow> oid \<notin> call_ids call \<Longrightarrow>
    abort_holds l oid (run_calls c cs h)"
  by (induction c cs h rule: run_calls.induct) (auto simp: run_call_abort)

lemma busy_lane_accepts_nothing:
  assumes "own_get (hlanes h) l = Some p" and "current_id p \<noteq> None" and "call_ids call \<noteq> {}"
  shows "run_call c l call now h = h"
proof -
  obtain oper where o: "operation p = Some oper" using assms(2) by (auto simp: current_id_def)
  have run: "fst (run_command l (plan_accept_run c l i now prompt) now h) = h" for i prompt
    using o assms(1) by (auto simp: run_command_def plan_accept_run_def split: option.split)
  have nav: "fst (run_command l (plan_accept_navigation c l i task now target opts observed prep) now h) = h"
    for i task target opts observed prep
    using o assms(1) by (auto simp: run_command_def plan_accept_navigation_def Let_def split: option.split)
  show ?thesis
  proof (cases call)
    case (AcceptRun i ids req)
    then show ?thesis using o by (simp add: accept_run_def run split: option.split sum.split)
  next
    case (AcceptCompaction i task custom)
    then show ?thesis using o assms(1) by (auto simp: run_command_def plan_accept_compaction_def split: option.split)
  next
    case (AcceptNavigation i task target opts observed prep)
    then show ?thesis using nav by simp
  qed (use assms(3) in simp_all)
qed

lemma request_abort_result:
  assumes "run_command l (plan_request_abort l oid now) now h = (h', Returned (Inr r))"
  shows "\<exists>p. own_get (hlanes h') l = Some p \<and> holds_cancelled oid p \<and>
    (newly_requested r \<longrightarrow> (\<forall>x \<in> set (inbox p). item_kind x \<noteq> Steer \<and> item_kind x \<noteq> FollowUp))"
proof -
  obtain p where h: "hclosed h = None" "l \<notin> set (idle_owners h)" "own_get (hlanes h) l = Some p"
    using assms by (auto simp: run_command_def split: option.splits if_splits)
  obtain d where d: "plan_request_abort l oid now p (hstore h) = Inr d"
    using assms h by (cases "plan_request_abort l oid now p (hstore h)") (simp_all add: run_command_def)
  obtain oper where oper: "operation p = Some oper" "operation_id (op_meta oper) = oid"
    using assms h by (auto simp: run_command_def plan_request_abort_def split: option.splits if_splits)
  show ?thesis
  proof (cases "op_cancelled (op_state oper)")
    case True
    then have "h' = h" "\<not> newly_requested r"
      using assms h oper by (auto simp: run_command_def plan_request_abort_def)
    then show ?thesis using h oper True by (simp add: holds_cancelled_def)
  next
    case False
    obtain ws nxt evs s' where c: "d = Commit ws nxt (Inr r) evs" "commit_store (hstore h) ws = Inr s'"
      and h': "hlanes h' = put l nxt (hlanes h)"
      using assms h d False oper
      by (cases d) (auto simp: run_command_def plan_request_abort_def result_simps Let_def split: sum.splits)
    have nxt: "operation nxt = Some \<lparr>op_meta = op_meta oper, op_state = with_control (CancelRequested now) (op_state oper)\<rparr>"
      "\<forall>x \<in> set (inbox nxt). item_kind x \<noteq> Steer \<and> item_kind x \<noteq> FollowUp"
      using d False oper c(1) by (auto simp: plan_request_abort_def result_simps Let_def)
    have "op_cancelled (with_control (CancelRequested now) (op_state oper))" by (cases "op_state oper") simp_all
    then show ?thesis using nxt h' oper(2) by (simp add: own_simps holds_cancelled_def)
  qed
qed

lemma cancelled_step:
  assumes "own_get (hlanes g) l = Some p" and "holds_cancelled oid p"
  shows "fst (run_command l (continue_operation l plan) t g) = g"
    and "hclosed g = None \<Longrightarrow> l \<notin> set (idle_owners g) \<Longrightarrow>
      run_command l (continue_operation l plan) t g = (g, Returned CancelRequest)"
proof -
  obtain oper where oper: "operation p = Some oper" "op_cancelled (op_state oper)"
    using assms(2) by (auto simp: holds_cancelled_def split: option.splits)
  have plan: "continue_operation l plan p (hstore g) = Inr (Return CancelRequest)"
    using oper by (cases "control (operation_scope_of (op_state oper))")
      (simp_all add: continue_operation_def settle_operation_def continue_plan_def)
  then show "hclosed g = None \<Longrightarrow> l \<notin> set (idle_owners g) \<Longrightarrow>
      run_command l (continue_operation l plan) t g = (g, Returned CancelRequest)"
    using assms(1) by (simp add: run_command_def)
  show "fst (run_command l (continue_operation l plan) t g) = g"
    using assms(1) plan by (simp add: run_command_def split: option.split)
qed

section \<open>Cancellation\<close>

text \<open>
  C9. Once an abort of the lane's operation has been accepted, take any further calls on any lanes, none of
  which starts a new operation on this lane under the same id. As long as the lane is still at the aborted
  operation, no ordinary step of it commits anything, whatever it plans: the harness stays as it is, and if it is
  open the step is told of the cancellation; and whatever call makes the lane leave the operation, the
  operation's recorded result is an aborted one. A newly accepted abort also takes every steering and follow-up
  message out of the inbox.
\<close>

theorem abort_stops_operation:
  assumes "run_command l (plan_request_abort l oid now) now h = (h', Returned (Inr r))"
    and "\<forall>(k, call, t) \<in> set cs. k = l \<longrightarrow> oid \<notin> call_ids call"
    and "g = run_calls c cs h'"
  shows "(\<exists>p. own_get (hlanes g) l = Some p \<and> (current_id p = Some oid \<longrightarrow>
      fst (run_command l (continue_operation l plan) t g) = g \<and>
      (hclosed g = None \<longrightarrow> l \<notin> set (idle_owners g) \<longrightarrow>
        run_command l (continue_operation l plan) t g = (g, Returned CancelRequest)) \<and>
      (\<forall>k call u p'. own_get (hlanes (run_call c k call u g)) l = Some p' \<longrightarrow> current_id p' \<noteq> Some oid \<longrightarrow>
        (\<exists>rec. own_get (results (hstore (run_call c k call u g))) oid = Some rec \<and> res_status rec = Aborted)))) \<and>
    (newly_requested r \<longrightarrow> (\<exists>p. own_get (hlanes h') l = Some p \<and>
      (\<forall>x \<in> set (inbox p). item_kind x \<noteq> Steer \<and> item_kind x \<noteq> FollowUp)))"
proof -
  obtain p' where p': "own_get (hlanes h') l = Some p'" "holds_cancelled oid p'"
      "newly_requested r \<longrightarrow> (\<forall>x \<in> set (inbox p'). item_kind x \<noteq> Steer \<and> item_kind x \<noteq> FollowUp)"
    using request_abort_result [OF assms(1)] by blast
  have "abort_holds l oid h'" using p'(1,2) by (auto simp: abort_holds_def)
  then have g: "abort_holds l oid g" using run_calls_abort assms(2,3) by blast
  then obtain p where p: "own_get (hlanes g) l = Some p" "current_id p = Some oid \<longrightarrow> holds_cancelled oid p"
    by (auto simp: abort_holds_def)
  have "ended_aborted oid (hstore (run_call c k call u g))"
    if "own_get (hlanes (run_call c k call u g)) l = Some q" "current_id q \<noteq> Some oid" "current_id p = Some oid" for k call u q
  proof (cases "k = l \<and> oid \<in> call_ids call")
    case True
    then have "run_call c k call u g = g" using busy_lane_accepts_nothing p(1) that(3) by fastforce
    then show ?thesis using that p(1) by simp
  next
    case False
    then show ?thesis using run_call_abort [OF g, of k call c u] that p(1) by (auto simp: ends_aborted_def)
  qed
  then show ?thesis using p p' cancelled_step [OF p(1)] unfolding ended_aborted_iff by blast
qed

theorem abort_stops_operation_witness:
  "\<exists>(h :: nat harness) h' r. run_command ''a'' (plan_request_abort ''a'' ''op'' 7) 7 h = (h', Returned (Inr r)) \<and>
     newly_requested r \<and>
     (\<exists>p. own_get (hlanes h') ''a'' = Some p \<and> current_id p = Some ''op'') \<and>
     run_command ''a'' (continue_operation ''a'' (plan_start_run ''a'' [])) 9
         (run_calls demo_runtime [(''a'', CancelQueued ''q'', 8)] h')
       = (run_calls demo_runtime [(''a'', CancelQueued ''q'', 8)] h', Returned CancelRequest)"
proof -
  let ?h = "run_call demo_runtime ''a'' (AcceptRun ''op'' (\<lambda>_. ''e2'') (PromptText ''hi'' [])) 5 demo_harness"
  let ?cs = "[(''a'', CancelQueued ''q'', 8)] :: (string \<times> nat call \<times> int) list"
  obtain h' r where a: "run_command ''a'' (plan_request_abort ''a'' ''op'' 7) 7 ?h = (h', Returned (Inr r))" "newly_requested r"
    "hclosed h' = None" "idle_owners h' = []" "\<exists>p. own_get (hlanes h') ''a'' = Some p \<and> current_id p = Some ''op'' \<and> inbox p = []"
    by (simp add: accept_run_def run_command_def plan_accept_run_def demo_harness_def demo_lanes_def demo_runtime_def
      initial_lane_def user_message_def pending_assistant_def enumerate_eq_zip message_entry_def commit_store_def
      read_lane_queues_def Let_def own_set_def own_insert_def own_before_def durable_lane_state_def
      plan_request_abort_def running_scope_def captured_settings_def current_id_def)
  let ?g = "run_calls demo_runtime ?cs h'"
  have same: "?g = h'" using a(3-5) by (auto simp: run_command_def plan_cancel_queued_def)
  have "run_command ''a'' (continue_operation ''a'' (plan_start_run ''a'' [])) 9 ?g = (?g, Returned CancelRequest)"
    using abort_stops_operation [OF a(1), of ?cs ?g demo_runtime "plan_start_run ''a'' []" 9] a(3-5) unfolding same
    by auto
  then show ?thesis using a(1,2,5) by blast
qed

section \<open>The terminal transaction\<close>

fun no_owned_set :: "'n lane_write \<Rightarrow> bool" where
  "no_owned_set (SetOwned _ _ _) = False"
| "no_owned_set (AppendOwned _ _ _) = False"
| "no_owned_set _ = True"

lemma owned_after:
  "\<forall>w \<in> set ws. no_owned_set w \<Longrightarrow> own_get (owned_values (fold apply_value ws s)) k =
    (if DeleteOwned (fst k) (snd k) \<in> set ws then None else own_get (owned_values s) k)"
proof (induction ws arbitrary: s)
  case (Cons w ws)
  have "own_get (owned_values (apply_value w s)) k =
      (if w = DeleteOwned (fst k) (snd k) then None else own_get (owned_values s) k)"
    using Cons.prems by (cases w; cases k) (auto simp: own_simps)
  then show ?case using Cons by auto
qed simp

lemma cleanup_no_owned: "\<forall>w \<in> set (operation_cleanup_writes s oid st). no_owned_set w"
  by (auto simp: operation_cleanup_writes_def split: option.split)

text \<open>What an operation in a given state owns: the list of frames is the one of the request it waits for.\<close>

definition owned_key :: "operation_state \<Rightarrow> owned_space \<Rightarrow> string \<Rightarrow> bool" where
  "owned_key st sp k \<longleftrightarrow> sp \<noteq> AssistantFrames \<or> frame_list st = Some k"

lemma cleanup_removes_owned:
  assumes "owned_key st sp k"
  shows "own_get (owned_values (fold apply_value (operation_cleanup_writes s oid st) s)) (sp, owned_prefix oid @ k) = None"
proof (cases "own_get (owned_values s) (sp, owned_prefix oid @ k)")
  case None
  then show ?thesis by (simp add: owned_after [OF cleanup_no_owned])
next
  case (Some v)
  then have "(sp, owned_prefix oid @ k) \<in> set (map fst (owned_values s))" by (force dest: map_of_SomeD)
  then have "owned_prefix oid @ k \<in> set (owned_keys s sp oid)" by (force simp: owned_keys_def)
  then have "DeleteOwned sp (owned_prefix oid @ k) \<in> set (operation_cleanup_writes s oid st)"
    using assms by (cases sp) (auto simp: operation_cleanup_writes_def owned_key_def)
  then show ?thesis by (simp add: owned_after [OF cleanup_no_owned])
qed

lemma cleanup_frame:
  "committed (fold apply_value (operation_cleanup_writes s oid st) s') = committed s'"
  "own_get (op_metas (fold apply_value (operation_cleanup_writes s oid st) s')) oid = None"
  "own_get (op_states (fold apply_value (operation_cleanup_writes s oid st) s')) oid = None"
proof -
  have same: "committed (fold apply_value ws t) = committed t"
    if "\<forall>w \<in> set ws. (\<exists>i. w = DeleteMeta i) \<or> (\<exists>i. w = DeleteOpState i) \<or> (\<exists>sp k. w = DeleteOwned sp k) \<or> (\<exists>i. w = DeletePending i)"
    for ws and t :: "'a store"
    using that
  proof (induction ws arbitrary: t)
    case (Cons w ws)
    then show ?case by (cases w) auto
  qed simp
  show "committed (fold apply_value (operation_cleanup_writes s oid st) s') = committed s'"
    by (rule same) (auto simp: operation_cleanup_writes_def split: option.split)
  show "own_get (op_metas (fold apply_value (operation_cleanup_writes s oid st) s')) oid = None"
    "own_get (op_states (fold apply_value (operation_cleanup_writes s oid st) s')) oid = None"
    by (simp_all add: operation_cleanup_writes_def own_simps split: option.split)
qed

lemma cleanup_commits: "commit_store s (operation_cleanup_writes s' oid st @ [SetResult i r, SetLaneState l ls])
    = Inr (fold apply_value (operation_cleanup_writes s' oid st @ [SetResult i r, SetLaneState l ls]) s)"
proof -
  have "commit_store t ws = Inr (fold apply_value ws t)" if "\<forall>w \<in> set ws. \<forall>u. check_write w u = Inr (apply_value w u)"
    for ws and t :: "'a store"
    using that by (induction ws arbitrary: t) (simp_all add: commit_store_def)
  then show ?thesis by (rule) (auto simp: operation_cleanup_writes_def split: option.splits)
qed

lemma cleanup_pending:
  "i \<in> set (outcome_ids st) \<Longrightarrow> own_get (pendings (fold apply_value (operation_cleanup_writes s oid st) s')) i = None"
proof -
  have gone: "own_get (pendings (fold apply_value (map DeletePending is) t)) i =
      (if i \<in> set is then None else own_get (pendings t) i)" for "is" and t :: "'a store"
    by (induction "is" arbitrary: t) (auto simp: own_simps)
  assume "i \<in> set (outcome_ids st)"
  then show ?thesis by (simp add: operation_cleanup_writes_def gone)
qed

lemma aborted_events_exist:
  assumes "state_matches_intent (intent meta) st"
    and "\<And>t. summary_task_of st = Some t \<Longrightarrow> intent_kind (intent meta) = KRun \<Longrightarrow> reason t \<noteq> None"
  shows "\<exists>evs :: 'n harness_event list. aborted_events l meta st t now = Inr evs"
proof (cases "intent meta")
  case (IRun ids)
  show ?thesis
  proof (cases "summary_task_of st")
    case (Some task)
    then have "is_resume (boundary task)" using assms(1) IRun by (cases st) auto
    then show ?thesis using Some IRun assms(2) [OF Some] by (auto simp: aborted_events_def Let_def)
  qed (simp add: aborted_events_def IRun Let_def)
qed (simp_all add: aborted_events_def Let_def)

text \<open>
  C8. The terminal transaction of a cancelled operation goes through, provided the summary task of a run, if
  it has one, names the reason of its compaction. It records an aborted result with the operation's own start,
  kind and source, and removes its meta data, its state, the arguments, checkpoints, memos and preparations it
  stored, the frames of the request it was waiting for, and the results it had staged but not placed. It keeps
  the lane's tip, configuration and queued input, adds no entry, and leaves the lane idle.
\<close>

theorem aborted_terminal_settles:
  fixes h :: "'n::{zero,plus} harness"
  assumes "in_sync h" and "hclosed h = None" and "l \<notin> set (idle_owners h)" and "own_get (hlanes h) l = Some p"
    and "operation p = Some oper" and "control (operation_scope_of (op_state oper)) \<noteq> Running"
    and "\<And>t. summary_task_of (op_state oper) = Some t \<Longrightarrow> intent_kind (intent (op_meta oper)) = KRun \<Longrightarrow> reason t \<noteq> None"
    and "oid = operation_id (op_meta oper)"
  shows "\<exists>h' rec. run_command l (settle_operation l (plan_aborted_terminal l now)) now h = (h', Returned (Settled rec)) \<and>
    own_get (results (hstore h')) oid = Some rec \<and>
    rec = \<lparr>res_operation = oid, res_kind = intent_kind (intent (op_meta oper)), res_status = Aborted, res_error = None,
      res_from = source_tip (op_meta oper), res_tip = tip p, res_started = started_at (op_meta oper), res_ended = now\<rparr> \<and>
    own_get (op_metas (hstore h')) oid = None \<and> own_get (op_states (hstore h')) oid = None \<and>
    (\<forall>sp k. sp \<noteq> AssistantFrames \<longrightarrow> own_get (owned_values (hstore h')) (sp, owned_prefix oid @ k) = None) \<and>
    (\<forall>i. frame_list (op_state oper) = Some i \<longrightarrow>
      own_get (owned_values (hstore h')) (AssistantFrames, owned_prefix oid @ i) = None) \<and>
    (\<forall>i \<in> set (outcome_ids (op_state oper)). own_get (pendings (hstore h')) i = None) \<and>
    committed (hstore h') = committed (hstore h) \<and>
    own_get (hlanes h') l = Some (p\<lparr>last_done := Some oid, operation := None\<rparr>)"
proof -
  let ?s = "hstore h" and ?st = "op_state oper" and ?meta = "op_meta oper"
  let ?rec = "\<lparr>res_operation = oid, res_kind = intent_kind (intent ?meta), res_status = Aborted, res_error = None,
      res_from = source_tip ?meta, res_tip = tip p, res_started = started_at ?meta, res_ended = now\<rparr>"
  have "state_matches_intent (intent ?meta) ?st"
    using in_syncD(1) [OF assms(1,4)] assms(5) by (simp add: stored_lane_def op_stored_def)
  from aborted_events_exist [OF this assms(7)]
  obtain evs :: "'n harness_event list" where evs: "aborted_events l ?meta ?st (tip p) now = Inr evs" by blast
  define ws where "ws = operation_cleanup_writes ?s oid ?st @ [SetResult oid ?rec, SetLaneState l (durable_lane_state None (inbox p) (Some oid))]"
  have plan: "settle_operation l (plan_aborted_terminal l now) p ?s =
      Inr (Commit ws (p\<lparr>last_done := Some oid, operation := None\<rparr>) (Settled ?rec) (\<lambda>_. evs))"
    using assms(5,6,8) evs
    by (simp add: settle_operation_def plan_aborted_terminal_def operation_result_record_def Let_def ws_def no_patch_def
        patched_def)
  have commit: "commit_store ?s ws = Inr (fold apply_value ws ?s)" unfolding ws_def by (rule cleanup_commits)
  let ?h = "fst (run_command l (settle_operation l (plan_aborted_terminal l now)) now h)"
  have run: "run_command l (settle_operation l (plan_aborted_terminal l now)) now h = (?h, Returned (Settled ?rec))"
    "hstore ?h = fold apply_value ws ?s" "hlanes ?h = put l (p\<lparr>last_done := Some oid, operation := None\<rparr>) (hlanes h)"
    using assms(2-4) plan commit by (simp_all add: run_command_def)
  have owned: "own_get (owned_values (hstore ?h)) (sp, owned_prefix oid @ k) = None" if "owned_key ?st sp k" for sp k
    using cleanup_removes_owned [OF that, of ?s oid] by (simp add: run(2) ws_def)
  have "\<forall>i \<in> set (outcome_ids ?st). own_get (pendings (hstore ?h)) i = None"
    using cleanup_pending [of _ ?st ?s oid ?s] by (simp add: run(2) ws_def)
  moreover have "own_get (op_metas (hstore ?h)) oid = None" "own_get (op_states (hstore ?h)) oid = None"
    "committed (hstore ?h) = committed ?s"
    using cleanup_frame [of ?s oid ?st ?s] by (simp_all add: run(2) ws_def)
  moreover have "own_get (results (hstore ?h)) oid = Some ?rec" by (simp add: run(2) ws_def own_simps)
  moreover have "own_get (hlanes ?h) l = Some (p\<lparr>last_done := Some oid, operation := None\<rparr>)"
    by (simp add: run(3) own_simps)
  ultimately show ?thesis using run(1) owned unfolding owned_key_def by blast
qed

theorem aborted_terminal_settles_witness:
  "\<exists>h' :: nat harness. own_get (op_metas (hstore h')) ''x'' = None \<and>
     own_get (results (hstore h')) ''x'' \<noteq> None"
proof -
  let ?oper = "\<lparr>op_meta = snd (hd (op_metas demo_lanes)), op_state = snd (hd (op_states demo_lanes))\<rparr>"
  let ?p = "\<lparr>tip = Some ''e'', configuration = demo_lane_config, inbox = [], last_done = None, operation = Some ?oper\<rparr>"
  have h: "in_sync demo_harness" "hclosed demo_harness = None" "''b'' \<notin> set (idle_owners demo_harness)"
    "own_get (hlanes demo_harness) ''b'' = Some ?p"
    using created_in_sync [OF demo_created] by (simp_all add: demo_harness_def)
  have o: "operation ?p = Some ?oper" "control (operation_scope_of (op_state ?oper)) \<noteq> Running"
    "summary_task_of (op_state ?oper) = Some t \<Longrightarrow> intent_kind (intent (op_meta ?oper)) = KRun \<Longrightarrow> reason t \<noteq> None"
    "''x'' = operation_id (op_meta ?oper)" for t
    by (simp_all add: demo_lanes_def)
  show ?thesis using aborted_terminal_settles [OF h o, of 9] by blast
qed

end
