(* ===== verification/JsonText.thy ===== *)
theory JsonText
  imports DeltaCodec
begin

text \<open>
  The text of a JSON value, \<open>JSON.stringify\<close>, as \<open>agent/src/harness/compaction\<close> and \<open>ai/src/utils\<close> use it. The
  decimal text of a number is an argument.
\<close>

fun join_with :: "string \<Rightarrow> string list \<Rightarrow> string" where
  "join_with sep [] = []"
| "join_with sep [x] = x"
| "join_with sep (x # y # xs) = x @ sep @ join_with sep (y # xs)"

text \<open>\<open>JSON.stringify\<close>; an absent value has no text, and \<open>safeJsonStringify\<close> writes \<open>undefined\<close>.\<close>

fun json_text :: "(rat \<Rightarrow> string) \<Rightarrow> json \<Rightarrow> string" where
  "json_text num JNull = ''null''"
| "json_text num (JBool b) = (if b then ''true'' else ''false'')"
| "json_text num (JNum q) = num q"
| "json_text num (JStr s) = json_quote s"
| "json_text num (JArr xs) = ''['' @ join_with '','' (map (json_text num) xs) @ '']''"
| "json_text num (JObj kvs) =
     CHR 0x7B # join_with '','' (map (\<lambda>kv. json_quote (fst kv) @ '':'' @ json_text num (snd kv)) kvs) @ [CHR 0x7D]"

definition safe_json_stringify :: "(rat \<Rightarrow> string) \<Rightarrow> json option \<Rightarrow> string" where
  "safe_json_stringify num v = (case v of None \<Rightarrow> ''undefined'' | Some x \<Rightarrow> json_text num x)"

end
