(* ===== verification/CompactionText.thy ===== *)
theory CompactionText
  imports DriveSummary SessionBranch JsonText "HOL-Library.List_Lexorder" "HOL-Library.Char_ord"
begin

text \<open>
  What a summarization request is made of: the messages a session adds to those of a provider and their
  conversion for a model (\<open>packages/agent/src/harness/messages.ts\<close>), the text of a conversation and the files
  its tool calls touched (\<open>harness/compaction/utils.ts\<close>), and \<open>contentText\<close> of \<open>packages/ai\<close>. A message is the
  stored one or a summary made from an entry. The decimal text of a number that is not an index is a function of
  the environment, as are the constant instruction texts.
\<close>

section \<open>Texts\<close>

record 'n summary_env =
  number_text :: "rat \<Rightarrow> string"
  number_value :: "'n \<Rightarrow> rat"
  env_config :: "'n runtime_config"
  initial_prompt :: string
  update_prompt :: string
  prefix_prompt :: string
  branch_prompt :: string
  branch_preamble :: string
  compaction_prefix :: string
  compaction_suffix :: string
  branch_prefix :: string
  branch_suffix :: string

definition nl :: string where
  "nl = [CHR 0x0A]"

definition fence :: string where
  "fence = replicate 3 (CHR 0x60)"

definition block_type :: "json \<Rightarrow> string" where
  "block_type v = (case json_field v ''type'' of Some (JStr t) \<Rightarrow> t | _ \<Rightarrow> [])"

definition block_string :: "json \<Rightarrow> string \<Rightarrow> string" where
  "block_string v k = (case json_field v k of Some (JStr t) \<Rightarrow> t | _ \<Rightarrow> [])"

definition content_text :: "string \<Rightarrow> json option \<Rightarrow> string" where
  "content_text sep v = (case v of
     Some (JStr s) \<Rightarrow> s
   | Some (JArr bs) \<Rightarrow> join_with sep (map (\<lambda>b. block_string b ''text'') (filter (\<lambda>b. block_type b = ''text'') bs))
   | _ \<Rightarrow> [])"

definition text_of :: "agent_message \<Rightarrow> string \<Rightarrow> string" where
  "text_of m k = (case string_field m k of Some s \<Rightarrow> s | None \<Rightarrow> [])"

section \<open>Messages for a model\<close>

definition truthy :: "json option \<Rightarrow> bool" where
  "truthy v = (case v of None \<Rightarrow> False | Some JNull \<Rightarrow> False | Some (JBool b) \<Rightarrow> b | Some (JNum q) \<Rightarrow> q \<noteq> 0
     | Some (JStr s) \<Rightarrow> s \<noteq> [] | Some _ \<Rightarrow> True)"

definition bash_execution_to_text :: "(rat \<Rightarrow> string) \<Rightarrow> agent_message \<Rightarrow> string" where
  "bash_execution_to_text num m =
    ''Ran '' @ [CHR 0x60] @ text_of m ''command'' @ [CHR 0x60] @ nl @
    (if text_of m ''output'' \<noteq> [] then fence @ nl @ text_of m ''output'' @ nl @ fence else ''(no output)'') @
    (if truthy (message_field m ''cancelled'') then nl @ nl @ ''(command cancelled)''
     else (case message_field m ''exitCode'' of
         Some (JNum q) \<Rightarrow> if q \<noteq> 0 then nl @ nl @ ''Command exited with code '' @ num q else []
       | _ \<Rightarrow> [])) @
    (if truthy (message_field m ''truncated'') \<and> truthy (message_field m ''fullOutputPath'')
     then nl @ nl @ ''[Output truncated. Full output: '' @ text_of m ''fullOutputPath'' @ '']'' else [])"

text \<open>\<open>createBranchSummaryMessage\<close> and \<open>createCompactionSummaryMessage\<close>, as the message a session stores.\<close>

fun as_message :: "'n summary_env \<Rightarrow> 'n context_message \<Rightarrow> agent_message" where
  "as_message v (Plain m) = m"
| "as_message v (context_message.CompactionSummary s t ts) = \<lparr>role = ''compactionSummary'', stop = None, content =
     JObj [(''summary'', JStr s), (''tokensBefore'', JNum (number_value v t)), (''timestamp'', JNum (of_int ts))]\<rparr>"
| "as_message v (BranchSummaryMessage s from ts) = \<lparr>role = ''branchSummary'', stop = None, content =
     JObj [(''summary'', JStr s), (''fromId'', case from of None \<Rightarrow> JNull | Some i \<Rightarrow> JStr i), (''timestamp'', JNum (of_int ts))]\<rparr>"

definition text_block :: "string \<Rightarrow> json" where
  "text_block s = JObj [(''type'', JStr ''text''), (''text'', JStr s)]"

definition user_message :: "json \<Rightarrow> json option \<Rightarrow> agent_message" where
  "user_message parts ts = \<lparr>role = ''user'', stop = None, content = JObj ((''content'', parts) #
     (case ts of None \<Rightarrow> [] | Some t \<Rightarrow> [(''timestamp'', t)]))\<rparr>"

definition llm_message :: "'n summary_env \<Rightarrow> agent_message \<Rightarrow> agent_message option" where
  "llm_message v m = (let ts = message_field m ''timestamp'' in
     if role m = ''bashExecution'' then
       (if truthy (message_field m ''excludeFromContext'') then None
        else Some (user_message (JArr [text_block (bash_execution_to_text (number_text v) m)]) ts))
     else if role m = ''custom'' then
       Some (user_message (case message_field m ''content'' of
           Some (JStr s) \<Rightarrow> JArr [text_block s] | Some x \<Rightarrow> x | None \<Rightarrow> JNull) ts)
     else if role m = ''branchSummary'' then
       Some (user_message (JArr [text_block (branch_prefix v @ text_of m ''summary'' @ branch_suffix v)]) ts)
     else if role m = ''compactionSummary'' then
       Some (user_message (JArr [text_block (compaction_prefix v @ text_of m ''summary'' @ compaction_suffix v)]) ts)
     else if role m \<in> {''user'', ''assistant'', ''toolResult''} then Some m
     else None)"

definition convert_to_llm :: "'n summary_env \<Rightarrow> 'n context_message list \<Rightarrow> agent_message list" where
  "convert_to_llm v ms = List.map_filter (\<lambda>m. llm_message v (as_message v m)) ms"

section \<open>The text of a conversation\<close>

definition tool_result_max_chars :: nat where
  "tool_result_max_chars = 2000"

definition truncate_for_summary :: "string \<Rightarrow> nat \<Rightarrow> string" where
  "truncate_for_summary s n = (if length s \<le> n then s
     else take n s @ nl @ nl @ ''[... '' @ show_nat (length s - n) @ '' more characters truncated]'')"

definition call_text :: "(rat \<Rightarrow> string) \<Rightarrow> json \<Rightarrow> string" where
  "call_text num b = block_string b ''name'' @ ''('' @ join_with '', ''
     (case json_field b ''arguments'' of
        Some (JObj kvs) \<Rightarrow> map (\<lambda>(k, x). k @ ''='' @ safe_json_stringify num (Some x)) kvs | _ \<Rightarrow> []) @ '')''"

definition assistant_parts :: "(rat \<Rightarrow> string) \<Rightarrow> agent_message \<Rightarrow> string list" where
  "assistant_parts num m = (let bs = array_field m ''content'';
       thinking = map (\<lambda>b. block_string b ''thinking'') (filter (\<lambda>b. block_type b = ''thinking'') bs);
       calls = map (call_text num) (filter is_tool_call bs) in
     (if thinking \<noteq> [] then [''[Assistant thinking]: '' @ join_with nl thinking] else []) @
     (if \<exists>b \<in> set bs. block_type b = ''text''
      then [''[Assistant]: '' @ content_text nl (message_field m ''content'')] else []) @
     (if calls \<noteq> [] then [''[Assistant tool calls]: '' @ join_with ''; '' calls] else []))"

definition message_parts :: "(rat \<Rightarrow> string) \<Rightarrow> agent_message \<Rightarrow> string list" where
  "message_parts num m =
    (if role m = ''user'' then (let t = content_text [] (message_field m ''content'') in
       if t \<noteq> [] then [''[User]: '' @ t] else [])
     else if role m = ''assistant'' then assistant_parts num m
     else if role m = ''toolResult'' then (let t = content_text [] (message_field m ''content'') in
       if t \<noteq> [] then [''[Tool result]: '' @ truncate_for_summary t tool_result_max_chars] else [])
     else [])"

definition serialize_conversation :: "(rat \<Rightarrow> string) \<Rightarrow> agent_message list \<Rightarrow> string" where
  "serialize_conversation num ms = join_with (nl @ nl) (concat (map (message_parts num) ms))"

section \<open>The files a conversation touched\<close>

text \<open>A JavaScript set keeps its elements in the order of insertion.\<close>

definition set_add :: "'a \<Rightarrow> 'a list \<Rightarrow> 'a list" where
  "set_add x xs = (if x \<in> set xs then xs else xs @ [x])"

record file_ops =
  ops_read :: "string list"
  ops_written :: "string list"
  ops_edited :: "string list"

definition create_file_ops :: file_ops where
  "create_file_ops = \<lparr>ops_read = [], ops_written = [], ops_edited = []\<rparr>"

definition add_call :: "json \<Rightarrow> file_ops \<Rightarrow> file_ops" where
  "add_call b ops = (if \<not> is_tool_call b then ops
     else (case json_field b ''arguments'' of
       None \<Rightarrow> ops
     | Some args \<Rightarrow> (let path = block_string args ''path''; name = block_string b ''name'' in
         if path = [] then ops
         else if name = ''read'' then ops\<lparr>ops_read := set_add path (ops_read ops)\<rparr>
         else if name = ''write'' then ops\<lparr>ops_written := set_add path (ops_written ops)\<rparr>
         else if name = ''edit'' then ops\<lparr>ops_edited := set_add path (ops_edited ops)\<rparr>
         else ops)))"

definition extract_file_ops :: "agent_message \<Rightarrow> file_ops \<Rightarrow> file_ops" where
  "extract_file_ops m ops = (if role m \<noteq> ''assistant'' then ops else fold add_call (array_field m ''content'') ops)"

definition compute_file_lists :: "file_ops \<Rightarrow> string list \<times> string list" where
  "compute_file_lists ops = (let modified = fold set_add (ops_edited ops @ ops_written ops) [] in
     (sort (filter (\<lambda>f. f \<notin> set modified) (ops_read ops)), sort modified))"

definition file_section :: "string \<Rightarrow> string list \<Rightarrow> string list" where
  "file_section tag fs = (if fs = [] then []
     else [''<'' @ tag @ ''>'' @ nl @ join_with nl fs @ nl @ ''</'' @ tag @ ''>''])"

definition format_file_operations :: "string list \<Rightarrow> string list \<Rightarrow> string" where
  "format_file_operations rs ms = (let sections = file_section ''read-files'' rs @ file_section ''modified-files'' ms in
     if sections = [] then [] else nl @ nl @ join_with (nl @ nl) sections)"

text \<open>\<open>details\<close> of an earlier summary: its file lists count as read and edited.\<close>

definition string_items :: "json option \<Rightarrow> string list" where
  "string_items v = (case v of Some (JArr xs) \<Rightarrow> List.map_filter (\<lambda>x. case x of JStr s \<Rightarrow> Some s | _ \<Rightarrow> None) xs | _ \<Rightarrow> [])"

definition add_details :: "json option \<Rightarrow> file_ops \<Rightarrow> file_ops" where
  "add_details d ops = (case d of
     Some (JObj kvs) \<Rightarrow> ops\<lparr>ops_read := fold set_add (string_items (own_get kvs ''readFiles'')) (ops_read ops),
       ops_edited := fold set_add (string_items (own_get kvs ''modifiedFiles'')) (ops_edited ops)\<rparr>
   | _ \<Rightarrow> ops)"

section \<open>Sets of files\<close>

text \<open>The interface of the three sets, and what any implementation of it accumulates.\<close>

locale insertion_set =
  fixes add :: "'a \<Rightarrow> 's \<Rightarrow> 's" and elems :: "'s \<Rightarrow> 'a list"
  assumes add_elems: "set (elems (add x s)) = insert x (set (elems s))"
    and add_distinct: "distinct (elems s) \<Longrightarrow> distinct (elems (add x s))"
    and add_keeps: "prefix (elems s) (elems (add x s))"
begin

lemma fold_elems: "set (elems (fold add xs s)) = set xs \<union> set (elems s)"
  by (induction xs arbitrary: s) (auto simp: add_elems)

lemma fold_distinct: "distinct (elems s) \<Longrightarrow> distinct (elems (fold add xs s))"
  by (induction xs arbitrary: s) (auto simp: add_distinct)

lemma fold_keeps: "prefix (elems s) (elems (fold add xs s))"
proof (induction xs arbitrary: s)
  case (Cons x xs)
  have "prefix (elems (add x s)) (elems (fold add xs (add x s)))" by (rule Cons.IH)
  then show ?case using add_keeps [of s x] by (auto intro: prefix_order.trans)
qed simp

end

interpretation files: insertion_set set_add "\<lambda>xs. xs"
  by unfold_locales (auto simp: set_add_def)

definition ops_distinct :: "file_ops \<Rightarrow> bool" where
  "ops_distinct ops \<longleftrightarrow> distinct (ops_read ops) \<and> distinct (ops_written ops) \<and> distinct (ops_edited ops)"

lemma ops_distinct_create [simp]: "ops_distinct create_file_ops"
  by (simp add: ops_distinct_def create_file_ops_def)

lemma add_call_distinct: "ops_distinct ops \<Longrightarrow> ops_distinct (add_call b ops)"
  by (auto simp: add_call_def ops_distinct_def Let_def files.add_distinct split: option.splits)

lemma fold_add_call_distinct: "ops_distinct ops \<Longrightarrow> ops_distinct (fold add_call bs ops)"
  by (induction bs arbitrary: ops) (simp_all add: add_call_distinct)

lemma extract_distinct: "ops_distinct ops \<Longrightarrow> ops_distinct (extract_file_ops m ops)"
  by (simp add: extract_file_ops_def fold_add_call_distinct)

lemma fold_extract_distinct: "ops_distinct ops \<Longrightarrow> ops_distinct (fold extract_file_ops ms ops)"
  by (induction ms arbitrary: ops) (simp_all add: extract_distinct)

lemma add_details_distinct: "ops_distinct ops \<Longrightarrow> ops_distinct (add_details d ops)"
  by (auto simp: add_details_def ops_distinct_def files.fold_distinct split: option.splits json.splits)

text \<open>What a summary names as modified was written or edited; what it names as read was only read.\<close>

lemma compute_file_lists_exact:
  "compute_file_lists ops = (rs, ms) \<Longrightarrow> set ms = set (ops_edited ops) \<union> set (ops_written ops) \<and>
    set rs = set (ops_read ops) - set ms \<and> sorted rs \<and> sorted ms \<and> distinct ms \<and>
    (distinct (ops_read ops) \<longrightarrow> distinct rs)"
  using files.fold_distinct [of "[]" "ops_edited ops @ ops_written ops"]
  by (auto simp: compute_file_lists_def Let_def files.fold_elems simp del: fold_append)

lemma truncate_for_summary_bound:
  "length (truncate_for_summary s n) \<le> n + 2 * length nl + length (show_nat (length s - n)) + 34"
  by (auto simp: truncate_for_summary_def)

text \<open>Only messages a provider knows are sent, in the order of the conversation.\<close>

lemma llm_message_role: "llm_message v m = Some m' \<Longrightarrow> role m' \<in> {''user'', ''assistant'', ''toolResult''}"
  by (auto simp: llm_message_def Let_def user_message_def split: if_splits)

lemma convert_to_llm_roles:
  "m \<in> set (convert_to_llm v ms) \<Longrightarrow> role m \<in> {''user'', ''assistant'', ''toolResult''}"
  using llm_message_role by (fastforce simp: convert_to_llm_def List.map_filter_def)

lemma convert_to_llm_append: "convert_to_llm v (xs @ ys) = convert_to_llm v xs @ convert_to_llm v ys"
  by (simp add: convert_to_llm_def List.map_filter_def)

end
