(* ===== verification/CompactionPlan.thy ===== *)
theory CompactionPlan
  imports CompactionText
begin

text \<open>
  Compaction of a conversation, \<open>packages/agent/src/harness/compaction/compaction.ts\<close>: the estimate of the
  tokens of a context, the cut between the messages that are summarized and those that are kept, and the
  preparation a compaction task stores. Token counts of providers are of the type of usage numbers; estimates are
  natural numbers. The limits of the settings are natural numbers.
\<close>

section \<open>Estimates\<close>

definition calculate_context_tokens :: "'n::{zero,plus} usage \<Rightarrow> 'n" where
  "calculate_context_tokens u = (if total_tokens u \<noteq> 0 then total_tokens u
     else uinput u + uoutput u + cache_read u + cache_write u)"

definition get_assistant_usage :: "'n::linordered_semidom summary_env \<Rightarrow> 'n context_message \<Rightarrow> 'n usage option" where
  "get_assistant_usage v cm = (case cm of
     Plain m \<Rightarrow> if role m = ''assistant'' \<and> stop m \<noteq> Some SAborted \<and> stop m \<noteq> Some SError then
         (case message_field m ''usage'' of
            Some (JObj kvs) \<Rightarrow> (let u = usage_value (env_config v) (JObj kvs) in
              if 0 < calculate_context_tokens u then Some u else None)
          | _ \<Rightarrow> None)
       else None
   | _ \<Rightarrow> None)"

fun last_assistant_usage_info :: "'n::linordered_semidom summary_env \<Rightarrow> 'n context_message list \<Rightarrow> nat \<Rightarrow> ('n usage \<times> nat) option" where
  "last_assistant_usage_info v ms 0 = None"
| "last_assistant_usage_info v ms (Suc i) = (case get_assistant_usage v (ms ! i) of
     Some u \<Rightarrow> Some (u, i) | None \<Rightarrow> last_assistant_usage_info v ms i)"

definition estimated_image_chars :: nat where
  "estimated_image_chars = 4800"

definition text_and_image_chars :: "json option \<Rightarrow> nat" where
  "text_and_image_chars c = (case c of
     Some (JStr s) \<Rightarrow> length s
   | Some (JArr bs) \<Rightarrow> sum_list (map (\<lambda>b. if block_type b = ''text'' then length (block_string b ''text'')
       else if block_type b = ''image'' then estimated_image_chars else 0) bs)
   | _ \<Rightarrow> 0)"

definition assistant_block_chars :: "(rat \<Rightarrow> string) \<Rightarrow> json \<Rightarrow> nat" where
  "assistant_block_chars num b =
    (if block_type b = ''text'' then length (block_string b ''text'')
     else if block_type b = ''thinking'' then length (block_string b ''thinking'')
     else if block_type b = ''toolCall'' then
       length (block_string b ''name'') + length (safe_json_stringify num (json_field b ''arguments''))
     else 0)"

text \<open>\<open>Math.ceil(chars / 4)\<close>.\<close>

definition chars_to_tokens :: "nat \<Rightarrow> nat" where
  "chars_to_tokens n = (n + 3) div 4"

definition message_chars :: "(rat \<Rightarrow> string) \<Rightarrow> agent_message \<Rightarrow> nat" where
  "message_chars num m =
    (if role m = ''assistant'' then sum_list (map (assistant_block_chars num) (array_field m ''content''))
     else if role m \<in> {''user'', ''custom'', ''toolResult''} then text_and_image_chars (message_field m ''content'')
     else if role m = ''bashExecution'' then length (text_of m ''command'') + length (text_of m ''output'')
     else if role m \<in> {''branchSummary'', ''compactionSummary''} then length (text_of m ''summary'')
     else 0)"

definition estimate_message :: "(rat \<Rightarrow> string) \<Rightarrow> agent_message \<Rightarrow> nat" where
  "estimate_message num m = chars_to_tokens (message_chars num m)"

definition estimate_tokens :: "'n summary_env \<Rightarrow> 'n context_message \<Rightarrow> nat" where
  "estimate_tokens v cm = estimate_message (number_text v) (as_message v cm)"

definition estimate_context_tokens :: "'n::linordered_semidom summary_env \<Rightarrow> 'n context_message list \<Rightarrow> 'n" where
  "estimate_context_tokens v ms = (case last_assistant_usage_info v ms (length ms) of
     None \<Rightarrow> of_nat (sum_list (map (estimate_tokens v) ms))
   | Some (u, i) \<Rightarrow> calculate_context_tokens u + of_nat (sum_list (map (estimate_tokens v) (drop (Suc i) ms))))"

section \<open>The cut\<close>

text \<open>A tool result is never the first entry that is kept.\<close>

definition cut_roles :: "string set" where
  "cut_roles = {''bashExecution'', ''custom'', ''branchSummary'', ''compactionSummary'', ''user'', ''assistant''}"

definition is_cut_point :: "'n entry \<Rightarrow> bool" where
  "is_cut_point e = (case body e of Message m _ \<Rightarrow> role m \<in> cut_roles | BranchSummary _ _ _ _ _ \<Rightarrow> True | _ \<Rightarrow> False)"

definition find_valid_cut_points :: "'n entry list \<Rightarrow> nat \<Rightarrow> nat \<Rightarrow> nat list" where
  "find_valid_cut_points es s e = filter (\<lambda>i. is_cut_point (es ! i)) [s..<e]"

definition starts_turn :: "'n entry \<Rightarrow> bool" where
  "starts_turn e = (case body e of Message m _ \<Rightarrow> role m \<in> {''user'', ''bashExecution''}
     | BranchSummary _ _ _ _ _ \<Rightarrow> True | _ \<Rightarrow> False)"

fun find_turn_start_index :: "'n entry list \<Rightarrow> nat \<Rightarrow> nat \<Rightarrow> nat option" where
  "find_turn_start_index es 0 s = (if 0 < s then None else if starts_turn (es ! 0) then Some 0 else None)"
| "find_turn_start_index es (Suc i) s = (if Suc i < s then None else if starts_turn (es ! Suc i) then Some (Suc i)
     else find_turn_start_index es i s)"

record cut_point =
  first_kept :: nat
  turn_start :: "nat option"
  split_turn :: bool

text \<open>The loop that adds up tokens from the end: the entry at which the budget is reached.\<close>

fun budget_entry :: "(rat \<Rightarrow> string) \<Rightarrow> 'n entry list \<Rightarrow> nat \<Rightarrow> nat \<Rightarrow> nat \<Rightarrow> nat \<Rightarrow> nat option" where
  "budget_entry num es s keep acc 0 = None"
| "budget_entry num es s keep acc (Suc i) = (if i < s then None else (case body (es ! i) of
     Message m _ \<Rightarrow> (let acc' = acc + estimate_message num m in
       if keep \<le> acc' then Some i else budget_entry num es s keep acc' i)
   | _ \<Rightarrow> budget_entry num es s keep acc i))"

text \<open>The loop that keeps the entries without a message that lie right before the cut.\<close>

fun pull_back :: "'n entry list \<Rightarrow> nat \<Rightarrow> nat \<Rightarrow> nat" where
  "pull_back es s 0 = 0"
| "pull_back es s (Suc i) = (if Suc i \<le> s then Suc i
     else if etype (es ! i) \<in> {TCompaction, TMessage} then Suc i else pull_back es s i)"

definition is_user_entry :: "'n entry \<Rightarrow> bool" where
  "is_user_entry e = (case body e of Message m _ \<Rightarrow> role m = ''user'' | _ \<Rightarrow> False)"

definition chosen_cut :: "(rat \<Rightarrow> string) \<Rightarrow> 'n entry list \<Rightarrow> nat \<Rightarrow> nat \<Rightarrow> nat \<Rightarrow> nat list \<Rightarrow> nat" where
  "chosen_cut num es s e keep cuts = (case budget_entry num es s keep 0 e of
     None \<Rightarrow> hd cuts
   | Some i \<Rightarrow> (case find (\<lambda>c. i \<le> c) cuts of None \<Rightarrow> hd cuts | Some c \<Rightarrow> c))"

definition find_cut_point :: "(rat \<Rightarrow> string) \<Rightarrow> 'n entry list \<Rightarrow> nat \<Rightarrow> nat \<Rightarrow> nat \<Rightarrow> cut_point" where
  "find_cut_point num es s e keep = (let cuts = find_valid_cut_points es s e in
     if cuts = [] then \<lparr>first_kept = s, turn_start = None, split_turn = False\<rparr>
     else (let cut = pull_back es s (chosen_cut num es s e keep cuts);
               user = is_user_entry (es ! cut);
               start = (if user then None else find_turn_start_index es cut s) in
       \<lparr>first_kept = cut, turn_start = start, split_turn = (\<not> user \<and> start \<noteq> None)\<rparr>))"

section \<open>Preparing a compaction\<close>

record summary_settings =
  compact_enabled :: bool
  reserve_tokens :: nat
  keep_recent_tokens :: nat

definition default_compaction_settings :: summary_settings where
  "default_compaction_settings = \<lparr>compact_enabled = True, reserve_tokens = 16384, keep_recent_tokens = 20000\<rparr>"

definition message_for_compaction :: "'n entry \<Rightarrow> 'n context_message option" where
  "message_for_compaction e = (case body e of
     Message m _ \<Rightarrow> Some (Plain m)
   | BranchSummary from summary _ _ _ \<Rightarrow> Some (BranchSummaryMessage summary from (timestamp e))
   | _ \<Rightarrow> None)"

definition message_timestamp :: "agent_message \<Rightarrow> int" where
  "message_timestamp m = (case message_field m ''timestamp'' of Some (JNum q) \<Rightarrow> \<lfloor>q\<rfloor> | _ \<Rightarrow> 0)"

definition retained_id :: "string \<Rightarrow> nat \<Rightarrow> string" where
  "retained_id i n = i @ '':retained:'' @ show_nat n"

definition virtual_entry :: "'n entry \<Rightarrow> nat \<times> agent_message \<Rightarrow> 'n entry" where
  "virtual_entry c im = (case im of (n, m) \<Rightarrow>
     \<lparr>eid = retained_id (eid c) n, parent_id = Some (if n = 0 then eid c else retained_id (eid c) (n - 1)),
      custom_type = None, body = Message m False, seq = seq c, timestamp = message_timestamp m\<rparr>)"

text \<open>The last compaction of a path and the entries after it.\<close>

definition last_compaction :: "'n entry list \<Rightarrow> ('n entry \<times> 'n entry list) option" where
  "last_compaction path = (case dropWhile (\<lambda>e. etype e \<noteq> TCompaction) (rev path) of
     [] \<Rightarrow> None | c # before \<Rightarrow> Some (c, drop (Suc (length before)) path))"

definition compactable_entries :: "'n entry list \<Rightarrow> 'n entry list" where
  "compactable_entries path = (case last_compaction path of
     None \<Rightarrow> path
   | Some (c, rest) \<Rightarrow> (case body c of
       Compaction _ tail _ _ _ _ \<Rightarrow> map (virtual_entry c) (enumerate 0 tail) @ rest | _ \<Rightarrow> rest))"

definition previous_summary_of :: "'n entry list \<Rightarrow> string option" where
  "previous_summary_of path = (case last_compaction path of
     None \<Rightarrow> None
   | Some (c, _) \<Rightarrow> (case body c of Compaction s _ _ _ _ _ \<Rightarrow> Some s | _ \<Rightarrow> None))"

definition messages_of :: "'n entry list \<Rightarrow> 'n context_message list" where
  "messages_of es = List.map_filter message_for_compaction es"

definition extract_file_operations :: "'n summary_env \<Rightarrow> 'n context_message list \<Rightarrow> 'n entry list \<Rightarrow> file_ops" where
  "extract_file_operations v ms path = fold (\<lambda>m. extract_file_ops (as_message v m)) ms (case last_compaction path of
     None \<Rightarrow> create_file_ops
   | Some (c, _) \<Rightarrow> (case body c of
       Compaction _ _ _ details _ _ \<Rightarrow> add_details details create_file_ops | _ \<Rightarrow> create_file_ops))"

record 'n compaction_preparation =
  to_summarize :: "'n context_message list"
  turn_prefix :: "'n context_message list"
  retained_tail :: "'n context_message list"
  prep_split :: bool
  tokens_before :: 'n
  previous_summary :: "string option"
  prep_ops :: file_ops
  prep_settings :: summary_settings

definition context_tokens :: "'n::linordered_semidom summary_env \<Rightarrow> 'n entry list \<Rightarrow> 'n" where
  "context_tokens v path = estimate_context_tokens v
     (concat (map session_entry_to_context_messages (build_context_entries path)))"

text \<open>The three slices of the compactable entries, and \<open>prepareCompaction\<close> itself, which never fails.\<close>

definition prepared_slices :: "cut_point \<Rightarrow> 'n entry list \<Rightarrow> 'n context_message list \<times> 'n context_message list \<times> 'n context_message list" where
  "prepared_slices cp es = (let k = first_kept cp;
       history_end = (if split_turn cp then the (turn_start cp) else k) in
     (messages_of (take history_end es),
      (if split_turn cp then messages_of (take (k - history_end) (drop history_end es)) else []),
      messages_of (drop k es)))"

definition prepare_entries :: "'n::linordered_semidom summary_env \<Rightarrow> 'n entry list \<Rightarrow> summary_settings \<Rightarrow> 'n compaction_preparation option" where
  "prepare_entries v path st =
    (if path = [] \<or> etype (last path) = TCompaction then None
     else (let es = compactable_entries path;
               cp = find_cut_point (number_text v) es 0 (length es) (keep_recent_tokens st);
               (history, prefx, tail) = prepared_slices cp es in
       Some \<lparr>to_summarize = history, turn_prefix = prefx, retained_tail = tail, prep_split = split_turn cp,
         tokens_before = context_tokens v path, previous_summary = previous_summary_of path,
         prep_ops = fold (\<lambda>m. extract_file_ops (as_message v m)) prefx (extract_file_operations v history path),
         prep_settings = st\<rparr>))"

section \<open>Laws of the cut\<close>

lemma messages_of_append [simp]: "messages_of (xs @ ys) = messages_of xs @ messages_of ys"
  by (simp add: messages_of_def List.map_filter_def)

lemma messages_of_Nil [simp]: "messages_of [] = []"
  by (simp add: messages_of_def List.map_filter_def)

lemma messages_of_Cons: "messages_of (e # es) = (case message_for_compaction e of None \<Rightarrow> messages_of es | Some m \<Rightarrow> m # messages_of es)"
  by (simp add: messages_of_def List.map_filter_def split: option.splits)

text \<open>
  What the preparation relies on: the cut lies within the entries and a split turn starts before it. Whatever the
  rule, the three slices are then the compactable messages.
\<close>

locale cut_rule =
  fixes cut :: "'n entry list \<Rightarrow> cut_point"
  assumes cut_within: "first_kept (cut es) \<le> length es"
    and start_within: "split_turn (cut es) \<Longrightarrow> \<exists>t \<le> first_kept (cut es). turn_start (cut es) = Some t"
begin

lemma slices_partition:
  assumes "prepared_slices (cut es) es = (h, p, t)"
  shows "h @ p @ t = messages_of es"
proof (cases "split_turn (cut es)")
  case True
  then obtain i where i: "turn_start (cut es) = Some i" "i \<le> first_kept (cut es)" using start_within by blast
  let ?k = "first_kept (cut es)"
  have "es = take i es @ take (?k - i) (drop i es) @ drop ?k es"
    using i(2) append_take_drop_id [of i es] append_take_drop_id [of "?k - i" "drop i es"] by simp
  then have "messages_of es = messages_of (take i es) @ messages_of (take (?k - i) (drop i es)) @ messages_of (drop ?k es)"
    by (metis messages_of_append)
  then show ?thesis using assms True i by (auto simp: prepared_slices_def Let_def)
next
  case False
  have "messages_of es = messages_of (take (first_kept (cut es)) es) @ messages_of (drop (first_kept (cut es)) es)"
    by (metis append_take_drop_id messages_of_append)
  then show ?thesis using assms False by (auto simp: prepared_slices_def Let_def)
qed

lemma tail_slice: "prepared_slices (cut es) es = (h, p, t) \<Longrightarrow> t = messages_of (drop (first_kept (cut es)) es)"
  by (auto simp: prepared_slices_def Let_def)

lemma empty_history: "first_kept (cut es) = 0 \<Longrightarrow> prepared_slices (cut es) es = ([], [], messages_of es)"
  using start_within [of es] by (auto simp: prepared_slices_def Let_def)

end

lemma find_turn_start_le: "find_turn_start_index es i s = Some t \<Longrightarrow> s \<le> t \<and> t \<le> i"
  by (induction es i s rule: find_turn_start_index.induct) (auto split: if_splits)

lemma pull_back_le: "pull_back es s c \<le> c"
  by (induction es s c rule: pull_back.induct) auto

lemma pull_back_ge: "s \<le> c \<Longrightarrow> s \<le> pull_back es s c"
  by (induction es s c rule: pull_back.induct) auto

lemma pull_back_skips: "pull_back es s c \<le> i \<Longrightarrow> i < c \<Longrightarrow> etype (es ! i) \<notin> {TCompaction, TMessage}"
proof (induction es s c rule: pull_back.induct)
  case (2 es s j)
  show ?case
  proof (cases "i = j")
    case True then show ?thesis using "2.prems" by (auto split: if_splits)
  next
    case False then show ?thesis using 2 by (auto split: if_splits)
  qed
qed simp

lemma chosen_cut_mem: "cuts \<noteq> [] \<Longrightarrow> chosen_cut num es s e keep cuts \<in> set cuts"
  by (auto simp: chosen_cut_def find_Some_iff split: option.splits)

lemma valid_cut_iff: "i \<in> set (find_valid_cut_points es s e) \<longleftrightarrow> s \<le> i \<and> i < e \<and> is_cut_point (es ! i)"
  by (auto simp: find_valid_cut_points_def)

definition entry_cut :: "(rat \<Rightarrow> string) \<Rightarrow> nat \<Rightarrow> 'n entry list \<Rightarrow> cut_point" where
  "entry_cut num keep es = find_cut_point num es 0 (length es) keep"

lemma entry_cut_cases:
  obtains "find_valid_cut_points es 0 (length es) = []" "entry_cut num keep es = \<lparr>first_kept = 0, turn_start = None, split_turn = False\<rparr>"
  | c where "c < length es" "is_cut_point (es ! c)" "first_kept (entry_cut num keep es) = pull_back es 0 c"
      "c = chosen_cut num es 0 (length es) keep (find_valid_cut_points es 0 (length es))"
      "find_valid_cut_points es 0 (length es) \<noteq> []"
proof (cases "find_valid_cut_points es 0 (length es) = []")
  case True then show ?thesis using that(1) by (simp add: entry_cut_def find_cut_point_def)
next
  case False
  let ?c = "chosen_cut num es 0 (length es) keep (find_valid_cut_points es 0 (length es))"
  have "?c < length es \<and> is_cut_point (es ! ?c)" using chosen_cut_mem [OF False] valid_cut_iff by blast
  then show ?thesis using that(2) [of ?c] False by (simp add: entry_cut_def find_cut_point_def Let_def)
qed

interpretation entry_cut: cut_rule "entry_cut num keep" for num keep
proof unfold_locales
  fix es :: "'a entry list"
  show "first_kept (entry_cut num keep es) \<le> length es"
    using pull_back_le [of es 0] by (rule_tac entry_cut_cases [of es num keep]) (auto intro: le_trans less_imp_le)
  show "split_turn (entry_cut num keep es) \<Longrightarrow> \<exists>t \<le> first_kept (entry_cut num keep es). turn_start (entry_cut num keep es) = Some t"
    by (auto simp: entry_cut_def find_cut_point_def Let_def split: if_splits dest: find_turn_start_le)
qed

lemma prepare_entries_slices:
  assumes "prepare_entries v path st = Some p"
  shows "prepared_slices (entry_cut (number_text v) (keep_recent_tokens st) (compactable_entries path)) (compactable_entries path) =
    (to_summarize p, turn_prefix p, retained_tail p)"
  using assms by (auto simp: prepare_entries_def entry_cut_def Let_def split: if_splits prod.splits)

lemmas prepare_partition = entry_cut.slices_partition [OF prepare_entries_slices]
lemmas prepare_tail = entry_cut.tail_slice [OF prepare_entries_slices]

section \<open>What is kept\<close>

lemma skipped_cases:
  "etype e \<notin> {TCompaction, TMessage} \<Longrightarrow>
    message_for_compaction e = None \<or> (\<exists>s f t. message_for_compaction e = Some (BranchSummaryMessage s f t))"
  by (cases "body e") (auto simp: message_for_compaction_def)

text \<open>The entries from a cut on: summaries of branches that were pulled in, then the message of the cut itself.\<close>

lemma messages_from_cut:
  assumes "k \<le> c" "c < length es" "\<And>i. k \<le> i \<Longrightarrow> i < c \<Longrightarrow> etype (es ! i) \<notin> {TCompaction, TMessage}"
    and "is_cut_point (es ! c)"
  shows "\<exists>front m. messages_of (drop k es) = front @ m # messages_of (drop (Suc c) es) \<and>
    (\<forall>x \<in> set front. \<exists>s f t. x = BranchSummaryMessage s f t) \<and> message_for_compaction (es ! c) = Some m"
  using assms
proof (induction "c - k" arbitrary: k)
  case 0
  then have "k = c" by simp
  moreover obtain m where "message_for_compaction (es ! c) = Some m"
    using "0.prems"(4) by (cases "body (es ! c)") (auto simp: is_cut_point_def message_for_compaction_def)
  moreover have "drop c es = es ! c # drop (Suc c) es" using "0.prems"(2) by (simp add: Cons_nth_drop_Suc)
  ultimately show ?case by (intro exI [of _ "[]"] exI [of _ m]) (simp add: messages_of_Cons)
next
  case (Suc n)
  have k: "k < c" and n: "n = c - Suc k" using Suc.hyps(2) by simp_all
  obtain front m where ih: "messages_of (drop (Suc k) es) = front @ m # messages_of (drop (Suc c) es)"
    "\<forall>x \<in> set front. \<exists>s f t. x = BranchSummaryMessage s f t" "message_for_compaction (es ! c) = Some m"
    using Suc.hyps(1) [of "Suc k"] Suc.prems k n by (metis Suc_leD Suc_leI)
  have d: "drop k es = es ! k # drop (Suc k) es" using k Suc.prems(2) by (simp add: Cons_nth_drop_Suc)
  have "etype (es ! k) \<notin> {TCompaction, TMessage}" using Suc.prems(3) k by simp
  from skipped_cases [OF this] show ?case
  proof (elim disjE exE)
    assume "message_for_compaction (es ! k) = None"
    then show ?thesis using ih d by (auto simp: messages_of_Cons)
  next
    fix s f t assume "message_for_compaction (es ! k) = Some (BranchSummaryMessage s f t)"
    then show ?thesis using ih d by (intro exI [of _ "BranchSummaryMessage s f t # front"] exI [of _ m]) (auto simp: messages_of_Cons)
  qed
qed

lemma cut_point_role: "is_cut_point e \<Longrightarrow> message_for_compaction e = Some m \<Longrightarrow> role (as_message v m) \<noteq> ''toolResult''"
  by (cases "body e") (auto simp: is_cut_point_def message_for_compaction_def cut_roles_def)

definition stored_tokens :: "(rat \<Rightarrow> string) \<Rightarrow> 'n entry list \<Rightarrow> nat" where
  "stored_tokens num es = sum_list (map (\<lambda>e. case body e of Message m _ \<Rightarrow> estimate_message num m | _ \<Rightarrow> 0) es)"

lemma stored_tokens_simps [simp]:
  "stored_tokens num [] = 0"
  "stored_tokens num (e # es) = (case body e of Message m _ \<Rightarrow> estimate_message num m | _ \<Rightarrow> 0) + stored_tokens num es"
  "stored_tokens num (xs @ ys) = stored_tokens num xs + stored_tokens num ys"
  by (simp_all add: stored_tokens_def)

lemma stored_tokens_drop: "i \<le> j \<Longrightarrow> stored_tokens num (drop j es) \<le> stored_tokens num (drop i es)"
proof (induction es arbitrary: i j)
  case (Cons e es)
  then show ?case by (cases i; cases j) (auto intro: le_trans [OF Cons.IH [of 0]] simp del: drop_0 simp: drop_Cons')
qed simp

lemma take_Suc_drop: "i < n \<Longrightarrow> n < length es \<Longrightarrow> drop i (take (Suc n) es) = drop i (take n es) @ [es ! n]"
  by (simp add: take_Suc_conv_app_nth)

lemma budget_entry_Some:
  "budget_entry num es s keep acc n = Some i \<Longrightarrow> n \<le> length es \<Longrightarrow> acc < keep \<Longrightarrow>
    s \<le> i \<and> i < n \<and> acc + stored_tokens num (drop (Suc i) (take n es)) < keep \<and>
    keep \<le> acc + stored_tokens num (drop i (take n es))"
proof (induction num es s keep acc n rule: budget_entry.induct)
  case (2 num es s keep acc n)
  then have n: "\<not> n < s" "n < length es" by (auto split: if_splits)
  have t: "take (Suc n) es = take n es @ [es ! n]" using n by (simp add: take_Suc_conv_app_nth)
  show ?case
  proof (cases "body (es ! n)")
    case (Message m b)
    let ?a = "acc + estimate_message num m"
    show ?thesis
    proof (cases "keep \<le> ?a")
      case True
      then show ?thesis using "2.prems" n Message t by (auto simp: Let_def)
    next
      case False
      then have "budget_entry num es s keep ?a n = Some i" using "2.prems" n Message by (simp add: Let_def)
      then have "s \<le> i \<and> i < n \<and> ?a + stored_tokens num (drop (Suc i) (take n es)) < keep \<and>
          keep \<le> ?a + stored_tokens num (drop i (take n es))"
        using "2.IH"(1) [OF n(1) Message refl False] False n by simp
      then show ?thesis using t Message n by auto
    qed
  next
    case Compaction then show ?thesis using 2 n t by auto
  next
    case BranchSummary then show ?thesis using 2 n t by auto
  next
    case Custom then show ?thesis using 2 n t by auto
  qed
qed simp

lemma budget_entry_None:
  "budget_entry num es 0 keep acc n = None \<Longrightarrow> n \<le> length es \<Longrightarrow> acc < keep \<Longrightarrow> acc + stored_tokens num (take n es) < keep"
proof (induction n arbitrary: acc)
  case (Suc n)
  then have n: "n < length es" by simp
  have t: "take (Suc n) es = take n es @ [es ! n]" using n by (simp add: take_Suc_conv_app_nth)
  show ?case
  proof (cases "body (es ! n)")
    case (Message m b)
    then show ?thesis using Suc.IH [of "acc + estimate_message num m"] Suc.prems n t by (auto simp: Let_def split: if_splits)
  qed (use Suc.IH [of acc] Suc.prems n t in auto)
qed simp

lemma budget_entry_whole:
  assumes "budget_entry num es 0 keep 0 (length es) = Some i" "0 < keep"
  shows "i < length es" "stored_tokens num (drop (Suc i) es) < keep" "keep \<le> stored_tokens num (drop i es)"
  using budget_entry_Some [OF assms(1)] assms(2) by auto

end
