(* ===== verification/SummaryRequest.thy ===== *)
theory SummaryRequest
  imports CompactionPlan
begin

text \<open>
  The requests of a summarization and what is made of their responses: \<open>compactWithRequest\<close> and its helpers of
  \<open>packages/agent/src/harness/compaction/compaction.ts\<close>, and the summary of an abandoned branch,
  \<open>branch-summarization.ts\<close>. The provider is a function of the number of a request and its parts; the calls that
  were made are returned with the result.
\<close>

section \<open>Requests\<close>

record summary_model =
  max_tokens :: nat
  reasons :: bool

record summary_call =
  call_prompt :: string
  call_max :: nat
  call_reasoning :: "string option"

datatype summary_failure = SummaryAborted string | SummaryFailed string

definition given :: "string option \<Rightarrow> string" where
  "given s = (case s of None \<Rightarrow> [] | Some t \<Rightarrow> t)"

definition capped :: "nat \<Rightarrow> summary_model \<Rightarrow> nat" where
  "capped n k = (if 0 < max_tokens k then min n (max_tokens k) else n)"

definition reasoning_option :: "summary_model \<Rightarrow> string option \<Rightarrow> string option" where
  "reasoning_option k level = (if reasons k \<and> given level \<noteq> [] \<and> given level \<noteq> ''off'' then level else None)"

definition conversation_section :: "'n summary_env \<Rightarrow> 'n context_message list \<Rightarrow> string" where
  "conversation_section v ms = ''<conversation>'' @ nl @ serialize_conversation (number_text v) (convert_to_llm v ms) @ nl @
     ''</conversation>'' @ nl @ nl"

definition previous_section :: "string option \<Rightarrow> string" where
  "previous_section prev = (if given prev = [] then []
     else ''<previous-summary>'' @ nl @ given prev @ nl @ ''</previous-summary>'' @ nl @ nl)"

definition focus_section :: "string option \<Rightarrow> string" where
  "focus_section custom = (if given custom = [] then [] else nl @ nl @ ''Additional focus: '' @ given custom)"

definition summary_call_of ::
    "'n summary_env \<Rightarrow> summary_model \<Rightarrow> nat \<Rightarrow> string option \<Rightarrow> string option \<Rightarrow> string option \<Rightarrow> 'n context_message list \<Rightarrow> summary_call" where
  "summary_call_of v k reserve custom prev level ms =
     \<lparr>call_prompt = conversation_section v ms @ previous_section prev @
        (if given prev = [] then initial_prompt v else update_prompt v) @ focus_section custom,
      call_max = capped (4 * reserve div 5) k, call_reasoning = reasoning_option k level\<rparr>"

definition prefix_call_of ::
    "'n summary_env \<Rightarrow> summary_model \<Rightarrow> nat \<Rightarrow> string option \<Rightarrow> 'n context_message list \<Rightarrow> summary_call" where
  "prefix_call_of v k reserve level ms =
     \<lparr>call_prompt = conversation_section v ms @ prefix_prompt v, call_max = capped (reserve div 2) k,
      call_reasoning = reasoning_option k level\<rparr>"

definition response_result :: "'n::linordered_semidom summary_env \<Rightarrow> string \<Rightarrow> agent_message \<Rightarrow> summary_failure + string \<times> 'n usage" where
  "response_result v what m = (let message = given (error_message_of m) in
     if stop m = Some SAborted then Inl (SummaryAborted (if message \<noteq> [] then message else what @ '' aborted''))
     else if stop m = Some SError then
       Inl (SummaryFailed (what @ '' failed: '' @ (if message \<noteq> [] then message else ''Unknown error'')))
     else Inr (content_text nl (message_field m ''content''), message_usage (env_config v) m))"

section \<open>Compaction\<close>

definition no_prior_history :: string where
  "no_prior_history = ''No prior history.''"

definition split_summary :: "string \<Rightarrow> string \<Rightarrow> string" where
  "split_summary earlier prefx = earlier @ nl @ nl @ ''---'' @ nl @ nl @ ''**Turn Context (split turn):**'' @ nl @ nl @ prefx"

definition compact_finish :: "'n summary_env \<Rightarrow> 'n compaction_preparation \<Rightarrow> string \<Rightarrow> 'n usage \<Rightarrow> 'n compact_result" where
  "compact_finish v p summary u = (case compute_file_lists (prep_ops p) of (rs, ms) \<Rightarrow>
     \<lparr>cr_summary = summary @ format_file_operations rs ms, cr_tail = map (as_message v) (retained_tail p),
      cr_tokens = tokens_before p,
      cr_details = Some (JObj [(''readFiles'', JArr (map JStr rs)), (''modifiedFiles'', JArr (map JStr ms))]),
      cr_usage = Some u\<rparr>)"

definition compact_with_request ::
    "'n::linordered_semidom summary_env \<Rightarrow> summary_model \<Rightarrow> string option \<Rightarrow> string option \<Rightarrow>
     (nat \<Rightarrow> summary_call \<Rightarrow> agent_message) \<Rightarrow> 'n compaction_preparation \<Rightarrow>
     summary_call list \<times> (summary_failure + 'n compact_result)" where
  "compact_with_request v k custom level request p =
    (let reserve = reserve_tokens (prep_settings p);
         history = summary_call_of v k reserve custom (previous_summary p) level (to_summarize p);
         prefx = prefix_call_of v k reserve level (turn_prefix p) in
     if prep_split p \<and> turn_prefix p \<noteq> [] then
       (if to_summarize p \<noteq> [] then
          (case response_result v ''Summarization'' (request 0 history) of
             Inl e \<Rightarrow> ([history], Inl e)
           | Inr (t, u) \<Rightarrow> ([history, prefx],
               rbind (response_result v ''Turn prefix summarization'' (request 1 prefx)) (\<lambda>(t', u').
                 Inr (compact_finish v p (split_summary t t') (add_usage u u')))))
        else ([prefx], rbind (response_result v ''Turn prefix summarization'' (request 0 prefx)) (\<lambda>(t', u').
                 Inr (compact_finish v p (split_summary no_prior_history t') u'))))
     else ([history], rbind (response_result v ''Summarization'' (request 0 history)) (\<lambda>(t, u).
                 Inr (compact_finish v p t u))))"

section \<open>Branches\<close>

definition branch_message :: "'n entry \<Rightarrow> 'n context_message option" where
  "branch_message e = (case body e of
     Message m _ \<Rightarrow> if role m = ''toolResult'' then None else Some (Plain m)
   | BranchSummary from summary _ _ _ \<Rightarrow> Some (BranchSummaryMessage summary from (timestamp e))
   | Compaction summary _ tokens _ _ _ \<Rightarrow> Some (context_message.CompactionSummary summary tokens (timestamp e))
   | Custom _ \<Rightarrow> None)"

definition branch_details :: "'n entry \<Rightarrow> file_ops \<Rightarrow> file_ops" where
  "branch_details e ops = (case body e of BranchSummary _ _ details _ _ \<Rightarrow> add_details details ops | _ \<Rightarrow> ops)"

record 'n branch_preparation =
  branch_messages :: "'n context_message list"
  branch_ops :: file_ops
  branch_tokens :: nat

text \<open>The loop over the entries from the last one back.\<close>

fun branch_loop :: "'n summary_env \<Rightarrow> int \<Rightarrow> 'n entry list \<Rightarrow> 'n branch_preparation \<Rightarrow> 'n branch_preparation" where
  "branch_loop v budget [] b = b"
| "branch_loop v budget (e # es) b = (case branch_message e of
     None \<Rightarrow> branch_loop v budget es b
   | Some m \<Rightarrow>
       (let b1 = b\<lparr>branch_ops := extract_file_ops (as_message v m) (branch_ops b)\<rparr>;
            tokens = estimate_tokens v m;
            b2 = b1\<lparr>branch_messages := m # branch_messages b, branch_tokens := branch_tokens b + tokens\<rparr> in
        if 0 < budget \<and> budget < int (branch_tokens b + tokens) then
          (if etype e \<in> {TCompaction, TBranchSummary} \<and> 10 * int (branch_tokens b) < 9 * budget then b2 else b1)
        else branch_loop v budget es b2))"

definition prepare_branch_entries :: "'n summary_env \<Rightarrow> int \<Rightarrow> 'n entry list \<Rightarrow> 'n branch_preparation" where
  "prepare_branch_entries v budget es = branch_loop v budget (rev es)
     \<lparr>branch_messages = [], branch_ops = fold branch_details es create_file_ops, branch_tokens = 0\<rparr>"

definition branch_call_of :: "'n summary_env \<Rightarrow> string option \<Rightarrow> bool \<Rightarrow> 'n context_message list \<Rightarrow> summary_call" where
  "branch_call_of v custom replaced ms =
     \<lparr>call_prompt = conversation_section v ms @
        (if replaced \<and> given custom \<noteq> [] then given custom else branch_prompt v @ focus_section custom),
      call_max = 2048, call_reasoning = None\<rparr>"

definition branch_summary_with_request ::
    "'n::linordered_semidom summary_env \<Rightarrow> string option \<Rightarrow> bool \<Rightarrow> (nat \<Rightarrow> summary_call \<Rightarrow> agent_message) \<Rightarrow>
     'n branch_preparation \<Rightarrow> summary_call list \<times> (summary_failure + 'n branch_result)" where
  "branch_summary_with_request v custom replaced request b =
    (if branch_messages b = [] then
       ([], Inr \<lparr>br_summary = ''No content to summarize'', br_read = [], br_modified = [], br_usage = None\<rparr>)
     else (let call = branch_call_of v custom replaced (branch_messages b) in
       ([call], rbind (response_result v ''Branch summary'' (request 0 call)) (\<lambda>(t, u).
          case compute_file_lists (branch_ops b) of (rs, ms) \<Rightarrow>
            (let summary = branch_preamble v @ t @ format_file_operations rs ms in
             Inr \<lparr>br_summary = (if summary \<noteq> [] then summary else ''No summary generated''), br_read = rs,
               br_modified = ms, br_usage = Some u\<rparr>)))))"

text \<open>\<open>generateBranchSummary\<close>: a window that is not above the reserve leaves no limit at all.\<close>

definition generate_branch_summary ::
    "'n::linordered_semidom summary_env \<Rightarrow> nat \<Rightarrow> int \<Rightarrow> string option \<Rightarrow> bool \<Rightarrow> (nat \<Rightarrow> summary_call \<Rightarrow> agent_message) \<Rightarrow>
     'n entry list \<Rightarrow> summary_call list \<times> (summary_failure + 'n branch_result)" where
  "generate_branch_summary v window reserve custom replaced request es =
     branch_summary_with_request v custom replaced request
       (prepare_branch_entries v (int (if window = 0 then 128000 else window) - reserve) es)"

section \<open>Durable preparations\<close>

definition ops_json :: "file_ops \<Rightarrow> json" where
  "ops_json ops = JObj [(''read'', JArr (map JStr (ops_read ops))), (''written'', JArr (map JStr (ops_written ops))),
     (''edited'', JArr (map JStr (ops_edited ops)))]"

definition ops_of_json :: "json \<Rightarrow> file_ops" where
  "ops_of_json j = \<lparr>ops_read = fold set_add (string_items (json_field j ''read'')) [],
     ops_written = fold set_add (string_items (json_field j ''written'')) [],
     ops_edited = fold set_add (string_items (json_field j ''edited'')) []\<rparr>"

lemma string_items_map [simp]: "string_items (Some (JArr (map JStr xs))) = xs"
  by (induction xs) (simp_all add: string_items_def List.map_filter_def)

lemma fold_set_add_distinct: "distinct (ys @ xs) \<Longrightarrow> fold set_add xs ys = ys @ xs"
  by (induction xs arbitrary: ys) (simp_all add: set_add_def)

text \<open>A preparation read back names the same files in the same order: the sets were free of duplicates.\<close>

lemma ops_json_roundtrip: "ops_distinct ops \<Longrightarrow> ops_of_json (ops_json ops) = ops"
  by (cases ops) (simp add: ops_of_json_def ops_json_def json_field_def fold_set_add_distinct ops_distinct_def)

end
