(* ===== verification/CompactionKeeps.thy ===== *)
theory CompactionKeeps
  imports SummaryRequest LaneRestart
begin

text \<open>
  What a compaction keeps: every message is summarized or retained, a retained tail does not start with a tool
  result, and it is as long as the budget allows; and the two situations in which the plan falls short of that.
\<close>

section \<open>Every message is summarized or kept\<close>

lemma last_compaction_split:
  assumes "\<forall>e \<in> set later. etype e \<noteq> TCompaction" and "etype c = TCompaction"
  shows "last_compaction (before @ c # later) = Some (c, later)"
proof -
  have "dropWhile (\<lambda>e. etype e \<noteq> TCompaction) (rev later @ c # rev before) = c # rev before"
    using assms by (subst dropWhile_append2) auto
  then show ?thesis by (simp add: last_compaction_def)
qed

lemma messages_of_virtual: "messages_of (map (virtual_entry c) (enumerate n tail)) = map Plain tail"
  by (induction tail arbitrary: n) (simp_all add: messages_of_Cons virtual_entry_def message_for_compaction_def)

lemma compactable_after:
  assumes "\<forall>e \<in> set later. etype e \<noteq> TCompaction" and "body c = Compaction s tail t d u b"
  shows "messages_of (compactable_entries (before @ c # later)) = map Plain tail @ messages_of later"
  using last_compaction_split [of later c before] assms by (simp add: compactable_entries_def messages_of_virtual)

text \<open>
  C14. A compaction loses no message. The messages that are summarized, the prefix of a split turn and the retained
  tail are, in this order, exactly the messages the path holds since the last compaction, the tail that one
  retained first. Once the entry of the compaction is appended with its tail, the next model call sees the summary
  and then the retained messages that may be sent, and the next compaction starts from the retained messages
  followed by what came later.
\<close>

theorem compaction_keeps_messages:
  fixes path :: "'n::linordered_semidom entry list"
  assumes "prepare_entries v path st = Some p"
    and "body e = Compaction s (map (as_message v) (retained_tail p)) t d u b"
    and "\<forall>x \<in> set later. etype x \<noteq> TCompaction"
  shows "to_summarize p @ turn_prefix p @ retained_tail p = messages_of (compactable_entries path) \<and>
    build_session_context (path @ [e]) projectors = context_message.CompactionSummary s t (timestamp e) #
      map Plain (filter is_context_message (map (as_message v) (retained_tail p))) \<and>
    messages_of (compactable_entries (path @ e # later)) =
      map (\<lambda>m. Plain (as_message v m)) (retained_tail p) @ messages_of later"
proof (intro conjI)
  show "to_summarize p @ turn_prefix p @ retained_tail p = messages_of (compactable_entries path)"
    by (rule prepare_partition [OF assms(1)])
  have "build_context_entries (path @ e # []) = [e]" using assms(2) by (intro build_context_split) auto
  then show "build_session_context (path @ [e]) projectors = context_message.CompactionSummary s t (timestamp e) #
      map Plain (filter is_context_message (map (as_message v) (retained_tail p)))"
    using assms(2) by (simp add: build_session_context_def session_entry_to_context_messages_def)
  show "messages_of (compactable_entries (path @ e # later)) =
      map (\<lambda>m. Plain (as_message v m)) (retained_tail p) @ messages_of later"
    using compactable_after [OF assms(3,2)] by (simp add: comp_def)
qed

section \<open>The tail\<close>

lemma entry_cut_shape:
  assumes "is_cut_point (es ! c)" "c < length es"
  obtains front m k rest where "messages_of (drop (first_kept (entry_cut num keep es)) es) = front @ m # messages_of (drop (Suc k) es)"
    "\<forall>x \<in> set front. \<exists>s f t. x = BranchSummaryMessage s f t" "message_for_compaction (es ! k) = Some m" "is_cut_point (es ! k)"
    "k = chosen_cut num es 0 (length es) keep (find_valid_cut_points es 0 (length es))"
    "first_kept (entry_cut num keep es) \<le> k" "k < length es"
proof (rule entry_cut_cases [of es num keep])
  assume "find_valid_cut_points es 0 (length es) = []"
  then show thesis using valid_cut_iff [of c es 0 "length es"] assms by simp
next
  fix k
  assume k: "k < length es" "is_cut_point (es ! k)" "first_kept (entry_cut num keep es) = pull_back es 0 k"
    "k = chosen_cut num es 0 (length es) keep (find_valid_cut_points es 0 (length es))"
  have "etype (es ! i) \<notin> {TCompaction, TMessage}" if "pull_back es 0 k \<le> i" "i < k" for i
    using pull_back_skips [OF that] .
  then obtain front m where "messages_of (drop (pull_back es 0 k) es) = front @ m # messages_of (drop (Suc k) es)"
    "\<forall>x \<in> set front. \<exists>s f t. x = BranchSummaryMessage s f t" "message_for_compaction (es ! k) = Some m"
    using messages_from_cut [OF pull_back_le k(1) _ k(2)] by blast
  then show thesis using that [of front m k] k pull_back_le [of es 0 k] by simp
qed

text \<open>
  C16. The retained tail does not start with a tool result, whose call would be missing from the next request. Only
  when no entry is a cut point does it, and then nothing is summarized and everything is retained.
\<close>

theorem tail_starts_no_result:
  fixes path :: "'n::linordered_semidom entry list"
  assumes "prepare_entries v path st = Some p"
  shows "(case retained_tail p of [] \<Rightarrow> messages_of (compactable_entries path) = []
      | m # _ \<Rightarrow> role (as_message v m) \<noteq> ''toolResult'') \<or>
    (\<forall>e \<in> set (compactable_entries path). \<not> is_cut_point e) \<and> to_summarize p = [] \<and> turn_prefix p = []"
proof (cases "\<exists>e \<in> set (compactable_entries path). is_cut_point e")
  case True
  then obtain c where c: "c < length (compactable_entries path)" "is_cut_point (compactable_entries path ! c)"
    by (auto simp: in_set_conv_nth)
  from entry_cut_shape [OF c(2,1), of "number_text v" "keep_recent_tokens st"]
  obtain front m k where t: "retained_tail p = front @ m # messages_of (drop (Suc k) (compactable_entries path))"
    "\<forall>x \<in> set front. \<exists>s f t. x = BranchSummaryMessage s f t" "message_for_compaction (compactable_entries path ! k) = Some m"
    "is_cut_point (compactable_entries path ! k)"
    using prepare_tail [OF assms] by metis
  then show ?thesis using cut_point_role [OF t(4,3), of v] by (cases front) auto
next
  case False
  then have "find_valid_cut_points (compactable_entries path) 0 (length (compactable_entries path)) = []"
    using valid_cut_iff [of _ "compactable_entries path" 0 "length (compactable_entries path)"]
    by (metis last_in_set nth_mem)
  then have "first_kept (entry_cut (number_text v) (keep_recent_tokens st) (compactable_entries path)) = 0"
    by (simp add: entry_cut_def find_cut_point_def)
  from entry_cut.empty_history [OF this] show ?thesis using prepare_entries_slices [OF assms] False by simp
qed

definition recent_tokens :: "'n summary_env \<Rightarrow> 'n context_message list \<Rightarrow> nat" where
  "recent_tokens v ms = sum_list (map (\<lambda>m. case m of Plain _ \<Rightarrow> estimate_tokens v m | _ \<Rightarrow> 0) ms)"

lemma recent_tokens_of: "recent_tokens v (messages_of es) = stored_tokens (number_text v) es"
proof (induction es)
  case (Cons e es)
  then show ?case
    by (cases "body e") (simp_all add: messages_of_Cons recent_tokens_def message_for_compaction_def estimate_tokens_def)
qed (simp add: recent_tokens_def)

lemma messages_of_drop_mono: "i \<le> j \<Longrightarrow> length (messages_of (drop j es)) \<le> length (messages_of (drop i es))"
proof -
  assume "i \<le> j"
  then have "drop i es = take (j - i) (drop i es) @ drop j es"
    using append_take_drop_id [of "j - i" "drop i es"] by simp
  then show ?thesis by (metis le_add2 length_append messages_of_append)
qed

lemma chosen_cut_after:
  assumes "budget_entry num es s keep 0 e = Some i" "find (\<lambda>c. i \<le> c) cuts = Some k"
  shows "chosen_cut num es s e keep cuts = k" "i \<le> k"
proof -
  show "chosen_cut num es s e keep cuts = k" using assms by (simp add: chosen_cut_def)
  show "i \<le> k" using assms(2) by (auto simp: find_Some_iff)
qed

lemma sorted_valid_cuts: "sorted (find_valid_cut_points es s e)"
  by (simp add: find_valid_cut_points_def sorted_filter [of id, simplified])

lemma hd_valid_cut: "c \<in> set (find_valid_cut_points es s e) \<Longrightarrow> hd (find_valid_cut_points es s e) \<le> c"
  using sorted_valid_cuts [of es s e] by (cases "find_valid_cut_points es s e") auto

text \<open>An entry before the chosen cut that could have been the cut lies before the entry that exhausts the budget.\<close>

lemma earlier_cut_overflows:
  assumes "0 < keep" "c < chosen_cut num es 0 (length es) keep (find_valid_cut_points es 0 (length es))"
    and "is_cut_point (es ! c)" "c < length es"
  shows "keep \<le> stored_tokens num (drop c es)"
proof -
  let ?cuts = "find_valid_cut_points es 0 (length es)"
  have c: "c \<in> set ?cuts" using assms(3,4) valid_cut_iff by blast
  then have "\<not> c < hd ?cuts" using hd_valid_cut by fastforce
  then obtain i k where i: "budget_entry num es 0 keep 0 (length es) = Some i" and k: "find (\<lambda>c. i \<le> c) ?cuts = Some k" "c < k"
    using assms(2) by (auto simp: chosen_cut_def split: option.splits)
  have "c < i"
  proof (rule ccontr)
    assume "\<not> c < i"
    then have ci: "i \<le> c" by simp
    obtain j n where j: "j < length ?cuts" "?cuts ! j = k" "\<forall>n < j. \<not> i \<le> ?cuts ! n" "n < length ?cuts" "?cuts ! n = c"
      using k(1) c by (auto simp: find_Some_iff in_set_conv_nth)
    have "j \<le> n" using j ci by (meson not_le)
    then have "k \<le> c" using j sorted_nth_mono [OF sorted_valid_cuts, of j n] by metis
    then show False using k(2) by simp
  qed
  then have "stored_tokens num (drop i es) \<le> stored_tokens num (drop c es)" by (intro stored_tokens_drop) simp
  then show ?thesis using budget_entry_whole(3) [OF i assms(1)] by simp
qed

lemma tail_fits:
  assumes "0 < keep" "c < length es" "is_cut_point (es ! c)" "stored_tokens num (drop (Suc c) es) < keep"
  shows "stored_tokens num (drop (Suc (chosen_cut num es 0 (length es) keep (find_valid_cut_points es 0 (length es)))) es) < keep"
proof (cases "budget_entry num es 0 keep 0 (length es)")
  case None
  then have "stored_tokens num es < keep" using budget_entry_None [OF None] assms(1) by simp
  then show ?thesis using stored_tokens_drop [of 0 "Suc _" num es] by (metis drop_0 le_less_trans zero_le)
next
  case (Some i)
  have "i \<le> c"
  proof (rule ccontr)
    assume "\<not> i \<le> c"
    then have "stored_tokens num (drop i es) \<le> stored_tokens num (drop (Suc c) es)" by (intro stored_tokens_drop) simp
    then show False using budget_entry_whole(3) [OF Some assms(1)] assms(4) by simp
  qed
  then obtain k where k: "find (\<lambda>c. i \<le> c) (find_valid_cut_points es 0 (length es)) = Some k"
    using assms(2,3) valid_cut_iff [of c es 0 "length es"] by (metis find_None_iff not_Some_eq zero_le)
  have "stored_tokens num (drop (Suc k) es) \<le> stored_tokens num (drop (Suc i) es)"
    using chosen_cut_after(2) [OF Some k] by (intro stored_tokens_drop) simp
  then show ?thesis using chosen_cut_after(1) [OF Some k] budget_entry_whole(2) [OF Some assms(1)] by simp
qed

text \<open>
  C15. With a positive budget, a tail that starts at an earlier cut point and holds more messages than the retained
  one would reach the budget; and if some cut point has less than the budget after its first message, then so has
  the chosen one: the messages after the first one that is kept (summaries of branches right before it aside) stay
  below the budget.
\<close>

theorem recent_tail_maximal:
  fixes path :: "'n::linordered_semidom entry list"
  assumes "prepare_entries v path st = Some p" and "0 < keep_recent_tokens st"
  shows "(\<forall>before e rest. compactable_entries path = before @ e # rest \<and> is_cut_point e \<and>
      stored_tokens (number_text v) rest < keep_recent_tokens st \<longrightarrow>
      (\<exists>front m later. retained_tail p = front @ m # later \<and> recent_tokens v later < keep_recent_tokens st \<and>
        (\<forall>x \<in> set front. \<exists>s f t. x = BranchSummaryMessage s f t))) \<and>
    (\<forall>before e rest. compactable_entries path = before @ e # rest \<and> is_cut_point e \<and>
      length (retained_tail p) < length (messages_of (e # rest)) \<longrightarrow>
      keep_recent_tokens st \<le> stored_tokens (number_text v) (e # rest))"
proof (intro conjI allI impI; elim conjE)
  let ?es = "compactable_entries path" and ?num = "number_text v" and ?keep = "keep_recent_tokens st"
  fix before e rest
  assume split: "?es = before @ e # rest" and cut: "is_cut_point e"
  then have c: "length before < length ?es" "is_cut_point (?es ! length before)" by simp_all
  from entry_cut_shape [OF c(2,1), of ?num ?keep]
  obtain front m k where t: "retained_tail p = front @ m # messages_of (drop (Suc k) ?es)"
    "\<forall>x \<in> set front. \<exists>s f t. x = BranchSummaryMessage s f t"
    "k = chosen_cut ?num ?es 0 (length ?es) ?keep (find_valid_cut_points ?es 0 (length ?es))"
    "first_kept (entry_cut ?num ?keep ?es) \<le> k"
    using prepare_tail [OF assms(1)] by metis
  {
    assume "stored_tokens ?num rest < ?keep"
    then have "stored_tokens ?num (drop (Suc (length before)) ?es) < ?keep" using split by simp
    from tail_fits [OF assms(2) c this] show "\<exists>front m later. retained_tail p = front @ m # later \<and>
        recent_tokens v later < ?keep \<and> (\<forall>x \<in> set front. \<exists>s f t. x = BranchSummaryMessage s f t)"
      using t recent_tokens_of [of v "drop (Suc k) ?es"] by metis
  next
    assume "length (retained_tail p) < length (messages_of (e # rest))"
    then have "length (messages_of (drop (first_kept (entry_cut ?num ?keep ?es)) ?es)) < length (messages_of (drop (length before) ?es))"
      using split prepare_tail [OF assms(1)] by simp
    then have "length before < first_kept (entry_cut ?num ?keep ?es)"
      using messages_of_drop_mono by (metis not_le)
    then have "length before < chosen_cut ?num ?es 0 (length ?es) ?keep (find_valid_cut_points ?es 0 (length ?es))"
      using t(3,4) by simp
    from earlier_cut_overflows [OF assms(2) this c(2,1)]
    show "?keep \<le> stored_tokens ?num (e # rest)" using split by simp
  }
qed

section \<open>Where the plan falls short\<close>

definition is_tool_result :: "'n entry \<Rightarrow> bool" where
  "is_tool_result e \<longleftrightarrow> (case body e of Message m _ \<Rightarrow> role m = ''toolResult'' | _ \<Rightarrow> False)"

lemma tool_result_no_cut: "is_tool_result e \<Longrightarrow> \<not> is_cut_point e"
  by (cases "body e") (auto simp: is_tool_result_def is_cut_point_def cut_roles_def)

lemma no_cut_in_budget:
  assumes "\<forall>e \<in> set outs. is_tool_result e" and "0 < keep" and "keep \<le> stored_tokens num outs"
  shows "chosen_cut num (before @ outs) 0 (length (before @ outs)) keep
      (find_valid_cut_points (before @ outs) 0 (length (before @ outs))) =
    hd (find_valid_cut_points (before @ outs) 0 (length (before @ outs)))"
proof (cases "budget_entry num (before @ outs) 0 keep 0 (length (before @ outs))")
  case (Some i)
  have "length before \<le> i"
  proof (rule ccontr)
    assume "\<not> length before \<le> i"
    then have "stored_tokens num (drop (length before) (before @ outs)) \<le> stored_tokens num (drop (Suc i) (before @ outs))"
      by (intro stored_tokens_drop) simp
    then show False using budget_entry_whole(2) [OF Some assms(2)] assms(3) by simp
  qed
  then have "\<not> is_cut_point ((before @ outs) ! c)" if "i \<le> c" "c < length (before @ outs)" for c
    using that assms(1) tool_result_no_cut by (fastforce simp: nth_append)
  then have "find (\<lambda>c. i \<le> c) (find_valid_cut_points (before @ outs) 0 (length (before @ outs))) = None"
    by (auto simp: find_None_iff valid_cut_iff)
  then show ?thesis using Some by (simp add: chosen_cut_def)
qed (simp add: chosen_cut_def)

text \<open>
  C20. When the tool results at the end of the path alone reach the budget, there is no cut point at or after the
  entry that exhausts it, and the cut falls back to the first cut point of all: nothing is summarized and the
  whole conversation is retained, although cutting before the call of those results would have freed the rest.
\<close>

theorem trailing_results_summarize_nothing:
  fixes path :: "'n::linordered_semidom entry list"
  assumes "prepare_entries v path st = Some p"
    and "compactable_entries path = first # before @ outs" and "is_cut_point first"
    and "\<forall>e \<in> set outs. is_tool_result e"
    and "0 < keep_recent_tokens st" and "keep_recent_tokens st \<le> stored_tokens (number_text v) outs"
  shows "to_summarize p = [] \<and> turn_prefix p = [] \<and> retained_tail p = messages_of (compactable_entries path)"
proof -
  let ?es = "(first # before) @ outs"
  have es: "compactable_entries path = ?es" using assms(2) by simp
  have "0 \<in> set (find_valid_cut_points ?es 0 (length ?es))" using assms(3) by (auto simp: valid_cut_iff)
  then have ne: "find_valid_cut_points ?es 0 (length ?es) \<noteq> []" and
    "hd (find_valid_cut_points ?es 0 (length ?es)) = 0" using hd_valid_cut [of 0 ?es 0 "length ?es"] by auto
  then have "chosen_cut (number_text v) ?es 0 (length ?es) (keep_recent_tokens st) (find_valid_cut_points ?es 0 (length ?es)) = 0"
    using no_cut_in_budget [OF assms(4,5,6), of "first # before"] by simp
  then have "first_kept (entry_cut (number_text v) (keep_recent_tokens st) ?es) = 0"
    using ne unfolding entry_cut_def find_cut_point_def Let_def by simp
  from entry_cut.empty_history [OF this] show ?thesis using prepare_entries_slices [OF assms(1)] es by simp
qed

lemma compact_calls: "fst (compact_with_request v k custom level request p) \<noteq> []"
  by (auto simp: compact_with_request_def Let_def split: sum.splits)

lemma previous_section_sublist:
  "given prev \<noteq> [] \<Longrightarrow> sublist (''<previous-summary>'' @ nl @ given prev @ nl @ ''</previous-summary>'')
    (call_prompt (summary_call_of v k reserve custom prev level ms))"
proof -
  assume "given prev \<noteq> []"
  then have "call_prompt (summary_call_of v k reserve custom prev level ms) = conversation_section v ms @
      (''<previous-summary>'' @ nl @ given prev @ nl @ ''</previous-summary>'') @ (nl @ nl @ update_prompt v @ focus_section custom)"
    by (simp add: summary_call_of_def previous_section_def)
  then show ?thesis by (auto simp: sublist_def)
qed

text \<open>
  C19. The previous summary is passed on to the model, unless the cut splits the turn the retained messages of the
  previous compaction begin with: then there is no history to summarize, the requests and the new summary are the
  same whatever the previous summary said, and what it said is in no later context.
\<close>

theorem previous_summary_passed_on:
  fixes p :: "'n::linordered_semidom compaction_preparation"
  shows "if prep_split p \<and> turn_prefix p \<noteq> [] \<and> to_summarize p = [] then
      (\<forall>s. compact_with_request v k custom level request (p\<lparr>previous_summary := s\<rparr>) =
        compact_with_request v k custom level request p) \<and>
      (case snd (compact_with_request v k custom level request p) of
         Inl _ \<Rightarrow> True | Inr r \<Rightarrow> prefix no_prior_history (cr_summary r))
    else given (previous_summary p) = [] \<or>
      (\<exists>call rest. fst (compact_with_request v k custom level request p) = call # rest \<and>
        sublist (''<previous-summary>'' @ nl @ given (previous_summary p) @ nl @ ''</previous-summary>'') (call_prompt call))"
  using previous_section_sublist [of "previous_summary p" v k "reserve_tokens (prep_settings p)" custom level "to_summarize p"]
  by (auto simp: compact_with_request_def Let_def compact_finish_def split_summary_def rbind_def split: sum.splits prod.splits)

section \<open>Branch summaries\<close>

definition is_summary :: "'n context_message \<Rightarrow> bool" where
  "is_summary m \<longleftrightarrow> (case m of Plain _ \<Rightarrow> False | _ \<Rightarrow> True)"

abbreviation total_estimate :: "'n summary_env \<Rightarrow> 'n context_message list \<Rightarrow> nat" where
  "total_estimate v ms \<equiv> sum_list (map (estimate_tokens v) ms)"

lemma branch_message_type:
  "branch_message e = Some m \<Longrightarrow> etype e \<in> {TCompaction, TBranchSummary} \<longleftrightarrow> is_summary m"
  by (cases "body e") (auto simp: branch_message_def is_summary_def split: if_splits)

definition branch_fits :: "'n summary_env \<Rightarrow> int \<Rightarrow> 'n context_message list \<Rightarrow> 'n context_message list \<Rightarrow> bool" where
  "branch_fits v budget dropped kept \<longleftrightarrow>
    (budget \<le> 0 \<and> dropped = []) \<or>
    (int (total_estimate v kept) \<le> budget \<and>
      (dropped = [] \<or> budget < int (estimate_tokens v (last dropped) + total_estimate v kept))) \<or>
    (\<exists>s rest. kept = s # rest \<and> is_summary s \<and> 10 * int (total_estimate v rest) < 9 * budget \<and>
      budget < int (total_estimate v kept))"

lemma branch_loop_messages:
  assumes "branch_tokens b = total_estimate v (branch_messages b)"
    and "budget \<le> 0 \<or> int (branch_tokens b) \<le> budget"
  shows "\<exists>dropped. dropped @ branch_messages (branch_loop v budget es b) =
      List.map_filter branch_message (rev es) @ branch_messages b \<and>
    branch_tokens (branch_loop v budget es b) = total_estimate v (branch_messages (branch_loop v budget es b)) \<and>
    branch_fits v budget dropped (branch_messages (branch_loop v budget es b))"
  using assms
proof (induction es arbitrary: b)
  case Nil
  then show ?case by (auto simp: branch_fits_def List.map_filter_def)
next
  case (Cons e es)
  show ?case
  proof (cases "branch_message e")
    case None
    then show ?thesis using Cons by (simp add: List.map_filter_def)
  next
    case (Some m)
    let ?n = "estimate_tokens v m"
    let ?b = "b\<lparr>branch_ops := extract_file_ops (as_message v m) (branch_ops b), branch_messages := m # branch_messages b,
      branch_tokens := branch_tokens b + ?n\<rparr>"
    have split: "List.map_filter branch_message (rev (e # es)) = List.map_filter branch_message (rev es) @ [m]"
      using Some by (simp add: List.map_filter_def)
    show ?thesis
    proof (cases "0 < budget \<and> budget < int (branch_tokens b + ?n)")
      case True
      then show ?thesis using Some split Cons.prems branch_message_type [OF Some]
        by (auto simp: Let_def branch_fits_def)
    next
      case False
      then have "branch_loop v budget (e # es) b = branch_loop v budget es ?b" using Some False by (auto simp: Let_def)
      then show ?thesis using Cons.IH [of ?b] Cons.prems False split by (auto simp: not_less)
    qed
  qed
qed

text \<open>
  A branch is summarized from its end. The selected messages are the last of the branch's messages, tool
  outs aside, in their order, and the reported total is theirs; without a limit they are all of them, and with
  one they fit it and one more would not, except that a summary may exceed it as the first message when the rest
  is below nine tenths of the limit.
\<close>

theorem branch_selection:
  fixes es :: "'n entry list"
  shows "\<exists>dropped. dropped @ branch_messages (prepare_branch_entries v budget es) = List.map_filter branch_message es \<and>
    branch_tokens (prepare_branch_entries v budget es) = total_estimate v (branch_messages (prepare_branch_entries v budget es)) \<and>
    branch_fits v budget dropped (branch_messages (prepare_branch_entries v budget es))"
  using branch_loop_messages [of "\<lparr>branch_messages = [], branch_ops = fold branch_details es create_file_ops, branch_tokens = 0\<rparr>" v budget "rev es"]
  by (force simp: prepare_branch_entries_def)

section \<open>Examples\<close>

definition demo_env :: "nat summary_env" where
  "demo_env = \<lparr>number_text = (\<lambda>q. show_nat (nat \<lfloor>q\<rfloor>)), number_value = of_nat, env_config = demo_runtime,
     initial_prompt = ''new'', update_prompt = ''update'', prefix_prompt = ''prefix'', branch_prompt = ''branch'',
     branch_preamble = ''from'', compaction_prefix = ''('', compaction_suffix = '')'', branch_prefix = ''('', branch_suffix = '')''\<rparr>"

definition demo_said :: "string \<Rightarrow> string \<Rightarrow> string \<Rightarrow> nat entry" where
  "demo_said i r t = \<lparr>eid = i, parent_id = None, custom_type = None,
     body = Message \<lparr>role = r, stop = None, content = JObj [(''content'', JArr [text_block t])]\<rparr> False, seq = 1, timestamp = 1\<rparr>"

definition demo_settings :: summary_settings where
  "demo_settings = \<lparr>compact_enabled = True, reserve_tokens = 10, keep_recent_tokens = 2\<rparr>"

definition demo_conversation :: "nat entry list" where
  "demo_conversation = [demo_said ''1'' ''user'' ''ask'', demo_said ''2'' ''assistant'' ''call'',
     demo_said ''3'' ''toolResult'' ''found'', demo_said ''4'' ''user'' ''again'', demo_said ''5'' ''assistant'' ''done'']"

definition plan_shape :: "nat entry list \<Rightarrow> (nat \<times> nat \<times> nat \<times> bool) option" where
  "plan_shape path = map_option (\<lambda>p. (length (to_summarize p), length (turn_prefix p), length (retained_tail p), prep_split p))
     (prepare_entries demo_env path demo_settings)"

lemma demo_conversation_shape: "plan_shape demo_conversation = Some (3, 0, 2, False)"
  by code_simp

lemma plan_shapeD:
  "plan_shape path = Some (a, b, c, d) \<Longrightarrow> \<exists>p. prepare_entries demo_env path demo_settings = Some p \<and>
    length (to_summarize p) = a \<and> length (turn_prefix p) = b \<and> length (retained_tail p) = c \<and> prep_split p = d"
  by (auto simp: plan_shape_def)

definition demo_compaction :: "agent_message list \<Rightarrow> nat entry" where
  "demo_compaction tail = \<lparr>eid = ''c'', parent_id = None, custom_type = None, body = Compaction ''old'' tail 9 None None False,
     seq = 2, timestamp = 2\<rparr>"

theorem compaction_keeps_messages_witness:
  "\<exists>p. prepare_entries demo_env demo_conversation demo_settings = Some p \<and> length (to_summarize p) = 3 \<and>
    length (retained_tail p) = 2 \<and> to_summarize p @ turn_prefix p @ retained_tail p = messages_of (compactable_entries demo_conversation) \<and>
    messages_of (compactable_entries (demo_conversation @ demo_compaction (map (as_message demo_env) (retained_tail p)) # [])) =
      map (\<lambda>m. Plain (as_message demo_env m)) (retained_tail p) @ messages_of []"
proof -
  obtain p where p: "prepare_entries demo_env demo_conversation demo_settings = Some p" "length (to_summarize p) = 3"
    "length (retained_tail p) = 2" using plan_shapeD [OF demo_conversation_shape] by blast
  have "body (demo_compaction (map (as_message demo_env) (retained_tail p))) =
      Compaction ''old'' (map (as_message demo_env) (retained_tail p)) 9 None None False"
    by (simp add: demo_compaction_def)
  from compaction_keeps_messages [OF p(1) this, of "[]"] show ?thesis using p by auto
qed

theorem tail_starts_no_result_witness:
  "\<exists>p. prepare_entries demo_env demo_conversation demo_settings = Some p \<and> length (retained_tail p) = 2 \<and>
    role (as_message demo_env (hd (retained_tail p))) \<noteq> ''toolResult''"
proof -
  obtain p where p: "prepare_entries demo_env demo_conversation demo_settings = Some p" "length (to_summarize p) = 3"
    "length (retained_tail p) = 2" using plan_shapeD [OF demo_conversation_shape] by blast
  then show ?thesis using tail_starts_no_result [OF p(1)] by (auto split: list.splits)
qed

theorem recent_tail_maximal_witness:
  "\<exists>p. prepare_entries demo_env demo_conversation demo_settings = Some p \<and> length (to_summarize p) = 3 \<and>
    (\<exists>front m later. retained_tail p = front @ m # later \<and> recent_tokens demo_env later < 2)"
proof -
  obtain p where p: "prepare_entries demo_env demo_conversation demo_settings = Some p" "length (to_summarize p) = 3"
    using plan_shapeD [OF demo_conversation_shape] by blast
  have keep: "0 < keep_recent_tokens demo_settings" "keep_recent_tokens demo_settings = 2" by (simp_all add: demo_settings_def)
  have "compactable_entries demo_conversation = butlast demo_conversation @ last demo_conversation # [] \<and>
      is_cut_point (last demo_conversation) \<and> stored_tokens (number_text demo_env) ([] :: nat entry list) < 2"
    by code_simp
  with recent_tail_maximal [OF p(1) keep(1)] keep(2) show ?thesis using p by metis
qed

definition demo_results :: "nat entry list" where
  "demo_results = [demo_said ''1'' ''user'' ''ask'', demo_said ''2'' ''assistant'' ''first'', demo_said ''3'' ''user'' ''more'',
     demo_said ''4'' ''assistant'' ''call'', demo_said ''5'' ''toolResult'' ''a long result'']"

theorem trailing_results_summarize_nothing_witness:
  "\<exists>p. prepare_entries demo_env demo_results demo_settings = Some p \<and> to_summarize p = [] \<and> turn_prefix p = [] \<and>
    retained_tail p = messages_of (compactable_entries demo_results)"
proof -
  have "plan_shape demo_results = Some (0, 0, 5, False)" by code_simp
  then obtain p where p: "prepare_entries demo_env demo_results demo_settings = Some p" using plan_shapeD by blast
  have "compactable_entries demo_results = hd demo_results # butlast (tl demo_results) @ [last demo_results] \<and>
      is_cut_point (hd demo_results) \<and> (\<forall>e \<in> set [last demo_results]. is_tool_result e) \<and>
      0 < keep_recent_tokens demo_settings \<and>
      keep_recent_tokens demo_settings \<le> stored_tokens (number_text demo_env) [last demo_results]"
    by code_simp
  then show ?thesis using trailing_results_summarize_nothing [OF p] p by blast
qed

text \<open>A second compaction in the middle of the turn that the first one retained.\<close>

definition demo_second :: "nat entry list" where
  "demo_second = [demo_compaction [\<lparr>role = ''user'', stop = None, content = JObj [(''content'', JArr [text_block ''ask''])]\<rparr>],
     demo_said ''2'' ''assistant'' ''one'', demo_said ''3'' ''assistant'' ''a second one'']"

definition demo_model :: summary_model where
  "demo_model = \<lparr>max_tokens = 0, reasons = False\<rparr>"

definition demo_reply :: "nat \<Rightarrow> summary_call \<Rightarrow> agent_message" where
  "demo_reply i call = \<lparr>role = ''assistant'', stop = Some SStop, content = JObj [(''content'', JArr [text_block ''short''])]\<rparr>"

theorem previous_summary_passed_on_witness:
  "\<exists>p. prepare_entries demo_env demo_second demo_settings = Some p \<and> previous_summary p = Some ''old'' \<and>
    (\<forall>s. compact_with_request demo_env demo_model None None demo_reply (p\<lparr>previous_summary := s\<rparr>) =
      compact_with_request demo_env demo_model None None demo_reply p)"
proof -
  have "plan_shape demo_second = Some (0, 2, 1, True)" by code_simp
  then obtain p where p: "prepare_entries demo_env demo_second demo_settings = Some p" "length (to_summarize p) = 0"
    "length (turn_prefix p) = 2" "prep_split p" using plan_shapeD by blast
  have "previous_summary_of demo_second = Some ''old''" by code_simp
  then have "previous_summary p = Some ''old''" using p(1) by (auto simp: prepare_entries_def Let_def split: if_splits prod.splits)
  moreover have "prep_split p \<and> turn_prefix p \<noteq> [] \<and> to_summarize p = []" using p by auto
  ultimately show ?thesis using previous_summary_passed_on [of p demo_env demo_model None None demo_reply] p(1) by auto
qed

text \<open>
  An entry without a message before the cut moves the cut, and the turn of the entry before it then counts as
  split although the retained messages start a turn of their own.
\<close>

lemma pulled_cut_splits_turn:
  "plan_shape [demo_said ''1'' ''user'' ''ask'', demo_said ''2'' ''assistant'' ''call'',
     \<lparr>eid = ''3'', parent_id = None, custom_type = Some ''note'', body = Custom None, seq = 3, timestamp = 3\<rparr>,
     demo_said ''4'' ''user'' ''again'', demo_said ''5'' ''assistant'' ''done''] = Some (0, 2, 2, True)"
  by code_simp

end
