(* ===== verification/AssistantFrames.thy ===== *)
theory AssistantFrames
  imports JsonText
begin

text \<open>
  Replayable progress of an assistant message, \<open>packages/ai/src/utils/assistant-message-frame.ts\<close>. The encoder
  turns the events of a stream into frames that are stored as they come; the reducer replays a stored sequence.
  An event carries the message as it is when the event is read: the producer keeps writing to it, so it may be
  ahead of the event. \<open>parseStreamingJson\<close> rests on a third-party parser and is an argument, as is the decimal
  text of a number. Indices are integers, texts are lists of code units.
\<close>

section \<open>Messages, events and frames\<close>

record call_block =
  call_id :: string
  call_name :: string
  arguments :: json
  thought :: "string option"
  call_namespace :: "string option"

datatype block =
    TextBlock string "string option"
  | ThinkingBlock string "string option" "bool option"
  | CallBlock call_block

record partial_message =
  header :: "(string \<times> json) list"
  blocks :: "block list"
  pending_stop :: bool

type_synonym live = "block list"

datatype event =
    EStart partial_message
  | EDone
  | EError
  | ETextStart int live
  | ETextDelta int string
  | ETextEnd int string live
  | EThinkingStart int live
  | EThinkingDelta int string
  | EThinkingEnd int string live
  | ECallStart int live
  | ECallDelta int string
  | ECallEnd int call_block live

datatype frame =
    FStart partial_message
  | FTextStart int block
  | FTextDelta int string
  | FTextEnd int string "string option"
  | FThinkingStart int block
  | FThinkingDelta int string
  | FThinkingEnd int string "string option" "bool option"
  | FCallStart int block
  | FCallCheckpoint int string
  | FCallDelta int string
  | FCallEnd int call_block

datatype block_kind = KText | KThinking | KCall

fun kind_of :: "block \<Rightarrow> block_kind" where
  "kind_of (TextBlock _ _) = KText"
| "kind_of (ThinkingBlock _ _ _) = KThinking"
| "kind_of (CallBlock _) = KCall"

datatype frame_fault =
    AfterTerminal
  | SecondStart
  | DoneBeforeStart
  | BeforeStart
  | BadIndex int
  | NoBlock int
  | WrongKind int
  | StartedTwice int
  | NotStarted int
  | WouldGap int
  | BlockExists int
  | AlreadyEnded int

definition index_ok :: "int \<Rightarrow> bool" where
  "index_ok i \<longleftrightarrow> 0 \<le> i \<and> i \<le> 9007199254740991"

definition start_fields :: "string list" where
  "start_fields = [''role'', ''api'', ''provider'', ''model'', ''responseModel'', ''responseId'',
     ''providerThinkingLevel'', ''diagnostics'', ''usage'', ''timestamp'']"

definition clone_start_message :: "partial_message \<Rightarrow> partial_message" where
  "clone_start_message m = \<lparr>header = filter (\<lambda>kv. fst kv \<in> set start_fields) (header m), blocks = [], pending_stop = True\<rparr>"

definition event_block :: "int \<Rightarrow> live \<Rightarrow> block_kind \<Rightarrow> frame_fault + block" where
  "event_block i l k = (if \<not> index_ok i then Inl (BadIndex i)
     else if int (length l) \<le> i then Inl (NoBlock i)
     else if kind_of (l ! nat i) \<noteq> k then Inl (WrongKind i)
     else Inr (l ! nat i))"

section \<open>The encoder\<close>

datatype encoder_block =
    EncText block_kind nat nat
  | EncCall bool string string

fun encoder_kind :: "encoder_block \<Rightarrow> block_kind" where
  "encoder_kind (EncText k _ _) = k"
| "encoder_kind (EncCall _ _ _) = KCall"

record encoder =
  enc_started :: bool
  enc_terminal :: bool
  enc_blocks :: "int \<Rightarrow> encoder_block option"

definition new_encoder :: encoder where
  "new_encoder = \<lparr>enc_started = False, enc_terminal = False, enc_blocks = (\<lambda>_. None)\<rparr>"

record frame_env =
  parse_streaming :: "string \<Rightarrow> json"
  frame_number :: "rat \<Rightarrow> string"

definition serialized_arguments :: "frame_env \<Rightarrow> json \<Rightarrow> string" where
  "serialized_arguments v a = json_text (frame_number v) a"

text \<open>\<open>isJsonPrefix\<close>: strings may grow, arrays and objects may gain items.\<close>

fun is_json_prefix :: "json \<Rightarrow> json \<Rightarrow> bool"
  and is_items_prefix :: "json list \<Rightarrow> json list \<Rightarrow> bool"
  and is_keys_prefix :: "(string \<times> json) list \<Rightarrow> (string \<times> json) list \<Rightarrow> bool" where
  "is_json_prefix (JStr s) c = (case c of JStr t \<Rightarrow> prefix s t | _ \<Rightarrow> False)"
| "is_json_prefix (JArr xs) c = (case c of JArr ys \<Rightarrow> length xs \<le> length ys \<and> is_items_prefix xs ys | _ \<Rightarrow> False)"
| "is_json_prefix (JObj kvs) c = (case c of JObj kws \<Rightarrow> is_keys_prefix kvs kws | _ \<Rightarrow> False)"
| "is_json_prefix JNull c = (c = JNull)"
| "is_json_prefix (JBool b) c = (c = JBool b)"
| "is_json_prefix (JNum n) c = (c = JNum n)"
| "is_items_prefix [] ys = True"
| "is_items_prefix (x # xs) ys = (case ys of [] \<Rightarrow> False | y # ys' \<Rightarrow> is_json_prefix x y \<and> is_items_prefix xs ys')"
| "is_keys_prefix [] kws = True"
| "is_keys_prefix ((k, x) # kvs) kws = (case map_of kws k of None \<Rightarrow> False | Some y \<Rightarrow> is_json_prefix x y \<and> is_keys_prefix kvs kws)"

definition start_block :: "encoder \<Rightarrow> int \<Rightarrow> encoder_block \<Rightarrow> frame_fault + encoder" where
  "start_block e i b = (if \<not> index_ok i then Inl (BadIndex i)
     else if enc_blocks e i \<noteq> None then Inl (StartedTwice i)
     else Inr (e\<lparr>enc_blocks := (enc_blocks e)(i \<mapsto> b)\<rparr>))"

definition encoder_block_at :: "encoder \<Rightarrow> int \<Rightarrow> block_kind \<Rightarrow> frame_fault + encoder_block" where
  "encoder_block_at e i k = (if \<not> index_ok i then Inl (BadIndex i)
     else (case enc_blocks e i of
         None \<Rightarrow> Inl (NotStarted i)
       | Some b \<Rightarrow> if encoder_kind b \<noteq> k then Inl (WrongKind i) else Inr b))"

definition end_block :: "encoder \<Rightarrow> int \<Rightarrow> block_kind \<Rightarrow> frame_fault + encoder" where
  "end_block e i k = rbind (encoder_block_at e i k) (\<lambda>_. Inr (e\<lparr>enc_blocks := (enc_blocks e)(i := None)\<rparr>))"

definition delta_frame :: "block_kind \<Rightarrow> int \<Rightarrow> string \<Rightarrow> frame" where
  "delta_frame k i d = (if k = KText then FTextDelta i d else FThinkingDelta i d)"

definition encode_text_delta :: "encoder \<Rightarrow> int \<Rightarrow> string \<Rightarrow> block_kind \<Rightarrow> frame_fault + encoder \<times> frame option" where
  "encode_text_delta e i d k = rbind (encoder_block_at e i k) (\<lambda>b. (case b of
     EncCall _ _ _ \<Rightarrow> Inl (WrongKind i)
   | EncText _ covered received \<Rightarrow>
       (let e' = e\<lparr>enc_blocks := (enc_blocks e)(i \<mapsto> EncText k covered (received + length d))\<rparr>;
            skip = covered - received in
        Inr (e', if length d \<le> skip then None else Some (delta_frame k i (drop skip d))))))"

definition encode_call_delta :: "frame_env \<Rightarrow> encoder \<Rightarrow> int \<Rightarrow> string \<Rightarrow> frame_fault + encoder \<times> frame option" where
  "encode_call_delta v e i d = rbind (encoder_block_at e i KCall) (\<lambda>b. (case b of
     EncText _ _ _ \<Rightarrow> Inl (WrongKind i)
   | EncCall caught json snapshot \<Rightarrow>
       if caught then Inr (e, if d = [] then None else Some (FCallDelta i d))
       else (let json' = json @ d; args = parse_streaming v json' in
         if serialized_arguments v args \<noteq> snapshot \<and> \<not> is_json_prefix (parse_streaming v snapshot) args
         then Inr (e\<lparr>enc_blocks := (enc_blocks e)(i \<mapsto> EncCall False json' snapshot)\<rparr>, None)
         else Inr (e\<lparr>enc_blocks := (enc_blocks e)(i \<mapsto> EncCall True [] [])\<rparr>,
           if json' = [] then None else Some (FCallCheckpoint i json')))))"

text \<open>The snapshot of a started call: none is needed when its arguments are what an empty input parses to.\<close>

definition call_start_state :: "frame_env \<Rightarrow> call_block \<Rightarrow> encoder_block" where
  "call_start_state v c = (let snapshot = serialized_arguments v (arguments c) in
     if snapshot = serialized_arguments v (parse_streaming v []) then EncCall True [] [] else EncCall False [] snapshot)"

definition encode_block_event :: "frame_env \<Rightarrow> encoder \<Rightarrow> event \<Rightarrow> frame_fault + encoder \<times> frame option" where
  "encode_block_event v e ev = (case ev of
     ETextStart i l \<Rightarrow> rbind (event_block i l KText) (\<lambda>b. (case b of
         TextBlock t _ \<Rightarrow> rbind (start_block e i (EncText KText (length t) 0)) (\<lambda>e'. Inr (e', Some (FTextStart i b)))
       | _ \<Rightarrow> Inl (WrongKind i)))
   | ETextDelta i d \<Rightarrow> encode_text_delta e i d KText
   | ETextEnd i t l \<Rightarrow> rbind (event_block i l KText) (\<lambda>b. (case b of
         TextBlock _ sig \<Rightarrow> rbind (end_block e i KText) (\<lambda>e'. Inr (e', Some (FTextEnd i t sig)))
       | _ \<Rightarrow> Inl (WrongKind i)))
   | EThinkingStart i l \<Rightarrow> rbind (event_block i l KThinking) (\<lambda>b. (case b of
         ThinkingBlock t _ _ \<Rightarrow> rbind (start_block e i (EncText KThinking (length t) 0)) (\<lambda>e'. Inr (e', Some (FThinkingStart i b)))
       | _ \<Rightarrow> Inl (WrongKind i)))
   | EThinkingDelta i d \<Rightarrow> encode_text_delta e i d KThinking
   | EThinkingEnd i t l \<Rightarrow> rbind (event_block i l KThinking) (\<lambda>b. (case b of
         ThinkingBlock _ sig red \<Rightarrow> rbind (end_block e i KThinking) (\<lambda>e'. Inr (e', Some (FThinkingEnd i t sig red)))
       | _ \<Rightarrow> Inl (WrongKind i)))
   | ECallStart i l \<Rightarrow> rbind (event_block i l KCall) (\<lambda>b. (case b of
         CallBlock c \<Rightarrow> rbind (start_block e i (call_start_state v c)) (\<lambda>e'. Inr (e', Some (FCallStart i b)))
       | _ \<Rightarrow> Inl (WrongKind i)))
   | ECallDelta i d \<Rightarrow> encode_call_delta v e i d
   | ECallEnd i c l \<Rightarrow> rbind (event_block i l KCall) (\<lambda>b. (case b of
         CallBlock _ \<Rightarrow> rbind (end_block e i KCall) (\<lambda>e'. Inr (e', Some (FCallEnd i c)))
       | _ \<Rightarrow> Inl (WrongKind i)))
   | _ \<Rightarrow> Inl BeforeStart)"

definition encode :: "frame_env \<Rightarrow> encoder \<Rightarrow> event \<Rightarrow> frame_fault + encoder \<times> frame option" where
  "encode v e ev = (if enc_terminal e then Inl AfterTerminal
     else (case ev of
         EStart m \<Rightarrow> if enc_started e then Inl SecondStart
           else Inr (e\<lparr>enc_started := True\<rparr>, Some (FStart (clone_start_message m)))
       | EDone \<Rightarrow> if \<not> enc_started e then Inl DoneBeforeStart else Inr (e\<lparr>enc_terminal := True\<rparr>, None)
       | EError \<Rightarrow> Inr (e\<lparr>enc_terminal := True\<rparr>, None)
       | _ \<Rightarrow> if \<not> enc_started e then Inl BeforeStart else encode_block_event v e ev))"

fun encode_all :: "frame_env \<Rightarrow> encoder \<Rightarrow> event list \<Rightarrow> frame_fault + encoder \<times> frame list" where
  "encode_all v e [] = Inr (e, [])"
| "encode_all v e (ev # evs) = rbind (encode v e ev) (\<lambda>(e', f). rbind (encode_all v e' evs) (\<lambda>(e'', fs).
     Inr (e'', (case f of None \<Rightarrow> fs | Some x \<Rightarrow> x # fs))))"

section \<open>The reducer\<close>

record reducer_block =
  red_ended :: bool
  red_json :: string

record reducer =
  red_message :: partial_message
  red_states :: "int \<Rightarrow> reducer_block option"

definition append_block :: "reducer \<Rightarrow> int \<Rightarrow> block \<Rightarrow> frame_fault + reducer" where
  "append_block r i b = (if \<not> index_ok i then Inl (BadIndex i)
     else if i \<noteq> int (length (blocks (red_message r))) then
       Inl (if i < int (length (blocks (red_message r))) then BlockExists i else WouldGap i)
     else Inr \<lparr>red_message = (red_message r)\<lparr>blocks := blocks (red_message r) @ [b]\<rparr>,
       red_states = (red_states r)(i \<mapsto> \<lparr>red_ended = False, red_json = []\<rparr>)\<rparr>)"

definition active_block :: "reducer \<Rightarrow> int \<Rightarrow> block_kind \<Rightarrow> frame_fault + block \<times> reducer_block" where
  "active_block r i k = (if \<not> index_ok i then Inl (BadIndex i)
     else (case red_states r i of
         None \<Rightarrow> Inl (NotStarted i)
       | Some s \<Rightarrow> if int (length (blocks (red_message r))) \<le> i then Inl (NotStarted i)
           else if kind_of (blocks (red_message r) ! nat i) \<noteq> k then Inl (WrongKind i)
           else if red_ended s then Inl (AlreadyEnded i)
           else Inr (blocks (red_message r) ! nat i, s)))"

definition put_block :: "reducer \<Rightarrow> int \<Rightarrow> block \<Rightarrow> reducer_block \<Rightarrow> reducer" where
  "put_block r i b s = \<lparr>red_message = (red_message r)\<lparr>blocks := (blocks (red_message r))[nat i := b]\<rparr>,
     red_states = (red_states r)(i \<mapsto> s)\<rparr>"

definition with_arguments :: "json \<Rightarrow> block \<Rightarrow> block" where
  "with_arguments a b = (case b of CallBlock c \<Rightarrow> CallBlock (c\<lparr>arguments := a\<rparr>) | _ \<Rightarrow> b)"

definition append_text :: "string \<Rightarrow> block \<Rightarrow> block" where
  "append_text d b = (case b of TextBlock t sig \<Rightarrow> TextBlock (t @ d) sig
     | ThinkingBlock t sig red \<Rightarrow> ThinkingBlock (t @ d) sig red | CallBlock c \<Rightarrow> CallBlock c)"

definition reduce_frame :: "frame_env \<Rightarrow> reducer \<Rightarrow> frame \<Rightarrow> frame_fault + reducer" where
  "reduce_frame v r f = (case f of
     FStart _ \<Rightarrow> Inl SecondStart
   | FTextStart i b \<Rightarrow> if kind_of b \<noteq> KText then Inl (WrongKind i) else append_block r i b
   | FTextDelta i d \<Rightarrow> rbind (active_block r i KText) (\<lambda>(b, s). Inr (put_block r i (append_text d b) s))
   | FTextEnd i t sig \<Rightarrow> rbind (active_block r i KText) (\<lambda>(b, s).
       Inr (put_block r i (TextBlock t sig) (s\<lparr>red_ended := True\<rparr>)))
   | FThinkingStart i b \<Rightarrow> if kind_of b \<noteq> KThinking then Inl (WrongKind i) else append_block r i b
   | FThinkingDelta i d \<Rightarrow> rbind (active_block r i KThinking) (\<lambda>(b, s). Inr (put_block r i (append_text d b) s))
   | FThinkingEnd i t sig red \<Rightarrow> rbind (active_block r i KThinking) (\<lambda>(b, s).
       Inr (put_block r i (ThinkingBlock t sig red) (s\<lparr>red_ended := True\<rparr>)))
   | FCallStart i b \<Rightarrow> if kind_of b \<noteq> KCall then Inl (WrongKind i) else append_block r i b
   | FCallCheckpoint i json \<Rightarrow> rbind (active_block r i KCall) (\<lambda>(b, s).
       Inr (put_block r i (with_arguments (parse_streaming v json) b) (s\<lparr>red_json := json\<rparr>)))
   | FCallDelta i d \<Rightarrow> rbind (active_block r i KCall) (\<lambda>(b, s). Inr (put_block r i b (s\<lparr>red_json := red_json s @ d\<rparr>)))
   | FCallEnd i c \<Rightarrow> rbind (active_block r i KCall) (\<lambda>(b, s).
       Inr (put_block r i (CallBlock c) (s\<lparr>red_ended := True\<rparr>))))"

text \<open>Frames before the start frame are an error only when a start frame follows.\<close>

fun reduce_loop :: "frame_env \<Rightarrow> bool \<Rightarrow> reducer option \<Rightarrow> frame list \<Rightarrow> frame_fault + reducer option" where
  "reduce_loop v early r [] = Inr r"
| "reduce_loop v early None (f # fs) = (case f of
     FStart m \<Rightarrow> if early then Inl BeforeStart else reduce_loop v early (Some \<lparr>red_message = m, red_states = (\<lambda>_. None)\<rparr>) fs
   | _ \<Rightarrow> reduce_loop v True None fs)"
| "reduce_loop v early (Some r) (f # fs) = rbind (reduce_frame v r f) (\<lambda>r'. reduce_loop v early (Some r') fs)"

definition settled_block :: "frame_env \<Rightarrow> (int \<Rightarrow> reducer_block option) \<Rightarrow> nat \<times> block \<Rightarrow> block" where
  "settled_block v states nb = (case nb of (n, b) \<Rightarrow> (case states (int n) of
       None \<Rightarrow> b
     | Some s \<Rightarrow> if kind_of b \<noteq> KCall \<or> red_ended s \<or> red_json s = [] then b
         else with_arguments (parse_streaming v (red_json s)) b))"

definition reduce_assistant_message_frames :: "frame_env \<Rightarrow> frame list \<Rightarrow> frame_fault + partial_message option" where
  "reduce_assistant_message_frames v fs = rbind (reduce_loop v False None fs) (\<lambda>r. Inr (case r of
     None \<Rightarrow> None
   | Some x \<Rightarrow> Some ((red_message x)\<lparr>blocks := map (settled_block v (red_states x)) (enumerate 0 (blocks (red_message x)))\<rparr>)))"

section \<open>What a replay shows\<close>

text \<open>
  A block as the events read so far determine it: the live block when its start was read, the deltas read since, for
  a call whether the deltas have caught up with the arguments of the live block, and the final block.
\<close>

record seen =
  snap :: block
  got :: string
  caught :: bool
  fin :: "block option"

definition longer :: "string \<Rightarrow> string \<Rightarrow> string" where
  "longer s t = (if length t \<le> length s then s else t)"

definition shown :: "frame_env \<Rightarrow> seen \<Rightarrow> block" where
  "shown v s = (case fin s of Some b \<Rightarrow> b | None \<Rightarrow> (case snap s of
     TextBlock t sig \<Rightarrow> TextBlock (longer t (got s)) sig
   | ThinkingBlock t sig red \<Rightarrow> ThinkingBlock (longer t (got s)) sig red
   | CallBlock c \<Rightarrow> if caught s \<and> got s \<noteq> [] then CallBlock (c\<lparr>arguments := parse_streaming v (got s)\<rparr>) else CallBlock c))"

definition block_text :: "block \<Rightarrow> string" where
  "block_text b = (case b of TextBlock t _ \<Rightarrow> t | ThinkingBlock t _ _ \<Rightarrow> t | CallBlock _ \<Rightarrow> [])"

definition caught_up :: "frame_env \<Rightarrow> json \<Rightarrow> string \<Rightarrow> bool" where
  "caught_up v a json \<longleftrightarrow> serialized_arguments v (parse_streaming v json) = serialized_arguments v a \<or>
     is_json_prefix (parse_streaming v (serialized_arguments v a)) (parse_streaming v json)"

definition starts_caught :: "frame_env \<Rightarrow> block \<Rightarrow> bool" where
  "starts_caught v b = (case b of
     CallBlock c \<Rightarrow> serialized_arguments v (arguments c) = serialized_arguments v (parse_streaming v []) | _ \<Rightarrow> False)"

definition live_kind :: "live \<Rightarrow> int \<Rightarrow> block_kind \<Rightarrow> bool" where
  "live_kind l i k \<longleftrightarrow> index_ok i \<and> i < int (length l) \<and> kind_of (l ! nat i) = k"

definition see_start :: "frame_env \<Rightarrow> seen list \<Rightarrow> int \<Rightarrow> live \<Rightarrow> block_kind \<Rightarrow> seen list option" where
  "see_start v vs i l k = (if i = int (length vs) \<and> live_kind l i k
     then Some (vs @ [\<lparr>snap = l ! nat i, got = [], caught = starts_caught v (l ! nat i), fin = None\<rparr>]) else None)"

definition open_at :: "seen list \<Rightarrow> int \<Rightarrow> block_kind \<Rightarrow> bool" where
  "open_at vs i k \<longleftrightarrow> 0 \<le> i \<and> i < int (length vs) \<and> fin (vs ! nat i) = None \<and> kind_of (snap (vs ! nat i)) = k"

definition see_text :: "seen list \<Rightarrow> int \<Rightarrow> string \<Rightarrow> block_kind \<Rightarrow> seen list option" where
  "see_text vs i d k = (if open_at vs i k then (let s = vs ! nat i; t = got s @ d in
     if prefix t (block_text (snap s)) \<or> prefix (block_text (snap s)) t then Some (vs[nat i := s\<lparr>got := t\<rparr>]) else None)
     else None)"

definition see_call :: "frame_env \<Rightarrow> seen list \<Rightarrow> int \<Rightarrow> string \<Rightarrow> seen list option" where
  "see_call v vs i d = (if open_at vs i KCall then (let s = vs ! nat i; t = got s @ d in
     Some (vs[nat i := s\<lparr>got := t, caught := (caught s \<or> (case snap s of CallBlock c \<Rightarrow> caught_up v (arguments c) t | _ \<Rightarrow> False))\<rparr>]))
     else None)"

definition see_end :: "seen list \<Rightarrow> int \<Rightarrow> live \<Rightarrow> block_kind \<Rightarrow> block \<Rightarrow> seen list option" where
  "see_end vs i l k b = (if open_at vs i k \<and> live_kind l i k then Some (vs[nat i := (vs ! nat i)\<lparr>fin := Some b\<rparr>]) else None)"

definition text_end_block :: "string \<Rightarrow> block \<Rightarrow> block" where
  "text_end_block t b = (case b of TextBlock _ sig \<Rightarrow> TextBlock t sig | ThinkingBlock _ sig red \<Rightarrow> ThinkingBlock t sig red | x \<Rightarrow> x)"

text \<open>
  The streams a producer makes: blocks start in order, and the deltas of a text either are still contained in what
  the live block held when its start was read or extend it.
\<close>

definition see :: "frame_env \<Rightarrow> seen list \<Rightarrow> event \<Rightarrow> seen list option" where
  "see v vs ev = (case ev of
     ETextStart i l \<Rightarrow> see_start v vs i l KText
   | ETextDelta i d \<Rightarrow> see_text vs i d KText
   | ETextEnd i t l \<Rightarrow> see_end vs i l KText (text_end_block t (l ! nat i))
   | EThinkingStart i l \<Rightarrow> see_start v vs i l KThinking
   | EThinkingDelta i d \<Rightarrow> see_text vs i d KThinking
   | EThinkingEnd i t l \<Rightarrow> see_end vs i l KThinking (text_end_block t (l ! nat i))
   | ECallStart i l \<Rightarrow> see_start v vs i l KCall
   | ECallDelta i d \<Rightarrow> see_call v vs i d
   | ECallEnd i c l \<Rightarrow> see_end vs i l KCall (CallBlock c)
   | _ \<Rightarrow> None)"

fun see_all :: "frame_env \<Rightarrow> seen list \<Rightarrow> event list \<Rightarrow> seen list option" where
  "see_all v vs [] = Some vs"
| "see_all v vs (ev # evs) = (case see v vs ev of None \<Rightarrow> None | Some vs' \<Rightarrow> see_all v vs' evs)"

section \<open>The simulation\<close>

definition enc_view :: "frame_env \<Rightarrow> seen \<Rightarrow> encoder_block" where
  "enc_view v s = (case snap s of
     TextBlock t _ \<Rightarrow> EncText KText (length t) (length (got s))
   | ThinkingBlock t _ _ \<Rightarrow> EncText KThinking (length t) (length (got s))
   | CallBlock c \<Rightarrow> if caught s then EncCall True [] [] else EncCall False (got s) (serialized_arguments v (arguments c)))"

definition block_rel :: "frame_env \<Rightarrow> seen \<Rightarrow> block \<Rightarrow> reducer_block \<Rightarrow> bool" where
  "block_rel v s b rs \<longleftrightarrow> red_ended rs = (fin s \<noteq> None) \<and> (case fin s of
     Some f \<Rightarrow> b = f
   | None \<Rightarrow> (case snap s of
       CallBlock c \<Rightarrow> red_json rs = (if caught s then got s else []) \<and>
         (if red_json rs = [] then b = CallBlock c else \<exists>a. b = CallBlock (c\<lparr>arguments := a\<rparr>))
     | _ \<Rightarrow> b = shown v s))"

definition follows :: "frame_env \<Rightarrow> encoder \<Rightarrow> reducer \<Rightarrow> seen list \<Rightarrow> bool" where
  "follows v e r vs \<longleftrightarrow> enc_started e \<and> \<not> enc_terminal e \<and> length (blocks (red_message r)) = length vs \<and>
     int (length vs) \<le> 9007199254740992 \<and>
     (\<forall>i. enc_blocks e i = (if 0 \<le> i \<and> i < int (length vs) \<and> fin (vs ! nat i) = None then Some (enc_view v (vs ! nat i)) else None)) \<and>
     (\<forall>n < length vs. \<exists>rs. red_states r (int n) = Some rs \<and> block_rel v (vs ! n) (blocks (red_message r) ! n) rs)"

lemma followsD:
  assumes "follows v e r vs" "n < length vs"
  obtains rs where "red_states r (int n) = Some rs" "block_rel v (vs ! n) (blocks (red_message r) ! n) rs"
    "enc_blocks e (int n) = (if fin (vs ! n) = None then Some (enc_view v (vs ! n)) else None)" "index_ok (int n)"
    "length (blocks (red_message r)) = length vs"
  using assms by (auto simp: follows_def index_ok_def)

lemma follows_update:
  assumes "follows v e r vs" "n < length vs" "block_rel v s b rs"
  shows "follows v (e\<lparr>enc_blocks := (enc_blocks e)(int n := (if fin s = None then Some (enc_view v s) else None))\<rparr>)
    (put_block r (int n) b rs) (vs[n := s])"
  using assms by (auto simp: follows_def put_block_def nth_list_update split: if_splits)

lemma put_same: "red_states r (int n) = Some rs \<Longrightarrow> put_block r (int n) (blocks (red_message r) ! n) rs = r"
  by (cases r) (auto simp: put_block_def fun_upd_idem)

lemma follows_start:
  assumes "follows v e r vs" "i = int (length vs)" "index_ok i" "s = \<lparr>snap = b, got = [], caught = starts_caught v b, fin = None\<rparr>"
  shows "start_block e i (enc_view v s) = Inr (e\<lparr>enc_blocks := (enc_blocks e)(i \<mapsto> enc_view v s)\<rparr>)"
    and "\<exists>r'. append_block r i b = Inr r' \<and> follows v (e\<lparr>enc_blocks := (enc_blocks e)(i \<mapsto> enc_view v s)\<rparr>) r' (vs @ [s])"
proof -
  show "start_block e i (enc_view v s) = Inr (e\<lparr>enc_blocks := (enc_blocks e)(i \<mapsto> enc_view v s)\<rparr>)"
    using assms by (auto simp: start_block_def follows_def)
  have "block_rel v s b \<lparr>red_ended = False, red_json = []\<rparr>"
    using assms(4) by (cases b) (auto simp: block_rel_def shown_def longer_def)
  then show "\<exists>r'. append_block r i b = Inr r' \<and> follows v (e\<lparr>enc_blocks := (enc_blocks e)(i \<mapsto> enc_view v s)\<rparr>) r' (vs @ [s])"
    using assms by (auto simp: append_block_def follows_def nth_append index_ok_def less_Suc_eq split: if_splits)
qed

lemma live_kind_block: "live_kind l i k \<Longrightarrow> event_block i l k = Inr (l ! nat i)"
  by (auto simp: live_kind_def event_block_def)

lemma open_atD: "open_at vs i k \<Longrightarrow> \<exists>n. i = int n \<and> n < length vs \<and> fin (vs ! n) = None \<and> kind_of (snap (vs ! n)) = k"
  by (auto simp: open_at_def intro!: exI [of _ "nat i"])

lemma active_of:
  assumes "follows v e r vs" "n < length vs" "fin (vs ! n) = None" "kind_of (snap (vs ! n)) = k"
  obtains rs where "active_block r (int n) k = Inr (blocks (red_message r) ! n, rs)" "red_states r (int n) = Some rs"
    "block_rel v (vs ! n) (blocks (red_message r) ! n) rs" "enc_blocks e (int n) = Some (enc_view v (vs ! n))"
    "encoder_block_at e (int n) k = Inr (enc_view v (vs ! n))"
proof -
  obtain rs where rs: "red_states r (int n) = Some rs" "block_rel v (vs ! n) (blocks (red_message r) ! n) rs"
    "enc_blocks e (int n) = Some (enc_view v (vs ! n))" "index_ok (int n)" "length (blocks (red_message r)) = length vs"
    using followsD [OF assms(1,2)] assms(3) by metis
  have "encoder_kind (enc_view v (vs ! n)) = k" using assms(4) by (cases "snap (vs ! n)") (auto simp: enc_view_def)
  moreover have "kind_of (blocks (red_message r) ! n) = k" "\<not> red_ended rs"
    using rs(2) assms(3,4) by (cases "snap (vs ! n)"; auto simp: block_rel_def shown_def split: if_splits)+
  ultimately show thesis using that rs assms(2) by (simp add: active_block_def encoder_block_at_def)
qed

lemma longer_extend:
  assumes "prefix (got' @ d) t \<or> prefix t (got' @ d)"
  shows "longer t (got' @ d) = (if length d \<le> length t - length got' then longer t got' else longer t got' @ drop (length t - length got') d)"
proof (cases "length d \<le> length t - length got'")
  case True
  then have "d = [] \<or> length got' + length d \<le> length t" by (cases d) auto
  then show ?thesis using True by (auto simp: longer_def)
next
  case False
  show ?thesis
  proof (cases "length got' \<le> length t")
    case True
    then have "prefix t (got' @ d)" using assms False by (auto dest: prefix_length_le)
    then have "t = take (length t) (got' @ d)" by (metis append_eq_conv_conj prefix_def)
    then have "t = got' @ take (length t - length got') d" using True by simp
    then have "t @ drop (length t - length got') d = got' @ d" by (metis append_assoc append_take_drop_id)
    moreover have "\<not> length got' + length d \<le> length t" using True False by linarith
    ultimately show ?thesis using False by (simp add: longer_def)
  qed (use False in \<open>auto simp: longer_def\<close>)
qed

text \<open>One event: the encoder and the reducer move together.\<close>

definition moves :: "frame_env \<Rightarrow> encoder \<Rightarrow> reducer \<Rightarrow> frame_fault + encoder \<times> frame option \<Rightarrow> seen list \<Rightarrow> bool" where
  "moves v e r res vs \<longleftrightarrow> (\<exists>e' f r'. res = Inr (e', f) \<and>
     (case f of None \<Rightarrow> r' = r | Some x \<Rightarrow> reduce_frame v r x = Inr r') \<and> follows v e' r' vs)"

lemma movesI: "res = Inr (e', f) \<Longrightarrow> (case f of None \<Rightarrow> r' = r | Some x \<Rightarrow> reduce_frame v r x = Inr r') \<Longrightarrow>
    follows v e' r' vs \<Longrightarrow> moves v e r res vs"
  by (auto simp: moves_def)

lemma moves_text_delta:
  assumes f: "follows v e r vs" and s: "see_text vs i d k = Some vs'" and k: "k = KText \<or> k = KThinking"
  shows "moves v e r (encode_text_delta e i d k) vs'"
proof -
  obtain n where n: "i = int n" "n < length vs" "fin (vs ! n) = None" "kind_of (snap (vs ! n)) = k"
    using s open_atD by (auto simp: see_text_def split: if_splits)
  define x where "x = vs ! n"
  define x' where "x' = x\<lparr>got := got x @ d\<rparr>"
  have vs': "vs' = vs[n := x']" and pre: "prefix (got x @ d) (block_text (snap x)) \<or> prefix (block_text (snap x)) (got x @ d)"
    using s n by (auto simp: see_text_def Let_def x_def x'_def split: if_splits)
  obtain rs where rs: "active_block r (int n) k = Inr (blocks (red_message r) ! n, rs)" "red_states r (int n) = Some rs"
    "block_rel v x (blocks (red_message r) ! n) rs" "encoder_block_at e (int n) k = Inr (enc_view v x)"
    using active_of [OF f n(2,3,4)] x_def by metis
  let ?t = "length (block_text (snap x))" and ?b = "blocks (red_message r) ! n"
  have kx: "kind_of (snap x) = k" "fin x = None" using n x_def by auto
  have ev: "enc_view v x = EncText k ?t (length (got x))" and ev': "enc_view v x' = EncText k ?t (length (got x) + length d)"
    using kx k by (cases "snap x"; auto simp: enc_view_def x'_def block_text_def)+
  have b: "?b = shown v x" "\<not> red_ended rs" using rs(3) kx k by (cases "snap x"; auto simp: block_rel_def)+
  define b' where "b' = (if length d \<le> ?t - length (got x) then ?b else append_text (drop (?t - length (got x)) d) ?b)"
  have "b' = shown v x'"
    using longer_extend [OF pre] kx k b(1) by (cases "snap x") (auto simp: b'_def shown_def x'_def block_text_def append_text_def)
  then have "block_rel v x' b' rs" using kx k b(2) by (cases "snap x") (auto simp: block_rel_def x'_def)
  from follows_update [OF f n(2) this]
  have fo: "follows v (e\<lparr>enc_blocks := (enc_blocks e)(int n \<mapsto> enc_view v x')\<rparr>) (put_block r (int n) b' rs) vs'"
    using kx vs' by (simp add: x'_def)
  let ?f = "if length d \<le> ?t - length (got x) then None else Some (delta_frame k i (drop (?t - length (got x)) d))"
  show ?thesis
  proof (rule movesI)
    show "encode_text_delta e i d k = Inr (e\<lparr>enc_blocks := (enc_blocks e)(int n \<mapsto> enc_view v x')\<rparr>, ?f)"
      using rs(4) ev ev' n(1) by (simp add: encode_text_delta_def Let_def)
    show "case ?f of None \<Rightarrow> put_block r (int n) b' rs = r | Some x \<Rightarrow> reduce_frame v r x = Inr (put_block r (int n) b' rs)"
      using rs(1) put_same [OF rs(2)] k n(1) by (auto simp: b'_def reduce_frame_def delta_frame_def)
  qed (rule fo)
qed

lemma moves_call_delta:
  assumes f: "follows v e r vs" and s: "see_call v vs i d = Some vs'"
  shows "moves v e r (encode_call_delta v e i d) vs'"
proof -
  obtain n where n: "i = int n" "n < length vs" "fin (vs ! n) = None" "kind_of (snap (vs ! n)) = KCall"
    using s open_atD by (auto simp: see_call_def split: if_splits)
  define x where "x = vs ! n"
  obtain c where c: "snap x = CallBlock c" using n(4) x_def by (cases "snap x") auto
  define x' where "x' = x\<lparr>got := got x @ d, caught := (caught x \<or> caught_up v (arguments c) (got x @ d))\<rparr>"
  have vs': "vs' = vs[n := x']" using s n c by (auto simp: see_call_def Let_def x_def x'_def split: if_splits)
  obtain rs where rs: "active_block r (int n) KCall = Inr (blocks (red_message r) ! n, rs)" "red_states r (int n) = Some rs"
    "block_rel v x (blocks (red_message r) ! n) rs" "enc_blocks e (int n) = Some (enc_view v x)"
    "encoder_block_at e (int n) KCall = Inr (enc_view v x)"
    using active_of [OF f n(2,3,4)] x_def by metis
  let ?b = "blocks (red_message r) ! n"
  have fx: "fin x = None" "fin x' = None" using n by (simp_all add: x_def x'_def)
  have b: "\<not> red_ended rs" "red_json rs = (if caught x then got x else [])"
    "if red_json rs = [] then ?b = CallBlock c else (\<exists>a. ?b = CallBlock (c\<lparr>arguments := a\<rparr>))"
    using rs(3) fx c by (auto simp: block_rel_def)
  have fo: "follows v (e\<lparr>enc_blocks := (enc_blocks e)(int n \<mapsto> enc_view v x')\<rparr>) (put_block r (int n) b' rs') vs'"
    if "block_rel v x' b' rs'" for b' rs'
    using follows_update [OF f n(2) that] fx vs' by simp
  show ?thesis
  proof (cases "caught x")
    case True
    have e: "enc_view v x' = EncCall True [] []" "enc_view v x = EncCall True [] []" using True c by (simp_all add: enc_view_def x'_def)
    let ?rs = "rs\<lparr>red_json := red_json rs @ d\<rparr>" and ?f = "if d = [] then None else Some (FCallDelta i d)"
    have "\<exists>a. ?b = CallBlock (c\<lparr>arguments := a\<rparr>)" using b(3) by (cases "red_json rs = []") (auto intro!: exI [of _ "arguments c"])
    then have "block_rel v x' ?b ?rs" using b True c fx by (auto simp: block_rel_def x'_def)
    from fo [OF this] have "follows v e (put_block r (int n) ?b ?rs) vs'" using e rs(4) by (simp add: fun_upd_idem)
    moreover have "encode_call_delta v e i d = Inr (e, ?f)" using rs(5) e n(1) by (simp add: encode_call_delta_def)
    moreover have "case ?f of None \<Rightarrow> put_block r (int n) ?b ?rs = r | Some x \<Rightarrow> reduce_frame v r x = Inr (put_block r (int n) ?b ?rs)"
      using rs(1) put_same [OF rs(2)] n(1) by (auto simp: reduce_frame_def)
    ultimately show ?thesis by (intro movesI)
  next
    case False
    have e: "enc_view v x = EncCall False (got x) (serialized_arguments v (arguments c))" using False c by (simp add: enc_view_def)
    have j: "red_json rs = []" "?b = CallBlock c" using b False by auto
    show ?thesis
    proof (cases "caught_up v (arguments c) (got x @ d)")
      case False
      then have "block_rel v x' ?b rs" using b j \<open>\<not> caught x\<close> c fx by (simp add: block_rel_def x'_def)
      from fo [OF this] have "follows v (e\<lparr>enc_blocks := (enc_blocks e)(int n \<mapsto> enc_view v x')\<rparr>) r vs'"
        using put_same [OF rs(2)] by simp
      moreover have "encode_call_delta v e i d = Inr (e\<lparr>enc_blocks := (enc_blocks e)(int n \<mapsto> enc_view v x')\<rparr>, None)"
        using rs(5) e n(1) False \<open>\<not> caught x\<close> c
        by (simp add: encode_call_delta_def Let_def caught_up_def enc_view_def x'_def)
      ultimately show ?thesis by (intro movesI) auto
    next
      case True
      let ?b' = "if got x @ d = [] then ?b else with_arguments (parse_streaming v (got x @ d)) ?b"
      let ?rs = "if got x @ d = [] then rs else rs\<lparr>red_json := got x @ d\<rparr>"
      let ?f = "if got x @ d = [] then None else Some (FCallCheckpoint i (got x @ d))"
      have "block_rel v x' ?b' ?rs" using b j True c fx by (auto simp: block_rel_def x'_def with_arguments_def)
      from fo [OF this] have "follows v (e\<lparr>enc_blocks := (enc_blocks e)(int n \<mapsto> enc_view v x')\<rparr>) (put_block r (int n) ?b' ?rs) vs'" .
      moreover have "encode_call_delta v e i d = Inr (e\<lparr>enc_blocks := (enc_blocks e)(int n \<mapsto> enc_view v x')\<rparr>, ?f)"
        using rs(5) e n(1) True c
        by (cases "got x @ d = []") (auto simp: encode_call_delta_def Let_def caught_up_def enc_view_def x'_def)
      moreover have "case ?f of None \<Rightarrow> put_block r (int n) ?b' ?rs = r | Some x \<Rightarrow> reduce_frame v r x = Inr (put_block r (int n) ?b' ?rs)"
        using rs(1) put_same [OF rs(2)] n(1) by (auto simp: reduce_frame_def)
      ultimately show ?thesis by (intro movesI)
    qed
  qed
qed

lemma moves_start:
  assumes f: "follows v e r vs" and s: "see_start v vs i l k = Some vs'"
    and enc: "res = rbind (event_block i l k) (\<lambda>b. rbind (start_block e i (enc_view v \<lparr>snap = b, got = [], caught = starts_caught v b, fin = None\<rparr>))
        (\<lambda>e'. Inr (e', Some (fr b))))"
    and red: "\<And>b. kind_of b = k \<Longrightarrow> reduce_frame v r (fr b) = append_block r i b"
  shows "moves v e r res vs'"
proof -
  have l: "live_kind l i k" "i = int (length vs)" "index_ok i" using s by (auto simp: see_start_def live_kind_def split: if_splits)
  let ?b = "l ! nat i" and ?s = "\<lparr>snap = l ! nat i, got = [], caught = starts_caught v (l ! nat i), fin = None\<rparr>"
  have vs': "vs' = vs @ [?s]" using s by (auto simp: see_start_def split: if_splits)
  obtain r' where r': "append_block r i ?b = Inr r'" "follows v (e\<lparr>enc_blocks := (enc_blocks e)(i \<mapsto> enc_view v ?s)\<rparr>) r' (vs @ [?s])"
    using follows_start(2) [OF f l(2,3) refl] by blast
  have "res = Inr (e\<lparr>enc_blocks := (enc_blocks e)(i \<mapsto> enc_view v ?s)\<rparr>, Some (fr ?b))"
    using enc live_kind_block [OF l(1)] follows_start(1) [OF f l(2,3) refl] by simp
  then show ?thesis by (rule movesI) (use r' vs' red l(1) in \<open>auto simp: live_kind_def\<close>)
qed

lemma moves_end:
  assumes f: "follows v e r vs" and s: "see_end vs i l k b = Some vs'"
    and enc: "res = rbind (event_block i l k) (\<lambda>x. rbind (end_block e i k) (\<lambda>e'. Inr (e', Some (fr x))))"
    and red: "reduce_frame v r (fr (l ! nat i)) = rbind (active_block r i k) (\<lambda>(_, s). Inr (put_block r i b (s\<lparr>red_ended := True\<rparr>)))"
  shows "moves v e r res vs'"
proof -
  obtain n where n: "i = int n" "n < length vs" "fin (vs ! n) = None" "kind_of (snap (vs ! n)) = k" and l: "live_kind l i k"
    using s open_atD by (auto simp: see_end_def split: if_splits)
  let ?s = "(vs ! n)\<lparr>fin := Some b\<rparr>"
  have vs': "vs' = vs[n := ?s]" using s n by (auto simp: see_end_def split: if_splits)
  obtain rs where rs: "active_block r (int n) k = Inr (blocks (red_message r) ! n, rs)"
    "encoder_block_at e (int n) k = Inr (enc_view v (vs ! n))"
    using active_of [OF f n(2,3,4)] by metis
  have "block_rel v ?s b (rs\<lparr>red_ended := True\<rparr>)" by (simp add: block_rel_def)
  from follows_update [OF f n(2) this]
  have "follows v (e\<lparr>enc_blocks := (enc_blocks e)(i := None)\<rparr>) (put_block r i b (rs\<lparr>red_ended := True\<rparr>)) vs'"
    using vs' n(1) by simp
  moreover have "res = Inr (e\<lparr>enc_blocks := (enc_blocks e)(i := None)\<rparr>, Some (fr (l ! nat i)))"
    using enc live_kind_block [OF l] rs(2) n(1) by (simp add: end_block_def)
  ultimately show ?thesis using red rs(1) n(1) by (intro movesI) auto
qed

lemma start_result:
  assumes "see_start v vs i l k = Some vs'"
  shows "kind_of (l ! nat i) = k"
  using assms by (auto simp: see_start_def live_kind_def split: if_splits)

lemma end_result:
  assumes "see_end vs i l k b = Some vs'"
  shows "kind_of (l ! nat i) = k"
  using assms by (auto simp: see_end_def live_kind_def split: if_splits)

lemma kind_cases:
  "kind_of b = KText \<longleftrightarrow> (\<exists>t sig. b = TextBlock t sig)"
  "kind_of b = KThinking \<longleftrightarrow> (\<exists>t sig red. b = ThinkingBlock t sig red)"
  "kind_of b = KCall \<longleftrightarrow> (\<exists>c. b = CallBlock c)"
  by (cases b; simp)+

lemma encode_moves:
  assumes f: "follows v e r vs" and s: "see v vs ev = Some vs'"
  shows "moves v e r (encode v e ev) vs'"
proof -
  have st: "enc_started e" "\<not> enc_terminal e" using f by (auto simp: follows_def)
  note ev_simps = see_def encode_def encode_block_event_def st reduce_frame_def
  note eb = live_kind_block
  show ?thesis
  proof (cases ev)
    case (ETextStart i l)
    then have s': "see_start v vs i l KText = Some vs'" using s by (simp add: see_def)
    show ?thesis
      by (rule moves_start [OF f s', of _ "FTextStart i"])
        (auto simp: ETextStart ev_simps enc_view_def event_block_def rbind_def kind_cases split: block.splits sum.splits)
  next
    case (EThinkingStart i l)
    then have s': "see_start v vs i l KThinking = Some vs'" using s by (simp add: see_def)
    show ?thesis
      by (rule moves_start [OF f s', of _ "FThinkingStart i"])
        (auto simp: EThinkingStart ev_simps enc_view_def event_block_def rbind_def kind_cases split: block.splits sum.splits)
  next
    case (ECallStart i l)
    then have s': "see_start v vs i l KCall = Some vs'" using s by (simp add: see_def)
    show ?thesis
      by (rule moves_start [OF f s', of _ "FCallStart i"])
        (auto simp: ECallStart ev_simps enc_view_def event_block_def rbind_def kind_cases starts_caught_def call_start_state_def
          Let_def split: block.splits sum.splits)
  next
    case (ETextDelta i d)
    then show ?thesis using s moves_text_delta [OF f] by (simp add: ev_simps)
  next
    case (EThinkingDelta i d)
    then show ?thesis using s moves_text_delta [OF f] by (simp add: ev_simps)
  next
    case (ECallDelta i d)
    then show ?thesis using s moves_call_delta [OF f] by (simp add: ev_simps)
  next
    case (ETextEnd i t l)
    then have s': "see_end vs i l KText (text_end_block t (l ! nat i)) = Some vs'" using s by (simp add: see_def)
    then obtain u sig where b: "l ! nat i = TextBlock u sig" using end_result kind_cases(1) by blast
    show ?thesis
      by (rule moves_end [OF f s', of _ "\<lambda>x. case x of TextBlock _ sig \<Rightarrow> FTextEnd i t sig | _ \<Rightarrow> FTextDelta i []"])
        (auto simp: ETextEnd ev_simps event_block_def rbind_def kind_cases b text_end_block_def split: block.splits)
  next
    case (EThinkingEnd i t l)
    then have s': "see_end vs i l KThinking (text_end_block t (l ! nat i)) = Some vs'" using s by (simp add: see_def)
    then obtain u sig red where b: "l ! nat i = ThinkingBlock u sig red" using end_result kind_cases(2) by blast
    show ?thesis
      by (rule moves_end [OF f s', of _ "\<lambda>x. case x of ThinkingBlock _ sig red \<Rightarrow> FThinkingEnd i t sig red | _ \<Rightarrow> FTextDelta i []"])
        (auto simp: EThinkingEnd ev_simps event_block_def rbind_def kind_cases b text_end_block_def split: block.splits)
  next
    case (ECallEnd i c l)
    then have s': "see_end vs i l KCall (CallBlock c) = Some vs'" using s by (simp add: see_def)
    show ?thesis
      by (rule moves_end [OF f s', of _ "\<lambda>_. FCallEnd i c"])
        (auto simp: ECallEnd ev_simps event_block_def rbind_def kind_cases split: block.splits)
  qed (use s in \<open>auto simp: see_def\<close>)
qed

lemma encode_all_follows:
  assumes "follows v e r vs" "see_all v vs evs = Some vs'"
  shows "\<exists>e' fs r'. encode_all v e evs = Inr (e', fs) \<and> reduce_loop v early (Some r) fs = Inr (Some r') \<and> follows v e' r' vs'"
  using assms
proof (induction evs arbitrary: e r vs)
  case (Cons ev evs)
  then obtain vs1 where s: "see v vs ev = Some vs1" "see_all v vs1 evs = Some vs'" by (auto split: option.splits)
  from encode_moves [OF Cons.prems(1) s(1)] obtain e1 f r1 where m: "encode v e ev = Inr (e1, f)"
    "case f of None \<Rightarrow> r1 = r | Some x \<Rightarrow> reduce_frame v r x = Inr r1" "follows v e1 r1 vs1" by (auto simp: moves_def)
  from Cons.IH [OF m(3) s(2)] obtain e' fs r' where "encode_all v e1 evs = Inr (e', fs)"
    "reduce_loop v early (Some r1) fs = Inr (Some r')" "follows v e' r' vs'" by blast
  then show ?case using m by (cases f) auto
qed auto

lemma settled_shown:
  assumes "follows v e r vs"
  shows "map (settled_block v (red_states r)) (enumerate 0 (blocks (red_message r))) = map (shown v) vs"
proof (rule nth_equalityI)
  show len: "length (map (settled_block v (red_states r)) (enumerate 0 (blocks (red_message r)))) = length (map (shown v) vs)"
    using assms by (simp add: follows_def)
  fix n assume "n < length (map (settled_block v (red_states r)) (enumerate 0 (blocks (red_message r))))"
  then have n: "n < length vs" "n < length (blocks (red_message r))" using len by simp_all
  obtain rs where rs: "red_states r (int n) = Some rs" "block_rel v (vs ! n) (blocks (red_message r) ! n) rs"
    using followsD [OF assms n(1)] by metis
  have "settled_block v (red_states r) (n, blocks (red_message r) ! n) = shown v (vs ! n)"
    using rs by (cases "fin (vs ! n)"; cases "snap (vs ! n)")
      (auto simp: settled_block_def block_rel_def shown_def with_arguments_def split: if_splits)
  then show "map (settled_block v (red_states r)) (enumerate 0 (blocks (red_message r))) ! n = map (shown v) vs ! n"
    using n by (simp add: nth_enumerate_eq)
qed

lemma replay_shows:
  assumes "see_all v [] evs = Some vs"
  shows "\<exists>e fs. encode_all v new_encoder (EStart m # evs) = Inr (e, fs) \<and>
    reduce_assistant_message_frames v fs = Inr (Some ((clone_start_message m)\<lparr>blocks := map (shown v) vs\<rparr>))"
proof -
  let ?e = "new_encoder\<lparr>enc_started := True\<rparr>" and ?r = "\<lparr>red_message = clone_start_message m, red_states = (\<lambda>_. None)\<rparr>"
  have "follows v ?e ?r []" by (simp add: follows_def new_encoder_def clone_start_message_def)
  from encode_all_follows [OF this assms, of False] obtain e fs r where r: "encode_all v ?e evs = Inr (e, fs)"
    "reduce_loop v False (Some ?r) fs = Inr (Some r)" "follows v e r vs" by blast
  have h: "header (red_message r') = header m' \<and> pending_stop (red_message r') = pending_stop m'"
    if "reduce_loop v False (Some r0) fs = Inr (Some r')" "red_message r0 = m'" for r0 r' m' fs
    using that
  proof (induction fs arbitrary: r0 m')
    case (Cons f fs)
    then obtain r1 where r1: "reduce_frame v r0 f = Inr r1" "reduce_loop v False (Some r1) fs = Inr (Some r')"
      by (auto simp: rbind_eq_Inr)
    have "header (red_message r1) = header m' \<and> pending_stop (red_message r1) = pending_stop m'"
      using r1(1) Cons.prems(2) by (auto simp: reduce_frame_def append_block_def put_block_def rbind_eq_Inr split: frame.splits if_splits)
    then show ?case using Cons.IH [OF r1(2)] by auto
  qed auto
  have "(red_message r)\<lparr>blocks := map (shown v) vs\<rparr> = (clone_start_message m)\<lparr>blocks := map (shown v) vs\<rparr>"
    using h [OF r(2) refl] by (cases "red_message r") (auto simp: clone_start_message_def)
  then have "reduce_assistant_message_frames v (FStart (clone_start_message m) # fs) =
      Inr (Some ((clone_start_message m)\<lparr>blocks := map (shown v) vs\<rparr>))"
    using r(2) settled_shown [OF r(3)] by (simp add: reduce_assistant_message_frames_def)
  moreover have "encode_all v new_encoder (EStart m # evs) = Inr (e, FStart (clone_start_message m) # fs)"
    using r(1) by (simp add: encode_def new_encoder_def)
  ultimately show ?thesis by blast
qed

text \<open>
  C17. Storing the frames of a stream loses nothing that was read. For every well-formed stream, stopped anywhere, the
  encoder produces frames and never fails, and replaying them gives the started message with exactly the blocks the
  events determine: a finished block is its final content; an unfinished text is the longer of what the live block
  held when its start was read and of the deltas read since; an unfinished call has the arguments its deltas parse to,
  once they have caught up with the live block, and those of the live block before.
\<close>

theorem replay_shows_stream:
  assumes "see_all v [] evs = Some vs"
  shows "\<exists>e fs. encode_all v new_encoder (EStart m # evs) = Inr (e, fs) \<and>
    reduce_assistant_message_frames v fs = Inr (Some ((clone_start_message m)\<lparr>blocks := map (shown v) vs\<rparr>))"
  by (rule replay_shows [OF assms])

end
