(* ===== verification/FramesLive.thy ===== *)
theory FramesLive
  imports AssistantFrames
begin

text \<open>
  A producer that keeps writing to the message while its events wait to be read, as the providers of \<open>packages/ai\<close>
  do with the \<open>partial\<close> of their events, and what a replay of the frames shows of the message it builds.
\<close>

section \<open>Producers\<close>

record made =
  m_block :: block
  m_total :: string
  m_ended :: bool

datatype queued = QStart | QDelta string | QEnd

definition grown :: "frame_env \<Rightarrow> string \<Rightarrow> made \<Rightarrow> made" where
  "grown v d m = m\<lparr>m_total := m_total m @ d, m_block := (case m_block m of
     CallBlock c \<Rightarrow> CallBlock (c\<lparr>arguments := parse_streaming v (m_total m @ d)\<rparr>)
   | b \<Rightarrow> append_text d b)\<rparr>"

definition fresh_block :: "frame_env \<Rightarrow> block \<Rightarrow> bool" where
  "fresh_block v b = (case b of TextBlock t sig \<Rightarrow> t = [] \<and> sig = None
     | ThinkingBlock t sig red \<Rightarrow> t = [] \<and> sig = None \<and> red = None
     | CallBlock c \<Rightarrow> arguments c = parse_streaming v [])"

text \<open>The end of a text may add its signature; the end of a call fixes all of it.\<close>

definition finishes :: "block \<Rightarrow> block \<Rightarrow> bool" where
  "finishes b b' \<longleftrightarrow> kind_of b' = kind_of b \<and> block_text b' = block_text b"

definition event_at :: "made list \<Rightarrow> nat \<Rightarrow> queued \<Rightarrow> event" where
  "event_at ms i q = (let live = map m_block ms in
     case m_block (ms ! i) of
       TextBlock t _ \<Rightarrow> (case q of QStart \<Rightarrow> ETextStart (int i) live | QDelta d \<Rightarrow> ETextDelta (int i) d | QEnd \<Rightarrow> ETextEnd (int i) t live)
     | ThinkingBlock t _ _ \<Rightarrow> (case q of QStart \<Rightarrow> EThinkingStart (int i) live | QDelta d \<Rightarrow> EThinkingDelta (int i) d
         | QEnd \<Rightarrow> EThinkingEnd (int i) t live)
     | CallBlock c \<Rightarrow> (case q of QStart \<Rightarrow> ECallStart (int i) live | QDelta d \<Rightarrow> ECallDelta (int i) d | QEnd \<Rightarrow> ECallEnd (int i) c live))"

text \<open>The blocks made so far, the events that wait, and the events that were read.\<close>

inductive streams :: "frame_env \<Rightarrow> made list \<Rightarrow> (nat \<times> queued) list \<Rightarrow> event list \<Rightarrow> bool" for v where
  nothing: "streams v [] [] []"
| begin_block: "streams v ms q evs \<Longrightarrow> fresh_block v b \<Longrightarrow> length ms < 9007199254740992 \<Longrightarrow>
    streams v (ms @ [\<lparr>m_block = b, m_total = [], m_ended = False\<rparr>]) (q @ [(length ms, QStart)]) evs"
| grow_block: "streams v ms q evs \<Longrightarrow> i < length ms \<Longrightarrow> \<not> m_ended (ms ! i) \<Longrightarrow>
    streams v (ms[i := grown v d (ms ! i)]) (q @ [(i, QDelta d)]) evs"
| finish_block: "streams v ms q evs \<Longrightarrow> i < length ms \<Longrightarrow> \<not> m_ended (ms ! i) \<Longrightarrow> finishes (m_block (ms ! i)) b \<Longrightarrow>
    streams v (ms[i := (ms ! i)\<lparr>m_block := b, m_ended := True\<rparr>]) (q @ [(i, QEnd)]) evs"
| read_event: "streams v ms ((i, x) # q) evs \<Longrightarrow> streams v ms q (evs @ [event_at ms i x])"

section \<open>The invariant\<close>

definition proj :: "nat \<Rightarrow> (nat \<times> queued) list \<Rightarrow> queued list" where
  "proj i q = map snd (filter (\<lambda>p. fst p = i) q)"

lemma proj_simps [simp]:
  "proj i [] = []" "proj i (q @ q') = proj i q @ proj i q'" "proj i ((j, x) # q) = (if j = i then x # proj i q else proj i q)"
  by (simp_all add: proj_def)

definition started_in :: "(nat \<times> queued) list \<Rightarrow> nat list" where
  "started_in q = map fst (filter (\<lambda>p. snd p = QStart) q)"

lemma started_simps [simp]:
  "started_in [] = []" "started_in (q @ q') = started_in q @ started_in q'"
  "started_in ((j, x) # q) = (if x = QStart then j # started_in q else started_in q)"
  by (simp_all add: started_in_def)

definition made_ok :: "frame_env \<Rightarrow> made \<Rightarrow> bool" where
  "made_ok v m = (case m_block m of
     TextBlock t sig \<Rightarrow> t = m_total m \<and> (m_ended m \<or> sig = None)
   | ThinkingBlock t sig red \<Rightarrow> t = m_total m \<and> (m_ended m \<or> sig = None \<and> red = None)
   | CallBlock c \<Rightarrow> m_ended m \<or> arguments c = parse_streaming v (m_total m))"

definition waiting :: "made \<Rightarrow> string list \<Rightarrow> queued list" where
  "waiting m ds = map QDelta ds @ (if m_ended m then [QEnd] else [])"

definition snap_ok :: "frame_env \<Rightarrow> made \<Rightarrow> seen \<Rightarrow> string list \<Rightarrow> bool" where
  "snap_ok v m s ds = (case snap s of
     TextBlock t sig \<Rightarrow> prefix t (m_total m) \<and> (m_ended m \<or> sig = None)
   | ThinkingBlock t sig red \<Rightarrow> prefix t (m_total m) \<and> (m_ended m \<or> sig = None \<and> red = None)
   | CallBlock c \<Rightarrow> m_ended m \<or> (\<exists>c' j. m_block m = CallBlock c' \<and> c\<lparr>arguments := arguments c'\<rparr> = c' \<and>
       arguments c = parse_streaming v j \<and> prefix j (m_total m) \<and>
       (caught s \<or> (\<exists>k. 0 < k \<and> k \<le> length ds \<and> got s @ concat (take k ds) = j))))"

definition unread_ok :: "frame_env \<Rightarrow> made \<Rightarrow> queued list \<Rightarrow> bool" where
  "unread_ok v m q \<longleftrightarrow> made_ok v m \<and> (\<exists>ds. q = QStart # waiting m ds \<and> concat ds = m_total m)"

definition read_ok :: "frame_env \<Rightarrow> made \<Rightarrow> seen \<Rightarrow> queued list \<Rightarrow> bool" where
  "read_ok v m s q \<longleftrightarrow> made_ok v m \<and> kind_of (snap s) = kind_of (m_block m) \<and> (case fin s of
     Some b \<Rightarrow> q = [] \<and> m_ended m \<and> b = m_block m
   | None \<Rightarrow> (\<exists>ds. q = waiting m ds \<and> got s @ concat ds = m_total m \<and> snap_ok v m s ds))"

definition streams_ok :: "frame_env \<Rightarrow> made list \<Rightarrow> (nat \<times> queued) list \<Rightarrow> seen list \<Rightarrow> bool" where
  "streams_ok v ms q vs \<longleftrightarrow> length vs \<le> length ms \<and> length ms \<le> 9007199254740992 \<and> started_in q = [length vs..<length ms] \<and>
     (\<forall>i \<ge> length ms. proj i q = []) \<and>
     (\<forall>i < length vs. read_ok v (ms ! i) (vs ! i) (proj i q)) \<and>
     (\<forall>i. length vs \<le> i \<and> i < length ms \<longrightarrow> unread_ok v (ms ! i) (proj i q))"

lemma grown_ok:
  assumes "made_ok v m" "\<not> m_ended m"
  shows "made_ok v (grown v d m)" "kind_of (m_block (grown v d m)) = kind_of (m_block m)" "\<not> m_ended (grown v d m)"
    "m_total (grown v d m) = m_total m @ d"
  using assms by (cases "m_block m"; simp add: made_ok_def grown_def append_text_def)+

lemma unread_grown: "unread_ok v m q \<Longrightarrow> \<not> m_ended m \<Longrightarrow> unread_ok v (grown v d m) (q @ [QDelta d])"
proof -
  assume u: "unread_ok v m q" and e: "\<not> m_ended m"
  then obtain ds where "q = QStart # waiting m ds" "concat ds = m_total m" by (auto simp: unread_ok_def)
  then have "q @ [QDelta d] = QStart # waiting (grown v d m) (ds @ [d]) \<and> concat (ds @ [d]) = m_total (grown v d m)"
    using e grown_ok [of v m d] u by (simp add: waiting_def unread_ok_def)
  then show ?thesis using u grown_ok(1) e unfolding unread_ok_def by blast
qed

lemma snap_grown:
  assumes "snap_ok v m s ds" "made_ok v m" "\<not> m_ended m"
  shows "snap_ok v (grown v d m) s (ds @ [d])"
proof (cases "snap s")
  case (CallBlock c)
  then obtain c' j where c: "m_block m = CallBlock c'" "c\<lparr>arguments := arguments c'\<rparr> = c'" "arguments c = parse_streaming v j"
    "prefix j (m_total m)" "caught s \<or> (\<exists>k. 0 < k \<and> k \<le> length ds \<and> got s @ concat (take k ds) = j)"
    using assms by (auto simp: snap_ok_def)
  let ?c = "c'\<lparr>arguments := parse_streaming v (m_total m @ d)\<rparr>"
  have "m_block (grown v d m) = CallBlock ?c" using c(1) by (simp add: grown_def)
  moreover have "c\<lparr>arguments := arguments ?c\<rparr> = ?c" using c(2) by (cases c; cases c') simp
  moreover have "prefix j (m_total (grown v d m))" using c(4) grown_ok(4) [OF assms(2,3)] by simp
  moreover have "caught s \<or> (\<exists>k. 0 < k \<and> k \<le> length (ds @ [d]) \<and> got s @ concat (take k (ds @ [d])) = j)" using c(5) by auto
  ultimately show ?thesis using c(3) CallBlock unfolding snap_ok_def by auto
qed (use assms grown_ok [of v m d] in \<open>auto simp: snap_ok_def\<close>)

lemma read_grown: "read_ok v m s q \<Longrightarrow> \<not> m_ended m \<Longrightarrow> read_ok v (grown v d m) s (q @ [QDelta d])"
proof -
  assume r: "read_ok v m s q" and e: "\<not> m_ended m"
  then have n: "fin s = None" by (auto simp: read_ok_def split: option.splits)
  then obtain ds where ds: "q = waiting m ds" "got s @ concat ds = m_total m" "snap_ok v m s ds" using r by (auto simp: read_ok_def)
  have "q @ [QDelta d] = waiting (grown v d m) (ds @ [d]) \<and> got s @ concat (ds @ [d]) = m_total (grown v d m)"
    using ds e grown_ok [of v m d] r by (simp add: waiting_def read_ok_def)
  then show ?thesis using snap_grown [OF ds(3)] r e n grown_ok [of v m d] unfolding read_ok_def by auto
qed

lemma finished_ok:
  assumes "made_ok v m" "finishes (m_block m) b"
  shows "made_ok v (m\<lparr>m_block := b, m_ended := True\<rparr>)"
  using assms by (cases "m_block m"; cases b) (auto simp: made_ok_def finishes_def block_text_def)

lemma unread_finished:
  "unread_ok v m q \<Longrightarrow> \<not> m_ended m \<Longrightarrow> finishes (m_block m) b \<Longrightarrow> unread_ok v (m\<lparr>m_block := b, m_ended := True\<rparr>) (q @ [QEnd])"
  using finished_ok by (auto simp: unread_ok_def waiting_def)

lemma read_finished:
  assumes "read_ok v m s q" "\<not> m_ended m" "finishes (m_block m) b"
  shows "read_ok v (m\<lparr>m_block := b, m_ended := True\<rparr>) s (q @ [QEnd])"
proof -
  have n: "fin s = None" using assms by (auto simp: read_ok_def split: option.splits)
  obtain ds where ds: "q = waiting m ds" "got s @ concat ds = m_total m" "snap_ok v m s ds" using assms(1) n by (auto simp: read_ok_def)
  have "snap_ok v (m\<lparr>m_block := b, m_ended := True\<rparr>) s ds" using ds(3) by (auto simp: snap_ok_def split: block.splits)
  then show ?thesis using ds assms n finished_ok by (auto simp: read_ok_def waiting_def finishes_def)
qed

section \<open>Reading an event\<close>

lemma live_kind_at:
  "i < length ms \<Longrightarrow> length ms \<le> 9007199254740992 \<Longrightarrow> live_kind (map m_block ms) (int i) (kind_of (m_block (ms ! i)))"
  by (simp add: live_kind_def index_ok_def)

lemma kinds [simp]:
  "kind_of (TextBlock t sig) = KText" "kind_of (ThinkingBlock t sig red) = KThinking" "kind_of (CallBlock c) = KCall"
  by simp_all

definition first_seen :: "frame_env \<Rightarrow> block \<Rightarrow> seen" where
  "first_seen v b = \<lparr>snap = b, got = [], caught = starts_caught v b, fin = None\<rparr>"

lemma read_start:
  assumes "unread_ok v m (x # q)"
  shows "x = QStart \<and> read_ok v m (first_seen v (m_block m)) q"
proof -
  obtain ds where ds: "x = QStart" "q = waiting m ds" "concat ds = m_total m" and ok: "made_ok v m"
    using assms by (auto simp: unread_ok_def)
  have "snap_ok v m (first_seen v (m_block m)) ds"
  proof (cases "m_block m")
    case (CallBlock c)
    show ?thesis
    proof (cases "m_ended m")
      case False
      then have a: "arguments c = parse_streaming v (m_total m)" using ok CallBlock by (simp add: made_ok_def)
      have "caught (first_seen v (m_block m)) \<or> (\<exists>k. 0 < k \<and> k \<le> length ds \<and> concat (take k ds) = m_total m)"
      proof (cases ds)
        case Nil
        then show ?thesis using a ds(3) CallBlock by (simp add: first_seen_def starts_caught_def)
      next
        case Cons
        then show ?thesis using ds(3) by (intro disjI2 exI [of _ "length ds"]) simp
      qed
      then show ?thesis using a CallBlock by (auto simp: snap_ok_def first_seen_def)
    qed (simp add: snap_ok_def first_seen_def CallBlock)
  qed (use ok in \<open>simp_all add: snap_ok_def first_seen_def made_ok_def\<close>)
  then show ?thesis using ds ok by (auto simp: read_ok_def first_seen_def)
qed

lemma see_first:
  assumes "i < length ms" "length ms \<le> 9007199254740992" "i = length vs"
  shows "see v vs (event_at ms i QStart) = Some (vs @ [first_seen v (m_block (ms ! i))])"
  using live_kind_at [OF assms(1,2)] assms
  by (cases "m_block (ms ! i)") (auto simp: event_at_def see_def see_start_def first_seen_def)

lemma waiting_Cons:
  assumes "x # q = waiting m ds"
  obtains d ds' where "x = QDelta d" "ds = d # ds'" "q = waiting m ds'" | "x = QEnd" "ds = []" "q = []" "m_ended m"
  using assms by (cases ds) (auto simp: waiting_def split: if_splits)

lemma snap_delta:
  assumes "snap_ok v m s (d # ds)" and "kind_of (snap s) \<noteq> KCall"
  shows "snap_ok v m (s\<lparr>got := got s @ d\<rparr>) ds"
  using assms by (cases "snap s") (auto simp: snap_ok_def)

lemma snap_call_delta:
  assumes "snap_ok v m s (d # ds)" and "snap s = CallBlock c"
  shows "snap_ok v m (s\<lparr>got := got s @ d, caught := (caught s \<or> caught_up v (arguments c) (got s @ d))\<rparr>) ds"
proof (cases "m_ended m")
  case False
  then obtain c' j where j: "m_block m = CallBlock c'" "c\<lparr>arguments := arguments c'\<rparr> = c'" "arguments c = parse_streaming v j"
    "prefix j (m_total m)" "caught s \<or> (\<exists>k. 0 < k \<and> k \<le> length (d # ds) \<and> got s @ concat (take k (d # ds)) = j)"
    using assms by (auto simp: snap_ok_def)
  have "caught s \<or> caught_up v (arguments c) (got s @ d) \<or> (\<exists>k. 0 < k \<and> k \<le> length ds \<and> (got s @ d) @ concat (take k ds) = j)"
    using j(5)
  proof (elim disjE exE conjE)
    fix k assume k: "0 < k" "k \<le> length (d # ds)" "got s @ concat (take k (d # ds)) = j"
    then obtain k' where k': "k = Suc k'" by (cases k) auto
    show ?thesis
    proof (cases "k' = 0")
      case True
      then have "got s @ d = j" using k k' by simp
      then show ?thesis using j(3) by (simp add: caught_up_def)
    next
      case False
      then show ?thesis using k k' by (intro disjI2 exI [of _ k']) simp
    qed
  qed simp
  then show ?thesis using j(1-4) assms(2) by (auto simp: snap_ok_def)
qed (use assms in \<open>simp add: snap_ok_def\<close>)

lemma text_prefixes:
  assumes "snap_ok v m s (d # ds)" "got s @ concat (d # ds) = m_total m" "kind_of (snap s) \<noteq> KCall"
  shows "prefix (got s @ d) (block_text (snap s)) \<or> prefix (block_text (snap s)) (got s @ d)"
proof -
  have "prefix (got s @ d) (m_total m)" using assms(2) by (intro prefixI [of _ _ "concat ds"]) simp
  moreover have "prefix (block_text (snap s)) (m_total m)" using assms(1,3) by (cases "snap s") (auto simp: snap_ok_def block_text_def)
  ultimately show ?thesis using prefix_same_cases by blast
qed

lemma read_known:
  assumes r: "read_ok v (ms ! i) (vs ! i) (x # q)" and i: "i < length vs" "length vs \<le> length ms" "length ms \<le> 9007199254740992"
  shows "\<exists>s. see v vs (event_at ms i x) = Some (vs[i := s]) \<and> read_ok v (ms ! i) s q"
proof -
  let ?m = "ms ! i" and ?s = "vs ! i"
  have n: "fin ?s = None" using r by (auto simp: read_ok_def split: option.splits)
  have k: "kind_of (snap ?s) = kind_of (m_block ?m)" "made_ok v ?m" using r by (auto simp: read_ok_def)
  have o: "open_at vs (int i) (kind_of (m_block ?m))" using i n k by (simp add: open_at_def)
  obtain ds where ds: "x # q = waiting ?m ds" "got ?s @ concat ds = m_total ?m" "snap_ok v ?m ?s ds" using r n by (auto simp: read_ok_def)
  from ds(1) show ?thesis
  proof (rule waiting_Cons)
    fix d ds' assume d: "x = QDelta d" "ds = d # ds'" "q = waiting ?m ds'"
    show ?thesis
    proof (cases "kind_of (snap ?s) = KCall")
      case True
      then obtain c where c: "snap ?s = CallBlock c" using kind_cases(3) by blast
      let ?s' = "?s\<lparr>got := got ?s @ d, caught := (caught ?s \<or> caught_up v (arguments c) (got ?s @ d))\<rparr>"
      have "see v vs (event_at ms i x) = Some (vs[i := ?s'])"
        using o d(1) c k(1) True by (cases "m_block ?m") (auto simp: event_at_def see_def see_call_def Let_def)
      moreover have "read_ok v ?m ?s' q" using snap_call_delta [OF _ c] ds d k n by (auto simp: read_ok_def)
      ultimately show ?thesis by blast
    next
      case False
      let ?s' = "?s\<lparr>got := got ?s @ d\<rparr>"
      have "prefix (got ?s @ d) (block_text (snap ?s)) \<or> prefix (block_text (snap ?s)) (got ?s @ d)"
        using text_prefixes [OF _ _ False] ds(2,3) d(2) by blast
      then have "see v vs (event_at ms i x) = Some (vs[i := ?s'])"
        using o d(1) k(1) False by (cases "m_block ?m") (auto simp: event_at_def see_def see_text_def Let_def)
      moreover have "read_ok v ?m ?s' q" using snap_delta [OF _ False] ds d k n by (auto simp: read_ok_def)
      ultimately show ?thesis by blast
    qed
  next
    assume d: "x = QEnd" "ds = []" "q = []" "m_ended ?m"
    let ?s' = "?s\<lparr>fin := Some (m_block ?m)\<rparr>"
    have "live_kind (map m_block ms) (int i) (kind_of (m_block ?m))"
      using i by (intro live_kind_at) simp_all
    then have "see v vs (event_at ms i x) = Some (vs[i := ?s'])"
      using o d(1) i by (cases "m_block ?m") (auto simp: event_at_def see_def see_end_def text_end_block_def)
    moreover have "read_ok v ?m ?s' q" using k d by (simp add: read_ok_def)
    ultimately show ?thesis by blast
  qed
qed

lemma streams_ok_read:
  assumes "streams_ok v ms ((i, x) # q) vs"
  shows "\<exists>vs'. see v vs (event_at ms i x) = Some vs' \<and> streams_ok v ms q vs'"
proof -
  have l: "length vs \<le> length ms" "length ms \<le> 9007199254740992"
    and q: "started_in ((i, x) # q) = [length vs..<length ms]" "\<And>j. length ms \<le> j \<Longrightarrow> proj j ((i, x) # q) = []"
    and k: "\<And>j. j < length vs \<Longrightarrow> read_ok v (ms ! j) (vs ! j) (proj j ((i, x) # q))"
    and u: "\<And>j. length vs \<le> j \<Longrightarrow> j < length ms \<Longrightarrow> unread_ok v (ms ! j) (proj j ((i, x) # q))"
    using assms by (auto simp: streams_ok_def)
  have i: "i < length ms" using q(2) [of i] by (cases "i < length ms") auto
  have other: "proj j ((i, x) # q) = proj j q" if "j \<noteq> i" for j using that by simp
  show ?thesis
  proof (cases "i < length vs")
    case True
    obtain s where s: "see v vs (event_at ms i x) = Some (vs[i := s])" "read_ok v (ms ! i) s (proj i q)"
      using read_known [of v ms i vs x "proj i q"] k [OF True] True l by auto
    obtain ds where "x # proj i q = waiting (ms ! i) ds"
      using k [OF True] by (auto simp: read_ok_def split: option.splits)
    then have "x \<noteq> QStart" by (auto elim: waiting_Cons)
    then have "started_in q = [length vs..<length ms]" using q(1) by simp
    moreover have "proj j q = []" if "length ms \<le> j" for j using q(2) [OF that] other [of j] i that by simp
    moreover have "read_ok v (ms ! j) (vs[i := s] ! j) (proj j q)" if "j < length vs" for j
      using k [OF that] other [of j] s(2) True by (cases "j = i") auto
    moreover have "unread_ok v (ms ! j) (proj j q)" if "length vs \<le> j" "j < length ms" for j
      using u [OF that] other [of j] that True by auto
    ultimately have "streams_ok v ms q (vs[i := s])" using l by (simp add: streams_ok_def)
    then show ?thesis using s(1) by blast
  next
    case False
    have r: "x = QStart" "read_ok v (ms ! i) (first_seen v (m_block (ms ! i))) (proj i q)"
      using read_start [of v "ms ! i" x "proj i q"] u [of i] False i by auto
    then have e: "i # started_in q = [length vs..<length ms]" using q(1) by simp
    then have iv: "i = length vs" "started_in q = [Suc (length vs)..<length ms]"
      using l i False upt_rec [of "length vs" "length ms"] by auto
    let ?vs = "vs @ [first_seen v (m_block (ms ! i))]"
    have "proj j q = []" if "length ms \<le> j" for j using q(2) [OF that] other [of j] i that by simp
    moreover have "read_ok v (ms ! j) (?vs ! j) (proj j q)" if "j < length ?vs" for j
      using k [of j] other [of j] r(2) iv(1) that by (cases "j = i") (auto simp: nth_append)
    moreover have "unread_ok v (ms ! j) (proj j q)" if "length ?vs \<le> j" "j < length ms" for j
      using u [of j] other [of j] that iv(1) by auto
    ultimately have "streams_ok v ms q ?vs" using l i iv by (simp add: streams_ok_def)
    then show ?thesis using see_first [OF i l(2) iv(1)] r(1) by blast
  qed
qed

lemma see_all_append: "see_all v vs (a @ b) = Option.bind (see_all v vs a) (\<lambda>ws. see_all v ws b)"
  by (induction a arbitrary: vs) (auto split: option.splits)

lemma streams_ok_begin:
  assumes "streams_ok v ms q vs" "fresh_block v b" "length ms < 9007199254740992"
  shows "streams_ok v (ms @ [\<lparr>m_block = b, m_total = [], m_ended = False\<rparr>]) (q @ [(length ms, QStart)]) vs"
proof -
  let ?m = "\<lparr>m_block = b, m_total = [], m_ended = False\<rparr>"
  have "unread_ok v ?m [QStart]"
    using assms(2) by (cases b) (auto simp: unread_ok_def made_ok_def fresh_block_def waiting_def intro: exI [of _ "[]"])
  moreover have "proj (length ms) q = []" using assms(1) by (simp add: streams_ok_def)
  ultimately show ?thesis using assms by (auto simp: streams_ok_def nth_append less_Suc_eq)
qed

lemma streams_ok_update:
  assumes "streams_ok v ms q vs" "i < length ms" "x \<noteq> QStart"
    and "\<And>s p. read_ok v (ms ! i) s p \<Longrightarrow> read_ok v m s (p @ [x])"
    and "\<And>p. unread_ok v (ms ! i) p \<Longrightarrow> unread_ok v m (p @ [x])"
  shows "streams_ok v (ms[i := m]) (q @ [(i, x)]) vs"
proof -
  have "read_ok v (ms[i := m] ! j) (vs ! j) (proj j (q @ [(i, x)]))" if "j < length vs" for j
    using assms(1,2,4) that by (cases "j = i") (auto simp: streams_ok_def)
  moreover have "unread_ok v (ms[i := m] ! j) (proj j (q @ [(i, x)]))" if "length vs \<le> j" "j < length ms" for j
    using assms(1,2,5) that by (cases "j = i") (auto simp: streams_ok_def)
  ultimately show ?thesis using assms(1,2,3) by (auto simp: streams_ok_def)
qed

lemma streams_seen: "streams v ms q evs \<Longrightarrow> \<exists>vs. see_all v [] evs = Some vs \<and> streams_ok v ms q vs"
proof (induction rule: streams.induct)
  case nothing
  then show ?case by (auto simp: streams_ok_def)
next
  case (begin_block ms q evs b)
  then show ?case using streams_ok_begin by blast
next
  case (grow_block ms q evs i d)
  then obtain vs where vs: "see_all v [] evs = Some vs" "streams_ok v ms q vs" by blast
  have "streams_ok v (ms[i := grown v d (ms ! i)]) (q @ [(i, QDelta d)]) vs"
    using vs(2) grow_block.hyps read_grown unread_grown by (intro streams_ok_update) auto
  then show ?case using vs(1) by blast
next
  case (finish_block ms q evs i b)
  then obtain vs where vs: "see_all v [] evs = Some vs" "streams_ok v ms q vs" by blast
  have "streams_ok v (ms[i := (ms ! i)\<lparr>m_block := b, m_ended := True\<rparr>]) (q @ [(i, QEnd)]) vs"
    using vs(2) finish_block.hyps read_finished unread_finished by (intro streams_ok_update) auto
  then show ?case using vs(1) by blast
next
  case (read_event ms i x q evs)
  then obtain vs where vs: "see_all v [] evs = Some vs" "streams_ok v ms ((i, x) # q) vs" by blast
  from streams_ok_read [OF vs(2)] obtain vs' where "see v vs (event_at ms i x) = Some vs'" "streams_ok v ms q vs'" by blast
  then show ?case using vs(1) by (simp add: see_all_append)
qed

lemma shown_prefix:
  assumes "read_ok v m s q"
  shows "prefix (block_text (shown v s)) (block_text (m_block m))"
proof (cases "fin s")
  case None
  then obtain ds where "got s @ concat ds = m_total m" "snap_ok v m s ds" using assms by (auto simp: read_ok_def)
  then show ?thesis using assms None
    by (cases "snap s"; cases "m_block m")
      (auto simp: read_ok_def shown_def block_text_def snap_ok_def made_ok_def longer_def intro: prefixI [of _ _ "concat ds"])
next
  case (Some b)
  then show ?thesis using assms by (simp add: read_ok_def shown_def)
qed

lemma prefix_whole: "prefix s t \<Longrightarrow> length t \<le> length s \<Longrightarrow> s = t"
  by (auto simp: prefix_def)

lemma shown_drained:
  assumes "read_ok v m s []"
  shows "shown v s = m_block m"
proof (cases "fin s")
  case None
  then have w: "waiting m ds = []" "got s @ concat ds = m_total m" "snap_ok v m s ds" if "ds = []" for ds
    using assms that by (auto simp: read_ok_def waiting_def split: if_splits)
  have e: "\<not> m_ended m" "got s = m_total m" using assms None by (auto simp: read_ok_def waiting_def split: if_splits)
  have k: "kind_of (snap s) = kind_of (m_block m)" "made_ok v m" "snap_ok v m s []"
    using assms None w by (auto simp: read_ok_def)
  show ?thesis
  proof (cases "snap s")
    case (CallBlock c)
    then obtain c' j where c: "m_block m = CallBlock c'" "c\<lparr>arguments := arguments c'\<rparr> = c'" "arguments c = parse_streaming v j"
      "prefix j (m_total m)" "caught s" using k(3) e by (auto simp: snap_ok_def)
    have a: "arguments c' = parse_streaming v (m_total m)" using k(2) c(1) e(1) by (simp add: made_ok_def)
    show ?thesis
    proof (cases "got s = []")
      case True
      then have "arguments c = arguments c'" using c(3,4) a e(2) by simp
      then have "c = c'" using c(2) by (cases c; cases c') simp
      then show ?thesis using True None CallBlock c(1) by (simp add: shown_def)
    next
      case False
      then show ?thesis using None CallBlock c a e(2) by (simp add: shown_def)
    qed
  next
    case (TextBlock t sig)
    then show ?thesis using None k e by (cases "m_block m") (auto simp: shown_def snap_ok_def made_ok_def longer_def dest: prefix_whole)
  next
    case (ThinkingBlock t sig red)
    then show ?thesis using None k e by (cases "m_block m") (auto simp: shown_def snap_ok_def made_ok_def longer_def dest: prefix_whole)
  qed
next
  case (Some b)
  then show ?thesis using assms by (simp add: read_ok_def shown_def)
qed

text \<open>
  C18. A replay follows the live message. However a producer's writes and the reading of its events interleave, the
  encoder never fails; the replayed message has a block for every start that was read, its texts are prefixes of the
  texts the producer has written, and once all events are read it is the live message itself, finished or not.
\<close>

theorem replay_follows_live:
  assumes "streams v ms q evs"
  shows "\<exists>e fs r. encode_all v new_encoder (EStart m # evs) = Inr (e, fs) \<and>
    reduce_assistant_message_frames v fs = Inr (Some r) \<and> length (blocks r) \<le> length ms \<and>
    (\<forall>i < length (blocks r). prefix (block_text (blocks r ! i)) (block_text (m_block (ms ! i)))) \<and>
    (q = [] \<longrightarrow> r = (clone_start_message m)\<lparr>blocks := map m_block ms\<rparr>)"
proof -
  obtain vs where vs: "see_all v [] evs = Some vs" "streams_ok v ms q vs" using streams_seen [OF assms] by blast
  obtain e fs where fs: "encode_all v new_encoder (EStart m # evs) = Inr (e, fs)"
    "reduce_assistant_message_frames v fs = Inr (Some ((clone_start_message m)\<lparr>blocks := map (shown v) vs\<rparr>))"
    using replay_shows [OF vs(1), of m] by blast
  have "\<forall>i < length vs. prefix (block_text (shown v (vs ! i))) (block_text (m_block (ms ! i)))"
    using vs(2) shown_prefix by (auto simp: streams_ok_def)
  moreover have "map (shown v) vs = map m_block ms" if "q = []"
  proof -
    have "[length vs..<length ms] = []" using vs(2) that by (simp add: streams_ok_def)
    then have "length vs = length ms" using vs(2) by (auto simp: streams_ok_def)
    then show ?thesis using vs(2) that shown_drained by (intro nth_equalityI) (auto simp: streams_ok_def)
  qed
  moreover have "length vs \<le> length ms" using vs(2) by (simp add: streams_ok_def)
  ultimately show ?thesis using fs by (intro exI [of _ e] exI [of _ fs] exI) auto
qed

section \<open>Examples\<close>

definition demo_frames :: frame_env where
  "demo_frames = \<lparr>parse_streaming = (\<lambda>s. JObj (if s = [] then [] else [(''x'', JStr s)])), frame_number = (\<lambda>_. ''0'')\<rparr>"

definition demo_partial :: partial_message where
  "demo_partial = \<lparr>header = [(''model'', JStr ''m''), (''stopReason'', JStr ''pending'')], blocks = [], pending_stop = True\<rparr>"

definition demo_call :: "json \<Rightarrow> block" where
  "demo_call a = CallBlock \<lparr>call_id = ''c'', call_name = ''read'', arguments = a, thought = None, call_namespace = None\<rparr>"

text \<open>The start of the text is read when two of its deltas are already in the live block.\<close>

definition demo_events :: "event list" where
  "demo_events = [ETextStart 0 [TextBlock ''ab'' None], ETextDelta 0 ''a'', ETextDelta 0 ''b'', ETextDelta 0 ''cd'',
     ECallStart 1 [TextBlock ''abcd'' None, demo_call (parse_streaming demo_frames ''1'')], ECallDelta 1 ''1'', ECallDelta 1 ''2'',
     ETextEnd 0 ''abcd'' [TextBlock ''abcd'' (Some ''s''), demo_call (parse_streaming demo_frames ''12'')]]"

lemma demo_events_seen:
  "map_option (map (shown demo_frames)) (see_all demo_frames [] demo_events) =
    Some [TextBlock ''abcd'' (Some ''s''), demo_call (parse_streaming demo_frames ''12'')]"
  by code_simp

theorem replay_shows_stream_witness:
  "\<exists>e fs. encode_all demo_frames new_encoder (EStart demo_partial # demo_events) = Inr (e, fs) \<and>
    reduce_assistant_message_frames demo_frames fs = Inr (Some ((clone_start_message demo_partial)\<lparr>blocks :=
      [TextBlock ''abcd'' (Some ''s''), demo_call (parse_streaming demo_frames ''12'')]\<rparr>))"
proof -
  obtain vs where vs: "see_all demo_frames [] demo_events = Some vs"
    "map (shown demo_frames) vs = [TextBlock ''abcd'' (Some ''s''), demo_call (parse_streaming demo_frames ''12'')]"
    using demo_events_seen by auto
  show ?thesis using replay_shows_stream [OF vs(1), of demo_partial] vs(2) by simp
qed

lemma demo_stream:
  "streams demo_frames [\<lparr>m_block = TextBlock ''ab'' None, m_total = ''ab'', m_ended = False\<rparr>] []
     [ETextStart 0 [TextBlock ''ab'' None], ETextDelta 0 ''ab'']"
proof -
  from streams.begin_block [OF streams.nothing, of demo_frames "TextBlock [] None"]
  have 1: "streams demo_frames [\<lparr>m_block = TextBlock [] None, m_total = [], m_ended = False\<rparr>] [(0, QStart)] []"
    by (simp add: fresh_block_def)
  from streams.grow_block [OF 1, of 0 "''ab''"]
  have 2: "streams demo_frames [\<lparr>m_block = TextBlock ''ab'' None, m_total = ''ab'', m_ended = False\<rparr>] [(0, QStart), (0, QDelta ''ab'')] []"
    by (simp add: grown_def append_text_def)
  from streams.read_event [OF streams.read_event [OF 2]] show ?thesis by (simp add: event_at_def)
qed

theorem replay_follows_live_witness:
  "\<exists>e fs. encode_all demo_frames new_encoder (EStart demo_partial # [ETextStart 0 [TextBlock ''ab'' None], ETextDelta 0 ''ab'']) = Inr (e, fs) \<and>
    reduce_assistant_message_frames demo_frames fs = Inr (Some ((clone_start_message demo_partial)\<lparr>blocks := [TextBlock ''ab'' None]\<rparr>))"
  using replay_follows_live [OF demo_stream, of demo_partial] by auto

text \<open>Nothing is encoded after a terminal event, and before the start only an error may end the stream.\<close>

lemma encode_after_terminal: "enc_terminal e \<Longrightarrow> encode v e ev = Inl AfterTerminal"
  by (simp add: encode_def)

lemma encode_before_start:
  "\<not> enc_started e \<Longrightarrow> \<not> enc_terminal e \<Longrightarrow> is_ok (encode v e ev) \<longleftrightarrow> ev = EError \<or> (\<exists>m. ev = EStart m)"
  by (cases ev) (simp_all add: encode_def)

end
