(* ===== verification/TextSearch.thy ===== *)
theory TextSearch
  imports Truncate "HOL-Library.Sublist"
begin

text \<open>
  Text that several components share: the white space of a string, \<open>indexOf\<close> characterised by the first occurrence, and
  splitting at a unit.
\<close>

section \<open>White space\<close>

text \<open>The white space that \<open>trimEnd\<close> removes.\<close>

definition is_white :: "16 word \<Rightarrow> bool" where
  "is_white u \<longleftrightarrow> (9 \<le> u \<and> u \<le> 13) \<or> u = 0x20 \<or> u = 0xA0 \<or> u = 0x1680 \<or> (0x2000 \<le> u \<and> u \<le> 0x200A) \<or>
     u = 0x2028 \<or> u = 0x2029 \<or> u = 0x202F \<or> u = 0x205F \<or> u = 0x3000 \<or> u = 0xFEFF"

definition trim_end :: "text16 \<Rightarrow> text16" where
  "trim_end s = rev (dropWhile is_white (rev s))"

section \<open>Search\<close>

lemma index_of_iff:
  "index_of s sub = Some i \<longleftrightarrow> i \<le> length s \<and> prefix sub (drop i s) \<and> (\<forall>j < i. \<not> prefix sub (drop j s))"
proof (induction s arbitrary: i)
  case Nil
  then show ?case by (subst index_of.simps) auto
next
  case (Cons c s)
  show ?case
  proof (cases "prefix sub (c # s)")
    case True
    then show ?thesis by (subst index_of.simps) (cases i; auto)
  next
    case False
    then show ?thesis by (subst index_of.simps) (cases i; auto simp: Cons.IH less_Suc_eq_0_disj)
  qed
qed

lemma index_of_None: "index_of s sub = None \<longleftrightarrow> (\<forall>j \<le> length s. \<not> prefix sub (drop j s))"
proof (induction s)
  case Nil
  then show ?case by (subst index_of.simps) auto
next
  case (Cons c s)
  have "(\<forall>j \<le> length (c # s). \<not> prefix sub (drop j (c # s))) \<longleftrightarrow> \<not> prefix sub (c # s) \<and> (\<forall>j \<le> length s. \<not> prefix sub (drop j s))"
    by (metis (no_types, lifting) Suc_le_mono drop0 drop_Suc_Cons le0 length_Cons not0_implies_Suc)
  then show ?case using Cons.IH by (subst index_of.simps) simp
qed

lemma index_of_first: "prefix sub (drop i s) \<Longrightarrow> \<forall>j < i. \<not> prefix sub (drop j s) \<Longrightarrow> i \<le> length s \<Longrightarrow> index_of s sub = Some i"
  by (simp add: index_of_iff)

lemma index_of_slice: "index_of s sub = Some i \<Longrightarrow> take (length sub) (drop i s) = sub \<and> i + length sub \<le> length s"
  by (auto simp: index_of_iff prefix_def dest: arg_cong [of _ _ length])

lemma prefix_long: "prefix p (a @ b) \<Longrightarrow> length p \<le> length a \<Longrightarrow> prefix p a"
  by (metis prefixI prefix_length_prefix)

lemma prefix_short: "prefix p (a @ b) \<Longrightarrow> length a \<le> length p \<Longrightarrow> a = take (length a) p"
  by (metis append_eq_conv_conj prefixI prefix_def prefix_length_prefix)

section \<open>Splitting at a unit\<close>

lemma split_on_append: "split_on c (xs @ c # ys) = split_on c xs @ split_on c ys"
  by (induction xs) (auto split: list.splits)

lemma split_on_single: "c \<notin> set w \<Longrightarrow> split_on c w = [w]"
  by (induction w) auto

lemma split_join: "ls \<noteq> [] \<Longrightarrow> \<forall>l \<in> set ls. c \<notin> set l \<Longrightarrow> split_on c (join_on c ls) = ls"
  by (induction ls rule: join_on.induct) (simp_all add: split_on_single split_on_append)

lemma split_on_absent: "l \<in> set (split_on c s) \<Longrightarrow> c \<notin> set l"
  by (induction s arbitrary: l) (auto split: if_splits list.splits)

end
