(* ===== verification/StdinBuffer.thy ===== *)
theory StdinBuffer
  imports TextSearch
begin

text \<open>
  Terminal input, \<open>packages/tui/src/stdin-buffer.ts\<close>: chunks of input are buffered and split into complete key
  sequences, and bracketed pastes are collected. A string is a list of code units; the decoding of a chunk of bytes
  is an argument. A timer is the delay for which it was set, and its firing a function of its own.
\<close>

section \<open>Sequences\<close>

definition esc :: "16 word" where
  "esc = 0x1B"

definition paste_start :: text16 where
  "paste_start = [0x1B, 0x5B, 0x32, 0x30, 0x30, 0x7E]"

definition paste_end :: text16 where
  "paste_end = [0x1B, 0x5B, 0x32, 0x30, 0x31, 0x7E]"

definition default_sequence_timeout_ms :: nat where
  "default_sequence_timeout_ms = 50"

definition default_escape_timeout_ms :: nat where
  "default_escape_timeout_ms = 10"

datatype seq_status = Complete | Incomplete | NotEscape

definition unit_digit :: "16 word \<Rightarrow> bool" where
  "unit_digit u \<longleftrightarrow> 0x30 \<le> u \<and> u \<le> 0x39"

text \<open>The pieces of the regular expressions: a run of digits, one unit. A run is followed by no digit, so it is maximal.\<close>

definition match_digits :: "text16 \<Rightarrow> text16 option" where
  "match_digits s = (if takeWhile unit_digit s = [] then None else Some (dropWhile unit_digit s))"

definition match_unit :: "16 word \<Rightarrow> text16 \<Rightarrow> text16 option" where
  "match_unit u s = (case s of [] \<Rightarrow> None | x # r \<Rightarrow> if x = u then Some r else None)"

text \<open>\<open>/^<\d+;\d+;\d+[Mm]$/\<close>; the second test of the source accepts the same payloads.\<close>

definition sgr_mouse :: "text16 \<Rightarrow> bool" where
  "sgr_mouse p = (case Option.bind (match_unit 0x3C p) (\<lambda>p. Option.bind (match_digits p) (\<lambda>p. Option.bind (match_unit 0x3B p) (\<lambda>p.
     Option.bind (match_digits p) (\<lambda>p. Option.bind (match_unit 0x3B p) match_digits)))) of
     Some [u] \<Rightarrow> u = 0x4D \<or> u = 0x6D | _ \<Rightarrow> False)"

definition is_complete_csi :: "text16 \<Rightarrow> seq_status" where
  "is_complete_csi d = (if length d < 3 then Incomplete
     else (let payload = drop 2 d; u = last payload in
       if 0x40 \<le> u \<and> u \<le> 0x7E then
         (if hd payload = 0x3C then (if sgr_mouse payload then Complete else Incomplete) else Complete)
       else Incomplete))"

definition ends_st :: "text16 \<Rightarrow> bool" where
  "ends_st d = suffix [esc, 0x5C] d"

definition is_complete_sequence :: "text16 \<Rightarrow> seq_status" where
  "is_complete_sequence d = (case d of
     [] \<Rightarrow> NotEscape
   | e # after \<Rightarrow>
       if e \<noteq> esc then NotEscape
       else (case after of
         [] \<Rightarrow> Incomplete
       | k # rest \<Rightarrow>
           if k = 0x5B then
             (if prefix [0x4D] rest then (if 6 \<le> length d then Complete else Incomplete) else is_complete_csi d)
           else if k = 0x5D then (if ends_st d \<or> last d = 7 then Complete else Incomplete)
           else if k = 0x50 then (if ends_st d then Complete else Incomplete)
           else if k = 0x5F then (if ends_st d then Complete else Incomplete)
           else if k = 0x4F then (if 2 \<le> length after then Complete else Incomplete)
           else Complete))"

text \<open>\<open>/^\x1b\[(\d+)(?::\d*)?(?::\d+)?u$/\<close>.\<close>

definition digits_value :: "text16 \<Rightarrow> nat" where
  "digits_value s = foldl (\<lambda>n u. 10 * n + (unat u - 0x30)) 0 s"

definition kitty_suffix :: "text16 \<Rightarrow> bool" where
  "kitty_suffix s = (let s1 = (case match_unit 0x3A s of None \<Rightarrow> s | Some r \<Rightarrow> dropWhile unit_digit r);
       s2 = (case Option.bind (match_unit 0x3A s1) match_digits of None \<Rightarrow> s1 | Some r \<Rightarrow> r) in s2 = [0x75])"

definition parse_kitty_printable :: "text16 \<Rightarrow> nat option" where
  "parse_kitty_printable s = (case Option.bind (match_unit esc s) (match_unit 0x5B) of
     None \<Rightarrow> None
   | Some r \<Rightarrow> (case match_digits r of
       None \<Rightarrow> None
     | Some rest \<Rightarrow> (let n = digits_value (takeWhile unit_digit r) in if kitty_suffix rest \<and> 32 \<le> n then Some n else None)))"

section \<open>Splitting a buffer\<close>

text \<open>The inner loop: the length of the first prefix that is not incomplete.\<close>

function complete_from :: "text16 \<Rightarrow> nat \<Rightarrow> nat option" where
  "complete_from r n = (if length r < n then None
     else if is_complete_sequence (take n r) = Incomplete then complete_from r (Suc n) else Some n)"
  by auto
termination by (relation "measure (\<lambda>(r, n). Suc (length r) - n)") auto

declare complete_from.simps [simp del]

definition introducers :: "16 word set" where
  "introducers = {0x5B, 0x5D, 0x4F, 0x50, 0x5F}"

definition sequence_length :: "text16 \<Rightarrow> nat option" where
  "sequence_length r = (case complete_from r 1 of
     None \<Rightarrow> None
   | Some n \<Rightarrow> Some (if take n r = [esc, esc] \<and> n < length r \<and> r ! n \<in> introducers then 1 else n))"

lemma complete_from_Some:
  "complete_from r n = Some k \<Longrightarrow> n \<le> k \<and> k \<le> length r \<and> is_complete_sequence (take k r) \<noteq> Incomplete \<and>
    (\<forall>m. n \<le> m \<and> m < k \<longrightarrow> is_complete_sequence (take m r) = Incomplete)"
proof (induction r n rule: complete_from.induct)
  case (1 r n)
  show ?case
  proof (cases "\<not> length r < n \<and> is_complete_sequence (take n r) = Incomplete")
    case True
    then have "complete_from r (Suc n) = Some k" using "1.prems" by (subst (asm) complete_from.simps) simp
    then show ?thesis using "1.IH" True le_neq_implies_less [of n] by (metis Suc_leD Suc_leI not_le)
  next
    case False
    then show ?thesis using "1.prems" by (subst (asm) complete_from.simps) (auto split: if_splits)
  qed
qed

lemma complete_from_None:
  "complete_from r n = None \<Longrightarrow> n \<le> m \<Longrightarrow> m \<le> length r \<Longrightarrow> is_complete_sequence (take m r) = Incomplete"
proof (induction r n rule: complete_from.induct)
  case (1 r n)
  then have "is_complete_sequence (take n r) = Incomplete \<and> complete_from r (Suc n) = None"
    by (subst (asm) (2) complete_from.simps) (auto split: if_splits)
  then show ?case using 1 by (cases "n = m") auto
qed

lemma complete_from_exists:
  "n \<le> k \<Longrightarrow> k \<le> length r \<Longrightarrow> is_complete_sequence (take k r) \<noteq> Incomplete \<Longrightarrow>
    \<forall>m. n \<le> m \<and> m < k \<longrightarrow> is_complete_sequence (take m r) = Incomplete \<Longrightarrow> complete_from r n = Some k"
proof (induction r n rule: complete_from.induct)
  case (1 r n)
  show ?case
  proof (cases "n = k")
    case True
    then show ?thesis using "1.prems" by (subst complete_from.simps) simp
  next
    case False
    then have "complete_from r (Suc n) = Some k" using 1 by simp
    then show ?thesis using "1.prems" False by (subst complete_from.simps) simp
  qed
qed

lemma sequence_length_pos: "sequence_length r = Some n \<Longrightarrow> 0 < n \<and> n \<le> length r"
  by (auto simp: sequence_length_def split: option.splits if_splits dest!: complete_from_Some)

function extract_complete :: "text16 \<Rightarrow> text16 list \<times> text16" where
  "extract_complete r = (case r of
     [] \<Rightarrow> ([], [])
   | u # rest \<Rightarrow>
       if u = esc then (case sequence_length r of
           None \<Rightarrow> ([], r)
         | Some n \<Rightarrow> (case extract_complete (drop n r) of (ss, q) \<Rightarrow> (take n r # ss, q)))
       else (case extract_complete rest of (ss, q) \<Rightarrow> ([u] # ss, q)))"
  by auto
termination by (relation "measure length") (auto dest!: sequence_length_pos)

declare extract_complete.simps [simp del]

section \<open>The buffer\<close>

record stdin_buffer =
  sb_buffer :: text16
  sb_timer :: "nat option"
  timeout_ms :: nat
  escape_timeout_ms :: nat
  paste_mode :: bool
  paste_buffer :: text16
  pending_codepoint :: "nat option"

datatype stdin_event = Data text16 | Paste text16

definition new_stdin_buffer :: "nat option \<Rightarrow> nat option \<Rightarrow> stdin_buffer" where
  "new_stdin_buffer timeout escape = \<lparr>sb_buffer = [], sb_timer = None,
     timeout_ms = (case timeout of None \<Rightarrow> default_sequence_timeout_ms | Some n \<Rightarrow> n),
     escape_timeout_ms = (case escape of None \<Rightarrow> default_escape_timeout_ms | Some n \<Rightarrow> n),
     paste_mode = False, paste_buffer = [], pending_codepoint = None\<rparr>"

text \<open>A character that repeats the code point of the key event before it is not emitted again.\<close>

definition emit_data :: "nat option \<Rightarrow> text16 \<Rightarrow> nat option \<times> stdin_event list" where
  "emit_data pending s = (if length s = 1 \<and> pending = Some (unat (hd s)) then (None, [])
     else (parse_kitty_printable s, [Data s]))"

fun emit_all :: "nat option \<Rightarrow> text16 list \<Rightarrow> nat option \<times> stdin_event list" where
  "emit_all pending [] = (pending, [])"
| "emit_all pending (s # ss) = (case emit_data pending s of (p, ev) \<Rightarrow> (case emit_all p ss of (q, evs) \<Rightarrow> (q, ev @ evs)))"

definition split_paste :: "text16 \<Rightarrow> (text16 \<times> text16) option" where
  "split_paste p = map_option (\<lambda>i. (take i p, drop (i + length paste_end) p)) (index_of p paste_end)"

definition armed :: "stdin_buffer \<Rightarrow> text16 \<Rightarrow> nat option" where
  "armed sb r = (if r = [] then None else Some (if r = [esc] then escape_timeout_ms sb else timeout_ms sb))"

definition after_paste :: "stdin_buffer \<Rightarrow> stdin_buffer" where
  "after_paste sb = sb\<lparr>sb_buffer := [], sb_timer := None, paste_mode := False, paste_buffer := [], pending_codepoint := None\<rparr>"

definition in_paste :: "stdin_buffer \<Rightarrow> text16 \<Rightarrow> stdin_buffer" where
  "in_paste sb p = sb\<lparr>sb_buffer := [], sb_timer := None, paste_mode := True, paste_buffer := p, pending_codepoint := None\<rparr>"

lemma split_paste_shorter: "split_paste p = Some (d, rest) \<Longrightarrow> length rest + length paste_end \<le> length p"
  by (auto simp: split_paste_def index_of_iff dest!: prefix_length_le)

text \<open>
  \<open>process\<close>, which calls itself on what follows a paste. What precedes a paste is split, and an incomplete sequence
  at its end is dropped.
\<close>

function process :: "stdin_buffer \<Rightarrow> text16 \<Rightarrow> stdin_buffer \<times> stdin_event list" where
  "process sb str =
    (if str = [] \<and> sb_buffer sb = [] then
       (case emit_data (pending_codepoint sb) [] of (p, evs) \<Rightarrow> (sb\<lparr>sb_timer := None, pending_codepoint := p\<rparr>, evs))
     else if paste_mode sb then
       (let p = paste_buffer sb @ sb_buffer sb @ str in
        case split_paste p of
          None \<Rightarrow> (sb\<lparr>sb_buffer := [], sb_timer := None, paste_buffer := p\<rparr>, [])
        | Some (content, rest) \<Rightarrow>
            (if rest = [] then (after_paste sb, [Paste content])
             else (case process (after_paste sb) rest of (sb', evs) \<Rightarrow> (sb', Paste content # evs))))
     else
       (let b = sb_buffer sb @ str in
        case index_of b paste_start of
          Some i \<Rightarrow>
            (let before = snd (emit_all (pending_codepoint sb) (fst (extract_complete (take i b))));
                 p = drop (i + length paste_start) b in
             case split_paste p of
               None \<Rightarrow> (in_paste sb p, before)
             | Some (content, rest) \<Rightarrow>
                 (if rest = [] then (after_paste sb, before @ [Paste content])
                  else (case process (after_paste sb) rest of (sb', evs) \<Rightarrow> (sb', before @ Paste content # evs))))
        | None \<Rightarrow>
            (case extract_complete b of (ss, r) \<Rightarrow>
             (case emit_all (pending_codepoint sb) ss of (p, evs) \<Rightarrow>
               (sb\<lparr>sb_buffer := r, sb_timer := armed sb r, pending_codepoint := p\<rparr>, evs)))))"
  by pat_completeness auto
termination
proof (relation "measure (\<lambda>(sb, str). length (paste_buffer sb) + length (sb_buffer sb) + length str)")
  show "wf (measure (\<lambda>(sb, str). length (paste_buffer sb) + length (sb_buffer sb) + length str))" by simp
qed (auto simp: after_paste_def paste_end_def paste_start_def dest!: split_paste_shorter)

declare process.simps [simp del]

lemma process_empty: "sb_buffer sb = [] \<Longrightarrow> process sb [] =
    (sb\<lparr>sb_timer := None, pending_codepoint := fst (emit_data (pending_codepoint sb) [])\<rparr>, snd (emit_data (pending_codepoint sb) []))"
  by (subst process.simps) (simp split: prod.split)

text \<open>The rest of the chunk after a paste.\<close>

definition process_rest :: "stdin_buffer \<Rightarrow> text16 \<Rightarrow> stdin_buffer \<times> stdin_event list" where
  "process_rest sb rest = (if rest = [] then (after_paste sb, []) else process (after_paste sb) rest)"

lemma process_paste_mode:
  assumes "paste_mode sb" "sb_buffer sb @ str \<noteq> []"
  shows "process sb str = (case split_paste (paste_buffer sb @ sb_buffer sb @ str) of
      None \<Rightarrow> (sb\<lparr>sb_buffer := [], sb_timer := None, paste_buffer := paste_buffer sb @ sb_buffer sb @ str\<rparr>, [])
    | Some (content, rest) \<Rightarrow> (fst (process_rest sb rest), Paste content # snd (process_rest sb rest)))"
  using assms by (subst process.simps) (auto simp: Let_def process_rest_def split: option.split prod.split)

lemma process_start:
  assumes "\<not> paste_mode sb" "sb_buffer sb @ str \<noteq> []" "index_of (sb_buffer sb @ str) paste_start = Some i"
  shows "process sb str = (let before = snd (emit_all (pending_codepoint sb) (fst (extract_complete (take i (sb_buffer sb @ str)))));
      p = drop (i + length paste_start) (sb_buffer sb @ str) in
    case split_paste p of
      None \<Rightarrow> (in_paste sb p, before)
    | Some (content, rest) \<Rightarrow> (fst (process_rest sb rest), before @ Paste content # snd (process_rest sb rest)))"
  using assms by (subst process.simps) (auto simp: Let_def process_rest_def split: option.split prod.split)

lemma process_no_start:
  assumes "\<not> paste_mode sb" "sb_buffer sb @ str \<noteq> []" "index_of (sb_buffer sb @ str) paste_start = None"
    "extract_complete (sb_buffer sb @ str) = (ss, r)"
  shows "process sb str = (sb\<lparr>sb_buffer := r, sb_timer := armed sb r, pending_codepoint := fst (emit_all (pending_codepoint sb) ss)\<rparr>,
    snd (emit_all (pending_codepoint sb) ss))"
  using assms by (subst process.simps) (auto simp: Let_def split: prod.split)

datatype stdin_input = Bytes "byte list" | Str text16

text \<open>A single byte above 127 is a meta key in the encoding of old terminals.\<close>

definition input_text :: "(byte list \<Rightarrow> text16) \<Rightarrow> stdin_input \<Rightarrow> text16" where
  "input_text decode d = (case d of
     Str s \<Rightarrow> s
   | Bytes bs \<Rightarrow> if length bs = 1 \<and> 127 < unat (hd bs) then [esc, of_nat (unat (hd bs) - 128)] else decode bs)"

definition process_input :: "(byte list \<Rightarrow> text16) \<Rightarrow> stdin_buffer \<Rightarrow> stdin_input \<Rightarrow> stdin_buffer \<times> stdin_event list" where
  "process_input decode sb d = process sb (input_text decode d)"

definition flush :: "stdin_buffer \<Rightarrow> stdin_buffer \<times> text16 list" where
  "flush sb = (if sb_buffer sb = [] then (sb\<lparr>sb_timer := None\<rparr>, [])
     else (sb\<lparr>sb_timer := None, sb_buffer := [], pending_codepoint := None\<rparr>, [sb_buffer sb]))"

text \<open>The timer fires.\<close>

definition on_timeout :: "stdin_buffer \<Rightarrow> stdin_buffer \<times> stdin_event list" where
  "on_timeout sb = (case flush sb of (sb', ss) \<Rightarrow> (case emit_all (pending_codepoint sb') ss of (p, evs) \<Rightarrow>
     (sb'\<lparr>pending_codepoint := p\<rparr>, evs)))"

definition clear :: "stdin_buffer \<Rightarrow> stdin_buffer" where
  "clear sb = sb\<lparr>sb_timer := None, sb_buffer := [], paste_mode := False, paste_buffer := [], pending_codepoint := None\<rparr>"

fun process_all :: "stdin_buffer \<Rightarrow> text16 list \<Rightarrow> stdin_buffer \<times> stdin_event list" where
  "process_all sb [] = (sb, [])"
| "process_all sb (c # cs) = (case process sb c of (sb', evs) \<Rightarrow> (case process_all sb' cs of (sb'', evs') \<Rightarrow> (sb'', evs @ evs')))"

end
