(* ===== verification/StdinTokens.thy ===== *)
theory StdinTokens
  imports StdinBuffer
begin

text \<open>
  What the input buffer recovers: a stream of keys and pastes, in whatever chunks it arrives; and where it loses input.
\<close>

section \<open>Splitting\<close>

lemma extract_complete_simps:
  "extract_complete [] = ([], [])"
  "u \<noteq> esc \<Longrightarrow> extract_complete (u # r) = (case extract_complete r of (ss, q) \<Rightarrow> ([u] # ss, q))"
  "sequence_length (esc # r) = None \<Longrightarrow> extract_complete (esc # r) = ([], esc # r)"
  "sequence_length (esc # r) = Some n \<Longrightarrow> extract_complete (esc # r) =
     (case extract_complete (drop n (esc # r)) of (ss, q) \<Rightarrow> (take n (esc # r) # ss, q))"
  by (subst extract_complete.simps; simp)+

text \<open>Nothing is lost or invented by the splitting; what remains is an incomplete escape sequence.\<close>

theorem extract_lossless:
  "extract_complete b = (ss, r) \<Longrightarrow> concat ss @ r = b \<and> [] \<notin> set ss \<and>
    (r = [] \<or> hd r = esc \<and> complete_from r 1 = None)"
proof (induction b arbitrary: ss r rule: extract_complete.induct)
  case (1 b)
  show ?case
  proof (cases b)
    case Nil
    then show ?thesis using "1.prems" by (simp add: extract_complete_simps)
  next
    case (Cons u rest)
    show ?thesis
    proof (cases "u = esc")
      case False
      then obtain ss' where "extract_complete rest = (ss', r)" "ss = [u] # ss'"
        using "1.prems" Cons by (auto simp: extract_complete_simps split: prod.splits)
      then show ?thesis using "1.IH"(2) [OF Cons False] Cons by auto
    next
      case True
      show ?thesis
      proof (cases "sequence_length b")
        case None
        then show ?thesis using "1.prems" Cons True
          by (auto simp: extract_complete_simps sequence_length_def split: option.splits)
      next
        case (Some n)
        then obtain ss' where ss': "extract_complete (drop n b) = (ss', r)" "ss = take n b # ss'"
          using "1.prems" Cons True by (auto simp: extract_complete_simps split: prod.splits)
        then have "concat ss' @ r = drop n b \<and> [] \<notin> set ss' \<and> (r = [] \<or> hd r = esc \<and> complete_from r 1 = None)"
          using "1.IH"(1) [OF Cons True] Some Cons by simp
        moreover have "take n b \<noteq> []" using sequence_length_pos [OF Some] by auto
        ultimately show ?thesis using ss' by (metis append_assoc append_take_drop_id concat.simps(2) set_ConsD)
      qed
    qed
  qed
qed

section \<open>Keys and pastes\<close>

datatype token = Key text16 | Pasted text16

fun render :: "token \<Rightarrow> text16" where
  "render (Key s) = s"
| "render (Pasted d) = paste_start @ d @ paste_end"

abbreviation render_all :: "token list \<Rightarrow> text16" where
  "render_all ts \<equiv> concat (map render ts)"

text \<open>
  A key is a character or a sequence that is complete at its end and not before; no part of it looks like the
  beginning of a paste.
\<close>

definition key_ok :: "text16 \<Rightarrow> bool" where
  "key_ok s \<longleftrightarrow> s \<noteq> [] \<and>
     (if hd s = esc then complete_from s 1 = Some (length s) \<and> s \<noteq> [esc, esc] else length s = 1) \<and>
     index_of s paste_start = None \<and> list_all (\<lambda>k. \<not> suffix (take k paste_start) s) [1..<length paste_start]"

definition paste_ok :: "text16 \<Rightarrow> bool" where
  "paste_ok d \<longleftrightarrow> index_of (d @ paste_end) paste_end = Some (length d)"

fun token_ok :: "token \<Rightarrow> bool" where
  "token_ok (Key s) = key_ok s"
| "token_ok (Pasted d) = paste_ok d"

text \<open>The events of a stream; \<open>pending\<close> is the code point of the last key event.\<close>

fun token_events :: "nat option \<Rightarrow> token list \<Rightarrow> nat option \<times> stdin_event list" where
  "token_events pending [] = (pending, [])"
| "token_events pending (Key s # ts) = (case emit_data pending s of (p, ev) \<Rightarrow>
     (case token_events p ts of (q, evs) \<Rightarrow> (q, ev @ evs)))"
| "token_events pending (Pasted d # ts) = (case token_events None ts of (q, evs) \<Rightarrow> (q, Paste d # evs))"

lemma token_events_append:
  "token_events p (ts @ us) = (fst (token_events (fst (token_events p ts)) us),
     snd (token_events p ts) @ snd (token_events (fst (token_events p ts)) us))"
  by (induction p ts rule: token_events.induct) (auto split: prod.splits)

lemma token_events_keys: "token_events p (map Key ss) = emit_all p ss"
  by (induction p ss rule: emit_all.induct) (auto split: prod.splits)

section \<open>Occurrences of the markers\<close>

lemma lengths [simp]: "length paste_start = 6" "length paste_end = 6"
  by (simp_all add: paste_start_def paste_end_def)

lemma key_no_start:
  assumes "key_ok s" "prefix paste_start (drop j (s @ rest))"
  shows "length s \<le> j"
proof (rule ccontr)
  assume "\<not> length s \<le> j"
  then have j: "j < length s" by simp
  then have p: "prefix paste_start (drop j s @ rest)" using assms(2) by simp
  show False
  proof (cases "6 \<le> length s - j")
    case True
    then have "prefix paste_start (drop j s)" using prefix_long [OF p] by simp
    then show False using assms(1) j by (auto simp: key_ok_def index_of_None)
  next
    case False
    let ?k = "length s - j"
    have "drop j s = take ?k paste_start" using prefix_short [OF p] False by simp
    then have "suffix (take ?k paste_start) s" by (metis suffix_drop)
    moreover have "?k \<in> set [1..<length paste_start]" using False j by auto
    ultimately show False using assms(1) by (auto simp: key_ok_def list_all_iff)
  qed
qed

lemma keys_no_start:
  "list_all key_ok ss \<Longrightarrow> prefix paste_start (drop j (concat ss @ rest)) \<Longrightarrow> length (concat ss) \<le> j"
proof (induction ss arbitrary: j)
  case (Cons s ss)
  have k: "key_ok s" "list_all key_ok ss" using Cons.prems(1) by simp_all
  have p: "prefix paste_start (drop j (s @ (concat ss @ rest)))" using Cons.prems(2) by (simp only: concat.simps append_assoc)
  have l: "length s \<le> j" by (rule key_no_start [OF k(1) p])
  then have "drop j (s @ (concat ss @ rest)) = drop (j - length s) (concat ss @ rest)" by (simp add: drop_append)
  then have "length (concat ss) \<le> j - length s" using Cons.IH [OF k(2)] p by metis
  then show ?case using l by simp
qed simp

lemma start_at:
  "list_all key_ok ss \<Longrightarrow> index_of (concat ss @ paste_start @ rest) paste_start = Some (length (concat ss))"
proof (rule index_of_first)
  assume k: "list_all key_ok ss"
  show "\<forall>j < length (concat ss). \<not> prefix paste_start (drop j (concat ss @ paste_start @ rest))"
    using keys_no_start [OF k, of _ "paste_start @ rest"] by (meson not_le)
qed auto

lemma paste_split:
  assumes "paste_ok d"
  shows "split_paste (d @ paste_end @ rest) = Some (d, rest)"
proof -
  have "index_of (d @ paste_end @ rest) paste_end = Some (length d)"
  proof (rule index_of_first)
    show "\<forall>j < length d. \<not> prefix paste_end (drop j (d @ paste_end @ rest))"
    proof (intro allI impI notI)
      fix j assume j: "j < length d" "prefix paste_end (drop j (d @ paste_end @ rest))"
      then have "prefix paste_end (drop j (d @ paste_end) @ rest)" by simp
      moreover have "length paste_end \<le> length (drop j (d @ paste_end))" using j(1) by simp
      ultimately have "prefix paste_end (drop j (d @ paste_end))" by (rule prefix_long)
      then show False using assms j(1) by (auto simp: paste_ok_def index_of_iff)
    qed
  qed auto
  then show ?thesis by (simp add: split_paste_def)
qed

lemma paste_unfinished:
  assumes "paste_ok d" "strict_prefix q (d @ paste_end)"
  shows "split_paste q = None"
proof -
  have "\<not> prefix paste_end (drop j q)" if "j \<le> length q" for j
  proof
    assume p: "prefix paste_end (drop j q)"
    obtain r where r: "d @ paste_end = q @ r" "r \<noteq> []" using assms(2) by (auto simp: strict_prefix_def prefix_def)
    have l: "j + 6 \<le> length q" using prefix_length_le [OF p] that by simp
    have "length q < length d + 6" using arg_cong [OF r(1), of length] r(2) by simp
    then have "j < length d" using l by simp
    moreover have "prefix paste_end (drop j (d @ paste_end))" using p r(1) that by (simp add: prefix_prefix)
    ultimately show False using assms(1) by (auto simp: paste_ok_def index_of_iff)
  qed
  then show ?thesis by (auto simp: split_paste_def index_of_None)
qed

section \<open>Splitting keys\<close>

lemma complete_from_append: "complete_from s 1 = Some (length s) \<Longrightarrow> complete_from (s @ rest) 1 = Some (length s)"
proof (rule complete_from_exists)
  assume c: "complete_from s 1 = Some (length s)"
  note k = complete_from_Some [OF c]
  show "1 \<le> length s" "length s \<le> length (s @ rest)" using k by simp_all
  show "is_complete_sequence (take (length s) (s @ rest)) \<noteq> Incomplete" using k by simp
  show "\<forall>m. 1 \<le> m \<and> m < length s \<longrightarrow> is_complete_sequence (take m (s @ rest)) = Incomplete" using k by simp
qed

lemma extract_key:
  assumes "key_ok s"
  shows "extract_complete (s @ rest) = (case extract_complete rest of (ss, q) \<Rightarrow> (s # ss, q))"
proof (cases "hd s = esc")
  case True
  then have c: "complete_from s 1 = Some (length s)" "s \<noteq> [esc, esc]" using assms by (simp_all add: key_ok_def)
  obtain s' where s': "s = esc # s'" using True assms by (cases s) (auto simp: key_ok_def)
  have "sequence_length (s @ rest) = Some (length s)"
    using complete_from_append [OF c(1), of rest] c(2) by (simp add: sequence_length_def)
  then show ?thesis using extract_complete_simps(4) [of "s' @ rest" "length s"] s' by simp
next
  case False
  then obtain u where "s = [u]" "u \<noteq> esc" using assms by (cases s) (auto simp: key_ok_def)
  then show ?thesis by (simp add: extract_complete_simps)
qed

lemma extract_keys: "list_all key_ok ss \<Longrightarrow> extract_complete (concat ss @ rest) = (case extract_complete rest of (ts, q) \<Rightarrow> (ss @ ts, q))"
  by (induction ss) (auto simp: extract_key split: prod.splits)

lemma extract_incomplete: "p \<noteq> [] \<Longrightarrow> hd p = esc \<Longrightarrow> complete_from p 1 = None \<Longrightarrow> extract_complete p = ([], p)"
  by (cases p) (simp_all add: extract_complete_simps sequence_length_def)

lemma strict_prefix_split: "strict_prefix p s \<Longrightarrow> \<exists>r. s = p @ r \<and> r \<noteq> []"
  by (auto simp: strict_prefix_def prefix_def)

lemma complete_from_shorter:
  assumes "complete_from s 1 = Some (length s)" "strict_prefix p s"
  shows "complete_from p 1 = None"
proof (cases "complete_from p 1")
  case (Some n)
  note k = complete_from_Some [OF this]
  obtain r where r: "s = p @ r" "r \<noteq> []" using strict_prefix_split [OF assms(2)] by blast
  have "n < length s" using k prefix_length_less [OF assms(2)] by simp
  moreover have "take n s = take n p" using k r(1) by simp
  ultimately show ?thesis using k complete_from_Some [OF assms(1)] by auto
qed

lemma start_incomplete: "complete_from [0x1B, 0x5B, 0x32, 0x30, 0x30] 1 = None"
  by code_simp

lemma part_of_start:
  assumes "strict_prefix p paste_start" "p \<noteq> []"
  shows "hd p = esc \<and> complete_from p 1 = None"
proof -
  obtain r where r: "paste_start = p @ r" using strict_prefix_split [OF assms(1)] by blast
  have l: "length p \<le> 5" using prefix_length_less [OF assms(1)] by simp
  have "p = take (length p) paste_start" by (subst r) simp
  then have "p = take (length p) (take 5 paste_start)" using l by (simp add: min_absorb1)
  then have p: "p = take (length p) [0x1B, 0x5B, 0x32, 0x30, 0x30]" by (simp add: paste_start_def)
  have "complete_from p 1 = None"
  proof (cases "complete_from p 1")
    case (Some n)
    note k = complete_from_Some [OF this]
    have "take n p = take n (take (length p) [0x1B, 0x5B, 0x32, 0x30, 0x30])" using arg_cong [OF p, of "take n"] .
    then have "take n p = take n [0x1B, 0x5B, 0x32, 0x30, 0x30]" using k by (simp add: min_absorb1)
    moreover have "n \<le> length [0x1B, 0x5B, 0x32, 0x30, 0x30 :: 16 word]" using k l by simp
    ultimately show ?thesis using k complete_from_None [OF start_incomplete, of n] by simp
  qed
  moreover have "hd p = esc" using r(1) assms(2) by (cases p) (auto simp: paste_start_def esc_def)
  ultimately show ?thesis by simp
qed

text \<open>The beginning of a token that has not arrived completely.\<close>

definition partial :: "text16 \<Rightarrow> token list \<Rightarrow> bool" where
  "partial p ts \<longleftrightarrow> p = [] \<or> (\<exists>t us. ts = t # us \<and> token_ok t \<and> strict_prefix p (render t))"

definition holds :: "stdin_buffer \<Rightarrow> text16 \<Rightarrow> bool" where
  "holds sb p \<longleftrightarrow> (if paste_mode sb then sb_buffer sb = [] \<and> p = paste_start @ paste_buffer sb
     else paste_buffer sb = [] \<and> p = sb_buffer sb \<and> \<not> prefix paste_start p)"

lemma part_without_start:
  assumes "partial p ts" "\<not> prefix paste_start p"
  shows "extract_complete p = ([], p) \<and> (\<forall>j. \<not> prefix paste_start (drop j p))"
proof (cases "p = []")
  case True
  then show ?thesis by (auto simp: extract_complete_simps paste_start_def)
next
  case False
  then obtain t us where t: "ts = t # us" "token_ok t" "strict_prefix p (render t)" using assms(1) by (auto simp: partial_def)
  show ?thesis
  proof (cases t)
    case (Key s)
    then have k: "key_ok s" "strict_prefix p s" using t by simp_all
    obtain r where r: "s = p @ r" "r \<noteq> []" using strict_prefix_split [OF k(2)] by blast
    have "length s \<noteq> 1" using False prefix_length_less [OF k(2)] by (cases p) auto
    then have c: "hd s = esc" "complete_from s 1 = Some (length s)" using k(1) by (auto simp: key_ok_def split: if_splits)
    then have "hd p = esc" using r(1) False by simp
    moreover have "\<not> prefix paste_start (drop j p)" for j
    proof
      assume a: "prefix paste_start (drop j p)"
      then have "j \<le> length p" using prefix_length_le [OF a] by simp
      then have "prefix paste_start (drop j s)" "j \<le> length s" using a r(1) by (simp_all add: prefix_prefix)
      then show False using k(1) by (auto simp: key_ok_def index_of_None)
    qed
    ultimately show ?thesis using extract_incomplete [OF False] complete_from_shorter [OF c(2) k(2)] by simp
  next
    case (Pasted d)
    then have s: "strict_prefix p paste_start" using t assms(2)
      by (auto simp: strict_prefix_def prefix_append)
    have "\<not> prefix paste_start (drop j p)" for j
    proof
      assume "prefix paste_start (drop j p)"
      then show False using prefix_length_le prefix_length_less [OF s] by fastforce
    qed
    then show ?thesis using extract_incomplete [OF False] part_of_start [OF s False] by simp
  qed
qed


section \<open>Any chunking\<close>

lemma render_nonempty: "token_ok t \<Longrightarrow> render t \<noteq> []"
  by (cases t) (auto simp: key_ok_def paste_start_def)

lemma render_all_nil: "list_all token_ok ts \<Longrightarrow> render_all ts = [] \<longleftrightarrow> ts = []"
  by (cases ts) (auto simp: render_nonempty)

lemma partial_paste: "partial (paste_start @ q) ts \<Longrightarrow> \<exists>d. paste_ok d \<and> strict_prefix q (d @ paste_end)"
proof -
  assume "partial (paste_start @ q) ts"
  then obtain t where t: "token_ok t" "strict_prefix (paste_start @ q) (render t)"
    by (auto simp: partial_def paste_start_def)
  show ?thesis
  proof (cases t)
    case (Key s)
    obtain r where "s = paste_start @ q @ r" using strict_prefix_split [OF t(2)] Key by auto
    then show ?thesis using key_no_start [of s 0 "[]"] t(1) Key by simp
  next
    case (Pasted d)
    then show ?thesis using t by (auto simp: strict_prefix_def)
  qed
qed

lemma take_keys: "\<exists>ks us. ts = map Key ks @ us \<and> (us = [] \<or> (\<exists>d vs. us = Pasted d # vs))"
proof (induction ts)
  case (Cons t ts)
  then obtain ks us where k: "ts = map Key ks @ us" "us = [] \<or> (\<exists>d vs. us = Pasted d # vs)" by blast
  show ?case
  proof (cases t)
    case (Key s)
    then have "t # ts = map Key (s # ks) @ us" using k(1) by simp
    then show ?thesis using k(2) by blast
  next
    case (Pasted d)
    then have "t # ts = map Key [] @ Pasted d # ts" by simp
    then show ?thesis by blast
  qed
qed simp

text \<open>The buffer after a chunk; the code point of the last key is kept outside a paste.\<close>

definition follows :: "stdin_buffer \<Rightarrow> text16 \<Rightarrow> nat option \<Rightarrow> bool" where
  "follows sb p pending \<longleftrightarrow> holds sb p \<and> (paste_mode sb \<or> pending_codepoint sb = pending)"

lemma follows_after [simp]: "follows (after_paste sb) [] None"
  by (simp add: follows_def holds_def after_paste_def paste_start_def)

lemma after_paste_fields [simp]:
  "\<not> paste_mode (after_paste sb)" "sb_buffer (after_paste sb) = []" "paste_buffer (after_paste sb) = []"
  "pending_codepoint (after_paste sb) = None"
  by (simp_all add: after_paste_def)

lemma keys_ok: "list_all token_ok (map Key ks) = list_all key_ok ks"
  by (induction ks) simp_all

lemma render_keys: "render_all (map Key ks) = concat ks"
  by (induction ks) simp_all

lemma process_keys:
  assumes "\<not> paste_mode sb" "paste_buffer sb = []" "sb_buffer sb @ str \<noteq> []"
    "list_all key_ok ks" "partial p ts" "sb_buffer sb @ str = concat ks @ p"
  shows "\<exists>sb'. process sb str = (sb', snd (emit_all (pending_codepoint sb) ks)) \<and>
    follows sb' p (fst (emit_all (pending_codepoint sb) ks))"
proof (cases "prefix paste_start p")
  case True
  then obtain q where q: "p = paste_start @ q" by (auto simp: prefix_def)
  obtain d where d: "paste_ok d" "strict_prefix q (d @ paste_end)" using partial_paste assms(5) q by blast
  have i: "index_of (sb_buffer sb @ str) paste_start = Some (length (concat ks))" using start_at assms(4,6) q by simp
  have e: "extract_complete (concat ks) = (ks, [])"
    using extract_keys [OF assms(4), of "[]"] by (simp add: extract_complete_simps)
  have "process sb str = (in_paste sb q, snd (emit_all (pending_codepoint sb) ks))"
    using e paste_unfinished [OF d] q assms(6)
    using process_start [OF assms(1,3) i] by simp
  then show ?thesis using q by (simp add: follows_def holds_def in_paste_def)
next
  case False
  note w = part_without_start [OF assms(5) False]
  have "\<not> prefix paste_start (drop j (sb_buffer sb @ str))" for j
  proof
    assume a: "prefix paste_start (drop j (sb_buffer sb @ str))"
    have "length (concat ks) \<le> j" by (rule keys_no_start [OF assms(4) a [unfolded assms(6)]])
    then have "drop j (concat ks @ p) = drop (j - length (concat ks)) p" by (simp add: drop_append)
    then have "drop j (sb_buffer sb @ str) = drop (j - length (concat ks)) p" by (simp only: assms(6))
    then show False using w a by simp
  qed
  then have i: "index_of (sb_buffer sb @ str) paste_start = None" by (simp add: index_of_None)
  have e: "extract_complete (sb_buffer sb @ str) = (ks, p)"
    using extract_keys [OF assms(4), of p] w assms(6) by simp
  show ?thesis using process_no_start [OF assms(1,3) i e] False assms(1,2) by (simp add: follows_def holds_def)
qed

lemma process_plain:
  assumes "\<not> paste_mode sb" "paste_buffer sb = []" "sb_buffer sb @ str \<noteq> []"
    "list_all token_ok toks" "partial p ts" "sb_buffer sb @ str = render_all toks @ p"
  shows "\<exists>sb'. process sb str = (sb', snd (token_events (pending_codepoint sb) toks)) \<and>
    follows sb' p (fst (token_events (pending_codepoint sb) toks))"
  using assms
proof (induction toks arbitrary: sb str rule: length_induct)
  case (1 toks)
  obtain ks us where k: "toks = map Key ks @ us" "us = [] \<or> (\<exists>d vs. us = Pasted d # vs)" using take_keys by blast
  then have ks: "list_all key_ok ks" using "1.prems"(4) by (simp add: keys_ok)
  show ?case
  proof (cases "us = []")
    case True
    then show ?thesis using process_keys [OF "1.prems"(1,2,3) ks "1.prems"(5)] "1.prems"(6) k(1)
      by (simp add: render_keys token_events_keys del: map_map)
  next
    case False
    then obtain d vs where u: "us = Pasted d # vs" using k(2) by blast
    have d: "paste_ok d" "list_all token_ok vs" using "1.prems"(4) k(1) u by simp_all
    define rest where "rest = render_all vs @ p"
    have b: "sb_buffer sb @ str = concat ks @ paste_start @ d @ paste_end @ rest"
      using "1.prems"(6) k(1) u by (simp add: render_keys rest_def del: map_map)
    have i: "index_of (sb_buffer sb @ str) paste_start = Some (length (concat ks))" using start_at ks b by simp
    have e: "extract_complete (concat ks) = (ks, [])"
      using extract_keys [OF ks, of "[]"] by (simp add: extract_complete_simps)
    have sp: "split_paste (d @ paste_end @ rest) = Some (d, rest)" using paste_split [OF d(1)] .
    have ev: "token_events (pending_codepoint sb) toks = (fst (token_events None vs),
        snd (emit_all (pending_codepoint sb) ks) @ Paste d # snd (token_events None vs))"
      using k(1) u by (simp add: token_events_append token_events_keys split: prod.splits)
    show ?thesis
    proof (cases "rest = []")
      case True
      then have n: "p = []" "vs = []" using render_all_nil [OF d(2)] by (auto simp: rest_def)
      have "process sb str = (after_paste sb, snd (emit_all (pending_codepoint sb) ks) @ [Paste d])"
        using process_start [OF "1.prems"(1,3) i] e sp True b by (simp add: process_rest_def)
      then show ?thesis using ev n by simp
    next
      case False
      have "length vs < length toks" using k(1) u by simp
      then obtain sb' where s: "process (after_paste sb) rest = (sb', snd (token_events None vs))"
          "follows sb' p (fst (token_events None vs))"
        using "1.IH" d(2) "1.prems"(5) False rest_def
        by (metis (no_types, lifting) after_paste_fields append_Nil)
      have "process sb str = (sb', snd (emit_all (pending_codepoint sb) ks) @ Paste d # snd (token_events None vs))"
        using process_start [OF "1.prems"(1,3) i] e sp False b s(1) by (simp add: process_rest_def)
      then show ?thesis using ev s(2) by simp
    qed
  qed
qed


lemma process_pasting:
  assumes "paste_mode sb" "sb_buffer sb = []" "str \<noteq> []"
    "list_all token_ok toks" "partial p ts" "paste_start @ paste_buffer sb @ str = render_all toks @ p"
  shows "\<exists>sb'. process sb str = (sb', snd (token_events pending toks)) \<and>
    follows sb' p (fst (token_events pending toks))"
proof (cases toks)
  case Nil
  then have p: "p = paste_start @ (paste_buffer sb @ str)" using assms(6) by simp
  then obtain d where d: "paste_ok d" "strict_prefix (paste_buffer sb @ str) (d @ paste_end)"
    using partial_paste assms(5) by blast
  then show ?thesis using process_paste_mode [OF assms(1), of str] paste_unfinished [OF d] assms(1,2,3) Nil p
    by (simp add: follows_def holds_def)
next
  case (Cons t us)
  have "\<exists>d. t = Pasted d"
  proof (cases t)
    case (Key s)
    then have "prefix paste_start (drop 0 (s @ render_all us @ p))" using assms(6) Cons by (metis append.assoc concat.simps(2) drop0 list.simps(9) prefixI render.simps(1))
    then show ?thesis using key_no_start [of s 0] assms(4) Cons Key by (auto simp: key_ok_def)
  qed simp
  then obtain d where t: "t = Pasted d" by blast
  have d: "paste_ok d" "list_all token_ok us" using assms(4) Cons t by simp_all
  define rest where "rest = render_all us @ p"
  have b: "paste_buffer sb @ str = d @ paste_end @ rest" using assms(6) Cons t by (simp add: rest_def)
  have sp: "split_paste (paste_buffer sb @ sb_buffer sb @ str) = Some (d, rest)" using paste_split [OF d(1)] b assms(2) by simp
  have ev: "token_events pending toks = (fst (token_events None us), Paste d # snd (token_events None us))"
    using Cons t by (simp split: prod.splits)
  show ?thesis
  proof (cases "rest = []")
    case True
    then have n: "p = []" "us = []" using render_all_nil [OF d(2)] by (auto simp: rest_def)
    have "process sb str = (after_paste sb, [Paste d])"
      using process_paste_mode [OF assms(1), of str] sp True assms(3) by (simp add: process_rest_def)
    then show ?thesis using ev n by simp
  next
    case False
    obtain sb' where s: "process (after_paste sb) rest = (sb', snd (token_events None us))"
        "follows sb' p (fst (token_events None us))"
      using process_plain [of "after_paste sb" rest us p ts] d(2) assms(5) False by (auto simp: rest_def)
    have "process sb str = (sb', Paste d # snd (token_events None us))"
      using process_paste_mode [OF assms(1), of str] sp False assms(3) s(1) by (simp add: process_rest_def)
    then show ?thesis using ev s(2) by simp
  qed
qed

lemma process_tokens:
  assumes "follows sb q pending" "str \<noteq> []" "list_all token_ok toks" "partial p ts" "q @ str = render_all toks @ p"
  shows "\<exists>sb'. process sb str = (sb', snd (token_events pending toks)) \<and> follows sb' p (fst (token_events pending toks))"
proof (cases "paste_mode sb")
  case True
  then have h: "sb_buffer sb = []" "q = paste_start @ paste_buffer sb" using assms(1) by (simp_all add: follows_def holds_def)
  show ?thesis by (rule process_pasting [OF True h(1) assms(2,3,4)]) (use h(2) assms(5) in simp)
next
  case False
  then have h: "paste_buffer sb = []" "q = sb_buffer sb" "pending_codepoint sb = pending"
    using assms(1) by (simp_all add: follows_def holds_def)
  have n: "sb_buffer sb @ str \<noteq> []" using assms(2) by simp
  have b: "sb_buffer sb @ str = render_all toks @ p" using assms(5) h(2) by (simp only:)
  show ?thesis using process_plain [OF False h(1) n assms(3,4) b] h(3) by simp
qed

text \<open>A prefix of a stream is some whole tokens and the beginning of the next one.\<close>

lemma stream_prefix:
  "list_all token_ok toks \<Longrightarrow> render_all toks = x @ y \<Longrightarrow>
    \<exists>ts us p. toks = ts @ us \<and> x = render_all ts @ p \<and> render_all us = p @ y \<and> partial p us"
proof (induction toks arbitrary: x)
  case Nil
  then show ?case by (intro exI [of _ "[]"]) (simp add: partial_def)
next
  case (Cons t toks)
  show ?case
  proof (cases "strict_prefix x (render t)")
    case True
    then have "partial x (t # toks)" using Cons.prems(1) by (auto simp: partial_def)
    then show ?thesis using Cons.prems(2) by (intro exI [of _ "[]"] exI [of _ "t # toks"] exI [of _ x]) simp
  next
    case False
    have "prefix x (render t @ render_all toks)" using Cons.prems(2) by (auto simp: prefix_def)
    then obtain z where z: "x = render t @ z" using False
      by (metis append.right_neutral prefix_append prefix_order.le_imp_less_or_eq)
    then have "render_all toks = z @ y" using Cons.prems(2) by simp
    then obtain ts us p where "toks = ts @ us" "z = render_all ts @ p" "render_all us = p @ y" "partial p us"
      using Cons.IH [of z] Cons.prems(1) by auto
    then show ?thesis using z by (intro exI [of _ "t # ts"] exI [of _ us] exI [of _ p]) simp
  qed
qed

lemma stream_recovered:
  "follows sb q pending \<Longrightarrow> partial q toks \<Longrightarrow> list_all token_ok toks \<Longrightarrow> [] \<notin> set chunks \<Longrightarrow>
    q @ concat chunks = render_all toks \<Longrightarrow>
    \<exists>sb'. process_all sb chunks = (sb', snd (token_events pending toks)) \<and> follows sb' [] (fst (token_events pending toks))"
proof (induction chunks arbitrary: sb q pending toks)
  case Nil
  then have q: "q = render_all toks" by simp
  have "q = []"
  proof (rule ccontr)
    assume "q \<noteq> []"
    then obtain t us where t: "toks = t # us" "strict_prefix q (render t)" using Nil.prems(2) by (auto simp: partial_def)
    then show False using prefix_length_less [OF t(2)] q by simp
  qed
  then show ?case using Nil.prems(1,3) q render_all_nil by simp
next
  case (Cons c chunks)
  have "render_all toks = (q @ c) @ concat chunks" using Cons.prems(5) by simp
  then obtain ts us p where t: "toks = ts @ us" "q @ c = render_all ts @ p" "render_all us = p @ concat chunks" "partial p us"
    using stream_prefix [OF Cons.prems(3)] by blast
  obtain sb1 where s1: "process sb c = (sb1, snd (token_events pending ts))" "follows sb1 p (fst (token_events pending ts))"
    using process_tokens [OF Cons.prems(1) _ _ t(4,2)] Cons.prems(3,4) t(1) by auto
  obtain sb2 where "process_all sb1 chunks = (sb2, snd (token_events (fst (token_events pending ts)) us))"
      "follows sb2 [] (fst (token_events (fst (token_events pending ts)) us))"
    using Cons.IH [OF s1(2) t(4) _ _ t(3) [symmetric]] Cons.prems(3,4) t(1) by auto
  then show ?case using s1 t(1) by (simp add: token_events_append)
qed


section \<open>What a stream means\<close>

text \<open>
  The report of a printable character by the Kitty keyboard protocol: its code point, and optionally the shifted one
  and the one of the base layout.
\<close>

definition reports :: "text16 \<Rightarrow> nat \<Rightarrow> bool" where
  "reports s n \<longleftrightarrow> (\<exists>ds e1 e2. s = [esc, 0x5B] @ ds @ e1 @ e2 @ [0x75] \<and> ds \<noteq> [] \<and> list_all unit_digit ds \<and>
     n = digits_value ds \<and> 32 \<le> n \<and> (e1 = [] \<or> (\<exists>ms. e1 = 0x3A # ms \<and> list_all unit_digit ms)) \<and>
     (e2 = [] \<or> (\<exists>ms. e2 = 0x3A # ms \<and> ms \<noteq> [] \<and> list_all unit_digit ms)))"

lemma unit_digit_simps [simp]: "\<not> unit_digit 0x3A" "\<not> unit_digit 0x75"
  by (simp_all add: unit_digit_def)

lemma digits_split:
  assumes "list_all unit_digit ds" "r = [] \<or> \<not> unit_digit (hd r)"
  shows "takeWhile unit_digit (ds @ r) = ds" "dropWhile unit_digit (ds @ r) = r"
  using assms by (induction ds) (cases r; simp)+

lemma match_digits_iff:
  "match_digits s = Some r \<longleftrightarrow> (\<exists>ds. s = ds @ r \<and> ds \<noteq> [] \<and> list_all unit_digit ds \<and> (r = [] \<or> \<not> unit_digit (hd r)))"
proof
  assume "match_digits s = Some r"
  then have m: "takeWhile unit_digit s \<noteq> []" "r = dropWhile unit_digit s" by (simp_all add: match_digits_def split: if_splits)
  then have "r = [] \<or> \<not> unit_digit (hd r)" using hd_dropWhile [of unit_digit s] by auto
  moreover have "list_all unit_digit (takeWhile unit_digit s)" by (auto simp: list_all_iff dest: set_takeWhileD)
  ultimately show "\<exists>ds. s = ds @ r \<and> ds \<noteq> [] \<and> list_all unit_digit ds \<and> (r = [] \<or> \<not> unit_digit (hd r))"
    using m by (metis takeWhile_dropWhile_id)
next
  assume "\<exists>ds. s = ds @ r \<and> ds \<noteq> [] \<and> list_all unit_digit ds \<and> (r = [] \<or> \<not> unit_digit (hd r))"
  then show "match_digits s = Some r" using digits_split by (force simp: match_digits_def)
qed

lemma match_unit_iff: "match_unit u s = Some r \<longleftrightarrow> s = u # r"
  by (cases s) (simp_all add: match_unit_def)

lemma kitty_suffix_iff:
  "kitty_suffix s \<longleftrightarrow> (\<exists>e1 e2. s = e1 @ e2 @ [0x75] \<and> (e1 = [] \<or> (\<exists>ms. e1 = 0x3A # ms \<and> list_all unit_digit ms)) \<and>
     (e2 = [] \<or> (\<exists>ms. e2 = 0x3A # ms \<and> ms \<noteq> [] \<and> list_all unit_digit ms)))" (is "_ \<longleftrightarrow> ?r s")
proof
  assume k: "kitty_suffix s"
  define s1 where "s1 = (case match_unit 0x3A s of None \<Rightarrow> s | Some r \<Rightarrow> dropWhile unit_digit r)"
  have first: "\<exists>e1. s = e1 @ s1 \<and> (e1 = [] \<or> (\<exists>ms. e1 = 0x3A # ms \<and> list_all unit_digit ms))"
  proof (cases "match_unit 0x3A s")
    case (Some r)
    then have "s = (0x3A # takeWhile unit_digit r) @ s1" by (auto simp: s1_def match_unit_def split: list.splits if_splits)
    moreover have "list_all unit_digit (takeWhile unit_digit r)" by (auto simp: list_all_iff dest: set_takeWhileD)
    ultimately show ?thesis by blast
  qed (simp add: s1_def)
  have "\<exists>e2. s1 = e2 @ [0x75] \<and> (e2 = [] \<or> (\<exists>ms. e2 = 0x3A # ms \<and> ms \<noteq> [] \<and> list_all unit_digit ms))"
  proof (cases "Option.bind (match_unit 0x3A s1) match_digits")
    case None
    then show ?thesis using k unfolding kitty_suffix_def s1_def [symmetric] by (simp add: Let_def)
  next
    case (Some r)
    then have "r = [0x75]" using k unfolding kitty_suffix_def s1_def [symmetric] by (simp add: Let_def)
    moreover obtain ds where "s1 = 0x3A # ds @ r" "ds \<noteq> []" "list_all unit_digit ds"
      using Some by (auto simp: match_digits_iff match_unit_iff bind_eq_Some_conv)
    ultimately show ?thesis by (intro exI [of _ "0x3A # ds"]) simp
  qed
  then show "?r s" using first by (metis append_assoc)
next
  assume "?r s"
  then obtain e1 e2 where e: "s = e1 @ e2 @ [0x75]" "e1 = [] \<or> (\<exists>ms. e1 = 0x3A # ms \<and> list_all unit_digit ms)"
    "e2 = [] \<or> (\<exists>ms. e2 = 0x3A # ms \<and> ms \<noteq> [] \<and> list_all unit_digit ms)" by blast
  have two: "match_digits (ms @ [0x75]) = Some [0x75]" if "ms \<noteq> []" "list_all unit_digit ms" for ms
    using that by (auto simp: match_digits_iff)
  have tail: "dropWhile unit_digit (ms @ 0x75 # r) = 0x75 # r" "dropWhile unit_digit (ms @ 0x3A # r) = 0x3A # r"
    if "list_all unit_digit ms" for ms r
    using digits_split(2) [OF that, of "0x75 # r"] digits_split(2) [OF that, of "0x3A # r"] by simp_all
  show "kitty_suffix s"
    using e two by (auto simp: kitty_suffix_def match_unit_def tail Let_def)
qed

lemma reports_iff [code]: "reports s n \<longleftrightarrow> parse_kitty_printable s = Some n"
proof
  assume "reports s n"
  then obtain ds e1 e2 where r: "s = [esc, 0x5B] @ ds @ e1 @ e2 @ [0x75]" "ds \<noteq> []" "list_all unit_digit ds" "n = digits_value ds" "32 \<le> n"
    and e: "e1 = [] \<or> (\<exists>ms. e1 = 0x3A # ms \<and> list_all unit_digit ms)"
      "e2 = [] \<or> (\<exists>ms. e2 = 0x3A # ms \<and> ms \<noteq> [] \<and> list_all unit_digit ms)"
    unfolding reports_def by blast
  let ?rest = "e1 @ e2 @ [0x75]"
  have h: "\<not> unit_digit (hd ?rest)" using e by auto
  have d: "match_digits (ds @ ?rest) = Some ?rest" using r(2,3) h unfolding match_digits_iff by blast
  have t: "takeWhile unit_digit (ds @ ?rest) = ds" using digits_split(1) [OF r(3), of ?rest] h by simp
  have k: "kitty_suffix ?rest" unfolding kitty_suffix_iff using e by blast
  show "parse_kitty_printable s = Some n"
    unfolding parse_kitty_printable_def r(1) using d t k r(4,5) by (simp add: match_unit_def Let_def del: takeWhile_append)
next
  assume p: "parse_kitty_printable s = Some n"
  then obtain r rest where m: "s = esc # 0x5B # r" "match_digits r = Some rest" "kitty_suffix rest"
    "n = digits_value (takeWhile unit_digit r)" "32 \<le> n"
    by (auto simp: parse_kitty_printable_def match_unit_iff bind_eq_Some_conv Let_def split: option.splits if_splits)
  obtain ds where ds: "r = ds @ rest" "ds \<noteq> []" "list_all unit_digit ds" "rest = [] \<or> \<not> unit_digit (hd rest)"
    using m(2) unfolding match_digits_iff by blast
  then have n: "n = digits_value ds" using m(4) digits_split(1) by metis
  obtain e1 e2 where e: "rest = e1 @ e2 @ [0x75]" "e1 = [] \<or> (\<exists>ms. e1 = 0x3A # ms \<and> list_all unit_digit ms)"
    "e2 = [] \<or> (\<exists>ms. e2 = 0x3A # ms \<and> ms \<noteq> [] \<and> list_all unit_digit ms)"
    using m(3) unfolding kitty_suffix_iff by blast
  show "reports s n" unfolding reports_def
    by (rule exI [of _ ds], rule exI [of _ e1], rule exI [of _ e2]) (use e n m(1,5) ds(1-3) in simp)
qed

text \<open>
  Terminals may send a character itself right after its report: the one token that is not emitted. Every other key
  and paste is one event.
\<close>

fun token_event :: "token \<Rightarrow> stdin_event" where
  "token_event (Key s) = Data s"
| "token_event (Pasted d) = Paste d"

definition echo :: "token option \<Rightarrow> token \<Rightarrow> bool" where
  "echo before t = (case (before, t) of (Some (Key s), Key [u]) \<Rightarrow> reports s (unat u) | _ \<Rightarrow> False)"

definition stream_events :: "token option \<Rightarrow> token list \<Rightarrow> stdin_event list" where
  "stream_events before toks =
     concat (map2 (\<lambda>b t. if echo b t then [] else [token_event t]) (before # map Some toks) toks)"

lemma stream_events_simps [simp]:
  "stream_events before [] = []"
  "stream_events before (t # ts) = (if echo before t then [] else [token_event t]) @ stream_events (Some t) ts"
  by (simp_all add: stream_events_def)

lemma single_no_report: "parse_kitty_printable [u] = None"
  by (simp add: parse_kitty_printable_def match_unit_def)

lemma token_events_stream:
  "pending = (case before of Some (Key s) \<Rightarrow> parse_kitty_printable s | _ \<Rightarrow> None) \<Longrightarrow>
    snd (token_events pending toks) = stream_events before toks"
proof (induction toks arbitrary: pending before)
  case (Cons t ts)
  show ?case
  proof (cases t)
    case (Key s)
    have e: "echo before t \<longleftrightarrow> length s = 1 \<and> pending = Some (unat (hd s))"
      using Key Cons.prems
      by (cases s rule: list.exhaust [case_product list.exhaust])
        (auto simp: echo_def reports_iff split: option.splits token.splits list.splits)
    have p: "fst (emit_data pending s) = parse_kitty_printable s"
      by (cases s) (auto simp: emit_data_def single_no_report)
    have "snd (token_events (fst (emit_data pending s)) ts) = stream_events (Some t) ts"
      by (rule Cons.IH) (simp add: Key p)
    then show ?thesis using e Key by (auto simp: emit_data_def split: prod.splits)
  next
    case (Pasted d)
    have "snd (token_events None ts) = stream_events (Some t) ts" by (rule Cons.IH) (simp add: Pasted)
    then show ?thesis using Pasted by (auto simp: echo_def split: option.splits token.splits prod.splits)
  qed
qed simp

text \<open>C21. The chunks of a stream of keys and bracketed pastes may be cut anywhere, in the middle of an escape sequence
  or of a paste marker: a fresh buffer emits one event per key and per paste, in order, with the contents unchanged,
  except for a character that comes right after the Kitty report of its own code point, which is not emitted; and it
  ends up empty and outside of a paste.\<close>

theorem stdin_tokens_recovered:
  assumes "list_all token_ok toks" "[] \<notin> set chunks" "concat chunks = render_all toks"
  shows "\<exists>sb. process_all (new_stdin_buffer t e) chunks = (sb, stream_events None toks) \<and>
    sb_buffer sb = [] \<and> paste_buffer sb = [] \<and> \<not> paste_mode sb"
proof -
  have f: "follows (new_stdin_buffer t e) [] None"
    by (simp add: follows_def holds_def new_stdin_buffer_def paste_start_def)
  have p: "partial [] toks" by (simp add: partial_def)
  obtain sb where s: "process_all (new_stdin_buffer t e) chunks = (sb, snd (token_events None toks))"
      "follows sb [] (fst (token_events None toks))"
    using stream_recovered [OF f p assms(1,2)] assms(3) by auto
  then have "\<not> paste_mode sb \<and> sb_buffer sb = [] \<and> paste_buffer sb = []"
    by (auto simp: follows_def holds_def paste_start_def split: if_splits)
  then show ?thesis using s(1) token_events_stream [of None None toks] by auto
qed

text \<open>
  Up, a character, a paste, an Alt key, and the report of a letter followed by the letter; the chunks cut the arrow,
  the start marker, the end marker and the report.
\<close>

definition sample_tokens :: "token list" where
  "sample_tokens = [Key [esc, 0x5B, 0x41], Key [0x71], Pasted [0x61, 0x0A], Key [esc, 0x78],
     Key [esc, 0x5B, 0x39, 0x37, 0x75], Key [0x61]]"

definition sample_chunks :: "text16 list" where
  "sample_chunks = [[esc], [0x5B], [0x41, 0x71, esc, 0x5B, 0x32], [0x30, 0x30, 0x7E, 0x61], [0x0A, esc, 0x5B],
     [0x32, 0x30, 0x31, 0x7E, esc], [0x78, esc, 0x5B, 0x39], [0x37, 0x75], [0x61]]"

lemma sample_ok: "list_all token_ok sample_tokens" "[] \<notin> set sample_chunks" "concat sample_chunks = render_all sample_tokens"
  by code_simp+

lemma stdin_tokens_recovered_witness:
  "\<exists>sb. process_all (new_stdin_buffer None None) sample_chunks =
     (sb, [Data [esc, 0x5B, 0x41], Data [0x71], Paste [0x61, 0x0A], Data [esc, 0x78], Data [esc, 0x5B, 0x39, 0x37, 0x75]]) \<and>
   sb_buffer sb = [] \<and> paste_buffer sb = [] \<and> \<not> paste_mode sb"
proof -
  have "stream_events None sample_tokens = [Data [esc, 0x5B, 0x41], Data [0x71], Paste [0x61, 0x0A], Data [esc, 0x78],
      Data [esc, 0x5B, 0x39, 0x37, 0x75]]"
    by code_simp
  then show ?thesis using stdin_tokens_recovered [OF sample_ok, of None None] by simp
qed

section \<open>Where input is lost\<close>

lemma start_after:
  assumes "index_of b paste_start = None"
  shows "index_of (b @ paste_start @ r) paste_start = Some (length b)"
proof (rule index_of_first)
  show "\<forall>j < length b. \<not> prefix paste_start (drop j (b @ paste_start @ r))"
  proof (intro allI impI notI)
    fix j assume j: "j < length b" "prefix paste_start (drop j (b @ paste_start @ r))"
    then have p: "prefix paste_start (drop j b @ paste_start @ r)" by simp
    show False
    proof (cases "6 \<le> length b - j")
      case True
      then have "prefix paste_start (drop j b)" using prefix_long [OF p] by simp
      then show False using assms j(1) by (auto simp: index_of_None)
    next
      case False
      then have k: "length b - j \<in> {1, 2, 3, 4, 5}" using j(1) by auto
      obtain z where z: "drop j b @ paste_start @ r = paste_start @ z" using p by (auto simp: prefix_def)
      have "(drop j b @ paste_start @ r) ! (length b - j) = paste_start ! 0" by (simp add: nth_append)
      then have "paste_start ! (length b - j) = paste_start ! 0" using z False by (simp add: nth_append)
      then show False using k by (auto simp: paste_start_def)
    qed
  qed
qed auto

text \<open>C22. What waits in the buffer as an incomplete sequence when a paste arrives, the Escape key for instance, is
  never emitted: the events are those of the paste alone, and the buffer is empty afterwards.\<close>

theorem pending_lost_before_paste:
  assumes "\<not> paste_mode sb" "hd (sb_buffer sb) = esc" "sb_buffer sb \<noteq> []" "complete_from (sb_buffer sb) 1 = None"
    "index_of (sb_buffer sb) paste_start = None" "paste_ok d"
  shows "process sb (paste_start @ d @ paste_end) = (after_paste sb, [Paste d])"
proof -
  have e: "extract_complete (sb_buffer sb) = ([], sb_buffer sb)" using extract_incomplete assms(2,3,4) by simp
  have n: "sb_buffer sb @ (paste_start @ d @ paste_end) \<noteq> []" by (simp add: paste_start_def)
  have i: "index_of (sb_buffer sb @ paste_start @ d @ paste_end) paste_start = Some (length (sb_buffer sb))"
    using start_after [OF assms(5)] .
  have "split_paste (d @ paste_end) = Some (d, [])" using paste_split [OF assms(6), of "[]"] by simp
  then show ?thesis using process_start [OF assms(1) n i] e by (simp add: process_rest_def)
qed

lemma pending_lost_before_paste_witness:
  "process (fst (process (new_stdin_buffer None None) [esc])) (paste_start @ [0x61] @ paste_end) =
     (after_paste (fst (process (new_stdin_buffer None None) [esc])), [Paste [0x61]]) \<and>
   sb_buffer (fst (process (new_stdin_buffer None None) [esc])) = [esc]"
proof -
  let ?sb = "fst (process (new_stdin_buffer None None) [esc])"
  have i: "index_of [esc] paste_start = None" "extract_complete [esc] = ([], [esc])" "complete_from [esc] 1 = None"
    "paste_ok [0x61]" by code_simp+
  have s: "sb_buffer ?sb = [esc]" "\<not> paste_mode ?sb"
    using process_no_start [of "new_stdin_buffer None None" "[esc]"] i by (simp_all add: new_stdin_buffer_def)
  show ?thesis using pending_lost_before_paste [of ?sb "[0x61]"] s i by simp
qed

end
