(* ===== verification/EditDiff.thy ===== *)
theory EditDiff
  imports Truncate TextSearch
begin

text \<open>
  The text replacement behind the edit tool, \<open>packages/agent/src/harness/tools/edit-diff.ts\<close>: line endings, exact and
  fuzzy matching, and the two ways of applying edits. The Unicode normalization \<open>text.normalize("NFKC")\<close> is the
  argument \<open>nfkc\<close>.
\<close>

section \<open>Line endings\<close>

datatype line_ending = CRLF | LF

definition cr :: "16 word" where
  "cr = 0x0D"

definition detect_line_ending :: "text16 \<Rightarrow> line_ending" where
  "detect_line_ending content = (let crlf_idx = index_of content [cr, newline]; lf_idx = index_of content [newline] in
     case lf_idx of None \<Rightarrow> LF | Some l \<Rightarrow> (case crlf_idx of None \<Rightarrow> LF | Some c \<Rightarrow> if c < l then CRLF else LF))"

fun replace_crlf :: "text16 \<Rightarrow> text16" where
  "replace_crlf [] = []"
| "replace_crlf [u] = [u]"
| "replace_crlf (u # v # s) = (if u = cr \<and> v = newline then newline # replace_crlf s else u # replace_crlf (v # s))"

definition normalize_to_lf :: "text16 \<Rightarrow> text16" where
  "normalize_to_lf s = map (\<lambda>u. if u = cr then newline else u) (replace_crlf s)"

definition restore_line_endings :: "text16 \<Rightarrow> line_ending \<Rightarrow> text16" where
  "restore_line_endings s ending = (if ending = CRLF then concat (map (\<lambda>u. if u = newline then [cr, newline] else [u]) s) else s)"

definition bom :: "16 word" where
  "bom = 0xFEFF"

definition strip_bom :: "text16 \<Rightarrow> text16 \<times> text16" where
  "strip_bom content = (if prefix [bom] content then ([bom], drop 1 content) else ([], content))"

section \<open>Fuzzy text\<close>

text \<open>The four replacements, whose classes are disjoint from each other's results.\<close>

definition fold_unit :: "16 word \<Rightarrow> 16 word" where
  "fold_unit u = (if 0x2018 \<le> u \<and> u \<le> 0x201B then 0x27
     else if 0x201C \<le> u \<and> u \<le> 0x201F then 0x22
     else if (0x2010 \<le> u \<and> u \<le> 0x2015) \<or> u = 0x2212 then 0x2D
     else if u = 0xA0 \<or> (0x2002 \<le> u \<and> u \<le> 0x200A) \<or> u = 0x202F \<or> u = 0x205F \<or> u = 0x3000 then 0x20
     else u)"

definition normalize_for_fuzzy_match :: "(text16 \<Rightarrow> text16) \<Rightarrow> text16 \<Rightarrow> text16" where
  "normalize_for_fuzzy_match nfkc s = map fold_unit (join_on newline (map trim_end (split_on newline (nfkc s))))"

text \<open>\<open>content.match(/[^\n]*\n|[^\n]+/g) ?? []\<close>.\<close>

fun split_lines_with_endings :: "text16 \<Rightarrow> text16 list" where
  "split_lines_with_endings [] = []"
| "split_lines_with_endings (u # s) = (if u = newline then [u] # split_lines_with_endings s
     else (case split_lines_with_endings s of [] \<Rightarrow> [[u]] | l # ls \<Rightarrow> (u # l) # ls))"

section \<open>Replacements\<close>

record line_span =
  span_start :: nat
  span_end :: nat

record matched_edit =
  edit_index :: nat
  match_index :: nat
  match_length :: nat
  new_text :: text16

text \<open>The errors; edits are numbered, with their number in all, and the texts name the path.\<close>

datatype edit_error = EmptyOldText nat nat | NotFound nat nat | Duplicate nat nat int | Overlap nat nat | NoChange nat
  | OutsideBase | DifferentLineCount | NoEdits

definition edit_label :: "nat \<Rightarrow> string" where
  "edit_label i = ''edits['' @ show_nat i @ '']''"

fun edit_error_text :: "string \<Rightarrow> edit_error \<Rightarrow> string" where
  "edit_error_text path (EmptyOldText i n) = (if n = 1 then ''oldText must not be empty in '' @ path @ ''.''
     else edit_label i @ ''.oldText must not be empty in '' @ path @ ''.'')"
| "edit_error_text path (NotFound i n) = (if n = 1
     then ''Could not find the exact text in '' @ path @ ''. The old text must match exactly including all whitespace and newlines.''
     else ''Could not find '' @ edit_label i @ '' in '' @ path @ ''. The oldText must match exactly including all whitespace and newlines.'')"
| "edit_error_text path (Duplicate i n k) = (if n = 1
     then ''Found '' @ show_nat (nat k) @ '' occurrences of the text in '' @ path @
       ''. The text must be unique. Please provide more context to make it unique.''
     else ''Found '' @ show_nat (nat k) @ '' occurrences of '' @ edit_label i @ '' in '' @ path @
       ''. Each oldText must be unique. Please provide more context to make it unique.'')"
| "edit_error_text path (Overlap i j) = edit_label i @ '' and '' @ edit_label j @ '' overlap in '' @ path @
     ''. Merge them into one edit or target disjoint regions.''"
| "edit_error_text path (NoChange n) = (if n = 1
     then ''No changes made to '' @ path @ ''. The replacement produced identical content. This might indicate an issue with special characters or the text not existing as expected.''
     else ''No changes made to '' @ path @ ''. The replacements produced identical content.'')"
| "edit_error_text path OutsideBase = ''Replacement range is outside the base content.''"
| "edit_error_text path DifferentLineCount = ''Cannot preserve unchanged lines because the base content has a different line count.''"
| "edit_error_text path NoEdits = ''Edit tool input is invalid. edits must contain at least one replacement.''"

fun spans_from :: "nat \<Rightarrow> text16 list \<Rightarrow> line_span list" where
  "spans_from i [] = []"
| "spans_from i (l # ls) = \<lparr>span_start = i, span_end = i + length l\<rparr> # spans_from (i + length l) ls"

definition get_line_spans :: "text16 \<Rightarrow> line_span list" where
  "get_line_spans content = spans_from 0 (split_lines_with_endings content)"

text \<open>The second loop: the first line from \<open>k\<close> that ends at the end of the replacement or later.\<close>

function end_line_from :: "line_span list \<Rightarrow> nat \<Rightarrow> nat \<Rightarrow> nat" where
  "end_line_from ls e k = (if k < length ls \<and> span_end (ls ! k) < e then end_line_from ls e (Suc k) else k)"
  by auto
termination by (relation "measure (\<lambda>(ls, e, k). length ls - k)") auto

declare end_line_from.simps [simp del]

definition get_replacement_line_range :: "line_span list \<Rightarrow> matched_edit \<Rightarrow> edit_error + nat \<times> nat" where
  "get_replacement_line_range ls m = (let s = match_index m; e = match_index m + match_length m in
     case List.find (\<lambda>i. span_start (ls ! i) \<le> s \<and> s < span_end (ls ! i)) [0..<length ls] of
       None \<Rightarrow> Inl OutsideBase
     | Some start_line \<Rightarrow> (let end_line = end_line_from ls e start_line in
         if length ls \<le> end_line then Inl OutsideBase else Inr (start_line, end_line + 1)))"

text \<open>\<open>substring\<close> clamps its bounds; the last replacement is applied first.\<close>

definition apply_replacements :: "text16 \<Rightarrow> matched_edit list \<Rightarrow> nat \<Rightarrow> text16" where
  "apply_replacements content ms offset = foldr (\<lambda>m result. let i = int (match_index m) - int offset in
     take (nat i) result @ new_text m @ drop (nat (i + int (match_length m))) result) ms content"

record line_group =
  start_line :: nat
  end_line :: nat
  replacements :: "matched_edit list"

text \<open>The loop that collects the groups, the last one at the end of the list.\<close>

definition add_to_groups :: "line_span list \<Rightarrow> line_group list \<Rightarrow> matched_edit \<Rightarrow> edit_error + line_group list" where
  "add_to_groups ls groups m = rbind (get_replacement_line_range ls m) (\<lambda>(s, e). Inr
     (if groups \<noteq> [] \<and> s < end_line (last groups)
      then butlast groups @ [(last groups)\<lparr>end_line := max (end_line (last groups)) e, replacements := replacements (last groups) @ [m]\<rparr>]
      else groups @ [\<lparr>start_line = s, end_line = e, replacements = [m]\<rparr>]))"

definition render_group :: "text16 list \<Rightarrow> text16 \<Rightarrow> line_span list \<Rightarrow> nat \<times> text16 \<Rightarrow> line_group \<Rightarrow> nat \<times> text16" where
  "render_group original base ls = (\<lambda>(i, result) g. let s = span_start (ls ! start_line g); e = span_end (ls ! (end_line g - 1)) in
     (end_line g, result @ concat (take (start_line g - i) (drop i original)) @
       apply_replacements (take (e - s) (drop s base)) (replacements g) s))"

definition apply_preserving :: "text16 \<Rightarrow> text16 \<Rightarrow> matched_edit list \<Rightarrow> edit_error + text16" where
  "apply_preserving original base ms = (let original_lines = split_lines_with_endings original; base_lines = get_line_spans base in
     rbind (rguard (length original_lines = length base_lines) DifferentLineCount) (\<lambda>_.
     rbind (rfold (add_to_groups base_lines) [] (sort_key match_index ms)) (\<lambda>groups.
       case foldl (render_group original_lines base base_lines) (0, []) groups of (i, result) \<Rightarrow>
         Inr (result @ concat (drop i original_lines)))))"

section \<open>Matching\<close>

record fuzzy_match =
  fm_index :: nat
  fm_length :: nat
  used_fuzzy_match :: bool
  content_for_replacement :: text16

text \<open>\<open>None\<close> is the result with \<open>found\<close> false.\<close>

definition fuzzy_find_text :: "(text16 \<Rightarrow> text16) \<Rightarrow> text16 \<Rightarrow> text16 \<Rightarrow> fuzzy_match option" where
  "fuzzy_find_text nfkc content old = (case index_of content old of
     Some i \<Rightarrow> Some \<lparr>fm_index = i, fm_length = length old, used_fuzzy_match = False, content_for_replacement = content\<rparr>
   | None \<Rightarrow> (let fuzzy_content = normalize_for_fuzzy_match nfkc content; fuzzy_old = normalize_for_fuzzy_match nfkc old in
       case index_of fuzzy_content fuzzy_old of
         None \<Rightarrow> None
       | Some i \<Rightarrow> Some \<lparr>fm_index = i, fm_length = length fuzzy_old, used_fuzzy_match = True, content_for_replacement = fuzzy_content\<rparr>))"

text \<open>\<open>s.split(sep)\<close>; an empty separator gives the units of \<open>s\<close>.\<close>

function split_str :: "text16 \<Rightarrow> text16 \<Rightarrow> text16 list" where
  "split_str s sep = (if sep = [] then map (\<lambda>u. [u]) s
     else (case index_of s sep of None \<Rightarrow> [s] | Some i \<Rightarrow> take i s # split_str (drop (i + length sep) s) sep))"
  by auto
termination by (relation "measure (\<lambda>(s, sep). length s)") (auto dest!: index_of_slice simp flip: length_greater_0_conv)

declare split_str.simps [simp del]

definition count_occurrences :: "(text16 \<Rightarrow> text16) \<Rightarrow> text16 \<Rightarrow> text16 \<Rightarrow> int" where
  "count_occurrences nfkc content old =
     int (length (split_str (normalize_for_fuzzy_match nfkc content) (normalize_for_fuzzy_match nfkc old))) - 1"

section \<open>Edits\<close>

record text_edit =
  old_text :: text16
  edit_text :: text16

definition normalized_edit :: "text_edit \<Rightarrow> text_edit" where
  "normalized_edit e = \<lparr>old_text = normalize_to_lf (old_text e), edit_text = normalize_to_lf (edit_text e)\<rparr>"

definition match_edit :: "(text16 \<Rightarrow> text16) \<Rightarrow> text16 \<Rightarrow> nat \<Rightarrow> nat \<times> text_edit \<Rightarrow> edit_error + matched_edit" where
  "match_edit nfkc base n_edits = (\<lambda>(i, e). case fuzzy_find_text nfkc base (old_text e) of
     None \<Rightarrow> Inl (NotFound i n_edits)
   | Some r \<Rightarrow> (let n = count_occurrences nfkc base (old_text e) in
       if 1 < n then Inl (Duplicate i n_edits n)
       else Inr \<lparr>edit_index = i, match_index = fm_index r, match_length = fm_length r, new_text = edit_text e\<rparr>))"

fun check_overlap :: "matched_edit list \<Rightarrow> edit_error + unit" where
  "check_overlap (p # c # ms) = (if match_index c < match_index p + match_length p then Inl (Overlap (edit_index p) (edit_index c))
     else check_overlap (c # ms))"
| "check_overlap _ = Inr ()"

record applied_edits =
  base_content :: text16
  new_content :: text16

definition uses_fuzzy :: "(text16 \<Rightarrow> text16) \<Rightarrow> text16 \<Rightarrow> text_edit list \<Rightarrow> bool" where
  "uses_fuzzy nfkc content es = list_ex (\<lambda>e. case fuzzy_find_text nfkc content (old_text e) of None \<Rightarrow> False | Some r \<Rightarrow> used_fuzzy_match r) es"

definition apply_edits :: "(text16 \<Rightarrow> text16) \<Rightarrow> text16 \<Rightarrow> text_edit list \<Rightarrow> edit_error + applied_edits" where
  "apply_edits nfkc content edits = (let es = map normalized_edit edits; n_edits = length es;
       fuzzy = uses_fuzzy nfkc content es; base = (if fuzzy then normalize_for_fuzzy_match nfkc content else content) in
     rbind (case List.find (\<lambda>i. old_text (es ! i) = []) [0..<n_edits] of None \<Rightarrow> Inr () | Some i \<Rightarrow> Inl (EmptyOldText i n_edits)) (\<lambda>_.
     rbind (rmap (match_edit nfkc base n_edits) (enumerate 0 es)) (\<lambda>matched. let ms = sort_key match_index matched in
     rbind (check_overlap ms) (\<lambda>_.
     rbind (if fuzzy then apply_preserving content base ms else Inr (apply_replacements base ms 0)) (\<lambda>new.
     if content = new then Inl (NoChange n_edits) else Inr \<lparr>base_content = content, new_content = new\<rparr>)))))"

text \<open>What the edit tool writes for a file's text: \<open>execute\<close> of \<open>tools/edit.ts\<close> between reading and writing.\<close>

definition edited_file :: "(text16 \<Rightarrow> text16) \<Rightarrow> text16 \<Rightarrow> text_edit list \<Rightarrow> edit_error + text16" where
  "edited_file nfkc raw edits = (if edits = [] then Inl NoEdits
     else (case strip_bom raw of (mark, content) \<Rightarrow>
       rbind (apply_edits nfkc (normalize_to_lf content) edits) (\<lambda>r.
         Inr (mark @ restore_line_endings (new_content r) (detect_line_ending content)))))"

end
