(* ===== verification/EditApply.thy ===== *)
theory EditApply
  imports EditDiff "HOL-Library.Multiset"
begin

text \<open>
  What an edit changes. The replacements are compared with a reference that reads the base from left to right.
\<close>

section \<open>Line endings\<close>

lemma replace_crlf_restore: "cr \<notin> set t \<Longrightarrow> replace_crlf (restore_line_endings t CRLF) = t"
proof (induction t)
  case (Cons u t)
  then have IH: "replace_crlf (restore_line_endings t CRLF) = t" "u \<noteq> cr" by auto
  show ?case
  proof (cases "u = newline")
    case True
    then show ?thesis using IH by (simp add: restore_line_endings_def)
  next
    case False
    then have "restore_line_endings (u # t) CRLF = u # restore_line_endings t CRLF" by (simp add: restore_line_endings_def)
    then show ?thesis using IH by (cases "restore_line_endings t CRLF") auto
  qed
qed (simp add: restore_line_endings_def)

lemma replace_crlf_plain: "cr \<notin> set t \<Longrightarrow> replace_crlf t = t"
  by (induction t rule: replace_crlf.induct) auto

lemma normalize_restore: "cr \<notin> set t \<Longrightarrow> normalize_to_lf (restore_line_endings t e) = t"
proof -
  assume t: "cr \<notin> set t"
  then have "replace_crlf (restore_line_endings t e) = t"
    using replace_crlf_restore replace_crlf_plain by (cases e) (simp_all add: restore_line_endings_def)
  then show ?thesis using t by (auto simp: normalize_to_lf_def intro: map_idI)
qed

lemma index_of_newline: "newline \<in> set t \<Longrightarrow> index_of t [newline] = Some (length (takeWhile (\<lambda>u. u \<noteq> newline) t))"
  by (induction t) (subst index_of.simps; force)+

lemma index_of_absent: "u \<notin> set t \<Longrightarrow> index_of t (u # s) = None"
  by (induction t) (subst index_of.simps; force)+

lemma restore_first:
  "newline \<in> set t \<Longrightarrow> cr \<notin> set t \<Longrightarrow>
    index_of (restore_line_endings t CRLF) [cr, newline] = Some (length (takeWhile (\<lambda>u. u \<noteq> newline) t)) \<and>
    index_of (restore_line_endings t CRLF) [newline] = Some (Suc (length (takeWhile (\<lambda>u. u \<noteq> newline) t)))"
proof (induction t)
  case (Cons u t)
  have d: "cr \<noteq> newline" by (simp add: cr_def newline_def)
  show ?case
  proof (cases "u = newline")
    case True
    then have "restore_line_endings (u # t) CRLF = cr # newline # restore_line_endings t CRLF"
      by (simp add: restore_line_endings_def)
    then show ?thesis using True d by (simp add: index_of.simps)
  next
    case False
    then have r: "restore_line_endings (u # t) CRLF = u # restore_line_endings t CRLF" by (simp add: restore_line_endings_def)
    have IH: "index_of (restore_line_endings t CRLF) [cr, newline] = Some (length (takeWhile (\<lambda>u. u \<noteq> newline) t))"
      "index_of (restore_line_endings t CRLF) [newline] = Some (Suc (length (takeWhile (\<lambda>u. u \<noteq> newline) t)))"
      using Cons False by auto
    show ?thesis using r False IH Cons.prems(2) by (subst (1 2) index_of.simps) (auto simp: d)
  qed
qed simp

lemma detect_restore: "cr \<notin> set t \<Longrightarrow> newline \<in> set t \<or> e = LF \<Longrightarrow> detect_line_ending (restore_line_endings t e) = e"
  using restore_first [of t] index_of_absent [of cr t]
  by (cases e) (auto simp: detect_line_ending_def restore_line_endings_def split: option.splits)

section \<open>Replacing from left to right\<close>

definition slice :: "nat \<Rightarrow> nat \<Rightarrow> 'a list \<Rightarrow> 'a list" where
  "slice i j xs = take (j - i) (drop i xs)"

lemma slice_append: "i \<le> j \<Longrightarrow> j \<le> k \<Longrightarrow> slice i j xs @ slice j k xs = slice i k xs"
proof -
  assume a: "i \<le> j" "j \<le> k"
  then have k: "k - i = (j - i) + (k - j)" and j: "drop j xs = drop (j - i) (drop i xs)" by simp_all
  show ?thesis unfolding slice_def k j take_add ..
qed

lemma slice_length: "j \<le> length xs \<Longrightarrow> length (slice i j xs) = j - i"
  by (simp add: slice_def)

lemma slice_all: "slice 0 (length xs) xs = xs"
  by (simp add: slice_def)

text \<open>The ranges follow each other within \<open>p\<close> and \<open>n\<close>.\<close>

fun in_order :: "nat \<Rightarrow> matched_edit list \<Rightarrow> nat \<Rightarrow> bool" where
  "in_order p [] n \<longleftrightarrow> p \<le> n"
| "in_order p (m # ms) n \<longleftrightarrow> p \<le> match_index m \<and> in_order (match_index m + match_length m) ms n"

lemma in_order_le: "in_order p ms n \<Longrightarrow> p \<le> n"
  by (induction ms arbitrary: p) force+

lemma in_order_mono: "in_order p ms n \<Longrightarrow> n \<le> n' \<Longrightarrow> in_order p ms n'"
  by (induction ms arbitrary: p) auto

lemma in_order_snoc: "in_order p ms q \<Longrightarrow> q \<le> match_index m \<Longrightarrow> match_index m + match_length m \<le> n \<Longrightarrow> in_order p (ms @ [m]) n"
  by (induction ms arbitrary: p) auto

text \<open>The reference: what lies between the ranges is copied.\<close>

fun replaced :: "text16 \<Rightarrow> nat \<Rightarrow> nat \<Rightarrow> matched_edit list \<Rightarrow> text16" where
  "replaced base e p [] = slice p e base"
| "replaced base e p (m # ms) = slice p (match_index m) base @ new_text m @ replaced base e (match_index m + match_length m) ms"

lemma apply_step:
  assumes "off \<le> p" "p \<le> match_index m" "match_index m + match_length m \<le> e" "e \<le> length base"
  shows "take (nat (int (match_index m) - int off)) (slice off (match_index m + match_length m) base @ rest) @ new_text m @
      drop (nat (int (match_index m) - int off + int (match_length m))) (slice off (match_index m + match_length m) base @ rest) =
    slice off p base @ slice p (match_index m) base @ new_text m @ rest"
proof -
  let ?i = "match_index m" and ?j = "match_index m + match_length m"
  have n: "nat (int ?i - int off) = ?i - off" "nat (int ?i - int off + int (match_length m)) = ?j - off" using assms by auto
  have s: "slice off ?j base = slice off ?i base @ slice ?i ?j base" using slice_append [of off ?i ?j base] assms by simp
  have l: "length (slice off ?i base) = ?i - off" "length (slice off ?j base) = ?j - off" using assms by (simp_all add: slice_length)
  have t: "take (?i - off) (slice off ?j base @ rest) = slice off ?i base" using s l by simp
  have d: "drop (?j - off) (slice off ?j base @ rest) = rest" using l by simp
  show ?thesis using n t d slice_append [of off p ?i base] assms by simp
qed

lemma apply_replaced:
  assumes "e \<le> length base"
  shows "off \<le> p \<Longrightarrow> in_order p ms e \<Longrightarrow> apply_replacements (slice off e base) ms off = slice off p base @ replaced base e p ms"
proof (induction ms arbitrary: p)
  case Nil
  then show ?case using slice_append [of off p e base] by (simp add: apply_replacements_def)
next
  case (Cons m ms)
  let ?j = "match_index m + match_length m"
  have IH: "apply_replacements (slice off e base) ms off = slice off ?j base @ replaced base e ?j ms" using Cons by simp
  have j: "?j \<le> e" using Cons.prems(2) in_order_le by auto
  have "apply_replacements (slice off e base) (m # ms) off =
      take (nat (int (match_index m) - int off)) (apply_replacements (slice off e base) ms off) @ new_text m @
      drop (nat (int (match_index m) - int off + int (match_length m))) (apply_replacements (slice off e base) ms off)"
    by (simp add: apply_replacements_def Let_def)
  also have "\<dots> = slice off p base @ slice p (match_index m) base @ new_text m @ replaced base e ?j ms"
    using apply_step [of off p m e base] Cons.prems j assms by (simp add: IH)
  finally show ?case by simp
qed


section \<open>Exact edits\<close>

text \<open>Pieces of text, alternating with the gaps between and around them.\<close>

fun weave :: "'a list list \<Rightarrow> 'a list list \<Rightarrow> 'a list" where
  "weave (g # gs) (t # ts) = g @ t @ weave gs ts"
| "weave gs ts = concat gs"

lemma replaced_weave:
  "in_order p ms e \<Longrightarrow> e \<le> length base \<Longrightarrow> \<exists>gaps. length gaps = Suc (length ms) \<and>
    replaced base e p ms = weave gaps (map new_text ms) \<and>
    slice p e base = weave gaps (map (\<lambda>m. slice (match_index m) (match_index m + match_length m) base) ms)"
proof (induction ms arbitrary: p)
  case Nil
  then show ?case by (intro exI [of _ "[slice p e base]"]) simp
next
  case (Cons m ms)
  let ?i = "match_index m" and ?j = "match_index m + match_length m"
  have o: "p \<le> ?i" "?i \<le> ?j" "?j \<le> e" using Cons.prems(1) in_order_le by auto
  obtain gaps where g: "length gaps = Suc (length ms)" "replaced base e ?j ms = weave gaps (map new_text ms)"
      "slice ?j e base = weave gaps (map (\<lambda>m. slice (match_index m) (match_index m + match_length m) base) ms)"
    using Cons by auto
  have "slice p e base = slice p ?i base @ slice ?i ?j base @ slice ?j e base"
    using slice_append [OF o(2,3), of base] slice_append [of p ?i e base] o by simp
  then show ?case using g by (intro exI [of _ "slice p ?i base # gaps"]) simp
qed

lemma check_overlap_in_order:
  "check_overlap ms = Inr () \<Longrightarrow> \<forall>m \<in> set ms. match_index m + match_length m \<le> n \<Longrightarrow> ms \<noteq> [] \<Longrightarrow> p \<le> match_index (hd ms) \<Longrightarrow> in_order p ms n"
  by (induction ms arbitrary: p rule: check_overlap.induct) (auto split: if_splits)

lemma in_order_0: "check_overlap ms = Inr () \<Longrightarrow> \<forall>m \<in> set ms. match_index m + match_length m \<le> n \<Longrightarrow> in_order 0 ms n"
  using check_overlap_in_order [of ms n 0] by (cases ms) auto

lemma apply_edits_Inr:
  assumes "apply_edits nfkc content edits = Inr r"
  defines "es \<equiv> map normalized_edit edits"
  obtains matched where
    "rmap (match_edit nfkc (if uses_fuzzy nfkc content es then normalize_for_fuzzy_match nfkc content else content) (length es)) (enumerate 0 es) = Inr matched"
    "check_overlap (sort_key match_index matched) = Inr ()"
    "(if uses_fuzzy nfkc content es then apply_preserving content (normalize_for_fuzzy_match nfkc content) (sort_key match_index matched)
      else Inr (apply_replacements content (sort_key match_index matched) 0)) = Inr (new_content r)"
    "base_content r = content" "content \<noteq> new_content r" "\<forall>e \<in> set es. old_text e \<noteq> []"
proof -
  have e: "List.find (\<lambda>i. old_text (es ! i) = []) [0..<length es] = None"
    using assms(1) by (auto simp: apply_edits_def Let_def es_def [symmetric] split: option.splits)
  then have "\<forall>e \<in> set es. old_text e \<noteq> []" by (auto simp: find_None_iff in_set_conv_nth)
  then show ?thesis using assms(1) e that
    by (auto simp: apply_edits_def Let_def es_def [symmetric] result_simps split: if_splits)
qed

lemma match_exact:
  assumes "match_edit nfkc content n (i, e) = Inr m" "\<not> uses_fuzzy nfkc content es" "e \<in> set es"
  shows "slice (match_index m) (match_index m + match_length m) content = old_text e \<and> new_text m = edit_text e \<and>
    match_index m + match_length m \<le> length content"
proof -
  obtain k where k: "index_of content (old_text e) = Some k"
    using assms by (cases "index_of content (old_text e)")
      (auto simp: match_edit_def uses_fuzzy_def fuzzy_find_text_def Let_def list_ex_iff split: option.splits if_splits)
  then have m: "match_index m = k" "match_length m = length (old_text e)" "new_text m = edit_text e"
    using assms(1) by (auto simp: match_edit_def fuzzy_find_text_def Let_def split: if_splits)
  then show ?thesis using index_of_slice [OF k] by (simp add: slice_def)
qed

text \<open>C26. When every edit is found literally, the old text is the pieces \<open>oldText\<close> of all edits with some gaps between
  and around them, and the new text is the pieces \<open>newText\<close> with the same gaps: each edit takes place exactly once,
  all of them against the original text, and nothing else is changed.\<close>

theorem edits_replace_exactly:
  assumes "apply_edits nfkc content edits = Inr r" "\<not> uses_fuzzy nfkc content (map normalized_edit edits)"
  shows "\<exists>es gaps. mset es = mset (map normalized_edit edits) \<and> length gaps = Suc (length es) \<and>
    content = weave gaps (map old_text es) \<and> new_content r = weave gaps (map edit_text es) \<and>
    base_content r = content"
proof -
  let ?es = "map normalized_edit edits"
  let ?piece = "\<lambda>m. slice (match_index m) (match_index m + match_length m) content"
  let ?R = "\<lambda>e m. ?piece m = old_text e \<and> new_text m = edit_text e \<and> match_index m + match_length m \<le> length content"
  obtain matched where m: "rmap (match_edit nfkc content (length ?es)) (enumerate 0 ?es) = Inr matched"
      "check_overlap (sort_key match_index matched) = Inr ()"
      "apply_replacements content (sort_key match_index matched) 0 = new_content r" "base_content r = content"
    using apply_edits_Inr [OF assms(1)] assms(2) by auto
  let ?ms = "sort_key match_index matched"
  have l: "list_all2 (\<lambda>x y. match_edit nfkc content (length ?es) x = Inr y) (enumerate 0 ?es) matched"
    using m(1) by (simp add: rmap_eq_Inr_list_all2)
  have "list_all2 ?R ?es matched"
    unfolding list_all2_conv_all_nth
  proof (intro conjI allI impI)
    show len: "length ?es = length matched" using list_all2_lengthD [OF l] by simp
    fix i assume i: "i < length ?es"
    then have "match_edit nfkc content (length ?es) (i, ?es ! i) = Inr (matched ! i)"
      using list_all2_nthD2 [OF l, of i] len by (simp add: nth_enumerate_eq)
    then show "?piece (matched ! i) = old_text (?es ! i)" "new_text (matched ! i) = edit_text (?es ! i)"
      "match_index (matched ! i) + match_length (matched ! i) \<le> length content"
      using match_exact assms(2) nth_mem [OF i] by blast+
  qed
  then have la: "list_all2 (\<lambda>m e. ?R e m) matched ?es" by (simp add: list_all2_conv_all_nth)
  then obtain es where es': "list_all2 (\<lambda>m e. ?R e m) ?ms es" "mset es = mset ?es"
    using list_all2_reorder_left_invariance [of "\<lambda>m e. ?R e m" matched ?es ?ms] by auto
  then have es: "list_all2 ?R es ?ms" "mset es = mset ?es" by (simp_all add: list_all2_conv_all_nth)
  have b: "\<forall>m \<in> set ?ms. match_index m + match_length m \<le> length content"
    using la by (auto simp: list_all2_conv_all_nth in_set_conv_nth)
  note o = in_order_0 [OF m(2) b]
  obtain gaps where g: "length gaps = Suc (length ?ms)" "replaced content (length content) 0 ?ms = weave gaps (map new_text ?ms)"
      "slice 0 (length content) content = weave gaps (map ?piece ?ms)"
    using replaced_weave [OF o] by auto
  have n: "map ?piece ?ms = map old_text es" "map new_text ?ms = map edit_text es" "length ?ms = length es"
    using es(1) by (auto simp: list_all2_conv_all_nth intro!: nth_equalityI)
  have "new_content r = replaced content (length content) 0 ?ms"
    using apply_replaced [OF order_refl order_refl o] m(3) by (simp add: slice_all) (simp add: slice_def)
  then show ?thesis using g n es(2) m(4) by (intro exI [of _ es] exI [of _ gaps]) (simp add: slice_all)
qed

end
