(* ===== verification/EditFuzzy.thy ===== *)
theory EditFuzzy
  imports EditApply
begin

text \<open>
  Fuzzy edits: the lines that no replacement touches keep their original text.
\<close>

section \<open>Lines\<close>

lemma concat_lines: "concat (split_lines_with_endings s) = s"
  by (induction s) (auto split: list.splits)

lemma lines_nonempty: "[] \<notin> set (split_lines_with_endings s)"
  by (induction s) (auto split: list.splits)

lemma spans_length [simp]: "length (spans_from i ls) = length ls"
  by (induction ls arbitrary: i) simp_all

lemma spans_nth:
  "k < length ls \<Longrightarrow> spans_from i ls ! k = \<lparr>span_start = i + length (concat (take k ls)), span_end = i + length (concat (take (Suc k) ls))\<rparr>"
proof (induction ls arbitrary: i k)
  case (Cons l ls)
  then show ?case by (cases k) simp_all
qed simp

lemma prefix_sums: "j \<le> k \<Longrightarrow> length (concat (take j ls)) \<le> length (concat (take k ls))"
proof -
  assume "j \<le> k"
  then obtain d where "k = j + d" using le_Suc_ex by blast
  then show ?thesis by (simp add: take_add)
qed

abbreviation spans :: "text16 \<Rightarrow> line_span list" where
  "spans base \<equiv> get_line_spans base"

lemma span_mono: "j \<le> k \<Longrightarrow> k < length (spans base) \<Longrightarrow> span_end (spans base ! j) \<le> span_end (spans base ! k)"
  by (simp add: get_line_spans_def spans_nth prefix_sums del: take_Suc)

lemma span_follows: "Suc k < length (spans base) \<Longrightarrow> span_start (spans base ! Suc k) = span_end (spans base ! k)"
  by (simp add: get_line_spans_def spans_nth del: take_Suc)

lemma span_bound: "k < length (spans base) \<Longrightarrow> span_end (spans base ! k) \<le> length base"
  using prefix_sums [of "Suc k" "length (split_lines_with_endings base)" "split_lines_with_endings base"]
  by (simp add: get_line_spans_def spans_nth concat_lines del: take_Suc)

section \<open>The lines of a replacement\<close>

lemma end_line_from_spec:
  "k \<le> end_line_from ls e k \<and> (\<forall>j. k \<le> j \<and> j < end_line_from ls e k \<longrightarrow> span_end (ls ! j) < e) \<and>
    (end_line_from ls e k < length ls \<longrightarrow> e \<le> span_end (ls ! end_line_from ls e k))"
proof (induction ls e k rule: end_line_from.induct)
  case (1 ls e k)
  show ?case
  proof (cases "k < length ls \<and> span_end (ls ! k) < e")
    case True
    then have r: "end_line_from ls e k = end_line_from ls e (Suc k)" by (subst end_line_from.simps) simp
    show ?thesis using 1 [OF True] True unfolding r by (metis Suc_leD Suc_leI le_neq_implies_less)
  next
    case False
    then have "end_line_from ls e k = k" by (subst end_line_from.simps) auto
    then show ?thesis using False by auto
  qed
qed

text \<open>A line that a replacement overlaps, or that contains it.\<close>

definition touches :: "line_span \<Rightarrow> matched_edit \<Rightarrow> bool" where
  "touches l m \<longleftrightarrow> match_index m < span_end l \<and>
     (span_start l \<le> match_index m \<or> span_start l < match_index m + match_length m)"

lemma line_range:
  assumes "get_replacement_line_range (spans base) m = Inr (s, e)"
  shows "s < e \<and> e \<le> length (spans base) \<and> span_start (spans base ! s) \<le> match_index m \<and>
    match_index m + match_length m \<le> span_end (spans base ! (e - 1)) \<and> (\<forall>k. s \<le> k \<and> k < e \<longrightarrow> touches (spans base ! k) m)"
proof -
  let ?ls = "spans base" and ?stop = "match_index m + match_length m"
  have f: "List.find (\<lambda>i. span_start (?ls ! i) \<le> match_index m \<and> match_index m < span_end (?ls ! i)) [0..<length ?ls] = Some s"
    and e: "e = Suc (end_line_from ?ls ?stop s)" "end_line_from ?ls ?stop s < length ?ls"
    using assms by (auto simp: get_replacement_line_range_def Let_def split: option.splits if_splits)
  have s: "s < length ?ls" "span_start (?ls ! s) \<le> match_index m" "match_index m < span_end (?ls ! s)"
    using f by (auto simp: find_Some_iff)
  note el = end_line_from_spec [of s ?ls ?stop]
  have "touches (?ls ! k) m" if k: "s \<le> k" "k < e" for k
  proof (cases "k = s")
    case True
    then show ?thesis using s by (simp add: touches_def)
  next
    case False
    then obtain j where j: "k = Suc j" "s \<le> j" using k(1) by (metis Suc_le_D le_antisym not_less_eq_eq)
    then have "span_end (?ls ! j) < ?stop" using el k(2) e(1) by simp
    moreover have "k < length ?ls" using k(2) e by simp
    ultimately have "span_start (?ls ! k) < ?stop" using span_follows [of j base] j(1) by simp
    moreover have "match_index m < span_end (?ls ! k)" using s(3) span_mono [OF k(1) \<open>k < length ?ls\<close>] by simp
    ultimately show ?thesis by (simp add: touches_def)
  qed
  then show ?thesis using s(2) el e by simp
qed

section \<open>Groups\<close>

text \<open>A block of touched lines and the replacements within it.\<close>

definition group_ok :: "text16 \<Rightarrow> line_group \<Rightarrow> bool" where
  "group_ok base g \<longleftrightarrow> start_line g < end_line g \<and> end_line g \<le> length (spans base) \<and>
     in_order (span_start (spans base ! start_line g)) (replacements g) (span_end (spans base ! (end_line g - 1))) \<and>
     (\<forall>k. start_line g \<le> k \<and> k < end_line g \<longrightarrow> (\<exists>m \<in> set (replacements g). touches (spans base ! k) m))"

fun groups_ok :: "text16 \<Rightarrow> nat \<Rightarrow> line_group list \<Rightarrow> bool" where
  "groups_ok base i [] \<longleftrightarrow> True"
| "groups_ok base i (g # gs) \<longleftrightarrow> i \<le> start_line g \<and> group_ok base g \<and> groups_ok base (end_line g) gs"

definition last_end :: "nat \<Rightarrow> line_group list \<Rightarrow> nat" where
  "last_end i gs = (if gs = [] then i else end_line (last gs))"

lemma groups_ok_snoc: "groups_ok base i (gs @ [g]) \<longleftrightarrow> groups_ok base i gs \<and> last_end i gs \<le> start_line g \<and> group_ok base g"
  by (induction gs arbitrary: i) (auto simp: last_end_def)

text \<open>What the groups say the result is: their base text with the replacements, between the original lines.\<close>

fun keep_lines :: "text16 list \<Rightarrow> text16 \<Rightarrow> nat \<Rightarrow> line_group list \<Rightarrow> text16" where
  "keep_lines original base i [] = concat (drop i original)"
| "keep_lines original base i (g # gs) = concat (slice i (start_line g) original) @
     replaced base (span_end (spans base ! (end_line g - 1))) (span_start (spans base ! start_line g)) (replacements g) @
     keep_lines original base (end_line g) gs"

lemma render_groups:
  "groups_ok base i gs \<Longrightarrow> foldl (render_group original base (spans base)) (i, result) gs = (j, result') \<Longrightarrow>
    result' @ concat (drop j original) = result @ keep_lines original base i gs"
proof (induction gs arbitrary: i result)
  case (Cons g gs)
  let ?s = "span_start (spans base ! start_line g)" and ?e = "span_end (spans base ! (end_line g - 1))"
  have g: "group_ok base g" using Cons.prems(1) by simp
  then have b: "?e \<le> length base" "in_order ?s (replacements g) ?e" using span_bound by (auto simp: group_ok_def)
  have "apply_replacements (take (?e - ?s) (drop ?s base)) (replacements g) ?s = replaced base ?e ?s (replacements g)"
    using apply_replaced [OF b(1) order_refl b(2)] by (simp add: slice_def)
  then show ?case using Cons.IH [of "end_line g"] Cons.prems by (simp add: render_group_def Let_def slice_def)
qed simp

text \<open>The loop over the sorted replacements; \<open>p\<close> is the end of the last one.\<close>

definition collected :: "text16 \<Rightarrow> line_group list \<Rightarrow> nat \<Rightarrow> bool" where
  "collected base gs p \<longleftrightarrow> groups_ok base 0 gs \<and>
     (gs \<noteq> [] \<longrightarrow> in_order (span_start (spans base ! start_line (last gs))) (replacements (last gs)) p)"

lemma add_group:
  assumes "collected base gs p" "add_to_groups (spans base) gs m = Inr gs'" "p \<le> match_index m"
  shows "collected base gs' (match_index m + match_length m) \<and>
    concat (map replacements gs') = concat (map replacements gs) @ [m]"
proof -
  obtain s e where r: "get_replacement_line_range (spans base) m = Inr (s, e)"
    using assms(2) by (auto simp: add_to_groups_def result_simps)
  note l = line_range [OF r]
  show ?thesis
  proof (cases "gs \<noteq> [] \<and> s < end_line (last gs)")
    case True
    then obtain hs g where gs: "gs = hs @ [g]" "s < end_line g" by (cases gs rule: rev_cases) auto
    define g' where "g' = g\<lparr>end_line := max (end_line g) e, replacements := replacements g @ [m]\<rparr>"
    have gs': "gs' = hs @ [g']" using assms(2) r gs by (simp add: add_to_groups_def g'_def)
    have g: "group_ok base g" "groups_ok base 0 hs" "last_end 0 hs \<le> start_line g"
      using assms(1) gs(1) by (simp_all add: collected_def groups_ok_snoc)
    have "in_order (span_start (spans base ! start_line g)) (replacements g) p" using assms(1) gs(1) by (simp add: collected_def)
    then have o: "in_order (span_start (spans base ! start_line g)) (replacements g @ [m]) (match_index m + match_length m)"
      using in_order_snoc assms(3) by blast
    have "span_end (spans base ! (e - 1)) \<le> span_end (spans base ! (max (end_line g) e - 1))"
      by (rule span_mono) (use g(1) l in \<open>auto simp: group_ok_def\<close>)
    then have "in_order (span_start (spans base ! start_line g)) (replacements g @ [m]) (span_end (spans base ! (max (end_line g) e - 1)))"
      using in_order_mono [OF o] l by simp
    moreover have "\<exists>n \<in> set (replacements g @ [m]). touches (spans base ! k) n" if "start_line g \<le> k" "k < max (end_line g) e" for k
      using that g(1) l gs(2) by (cases "k < end_line g") (auto simp: group_ok_def)
    ultimately have "group_ok base g'" using g(1) l by (auto simp: group_ok_def g'_def)
    then show ?thesis using g o gs gs' by (simp add: collected_def groups_ok_snoc) (simp add: g'_def)
  next
    case False
    then have gs': "gs' = gs @ [\<lparr>start_line = s, end_line = e, replacements = [m]\<rparr>]"
      using assms(2) r by (auto simp: add_to_groups_def)
    have "last_end 0 gs \<le> s" using False by (auto simp: last_end_def)
    then show ?thesis using gs' l assms(1) by (auto simp: collected_def groups_ok_snoc group_ok_def)
  qed
qed

lemma collect_groups:
  "collected base gs p \<Longrightarrow> rfold (add_to_groups (spans base)) gs ms = Inr gs' \<Longrightarrow> in_order p ms n \<Longrightarrow>
    groups_ok base 0 gs' \<and> concat (map replacements gs') = concat (map replacements gs) @ ms"
proof (induction ms arbitrary: gs p)
  case Nil
  then show ?case by (simp add: collected_def)
next
  case (Cons m ms)
  then obtain hs where h: "add_to_groups (spans base) gs m = Inr hs" "rfold (add_to_groups (spans base)) hs ms = Inr gs'"
    by (auto simp: result_simps)
  then show ?case using add_group [OF Cons.prems(1) h(1)] Cons.IH [OF _ h(2)] Cons.prems(3) by auto
qed


lemma preserving_lines: "apply_preserving content base ms = Inr new \<Longrightarrow>
    length (split_lines_with_endings content) = length (spans base)"
  by (auto simp: apply_preserving_def Let_def result_simps)

text \<open>C27. A fuzzy edit works in the normalized text, line by line the image of the original: the result is the original
  lines themselves, except for blocks of lines each of which a replacement overlaps; such a block is its normalized
  text with the replacements made in it. Every edit is one of the replacements.\<close>

theorem fuzzy_edits_keep_lines:
  assumes "apply_edits nfkc content edits = Inr r" "uses_fuzzy nfkc content (map normalized_edit edits)"
  shows "\<exists>gs. groups_ok (normalize_for_fuzzy_match nfkc content) 0 gs \<and>
    length (split_lines_with_endings content) = length (spans (normalize_for_fuzzy_match nfkc content)) \<and>
    new_content r = keep_lines (split_lines_with_endings content) (normalize_for_fuzzy_match nfkc content) 0 gs \<and>
    mset (map new_text (concat (map replacements gs))) = mset (map (edit_text \<circ> normalized_edit) edits)"
proof -
  let ?es = "map normalized_edit edits" and ?base = "normalize_for_fuzzy_match nfkc content"
  let ?lines = "split_lines_with_endings content"
  obtain matched where m: "rmap (match_edit nfkc ?base (length ?es)) (enumerate 0 ?es) = Inr matched"
      "check_overlap (sort_key match_index matched) = Inr ()"
      "apply_preserving content ?base (sort_key match_index matched) = Inr (new_content r)"
    using apply_edits_Inr [OF assms(1)] assms(2) by auto
  let ?ms = "sort_key match_index matched"
  have s: "sort_key match_index ?ms = ?ms" by (simp add: sort_key_id_if_sorted)
  have len: "length ?lines = length (spans ?base)" using preserving_lines [OF m(3)] .
  obtain gs where g: "rfold (add_to_groups (spans ?base)) [] ?ms = Inr gs"
      "Inr (case foldl (render_group ?lines ?base (spans ?base)) (0, []) gs of (i, res) \<Rightarrow> res @ concat (drop i ?lines)) = (Inr (new_content r) :: edit_error + text16)"
    using m(3) unfolding apply_preserving_def Let_def s
    by (simp add: result_simps split_beta) blast
  obtain n where "\<forall>m \<in> set ?ms. match_index m + match_length m \<le> n"
    using finite_nat_set_iff_bounded_le [of "(\<lambda>m. match_index m + match_length m) ` set ?ms"] by auto
  then have o: "in_order 0 ?ms n" by (rule in_order_0 [OF m(2)])
  have c: "groups_ok ?base 0 gs" "concat (map replacements gs) = ?ms"
    using collect_groups [of ?base "[]" 0 ?ms gs n] g(1) o by (simp_all add: collected_def)
  obtain j res where f: "foldl (render_group ?lines ?base (spans ?base)) (0, []) gs = (j, res)"
    by (cases "foldl (render_group ?lines ?base (spans ?base)) (0, []) gs")
  have "new_content r = keep_lines ?lines ?base 0 gs" using render_groups [OF c(1) f] g(2) f by simp
  moreover have "mset (map new_text ?ms) = mset (map edit_text ?es)"
  proof -
    have l: "list_all2 (\<lambda>x y. match_edit nfkc ?base (length ?es) x = Inr y) (enumerate 0 ?es) matched"
      using m(1) by (simp add: rmap_eq_Inr_list_all2)
    then have "list_all2 (\<lambda>x y. new_text y = edit_text (snd x)) (enumerate 0 ?es) matched"
      by (rule list_all2_mono) (auto simp: match_edit_def Let_def split: option.splits if_splits)
    then have "map new_text matched = map (edit_text \<circ> snd) (enumerate 0 ?es)"
      by (auto simp: list_all2_conv_all_nth intro!: nth_equalityI)
    also have "\<dots> = map edit_text ?es" by (simp flip: map_map)
    finally show ?thesis by (metis mset_map mset_sort)
  qed
  ultimately show ?thesis using c len by (intro exI [of _ gs]) simp
qed

section \<open>A last line of white space\<close>

lemma split_on_map: "(\<And>u. f u = c \<longleftrightarrow> u = c) \<Longrightarrow> split_on c (map f s) = map (map f) (split_on c s)"
  by (induction s) (auto split: list.splits)

lemma split_on_Nil: "split_on c s = [[]] \<longleftrightarrow> s = []"
  by (cases s) (auto split: list.splits)

lemma line_count: "length (split_lines_with_endings s) + (if last (split_on newline s) = [] then 1 else 0) = length (split_on newline s)"
proof (induction s)
  case (Cons u s)
  obtain l ls where l: "split_on newline s = l # ls" by (cases "split_on newline s") auto
  show ?case
  proof (cases "u = newline")
    case True
    then show ?thesis using Cons l by simp
  next
    case False
    show ?thesis
    proof (cases "split_lines_with_endings s")
      case Nil
      then have "s = []" using concat_lines [of s] by simp
      then show ?thesis using False by simp
    next
      case (Cons k ks)
      then have "ls \<noteq> [] \<or> l \<noteq> []" using l split_on_Nil [of newline s] by auto
      then show ?thesis using Cons.IH Cons False l by (cases "ls = []") (auto split: if_splits)
    qed
  qed
qed simp

lemma fold_newline: "fold_unit u = newline \<longleftrightarrow> u = newline"
  by (auto simp: fold_unit_def newline_def)

lemma trim_end_set: "set (trim_end s) \<subseteq> set s"
  by (auto simp: trim_end_def dest: set_dropWhileD)

lemma trim_white: "\<forall>u \<in> set w. is_white u \<Longrightarrow> trim_end w = []"
  by (simp add: trim_end_def)

lemma split_normalized:
  "split_on newline (normalize_for_fuzzy_match nfkc s) = map (map fold_unit \<circ> trim_end) (split_on newline (nfkc s))"
proof -
  have "split_on newline (join_on newline (map trim_end (split_on newline (nfkc s)))) = map trim_end (split_on newline (nfkc s))"
    by (rule split_join) (use trim_end_set split_on_absent in \<open>auto dest!: split_on_absent\<close>)
  then show ?thesis by (simp add: normalize_for_fuzzy_match_def split_on_map fold_newline)
qed

text \<open>
  What Unicode documents of NFKC: a line feed neither combines with its neighbours nor comes from anything else, and
  white space becomes white space.
\<close>

definition documented_nfkc :: "(text16 \<Rightarrow> text16) \<Rightarrow> bool" where
  "documented_nfkc nfkc \<longleftrightarrow> (\<forall>x y. nfkc (x @ newline # y) = nfkc x @ newline # nfkc y) \<and>
     (\<forall>x. newline \<notin> set x \<longrightarrow> newline \<notin> set (nfkc x)) \<and>
     (\<forall>x. (\<forall>u \<in> set x. is_white u) \<longrightarrow> (\<forall>u \<in> set (nfkc x). is_white u))"

lemma white_last_normalized:
  assumes "documented_nfkc nfkc" "\<forall>u \<in> set w. is_white u \<and> u \<noteq> newline" "body = [] \<or> last body = newline"
  shows "last (split_on newline (normalize_for_fuzzy_match nfkc (body @ w))) = []"
proof -
  have w: "newline \<notin> set (nfkc w)" "trim_end (nfkc w) = []"
    using assms(1,2) trim_white [of "nfkc w"] unfolding documented_nfkc_def by blast+
  have "split_on newline (nfkc (body @ w)) = (if body = [] then [] else split_on newline (nfkc (butlast body))) @ [nfkc w]"
  proof (cases "body = []")
    case False
    then have b: "body @ w = butlast body @ newline # w" using assms(3) by (metis append.assoc append_Cons append_Nil append_butlast_last_id)
    have "nfkc (body @ w) = nfkc (butlast body) @ newline # nfkc w" unfolding b using assms(1) by (simp add: documented_nfkc_def)
    then show ?thesis using False w(1) by (simp add: split_on_append split_on_single)
  qed (simp add: split_on_single w(1))
  then show "last (split_on newline (normalize_for_fuzzy_match nfkc (body @ w))) = []"
    using w(2) by (simp add: split_normalized)
qed

text \<open>NFKC, as documented, keeps the number of lines.\<close>

lemma nfkc_lines: "documented_nfkc nfkc \<Longrightarrow> length (split_on newline (nfkc s)) = length (split_on newline s)"
proof (induction "length s" arbitrary: s rule: less_induct)
  case less
  show ?case
  proof (cases "newline \<in> set s")
    case True
    then obtain x y where s: "s = x @ newline # y" by (meson split_list)
    then have "length (split_on newline (nfkc x)) = length (split_on newline x)" "length (split_on newline (nfkc y)) = length (split_on newline y)"
      using less by simp_all
    moreover have "nfkc s = nfkc x @ newline # nfkc y" using less.prems s by (simp add: documented_nfkc_def)
    ultimately show ?thesis using s by (simp add: split_on_append)
  next
    case False
    then have "newline \<notin> set (nfkc s)" using less.prems unfolding documented_nfkc_def by blast
    then show ?thesis using False by (simp add: split_on_single)
  qed
qed

text \<open>C28. A text whose last line is not empty, all white space and without a line ending cannot be edited fuzzily at
  all: trimming makes that line disappear, and the edits are refused for a different number of lines, whatever they
  are. Of NFKC only its documented behaviour is used: it keeps line feeds where they are, makes none, and turns white
  space into white space.\<close>

theorem white_last_line_rejected:
  assumes "content = body @ w" "body = [] \<or> last body = newline" "w \<noteq> []" "\<forall>u \<in> set w. is_white u \<and> u \<noteq> newline"
    "documented_nfkc nfkc" "uses_fuzzy nfkc content (map normalized_edit edits)"
  shows "\<not> is_ok (apply_edits nfkc content edits)"
proof
  assume "is_ok (apply_edits nfkc content edits)"
  then obtain r where "apply_edits nfkc content edits = Inr r" by (auto simp: is_ok_iff)
  then obtain ms where "apply_preserving content (normalize_for_fuzzy_match nfkc content) ms = Inr (new_content r)"
    using assms(6) by (auto elim!: apply_edits_Inr)
  then have "length (split_lines_with_endings content) = length (split_lines_with_endings (normalize_for_fuzzy_match nfkc content))"
    using preserving_lines by (force simp: get_line_spans_def)
  moreover have "last (split_on newline content) = w"
    using assms(1,2,4) by (cases body rule: rev_cases) (auto simp: split_on_append split_on_single)
  moreover have "length (split_on newline (normalize_for_fuzzy_match nfkc content)) = length (split_on newline content)"
    using nfkc_lines [OF assms(5), of content] by (simp add: split_normalized)
  ultimately show False
    using line_count [of content] line_count [of "normalize_for_fuzzy_match nfkc content"] assms(3)
      white_last_normalized [OF assms(5,4,2)] assms(1) by simp
qed

section \<open>Witnesses and further cases\<close>

abbreviation text_of_chars :: "string \<Rightarrow> text16" where
  "text_of_chars s \<equiv> map of_char s"

text \<open>Two exact edits, given in the opposite order of their places.\<close>

definition sample_content :: text16 where
  "sample_content = text_of_chars ''let a = 1'' @ newline # text_of_chars ''let b = 2'' @ [newline]"

definition sample_edits :: "text_edit list" where
  "sample_edits = [\<lparr>old_text = text_of_chars ''b'', edit_text = text_of_chars ''c''\<rparr>,
     \<lparr>old_text = text_of_chars ''1'', edit_text = text_of_chars ''10''\<rparr>]"

lemma sample_exact:
  "apply_edits id sample_content sample_edits = Inr \<lparr>base_content = sample_content,
     new_content = text_of_chars ''let a = 10'' @ newline # text_of_chars ''let c = 2'' @ [newline]\<rparr>"
  "\<not> uses_fuzzy id sample_content (map normalized_edit sample_edits)"
  by code_simp+

lemma edits_replace_exactly_witness:
  "\<exists>es gaps. mset es = mset (map normalized_edit sample_edits) \<and> length gaps = Suc (length es) \<and>
    sample_content = weave gaps (map old_text es) \<and>
    text_of_chars ''let a = 10'' @ newline # text_of_chars ''let c = 2'' @ [newline] = weave gaps (map edit_text es)"
  using edits_replace_exactly [OF sample_exact] by simp

text \<open>Trailing blanks make the match a fuzzy one; those of the last line stay.\<close>

definition blank_content :: text16 where
  "blank_content = text_of_chars ''a  '' @ newline # text_of_chars ''b'' @ newline # text_of_chars ''c  '' @ [newline]"

definition blank_edits :: "text_edit list" where
  "blank_edits = [\<lparr>old_text = text_of_chars ''a'' @ newline # text_of_chars ''b'', edit_text = text_of_chars ''x''\<rparr>]"

lemma sample_fuzzy:
  "apply_edits id blank_content blank_edits = Inr \<lparr>base_content = blank_content,
     new_content = text_of_chars ''x'' @ newline # text_of_chars ''c  '' @ [newline]\<rparr>"
  "uses_fuzzy id blank_content (map normalized_edit blank_edits)"
  by code_simp+

lemma fuzzy_edits_keep_lines_witness:
  "\<exists>gs. groups_ok (normalize_for_fuzzy_match id blank_content) 0 gs \<and>
    text_of_chars ''x'' @ newline # text_of_chars ''c  '' @ [newline] =
      keep_lines (split_lines_with_endings blank_content) (normalize_for_fuzzy_match id blank_content) 0 gs \<and>
    mset (map new_text (concat (map replacements gs))) = mset (map (edit_text \<circ> normalized_edit) blank_edits)"
  using fuzzy_edits_keep_lines [OF sample_fuzzy] by auto

text \<open>A part of NFKC, and a last line of a blank and a no-break space.\<close>

definition space_nfkc :: "text16 \<Rightarrow> text16" where
  "space_nfkc = map (\<lambda>u. if u = 0xA0 then 0x20 else u)"

lemma space_nfkc_documented: "documented_nfkc space_nfkc"
  by (auto simp: documented_nfkc_def space_nfkc_def newline_def is_white_def)

lemma white_last_line_rejected_witness:
  "\<not> is_ok (apply_edits space_nfkc (blank_content @ [0x20, 0xA0]) blank_edits)"
proof (rule white_last_line_rejected [OF refl])
  show "documented_nfkc space_nfkc" by (rule space_nfkc_documented)
  show "uses_fuzzy space_nfkc (blank_content @ [0x20, 0xA0]) (map normalized_edit blank_edits)" by code_simp
  show "\<forall>u \<in> set [0x20, 0xA0]. is_white u \<and> u \<noteq> newline" by code_simp
qed (simp_all add: blank_content_def)

text \<open>White space as old text becomes empty in the fuzzy text, where it is found everywhere: a tab that occurs once is
  refused as a duplicate, and in a text of one unit white space that does not occur is replaced.\<close>

lemma white_old_text:
  "apply_edits id (text_of_chars ''a'' @ [9] @ text_of_chars ''b'' @ [newline]) [\<lparr>old_text = [9], edit_text = text_of_chars ''-''\<rparr>] =
     Inl (Duplicate 0 1 3)"
  "apply_edits id (text_of_chars ''a'') [\<lparr>old_text = text_of_chars '' '', edit_text = text_of_chars ''-''\<rparr>] =
     Inr \<lparr>base_content = text_of_chars ''a'', new_content = text_of_chars ''-a''\<rparr>"
  by code_simp+

section \<open>Line endings of the file\<close>

text \<open>A file whose lines all end alike, with or without a byte order mark, is edited as its text with plain line
  feeds would be: the edits neither see nor change the endings and the mark.\<close>

theorem edited_file_endings:
  assumes "cr \<notin> set t" "newline \<in> set t \<or> e = LF" "mark = [bom] \<or> mark = [] \<and> \<not> prefix [bom] t" "edits \<noteq> []"
  shows "edited_file nfkc (mark @ restore_line_endings t e) edits =
    rbind (apply_edits nfkc t edits) (\<lambda>r. Inr (mark @ restore_line_endings (new_content r) e))"
proof -
  have "prefix [bom] (restore_line_endings t e) \<longleftrightarrow> prefix [bom] t"
    by (cases t; cases e) (auto simp: restore_line_endings_def cr_def newline_def bom_def)
  then have "strip_bom (mark @ restore_line_endings t e) = (mark, restore_line_endings t e)"
    using assms(3) by (auto simp: strip_bom_def)
  then show ?thesis using assms by (simp add: edited_file_def normalize_restore detect_restore)
qed

lemma edited_file_endings_witness:
  "edited_file id ([bom] @ restore_line_endings sample_content CRLF) sample_edits =
    Inr ([bom] @ restore_line_endings (text_of_chars ''let a = 10'' @ newline # text_of_chars ''let c = 2'' @ [newline]) CRLF)"
proof -
  have "cr \<notin> set sample_content" "newline \<in> set sample_content \<or> CRLF = LF" "sample_edits \<noteq> []" by code_simp+
  then show ?thesis using edited_file_endings [of sample_content CRLF "[bom]" sample_edits id] sample_exact by simp
qed

end
