(* ===== verification/EditShow.thy ===== *)
theory EditShow
  imports EditFuzzy
begin

text \<open>
  The display of an edit, \<open>generateDiffString\<close> of \<open>tools/edit-diff.ts\<close>. The parts that the package \<open>diff\<close> finds are an
  argument.
\<close>

section \<open>Rows\<close>

record diff_part =
  part_value :: text16
  added :: bool
  removed :: bool

datatype diff_row = Added nat text16 | Removed nat text16 | Unchanged nat text16 | Gap

text \<open>\<open>raw\<close>: the lines of a part, without the empty one after its last line ending.\<close>

definition raw_lines :: "text16 \<Rightarrow> text16 list" where
  "raw_lines v = (let ls = split_on newline v in if last ls = [] then butlast ls else ls)"

definition number_rows :: "(nat \<Rightarrow> text16 \<Rightarrow> diff_row) \<Rightarrow> nat \<Rightarrow> text16 list \<Rightarrow> diff_row list" where
  "number_rows f k ls = map (\<lambda>(i, l). f i l) (enumerate k ls)"

definition context_rows :: "nat \<Rightarrow> nat \<Rightarrow> text16 list \<Rightarrow> bool \<Rightarrow> bool \<Rightarrow> diff_row list" where
  "context_rows c k raw leading trailing =
    (if leading \<and> trailing then
       (if length raw \<le> c * 2 then number_rows Unchanged k raw
        else number_rows Unchanged k (take c raw) @ [Gap] @ number_rows Unchanged (k + (length raw - c)) (drop (length raw - c) raw))
     else if leading then number_rows Unchanged k (take c raw) @ (if c < length raw then [Gap] else [])
     else if trailing then (if 0 < length raw - c then [Gap] else []) @ number_rows Unchanged (k + (length raw - c)) (drop (length raw - c) raw)
     else [])"

definition is_change :: "diff_part \<Rightarrow> bool" where
  "is_change p \<longleftrightarrow> added p \<or> removed p"

text \<open>The loop; \<open>k\<close> and \<open>n\<close> are \<open>oldLineNum\<close> and \<open>newLineNum\<close>.\<close>

fun diff_rows :: "nat \<Rightarrow> diff_part list \<Rightarrow> nat \<Rightarrow> nat \<Rightarrow> bool \<Rightarrow> diff_row list" where
  "diff_rows c [] k n lead = []"
| "diff_rows c (p # ps) k n lead = (let raw = raw_lines (part_value p) in
     if added p then number_rows Added n raw @ diff_rows c ps k (n + length raw) True
     else if removed p then number_rows Removed k raw @ diff_rows c ps (k + length raw) n True
     else context_rows c k raw lead (case ps of [] \<Rightarrow> False | q # _ \<Rightarrow> is_change q) @
       diff_rows c ps (k + length raw) (n + length raw) False)"

fun first_changed_line :: "diff_part list \<Rightarrow> nat \<Rightarrow> nat option" where
  "first_changed_line [] n = None"
| "first_changed_line (p # ps) n = (if is_change p then Some n else first_changed_line ps (n + length (raw_lines (part_value p))))"

definition pad_start :: "nat \<Rightarrow> text16 \<Rightarrow> text16" where
  "pad_start w s = replicate (w - length s) 0x20 @ s"

definition number_text :: "nat \<Rightarrow> text16" where
  "number_text n = map of_char (show_nat n)"

fun render_row :: "nat \<Rightarrow> diff_row \<Rightarrow> text16" where
  "render_row w (Added n l) = [0x2B] @ pad_start w (number_text n) @ [0x20] @ l"
| "render_row w (Removed n l) = [0x2D] @ pad_start w (number_text n) @ [0x20] @ l"
| "render_row w (Unchanged n l) = [0x20] @ pad_start w (number_text n) @ [0x20] @ l"
| "render_row w Gap = [0x20] @ pad_start w [] @ [0x20, 0x2E, 0x2E, 0x2E]"

definition generate_diff_string :: "(text16 \<Rightarrow> text16 \<Rightarrow> diff_part list) \<Rightarrow> text16 \<Rightarrow> text16 \<Rightarrow> nat \<Rightarrow> text16 \<times> nat option" where
  "generate_diff_string diff_lines old new c = (let parts = diff_lines old new;
       w = length (number_text (max (length (split_on newline old)) (length (split_on newline new)))) in
     (join_on newline (map (render_row w) (diff_rows c parts 1 1 False)), first_changed_line parts 1))"

section \<open>What the rows show\<close>

definition old_of :: "diff_part list \<Rightarrow> text16 list" where
  "old_of ps = concat (map (raw_lines \<circ> part_value) (filter (\<lambda>p. \<not> added p) ps))"

definition new_of :: "diff_part list \<Rightarrow> text16 list" where
  "new_of ps = concat (map (raw_lines \<circ> part_value) (filter (\<lambda>p. \<not> removed p) ps))"

text \<open>A row is true of the lines from the numbers \<open>k\<close> and \<open>n\<close>.\<close>

fun row_true :: "nat \<Rightarrow> nat \<Rightarrow> text16 list \<Rightarrow> text16 list \<Rightarrow> diff_row \<Rightarrow> bool" where
  "row_true k n olds news (Added i l) \<longleftrightarrow> n \<le> i \<and> i < n + length news \<and> news ! (i - n) = l"
| "row_true k n olds news (Removed i l) \<longleftrightarrow> k \<le> i \<and> i < k + length olds \<and> olds ! (i - k) = l"
| "row_true k n olds news (Unchanged i l) \<longleftrightarrow> k \<le> i \<and> i < k + length olds \<and> olds ! (i - k) = l"
| "row_true k n olds news Gap \<longleftrightarrow> True"

definition added_lines :: "diff_row list \<Rightarrow> nat set" where
  "added_lines rows = {i. \<exists>l. Added i l \<in> set rows}"

definition removed_lines :: "diff_row list \<Rightarrow> nat set" where
  "removed_lines rows = {i. \<exists>l. Removed i l \<in> set rows}"

lemma number_rows_set: "r \<in> set (number_rows f k ls) \<longleftrightarrow> (\<exists>i < length ls. r = f (k + i) (ls ! i))"
  by (force simp: number_rows_def in_set_conv_nth nth_enumerate_eq)

lemma number_rows_drop: "r \<in> set (number_rows f (k + j) (drop j ls)) \<Longrightarrow> \<exists>i < length ls. r = f (k + i) (ls ! i)"
  unfolding number_rows_set
proof (elim exE conjE)
  fix i assume i: "i < length (drop j ls)" "r = f (k + j + i) (drop j ls ! i)"
  then have "j + i < length ls \<and> r = f (k + (j + i)) (ls ! (j + i))" by (simp add: add.assoc)
  then show ?thesis by blast
qed

lemma number_rows_take: "r \<in> set (number_rows f k (take j ls)) \<Longrightarrow> \<exists>i < length ls. r = f (k + i) (ls ! i)"
  by (auto simp: number_rows_set)

lemma context_rows_set: "set (context_rows c k raw a b) \<subseteq> {Gap} \<union> set (number_rows Unchanged k raw) \<union>
    set (number_rows Unchanged k (take c raw)) \<union> set (number_rows Unchanged (k + (length raw - c)) (drop (length raw - c) raw))"
  by (auto simp: context_rows_def)

lemma context_rows_true:
  "r \<in> set (context_rows c k raw a b) \<Longrightarrow> r = Gap \<or> (\<exists>i < length raw. r = Unchanged (k + i) (raw ! i))"
  using context_rows_set [of c k raw a b] number_rows_take [of r Unchanged k c raw]
    number_rows_drop [of r Unchanged k "length raw - c" raw] number_rows_set [of r Unchanged k raw] by blast

lemma row_true_shift:
  "row_true (k + length os) (n + length ns) olds news r \<Longrightarrow> row_true k n (os @ olds) (ns @ news) r"
  by (cases r) (auto simp: nth_append)

lemma row_true_here:
  "row_true k n os ns r \<Longrightarrow> row_true k n (os @ olds) (ns @ news) r"
  by (cases r) (auto simp: nth_append)

lemma diff_rows_true: "\<forall>p \<in> set ps. \<not> (added p \<and> removed p) \<Longrightarrow> r \<in> set (diff_rows c ps k n lead) \<Longrightarrow> row_true k n (old_of ps) (new_of ps) r"
proof (induction ps arbitrary: k n lead)
  case (Cons p ps)
  let ?raw = "raw_lines (part_value p)"
  consider (a) "added p" "\<not> removed p" | (d) "\<not> added p" "removed p" | (u) "\<not> added p" "\<not> removed p" using Cons.prems(1) by auto
  then show ?case
  proof cases
    case a
    then have "r \<in> set (number_rows Added n ?raw) \<or> r \<in> set (diff_rows c ps k (n + length ?raw) True)"
      using Cons.prems(2) by (simp add: Let_def)
    then show ?thesis
    proof
      assume "r \<in> set (number_rows Added n ?raw)"
      then have "row_true k n [] ?raw r" by (auto simp: number_rows_set)
      then show ?thesis using row_true_here [of k n "[]" ?raw r] a by (simp add: old_of_def new_of_def)
    next
      assume "r \<in> set (diff_rows c ps k (n + length ?raw) True)"
      then show ?thesis using Cons.IH Cons.prems(1) row_true_shift [of k "[]" n ?raw] a by (simp add: old_of_def new_of_def)
    qed
  next
    case d
    then have "r \<in> set (number_rows Removed k ?raw) \<or> r \<in> set (diff_rows c ps (k + length ?raw) n True)"
      using Cons.prems(2) by (simp add: Let_def)
    then show ?thesis
    proof
      assume "r \<in> set (number_rows Removed k ?raw)"
      then have "row_true k n ?raw [] r" by (auto simp: number_rows_set)
      then show ?thesis using row_true_here [of k n ?raw "[]" r] d by (simp add: old_of_def new_of_def)
    next
      assume "r \<in> set (diff_rows c ps (k + length ?raw) n True)"
      then show ?thesis using Cons.IH Cons.prems(1) row_true_shift [of k ?raw n "[]"] d by (simp add: old_of_def new_of_def)
    qed
  next
    case u
    let ?ctx = "context_rows c k ?raw lead (case ps of [] \<Rightarrow> False | q # _ \<Rightarrow> is_change q)"
    have "r \<in> set ?ctx \<or> r \<in> set (diff_rows c ps (k + length ?raw) (n + length ?raw) False)"
      using Cons.prems(2) u by (simp add: Let_def)
    then show ?thesis
    proof
      assume "r \<in> set ?ctx"
      then have "row_true k n ?raw ?raw r" using context_rows_true by fastforce
      then show ?thesis using row_true_here [of k n ?raw ?raw r] u by (simp add: old_of_def new_of_def)
    next
      assume "r \<in> set (diff_rows c ps (k + length ?raw) (n + length ?raw) False)"
      then show ?thesis using Cons.IH Cons.prems(1) row_true_shift [of k ?raw n ?raw] u by (simp add: old_of_def new_of_def)
    qed
  qed
qed simp


section \<open>The rows determine the edit\<close>

lemma in_lines [simp]:
  "added_lines (xs @ ys) = added_lines xs \<union> added_lines ys" "removed_lines (xs @ ys) = removed_lines xs \<union> removed_lines ys"
  "added_lines (number_rows Added n ls) = {n ..< n + length ls}" "removed_lines (number_rows Added n ls) = {}"
  "added_lines (number_rows Removed n ls) = {}" "removed_lines (number_rows Removed n ls) = {n ..< n + length ls}"
  by (auto simp: added_lines_def removed_lines_def number_rows_set) (metis le_Suc_ex nat_add_left_cancel_less)+

lemma context_lines [simp]: "added_lines (context_rows c k raw a b) = {}" "removed_lines (context_rows c k raw a b) = {}"
  using context_rows_true by (fastforce simp: added_lines_def removed_lines_def)+

lemma lines_later:
  assumes "\<forall>p \<in> set ps. \<not> (added p \<and> removed p)"
  shows "i \<in> added_lines (diff_rows c ps k n lead) \<Longrightarrow> n \<le> i" "i \<in> removed_lines (diff_rows c ps k n lead) \<Longrightarrow> k \<le> i"
  using diff_rows_true [OF assms] by (fastforce simp: added_lines_def removed_lines_def)+

lemma nths_none:
  assumes "\<forall>i < length xs. i \<notin> A"
  shows "nths xs A = []"
proof -
  have "set (nths xs A) = {}" using set_nths [of xs A] assms by auto
  then show ?thesis by simp
qed

lemma kept_lines:
  "\<forall>p \<in> set ps. \<not> (added p \<and> removed p) \<Longrightarrow>
    nths (old_of ps) {i. k + i \<notin> removed_lines (diff_rows c ps k n lead)} =
    nths (new_of ps) {i. n + i \<notin> added_lines (diff_rows c ps k n lead)}"
proof (induction ps arbitrary: k n lead)
  case Nil
  then show ?case by (simp add: old_of_def new_of_def)
next
  case (Cons p ps)
  let ?raw = "raw_lines (part_value p)"
  have ps: "\<forall>p \<in> set ps. \<not> (added p \<and> removed p)" using Cons.prems by simp
  consider (a) "added p" "\<not> removed p" | (d) "\<not> added p" "removed p" | (u) "\<not> added p" "\<not> removed p" using Cons.prems by auto
  then show ?case
  proof cases
    case a
    let ?R = "diff_rows c ps k (n + length ?raw) True"
    have s: "{j. n + (j + length ?raw) \<notin> {n ..< n + length ?raw} \<union> added_lines ?R} = {j. n + length ?raw + j \<notin> added_lines ?R}"
      by (auto simp: ac_simps)
    have "nths ?raw {i. n + i \<notin> {n ..< n + length ?raw} \<union> added_lines ?R} = []" by (rule nths_none) simp
    then show ?thesis using a Cons.IH [OF ps, of k "n + length ?raw" True] s
      by (simp add: old_of_def new_of_def Let_def nths_append)
  next
    case d
    let ?R = "diff_rows c ps (k + length ?raw) n True"
    have s: "{j. k + (j + length ?raw) \<notin> {k ..< k + length ?raw} \<union> removed_lines ?R} = {j. k + length ?raw + j \<notin> removed_lines ?R}"
      by (auto simp: ac_simps)
    have "nths ?raw {i. k + i \<notin> {k ..< k + length ?raw} \<union> removed_lines ?R} = []" by (rule nths_none) simp
    then show ?thesis using d Cons.IH [OF ps, of "k + length ?raw" n True] s
      by (simp add: old_of_def new_of_def Let_def nths_append)
  next
    case u
    let ?R = "diff_rows c ps (k + length ?raw) (n + length ?raw) False"
    have "nths ?raw {i. k + i \<notin> removed_lines ?R} = ?raw" "nths ?raw {i. n + i \<notin> added_lines ?R} = ?raw"
      using lines_later [OF ps] by (fastforce intro!: nths_all)+
    moreover have "{j. k + (j + length ?raw) \<notin> removed_lines ?R} = {j. k + length ?raw + j \<notin> removed_lines ?R}"
      "{j. n + (j + length ?raw) \<notin> added_lines ?R} = {j. n + length ?raw + j \<notin> added_lines ?R}"
      by (auto simp: ac_simps)
    ultimately show ?thesis using u Cons.IH [OF ps, of "k + length ?raw" "n + length ?raw" False]
      by (simp add: old_of_def new_of_def Let_def nths_append)
  qed
qed

lemma first_changed:
  "case first_changed_line ps n of None \<Rightarrow> old_of ps = new_of ps
    | Some m \<Rightarrow> n \<le> m \<and> take (m - n) (old_of ps) = take (m - n) (new_of ps)"
proof (induction ps arbitrary: n)
  case (Cons p ps)
  let ?raw = "raw_lines (part_value p)"
  show ?case using Cons [of "n + length ?raw"]
    by (auto simp: old_of_def new_of_def is_change_def split: option.splits)
qed (simp add: old_of_def new_of_def)

section \<open>The parts of the package\<close>

text \<open>What \<open>diffLines\<close> documents: the values that are not added make up the old text, those that are not removed the new
  one, and parts are made of whole lines.\<close>

definition whole_lines :: "diff_part list \<Rightarrow> bool" where
  "whole_lines ps \<longleftrightarrow> (\<forall>p \<in> set (butlast ps). part_value p \<noteq> [] \<and> last (part_value p) = newline)"

definition diff_of :: "text16 \<Rightarrow> text16 \<Rightarrow> diff_part list \<Rightarrow> bool" where
  "diff_of old new ps \<longleftrightarrow> (\<forall>p \<in> set ps. \<not> (added p \<and> removed p)) \<and>
     concat (map part_value (filter (\<lambda>p. \<not> added p) ps)) = old \<and> whole_lines (filter (\<lambda>p. \<not> added p) ps) \<and>
     concat (map part_value (filter (\<lambda>p. \<not> removed p) ps)) = new \<and> whole_lines (filter (\<lambda>p. \<not> removed p) ps)"

lemma raw_append: "v \<noteq> [] \<Longrightarrow> last v = newline \<Longrightarrow> raw_lines (v @ w) = raw_lines v @ raw_lines w"
proof -
  assume "v \<noteq> []" "last v = newline"
  then obtain x where "v = x @ [newline]" by (metis append_butlast_last_id)
  then show ?thesis using split_on_append [of newline x w] split_on_append [of newline x "[]"]
    by (simp add: raw_lines_def Let_def butlast_append)
qed

lemma raw_concat: "whole_lines ps \<Longrightarrow> raw_lines (concat (map part_value ps)) = concat (map (raw_lines \<circ> part_value) ps)"
proof (induction ps)
  case Nil
  then show ?case by (simp add: raw_lines_def)
next
  case (Cons p ps)
  show ?case
  proof (cases "ps = []")
    case False
    then have "part_value p \<noteq> []" "last (part_value p) = newline" "whole_lines ps"
      using Cons.prems by (auto simp: whole_lines_def)
    then show ?thesis using Cons.IH by (simp add: raw_append)
  qed simp
qed

text \<open>C29. The display of an edit is true and complete: every row shows a line of the old or the new text under its own
  number, and the old lines that are not shown as removed are the new lines that are not shown as added. Before the
  first changed line the texts are equal, and without one they have the same lines.\<close>

theorem diff_display_true:
  assumes "diff_of old new (diff_lines old new)"
  shows "\<exists>w rows. fst (generate_diff_string diff_lines old new c) = join_on newline (map (render_row w) rows) \<and>
    list_all (row_true 1 1 (raw_lines old) (raw_lines new)) rows \<and>
    nths (raw_lines old) {i. Suc i \<notin> removed_lines rows} = nths (raw_lines new) {i. Suc i \<notin> added_lines rows} \<and>
    (case snd (generate_diff_string diff_lines old new c) of None \<Rightarrow> raw_lines old = raw_lines new
     | Some m \<Rightarrow> 0 < m \<and> take (m - 1) (raw_lines old) = take (m - 1) (raw_lines new))"
proof -
  let ?ps = "diff_lines old new"
  let ?rows = "diff_rows c ?ps 1 1 False"
  have n: "\<forall>p \<in> set ?ps. \<not> (added p \<and> removed p)" and o: "old_of ?ps = raw_lines old" and w: "new_of ?ps = raw_lines new"
    using assms by (auto simp: diff_of_def old_of_def new_of_def simp flip: raw_concat)
  have "list_all (row_true 1 1 (raw_lines old) (raw_lines new)) ?rows"
    using diff_rows_true [OF n] o w by (simp add: list_all_iff)
  moreover have "nths (raw_lines old) {i. Suc i \<notin> removed_lines ?rows} = nths (raw_lines new) {i. Suc i \<notin> added_lines ?rows}"
    using kept_lines [OF n, of 1 c 1 False] o w by simp
  moreover have "case snd (generate_diff_string diff_lines old new c) of None \<Rightarrow> raw_lines old = raw_lines new
     | Some m \<Rightarrow> 0 < m \<and> take (m - 1) (raw_lines old) = take (m - 1) (raw_lines new)"
    using first_changed [of ?ps 1] o w by (auto simp: generate_diff_string_def Let_def split: option.splits)
  ultimately show ?thesis by (auto simp: generate_diff_string_def Let_def)
qed

text \<open>The edit of \<open>b\<close> in a text of three lines.\<close>

definition sample_diff :: "text16 \<Rightarrow> text16 \<Rightarrow> diff_part list" where
  "sample_diff old new = [\<lparr>part_value = [0x61, newline], added = False, removed = False\<rparr>,
     \<lparr>part_value = [0x62, newline], added = False, removed = True\<rparr>,
     \<lparr>part_value = [0x78, newline], added = True, removed = False\<rparr>,
     \<lparr>part_value = [0x63], added = False, removed = False\<rparr>]"

lemma diff_display_true_witness:
  "snd (generate_diff_string sample_diff [0x61, newline, 0x62, newline, 0x63] [0x61, newline, 0x78, newline, 0x63] 4) = Some 2 \<and>
   (\<exists>w rows. fst (generate_diff_string sample_diff [0x61, newline, 0x62, newline, 0x63] [0x61, newline, 0x78, newline, 0x63] 4) =
      join_on newline (map (render_row w) rows) \<and>
     nths [[0x61], [0x62], [0x63] :: text16] {i. Suc i \<notin> removed_lines rows} = nths [[0x61], [0x78], [0x63]] {i. Suc i \<notin> added_lines rows})"
proof -
  let ?old = "[0x61, newline, 0x62, newline, 0x63]" and ?new = "[0x61, newline, 0x78, newline, 0x63]"
  have d: "diff_of ?old ?new (sample_diff ?old ?new)" by code_simp
  have l: "raw_lines ?old = [[0x61], [0x62], [0x63]]" "raw_lines ?new = [[0x61], [0x78], [0x63]]"
    "snd (generate_diff_string sample_diff ?old ?new 4) = Some 2" by code_simp+
  show ?thesis using diff_display_true [of ?old ?new sample_diff 4, OF d] unfolding l by auto
qed

end
