(* ===== verification/EditTool.thy ===== *)
theory EditTool
  imports EditShow
begin

text \<open>
  The edit tool, \<open>packages/agent/src/harness/tools/edit.ts\<close>. The execution environment answers with a file's kind, its
  text and the outcome of a write; the abort signal is read at four points. The patch of the package \<open>diff\<close> is left
  out of the result.
\<close>

datatype file_kind = File | Directory | Symlink

record 'c edit_env =
  file_info :: "'c + file_kind"
  read_text_file :: "'c + text16"
  write_file :: "text16 \<Rightarrow> 'c + unit"
  aborted_at :: "nat \<Rightarrow> bool"

datatype 'c edit_failure = Aborted | AccessError 'c | NotAFile | EditFailed edit_error

record edit_result =
  replaced_blocks :: nat
  shown_diff :: text16
  first_changed :: "nat option"

text \<open>The second component is what the tool has asked the environment to write.\<close>

definition execute_edit :: "(text16 \<Rightarrow> text16) \<Rightarrow> (text16 \<Rightarrow> text16 \<Rightarrow> diff_part list) \<Rightarrow> 'c edit_env \<Rightarrow> text_edit list \<Rightarrow>
    ('c edit_failure + edit_result) \<times> text16 option" where
  "execute_edit nfkc diff_lines env edits =
    (if edits = [] then (Inl (EditFailed NoEdits), None)
     else if aborted_at env 0 then (Inl Aborted, None)
     else (case file_info env of
       Inl c \<Rightarrow> (Inl (AccessError c), None)
     | Inr kind \<Rightarrow>
         if kind \<noteq> File \<and> kind \<noteq> Symlink then (Inl NotAFile, None)
         else (case read_text_file env of
           Inl c \<Rightarrow> (Inl (AccessError c), None)
         | Inr raw \<Rightarrow>
             if aborted_at env 1 then (Inl Aborted, None)
             else (case strip_bom raw of (mark, content) \<Rightarrow>
               (case apply_edits nfkc (normalize_to_lf content) edits of
                 Inl e \<Rightarrow> (Inl (EditFailed e), None)
               | Inr r \<Rightarrow>
                   if aborted_at env 2 then (Inl Aborted, None)
                   else (let final = mark @ restore_line_endings (new_content r) (detect_line_ending content) in
                     case write_file env final of
                       Inl c \<Rightarrow> (Inl (AccessError c), Some final)
                     | Inr _ \<Rightarrow>
                         if aborted_at env 3 then (Inl Aborted, Some final)
                         else (case generate_diff_string diff_lines (base_content r) (new_content r) 4 of
                           (d, first) \<Rightarrow> (Inr \<lparr>replaced_blocks = length edits, shown_diff = d, first_changed = first\<rparr>, Some final))))))))"

text \<open>The tool writes at most once, and only the edited text of the file it has read; when it writes nothing it
  fails, and when it fails for the edits themselves it has written nothing.\<close>

theorem edit_writes_edited:
  "(case execute_edit nfkc diff_lines env edits of
      (Inr res, w) \<Rightarrow> \<exists>raw final. read_text_file env = Inr raw \<and> edited_file nfkc raw edits = Inr final \<and> w = Some final
    | (Inl (EditFailed e), w) \<Rightarrow> w = None
    | (Inl f, w) \<Rightarrow> (case w of None \<Rightarrow> True
        | Some final \<Rightarrow> \<exists>raw. read_text_file env = Inr raw \<and> edited_file nfkc raw edits = Inr final))"
  by (auto simp: execute_edit_def edited_file_def Let_def split: sum.splits prod.splits edit_failure.splits option.splits)

end
