(* ===== verification/AgentLoop.thy ===== *)
theory AgentLoop
  imports Json "HOL-Library.State_Monad"
begin

text \<open>
  The agent loop, \<open>packages/agent/src/agent-loop.ts\<close>: turns of a model with the execution of its tool calls. The
  answers of the model, of tools and hooks, the abort signal, the clock and the order in which parallel tools finish
  come from a world of type \<open>'w\<close>, which every call and every emitted event may change. The emitted events are
  collected. A tool's updates are emitted when it settles, and the executions of a parallel batch start without an
  effect on the world.
\<close>

section \<open>Messages and events\<close>

datatype stop = PendingStop | Stop | Length | ToolUse | ErrorStop | AbortedStop | DeferredStop

record agent_call =
  call_id :: string
  call_name :: string
  call_args :: json
  call_rest :: json

datatype content_block = CallBlock agent_call | OtherBlock json

record assistant =
  as_content :: "content_block list"
  as_stop :: stop
  as_rest :: json

record call_result =
  cr_content :: "json option"
  cr_details :: "json option"
  cr_usage :: "json option"
  cr_added :: "string list"
  cr_terminate :: "bool option"

record result_message =
  rm_call_id :: string
  rm_name :: string
  rm_content :: json
  rm_details :: "json option"
  rm_usage :: "json option"
  rm_added :: "string list"
  rm_is_error :: bool
  rm_timestamp :: nat

datatype message = AssistantMsg assistant | ResultMsg result_message | OtherMsg json

datatype agent_event = AgentStart | AgentEnd "message list" | TurnStart | TurnEnd assistant "result_message list"
  | MessageStart message | MessageUpdate json assistant | MessageEnd message
  | ToolStart agent_call | ToolUpdate agent_call call_result | ToolEnd agent_call call_result bool

datatype stream_event = StreamStart assistant | StreamUpdate json assistant | StreamFinish

section \<open>Configuration\<close>

datatype execution_mode = Sequential | Parallel

record 'w agent_tool =
  tool_name :: string
  tool_mode :: "execution_mode option"
  prepare_arguments :: "(json \<Rightarrow> string + json) option"
  tool_execute :: "string \<Rightarrow> json \<Rightarrow> 'w \<Rightarrow> (call_result list \<times> (string + call_result)) \<times> 'w"

record 'w agent_context =
  system_prompt :: string
  messages :: "message list"
  tools :: "'w agent_tool list option"

record 'w completed_turn =
  ct_message :: assistant
  ct_results :: "result_message list"
  ct_context :: "'w agent_context"
  ct_new :: "message list"

record 'w turn_update =
  tu_context :: "'w agent_context option"
  tu_model :: "json option"
  tu_thinking :: "string option"

record before_result =
  br_block :: bool
  br_reason :: "string option"
  br_terminate :: bool

record after_result =
  ar_content :: "json option"
  ar_details :: "json option"
  ar_usage :: "json option"
  ar_terminate :: "bool option"
  ar_is_error :: "bool option"

record 'w loop_config =
  model :: json
  reasoning :: "string option"
  api_key :: "string option"
  tool_execution :: "execution_mode option"
  transform_context :: "(message list \<Rightarrow> 'w \<Rightarrow> message list \<times> 'w) option"
  convert_to_llm :: "message list \<Rightarrow> 'w \<Rightarrow> json list \<times> 'w"
  get_api_key :: "(json \<Rightarrow> 'w \<Rightarrow> string option \<times> 'w) option"
  get_steering :: "('w \<Rightarrow> message list \<times> 'w) option"
  get_follow_up :: "('w \<Rightarrow> message list \<times> 'w) option"
  prepare_next_turn :: "('w completed_turn \<Rightarrow> 'w \<Rightarrow> 'w turn_update option \<times> 'w) option"
  should_stop :: "('w completed_turn \<Rightarrow> 'w \<Rightarrow> bool \<times> 'w) option"
  before_tool_call :: "(assistant \<Rightarrow> agent_call \<Rightarrow> json \<Rightarrow> 'w agent_context \<Rightarrow> 'w \<Rightarrow> (string + before_result option) \<times> 'w) option"
  after_tool_call :: "(assistant \<Rightarrow> agent_call \<Rightarrow> json \<Rightarrow> call_result \<Rightarrow> bool \<Rightarrow> 'w agent_context \<Rightarrow> 'w \<Rightarrow>
    (string + after_result option) \<times> 'w) option"

record 'w loop_env =
  stream_fn :: "json \<Rightarrow> string option \<Rightarrow> string option \<Rightarrow> string \<Rightarrow> json list \<Rightarrow> 'w agent_tool list option \<Rightarrow> 'w \<Rightarrow>
    (stream_event list \<times> assistant) \<times> 'w"
  validate_arguments :: "'w agent_tool \<Rightarrow> agent_call \<Rightarrow> string + json"
  on_event :: "agent_event \<Rightarrow> 'w \<Rightarrow> 'w"
  aborted :: "'w \<Rightarrow> bool"
  clock :: "'w \<Rightarrow> nat"
  finish_rank :: "agent_call list \<Rightarrow> 'w \<Rightarrow> (nat \<Rightarrow> nat) \<times> 'w"

type_synonym ('w, 'a) io = "('w \<times> agent_event list, 'a) state"

definition ext :: "('w \<Rightarrow> 'a \<times> 'w) \<Rightarrow> ('w, 'a) io" where
  "ext f = State (\<lambda>(w, tr). case f w of (a, w') \<Rightarrow> (a, w', tr))"

definition ext_or :: "'a \<Rightarrow> ('w \<Rightarrow> 'a \<times> 'w) option \<Rightarrow> ('w, 'a) io" where
  "ext_or d f = (case f of None \<Rightarrow> State_Monad.return d | Some g \<Rightarrow> ext g)"

definition emit :: "'w loop_env \<Rightarrow> agent_event \<Rightarrow> ('w, unit) io" where
  "emit env ev = State (\<lambda>(w, tr). ((), on_event env ev w, tr @ [ev]))"

definition reading :: "('w \<Rightarrow> 'a) \<Rightarrow> ('w, 'a) io" where
  "reading f = State (\<lambda>(w, tr). (f w, w, tr))"

fun each_of :: "('a \<Rightarrow> ('w, 'b) io) \<Rightarrow> 'a list \<Rightarrow> ('w, 'b list) io" where
  "each_of f [] = State_Monad.return []"
| "each_of f (x # xs) = do { y \<leftarrow> f x; ys \<leftarrow> each_of f xs; State_Monad.return (y # ys) }"

definition emit_message :: "'w loop_env \<Rightarrow> message \<Rightarrow> ('w, unit) io" where
  "emit_message env m = do { emit env (MessageStart m); emit env (MessageEnd m) }"

section \<open>The response of the model\<close>

definition push_message :: "message \<Rightarrow> 'w agent_context \<Rightarrow> 'w agent_context" where
  "push_message m ctx = ctx\<lparr>messages := messages ctx @ [m]\<rparr>"

definition put_last :: "message \<Rightarrow> 'w agent_context \<Rightarrow> 'w agent_context" where
  "put_last m ctx = ctx\<lparr>messages := butlast (messages ctx) @ [m]\<rparr>"

definition finish_response :: "'w loop_env \<Rightarrow> 'w agent_context \<Rightarrow> bool \<Rightarrow> assistant \<Rightarrow> ('w, assistant \<times> 'w agent_context) io" where
  "finish_response env ctx added final = do {
     (if added then State_Monad.return () else emit env (MessageStart (AssistantMsg final)));
     emit env (MessageEnd (AssistantMsg final));
     State_Monad.return (final, (if added then put_last else push_message) (AssistantMsg final) ctx) }"

fun stream_loop :: "'w loop_env \<Rightarrow> 'w agent_context \<Rightarrow> bool \<Rightarrow> assistant \<Rightarrow> stream_event list \<Rightarrow> ('w, assistant \<times> 'w agent_context) io" where
  "stream_loop env ctx added final [] = finish_response env ctx added final"
| "stream_loop env ctx added final (StreamStart p # evs) = do {
     emit env (MessageStart (AssistantMsg p));
     stream_loop env (push_message (AssistantMsg p) ctx) True final evs }"
| "stream_loop env ctx added final (StreamUpdate ev p # evs) =
     (if added then do { emit env (MessageUpdate ev p); stream_loop env (put_last (AssistantMsg p) ctx) added final evs }
      else stream_loop env ctx added final evs)"
| "stream_loop env ctx added final (StreamFinish # evs) = finish_response env ctx added final"

definition resolve_key :: "'w loop_config \<Rightarrow> ('w, string option) io" where
  "resolve_key cfg = do {
     k \<leftarrow> ext_or None (map_option (\<lambda>f. f (model cfg)) (get_api_key cfg));
     State_Monad.return (if k = None \<or> k = Some [] then api_key cfg else k) }"

definition stream_assistant_response :: "'w loop_env \<Rightarrow> 'w loop_config \<Rightarrow> 'w agent_context \<Rightarrow> ('w, assistant \<times> 'w agent_context) io" where
  "stream_assistant_response env cfg ctx = do {
     ms \<leftarrow> ext_or (messages ctx) (map_option (\<lambda>f. f (messages ctx)) (transform_context cfg));
     llm \<leftarrow> ext (convert_to_llm cfg ms);
     key \<leftarrow> resolve_key cfg;
     (evs, final) \<leftarrow> ext (stream_fn env (model cfg) (reasoning cfg) key (system_prompt ctx) llm (tools ctx));
     stream_loop env ctx False final evs }"

section \<open>Tool calls\<close>

definition error_result :: "string \<Rightarrow> call_result" where
  "error_result s = \<lparr>cr_content = Some (JArr [JObj [(''type'', JStr ''text''), (''text'', JStr s)]]), cr_details = Some (JObj []),
     cr_usage = None, cr_added = [], cr_terminate = None\<rparr>"

record finalized =
  fin_call :: agent_call
  fin_result :: call_result
  fin_error :: bool

definition create_result_message :: "finalized \<Rightarrow> nat \<Rightarrow> result_message" where
  "create_result_message f now = \<lparr>rm_call_id = call_id (fin_call f), rm_name = call_name (fin_call f),
     rm_content = (case cr_content (fin_result f) of None \<Rightarrow> JArr [] | Some c \<Rightarrow> c), rm_details = cr_details (fin_result f),
     rm_usage = cr_usage (fin_result f), rm_added = cr_added (fin_result f), rm_is_error = fin_error f, rm_timestamp = now\<rparr>"

definition emit_end :: "'w loop_env \<Rightarrow> finalized \<Rightarrow> ('w, unit) io" where
  "emit_end env f = emit env (ToolEnd (fin_call f) (fin_result f) (fin_error f))"

definition emit_result :: "'w loop_env \<Rightarrow> finalized \<Rightarrow> ('w, result_message) io" where
  "emit_result env f = do {
     now \<leftarrow> reading (clock env);
     emit_message env (ResultMsg (create_result_message f now));
     State_Monad.return (create_result_message f now) }"

definition truncated_text :: "string \<Rightarrow> string" where
  "truncated_text name = ''Tool call \"'' @ name @ ''\" was not executed: the response hit the output token limit, so its arguments may be truncated. Re-issue the tool call with complete arguments.''"

definition fail_truncated :: "'w loop_env \<Rightarrow> agent_call list \<Rightarrow> ('w, result_message list) io" where
  "fail_truncated env calls = each_of (\<lambda>c. do {
     emit env (ToolStart c);
     emit_end env \<lparr>fin_call = c, fin_result = error_result (truncated_text (call_name c)), fin_error = True\<rparr>;
     emit_result env \<lparr>fin_call = c, fin_result = error_result (truncated_text (call_name c)), fin_error = True\<rparr> }) calls"

datatype 'w preparation = Immediate call_result bool | Prepared agent_call "'w agent_tool" json

definition find_tool :: "'w agent_context \<Rightarrow> string \<Rightarrow> 'w agent_tool option" where
  "find_tool ctx name = (case tools ctx of None \<Rightarrow> None | Some ts \<Rightarrow> List.find (\<lambda>t. tool_name t = name) ts)"

definition prepare_call_arguments :: "'w agent_tool \<Rightarrow> agent_call \<Rightarrow> string + agent_call" where
  "prepare_call_arguments tool call = (case prepare_arguments tool of None \<Rightarrow> Inr call
   | Some f \<Rightarrow> (case f (call_args call) of Inl e \<Rightarrow> Inl e | Inr a \<Rightarrow> Inr (call\<lparr>call_args := a\<rparr>)))"

definition aborted_result :: call_result where
  "aborted_result = error_result ''Operation aborted''"

definition unless_aborted :: "'w loop_env \<Rightarrow> 'w preparation \<Rightarrow> ('w, 'w preparation) io" where
  "unless_aborted env p = do { a \<leftarrow> reading (aborted env); State_Monad.return (if a then Immediate aborted_result True else p) }"

definition blocked_result :: "before_result \<Rightarrow> call_result" where
  "blocked_result b = (error_result (if br_reason b = None \<or> br_reason b = Some [] then ''Tool execution was blocked'' else the (br_reason b)))
     \<lparr>cr_terminate := (if br_terminate b then Some True else None)\<rparr>"

definition prepare_tool_call :: "'w loop_env \<Rightarrow> 'w loop_config \<Rightarrow> 'w agent_context \<Rightarrow> assistant \<Rightarrow> agent_call \<Rightarrow> ('w, 'w preparation) io" where
  "prepare_tool_call env cfg ctx am call = (case find_tool ctx (call_name call) of
     None \<Rightarrow> State_Monad.return (Immediate (error_result (''Tool '' @ call_name call @ '' not found'')) True)
   | Some tool \<Rightarrow> (case (case prepare_call_arguments tool call of Inl e \<Rightarrow> Inl e | Inr c \<Rightarrow> validate_arguments env tool c) of
       Inl e \<Rightarrow> State_Monad.return (Immediate (error_result e) True)
     | Inr args \<Rightarrow> (case before_tool_call cfg of
         None \<Rightarrow> unless_aborted env (Prepared call tool args)
       | Some f \<Rightarrow> do {
           r \<leftarrow> ext (f am call args ctx);
           (case r of
              Inl e \<Rightarrow> State_Monad.return (Immediate (error_result e) True)
            | Inr b \<Rightarrow> unless_aborted env (case b of
                Some b \<Rightarrow> if br_block b then Immediate (blocked_result b) True else Prepared call tool args
              | None \<Rightarrow> Prepared call tool args)) })))"

definition execute_prepared :: "'w loop_env \<Rightarrow> agent_call \<Rightarrow> 'w agent_tool \<Rightarrow> json \<Rightarrow> ('w, call_result \<times> bool) io" where
  "execute_prepared env call tool args = do {
     (updates, r) \<leftarrow> ext (tool_execute tool (call_id call) args);
     _ \<leftarrow> each_of (\<lambda>u. emit env (ToolUpdate call u)) updates;
     State_Monad.return (case r of Inl e \<Rightarrow> (error_result e, True) | Inr res \<Rightarrow> (res, False)) }"

definition override_result :: "after_result \<Rightarrow> call_result \<Rightarrow> call_result" where
  "override_result a r = r\<lparr>cr_content := (case ar_content a of None \<Rightarrow> cr_content r | c \<Rightarrow> c),
     cr_details := (case ar_details a of None \<Rightarrow> cr_details r | d \<Rightarrow> d), cr_usage := (case ar_usage a of None \<Rightarrow> cr_usage r | u \<Rightarrow> u),
     cr_terminate := (case ar_terminate a of None \<Rightarrow> cr_terminate r | t \<Rightarrow> t)\<rparr>"

definition finalize_executed :: "'w loop_config \<Rightarrow> 'w agent_context \<Rightarrow> assistant \<Rightarrow> agent_call \<Rightarrow> json \<Rightarrow> call_result \<Rightarrow> bool \<Rightarrow>
    ('w, finalized) io" where
  "finalize_executed cfg ctx am call args res is_error = do {
     r \<leftarrow> ext_or (Inr None) (map_option (\<lambda>f. f am call args res is_error ctx) (after_tool_call cfg));
     State_Monad.return (case r of
       Inl e \<Rightarrow> \<lparr>fin_call = call, fin_result = error_result e, fin_error = True\<rparr>
     | Inr None \<Rightarrow> \<lparr>fin_call = call, fin_result = res, fin_error = is_error\<rparr>
     | Inr (Some a) \<Rightarrow> \<lparr>fin_call = call, fin_result = override_result a res,
         fin_error = (case ar_is_error a of None \<Rightarrow> is_error | Some b \<Rightarrow> b)\<rparr>) }"

definition run_prepared :: "'w loop_env \<Rightarrow> 'w loop_config \<Rightarrow> 'w agent_context \<Rightarrow> assistant \<Rightarrow> agent_call \<Rightarrow> 'w agent_tool \<Rightarrow> json \<Rightarrow>
    ('w, finalized) io" where
  "run_prepared env cfg ctx am call tool args = do {
     (res, err) \<leftarrow> execute_prepared env call tool args;
     finalize_executed cfg ctx am call args res err }"

section \<open>Batches\<close>

definition should_terminate :: "finalized list \<Rightarrow> bool" where
  "should_terminate fs \<longleftrightarrow> fs \<noteq> [] \<and> list_all (\<lambda>f. cr_terminate (fin_result f) = Some True) fs"

definition sequential_call :: "'w loop_env \<Rightarrow> 'w loop_config \<Rightarrow> 'w agent_context \<Rightarrow> assistant \<Rightarrow> agent_call \<Rightarrow> ('w, finalized \<times> result_message) io" where
  "sequential_call env cfg ctx am c = do {
     emit env (ToolStart c);
     p \<leftarrow> prepare_tool_call env cfg ctx am c;
     f \<leftarrow> (case p of Immediate r e \<Rightarrow> State_Monad.return \<lparr>fin_call = c, fin_result = r, fin_error = e\<rparr>
          | Prepared call tool args \<Rightarrow> run_prepared env cfg ctx am call tool args);
     emit_end env f;
     m \<leftarrow> emit_result env f;
     State_Monad.return (f, m) }"

fun sequential_loop :: "'w loop_env \<Rightarrow> 'w loop_config \<Rightarrow> 'w agent_context \<Rightarrow> assistant \<Rightarrow> agent_call list \<Rightarrow>
    ('w, (finalized \<times> result_message) list) io" where
  "sequential_loop env cfg ctx am [] = State_Monad.return []"
| "sequential_loop env cfg ctx am (c # cs) = do {
     r \<leftarrow> sequential_call env cfg ctx am c;
     a \<leftarrow> reading (aborted env);
     rs \<leftarrow> (if a then State_Monad.return [] else sequential_loop env cfg ctx am cs);
     State_Monad.return (r # rs) }"

definition execute_sequential :: "'w loop_env \<Rightarrow> 'w loop_config \<Rightarrow> 'w agent_context \<Rightarrow> assistant \<Rightarrow> agent_call list \<Rightarrow>
    ('w, result_message list \<times> bool) io" where
  "execute_sequential env cfg ctx am calls = do {
     rs \<leftarrow> sequential_loop env cfg ctx am calls;
     State_Monad.return (map snd rs, should_terminate (map fst rs)) }"

text \<open>A parallel batch: an entry is finalized at once, or still to be executed.\<close>

datatype 'w batch_entry = Finalized finalized | Pending agent_call "'w agent_tool" json

fun prepare_loop :: "'w loop_env \<Rightarrow> 'w loop_config \<Rightarrow> 'w agent_context \<Rightarrow> assistant \<Rightarrow> agent_call list \<Rightarrow> ('w, 'w batch_entry list) io" where
  "prepare_loop env cfg ctx am [] = State_Monad.return []"
| "prepare_loop env cfg ctx am (c # cs) = do {
     emit env (ToolStart c);
     p \<leftarrow> prepare_tool_call env cfg ctx am c;
     e \<leftarrow> (case p of
         Immediate r e \<Rightarrow> do { emit_end env \<lparr>fin_call = c, fin_result = r, fin_error = e\<rparr>;
           State_Monad.return (Finalized \<lparr>fin_call = c, fin_result = r, fin_error = e\<rparr>) }
       | Prepared call tool args \<Rightarrow> State_Monad.return (Pending call tool args));
     a \<leftarrow> reading (aborted env);
     es \<leftarrow> (if a then State_Monad.return [] else prepare_loop env cfg ctx am cs);
     State_Monad.return (e # es) }"

definition start_entry :: "'w loop_env \<Rightarrow> 'w batch_entry \<Rightarrow> ('w, 'w batch_entry) io" where
  "start_entry env e = (case e of
     Finalized f \<Rightarrow> State_Monad.return e
   | Pending call tool args \<Rightarrow> do {
       a \<leftarrow> reading (aborted env);
       (if a then do { emit_end env \<lparr>fin_call = call, fin_result = aborted_result, fin_error = True\<rparr>;
           State_Monad.return (Finalized \<lparr>fin_call = call, fin_result = aborted_result, fin_error = True\<rparr>) }
        else State_Monad.return e) })"

definition settle_entry :: "'w loop_env \<Rightarrow> 'w loop_config \<Rightarrow> 'w agent_context \<Rightarrow> assistant \<Rightarrow> 'w batch_entry \<Rightarrow> ('w, finalized) io" where
  "settle_entry env cfg ctx am e = (case e of
     Finalized f \<Rightarrow> State_Monad.return f
   | Pending call tool args \<Rightarrow> do {
       f \<leftarrow> run_prepared env cfg ctx am call tool args;
       emit_end env f;
       State_Monad.return f })"

fun entry_call :: "'w batch_entry \<Rightarrow> agent_call" where
  "entry_call (Finalized f) = fin_call f"
| "entry_call (Pending call tool args) = call"

text \<open>The executions settle in the order of the ranks; \<open>Promise.all\<close> gives their results in the order of the calls.\<close>

definition settle_all :: "'w loop_env \<Rightarrow> 'w loop_config \<Rightarrow> 'w agent_context \<Rightarrow> assistant \<Rightarrow> 'w batch_entry list \<Rightarrow> ('w, finalized list) io" where
  "settle_all env cfg ctx am es = do {
     rank \<leftarrow> ext (finish_rank env (map entry_call es));
     fs \<leftarrow> each_of (\<lambda>i. do { f \<leftarrow> settle_entry env cfg ctx am (es ! i); State_Monad.return (i, f) }) (sort_key rank [0..<length es]);
     State_Monad.return (map (\<lambda>i. the (map_of fs i)) [0..<length es]) }"

definition execute_parallel :: "'w loop_env \<Rightarrow> 'w loop_config \<Rightarrow> 'w agent_context \<Rightarrow> assistant \<Rightarrow> agent_call list \<Rightarrow>
    ('w, result_message list \<times> bool) io" where
  "execute_parallel env cfg ctx am calls = do {
     es \<leftarrow> prepare_loop env cfg ctx am calls;
     started \<leftarrow> each_of (start_entry env) es;
     fs \<leftarrow> settle_all env cfg ctx am started;
     ms \<leftarrow> each_of (emit_result env) fs;
     State_Monad.return (ms, should_terminate fs) }"

definition calls_of :: "assistant \<Rightarrow> agent_call list" where
  "calls_of am = concat (map (\<lambda>b. case b of CallBlock c \<Rightarrow> [c] | OtherBlock _ \<Rightarrow> []) (as_content am))"

definition execute_tool_calls :: "'w loop_env \<Rightarrow> 'w loop_config \<Rightarrow> 'w agent_context \<Rightarrow> assistant \<Rightarrow> ('w, result_message list \<times> bool) io" where
  "execute_tool_calls env cfg ctx am = (let calls = calls_of am;
       has_sequential = list_ex (\<lambda>c. case find_tool ctx (call_name c) of None \<Rightarrow> False | Some t \<Rightarrow> tool_mode t = Some Sequential) calls in
     if tool_execution cfg = Some Sequential \<or> has_sequential then execute_sequential env cfg ctx am calls
     else execute_parallel env cfg ctx am calls)"

section \<open>The loop\<close>

record 'w loop_state =
  ls_context :: "'w agent_context"
  ls_new :: "message list"
  ls_config :: "'w loop_config"
  ls_last :: "'w completed_turn option"
  ls_pending :: "message list"
  ls_more :: bool
  ls_done :: bool

definition steering :: "'w loop_config \<Rightarrow> ('w, message list) io" where
  "steering cfg = ext_or [] (get_steering cfg)"

definition updated_config :: "'w turn_update \<Rightarrow> 'w loop_config \<Rightarrow> 'w loop_config" where
  "updated_config u cfg = cfg\<lparr>model := (case tu_model u of None \<Rightarrow> model cfg | Some m \<Rightarrow> m),
     reasoning := (case tu_thinking u of None \<Rightarrow> reasoning cfg | Some l \<Rightarrow> if l = ''off'' then None else Some l)\<rparr>"

text \<open>The preparation of a turn after the first one.\<close>

definition next_turn :: "'w loop_env \<Rightarrow> 'w loop_state \<Rightarrow> ('w, 'w loop_state) io" where
  "next_turn env st = (case ls_last st of
     None \<Rightarrow> State_Monad.return st
   | Some t \<Rightarrow> do {
       u \<leftarrow> ext_or None (map_option (\<lambda>f. f t) (prepare_next_turn (ls_config st)));
       st' \<leftarrow> State_Monad.return (case u of None \<Rightarrow> st
         | Some u \<Rightarrow> st\<lparr>ls_context := (case tu_context u of None \<Rightarrow> ls_context st | Some c \<Rightarrow> c), ls_config := updated_config u (ls_config st)\<rparr>);
       p \<leftarrow> (if ls_pending st' = [] then steering (ls_config st') else State_Monad.return (ls_pending st'));
       emit env TurnStart;
       State_Monad.return (st'\<lparr>ls_pending := p\<rparr>) })"

definition inject_pending :: "'w loop_env \<Rightarrow> 'w loop_state \<Rightarrow> ('w, 'w loop_state) io" where
  "inject_pending env st = do {
     _ \<leftarrow> each_of (emit_message env) (ls_pending st);
     State_Monad.return (st\<lparr>ls_context := (ls_context st)\<lparr>messages := messages (ls_context st) @ ls_pending st\<rparr>,
       ls_new := ls_new st @ ls_pending st, ls_pending := []\<rparr>) }"

definition end_agent :: "'w loop_env \<Rightarrow> 'w loop_state \<Rightarrow> ('w, 'w loop_state) io" where
  "end_agent env st = do { emit env (AgentEnd (ls_new st)); State_Monad.return (st\<lparr>ls_done := True\<rparr>) }"

definition run_calls :: "'w loop_env \<Rightarrow> 'w loop_state \<Rightarrow> assistant \<Rightarrow> ('w, result_message list \<times> bool) io" where
  "run_calls env st am = (if calls_of am = [] then State_Monad.return ([], True)
     else if as_stop am = Length then do { ms \<leftarrow> fail_truncated env (calls_of am); State_Monad.return (ms, False) }
     else execute_tool_calls env (ls_config st) (ls_context st) am)"

definition complete_turn :: "'w loop_env \<Rightarrow> 'w loop_state \<Rightarrow> assistant \<Rightarrow> ('w, 'w loop_state) io" where
  "complete_turn env st am = do {
     (results, terminate) \<leftarrow> run_calls env st am;
     emit env (TurnEnd am results);
     st' \<leftarrow> State_Monad.return (st\<lparr>ls_context := (ls_context st)\<lparr>messages := messages (ls_context st) @ map ResultMsg results\<rparr>,
       ls_new := ls_new st @ map ResultMsg results, ls_more := \<not> terminate\<rparr>);
     t \<leftarrow> State_Monad.return \<lparr>ct_message = am, ct_results = results, ct_context = ls_context st', ct_new = ls_new st'\<rparr>;
     stopped \<leftarrow> ext_or False (map_option (\<lambda>f. f t) (should_stop (ls_config st')));
     (if stopped then end_agent env (st'\<lparr>ls_last := Some t\<rparr>)
      else do { p \<leftarrow> steering (ls_config st'); State_Monad.return (st'\<lparr>ls_last := Some t, ls_pending := p\<rparr>) }) }"

definition respond :: "'w loop_env \<Rightarrow> 'w loop_state \<Rightarrow> ('w, assistant \<times> 'w loop_state) io" where
  "respond env st = do {
     (am, ctx) \<leftarrow> stream_assistant_response env (ls_config st) (ls_context st);
     State_Monad.return (am, st\<lparr>ls_context := ctx, ls_new := ls_new st @ [AssistantMsg am]\<rparr>) }"

definition run_turn :: "'w loop_env \<Rightarrow> 'w loop_state \<Rightarrow> ('w, 'w loop_state) io" where
  "run_turn env st0 = do {
     st1 \<leftarrow> next_turn env st0;
     st2 \<leftarrow> inject_pending env st1;
     (am, st3) \<leftarrow> respond env st2;
     (if as_stop am = ErrorStop \<or> as_stop am = AbortedStop then do {
        emit env (TurnEnd am []);
        end_agent env st3 }
      else complete_turn env st3 am) }"

text \<open>One iteration of the two loops: a turn, or the look for follow-up messages.\<close>

definition loop_step :: "'w loop_env \<Rightarrow> 'w loop_state \<Rightarrow> ('w, 'w loop_state) io" where
  "loop_step env st = (if ls_done st then State_Monad.return st
     else if ls_more st \<or> ls_pending st \<noteq> [] then run_turn env st
     else do {
       f \<leftarrow> ext_or [] (get_follow_up (ls_config st));
       (if f \<noteq> [] then State_Monad.return (st\<lparr>ls_pending := f, ls_more := True\<rparr>) else end_agent env st) })"

fun iterations :: "'w loop_env \<Rightarrow> nat \<Rightarrow> 'w loop_state \<Rightarrow> ('w, 'w loop_state) io" where
  "iterations env 0 st = State_Monad.return st"
| "iterations env (Suc n) st = do { st' \<leftarrow> loop_step env st; iterations env n st' }"

partial_function (option) run_loop :: "'w loop_env \<Rightarrow> 'w loop_state \<Rightarrow> 'w \<times> agent_event list \<Rightarrow> ('w loop_state \<times> 'w \<times> agent_event list) option" where
  "run_loop env st s = (if ls_done st then Some (st, s)
     else (case run_state (loop_step env st) s of (st', s') \<Rightarrow> run_loop env st' s'))"

definition initial_state :: "'w loop_config \<Rightarrow> 'w agent_context \<Rightarrow> message list \<Rightarrow> ('w, 'w loop_state) io" where
  "initial_state cfg ctx new = do {
     p \<leftarrow> steering cfg;
     State_Monad.return \<lparr>ls_context = ctx, ls_new = new, ls_config = cfg, ls_last = None, ls_pending = p, ls_more = True, ls_done = False\<rparr> }"

definition start_agent_loop :: "'w loop_env \<Rightarrow> 'w loop_config \<Rightarrow> 'w agent_context \<Rightarrow> message list \<Rightarrow> ('w, 'w loop_state) io" where
  "start_agent_loop env cfg ctx prompts = do {
     emit env AgentStart;
     emit env TurnStart;
     _ \<leftarrow> each_of (emit_message env) prompts;
     initial_state cfg (ctx\<lparr>messages := messages ctx @ prompts\<rparr>) prompts }"

datatype continue_error = NoMessages | FromAssistant

definition start_agent_loop_continue :: "'w loop_env \<Rightarrow> 'w loop_config \<Rightarrow> 'w agent_context \<Rightarrow> continue_error + ('w, 'w loop_state) io" where
  "start_agent_loop_continue env cfg ctx = (if messages ctx = [] then Inl NoMessages
     else (case last (messages ctx) of
       AssistantMsg _ \<Rightarrow> Inl FromAssistant
     | _ \<Rightarrow> Inr (do { emit env AgentStart; emit env TurnStart; initial_state cfg ctx [] })))"

definition run_agent_loop :: "'w loop_env \<Rightarrow> 'w loop_config \<Rightarrow> 'w agent_context \<Rightarrow> message list \<Rightarrow> 'w \<Rightarrow> (message list \<times> 'w \<times> agent_event list) option" where
  "run_agent_loop env cfg ctx prompts w = (case run_state (start_agent_loop env cfg ctx prompts) (w, []) of
     (st, s) \<Rightarrow> map_option (\<lambda>(st', s'). (ls_new st', s')) (run_loop env st s))"

definition run_agent_loop_continue :: "'w loop_env \<Rightarrow> 'w loop_config \<Rightarrow> 'w agent_context \<Rightarrow> 'w \<Rightarrow>
    continue_error + (message list \<times> 'w \<times> agent_event list) option" where
  "run_agent_loop_continue env cfg ctx w = (case start_agent_loop_continue env cfg ctx of
     Inl e \<Rightarrow> Inl e
   | Inr start \<Rightarrow> (case run_state start (w, []) of (st, s) \<Rightarrow> Inr (map_option (\<lambda>(st', s'). (ls_new st', s')) (run_loop env st s))))"

end
