(* ===== verification/AgentTurns.thy ===== *)
theory AgentTurns
  imports AgentLoop
begin

text \<open>
  What every run of the agent loop does: turns with their tool results, and events that tell the messages. The proofs
  go by weakest preconditions over the emitted events.
\<close>

section \<open>Events of a computation\<close>

text \<open>\<open>m\<close> only adds events, and its result and the added events satisfy \<open>Q\<close>.\<close>

definition yields :: "('w, 'a) io \<Rightarrow> ('a \<Rightarrow> agent_event list \<Rightarrow> bool) \<Rightarrow> bool" where
  "yields m Q \<longleftrightarrow> (\<forall>w tr a w' tr'. run_state m (w, tr) = (a, w', tr') \<longrightarrow> (\<exists>ev. tr' = tr @ ev \<and> Q a ev))"

lemma yields_return [simp]: "yields (State_Monad.return a) Q = Q a []"
  by (simp add: yields_def)

lemma yields_emit [simp]: "yields (emit env e) Q = Q () [e]"
  by (simp add: yields_def emit_def)

lemma yields_bind: "yields m (\<lambda>a ev. yields (f a) (\<lambda>b ev'. Q b (ev @ ev'))) \<Longrightarrow> yields (m \<bind> f) Q"
  unfolding yields_def by (auto split: prod.splits) (metis append_assoc)

lemma yields_ext: "(\<And>a. Q a []) \<Longrightarrow> yields (ext f) Q"
  by (auto simp: yields_def ext_def split: prod.splits)

lemma yields_ext_or: "(\<And>a. Q a []) \<Longrightarrow> yields (ext_or d f) Q"
  by (cases f) (auto simp: ext_or_def intro: yields_ext)

lemma yields_reading: "(\<And>w. Q (f w) []) \<Longrightarrow> yields (reading f) Q"
  by (simp add: yields_def reading_def)

lemma yields_weaken: "yields m P \<Longrightarrow> (\<And>a ev. P a ev \<Longrightarrow> Q a ev) \<Longrightarrow> yields m Q"
  unfolding yields_def by blast

lemmas yields_intros = yields_bind yields_ext yields_ext_or yields_reading

section \<open>Observed events\<close>

definition observed :: "agent_event list \<Rightarrow> agent_event list" where
  "observed ev = filter (\<lambda>e. case e of MessageEnd _ \<Rightarrow> True | AgentEnd _ \<Rightarrow> True | _ \<Rightarrow> False) ev"

lemma observed_simps [simp]:
  "observed [] = []" "observed (xs @ ys) = observed xs @ observed ys"
  "observed (e # ev) = (case e of MessageEnd _ \<Rightarrow> [e] | AgentEnd _ \<Rightarrow> [e] | _ \<Rightarrow> []) @ observed ev"
  by (auto simp: observed_def split: agent_event.splits)

lemma yields_each:
  assumes "\<And>x. yields (f x) (\<lambda>y ev. observed ev = map MessageEnd (g x y) \<and> R x y)"
  shows "yields (each_of f xs) (\<lambda>ys ev. observed ev = map MessageEnd (concat (map2 g xs ys)) \<and> list_all2 R xs ys)"
proof (induction xs)
  case (Cons x xs)
  show ?case
    by (simp, rule yields_bind, rule yields_weaken [OF assms [of x]], rule yields_bind, rule yields_weaken [OF Cons]) simp
qed simp

lemma yields_each_silent:
  assumes "\<And>x. yields (f x) (\<lambda>y ev. observed ev = [] \<and> R x y)"
  shows "yields (each_of f xs) (\<lambda>ys ev. observed ev = [] \<and> list_all2 R xs ys)"
proof -
  have n: "concat (map2 (\<lambda>_ _. []) xs ys) = []" for ys by (induction xs ys rule: list_induct2') auto
  have "yields (each_of f xs) (\<lambda>ys ev. observed ev = map MessageEnd (concat (map2 (\<lambda>_ _. []) xs ys)) \<and> list_all2 R xs ys)"
    by (rule yields_each) (simp add: assms)
  then show ?thesis by (rule yields_weaken) (simp add: n)
qed

lemma emit_messages: "yields (each_of (emit_message env) ms) (\<lambda>_ ev. observed ev = map MessageEnd ms)"
  by (induction ms) (auto simp: emit_message_def intro!: yields_bind elim!: yields_weaken)

section \<open>The response\<close>

lemma finish_response_events:
  "yields (finish_response env ctx added final) (\<lambda>r ev. fst r = final \<and> observed ev = [MessageEnd (AssistantMsg final)])"
  by (auto simp: finish_response_def intro!: yields_bind)

lemma stream_loop_events:
  "yields (stream_loop env ctx added final evs) (\<lambda>r ev. fst r = final \<and> observed ev = [MessageEnd (AssistantMsg final)])"
  by (induction env ctx added final evs rule: stream_loop.induct)
    (auto simp: finish_response_events intro!: yields_bind elim!: yields_weaken)

lemma response_events:
  "yields (stream_assistant_response env cfg ctx) (\<lambda>r ev. observed ev = [MessageEnd (AssistantMsg (fst r))])"
  by (auto simp: stream_assistant_response_def resolve_key_def split: prod.splits intro!: yields_intros yields_weaken [OF stream_loop_events])

section \<open>Tool calls\<close>

definition answers :: "agent_call \<Rightarrow> result_message \<Rightarrow> bool" where
  "answers c m \<longleftrightarrow> rm_call_id m = call_id c \<and> rm_name m = call_name c"

definition may_abort :: "'w loop_env \<Rightarrow> bool" where
  "may_abort env \<longleftrightarrow> (\<exists>w. aborted env w)"

lemma emit_result_events:
  "yields (emit_result env f) (\<lambda>m ev. observed ev = [MessageEnd (ResultMsg m)] \<and> answers (fin_call f) m \<and> rm_is_error m = fin_error f)"
  by (auto simp: emit_result_def emit_message_def create_result_message_def answers_def intro!: yields_intros)

lemma fail_truncated_events:
  "yields (fail_truncated env calls) (\<lambda>ms ev. observed ev = map (MessageEnd \<circ> ResultMsg) ms \<and>
    list_all2 (\<lambda>c m. answers c m \<and> rm_is_error m) calls ms)"
proof -
  have m: "list_all2 R cs ms \<Longrightarrow> concat (map2 (\<lambda>c m. [ResultMsg m]) cs ms) = map ResultMsg ms" for R cs ms
    by (induction rule: list_all2_induct) simp_all
  show ?thesis unfolding fail_truncated_def
    by (rule yields_weaken [OF yields_each [where g = "\<lambda>c m. [ResultMsg m]" and R = "\<lambda>c m. answers c m \<and> rm_is_error m"]])
      (auto simp: emit_end_def m intro!: yields_bind yields_weaken [OF emit_result_events])
qed

lemma prepare_events:
  "yields (prepare_tool_call env cfg ctx am c) (\<lambda>p ev. observed ev = [] \<and> (\<forall>call tool args. p = Prepared call tool args \<longrightarrow> call = c))"
  by (auto simp: prepare_tool_call_def unless_aborted_def split: option.splits sum.splits intro!: yields_intros)

lemma execute_events: "yields (execute_prepared env call tool args) (\<lambda>_ ev. observed ev = [])"
proof -
  have "yields (each_of (\<lambda>u. emit env (ToolUpdate call u)) us) (\<lambda>_ ev. observed ev = [])" for us
    by (rule yields_weaken [OF yields_each_silent [where R = "\<lambda>_ _. True"]]) simp_all
  note u = this
  show ?thesis unfolding execute_prepared_def
    by (auto split: prod.splits intro!: yields_intros yields_weaken [OF u])
qed

lemma finalize_events: "yields (finalize_executed cfg ctx am call args res err) (\<lambda>f ev. observed ev = [] \<and> fin_call f = call)"
  by (auto simp: finalize_executed_def split: sum.splits option.splits intro!: yields_intros)

lemma run_prepared_events: "yields (run_prepared env cfg ctx am call tool args) (\<lambda>f ev. observed ev = [] \<and> fin_call f = call)"
  by (auto simp: run_prepared_def split: prod.splits intro!: yields_bind yields_weaken [OF execute_events] yields_weaken [OF finalize_events])

text \<open>The results of a batch answer the calls in their order, all of them unless there was an abort.\<close>

definition answered :: "'w loop_env \<Rightarrow> agent_call list \<Rightarrow> result_message list \<Rightarrow> bool" where
  "answered env calls ms \<longleftrightarrow> length ms \<le> length calls \<and> list_all2 answers (take (length ms) calls) ms \<and>
     (length ms < length calls \<longrightarrow> may_abort env) \<and> (calls \<noteq> [] \<longrightarrow> ms \<noteq> [])"

lemma sequential_call_events:
  "yields (sequential_call env cfg ctx am c) (\<lambda>r ev. observed ev = [MessageEnd (ResultMsg (snd r))] \<and> answers c (snd r))"
proof -
  have "yields (case p of Immediate r e \<Rightarrow> State_Monad.return \<lparr>fin_call = c, fin_result = r, fin_error = e\<rparr>
      | Prepared call tool args \<Rightarrow> run_prepared env cfg ctx am call tool args) (\<lambda>f ev. observed ev = [] \<and> fin_call f = c)"
    if "\<forall>call tool args. p = Prepared call tool args \<longrightarrow> call = c" for p
    using that by (cases p) (auto intro: yields_weaken [OF run_prepared_events])
  note f = this
  show ?thesis unfolding sequential_call_def emit_end_def
    by (auto intro!: yields_bind yields_weaken [OF prepare_events] yields_weaken [OF f] yields_weaken [OF emit_result_events])
qed

lemma sequential_loop_events:
  "yields (sequential_loop env cfg ctx am calls) (\<lambda>rs ev. observed ev = map (MessageEnd \<circ> ResultMsg \<circ> snd) rs \<and>
    answered env calls (map snd rs))"
proof (induction calls)
  case Nil
  then show ?case by (simp add: answered_def)
next
  case (Cons c cs)
  have "yields (if aborted env w then State_Monad.return [] else sequential_loop env cfg ctx am cs)
      (\<lambda>rs ev. observed ev = map (MessageEnd \<circ> ResultMsg \<circ> snd) rs \<and> (answered env cs (map snd rs) \<or> rs = [] \<and> may_abort env))" for w
    using Cons by (auto simp: may_abort_def elim!: yields_weaken)
  note r = this
  show ?case
    by (auto simp: answered_def intro!: yields_intros yields_weaken [OF sequential_call_events] yields_weaken [OF r])
qed


lemma prepare_loop_events:
  "yields (prepare_loop env cfg ctx am calls) (\<lambda>es ev. observed ev = [] \<and> length es \<le> length calls \<and>
    map entry_call es = take (length es) calls \<and> (length es < length calls \<longrightarrow> may_abort env) \<and> (calls \<noteq> [] \<longrightarrow> es \<noteq> []))"
proof (induction calls)
  case (Cons c cs)
  let ?Q = "\<lambda>cs es ev. observed ev = [] \<and> length es \<le> length cs \<and> map entry_call es = take (length es) cs \<and>
    (length es < length cs \<longrightarrow> may_abort env)"
  have r: "yields (if aborted env w then State_Monad.return [] else prepare_loop env cfg ctx am cs) (?Q cs)" for w
    using Cons by (auto simp: may_abort_def elim!: yields_weaken)
  have e: "yields (case p of
         Immediate r e \<Rightarrow> do { emit_end env \<lparr>fin_call = c, fin_result = r, fin_error = e\<rparr>;
           State_Monad.return (Finalized \<lparr>fin_call = c, fin_result = r, fin_error = e\<rparr>) }
       | Prepared call tool args \<Rightarrow> State_Monad.return (Pending call tool args)) (\<lambda>e ev. observed ev = [] \<and> entry_call e = c)"
    if "\<forall>call tool args. p = Prepared call tool args \<longrightarrow> call = c" for p
    using that by (cases p) (auto simp: emit_end_def intro!: yields_bind)
  show ?case
    by (auto intro!: yields_intros yields_weaken [OF prepare_events] yields_weaken [OF e] yields_weaken [OF r])
qed simp

lemma start_entry_events: "yields (start_entry env e) (\<lambda>e' ev. observed ev = [] \<and> entry_call e' = entry_call e)"
  by (cases e) (auto simp: start_entry_def emit_end_def intro!: yields_intros)

lemma settle_entry_events: "yields (settle_entry env cfg ctx am e) (\<lambda>f ev. observed ev = [] \<and> fin_call f = entry_call e)"
  by (cases e) (auto simp: settle_entry_def emit_end_def intro!: yields_bind yields_weaken [OF run_prepared_events])

lemma indexed: "list_all2 (\<lambda>i r. fst r = i \<and> P i (snd r)) is rs \<Longrightarrow> \<forall>p \<in> set rs. P (fst p) (snd p)"
  by (induction rule: list_all2_induct) auto

lemma settle_all_events: "yields (settle_all env cfg ctx am es) (\<lambda>fs ev. observed ev = [] \<and> map fin_call fs = map entry_call es)"
proof -
  have one: "yields (do { f \<leftarrow> settle_entry env cfg ctx am (es ! i); State_Monad.return (i, f) })
      (\<lambda>r ev. observed ev = [] \<and> fst r = i \<and> fin_call (snd r) = entry_call (es ! i))" for i
    by (auto intro!: yields_bind yields_weaken [OF settle_entry_events])
  have each: "yields (each_of (\<lambda>i. do { f \<leftarrow> settle_entry env cfg ctx am (es ! i); State_Monad.return (i, f) }) is)
      (\<lambda>rs ev. observed ev = [] \<and> list_all2 (\<lambda>i r. fst r = i \<and> fin_call (snd r) = entry_call (es ! i)) is rs)" for "is"
    by (rule yields_each_silent) (rule one)
  have "map (fin_call \<circ> (\<lambda>i. the (map_of rs i))) [0..<length es] = map entry_call es"
    if r: "list_all2 (\<lambda>i r. fst r = i \<and> fin_call (snd r) = entry_call (es ! i)) (sort_key rank [0..<length es]) rs" for rs rank
  proof (rule nth_equalityI)
    fix i assume "i < length (map (fin_call \<circ> (\<lambda>i. the (map_of rs i))) [0..<length es])"
    then have i: "i < length es" by simp
    have "map fst rs = sort_key rank [0..<length es]" using r by (auto simp: list_all2_conv_all_nth intro!: nth_equalityI)
    then have "i \<in> fst ` set rs" using i by (metis atLeastLessThan_iff image_set le0 set_sort set_upt)
    then obtain f where f: "map_of rs i = Some f" by (metis map_of_eq_None_iff not_None_eq)
    have "\<forall>p \<in> set rs. fin_call (snd p) = entry_call (es ! fst p)" using indexed [OF r] by simp
    then have "fin_call f = entry_call (es ! i)" using map_of_SomeD [OF f] by auto
    then show "map (fin_call \<circ> (\<lambda>i. the (map_of rs i))) [0..<length es] ! i = map entry_call es ! i" using f i by simp
  qed simp
  then show ?thesis unfolding settle_all_def by (auto intro!: yields_intros yields_weaken [OF each])
qed

lemma execute_parallel_events:
  "yields (execute_parallel env cfg ctx am calls) (\<lambda>r ev. observed ev = map (MessageEnd \<circ> ResultMsg) (fst r) \<and> answered env calls (fst r))"
proof -
  have start: "yields (each_of (start_entry env) es) (\<lambda>es' ev. observed ev = [] \<and> map entry_call es' = map entry_call es)" for es :: "'a batch_entry list"
  proof (rule yields_weaken [OF yields_each_silent [OF start_entry_events]])
    fix es' ev assume "observed ev = [] \<and> list_all2 (\<lambda>x e'. entry_call e' = entry_call x) es es'"
    then show "observed ev = [] \<and> map entry_call es' = map entry_call es" by (auto simp: list_all2_conv_all_nth intro!: nth_equalityI)
  qed
  have m: "list_all2 R fs ms \<Longrightarrow> concat (map2 (\<lambda>f m. [ResultMsg m]) fs ms) = map ResultMsg ms" for R fs ms
    by (induction rule: list_all2_induct) simp_all
  have results: "yields (each_of (emit_result env) fs) (\<lambda>ms ev. observed ev = map (MessageEnd \<circ> ResultMsg) ms \<and>
      list_all2 (\<lambda>f m. answers (fin_call f) m) fs ms)" for fs
    by (rule yields_weaken [OF yields_each [where g = "\<lambda>f m. [ResultMsg m]" and R = "\<lambda>f m. answers (fin_call f) m"]])
      (auto simp: m intro!: yields_weaken [OF emit_result_events])
  have "answered env calls ms" if "map fin_call fs = take k calls" "k \<le> length calls" "k < length calls \<longrightarrow> may_abort env"
      "calls \<noteq> [] \<longrightarrow> 0 < k" "list_all2 (\<lambda>f m. answers (fin_call f) m) fs ms" for fs ms k
  proof -
    have "length ms = k" using that(1,2,5) by (metis length_map length_take list_all2_lengthD min.absorb2)
    moreover have "list_all2 answers (map fin_call fs) ms" using that(5) by (simp add: list_all2_map1)
    ultimately show ?thesis using that(1-4) by (auto simp: answered_def)
  qed
  note a = this
  show ?thesis unfolding execute_parallel_def
  proof (rule yields_bind, rule yields_weaken [OF prepare_loop_events], rule yields_bind, rule yields_weaken [OF start],
      rule yields_bind, rule yields_weaken [OF settle_all_events], rule yields_bind, rule yields_weaken [OF results],
      unfold yields_return, goal_cases)
    case (1 es ev started ev1 fs ev2 ms ev3)
    then have "answered env calls ms" by (intro a [of fs "length es"]) (simp_all add: length_greater_0_conv)
    then show ?case using 1 by simp
  qed
qed

lemma execute_calls_events:
  "yields (execute_tool_calls env cfg ctx am) (\<lambda>r ev. observed ev = map (MessageEnd \<circ> ResultMsg) (fst r) \<and> answered env (calls_of am) (fst r))"
  by (auto simp: execute_tool_calls_def execute_sequential_def Let_def comp_assoc
    intro!: yields_bind yields_weaken [OF sequential_loop_events] yields_weaken [OF execute_parallel_events])


section \<open>Turns\<close>

text \<open>A turn: the messages injected before it, the response and the results of its calls.\<close>

record turn =
  tn_input :: "message list"
  tn_response :: assistant
  tn_results :: "result_message list"

definition turn_messages :: "turn \<Rightarrow> message list" where
  "turn_messages t = tn_input t @ [AssistantMsg (tn_response t)] @ map ResultMsg (tn_results t)"

definition failed :: "turn \<Rightarrow> bool" where
  "failed t \<longleftrightarrow> as_stop (tn_response t) = ErrorStop \<or> as_stop (tn_response t) = AbortedStop"

text \<open>A failed response is answered by nothing; one that was cut off has all its calls refused.\<close>

definition turn_ok :: "'w loop_env \<Rightarrow> turn \<Rightarrow> bool" where
  "turn_ok env t \<longleftrightarrow> (if failed t then tn_results t = []
     else answered env (calls_of (tn_response t)) (tn_results t) \<and>
       (as_stop (tn_response t) = Length \<longrightarrow> length (tn_results t) = length (calls_of (tn_response t)) \<and> list_all rm_is_error (tn_results t)))"

definition end_events :: "'w loop_state \<Rightarrow> agent_event list" where
  "end_events st = (if ls_done st then [AgentEnd (ls_new st)] else [])"

definition loop_inv :: "'w loop_env \<Rightarrow> message list \<Rightarrow> 'w loop_state \<Rightarrow> turn list \<Rightarrow> bool" where
  "loop_inv env prompts st ts \<longleftrightarrow> ls_new st = prompts @ concat (map turn_messages ts) \<and> list_all (turn_ok env) ts \<and>
     list_all (\<lambda>t. \<not> failed t) (butlast ts) \<and> (ts \<noteq> [] \<and> failed (last ts) \<longrightarrow> ls_done st)"

text \<open>What a part of a turn adds to the messages, with the events that tell them.\<close>

definition adds :: "'w loop_state \<Rightarrow> message list \<Rightarrow> 'w loop_state \<Rightarrow> agent_event list \<Rightarrow> bool" where
  "adds st ms st' ev \<longleftrightarrow> ls_new st' = ls_new st @ ms \<and> observed ev = map MessageEnd ms @ end_events st'"

lemma next_turn_events:
  "\<not> ls_done st \<Longrightarrow> yields (next_turn env st) (\<lambda>st' ev. \<not> ls_done st' \<and> ls_new st' = ls_new st \<and> observed ev = [])"
  by (auto simp: next_turn_def steering_def split: option.splits intro!: yields_intros)

lemma inject_events:
  "\<not> ls_done st \<Longrightarrow> yields (inject_pending env st) (\<lambda>st' ev. \<not> ls_done st' \<and> ls_new st' = ls_new st @ ls_pending st \<and>
    observed ev = map MessageEnd (ls_pending st))"
  by (auto simp: inject_pending_def intro!: yields_bind yields_weaken [OF emit_messages])

lemma respond_events:
  "\<not> ls_done st \<Longrightarrow> yields (respond env st) (\<lambda>r ev. \<not> ls_done (snd r) \<and> ls_new (snd r) = ls_new st @ [AssistantMsg (fst r)] \<and>
    observed ev = [MessageEnd (AssistantMsg (fst r))])"
  by (auto simp: respond_def split: prod.splits intro!: yields_bind yields_weaken [OF response_events])

lemma run_calls_events:
  "as_stop am \<noteq> ErrorStop \<Longrightarrow> as_stop am \<noteq> AbortedStop \<Longrightarrow>
    yields (run_calls env st am) (\<lambda>r ev. observed ev = map (MessageEnd \<circ> ResultMsg) (fst r) \<and>
      turn_ok env \<lparr>tn_input = p, tn_response = am, tn_results = fst r\<rparr>)"
  by (auto simp: run_calls_def turn_ok_def failed_def answered_def list_all2_conv_all_nth list_all_length
    intro!: yields_bind yields_weaken [OF fail_truncated_events] yields_weaken [OF execute_calls_events])

lemma end_agent_events: "yields (end_agent env st) (\<lambda>st' ev. ls_done st' \<and> ls_new st' = ls_new st \<and> ev = [AgentEnd (ls_new st)])"
  by (auto simp: end_agent_def intro!: yields_bind)

lemma complete_turn_events:
  assumes "\<not> ls_done st" "as_stop am \<noteq> ErrorStop" "as_stop am \<noteq> AbortedStop"
  shows "yields (complete_turn env st am) (\<lambda>st' ev. \<exists>results. adds st (map ResultMsg results) st' ev \<and>
    turn_ok env \<lparr>tn_input = p, tn_response = am, tn_results = results\<rparr>)"
  unfolding complete_turn_def
proof (rule yields_bind, rule yields_weaken [OF run_calls_events [OF assms(2,3), where p = p]], goal_cases)
  case (1 r ev)
  then show ?case using assms(1)
    by (auto simp: split_beta adds_def end_events_def steering_def
      intro!: yields_intros yields_weaken [OF end_agent_events] exI [of _ "fst r"])
qed

lemma run_turn_events:
  fixes env :: "'w loop_env" and st :: "'w loop_state"
  assumes "\<not> ls_done st"
  shows "yields (run_turn env st) (\<lambda>st' ev. \<exists>t. adds st (turn_messages t) st' ev \<and> turn_ok env t \<and> (failed t \<longrightarrow> ls_done st'))"
  unfolding run_turn_def
proof (rule yields_bind, rule yields_weaken [OF next_turn_events [OF assms]], elim conjE, rule yields_bind,
    rule yields_weaken [OF inject_events], assumption, elim conjE, rule yields_bind, rule yields_weaken [OF respond_events],
    assumption, elim conjE)
  fix st1 st2 :: "'w loop_state" and r :: "assistant \<times> 'w loop_state" and ev1 ev2 ev3
  assume a: "ls_new st1 = ls_new st" "observed ev1 = []" "ls_new st2 = ls_new st1 @ ls_pending st1"
    "observed ev2 = map MessageEnd (ls_pending st1)" "\<not> ls_done (snd r)" "ls_new (snd r) = ls_new st2 @ [AssistantMsg (fst r)]"
    "observed ev3 = [MessageEnd (AssistantMsg (fst r))]"
  let ?t = "\<lambda>results. \<lparr>tn_input = ls_pending st1, tn_response = fst r, tn_results = results\<rparr>"
  let ?Q = "\<lambda>st' ev. \<exists>t. adds st (turn_messages t) st' ev \<and> turn_ok env t \<and> (failed t \<longrightarrow> ls_done st')"
  have finish: "?Q st' (ev1 @ ev2 @ ev3 @ ev)" if "adds (snd r) (map ResultMsg results) st' ev" "turn_ok env (?t results)"
      "failed (?t results) \<longrightarrow> ls_done st'" for st' ev results
    using that a by (intro exI [of _ "?t results"]) (auto simp: adds_def turn_messages_def)
  show "yields (case r of (am, st3) \<Rightarrow> if as_stop am = ErrorStop \<or> as_stop am = AbortedStop
        then do { emit env (TurnEnd am []); end_agent env st3 } else complete_turn env st3 am) (\<lambda>b ev'. ?Q b (ev1 @ ev2 @ ev3 @ ev'))"
  proof (cases "as_stop (fst r) = ErrorStop \<or> as_stop (fst r) = AbortedStop")
    case True
    have "yields (do { emit env (TurnEnd (fst r) []); end_agent env (snd r) })
        (\<lambda>st' ev. adds (snd r) (map ResultMsg []) st' ev \<and> ls_done st')"
      by (auto simp: adds_def end_events_def intro!: yields_bind yields_weaken [OF end_agent_events])
    then have "yields (do { emit env (TurnEnd (fst r) []); end_agent env (snd r) }) (\<lambda>b ev'. ?Q b (ev1 @ ev2 @ ev3 @ ev'))"
      by (rule yields_weaken, intro finish [where results = "[]"]) (use True in \<open>auto simp: turn_ok_def failed_def\<close>)
    then show ?thesis using True by (simp add: split_beta)
  next
    case False
    then have "\<not> failed (?t results)" for results by (simp add: failed_def)
    then show ?thesis using False a(5)
      by (auto simp: split_beta intro!: yields_weaken [OF complete_turn_events [where p = "ls_pending st1"]] intro: finish)
  qed
qed

text \<open>One iteration of the loop.\<close>

lemma loop_step_events:
  assumes "\<not> ls_done st" "loop_inv env prompts st ts"
  shows "yields (loop_step env st) (\<lambda>st' ev. \<exists>ms ts'. adds st ms st' ev \<and> loop_inv env prompts st' ts')"
proof (cases "ls_more st \<or> ls_pending st \<noteq> []")
  case True
  have "yields (run_turn env st) (\<lambda>st' ev. \<exists>ms ts'. adds st ms st' ev \<and> loop_inv env prompts st' ts')"
  proof (rule yields_weaken [OF run_turn_events [OF assms(1)]], elim exE conjE)
    fix st' ev t assume t: "adds st (turn_messages t) st' ev" "turn_ok env t" "failed t \<longrightarrow> ls_done st'"
    have "list_all (\<lambda>t. \<not> failed t) ts"
      using assms by (cases ts rule: rev_cases) (auto simp: loop_inv_def)
    then have "loop_inv env prompts st' (ts @ [t])" using t assms(2) by (auto simp: loop_inv_def adds_def)
    then show "\<exists>ms ts'. adds st ms st' ev \<and> loop_inv env prompts st' ts'" using t(1) by blast
  qed
  then show ?thesis using True assms(1) by (simp add: loop_step_def)
next
  case False
  have "yields (if f \<noteq> [] then State_Monad.return (st\<lparr>ls_pending := f, ls_more := True\<rparr>) else end_agent env st)
      (\<lambda>st' ev. adds st [] st' ev \<and> loop_inv env prompts st' ts)" for f
    using assms by (auto simp: adds_def end_events_def loop_inv_def intro!: yields_weaken [OF end_agent_events])
  note f = this
  have "yields (ext_or [] (get_follow_up (ls_config st)) \<bind> (\<lambda>f. if f \<noteq> [] then State_Monad.return (st\<lparr>ls_pending := f, ls_more := True\<rparr>)
      else end_agent env st)) (\<lambda>st' ev. \<exists>ms ts'. adds st ms st' ev \<and> loop_inv env prompts st' ts')"
    by (rule yields_bind, rule yields_ext_or, rule yields_weaken [OF f]) auto
  then show ?thesis using False assms(1) by (simp add: loop_step_def)
qed

lemma iterations_events:
  "loop_inv env prompts st ts \<Longrightarrow> yields (iterations env n st) (\<lambda>st' ev. \<exists>ts' ms. loop_inv env prompts st' ts' \<and>
    ls_new st' = ls_new st @ ms \<and> (if ls_done st then ms = [] \<and> ev = [] \<and> ls_done st' else observed ev = map MessageEnd ms @ end_events st'))"
proof (induction n arbitrary: st ts)
  case 0
  then show ?case by (auto simp: end_events_def)
next
  case (Suc n)
  show ?case
  proof (cases "ls_done st")
    case True
    then show ?thesis using Suc.IH [OF Suc.prems] by (simp add: loop_step_def)
  next
    case False
    show ?thesis unfolding iterations.simps
    proof (rule yields_bind, rule yields_weaken [OF loop_step_events [OF False Suc.prems]], elim exE conjE)
      fix st1 ev1 ms1 ts1 assume s: "adds st ms1 st1 ev1" "loop_inv env prompts st1 ts1"
      show "yields (iterations env n st1) (\<lambda>st' ev'. \<exists>ts' ms. loop_inv env prompts st' ts' \<and> ls_new st' = ls_new st @ ms \<and>
        (if ls_done st then ms = [] \<and> ev1 @ ev' = [] \<and> ls_done st' else observed (ev1 @ ev') = map MessageEnd ms @ end_events st'))"
      proof (rule yields_weaken [OF Suc.IH [OF s(2)]], elim exE conjE)
        fix st' ev' ts' ms assume i: "loop_inv env prompts st' ts'" "ls_new st' = ls_new st1 @ ms"
          "if ls_done st1 then ms = [] \<and> ev' = [] \<and> ls_done st' else observed ev' = map MessageEnd ms @ end_events st'"
        then show "\<exists>ts' ms. loop_inv env prompts st' ts' \<and> ls_new st' = ls_new st @ ms \<and>
            (if ls_done st then ms = [] \<and> ev1 @ ev' = [] \<and> ls_done st' else observed (ev1 @ ev') = map MessageEnd ms @ end_events st')"
          using s(1) False by (intro exI [of _ ts'] exI [of _ "ms1 @ ms"]) (auto simp: adds_def end_events_def split: if_splits)
      qed
    qed
  qed
qed

lemma start_events:
  "yields (start_agent_loop env cfg ctx prompts) (\<lambda>st ev. ls_new st = prompts \<and> \<not> ls_done st \<and> observed ev = map MessageEnd prompts)"
  by (auto simp: start_agent_loop_def initial_state_def steering_def intro!: yields_intros yields_weaken [OF emit_messages])

end
