(* ===== verification/AgentEvents.thy ===== *)
theory AgentEvents
  imports AgentTurns
begin

text \<open>
  The protocol of the loop's events: a run announces its start, then turns with the messages and tool calls inside
  them, and its end. Every part of the loop moves the protocol from one phase to the next.
\<close>

section \<open>The protocol\<close>

datatype run_phase = NotStarted | BetweenTurns | InTurn | InMessage | RunOver

fun next_phase :: "agent_event \<Rightarrow> run_phase option \<Rightarrow> run_phase option" where
  "next_phase AgentStart (Some NotStarted) = Some BetweenTurns"
| "next_phase TurnStart (Some BetweenTurns) = Some InTurn"
| "next_phase (MessageStart m) (Some InTurn) = Some InMessage"
| "next_phase (MessageStart m) (Some InMessage) = Some InMessage"
| "next_phase (MessageUpdate ev a) (Some InMessage) = Some InMessage"
| "next_phase (MessageEnd m) (Some InMessage) = Some InTurn"
| "next_phase (ToolStart c) (Some InTurn) = Some InTurn"
| "next_phase (ToolUpdate c r) (Some InTurn) = Some InTurn"
| "next_phase (ToolEnd c r e) (Some InTurn) = Some InTurn"
| "next_phase (TurnEnd a rs) (Some InTurn) = Some BetweenTurns"
| "next_phase (AgentEnd ms) (Some BetweenTurns) = Some RunOver"
| "next_phase e ph = None"

definition phase_after :: "run_phase \<Rightarrow> agent_event list \<Rightarrow> run_phase option" where
  "phase_after ph ev = fold next_phase ev (Some ph)"

lemma no_phase [simp]: "next_phase e None = None" "fold next_phase ev None = None"
proof -
  show n: "next_phase e None = None" for e by (cases e) simp_all
  show "fold next_phase ev None = None" by (induction ev) (simp_all add: n)
qed

text \<open>Only the announcement of the end is the end, and nothing follows it.\<close>

lemma next_over: "next_phase e ph = Some RunOver \<Longrightarrow> (\<exists>ms. e = AgentEnd ms) \<and> ph = Some BetweenTurns"
  by (induction e ph rule: next_phase.induct) auto

lemma run_over_last: "phase_after ph ev = Some RunOver \<Longrightarrow> ph \<noteq> RunOver \<Longrightarrow> \<exists>pre ms. ev = pre @ [AgentEnd ms]"
  by (cases ev rule: rev_cases) (auto simp: phase_after_def dest!: next_over)

section \<open>Every part of a turn moves the protocol\<close>

definition moves :: "run_phase \<Rightarrow> ('w, 'a) io \<Rightarrow> run_phase \<Rightarrow> bool" where
  "moves ph m ph' \<longleftrightarrow> yields m (\<lambda>_ ev. phase_after ph ev = Some ph')"

lemma moves_return [simp]: "moves ph (State_Monad.return a) ph' \<longleftrightarrow> ph = ph'"
  by (simp add: moves_def phase_after_def)

lemma moves_emit [simp]: "moves ph (emit env e) ph' \<longleftrightarrow> next_phase e (Some ph) = Some ph'"
  by (simp add: moves_def phase_after_def)

lemma moves_bind: "moves ph m ph' \<Longrightarrow> (\<And>a. moves ph' (f a) ph'') \<Longrightarrow> moves ph (m \<bind> f) ph''"
  unfolding moves_def
  by (rule yields_bind, erule yields_weaken, rule yields_weaken, assumption) (simp add: phase_after_def)

lemma moves_still: "moves ph (ext f) ph" "moves ph (ext_or d g) ph" "moves ph (reading h) ph"
  by (auto simp: moves_def phase_after_def intro: yields_ext yields_ext_or yields_reading)

lemma moves_each: "(\<And>x. moves ph (f x) ph) \<Longrightarrow> moves ph (each_of f xs) ph"
  by (induction xs) (auto intro!: moves_bind)

lemmas moves_intros = moves_bind moves_still moves_each

lemma emit_message_moves: "moves InTurn (emit_message env m) InTurn"
  by (auto simp: emit_message_def intro!: moves_bind [where ph' = InMessage])

lemma emit_messages_moves: "moves InTurn (each_of (emit_message env) ms) InTurn"
  by (rule moves_each) (rule emit_message_moves)

lemma finish_response_moves:
  "moves InMessage (finish_response env ctx True final) InTurn" "moves InTurn (finish_response env ctx False final) InTurn"
  unfolding finish_response_def
  by (rule moves_bind [where ph' = InMessage], simp, rule moves_bind [where ph' = InTurn], simp, simp)+

lemma stream_loop_moves: "moves (if added then InMessage else InTurn) (stream_loop env ctx added final evs) InTurn"
proof (induction env ctx added final evs rule: stream_loop.induct)
  case (2 env ctx added final p evs)
  then show ?case by (auto intro!: moves_bind [where ph' = InMessage])
next
  case (3 env ctx added final ev p evs)
  then show ?case by (auto intro!: moves_bind [where ph' = InMessage])
qed (simp_all add: finish_response_moves)

lemma response_moves: "moves InTurn (stream_assistant_response env cfg ctx) InTurn"
  using stream_loop_moves [of False]
  by (auto simp: stream_assistant_response_def resolve_key_def split: prod.splits intro!: moves_intros)

lemma emit_end_moves: "moves InTurn (emit_end env f) InTurn"
  by (simp add: emit_end_def)

lemma emit_result_moves: "moves InTurn (emit_result env f) InTurn"
  by (auto simp: emit_result_def intro!: moves_intros emit_message_moves)

lemma prepare_moves: "moves InTurn (prepare_tool_call env cfg ctx am c) InTurn"
  by (auto simp: prepare_tool_call_def unless_aborted_def split: option.splits sum.splits intro!: moves_intros)

lemma run_prepared_moves: "moves InTurn (run_prepared env cfg ctx am call tool args) InTurn"
  by (auto simp: run_prepared_def execute_prepared_def finalize_executed_def split: prod.splits intro!: moves_intros)

lemmas call_moves = emit_end_moves emit_result_moves prepare_moves run_prepared_moves

lemma sequential_loop_moves: "moves InTurn (sequential_loop env cfg ctx am calls) InTurn"
  by (induction calls)
    (auto simp: sequential_call_def split: preparation.split intro!: moves_bind [where ph' = InTurn] moves_still call_moves)

lemma prepare_loop_moves: "moves InTurn (prepare_loop env cfg ctx am calls) InTurn"
  by (induction calls) (auto split: preparation.split intro!: moves_bind [where ph' = InTurn] moves_still call_moves)

lemma execute_parallel_moves: "moves InTurn (execute_parallel env cfg ctx am calls) InTurn"
  by (auto simp: execute_parallel_def start_entry_def settle_all_def settle_entry_def split: batch_entry.split
      intro!: moves_bind [where ph' = InTurn] moves_still moves_each call_moves prepare_loop_moves)

lemma run_calls_moves: "moves InTurn (run_calls env st am) InTurn"
  by (auto simp: run_calls_def fail_truncated_def execute_tool_calls_def execute_sequential_def Let_def
      intro!: moves_bind [where ph' = InTurn] moves_each call_moves sequential_loop_moves execute_parallel_moves)

section \<open>The loop keeps the protocol\<close>

text \<open>The phase between two iterations, and what an iteration starts from.\<close>

definition loop_phase :: "'w loop_state \<Rightarrow> run_phase" where
  "loop_phase st = (if ls_done st then RunOver else if ls_last st = None then InTurn else BetweenTurns)"

definition first_turn_due :: "'w loop_state \<Rightarrow> bool" where
  "first_turn_due st \<longleftrightarrow> (ls_last st = None \<longrightarrow> ls_done st \<or> ls_more st)"

definition reaches :: "run_phase \<Rightarrow> ('w, 'w loop_state) io \<Rightarrow> bool" where
  "reaches ph m \<longleftrightarrow> yields m (\<lambda>st ev. phase_after ph ev = Some (loop_phase st) \<and> first_turn_due st)"

lemma reaches_bind: "moves ph m ph' \<Longrightarrow> (\<And>a. reaches ph' (f a)) \<Longrightarrow> reaches ph (m \<bind> f)"
  unfolding moves_def reaches_def
  by (rule yields_bind, erule yields_weaken, rule yields_weaken, assumption) (simp add: phase_after_def)

lemma reaches_return [simp]: "reaches ph (State_Monad.return st) \<longleftrightarrow> ph = loop_phase st \<and> first_turn_due st"
  by (simp add: reaches_def phase_after_def)

lemma end_agent_reaches: "reaches BetweenTurns (end_agent env st)"
  by (auto simp: end_agent_def loop_phase_def first_turn_due_def intro!: reaches_bind [where ph' = RunOver])

lemma complete_turn_reaches: "\<not> ls_done st \<Longrightarrow> reaches InTurn (complete_turn env st am)"
  unfolding complete_turn_def steering_def
  by (auto simp: loop_phase_def first_turn_due_def split: prod.splits
      intro!: reaches_bind [OF run_calls_moves] reaches_bind [OF moves_still(2)] reaches_bind [where ph' = BetweenTurns]
        end_agent_reaches)

lemma next_turn_moves:
  "yields (next_turn env st) (\<lambda>st' ev. phase_after (if ls_last st = None then InTurn else BetweenTurns) ev = Some InTurn \<and> ls_done st' = ls_done st)"
  by (cases "ls_last st")
    (auto simp: next_turn_def steering_def phase_after_def split: option.splits intro!: yields_intros)

lemma inject_moves: "yields (inject_pending env st) (\<lambda>st' ev. phase_after InTurn ev = Some InTurn \<and> ls_done st' = ls_done st)"
  using emit_messages_moves [of env "ls_pending st"]
  by (auto simp: inject_pending_def moves_def intro!: yields_bind elim!: yields_weaken)

lemma respond_moves: "yields (respond env st) (\<lambda>r ev. phase_after InTurn ev = Some InTurn \<and> ls_done (snd r) = ls_done st)"
  using response_moves [of env "ls_config st" "ls_context st"]
  by (auto simp: respond_def moves_def split: prod.splits intro!: yields_bind elim!: yields_weaken)

lemma yields_phase:
  assumes "yields m (\<lambda>a ev. phase_after ph ev = Some ph' \<and> P a)" and "\<And>a. P a \<Longrightarrow> reaches ph' (f a)"
  shows "reaches ph (m \<bind> f)"
  unfolding reaches_def
proof (rule yields_bind, rule yields_weaken [OF assms(1)], elim conjE)
  fix a ev assume a: "phase_after ph ev = Some ph'" "P a"
  show "yields (f a) (\<lambda>st ev'. phase_after ph (ev @ ev') = Some (loop_phase st) \<and> first_turn_due st)"
    using assms(2) [OF a(2)] a(1) unfolding reaches_def by (auto simp: phase_after_def elim: yields_weaken)
qed

lemma run_turn_reaches:
  assumes "\<not> ls_done st"
  shows "reaches (loop_phase st) (run_turn env st)"
proof -
  have p: "loop_phase st = (if ls_last st = None then InTurn else BetweenTurns)" using assms by (simp add: loop_phase_def)
  show ?thesis unfolding run_turn_def p
    by (rule yields_phase [OF next_turn_moves], rule yields_phase [OF inject_moves], rule yields_phase [OF respond_moves])
      (use assms in \<open>auto intro!: reaches_bind [where ph' = BetweenTurns] end_agent_reaches complete_turn_reaches\<close>)
qed

lemma loop_step_reaches:
  assumes "first_turn_due st" and "\<not> ls_done st"
  shows "reaches (loop_phase st) (loop_step env st)"
proof (cases "ls_more st \<or> ls_pending st \<noteq> []")
  case True
  then show ?thesis using assms(2) run_turn_reaches by (simp add: loop_step_def)
next
  case False
  then have "loop_phase st = BetweenTurns" "ls_last st \<noteq> None" using assms by (auto simp: loop_phase_def first_turn_due_def)
  then show ?thesis using False assms(2)
    by (auto simp: loop_step_def loop_phase_def first_turn_due_def intro!: reaches_bind [OF moves_still(2)] end_agent_reaches)
qed

lemma iterations_reach:
  fixes st :: "'a loop_state"
  shows "first_turn_due st \<Longrightarrow> reaches (loop_phase st) (iterations env n st)"
proof (induction n arbitrary: st)
  case (Suc n)
  show ?case
  proof (cases "ls_done st")
    case True
    then show ?thesis using Suc.IH [OF Suc.prems] by (simp add: loop_step_def)
  next
    case False
    show ?thesis unfolding reaches_def iterations.simps
    proof (rule yields_bind, rule yields_weaken [OF loop_step_reaches [OF Suc.prems False, unfolded reaches_def]], elim conjE)
      fix st1 :: "'a loop_state" and ev assume s: "phase_after (loop_phase st) ev = Some (loop_phase st1)" "first_turn_due st1"
      show "yields (iterations env n st1) (\<lambda>st' ev'. phase_after (loop_phase st) (ev @ ev') = Some (loop_phase st') \<and> first_turn_due st')"
        using Suc.IH [OF s(2)] s(1) unfolding reaches_def by (auto simp: phase_after_def elim: yields_weaken)
    qed
  qed
qed simp

lemma start_moves:
  "yields (start_agent_loop env cfg ctx prompts) (\<lambda>st ev. phase_after NotStarted ev = Some InTurn \<and>
    (loop_phase st = InTurn \<and> first_turn_due st))"
proof -
  have m: "yields (each_of (emit_message env) prompts) (\<lambda>_ ev. phase_after InTurn ev = Some InTurn)"
    using emit_messages_moves [of env prompts] by (simp add: moves_def)
  show ?thesis
    by (auto simp: start_agent_loop_def initial_state_def steering_def loop_phase_def first_turn_due_def phase_after_def
        intro!: yields_intros yields_weaken [OF m])
qed

lemma run_reaches: "reaches NotStarted (start_agent_loop env cfg ctx prompts \<bind> iterations env n)"
  using iterations_reach [of _ env n] by (intro yields_phase [OF start_moves]) metis

end
