(* ===== verification/AgentRun.thy ===== *)
theory AgentRun
  imports AgentEvents
begin

text \<open>
  Runs of the agent loop: what they return and tell, and when they end.
\<close>

section \<open>Runs\<close>

lemma iterations_done: "ls_done st \<Longrightarrow> run_state (iterations env n st) s = (st, s)"
  by (induction n) (simp_all add: loop_step_def)

lemma run_loop_steps:
  assumes "run_loop env st s = Some r"
  shows "\<exists>n. run_state (iterations env n st) s = r \<and> ls_done (fst r)"
proof (rule run_loop.raw_induct [where P = "\<lambda>env st s r. \<exists>n. run_state (iterations env n st) s = r \<and> ls_done (fst r)", OF _ assms])
  fix loop :: "'a loop_env \<Rightarrow> 'a loop_state \<Rightarrow> 'a \<times> agent_event list \<Rightarrow> ('a loop_state \<times> 'a \<times> agent_event list) option"
    and env st s r
  assume IH: "\<And>env st s r. loop env st s = Some r \<Longrightarrow> \<exists>n. run_state (iterations env n st) s = r \<and> ls_done (fst r)"
    and r: "(if ls_done st then Some (st, s) else case run_state (loop_step env st) s of (x, y) \<Rightarrow> loop env x y) = Some r"
  show "\<exists>n. run_state (iterations env n st) s = r \<and> ls_done (fst r)"
  proof (cases "ls_done st")
    case True
    then have "run_state (iterations env 0 st) s = r \<and> ls_done (fst r)" using r by auto
    then show ?thesis by blast
  next
    case False
    obtain st1 s1 where s1: "run_state (loop_step env st) s = (st1, s1)" by (cases "run_state (loop_step env st) s")
    then have "loop env st1 s1 = Some r" using r False by simp
    then obtain n where "run_state (iterations env n st1) s1 = r" "ls_done (fst r)" using IH by blast
    then have "run_state (iterations env (Suc n) st) s = r \<and> ls_done (fst r)" using s1 by simp
    then show ?thesis by blast
  qed
qed

lemma run_loop_returns: "run_state (iterations env n st) s = (st', s') \<Longrightarrow> ls_done st' \<Longrightarrow> run_loop env st s = Some (st', s')"
proof (induction n arbitrary: st s)
  case 0
  then show ?case by (subst run_loop.simps) simp
next
  case (Suc n)
  show ?case
  proof (cases "ls_done st")
    case True
    then show ?thesis using Suc.prems iterations_done [OF True, of env "Suc n" s] by (subst run_loop.simps) simp
  next
    case False
    then show ?thesis using Suc by (subst run_loop.simps) (auto split: prod.splits)
  qed
qed

text \<open>After any number of iterations.\<close>

lemma run_events:
  "yields (start_agent_loop env cfg ctx prompts \<bind> iterations env n) (\<lambda>st ev. \<exists>turns. loop_inv env prompts st turns \<and>
    observed ev = map MessageEnd (ls_new st) @ end_events st)"
proof (rule yields_bind, rule yields_weaken [OF start_events], elim conjE)
  fix st :: "'a loop_state" and ev
  assume s: "ls_new st = prompts" "\<not> ls_done st" "observed ev = map MessageEnd prompts"
  then have "loop_inv env prompts st []" by (simp add: loop_inv_def)
  then show "yields (iterations env n st) (\<lambda>st' ev'. \<exists>turns. loop_inv env prompts st' turns \<and>
      observed (ev @ ev') = map MessageEnd (ls_new st') @ end_events st')"
    by (rule yields_weaken [OF iterations_events]) (use s in auto)
qed


lemma run_iterations:
  assumes "run_agent_loop env cfg ctx prompts w = Some (new, w', ev)"
  obtains n st where "run_state (start_agent_loop env cfg ctx prompts \<bind> iterations env n) (w, []) = (st, w', ev)"
    "ls_done st" "new = ls_new st"
proof -
  obtain st s where s: "run_state (start_agent_loop env cfg ctx prompts) (w, []) = (st, s)"
    by (cases "run_state (start_agent_loop env cfg ctx prompts) (w, [])")
  then obtain st' where r: "run_loop env st s = Some (st', w', ev)" "new = ls_new st'"
    using assms by (auto simp: run_agent_loop_def)
  obtain n where n: "run_state (iterations env n st) s = (st', w', ev)" "ls_done st'" using run_loop_steps [OF r(1)] by auto
  then have "run_state (start_agent_loop env cfg ctx prompts \<bind> iterations env n) (w, []) = (st', w', ev)" using s by simp
  then show ?thesis using that n(2) r(2) by blast
qed

lemma run_finished:
  assumes "run_agent_loop env cfg ctx prompts w = Some (new, w', ev)"
  obtains turns where "new = prompts @ concat (map turn_messages turns)" "list_all (turn_ok env) turns"
    "observed ev = map MessageEnd new @ [AgentEnd new]" "phase_after NotStarted ev = Some RunOver"
proof -
  obtain n st where n: "run_state (start_agent_loop env cfg ctx prompts \<bind> iterations env n) (w, []) = (st, w', ev)"
    "ls_done st" "new = ls_new st" by (rule run_iterations [OF assms])
  obtain turns where "loop_inv env prompts st turns" "observed ev = map MessageEnd (ls_new st) @ end_events st"
    using run_events [of env cfg ctx prompts n] n(1) by (fastforce simp: yields_def)
  moreover have "phase_after NotStarted ev = Some (loop_phase st)"
    using run_reaches [of env cfg ctx prompts n] n(1) by (fastforce simp: yields_def reaches_def)
  ultimately show ?thesis using that n(2,3) by (auto simp: end_events_def loop_inv_def loop_phase_def)
qed

text \<open>C11. When the loop returns, its events keep the protocol to the end: the start of the run, then turns, in each of
  them messages, each started before it is updated and ended, and tool calls between the messages, and then the end.
  The messages whose ends are announced are exactly the returned ones, in order, beginning with the prompts, and the
  last event is the one announcement of the end, which carries the same list.\<close>

theorem agent_events_tell_messages:
  assumes "run_agent_loop env cfg ctx prompts w = Some (new, w', ev)"
  shows "phase_after NotStarted ev = Some RunOver \<and> observed ev = map MessageEnd new @ [AgentEnd new] \<and>
    last ev = AgentEnd new \<and> (\<exists>added. new = prompts @ added)"
proof -
  obtain turns where t: "new = prompts @ concat (map turn_messages turns)" "phase_after NotStarted ev = Some RunOver"
    "observed ev = map MessageEnd new @ [AgentEnd new]" by (rule run_finished [OF assms])
  obtain pre ms where e: "ev = pre @ [AgentEnd ms]" using run_over_last [OF t(2)] by auto
  then have "last ev = AgentEnd new" using t(3) by simp
  then show ?thesis using t by blast
qed

section \<open>The end of a run\<close>

definition responses :: "message list \<Rightarrow> nat" where
  "responses ms = length (filter (\<lambda>m. case m of AssistantMsg _ \<Rightarrow> True | _ \<Rightarrow> False) ms)"

lemma responses_append [simp]: "responses (xs @ ys) = responses xs + responses ys"
  by (simp add: responses_def)

text \<open>A hook that stops the loop after every turn once there are \<open>k\<close> responses.\<close>

definition stops_within :: "nat \<Rightarrow> ('w completed_turn \<Rightarrow> 'w \<Rightarrow> bool \<times> 'w) \<Rightarrow> bool" where
  "stops_within k f \<longleftrightarrow> (\<forall>t w. k \<le> responses (ct_new t) \<longrightarrow> fst (f t w))"

lemma next_turn_hook:
  "yields (next_turn env st) (\<lambda>st' ev. ls_done st' = ls_done st \<and> ls_new st' = ls_new st \<and>
    should_stop (ls_config st') = should_stop (ls_config st))"
  by (cases "ls_last st") (auto simp: next_turn_def steering_def updated_config_def split: option.splits intro!: yields_intros)

lemma inject_hook:
  "yields (inject_pending env st) (\<lambda>st' ev. ls_done st' = ls_done st \<and> responses (ls_new st) \<le> responses (ls_new st') \<and>
    should_stop (ls_config st') = should_stop (ls_config st))"
  by (auto simp: inject_pending_def intro!: yields_bind yields_weaken [OF emit_messages])

lemma respond_hook:
  "yields (respond env st) (\<lambda>r ev. ls_done (snd r) = ls_done st \<and> responses (ls_new st) < responses (ls_new (snd r)) \<and>
    should_stop (ls_config (snd r)) = should_stop (ls_config st))"
  by (auto simp: respond_def responses_def split: prod.splits intro!: yields_bind yields_weaken [OF response_events])

lemma ext_when: "(\<And>w. P \<Longrightarrow> fst (g w)) \<Longrightarrow> yields (ext g) (\<lambda>a ev. P \<longrightarrow> a)"
  by (auto simp: yields_def ext_def split: prod.splits) (metis fst_conv)

text \<open>What a turn leaves behind: the end, or more responses than before, fewer than the hook waits for.\<close>

definition turn_left :: "('w completed_turn \<Rightarrow> 'w \<Rightarrow> bool \<times> 'w) \<Rightarrow> nat \<Rightarrow> nat \<Rightarrow> 'w loop_state \<Rightarrow> bool" where
  "turn_left f k n st \<longleftrightarrow> should_stop (ls_config st) = Some f \<and> (ls_done st \<or> n < responses (ls_new st) \<and> responses (ls_new st) < k)"

lemma end_agent_left: "should_stop (ls_config st) = Some f \<Longrightarrow> yields (end_agent env st) (\<lambda>st' ev. turn_left f k n st')"
  by (auto simp: end_agent_def turn_left_def intro!: yields_bind)

lemma yields_steering: "(\<And>a. Q a []) \<Longrightarrow> yields (steering cfg) Q"
  by (simp add: steering_def yields_ext_or)

lemma complete_turn_left:
  assumes "should_stop (ls_config st) = Some f" "stops_within k f" "n < responses (ls_new st)"
  shows "yields (complete_turn env st am) (\<lambda>st' ev. turn_left f k n st')"
proof -
  have calls: "yields (run_calls env st am) (\<lambda>_ _. True)"
    using run_calls_moves [of env st am] unfolding moves_def by (rule yields_weaken) simp
  have stop: "yields (ext_or False (Some (f t))) (\<lambda>a ev. k \<le> responses (ct_new t) \<longrightarrow> a)" for t
    using assms(2) by (auto simp: ext_or_def stops_within_def intro: ext_when)
  show ?thesis unfolding complete_turn_def
    by (rule yields_bind, rule yields_weaken [OF calls])
      (use assms(1,3) in \<open>auto simp: turn_left_def split: prod.splits
        intro!: yields_bind yields_steering yields_weaken [OF stop] yields_weaken [OF end_agent_left [where f = f and k = k and n = n]]\<close>)
qed

lemma run_turn_left:
  assumes "should_stop (ls_config st) = Some f" "stops_within k f"
  shows "yields (run_turn env st) (\<lambda>st' ev. turn_left f k (responses (ls_new st)) st')"
  unfolding run_turn_def
proof (rule yields_bind, rule yields_weaken [OF next_turn_hook], rule yields_bind, rule yields_weaken [OF inject_hook],
    rule yields_bind, rule yields_weaken [OF respond_hook], goal_cases)
  case (1 st1 ev1 st2 ev2 r ev3)
  then have h: "should_stop (ls_config (snd r)) = Some f" "responses (ls_new st) < responses (ls_new (snd r))" using assms(1) by simp_all
  show ?case using end_agent_left [OF h(1)] complete_turn_left [OF h(1) assms(2) h(2)]
    by (auto simp: split_beta intro!: yields_bind)
qed

text \<open>The iterations that may follow: two for every response that is still missing, and the look for follow-up messages.\<close>

definition turn_due :: "'w loop_state \<Rightarrow> bool" where
  "turn_due st \<longleftrightarrow> ls_more st \<or> ls_pending st \<noteq> []"

definition left_over :: "nat \<Rightarrow> 'w loop_state \<Rightarrow> nat" where
  "left_over k st = (if ls_done st then 0 else 2 * (k - responses (ls_new st)) + (if turn_due st then 1 else 2))"

lemma loop_step_left:
  assumes "should_stop (ls_config st) = Some f" "stops_within k f" "\<not> ls_done st"
  shows "yields (loop_step env st) (\<lambda>st' ev. should_stop (ls_config st') = Some f \<and> left_over k st' < left_over k st)"
proof (cases "turn_due st")
  case True
  have "yields (run_turn env st) (\<lambda>st' ev. should_stop (ls_config st') = Some f \<and> left_over k st' < left_over k st)"
    by (rule yields_weaken [OF run_turn_left [OF assms(1,2)]])
      (use assms(3) True in \<open>auto simp: turn_left_def left_over_def\<close>)
  then show ?thesis using True assms(3) by (auto simp: loop_step_def turn_due_def)
next
  case False
  have "yields (if fs \<noteq> [] then State_Monad.return (st\<lparr>ls_pending := fs, ls_more := True\<rparr>) else end_agent env st)
      (\<lambda>st' ev. should_stop (ls_config st') = Some f \<and> left_over k st' < left_over k st)" for fs
    using False assms(1,3) by (auto simp: left_over_def turn_due_def end_agent_def intro!: yields_bind)
  then show ?thesis using False assms(3) by (auto simp: loop_step_def turn_due_def intro!: yields_bind yields_ext_or)
qed

lemma iterations_end:
  assumes "should_stop (ls_config st) = Some f" "stops_within k f" "left_over k st \<le> n"
  shows "yields (iterations env n st) (\<lambda>st' ev. ls_done st')"
  using assms
proof (induction n arbitrary: st)
  case 0
  then show ?case by (simp add: left_over_def split: if_splits)
next
  case (Suc n)
  show ?case
  proof (cases "ls_done st")
    case True
    then have "left_over k st \<le> n" by (simp add: left_over_def)
    then show ?thesis using Suc.IH [OF Suc.prems(1,2)] True by (simp add: loop_step_def)
  next
    case False
    show ?thesis unfolding iterations.simps
      by (rule yields_bind, rule yields_weaken [OF loop_step_left [OF Suc.prems(1,2) False]])
        (use Suc in auto)
  qed
qed

lemma stopping_run_returns:
  assumes "should_stop cfg = Some f" "stops_within k f"
  shows "\<exists>new w' ev. run_agent_loop env cfg ctx prompts w = Some (new, w', ev)"
proof -
  have start: "yields (start_agent_loop env cfg ctx prompts) (\<lambda>st ev. ls_config st = cfg)"
    by (auto simp: start_agent_loop_def initial_state_def steering_def intro!: yields_intros yields_weaken [OF emit_messages])
  obtain st s tr where s: "run_state (start_agent_loop env cfg ctx prompts) (w, []) = (st, s, tr)" by (metis prod_cases3)
  then have "should_stop (ls_config st) = Some f" using start assms(1) by (fastforce simp: yields_def)
  from iterations_end [OF this assms(2) order_refl]
  obtain n st' s' where "run_state (iterations env n st) (s, tr) = (st', s')" "ls_done st'"
    unfolding yields_def by (metis prod_cases3)
  then have "run_loop env st (s, tr) = Some (st', s')" by (rule run_loop_returns)
  then show ?thesis using s by (cases s') (auto simp: run_agent_loop_def)
qed

text \<open>C12. Whatever the model, the tools and the other hooks do, and however many messages are queued, a loop returns if
  its stop hook, from some number of responses on, answers yes after every turn.\<close>

theorem graceful_stop_returns:
  assumes "should_stop cfg = Some f" "\<And>t w. k \<le> responses (ct_new t) \<Longrightarrow> fst (f t w)"
  shows "\<exists>new w' ev. run_agent_loop env cfg ctx prompts w = Some (new, w', ev)"
  by (rule stopping_run_returns [OF assms(1), of k]) (use assms(2) in \<open>simp add: stops_within_def\<close>)

section \<open>Witnesses\<close>

text \<open>A model that first calls a tool twice and then stops; its world counts the requests.\<close>

definition sample_call :: "string \<Rightarrow> agent_call" where
  "sample_call i = \<lparr>call_id = i, call_name = ''read'', call_args = JObj [], call_rest = JNull\<rparr>"

definition sample_tool :: "nat agent_tool" where
  "sample_tool = \<lparr>tool_name = ''read'', tool_mode = None, prepare_arguments = None,
     tool_execute = (\<lambda>i args w. (([], Inr (error_result i)), w))\<rparr>"

definition sample_response :: "nat \<Rightarrow> assistant" where
  "sample_response k = (if k = 0 then \<lparr>as_content = [CallBlock (sample_call ''1''), CallBlock (sample_call ''2'')], as_stop = ToolUse, as_rest = JNull\<rparr>
     else \<lparr>as_content = [], as_stop = Stop, as_rest = JNull\<rparr>)"

definition sample_env :: "nat loop_env" where
  "sample_env = \<lparr>stream_fn = (\<lambda>m l k p ms ts w. (([StreamFinish], sample_response w), w + 1)),
     validate_arguments = (\<lambda>t c. Inr (call_args c)), on_event = (\<lambda>e w. w), aborted = (\<lambda>w. False), clock = (\<lambda>w. 0),
     finish_rank = (\<lambda>cs w. ((\<lambda>i. 1 - i), w))\<rparr>"

definition sample_config :: "nat loop_config" where
  "sample_config = \<lparr>model = JNull, reasoning = None, api_key = None, tool_execution = None, transform_context = None,
     convert_to_llm = (\<lambda>ms w. ([], w)), get_api_key = None, get_steering = None, get_follow_up = None, prepare_next_turn = None,
     should_stop = None, before_tool_call = None, after_tool_call = None\<rparr>"

definition sample_context :: "nat agent_context" where
  "sample_context = \<lparr>system_prompt = '''', messages = [], tools = Some [sample_tool]\<rparr>"

abbreviation sample_prompt :: message where
  "sample_prompt \<equiv> OtherMsg (JStr ''hi'')"

definition sample_result :: "string \<Rightarrow> result_message" where
  "sample_result i = create_result_message \<lparr>fin_call = sample_call i, fin_result = error_result i, fin_error = False\<rparr> 0"

definition sample_messages :: "message list" where
  "sample_messages = [sample_prompt, AssistantMsg (sample_response 0), ResultMsg (sample_result ''1''), ResultMsg (sample_result ''2''),
     AssistantMsg (sample_response 1)]"

lemma sample_iterations:
  "(case run_state (start_agent_loop sample_env sample_config sample_context [sample_prompt] \<bind> iterations sample_env 3) (0, []) of
     (st, w, ev) \<Rightarrow> (ls_new st, ls_done st, w)) = (sample_messages, True, 2)"
  by code_simp


lemma sample_run: "\<exists>ev. run_agent_loop sample_env sample_config sample_context [sample_prompt] 0 = Some (sample_messages, 2, ev)"
proof -
  obtain st s where s: "run_state (start_agent_loop sample_env sample_config sample_context [sample_prompt]) (0, []) = (st, s)"
    by (cases "run_state (start_agent_loop sample_env sample_config sample_context [sample_prompt]) (0, [])")
  obtain st' w ev where r: "run_state (iterations sample_env 3 st) s = (st', w, ev)" by (metis prod_cases3)
  have d: "ls_new st' = sample_messages" "ls_done st'" "w = 2" using sample_iterations s r by simp_all
  have "run_loop sample_env st s = Some (st', w, ev)" using run_loop_returns [OF r d(2)] .
  then show ?thesis using s d by (simp add: run_agent_loop_def)
qed

lemma agent_events_tell_messages_witness:
  "\<exists>ev. run_agent_loop sample_env sample_config sample_context [sample_prompt] 0 = Some (sample_messages, 2, ev) \<and>
    observed ev = map MessageEnd sample_messages @ [AgentEnd sample_messages]"
proof -
  obtain ev where r: "run_agent_loop sample_env sample_config sample_context [sample_prompt] 0 = Some (sample_messages, 2, ev)"
    using sample_run by blast
  then show ?thesis using agent_events_tell_messages [OF r] by blast
qed

text \<open>A model that always calls a tool, and a hook that stops it after its third response.\<close>

definition busy_env :: "nat loop_env" where
  "busy_env = sample_env\<lparr>stream_fn := (\<lambda>m l k p ms ts w. (([StreamFinish], sample_response 0), w + 1))\<rparr>"

definition stop_after_three :: "nat completed_turn \<Rightarrow> nat \<Rightarrow> bool \<times> nat" where
  "stop_after_three t w = (3 \<le> responses (ct_new t), w)"

lemma graceful_stop_returns_witness:
  "\<exists>new w' ev. run_agent_loop busy_env (sample_config\<lparr>should_stop := Some stop_after_three\<rparr>) sample_context [sample_prompt] 0 =
    Some (new, w', ev)"
  by (rule graceful_stop_returns [of _ stop_after_three 3]) (simp_all add: sample_config_def stop_after_three_def)

end
