(* ===== verification/AgentClass.thy ===== *)
theory AgentClass
  imports AgentRun
begin

text \<open>
  The class \<open>Agent\<close> of \<open>packages/agent/src/agent.ts\<close>: the transcript as the reduction of a run's events, and the queues
  of messages that a run polls. The world of a run is the queues with the world of the hooks, which may queue messages
  at any time. Where a run throws, and what its throwing part left of the world, is an argument; executions of a
  parallel batch that are still running then are not followed. The transcript is not assigned during a run.
\<close>

section \<open>Queues\<close>

datatype queue_mode = AllMessages | OneAtATime

record message_queue =
  mq_messages :: "message list"
  mq_mode :: queue_mode

definition new_queue :: "queue_mode option \<Rightarrow> message_queue" where
  "new_queue mode = \<lparr>mq_messages = [], mq_mode = (case mode of None \<Rightarrow> OneAtATime | Some m \<Rightarrow> m)\<rparr>"

definition enqueue :: "message \<Rightarrow> message_queue \<Rightarrow> message_queue" where
  "enqueue m q = q\<lparr>mq_messages := mq_messages q @ [m]\<rparr>"

definition has_items :: "message_queue \<Rightarrow> bool" where
  "has_items q \<longleftrightarrow> mq_messages q \<noteq> []"

definition drain :: "message_queue \<Rightarrow> message list \<times> message_queue" where
  "drain q = (case mq_mode q of
     AllMessages \<Rightarrow> (mq_messages q, q\<lparr>mq_messages := []\<rparr>)
   | OneAtATime \<Rightarrow> (case mq_messages q of [] \<Rightarrow> ([], q) | m # ms \<Rightarrow> ([m], q\<lparr>mq_messages := ms\<rparr>)))"

definition clear_queue :: "message_queue \<Rightarrow> message_queue" where
  "clear_queue q = q\<lparr>mq_messages := []\<rparr>"

text \<open>Both queues, with the variable \<open>skipInitialSteeringPoll\<close> of the current run.\<close>

record agent_queues =
  steering_queue :: message_queue
  follow_up_queue :: message_queue
  skip_poll :: bool

definition steer :: "message \<Rightarrow> agent_queues \<Rightarrow> agent_queues" where
  "steer m qs = qs\<lparr>steering_queue := enqueue m (steering_queue qs)\<rparr>"

definition follow_up :: "message \<Rightarrow> agent_queues \<Rightarrow> agent_queues" where
  "follow_up m qs = qs\<lparr>follow_up_queue := enqueue m (follow_up_queue qs)\<rparr>"

definition clear_all_queues :: "agent_queues \<Rightarrow> agent_queues" where
  "clear_all_queues qs = qs\<lparr>steering_queue := clear_queue (steering_queue qs), follow_up_queue := clear_queue (follow_up_queue qs)\<rparr>"

definition has_queued_messages :: "agent_queues \<Rightarrow> bool" where
  "has_queued_messages qs \<longleftrightarrow> has_items (steering_queue qs) \<or> has_items (follow_up_queue qs)"

definition poll_steering :: "agent_queues \<times> 'v \<Rightarrow> message list \<times> agent_queues \<times> 'v" where
  "poll_steering = (\<lambda>(qs, v). if skip_poll qs then ([], qs\<lparr>skip_poll := False\<rparr>, v)
     else (case drain (steering_queue qs) of (ms, q) \<Rightarrow> (ms, qs\<lparr>steering_queue := q\<rparr>, v)))"

definition poll_follow_up :: "agent_queues \<times> 'v \<Rightarrow> message list \<times> agent_queues \<times> 'v" where
  "poll_follow_up = (\<lambda>(qs, v). case drain (follow_up_queue qs) of (ms, q) \<Rightarrow> (ms, qs\<lparr>follow_up_queue := q\<rparr>, v))"

section \<open>State\<close>

record 'w agent_state =
  st_system_prompt :: string
  st_model :: json
  st_thinking :: string
  st_tools :: "'w agent_tool list"
  st_messages :: "message list"
  st_streaming :: bool
  st_streaming_message :: "message option"
  st_pending_calls :: "string list"
  st_error :: "string option"
  st_active :: bool

definition error_message :: "assistant \<Rightarrow> string option" where
  "error_message a = (case as_rest a of
     JObj kvs \<Rightarrow> (case map_of kvs ''errorMessage'' of Some (JStr s) \<Rightarrow> if s = [] then None else Some s | _ \<Rightarrow> None)
   | _ \<Rightarrow> None)"

fun process_event :: "agent_event \<Rightarrow> 'w agent_state \<Rightarrow> 'w agent_state" where
  "process_event (MessageStart m) st = st\<lparr>st_streaming_message := Some m\<rparr>"
| "process_event (MessageUpdate ev a) st = st\<lparr>st_streaming_message := Some (AssistantMsg a)\<rparr>"
| "process_event (MessageEnd m) st = st\<lparr>st_streaming_message := None, st_messages := st_messages st @ [m]\<rparr>"
| "process_event (ToolStart c) st = st\<lparr>st_pending_calls := List.insert (call_id c) (st_pending_calls st)\<rparr>"
| "process_event (ToolEnd c r e) st = st\<lparr>st_pending_calls := removeAll (call_id c) (st_pending_calls st)\<rparr>"
| "process_event (TurnEnd a rs) st = (case error_message a of None \<Rightarrow> st | Some e \<Rightarrow> st\<lparr>st_error := Some e\<rparr>)"
| "process_event (AgentEnd ms) st = st\<lparr>st_streaming_message := None\<rparr>"
| "process_event e st = st"

definition begin_run :: "'w agent_state \<Rightarrow> 'w agent_state" where
  "begin_run st = st\<lparr>st_active := True, st_streaming := True, st_streaming_message := None, st_error := None\<rparr>"

definition finish_run :: "'w agent_state \<Rightarrow> 'w agent_state" where
  "finish_run st = st\<lparr>st_streaming := False, st_streaming_message := None, st_pending_calls := [], st_active := False\<rparr>"

text \<open>
  A run that throws: after how many iterations and events of the loop, the error, whether the run had been aborted, the
  time, how many of the events of the failure were processed before a listener of one of them threw again (all four when
  none did), and the world as it was left.
\<close>

record 'w fault =
  ft_iterations :: nat
  ft_events :: nat
  ft_error :: string
  ft_aborted :: bool
  ft_clock :: nat
  ft_told :: nat
  ft_world :: 'w

definition empty_usage :: json where
  "empty_usage = JObj [(''input'', JNum 0), (''output'', JNum 0), (''cacheRead'', JNum 0), (''cacheWrite'', JNum 0),
     (''totalTokens'', JNum 0), (''cost'', JObj [(''input'', JNum 0), (''output'', JNum 0), (''cacheRead'', JNum 0),
       (''cacheWrite'', JNum 0), (''total'', JNum 0)])]"

definition model_field :: "json \<Rightarrow> string \<Rightarrow> string \<Rightarrow> (string \<times> json) list" where
  "model_field m k name = (case m of JObj kvs \<Rightarrow> (case map_of kvs k of None \<Rightarrow> [] | Some v \<Rightarrow> [(name, v)]) | _ \<Rightarrow> [])"

text \<open>\<open>handleRunFailure\<close>.\<close>

definition failure_message :: "json \<Rightarrow> 'w fault \<Rightarrow> assistant" where
  "failure_message m ft = \<lparr>as_content = [OtherBlock (JObj [(''type'', JStr ''text''), (''text'', JStr '''')])],
     as_stop = (if ft_aborted ft then AbortedStop else ErrorStop),
     as_rest = JObj (model_field m ''api'' ''api'' @ model_field m ''provider'' ''provider'' @ model_field m ''id'' ''model'' @
       [(''usage'', empty_usage), (''errorMessage'', JStr (ft_error ft)), (''timestamp'', JNum (of_nat (ft_clock ft)))])\<rparr>"

definition failure_events :: "assistant \<Rightarrow> agent_event list" where
  "failure_events a = [MessageStart (AssistantMsg a), MessageEnd (AssistantMsg a), TurnEnd a [], AgentEnd [AssistantMsg a]]"

definition fail_run :: "'w fault \<Rightarrow> agent_event list \<Rightarrow> 'w agent_state \<Rightarrow> 'w agent_state" where
  "fail_run ft ev st = finish_run (fold process_event
     (ev @ take (ft_told ft) (failure_events (failure_message (st_model st) ft))) (begin_run st))"

section \<open>Runs\<close>

definition context_snapshot :: "'w agent_state \<Rightarrow> 'w agent_context" where
  "context_snapshot st = \<lparr>system_prompt = st_system_prompt st, messages = st_messages st, tools = Some (st_tools st)\<rparr>"

text \<open>The hooks come from the options; the polls are the agent's.\<close>

definition create_loop_config :: "(agent_queues \<times> 'v) loop_config \<Rightarrow> (agent_queues \<times> 'v) agent_state \<Rightarrow> (agent_queues \<times> 'v) loop_config" where
  "create_loop_config options st = options\<lparr>model := st_model st,
     reasoning := (if st_thinking st = ''off'' then None else Some (st_thinking st)), api_key := None,
     get_steering := Some poll_steering, get_follow_up := Some poll_follow_up\<rparr>"

type_synonym 'v agent_world = "(agent_queues \<times> 'v) agent_state \<times> agent_queues \<times> 'v"

text \<open>A run from the start of its loop: to its end, or to the point where it throws.\<close>

definition run_with_lifecycle :: "(agent_queues \<times> 'v) loop_env \<Rightarrow> (agent_queues \<times> 'v) fault option \<Rightarrow>
    (agent_queues \<times> 'v, (agent_queues \<times> 'v) loop_state) io \<Rightarrow> (message list \<times> (agent_queues \<times> 'v) \<times> agent_event list) option \<Rightarrow>
    agent_queues \<times> 'v \<Rightarrow> (agent_queues \<times> 'v) agent_state \<Rightarrow> 'v agent_world option" where
  "run_with_lifecycle env fault start finished w st = (case fault of
     None \<Rightarrow> map_option (\<lambda>(new, (qs', v'), ev). (finish_run (fold process_event ev (begin_run st)), qs', v')) finished
   | Some ft \<Rightarrow> (case run_state (start \<bind> iterations env (ft_iterations ft)) (w, []) of
       (_, _, ev) \<Rightarrow> Some (fail_run ft (take (ft_events ft) ev) st, ft_world ft)))"

definition run_prompt_messages :: "(agent_queues \<times> 'v) loop_env \<Rightarrow> (agent_queues \<times> 'v) loop_config \<Rightarrow> (agent_queues \<times> 'v) fault option \<Rightarrow>
    message list \<Rightarrow> bool \<Rightarrow> 'v agent_world \<Rightarrow> 'v agent_world option" where
  "run_prompt_messages env options fault ms skip = (\<lambda>(st, qs, v).
     let cfg = create_loop_config options st; ctx = context_snapshot st; w = (qs\<lparr>skip_poll := skip\<rparr>, v) in
     run_with_lifecycle env fault (start_agent_loop env cfg ctx ms) (run_agent_loop env cfg ctx ms w) w st)"

datatype agent_error = Busy | NothingToContinue | LastIsAssistant

definition run_continuation :: "(agent_queues \<times> 'v) loop_env \<Rightarrow> (agent_queues \<times> 'v) loop_config \<Rightarrow> (agent_queues \<times> 'v) fault option \<Rightarrow>
    'v agent_world \<Rightarrow> continue_error + 'v agent_world option" where
  "run_continuation env options fault = (\<lambda>(st, qs, v).
     let cfg = create_loop_config options st; ctx = context_snapshot st; w = (qs\<lparr>skip_poll := False\<rparr>, v) in
     case start_agent_loop_continue env cfg ctx of
       Inl e \<Rightarrow> Inl e
     | Inr start \<Rightarrow> (case run_agent_loop_continue env cfg ctx w of
         Inl e \<Rightarrow> Inl e
       | Inr r \<Rightarrow> Inr (run_with_lifecycle env fault start r w st)))"

datatype prompt_input = TextInput string "json list" | OneMessage message | ManyMessages "message list"

fun normalize_prompt_input :: "nat \<Rightarrow> prompt_input \<Rightarrow> message list" where
  "normalize_prompt_input now (TextInput text images) = [OtherMsg (JObj [(''role'', JStr ''user''),
     (''content'', JArr (JObj [(''type'', JStr ''text''), (''text'', JStr text)] # images)), (''timestamp'', JNum (of_nat now))])]"
| "normalize_prompt_input now (OneMessage m) = [m]"
| "normalize_prompt_input now (ManyMessages ms) = ms"

definition agent_prompt :: "(agent_queues \<times> 'v) loop_env \<Rightarrow> (agent_queues \<times> 'v) loop_config \<Rightarrow> (agent_queues \<times> 'v) fault option \<Rightarrow>
    nat \<Rightarrow> prompt_input \<Rightarrow> 'v agent_world \<Rightarrow> agent_error + 'v agent_world option" where
  "agent_prompt env options fault now input aw = (if st_active (fst aw) then Inl Busy
     else Inr (run_prompt_messages env options fault (normalize_prompt_input now input) False aw))"

definition agent_continue :: "(agent_queues \<times> 'v) loop_env \<Rightarrow> (agent_queues \<times> 'v) loop_config \<Rightarrow> (agent_queues \<times> 'v) fault option \<Rightarrow>
    'v agent_world \<Rightarrow> agent_error + 'v agent_world option" where
  "agent_continue env options fault aw = (case aw of (st, qs, v) \<Rightarrow>
     if st_active st then Inl Busy
     else if st_messages st = [] then Inl NothingToContinue
     else (case last (st_messages st) of
       AssistantMsg _ \<Rightarrow> (case drain (steering_queue qs) of (ms, q) \<Rightarrow>
         if ms \<noteq> [] then Inr (run_prompt_messages env options fault ms True (st, qs\<lparr>steering_queue := q\<rparr>, v))
         else (case drain (follow_up_queue qs) of (fs, f) \<Rightarrow>
           if fs \<noteq> [] then Inr (run_prompt_messages env options fault fs False (st, qs\<lparr>steering_queue := q, follow_up_queue := f\<rparr>, v))
           else Inl LastIsAssistant))
     | _ \<Rightarrow> (case run_continuation env options fault aw of Inl _ \<Rightarrow> Inl NothingToContinue | Inr r \<Rightarrow> Inr r)))"

definition agent_reset :: "'v agent_world \<Rightarrow> agent_error + 'v agent_world" where
  "agent_reset = (\<lambda>(st, qs, v). if st_active st then Inl Busy
     else Inr (st\<lparr>st_messages := [], st_streaming := False, st_streaming_message := None, st_pending_calls := [], st_error := None\<rparr>,
       clear_all_queues qs, v))"

section \<open>Queues are drained in order\<close>

lemma drain_order: "drain q = (ms, q') \<Longrightarrow> mq_messages q = ms @ mq_messages q' \<and> mq_mode q' = mq_mode q \<and>
    (mq_mode q = OneAtATime \<longrightarrow> length ms \<le> 1) \<and> (ms = [] \<longleftrightarrow> mq_messages q = [])"
  by (auto simp: drain_def split: queue_mode.splits list.splits)

section \<open>The transcript\<close>

definition ended :: "agent_event list \<Rightarrow> message list" where
  "ended ev = concat (map (\<lambda>e. case e of MessageEnd m \<Rightarrow> [m] | _ \<Rightarrow> []) ev)"

lemma ended_observed: "observed ev = map MessageEnd ms @ es \<Longrightarrow> \<forall>m. MessageEnd m \<notin> set es \<Longrightarrow> ended ev = ms"
proof -
  have o: "ended (observed ev) = ended ev" by (induction ev) (auto simp: ended_def split: agent_event.splits)
  have m: "ended (map MessageEnd ms) = ms" by (induction ms) (simp_all add: ended_def)
  assume "observed ev = map MessageEnd ms @ es" "\<forall>m. MessageEnd m \<notin> set es"
  moreover from this(2) have "ended es = []" by (induction es) (auto simp: ended_def split: agent_event.splits)
  ultimately show ?thesis using o m by (metis append_Nil2 concat_append ended_def map_append)
qed

lemma process_transcript: "st_messages (fold process_event ev st) = st_messages st @ ended ev"
proof (induction ev arbitrary: st)
  case (Cons e ev)
  then show ?case by (cases e) (simp_all add: ended_def split: option.splits)
qed (simp add: ended_def)

text \<open>The state of the agent between runs.\<close>

definition idle :: "'w agent_state \<Rightarrow> bool" where
  "idle st \<longleftrightarrow> \<not> st_active st \<and> \<not> st_streaming st \<and> st_streaming_message st = None \<and> st_pending_calls st = []"

lemma finish_run_idle [simp]: "idle (finish_run st)" "st_messages (finish_run st) = st_messages st"
  by (simp_all add: idle_def finish_run_def)

lemma begin_run_messages [simp]: "st_messages (begin_run st) = st_messages st"
  by (simp add: begin_run_def)

lemma ended_append [simp]: "ended (xs @ ys) = ended xs @ ended ys"
  by (simp add: ended_def)

lemma ended_take: "prefix (ended (take k ev)) (ended ev)"
  by (metis append_take_drop_id ended_append prefixI)

lemma ended_failure: "ended (take k (failure_events a)) = (if 2 \<le> k then [AssistantMsg a] else [])"
  by (auto simp: failure_events_def ended_def take_Cons' numeral_2_eq_2)

text \<open>The calls of the turns of a run that cannot be aborted are all answered.\<close>

definition calls_all_answered :: "turn list \<Rightarrow> bool" where
  "calls_all_answered turns \<longleftrightarrow> list_all (\<lambda>t. \<not> failed t \<longrightarrow> list_all2 answers (calls_of (tn_response t)) (tn_results t)) turns"

lemma turns_answered: "list_all (turn_ok env) turns \<Longrightarrow> \<not> may_abort env \<Longrightarrow> calls_all_answered turns"
  by (auto simp: calls_all_answered_def list_all_iff turn_ok_def answered_def split: if_splits)

text \<open>What a run adds to the transcript, when the messages of its loop are \<open>ms\<close> and those of its turns.\<close>

definition transcript_grows :: "(agent_queues \<times> 'v) loop_env \<Rightarrow> (agent_queues \<times> 'v) fault option \<Rightarrow> message list \<Rightarrow>
    (agent_queues \<times> 'v) agent_state \<Rightarrow> (agent_queues \<times> 'v) agent_state \<Rightarrow> bool" where
  "transcript_grows env fault ms st st' \<longleftrightarrow> (\<exists>turns. list_all (turn_ok env) turns \<and> (\<not> may_abort env \<longrightarrow> calls_all_answered turns) \<and>
     (case fault of
        None \<Rightarrow> st_messages st' = st_messages st @ ms @ concat (map turn_messages turns)
      | Some ft \<Rightarrow> \<exists>told. prefix told (ms @ concat (map turn_messages turns)) \<and>
          st_messages st' = st_messages st @ told @
            (if 2 \<le> ft_told ft then [AssistantMsg (failure_message (st_model st) ft)] else [])))"

lemma run_extends:
  assumes "run_prompt_messages env options fault ms skip (st, qs, v) = Some (st', w')"
  shows "idle st' \<and> transcript_grows env fault ms st st'"
proof (cases fault)
  case None
  obtain new w1 ev where r: "run_agent_loop env (create_loop_config options st) (context_snapshot st) ms (qs\<lparr>skip_poll := skip\<rparr>, v) = Some (new, w1, ev)"
    and st': "st' = finish_run (fold process_event ev (begin_run st))"
    using assms None by (auto simp: run_prompt_messages_def run_with_lifecycle_def Let_def)
  obtain turns where t: "new = ms @ concat (map turn_messages turns)" "list_all (turn_ok env) turns"
    "observed ev = map MessageEnd new @ [AgentEnd new]" by (rule run_finished [OF r])
  have "ended ev = new" by (rule ended_observed [OF t(3)]) simp
  then have "st_messages st' = st_messages st @ ms @ concat (map turn_messages turns)" using st' t(1) by (simp add: process_transcript)
  then show ?thesis using st' t(2) turns_answered [OF t(2)] None by (auto simp: transcript_grows_def)
next
  case (Some ft)
  let ?start = "start_agent_loop env (create_loop_config options st) (context_snapshot st) ms"
  obtain ls w1 ev where r: "run_state (?start \<bind> iterations env (ft_iterations ft)) ((qs\<lparr>skip_poll := skip\<rparr>, v), []) = (ls, w1, ev)"
    by (metis prod_cases3)
  then have st': "st' = fail_run ft (take (ft_events ft) ev) st"
    using assms Some by (simp add: run_prompt_messages_def run_with_lifecycle_def Let_def del: run_state_bind)
  obtain turns where t: "loop_inv env ms ls turns" "observed ev = map MessageEnd (ls_new ls) @ end_events ls"
    using run_events [of env "create_loop_config options st" "context_snapshot st" ms "ft_iterations ft"] r
    unfolding yields_def by fastforce
  have "ended ev = ls_new ls" by (rule ended_observed [OF t(2)]) (auto simp: end_events_def)
  then have p: "prefix (ended (take (ft_events ft) ev)) (ms @ concat (map turn_messages turns))"
    using ended_take [of "ft_events ft" ev] t(1) by (simp add: loop_inv_def)
  have m: "st_messages st' = st_messages st @ ended (take (ft_events ft) ev) @
      (if 2 \<le> ft_told ft then [AssistantMsg (failure_message (st_model st) ft)] else [])"
    by (simp add: st' fail_run_def process_transcript ended_failure)
  have ok: "list_all (turn_ok env) turns" using t(1) by (simp add: loop_inv_def)
  have "idle st'" by (simp add: st' fail_run_def)
  moreover have "transcript_grows env fault ms st st'"
    unfolding transcript_grows_def Some option.case using ok turns_answered [OF ok] p m by blast
  ultimately show ?thesis ..
qed

text \<open>C13. Whatever the model, the tools and the hooks do, whatever is queued meanwhile, and wherever the run throws, an agent
  that has been prompted is idle again when the run is over. After a run that did not throw its transcript is the old
  one, the prompt, and turns whose tool calls are answered in order, every one of them if the run cannot be aborted and
  none where the response itself failed or was aborted. After a run that threw it is the old one, the first of these messages, and the message of the failure, which is missing only when
  a listener threw on its start.\<close>

theorem prompt_extends_transcript:
  assumes "agent_prompt env options fault now input (st, w) = Inr (Some (st', w'))"
  shows "idle st' \<and> (\<exists>turns. list_all (turn_ok env) turns \<and> (\<not> may_abort env \<longrightarrow> calls_all_answered turns) \<and>
     (case fault of
        None \<Rightarrow> st_messages st' = st_messages st @ normalize_prompt_input now input @ concat (map turn_messages turns)
      | Some ft \<Rightarrow> \<exists>told. prefix told (normalize_prompt_input now input @ concat (map turn_messages turns)) \<and>
          st_messages st' = st_messages st @ told @
            (if 2 \<le> ft_told ft then [AssistantMsg (failure_message (st_model st) ft)] else [])))"
  unfolding transcript_grows_def [symmetric]
  using assms by (cases w) (auto simp: agent_prompt_def split: if_splits dest!: run_extends)

text \<open>An agent that is continued after a response takes messages from the front of its queues, those of the user that
  steer before those that follow up, and they are the next messages of the transcript.\<close>

theorem continue_takes_queue:
  assumes "agent_continue env options None (st, qs, v) = Inr (Some (st', w'))" "last (st_messages st) = AssistantMsg a"
  shows "\<exists>ms turns. ms \<noteq> [] \<and> st_messages st' = st_messages st @ ms @ concat (map turn_messages turns) \<and> list_all (turn_ok env) turns \<and>
    ms = fst (drain (if mq_messages (steering_queue qs) \<noteq> [] then steering_queue qs else follow_up_queue qs))"
proof -
  obtain ms q where d: "drain (steering_queue qs) = (ms, q)" by (cases "drain (steering_queue qs)")
  obtain fs f where e: "drain (follow_up_queue qs) = (fs, f)" by (cases "drain (follow_up_queue qs)")
  show ?thesis
    using assms drain_order [OF d] drain_order [OF e] d e
    by (fastforce simp: agent_continue_def transcript_grows_def split: if_splits dest!: run_extends)
qed

section \<open>Witnesses\<close>

text \<open>A model that stops at once.\<close>

definition quiet_response :: assistant where
  "quiet_response = \<lparr>as_content = [], as_stop = Stop, as_rest = JObj []\<rparr>"

definition quiet_env :: "(agent_queues \<times> unit) loop_env" where
  "quiet_env = \<lparr>stream_fn = (\<lambda>m l k p ms ts w. (([StreamFinish], quiet_response), w)),
     validate_arguments = (\<lambda>t c. Inr (call_args c)), on_event = (\<lambda>e w. w), aborted = (\<lambda>w. False), clock = (\<lambda>w. 0),
     finish_rank = (\<lambda>cs w. ((\<lambda>i. i), w))\<rparr>"

definition quiet_options :: "(agent_queues \<times> unit) loop_config" where
  "quiet_options = \<lparr>model = JNull, reasoning = None, api_key = None, tool_execution = None, transform_context = None,
     convert_to_llm = (\<lambda>ms w. ([], w)), get_api_key = None, get_steering = None, get_follow_up = None, prepare_next_turn = None,
     should_stop = Some (\<lambda>t w. (True, w)), before_tool_call = None, after_tool_call = None\<rparr>"

definition quiet_state :: "message list \<Rightarrow> (agent_queues \<times> unit) agent_state" where
  "quiet_state ms = \<lparr>st_system_prompt = '''', st_model = JNull, st_thinking = ''off'', st_tools = [], st_messages = ms, st_streaming = False,
     st_streaming_message = None, st_pending_calls = [], st_error = None, st_active = False\<rparr>"

definition quiet_queues :: "message list \<Rightarrow> agent_queues" where
  "quiet_queues ms = \<lparr>steering_queue = new_queue None, follow_up_queue = (new_queue None)\<lparr>mq_messages := ms\<rparr>, skip_poll = False\<rparr>"

lemma quiet_run: "\<exists>st' w'. run_prompt_messages quiet_env quiet_options None ms skip (quiet_state old, qs, ()) = Some (st', w')"
proof -
  obtain r where "run_agent_loop quiet_env (create_loop_config quiet_options (quiet_state old)) (context_snapshot (quiet_state old)) ms
      (qs\<lparr>skip_poll := skip\<rparr>, ()) = Some r"
    using stopping_run_returns [of "create_loop_config quiet_options (quiet_state old)" "\<lambda>t w. (True, w)" 0]
    by (fastforce simp: create_loop_config_def quiet_options_def stops_within_def)
  then show ?thesis by (cases r) (auto simp: run_prompt_messages_def run_with_lifecycle_def)
qed

definition quiet_fault :: "(agent_queues \<times> unit) fault" where
  "quiet_fault = \<lparr>ft_iterations = 0, ft_events = 4, ft_error = ''refused'', ft_aborted = False, ft_clock = 1, ft_told = 4,
     ft_world = (quiet_queues [], ())\<rparr>"

text \<open>A run that ends, and one whose model throws at once.\<close>

lemma prompt_extends_transcript_witness:
  "(\<exists>st' w'. agent_prompt quiet_env quiet_options None 0 (OneMessage sample_prompt) (quiet_state [], quiet_queues [], ()) = Inr (Some (st', w')) \<and> idle st' \<and>
    (\<exists>turns. st_messages st' = [sample_prompt] @ concat (map turn_messages turns))) \<and>
   (\<exists>st' w'. agent_prompt quiet_env quiet_options (Some quiet_fault) 0 (OneMessage sample_prompt) (quiet_state [], quiet_queues [], ()) =
      Inr (Some (st', w')) \<and> idle st' \<and> (\<exists>told. st_messages st' = told @ [AssistantMsg (failure_message JNull quiet_fault)]))"
proof
  obtain st' w' where "run_prompt_messages quiet_env quiet_options None [sample_prompt] False (quiet_state [], quiet_queues [], ()) = Some (st', w')"
    using quiet_run by blast
  then have r: "agent_prompt quiet_env quiet_options None 0 (OneMessage sample_prompt) (quiet_state [], quiet_queues [], ()) = Inr (Some (st', w'))"
    by (simp add: agent_prompt_def quiet_state_def)
  show "\<exists>st' w'. agent_prompt quiet_env quiet_options None 0 (OneMessage sample_prompt) (quiet_state [], quiet_queues [], ()) = Inr (Some (st', w')) \<and>
      idle st' \<and> (\<exists>turns. st_messages st' = [sample_prompt] @ concat (map turn_messages turns))"
    using r prompt_extends_transcript [OF r] by (fastforce simp: quiet_state_def)
next
  have "\<exists>r. run_prompt_messages quiet_env quiet_options (Some quiet_fault) [sample_prompt] False (quiet_state [], quiet_queues [], ()) = Some r"
    by (cases "ft_world quiet_fault") (auto simp: run_prompt_messages_def run_with_lifecycle_def Let_def split_beta)
  then obtain st' w' where "run_prompt_messages quiet_env quiet_options (Some quiet_fault) [sample_prompt] False (quiet_state [], quiet_queues [], ()) =
      Some (st', w')"
    by (metis prod.collapse)
  then have r: "agent_prompt quiet_env quiet_options (Some quiet_fault) 0 (OneMessage sample_prompt) (quiet_state [], quiet_queues [], ()) =
      Inr (Some (st', w'))"
    by (simp add: agent_prompt_def quiet_state_def)
  show "\<exists>st' w'. agent_prompt quiet_env quiet_options (Some quiet_fault) 0 (OneMessage sample_prompt) (quiet_state [], quiet_queues [], ()) =
      Inr (Some (st', w')) \<and> idle st' \<and> (\<exists>told. st_messages st' = told @ [AssistantMsg (failure_message JNull quiet_fault)])"
    using r prompt_extends_transcript [OF r] by (fastforce simp: quiet_state_def quiet_fault_def)
qed

lemma continue_takes_queue_witness:
  "\<exists>st' w' turns. agent_continue quiet_env quiet_options None (quiet_state [AssistantMsg quiet_response], quiet_queues [sample_prompt], ()) =
      Inr (Some (st', w')) \<and> st_messages st' = [AssistantMsg quiet_response, sample_prompt] @ concat (map turn_messages turns)"
proof -
  let ?qs = "quiet_queues [sample_prompt]"
  have d: "drain (steering_queue ?qs) = ([], steering_queue ?qs)" "drain (follow_up_queue ?qs) = ([sample_prompt], new_queue None)"
    "mq_messages (steering_queue ?qs) = []"
    by (simp_all add: quiet_queues_def new_queue_def drain_def)
  obtain st' w' where "run_prompt_messages quiet_env quiet_options None [sample_prompt] False (quiet_state [AssistantMsg quiet_response],
      ?qs\<lparr>steering_queue := steering_queue ?qs, follow_up_queue := new_queue None\<rparr>, ()) = Some (st', w')"
    using quiet_run by blast
  then have r: "agent_continue quiet_env quiet_options None (quiet_state [AssistantMsg quiet_response], ?qs, ()) = Inr (Some (st', w'))"
    by (simp add: agent_continue_def quiet_state_def d)
  show ?thesis
    using r continue_takes_queue [OF r, of quiet_response] d by (fastforce simp: quiet_state_def)
qed

end
