(* ===== verification/TransformMessages.thy ===== *)
theory TransformMessages
  imports Json TextSearch "HOL-Library.Sublist"
begin

text \<open>
  Fitting a conversation to a model, \<open>packages/ai/src/api/transform-messages.ts\<close>: images for a model without vision,
  thinking and tool call ids of other models, and results for tool calls that have none.
\<close>

section \<open>Messages\<close>

record llm_call =
  lc_id :: string
  lc_name :: string
  lc_signature :: "string option"
  lc_rest :: json

datatype llm_block = TextBlock text16 "string option" | ImageBlock json | ThinkingBlock text16 "string option" bool | CallBlock llm_call

datatype user_content = Plain text16 | Blocks "llm_block list"

datatype llm_stop = PendingStop | Stop | Length | ToolUse | ErrorStop | AbortedStop | DeferredStop

record llm_assistant =
  la_content :: "llm_block list option"
  la_provider :: string
  la_api :: string
  la_model :: string
  la_stop :: llm_stop
  la_rest :: json

record llm_result =
  lr_call_id :: string
  lr_name :: string
  lr_content :: "llm_block list option"
  lr_is_error :: bool
  lr_timestamp :: nat
  lr_rest :: "json option"

datatype llm_message = User "user_content option" json | Assistant llm_assistant | Result llm_result

record target_model =
  tm_provider :: string
  tm_api :: string
  tm_id :: string
  tm_images :: bool

section \<open>Images\<close>

definition user_placeholder :: text16 where
  "user_placeholder = map of_char ''(image omitted: model does not support images)''"

definition tool_placeholder :: text16 where
  "tool_placeholder = map of_char ''(tool image omitted: model does not support images)''"

fun replace_images :: "text16 \<Rightarrow> bool \<Rightarrow> llm_block list \<Rightarrow> llm_block list" where
  "replace_images ph previous [] = []"
| "replace_images ph previous (ImageBlock d # bs) = (if previous then [] else [TextBlock ph None]) @ replace_images ph True bs"
| "replace_images ph previous (TextBlock s sig # bs) = TextBlock s sig # replace_images ph (s = ph) bs"
| "replace_images ph previous (b # bs) = b # replace_images ph False bs"

definition with_content :: "llm_message \<Rightarrow> llm_message" where
  "with_content m = (case m of
     User None r \<Rightarrow> User (Some (Blocks [])) r
   | Assistant a \<Rightarrow> if la_content a = None then Assistant (a\<lparr>la_content := Some []\<rparr>) else m
   | Result r \<Rightarrow> if lr_content r = None then Result (r\<lparr>lr_content := Some []\<rparr>) else m
   | _ \<Rightarrow> m)"

definition downgrade_images :: "target_model \<Rightarrow> llm_message \<Rightarrow> llm_message" where
  "downgrade_images t m = (if tm_images t then m else (case m of
     User (Some (Blocks bs)) r \<Rightarrow> User (Some (Blocks (replace_images user_placeholder False bs))) r
   | Result r \<Rightarrow> Result (r\<lparr>lr_content := map_option (replace_images tool_placeholder False) (lr_content r)\<rparr>)
   | _ \<Rightarrow> m))"

section \<open>The first pass\<close>

type_synonym id_map = "string \<Rightarrow> string option"

type_synonym normalizer = "string \<Rightarrow> target_model \<Rightarrow> llm_assistant \<Rightarrow> string"

definition same_model :: "target_model \<Rightarrow> llm_assistant \<Rightarrow> bool" where
  "same_model t a \<longleftrightarrow> la_provider a = tm_provider t \<and> la_api a = tm_api t \<and> la_model a = tm_id t"

definition blank :: "text16 \<Rightarrow> bool" where
  "blank s \<longleftrightarrow> list_all is_white s"

definition transform_call :: "normalizer option \<Rightarrow> target_model \<Rightarrow> llm_assistant \<Rightarrow> id_map \<Rightarrow> llm_call \<Rightarrow> id_map \<times> llm_call" where
  "transform_call nid t a ids c = (if same_model t a then (ids, c)
     else (let c' = (if lc_signature c = Some [] then c else c\<lparr>lc_signature := None\<rparr>) in
       case nid of None \<Rightarrow> (ids, c')
       | Some f \<Rightarrow> (let i = f (lc_id c) t a in if i = lc_id c then (ids, c') else (ids(lc_id c \<mapsto> i), c'\<lparr>lc_id := i\<rparr>))))"

definition transform_block :: "normalizer option \<Rightarrow> target_model \<Rightarrow> llm_assistant \<Rightarrow> id_map \<Rightarrow> llm_block \<Rightarrow> id_map \<times> llm_block list" where
  "transform_block nid t a ids b = (case b of
     ThinkingBlock s sig redacted \<Rightarrow> (ids,
       if redacted then (if same_model t a then [b] else [])
       else if same_model t a \<and> sig \<noteq> None \<and> sig \<noteq> Some [] then [b]
       else if blank s then []
       else if same_model t a then [b]
       else [TextBlock s None])
   | TextBlock s sig \<Rightarrow> (ids, if same_model t a then [b] else [TextBlock s None])
   | CallBlock c \<Rightarrow> (case transform_call nid t a ids c of (ids', c') \<Rightarrow> (ids', [CallBlock c']))
   | ImageBlock _ \<Rightarrow> (ids, [b]))"

fun transform_blocks :: "normalizer option \<Rightarrow> target_model \<Rightarrow> llm_assistant \<Rightarrow> id_map \<Rightarrow> llm_block list \<Rightarrow> id_map \<times> llm_block list" where
  "transform_blocks nid t a ids [] = (ids, [])"
| "transform_blocks nid t a ids (b # bs) = (case transform_block nid t a ids b of (ids', xs) \<Rightarrow>
     (case transform_blocks nid t a ids' bs of (ids'', ys) \<Rightarrow> (ids'', xs @ ys)))"

definition content_of :: "llm_assistant \<Rightarrow> llm_block list" where
  "content_of a = (case la_content a of None \<Rightarrow> [] | Some bs \<Rightarrow> bs)"

definition rename_result :: "id_map \<Rightarrow> llm_result \<Rightarrow> llm_result" where
  "rename_result ids r = (case ids (lr_call_id r) of
     Some i \<Rightarrow> if i \<noteq> [] then r\<lparr>lr_call_id := i\<rparr> else r
   | None \<Rightarrow> r)"

fun first_pass :: "normalizer option \<Rightarrow> target_model \<Rightarrow> id_map \<Rightarrow> llm_message list \<Rightarrow> llm_message list" where
  "first_pass nid t ids [] = []"
| "first_pass nid t ids (User c r # ms) = User c r # first_pass nid t ids ms"
| "first_pass nid t ids (Result r # ms) = Result (rename_result ids r) # first_pass nid t ids ms"
| "first_pass nid t ids (Assistant a # ms) = (case transform_blocks nid t a ids (content_of a) of (ids', bs) \<Rightarrow>
     Assistant (a\<lparr>la_content := Some bs\<rparr>) # first_pass nid t ids' ms)"

section \<open>The second pass\<close>

definition calls_in :: "llm_assistant \<Rightarrow> llm_call list" where
  "calls_in a = concat (map (\<lambda>b. case b of CallBlock c \<Rightarrow> [c] | _ \<Rightarrow> []) (content_of a))"

definition synthetic :: "nat \<Rightarrow> llm_call \<Rightarrow> llm_message" where
  "synthetic now c = Result \<lparr>lr_call_id = lc_id c, lr_name = lc_name c,
     lr_content = Some [TextBlock (map of_char ''No result provided'') None], lr_is_error = True, lr_timestamp = now, lr_rest = None\<rparr>"

definition synthetic_results :: "nat \<Rightarrow> llm_call list \<Rightarrow> string set \<Rightarrow> llm_message list" where
  "synthetic_results now pending existing = map (synthetic now) (filter (\<lambda>c. lc_id c \<notin> existing) pending)"

definition failed_message :: "llm_assistant \<Rightarrow> bool" where
  "failed_message a \<longleftrightarrow> la_stop a = ErrorStop \<or> la_stop a = AbortedStop"

fun second_pass :: "nat \<Rightarrow> llm_call list \<Rightarrow> string set \<Rightarrow> llm_message list \<Rightarrow> llm_message list" where
  "second_pass now pending existing [] = synthetic_results now pending existing"
| "second_pass now pending existing (Result r # ms) = Result r # second_pass now pending (insert (lr_call_id r) existing) ms"
| "second_pass now pending existing (User c r # ms) = synthetic_results now pending existing @ User c r #
     second_pass now [] (if pending = [] then existing else {}) ms"
| "second_pass now pending existing (Assistant a # ms) = synthetic_results now pending existing @
     (let existing' = (if pending = [] then existing else {}) in
      if failed_message a then second_pass now [] existing' ms
      else if calls_in a = [] then Assistant a # second_pass now [] existing' ms
      else Assistant a # second_pass now (calls_in a) {} ms)"

definition transform_messages :: "normalizer option \<Rightarrow> target_model \<Rightarrow> nat \<Rightarrow> llm_message list \<Rightarrow> llm_message list" where
  "transform_messages nid t now ms = second_pass now [] {}
     (first_pass nid t Map.empty (map (downgrade_images t) (map with_content ms)))"

section \<open>Every call has a result\<close>

text \<open>The results that follow a message, up to the next message of the user or the model.\<close>

fun results_after :: "llm_message list \<Rightarrow> string set" where
  "results_after (Result r # ms) = insert (lr_call_id r) (results_after ms)"
| "results_after _ = {}"

fun all_answered :: "llm_message list \<Rightarrow> bool" where
  "all_answered [] \<longleftrightarrow> True"
| "all_answered (Assistant a # ms) \<longleftrightarrow> (\<forall>c \<in> set (calls_in a). lc_id c \<in> results_after ms) \<and> all_answered ms"
| "all_answered (_ # ms) \<longleftrightarrow> all_answered ms"

lemma synthetic_ids: "results_after (synthetic_results now p e @ ms) = {lc_id c |c. c \<in> set p \<and> lc_id c \<notin> e} \<union> results_after ms"
  by (induction p) (auto simp: synthetic_results_def synthetic_def)

lemma synthetic_answered: "all_answered (synthetic_results now p e @ ms) = all_answered ms"
  by (induction p) (auto simp: synthetic_results_def synthetic_def)

lemma second_pass_answers:
  "all_answered (second_pass now p e ms) \<and> (\<forall>c \<in> set p. lc_id c \<in> e \<union> results_after (second_pass now p e ms))"
proof (induction now p e ms rule: second_pass.induct)
  case (1 now p e)
  then show ?case using synthetic_ids [of now p e "[]"] synthetic_answered [of now p e "[]"] by auto
next
  case (4 now p e a ms)
  then show ?case by (auto simp: synthetic_ids synthetic_answered Let_def)
qed (auto simp: synthetic_ids synthetic_answered)

text \<open>C23. Whatever conversation it is given, in the transformed one every tool call of a message of the model has a
  result before the next message of the user or the model.\<close>

theorem transformed_calls_answered: "all_answered (transform_messages nid t now ms)"
  using second_pass_answers by (simp add: transform_messages_def)

section \<open>Nothing is lost\<close>

definition kept :: "llm_message \<Rightarrow> bool" where
  "kept m = (case m of Assistant a \<Rightarrow> \<not> failed_message a | _ \<Rightarrow> True)"

lemma synthetic_subseq: "subseq xs ys \<Longrightarrow> subseq xs (synthetic_results now p e @ ys)"
  by (simp add: list_emb_append2)

lemma second_pass_subseq: "subseq (filter kept ms) (second_pass now p e ms)"
  by (induction now p e ms rule: second_pass.induct) (auto simp: kept_def Let_def synthetic_subseq)

lemma second_pass_new: "m \<in> set (second_pass now p e ms) \<Longrightarrow> m \<in> set (filter kept ms) \<or> (\<exists>c. m = synthetic now c)"
  by (induction now p e ms rule: second_pass.induct) (auto simp: kept_def Let_def synthetic_results_def split: if_splits)

text \<open>A conversation without failed messages in which every call has its result stays as it is.\<close>

lemma second_pass_id:
  "all_answered ms \<Longrightarrow> list_all kept ms \<Longrightarrow> \<forall>c \<in> set p. lc_id c \<in> e \<union> results_after ms \<Longrightarrow> second_pass now p e ms = ms"
proof (induction now p e ms rule: second_pass.induct)
  case (4 now p e a ms)
  then have "synthetic_results now p e = []" by (auto simp: synthetic_results_def)
  then show ?case using 4 by (auto simp: Let_def kept_def)
qed (auto simp: synthetic_results_def kept_def)

lemma second_pass_kept: "list_all kept (second_pass now p e ms)"
  using second_pass_new [of _ now p e ms] by (fastforce simp: list_all_iff kept_def synthetic_def)

text \<open>C24. The second pass keeps every message but the failed ones, in order, adds nothing but results for calls, and
  done a second time changes nothing.\<close>

theorem second_pass_completes:
  "subseq (filter kept ms) (second_pass now [] {} ms) \<and>
   set (second_pass now [] {} ms) \<subseteq> set (filter kept ms) \<union> range (synthetic now) \<and>
   second_pass later [] {} (second_pass now [] {} ms) = second_pass now [] {} ms"
  using second_pass_subseq second_pass_new second_pass_answers second_pass_kept
    second_pass_id [of "second_pass now [] {} ms" "[]" "{}" later] by blast

section \<open>Renaming\<close>

text \<open>The id that a call of a message gets.\<close>

definition renamed :: "normalizer option \<Rightarrow> target_model \<Rightarrow> llm_assistant \<Rightarrow> string \<Rightarrow> string" where
  "renamed nid t a i = (if same_model t a then i else case nid of None \<Rightarrow> i | Some f \<Rightarrow> f i t a)"

definition calls_of_blocks :: "llm_block list \<Rightarrow> llm_call list" where
  "calls_of_blocks bs = concat (map (\<lambda>b. case b of CallBlock c \<Rightarrow> [c] | _ \<Rightarrow> []) bs)"

lemma calls_of_blocks_simps [simp]:
  "calls_of_blocks [] = []" "calls_of_blocks (b # bs) = (case b of CallBlock c \<Rightarrow> [c] | _ \<Rightarrow> []) @ calls_of_blocks bs"
  by (simp_all add: calls_of_blocks_def)

lemma calls_of_blocks_append [simp]: "calls_of_blocks (xs @ ys) = calls_of_blocks xs @ calls_of_blocks ys"
  by (simp add: calls_of_blocks_def)

lemma transform_call_ids:
  "transform_call nid t a ids c = (ids', c') \<Longrightarrow> lc_id c' = renamed nid t a (lc_id c) \<and>
    ids' = (if renamed nid t a (lc_id c) = lc_id c then ids else ids(lc_id c \<mapsto> renamed nid t a (lc_id c)))"
  by (auto simp: transform_call_def renamed_def Let_def split: if_splits option.splits)

lemma transform_block_ids:
  "transform_block nid t a ids b = (ids', bs) \<Longrightarrow>
    map lc_id (calls_of_blocks bs) = map (renamed nid t a \<circ> lc_id) (calls_of_blocks [b]) \<and>
    ids' = (\<lambda>i. if i \<in> lc_id ` set (calls_of_blocks [b]) \<and> renamed nid t a i \<noteq> i then Some (renamed nid t a i) else ids i)"
  by (cases b) (auto simp: transform_block_def split: prod.splits if_splits dest!: transform_call_ids)

lemma transform_blocks_ids:
  "transform_blocks nid t a ids bs = (ids', bs') \<Longrightarrow>
    map lc_id (calls_of_blocks bs') = map (renamed nid t a \<circ> lc_id) (calls_of_blocks bs) \<and>
    ids' = (\<lambda>i. if i \<in> lc_id ` set (calls_of_blocks bs) \<and> renamed nid t a i \<noteq> i then Some (renamed nid t a i) else ids i)"
proof (induction bs arbitrary: ids bs')
  case (Cons b bs)
  obtain ids1 xs where x: "transform_block nid t a ids b = (ids1, xs)" by (cases "transform_block nid t a ids b")
  obtain ys where y: "transform_blocks nid t a ids1 bs = (ids', ys)" "bs' = xs @ ys"
    using Cons.prems x by (auto split: prod.splits)
  show ?case using transform_block_ids [OF x] Cons.IH [OF y(1)] y(2) by (auto split: llm_block.splits)
qed simp

definition renaming :: "id_map \<Rightarrow> string \<Rightarrow> string" where
  "renaming ids i = (case ids i of Some j \<Rightarrow> if j \<noteq> [] then j else i | None \<Rightarrow> i)"

lemma first_pass_results: "results_after (first_pass nid t ids ms) = renaming ids ` results_after ms"
  by (induction nid t ids ms rule: first_pass.induct)
    (auto simp: rename_result_def renaming_def split: prod.splits option.splits)

text \<open>No id is used by the calls of two messages.\<close>

fun used_ids :: "llm_message list \<Rightarrow> string set" where
  "used_ids [] = {}"
| "used_ids (Assistant a # ms) = lc_id ` set (calls_in a) \<union> used_ids ms"
| "used_ids (_ # ms) = used_ids ms"

fun ids_apart :: "llm_message list \<Rightarrow> bool" where
  "ids_apart [] \<longleftrightarrow> True"
| "ids_apart (Assistant a # ms) \<longleftrightarrow> lc_id ` set (calls_in a) \<inter> used_ids ms = {} \<and> ids_apart ms"
| "ids_apart (_ # ms) \<longleftrightarrow> ids_apart ms"

lemma calls_in_blocks: "calls_in a = calls_of_blocks (content_of a)"
  by (simp add: calls_in_def calls_of_blocks_def)

lemma first_pass_answers:
  "all_answered ms \<Longrightarrow> ids_apart ms \<Longrightarrow> dom ids \<inter> used_ids ms = {} \<Longrightarrow> \<forall>a i. renamed nid t a i \<noteq> [] \<or> i = [] \<Longrightarrow>
    all_answered (first_pass nid t ids ms)"
proof (induction nid t ids ms rule: first_pass.induct)
  case (4 nid t ids a ms)
  obtain ids' bs where b: "transform_blocks nid t a ids (content_of a) = (ids', bs)" by (cases "transform_blocks nid t a ids (content_of a)")
  note f = transform_blocks_ids [OF b]
  have "dom ids' \<subseteq> dom ids \<union> lc_id ` set (calls_in a)" using f by (auto simp: calls_in_blocks split: if_splits)
  then have "dom ids' \<inter> used_ids ms = {}" using 4(3,4) unfolding used_ids.simps ids_apart.simps by blast
  then have IH: "all_answered (first_pass nid t ids' ms)" using 4(1) [OF b [symmetric]] 4(2-5) by simp
  have "lc_id c \<in> renaming ids' ` results_after ms" if c: "c \<in> set (calls_of_blocks bs)" for c
  proof -
    obtain d where d: "d \<in> set (calls_in a)" "lc_id c = renamed nid t a (lc_id d)"
    proof -
      have "lc_id c \<in> set (map lc_id (calls_of_blocks bs))" using c by simp
      then have "lc_id c \<in> set (map (renamed nid t a \<circ> lc_id) (calls_in a))" using f by (simp add: calls_in_blocks)
      then show thesis using that by auto
    qed
    have n: "ids (lc_id d) = None" using 4(4) d(1) by auto
    have "renaming ids' (lc_id d) = lc_id c" using f n d 4(5) by (auto simp: renaming_def calls_in_blocks)
    moreover have "lc_id d \<in> results_after ms" using 4(2) d(1) by simp
    ultimately show ?thesis by (metis imageI)
  qed
  then show ?case using b IH by (simp add: first_pass_results calls_in_blocks content_of_def)
qed simp_all

text \<open>The preparation changes neither calls nor results.\<close>

definition similar :: "llm_message \<Rightarrow> llm_message \<Rightarrow> bool" where
  "similar m n = (case (m, n) of
     (User _ _, User _ _) \<Rightarrow> True
   | (Assistant a, Assistant b) \<Rightarrow> calls_in b = calls_in a \<and> la_stop b = la_stop a
   | (Result r, Result q) \<Rightarrow> lr_call_id q = lr_call_id r
   | _ \<Rightarrow> False)"

lemma similar_cases:
  "similar (User c j) n \<longleftrightarrow> (\<exists>d k. n = User d k)"
  "similar (Assistant a) n \<longleftrightarrow> (\<exists>b. n = Assistant b \<and> calls_in b = calls_in a \<and> la_stop b = la_stop a)"
  "similar (Result r) n \<longleftrightarrow> (\<exists>q. n = Result q \<and> lr_call_id q = lr_call_id r)"
  by (auto simp: similar_def split: llm_message.splits)

lemma similar_lists:
  "list_all2 similar ms ns \<Longrightarrow> results_after ns = results_after ms \<and> used_ids ns = used_ids ms \<and>
    all_answered ns = all_answered ms \<and> ids_apart ns = ids_apart ms \<and> list_all kept ns = list_all kept ms"
proof (induction rule: list_all2_induct)
  case (Cons m ms n ns)
  then show ?case by (cases m; clarsimp simp: similar_cases kept_def failed_message_def)
qed simp

lemma prepared_similar: "list_all2 similar ms (map (downgrade_images t) (map with_content ms))"
proof -
  have "similar m (downgrade_images t (with_content m))" for m
    by (cases m) (auto simp: similar_cases downgrade_images_def with_content_def calls_in_def content_of_def
      split: option.splits user_content.splits)
  then show ?thesis by (simp add: list_all2_conv_all_nth)
qed

lemmas prepared_same = similar_lists [OF prepared_similar]

lemma first_pass_kept: "list_all kept (first_pass nid t ids ms) = list_all kept ms"
  by (induction nid t ids ms rule: first_pass.induct) (auto simp: kept_def failed_message_def split: prod.splits)

lemma first_pass_length: "length (first_pass nid t ids ms) = length ms"
  by (induction nid t ids ms rule: first_pass.induct) (auto split: prod.splits)

text \<open>C25. In a conversation where every call has its result, no two messages use the same call id and no response is a
  failed one, the results still match after renaming, provided no id but the empty one becomes empty: nothing is
  inserted and nothing dropped.\<close>

theorem complete_conversation_renamed:
  assumes "all_answered ms" "ids_apart ms" "list_all kept ms" "\<forall>a i. renamed nid t a i \<noteq> [] \<or> i = []"
  shows "transform_messages nid t now ms = first_pass nid t Map.empty (map (downgrade_images t) (map with_content ms)) \<and>
    length (transform_messages nid t now ms) = length ms"
proof -
  let ?ms = "first_pass nid t Map.empty (map (downgrade_images t) (map with_content ms))"
  have "all_answered ?ms" by (rule first_pass_answers) (use assms prepared_same in \<open>simp_all del: map_map\<close>)
  then have "second_pass now [] {} ?ms = ?ms" by (rule second_pass_id) (use assms(3) prepared_same in \<open>simp_all add: first_pass_kept del: map_map\<close>)
  then show ?thesis by (simp add: transform_messages_def first_pass_length del: map_map)
qed


text \<open>A conversation with another model, whose ids are shortened.\<close>

definition sample_target :: target_model where
  "sample_target = \<lparr>tm_provider = ''p'', tm_api = ''api'', tm_id = ''m'', tm_images = False\<rparr>"

definition sample_normalizer :: normalizer where
  "sample_normalizer i t a = map (\<lambda>c. if c = CHR ''|'' then CHR ''_'' else c) i"

definition sample_assistant :: "string \<Rightarrow> string \<Rightarrow> llm_assistant" where
  "sample_assistant model i = \<lparr>la_content = Some [ThinkingBlock [0x61] None False, CallBlock \<lparr>lc_id = i, lc_name = ''read'', lc_signature = None, lc_rest = JNull\<rparr>],
     la_provider = ''p'', la_api = ''api'', la_model = model, la_stop = ToolUse, la_rest = JNull\<rparr>"

definition sample_answer :: "string \<Rightarrow> llm_message" where
  "sample_answer i = Result \<lparr>lr_call_id = i, lr_name = ''read'', lr_content = Some [ImageBlock JNull], lr_is_error = False, lr_timestamp = 0, lr_rest = None\<rparr>"

lemma complete_conversation_renamed_witness:
  "transform_messages (Some sample_normalizer) sample_target 7 [Assistant (sample_assistant ''other'' ''a|b''), sample_answer ''a|b''] =
    first_pass (Some sample_normalizer) sample_target Map.empty (map (downgrade_images sample_target) (map with_content
      [Assistant (sample_assistant ''other'' ''a|b''), sample_answer ''a|b'']))"
proof -
  let ?ms = "[Assistant (sample_assistant ''other'' ''a|b''), sample_answer ''a|b'']"
  have "all_answered ?ms" "ids_apart ?ms" "list_all kept ?ms" by code_simp+
  moreover have "\<forall>a i. renamed (Some sample_normalizer) sample_target a i \<noteq> [] \<or> i = []"
    by (simp add: renamed_def sample_normalizer_def)
  ultimately show ?thesis using complete_conversation_renamed by blast
qed

text \<open>When the target itself later uses an id that was renamed before, its result is renamed as well: it no longer
  belongs to its call, which gets a synthetic result.\<close>

lemma reused_id_orphans_result:
  "map (\<lambda>m. case m of Result r \<Rightarrow> Some (lr_call_id r, lr_is_error r) | _ \<Rightarrow> None)
     (transform_messages (Some sample_normalizer) sample_target 7 [Assistant (sample_assistant ''other'' ''a|b''), sample_answer ''a|b'',
       Assistant (sample_assistant ''m'' ''a|b''), sample_answer ''a|b'']) =
   [None, Some (''a_b'', False), None, Some (''a_b'', False), Some (''a|b'', True)]"
  by code_simp

section \<open>Images\<close>

lemma no_images: "list_all (\<lambda>b. case b of ImageBlock _ \<Rightarrow> False | _ \<Rightarrow> True) (replace_images ph previous bs)"
  by (induction ph previous bs rule: replace_images.induct) simp_all

text \<open>Images that follow each other leave one placeholder.\<close>

lemma placeholders_apart: "ph \<noteq> s \<Longrightarrow> replace_images ph False (replicate (Suc n) (ImageBlock d) @ [TextBlock s sig]) = [TextBlock ph None, TextBlock s sig]"
proof -
  have "replace_images ph True (replicate n (ImageBlock d) @ [TextBlock s sig]) = [TextBlock s sig]" by (induction n) simp_all
  then show ?thesis by simp
qed

end
