(* ===== verification/JsonParse.thy ===== *)
theory JsonParse
  imports JsonText
begin

text \<open>
  \<open>JSON.parse\<close>, as \<open>agent/src/harness/session/jsonl\<close> uses it to read what \<open>JSON.stringify\<close> wrote, and the round trip of
  both. How a number is written and read are arguments; a character is one byte, so an escape above \<open>00FF\<close> has no value
  here. The fuel of the parser bounds its nesting; \<open>json_parse\<close> gives it the length of the text, and \<open>parse_text\<close> shows that
  this is enough for every text of a value.
\<close>

section \<open>The parser\<close>

definition is_space :: "char \<Rightarrow> bool" where
  "is_space c \<longleftrightarrow> c = CHR '' '' \<or> c = CHR 0x09 \<or> c = CHR 0x0A \<or> c = CHR 0x0D"

definition skip_space :: "string \<Rightarrow> string" where
  "skip_space s = dropWhile is_space s"

text \<open>The next character after white space, when it is the expected one.\<close>

definition eat :: "char \<Rightarrow> string \<Rightarrow> string option" where
  "eat c s = (case skip_space s of x # r \<Rightarrow> if x = c then Some r else None | [] \<Rightarrow> None)"

definition number_char :: "char \<Rightarrow> bool" where
  "number_char c \<longleftrightarrow> is_digit c \<or> c \<in> {CHR ''-'', CHR ''+'', CHR ''.'', CHR ''e'', CHR ''E''}"

definition simple_escape :: "char \<Rightarrow> char option" where
  "simple_escape c = map_of [(CHR 0x22, CHR 0x22), (CHR 0x5C, CHR 0x5C), (CHR ''/'', CHR ''/''), (CHR ''b'', CHR 0x08),
     (CHR ''f'', CHR 0x0C), (CHR ''n'', CHR 0x0A), (CHR ''r'', CHR 0x0D), (CHR ''t'', CHR 0x09)] c"

definition hex_value :: "char \<Rightarrow> nat option" where
  "hex_value c = (let n = of_char c :: nat in
     if 48 \<le> n \<and> n \<le> 57 then Some (n - 48) else if 97 \<le> n \<and> n \<le> 102 then Some (n - 87)
     else if 65 \<le> n \<and> n \<le> 70 then Some (n - 55) else None)"

fun unicode_escape :: "string \<Rightarrow> char option" where
  "unicode_escape [a, b, c, d] = (case map hex_value [a, b, c, d] of
     [Some x, Some y, Some z, Some u] \<Rightarrow> if x = 0 \<and> y = 0 then Some (char_of (16 * z + u)) else None | _ \<Rightarrow> None)"
| "unicode_escape _ = None"

text \<open>The rest of a string literal, with what follows it.\<close>

function parse_chars :: "string \<Rightarrow> (string \<times> string) option" where
  "parse_chars s = (case s of
     [] \<Rightarrow> None
   | c # r \<Rightarrow>
       if c = CHR 0x22 then Some ([], r)
       else if c = CHR 0x5C then (case r of
         [] \<Rightarrow> None
       | e # r' \<Rightarrow>
           if e = CHR ''u'' then Option.bind (unicode_escape (take 4 r')) (\<lambda>x. map_option (apfst (Cons x)) (parse_chars (drop 4 r')))
           else Option.bind (simple_escape e) (\<lambda>x. map_option (apfst (Cons x)) (parse_chars r')))
       else if of_char c < (32::nat) then None
       else map_option (apfst (Cons c)) (parse_chars r))"
  by auto
termination by (relation "measure length") auto

declare parse_chars.simps [simp del]

definition keyword :: "string \<Rightarrow> (json \<times> string) option" where
  "keyword s = (if prefix ''null'' s then Some (JNull, drop 4 s) else if prefix ''true'' s then Some (JBool True, drop 4 s)
     else if prefix ''false'' s then Some (JBool False, drop 5 s) else None)"

definition parse_number :: "(string \<Rightarrow> rat option) \<Rightarrow> string \<Rightarrow> (json \<times> string) option" where
  "parse_number read s = map_option (\<lambda>q. (JNum q, dropWhile number_char s)) (read (takeWhile number_char s))"

fun parse_value :: "(string \<Rightarrow> rat option) \<Rightarrow> nat \<Rightarrow> string \<Rightarrow> (json \<times> string) option"
  and parse_items :: "(string \<Rightarrow> rat option) \<Rightarrow> nat \<Rightarrow> string \<Rightarrow> (json list \<times> string) option"
  and parse_members :: "(string \<Rightarrow> rat option) \<Rightarrow> nat \<Rightarrow> (string \<times> json) list \<Rightarrow> string \<Rightarrow> ((string \<times> json) list \<times> string) option" where
  "parse_value read 0 s = None"
| "parse_value read (Suc n) s = (case skip_space s of
     [] \<Rightarrow> None
   | c # r \<Rightarrow>
       if c = CHR 0x22 then map_option (apfst JStr) (parse_chars r)
       else if c = CHR ''['' then (case eat (CHR '']'') r of
         Some r' \<Rightarrow> Some (JArr [], r') | None \<Rightarrow> map_option (apfst JArr) (parse_items read n r))
       else if c = CHR 0x7B then (case eat (CHR 0x7D) r of
         Some r' \<Rightarrow> Some (JObj [], r') | None \<Rightarrow> map_option (apfst JObj) (parse_members read n [] r))
       else if number_char c then parse_number read (c # r)
       else keyword (c # r))"
| "parse_items read 0 s = None"
| "parse_items read (Suc n) s = Option.bind (parse_value read n s) (\<lambda>(v, r). case eat (CHR '','') r of
     Some r' \<Rightarrow> map_option (apfst (Cons v)) (parse_items read n r')
   | None \<Rightarrow> map_option (Pair [v]) (eat (CHR '']'') r))"
| "parse_members read 0 acc s = None"
| "parse_members read (Suc n) acc s =
     Option.bind (Option.bind (eat (CHR 0x22) s) parse_chars) (\<lambda>(k, r).
     Option.bind (Option.bind (eat (CHR '':'') r) (parse_value read n)) (\<lambda>(v, r').
       case eat (CHR '','') r' of
         Some r'' \<Rightarrow> parse_members read n (own_set index_key k v acc) r''
       | None \<Rightarrow> map_option (Pair (own_set index_key k v acc)) (eat (CHR 0x7D) r')))"

definition json_parse :: "(string \<Rightarrow> rat option) \<Rightarrow> string \<Rightarrow> json option" where
  "json_parse read s = (case parse_value read (Suc (length s)) s of
     Some (v, r) \<Rightarrow> if skip_space r = [] then Some v else None | None \<Rightarrow> None)"

section \<open>Reading back what was written\<close>

text \<open>Values as they exist at run time: the keys of every object are distinct and stand in the order of enumeration.\<close>

fun canonical :: "json \<Rightarrow> bool" where
  "canonical (JArr xs) = list_all canonical xs"
| "canonical (JObj kvs) = (own_ok kvs \<and> own_ordered index_key kvs \<and> list_all (\<lambda>kv. canonical (snd kv)) kvs)"
| "canonical _ = True"

definition number_text :: "(rat \<Rightarrow> string) \<Rightarrow> (string \<Rightarrow> rat option) \<Rightarrow> bool" where
  "number_text num read \<longleftrightarrow> (\<forall>q. num q \<noteq> [] \<and> list_all number_char (num q) \<and> read (num q) = Some q)"

definition ends :: "string \<Rightarrow> bool" where
  "ends x \<longleftrightarrow> x = [] \<or> \<not> number_char (hd x)"

lemma ends_simps [simp]: "ends []" "ends (c # x) = (\<not> number_char c)"
  by (simp_all add: ends_def)

lemma number_char_simps [simp]:
  "\<not> number_char (CHR '','')" "\<not> number_char (CHR '']'')" "\<not> number_char (CHR 0x7D)" "\<not> number_char (CHR 0x7B)"
  "\<not> number_char (CHR ''['')" "\<not> number_char (CHR 0x22)" "\<not> number_char (CHR ''n'')" "\<not> number_char (CHR ''t'')"
  "\<not> number_char (CHR ''f'')" "\<not> number_char (CHR 0x0A)"
  by (simp_all add: number_char_def is_digit_def)

lemma number_char_plain: "number_char c \<Longrightarrow> \<not> is_space c \<and> c \<noteq> CHR 0x22 \<and> c \<noteq> CHR ''['' \<and> c \<noteq> CHR '']'' \<and> c \<noteq> CHR 0x7B \<and> c \<noteq> CHR 0x7D"
  by (auto simp: number_char_def is_digit_def is_space_def)

lemma skip_space_simps [simp]: "skip_space [] = []" "skip_space (c # x) = (if is_space c then skip_space x else c # x)"
  by (simp_all add: skip_space_def)

lemma is_space_simps [simp]:
  "\<not> is_space (CHR '','')" "\<not> is_space (CHR '']'')" "\<not> is_space (CHR 0x7D)" "\<not> is_space (CHR 0x7B)" "\<not> is_space (CHR ''['')"
  "\<not> is_space (CHR 0x22)" "\<not> is_space (CHR '':'')" "\<not> is_space (CHR ''n'')" "\<not> is_space (CHR ''t'')" "\<not> is_space (CHR ''f'')"
  by (simp_all add: is_space_def)

lemma eat_simps [simp]: "eat c [] = None" "\<not> is_space d \<Longrightarrow> eat c (d # r) = (if d = c then Some r else None)"
  by (simp_all add: eat_def)

lemma hex_value_digit: "n < 16 \<Longrightarrow> hex_value (hex_digit n) = Some n"
  by (auto simp: hex_value_def hex_digit_def digit_char_def Let_def)

lemma parse_plain: "c \<noteq> CHR 0x22 \<Longrightarrow> c \<noteq> CHR 0x5C \<Longrightarrow> \<not> of_char c < (32::nat) \<Longrightarrow> parse_chars (c # x) = map_option (apfst (Cons c)) (parse_chars x)"
  by (subst parse_chars.simps) simp

lemma parse_simple: "simple_escape e = Some c \<Longrightarrow> e \<noteq> CHR ''u'' \<Longrightarrow>
    parse_chars (CHR 0x5C # e # x) = map_option (apfst (Cons c)) (parse_chars x)"
  by (subst parse_chars.simps) simp

lemma parse_unicode: "unicode_escape [a, b, d, e] = Some c \<Longrightarrow>
    parse_chars (CHR 0x5C # CHR ''u'' # a # b # d # e # x) = map_option (apfst (Cons c)) (parse_chars x)"
  by (subst parse_chars.simps) (simp add: eval_nat_numeral)

lemma simple_escapes:
  "simple_escape (CHR 0x22) = Some (CHR 0x22)" "simple_escape (CHR 0x5C) = Some (CHR 0x5C)" "simple_escape (CHR ''b'') = Some (CHR 0x08)"
  "simple_escape (CHR ''f'') = Some (CHR 0x0C)" "simple_escape (CHR ''n'') = Some (CHR 0x0A)" "simple_escape (CHR ''r'') = Some (CHR 0x0D)"
  "simple_escape (CHR ''t'') = Some (CHR 0x09)"
  by (simp_all add: simple_escape_def)

lemma control_escape:
  assumes "of_char c < (32::nat)"
  shows "unicode_escape [CHR ''0'', CHR ''0'', hex_digit (of_char c div 16), hex_digit (of_char c mod 16)] = Some c"
proof -
  have "hex_value (CHR ''0'') = Some 0" by (simp add: hex_value_def)
  then show ?thesis using assms by (simp add: hex_value_digit)
qed

lemma parse_escape: "parse_chars (json_escape c @ x) = map_option (apfst (Cons c)) (parse_chars x)"
proof (cases "c \<in> {CHR 0x22, CHR 0x5C, CHR 0x08, CHR 0x0C, CHR 0x0A, CHR 0x0D, CHR 0x09}")
  case True
  then show ?thesis by (elim insertE emptyE) (simp_all add: json_escape_def parse_simple simple_escapes)
next
  case False
  then show ?thesis
    by (cases "of_char c < (32::nat)") (simp_all add: json_escape_def parse_unicode [OF control_escape] parse_plain)
qed

lemma parse_quoted: "parse_chars (concat (map json_escape s) @ CHR 0x22 # x) = Some (s, x)"
proof (induction s)
  case Nil
  show ?case by (subst parse_chars.simps) simp
qed (simp add: parse_escape)

lemma json_quote_Cons: "json_quote s @ x = CHR 0x22 # concat (map json_escape s) @ CHR 0x22 # x"
  by (simp add: json_quote_def)

text \<open>How the text of a value starts.\<close>

lemma text_head:
  assumes "number_text num read"
  obtains c r where "json_text num v = c # r" "\<not> is_space c" "c \<noteq> CHR '']''" "c \<noteq> CHR 0x7D"
proof (cases v)
  case (JNum q)
  obtain c r where "num q = c # r" "number_char c" using assms unfolding number_text_def by (metis list.exhaust list.pred_inject(2))
  then show ?thesis using JNum that number_char_plain [of c] by simp
next
  case (JBool b)
  then show ?thesis using that by (cases b) auto
qed (use that in \<open>auto simp: json_quote_def\<close>)

lemma parse_items_text:
  assumes "number_text num read" "xs \<noteq> []" "length (join_with '','' (map (json_text num) xs)) < n"
    "\<And>v m y. v \<in> set xs \<Longrightarrow> length (json_text num v) \<le> m \<Longrightarrow> ends y \<Longrightarrow> parse_value read m (json_text num v @ y) = Some (v, y)"
  shows "parse_items read n (join_with '','' (map (json_text num) xs) @ CHR '']'' # x) = Some (xs, x)"
  using assms(2-)
proof (induction xs arbitrary: n)
  case (Cons v xs)
  then obtain m where n: "n = Suc m" by (cases n) auto
  show ?case
  proof (cases xs)
    case Nil
    then show ?thesis using Cons.prems n by simp
  next
    case (Cons w ws)
    let ?rest = "join_with '','' (map (json_text num) xs)"
    have t: "join_with '','' (map (json_text num) (v # xs)) = json_text num v @ '','' @ ?rest" using Cons by simp
    have m: "length (json_text num v) \<le> m" "length ?rest < m"
      using Cons.prems(2) t n text_head [OF assms(1), of v] by auto
    have v: "parse_value read m (json_text num v @ CHR '','' # ?rest @ CHR '']'' # x) = Some (v, CHR '','' # ?rest @ CHR '']'' # x)"
      by (rule Cons.prems(3)) (use m in auto)
    have "parse_items read m (?rest @ CHR '']'' # x) = Some (xs, x)"
      by (rule Cons.IH) (use Cons m Cons.prems(3) in auto)
    then show ?thesis using v n unfolding t by simp
  qed
qed simp

abbreviation member_text :: "(rat \<Rightarrow> string) \<Rightarrow> string \<times> json \<Rightarrow> string" where
  "member_text num kv \<equiv> json_quote (fst kv) @ '':'' @ json_text num (snd kv)"

lemma parse_members_text:
  assumes "number_text num read" "kvs \<noteq> []" "length (join_with '','' (map (member_text num) kvs)) < n"
    "own_ok (acc @ kvs)" "own_ordered index_key (acc @ kvs)"
    "\<And>kv m y. kv \<in> set kvs \<Longrightarrow> length (json_text num (snd kv)) \<le> m \<Longrightarrow> ends y \<Longrightarrow>
      parse_value read m (json_text num (snd kv) @ y) = Some (snd kv, y)"
  shows "parse_members read n acc (join_with '','' (map (member_text num) kvs) @ CHR 0x7D # x) = Some (acc @ kvs, x)"
  using assms(2-)
proof (induction kvs arbitrary: n acc)
  case (Cons kv kvs)
  obtain k v where kv: "kv = (k, v)" by (cases kv)
  obtain m where n: "n = Suc m" using Cons.prems(2) by (cases n) auto
  have set: "own_set index_key k v acc = acc @ [kv]"
    using own_set_last [of acc k v kvs] Cons.prems(3,4) kv by simp
  have val: "parse_value read m (json_text num v @ y) = Some (v, y)" if "length (json_text num v) \<le> m" "ends y" for y
    using Cons.prems(5) [of kv] that kv by simp
  show ?case
  proof (cases kvs)
    case Nil
    then have "length (json_text num v) \<le> m" using Cons.prems(2) n kv by simp
    then show ?thesis using Nil n kv set val [of "CHR 0x7D # x"]
      by (simp add: json_quote_Cons parse_quoted del: json_text.simps)
  next
    case (Cons w ws)
    let ?rest = "join_with '','' (map (member_text num) kvs)"
    have t: "join_with '','' (map (member_text num) (kv # kvs)) = member_text num kv @ '','' @ ?rest" using Cons by simp
    have m: "length (json_text num v) \<le> m" "length ?rest < m" using Cons.prems(2) t n kv by auto
    have "parse_members read m (acc @ [kv]) (?rest @ CHR 0x7D # x) = Some ((acc @ [kv]) @ kvs, x)"
      by (rule Cons.IH) (use Cons m Cons.prems in auto)
    then show ?thesis using n kv set val [OF m(1), of "CHR '','' # ?rest @ CHR 0x7D # x"] unfolding t
      by (simp add: json_quote_Cons parse_quoted del: json_text.simps)
  qed
qed simp

lemma parse_text:
  assumes "number_text num read"
  shows "canonical v \<Longrightarrow> length (json_text num v) \<le> n \<Longrightarrow> ends x \<Longrightarrow> parse_value read n (json_text num v @ x) = Some (v, x)"
proof (induction v arbitrary: n x)
  case (JNum q)
  have q: "num q \<noteq> []" "list_all number_char (num q)" "read (num q) = Some q" using assms by (simp_all add: number_text_def)
  then obtain c r where c: "num q = c # r" "number_char c" by (metis list.exhaust list.pred_inject(2))
  obtain m where n: "n = Suc m" using JNum.prems(2) c by (cases n) auto
  have "takeWhile number_char (num q @ x) = num q" "dropWhile number_char (num q @ x) = x"
    using q(2) JNum.prems(3) by (auto simp: list_all_iff ends_def takeWhile_append dropWhile_append takeWhile_eq_Nil_iff)
      (metis dropWhile_eq_self_iff)+
  then have "parse_number read (num q @ x) = Some (JNum q, x)" using q(3) by (simp add: parse_number_def)
  then show ?case using n c number_char_plain [OF c(2)] by simp
next
  case (JArr xs)
  then obtain m where n: "n = Suc m" by (cases n) auto
  show ?case
  proof (cases "xs = []")
    case False
    have "parse_items read m (join_with '','' (map (json_text num) xs) @ CHR '']'' # x) = Some (xs, x)"
      by (rule parse_items_text [OF assms False]) (use JArr n in \<open>auto simp: list_all_iff\<close>)
    moreover have "eat (CHR '']'') (join_with '','' (map (json_text num) xs) @ CHR '']'' # x) = None"
    proof -
      obtain v vs where xs: "xs = v # vs" using False by (cases xs) auto
      obtain c r where "json_text num v = c # r" "\<not> is_space c" "c \<noteq> CHR '']''" by (rule text_head [OF assms])
      then show ?thesis unfolding xs by (cases vs) simp_all
    qed
    ultimately show ?thesis using n by simp
  qed (use n in simp)
next
  case (JObj kvs)
  then obtain m where n: "n = Suc m" by (cases n) auto
  show ?case
  proof (cases "kvs = []")
    case False
    have "parse_members read m [] (join_with '','' (map (member_text num) kvs) @ CHR 0x7D # x) = Some ([] @ kvs, x)"
    proof (rule parse_members_text [OF assms False])
      fix kv k y assume a: "kv \<in> set kvs" "length (json_text num (snd kv)) \<le> k" "ends y"
      moreover have "snd kv \<in> Basic_BNFs.snds kv" by (cases kv) (simp add: prod_set_simps)
      ultimately show "parse_value read k (json_text num (snd kv) @ y) = Some (snd kv, y)"
        using JObj.IH [of kv "snd kv" k y] JObj.prems(1) by (auto simp: list_all_iff)
    qed (use JObj.prems n in auto)
    moreover have "eat (CHR 0x7D) (join_with '','' (map (member_text num) kvs) @ CHR 0x7D # x) = None"
    proof -
      obtain kv kws where kvs: "kvs = kv # kws" using False by (cases kvs) auto
      then show ?thesis by (cases kws) (simp_all add: json_quote_Cons)
    qed
    ultimately show ?thesis using n by simp
  qed (use n in simp)
next
  case (JStr s)
  then obtain m where "n = Suc m" by (cases n) (auto simp: json_quote_def)
  then show ?case by (simp add: json_quote_Cons parse_quoted)
next
  case JNull
  then obtain m where "n = Suc m" by (cases n) auto
  then show ?case by (simp add: keyword_def)
next
  case (JBool b)
  then obtain m where "n = Suc m" by (cases n) (auto split: if_splits)
  then show ?case by (cases b) (simp_all add: keyword_def)
qed

theorem json_roundtrip:
  assumes "number_text num read" "canonical v"
  shows "json_parse read (json_text num v) = Some v"
  using parse_text [OF assms, of "Suc (length (json_text num v))" "[]"] by (simp add: json_parse_def)


text \<open>A text is one line.\<close>

lemma quote_no_newline: "CHR 0x0A \<notin> set (json_quote s)"
proof -
  have h: "hex_digit n \<noteq> CHR 0x0A" if "n < 16" for n
  proof
    assume "hex_digit n = CHR 0x0A"
    then have "hex_value (CHR 0x0A) = Some n" using hex_value_digit [OF that] by simp
    then show False by (simp add: hex_value_def)
  qed
  have "CHR 0x0A \<notin> set (json_escape c)" for c
  proof (cases "of_char c < (32::nat)")
    case True
    then have "hex_digit (of_char c div 16) \<noteq> CHR 0x0A" "hex_digit (of_char c mod 16) \<noteq> CHR 0x0A" by (auto intro!: h)
    then show ?thesis by (auto simp: json_escape_def)
  next
    case False
    then have "c \<noteq> CHR 0x0A" by auto
    then show ?thesis using False by (auto simp: json_escape_def)
  qed
  then show ?thesis by (auto simp: json_quote_def)
qed

lemma join_no_newline: "(\<And>x. x \<in> set xs \<Longrightarrow> CHR 0x0A \<notin> set x) \<Longrightarrow> CHR 0x0A \<notin> set (join_with '','' xs)"
  by (induction "'',''" xs rule: join_with.induct) auto

lemma text_no_newline:
  assumes "number_text num read"
  shows "CHR 0x0A \<notin> set (json_text num v)"
proof (induction v)
  case (JNum q)
  have "list_all number_char (num q)" using assms by (simp add: number_text_def)
  then show ?case by (auto simp: list_all_iff)
next
  case (JArr xs)
  then show ?case using join_no_newline [of "map (json_text num) xs"] by auto
next
  case (JObj kvs)
  have "CHR 0x0A \<notin> set (join_with '','' (map (member_text num) kvs))"
  proof (rule join_no_newline)
    fix t assume "t \<in> set (map (member_text num) kvs)"
    then obtain kv where kv: "kv \<in> set kvs" "t = member_text num kv" by auto
    moreover have "snd kv \<in> Basic_BNFs.snds kv" by (cases kv) (simp add: prod_set_simps)
    ultimately show "CHR 0x0A \<notin> set t" using JObj [of kv "snd kv"] quote_no_newline by auto
  qed
  then show ?case by simp
qed (auto simp: quote_no_newline)

end
