(* ===== verification/JsonlText.thy ===== *)
theory JsonlText
  imports JsonParse DriveResponse "HOL-Library.Monad_Syntax"
begin

text \<open>
  The lines of a session file: \<open>packages/agent/src/harness/session/jsonl/io.ts\<close> and \<open>codec.ts\<close>. A committed write is the
  JSON object of its fields, and the numbers of usage are JSON numbers. What the code casts after its checks is read by
  \<open>cast_write\<close>; objects that no committed write of the model has are the error \<open>Unrepresented\<close>.
\<close>

section \<open>The objects of writes\<close>

definition opt_field :: "string \<Rightarrow> json option \<Rightarrow> (string \<times> json) list" where
  "opt_field k v = (case v of None \<Rightarrow> [] | Some x \<Rightarrow> [(k, x)])"

definition message_json :: "agent_message \<Rightarrow> json" where
  "message_json m = JObj ((''role'', JStr (role m)) # opt_field ''stopReason'' (map_option (JStr \<circ> stop_text) (stop m)) @
     (case content m of JObj kvs \<Rightarrow> kvs | _ \<Rightarrow> []))"

definition usage_json :: "rat usage \<Rightarrow> json" where
  "usage_json u = JObj ([(''input'', JNum (uinput u)), (''output'', JNum (uoutput u)), (''cacheRead'', JNum (cache_read u)),
     (''cacheWrite'', JNum (cache_write u))] @ opt_field ''cacheWrite1h'' (map_option JNum (cache_write_1h u)) @
     opt_field ''reasoning'' (map_option JNum (reasoning u)) @ [(''totalTokens'', JNum (total_tokens u)),
     (''cost'', JObj [(''input'', JNum (cinput (cost_of u))), (''output'', JNum (coutput (cost_of u))),
       (''cacheRead'', JNum (ccache_read (cost_of u))), (''cacheWrite'', JNum (ccache_write (cost_of u))),
       (''total'', JNum (ctotal (cost_of u)))])])"

definition nullable :: "string option \<Rightarrow> json" where
  "nullable s = (case s of None \<Rightarrow> JNull | Some x \<Rightarrow> JStr x)"

fun body_fields :: "rat body \<Rightarrow> (string \<times> json) list" where
  "body_fields (Message m t) = [(''type'', JStr ''message''), (''message'', message_json m)] @
     opt_field ''terminate'' (if t then Some (JBool True) else None)"
| "body_fields (Compaction s tail n d u h) = [(''type'', JStr ''compaction''), (''summary'', JStr s),
     (''retainedTail'', JArr (map message_json tail)), (''tokensBefore'', JNum n)] @ opt_field ''details'' d @
     opt_field ''usage'' (map_option usage_json u) @ [(''fromHook'', JBool h)]"
| "body_fields (BranchSummary f s d u h) = [(''type'', JStr ''branch_summary''), (''fromId'', nullable f), (''summary'', JStr s)] @
     opt_field ''details'' d @ opt_field ''usage'' (map_option usage_json u) @ [(''fromHook'', JBool h)]"
| "body_fields (Custom d) = (''type'', JStr ''custom'') # opt_field ''data'' d"

fun write_json :: "rat committed \<Rightarrow> json" where
  "write_json (CEntry e) = JObj ([(''kind'', JStr ''entry''), (''id'', JStr (eid e)), (''parentId'', nullable (parent_id e))] @
     opt_field ''customType'' (map_option JStr (custom_type e)) @ body_fields (body e) @
     [(''seq'', JNum (of_int (seq e))), (''timestamp'', JNum (of_int (timestamp e)))])"
| "write_json (CUsage u) = JObj ([(''kind'', JStr ''usage''), (''id'', JStr (uid u)), (''usage'', usage_json (row_usage u))] @
     opt_field ''entryId'' (map_option JStr (uentry u)) @ [(''adjustment'', JBool (adjustment u))] @
     opt_field ''details'' (udetails u) @ [(''seq'', JNum (of_int (useq u)))])"
| "write_json (CValueSet s ns k v) = JObj [(''kind'', JStr ''value''), (''op'', JStr ''set''), (''seq'', JNum (of_int s)),
     (''namespace'', JStr ns), (''key'', JStr k), (''value'', v)]"
| "write_json (CValueDelete s ns k) = JObj [(''kind'', JStr ''value''), (''op'', JStr ''delete''), (''seq'', JNum (of_int s)),
     (''namespace'', JStr ns), (''key'', JStr k)]"
| "write_json (CListAppend s ns k v) = JObj [(''kind'', JStr ''list''), (''op'', JStr ''append''), (''seq'', JNum (of_int s)),
     (''namespace'', JStr ns), (''key'', JStr k), (''value'', v)]"
| "write_json (CListDelete s ns k) = JObj [(''kind'', JStr ''list''), (''op'', JStr ''delete''), (''seq'', JNum (of_int s)),
     (''namespace'', JStr ns), (''key'', JStr k)]"

section \<open>Reading the objects\<close>

fun as_str :: "json \<Rightarrow> string option" where
  "as_str (JStr s) = Some s" | "as_str _ = None"

fun as_num :: "json \<Rightarrow> rat option" where
  "as_num (JNum q) = Some q" | "as_num _ = None"

fun as_bool :: "json \<Rightarrow> bool option" where
  "as_bool (JBool b) = Some b" | "as_bool _ = None"

fun as_obj :: "json \<Rightarrow> (string \<times> json) list option" where
  "as_obj (JObj kvs) = Some kvs" | "as_obj _ = None"

fun as_int :: "json \<Rightarrow> int option" where
  "as_int (JNum q) = (if of_int \<lfloor>q\<rfloor> = q then Some \<lfloor>q\<rfloor> else None)" | "as_int _ = None"

fun as_nullable :: "json \<Rightarrow> string option option" where
  "as_nullable JNull = Some None" | "as_nullable (JStr s) = Some (Some s)" | "as_nullable _ = None"

fun as_list :: "(json \<Rightarrow> 'a option) \<Rightarrow> json \<Rightarrow> 'a list option" where
  "as_list f (JArr xs) = those (map f xs)" | "as_list f _ = None"

text \<open>A field that has to be there, and one that may be absent.\<close>

definition field :: "(json \<Rightarrow> 'a option) \<Rightarrow> (string \<times> json) list \<Rightarrow> string \<Rightarrow> 'a option" where
  "field f kvs k = Option.bind (own_get kvs k) f"

definition optional :: "(json \<Rightarrow> 'a option) \<Rightarrow> (string \<times> json) list \<Rightarrow> string \<Rightarrow> 'a option option" where
  "optional f kvs k = (case own_get kvs k of None \<Rightarrow> Some None | Some v \<Rightarrow> map_option Some (f v))"

definition all_stops :: "stop_reason list" where
  "all_stops = [SPending, SStop, SLength, SToolUse, SError, SAborted, SDeferred]"

definition as_stop :: "json \<Rightarrow> stop_reason option" where
  "as_stop v = Option.bind (as_str v) (\<lambda>s. find (\<lambda>r. stop_text r = s) all_stops)"

definition as_message :: "json \<Rightarrow> agent_message option" where
  "as_message v = do {
     kvs \<leftarrow> as_obj v;
     r \<leftarrow> field as_str kvs ''role'';
     s \<leftarrow> optional as_stop kvs ''stopReason'';
     Some \<lparr>role = r, stop = s, content = JObj (filter (\<lambda>kv. fst kv \<notin> {''role'', ''stopReason''}) kvs)\<rparr> }"

definition as_usage :: "json \<Rightarrow> rat usage option" where
  "as_usage v = do {
     kvs \<leftarrow> as_obj v;
     i \<leftarrow> field as_num kvs ''input''; ou \<leftarrow> field as_num kvs ''output'';
     cr \<leftarrow> field as_num kvs ''cacheRead''; cw \<leftarrow> field as_num kvs ''cacheWrite'';
     h \<leftarrow> optional as_num kvs ''cacheWrite1h''; r \<leftarrow> optional as_num kvs ''reasoning'';
     t \<leftarrow> field as_num kvs ''totalTokens''; c \<leftarrow> field as_obj kvs ''cost'';
     ci \<leftarrow> field as_num c ''input''; co \<leftarrow> field as_num c ''output''; ccr \<leftarrow> field as_num c ''cacheRead'';
     ccw \<leftarrow> field as_num c ''cacheWrite''; ct \<leftarrow> field as_num c ''total'';
     Some \<lparr>uinput = i, uoutput = ou, cache_read = cr, cache_write = cw, cache_write_1h = h, reasoning = r, total_tokens = t,
       cost_of = \<lparr>cinput = ci, coutput = co, ccache_read = ccr, ccache_write = ccw, ctotal = ct\<rparr>\<rparr> }"

definition as_body :: "(string \<times> json) list \<Rightarrow> rat body option" where
  "as_body kvs = do {
     t \<leftarrow> field as_str kvs ''type'';
     (if t = ''message'' then do {
        m \<leftarrow> field as_message kvs ''message''; b \<leftarrow> optional as_bool kvs ''terminate''; Some (Message m (b = Some True)) }
      else if t = ''compaction'' then do {
        s \<leftarrow> field as_str kvs ''summary''; tl \<leftarrow> field (as_list as_message) kvs ''retainedTail''; n \<leftarrow> field as_num kvs ''tokensBefore'';
        u \<leftarrow> optional as_usage kvs ''usage''; h \<leftarrow> field as_bool kvs ''fromHook'';
        Some (Compaction s tl n (own_get kvs ''details'') u h) }
      else if t = ''branch_summary'' then do {
        f \<leftarrow> field as_nullable kvs ''fromId''; s \<leftarrow> field as_str kvs ''summary'';
        u \<leftarrow> optional as_usage kvs ''usage''; h \<leftarrow> field as_bool kvs ''fromHook'';
        Some (BranchSummary f s (own_get kvs ''details'') u h) }
      else if t = ''custom'' then Some (Custom (own_get kvs ''data''))
      else None) }"

definition cast_entry :: "(string \<times> json) list \<Rightarrow> rat committed option" where
  "cast_entry kvs = do {
     i \<leftarrow> field as_str kvs ''id''; p \<leftarrow> field as_nullable kvs ''parentId''; c \<leftarrow> optional as_str kvs ''customType'';
     b \<leftarrow> as_body kvs; s \<leftarrow> field as_int kvs ''seq''; t \<leftarrow> field as_int kvs ''timestamp'';
     Some (CEntry \<lparr>eid = i, parent_id = p, custom_type = c, body = b, seq = s, timestamp = t\<rparr>) }"

definition cast_usage :: "(string \<times> json) list \<Rightarrow> rat committed option" where
  "cast_usage kvs = do {
     i \<leftarrow> field as_str kvs ''id''; u \<leftarrow> field as_usage kvs ''usage''; e \<leftarrow> optional as_str kvs ''entryId'';
     a \<leftarrow> field as_bool kvs ''adjustment''; s \<leftarrow> field as_int kvs ''seq'';
     Some (CUsage \<lparr>uid = i, row_usage = u, uentry = e, adjustment = a, udetails = own_get kvs ''details'', useq = s\<rparr>) }"

text \<open>A row with a value, and one without.\<close>

definition cast_set :: "(int \<Rightarrow> string \<Rightarrow> string \<Rightarrow> json \<Rightarrow> rat committed) \<Rightarrow> (string \<times> json) list \<Rightarrow> rat committed option" where
  "cast_set f kvs = do { s \<leftarrow> field as_int kvs ''seq''; ns \<leftarrow> field as_str kvs ''namespace''; k \<leftarrow> field as_str kvs ''key'';
     v \<leftarrow> own_get kvs ''value''; Some (f s ns k v) }"

definition cast_delete :: "(int \<Rightarrow> string \<Rightarrow> string \<Rightarrow> rat committed) \<Rightarrow> (string \<times> json) list \<Rightarrow> rat committed option" where
  "cast_delete f kvs = do { s \<leftarrow> field as_int kvs ''seq''; ns \<leftarrow> field as_str kvs ''namespace''; k \<leftarrow> field as_str kvs ''key'';
     Some (f s ns k) }"

section \<open>Lines\<close>

datatype jsonl_error =
    InvalidWrite
  | InvalidField string
  | InvalidKind
  | InvalidOperation
  | Unrepresented
  | NotJson
  | UnsupportedHeader
  | MissingHeader
  | UnsupportedVersion int
  | InvalidLine nat jsonl_error
  | Refused storage_error
  | FileFailed
  | Closed

definition safe_integer :: "int \<Rightarrow> json option \<Rightarrow> bool" where
  "safe_integer least v \<longleftrightarrow> (case Option.bind v as_int of Some i \<Rightarrow> least \<le> i \<and> i \<le> 9007199254740991 | None \<Rightarrow> False)"

definition accept_cast :: "'a option \<Rightarrow> jsonl_error + 'a" where
  "accept_cast r = (case r of None \<Rightarrow> Inl Unrepresented | Some x \<Rightarrow> Inr x)"

definition parse_committed_write :: "json \<Rightarrow> jsonl_error + rat committed" where
  "parse_committed_write v = (case v of
     JObj kvs \<Rightarrow>
       if \<not> safe_integer 1 (own_get kvs ''seq'') then Inl (InvalidField ''write seq'')
       else if own_get kvs ''kind'' = Some (JStr ''entry'') then
         (if \<not> safe_integer 0 (own_get kvs ''timestamp'') then Inl (InvalidField ''entry timestamp'')
          else accept_cast (cast_entry kvs))
       else if own_get kvs ''kind'' = Some (JStr ''usage'') then accept_cast (cast_usage kvs)
       else if own_get kvs ''kind'' = Some (JStr ''value'') then
         (if own_get kvs ''op'' = Some (JStr ''set'') then accept_cast (cast_set CValueSet kvs)
          else if own_get kvs ''op'' = Some (JStr ''delete'') then accept_cast (cast_delete CValueDelete kvs)
          else Inl InvalidOperation)
       else if own_get kvs ''kind'' = Some (JStr ''list'') then
         (if own_get kvs ''op'' = Some (JStr ''append'') then accept_cast (cast_set CListAppend kvs)
          else if own_get kvs ''op'' = Some (JStr ''delete'') then accept_cast (cast_delete CListDelete kvs)
          else Inl InvalidOperation)
       else Inl InvalidKind
   | _ \<Rightarrow> Inl InvalidWrite)"

definition parse_jsonl_transaction :: "(string \<Rightarrow> rat option) \<Rightarrow> string \<Rightarrow> jsonl_error + rat committed list" where
  "parse_jsonl_transaction read line = (case json_parse read line of
     None \<Rightarrow> Inl NotJson
   | Some (JArr vs) \<Rightarrow> rmap parse_committed_write vs
   | Some v \<Rightarrow> rmap parse_committed_write [v])"

definition transaction_json :: "rat committed list \<Rightarrow> json" where
  "transaction_json ws = (case ws of [w] \<Rightarrow> write_json w | _ \<Rightarrow> JArr (map write_json ws))"

definition serialize_jsonl_transaction :: "(rat \<Rightarrow> string) \<Rightarrow> rat committed list \<Rightarrow> string" where
  "serialize_jsonl_transaction num ws = json_text num (transaction_json ws)"

section \<open>Reading back a write\<close>

lemma field_known [simp]: "own_get kvs k = Some v \<Longrightarrow> field f kvs k = f v"
  by (simp add: field_def)

lemma as_nullable_nullable [simp]: "as_nullable (nullable s) = Some s"
  by (cases s) (simp_all add: nullable_def)

lemma as_int_of_int [simp]: "as_int (JNum (of_int i)) = Some i"
  by simp

lemma as_stop_text [simp]: "as_stop (JStr (stop_text s)) = Some s"
  by (cases s) (simp_all add: as_stop_def all_stops_def)

text \<open>The other fields of a message are those of its content.\<close>

definition message_ok :: "agent_message \<Rightarrow> bool" where
  "message_ok m \<longleftrightarrow> (case content m of JObj kvs \<Rightarrow> list_all (\<lambda>kv. fst kv \<notin> {''role'', ''stopReason''}) kvs | _ \<Rightarrow> False)"

lemma as_message_json:
  assumes "message_ok m"
  shows "as_message (message_json m) = Some m"
proof -
  obtain kvs where c: "content m = JObj kvs" "list_all (\<lambda>kv. fst kv \<notin> {''role'', ''stopReason''}) kvs"
    using assms by (auto simp: message_ok_def split: json.splits)
  then have n: "own_get kvs ''stopReason'' = None" by (auto simp: list_all_iff map_of_eq_None_iff)
  have f: "filter (\<lambda>kv. fst kv \<noteq> ''role'' \<and> fst kv \<noteq> ''stopReason'') kvs = kvs"
    using c(2) by (auto simp: list_all_iff filter_id_conv)
  show ?thesis
    by (cases "stop m") (simp_all add: as_message_def message_json_def c(1) n f optional_def opt_field_def)
qed

lemma as_usage_json [simp]: "as_usage (usage_json u) = Some u"
  by (cases "cache_write_1h u"; cases "SessionTypes.reasoning u") (simp_all add: as_usage_def usage_json_def optional_def opt_field_def)

lemma as_messages_json: "list_all message_ok ms \<Longrightarrow> as_list as_message (JArr (map message_json ms)) = Some ms"
  by (induction ms) (auto simp: as_message_json)

fun body_ok :: "rat body \<Rightarrow> bool" where
  "body_ok (Message m _) = message_ok m"
| "body_ok (Compaction _ tail _ _ _ _) = list_all message_ok tail"
| "body_ok _ = True"

definition safe_seq :: "int \<Rightarrow> int \<Rightarrow> bool" where
  "safe_seq least i \<longleftrightarrow> least \<le> i \<and> i \<le> 9007199254740991"

text \<open>Writes whose object is a value at run time and whose numbers are safe integers.\<close>

fun write_ok :: "rat committed \<Rightarrow> bool" where
  "write_ok (CEntry e) = (body_ok (body e) \<and> safe_seq 1 (seq e) \<and> safe_seq 0 (timestamp e) \<and> canonical (write_json (CEntry e)))"
| "write_ok w = (safe_seq 1 (committed_seq w) \<and> canonical (write_json w))"

lemma write_ok_canonical: "write_ok w \<Longrightarrow> canonical (write_json w)"
  by (cases w) simp_all

lemma parse_write_json:
  assumes "write_ok w"
  shows "parse_committed_write (write_json w) = Inr w"
proof (cases w)
  case (CEntry e)
  then have ok: "body_ok (body e)" "safe_seq 1 (seq e)" "safe_seq 0 (timestamp e)" using assms by auto
  show ?thesis
  proof (cases "body e")
    case (Message m t)
    then show ?thesis using ok CEntry
      by (cases t; cases "custom_type e")
        (simp_all add: parse_committed_write_def safe_integer_def safe_seq_def accept_cast_def cast_entry_def as_body_def
          optional_def opt_field_def as_message_json)
  next
    case (Compaction s tl n d u h)
    then show ?thesis using ok CEntry
      by (cases d; cases u; cases "custom_type e")
        (simp_all add: parse_committed_write_def safe_integer_def safe_seq_def accept_cast_def cast_entry_def as_body_def
          optional_def opt_field_def as_messages_json del: as_list.simps)
  next
    case (BranchSummary f s d u h)
    then show ?thesis using ok CEntry
      by (cases d; cases u; cases "custom_type e")
        (simp_all add: parse_committed_write_def safe_integer_def safe_seq_def accept_cast_def cast_entry_def as_body_def optional_def opt_field_def)
  next
    case (Custom d)
    then show ?thesis using ok CEntry
      by (cases d; cases "custom_type e")
        (simp_all add: parse_committed_write_def safe_integer_def safe_seq_def accept_cast_def cast_entry_def as_body_def optional_def opt_field_def)
  qed
next
  case (CUsage u)
  then show ?thesis using assms
    by (cases "uentry u"; cases "udetails u") (simp_all add: parse_committed_write_def safe_integer_def safe_seq_def accept_cast_def cast_usage_def optional_def opt_field_def)
qed (use assms in \<open>simp_all add: parse_committed_write_def safe_integer_def safe_seq_def accept_cast_def cast_set_def cast_delete_def\<close>)

theorem transaction_roundtrip:
  assumes "number_text num read" "list_all write_ok ws"
  shows "parse_jsonl_transaction read (serialize_jsonl_transaction num ws) = Inr ws"
proof -
  have all: "rmap parse_committed_write (map write_json ws) = Inr ws"
    using assms(2) by (induction ws) (simp_all add: parse_write_json)
  have "canonical (transaction_json ws)"
    using assms(2) by (auto simp: transaction_json_def list_all_iff write_ok_canonical split: list.splits)
  then have p: "json_parse read (serialize_jsonl_transaction num ws) = Some (transaction_json ws)"
    using json_roundtrip [OF assms(1)] by (simp add: serialize_jsonl_transaction_def)
  show ?thesis
  proof (cases "\<exists>w. ws = [w]")
    case True
    then obtain w where w: "ws = [w]" by blast
    obtain kvs where "write_json w = JObj kvs" by (cases w) auto
    then show ?thesis using p w all by (simp add: parse_jsonl_transaction_def transaction_json_def)
  next
    case False
    then have "transaction_json ws = JArr (map write_json ws)" by (auto simp: transaction_json_def split: list.splits)
    then show ?thesis using p all by (simp add: parse_jsonl_transaction_def)
  qed
qed

end
