(* ===== verification/JsonlFile.thy ===== *)
theory JsonlFile
  imports JsonlText TextSearch SessionInvariant
begin

text \<open>
  Session files: the header (\<open>packages/agent/src/harness/session/jsonl/codec.ts\<close>, \<open>types.ts\<close>), and the format-4 storage with
  its creation, opening and commits (\<open>storage.ts\<close>, \<open>io.ts\<close>). A file operation comes with its fate; whether a process dies
  with it is the matter of \<open>JsonlCrash\<close>. Whether a text is a date is an argument.
\<close>

section \<open>The header\<close>

record jsonl_header =
  header_id :: string
  storage_version :: int
  created_at :: int
  cwd :: string
  parent_session_id :: "string option"
  legacy_parent_path :: "string option"
  header_next_seq :: "int option"

definition jsonl_format_version :: int where
  "jsonl_format_version = 4"

definition jsonl_storage_version :: int where
  "jsonl_storage_version = 1"

definition header_json :: "jsonl_header \<Rightarrow> json" where
  "header_json h = JObj ([(''v'', JNum (of_int jsonl_format_version)), (''kind'', JStr ''header''), (''id'', JStr (header_id h)),
     (''storageVersion'', JNum (of_int (storage_version h))), (''createdAt'', JNum (of_int (created_at h))), (''cwd'', JStr (cwd h))] @
     opt_field ''parentSessionId'' (map_option JStr (parent_session_id h)) @
     opt_field ''legacyParentSessionPath'' (map_option JStr (legacy_parent_path h)) @
     opt_field ''nextSeq'' (map_option (\<lambda>n. JNum (of_int n)) (header_next_seq h)))"

definition is_text :: "json option \<Rightarrow> bool" where
  "is_text v \<longleftrightarrow> (case v of Some (JStr _) \<Rightarrow> True | _ \<Rightarrow> False)"

definition is_jsonl_storage_header :: "json \<Rightarrow> bool" where
  "is_jsonl_storage_header v \<longleftrightarrow> (case v of
     JObj kvs \<Rightarrow> own_get kvs ''kind'' = Some (JStr ''header'') \<and> own_get kvs ''v'' = Some (JNum (of_int jsonl_format_version)) \<and>
       is_text (own_get kvs ''id'') \<and> is_text (own_get kvs ''cwd'') \<and> safe_integer 1 (own_get kvs ''storageVersion'') \<and>
       safe_integer 0 (own_get kvs ''createdAt'') \<and> (own_get kvs ''nextSeq'' = None \<or> safe_integer 1 (own_get kvs ''nextSeq'')) \<and>
       (own_get kvs ''parentSessionId'' = None \<or> is_text (own_get kvs ''parentSessionId'')) \<and>
       (own_get kvs ''legacyParentSessionPath'' = None \<or> is_text (own_get kvs ''legacyParentSessionPath''))
   | _ \<Rightarrow> False)"

definition is_legacy_v3_session_header :: "(string \<Rightarrow> bool) \<Rightarrow> json \<Rightarrow> bool" where
  "is_legacy_v3_session_header is_date v \<longleftrightarrow> (case v of
     JObj kvs \<Rightarrow> own_get kvs ''type'' = Some (JStr ''session'') \<and> own_get kvs ''version'' = Some (JNum 3) \<and>
       is_text (own_get kvs ''id'') \<and> is_text (own_get kvs ''cwd'') \<and>
       (case own_get kvs ''timestamp'' of Some (JStr t) \<Rightarrow> is_date t | _ \<Rightarrow> False) \<and>
       (own_get kvs ''parentSession'' = None \<or> is_text (own_get kvs ''parentSession''))
   | _ \<Rightarrow> False)"

definition cast_header :: "json \<Rightarrow> jsonl_header option" where
  "cast_header v = do {
     kvs \<leftarrow> as_obj v;
     i \<leftarrow> field as_str kvs ''id''; sv \<leftarrow> field as_int kvs ''storageVersion''; c \<leftarrow> field as_int kvs ''createdAt'';
     d \<leftarrow> field as_str kvs ''cwd''; p \<leftarrow> optional as_str kvs ''parentSessionId'';
     l \<leftarrow> optional as_str kvs ''legacyParentSessionPath''; n \<leftarrow> optional as_int kvs ''nextSeq'';
     Some \<lparr>header_id = i, storage_version = sv, created_at = c, cwd = d, parent_session_id = p, legacy_parent_path = l,
       header_next_seq = n\<rparr> }"

datatype parsed_header = V4Header jsonl_header | V3Header json

definition parse_jsonl_session_header :: "(string \<Rightarrow> bool) \<Rightarrow> (string \<Rightarrow> rat option) \<Rightarrow> string \<Rightarrow> jsonl_error + parsed_header" where
  "parse_jsonl_session_header is_date read line = (case json_parse read line of
     None \<Rightarrow> Inl NotJson
   | Some v \<Rightarrow> if is_jsonl_storage_header v then rbind (accept_cast (cast_header v)) (\<lambda>h. Inr (V4Header h))
       else if is_legacy_v3_session_header is_date v then Inr (V3Header v) else Inl UnsupportedHeader)"

section \<open>Files\<close>

abbreviation line_end :: char where
  "line_end \<equiv> CHR 0x0A"

text \<open>A session's file and the file beside it in which \<open>publishFileAtomically\<close> stages a new one.\<close>

record session_file =
  stored :: "string option"
  staged :: "string option"

text \<open>An append succeeds, or ends after some characters.\<close>

datatype append_fate = Appended | TornAfter nat

text \<open>A publication succeeds, fails and removes what it staged, or stops after some characters were staged.\<close>

datatype publish_fate = Published | PublishFailed | StagedOnly nat

definition publish_file_atomically :: "publish_fate \<Rightarrow> string list \<Rightarrow> session_file \<Rightarrow> session_file \<times> bool" where
  "publish_file_atomically fate pieces f = (case fate of
     Published \<Rightarrow> (\<lparr>stored = Some (concat pieces), staged = None\<rparr>, True)
   | PublishFailed \<Rightarrow> (f\<lparr>staged := None\<rparr>, False)
   | StagedOnly n \<Rightarrow> (f\<lparr>staged := Some (take n (concat pieces))\<rparr>, False))"

definition line_of :: "(rat \<Rightarrow> string) \<Rightarrow> rat committed list \<Rightarrow> string" where
  "line_of num ws = serialize_jsonl_transaction num ws @ [line_end]"

definition header_line :: "(rat \<Rightarrow> string) \<Rightarrow> jsonl_header \<Rightarrow> string" where
  "header_line num h = json_text num (header_json h) @ [line_end]"

definition publish_jsonl :: "(rat \<Rightarrow> string) \<Rightarrow> publish_fate \<Rightarrow> jsonl_header \<Rightarrow> rat committed list list \<Rightarrow> session_file \<Rightarrow> session_file \<times> bool" where
  "publish_jsonl num fate h txs f = publish_file_atomically fate (header_line num h # map (line_of num) txs) f"

definition before_last :: "char \<Rightarrow> string \<Rightarrow> string" where
  "before_last c s = rev (tl (dropWhile (\<lambda>x. x \<noteq> c) (rev s)))"

definition split_complete_lines :: "string \<Rightarrow> string list \<times> bool" where
  "split_complete_lines text = (if text \<noteq> [] \<and> last text = line_end then (split_on line_end (butlast text), False)
     else if line_end \<notin> set text then ([], True)
     else (split_on line_end (before_last line_end text), True))"

text \<open>The first line as a line reader gives it, and the header in it.\<close>

definition read_jsonl_header :: "(string \<Rightarrow> bool) \<Rightarrow> (string \<Rightarrow> rat option) \<Rightarrow> string \<Rightarrow> jsonl_error + parsed_header" where
  "read_jsonl_header is_date read text = (let line = takeWhile (\<lambda>c. c \<noteq> line_end) text in
     if line_end \<notin> set text \<or> line = [] then Inl MissingHeader else parse_jsonl_session_header is_date read line)"

section \<open>The storage\<close>

fun replay_lines :: "(string \<Rightarrow> rat option) \<Rightarrow> nat \<Rightarrow> rat storage_state \<Rightarrow> string list \<Rightarrow> jsonl_error + rat storage_state" where
  "replay_lines read i st [] = Inr st"
| "replay_lines read i st (l # ls) = (case rbind (parse_jsonl_transaction read l) (\<lambda>ws. map_sum Refused id (replay_committed st ws)) of
     Inl e \<Rightarrow> Inl (InvalidLine i e)
   | Inr st' \<Rightarrow> replay_lines read (Suc i) st' ls)"

definition open_state :: "(string \<Rightarrow> rat option) \<Rightarrow> jsonl_header \<Rightarrow> string list \<Rightarrow> jsonl_error + rat storage_state" where
  "open_state read h lines = (if storage_version h \<noteq> jsonl_storage_version then Inl (UnsupportedVersion (storage_version h))
     else rbind (replay_lines read 2 new_storage_state (tl lines)) (\<lambda>st.
       case header_next_seq h of None \<Rightarrow> Inr st | Some n \<Rightarrow> map_sum Refused id (advance_next_seq st n)))"

text \<open>\<open>openV4\<close>; a torn end is cut off by publishing the complete lines.\<close>

definition open_v4 :: "(string \<Rightarrow> rat option) \<Rightarrow> publish_fate \<Rightarrow> jsonl_header \<Rightarrow> session_file \<Rightarrow> session_file \<times> (jsonl_error + rat storage_state)" where
  "open_v4 read fate h f = (case stored f of
     None \<Rightarrow> (f, Inl FileFailed)
   | Some text \<Rightarrow> (case split_complete_lines text of (lines, torn) \<Rightarrow>
       (case open_state read h lines of
          Inl e \<Rightarrow> (f, Inl e)
        | Inr st \<Rightarrow> if torn then (case publish_file_atomically fate [join_on line_end lines @ [line_end]] f of
              (f', published) \<Rightarrow> (f', if published then Inr st else Inl FileFailed))
            else (f, Inr st))))"

text \<open>\<open>open\<close> of a format-4 file.\<close>

definition open_jsonl :: "(string \<Rightarrow> bool) \<Rightarrow> (string \<Rightarrow> rat option) \<Rightarrow> publish_fate \<Rightarrow> session_file \<Rightarrow>
    session_file \<times> (jsonl_error + jsonl_header \<times> rat storage_state) option" where
  "open_jsonl is_date read fate f = (case stored f of
     None \<Rightarrow> (f, Some (Inl FileFailed))
   | Some text \<Rightarrow> (case read_jsonl_header is_date read text of
       Inl e \<Rightarrow> (f, Some (Inl e))
     | Inr (V3Header v) \<Rightarrow> (f, None)
     | Inr (V4Header h) \<Rightarrow> (case open_v4 read fate h f of (f', r) \<Rightarrow> (f', Some (map_sum id (Pair h) r)))))"

definition create_jsonl :: "(rat \<Rightarrow> string) \<Rightarrow> publish_fate \<Rightarrow> jsonl_header \<Rightarrow> rat new_write list \<Rightarrow> int \<Rightarrow> session_file \<Rightarrow>
    session_file \<times> (jsonl_error + rat storage_state)" where
  "create_jsonl num fate h ws ts f = (case prepare_commit new_storage_state ws ts of
     Inl e \<Rightarrow> (f, Inl (Refused e))
   | Inr p \<Rightarrow> (case publish_jsonl num fate h (if pwrites p = [] then [] else [pwrites p]) f of
       (f', published) \<Rightarrow> (f', if \<not> published then Inl FileFailed
         else (case apply_validated new_storage_state (pwrites p) of (st, r) \<Rightarrow> rbind (map_sum Refused id r) (\<lambda>_. Inr st)))))"

definition append_line :: "append_fate \<Rightarrow> string \<Rightarrow> session_file \<Rightarrow> session_file \<times> bool" where
  "append_line fate line f = (case fate of
     Appended \<Rightarrow> (f\<lparr>stored := map_option (\<lambda>s. s @ line) (stored f)\<rparr>, True)
   | TornAfter n \<Rightarrow> (f\<lparr>stored := map_option (\<lambda>s. s @ take n line) (stored f)\<rparr>, False))"

definition apply_commit :: "(rat \<Rightarrow> string) \<Rightarrow> append_fate \<Rightarrow> session_file \<Rightarrow> rat storage_state \<Rightarrow> rat new_write list \<Rightarrow> int \<Rightarrow>
    session_file \<times> rat storage_state \<times> (jsonl_error + rat prepared_commit \<times> rat session_stats)" where
  "apply_commit num fate f st ws ts = (case prepare_commit st ws ts of
     Inl e \<Rightarrow> (f, st, Inl (Refused e))
   | Inr p \<Rightarrow> (case (if pwrites p = [] then (f, True) else append_line fate (line_of num (pwrites p)) f) of
       (f', appended) \<Rightarrow> if \<not> appended then (f', st, Inl FileFailed)
         else (case apply_validated st (pwrites p) of (st', r) \<Rightarrow> (f', st', map_sum Refused (Pair p) r))))"

end
