(* ===== verification/JsonlCrash.thy ===== *)
theory JsonlCrash
  imports JsonlFile
begin

text \<open>
  What a session file holds through commits and crashes: every run of creations, commits, deaths of the process at any
  point, and openings leaves a file from which exactly the committed transactions are read.
\<close>

section \<open>Lines of a file\<close>

abbreviation lines_text :: "string list \<Rightarrow> string" where
  "lines_text ls \<equiv> concat (map (\<lambda>l. l @ [line_end]) ls)"

lemma lines_text_join: "ls \<noteq> [] \<Longrightarrow> lines_text ls = join_on line_end ls @ [line_end]"
  by (induction ls rule: join_on.induct) simp_all

lemma before_last_append: "c \<notin> set y \<Longrightarrow> before_last c (x @ c # y) = x"
proof -
  assume "c \<notin> set y"
  then have "dropWhile (\<lambda>x. x \<noteq> c) (rev y @ c # rev x) = c # rev x" by (subst dropWhile_append2) auto
  then show ?thesis by (simp add: before_last_def)
qed

lemma split_complete:
  assumes "ls \<noteq> []" "\<forall>l \<in> set ls. line_end \<notin> set l" "line_end \<notin> set rest"
  shows "split_complete_lines (lines_text ls @ rest) = (ls, rest \<noteq> [])"
proof (cases "rest = []")
  case True
  then show ?thesis using assms split_join [of ls line_end] by (simp add: split_complete_lines_def lines_text_join)
next
  case False
  then have "last rest \<noteq> line_end" using assms(3) last_in_set by metis
  then show ?thesis using assms False split_join [of ls line_end] before_last_append [of line_end rest "join_on line_end ls"]
    by (simp add: split_complete_lines_def lines_text_join)
qed

definition file_text :: "(rat \<Rightarrow> string) \<Rightarrow> jsonl_header \<Rightarrow> rat committed list list \<Rightarrow> string" where
  "file_text num h txs = header_line num h @ concat (map (line_of num) txs)"

lemma file_text_lines: "file_text num h txs = lines_text (json_text num (header_json h) # map (serialize_jsonl_transaction num) txs)"
  by (simp add: file_text_def header_line_def line_of_def [abs_def] comp_def)

lemma serialize_no_newline: "number_text num read \<Longrightarrow> line_end \<notin> set (serialize_jsonl_transaction num ws)"
  by (simp add: serialize_jsonl_transaction_def text_no_newline)

lemma file_split:
  assumes "number_text num read" "line_end \<notin> set rest"
  shows "split_complete_lines (file_text num h txs @ rest) =
    (json_text num (header_json h) # map (serialize_jsonl_transaction num) txs, rest \<noteq> [])"
  unfolding file_text_lines by (rule split_complete) (use assms in \<open>auto simp: text_no_newline serialize_no_newline\<close>)

section \<open>The header\<close>

definition header_ok :: "jsonl_header \<Rightarrow> bool" where
  "header_ok h \<longleftrightarrow> storage_version h = jsonl_storage_version \<and> safe_seq 0 (created_at h) \<and>
     (case header_next_seq h of None \<Rightarrow> True | Some n \<Rightarrow> safe_seq 1 n)"

lemma index_key_word: "k \<noteq> [] \<Longrightarrow> \<not> is_digit (hd k) \<Longrightarrow> index_key k = None"
  by (cases k) (auto simp: index_key_def)

lemma own_ordered_words: "list_all (\<lambda>kv. fst kv \<noteq> [] \<and> \<not> is_digit (hd (fst kv))) kvs \<Longrightarrow> own_ordered index_key kvs"
  unfolding own_ordered_def by (induction kvs) (auto simp: list_all_iff own_before_def index_key_word)

lemma header_canonical: "canonical (header_json h)"
proof -
  have "own_ordered index_key kvs" if "header_json h = JObj kvs" for kvs
    by (rule own_ordered_words) (use that in \<open>auto simp: header_json_def opt_field_def is_digit_def split: option.splits\<close>)
  moreover have "own_ok kvs \<and> list_all (\<lambda>kv. canonical (snd kv)) kvs" if "header_json h = JObj kvs" for kvs
    using that by (auto simp: header_json_def opt_field_def own_ok_def split: option.splits)
  moreover obtain kvs where "header_json h = JObj kvs" by (simp add: header_json_def)
  ultimately show ?thesis by simp
qed

lemma header_fields:
  assumes "header_json h = JObj kvs"
  shows "own_get kvs ''v'' = Some (JNum (of_int jsonl_format_version))" "own_get kvs ''kind'' = Some (JStr ''header'')"
    "own_get kvs ''id'' = Some (JStr (header_id h))" "own_get kvs ''storageVersion'' = Some (JNum (of_int (storage_version h)))"
    "own_get kvs ''createdAt'' = Some (JNum (of_int (created_at h)))" "own_get kvs ''cwd'' = Some (JStr (cwd h))"
    "own_get kvs ''parentSessionId'' = map_option JStr (parent_session_id h)"
    "own_get kvs ''legacyParentSessionPath'' = map_option JStr (legacy_parent_path h)"
    "own_get kvs ''nextSeq'' = map_option (\<lambda>n. JNum (of_int n)) (header_next_seq h)"
  using assms by (auto simp: header_json_def opt_field_def split: option.splits)

lemma header_read_back:
  assumes "number_text num read" "header_ok h"
  shows "parse_jsonl_session_header is_date read (json_text num (header_json h)) = Inr (V4Header h)"
proof -
  obtain kvs where kvs: "header_json h = JObj kvs" by (simp add: header_json_def)
  note f = header_fields [OF kvs]
  have "is_jsonl_storage_header (header_json h)"
    using assms(2) by (auto simp: is_jsonl_storage_header_def kvs f header_ok_def is_text_def safe_integer_def safe_seq_def
      jsonl_storage_version_def split: option.splits)
  moreover have "cast_header (header_json h) = Some h"
    by (auto simp: cast_header_def kvs f optional_def split: option.splits)
  ultimately show ?thesis using json_roundtrip [OF assms(1) header_canonical, of h]
    by (simp add: parse_jsonl_session_header_def accept_cast_def)
qed

lemma read_header:
  assumes "number_text num read" "header_ok h"
  shows "read_jsonl_header is_date read (file_text num h txs @ rest) = Inr (V4Header h)"
proof -
  let ?l = "json_text num (header_json h)"
  have "takeWhile (\<lambda>c. c \<noteq> line_end) (?l @ line_end # x) = ?l" for x
    using text_no_newline [OF assms(1), of "header_json h"] by (auto simp: takeWhile_append)
  moreover have "?l \<noteq> []" by (simp add: header_json_def)
  ultimately show ?thesis using header_read_back [OF assms, of is_date]
    by (simp add: read_jsonl_header_def file_text_def header_line_def Let_def)
qed

section \<open>Replaying from a raised sequence number\<close>

text \<open>A header's \<open>nextSeq\<close> is applied after all lines, though it bounded the lines written since. This makes no difference.\<close>

lemma apply_write_next: "apply_write (st\<lparr>next_seq := n\<rparr>) w = map_sum id (\<lambda>s. s\<lparr>next_seq := n\<rparr>) (apply_write st w)"
  by (cases w) (auto simp: apply_value_set_def apply_list_append_def rbind_def Let_def split: option.splits sum.splits)

lemma apply_validated_next:
  assumes "apply_validated st ws = (st', Inr t)" "ws \<noteq> []"
  shows "apply_validated (st\<lparr>next_seq := n\<rparr>) ws = (st', Inr t)"
proof (cases ws)
  case (Cons w ws')
  then show ?thesis using assms(1) by (cases "apply_write st w") (simp_all add: apply_write_next)
qed (use assms in simp)

lemma apply_validated_seq: "apply_validated st ws = (st', Inr t) \<Longrightarrow> ws \<noteq> [] \<Longrightarrow> next_seq st' = committed_seq (last ws) + 1"
proof (induction ws arbitrary: st)
  case (Cons w ws)
  then obtain st1 where st1: "apply_write st w = Inr st1" "apply_validated (st1\<lparr>next_seq := committed_seq w + 1\<rparr>) ws = (st', Inr t)"
    by (auto split: sum.splits)
  show ?case
  proof (cases "ws = []")
    case True
    then show ?thesis using st1 by auto
  next
    case False
    then show ?thesis using Cons.IH [OF st1(2)] by simp
  qed
qed simp

lemma validate_writes_lower: "validate_writes idp entp previous a b ws = Inr () \<Longrightarrow> lower \<le> previous \<Longrightarrow> validate_writes idp entp lower a b ws = Inr ()"
  by (cases ws) (auto split: if_splits)

definition replay_txs :: "jsonl_header \<Rightarrow> rat committed list list \<Rightarrow> storage_error + rat storage_state" where
  "replay_txs h txs = rbind (rfold replay_committed new_storage_state txs) (\<lambda>st.
     case header_next_seq h of None \<Rightarrow> Inr st | Some n \<Rightarrow> advance_next_seq st n)"

lemma replay_committed_Inr: "replay_committed st ws = Inr st' \<longleftrightarrow> validate_committed st ws = Inr () \<and> (\<exists>t. apply_validated st ws = (st', Inr t))"
  by (auto simp: replay_committed_def result_simps split: prod.splits sum.splits)

lemma prepared: "prepare_commit st ws ts = Inr p \<Longrightarrow> pwrites p = commit_writes ws (next_seq st) ts \<and> validate_committed st (pwrites p) = Inr ()"
  by (auto simp: prepare_commit_def prepare_storage_commit_def Let_def result_simps)

lemma replay_extends:
  assumes "replay_txs h txs = Inr st" "prepare_commit st ws ts = Inr p" "pwrites p \<noteq> []" "apply_validated st (pwrites p) = (st', Inr t)"
  shows "replay_txs h (txs @ [pwrites p]) = Inr st'"
proof -
  obtain s0 where s0: "rfold replay_committed new_storage_state txs = Inr s0"
    "(case header_next_seq h of None \<Rightarrow> Inr s0 | Some n \<Rightarrow> advance_next_seq s0 n) = Inr st"
    using assms(1) by (auto simp: replay_txs_def result_simps)
  note p = prepared [OF assms(2)]
  have st: "st = s0\<lparr>next_seq := next_seq st\<rparr>" "next_seq s0 \<le> next_seq st"
    using s0(2) by (auto simp: advance_next_seq_def split: option.splits if_splits)
  have s0_eq: "s0 = st\<lparr>next_seq := next_seq s0\<rparr>"
  proof -
    have "s0\<lparr>next_seq := next_seq st, next_seq := next_seq s0\<rparr> = s0" by simp
    then show ?thesis using st(1) by metis
  qed
  have same: "entries s0 = entries st" "usage_rows s0 = usage_rows st"
    using arg_cong [OF s0_eq, of entries] arg_cong [OF s0_eq, of usage_rows] by simp_all
  have "validate_committed s0 (pwrites p) = Inr ()"
    using p st(2) by (auto simp: validate_committed_def validate_committed_writes_def same elim!: validate_writes_lower)
  moreover have "apply_validated s0 (pwrites p) = (st', Inr t)"
    using apply_validated_next [OF assms(4,3), of "next_seq s0"] s0_eq by simp
  ultimately have r: "replay_committed s0 (pwrites p) = Inr st'" by (simp add: replay_committed_Inr)
  have "committed_seq (last (pwrites p)) = next_seq st + int (length ws) - 1"
  proof -
    have "ws \<noteq> []" using p assms(3) by (cases ws) auto
    moreover have "last (map committed_seq (pwrites p)) = last (map (\<lambda>i. next_seq st + int i) [0..<length ws])"
      using p commit_writes_seqs by metis
    ultimately show ?thesis using assms(3) by (cases ws) (simp_all add: last_map)
  qed
  moreover have "ws \<noteq> []" using p assms(3) by (cases ws) auto
  ultimately have "next_seq st < next_seq st'" using apply_validated_seq [OF assms(4,3)] by (cases ws) auto
  then have "(case header_next_seq h of None \<Rightarrow> Inr st' | Some n \<Rightarrow> advance_next_seq st' n) = Inr st'"
    using s0(2) by (auto simp: advance_next_seq_def max_def split: option.splits if_splits)
  then show ?thesis using s0(1) r by (simp add: replay_txs_def rfold_append)
qed

lemma replay_lines_text:
  assumes "number_text num read"
  shows "list_all (list_all write_ok) txs \<Longrightarrow> rfold replay_committed st txs = Inr st' \<Longrightarrow>
    replay_lines read i st (map (serialize_jsonl_transaction num) txs) = Inr st'"
proof (induction txs arbitrary: st i)
  case (Cons ws txs)
  then obtain s1 where "replay_committed st ws = Inr s1" "rfold replay_committed s1 txs = Inr st'" by (auto simp: result_simps)
  then show ?case using Cons transaction_roundtrip [OF assms, of ws] by simp
qed simp

lemma open_complete:
  assumes "number_text num read" "header_ok h" "list_all (list_all write_ok) txs" "replay_txs h txs = Inr st" "line_end \<notin> set rest"
    "stored f = Some (file_text num h txs @ rest)"
  shows "open_jsonl is_date read Published f =
    ((if rest = [] then f else \<lparr>stored = Some (file_text num h txs), staged = None\<rparr>), Some (Inr (h, st)))"
    and "fst (open_jsonl is_date read fate f) = f \<or> (\<exists>s. fst (open_jsonl is_date read fate f) = f\<lparr>staged := s\<rparr>) \<or>
      fst (open_jsonl is_date read fate f) = \<lparr>stored = Some (file_text num h txs), staged = None\<rparr>"
proof -
  obtain s0 where s0: "rfold replay_committed new_storage_state txs = Inr s0"
    "(case header_next_seq h of None \<Rightarrow> Inr s0 | Some n \<Rightarrow> advance_next_seq s0 n) = Inr st"
    using assms(4) by (auto simp: replay_txs_def result_simps)
  let ?ls = "json_text num (header_json h) # map (serialize_jsonl_transaction num) txs"
  have o: "open_state read h ?ls = Inr st"
    using s0(2) replay_lines_text [OF assms(1,3) s0(1)] assms(2)
    by (auto simp: open_state_def header_ok_def split: option.splits)
  have j: "join_on line_end ?ls @ [line_end] = file_text num h txs" unfolding file_text_lines by (subst lines_text_join) simp_all
  note s = file_split [OF assms(1,5), of h txs] read_header [OF assms(1,2), of is_date txs rest]
  show "open_jsonl is_date read Published f =
      ((if rest = [] then f else \<lparr>stored = Some (file_text num h txs), staged = None\<rparr>), Some (Inr (h, st)))"
    using s o j assms(6) by (simp add: open_jsonl_def open_v4_def publish_file_atomically_def del: join_on.simps)
  show "fst (open_jsonl is_date read fate f) = f \<or> (\<exists>s. fst (open_jsonl is_date read fate f) = f\<lparr>staged := s\<rparr>) \<or>
      fst (open_jsonl is_date read fate f) = \<lparr>stored = Some (file_text num h txs), staged = None\<rparr>"
    using s o j assms(6)
    by (cases fate) (auto simp: open_jsonl_def open_v4_def publish_file_atomically_def simp del: join_on.simps)
qed

section \<open>Runs with crashes\<close>

definition lines_for :: "rat prepared_commit \<Rightarrow> rat committed list list" where
  "lines_for p = (if pwrites p = [] then [] else [pwrites p])"

text \<open>
  A session's file with the state of the process that has it open, if there is one, and the transactions committed so far.
  A process dies at any moment: between commits, while a commit's line is written, while a torn file is repaired. A line
  that has been written whole counts as committed. A fork publishes a whole file. Commits are of values that JSON has, and those that are refused are
  made by the typed interface (\<open>addressed\<close>).
\<close>

inductive session_run :: "(rat \<Rightarrow> string) \<Rightarrow> (string \<Rightarrow> rat option) \<Rightarrow> (string \<Rightarrow> bool) \<Rightarrow> jsonl_header \<Rightarrow>
    session_file \<Rightarrow> rat storage_state option \<Rightarrow> rat committed list list \<Rightarrow> bool"
  for num read is_date h where
  created: "create_jsonl num Published h ws ts f = (f', Inr st) \<Longrightarrow> prepare_commit new_storage_state ws ts = Inr p \<Longrightarrow>
    list_all write_ok (pwrites p) \<Longrightarrow> header_next_seq h = None \<Longrightarrow> session_run num read is_date h f' (Some st) (lines_for p)"
| published: "publish_jsonl num Published h txs f = (f', True) \<Longrightarrow> replay_txs h txs = Inr st \<Longrightarrow> list_all (list_all write_ok) txs \<Longrightarrow>
    session_run num read is_date h f' None txs"
| committed: "session_run num read is_date h f (Some st) txs \<Longrightarrow> apply_commit num Appended f st ws ts = (f', st', Inr (p, t)) \<Longrightarrow>
    list_all write_ok (pwrites p) \<Longrightarrow> session_run num read is_date h f' (Some st') (txs @ lines_for p)"
| refused: "session_run num read is_date h f (Some st) txs \<Longrightarrow> apply_commit num fate f st ws ts = (f', st', Inl (Refused e)) \<Longrightarrow>
    list_all addressed ws \<Longrightarrow> session_run num read is_date h f' (Some st') txs"
| died: "session_run num read is_date h f (Some st) txs \<Longrightarrow> session_run num read is_date h f None txs"
| torn: "session_run num read is_date h f (Some st) txs \<Longrightarrow> prepare_commit st ws ts = Inr p \<Longrightarrow>
    n < length (line_of num (pwrites p)) \<Longrightarrow> apply_commit num (TornAfter n) f st ws ts = (f', st', Inl e) \<Longrightarrow>
    session_run num read is_date h f' None txs"
| opened: "session_run num read is_date h f None txs \<Longrightarrow> open_jsonl is_date read Published f = (f', Some (Inr (h', st))) \<Longrightarrow>
    session_run num read is_date h f' (Some st) txs"
| not_opened: "session_run num read is_date h f None txs \<Longrightarrow> open_jsonl is_date read fate f = (f', r) \<Longrightarrow>
    session_run num read is_date h f' None txs"

definition file_holds :: "(rat \<Rightarrow> string) \<Rightarrow> jsonl_header \<Rightarrow> session_file \<Rightarrow> rat storage_state option \<Rightarrow> rat committed list list \<Rightarrow> bool" where
  "file_holds num h f live txs \<longleftrightarrow> list_all (list_all write_ok) txs \<and>
     (\<exists>st rest. replay_txs h txs = Inr st \<and> stored f = Some (file_text num h txs @ rest) \<and> line_end \<notin> set rest \<and>
       (\<forall>s. live = Some s \<longrightarrow> s = st \<and> rest = []))"

lemma map_sum_Inr: "map_sum f g x = Inr y \<longleftrightarrow> (\<exists>z. x = Inr z \<and> y = g z)"
  by (cases x) auto

lemma file_text_snoc: "file_text num h (txs @ [ws]) = file_text num h txs @ line_of num ws"
  by (simp add: file_text_def)

lemma commit_holds:
  assumes "file_holds num h f (Some st) txs" "apply_commit num Appended f st ws ts = (f', st', Inr (p, t))" "list_all write_ok (pwrites p)"
  shows "file_holds num h f' (Some st') (txs @ lines_for p)"
proof -
  have h: "list_all (list_all write_ok) txs" "replay_txs h txs = Inr st" "stored f = Some (file_text num h txs)"
    using assms(1) by (auto simp: file_holds_def)
  obtain q where q: "prepare_commit st ws ts = Inr q" using assms(2) by (cases "prepare_commit st ws ts") (auto simp: apply_commit_def)
  show ?thesis
  proof (cases "pwrites q = []")
    case True
    then have "f' = f" "p = q" "st' = st" using assms(2) q by (auto simp: apply_commit_def)
    then show ?thesis using assms(1) True by (simp add: lines_for_def)
  next
    case False
    then have c: "apply_validated st (pwrites q) = (st', Inr t)" "p = q" "stored f' = Some (file_text num h txs @ line_of num (pwrites q))"
      using assms(2) q h(3) by (auto simp: apply_commit_def append_line_def map_sum_Inr split: prod.splits)
    show ?thesis using replay_extends [OF h(2) q False c(1)] c(2,3) h(1) assms(3) False
      by (auto simp: file_holds_def lines_for_def file_text_snoc)
  qed
qed

lemma addressed_applies_all:
  assumes "list_all addressed ws"
  shows "\<exists>st' t. apply_validated st (commit_writes ws s ts) = (st', Inr t)"
proof -
  obtain st' where "memory_log.run st (commit_writes ws s ts) = (st', Inr ())" using addressed_run [OF assms] by blast
  then show ?thesis by (simp add: apply_validated_run)
qed

lemma refused_same:
  assumes "apply_commit num fate f st ws ts = (f', st', Inl (Refused e))" "list_all addressed ws"
  shows "f' = f \<and> st' = st"
proof (cases "prepare_commit st ws ts")
  case (Inr p)
  obtain st1 t where "apply_validated st (pwrites p) = (st1, Inr t)"
    using addressed_applies_all [OF assms(2)] prepared [OF Inr] by metis
  then show ?thesis using assms(1) Inr by (auto simp: apply_commit_def split: prod.splits if_splits)
qed (use assms(1) in \<open>simp add: apply_commit_def\<close>)

lemma torn_holds:
  assumes "number_text num read" "file_holds num h f (Some st) txs" "prepare_commit st ws ts = Inr p"
    "n < length (line_of num (pwrites p))" "apply_commit num (TornAfter n) f st ws ts = (f', st', Inl e)"
  shows "file_holds num h f' None txs"
proof -
  have h: "list_all (list_all write_ok) txs" "replay_txs h txs = Inr st" "stored f = Some (file_text num h txs)"
    using assms(2) by (auto simp: file_holds_def)
  have "take n (line_of num (pwrites p)) = take n (serialize_jsonl_transaction num (pwrites p))"
    using assms(4) by (simp add: line_of_def)
  then have "line_end \<notin> set (take n (line_of num (pwrites p)))"
    using serialize_no_newline [OF assms(1)] by (auto dest: in_set_takeD)
  moreover have "pwrites p = [] \<and> f' = f \<or> stored f' = Some (file_text num h txs @ take n (line_of num (pwrites p)))"
    using assms(3,5) h(3) by (auto simp: apply_commit_def append_line_def split: if_splits prod.splits)
  ultimately show ?thesis using h unfolding file_holds_def by (auto intro: exI [of _ "[]"])
qed

lemma created_holds:
  assumes "create_jsonl num Published h ws ts f = (f', Inr st)" "prepare_commit new_storage_state ws ts = Inr p"
    "list_all write_ok (pwrites p)" "header_next_seq h = None"
  shows "file_holds num h f' (Some st) (lines_for p)"
proof -
  have s: "stored f' = Some (file_text num h (lines_for p))" "\<exists>t. apply_validated new_storage_state (pwrites p) = (st, Inr t)"
    using assms(1,2) by (auto simp: create_jsonl_def publish_jsonl_def publish_file_atomically_def file_text_def lines_for_def
      result_simps map_sum_Inr split: prod.splits)
  have "replay_committed new_storage_state (pwrites p) = Inr st"
    using s(2) prepared [OF assms(2)] unfolding replay_committed_Inr by blast
  then have "replay_txs h (lines_for p) = Inr st"
    using s(2) assms(4) by (auto simp: replay_txs_def lines_for_def)
  then show ?thesis using s(1) assms(3) by (auto simp: file_holds_def lines_for_def)
qed

lemma run_holds:
  assumes "number_text num read" "header_ok h" "session_run num read is_date h f live txs"
  shows "file_holds num h f live txs"
  using assms(3)
proof induction
  case (created ws ts f f' st p)
  then show ?case by (rule created_holds)
next
  case (published txs f f' st)
  then have "stored f' = Some (file_text num h txs @ [])"
    by (auto simp: publish_jsonl_def publish_file_atomically_def file_text_def)
  then show ?case using published unfolding file_holds_def by (metis empty_iff empty_set option.distinct(1))
next
  case (committed f st txs ws ts f' st' p t)
  show ?case by (rule commit_holds [OF committed.IH committed.hyps(2,3)])
next
  case (refused f st txs fate ws ts f' st' e)
  then show ?case using refused_same [OF refused.hyps(2,3)] by simp
next
  case (died f st txs)
  then show ?case by (auto simp: file_holds_def)
next
  case (torn f st txs ws ts p n f' st' e)
  show ?case by (rule torn_holds [OF assms(1) torn.IH torn.hyps(2,3,4)])
next
  case (opened f txs f' h' st)
  then obtain s rest where s: "list_all (list_all write_ok) txs" "replay_txs h txs = Inr s" "stored f = Some (file_text num h txs @ rest)"
    "line_end \<notin> set rest" by (auto simp: file_holds_def)
  then show ?case using open_complete(1) [OF assms(1,2) s(1,2,4,3), of is_date] opened.hyps(2)
    by (auto simp: file_holds_def split: if_splits)
next
  case (not_opened f txs fate f' r)
  then obtain s rest where s: "list_all (list_all write_ok) txs" "replay_txs h txs = Inr s" "stored f = Some (file_text num h txs @ rest)"
    "line_end \<notin> set rest" by (auto simp: file_holds_def)
  have "f' = f \<or> (\<exists>s. f' = f\<lparr>staged := s\<rparr>) \<or> f' = \<lparr>stored = Some (file_text num h txs), staged = None\<rparr>"
    using open_complete(2) [OF assms(1,2) s(1,2,4,3), of is_date fate] not_opened.hyps(2) by simp
  then have "stored f' = stored f \<or> stored f' = Some (file_text num h txs @ [])" by auto
  then show ?case using s by (auto simp: file_holds_def)
qed

text \<open>C6. After every run of commits, crashes and openings the session opens, with the state of exactly the committed
  transactions, and its file is whole again.\<close>

theorem crash_recovery:
  assumes "number_text num read" "header_ok h" "session_run num read is_date h f None txs"
  shows "\<exists>f' st. open_jsonl is_date read Published f = (f', Some (Inr (h, st))) \<and> replay_txs h txs = Inr st \<and>
    stored f' = Some (file_text num h txs)"
proof -
  obtain st rest where s: "list_all (list_all write_ok) txs" "replay_txs h txs = Inr st" "stored f = Some (file_text num h txs @ rest)"
    "line_end \<notin> set rest" using run_holds [OF assms] by (auto simp: file_holds_def)
  then show ?thesis using open_complete(1) [OF assms(1,2) s(1,2,4,3), of is_date] by (cases "rest = []") auto
qed

section \<open>Witnesses\<close>

text \<open>Numbers as their numerator and denominator.\<close>

definition sample_num :: "rat \<Rightarrow> string" where
  "sample_num q = (case quotient_of q of (a, b) \<Rightarrow> (if a < 0 then ''-'' else []) @ show_nat (nat \<bar>a\<bar>) @ ''e'' @ show_nat (nat b))"

definition sample_read :: "string \<Rightarrow> rat option" where
  "sample_read s = (let t = dropWhile (\<lambda>c. c = CHR ''-'') s;
     q = of_nat (read_nat (takeWhile (\<lambda>c. c \<noteq> CHR ''e'') t)) / of_nat (read_nat (tl (dropWhile (\<lambda>c. c \<noteq> CHR ''e'') t))) in
     Some (if t = s then q else - q))"

lemma sample_number_text: "number_text sample_num sample_read"
  unfolding number_text_def
proof (intro allI conjI)
  fix q
  obtain a b where ab: "quotient_of q = (a, b)" by (cases "quotient_of q")
  have b: "0 < b" "q = of_int a / of_int b" using quotient_of_denom_pos [OF ab] quotient_of_div [OF ab] by simp_all
  let ?n = "show_nat (nat \<bar>a\<bar>)" and ?d = "show_nat (nat b)"
  have num: "sample_num q = (if a < 0 then ''-'' else []) @ ?n @ CHR ''e'' # ?d" using ab by (simp add: sample_num_def)
  show "sample_num q \<noteq> []" using num by simp
  have digits: "list_all number_char (show_nat n)" for n using show_nat_digits by (auto simp: list_all_iff number_char_def)
  then show "list_all number_char (sample_num q)" using num by (auto simp: number_char_def)
  have ne: "list_all (\<lambda>c. c \<noteq> CHR ''e'' \<and> c \<noteq> CHR ''-'') ?n" using show_nat_digits [of "CHR ''e''" "nat \<bar>a\<bar>"] show_nat_digits [of "CHR ''-''" "nat \<bar>a\<bar>"]
    by (auto simp: list_all_iff is_digit_def)
  obtain c r where c: "?n = c # r" by (cases ?n) auto
  then have drop: "dropWhile (\<lambda>c. c = CHR ''-'') (sample_num q) = ?n @ CHR ''e'' # ?d" using num ne by simp
  have te: "takeWhile (\<lambda>c. c \<noteq> CHR ''e'') (?n @ CHR ''e'' # ?d) = ?n" and de: "dropWhile (\<lambda>c. c \<noteq> CHR ''e'') (?n @ CHR ''e'' # ?d) = CHR ''e'' # ?d"
    using ne by (auto simp: list_all_iff takeWhile_append dropWhile_append)
  have "(?n @ CHR ''e'' # ?d = sample_num q) = (\<not> a < 0)" using num by simp
  then have "sample_read (sample_num q) = Some (if \<not> a < 0 then of_nat (nat \<bar>a\<bar>) / of_nat (nat b) else - (of_nat (nat \<bar>a\<bar>) / of_nat (nat b)))"
    unfolding sample_read_def Let_def drop te de list.sel read_show_nat by simp
  also have "\<dots> = Some q" using b by (simp add: of_nat_nat)
  finally show "sample_read (sample_num q) = Some q" .
qed

definition sample_header :: jsonl_header where
  "sample_header = \<lparr>header_id = ''s'', storage_version = 1, created_at = 0, cwd = ''/'', parent_session_id = None,
     legacy_parent_path = None, header_next_seq = None\<rparr>"

lemma sample_header_ok: "header_ok sample_header"
  by (simp add: header_ok_def sample_header_def jsonl_storage_version_def safe_seq_def)

definition sample_row :: "int \<Rightarrow> rat committed" where
  "sample_row s = CValueSet s ''app'' ''k'' JNull"

definition sample_state :: "int \<Rightarrow> rat storage_state" where
  "sample_state s = new_storage_state\<lparr>scalar_values := [(physical_key ''app'' ''k'',
     \<lparr>saddress = \<lparr>namespace = ''app'', akey = ''k''\<rparr>, svalue = JNull, sseq = s\<rparr>)], next_seq := s + 1\<rparr>"

lemma sample_row_ok: "safe_seq 1 s \<Longrightarrow> write_ok (sample_row s)"
  by (simp add: sample_row_def own_ok_def own_ordered_words is_digit_def)

lemma sample_prepare:
  "prepare_commit (new_storage_state :: rat storage_state) [WValueSet ''app'' ''k'' JNull] 7 =
    Inr \<lparr>pwrites = [sample_row 1], first_seq = 1, seqs = [1], ptimestamp = 7\<rparr>"
  "prepare_commit (sample_state s) [WValueSet ''app'' ''k'' JNull] 7 =
    Inr \<lparr>pwrites = [sample_row (s + 1)], first_seq = s + 1, seqs = [s + 1], ptimestamp = 7\<rparr>"
  by (simp_all add: prepare_commit_def prepare_storage_commit_def new_storage_state_def validate_committed_def
      validate_committed_writes_def sample_row_def sample_state_def Let_def)

lemma sample_apply:
  "apply_validated new_storage_state [sample_row 1] = (sample_state 1, Inr empty_stats)"
  "apply_validated (sample_state s) [sample_row (s + 1)] = (sample_state (s + 1), Inr empty_stats)"
  by (simp_all add: sample_row_def sample_state_def new_storage_state_def apply_value_set_def stored_address_def
      validate_address_def nul_def map_set_def own_set_def own_has_def own_insert_def Let_def)

abbreviation sample_file :: session_file where
  "sample_file \<equiv> \<lparr>stored = Some (file_text sample_num sample_header [[sample_row 1]]), staged = None\<rparr>"

lemma sample_created:
  "session_run sample_num sample_read (\<lambda>_. True) sample_header sample_file (Some (sample_state 1)) [[sample_row 1]]"
proof -
  have c: "create_jsonl sample_num Published sample_header [WValueSet ''app'' ''k'' JNull] 7 \<lparr>stored = None, staged = None\<rparr> =
      (sample_file, Inr (sample_state 1))"
    by (simp add: create_jsonl_def sample_prepare sample_apply publish_jsonl_def publish_file_atomically_def file_text_def
        del: apply_validated.simps)
  show ?thesis
    using session_run.created [OF c sample_prepare(1), of sample_read "\<lambda>_. True"] sample_row_ok [of 1]
    by (simp add: lines_for_def sample_header_def safe_seq_def)
qed

text \<open>The process dies when the next line has its first character.\<close>

lemma crash_recovery_witness:
  "\<exists>f f' st. session_run sample_num sample_read (\<lambda>_. True) sample_header f None [[sample_row 1]] \<and>
    stored f = Some (file_text sample_num sample_header [[sample_row 1]] @ [CHR 0x7B]) \<and>
    open_jsonl (\<lambda>_. True) sample_read Published f = (f', Some (Inr (sample_header, st))) \<and>
    stored f' = Some (file_text sample_num sample_header [[sample_row 1]])"
proof -
  have l: "line_of sample_num [sample_row 2] = CHR 0x7B # tl (line_of sample_num [sample_row 2])"
    by (simp add: line_of_def serialize_jsonl_transaction_def transaction_json_def sample_row_def)
  let ?f = "sample_file\<lparr>stored := Some (file_text sample_num sample_header [[sample_row 1]] @ [CHR 0x7B])\<rparr>"
  have "take (Suc 0) (line_of sample_num [sample_row 2]) = [CHR 0x7B]" by (subst l) simp
  then have a: "apply_commit sample_num (TornAfter 1) sample_file (sample_state 1) [WValueSet ''app'' ''k'' JNull] 7 =
      (?f, sample_state 1, Inl FileFailed)"
    using sample_prepare(2) [of 1] by (simp add: apply_commit_def append_line_def)
  have "1 < length (line_of sample_num [sample_row 2])"
    by (simp add: line_of_def serialize_jsonl_transaction_def transaction_json_def sample_row_def)
  then have r: "session_run sample_num sample_read (\<lambda>_. True) sample_header ?f None [[sample_row 1]]"
    using session_run.torn [OF sample_created sample_prepare(2) _ a] by simp
  show ?thesis using r crash_recovery [OF sample_number_text sample_header_ok r] by fastforce
qed

end
