(* ===== verification/JsonTorn.thy ===== *)
theory JsonTorn
  imports JsonParse "HOL-Library.Sublist"
begin

text \<open>
  A text of a value that breaks off and goes on with another value is no JSON text: whatever a value is cut to, the parser
  fails at once or gets stuck before the end.
\<close>

section \<open>Fuel\<close>

lemma parse_more:
  "parse_value read n s = Some r \<Longrightarrow> parse_value read (Suc n) s = Some r"
  "parse_items read n s = Some q \<Longrightarrow> parse_items read (Suc n) s = Some q"
  "parse_members read n acc s = Some p \<Longrightarrow> parse_members read (Suc n) acc s = Some p"
proof (induction read n s and read n s and read n acc s arbitrary: r and q and p rule: parse_value_parse_items_parse_members.induct)
  case (2 read n s)
  show ?case
  proof (cases "skip_space s")
    case (Cons c t)
    then show ?thesis using 2 by (auto simp del: parse_items.simps parse_members.simps split: if_splits option.splits)
  qed (use 2 in simp)
next
  case (4 read n s)
  obtain v t where v: "parse_value read n s = Some (v, t)" using "4.prems" by (cases "parse_value read n s") auto
  have w: "parse_value read (Suc n) s = Some (v, t)" by (rule "4.IH"(1) [OF v])
  show ?case
  proof (cases "eat (CHR '','') t")
    case None
    then show ?thesis using "4.prems" v w by (subst parse_items.simps) simp
  next
    case (Some t')
    then obtain vs u where i: "parse_items read n t' = Some (vs, u)" "q = (v # vs, u)" using "4.prems" v
      by (cases "parse_items read n t'") auto
    have "parse_items read (Suc n) t' = Some (vs, u)" by (rule "4.IH"(2) [OF v refl Some i(1)])
    then show ?thesis using w Some i(2) by (subst parse_items.simps) simp
  qed
next
  case (6 read n acc s)
  obtain k t where k: "Option.bind (eat (CHR 0x22) s) parse_chars = Some (k, t)" using "6.prems"
    by (cases "Option.bind (eat (CHR 0x22) s) parse_chars") auto
  obtain t' where t: "eat (CHR '':'') t = Some t'" using "6.prems" k by (cases "eat (CHR '':'') t") auto
  obtain v u where u: "parse_value read n t' = Some (v, u)" using "6.prems" k t by (cases "parse_value read n t'") auto
  have v: "Option.bind (eat (CHR '':'') t) (parse_value read n) = Some (v, u)" using t u by simp
  have w: "parse_value read (Suc n) t' = Some (v, u)" by (rule "6.IH"(1) [OF k refl t u])
  show ?case
  proof (cases "eat (CHR '','') u")
    case None
    then show ?thesis using "6.prems" k t u w by (subst parse_members.simps) simp
  next
    case (Some u')
    then have i: "parse_members read n (own_set index_key k v acc) u' = Some p" using "6.prems" k t u by simp
    have "parse_members read (Suc n) (own_set index_key k v acc) u' = Some p" by (rule "6.IH"(2) [OF k refl v refl Some i])
    then show ?thesis using w t Some k by (subst parse_members.simps) simp
  qed
qed simp_all

lemma parse_fuel: "parse_value read n s = Some r \<Longrightarrow> n \<le> m \<Longrightarrow> parse_value read m s = Some r"
  by (induction m) (auto simp: le_Suc_eq parse_more(1) simp del: parse_value.simps)

section \<open>Stuck parses\<close>

definition stuck :: "string \<Rightarrow> bool" where
  "stuck r \<longleftrightarrow> (case skip_space r of [] \<Rightarrow> False | c # _ \<Rightarrow> c \<notin> {CHR '','', CHR '']'', CHR 0x7D, CHR '':''})"

lemma stuck_eat: "stuck r \<Longrightarrow> c \<in> {CHR '','', CHR '']'', CHR 0x7D, CHR '':''} \<Longrightarrow> eat c r = None"
  by (auto simp: stuck_def eat_def split: list.splits)

definition halts :: "('a \<times> string) option \<Rightarrow> bool" where
  "halts r \<longleftrightarrow> (\<forall>x rest. r = Some (x, rest) \<longrightarrow> stuck rest)"

text \<open>What goes on after the break: a value of its own, whose first quote is followed by a name.\<close>

definition resumes :: "(string \<Rightarrow> rat option) \<Rightarrow> string \<Rightarrow> bool" where
  "resumes read y \<longleftrightarrow> (\<exists>t. y = CHR 0x7B # t \<or> y = CHR ''['' # t) \<and> (\<forall>n r. parse_value read n y = Some r \<longrightarrow> snd r = []) \<and>
     halts (parse_chars y)"

lemma resumes_eat: "resumes read y \<Longrightarrow> c \<noteq> CHR 0x7B \<Longrightarrow> c \<noteq> CHR ''['' \<Longrightarrow> eat c y = None"
  by (auto simp: resumes_def)

lemma resumes_stuck: "resumes read y \<Longrightarrow> stuck y"
  by (auto simp: resumes_def stuck_def)

lemma resumes_ends: "resumes read y \<Longrightarrow> ends y"
  by (auto simp: resumes_def)

text \<open>A proper part of a text, not even closed by what ends it.\<close>

definition cut_to :: "string \<Rightarrow> string \<Rightarrow> bool" where
  "cut_to f s \<longleftrightarrow> strict_prefix f s"

lemma cut_append: "cut_to f (a @ b) \<longleftrightarrow> cut_to f a \<or> (\<exists>g. f = a @ g \<and> cut_to g b)"
  unfolding cut_to_def strict_prefix_def by (auto simp: prefix_append)

lemma cut_Nil [simp]: "\<not> cut_to f []"
  by (simp add: cut_to_def)

lemma cut_Cons: "cut_to f (c # s) \<longleftrightarrow> f = [] \<or> (\<exists>g. f = c # g \<and> cut_to g s)"
  by (cases f) (auto simp: cut_to_def)

section \<open>A cut text does not parse\<close>

lemma halts_map [simp]: "halts (map_option (apfst h) r) = halts r"
  by (cases r) (auto simp: halts_def)

lemma halts_None [simp]: "halts None"
  by (simp add: halts_def)

lemma unicode_none: "hex_value c = None \<Longrightarrow> c \<in> set w \<Longrightarrow> unicode_escape w = None"
  by (cases w rule: unicode_escape.cases) (auto split: option.splits)

lemma cut_escape:
  assumes "resumes read y" "cut_to f (json_escape c)" "f \<noteq> []"
  shows "parse_chars (f @ y) = None"
proof -
  obtain b t where y: "y = b # t" "b = CHR 0x7B \<or> b = CHR ''[''" using assms(1) by (auto simp: resumes_def)
  then have b: "hex_value b = None" "simple_escape b = None" "b \<noteq> CHR ''u''"
    by (auto simp: hex_value_def simple_escape_def)
  have one: "parse_chars (CHR 0x5C # y) = None" using y b by (subst parse_chars.simps) auto
  have u: "parse_chars (CHR 0x5C # CHR ''u'' # d @ y) = None" if "length d < 4" for d
  proof -
    have "b \<in> set (take 4 (d @ y))" using that y by (cases "4 - length d") auto
    then show ?thesis using unicode_none [OF b(1)] by (subst parse_chars.simps) simp
  qed
  show ?thesis
    using assms(2,3) one u [of "[]"] u [of "[CHR ''0'']"] u [of "[CHR ''0'', CHR ''0'']"]
      u [of "[CHR ''0'', CHR ''0'', hex_digit (of_char c div 16)]"]
    by (auto simp: json_escape_def cut_Cons split: if_splits)
qed

lemma cut_chars:
  assumes "resumes read y"
  shows "cut_to f (concat (map json_escape s) @ [CHR 0x22]) \<Longrightarrow> halts (parse_chars (f @ y))"
proof (induction s arbitrary: f)
  case Nil
  then show ?case using assms by (simp add: cut_Cons resumes_def)
next
  case (Cons c s)
  then consider "f = []" | "f \<noteq> []" "cut_to f (json_escape c)"
    | g where "f = json_escape c @ g" "cut_to g (concat (map json_escape s) @ [CHR 0x22])"
    by (auto simp: cut_append)
  then show ?case
  proof cases
    case 1
    then show ?thesis using assms by (simp add: resumes_def)
  next
    case 2
    then show ?thesis using cut_escape [OF assms] by simp
  next
    case (3 g)
    then show ?thesis using Cons.IH by (simp add: parse_escape)
  qed
qed

lemma text_or_none:
  assumes "number_text num read" "canonical v" "ends x"
  shows "parse_value read n (json_text num v @ x) = None \<or> parse_value read n (json_text num v @ x) = Some (v, x)"
proof (cases "parse_value read n (json_text num v @ x)")
  case (Some r)
  let ?m = "max n (length (json_text num v))"
  have "parse_value read ?m (json_text num v @ x) = Some r" by (rule parse_fuel [OF Some]) simp
  then show ?thesis using Some parse_text [OF assms(1,2), of ?m x] assms(3) by simp
qed simp

definition cuts :: "(rat \<Rightarrow> string) \<Rightarrow> (string \<Rightarrow> rat option) \<Rightarrow> string \<Rightarrow> json \<Rightarrow> bool" where
  "cuts num read y v \<longleftrightarrow> (\<forall>f n. f \<noteq> [] \<longrightarrow> cut_to f (json_text num v) \<longrightarrow> halts (parse_value read n (f @ y)))"

text \<open>A value that is cut off, or has not begun, is not followed by what continues its container.\<close>

lemma cut_value:
  assumes "resumes read y" "cuts num read y v" "cut_to f (json_text num v)" "c \<in> {CHR '','', CHR '']'', CHR 0x7D}"
    "parse_value read n (f @ y) = Some (w, r)"
  shows "eat c r = None"
proof (cases "f = []")
  case True
  then have "r = []" using assms(1,5) by (auto simp: resumes_def)
  then show ?thesis by simp
next
  case False
  then have "stuck r" using assms(2,3,5) by (auto simp: cuts_def halts_def)
  moreover have "c \<in> {CHR '','', CHR '']'', CHR 0x7D, CHR '':''}" using assms(4) by auto
  ultimately show ?thesis by (rule stuck_eat)
qed

lemma stuck_colon: "stuck r \<Longrightarrow> eat (CHR '':'') r = None"
  by (rule stuck_eat) simp_all

lemma resumes_eats:
  assumes "resumes read y"
  shows "eat (CHR '','') y = None" "eat (CHR '']'') y = None" "eat (CHR 0x7D) y = None" "eat (CHR 0x22) y = None" "eat (CHR '':'') y = None"
  by (rule resumes_eat [OF assms]; simp)+

lemma cut_items:
  assumes "number_text num read" "resumes read y"
  shows "xs \<noteq> [] \<Longrightarrow> list_all canonical xs \<Longrightarrow> list_all (cuts num read y) xs \<Longrightarrow>
    cut_to f (join_with '','' (map (json_text num) xs) @ '']'') \<Longrightarrow> parse_items read n (f @ y) = None"
proof (induction xs arbitrary: f n)
  case (Cons v xs)
  note eats = resumes_eats [OF assms(2)]
  let ?rest = "if xs = [] then '']'' else '','' @ join_with '','' (map (json_text num) xs) @ '']''"
  show ?case
  proof (cases n)
    case (Suc m)
    have "cut_to f (json_text num v @ ?rest)" using Cons.prems(4) by (cases xs) simp_all
    then consider "cut_to f (json_text num v)" | g where "f = json_text num v @ g" "cut_to g ?rest" by (auto simp: cut_append)
    then show ?thesis
    proof cases
      case 1
      have "eat c r = None" if "parse_value read m (f @ y) = Some (w, r)" "c \<in> {CHR '','', CHR '']'', CHR 0x7D}" for w r c
        using cut_value [OF assms(2) _ 1 that(2,1)] Cons.prems(3) by simp
      then show ?thesis using Suc by (cases "parse_value read m (f @ y)") auto
    next
      case (2 g)
      then consider "g = []" | h where "g = CHR '','' # h" "xs \<noteq> []" "cut_to h (join_with '','' (map (json_text num) xs) @ '']'')"
        by (auto simp: cut_Cons split: if_splits)
      then show ?thesis
      proof cases
        case 1
        then have "parse_value read m (f @ y) = None \<or> parse_value read m (f @ y) = Some (v, y)"
          using text_or_none [OF assms(1), of v y] Cons.prems(2) 2(1) resumes_ends [OF assms(2)] by simp
        then show ?thesis using Suc eats by auto
      next
        case (2 h)
        then have "parse_value read m (f @ y) = None \<or> parse_value read m (f @ y) = Some (v, CHR '','' # h @ y)"
          using text_or_none [OF assms(1), of v "CHR '','' # h @ y"] Cons.prems(2) \<open>f = json_text num v @ g\<close> by simp
        moreover have "parse_items read m (h @ y) = None" by (rule Cons.IH) (use 2 Cons.prems in auto)
        ultimately show ?thesis using Suc by auto
      qed
    qed
  qed simp
qed simp

lemma cut_members:
  assumes "number_text num read" "resumes read y"
  shows "kvs \<noteq> [] \<Longrightarrow> list_all (\<lambda>kv. canonical (snd kv) \<and> cuts num read y (snd kv)) kvs \<Longrightarrow>
    cut_to f (join_with '','' (map (member_text num) kvs) @ [CHR 0x7D]) \<Longrightarrow> parse_members read n acc (f @ y) = None"
proof (induction kvs arbitrary: f n acc)
  case (Cons kv kvs)
  note eats = resumes_eats [OF assms(2)]
  obtain k v where kv: "kv = (k, v)" by (cases kv)
  let ?rest = "if kvs = [] then [CHR 0x7D] else '','' @ join_with '','' (map (member_text num) kvs) @ [CHR 0x7D]"
  show ?case
  proof (cases n)
    case (Suc m)
    have "cut_to f (json_quote k @ '':'' @ json_text num v @ ?rest)" using Cons.prems(3) kv by (cases kvs) simp_all
    then consider "cut_to f (json_quote k)" | g where "f = json_quote k @ g" "cut_to g ('':'' @ json_text num v @ ?rest)" by (auto simp: cut_append)
    then show ?thesis
    proof cases
      case 1
      then consider "f = []" | f' where "f = CHR 0x22 # f'" "cut_to f' (concat (map json_escape k) @ [CHR 0x22])"
        by (auto simp: json_quote_def cut_Cons)
      then show ?thesis
      proof cases
        case 1
        then show ?thesis using Suc eats by simp
      next
        case (2 f')
        then have "halts (parse_chars (f' @ y))" using cut_chars [OF assms(2)] by blast
        then show ?thesis using Suc 2(1) stuck_colon by (cases "parse_chars (f' @ y)") (auto simp: halts_def)
      qed
    next
      case (2 g)
      have q: "eat (CHR 0x22) (f @ y) = Some (concat (map json_escape k) @ CHR 0x22 # g @ y)"
        "parse_chars (concat (map json_escape k) @ CHR 0x22 # g @ y) = Some (k, g @ y)"
        using 2(1) by (simp_all add: json_quote_def parse_quoted)
      from 2(2) consider "g = []" | g' where "g = CHR '':'' # g'" "cut_to g' (json_text num v)"
        | h where "g = CHR '':'' # json_text num v @ h" "cut_to h ?rest"
        by (auto simp: cut_append cut_Cons)
      then show ?thesis
      proof cases
        case 1
        then show ?thesis using Suc q eats by simp
      next
        case (2 g')
        have "eat c r = None" if "parse_value read m (g' @ y) = Some (w, r)" "c \<in> {CHR '','', CHR '']'', CHR 0x7D}" for w r c
          using cut_value [OF assms(2) _ 2(2) that(2,1)] Cons.prems(2) kv by simp
        then show ?thesis using Suc q 2(1) by (cases "parse_value read m (g' @ y)") (auto simp: eat_def)
      next
        case (3 h)
        then consider "h = []" | h' where "h = CHR '','' # h'" "kvs \<noteq> []" "cut_to h' (join_with '','' (map (member_text num) kvs) @ [CHR 0x7D])"
          by (auto simp: cut_Cons split: if_splits)
        then show ?thesis
        proof cases
          case 1
          then have "parse_value read m (json_text num v @ h @ y) = None \<or> parse_value read m (json_text num v @ h @ y) = Some (v, y)"
            using text_or_none [OF assms(1), of v y] Cons.prems(2) kv resumes_ends [OF assms(2)] by simp
          then show ?thesis using Suc q 3(1) eats by (auto simp: eat_def [of "CHR '':''"] is_space_def)
        next
          case (2 h')
          then have "parse_value read m (json_text num v @ h @ y) = None \<or> parse_value read m (json_text num v @ h @ y) = Some (v, CHR '','' # h' @ y)"
            using text_or_none [OF assms(1), of v "CHR '','' # h' @ y"] Cons.prems(2) kv by simp
          moreover have "parse_members read m acc' (h' @ y) = None" for acc' by (rule Cons.IH) (use 2 Cons.prems in auto)
          ultimately show ?thesis using Suc q 3(1) by (auto simp: eat_def [of "CHR '':''"] is_space_def)
        qed
      qed
    qed
  qed simp
qed simp

section \<open>Every value\<close>

lemma cut_keyword:
  assumes "resumes read y" "w \<in> {''null'', ''true'', ''false''}" "f \<noteq> []" "cut_to f w"
  shows "halts (parse_value read n (f @ y))"
proof -
  have "parse_value read (Suc k) (f @ y) = None" for k
    using assms(2-) assms(1) by (auto simp: cut_Cons keyword_def resumes_def)
  then show ?thesis by (cases n) simp_all
qed

lemma cuts_all:
  assumes "number_text num read" "resumes read y"
  shows "canonical v \<Longrightarrow> cuts num read y v"
proof (induction v)
  case (JNum q)
  show ?case unfolding cuts_def
  proof (intro allI impI)
    fix f n assume f: "f \<noteq> []" "cut_to f (json_text num (JNum q))"
    then have all: "list_all number_char f"
      using assms(1) by (auto simp: number_text_def cut_to_def strict_prefix_def prefix_def list_all_iff) (metis Un_iff set_append)
    obtain c g where c: "f = c # g" using f(1) by (cases f) auto
    have "dropWhile number_char (f @ y) = y"
      using all resumes_ends [OF assms(2)] by (auto simp: list_all_iff ends_def dropWhile_append) (metis dropWhile_eq_self_iff)
    then have "halts (parse_number read (f @ y))"
      using resumes_stuck [OF assms(2)] by (auto simp: parse_number_def halts_def)
    moreover have "number_char c" using all c by simp
    ultimately show "halts (parse_value read n (f @ y))" using c number_char_plain [of c] by (cases n) auto
  qed
next
  case (JStr s)
  show ?case unfolding cuts_def
  proof (intro allI impI)
    fix f n assume f: "f \<noteq> []" "cut_to f (json_text num (JStr s))"
    then obtain g where g: "f = CHR 0x22 # g" "cut_to g (concat (map json_escape s) @ [CHR 0x22])" by (auto simp: json_quote_def cut_Cons)
    then show "halts (parse_value read n (f @ y))" using cut_chars [OF assms(2) g(2)] by (cases n) simp_all
  qed
next
  case (JArr xs)
  have all: "list_all canonical xs" "list_all (cuts num read y) xs" using JArr by (auto simp: list_all_iff)
  show ?case unfolding cuts_def
  proof (intro allI impI)
    fix f n assume f: "f \<noteq> []" "cut_to f (json_text num (JArr xs))"
    then obtain g where g: "f = CHR ''['' # g" "cut_to g (join_with '','' (map (json_text num) xs) @ '']'')" by (auto simp: cut_Cons)
    have items: "parse_items read m (g @ y) = None" for m
    proof (cases "xs = []")
      case True
      then have "g = []" using g(2) by (simp add: cut_Cons)
      moreover have "parse_items read (Suc k) y = None" for k
        using resumes_eats [OF assms(2)] assms(2) by (cases "parse_value read k y") (fastforce simp: resumes_def)+
      ultimately show ?thesis by (cases m) (simp_all del: parse_items.simps(2))
    qed (use cut_items [OF assms _ all g(2)] in blast)
    have "eat (CHR '']'') (g @ y) = None"
    proof (cases "g = []")
      case False
      then obtain v vs where xs: "xs = v # vs" using g(2) by (cases xs) (auto simp: cut_Cons)
      obtain c r where c: "json_text num v = c # r" "\<not> is_space c" "c \<noteq> CHR '']''" by (rule text_head [OF assms(1)])
      then have "\<exists>z. join_with '','' (map (json_text num) xs) @ '']'' = c # z" using xs by (cases vs) auto
      then show ?thesis using g(2) False c by (auto simp: cut_Cons)
    qed (use resumes_eats [OF assms(2)] in simp)
    then show "halts (parse_value read n (f @ y))" using g(1) items by (cases n) simp_all
  qed
next
  case (JObj kvs)
  have all: "list_all (\<lambda>kv. canonical (snd kv) \<and> cuts num read y (snd kv)) kvs"
    unfolding list_all_iff
  proof
    fix kv assume kv: "kv \<in> set kvs"
    moreover have "snd kv \<in> Basic_BNFs.snds kv" by (cases kv) (simp add: prod_set_simps)
    ultimately show "canonical (snd kv) \<and> cuts num read y (snd kv)" using JObj.IH [of kv "snd kv"] JObj.prems by (auto simp: list_all_iff)
  qed
  show ?case unfolding cuts_def
  proof (intro allI impI)
    fix f n assume f: "f \<noteq> []" "cut_to f (json_text num (JObj kvs))"
    then obtain g where g: "f = CHR 0x7B # g" "cut_to g (join_with '','' (map (member_text num) kvs) @ [CHR 0x7D])" by (auto simp: cut_Cons)
    have members: "parse_members read m [] (g @ y) = None" for m
    proof (cases "kvs = []")
      case True
      then have "g = []" using g(2) by (simp add: cut_Cons)
      then show ?thesis using resumes_eats [OF assms(2)] by (cases m) simp_all
    qed (use cut_members [OF assms _ all g(2)] in blast)
    have "eat (CHR 0x7D) (g @ y) = None"
    proof (cases "g = []")
      case False
      then obtain kv kws where kvs: "kvs = kv # kws" using g(2) by (cases kvs) (auto simp: cut_Cons)
      then have "\<exists>z. join_with '','' (map (member_text num) kvs) @ [CHR 0x7D] = CHR 0x22 # z" by (cases kws) (auto simp: json_quote_def)
      then show ?thesis using g(2) False by (auto simp: cut_Cons)
    qed (use resumes_eats [OF assms(2)] in simp)
    then show "halts (parse_value read n (f @ y))" using g(1) members by (cases n) simp_all
  qed
next
  case JNull
  show ?case using cut_keyword [OF assms(2), of "''null''"] by (simp add: cuts_def del: parse_value.simps)
next
  case (JBool b)
  show ?case using cut_keyword [OF assms(2), of "''true''"] cut_keyword [OF assms(2), of "''false''"]
    by (simp add: cuts_def del: parse_value.simps)
qed

text \<open>A line that was cut and continued by a whole one.\<close>

theorem torn_text_fails:
  assumes "number_text num read" "resumes read y" "canonical v" "f \<noteq> []" "cut_to f (json_text num v)"
  shows "json_parse read (f @ y) = None"
proof (cases "parse_value read (Suc (length (f @ y))) (f @ y)")
  case (Some r)
  then have "stuck (snd r)"
    using cuts_all [OF assms(1,2,3)] assms(4,5) by (cases r) (auto simp: cuts_def halts_def simp del: parse_value.simps)
  then show ?thesis using Some by (auto simp: json_parse_def stuck_def simp del: parse_value.simps split: prod.splits)
qed (simp add: json_parse_def)

end
