(* ===== verification/JsonlTorn.thy ===== *)
theory JsonlTorn
  imports JsonlCrash JsonTorn
begin

text \<open>
  What \<open>applyCommit\<close> does not undo: an append that fails after it wrote something leaves its characters in the file, and
  the storage goes on. The next commit is acknowledged, and the session cannot be opened any more.
\<close>

lemma replay_lines_append:
  assumes "number_text num read"
  shows "list_all (list_all write_ok) txs \<Longrightarrow> rfold replay_committed st txs = Inr st' \<Longrightarrow>
    replay_lines read i st (map (serialize_jsonl_transaction num) txs @ ls) = replay_lines read (i + length txs) st' ls"
proof (induction txs arbitrary: st i)
  case (Cons ws txs)
  then obtain s1 where "replay_committed st ws = Inr s1" "rfold replay_committed s1 txs = Inr st'" by (auto simp: result_simps)
  then show ?case using Cons transaction_roundtrip [OF assms, of ws] by simp
qed simp

lemma open_fails:
  assumes "number_text num read" "header_ok h" "list_all (list_all write_ok) txs" "rfold replay_committed new_storage_state txs = Inr s0"
    "\<forall>l \<in> set ls. line_end \<notin> set l" "stored f = Some (file_text num h txs @ lines_text ls)"
    "replay_lines read (2 + length txs) s0 ls = Inl e"
  shows "open_jsonl is_date read fate f = (f, Some (Inl e))"
proof -
  let ?ls = "json_text num (header_json h) # map (serialize_jsonl_transaction num) txs @ ls"
  have t: "stored f = Some (lines_text ?ls @ [])" using assms(6) by (simp add: file_text_lines)
  have "\<forall>l \<in> set ?ls. line_end \<notin> set l" using assms(1,5) by (auto simp: text_no_newline serialize_no_newline)
  then have s: "split_complete_lines (lines_text ?ls @ []) = (?ls, False)" using split_complete [of ?ls "[]"] by simp
  have "open_state read h ?ls = Inl e"
    using replay_lines_append [OF assms(1,3,4), of 2 ls] assms(2,7) by (simp add: open_state_def header_ok_def)
  then show ?thesis using t s read_header [OF assms(1,2), of is_date txs "lines_text ls"] assms(6)
    by (simp add: open_jsonl_def open_v4_def)
qed

section \<open>Two texts on one line\<close>

lemma transaction_canonical: "list_all write_ok ws \<Longrightarrow> canonical (transaction_json ws)"
  by (auto simp: transaction_json_def list_all_iff write_ok_canonical split: list.splits)

lemma write_text: "\<exists>t. json_text num (write_json w) = CHR 0x7B # CHR 0x22 # CHR ''k'' # t"
  by (cases w) (simp_all add: json_quote_def json_escape_def)

lemma parse_two: "parse_chars (CHR 0x7B # CHR 0x22 # r) = Some ([CHR 0x7B], r)"
  by (simp add: parse_plain) (subst parse_chars.simps, simp)

lemma transaction_resumes:
  assumes "number_text num read" "list_all write_ok ws" "ws \<noteq> []"
  shows "resumes read (serialize_jsonl_transaction num ws)"
proof -
  let ?y = "serialize_jsonl_transaction num ws"
  have "snd r = []" if "parse_value read n ?y = Some r" for n r
    using text_or_none [OF assms(1) transaction_canonical [OF assms(2)], of "[]" n] that
    by (auto simp: serialize_jsonl_transaction_def simp del: parse_value.simps)
  moreover obtain w ws' where ws: "ws = w # ws'" using assms(3) by (cases ws) auto
  moreover obtain t where t: "json_text num (write_json w) = CHR 0x7B # CHR 0x22 # CHR ''k'' # t" using write_text by blast
  have "\<exists>t. ?y = CHR 0x7B # CHR 0x22 # CHR ''k'' # t \<or> ?y = CHR ''['' # CHR 0x7B # CHR 0x22 # CHR ''k'' # t"
    using ws t by (cases ws') (auto simp: serialize_jsonl_transaction_def transaction_json_def)
  moreover have "halts (parse_chars (CHR 0x7B # CHR 0x22 # CHR ''k'' # u))" "halts (parse_chars (CHR ''['' # CHR 0x7B # CHR 0x22 # CHR ''k'' # u))" for u
    by (simp_all add: parse_two parse_plain [of "CHR ''[''"] halts_def stuck_def is_space_def)
  ultimately show ?thesis unfolding resumes_def by fastforce
qed

lemma two_texts_fail:
  assumes "number_text num read" "list_all write_ok ws" "list_all write_ok ws'" "ws' \<noteq> []" "f \<noteq> []"
    "prefix f (serialize_jsonl_transaction num ws)"
  shows "json_parse read (f @ serialize_jsonl_transaction num ws') = None"
proof (cases "f = serialize_jsonl_transaction num ws")
  case True
  let ?y = "serialize_jsonl_transaction num ws'"
  have y: "resumes read ?y" by (rule transaction_resumes [OF assms(1,3,4)])
  then have "skip_space ?y \<noteq> []" by (auto simp: resumes_def)
  then show ?thesis
    using text_or_none [OF assms(1) transaction_canonical [OF assms(2)] resumes_ends [OF y], of "Suc (length (f @ ?y))"] True
    by (auto simp: json_parse_def serialize_jsonl_transaction_def simp del: parse_value.simps)
next
  case False
  then have "cut_to f (json_text num (transaction_json ws))"
    using assms(6) by (auto simp: cut_to_def strict_prefix_def serialize_jsonl_transaction_def)
  then show ?thesis
    using torn_text_fails [OF assms(1) transaction_resumes [OF assms(1,3,4)] transaction_canonical [OF assms(2)] assms(5)] by blast
qed

section \<open>The session is lost\<close>

text \<open>C7. When an append fails after it has written at least one character and the storage is used further, the next commit is
  acknowledged, and from then on the session cannot be opened: either two transactions share a line, or two lines have the
  same sequence numbers.\<close>

theorem failed_append_loses_session:
  assumes "number_text num read" "header_ok h" "session_run num read is_date h f (Some st) txs"
    "apply_commit num (TornAfter n) f st ws ts = (f1, st1, Inl FileFailed)" "0 < n" "list_all write_ok (commit_writes ws (next_seq st) ts)"
    "apply_commit num Appended f1 st1 ws' ts' = (f2, st2, Inr (p, t))" "pwrites p \<noteq> []" "list_all write_ok (pwrites p)"
  shows "\<exists>e. open_jsonl is_date read fate f2 = (f2, Some (Inl e))"
proof -
  have h: "list_all (list_all write_ok) txs" "replay_txs h txs = Inr st" "stored f = Some (file_text num h txs)"
    using run_holds [OF assms(1-3)] by (auto simp: file_holds_def)
  obtain s0 where s0: "rfold replay_committed new_storage_state txs = Inr s0" using h(2) by (auto simp: replay_txs_def result_simps)
  obtain q where q: "prepare_commit st ws ts = Inr q" "pwrites q \<noteq> []" "st1 = st"
    "stored f1 = Some (file_text num h txs @ take n (line_of num (pwrites q)))"
    using assms(4) h(3) by (auto simp: apply_commit_def append_line_def split: sum.splits if_splits prod.splits)
  have q_ok: "list_all write_ok (pwrites q)" using prepared [OF q(1)] assms(6) by simp
  have p: "prepare_commit st ws' ts' = Inr p" "stored f2 = Some (file_text num h txs @ take n (line_of num (pwrites q)) @ line_of num (pwrites p))"
    using assms(7,8) q(3,4) by (auto simp: apply_commit_def append_line_def map_sum_Inr split: sum.splits if_splits prod.splits)
  let ?t = "serialize_jsonl_transaction num"
  show ?thesis
  proof (cases "n < length (line_of num (pwrites q))")
    case True
    then have take: "take n (line_of num (pwrites q)) = take n (?t (pwrites q))" by (simp add: line_of_def)
    let ?l = "take n (?t (pwrites q)) @ ?t (pwrites p)"
    have "?t (pwrites q) \<noteq> []" using transaction_resumes [OF assms(1) q_ok q(2)] by (auto simp: resumes_def)
    then have "json_parse read ?l = None"
      using two_texts_fail [OF assms(1) q_ok assms(9,8)] assms(5) by (simp add: take_is_prefix)
    then have "replay_lines read (2 + length txs) s0 [?l] = Inl (InvalidLine (2 + length txs) NotJson)"
      by (simp add: parse_jsonl_transaction_def)
    moreover have "stored f2 = Some (file_text num h txs @ lines_text [?l])" using p(2) take by (simp add: line_of_def)
    moreover have "\<forall>l \<in> set [?l]. line_end \<notin> set l" using serialize_no_newline [OF assms(1)] by (auto dest: in_set_takeD)
    ultimately show ?thesis using open_fails [OF assms(1,2) h(1) s0] by blast
  next
    case False
    have lines: "stored f2 = Some (file_text num h txs @ lines_text [?t (pwrites q), ?t (pwrites p)])"
      using p(2) False by (simp add: line_of_def)
    have bad: "\<exists>e. replay_lines read i s0 [?t (pwrites q), ?t (pwrites p)] = Inl e" for i
    proof (cases "replay_committed s0 (pwrites q)")
      case (Inr s1)
      then have "next_seq s1 = committed_seq (last (pwrites q)) + 1"
        using apply_validated_seq q(2) unfolding replay_committed_Inr by blast
      moreover have "next_seq st \<le> committed_seq (last (pwrites q))"
      proof -
        have "committed_seq (last (pwrites q)) \<in> set (map committed_seq (pwrites q))" using q(2) by simp
        then show ?thesis using prepared [OF q(1)] commit_writes_seqs [of ws "next_seq st" ts] by auto
      qed
      moreover have "committed_seq (hd (pwrites p)) = next_seq st"
        using prepared [OF p(1)] assms(8) by (cases ws') auto
      ultimately have "replay_committed s1 (pwrites p) = Inl (NonMonotonicSeq (next_seq st))"
        using assms(8) by (cases "pwrites p") (auto simp: replay_committed_def validate_committed_def validate_committed_writes_def)
      then show ?thesis using Inr transaction_roundtrip [OF assms(1) q_ok] transaction_roundtrip [OF assms(1,9)] by simp
    qed (use transaction_roundtrip [OF assms(1) q_ok] in simp)
    then obtain e where "replay_lines read (2 + length txs) s0 [?t (pwrites q), ?t (pwrites p)] = Inl e" by blast
    moreover have "\<forall>l \<in> set [?t (pwrites q), ?t (pwrites p)]. line_end \<notin> set l" using serialize_no_newline [OF assms(1)] by auto
    ultimately show ?thesis using open_fails [OF assms(1,2) h(1) s0 _ lines] by blast
  qed
qed

lemma failed_append_loses_session_witness:
  "\<exists>f1 f2 st2 r e. apply_commit sample_num (TornAfter 1) sample_file (sample_state 1) [WValueSet ''app'' ''k'' JNull] 7 =
      (f1, sample_state 1, Inl FileFailed) \<and>
    apply_commit sample_num Appended f1 (sample_state 1) [WValueSet ''app'' ''k'' JNull] 7 = (f2, st2, Inr r) \<and>
    open_jsonl (\<lambda>_. True) sample_read Published f2 = (f2, Some (Inl e))"
proof -
  let ?ws = "[WValueSet ''app'' ''k'' JNull] :: rat new_write list"
  let ?l = "line_of sample_num [sample_row 2]"
  let ?f1 = "sample_file\<lparr>stored := map_option (\<lambda>s. s @ take 1 ?l) (stored sample_file)\<rparr>"
  let ?f2 = "?f1\<lparr>stored := map_option (\<lambda>s. s @ ?l) (stored ?f1)\<rparr>"
  let ?p = "\<lparr>pwrites = [sample_row 2], first_seq = 2, seqs = [2], ptimestamp = 7\<rparr>"
  have p: "prepare_commit (sample_state 1) ?ws 7 = Inr ?p" using sample_prepare(2) [of 1] by simp
  have c1: "apply_commit sample_num (TornAfter 1) sample_file (sample_state 1) ?ws 7 = (?f1, sample_state 1, Inl FileFailed)"
    by (simp add: apply_commit_def p append_line_def)
  have c2: "apply_commit sample_num Appended ?f1 (sample_state 1) ?ws 7 = (?f2, sample_state 2, Inr (?p, empty_stats))"
    using sample_apply(2) [of 1] by (simp add: apply_commit_def p append_line_def del: apply_validated.simps)
  have "write_ok (sample_row 2)" by (rule sample_row_ok) (simp add: safe_seq_def)
  then have ok: "list_all write_ok (commit_writes ?ws (next_seq (sample_state 1)) 7)" "list_all write_ok (pwrites ?p)"
    using prepared [OF p] by (metis list.pred_inject prepared_commit.select_convs(1))+
  have "\<exists>e. open_jsonl (\<lambda>_. True) sample_read Published ?f2 = (?f2, Some (Inl e))"
    by (rule failed_append_loses_session [OF sample_number_text sample_header_ok sample_created c1 _ ok(1) c2 _ ok(2)]) simp_all
  then show ?thesis using c1 c2 by metis
qed

end
