(* ===== verification/Spec2Isabelle.thy ===== *)
theory Spec2Isabelle
  imports DeltaSound DeltaCodec Protocol SessionFork SessionLine Truncate ToolRun LaneAbort CompactionKeeps FramesLive StdinTokens EditTool AgentClass TransformMessages JsonlTorn
begin

text \<open>
  This library models the core of the agent monorepo under \<open>src/packages\<close>: the JSON deltas of \<open>chord\<close>, the
  binary protocol of \<open>protocol\<close>, the sessions with their JSONL files and the lane runtime of \<open>agent\<close>, its agent
  loop, its class \<open>Agent\<close> and its edit tool, the message transforms of \<open>ai\<close>, and the terminal input of \<open>tui\<close>.

  \<^bold>\<open>The parts and how they interact.\<close> A session is an append-only tree of entries with a store of scalar and
  list values. Every change is a transaction that runs on one mutation line per session. A harness opens a
  session and restores its lanes from it; a lane's commands and the steps of its current operation are
  planners that read the lane's state and the store and commit one transaction each. Commits publish events,
  which observers reduce to a snapshot of a lane. State crosses process boundaries as JSON deltas, CBOR
  payloads and length-prefixed frames. Beside this durable runtime stands the agent loop, which runs the turns of a
  model with its tools in memory; the class \<open>Agent\<close> drives it and reduces its events to a transcript. The messages of
  a transcript are transformed before a model gets them.

  \<^bold>\<open>Theories and the code they model.\<close>
  \<^item> \<open>Prelude\<close>: error results (\<open>rbind\<close>, \<open>rguard\<close>, \<open>rfold\<close>, \<open>rmap\<close>), own properties of a JavaScript object as an
    ordered association list (\<open>own_get\<close>, \<open>own_set\<close>, \<open>own_del\<close>), decimal numerals.
  \<^item> \<open>Json\<close>, \<open>DeltaOp\<close>, \<open>DeltaApply\<close>, \<open>DeltaDiff\<close>, \<open>DeltaCodec\<close>: \<open>chord/src/delta/index.ts\<close>, with its validators,
    \<open>apply\<close>, \<open>diffValue\<close>, and the wire encoder and decoder with their tables of interned paths.
    \<open>DeltaSound\<close> proves that applying a diff gives the new value.
  \<^item> \<open>Utf\<close>, \<open>Cbor\<close>, \<open>CborSound\<close>, \<open>CborRoundtrip\<close>: \<open>protocol/src/cbor\<close>. Bytes are \<open>8 word\<close>, strings are lists of UTF-16
    units, a writer is a buffer that doubles. \<open>Framing\<close> is \<open>protocol/src/framing.ts\<close>, \<open>Protocol\<close> composes both as
    \<open>protocol/src/codec.ts\<close> does.
  \<^item> \<open>SessionTypes\<close> (\<open>session/values.ts\<close>, \<open>types.ts\<close>, \<open>commit.ts\<close>), \<open>SessionState\<close> and \<open>SessionInvariant\<close>
    (\<open>in-memory-storage-state.ts\<close>), \<open>SessionPath\<close> (branch scans), \<open>SessionFork\<close> (\<open>fork-policy.ts\<close> and forks),
    \<open>SessionBranch\<close> (\<open>session.ts\<close>, \<open>context.ts\<close>), \<open>SessionLine\<close> (\<open>mutation-line.ts\<close> as a step relation).
  \<^item> \<open>RuntimeTypes\<close> (the operation state of \<open>session/types.ts\<close>), \<open>LaneSnapshot\<close> (\<open>runtime/reducer.ts\<close>),
    \<open>LaneRestore\<close> (\<open>runtime/restore.ts\<close>), \<open>LaneStore\<close> (the store as the runtime addresses it, \<open>transcript.ts\<close>),
    \<open>LaneCommand\<close> (\<open>runtime/lane.ts\<close>, \<open>harness.ts\<close>), \<open>LaneSync\<close> (the contract of a planner as a locale, with an
    interpretation per command), \<open>LaneRestart\<close> (whole histories of calls), \<open>LaneAbort\<close> (accepted aborts, with the
    contract of a step on a cancelled operation and of a command as locales, and the terminal transaction).
  \<^item> The commands of a drive pass: \<open>DriveSteps\<close> (\<open>drive/boundary.ts\<close>, \<open>checkpoint.ts\<close>, \<open>terminal.ts\<close>,
    \<open>reconcile.ts\<close>), \<open>DriveResponse\<close> (\<open>generation.ts\<close>, \<open>response.ts\<close>, \<open>recovery.ts\<close>, \<open>deferred.ts\<close>, and the
    classification of errors in \<open>ai/src/utils\<close>), \<open>DriveTools\<close> (\<open>tools.ts\<close>, \<open>tool-placement.ts\<close>,
    \<open>execution/tools.ts\<close>, \<open>progress.ts\<close>), \<open>DriveSummary\<close> (\<open>structural.ts\<close>). Each planner keeps the contract of
    \<open>LaneSync\<close>.
  \<^item> \<open>ToolBatch\<close>, \<open>ToolOrder\<close>, \<open>ToolRun\<close>: what holds of a lane's tool batch, as locales for planners that keep it,
    update it, place results or start it, and the step relation of a harness with its crashes.
  \<^item> \<open>CompactionText\<close> (\<open>harness/messages.ts\<close>, \<open>compaction/utils.ts\<close>), \<open>CompactionPlan\<close> (estimates, cut points and the
    preparation of \<open>compaction/compaction.ts\<close>), \<open>SummaryRequest\<close> (its requests, and \<open>branch-summarization.ts\<close>);
    \<open>CompactionKeeps\<close> proves what a compaction keeps. The texts of the prompts and the decimal text of a number are
    fields of \<open>summary_env\<close>. A runtime takes the preparation as the parameter \<open>prepare_compaction\<close>, which
    \<open>prepare_entries\<close> describes.
  \<^item> \<open>AssistantFrames\<close>: \<open>ai/src/utils/assistant-message-frame.ts\<close>, the frames in which a response is stored while it
    streams, and their replay; \<open>FramesLive\<close> adds the producer, which writes to the message while its events wait.
    \<open>JsonText\<close> is the text of a JSON value that both use.
  \<^item> \<open>Truncate\<close>: \<open>agent/src/harness/utils/truncate.ts\<close>.
  \<^item> \<open>JsonParse\<close>: \<open>JSON.parse\<close> for the texts that \<open>JsonText\<close> writes, with the reading of a number as an argument;
    \<open>JsonTorn\<close>: no proper beginning of an object's text is a text. \<open>JsonlText\<close>, \<open>JsonlFile\<close>: \<open>session/jsonl\<close>, format 4, the
    lines of a session file, and its creation, opening and commits, where a file operation may fail or be cut off
    by a crash after any number of characters (its fate is an argument). \<open>JsonlCrash\<close> and \<open>JsonlTorn\<close> prove what is
    recovered and what is not.
  \<^item> \<open>TextSearch\<close>, \<open>EditDiff\<close>, \<open>EditTool\<close>: \<open>harness/tools/edit-diff.ts\<close> and \<open>edit.ts\<close>; \<open>EditApply\<close>, \<open>EditFuzzy\<close> and
    \<open>EditShow\<close> prove what an edit changes and that a displayed diff is true. NFKC normalization and \<open>diffLines\<close> of the
    package \<open>diff\<close> are arguments, with their documented behaviour as named hypotheses.
  \<^item> \<open>AgentLoop\<close>: \<open>agent/src/agent-loop.ts\<close>, in a state monad over a world (the model, tools, hooks, listeners, the abort
    signal and the clock, all arbitrary) and the emitted events. \<open>AgentTurns\<close>, \<open>AgentEvents\<close> and \<open>AgentRun\<close> prove what
    every run adds, tells and returns. \<open>AgentClass\<close>: \<open>agent/src/agent.ts\<close>; a run that throws is an argument \<open>fault\<close>,
    which says where.
  \<^item> \<open>TransformMessages\<close>: \<open>ai/src/api/transform-messages.ts\<close>; the normalization of an id is an argument.
  \<^item> \<open>StdinBuffer\<close>: \<open>tui/src/stdin-buffer.ts\<close>, over UTF-16 units; a timer is the delay it was set for. \<open>StdinTokens\<close>
    proves what it recovers of a stream of keys and pastes.

  \<^bold>\<open>State and operations.\<close> Classes are records, methods are functions from a record to a record and a result,
  errors are the left summand of a sum. Maps keep their insertion order. Numbers of tokens and costs are of an
  arbitrary type with zero and addition; JSON numbers are rationals. Ids and clocks are arguments, and so are the
  answers of models, tools and hooks, the patterns that classify a provider's error text, and the reduction of a
  message's frames (\<open>runtime_config\<close>). Promises are resolved by the order of calls; where the order matters it is
  a step relation: \<open>line_step\<close> for the mutation line, \<open>harness_step\<close> for the commands of a harness, the reading of
  staged results and crashes.

  \<^bold>\<open>What the lemmas show.\<close> Round trips and exactness of the codecs, for every chunking of a stream; that
  commits keep the session invariant, are atomic and can be replayed; that branches stay readable, forks
  isolate and end; that the mutation line is serial and that everything admitted settles under every schedule; that the memory of a harness and its
  session never disagree, so that a restart restores every lane; that in every interleaving of commands and
  crashes tool results are placed in the order of their calls; that a compaction summarizes or retains every
  message and retains as much as its budget allows, with the two cases where it loses the previous summary or
  summarizes nothing; that the stored frames of a response replay to the live message as far as it was read; that
  cancelled operations commit no ordinary step any more and end only as aborted, and what their terminal
  transaction removes; that observers see each tool once and the transcript exactly. A session file opens, after
  any run of commits, crashes and openings, with exactly the committed transactions, but not after an append that
  failed half-way and was followed by a commit. An edit changes the pieces it names and no others, a fuzzy edit keeps
  every line no replacement touches, and the rows of a displayed diff are true. The agent loop answers the calls of
  every turn in order, its events follow a protocol that tells exactly the returned messages, it ends when its
  stop hook insists, and an agent is idle after every run, ended or thrown, with a transcript that extends the old
  one. Transformed messages have every call answered. The input buffer recovers keys and pastes from every chunking.

  \<^bold>\<open>Loops.\<close> Loops without an obvious measure are \<open>partial_function (option)\<close>: \<open>grow\<close> (the buffer of the CBOR writer),
  \<open>fill\<close> and \<open>push_loop\<close> (framing), \<open>walk\<close> (branch scans), \<open>fork_loop\<close>. For each, it is proved that the result is
  \<open>Some\<close>. The agent loop, \<open>run_loop\<close>, need not end; what is proved of its iterations holds for every number of them, and
  \<open>graceful_stop_returns\<close> says when it returns. The JSON parser has fuel: \<open>json_parse\<close> gives it the length of the
  text, which \<open>parse_text\<close> shows to be enough for every text that is written and \<open>parse_fuel\<close> shows not to matter beyond
  that. \<open>process\<close>, \<open>extract_complete\<close> and \<open>complete_from\<close> (terminal input), \<open>split_str\<close> and \<open>end_line_from\<close> (edits) have
  measures.

  \<^bold>\<open>Not modelled.\<close> File, process and network access; the schemas of the protocol's messages (a parameter);
  floating-point values of CBOR beyond their bit patterns; the tracking proxy of the deltas; the dispatch of a
  drive pass and its effect gate; events' marks of recovery; format 3 of the JSONL files, the repository of session
  files and their forks; tools other than the edit tool, and its queue of mutations per file; the executions of a
  parallel batch that go on after the run has thrown; the clients of model providers, the terminal user interface
  and the coding agent's application layer.
\<close>

end
